(* ===== verification/Prelude.thy ===== *)
theory Prelude
  imports Main "HOL-Library.Word"
begin

text \<open>
  The prelude of the development: names for Go's machine integers, the result type of
  fallible code, slices, little-endian encoding (\<^verbatim>\<open>encoding/binary\<close>), the binary
  search of \<^verbatim>\<open>sort.Search\<close>, and the generic lemmas on them that the component
  theories share.

  Conventions. An unsigned \<open>w\<close>-bit Go integer is a \<open>w word\<close>: arithmetic wraps and
  \<open><\<close> is the unsigned order, as in Go. A signed \<open>int64\<close> is a \<open>64 word\<close> too, because
  Go's conversions between \<open>int64\<close> and \<open>uint64\<close> keep the bits; it is compared through
  \<open>sint\<close>. A Go \<open>error\<close> result is an \<open>option\<close> (\<open>None\<close> is \<open>nil\<close>), a result with
  an error is \<open>error + 'a\<close>.
\<close>

unbundle bit_operations_syntax

type_synonym u8 = "8 word"
type_synonym u16 = "16 word"
type_synonym u32 = "32 word"
type_synonym u64 = "64 word"
type_synonym i64 = "64 word"
type_synonym bytes = "u8 list"

named_theorems slice_simps "rewriting of reads and writes at offsets"
named_theorems le_simps "little-endian encode and decode"

section \<open>Results\<close>

definition bindE :: "'e + 'a \<Rightarrow> ('a \<Rightarrow> 'e + 'b) \<Rightarrow> 'e + 'b" where
  "bindE m f = (case m of Inl e \<Rightarrow> Inl e | Inr x \<Rightarrow> f x)"

lemma bindE_Inl [simp]: "bindE (Inl e) f = Inl e"
  by (simp add: bindE_def)

lemma bindE_Inr [simp]: "bindE (Inr x) f = f x"
  by (simp add: bindE_def)

lemma bindE_eq_Inr_iff: "bindE m f = Inr y \<longleftrightarrow> (\<exists>x. m = Inr x \<and> f x = Inr y)"
  by (cases m) auto

lemma bindE_eq_Inl_iff: "bindE m f = Inl e \<longleftrightarrow> m = Inl e \<or> (\<exists>x. m = Inr x \<and> f x = Inl e)"
  by (cases m) auto

text \<open>An early return: \<^verbatim>\<open>if err := f(); err != nil { return err }\<close>.\<close>

definition failE :: "'e option \<Rightarrow> 'e + 'a \<Rightarrow> 'e + 'a" where
  "failE err k = (case err of Some e \<Rightarrow> Inl e | None \<Rightarrow> k)"

lemma failE_simps [simp]: "failE None k = k" "failE (Some e) k = Inl e"
  by (simp_all add: failE_def)

lemma failE_eq_Inr_iff: "failE err k = Inr y \<longleftrightarrow> err = None \<and> k = Inr y"
  by (cases err) auto

lemma failE_eq_Inl_iff: "failE err k = Inl e \<longleftrightarrow> err = Some e \<or> (err = None \<and> k = Inl e)"
  by (cases err) auto

section \<open>Slices\<close>

text \<open>
  \<open>go_slice xs lo hi\<close> is \<^verbatim>\<open>xs[lo:hi]\<close>, where \<open>None\<close> is the run-time panic;
  \<open>sub xs off n\<close> is the same read once it is known to be in range, and \<open>put xs off ys\<close>
  stores \<open>ys\<close> at an offset.
\<close>

definition sub :: "'a list \<Rightarrow> nat \<Rightarrow> nat \<Rightarrow> 'a list" where
  "sub xs off n = take n (drop off xs)"

definition go_slice :: "'a list \<Rightarrow> nat \<Rightarrow> nat \<Rightarrow> 'a list option" where
  "go_slice xs lo hi = (if lo \<le> hi \<and> hi \<le> length xs then Some (sub xs lo (hi - lo)) else None)"

definition put :: "'a list \<Rightarrow> nat \<Rightarrow> 'a list \<Rightarrow> 'a list" where
  "put xs off ys = take off xs @ ys @ drop (off + length ys) xs"

lemma length_sub [slice_simps]: "off + n \<le> length xs \<Longrightarrow> length (sub xs off n) = n"
  by (simp add: sub_def)

lemma length_put [slice_simps]: "off + length ys \<le> length xs \<Longrightarrow> length (put xs off ys) = length xs"
  by (simp add: put_def)

lemma sub_0_append [slice_simps]: "length xs = n \<Longrightarrow> sub (xs @ ys) 0 n = xs"
  by (simp add: sub_def)

lemma sub_0_all [slice_simps]: "length xs = n \<Longrightarrow> sub xs 0 n = xs"
  by (simp add: sub_def)

lemma sub_append_right [slice_simps]:
  "length xs \<le> off \<Longrightarrow> sub (xs @ ys) off n = sub ys (off - length xs) n"
  by (simp add: sub_def)

lemma sub_0_append_long [slice_simps]:
  "length xs \<le> n \<Longrightarrow> sub (xs @ ys) 0 n = xs @ sub ys 0 (n - length xs)"
  by (simp add: sub_def)

lemma sub_replicate [slice_simps]: "off + n \<le> m \<Longrightarrow> sub (replicate m x) off n = replicate n x"
  by (simp add: sub_def min_def)

lemma put_append_right [slice_simps]:
  "length xs \<le> off \<Longrightarrow> put (xs @ zs) off ys = xs @ put zs (off - length xs) ys"
  by (simp add: put_def)

lemma put_Cons [slice_simps]: "0 < off \<Longrightarrow> put (x # zs) off ys = x # put zs (off - 1) ys"
  using put_append_right [of "[x]" off zs ys] by simp

lemma sub_Cons [slice_simps]: "0 < off \<Longrightarrow> sub (x # zs) off n = sub zs (off - 1) n"
  by (cases off) (simp_all add: sub_def)

lemma put_at_start [slice_simps]: "put zs 0 ys = ys @ drop (length ys) zs"
  by (simp add: put_def)

lemma sub_split: "off + m + n \<le> length xs \<Longrightarrow> sub xs off m @ sub xs (off + m) n = sub xs off (m + n)"
  by (simp add: sub_def take_add add.commute)

lemma sub_join:
  "b = a + m \<Longrightarrow> a + m + n \<le> length xs \<Longrightarrow> sub xs a m @ sub xs b n = sub xs a (m + n)"
  by (simp add: sub_split)

lemma sub_sub: "a + m \<le> n \<Longrightarrow> sub (sub xs off n) a m = sub xs (off + a) m"
  by (simp add: sub_def drop_take min_def ac_simps)

lemma sub_beyond: "sub (sub xs 0 n) off m = sub xs off m" if "off + m \<le> n"
  using that sub_sub [of off m n xs 0] by simp

lemma sub_put_before [slice_simps]:
  "a + n \<le> off \<Longrightarrow> off \<le> length xs \<Longrightarrow> sub (put xs off ys) a n = sub xs a n"
  by (auto simp: sub_def put_def drop_take min_def)

lemma nth_sub: "i < n \<Longrightarrow> off + n \<le> length xs \<Longrightarrow> sub xs off n ! i = xs ! (off + i)"
  by (simp add: sub_def)

lemma go_slice_Some [slice_simps]:
  "lo \<le> hi \<Longrightarrow> hi \<le> length xs \<Longrightarrow> go_slice xs lo hi = Some (sub xs lo (hi - lo))"
  by (simp add: go_slice_def)

lemma put_replicate [slice_simps]:
  "off + length ys \<le> n \<Longrightarrow>
   put (replicate n x) off ys = replicate off x @ ys @ replicate (n - (off + length ys)) x"
  by (simp add: put_def min_def)

section \<open>Go's signed arithmetic\<close>

text \<open>
  A Go \<^verbatim>\<open>int\<close> (64 bits on every platform the format's bounds are written for) that
  is computed with is an \<open>int\<close> wrapped back into range by \<open>wrap64\<close>; \<open>go_quot\<close> is
  Go's \<^verbatim>\<open>/\<close>, which truncates towards zero, and \<open>go_rem\<close> its \<^verbatim>\<open>%\<close>.
\<close>

definition wrap64 :: "int \<Rightarrow> int" where
  "wrap64 x = (x + 2 ^ 63) mod 2 ^ 64 - 2 ^ 63"

definition go_quot :: "int \<Rightarrow> int \<Rightarrow> int" where
  "go_quot a b = sgn a * sgn b * (\<bar>a\<bar> div \<bar>b\<bar>)"

definition go_rem :: "int \<Rightarrow> int \<Rightarrow> int" where
  "go_rem a b = a - b * go_quot a b"

lemma wrap64_id: "- (2 ^ 63) \<le> x \<Longrightarrow> x < 2 ^ 63 \<Longrightarrow> wrap64 x = x"
  by (simp add: wrap64_def)

lemma go_quot_nonneg: "0 \<le> a \<Longrightarrow> 0 < b \<Longrightarrow> go_quot a b = a div b"
  by (cases "a = 0") (simp_all add: go_quot_def)

definition maxInt :: int where "maxInt = 2 ^ 63 - 1"

section \<open>Unsigned 64-bit arithmetic without wrap-around\<close>

text \<open>
  The idiom of \<^verbatim>\<open>validateHeader\<close>: a count is compared with the headroom left above
  \<open>e\<close>, divided by the stride, before \<open>e\<close> is advanced.
\<close>

lemma le_headroom: "u < M \<Longrightarrow> x \<le> M - 1 - u \<longleftrightarrow> u + x < M" for x u M :: nat
  by arith

lemma unat_headroom_iff:
  fixes e n :: u64
  assumes "0 < k" "k < 2 ^ 64"
  shows "n \<le> (NOT 0 - e) div of_nat k \<longleftrightarrow> unat e + unat n * k < 2 ^ 64"
proof -
  have k: "unat (of_nat k :: u64) = k"
    using assms by (simp add: unat_of_nat take_bit_nat_eq_self)
  have "unat (NOT 0 - e) = 2 ^ 64 - 1 - unat e"
  proof -
    have "unat (NOT 0 - e :: u64) = unat (NOT 0 :: u64) - unat e"
      by (rule unat_sub) simp
    then show ?thesis
      by (simp add: unsigned_minus_1_eq_mask mask_eq_exp_minus_1)
  qed
  then have "n \<le> (NOT 0 - e) div of_nat k \<longleftrightarrow> unat n \<le> (2 ^ 64 - 1 - unat e) div k"
    by (simp add: word_le_nat_alt unat_div k)
  also have "\<dots> \<longleftrightarrow> unat n * k \<le> 2 ^ 64 - 1 - unat e"
    using assms(1) by (rule less_eq_div_iff_mult_less_eq)
  also have "\<dots> \<longleftrightarrow> unat e + unat n * k < 2 ^ 64"
    by (rule le_headroom) (use unsigned_less [where 'a = nat, of e] in simp)
  finally show ?thesis .
qed

lemma unat_advance:
  fixes e n :: u64
  assumes "unat e + unat n * k < 2 ^ 64"
  shows "unat (e + n * of_nat k) = unat e + unat n * k"
proof -
  have "e + n * of_nat k = of_nat (unat e + unat n * k)"
    by simp
  also have "unat \<dots> = unat e + unat n * k"
    using assms by (simp only: unat_of_nat) (simp add: take_bit_nat_eq_self)
  finally show ?thesis .
qed

section \<open>Little-endian integers\<close>

text \<open>
  \<^verbatim>\<open>binary.LittleEndian.PutUintN\<close> stores byte \<open>i\<close> as \<^verbatim>\<open>byte(v >> (8*i))\<close>;
  \<^verbatim>\<open>UintN\<close> ors the bytes back, byte \<open>i\<close> shifted left by \<open>8*i\<close>.
\<close>

definition le_bytes :: "nat \<Rightarrow> 'a::len word \<Rightarrow> bytes" where
  "le_bytes n w = map (\<lambda>i. ucast (drop_bit (8 * i) w)) [0..<n]"

primrec le_word :: "bytes \<Rightarrow> 'a::len word" where
  "le_word [] = 0"
| "le_word (b # bs) = ucast b OR push_bit 8 (le_word bs)"

lemma length_le_bytes [simp]: "length (le_bytes n w) = n"
  by (simp add: le_bytes_def)

lemma bit_le_word:
  "bit (le_word bs :: 'a::len word) k \<longleftrightarrow>
     k < LENGTH('a) \<and> k div 8 < length bs \<and> bit (bs ! (k div 8)) (k mod 8)"
proof (induction bs arbitrary: k)
  case Nil
  then show ?case by simp
next
  case (Cons b bs)
  show ?case
  proof (cases "k < 8")
    case True
    then show ?thesis
      by (auto simp: bit_or_iff bit_push_bit_iff bit_ucast_iff)
  next
    case False
    then have k: "k div 8 = Suc ((k - 8) div 8)" "k mod 8 = (k - 8) mod 8"
      by (simp_all add: le_div_geq le_mod_geq)
    have "\<not> bit b k"
      using False bit_imp_le_length [of b k] by auto
    then show ?thesis
      using False k Cons.IH [of "k - 8"]
      by (auto simp: bit_or_iff bit_push_bit_iff bit_ucast_iff)
  qed
qed

lemma nth_le_bytes: "i < n \<Longrightarrow> le_bytes n w ! i = ucast (drop_bit (8 * i) w)"
  by (simp add: le_bytes_def)

lemma le_word_le_bytes:
  fixes w :: "'a::len word"
  assumes "LENGTH('a) \<le> 8 * n"
  shows "le_word (le_bytes n w) = w"
proof (rule bit_word_eqI)
  fix k assume k: "k < LENGTH('a)"
  with assms have "k div 8 < n" by arith
  then show "bit (le_word (le_bytes n w) :: 'a word) k \<longleftrightarrow> bit w k"
    using k by (simp add: bit_le_word nth_le_bytes bit_ucast_iff bit_drop_bit_eq)
qed

lemma le_bytes_le_word:
  assumes "length bs = n" and "8 * n \<le> LENGTH('a::len)"
  shows "le_bytes n (le_word bs :: 'a word) = bs"
proof (rule nth_equalityI)
  show "length (le_bytes n (le_word bs :: 'a word)) = length bs"
    using assms by simp
next
  fix i assume "i < length (le_bytes n (le_word bs :: 'a word))"
  then have i: "i < n" by simp
  show "le_bytes n (le_word bs :: 'a word) ! i = bs ! i"
  proof (rule bit_word_eqI)
    fix k assume k: "k < LENGTH(8)"
    then have "(8 * i + k) div 8 = i" "(8 * i + k) mod 8 = k" by auto
    moreover have "8 * i + k < LENGTH('a)"
      using i k assms(2) by simp
    ultimately show "bit (le_bytes n (le_word bs :: 'a word) ! i) k \<longleftrightarrow> bit (bs ! i) k"
      using i k assms(1) by (simp add: nth_le_bytes bit_ucast_iff bit_drop_bit_eq bit_le_word)
  qed
qed

text \<open>The three widths the source uses, as reads and writes at an offset.\<close>

definition Uint16 :: "bytes \<Rightarrow> nat \<Rightarrow> u16" where
  "Uint16 src off = le_word (sub src off 2)"

definition Uint32 :: "bytes \<Rightarrow> nat \<Rightarrow> u32" where
  "Uint32 src off = le_word (sub src off 4)"

definition Uint64 :: "bytes \<Rightarrow> nat \<Rightarrow> u64" where
  "Uint64 src off = le_word (sub src off 8)"

definition PutUint16 :: "bytes \<Rightarrow> nat \<Rightarrow> u16 \<Rightarrow> bytes" where
  "PutUint16 dst off v = put dst off (le_bytes 2 v)"

definition PutUint32 :: "bytes \<Rightarrow> nat \<Rightarrow> u32 \<Rightarrow> bytes" where
  "PutUint32 dst off v = put dst off (le_bytes 4 v)"

definition PutUint64 :: "bytes \<Rightarrow> nat \<Rightarrow> u64 \<Rightarrow> bytes" where
  "PutUint64 dst off v = put dst off (le_bytes 8 v)"

lemma le_word_16 [le_simps]: "le_word (le_bytes 2 w) = (w :: u16)"
  by (rule le_word_le_bytes) simp

lemma le_word_32 [le_simps]: "le_word (le_bytes 4 w) = (w :: u32)"
  by (rule le_word_le_bytes) simp

lemma le_word_64 [le_simps]: "le_word (le_bytes 8 w) = (w :: u64)"
  by (rule le_word_le_bytes) simp

lemma le_bytes_Uint16 [le_simps]: "off + 2 \<le> length src \<Longrightarrow> le_bytes 2 (Uint16 src off) = sub src off 2"
  by (simp add: Uint16_def le_bytes_le_word length_sub)

lemma le_bytes_Uint32 [le_simps]: "off + 4 \<le> length src \<Longrightarrow> le_bytes 4 (Uint32 src off) = sub src off 4"
  by (simp add: Uint32_def le_bytes_le_word length_sub)

lemma le_bytes_Uint64 [le_simps]: "off + 8 \<le> length src \<Longrightarrow> le_bytes 8 (Uint64 src off) = sub src off 8"
  by (simp add: Uint64_def le_bytes_le_word length_sub)

lemmas le_reads = Uint16_def Uint32_def Uint64_def
lemmas le_writes = PutUint16_def PutUint32_def PutUint64_def

lemma unat_ucast_up:
  fixes x :: "'a::len word"
  assumes "LENGTH('a) \<le> LENGTH('b::len)"
  shows "unat (ucast x :: 'b word) = unat x"
proof -
  have "unat x < 2 ^ LENGTH('b)"
    using assms unsigned_less [of x] by (meson less_le_trans one_le_numeral power_increasing)
  then show ?thesis
    by (simp add: unsigned_ucast_eq take_bit_nat_eq_self)
qed

lemma le_bytes_inject:
  "LENGTH('a::len) \<le> 8 * n \<Longrightarrow> le_bytes n (v :: 'a word) = le_bytes n w \<longleftrightarrow> v = w"
  by (metis le_word_le_bytes)

text \<open>A run of 64-bit integers, as the indexes of the format store them.\<close>

definition u64s_bytes :: "u64 list \<Rightarrow> bytes" where
  "u64s_bytes ws = concat (map (le_bytes 8) ws)"

definition u64s_at :: "bytes \<Rightarrow> nat \<Rightarrow> u64 list" where
  "u64s_at src n = map (\<lambda>i. Uint64 src (i * 8)) [0..<n]"

lemma length_u64s_bytes [simp]: "length (u64s_bytes ws) = 8 * length ws"
  by (induction ws) (simp_all add: u64s_bytes_def)

lemma length_u64s_at [simp]: "length (u64s_at src n) = n"
  by (simp add: u64s_at_def)

lemma u64s_bytes_append: "u64s_bytes (vs @ ws) = u64s_bytes vs @ u64s_bytes ws"
  by (simp add: u64s_bytes_def)

lemma u64s_bytes_snoc: "u64s_bytes (ws @ [w]) = u64s_bytes ws @ le_bytes 8 w"
  by (simp add: u64s_bytes_def)

lemma u64s_at_Suc: "u64s_at src (Suc n) = u64s_at src n @ [Uint64 src (n * 8)]"
  by (simp add: u64s_at_def)

lemma u64s_at_add:
  "u64s_at src (n + m) = u64s_at src n @ map (\<lambda>i. Uint64 src (i * 8)) [n..<n + m]"
  using upt_add_eq_append [of 0 n m] by (simp add: u64s_at_def)

lemma u64s_at_append: "8 * n \<le> length xs \<Longrightarrow> u64s_at (xs @ ys) n = u64s_at xs n"
  by (auto simp: u64s_at_def Uint64_def sub_def)

lemma u64s_at_bytes: "u64s_at (u64s_bytes ws @ rest) (length ws) = ws"
proof (induction ws arbitrary: rest rule: rev_induct)
  case Nil
  show ?case by (simp add: u64s_at_def)
next
  case (snoc w ws)
  then show ?case
    by (simp add: u64s_at_Suc u64s_bytes_snoc Uint64_def slice_simps le_simps)
qed

lemma u64s_bytes_at: "8 * n \<le> length src \<Longrightarrow> u64s_bytes (u64s_at src n) = take (8 * n) src"
proof (induction n)
  case 0
  show ?case by (simp add: u64s_bytes_def u64s_at_def)
next
  case (Suc n)
  then have "u64s_bytes (u64s_at src (Suc n)) = take (8 * n) src @ sub src (n * 8) 8"
    by (simp add: u64s_at_Suc u64s_bytes_snoc le_simps)
  also have "\<dots> = take (8 * Suc n) src"
    using take_add [of "8 * n" 8 src] by (simp add: sub_def mult.commute add.commute)
  finally show ?case .
qed

section \<open>Binary search\<close>

text \<open>\<^verbatim>\<open>sort.Search(n, f)\<close>: the loop of the Go standard library.\<close>

function search_loop :: "(nat \<Rightarrow> bool) \<Rightarrow> nat \<Rightarrow> nat \<Rightarrow> nat" where
  "search_loop f i j =
     (if i < j then
        let h = (i + j) div 2
        in if \<not> f h then search_loop f (h + 1) j else search_loop f i h
      else i)"
  by pat_completeness auto
termination
  by (relation "measure (\<lambda>(f, i, j). j - i)") auto

declare search_loop.simps [simp del]

definition sort_Search :: "nat \<Rightarrow> (nat \<Rightarrow> bool) \<Rightarrow> nat" where
  "sort_Search n f = search_loop f 0 n"

lemma search_loop_correct:
  assumes "i \<le> j" and "\<And>a b. i \<le> a \<Longrightarrow> a \<le> b \<Longrightarrow> b < j \<Longrightarrow> f a \<Longrightarrow> f b"
  shows "i \<le> search_loop f i j \<and> search_loop f i j \<le> j
    \<and> (\<forall>k. i \<le> k \<and> k < search_loop f i j \<longrightarrow> \<not> f k)
    \<and> (\<forall>k. search_loop f i j \<le> k \<and> k < j \<longrightarrow> f k)"
  using assms
proof (induction f i j rule: search_loop.induct)
  case (1 f i j)
  let ?h = "(i + j) div 2" and ?r = "search_loop f i j"
  show ?case
  proof (cases "i < j")
    case False
    then have "search_loop f i j = i"
      by (simp add: search_loop.simps [of f i j])
    with False "1.prems"(1) show ?thesis by auto
  next
    case ij: True
    show ?thesis
    proof (cases "f ?h")
      case False
      have eq: "search_loop f i j = search_loop f (?h + 1) j"
        using ij False by (simp add: search_loop.simps [of f i j] Let_def)
      have low: "\<not> f k" if "i \<le> k" "k < ?h + 1" for k
      proof -
        have "?h < j" using ij by simp
        with that False "1.prems"(2) [of k ?h] show ?thesis by auto
      qed
      have IH: "?h + 1 \<le> ?r \<and> ?r \<le> j \<and> (\<forall>k. ?h + 1 \<le> k \<and> k < ?r \<longrightarrow> \<not> f k)
          \<and> (\<forall>k. ?r \<le> k \<and> k < j \<longrightarrow> f k)"
        unfolding eq
      proof (rule "1.IH"(1) [OF ij refl False])
        show "?h + 1 \<le> j" using ij by simp
        show "f b" if "?h + 1 \<le> a" "a \<le> b" "b < j" "f a" for a b
        proof -
          have "i \<le> a" using that(1) ij by simp
          with that "1.prems"(2) show ?thesis by blast
        qed
      qed
      moreover have "\<forall>k. i \<le> k \<and> k < ?r \<longrightarrow> \<not> f k"
        using IH low by (metis not_le)
      ultimately show ?thesis
        using ij by auto
    next
      case True
      have eq: "search_loop f i j = search_loop f i ?h"
        using ij True by (simp add: search_loop.simps [of f i j] Let_def)
      have high: "f k" if "?h \<le> k" "k < j" for k
      proof -
        have "i \<le> ?h" using ij by simp
        with that True "1.prems"(2) [of ?h k] show ?thesis by auto
      qed
      have IH: "i \<le> ?r \<and> ?r \<le> ?h \<and> (\<forall>k. i \<le> k \<and> k < ?r \<longrightarrow> \<not> f k)
          \<and> (\<forall>k. ?r \<le> k \<and> k < ?h \<longrightarrow> f k)"
        unfolding eq
      proof (rule "1.IH"(2) [OF ij refl])
        show "\<not> \<not> f ?h" using True by simp
        show "i \<le> ?h" using ij by simp
        show "f b" if "i \<le> a" "a \<le> b" "b < ?h" "f a" for a b
        proof -
          have "b < j" using that(3) ij by simp
          with that "1.prems"(2) show ?thesis by blast
        qed
      qed
      moreover have "\<forall>k. ?r \<le> k \<and> k < j \<longrightarrow> f k"
        using IH high by (metis not_le)
      ultimately show ?thesis
        using ij by auto
    qed
  qed
qed

text \<open>What \<^verbatim>\<open>sort.Search\<close> asks of its predicate: once true, it stays true.\<close>

definition upclosed :: "nat \<Rightarrow> (nat \<Rightarrow> bool) \<Rightarrow> bool" where
  "upclosed n f \<longleftrightarrow> (\<forall>a b. a \<le> b \<and> b < n \<and> f a \<longrightarrow> f b)"

lemma sort_Search_correct:
  assumes "upclosed n f"
  shows "sort_Search n f \<le> n" "\<And>k. k < sort_Search n f \<Longrightarrow> \<not> f k"
    "\<And>k. sort_Search n f \<le> k \<Longrightarrow> k < n \<Longrightarrow> f k"
proof -
  have m: "f b" if "a \<le> b" "b < n" "f a" for a b
    using assms that unfolding upclosed_def by blast
  have "0 \<le> sort_Search n f \<and> sort_Search n f \<le> n
    \<and> (\<forall>k. 0 \<le> k \<and> k < sort_Search n f \<longrightarrow> \<not> f k)
    \<and> (\<forall>k. sort_Search n f \<le> k \<and> k < n \<longrightarrow> f k)"
    unfolding sort_Search_def by (rule search_loop_correct) (rule le0, rule m)
  then show "sort_Search n f \<le> n" "\<And>k. k < sort_Search n f \<Longrightarrow> \<not> f k"
    "\<And>k. sort_Search n f \<le> k \<Longrightarrow> k < n \<Longrightarrow> f k"
    by blast+
qed

end
