(* ===== verification/Store_Format.thy ===== *)
theory Store_Format
  imports Prelude
begin

text \<open>
  The record format: \<^verbatim>\<open>src/internal/store/format.go\<close> and the error values of
  \<^verbatim>\<open>src/internal/store/errors.go\<close>. A \<open>Record\<close> has the source's fields at the source's
  widths; \<open>EncodeRecord\<close> and \<open>DecodeRecordFields\<close> write and read each field at its
  offset; \<open>decodeRecord\<close> adds the checks. The theorems: encoding writes every byte of its
  64, decoding what was encoded gives the record back, and a byte string that decodes is
  exactly what encoding its record gives.
\<close>

section \<open>Errors\<close>

text \<open>
  \<^verbatim>\<open>errors.go\<close>, one constructor per sentinel. \<open>ErrIO\<close> stands for an error of the
  operating system that the package passes on, \<open>Panic\<close> for a run-time panic (an index or
  slice bound out of range).
\<close>

datatype store_error =
    ErrShortRecord | ErrRecordType | ErrSideFlags | ErrReserved | ErrUnusedFieldSet | ErrBlobLen
  | ErrShortHeader | ErrBadMagic | ErrHeaderCRC | ErrTrailerCRC | ErrPageSize
  | ErrFormatVersion | ErrNotFinalized | ErrHeaderSize | ErrBlockSize | ErrPriceScale
  | ErrRecordCount | ErrOffsetChain
  | ErrShortIndex | ErrIndexOrder | ErrIndexRange | ErrIndexCount
  | ErrShortFooter | ErrFooterGeometry | ErrBlockRange | ErrBlockChecksum
  | ErrWriterClosed | ErrWriterAborted | ErrVenueMismatch | ErrOutOfOrder | ErrDuplicateKey
  | ErrUseWriteSnapshot | ErrTooManyLevels
  | ErrHeaderRange | ErrNotSnapshot | ErrBlobOutOfRange | ErrBlobChecksum | ErrBlobLevelCount
  | ErrIO | Panic

section \<open>Layout\<close>

definition RecordSize :: nat where "RecordSize = 64"

definition offExchangeTs :: nat where "offExchangeTs = 0"
definition offSequenceNumber :: nat where "offSequenceNumber = 8"
definition offInstrumentID :: nat where "offInstrumentID = 16"
definition offVenueID :: nat where "offVenueID = 20"
definition offRecordType :: nat where "offRecordType = 22"
definition offSideFlags :: nat where "offSideFlags = 23"
definition offPrice :: nat where "offPrice = 24"
definition offSize :: nat where "offSize = 32"
definition offBlobOffset :: nat where "offBlobOffset = 40"
definition offBlobLen :: nat where "offBlobLen = 48"
definition offLevelCount :: nat where "offLevelCount = 52"
definition offReserved :: nat where "offReserved = 54"
definition lenReserved :: nat where "lenReserved = 10"

lemmas record_layout =
  RecordSize_def offExchangeTs_def offSequenceNumber_def offInstrumentID_def offVenueID_def
  offRecordType_def offSideFlags_def offPrice_def offSize_def offBlobOffset_def offBlobLen_def
  offLevelCount_def offReserved_def lenReserved_def

definition RecordTypeDelta :: u8 where "RecordTypeDelta = 0"
definition RecordTypeTrade :: u8 where "RecordTypeTrade = 1"
definition RecordTypeSnapshotPointer :: u8 where "RecordTypeSnapshotPointer = 2"
definition recordTypeCount :: u8 where "recordTypeCount = 3"

definition SideBid :: u8 where "SideBid = 0"
definition SideAsk :: u8 where "SideAsk = 1"
definition sideFlagsMask :: u8 where "sideFlagsMask = 1"

definition blobHeaderSize :: nat where "blobHeaderSize = 8"
definition levelSize :: nat where "levelSize = 16"

lemmas record_types = RecordTypeDelta_def RecordTypeTrade_def RecordTypeSnapshotPointer_def
  recordTypeCount_def SideBid_def SideAsk_def sideFlagsMask_def

record Level =
  lPrice :: i64
  lSize :: i64

record Record =
  ExchangeTs :: i64
  SequenceNumber :: u64
  InstrumentID :: u32
  VenueID :: u16
  RecordType :: u8
  SideFlags :: u8
  Price :: i64
  Size :: i64
  BlobOffset :: u64
  BlobLen :: u32
  LevelCount :: u16

text \<open>Go's zero value \<^verbatim>\<open>Record{}\<close>.\<close>

definition zeroRecord :: Record where
  "zeroRecord = \<lparr>ExchangeTs = 0, SequenceNumber = 0, InstrumentID = 0, VenueID = 0,
     RecordType = 0, SideFlags = 0, Price = 0, Size = 0, BlobOffset = 0, BlobLen = 0,
     LevelCount = 0\<rparr>"

section \<open>Operations\<close>

definition validateRecord :: "Record \<Rightarrow> store_error option" where
  "validateRecord rec =
     (if RecordType rec \<ge> recordTypeCount then Some ErrRecordType
      else if SideFlags rec AND NOT sideFlagsMask \<noteq> 0 then Some ErrSideFlags
      else if RecordType rec \<noteq> RecordTypeSnapshotPointer then
        (if BlobOffset rec \<noteq> 0 \<or> BlobLen rec \<noteq> 0 \<or> LevelCount rec \<noteq> 0
         then Some ErrUnusedFieldSet else None)
      else if Price rec \<noteq> 0 \<or> Size rec \<noteq> 0 \<or> SideFlags rec \<noteq> 0 then Some ErrUnusedFieldSet
      else if BlobLen rec < of_nat blobHeaderSize
           \<or> (BlobLen rec - of_nat blobHeaderSize) mod of_nat levelSize \<noteq> 0 then Some ErrBlobLen
      else if ucast (LevelCount rec) \<noteq> (BlobLen rec - of_nat blobHeaderSize) div of_nat levelSize
        then Some ErrBlobLen
      else None)"

text \<open>
  The destination is the caller's buffer, of any length and content; \<open>None\<close> is the panic
  of \<^verbatim>\<open>dst[:RecordSize:RecordSize]\<close> on a short one. The result is the whole buffer
  after the call.
\<close>

definition EncodeRecord :: "bytes \<Rightarrow> Record \<Rightarrow> bytes option" where
  "EncodeRecord dst rec =
     (if length dst < RecordSize then None
      else Some
        (let d = PutUint64 dst offExchangeTs (ExchangeTs rec);
             d = PutUint64 d offSequenceNumber (SequenceNumber rec);
             d = PutUint32 d offInstrumentID (InstrumentID rec);
             d = PutUint16 d offVenueID (VenueID rec);
             d = put d offRecordType [RecordType rec];
             d = put d offSideFlags [SideFlags rec];
             d = PutUint64 d offPrice (Price rec);
             d = PutUint64 d offSize (Size rec);
             d = PutUint64 d offBlobOffset (BlobOffset rec);
             d = PutUint32 d offBlobLen (BlobLen rec);
             d = PutUint16 d offLevelCount (LevelCount rec)
         in put d offReserved (replicate lenReserved 0)))"

definition DecodeRecordFields :: "bytes \<Rightarrow> Record option" where
  "DecodeRecordFields src =
     (if length src < RecordSize then None
      else Some
       \<lparr>ExchangeTs = Uint64 src offExchangeTs,
        SequenceNumber = Uint64 src offSequenceNumber,
        InstrumentID = Uint32 src offInstrumentID,
        VenueID = Uint16 src offVenueID,
        RecordType = src ! offRecordType,
        SideFlags = src ! offSideFlags,
        Price = Uint64 src offPrice,
        Size = Uint64 src offSize,
        BlobOffset = Uint64 src offBlobOffset,
        BlobLen = Uint32 src offBlobLen,
        LevelCount = Uint16 src offLevelCount\<rparr>)"

definition decodeRecord :: "bytes \<Rightarrow> store_error + Record" where
  "decodeRecord src =
     (if length src < RecordSize then Inl ErrShortRecord
      else if list_ex (\<lambda>b. b \<noteq> 0) (sub src offReserved lenReserved) then Inl ErrReserved
      else case DecodeRecordFields src of
          None \<Rightarrow> Inl Panic
        | Some rec \<Rightarrow> failE (validateRecord rec) (Inr rec))"

text \<open>\<open>sint\<close> reads the signed timestamp; the other three key fields are unsigned.\<close>

definition compareKey :: "Record \<Rightarrow> Record \<Rightarrow> int" where
  "compareKey a b =
     (if ExchangeTs a \<noteq> ExchangeTs b then
        (if sint (ExchangeTs a) < sint (ExchangeTs b) then -1 else 1)
      else if VenueID a \<noteq> VenueID b then (if VenueID a < VenueID b then -1 else 1)
      else if SequenceNumber a \<noteq> SequenceNumber b then
        (if SequenceNumber a < SequenceNumber b then -1 else 1)
      else if InstrumentID a \<noteq> InstrumentID b then
        (if InstrumentID a < InstrumentID b then -1 else 1)
      else 0)"

section \<open>The wire form of a record\<close>

text \<open>The 64 bytes a record encodes to, as one expression.\<close>

definition record_bytes :: "Record \<Rightarrow> bytes" where
  "record_bytes rec =
     le_bytes 8 (ExchangeTs rec) @ le_bytes 8 (SequenceNumber rec) @
     le_bytes 4 (InstrumentID rec) @ le_bytes 2 (VenueID rec) @ [RecordType rec] @
     [SideFlags rec] @ le_bytes 8 (Price rec) @ le_bytes 8 (Size rec) @
     le_bytes 8 (BlobOffset rec) @ le_bytes 4 (BlobLen rec) @ le_bytes 2 (LevelCount rec) @
     replicate 10 0"

lemma length_record_bytes [simp]: "length (record_bytes rec) = 64"
  by (simp add: record_bytes_def)

lemma EncodeRecord_eq:
  "EncodeRecord dst rec =
     (if length dst < 64 then None else Some (record_bytes rec @ drop 64 dst))"
  by (simp add: EncodeRecord_def record_bytes_def record_layout le_writes Let_def slice_simps)

lemma DecodeRecordFields_record_bytes: "DecodeRecordFields (record_bytes rec @ rest) = Some rec"
  by (simp add: DecodeRecordFields_def record_bytes_def record_layout le_reads nth_append
      slice_simps le_simps)

lemma reserved_record_bytes: "sub (record_bytes rec @ rest) offReserved lenReserved = replicate 10 0"
  by (simp add: record_bytes_def record_layout slice_simps)

lemma decodeRecord_record_bytes:
  "validateRecord rec = None \<Longrightarrow> decodeRecord (record_bytes rec @ rest) = Inr rec"
  by (simp add: decodeRecord_def DecodeRecordFields_record_bytes reserved_record_bytes RecordSize_def
      list_ex_iff)

lemma nth_as_sub: "i < length xs \<Longrightarrow> [xs ! i] = sub xs i 1"
  by (simp add: sub_def take_Suc_conv_app_nth hd_drop_conv_nth take_Suc)

lemma sub_split_list:
  assumes "64 \<le> length src"
  shows "sub src 0 64 = sub src 0 8 @ sub src 8 8 @ sub src 16 4 @ sub src 20 2 @ sub src 22 1 @
    sub src 23 1 @ sub src 24 8 @ sub src 32 8 @ sub src 40 8 @ sub src 48 4 @ sub src 52 2 @
    sub src 54 10"
  using assms by (simp add: sub_join)

lemma record_bytes_of_fields:
  assumes "64 \<le> length src" "sub src 54 10 = replicate 10 0"
    and "DecodeRecordFields src = Some rec"
  shows "record_bytes rec = sub src 0 64"
proof -
  have "record_bytes rec = sub src 0 8 @ sub src 8 8 @ sub src 16 4 @ sub src 20 2 @
    [src ! 22] @ [src ! 23] @ sub src 24 8 @ sub src 32 8 @ sub src 40 8 @ sub src 48 4 @
    sub src 52 2 @ sub src 54 10"
    using assms by (auto simp: record_bytes_def DecodeRecordFields_def record_layout le_simps
        simp del: append_Cons)
  then show ?thesis
    using assms(1) by (simp only: nth_as_sub sub_split_list)
qed

lemma decodeRecord_InrD:
  assumes "decodeRecord src = Inr rec"
  shows "64 \<le> length src" "validateRecord rec = None" "record_bytes rec = sub src 0 64"
proof -
  show len: "64 \<le> length src" and v: "validateRecord rec = None"
    using assms by (auto simp: decodeRecord_def RecordSize_def failE_eq_Inr_iff
        split: if_splits option.splits)
  have "sub src 54 10 = replicate 10 0"
    using assms len by (intro replicate_eqI)
      (auto simp: decodeRecord_def record_layout list_ex_iff length_sub split: if_splits)
  moreover have "DecodeRecordFields src = Some rec"
    using assms by (auto simp: decodeRecord_def failE_eq_Inr_iff split: if_splits option.splits)
  ultimately show "record_bytes rec = sub src 0 64"
    using len by (intro record_bytes_of_fields)
qed

text \<open>C1: A record that validates survives the wire format. Encoding it into any buffer of at
  least 64 bytes succeeds, keeps the rest of the buffer, and decoding the buffer gives the record
  back, whatever the buffer held before.\<close>

theorem record_roundtrip:
  assumes "validateRecord rec = None" and "RecordSize \<le> length dst"
  shows "\<exists>out. EncodeRecord dst rec = Some out \<and> length out = length dst
    \<and> drop RecordSize out = drop RecordSize dst \<and> decodeRecord out = Inr rec"
  using assms by (simp add: EncodeRecord_eq RecordSize_def decodeRecord_record_bytes)

definition example_delta :: Record where
  "example_delta = zeroRecord\<lparr>ExchangeTs := -5, SequenceNumber := 7, InstrumentID := 3,
     VenueID := 9, SideFlags := 1, Price := 100, Size := 12\<rparr>"

theorem record_roundtrip_witness:
  "validateRecord example_delta = None \<and> (\<exists>out. EncodeRecord (replicate 70 255) example_delta = Some out
     \<and> length out = 70 \<and> drop RecordSize out = drop RecordSize (replicate 70 255)
     \<and> decodeRecord out = Inr example_delta)"
proof -
  have v: "validateRecord example_delta = None"
    by (simp add: validateRecord_def example_delta_def zeroRecord_def record_types)
  have l: "RecordSize \<le> length (replicate 70 (255 :: u8))"
    by (simp add: RecordSize_def)
  show ?thesis
    using v record_roundtrip [OF v l] by simp
qed

text \<open>The format is canonical. If a byte string decodes to a record, then re-encoding that
  record, into any buffer of 64 bytes, reproduces the 64 bytes it was decoded from.\<close>

theorem decode_then_encode:
  assumes "decodeRecord src = Inr rec" and "length dst = RecordSize"
  shows "EncodeRecord dst rec = Some (take RecordSize src)"
  using assms decodeRecord_InrD [OF assms(1)] by (simp add: EncodeRecord_eq RecordSize_def sub_def)

theorem decode_then_encode_witness:
  "EncodeRecord (replicate 64 255) example_delta = Some (take RecordSize (record_bytes example_delta))"
proof (rule decode_then_encode)
  show "decodeRecord (record_bytes example_delta) = Inr example_delta"
    using decodeRecord_record_bytes [of example_delta "[]"]
    by (simp add: validateRecord_def example_delta_def zeroRecord_def record_types)
  show "length (replicate 64 (255 :: u8)) = RecordSize"
    by (simp add: RecordSize_def)
qed

section \<open>Facts the other components use\<close>

lemma validate_snapshotD:
  assumes "validateRecord rec = None" "RecordType rec = RecordTypeSnapshotPointer"
  shows "unat (BlobLen rec) = 8 + 16 * unat (LevelCount rec)"
proof -
  have le: "8 \<le> BlobLen rec" and m: "(BlobLen rec - 8) mod 16 = 0"
    and d: "ucast (LevelCount rec) = (BlobLen rec - 8) div 16"
    using assms by (auto simp: validateRecord_def record_types blobHeaderSize_def levelSize_def
        not_less split: if_splits)
  have s: "unat (BlobLen rec - 8) = unat (BlobLen rec) - 8"
    using le by (simp add: unat_sub)
  have "unat (BlobLen rec - 8) = 16 * unat ((BlobLen rec - 8) div 16) + unat ((BlobLen rec - 8) mod 16)"
    by (simp add: unat_div unat_mod)
  also have "unat ((BlobLen rec - 8) div 16) = unat (LevelCount rec)"
    by (simp flip: d add: unat_ucast_up)
  finally show ?thesis
    using s m le by (simp add: word_le_nat_alt)
qed

end
