(* ===== verification/Crc32c.thy ===== *)
theory Crc32c
  imports Prelude
begin

text \<open>
  CRC-32C as \<^verbatim>\<open>hash/crc32\<close> computes it over the Castagnoli table of
  \<^verbatim>\<open>src/internal/store/crc.go\<close>. The locale \<open>running_checksum\<close> states what the
  store relies on: a checksum can be carried across the pieces of its input, which is how
  \<^verbatim>\<open>Writer.append\<close> builds a block's checksum record by record and how
  \<^verbatim>\<open>CanonicalHasher\<close> hashes a stream.
\<close>

text \<open>One bit of the reflected division by the Castagnoli polynomial.\<close>

definition crc_bit :: "u32 \<Rightarrow> u32" where
  "crc_bit c = (if bit c 0 then drop_bit 1 c XOR 0x82F63B78 else drop_bit 1 c)"

text \<open>Entry \<open>i\<close> of \<^verbatim>\<open>crc32.MakeTable(crc32.Castagnoli)\<close>.\<close>

definition castagnoli :: "u8 \<Rightarrow> u32" where
  "castagnoli i = (crc_bit ^^ 8) (ucast i)"

definition crc_byte :: "u32 \<Rightarrow> u8 \<Rightarrow> u32" where
  "crc_byte c v = castagnoli (ucast c XOR v) XOR drop_bit 8 c"

definition crc32_Update :: "u32 \<Rightarrow> bytes \<Rightarrow> u32" where
  "crc32_Update crc p = NOT (foldl crc_byte (NOT crc) p)"

definition crc32_Checksum :: "bytes \<Rightarrow> u32" where
  "crc32_Checksum p = crc32_Update 0 p"

locale running_checksum =
  fixes upd :: "'c \<Rightarrow> 'b list \<Rightarrow> 'c"
  assumes upd_Nil: "upd c [] = c"
    and upd_append: "upd c (p @ q) = upd (upd c p) q"
begin

lemma upd_concat: "foldl upd c ps = upd c (concat ps)"
  by (induction ps arbitrary: c) (simp_all add: upd_Nil upd_append)

lemma upd_snoc: "upd c (concat (ps @ [p])) = upd (upd c (concat ps)) p"
  by (simp add: upd_append)

end

interpretation crc: running_checksum crc32_Update
  by unfold_locales (simp_all add: crc32_Update_def)

lemma crc32_Checksum_append: "crc32_Checksum (p @ q) = crc32_Update (crc32_Checksum p) q"
  by (simp add: crc32_Checksum_def crc.upd_append)

lemma crc32_Checksum_Nil [simp]: "crc32_Checksum [] = 0"
  by (simp add: crc32_Checksum_def crc.upd_Nil)

end
