(* ===== verification/Sha256.thy ===== *)
theory Sha256
  imports Prelude
begin

text \<open>
  SHA-256 as \<^verbatim>\<open>crypto/sha256\<close> computes it (FIPS 180-4), the attestation hash of
  \<^verbatim>\<open>src/internal/store/canonical.go\<close>. A \<^verbatim>\<open>hash.Hash\<close> is modelled by the bytes written
  to it: \<^verbatim>\<open>Write\<close> appends, \<^verbatim>\<open>Sum\<close> hashes what was written.
\<close>

definition rotr :: "nat \<Rightarrow> u32 \<Rightarrow> u32" where
  "rotr n x = (drop_bit n x) OR (push_bit (32 - n) x)"

text \<open>
  The constants are the first 32 bits of the fractional parts of cube roots and square roots of the
  first primes. \<open>iroot k n\<close> is the integer part of the \<open>k\<close>-th root, found bit by bit;
  \<open>frac_root k p\<close> scales \<open>p\<close> by \<open>2^32\<close> under the root and keeps the low 32 bits.
\<close>

definition iroot :: "nat \<Rightarrow> int \<Rightarrow> int" where
  "iroot k n = foldl (\<lambda>r b. if (r + 2 ^ b) ^ k \<le> n then r + 2 ^ b else r) 0 (rev [0..<40])"

definition frac_root :: "nat \<Rightarrow> int \<Rightarrow> u32" where
  "frac_root k p = word_of_int (iroot k (p * 2 ^ (32 * k)))"

definition small_primes :: "int list" where
  "small_primes = filter (\<lambda>n. list_all (\<lambda>d. n mod d \<noteq> 0) [2..n - 1]) [2..311]"

definition sha_K :: "u32 list" where
  "sha_K = map (frac_root 3) small_primes"

definition sha_H0 :: "u32 list" where
  "sha_H0 = map (frac_root 2) [2, 3, 5, 7, 11, 13, 17, 19]"

definition be_word :: "bytes \<Rightarrow> u32" where
  "be_word bs = foldl (\<lambda>w b. push_bit 8 w OR ucast b) 0 bs"

definition be_bytes :: "nat \<Rightarrow> 'a::len word \<Rightarrow> bytes" where
  "be_bytes n w = rev (le_bytes n w)"

text \<open>The message schedule, most recent word first.\<close>

primrec sha_extend :: "nat \<Rightarrow> u32 list \<Rightarrow> u32 list" where
  "sha_extend 0 ws = ws"
| "sha_extend (Suc n) ws =
     (let w2 = ws ! 1; w7 = ws ! 6; w15 = ws ! 14; w16 = ws ! 15;
          s0 = rotr 7 w15 XOR rotr 18 w15 XOR drop_bit 3 w15;
          s1 = rotr 17 w2 XOR rotr 19 w2 XOR drop_bit 10 w2
      in sha_extend n ((w16 + s0 + w7 + s1) # ws))"

definition sha_schedule :: "bytes \<Rightarrow> u32 list" where
  "sha_schedule chunk = rev (sha_extend 48 (rev (map (\<lambda>i. be_word (sub chunk (4 * i) 4)) [0..<16])))"

definition sha_round :: "u32 list \<Rightarrow> u32 \<times> u32 \<Rightarrow> u32 list" where
  "sha_round v kw =
     (let a = v ! 0; b = v ! 1; c = v ! 2; d = v ! 3; e = v ! 4; f = v ! 5; g = v ! 6; h = v ! 7;
          t1 = h + (rotr 6 e XOR rotr 11 e XOR rotr 25 e) + ((e AND f) XOR (NOT e AND g)) + fst kw + snd kw;
          t2 = (rotr 2 a XOR rotr 13 a XOR rotr 22 a) + ((a AND b) XOR (a AND c) XOR (b AND c))
      in [t1 + t2, a, b, c, d + t1, e, f, g])"

definition sha_block :: "u32 list \<Rightarrow> bytes \<Rightarrow> u32 list" where
  "sha_block hs chunk = map2 (+) hs (foldl sha_round hs (zip sha_K (sha_schedule chunk)))"

text \<open>The padding: a one bit, zeros to 56 modulo 64, the length in bits.\<close>

definition sha_pad :: "bytes \<Rightarrow> bytes" where
  "sha_pad m = m @ [0x80] @ replicate ((119 - length m mod 64) mod 64) 0
     @ be_bytes 8 (of_nat (8 * length m) :: u64)"

definition sha256 :: "bytes \<Rightarrow> bytes" where
  "sha256 m =
     (let p = sha_pad m;
          hs = foldl (\<lambda>hs i. sha_block hs (sub p (64 * i) 64)) sha_H0 [0..<length p div 64]
      in concat (map (be_bytes 4) hs))"

lemma length_sha_H0: "length sha_H0 = 8"
  by (simp add: sha_H0_def)

lemma length_sha_round [simp]: "length (sha_round v kw) = 8"
  by (simp add: sha_round_def Let_def)

lemma length_sha_rounds: "length hs = 8 \<Longrightarrow> length (foldl sha_round hs kws) = 8"
  by (induction kws arbitrary: hs) simp_all

lemma length_sha_block: "length hs = 8 \<Longrightarrow> length (sha_block hs chunk) = 8"
  by (simp add: sha_block_def length_sha_rounds)

lemma length_sha_blocks:
  "length hs = 8 \<Longrightarrow> length (foldl (\<lambda>hs i. sha_block hs (sub p (64 * i) 64)) hs is) = 8"
  by (induction "is" arbitrary: hs) (simp_all add: length_sha_block)

lemma length_concat_be_bytes: "length (concat (map (be_bytes n) ws)) = n * length ws"
  by (induction ws) (simp_all add: be_bytes_def)

lemma length_sha256 [simp]: "length (sha256 m) = 32"
  by (simp add: sha256_def Let_def length_concat_be_bytes length_sha_blocks length_sha_H0)

end
