(* ===== verification/Store_Canonical.thy ===== *)
theory Store_Canonical
  imports Store_Format Crc32c Sha256
begin

text \<open>
  The canonical digest of a record stream, \<^verbatim>\<open>src/internal/store/canonical.go\<close>: the
  projection that is hashed, and the streaming hasher. The theorems: the hasher computes the
  chosen hash of one byte string, \<open>canonical_input\<close>, and that byte string determines the
  stream up to where its snapshots sit in the file.
\<close>

section \<open>Projection and hasher\<close>

datatype CanonicalAlgo = CanonicalCRC32C | CanonicalSHA256

definition canonicalPrefixMax :: nat where "canonicalPrefixMax = 42"

definition canonicalTerminator :: bytes where
  "canonicalTerminator = [0x43, 0x41, 0x4E, 0x4F, 0x4E, 0x76, 0x31, 0]"

text \<open>The destination after the call, and the number of bytes written.\<close>

definition canonicalPrefix :: "bytes \<Rightarrow> Record \<Rightarrow> bytes \<times> nat" where
  "canonicalPrefix dst rec =
     (let d = PutUint64 dst 0 (ExchangeTs rec);
          d = PutUint64 d 8 (SequenceNumber rec);
          d = PutUint32 d 16 (InstrumentID rec);
          d = PutUint16 d 20 (VenueID rec);
          d = put d 22 [RecordType rec];
          d = put d 23 [SideFlags rec];
          d = PutUint64 d 24 (Price rec);
          d = PutUint64 d 32 (Size rec)
      in if RecordType rec \<noteq> RecordTypeSnapshotPointer then (d, 40)
         else (PutUint16 d 40 (LevelCount rec), canonicalPrefixMax))"

text \<open>\<open>chSha\<close> is \<^verbatim>\<open>nil\<close> or the bytes written to the \<^verbatim>\<open>hash.Hash\<close>.\<close>

record CanonicalHasher =
  chSha :: "bytes option"
  chCrc :: u32
  chCount :: u64
  chScratch :: bytes
  chLenBuf :: bytes
  chDigest :: bytes
  chDigestN :: nat
  chDone :: bool

definition NewCanonicalHasher :: "CanonicalAlgo \<Rightarrow> CanonicalHasher" where
  "NewCanonicalHasher algo =
     \<lparr>chSha = (if algo = CanonicalSHA256 then Some [] else None), chCrc = 0, chCount = 0,
      chScratch = replicate canonicalPrefixMax 0, chLenBuf = replicate 4 0,
      chDigest = replicate 32 0, chDigestN = 0, chDone = False\<rparr>"

definition hasher_update :: "CanonicalHasher \<Rightarrow> bytes \<Rightarrow> CanonicalHasher" where
  "hasher_update h b =
     (case chSha h of
        Some written \<Rightarrow> h\<lparr>chSha := Some (written @ b)\<rparr>
      | None \<Rightarrow> h\<lparr>chCrc := crc32_Update (chCrc h) b\<rparr>)"

text \<open>\<open>None\<close> is the panic of a write after \<^verbatim>\<open>Sum\<close>.\<close>

definition hasher_Write :: "CanonicalHasher \<Rightarrow> Record \<Rightarrow> bytes \<Rightarrow> CanonicalHasher option" where
  "hasher_Write h rec blobPayload =
     (if chDone h then None
      else Some
        (let (scratch, n) = canonicalPrefix (chScratch h) rec;
             blobPayload = (if RecordType rec \<noteq> RecordTypeSnapshotPointer then [] else blobPayload);
             h = h\<lparr>chScratch := scratch,
                   chLenBuf := PutUint32 (chLenBuf h) 0 (of_nat n + of_nat (length blobPayload))\<rparr>;
             h = hasher_update h (chLenBuf h);
             h = hasher_update h (take n (chScratch h));
             h = (if 0 < length blobPayload then hasher_update h blobPayload else h)
         in h\<lparr>chCount := chCount h + 1\<rparr>))"

definition hasher_Sum :: "CanonicalHasher \<Rightarrow> bytes \<Rightarrow> bytes \<times> CanonicalHasher" where
  "hasher_Sum h dst =
     (let h = (if chDone h then h
        else let h = hasher_update h (PutUint64 (replicate 8 0) 0 (chCount h));
                 h = hasher_update h canonicalTerminator;
                 h = (case chSha h of
                        Some written \<Rightarrow>
                          h\<lparr>chDigest := put (chDigest h) 0 (sha256 written),
                            chDigestN := length (sha256 written)\<rparr>
                      | None \<Rightarrow>
                          h\<lparr>chDigest := PutUint32 (chDigest h) 0 (chCrc h), chDigestN := 4\<rparr>)
             in h\<lparr>chDone := True\<rparr>)
      in (dst @ take (chDigestN h) (chDigest h), h))"

section \<open>The byte string that is hashed\<close>

definition is_snap :: "Record \<Rightarrow> bool" where
  "is_snap rec \<longleftrightarrow> RecordType rec = RecordTypeSnapshotPointer"

definition prefix_bytes :: "Record \<Rightarrow> bytes" where
  "prefix_bytes rec =
     le_bytes 8 (ExchangeTs rec) @ le_bytes 8 (SequenceNumber rec) @ le_bytes 4 (InstrumentID rec)
     @ le_bytes 2 (VenueID rec) @ [RecordType rec, SideFlags rec] @ le_bytes 8 (Price rec)
     @ le_bytes 8 (Size rec) @ (if is_snap rec then le_bytes 2 (LevelCount rec) else [])"

definition frame_body :: "Record \<times> bytes \<Rightarrow> bytes" where
  "frame_body e = prefix_bytes (fst e) @ (if is_snap (fst e) then snd e else [])"

definition frame :: "Record \<times> bytes \<Rightarrow> bytes" where
  "frame e = le_bytes 4 (of_nat (length (frame_body e)) :: u32) @ frame_body e"

definition canonical_input :: "(Record \<times> bytes) list \<Rightarrow> bytes" where
  "canonical_input es = concat (map frame es) @ le_bytes 8 (of_nat (length es) :: u64) @ canonicalTerminator"

definition hash_of :: "CanonicalAlgo \<Rightarrow> bytes \<Rightarrow> bytes" where
  "hash_of algo m = (case algo of CanonicalCRC32C \<Rightarrow> le_bytes 4 (crc32_Checksum m) | CanonicalSHA256 \<Rightarrow> sha256 m)"

text \<open>A run: every event written in order, then one \<^verbatim>\<open>Sum\<close>.\<close>

primrec hasher_run :: "CanonicalHasher \<Rightarrow> (Record \<times> bytes) list \<Rightarrow> CanonicalHasher option" where
  "hasher_run h [] = Some h"
| "hasher_run h (e # es) =
     (case hasher_Write h (fst e) (snd e) of None \<Rightarrow> None | Some h \<Rightarrow> hasher_run h es)"

lemma length_prefix_bytes: "length (prefix_bytes rec) = (if is_snap rec then 42 else 40)"
  by (simp add: prefix_bytes_def)

lemma canonicalPrefix_eq:
  "length dst = 42 \<Longrightarrow> canonicalPrefix dst rec =
     (prefix_bytes rec @ drop (length (prefix_bytes rec)) dst, length (prefix_bytes rec))"
  by (simp add: canonicalPrefix_def prefix_bytes_def canonicalPrefixMax_def le_writes Let_def
      slice_simps is_snap_def)

text \<open>What the hasher has absorbed: the state is determined by the algorithm and the bytes.\<close>

definition absorbed :: "CanonicalAlgo \<Rightarrow> bytes \<Rightarrow> CanonicalHasher \<Rightarrow> bool" where
  "absorbed algo m h \<longleftrightarrow>
     (case algo of CanonicalCRC32C \<Rightarrow> chSha h = None \<and> chCrc h = crc32_Checksum m
      | CanonicalSHA256 \<Rightarrow> chSha h = Some m)
     \<and> length (chScratch h) = 42 \<and> length (chLenBuf h) = 4 \<and> length (chDigest h) = 32"

lemma absorbed_update: "absorbed algo m h \<Longrightarrow> absorbed algo (m @ b) (hasher_update h b)"
  by (cases algo) (auto simp: absorbed_def hasher_update_def crc32_Checksum_append)

lemma hasher_update_sel [simp]:
  "chCount (hasher_update h b) = chCount h" "chDone (hasher_update h b) = chDone h"
  "chScratch (hasher_update h b) = chScratch h" "chLenBuf (hasher_update h b) = chLenBuf h"
  by (simp_all add: hasher_update_def split: option.split)

lemma absorbed_cong:
  "absorbed algo m h \<Longrightarrow> chSha h' = chSha h \<Longrightarrow> chCrc h' = chCrc h \<Longrightarrow> length (chScratch h') = 42 \<Longrightarrow>
   length (chLenBuf h') = 4 \<Longrightarrow> chDigest h' = chDigest h \<Longrightarrow> absorbed algo m h'"
  by (cases algo) (simp_all add: absorbed_def)

lemma hasher_Write_absorbs:
  assumes a: "absorbed algo m h" and nd: "\<not> chDone h"
  shows "\<exists>h'. hasher_Write h rec p = Some h' \<and> absorbed algo (m @ frame (rec, p)) h'
    \<and> \<not> chDone h' \<and> chCount h' = chCount h + 1"
proof -
  let ?n = "length (prefix_bytes rec)"
  let ?p = "if is_snap rec then p else []"
  let ?len = "le_bytes 4 (of_nat (length (frame_body (rec, p))) :: u32)"
  let ?s = "prefix_bytes rec @ drop ?n (chScratch h)"
  have sc: "length (chScratch h) = 42" "length (chLenBuf h) = 4"
    using a by (simp_all add: absorbed_def)
  have len: "PutUint32 (chLenBuf h) 0 (of_nat ?n + of_nat (length ?p)) = ?len"
    using sc by (simp add: le_writes slice_simps frame_body_def)
  define h1 where "h1 = h\<lparr>chScratch := ?s, chLenBuf := ?len\<rparr>"
  define h2 where "h2 = hasher_update (hasher_update h1 ?len) (prefix_bytes rec)"
  define h3 where "h3 = (if 0 < length ?p then hasher_update h2 ?p else h2)"
  have "hasher_Write h rec p = Some (h3\<lparr>chCount := chCount h3 + 1\<rparr>)"
    unfolding hasher_Write_def canonicalPrefix_eq [OF sc(1)] Let_def h3_def h2_def h1_def
    using nd len
    by (cases "RecordType rec = RecordTypeSnapshotPointer"; cases "p = []") (simp_all add: is_snap_def)
  moreover have "absorbed algo m h1"
    by (rule absorbed_cong [OF a]) (use sc length_prefix_bytes [of rec] in \<open>auto simp: h1_def\<close>)
  then have "absorbed algo ((m @ ?len) @ prefix_bytes rec) h2"
    unfolding h2_def by (intro absorbed_update)
  then have "absorbed algo (((m @ ?len) @ prefix_bytes rec) @ ?p) h3"
    using absorbed_update [of algo "(m @ ?len) @ prefix_bytes rec" h2 ?p] unfolding h3_def
    by (cases "?p = []") simp_all
  then have "absorbed algo (m @ frame (rec, p)) h3"
    by (cases "is_snap rec") (simp_all add: frame_def frame_body_def)
  then have "absorbed algo (m @ frame (rec, p)) (h3\<lparr>chCount := chCount h3 + 1\<rparr>)"
    by (rule absorbed_cong) (use \<open>absorbed algo (m @ frame (rec, p)) h3\<close> in \<open>simp_all add: absorbed_def\<close>)
  moreover have "\<not> chDone h3" "chCount h3 = chCount h"
    using nd by (simp_all add: h3_def h2_def h1_def)
  ultimately show ?thesis by simp
qed

lemma hasher_run_absorbs:
  assumes "absorbed algo m h" "\<not> chDone h"
  shows "\<exists>h'. hasher_run h es = Some h' \<and> absorbed algo (m @ concat (map frame es)) h'
    \<and> \<not> chDone h' \<and> chCount h' = chCount h + of_nat (length es)"
  using assms
proof (induction es arbitrary: m h)
  case Nil
  then show ?case by simp
next
  case (Cons e es)
  obtain h1 where h1: "hasher_Write h (fst e) (snd e) = Some h1"
      "absorbed algo (m @ frame e) h1" "\<not> chDone h1" "chCount h1 = chCount h + 1"
    using hasher_Write_absorbs [OF Cons.prems, of "fst e" "snd e"] by auto
  show ?case
    using Cons.IH [OF h1(2,3)] h1(1,4) by (auto simp: ac_simps)
qed

lemma hasher_Sum_absorbed:
  assumes a: "absorbed algo m h" and nd: "\<not> chDone h"
  shows "\<exists>h'. hasher_Sum h dst = (dst @ hash_of algo (m @ le_bytes 8 (chCount h) @ canonicalTerminator), h')
    \<and> chDone h' \<and> (\<forall>dst. hasher_Sum h' dst =
         (dst @ hash_of algo (m @ le_bytes 8 (chCount h) @ canonicalTerminator), h'))"
proof -
  let ?h = "hasher_update (hasher_update h (le_bytes 8 (chCount h))) canonicalTerminator"
  have "absorbed algo ((m @ le_bytes 8 (chCount h)) @ canonicalTerminator) ?h"
    by (intro absorbed_update a)
  then show ?thesis
    using nd by (cases algo) (auto simp: hasher_Sum_def Let_def absorbed_def hash_of_def le_writes slice_simps)
qed

lemma absorbed_New: "absorbed algo [] (NewCanonicalHasher algo)"
  by (cases algo) (simp_all add: absorbed_def NewCanonicalHasher_def canonicalPrefixMax_def)

lemma canonical_hasher_run:
  "\<exists>h h'. hasher_run (NewCanonicalHasher algo) es = Some h \<and> chDone h'
     \<and> hasher_Sum h dst = (dst @ hash_of algo (canonical_input es), h')
     \<and> (\<forall>dst'. hasher_Sum h' dst' = (dst' @ hash_of algo (canonical_input es), h'))"
proof -
  obtain h where h: "hasher_run (NewCanonicalHasher algo) es = Some h"
      "absorbed algo (concat (map frame es)) h" "\<not> chDone h" "chCount h = of_nat (length es)"
    using hasher_run_absorbs [OF absorbed_New, of algo es]
    by (auto simp: NewCanonicalHasher_def)
  with hasher_Sum_absorbed [OF h(2,3), of dst] show ?thesis
    unfolding canonical_input_def by (metis append_assoc)
qed

text \<open>Hashing a stream: every write of a fresh hasher succeeds, the digest is the chosen hash
  of the one byte string \<open>canonical_input\<close> however many pieces it was absorbed in, a second
  \<^verbatim>\<open>Sum\<close> returns the same digest, and a write after it panics.\<close>

theorem canonical_hasher_digest:
  "\<exists>h h'. hasher_run (NewCanonicalHasher algo) es = Some h
     \<and> hasher_Sum h dst = (dst @ hash_of algo (canonical_input es), h')
     \<and> hasher_Sum h' dst' = (dst' @ hash_of algo (canonical_input es), h')
     \<and> hasher_Write h' rec p = None"
proof -
  have "hasher_Write h' rec p = None" if "chDone h'" for h'
    using that by (simp add: hasher_Write_def)
  with canonical_hasher_run [of algo es dst] show ?thesis by blast
qed

section \<open>What the digest input determines\<close>

text \<open>What \<^verbatim>\<open>canonicalPrefix\<close> keeps of an event: everything but the snapshot's place in
  the file, and a payload only for a snapshot.\<close>

definition canonical_view :: "Record \<times> bytes \<Rightarrow> Record \<times> bytes" where
  "canonical_view e =
     (let rec = fst e in
      (rec\<lparr>BlobOffset := 0, BlobLen := 0, LevelCount := (if is_snap rec then LevelCount rec else 0)\<rparr>,
       if is_snap rec then snd e else []))"

definition framable :: "Record \<times> bytes \<Rightarrow> bool" where
  "framable e \<longleftrightarrow> length (snd e) < 2 ^ 32 - 42"

lemma append_same_length: "length xs = length ys \<Longrightarrow> xs @ us = ys @ vs \<longleftrightarrow> xs = ys \<and> us = vs"
  by simp

lemma prefix_common:
  assumes "prefix_bytes a @ p = prefix_bytes b @ q"
  shows "ExchangeTs a = ExchangeTs b \<and> SequenceNumber a = SequenceNumber b \<and> InstrumentID a = InstrumentID b
    \<and> VenueID a = VenueID b \<and> RecordType a = RecordType b \<and> SideFlags a = SideFlags b
    \<and> Price a = Price b \<and> Size a = Size b
    \<and> (if is_snap a then le_bytes 2 (LevelCount a) else []) @ p
      = (if is_snap b then le_bytes 2 (LevelCount b) else []) @ q"
  using assms unfolding prefix_bytes_def append_assoc by (simp add: append_same_length le_bytes_inject)

lemma frame_body_eq_iff: "frame_body a = frame_body b \<longleftrightarrow> canonical_view a = canonical_view b"
proof
  assume "frame_body a = frame_body b"
  then have c: "prefix_bytes (fst a) @ (if is_snap (fst a) then snd a else [])
      = prefix_bytes (fst b) @ (if is_snap (fst b) then snd b else [])"
    by (simp add: frame_body_def)
  note p = prefix_common [OF c]
  have s: "is_snap (fst a) = is_snap (fst b)"
    using p by (simp add: is_snap_def)
  show "canonical_view a = canonical_view b"
    using p s by (cases "fst a"; cases "fst b")
      (auto simp: canonical_view_def le_bytes_inject append_same_length)
next
  assume v: "canonical_view a = canonical_view b"
  have f: "frame_body e = frame_body (canonical_view e)" for e
    by (simp add: frame_body_def canonical_view_def prefix_bytes_def is_snap_def Let_def)
  show "frame_body a = frame_body b"
    using f [of a] f [of b] v by simp
qed

lemma frame_length_word:
  assumes "framable e"
  shows "unat (of_nat (length (frame_body e)) :: u32) = length (frame_body e)"
proof -
  have "length (frame_body e) < 2 ^ 32"
    using assms by (auto simp: framable_def frame_body_def length_prefix_bytes)
  then show ?thesis
    by (simp add: unat_of_nat take_bit_nat_eq_self)
qed

lemma frame_append_eq:
  assumes "framable a" "framable b"
  shows "frame a @ us = frame b @ vs \<longleftrightarrow> canonical_view a = canonical_view b \<and> us = vs"
proof -
  have "length (frame_body a) = length (frame_body b)"
    if "(of_nat (length (frame_body a)) :: u32) = of_nat (length (frame_body b))"
    using that frame_length_word [OF assms(1)] frame_length_word [OF assms(2)] by metis
  then show ?thesis
    by (auto simp: frame_def append_same_length le_bytes_inject frame_body_eq_iff)
      (metis frame_body_eq_iff)+
qed

lemma frames_append_eq:
  "length es = length fs \<Longrightarrow> list_all framable es \<Longrightarrow> list_all framable fs \<Longrightarrow>
   concat (map frame es) @ us = concat (map frame fs) @ vs
     \<longleftrightarrow> map canonical_view es = map canonical_view fs \<and> us = vs"
proof (induction es fs rule: list_induct2)
  case (Cons a es b fs)
  then have "frame a @ concat (map frame es) @ us = frame b @ concat (map frame fs) @ vs
      \<longleftrightarrow> canonical_view a = canonical_view b \<and> concat (map frame es) @ us = concat (map frame fs) @ vs"
    by (intro frame_append_eq) simp_all
  moreover have "concat (map frame es) @ us = concat (map frame fs) @ vs
      \<longleftrightarrow> map canonical_view es = map canonical_view fs \<and> us = vs"
    using Cons by simp
  ultimately show ?case
    by (simp only: concat.simps list.simps append_assoc list.inject) blast
qed simp

lemma u64_of_nat_inject:
  assumes "m < 2 ^ 64" "n < 2 ^ 64" "(of_nat m :: u64) = of_nat n"
  shows "m = n"
proof -
  have "unat (of_nat m :: u64) = m" "unat (of_nat n :: u64) = n"
    using assms(1,2) by (simp_all add: unat_of_nat take_bit_nat_eq_self)
  then show ?thesis using assms(3) by metis
qed

text \<open>Two streams have the same hash input exactly when they agree record by record on the
  projected fields and on the snapshot payloads, wherever each file keeps its blobs: the length
  prefixes, the record count and the terminator leave no two different streams with one input.\<close>

theorem canonical_input_determines:
  assumes "list_all framable es" "list_all framable fs" "length es < 2 ^ 64" "length fs < 2 ^ 64"
  shows "canonical_input es = canonical_input fs \<longleftrightarrow> map canonical_view es = map canonical_view fs"
proof
  assume eq: "canonical_input es = canonical_input fs"
  let ?n = "\<lambda>xs. le_bytes 8 (of_nat (length xs) :: u64)"
  have "concat (map frame es) @ ?n es = concat (map frame fs) @ ?n fs"
    using eq by (simp add: canonical_input_def flip: append_assoc)
  then have "?n es = ?n fs"
    by (metis append_eq_append_conv length_le_bytes)
  then have "length es = length fs"
    using assms(3,4) u64_of_nat_inject by (metis le_bytes_inject le_word_64)
  with eq show "map canonical_view es = map canonical_view fs"
    using frames_append_eq assms(1,2) unfolding canonical_input_def by blast
next
  assume v: "map canonical_view es = map canonical_view fs"
  then have len: "length es = length fs"
    by (rule map_eq_imp_length_eq)
  with v show "canonical_input es = canonical_input fs"
    using frames_append_eq [OF len assms(1,2)] unfolding canonical_input_def by metis
qed

theorem canonical_input_determines_witness:
  "canonical_input [(zeroRecord\<lparr>RecordType := 2, BlobOffset := 8, LevelCount := 1\<rparr>, [1, 0])]
     = canonical_input [(zeroRecord\<lparr>RecordType := 2, BlobOffset := 64, LevelCount := 1\<rparr>, [1, 0])]
   \<and> canonical_input [(zeroRecord, []), (zeroRecord, [])] \<noteq> canonical_input [(zeroRecord, [])]"
  using canonical_input_determines [of
      "[(zeroRecord\<lparr>RecordType := 2, BlobOffset := 8, LevelCount := 1\<rparr>, [1, 0])]"
      "[(zeroRecord\<lparr>RecordType := 2, BlobOffset := 64, LevelCount := 1\<rparr>, [1, 0])]"]
    canonical_input_determines [of "[(zeroRecord, []), (zeroRecord, [])]" "[(zeroRecord, [])]"]
  by (simp add: framable_def canonical_view_def zeroRecord_def Let_def is_snap_def record_types)

end
