(* ===== verification/Store_Header.thy ===== *)
theory Store_Header
  imports Store_Format Crc32c
begin

text \<open>
  The file header: \<^verbatim>\<open>src/internal/store/header.go\<close>. \<open>encodeHeader\<close> and
  \<open>decodeHeader\<close> give the 128 defined bytes, \<open>validateHeader\<close> decides whether a header
  describes a coherent file. The abstract specification \<open>header_spec\<close> states the region
  chain in natural numbers; the theorems show that the overflow-safe 64-bit checks decide
  exactly it, and that the encoding round-trips.
\<close>

section \<open>Layout and bounds\<close>

definition magic :: bytes where
  "magic = [0x89, 0x52, 0x50, 0x4C, 0x0D, 0x0A, 0x1A, 0x0A]"

definition formatVersion :: u32 where "formatVersion = 1"

definition hdrOffMagic :: nat where "hdrOffMagic = 0"
definition hdrOffFormatVersion :: nat where "hdrOffFormatVersion = 8"
definition hdrOffVenueID :: nat where "hdrOffVenueID = 12"
definition hdrOffReserved1 :: nat where "hdrOffReserved1 = 14"
definition hdrOffPriceScale :: nat where "hdrOffPriceScale = 16"
definition hdrOffRecordCount :: nat where "hdrOffRecordCount = 24"
definition hdrOffMinExchangeTs :: nat where "hdrOffMinExchangeTs = 32"
definition hdrOffMaxExchangeTs :: nat where "hdrOffMaxExchangeTs = 40"
definition hdrOffHeaderSize :: nat where "hdrOffHeaderSize = 48"
definition hdrOffBlockSizeRecords :: nat where "hdrOffBlockSizeRecords = 52"
definition hdrOffBlobRegionOffset :: nat where "hdrOffBlobRegionOffset = 56"
definition hdrOffBlobRegionLen :: nat where "hdrOffBlobRegionLen = 64"
definition hdrOffTimeIndexOffset :: nat where "hdrOffTimeIndexOffset = 72"
definition hdrOffTimeIndexCount :: nat where "hdrOffTimeIndexCount = 80"
definition hdrOffSnapshotIndexOffset :: nat where "hdrOffSnapshotIndexOffset = 88"
definition hdrOffSnapshotIndexCount :: nat where "hdrOffSnapshotIndexCount = 96"
definition hdrOffFooterOffset :: nat where "hdrOffFooterOffset = 104"
definition hdrOffTrailerCRC :: nat where "hdrOffTrailerCRC = 112"
definition hdrOffReserved2 :: nat where "hdrOffReserved2 = 116"
definition hdrOffFinalized :: nat where "hdrOffFinalized = 120"
definition hdrOffReserved3 :: nat where "hdrOffReserved3 = 121"
definition hdrOffCRC :: nat where "hdrOffCRC = 124"
definition headerFieldsSize :: nat where "headerFieldsSize = 128"
definition headerCRCLen :: nat where "headerCRCLen = hdrOffFinalized"

lemmas header_layout =
  hdrOffMagic_def hdrOffFormatVersion_def hdrOffVenueID_def hdrOffReserved1_def
  hdrOffPriceScale_def hdrOffRecordCount_def hdrOffMinExchangeTs_def hdrOffMaxExchangeTs_def
  hdrOffHeaderSize_def hdrOffBlockSizeRecords_def hdrOffBlobRegionOffset_def
  hdrOffBlobRegionLen_def hdrOffTimeIndexOffset_def hdrOffTimeIndexCount_def
  hdrOffSnapshotIndexOffset_def hdrOffSnapshotIndexCount_def hdrOffFooterOffset_def
  hdrOffTrailerCRC_def hdrOffReserved2_def hdrOffFinalized_def hdrOffReserved3_def
  hdrOffCRC_def headerFieldsSize_def headerCRCLen_def

definition maxHeaderSize :: nat where "maxHeaderSize = 2 ^ 20"
definition maxRecordCount :: nat where "maxRecordCount = 2 ^ 40"
definition maxBlockSizeRecords :: nat where "maxBlockSizeRecords = 2 ^ 24"
definition indexEntrySize :: nat where "indexEntrySize = 8"
definition footerEntrySize :: nat where "footerEntrySize = 12"

lemmas header_bounds = maxHeaderSize_def maxRecordCount_def maxBlockSizeRecords_def
  indexEntrySize_def footerEntrySize_def

record header =
  hFormatVersion :: u32
  hVenueID :: u16
  hPriceScale :: i64
  hRecordCount :: u64
  hMinExchangeTs :: i64
  hMaxExchangeTs :: i64
  hHeaderSize :: u32
  hBlockSizeRecords :: u32
  hBlobRegionOffset :: u64
  hBlobRegionLen :: u64
  hTimeIndexOffset :: u64
  hTimeIndexCount :: u64
  hSnapshotIndexOffset :: u64
  hSnapshotIndexCount :: u64
  hFooterOffset :: u64
  hTrailerCRC :: u32
  hFinalized :: bool

section \<open>Operations\<close>

definition headerSizeFor :: "int \<Rightarrow> store_error + u32" where
  "headerSizeFor pageSize =
     (if pageSize \<le> 0 then Inl ErrPageSize
      else let pages = go_quot (wrap64 (int headerFieldsSize + pageSize - 1)) pageSize;
               size = wrap64 (pages * pageSize)
           in if size > int maxHeaderSize then Inl ErrPageSize else Inr (word_of_int size))"

definition blockCountFor :: "u64 \<Rightarrow> u32 \<Rightarrow> u64" where
  "blockCountFor recordCount blockSize =
     (if blockSize = 0 then 0 else (recordCount + ucast blockSize - 1) div ucast blockSize)"

definition setFinalized :: "bytes \<Rightarrow> bytes" where
  "setFinalized dst = put dst hdrOffFinalized [1]"

definition validateHeader :: "header \<Rightarrow> u64 \<Rightarrow> store_error option" where
  "validateHeader h fileLen =
     (if hFormatVersion h \<noteq> formatVersion then Some ErrFormatVersion
      else if \<not> hFinalized h then Some ErrNotFinalized
      else if hHeaderSize h < of_nat headerFieldsSize \<or> hHeaderSize h > of_nat maxHeaderSize
        then Some ErrHeaderSize
      else if hBlockSizeRecords h = 0 \<or> hBlockSizeRecords h > of_nat maxBlockSizeRecords
        then Some ErrBlockSize
      else if sint (hPriceScale h) \<le> 0 then Some ErrPriceScale
      else if hRecordCount h > of_nat maxRecordCount \<or> hRecordCount h > word_of_int maxInt
        then Some ErrRecordCount
      else let blocks = blockCountFor (hRecordCount h) (hBlockSizeRecords h) in
      if hTimeIndexCount h \<noteq> blocks then Some ErrIndexCount
      else if hSnapshotIndexCount h > hRecordCount h then Some ErrIndexCount
      else let e = (ucast (hHeaderSize h) :: u64) in
      if hRecordCount h > (NOT 0 - e) div of_nat RecordSize then Some ErrRecordCount
      else let e = e + hRecordCount h * of_nat RecordSize in
      if hBlobRegionOffset h \<noteq> e \<or> hBlobRegionLen h > NOT 0 - e then Some ErrOffsetChain
      else let e = e + hBlobRegionLen h in
      if hTimeIndexOffset h \<noteq> e \<or> hTimeIndexCount h > (NOT 0 - e) div of_nat indexEntrySize
        then Some ErrOffsetChain
      else let e = e + hTimeIndexCount h * of_nat indexEntrySize in
      if hSnapshotIndexOffset h \<noteq> e
         \<or> hSnapshotIndexCount h > (NOT 0 - e) div of_nat indexEntrySize
        then Some ErrOffsetChain
      else let e = e + hSnapshotIndexCount h * of_nat indexEntrySize in
      if hFooterOffset h \<noteq> e \<or> blocks > (NOT 0 - e) div of_nat footerEntrySize
        then Some ErrOffsetChain
      else let e = e + blocks * of_nat footerEntrySize in
      if e \<noteq> fileLen then Some ErrOffsetChain
      else None)"

definition encodeHeader :: "bytes \<Rightarrow> header \<Rightarrow> bytes option" where
  "encodeHeader dst h =
     (if length dst < headerFieldsSize then None
      else Some
        (let d = replicate headerFieldsSize 0;
             d = put d hdrOffMagic magic;
             d = PutUint32 d hdrOffFormatVersion (hFormatVersion h);
             d = PutUint16 d hdrOffVenueID (hVenueID h);
             d = PutUint64 d hdrOffPriceScale (hPriceScale h);
             d = PutUint64 d hdrOffRecordCount (hRecordCount h);
             d = PutUint64 d hdrOffMinExchangeTs (hMinExchangeTs h);
             d = PutUint64 d hdrOffMaxExchangeTs (hMaxExchangeTs h);
             d = PutUint32 d hdrOffHeaderSize (hHeaderSize h);
             d = PutUint32 d hdrOffBlockSizeRecords (hBlockSizeRecords h);
             d = PutUint64 d hdrOffBlobRegionOffset (hBlobRegionOffset h);
             d = PutUint64 d hdrOffBlobRegionLen (hBlobRegionLen h);
             d = PutUint64 d hdrOffTimeIndexOffset (hTimeIndexOffset h);
             d = PutUint64 d hdrOffTimeIndexCount (hTimeIndexCount h);
             d = PutUint64 d hdrOffSnapshotIndexOffset (hSnapshotIndexOffset h);
             d = PutUint64 d hdrOffSnapshotIndexCount (hSnapshotIndexCount h);
             d = PutUint64 d hdrOffFooterOffset (hFooterOffset h);
             d = PutUint32 d hdrOffTrailerCRC (hTrailerCRC h);
             d = PutUint32 d hdrOffCRC (crc32_Checksum (sub d 0 headerCRCLen))
         in d @ drop headerFieldsSize dst))"

definition checkHeaderUndefinedBytes :: "bytes \<Rightarrow> store_error option" where
  "checkHeaderUndefinedBytes src =
     (if src ! hdrOffFinalized > 1 then Some ErrReserved
      else if list_ex (\<lambda>(lo, hi). list_ex (\<lambda>b. b \<noteq> 0) (sub src lo (hi - lo)))
                [(hdrOffReserved1, hdrOffPriceScale), (hdrOffReserved2, hdrOffFinalized),
                 (hdrOffReserved3, hdrOffCRC)]
        then Some ErrReserved
      else None)"

definition decodeHeader :: "bytes \<Rightarrow> store_error + header" where
  "decodeHeader src =
     (if length src < headerFieldsSize then Inl ErrShortHeader
      else if sub src hdrOffMagic 8 \<noteq> magic then Inl ErrBadMagic
      else if Uint32 src hdrOffCRC \<noteq> crc32_Checksum (sub src 0 headerCRCLen) then Inl ErrHeaderCRC
      else failE (checkHeaderUndefinedBytes src) (Inr
        \<lparr>hFormatVersion = Uint32 src hdrOffFormatVersion,
         hVenueID = Uint16 src hdrOffVenueID,
         hPriceScale = Uint64 src hdrOffPriceScale,
         hRecordCount = Uint64 src hdrOffRecordCount,
         hMinExchangeTs = Uint64 src hdrOffMinExchangeTs,
         hMaxExchangeTs = Uint64 src hdrOffMaxExchangeTs,
         hHeaderSize = Uint32 src hdrOffHeaderSize,
         hBlockSizeRecords = Uint32 src hdrOffBlockSizeRecords,
         hBlobRegionOffset = Uint64 src hdrOffBlobRegionOffset,
         hBlobRegionLen = Uint64 src hdrOffBlobRegionLen,
         hTimeIndexOffset = Uint64 src hdrOffTimeIndexOffset,
         hTimeIndexCount = Uint64 src hdrOffTimeIndexCount,
         hSnapshotIndexOffset = Uint64 src hdrOffSnapshotIndexOffset,
         hSnapshotIndexCount = Uint64 src hdrOffSnapshotIndexCount,
         hFooterOffset = Uint64 src hdrOffFooterOffset,
         hTrailerCRC = Uint32 src hdrOffTrailerCRC,
         hFinalized = (src ! hdrOffFinalized = 1)\<rparr>))"

section \<open>The wire form of a header\<close>

definition header_prefix :: "header \<Rightarrow> bytes" where
  "header_prefix h =
     magic @ le_bytes 4 (hFormatVersion h) @ le_bytes 2 (hVenueID h) @ replicate 2 0 @
     le_bytes 8 (hPriceScale h) @ le_bytes 8 (hRecordCount h) @ le_bytes 8 (hMinExchangeTs h) @
     le_bytes 8 (hMaxExchangeTs h) @ le_bytes 4 (hHeaderSize h) @
     le_bytes 4 (hBlockSizeRecords h) @ le_bytes 8 (hBlobRegionOffset h) @
     le_bytes 8 (hBlobRegionLen h) @ le_bytes 8 (hTimeIndexOffset h) @
     le_bytes 8 (hTimeIndexCount h) @ le_bytes 8 (hSnapshotIndexOffset h) @
     le_bytes 8 (hSnapshotIndexCount h) @ le_bytes 8 (hFooterOffset h) @
     le_bytes 4 (hTrailerCRC h) @ replicate 4 0"

definition header_bytes :: "header \<Rightarrow> bytes" where
  "header_bytes h =
     header_prefix h @ [of_bool (hFinalized h)] @ replicate 3 0 @
     le_bytes 4 (crc32_Checksum (header_prefix h))"

lemma length_magic [simp]: "length magic = 8"
  by (simp add: magic_def)

lemma length_header_prefix [simp]: "length (header_prefix h) = 120"
  by (simp add: header_prefix_def)

lemma length_header_bytes [simp]: "length (header_bytes h) = 128"
  by (simp add: header_bytes_def)

lemma header_prefix_finalized [simp]: "header_prefix (h\<lparr>hFinalized := f\<rparr>) = header_prefix h"
  by (simp add: header_prefix_def)

lemma replicate_header_tail: "replicate 8 (0 :: u8) = replicate 4 0 @ 0 # replicate 3 0"
  by (simp add: numeral_eq_Suc)

lemma encodeHeader_eq:
  "encodeHeader dst h =
     (if length dst < 128 then None
      else Some (header_bytes (h\<lparr>hFinalized := False\<rparr>) @ drop 128 dst))"
  by (simp add: encodeHeader_def header_bytes_def header_prefix_def header_layout le_writes
      Let_def slice_simps replicate_header_tail)

lemma setFinalized_header_bytes:
  "setFinalized (header_bytes (h\<lparr>hFinalized := False\<rparr>) @ rest) = header_bytes (h\<lparr>hFinalized := True\<rparr>) @ rest"
  by (simp add: setFinalized_def header_bytes_def header_layout slice_simps)

lemma nth_header_bytes_finalized: "(header_bytes h @ rest) ! 120 = of_bool (hFinalized h)"
  by (simp add: header_bytes_def nth_append)

lemma sub_header_bytes_crc:
  "sub (header_bytes h @ rest) 124 4 = le_bytes 4 (crc32_Checksum (header_prefix h))"
  by (simp add: header_bytes_def slice_simps)

lemma sub_header_bytes_prefix: "a + n \<le> 120 \<Longrightarrow> sub (header_bytes h @ rest) a n = sub (header_prefix h) a n"
  by (simp add: header_bytes_def sub_def)

lemma reserved_header_bytes:
  "sub (header_bytes h @ rest) 14 2 = replicate 2 0" "sub (header_bytes h @ rest) 116 4 = replicate 4 0"
  "sub (header_bytes h @ rest) 121 3 = replicate 3 0"
  by (simp_all add: sub_header_bytes_prefix header_prefix_def slice_simps)
    (simp add: header_bytes_def slice_simps)

lemma checkHeaderUndefinedBytes_header_bytes:
  "checkHeaderUndefinedBytes (header_bytes h @ rest) = None"
  by (simp add: checkHeaderUndefinedBytes_def header_layout reserved_header_bytes
      nth_header_bytes_finalized list_ex_iff)

lemma decodeHeader_header_bytes: "decodeHeader (header_bytes h @ rest) = Inr h"
proof -
  have "sub (header_bytes h @ rest) 0 8 = magic"
    by (simp add: sub_header_bytes_prefix header_prefix_def slice_simps)
  moreover have "sub (header_bytes h @ rest) 0 120 = header_prefix h"
    by (simp add: sub_header_bytes_prefix slice_simps)
  ultimately show ?thesis
    by (simp add: decodeHeader_def header_layout le_reads sub_header_bytes_crc le_simps
        checkHeaderUndefinedBytes_header_bytes nth_header_bytes_finalized)
      (simp add: sub_header_bytes_prefix header_prefix_def slice_simps le_simps)
qed

lemma zeros_sub: "\<not> list_ex (\<lambda>b. b \<noteq> 0) (sub xs a n) \<Longrightarrow> a + n \<le> length xs \<Longrightarrow> sub xs a n = replicate n 0"
  by (rule replicate_eqI) (auto simp: list_ex_iff length_sub)

lemma header_bytes_split:
  assumes "128 \<le> length src"
  shows "sub src 0 128 = sub src 0 8 @ sub src 8 4 @ sub src 12 2 @ sub src 14 2 @ sub src 16 8 @
    sub src 24 8 @ sub src 32 8 @ sub src 40 8 @ sub src 48 4 @ sub src 52 4 @ sub src 56 8 @
    sub src 64 8 @ sub src 72 8 @ sub src 80 8 @ sub src 88 8 @ sub src 96 8 @ sub src 104 8 @
    sub src 112 4 @ sub src 116 4 @ sub src 120 1 @ sub src 121 3 @ sub src 124 4"
  using assms by (simp add: sub_join)

lemma finalized_byte: "b \<le> 1 \<Longrightarrow> of_bool (b = 1) = (b :: u8)"
  by (auto simp: word_le_nat_alt word_unat_eq_iff [of b] le_Suc_eq)

lemma decodeHeader_InrD:
  assumes "decodeHeader src = Inr h"
  shows "128 \<le> length src" "header_bytes h = sub src 0 128"
proof -
  show len: "128 \<le> length src"
    using assms by (auto simp: decodeHeader_def header_layout split: if_splits)
  have m: "magic = sub src 0 8" and c: "Uint32 src 124 = crc32_Checksum (sub src 0 120)"
    and u: "checkHeaderUndefinedBytes src = None"
    using assms by (auto simp: decodeHeader_def header_layout failE_eq_Inr_iff split: if_splits)
  have z: "sub src 14 2 = replicate 2 0" "sub src 116 4 = replicate 4 0"
    "sub src 121 3 = replicate 3 0" "src ! 120 \<le> 1"
    using u len by (auto simp: checkHeaderUndefinedBytes_def header_layout not_less
        split: if_splits intro!: zeros_sub)
  have p: "header_prefix h = sub src 0 8 @ sub src 8 4 @ sub src 12 2 @ sub src 14 2 @ sub src 16 8 @
    sub src 24 8 @ sub src 32 8 @ sub src 40 8 @ sub src 48 4 @ sub src 52 4 @ sub src 56 8 @
    sub src 64 8 @ sub src 72 8 @ sub src 80 8 @ sub src 88 8 @ sub src 96 8 @ sub src 104 8 @
    sub src 112 4 @ sub src 116 4"
    using assms len unfolding header_prefix_def m z(1,2) [symmetric]
    by (auto simp: decodeHeader_def header_layout failE_eq_Inr_iff le_simps split: if_splits)
  have p120: "header_prefix h = sub src 0 120"
    using len unfolding p by (simp add: sub_join)
  have "hFinalized h \<longleftrightarrow> src ! 120 = 1"
    using assms by (auto simp: decodeHeader_def header_layout failE_eq_Inr_iff split: if_splits)
  then have f: "of_bool (hFinalized h) = src ! 120"
    using finalized_byte [OF z(4)] by simp
  have "header_bytes h = sub src 0 120 @ [src ! 120] @ sub src 121 3 @ sub src 124 4"
    using len c by (simp add: header_bytes_def p120 f z le_simps flip: c)
  also have "\<dots> = sub src 0 128"
    using len by (simp add: nth_as_sub sub_join del: append_Cons)
  finally show "header_bytes h = sub src 0 128" .
qed

section \<open>Validation\<close>

text \<open>
  What a header promises about a file of \<open>len\<close> bytes, in natural numbers: the regions
  follow each other without gap or overlap from \<open>header_size\<close> to the end of the file, and
  the time index has one entry for each of the \<open>\<lceil>record_count / block_size\<rceil>\<close> blocks.
\<close>

definition block_count :: "nat \<Rightarrow> nat \<Rightarrow> nat" where
  "block_count n bs = (n + bs - 1) div bs"

definition header_spec :: "header \<Rightarrow> nat \<Rightarrow> bool" where
  "header_spec h len \<longleftrightarrow>
     hFormatVersion h = 1 \<and> hFinalized h \<and>
     128 \<le> unat (hHeaderSize h) \<and> unat (hHeaderSize h) \<le> 2 ^ 20 \<and>
     0 < unat (hBlockSizeRecords h) \<and> unat (hBlockSizeRecords h) \<le> 2 ^ 24 \<and>
     0 < sint (hPriceScale h) \<and>
     unat (hRecordCount h) \<le> 2 ^ 40 \<and>
     unat (hTimeIndexCount h) = block_count (unat (hRecordCount h)) (unat (hBlockSizeRecords h)) \<and>
     unat (hSnapshotIndexCount h) \<le> unat (hRecordCount h) \<and>
     unat (hBlobRegionOffset h) = unat (hHeaderSize h) + 64 * unat (hRecordCount h) \<and>
     unat (hTimeIndexOffset h) = unat (hBlobRegionOffset h) + unat (hBlobRegionLen h) \<and>
     unat (hSnapshotIndexOffset h) = unat (hTimeIndexOffset h) + 8 * unat (hTimeIndexCount h) \<and>
     unat (hFooterOffset h) = unat (hSnapshotIndexOffset h) + 8 * unat (hSnapshotIndexCount h) \<and>
     len = unat (hFooterOffset h) + 12 * unat (hTimeIndexCount h)"

lemma unat_blockCountFor:
  assumes "unat n \<le> 2 ^ 40" "0 < unat bs" "unat bs \<le> 2 ^ 24"
  shows "unat (blockCountFor n bs) = block_count (unat n) (unat bs)"
proof -
  have u: "unat (ucast bs :: u64) = unat bs"
    by (simp add: unat_ucast_up)
  have b: "bs \<noteq> 0"
    using assms(2) by auto
  have lt: "unat n + unat bs < 2 ^ 64"
    using assms by simp
  have s: "unat (n + ucast bs) = unat n + unat bs"
    using lt by (subst unat_plus_if') (simp add: u)
  have "unat (n + ucast bs - 1) = unat n + unat bs - 1"
    using s assms(2) by (subst unat_sub) (simp_all add: word_le_nat_alt)
  then show ?thesis
    using b by (simp add: blockCountFor_def block_count_def unat_div u)
qed

lemma if_Some_None: "(if c then Some e else k) = None \<longleftrightarrow> \<not> c \<and> k = None"
  by simp

text \<open>The checks of \<^verbatim>\<open>validateHeader\<close> as one conjunction, on machine integers.\<close>

lemma validateHeader_None_iff:
  "validateHeader h fl = None \<longleftrightarrow>
     (let blocks = blockCountFor (hRecordCount h) (hBlockSizeRecords h);
          e0 = ucast (hHeaderSize h); e1 = e0 + hRecordCount h * 64; e2 = e1 + hBlobRegionLen h;
          e3 = e2 + hTimeIndexCount h * 8; e4 = e3 + hSnapshotIndexCount h * 8;
          e5 = e4 + blocks * 12
      in hFormatVersion h = 1 \<and> hFinalized h \<and> 128 \<le> hHeaderSize h \<and> hHeaderSize h \<le> 2 ^ 20
       \<and> hBlockSizeRecords h \<noteq> 0 \<and> hBlockSizeRecords h \<le> 2 ^ 24 \<and> 0 < sint (hPriceScale h)
       \<and> hRecordCount h \<le> 2 ^ 40 \<and> hRecordCount h \<le> 2 ^ 63 - 1
       \<and> hTimeIndexCount h = blocks \<and> hSnapshotIndexCount h \<le> hRecordCount h
       \<and> hRecordCount h \<le> (NOT 0 - e0) div of_nat 64
       \<and> hBlobRegionOffset h = e1 \<and> hBlobRegionLen h \<le> (NOT 0 - e1) div of_nat 1
       \<and> hTimeIndexOffset h = e2 \<and> hTimeIndexCount h \<le> (NOT 0 - e2) div of_nat 8
       \<and> hSnapshotIndexOffset h = e3 \<and> hSnapshotIndexCount h \<le> (NOT 0 - e3) div of_nat 8
       \<and> hFooterOffset h = e4 \<and> blocks \<le> (NOT 0 - e4) div of_nat 12
       \<and> e5 = fl)"
  unfolding validateHeader_def Let_def if_Some_None formatVersion_def headerFieldsSize_def
    header_bounds RecordSize_def maxInt_def
  by (simp add: not_less not_le)

lemma headroomD:
  fixes e n :: u64
  assumes "n \<le> (NOT 0 - e) div of_nat k" "0 < k" "k < 2 ^ 64"
  shows "unat (e + n * of_nat k) = unat e + unat n * k"
  by (rule unat_advance) (use assms unat_headroom_iff in blast)

lemma headroomI:
  fixes e n :: u64
  assumes "unat e + unat n * k < 2 ^ 64" "0 < k" "k < 2 ^ 64"
  shows "n \<le> (NOT 0 - e) div of_nat k"
  using assms unat_headroom_iff by blast

lemma advanceI:
  fixes e n off :: u64
  assumes "unat off = unat e + unat n * k" "unat e + unat n * k < 2 ^ 64"
  shows "off = e + n * of_nat k"
  using assms by (simp only: word_unat_eq_iff unat_advance)

text \<open>Bounds on the machine integers, as bounds on the numbers they stand for.\<close>

lemma header_word_bounds:
  fixes hs bs :: u32 and rc :: u64
  shows "128 \<le> hs \<longleftrightarrow> 128 \<le> unat hs" "hs \<le> 2 ^ 20 \<longleftrightarrow> unat hs \<le> 2 ^ 20"
    "bs \<noteq> 0 \<longleftrightarrow> 0 < unat bs" "bs \<le> 2 ^ 24 \<longleftrightarrow> unat bs \<le> 2 ^ 24"
    "rc \<le> 2 ^ 40 \<longleftrightarrow> unat rc \<le> 2 ^ 40"
  by (simp_all add: word_le_nat_alt unat_gt_0)

lemma header_spec_le_words:
  assumes "header_spec h len"
  shows "hFormatVersion h = 1 \<and> hFinalized h \<and> 128 \<le> hHeaderSize h \<and> hHeaderSize h \<le> 2 ^ 20
    \<and> hBlockSizeRecords h \<noteq> 0 \<and> hBlockSizeRecords h \<le> 2 ^ 24 \<and> 0 < sint (hPriceScale h)
    \<and> hRecordCount h \<le> 2 ^ 40 \<and> hRecordCount h \<le> 2 ^ 63 - 1
    \<and> hTimeIndexCount h = blockCountFor (hRecordCount h) (hBlockSizeRecords h)
    \<and> hSnapshotIndexCount h \<le> hRecordCount h"
proof -
  have "unat (hTimeIndexCount h) = unat (blockCountFor (hRecordCount h) (hBlockSizeRecords h))"
    using assms by (simp add: header_spec_def unat_blockCountFor)
  then show ?thesis
    using assms unfolding header_spec_def header_word_bounds
    by (simp add: word_le_nat_alt word_unat_eq_iff [of "hTimeIndexCount h"])
qed

lemma validateHeader_sound:
  assumes "len < 2 ^ 64" "validateHeader h (of_nat len) = None"
  shows "header_spec h len"
proof -
  let ?blocks = "blockCountFor (hRecordCount h) (hBlockSizeRecords h)"
  let ?e0 = "ucast (hHeaderSize h) :: u64"
  let ?e1 = "?e0 + hRecordCount h * 64"
  let ?e2 = "?e1 + hBlobRegionLen h"
  let ?e3 = "?e2 + hTimeIndexCount h * 8"
  let ?e4 = "?e3 + hSnapshotIndexCount h * 8"
  note v = assms(2) [unfolded validateHeader_None_iff Let_def]
  have e0: "unat ?e0 = unat (hHeaderSize h)"
    by (simp add: unat_ucast_up)
  have room: "hRecordCount h \<le> (NOT 0 - ?e0) div of_nat 64"
    "hBlobRegionLen h \<le> (NOT 0 - ?e1) div of_nat 1"
    "hTimeIndexCount h \<le> (NOT 0 - ?e2) div of_nat 8"
    "hSnapshotIndexCount h \<le> (NOT 0 - ?e3) div of_nat 8"
    "?blocks \<le> (NOT 0 - ?e4) div of_nat 12"
    using v by blast+
  have e1: "unat ?e1 = unat ?e0 + unat (hRecordCount h) * 64"
    using headroomD [OF room(1)] by simp
  have e2: "unat ?e2 = unat ?e1 + unat (hBlobRegionLen h)"
    using headroomD [OF room(2)] by simp
  have e3: "unat ?e3 = unat ?e2 + unat (hTimeIndexCount h) * 8"
    using headroomD [OF room(3)] by simp
  have e4: "unat ?e4 = unat ?e3 + unat (hSnapshotIndexCount h) * 8"
    using headroomD [OF room(4)] by simp
  have e5: "unat (?e4 + ?blocks * 12) = unat ?e4 + unat ?blocks * 12"
    using headroomD [OF room(5)] by simp
  have lw: "unat (of_nat len :: u64) = len"
    using assms(1) by (simp add: unat_of_nat take_bit_nat_eq_self)
  have lx: "?e4 + ?blocks * 12 = of_nat len"
    using v by blast
  have len: "len = unat ?e4 + unat ?blocks * 12"
    using e5 [unfolded lx lw] .
  have w: "hRecordCount h \<le> 2 ^ 40" "hBlockSizeRecords h \<noteq> 0" "hBlockSizeRecords h \<le> 2 ^ 24"
    "128 \<le> hHeaderSize h" "hHeaderSize h \<le> 2 ^ 20" "hSnapshotIndexCount h \<le> hRecordCount h"
    using v by blast+
  have b: "unat (hRecordCount h) \<le> 2 ^ 40" "0 < unat (hBlockSizeRecords h)"
    "unat (hBlockSizeRecords h) \<le> 2 ^ 24" "128 \<le> unat (hHeaderSize h)"
    "unat (hHeaderSize h) \<le> 2 ^ 20" "unat (hSnapshotIndexCount h) \<le> unat (hRecordCount h)"
    using w(1-5) [unfolded header_word_bounds] w(6) [unfolded word_le_nat_alt] by blast+
  have "hTimeIndexCount h = ?blocks" "hBlobRegionOffset h = ?e1" "hTimeIndexOffset h = ?e2"
    "hSnapshotIndexOffset h = ?e3" "hFooterOffset h = ?e4" "hFormatVersion h = 1" "hFinalized h"
    "0 < sint (hPriceScale h)"
    using v by blast+
  with b len e0 e1 e2 e3 e4 show ?thesis
    unfolding header_spec_def by (simp only: unat_blockCountFor mult.commute simp_thms)
qed

lemma validateHeader_complete:
  assumes "len < 2 ^ 64" "header_spec h len"
  shows "validateHeader h (of_nat len) = None"
proof -
  let ?e0 = "ucast (hHeaderSize h) :: u64"
  note w = header_spec_le_words [OF assms(2)]
  have e0: "unat ?e0 = unat (hHeaderSize h)"
    by (simp add: unat_ucast_up)
  have c: "unat (hBlobRegionOffset h) = unat ?e0 + unat (hRecordCount h) * 64"
    "unat (hTimeIndexOffset h) = unat (hBlobRegionOffset h) + unat (hBlobRegionLen h) * 1"
    "unat (hSnapshotIndexOffset h) = unat (hTimeIndexOffset h) + unat (hTimeIndexCount h) * 8"
    "unat (hFooterOffset h) = unat (hSnapshotIndexOffset h) + unat (hSnapshotIndexCount h) * 8"
    "len = unat (hFooterOffset h) + unat (hTimeIndexCount h) * 12"
    using assms(2) e0 by (simp_all add: header_spec_def)
  have lim: "unat ?e0 + unat (hRecordCount h) * 64 < 2 ^ 64"
    "unat (hBlobRegionOffset h) + unat (hBlobRegionLen h) * 1 < 2 ^ 64"
    "unat (hTimeIndexOffset h) + unat (hTimeIndexCount h) * 8 < 2 ^ 64"
    "unat (hSnapshotIndexOffset h) + unat (hSnapshotIndexCount h) * 8 < 2 ^ 64"
    "unat (hFooterOffset h) + unat (hTimeIndexCount h) * 12 < 2 ^ 64"
    using assms(1) unfolding c(5) c(4) c(3) c(2) c(1) by linarith+
  have adv: "hBlobRegionOffset h = ?e0 + hRecordCount h * of_nat 64"
    "hTimeIndexOffset h = hBlobRegionOffset h + hBlobRegionLen h * of_nat 1"
    "hSnapshotIndexOffset h = hTimeIndexOffset h + hTimeIndexCount h * of_nat 8"
    "hFooterOffset h = hSnapshotIndexOffset h + hSnapshotIndexCount h * of_nat 8"
    using advanceI [OF c(1) lim(1)] advanceI [OF c(2) lim(2)] advanceI [OF c(3) lim(3)]
      advanceI [OF c(4) lim(4)] by blast+
  have fin: "hFooterOffset h + hTimeIndexCount h * of_nat 12 = of_nat len"
    by (simp add: c(5) mult.commute)
  have room: "hRecordCount h \<le> (NOT 0 - ?e0) div of_nat 64"
    "hBlobRegionLen h \<le> (NOT 0 - hBlobRegionOffset h) div of_nat 1"
    "hTimeIndexCount h \<le> (NOT 0 - hTimeIndexOffset h) div of_nat 8"
    "hSnapshotIndexCount h \<le> (NOT 0 - hSnapshotIndexOffset h) div of_nat 8"
    "hTimeIndexCount h \<le> (NOT 0 - hFooterOffset h) div of_nat 12"
    using headroomI [OF lim(1)] headroomI [OF lim(2)] headroomI [OF lim(3)] headroomI [OF lim(4)]
      headroomI [OF lim(5)] by simp_all
  show ?thesis
    unfolding validateHeader_None_iff Let_def
    using w room adv fin by (simp add: add.assoc)
qed

text \<open>C37: The header survives its encoding, in both of its states on disk. \<^verbatim>\<open>encodeHeader\<close>
  writes a header that decodes to the same fields with the finalized flag clear; setting the one
  finalized byte afterwards gives bytes that decode to the same fields with the flag set, because
  the checksum does not cover it.\<close>

theorem header_roundtrip:
  assumes "headerFieldsSize \<le> length dst"
  shows "\<exists>out. encodeHeader dst h = Some out \<and> length out = length dst
    \<and> decodeHeader out = Inr (h\<lparr>hFinalized := False\<rparr>)
    \<and> decodeHeader (setFinalized out) = Inr (h\<lparr>hFinalized := True\<rparr>)"
  using assms
  by (simp add: encodeHeader_eq headerFieldsSize_def decodeHeader_header_bytes setFinalized_header_bytes)

definition example_header :: header where
  "example_header = \<lparr>hFormatVersion = 1, hVenueID = 7, hPriceScale = 100, hRecordCount = 3,
     hMinExchangeTs = 5, hMaxExchangeTs = 9, hHeaderSize = 128, hBlockSizeRecords = 2,
     hBlobRegionOffset = 320, hBlobRegionLen = 24, hTimeIndexOffset = 344, hTimeIndexCount = 2,
     hSnapshotIndexOffset = 360, hSnapshotIndexCount = 1, hFooterOffset = 368, hTrailerCRC = 77,
     hFinalized = True\<rparr>"

theorem header_roundtrip_witness:
  "\<exists>out. encodeHeader (replicate 130 255) example_header = Some out \<and> length out = 130
    \<and> decodeHeader out = Inr (example_header\<lparr>hFinalized := False\<rparr>)
    \<and> decodeHeader (setFinalized out) = Inr (example_header\<lparr>hFinalized := True\<rparr>)"
proof -
  have "headerFieldsSize \<le> length (replicate 130 (255 :: u8))"
    by (simp add: headerFieldsSize_def)
  from header_roundtrip [OF this, of example_header] show ?thesis by simp
qed

text \<open>The header is canonical. Two byte strings that decode to the same header agree on all
  128 header bytes, so no byte of a header is free to vary.\<close>

theorem header_canonical:
  assumes "decodeHeader src = Inr h" and "decodeHeader src' = Inr h"
  shows "take headerFieldsSize src = take headerFieldsSize src'"
  using decodeHeader_InrD(2) [OF assms(1)] decodeHeader_InrD(2) [OF assms(2)]
  by (simp add: sub_def headerFieldsSize_def)

theorem header_canonical_witness:
  "take headerFieldsSize (header_bytes example_header) = take headerFieldsSize (header_bytes example_header @ [1])"
proof (rule header_canonical)
  show "decodeHeader (header_bytes example_header) = Inr example_header"
    using decodeHeader_header_bytes [of example_header "[]"] by simp
  show "decodeHeader (header_bytes example_header @ [1]) = Inr example_header"
    by (rule decodeHeader_header_bytes)
qed

text \<open>\<^verbatim>\<open>validateHeader\<close>, computed in wrapping 64-bit arithmetic, accepts exactly the
  headers whose regions form a gap-free chain from \<^verbatim>\<open>header_size\<close> to the end of the
  file over the natural numbers: no hostile field can wrap into a header that looks valid, and no
  coherent header is refused.\<close>

theorem validateHeader_exact:
  assumes "len < 2 ^ 64"
  shows "validateHeader h (of_nat len) = None \<longleftrightarrow> header_spec h len"
  using assms validateHeader_sound validateHeader_complete by blast

theorem validateHeader_exact_witness:
  "(392 :: nat) < 2 ^ 64 \<and> header_spec example_header 392 \<and> validateHeader example_header (of_nat 392) = None"
proof -
  have l: "(392 :: nat) < 2 ^ 64" by simp
  have "header_spec example_header 392"
    by (simp add: header_spec_def example_header_def block_count_def)
  with l validateHeader_exact [OF l, of example_header] show ?thesis by blast
qed

section \<open>Page sizes\<close>

lemma headerSizeFor_spec:
  assumes "0 < pageSize" and "pageSize \<le> maxInt - 127"
  shows "\<exists>size. pageSize dvd size \<and> 128 \<le> size \<and> size < 128 + pageSize
    \<and> headerSizeFor pageSize = (if size > 2 ^ 20 then Inl ErrPageSize else Inr (word_of_int size))"
proof -
  let ?size = "(127 + pageSize) div pageSize * pageSize"
  have eq: "?size = 127 + pageSize - (127 + pageSize) mod pageSize"
    by (rule minus_mod_eq_div_mult [symmetric])
  have m: "0 \<le> (127 + pageSize) mod pageSize" "(127 + pageSize) mod pageSize < pageSize"
    using assms(1) by simp_all
  have bnd: "128 \<le> ?size" "?size < 128 + pageSize"
    using eq m by linarith+
  have "wrap64 (127 + pageSize) = 127 + pageSize"
    using assms by (intro wrap64_id) (simp_all add: maxInt_def)
  moreover have "wrap64 ?size = ?size"
    using bnd assms by (intro wrap64_id) (simp_all add: maxInt_def)
  ultimately have "headerSizeFor pageSize =
    (if ?size > 2 ^ 20 then Inl ErrPageSize else Inr (word_of_int ?size))"
    using assms(1) by (simp add: headerSizeFor_def headerFieldsSize_def header_bounds
        go_quot_nonneg Let_def)
  with bnd show ?thesis
    by (intro exI [of _ ?size]) simp
qed

text \<open>For every page size that leaves room for the rounding, \<^verbatim>\<open>headerSizeFor\<close> returns
  the least multiple of the page size that covers the 128 header bytes, or \<^verbatim>\<open>ErrPageSize\<close>
  when that exceeds the bound of one mebibyte.\<close>

theorem headerSizeFor_rounds_up:
  assumes "0 < pageSize" and "pageSize \<le> maxInt - 127"
  shows "\<exists>size. pageSize dvd size \<and> 128 \<le> size \<and> size < 128 + pageSize
    \<and> headerSizeFor pageSize = (if size > 2 ^ 20 then Inl ErrPageSize else Inr (word_of_int size))"
  using assms by (rule headerSizeFor_spec)

theorem headerSizeFor_rounds_up_witness:
  "(0 :: int) < 4096 \<and> 4096 \<le> maxInt - 127 \<and> (\<exists>size. 4096 dvd size \<and> 128 \<le> size \<and> size < 128 + 4096
    \<and> headerSizeFor 4096 = (if size > 2 ^ 20 then Inl ErrPageSize else Inr (word_of_int size)))"
proof -
  have a: "(0 :: int) < 4096" and b: "4096 \<le> maxInt - 127"
    by (simp_all add: maxInt_def)
  with headerSizeFor_rounds_up [OF a b] show ?thesis by blast
qed

text \<open>
  Above that range the addition in \<^verbatim>\<open>(headerFieldsSize + pageSize - 1) / pageSize\<close>
  overflows: the largest page size gives a header of no bytes and no error.
\<close>

lemma headerSizeFor_overflow: "headerSizeFor maxInt = Inr 0"
  by (simp add: headerSizeFor_def headerFieldsSize_def header_bounds maxInt_def go_quot_def wrap64_def)

end
