(* ===== verification/Store_Index.thy ===== *)
theory Store_Index
  imports Store_Header
begin

text \<open>
  The sparse time index and the snapshot position index:
  \<^verbatim>\<open>src/internal/store/index.go\<close>. The decoders fill a slice the caller made; here they
  take its length and return its final content. The theorems: a decoder accepts exactly the
  encodings of ordered indexes, and the two searches return what their comments promise.
\<close>

section \<open>Operations\<close>

text \<open>The loop of both encoders, with \<open>i\<close> the position of the next entry.\<close>

primrec putEntries :: "bytes \<Rightarrow> nat \<Rightarrow> u64 list \<Rightarrow> bytes" where
  "putEntries dst i [] = dst"
| "putEntries dst i (v # vs) = putEntries (PutUint64 dst (i * indexEntrySize) v) (Suc i) vs"

definition encodeTimeIndex :: "bytes \<Rightarrow> i64 list \<Rightarrow> bytes option" where
  "encodeTimeIndex dst ts =
     (if length dst < length ts * indexEntrySize then None else Some (putEntries dst 0 ts))"

definition encodeSnapshotIndex :: "bytes \<Rightarrow> u64 list \<Rightarrow> bytes option" where
  "encodeSnapshotIndex dst idx =
     (if length dst < length idx * indexEntrySize then None else Some (putEntries dst 0 idx))"

text \<open>
  The loops of the decoders: \<open>k\<close> entries are left to read and \<open>dst\<close> holds those read so
  far, so \<open>i\<close> is its length.
\<close>

fun decodeTimeIndex_loop :: "bytes \<Rightarrow> nat \<Rightarrow> i64 list \<Rightarrow> store_error + i64 list" where
  "decodeTimeIndex_loop src 0 dst = Inr dst"
| "decodeTimeIndex_loop src (Suc k) dst =
     (let i = length dst; v = Uint64 src (i * indexEntrySize)
      in if i > 0 \<and> sint v < sint (dst ! (i - 1)) then Inl ErrIndexOrder
         else decodeTimeIndex_loop src k (dst @ [v]))"

definition decodeTimeIndex :: "nat \<Rightarrow> bytes \<Rightarrow> store_error + i64 list" where
  "decodeTimeIndex n src =
     (if length src < n * indexEntrySize then Inl ErrShortIndex else decodeTimeIndex_loop src n [])"

fun decodeSnapshotIndex_loop :: "bytes \<Rightarrow> u64 \<Rightarrow> nat \<Rightarrow> u64 list \<Rightarrow> store_error + u64 list" where
  "decodeSnapshotIndex_loop src recordCount 0 dst = Inr dst"
| "decodeSnapshotIndex_loop src recordCount (Suc k) dst =
     (let i = length dst; v = Uint64 src (i * indexEntrySize)
      in if i > 0 \<and> v \<le> dst ! (i - 1) then Inl ErrIndexOrder
         else if v \<ge> recordCount then Inl ErrIndexRange
         else decodeSnapshotIndex_loop src recordCount k (dst @ [v]))"

definition decodeSnapshotIndex :: "nat \<Rightarrow> bytes \<Rightarrow> u64 \<Rightarrow> store_error + u64 list" where
  "decodeSnapshotIndex n src recordCount =
     (if length src < n * indexEntrySize then Inl ErrShortIndex
      else decodeSnapshotIndex_loop src recordCount n [])"

definition searchTimeIndex :: "i64 list \<Rightarrow> i64 \<Rightarrow> nat" where
  "searchTimeIndex idx t = sort_Search (length idx) (\<lambda>j. sint (idx ! j) \<ge> sint t)"

text \<open>The pair of a value and a flag is an \<open>option\<close>.\<close>

definition searchSnapshotIndex :: "u64 list \<Rightarrow> u64 \<Rightarrow> u64 option" where
  "searchSnapshotIndex idx recordIndex =
     (let n = sort_Search (length idx) (\<lambda>j. idx ! j > recordIndex)
      in if n = 0 then None else Some (idx ! (n - 1)))"

section \<open>Encoding\<close>

lemma putEntries_eq:
  "(i + length vs) * 8 \<le> length dst \<Longrightarrow>
   putEntries dst i vs = take (i * 8) dst @ u64s_bytes vs @ drop ((i + length vs) * 8) dst"
proof (induction vs arbitrary: dst i)
  case Nil
  show ?case by (simp add: u64s_bytes_def)
next
  case (Cons v vs)
  let ?d = "put dst (i * 8) (le_bytes 8 v)"
  have len: "length ?d = length dst"
    using Cons.prems by (simp add: length_put)
  have "putEntries dst i (v # vs) = putEntries ?d (Suc i) vs"
    by (simp add: PutUint64_def indexEntrySize_def)
  also have "\<dots> = take (Suc i * 8) ?d @ u64s_bytes vs @ drop ((Suc i + length vs) * 8) ?d"
    using Cons.prems len by (intro Cons.IH) simp
  also have "take (Suc i * 8) ?d = take (i * 8) dst @ le_bytes 8 v"
    using Cons.prems by (simp add: put_def)
  also have "drop ((Suc i + length vs) * 8) ?d = drop ((i + length (v # vs)) * 8) dst"
    using Cons.prems by (simp add: put_def min_def algebra_simps)
  finally show ?case
    by (simp add: u64s_bytes_def)
qed

lemma encodeTimeIndex_eq:
  "8 * length ts \<le> length dst \<Longrightarrow> encodeTimeIndex dst ts = Some (u64s_bytes ts @ drop (8 * length ts) dst)"
  by (simp add: encodeTimeIndex_def indexEntrySize_def putEntries_eq mult.commute)

lemma encodeSnapshotIndex_eq:
  "8 * length ts \<le> length dst \<Longrightarrow>
   encodeSnapshotIndex dst ts = Some (u64s_bytes ts @ drop (8 * length ts) dst)"
  by (simp add: encodeSnapshotIndex_def indexEntrySize_def putEntries_eq mult.commute)

section \<open>Decoding\<close>

lemma decodeTimeIndex_loop_eq:
  "dst = u64s_at src (length dst) \<Longrightarrow> sorted (map sint dst) \<Longrightarrow>
   decodeTimeIndex_loop src k dst =
     (let ts = u64s_at src (length dst + k)
      in if sorted (map sint ts) then Inr ts else Inl ErrIndexOrder)"
proof (induction k arbitrary: dst)
  case 0
  then show ?case by (simp add: Let_def)
next
  case (Suc k)
  let ?v = "Uint64 src (length dst * 8)"
  have next_eq: "dst @ [?v] = u64s_at src (length (dst @ [?v]))"
    using Suc.prems(1) by (simp add: u64s_at_Suc)
  have whole: "\<exists>rest. u64s_at src (length dst + Suc k) = (dst @ [?v]) @ rest"
    using next_eq u64s_at_add [of src "length (dst @ [?v])" k] by (metis add_Suc_right add_Suc
        length_append_singleton)
  show ?case
  proof (cases "length dst > 0 \<and> sint ?v < sint (dst ! (length dst - 1))")
    case True
    then have "dst ! (length dst - 1) \<in> set dst" "\<not> sint (dst ! (length dst - 1)) \<le> sint ?v"
      by simp_all
    then have "\<not> sorted (map sint (dst @ [?v]))"
      by (auto simp: sorted_append)
    then show ?thesis
      using True whole by (auto simp: Let_def indexEntrySize_def sorted_append)
  next
    case False
    then have "sorted (map sint (dst @ [?v]))"
      using Suc.prems(2)
      by (cases dst rule: rev_cases) (auto simp: sorted_append nth_append intro: order_trans)
    with next_eq have "decodeTimeIndex_loop src k (dst @ [?v]) =
        (let ts = u64s_at src (length (dst @ [?v]) + k)
         in if sorted (map sint ts) then Inr ts else Inl ErrIndexOrder)"
      by (rule Suc.IH)
    then show ?thesis
      using False by (auto simp: Let_def indexEntrySize_def)
  qed
qed

lemma decodeTimeIndex_Inr_iff:
  "decodeTimeIndex n src = Inr ts \<longleftrightarrow>
     8 * n \<le> length src \<and> ts = u64s_at src n \<and> sorted (map sint ts)"
  using decodeTimeIndex_loop_eq [of "[]" src n]
  by (auto simp: decodeTimeIndex_def indexEntrySize_def Let_def u64s_at_def mult.commute)

definition snapshot_index_ok :: "u64 \<Rightarrow> u64 list \<Rightarrow> bool" where
  "snapshot_index_ok recordCount idx \<longleftrightarrow> sorted_wrt (<) idx \<and> (\<forall>v \<in> set idx. v < recordCount)"

lemma snapshot_index_ok_snoc:
  "snapshot_index_ok rc (dst @ [v]) \<longleftrightarrow>
     snapshot_index_ok rc dst \<and> (dst \<noteq> [] \<longrightarrow> dst ! (length dst - 1) < v) \<and> v < rc"
  by (cases dst rule: rev_cases)
    (auto simp: snapshot_index_ok_def sorted_wrt_append nth_append)

lemma decodeSnapshotIndex_loop_Inr_iff:
  "dst = u64s_at src (length dst) \<Longrightarrow> snapshot_index_ok rc dst \<Longrightarrow>
   decodeSnapshotIndex_loop src rc k dst = Inr idx \<longleftrightarrow>
     idx = u64s_at src (length dst + k) \<and> snapshot_index_ok rc idx"
proof (induction k arbitrary: dst)
  case 0
  then show ?case by auto
next
  case (Suc k)
  let ?v = "Uint64 src (length dst * 8)"
  have next_eq: "dst @ [?v] = u64s_at src (length (dst @ [?v]))"
    using Suc.prems(1) by (simp add: u64s_at_Suc)
  have whole: "\<exists>rest. u64s_at src (length dst + Suc k) = (dst @ [?v]) @ rest"
    using next_eq u64s_at_add [of src "length (dst @ [?v])" k] by (metis add_Suc_right add_Suc
        length_append_singleton)
  show ?case
  proof (cases "snapshot_index_ok rc (dst @ [?v])")
    case True
    with Suc.IH [OF next_eq True] Suc.prems show ?thesis
      by (auto simp: Let_def indexEntrySize_def snapshot_index_ok_snoc)
  next
    case False
    then have "\<not> snapshot_index_ok rc (u64s_at src (length dst + Suc k))"
      using whole by (auto simp: snapshot_index_ok_def sorted_wrt_append)
    with False Suc.prems show ?thesis
      by (auto simp: Let_def indexEntrySize_def snapshot_index_ok_snoc)
  qed
qed

lemma decodeSnapshotIndex_Inr_iff:
  "decodeSnapshotIndex n src rc = Inr idx \<longleftrightarrow>
     8 * n \<le> length src \<and> idx = u64s_at src n \<and> snapshot_index_ok rc idx"
  using decodeSnapshotIndex_loop_Inr_iff [of "[]" src rc n idx]
  by (auto simp: decodeSnapshotIndex_def indexEntrySize_def u64s_at_def snapshot_index_ok_def
      mult.commute)

lemma decodeTimeIndex_not_Panic: "decodeTimeIndex n src \<noteq> Inl Panic"
  using decodeTimeIndex_loop_eq [of "[]" src n]
  by (auto simp: decodeTimeIndex_def Let_def u64s_at_def)

lemma decodeSnapshotIndex_loop_not_Panic: "decodeSnapshotIndex_loop src rc k dst \<noteq> Inl Panic"
  by (induction k arbitrary: dst) (simp_all add: Let_def)

lemma decodeSnapshotIndex_not_Panic: "decodeSnapshotIndex n src rc \<noteq> Inl Panic"
  by (simp add: decodeSnapshotIndex_def decodeSnapshotIndex_loop_not_Panic)

text \<open>The time index decoder accepts exactly the encodings of non-decreasing timestamp runs:
  \<^verbatim>\<open>decodeTimeIndex\<close> returns \<open>ts\<close> for the first \<open>n\<close> entries of \<open>src\<close> iff \<open>ts\<close> has
  \<open>n\<close> entries in order and \<^verbatim>\<open>encodeTimeIndex\<close> of it, into any buffer of that size, is
  that part of \<open>src\<close>.\<close>

theorem time_index_exact:
  "decodeTimeIndex n src = Inr ts \<longleftrightarrow>
     8 * n \<le> length src \<and> length ts = n \<and> sorted (map sint ts)
     \<and> encodeTimeIndex (replicate (8 * n) x) ts = Some (take (8 * n) src)"
proof
  assume "decodeTimeIndex n src = Inr ts"
  then show "8 * n \<le> length src \<and> length ts = n \<and> sorted (map sint ts)
     \<and> encodeTimeIndex (replicate (8 * n) x) ts = Some (take (8 * n) src)"
    by (auto simp: decodeTimeIndex_Inr_iff encodeTimeIndex_eq u64s_bytes_at)
next
  assume R: "8 * n \<le> length src \<and> length ts = n \<and> sorted (map sint ts)
     \<and> encodeTimeIndex (replicate (8 * n) x) ts = Some (take (8 * n) src)"
  then have "take (8 * n) src = u64s_bytes ts"
    by (auto simp: encodeTimeIndex_eq)
  then have "src = u64s_bytes ts @ drop (8 * n) src"
    by (metis append_take_drop_id)
  then have "u64s_at src n = ts"
    using R u64s_at_bytes [of ts] by metis
  with R show "decodeTimeIndex n src = Inr ts"
    by (simp add: decodeTimeIndex_Inr_iff)
qed

section \<open>Searching\<close>

lemma searchTimeIndex_correct:
  assumes "sorted (map sint idx)"
  shows "searchTimeIndex idx t \<le> length idx"
    "j < searchTimeIndex idx t \<Longrightarrow> sint (idx ! j) < sint t"
    "searchTimeIndex idx t \<le> j \<Longrightarrow> j < length idx \<Longrightarrow> sint t \<le> sint (idx ! j)"
proof -
  have "upclosed (length idx) (\<lambda>j. sint t \<le> sint (idx ! j))"
    using sorted_nth_mono [OF assms] by (fastforce simp: upclosed_def)
  note s = sort_Search_correct [OF this, folded searchTimeIndex_def]
  show "searchTimeIndex idx t \<le> length idx"
    by (rule s(1))
  show "sint (idx ! j) < sint t" if "j < searchTimeIndex idx t"
    using s(2) [OF that] by simp
  show "sint t \<le> sint (idx ! j)" if "searchTimeIndex idx t \<le> j" "j < length idx"
    using s(3) [OF that] .
qed

lemma searchSnapshotIndex_correct:
  assumes "sorted_wrt (<) idx"
  shows "searchSnapshotIndex idx r = Some v \<longleftrightarrow>
    v \<in> set idx \<and> v \<le> r \<and> (\<forall>u \<in> set idx. u \<le> r \<longrightarrow> u \<le> v)"
proof -
  let ?f = "\<lambda>j. idx ! j > r"
  let ?n = "sort_Search (length idx) ?f"
  have lt: "idx ! a < idx ! b" if "a < b" "b < length idx" for a b
    using assms that by (rule sorted_wrt_nth_less)
  have mono: "?f b" if "a \<le> b" "b < length idx" "?f a" for a b
    using that lt [of a b] by (cases "a = b") auto
  have "upclosed (length idx) ?f"
    using mono unfolding upclosed_def by blast
  note up = sort_Search_correct [OF this]
  have s: "?n \<le> length idx" "\<And>k. k < ?n \<Longrightarrow> \<not> ?f k" "\<And>k. ?n \<le> k \<Longrightarrow> k < length idx \<Longrightarrow> ?f k"
    by (rule up(1), rule up(2), assumption, rule up(3))
  have below: "u \<in> set idx \<and> u \<le> r \<longleftrightarrow> (\<exists>j < ?n. u = idx ! j)" for u
  proof
    assume "u \<in> set idx \<and> u \<le> r"
    then obtain j where j: "j < length idx" "u = idx ! j" "\<not> ?f j"
      by (auto simp: in_set_conv_nth)
    with s(3) [of j] have "j < ?n" by (meson not_le)
    with j show "\<exists>j < ?n. u = idx ! j" by blast
  next
    assume "\<exists>j < ?n. u = idx ! j"
    then obtain j where j: "j < ?n" "u = idx ! j" by blast
    with s(1) s(2) [OF j(1)] show "u \<in> set idx \<and> u \<le> r" by simp
  qed
  show ?thesis
  proof (cases "?n = 0")
    case True
    then show ?thesis
      using below by (auto simp: searchSnapshotIndex_def)
  next
    case False
    have le: "idx ! j \<le> idx ! (?n - 1)" if "j < ?n" for j
    proof (cases "j = ?n - 1")
      case False
      then have "j < ?n - 1" "?n - 1 < length idx" using that s(1) by linarith+
      then show ?thesis using lt [of j "?n - 1"] by simp
    qed simp
    have "searchSnapshotIndex idx r = Some (idx ! (?n - 1))"
      using False by (simp add: searchSnapshotIndex_def)
    moreover have "idx ! (?n - 1) \<in> set idx \<and> idx ! (?n - 1) \<le> r"
      unfolding below using False by (intro exI [of _ "?n - 1"]) simp
    moreover have "u \<le> idx ! (?n - 1)" if "u \<in> set idx" "u \<le> r" for u
    proof -
      from that have "\<exists>j < ?n. u = idx ! j"
        unfolding below [symmetric] by simp
      then show ?thesis
        using le by auto
    qed
    ultimately show ?thesis
      by (auto intro: antisym)
  qed
qed

text \<open>On an index the decoder accepted, \<^verbatim>\<open>searchSnapshotIndex\<close> returns the largest entry
  at or before the record index, and reports none exactly when every entry is later.\<close>

theorem searchSnapshotIndex_last:
  assumes "decodeSnapshotIndex n src recordCount = Inr idx"
  shows "searchSnapshotIndex idx r =
    (if \<exists>u \<in> set idx. u \<le> r then Some (Max {u \<in> set idx. u \<le> r}) else None)"
proof (cases "\<exists>u \<in> set idx. u \<le> r")
  case True
  let ?S = "{u \<in> set idx. u \<le> r}"
  have "sorted_wrt (<) idx"
    using assms by (auto simp: decodeSnapshotIndex_Inr_iff snapshot_index_ok_def)
  moreover have "Max ?S \<in> ?S"
    using True by (intro Max_in) auto
  ultimately have "searchSnapshotIndex idx r = Some (Max ?S)"
    by (subst searchSnapshotIndex_correct) auto
  with True show ?thesis by simp
next
  case False
  have "sorted_wrt (<) idx"
    using assms by (auto simp: decodeSnapshotIndex_Inr_iff snapshot_index_ok_def)
  with False searchSnapshotIndex_correct [of idx r] show ?thesis
    by (cases "searchSnapshotIndex idx r") auto
qed

theorem searchSnapshotIndex_last_witness:
  "decodeSnapshotIndex 2 (u64s_bytes [3, 9]) 10 = Inr [3, 9] \<and> searchSnapshotIndex [3, 9] 5 = Some 3"
proof -
  have d: "decodeSnapshotIndex 2 (u64s_bytes [3, 9]) 10 = Inr [3, 9]"
  proof -
    have "u64s_at (u64s_bytes [3, 9]) 2 = [3, 9]"
      using u64s_at_bytes [of "[3, 9]" "[]"] by (simp add: numeral_2_eq_2)
    then show ?thesis
      by (simp add: decodeSnapshotIndex_Inr_iff snapshot_index_ok_def)
  qed
  have "{u \<in> {3, 9 :: u64}. u \<le> 5} = {3}"
    by auto
  with d searchSnapshotIndex_last [OF d, of 5] show ?thesis
    by simp
qed

end
