(* ===== verification/Store_Footer.thy ===== *)
theory Store_Footer
  imports Store_Header
begin

text \<open>
  The per-block checksums: \<^verbatim>\<open>src/internal/store/footer.go\<close>. As for the indexes,
  \<open>decodeFooter\<close> takes the length of the slice it fills. A result \<open>Inl Panic\<close> stands for a
  slice bound out of range; the lemmas show where it cannot happen.
\<close>

record footerEntry =
  BlockStartIndex :: u64
  CRC32C :: u32

section \<open>Operations\<close>

primrec putFooterEntries :: "bytes \<Rightarrow> nat \<Rightarrow> footerEntry list \<Rightarrow> bytes" where
  "putFooterEntries dst i [] = dst"
| "putFooterEntries dst i (e # es) =
     putFooterEntries
       (PutUint32 (PutUint64 dst (i * footerEntrySize) (BlockStartIndex e))
          (i * footerEntrySize + 8) (CRC32C e)) (Suc i) es"

definition encodeFooter :: "bytes \<Rightarrow> footerEntry list \<Rightarrow> bytes option" where
  "encodeFooter dst entries =
     (if length dst < length entries * footerEntrySize then None
      else Some (putFooterEntries dst 0 entries))"

fun decodeFooter_loop :: "bytes \<Rightarrow> u32 \<Rightarrow> nat \<Rightarrow> footerEntry list \<Rightarrow> store_error + footerEntry list" where
  "decodeFooter_loop src blockSize 0 dst = Inr dst"
| "decodeFooter_loop src blockSize (Suc k) dst =
     (let i = length dst; start = Uint64 src (i * footerEntrySize)
      in if start \<noteq> of_nat i * ucast blockSize then Inl ErrFooterGeometry
         else decodeFooter_loop src blockSize k
           (dst @ [\<lparr>BlockStartIndex = start, CRC32C = Uint32 src (i * footerEntrySize + 8)\<rparr>]))"

definition decodeFooter :: "nat \<Rightarrow> bytes \<Rightarrow> u32 \<Rightarrow> store_error + footerEntry list" where
  "decodeFooter n src blockSize =
     (if length src < n * footerEntrySize then Inl ErrShortFooter
      else decodeFooter_loop src blockSize n [])"

text \<open>\<open>Inr None\<close> is the flag \<^verbatim>\<open>false\<close>.\<close>

definition blockRecordBytes :: "bytes \<Rightarrow> int \<Rightarrow> u32 \<Rightarrow> u64 \<Rightarrow> store_error + bytes option" where
  "blockRecordBytes records blockIndex blockSize recordCount =
     (if blockIndex < 0 \<or> word_of_int blockIndex \<ge> blockCountFor recordCount blockSize then Inr None
      else let start = word_of_int blockIndex * ucast blockSize;
               e = start + ucast blockSize;
               e = (if e > recordCount then recordCount else e)
           in if e * of_nat RecordSize > of_nat (length records) then Inr None
              else case go_slice records (unat (start * of_nat RecordSize)) (unat (e * of_nat RecordSize)) of
                  None \<Rightarrow> Inl Panic
                | Some b \<Rightarrow> Inr (Some b))"

definition blockChecksum :: "bytes \<Rightarrow> u32" where
  "blockChecksum blockBytes = crc32_Checksum blockBytes"

definition verifyBlock ::
    "bytes \<Rightarrow> footerEntry list \<Rightarrow> int \<Rightarrow> u32 \<Rightarrow> u64 \<Rightarrow> store_error option" where
  "verifyBlock records entries blockIndex blockSize recordCount =
     (if blockIndex < 0 \<or> blockIndex \<ge> int (length entries) then Some ErrBlockRange
      else case blockRecordBytes records blockIndex blockSize recordCount of
          Inl e \<Rightarrow> Some e
        | Inr None \<Rightarrow> Some ErrBlockRange
        | Inr (Some b) \<Rightarrow>
            if blockChecksum b \<noteq> CRC32C (entries ! nat blockIndex) then Some ErrBlockChecksum
            else None)"

section \<open>Encoding and decoding\<close>

definition entry_bytes :: "footerEntry \<Rightarrow> bytes" where
  "entry_bytes e = le_bytes 8 (BlockStartIndex e) @ le_bytes 4 (CRC32C e)"

definition footer_bytes :: "footerEntry list \<Rightarrow> bytes" where
  "footer_bytes es = concat (map entry_bytes es)"

definition entry_at :: "bytes \<Rightarrow> nat \<Rightarrow> footerEntry" where
  "entry_at src i = \<lparr>BlockStartIndex = Uint64 src (i * 12), CRC32C = Uint32 src (i * 12 + 8)\<rparr>"

lemma length_entry_bytes [simp]: "length (entry_bytes e) = 12"
  by (simp add: entry_bytes_def)

lemma length_footer_bytes [simp]: "length (footer_bytes es) = 12 * length es"
  by (induction es) (simp_all add: footer_bytes_def)

lemma footer_bytes_snoc: "footer_bytes (es @ [e]) = footer_bytes es @ entry_bytes e"
  by (simp add: footer_bytes_def)

lemma put_entry:
  "i * 12 + 12 \<le> length dst \<Longrightarrow>
   PutUint32 (PutUint64 dst (i * footerEntrySize) (BlockStartIndex e)) (i * footerEntrySize + 8) (CRC32C e)
   = put dst (i * 12) (entry_bytes e)"
  by (simp add: le_writes put_def footerEntrySize_def entry_bytes_def min_def
      add.commute)

lemma putFooterEntries_eq:
  "(i + length es) * 12 \<le> length dst \<Longrightarrow>
   putFooterEntries dst i es = take (i * 12) dst @ footer_bytes es @ drop ((i + length es) * 12) dst"
proof (induction es arbitrary: dst i)
  case Nil
  show ?case by (simp add: footer_bytes_def)
next
  case (Cons e es)
  let ?d = "put dst (i * 12) (entry_bytes e)"
  have len: "length ?d = length dst"
    using Cons.prems by (simp add: length_put)
  have "putFooterEntries dst i (e # es) = putFooterEntries ?d (Suc i) es"
    using Cons.prems by (simp add: put_entry)
  also have "\<dots> = take (Suc i * 12) ?d @ footer_bytes es @ drop ((Suc i + length es) * 12) ?d"
    using Cons.prems len by (intro Cons.IH) simp
  also have "take (Suc i * 12) ?d = take (i * 12) dst @ entry_bytes e"
    using Cons.prems by (simp add: put_def)
  also have "drop ((Suc i + length es) * 12) ?d = drop ((i + length (e # es)) * 12) dst"
    using Cons.prems by (simp add: put_def min_def algebra_simps)
  finally show ?case
    by (simp add: footer_bytes_def)
qed

lemma encodeFooter_eq:
  "12 * length es \<le> length dst \<Longrightarrow> encodeFooter dst es = Some (footer_bytes es @ drop (12 * length es) dst)"
  by (simp add: encodeFooter_def footerEntrySize_def putFooterEntries_eq mult.commute)

definition footer_ok :: "u32 \<Rightarrow> footerEntry list \<Rightarrow> bool" where
  "footer_ok bs es \<longleftrightarrow> (\<forall>i < length es. BlockStartIndex (es ! i) = of_nat i * ucast bs)"

lemma footer_ok_snoc:
  "footer_ok bs (es @ [e]) \<longleftrightarrow> footer_ok bs es \<and> BlockStartIndex e = of_nat (length es) * ucast bs"
  by (auto simp: footer_ok_def nth_append less_Suc_eq)

lemma footer_ok_prefix: "footer_ok bs (es @ fs) \<Longrightarrow> footer_ok bs es"
  unfolding footer_ok_def by (metis length_append nth_append trans_less_add1)

lemma decodeFooter_loop_Inr_iff:
  "dst = map (entry_at src) [0..<length dst] \<Longrightarrow> footer_ok bs dst \<Longrightarrow>
   decodeFooter_loop src bs k dst = Inr es \<longleftrightarrow>
     es = map (entry_at src) [0..<length dst + k] \<and> footer_ok bs es"
proof (induction k arbitrary: dst)
  case 0
  then show ?case by auto
next
  case (Suc k)
  let ?e = "entry_at src (length dst)"
  have next_eq: "dst @ [?e] = map (entry_at src) [0..<length (dst @ [?e])]"
    using Suc.prems(1) by simp
  have whole: "map (entry_at src) [0..<length dst + Suc k] =
      (dst @ [?e]) @ map (entry_at src) [length (dst @ [?e])..<length dst + Suc k]"
    using next_eq upt_add_eq_append [of 0 "length (dst @ [?e])" k] by (metis add_Suc_right
        add_Suc le0 length_append_singleton map_append)
  show ?case
  proof (cases "footer_ok bs (dst @ [?e])")
    case True
    with Suc.IH [OF next_eq True] show ?thesis
      by (simp add: Let_def footerEntrySize_def footer_ok_snoc entry_at_def)
  next
    case False
    then have "\<not> footer_ok bs (map (entry_at src) [0..<length dst + Suc k])"
      unfolding whole using footer_ok_prefix by blast
    moreover have "Uint64 src (length dst * 12) \<noteq> of_nat (length dst) * ucast bs"
      using False Suc.prems(2) by (simp add: footer_ok_snoc entry_at_def)
    ultimately show ?thesis
      by (auto simp: Let_def footerEntrySize_def simp del: upt_Suc)
  qed
qed

lemma decodeFooter_Inr_iff:
  "decodeFooter n src bs = Inr es \<longleftrightarrow>
     12 * n \<le> length src \<and> es = map (entry_at src) [0..<n] \<and> footer_ok bs es"
  using decodeFooter_loop_Inr_iff [of "[]" src bs n es]
  by (auto simp: decodeFooter_def footerEntrySize_def footer_ok_def mult.commute)

lemma entries_at_footer_bytes: "map (entry_at (footer_bytes es @ rest)) [0..<length es] = es"
proof (induction es arbitrary: rest rule: rev_induct)
  case Nil
  show ?case by simp
next
  case (snoc e es)
  have "entry_at (footer_bytes (es @ [e]) @ rest) (length es) = e"
    by (simp add: entry_at_def footer_bytes_snoc entry_bytes_def le_reads slice_simps le_simps)
  with snoc [of "entry_bytes e @ rest"] show ?case
    by (simp add: footer_bytes_snoc)
qed

lemma decodeFooter_footer_bytes:
  "footer_ok bs es \<Longrightarrow> decodeFooter (length es) (footer_bytes es @ rest) bs = Inr es"
  by (simp add: decodeFooter_Inr_iff entries_at_footer_bytes)

lemma decodeFooter_loop_not_Panic: "decodeFooter_loop src bs k dst \<noteq> Inl Panic"
  by (induction k arbitrary: dst) (simp_all add: Let_def)

lemma decodeFooter_not_Panic: "decodeFooter n src bs \<noteq> Inl Panic"
  by (simp add: decodeFooter_def decodeFooter_loop_not_Panic)

section \<open>Blocks\<close>

text \<open>The record bytes of block \<open>b\<close>, in natural numbers.\<close>

definition block_slice :: "bytes \<Rightarrow> nat \<Rightarrow> nat \<Rightarrow> nat \<Rightarrow> bytes" where
  "block_slice records b bs n = sub records (64 * (b * bs)) (64 * (min n ((b + 1) * bs) - b * bs))"

lemma less_block_count_iff: "0 < bs \<Longrightarrow> b < block_count n bs \<longleftrightarrow> b * bs < n"
  unfolding block_count_def
  by (cases n) (auto simp: less_eq_div_iff_mult_less_eq Suc_le_eq [symmetric] simp del: Suc_le_eq)

lemma unat_of_nat_u64: "k < 2 ^ 64 \<Longrightarrow> unat (of_nat k :: u64) = k"
  by (simp add: unat_of_nat take_bit_nat_eq_self)

lemma ucast_of_nat_unat: "(ucast (x :: u32) :: u64) = of_nat (unat x)"
proof -
  have "unat x < 2 ^ 64"
    using unsigned_less [of x, where ?'a = nat] by simp
  then show ?thesis
    by (simp add: word_unat_eq_iff unat_of_nat_u64 unat_ucast_up)
qed

lemma blockRecordBytes_eq:
  assumes n: "unat n \<le> 2 ^ 40" and bs: "0 < unat bs" "unat bs \<le> 2 ^ 24"
    and len: "length records = 64 * unat n" and b: "b < block_count (unat n) (unat bs)"
  shows "blockRecordBytes records (int b) bs n = Inr (Some (block_slice records b (unat bs) (unat n)))"
proof -
  let ?N = "unat n" and ?B = "unat bs"
  have lt: "b * ?B < ?N"
    using b bs(1) by (simp add: less_block_count_iff)
  have big: "(2::nat) ^ 24 + 2 ^ 40 < 2 ^ 64" "64 * (2::nat) ^ 40 < 2 ^ 64"
    by simp_all
  have bb: "b \<le> b * ?B"
    using bs(1) by simp
  define start :: u64 where "start = word_of_int (int b) * ucast bs"
  define e where "e = (if start + ucast bs > n then n else start + ucast bs)"
  have ubs: "(ucast bs :: u64) = of_nat ?B"
    by (rule ucast_of_nat_unat)
  have start: "start = of_nat (b * ?B)"
    unfolding start_def ubs by simp
  have us: "unat start = b * ?B"
    unfolding start using lt n big by (intro unat_of_nat_u64) linarith
  have "start + ucast bs = of_nat (b * ?B + ?B)"
    unfolding start ubs by simp
  then have ue': "unat (start + ucast bs) = b * ?B + ?B"
    using lt n bs big by (simp only:) (intro unat_of_nat_u64, linarith)
  have ue: "unat e = min ?N ((b + 1) * ?B)"
    unfolding e_def using ue' by (auto simp: word_less_nat_alt min_def)
  have ule: "unat e \<le> ?N" "b * ?B \<le> unat e"
    using ue lt by simp_all
  have s64: "unat (start * of_nat RecordSize) = 64 * (b * ?B)"
    using unat_advance [of 0 start 64] us lt n by (simp add: RecordSize_def)
  have e64: "unat (e * of_nat RecordSize) = 64 * unat e"
    using unat_advance [of 0 e 64] ule n by (simp add: RecordSize_def)
  have "unat (of_nat (length records) :: u64) = 64 * ?N"
    unfolding len using n big by (intro unat_of_nat_u64) linarith
  then have "\<not> e * of_nat RecordSize > of_nat (length records)"
    using e64 ule by (simp add: word_less_nat_alt)
  moreover have "\<not> word_of_int (int b) \<ge> blockCountFor n bs"
  proof -
    have "b < 2 ^ 64"
      using bb lt n big by linarith
    then have "unat (word_of_int (int b) :: u64) = b"
      by (simp add: unat_of_nat_u64)
    then show ?thesis
      using b n bs by (simp add: word_le_nat_alt unat_blockCountFor)
  qed
  moreover have "go_slice records (64 * (b * ?B)) (64 * unat e) = Some (block_slice records b ?B ?N)"
    using ule len by (simp add: go_slice_def block_slice_def ue diff_mult_distrib2)
  ultimately show ?thesis
    unfolding blockRecordBytes_def Let_def start_def [symmetric] e_def [symmetric]
    by (simp add: s64 e64)
qed

lemma verifyBlock_None_iff:
  assumes "unat n \<le> 2 ^ 40" "0 < unat bs" "unat bs \<le> 2 ^ 24" "length records = 64 * unat n"
    and "length entries = block_count (unat n) (unat bs)" "b < length entries"
  shows "verifyBlock records entries (int b) bs n = None \<longleftrightarrow>
    crc32_Checksum (block_slice records b (unat bs) (unat n)) = CRC32C (entries ! b)"
  using assms blockRecordBytes_eq [of n bs records b] by (simp add: verifyBlock_def blockChecksum_def)

end
