(* ===== verification/Store_Reader.thy ===== *)
theory Store_Reader
  imports Store_Index Store_Footer
begin

text \<open>
  The reader of one finalized file: \<^verbatim>\<open>src/internal/store/reader.go\<close>, and the mapping of a
  file into memory, \<^verbatim>\<open>src/internal/store/mmap_unix.go\<close>, over an operating system that is a
  parameter. Run-time panics are values: \<open>Inl Panic\<close>, or \<open>None\<close> where the operation
  has no error result. The theorems: opening an image of any content never panics, an opened
  reader has the geometry its header describes, and a seek returns the first record at or after
  its time.
\<close>

section \<open>State\<close>

text \<open>
  \<open>rCloseFn\<close> is the release function: \<open>None\<close> for \<^verbatim>\<open>nil\<close>, otherwise what calling it
  returns.
\<close>

record Reader =
  rData :: bytes
  rRecords :: bytes
  rBlobs :: bytes
  rTimeIndex :: "i64 list"
  rSnapIndex :: "u64 list"
  rFooter :: "footerEntry list"
  rHdr :: header
  rCloseFn :: "store_error option option"
  rClosed :: bool

text \<open>An open file of the operating system: what \<^verbatim>\<open>Stat\<close>, \<^verbatim>\<open>Mmap\<close> and
  \<^verbatim>\<open>Munmap\<close> return for it.\<close>

record os_file =
  stat_size :: "store_error + i64"
  mmap :: "int \<Rightarrow> store_error + bytes"
  munmap :: "store_error option"

section \<open>Opening\<close>

definition mapFile ::
    "('path \<Rightarrow> store_error + os_file) \<Rightarrow> 'path \<Rightarrow> store_error + (bytes \<times> store_error option option)" where
  "mapFile os_Open path =
     bindE (os_Open path) (\<lambda>f.
     bindE (stat_size f) (\<lambda>size.
       if size = 0 then Inr ([], Some None)
       else if sint size > maxInt then Inl ErrRecordCount
       else bindE (mmap f (sint size)) (\<lambda>data. Inr (data, Some (munmap f)))))"

text \<open>Slicing with a panic for an error, with and without an upper bound.\<close>

definition sliceE :: "'a list \<Rightarrow> nat \<Rightarrow> nat \<Rightarrow> store_error + 'a list" where
  "sliceE xs lo hi = (case go_slice xs lo hi of None \<Rightarrow> Inl Panic | Some ys \<Rightarrow> Inr ys)"

definition slice_from :: "'a list \<Rightarrow> int \<Rightarrow> 'a list option" where
  "slice_from xs lo = (if lo < 0 then None else go_slice xs (nat lo) (length xs))"

definition checkTimestampRange :: "Reader \<Rightarrow> store_error option" where
  "checkTimestampRange r =
     (if hRecordCount (rHdr r) = 0 then
        (if hMinExchangeTs (rHdr r) \<noteq> 0 \<or> hMaxExchangeTs (rHdr r) \<noteq> 0 then Some ErrHeaderRange
         else None)
      else case decodeRecord (rRecords r) of
          Inl e \<Rightarrow> Some e
        | Inr first_rec \<Rightarrow>
          (case sliceE (rRecords r) (unat ((hRecordCount (rHdr r) - 1) * of_nat RecordSize))
                  (length (rRecords r)) of
            Inl e \<Rightarrow> Some e
          | Inr src \<Rightarrow>
            (case decodeRecord src of
              Inl e \<Rightarrow> Some e
            | Inr last_rec \<Rightarrow>
                if ExchangeTs first_rec \<noteq> hMinExchangeTs (rHdr r)
                   \<or> ExchangeTs last_rec \<noteq> hMaxExchangeTs (rHdr r)
                then Some ErrHeaderRange else None)))"

definition openBytes :: "bytes \<Rightarrow> store_error + Reader" where
  "openBytes data =
     bindE (decodeHeader data) (\<lambda>h.
     failE (validateHeader h (of_nat (length data)))
     (bindE (sliceE data (unat (hTimeIndexOffset h)) (length data)) (\<lambda>trailer.
      if crc32_Checksum trailer \<noteq> hTrailerCRC h then Inl ErrTrailerCRC
      else let recStart = (ucast (hHeaderSize h) :: u64) in
      bindE (sliceE data (unat recStart) (unat (recStart + hRecordCount h * of_nat RecordSize))) (\<lambda>records.
      bindE (sliceE data (unat (hBlobRegionOffset h))
              (unat (hBlobRegionOffset h + hBlobRegionLen h))) (\<lambda>blobs.
      bindE (sliceE data (unat (hTimeIndexOffset h)) (length data)) (\<lambda>src.
      bindE (decodeTimeIndex (unat (hTimeIndexCount h)) src) (\<lambda>timeIndex.
      bindE (sliceE data (unat (hSnapshotIndexOffset h)) (length data)) (\<lambda>src.
      bindE (decodeSnapshotIndex (unat (hSnapshotIndexCount h)) src (hRecordCount h)) (\<lambda>snapIndex.
      bindE (sliceE data (unat (hFooterOffset h)) (length data)) (\<lambda>src.
      bindE (decodeFooter (unat (blockCountFor (hRecordCount h) (hBlockSizeRecords h))) src
              (hBlockSizeRecords h)) (\<lambda>footer.
      let r = \<lparr>rData = data, rRecords = records, rBlobs = blobs, rTimeIndex = timeIndex,
               rSnapIndex = snapIndex, rFooter = footer, rHdr = h, rCloseFn = None,
               rClosed = False\<rparr>
      in failE (checkTimestampRange r) (Inr r))))))))))))"

definition Open :: "('path \<Rightarrow> store_error + os_file) \<Rightarrow> 'path \<Rightarrow> store_error + Reader" where
  "Open os_Open path =
     bindE (mapFile os_Open path) (\<lambda>(data, closeFn).
     bindE (openBytes data) (\<lambda>r. Inr (r\<lparr>rCloseFn := closeFn\<rparr>)))"

section \<open>Reading\<close>

definition Len :: "Reader \<Rightarrow> int" where
  "Len r = sint (hRecordCount (rHdr r))"

definition reader_VenueID :: "Reader \<Rightarrow> u16" where
  "reader_VenueID r = hVenueID (rHdr r)"

definition PriceScale :: "Reader \<Rightarrow> i64" where
  "PriceScale r = hPriceScale (rHdr r)"

definition BlockSizeRecords :: "Reader \<Rightarrow> u32" where
  "BlockSizeRecords r = hBlockSizeRecords (rHdr r)"

definition BlockCount :: "Reader \<Rightarrow> nat" where
  "BlockCount r = length (rFooter r)"

definition RecordAt :: "Reader \<Rightarrow> int \<Rightarrow> Record option" where
  "RecordAt r i =
     (if i < 0 \<or> i \<ge> Len r then None
      else case slice_from (rRecords r) (wrap64 (i * int RecordSize)) of
          None \<Rightarrow> None
        | Some src \<Rightarrow> DecodeRecordFields src)"

definition Blob :: "Reader \<Rightarrow> Record \<Rightarrow> store_error + bytes" where
  "Blob r rec =
     failE (validateRecord rec)
     (if RecordType rec \<noteq> RecordTypeSnapshotPointer then Inl ErrNotSnapshot
      else let regionLen = (of_nat (length (rBlobs r)) :: u64) in
      if BlobOffset rec > regionLen \<or> ucast (BlobLen rec) > regionLen - BlobOffset rec
        then Inl ErrBlobOutOfRange
      else bindE (sliceE (rBlobs r) (unat (BlobOffset rec)) (length (rBlobs r))) (\<lambda>b.
      bindE (sliceE b 0 (unat (BlobLen rec))) (\<lambda>blob.
      bindE (sliceE blob 4 (length blob)) (\<lambda>payload.
      if crc32_Checksum payload \<noteq> Uint32 blob 0 then Inl ErrBlobChecksum
      else let bids = Uint16 payload 0; asks = Uint16 payload 2 in
      if (ucast bids + ucast asks :: u32) \<noteq> ucast (LevelCount rec) then Inl ErrBlobLevelCount
      else Inr payload))))"

definition payloadHeaderSize :: nat where "payloadHeaderSize = blobHeaderSize - 4"

definition level_at :: "bytes \<Rightarrow> nat \<Rightarrow> Level" where
  "level_at payload i =
     (let off = payloadHeaderSize + i * levelSize
      in \<lparr>lPrice = Uint64 payload off, lSize = Uint64 payload (off + 8)\<rparr>)"

text \<open>The loop, with \<open>k\<close> iterations left.\<close>

primrec appendLevels_loop :: "bytes \<Rightarrow> nat \<Rightarrow> nat \<Rightarrow> Level list \<Rightarrow> Level list" where
  "appendLevels_loop payload i 0 dst = dst"
| "appendLevels_loop payload i (Suc k) dst =
     appendLevels_loop payload (Suc i) k (dst @ [level_at payload i])"

definition AppendLevelsFromPayload ::
    "Level list \<Rightarrow> bytes \<Rightarrow> Level list \<times> nat \<times> store_error option" where
  "AppendLevelsFromPayload dst payload =
     (if length payload < payloadHeaderSize then (dst, 0, Some ErrBlobLen)
      else let bids = unat (Uint16 payload 0); asks = unat (Uint16 payload 2) in
      if length payload \<noteq> payloadHeaderSize + (bids + asks) * levelSize then (dst, 0, Some ErrBlobLen)
      else (appendLevels_loop payload 0 (bids + asks) dst, bids, None))"

definition AppendLevels :: "Reader \<Rightarrow> Level list \<Rightarrow> Record \<Rightarrow> Level list \<times> nat \<times> store_error option" where
  "AppendLevels r dst rec =
     (case Blob r rec of
        Inl e \<Rightarrow> (dst, 0, Some e)
      | Inr payload \<Rightarrow> AppendLevelsFromPayload dst payload)"

section \<open>Seeking and verifying\<close>

text \<open>The scan of \<^verbatim>\<open>SeekTime\<close>, with \<open>k\<close> records left to look at from \<open>i\<close>.\<close>

primrec seek_loop :: "Reader \<Rightarrow> i64 \<Rightarrow> int \<Rightarrow> nat \<Rightarrow> int option" where
  "seek_loop r t i 0 = Some (Len r)"
| "seek_loop r t i (Suc k) =
     (case RecordAt r i of
        None \<Rightarrow> None
      | Some rec \<Rightarrow>
          if sint (ExchangeTs rec) \<ge> sint t then Some i else seek_loop r t (wrap64 (i + 1)) k)"

text \<open>The error result is always \<^verbatim>\<open>nil\<close> and left out; \<open>None\<close> is the panic of a read.\<close>

definition SeekTime :: "Reader \<Rightarrow> i64 \<Rightarrow> int option" where
  "SeekTime r t =
     (let n = Len r in
      if n = 0 then Some 0
      else let b = searchTimeIndex (rTimeIndex r) t in
      if b = 0 then Some 0
      else let blockSize = int (unat (hBlockSizeRecords (rHdr r)));
               lo = wrap64 ((int b - 1) * blockSize);
               hi = wrap64 (lo + blockSize);
               hi = (if b = length (rTimeIndex r) \<or> hi > n - 1 then n - 1 else hi)
      in seek_loop r t lo (nat (hi + 1 - lo)))"

definition SnapshotBefore :: "Reader \<Rightarrow> int \<Rightarrow> int option" where
  "SnapshotBefore r recordIndex =
     (if recordIndex < 0 then None
      else case searchSnapshotIndex (rSnapIndex r) (word_of_int recordIndex) of
          None \<Rightarrow> None
        | Some i \<Rightarrow> Some (sint i))"

definition VerifyBlock :: "Reader \<Rightarrow> int \<Rightarrow> store_error option" where
  "VerifyBlock r blockIndex =
     verifyBlock (rRecords r) (rFooter r) blockIndex (hBlockSizeRecords (rHdr r)) (hRecordCount (rHdr r))"

primrec first_error :: "('a \<Rightarrow> 'e option) \<Rightarrow> 'a list \<Rightarrow> 'e option" where
  "first_error f [] = None"
| "first_error f (x # xs) = (case f x of Some e \<Rightarrow> Some e | None \<Rightarrow> first_error f xs)"

definition verifySnapshot :: "Reader \<Rightarrow> u64 \<Rightarrow> store_error option" where
  "verifySnapshot r i =
     (case RecordAt r (sint i) of
        None \<Rightarrow> Some Panic
      | Some rec \<Rightarrow> (case Blob r rec of Inl e \<Rightarrow> Some e | Inr _ \<Rightarrow> None))"

definition VerifyAll :: "Reader \<Rightarrow> store_error option" where
  "VerifyAll r =
     (case first_error (\<lambda>i. VerifyBlock r (int i)) [0..<length (rFooter r)] of
        Some e \<Rightarrow> Some e
      | None \<Rightarrow> first_error (verifySnapshot r) (rSnapIndex r))"

definition reader_Close :: "Reader \<Rightarrow> store_error option \<times> Reader" where
  "reader_Close r =
     (if rClosed r then (None, r)
      else let r = r\<lparr>rClosed := True, rData := [], rRecords := [], rBlobs := []\<rparr>
           in (case rCloseFn r of Some res \<Rightarrow> res | None \<Rightarrow> None, r))"

section \<open>Opening an image\<close>

lemma sliceE_Inr: "lo \<le> hi \<Longrightarrow> hi \<le> length xs \<Longrightarrow> sliceE xs lo hi = Inr (sub xs lo (hi - lo))"
  by (simp add: sliceE_def go_slice_def)

lemma sub_to_end: "sub xs lo (length xs - lo) = drop lo xs"
  by (simp add: sub_def)

lemma sliceE_drop: "lo \<le> length xs \<Longrightarrow> sliceE xs lo (length xs) = Inr (drop lo xs)"
  by (simp add: sliceE_Inr sub_def)

lemma slice_from_drop: "lo \<le> length xs \<Longrightarrow> slice_from xs (int lo) = Some (drop lo xs)"
  by (simp add: slice_from_def go_slice_def sub_def)

definition records_of :: "bytes \<Rightarrow> header \<Rightarrow> bytes" where
  "records_of data h = sub data (unat (hHeaderSize h)) (64 * unat (hRecordCount h))"

definition blobs_of :: "bytes \<Rightarrow> header \<Rightarrow> bytes" where
  "blobs_of data h = sub data (unat (hBlobRegionOffset h)) (unat (hBlobRegionLen h))"

definition reader_of :: "bytes \<Rightarrow> header \<Rightarrow> Reader" where
  "reader_of data h =
     \<lparr>rData = data, rRecords = records_of data h, rBlobs = blobs_of data h,
      rTimeIndex = u64s_at (drop (unat (hTimeIndexOffset h)) data) (unat (hTimeIndexCount h)),
      rSnapIndex = u64s_at (drop (unat (hSnapshotIndexOffset h)) data) (unat (hSnapshotIndexCount h)),
      rFooter = map (entry_at (drop (unat (hFooterOffset h)) data)) [0..<unat (hTimeIndexCount h)],
      rHdr = h, rCloseFn = None, rClosed = False\<rparr>"

lemma header_spec_chain:
  assumes "header_spec h len"
  shows "unat (hHeaderSize h) + 64 * unat (hRecordCount h) = unat (hBlobRegionOffset h)"
    "unat (hBlobRegionOffset h) + unat (hBlobRegionLen h) = unat (hTimeIndexOffset h)"
    "unat (hTimeIndexOffset h) + 8 * unat (hTimeIndexCount h) = unat (hSnapshotIndexOffset h)"
    "unat (hSnapshotIndexOffset h) + 8 * unat (hSnapshotIndexCount h) = unat (hFooterOffset h)"
    "unat (hFooterOffset h) + 12 * unat (hTimeIndexCount h) = len"
    "unat (blockCountFor (hRecordCount h) (hBlockSizeRecords h)) = unat (hTimeIndexCount h)"
    "unat (hRecordCount h) \<le> 2 ^ 40" "0 < unat (hBlockSizeRecords h)"
    "unat (hBlockSizeRecords h) \<le> 2 ^ 24"
    "unat (hTimeIndexCount h) = block_count (unat (hRecordCount h)) (unat (hBlockSizeRecords h))"
    "unat (hSnapshotIndexCount h) \<le> unat (hRecordCount h)"
  using assms by (simp_all add: header_spec_def unat_blockCountFor)

lemma openBytes_eq:
  assumes len: "length data < 2 ^ 64" and dec: "decodeHeader data = Inr h"
    and spec: "header_spec h (length data)"
  shows "openBytes data =
    (if crc32_Checksum (drop (unat (hTimeIndexOffset h)) data) \<noteq> hTrailerCRC h then Inl ErrTrailerCRC
     else bindE (decodeTimeIndex (unat (hTimeIndexCount h)) (drop (unat (hTimeIndexOffset h)) data)) (\<lambda>ti.
     bindE (decodeSnapshotIndex (unat (hSnapshotIndexCount h))
              (drop (unat (hSnapshotIndexOffset h)) data) (hRecordCount h)) (\<lambda>si.
     bindE (decodeFooter (unat (hTimeIndexCount h)) (drop (unat (hFooterOffset h)) data)
              (hBlockSizeRecords h)) (\<lambda>ft.
     failE (checkTimestampRange (reader_of data h))
       (Inr (reader_of data h\<lparr>rTimeIndex := ti, rSnapIndex := si, rFooter := ft\<rparr>))))))"
proof -
  note c = header_spec_chain [OF spec]
  have v: "validateHeader h (of_nat (length data)) = None"
    using len spec by (rule validateHeader_complete)
  have lt: "unat (hBlobRegionOffset h) < 2 ^ 64" "unat (hTimeIndexOffset h) < 2 ^ 64"
    using c(2-5) len by linarith+
  have s: "unat (ucast (hHeaderSize h) :: u64) = unat (hHeaderSize h)"
    by (simp add: unat_ucast_up)
  have e: "unat (ucast (hHeaderSize h) + hRecordCount h * of_nat RecordSize) = unat (hBlobRegionOffset h)"
    using unat_advance [of "ucast (hHeaderSize h)" "hRecordCount h" 64] lt(1) c(1)
    by (simp add: RecordSize_def s)
  have b: "unat (hBlobRegionOffset h + hBlobRegionLen h) = unat (hTimeIndexOffset h)"
    using unat_advance [of "hBlobRegionOffset h" "hBlobRegionLen h" 1] lt(2) c(2) by simp
  have in_range: "unat (hHeaderSize h) \<le> unat (hBlobRegionOffset h)"
    "unat (hBlobRegionOffset h) \<le> unat (hTimeIndexOffset h)"
    "unat (hBlobRegionOffset h) \<le> length data" "unat (hTimeIndexOffset h) \<le> length data"
    "unat (hSnapshotIndexOffset h) \<le> length data" "unat (hFooterOffset h) \<le> length data"
    using c(1-5) by linarith+
  have r: "sub data (unat (hHeaderSize h)) (unat (hBlobRegionOffset h) - unat (hHeaderSize h)) = records_of data h"
    using c(1) by (simp add: records_of_def flip: c(1))
  have bl: "sub data (unat (hBlobRegionOffset h)) (unat (hTimeIndexOffset h) - unat (hBlobRegionOffset h)) = blobs_of data h"
    using c(2) by (simp add: blobs_of_def flip: c(2))
  have mk: "\<lparr>rData = data, rRecords = records_of data h, rBlobs = blobs_of data h, rTimeIndex = ti,
      rSnapIndex = si, rFooter = ft, rHdr = h, rCloseFn = None, rClosed = False\<rparr>
      = reader_of data h\<lparr>rTimeIndex := ti, rSnapIndex := si, rFooter := ft\<rparr>" for ti si ft
    by (simp add: reader_of_def)
  have ck: "checkTimestampRange (reader_of data h\<lparr>rTimeIndex := ti, rSnapIndex := si, rFooter := ft\<rparr>)
      = checkTimestampRange (reader_of data h)" for ti si ft
    by (simp add: checkTimestampRange_def cong: sum.case_cong)
  show ?thesis
    unfolding openBytes_def dec bindE_Inr v failE_simps s e b c(6) Let_def
    using in_range by (simp add: sliceE_Inr sub_to_end r bl mk ck)
qed

lemma openBytes_InrD:
  assumes "length data < 2 ^ 64" and "openBytes data = Inr r"
  shows "decodeHeader data = Inr (rHdr r)" "header_spec (rHdr r) (length data)"
    "r = reader_of data (rHdr r)" "checkTimestampRange r = None"
    "sorted (map sint (rTimeIndex r))" "snapshot_index_ok (hRecordCount (rHdr r)) (rSnapIndex r)"
    "footer_ok (hBlockSizeRecords (rHdr r)) (rFooter r)"
    "crc32_Checksum (drop (unat (hTimeIndexOffset (rHdr r))) data) = hTrailerCRC (rHdr r)"
proof -
  obtain h where dec: "decodeHeader data = Inr h"
    and v: "validateHeader h (of_nat (length data)) = None"
    using assms(2) unfolding openBytes_def by (auto simp: bindE_eq_Inr_iff failE_eq_Inr_iff)
  have spec: "header_spec h (length data)"
    using assms(1) v by (rule validateHeader_sound)
  note o = assms(2) [unfolded openBytes_eq [OF assms(1) dec spec]]
  obtain ti si ft where t:
      "crc32_Checksum (drop (unat (hTimeIndexOffset h)) data) = hTrailerCRC h"
      "decodeTimeIndex (unat (hTimeIndexCount h)) (drop (unat (hTimeIndexOffset h)) data) = Inr ti"
      "decodeSnapshotIndex (unat (hSnapshotIndexCount h)) (drop (unat (hSnapshotIndexOffset h)) data)
        (hRecordCount h) = Inr si"
      "decodeFooter (unat (hTimeIndexCount h)) (drop (unat (hFooterOffset h)) data)
        (hBlockSizeRecords h) = Inr ft"
      "checkTimestampRange (reader_of data h) = None"
      "r = reader_of data h\<lparr>rTimeIndex := ti, rSnapIndex := si, rFooter := ft\<rparr>"
    using o by (auto simp: bindE_eq_Inr_iff failE_eq_Inr_iff split: if_splits)
  have r: "r = reader_of data h"
    using t(2,3,4,6) by (simp add: reader_of_def decodeTimeIndex_Inr_iff
        decodeSnapshotIndex_Inr_iff decodeFooter_Inr_iff)
  have h: "rHdr r = h"
    by (simp add: r reader_of_def)
  show "decodeHeader data = Inr (rHdr r)" "header_spec (rHdr r) (length data)"
    "r = reader_of data (rHdr r)" "checkTimestampRange r = None"
    "crc32_Checksum (drop (unat (hTimeIndexOffset (rHdr r))) data) = hTrailerCRC (rHdr r)"
    using dec spec t(1,5) by (simp_all add: h) (simp_all add: r)
  have ok: "sorted (map sint ti)" "snapshot_index_ok (hRecordCount h) si" "footer_ok (hBlockSizeRecords h) ft"
    using t(2-4) unfolding decodeTimeIndex_Inr_iff decodeSnapshotIndex_Inr_iff decodeFooter_Inr_iff
    by blast+
  show "sorted (map sint (rTimeIndex r))" "snapshot_index_ok (hRecordCount (rHdr r)) (rSnapIndex r)"
    "footer_ok (hBlockSizeRecords (rHdr r)) (rFooter r)"
    unfolding h unfolding t(6) using ok by simp_all
qed

lemma length_records_of: "header_spec h (length data) \<Longrightarrow> length (records_of data h) = 64 * unat (hRecordCount h)"
  using header_spec_chain(1-5) [of h "length data"] unfolding records_of_def by (intro length_sub) linarith

lemma length_blobs_of: "header_spec h (length data) \<Longrightarrow> length (blobs_of data h) = unat (hBlobRegionLen h)"
  using header_spec_chain(1-5) [of h "length data"] unfolding blobs_of_def by (intro length_sub) linarith

lemma decodeRecord_not_Panic: "decodeRecord src \<noteq> Inl Panic"
  by (auto simp: decodeRecord_def DecodeRecordFields_def failE_eq_Inl_iff validateRecord_def
      split: if_splits)

lemma decodeHeader_not_Panic: "decodeHeader src \<noteq> Inl Panic"
  by (auto simp: decodeHeader_def failE_eq_Inl_iff checkHeaderUndefinedBytes_def split: if_splits)

lemma validateHeader_not_Panic: "validateHeader h fl \<noteq> Some Panic"
  unfolding validateHeader_def Let_def by simp

lemma unat_last_record:
  fixes n :: u64
  assumes "unat n \<le> 2 ^ 40" "n \<noteq> 0"
  shows "unat ((n - 1) * of_nat RecordSize) = 64 * (unat n - 1)"
proof -
  have n1: "unat (n - 1) = unat n - 1"
    using assms(2) by (rule unat_minus_one)
  have "64 * (unat n - 1) < 2 ^ 64"
    using assms(1) by simp
  then show ?thesis
    using unat_advance [of 0 "n - 1" 64] n1 by (simp add: RecordSize_def)
qed

lemma checkTimestampRange_not_Panic:
  assumes "length (rRecords r) = 64 * unat (hRecordCount (rHdr r))" "unat (hRecordCount (rHdr r)) \<le> 2 ^ 40"
  shows "checkTimestampRange r \<noteq> Some Panic"
proof (cases "hRecordCount (rHdr r) = 0")
  case False
  have "sliceE (rRecords r) (unat ((hRecordCount (rHdr r) - 1) * of_nat RecordSize)) (length (rRecords r))
      = Inr (drop (64 * (unat (hRecordCount (rHdr r)) - 1)) (rRecords r))"
    unfolding unat_last_record [OF assms(2) False] by (rule sliceE_drop) (simp add: assms(1))
  with False show ?thesis
    by (auto simp: checkTimestampRange_def decodeRecord_not_Panic split: sum.splits)
qed (simp add: checkTimestampRange_def)



section \<open>Opened readers\<close>

text \<open>
  The invariant of an opened reader, and the records it holds as a list.
\<close>

definition reader_wf :: "Reader \<Rightarrow> bool" where
  "reader_wf r \<longleftrightarrow>
     unat (hRecordCount (rHdr r)) \<le> 2 ^ 40 \<and>
     0 < unat (hBlockSizeRecords (rHdr r)) \<and> unat (hBlockSizeRecords (rHdr r)) \<le> 2 ^ 24 \<and>
     length (rRecords r) = 64 * unat (hRecordCount (rHdr r)) \<and>
     length (rTimeIndex r) = block_count (unat (hRecordCount (rHdr r))) (unat (hBlockSizeRecords (rHdr r))) \<and>
     length (rFooter r) = length (rTimeIndex r) \<and>
     sorted (map sint (rTimeIndex r)) \<and>
     snapshot_index_ok (hRecordCount (rHdr r)) (rSnapIndex r) \<and>
     footer_ok (hBlockSizeRecords (rHdr r)) (rFooter r) \<and> \<not> rClosed r"

definition contents :: "Reader \<Rightarrow> Record list" where
  "contents r = map (\<lambda>i. the (DecodeRecordFields (drop (64 * i) (rRecords r))))
     [0..<unat (hRecordCount (rHdr r))]"

lemma length_contents: "length (contents r) = unat (hRecordCount (rHdr r))"
  by (simp add: contents_def)

lemma openBytes_wf:
  assumes "length data < 2 ^ 64" and "openBytes data = Inr r"
  shows "reader_wf r"
proof -
  note d = openBytes_InrD [OF assms]
  have "rRecords r = records_of data (rHdr r)" "length (rTimeIndex r) = unat (hTimeIndexCount (rHdr r))"
    "length (rFooter r) = unat (hTimeIndexCount (rHdr r))" "\<not> rClosed r"
    by (subst d(3), simp add: reader_of_def)+
  then show ?thesis
    unfolding reader_wf_def
    using d(5-7) header_spec_chain(7-10) [OF d(2)] length_records_of [OF d(2)] by simp
qed

lemma sint_small:
  fixes w :: u64
  assumes "unat w < 2 ^ 63"
  shows "sint w = int (unat w)"
proof -
  have "int (unat w) < int (2 ^ 63)"
    using assms by (simp only: of_nat_less_iff)
  then have "uint w < 2 ^ 63"
    by simp
  moreover have "- (2 ^ 63) \<le> uint w"
    by (rule order_trans [OF _ uint_nonnegative]) simp
  ultimately have "signed_take_bit 63 (uint w) = uint w"
    by (intro signed_take_bit_int_eq_self)
  then show ?thesis
    by (simp add: sint_uint)
qed

lemma wrap64_nat: "n < 2 ^ 63 \<Longrightarrow> wrap64 (int n) = int n"
  by (intro wrap64_id) simp_all

lemma Len_wf: "reader_wf r \<Longrightarrow> Len r = int (length (contents r))"
  by (simp add: Len_def reader_wf_def sint_small length_contents)

lemma RecordAt_wf:
  assumes "reader_wf r" "i < length (contents r)"
  shows "RecordAt r (int i) = Some (contents r ! i)"
proof -
  let ?n = "unat (hRecordCount (rHdr r))"
  have n: "?n \<le> 2 ^ 40" "length (rRecords r) = 64 * ?n"
    using assms(1) by (simp_all add: reader_wf_def)
  have i: "i < ?n" "i < 2 ^ 40"
    using assms(2) n(1) by (simp_all add: length_contents)
  have w: "wrap64 (int i * int RecordSize) = int (64 * i)"
    using i(2) by (subst wrap64_id) (simp_all add: RecordSize_def)
  have "slice_from (rRecords r) (wrap64 (int i * int RecordSize)) = Some (drop (64 * i) (rRecords r))"
    unfolding w using i n(2) by (intro slice_from_drop) simp
  moreover have "RecordSize \<le> length (drop (64 * i) (rRecords r))"
    using i n(2) by (simp add: RecordSize_def)
  moreover have "\<not> (int i < 0 \<or> int i \<ge> Len r)"
    using assms(2) Len_wf [OF assms(1)] by linarith
  ultimately show ?thesis
    using i(1)
    by (simp add: RecordAt_def contents_def DecodeRecordFields_def not_less)
qed

lemma RecordAt_outside: "reader_wf r \<Longrightarrow> i < 0 \<or> int (length (contents r)) \<le> i \<Longrightarrow> RecordAt r i = None"
  using Len_wf [of r] by (auto simp: RecordAt_def)

text \<open>A reader over the encodings of a list of records holds that list.\<close>

definition records_bytes :: "Record list \<Rightarrow> bytes" where
  "records_bytes recs = concat (map record_bytes recs)"

lemma length_records_bytes [simp]: "length (records_bytes recs) = 64 * length recs"
  by (induction recs) (simp_all add: records_bytes_def)

lemma records_bytes_append: "records_bytes (xs @ ys) = records_bytes xs @ records_bytes ys"
  by (simp add: records_bytes_def)

lemma records_bytes_Cons: "records_bytes (x # xs) = record_bytes x @ records_bytes xs"
  by (simp add: records_bytes_def)

lemma drop_records_bytes: "drop (64 * i) (records_bytes recs) = records_bytes (drop i recs)"
proof (induction recs arbitrary: i)
  case (Cons x recs)
  show ?case
    by (cases i) (simp_all add: records_bytes_Cons Cons.IH)
qed (simp add: records_bytes_def)

lemma take_records_bytes: "take (64 * i) (records_bytes recs) = records_bytes (take i recs)"
proof (induction recs arbitrary: i)
  case (Cons x recs)
  show ?case
    by (cases i) (simp_all add: records_bytes_Cons Cons.IH records_bytes_def [of "[]"])
qed (simp add: records_bytes_def)

lemma contents_records_bytes:
  assumes "rRecords r = records_bytes recs" "unat (hRecordCount (rHdr r)) = length recs"
  shows "contents r = recs"
proof (rule nth_equalityI)
  show "length (contents r) = length recs"
    by (simp add: length_contents assms)
  fix i assume "i < length (contents r)"
  then have i: "i < length recs"
    by (simp add: length_contents assms)
  have "drop (64 * i) (rRecords r) = record_bytes (recs ! i) @ records_bytes (drop (Suc i) recs)"
    unfolding assms(1) drop_records_bytes
    by (simp add: Cons_nth_drop_Suc [OF i, symmetric] records_bytes_Cons del: drop_Suc_Cons)
  then show "contents r ! i = recs ! i"
    using i by (simp add: contents_def assms DecodeRecordFields_record_bytes)
qed

section \<open>Seeking\<close>

text \<open>The time index holds the timestamp of the first record of each block.\<close>

definition index_agrees :: "Reader \<Rightarrow> bool" where
  "index_agrees r \<longleftrightarrow> (\<forall>b < length (rTimeIndex r).
     rTimeIndex r ! b = ExchangeTs (contents r ! (b * unat (hBlockSizeRecords (rHdr r)))))"

text \<open>The number of records before time \<open>t\<close>: in a file in time order, the index of the first
  record at or after \<open>t\<close>.\<close>

definition first_at_or_after :: "Record list \<Rightarrow> i64 \<Rightarrow> nat" where
  "first_at_or_after recs t = length (takeWhile (\<lambda>rec. sint (ExchangeTs rec) < sint t) recs)"

definition time_ordered :: "Record list \<Rightarrow> bool" where
  "time_ordered recs \<longleftrightarrow> sorted (map (\<lambda>rec. sint (ExchangeTs rec)) recs)"

lemma first_at_or_after_iff:
  assumes "time_ordered recs" "i < length recs"
  shows "sint (ExchangeTs (recs ! i)) < sint t \<longleftrightarrow> i < first_at_or_after recs t"
  using assms
proof (induction recs arbitrary: i)
  case (Cons a recs)
  show ?case
  proof (cases i)
    case 0
    then show ?thesis by (simp add: first_at_or_after_def)
  next
    case (Suc j)
    have "sint (ExchangeTs a) \<le> sint (ExchangeTs (recs ! j))"
      using Cons.prems Suc by (simp add: time_ordered_def)
    moreover have "sint (ExchangeTs (recs ! j)) < sint t \<longleftrightarrow> j < first_at_or_after recs t"
      using Cons.prems Suc by (intro Cons.IH) (simp_all add: time_ordered_def)
    ultimately show ?thesis
      using Suc by (auto simp: first_at_or_after_def)
  qed
qed simp

lemma first_at_or_after_le: "first_at_or_after recs t \<le> length recs"
  by (simp add: first_at_or_after_def length_takeWhile_le)

lemma seek_loop_eq:
  assumes wf: "reader_wf r" and ord: "time_ordered (contents r)"
  shows "i \<le> first_at_or_after (contents r) t \<Longrightarrow> i + k \<le> length (contents r) \<Longrightarrow>
    first_at_or_after (contents r) t < i + k \<or> first_at_or_after (contents r) t = length (contents r) \<Longrightarrow>
    seek_loop r t (int i) k = Some (int (first_at_or_after (contents r) t))"
proof (induction k arbitrary: i)
  case 0
  then show ?case
    using Len_wf [OF wf] by simp
next
  case (Suc k)
  let ?m = "first_at_or_after (contents r) t"
  have i: "i < length (contents r)"
    using Suc.prems(2) by simp
  have "i < 2 ^ 40"
    using i wf by (simp add: reader_wf_def length_contents)
  then have w: "wrap64 (int i + 1) = int (Suc i)"
    by (subst wrap64_id) simp_all
  show ?case
  proof (cases "i < ?m")
    case True
    with Suc.prems have "seek_loop r t (int (Suc i)) k = Some (int ?m)"
      by (intro Suc.IH) simp_all
    with True show ?thesis
      using RecordAt_wf [OF wf i] first_at_or_after_iff [OF ord i, of t] w by simp
  next
    case False
    with Suc.prems(1) have "i = ?m" by simp
    with False show ?thesis
      using RecordAt_wf [OF wf i] first_at_or_after_iff [OF ord i, of t] by simp
  qed
qed

lemma block_start_lt:
  "reader_wf r \<Longrightarrow> b < length (rTimeIndex r) \<longleftrightarrow>
   b * unat (hBlockSizeRecords (rHdr r)) < length (contents r)"
  by (simp add: reader_wf_def less_block_count_iff length_contents)

lemma index_before_iff:
  assumes "reader_wf r" "index_agrees r" "time_ordered (contents r)" "b < length (rTimeIndex r)"
  shows "sint (rTimeIndex r ! b) < sint t \<longleftrightarrow>
    b * unat (hBlockSizeRecords (rHdr r)) < first_at_or_after (contents r) t"
  using assms first_at_or_after_iff [of "contents r" "b * unat (hBlockSizeRecords (rHdr r))" t]
    block_start_lt [of r b]
  by (simp add: index_agrees_def)

lemma SeekTime_eq:
  assumes "reader_wf r" and "time_ordered (contents r)" and "index_agrees r"
  shows "SeekTime r t = Some (int (first_at_or_after (contents r) t))"
proof -
  let ?n = "length (contents r)" and ?bs = "unat (hBlockSizeRecords (rHdr r))"
    and ?m = "first_at_or_after (contents r) t"
  define b where "b = searchTimeIndex (rTimeIndex r) t"
  have "sorted (map sint (rTimeIndex r))"
    using assms(1) by (simp add: reader_wf_def)
  note s = searchTimeIndex_correct [OF this, where t = t, folded b_def]
  have lim: "?n \<le> 2 ^ 40" "0 < ?bs" "?bs \<le> 2 ^ 24"
    using assms(1) by (simp_all add: reader_wf_def length_contents)
  have above: "?m \<le> b * ?bs" if "b < length (rTimeIndex r)"
    using index_before_iff [OF assms(1,3,2) that] s(3) [of b] that by (metis linorder_not_le order_refl)
  show ?thesis
  proof (cases "?n = 0 \<or> b = 0")
    case True
    then have "?m = 0"
      using above block_start_lt [OF assms(1), of 0] first_at_or_after_le [of "contents r" t] by auto
    moreover have "Len r = 0 \<or> b = 0"
      using True Len_wf [OF assms(1)] by simp
    ultimately show ?thesis
      unfolding SeekTime_def Let_def b_def [symmetric] by auto
  next
    case False
    then obtain c where c: "b = Suc c" and n: "0 < ?n"
      by (cases b) auto
    have cb: "c * ?bs < ?m"
      using index_before_iff [OF assms(1,3,2), of c] s(1) s(2) [of c] c by simp
    have m: "?m \<le> ?n"
      by (rule first_at_or_after_le)
    have cl: "c * ?bs < 2 ^ 40" "c * ?bs + ?bs < 2 ^ 41"
      using cb m lim by simp_all
    define lo hi where "lo = wrap64 ((int b - 1) * int ?bs)" and "hi = wrap64 (lo + int ?bs)"
    have lo: "lo = int (c * ?bs)"
      using wrap64_nat [of "c * ?bs"] cl(1) by (simp add: lo_def c)
    have hi: "hi = int (c * ?bs + ?bs)"
      using wrap64_nat [of "c * ?bs + ?bs"] cl(2) by (simp add: hi_def lo)
    define top where "top = (if b = length (rTimeIndex r) \<or> hi > Len r - 1 then Len r - 1 else hi)"
    have "SeekTime r t = seek_loop r t lo (nat (top + 1 - lo))"
      using False Len_wf [OF assms(1)]
      unfolding SeekTime_def Let_def b_def [symmetric] lo_def [symmetric] hi_def [symmetric]
        top_def [symmetric] by simp
    moreover obtain x y where xy: "x = c * ?bs" "y = c * ?bs + ?bs"
      by simp
    have y: "?m \<le> y \<and> y < ?n" if "b \<noteq> length (rTimeIndex r)"
      using that s(1) above block_start_lt [OF assms(1), of b] by (simp add: xy c)
    have top: "top = int (if b = length (rTimeIndex r) \<or> y > ?n - 1 then ?n - 1 else y)"
    proof -
      have "Len r - 1 = int (?n - 1)" "hi = int y"
        using n Len_wf [OF assms(1)] by (simp_all only: hi xy)
      then show ?thesis
        unfolding top_def by (simp only: of_nat_less_iff) simp
    qed
    have "seek_loop r t (int x) (nat (top + 1 - int x)) = Some (int ?m)"
    proof (rule seek_loop_eq [OF assms(1,2)])
      have xm: "x < ?m"
        using cb by (simp only: xy(1))
      show "x \<le> ?m"
        using xm by simp
      show "x + nat (top + 1 - int x) \<le> ?n"
        using xm m n by (auto simp: top)
      show "?m < x + nat (top + 1 - int x) \<or> ?m = ?n"
        using xm m n y by (auto simp: top)
    qed
    ultimately show ?thesis
      by (simp only: lo xy(1))
  qed
qed

text \<open>C2: \<^verbatim>\<open>SeekTime\<close> returns the index of the first record at or after \<open>t\<close>, and the
  number of records when there is none, on any opened file in time order whose time index holds the
  timestamps of its block starts. This covers runs of equal timestamps that cross block boundaries
  or fill whole blocks, where the first match is not in the block the index names.\<close>

theorem SeekTime_first:
  assumes "reader_wf r" and "time_ordered (contents r)" and "index_agrees r"
  shows "SeekTime r t = Some (int (first_at_or_after (contents r) t))"
  using assms by (rule SeekTime_eq)

definition example_records :: "Record list" where
  "example_records = [example_delta\<lparr>ExchangeTs := 1\<rparr>, example_delta\<lparr>ExchangeTs := 5\<rparr>,
     example_delta\<lparr>ExchangeTs := 5, SequenceNumber := 8\<rparr>]"

definition example_reader :: Reader where
  "example_reader = \<lparr>rData = [], rRecords = records_bytes example_records, rBlobs = [],
     rTimeIndex = [1, 5], rSnapIndex = [],
     rFooter = [\<lparr>BlockStartIndex = 0, CRC32C = 0\<rparr>, \<lparr>BlockStartIndex = 2, CRC32C = 0\<rparr>],
     rHdr = example_header, rCloseFn = None, rClosed = False\<rparr>"

lemma example_reader_contents: "contents example_reader = example_records"
  by (rule contents_records_bytes)
    (simp_all add: example_reader_def example_header_def example_records_def)

lemma example_reader_wf: "reader_wf example_reader"
  by (simp add: reader_wf_def example_reader_def example_header_def example_records_def
      block_count_def snapshot_index_ok_def footer_ok_def less_Suc_eq)

theorem SeekTime_first_witness:
  "reader_wf example_reader \<and> time_ordered (contents example_reader) \<and> index_agrees example_reader
   \<and> SeekTime example_reader 5 = Some 1"
proof -
  have o: "time_ordered (contents example_reader)"
    by (simp add: example_reader_contents example_records_def time_ordered_def)
  have a: "index_agrees example_reader"
    unfolding index_agrees_def example_reader_contents
    by (simp add: example_reader_def example_header_def example_records_def less_Suc_eq)
  have "first_at_or_after (contents example_reader) 5 = 1"
    by (simp add: example_reader_contents example_records_def first_at_or_after_def)
  with o a example_reader_wf SeekTime_first [OF example_reader_wf o a, of 5] show ?thesis
    by simp
qed

section \<open>Verifying\<close>

lemma first_error_None_iff: "first_error f xs = None \<longleftrightarrow> (\<forall>x \<in> set xs. f x = None)"
  by (induction xs) (auto split: option.splits)

lemma case_error_None_iff: "(case a of None \<Rightarrow> b | Some e \<Rightarrow> Some e) = None \<longleftrightarrow> a = None \<and> b = None"
  by (cases a) simp_all

lemma VerifyBlock_None_iff:
  assumes "reader_wf r" "b < length (rFooter r)"
  shows "VerifyBlock r (int b) = None \<longleftrightarrow>
    crc32_Checksum (block_slice (rRecords r) b (unat (hBlockSizeRecords (rHdr r))) (length (contents r)))
      = CRC32C (rFooter r ! b)"
  unfolding VerifyBlock_def length_contents
  by (rule verifyBlock_None_iff) (use assms in \<open>simp_all add: reader_wf_def\<close>)

lemma verifySnapshot_None_iff:
  assumes "reader_wf r" "i \<in> set (rSnapIndex r)"
  shows "verifySnapshot r i = None \<longleftrightarrow> (\<exists>payload. Blob r (contents r ! unat i) = Inr payload)"
proof -
  have i: "unat i < length (contents r)"
    using assms by (auto simp: reader_wf_def snapshot_index_ok_def length_contents word_less_nat_alt)
  then have "unat i < 2 ^ 63"
    using assms(1) by (simp add: reader_wf_def length_contents)
  then have "RecordAt r (sint i) = Some (contents r ! unat i)"
    using RecordAt_wf [OF assms(1) i] by (simp only: sint_small)
  then show ?thesis
    by (auto simp: verifySnapshot_def split: sum.splits)
qed

lemma VerifyAll_None_iff:
  assumes "reader_wf r"
  shows "VerifyAll r = None \<longleftrightarrow>
    (\<forall>b < BlockCount r.
       crc32_Checksum (block_slice (rRecords r) b (unat (hBlockSizeRecords (rHdr r))) (length (contents r)))
         = CRC32C (rFooter r ! b))
    \<and> (\<forall>i \<in> set (rSnapIndex r). \<exists>payload. Blob r (contents r ! unat i) = Inr payload)"
proof -
  have "VerifyAll r = None \<longleftrightarrow> (\<forall>b < length (rFooter r). VerifyBlock r (int b) = None)
      \<and> (\<forall>i \<in> set (rSnapIndex r). verifySnapshot r i = None)"
    by (simp add: VerifyAll_def case_error_None_iff first_error_None_iff Ball_def)
  then show ?thesis
    using VerifyBlock_None_iff [OF assms] verifySnapshot_None_iff [OF assms]
    by (simp add: BlockCount_def)
qed

text \<open>\<^verbatim>\<open>VerifyAll\<close> succeeds on an opened file exactly when the checksum of every block
  of records is the one its footer entry stores and the blob of every snapshot record reads.\<close>

theorem VerifyAll_exact:
  assumes "reader_wf r"
  shows "VerifyAll r = None \<longleftrightarrow>
    (\<forall>b < BlockCount r.
       crc32_Checksum (block_slice (rRecords r) b (unat (hBlockSizeRecords (rHdr r))) (length (contents r)))
         = CRC32C (rFooter r ! b))
    \<and> (\<forall>i \<in> set (rSnapIndex r). \<exists>payload. Blob r (contents r ! unat i) = Inr payload)"
  using assms by (rule VerifyAll_None_iff)

theorem VerifyAll_exact_witness:
  "reader_wf example_reader \<and> (VerifyAll example_reader = None \<longleftrightarrow>
    (\<forall>b < 2. crc32_Checksum (block_slice (records_bytes example_records) b 2 3) = 0))"
proof -
  have "CRC32C (rFooter example_reader ! b) = 0" if "b < 2" for b
    using that by (auto simp: example_reader_def less_Suc_eq numeral_2_eq_2)
  moreover have "length (contents example_reader) = 3"
    by (simp add: example_reader_contents example_records_def)
  moreover have "BlockCount example_reader = 2" "rSnapIndex example_reader = []"
    "rRecords example_reader = records_bytes example_records"
    "unat (hBlockSizeRecords (rHdr example_reader)) = 2"
    by (simp_all add: example_reader_def BlockCount_def example_header_def)
  ultimately show ?thesis
    using example_reader_wf VerifyAll_exact [OF example_reader_wf] by simp
qed

end
