(* ===== verification/Merge_Key.thy ===== *)
theory Merge_Key
  imports Store_Reader "HOL-Library.Product_Lexorder"
begin

text \<open>
  The ordering key of the merged stream: \<^verbatim>\<open>src/internal/merge/key.go\<close> and the errors of
  \<^verbatim>\<open>src/internal/merge/errors.go\<close>. \<open>Key\<close> is made a linear order (time, venue,
  sequence number, instrument, lexicographically, the time signed), and
  \<^verbatim>\<open>compareKey\<close> is proved to decide it, so that the library's lemmas on sorted lists
  and minima apply to keys.
\<close>

text \<open>\<open>MErrStore\<close> is an error of the store that the package passes on.\<close>

datatype merge_error =
    MErrVenueMismatch | MErrDuplicateVenue | MErrDuplicateKey | MErrOutOfOrder
  | MErrWorkerCount | MErrBatchShape | MErrStore store_error

record Key =
  kExchangeTs :: i64
  kVenueID :: u16
  kSequenceNumber :: u64
  kInstrumentID :: u32

definition SentinelKey :: Key where
  "SentinelKey = \<lparr>kExchangeTs = 0x7FFFFFFFFFFFFFFF, kVenueID = 0xFFFF,
     kSequenceNumber = 0xFFFFFFFFFFFFFFFF, kInstrumentID = 0xFFFFFFFF\<rparr>"

definition keyOf :: "Record \<Rightarrow> Key" where
  "keyOf rec = \<lparr>kExchangeTs = ExchangeTs rec, kVenueID = VenueID rec,
     kSequenceNumber = SequenceNumber rec, kInstrumentID = InstrumentID rec\<rparr>"

definition merge_compareKey :: "Key \<Rightarrow> Key \<Rightarrow> int" where
  "merge_compareKey a b =
     (if kExchangeTs a \<noteq> kExchangeTs b then
        (if sint (kExchangeTs a) < sint (kExchangeTs b) then -1 else 1)
      else if kVenueID a \<noteq> kVenueID b then (if kVenueID a < kVenueID b then -1 else 1)
      else if kSequenceNumber a \<noteq> kSequenceNumber b then
        (if kSequenceNumber a < kSequenceNumber b then -1 else 1)
      else if kInstrumentID a \<noteq> kInstrumentID b then
        (if kInstrumentID a < kInstrumentID b then -1 else 1)
      else 0)"

definition checkOrder :: "Key \<Rightarrow> Key \<Rightarrow> merge_error option" where
  "checkOrder prev next =
     (let c = merge_compareKey prev next in
      if c = 0 then Some MErrDuplicateKey
      else if c > 0 then Some MErrOutOfOrder
      else None)"

section \<open>Keys as a linear order\<close>

definition key_tuple :: "'m Key_scheme \<Rightarrow> int \<times> u16 \<times> u64 \<times> u32 \<times> 'm" where
  "key_tuple k = (sint (kExchangeTs k), kVenueID k, kSequenceNumber k, kInstrumentID k, Key.more k)"

lemma sint_eq_iff: "sint (a :: i64) = sint b \<longleftrightarrow> a = b"
  by (rule word_eq_iff_signed [symmetric])

lemma key_tuple_inject: "key_tuple a = key_tuple b \<longleftrightarrow> a = b"
proof
  assume e: "key_tuple a = key_tuple b"
  then have "kExchangeTs a = kExchangeTs b"
    by (simp add: key_tuple_def sint_eq_iff)
  with e show "a = b"
    by (cases a; cases b) (simp add: key_tuple_def)
qed simp

instantiation Key_ext :: (linorder) linorder
begin

definition less_eq_Key_ext :: "'a Key_ext \<Rightarrow> 'a Key_ext \<Rightarrow> bool" where
  "less_eq_Key_ext a b \<longleftrightarrow> key_tuple a \<le> key_tuple b"

definition less_Key_ext :: "'a Key_ext \<Rightarrow> 'a Key_ext \<Rightarrow> bool" where
  "less_Key_ext a b \<longleftrightarrow> key_tuple a < key_tuple b"

instance
  by standard (auto simp: less_eq_Key_ext_def less_Key_ext_def less_le key_tuple_inject)

end

lemma key_less_iff: "a < b \<longleftrightarrow> key_tuple a < key_tuple b" for a b :: "'a::linorder Key_scheme"
  by (rule less_Key_ext_def)

lemma key_le_iff: "a \<le> b \<longleftrightarrow> key_tuple a \<le> key_tuple b" for a b :: "'a::linorder Key_scheme"
  by (rule less_eq_Key_ext_def)

named_theorems key_order "the order of keys as compareKey and checkOrder decide it"

lemma compareKey_neg [key_order]: "merge_compareKey a b < 0 \<longleftrightarrow> a < b"
  by (auto simp: merge_compareKey_def key_less_iff key_tuple_def sint_eq_iff)

lemma compareKey_zero [key_order]: "merge_compareKey a b = 0 \<longleftrightarrow> a = b"
  by (cases a; cases b) (auto simp: merge_compareKey_def)

lemma compareKey_pos [key_order]: "merge_compareKey a b > 0 \<longleftrightarrow> b < a"
  using compareKey_neg [of a b] compareKey_zero [of a b] by (metis less_linear not_less_iff_gr_or_eq)

lemma checkOrder_None [key_order]: "checkOrder a b = None \<longleftrightarrow> a < b"
  by (simp add: checkOrder_def Let_def key_order) (metis not_less_iff_gr_or_eq)

lemma checkOrder_less [simp]: "a < b \<Longrightarrow> checkOrder a b = None"
  by (simp add: key_order)

lemma le_SentinelKey: "k \<le> SentinelKey" for k :: Key
proof -
  have "sint (kExchangeTs k) \<le> 2 ^ 63 - 1"
    using sint_lt [of "kExchangeTs k"] by simp
  moreover have "sint (0x7FFFFFFFFFFFFFFF :: i64) = 2 ^ 63 - 1" by simp
  moreover have "(0xFFFF :: u16) = - 1" "(0xFFFFFFFFFFFFFFFF :: u64) = - 1" "(0xFFFFFFFF :: u32) = - 1"
    by simp_all
  then have "kVenueID k \<le> 0xFFFF" "kSequenceNumber k \<le> 0xFFFFFFFFFFFFFFFF" "kInstrumentID k \<le> 0xFFFFFFFF"
    using word_order.extremum by metis+
  ultimately show ?thesis
    by (auto simp: key_le_iff key_tuple_def SentinelKey_def less_eq_prod_def less_prod_def)
qed

lemma neq_SentinelKey: "k \<noteq> SentinelKey \<longleftrightarrow> k < SentinelKey" for k :: Key
  using le_SentinelKey [of k] by auto

text \<open>The key comparison is the lexicographic order on (signed time, venue, sequence number,
  instrument), a linear order in which the sentinel is the greatest key; it agrees with the order the
  store's writer enforces, and \<^verbatim>\<open>checkOrder\<close> accepts exactly the strict successor pairs,
  telling a repeat from a decrease.\<close>

theorem key_order_total:
  "(merge_compareKey a b < 0 \<longleftrightarrow> a < b) \<and> (merge_compareKey a b = 0 \<longleftrightarrow> a = b)
   \<and> (merge_compareKey a b > 0 \<longleftrightarrow> b < a) \<and> a \<le> SentinelKey
   \<and> merge_compareKey (keyOf r) (keyOf s) = compareKey r s
   \<and> checkOrder a b = (if a < b then None else if a = b then Some MErrDuplicateKey else Some MErrOutOfOrder)"
proof -
  have "merge_compareKey (keyOf r) (keyOf s) = compareKey r s"
    by (simp add: merge_compareKey_def compareKey_def keyOf_def)
  moreover have "checkOrder a b
      = (if a < b then None else if a = b then Some MErrDuplicateKey else Some MErrOutOfOrder)"
    by (simp add: checkOrder_def Let_def key_order) auto
  ultimately show ?thesis
    using compareKey_neg compareKey_zero compareKey_pos le_SentinelKey by blast
qed

end
