(* ===== verification/Merge_LoserTree.thy ===== *)
theory Merge_LoserTree
  imports Merge_Key
begin

text \<open>
  The loser tree, \<^verbatim>\<open>src/internal/merge/losertree.go\<close>: an array tournament over a power of two
  of leaves, with the winning cursor at index 0 and the loser of each match at its node. The
  locale \<open>winner_tree\<close> is the contract the merge relies on: the winner holds a least key, and
  advancing replaces only the winner's key. The invariant that gives it is \<open>tournament\<close>: some
  assignment of a winning cursor to every node explains the losers the array holds.

  Cursor numbers are naturals. The source keeps them as \<^verbatim>\<open>int32\<close>, which is exact up to
  \<open>2^30\<close> cursors; a merge has at most \<open>2^16\<close>, one per venue.
\<close>

section \<open>Operations\<close>

record LoserTree =
  ltKeys :: "Key list"
  ltTree :: "nat list"
  ltK :: nat

text \<open>\<^verbatim>\<open>for m < k { m *= 2 }\<close>; it starts at 1.\<close>

function grow :: "nat \<Rightarrow> nat \<Rightarrow> nat" where
  "grow m k = (if 0 < m \<and> m < k then grow (m * 2) k else m)"
  by pat_completeness auto
termination
  by (relation "measure (\<lambda>(m, k). k - m)") auto

declare grow.simps [simp del]

text \<open>\<open>None\<close> is the panic.\<close>

definition NewLoserTree :: "int \<Rightarrow> LoserTree option" where
  "NewLoserTree k =
     (if k < 0 then None
      else let m = grow 1 (nat k)
           in Some \<lparr>ltKeys = replicate m SentinelKey, ltTree = replicate m 0, ltK = nat k\<rparr>)"

definition SetKey :: "LoserTree \<Rightarrow> int \<Rightarrow> Key \<Rightarrow> LoserTree option" where
  "SetKey t i key =
     (if i < 0 \<or> i \<ge> int (ltK t) then None
      else Some (t\<lparr>ltKeys := (ltKeys t)[nat i := key]\<rparr>))"

definition lt_less :: "Key list \<Rightarrow> nat \<Rightarrow> nat \<Rightarrow> bool" where
  "lt_less keys a b \<longleftrightarrow> merge_compareKey (keys ! a) (keys ! b) < 0"

text \<open>The tournament of \<^verbatim>\<open>Init\<close>, from node \<open>n\<close> down to node 1.\<close>

primrec Init_loop :: "Key list \<Rightarrow> nat \<Rightarrow> nat list \<Rightarrow> nat list \<Rightarrow> nat list \<times> nat list" where
  "Init_loop keys 0 win tree = (win, tree)"
| "Init_loop keys (Suc n) win tree =
     (let node = Suc n;
          winner = win ! (2 * node); loser = win ! (2 * node + 1);
          (winner, loser) = (if lt_less keys loser winner then (loser, winner) else (winner, loser))
      in Init_loop keys n (win[node := winner]) (tree[node := loser]))"

definition Init :: "LoserTree \<Rightarrow> LoserTree" where
  "Init t =
     (let m = length (ltKeys t) in
      if m = 1 then t\<lparr>ltTree := (ltTree t)[0 := 0]\<rparr>
      else let win = replicate m 0 @ [0..<m];
               (win, tree) = Init_loop (ltKeys t) (m - 1) win (ltTree t)
           in t\<lparr>ltTree := tree[0 := win ! 1]\<rparr>)"

definition Winner :: "LoserTree \<Rightarrow> nat \<times> Key" where
  "Winner t = (let w = ltTree t ! 0 in (w, ltKeys t ! w))"

text \<open>The climb of \<^verbatim>\<open>fix\<close> from a node to the root.\<close>

fun fix_loop :: "Key list \<Rightarrow> nat \<Rightarrow> nat \<Rightarrow> nat list \<Rightarrow> nat list" where
  "fix_loop keys node winner tree =
     (if node \<ge> 1 then
        (if lt_less keys (tree ! node) winner
         then fix_loop keys (node div 2) (tree ! node) (tree[node := winner])
         else fix_loop keys (node div 2) winner tree)
      else tree[0 := winner])"

declare fix_loop.simps [simp del]

definition lt_fix :: "LoserTree \<Rightarrow> nat \<Rightarrow> LoserTree" where
  "lt_fix t i =
     (let m = length (ltKeys t)
      in t\<lparr>ltTree := fix_loop (ltKeys t) ((m + i) div 2) i (ltTree t)\<rparr>)"

definition Advance :: "LoserTree \<Rightarrow> Key \<Rightarrow> merge_error option \<times> LoserTree" where
  "Advance t key =
     (let w = ltTree t ! 0;
          retired = ltKeys t ! w;
          t = lt_fix (t\<lparr>ltKeys := (ltKeys t)[w := key]\<rparr>) w;
          next_key = ltKeys t ! (ltTree t ! 0)
      in if next_key = SentinelKey then (None, t)
         else (checkOrder retired next_key, t))"

section \<open>The tournament\<close>

text \<open>
  Nodes are numbered as in the array: the children of \<open>n\<close> are \<open>2n\<close> and \<open>2n + 1\<close>, leaf
  \<open>m + i\<close> is cursor \<open>i\<close>. \<open>ancestor x n\<close>: node \<open>n\<close> is on the path from \<open>x\<close> to the root.
\<close>

definition ancestor :: "nat \<Rightarrow> nat \<Rightarrow> bool" where
  "ancestor x n \<longleftrightarrow> n \<ge> 1 \<and> (\<exists>d. n = x div 2 ^ d)"

definition sib :: "nat \<Rightarrow> nat" where
  "sib p = (if even p then p + 1 else p - 1)"

definition node_ok :: "Key list \<Rightarrow> nat list \<Rightarrow> (nat \<Rightarrow> nat) \<Rightarrow> nat \<Rightarrow> bool" where
  "node_ok keys tree W n \<longleftrightarrow>
     (W n = W (2 * n) \<and> tree ! n = W (2 * n + 1) \<or> W n = W (2 * n + 1) \<and> tree ! n = W (2 * n))
     \<and> keys ! W n \<le> keys ! (tree ! n)"

definition tournament :: "Key list \<Rightarrow> nat list \<Rightarrow> (nat \<Rightarrow> nat) \<Rightarrow> bool" where
  "tournament keys tree W \<longleftrightarrow>
     (\<forall>i < length keys. W (length keys + i) = i) \<and> (\<forall>n. 1 \<le> n \<and> n < length keys \<longrightarrow> node_ok keys tree W n)"

lemma ancestor_refl: "1 \<le> x \<Longrightarrow> ancestor x x"
  unfolding ancestor_def by (metis div_by_1 power_0)

lemma ancestor_half: "ancestor x n \<Longrightarrow> 1 \<le> n div 2 \<Longrightarrow> ancestor x (n div 2)"
  unfolding ancestor_def by (metis div_mult2_eq mult.commute power_Suc)

lemma ancestor_up: "ancestor (x div 2) n \<Longrightarrow> ancestor x n"
  unfolding ancestor_def by (metis div_mult2_eq power_Suc)

lemma ancestor_cases: "ancestor x n \<Longrightarrow> n = x \<or> ancestor (x div 2) n"
proof -
  assume a: "ancestor x n"
  then obtain d where d: "n = x div 2 ^ d" by (auto simp: ancestor_def)
  with a show ?thesis
    unfolding ancestor_def by (cases d) (auto simp: div_mult2_eq)
qed

lemma ancestor_le: "ancestor x n \<Longrightarrow> n \<le> x"
  by (auto simp: ancestor_def)

lemma ancestor_trans: "ancestor x y \<Longrightarrow> ancestor y n \<Longrightarrow> ancestor x n"
  unfolding ancestor_def by (metis div_mult2_eq power_add)

text \<open>Two different nodes with one parent are not both ancestors of a node.\<close>

lemma ancestor_sib:
  assumes "ancestor x p" "ancestor x q" "p div 2 = q div 2"
  shows "p = q"
proof -
  have *: "p = q" if h: "p = x div 2 ^ a" "q = x div 2 ^ b" "a \<le> b" "1 \<le> q" "p div 2 = q div 2" for p q a b
  proof (cases "a = b")
    case False
    then obtain c where "b = a + Suc c" using \<open>a \<le> b\<close> less_imp_Suc_add [of a b] by auto
    then have "q = p div 2 div 2 ^ c"
      using h(1,2) by (simp only: power_add power_Suc div_mult2_eq)
    also have "\<dots> \<le> p div 2" by simp
    finally have "q \<le> q div 2" using h by simp
    with h show ?thesis by linarith
  qed (use h in simp)
  obtain a b where ab: "p = x div 2 ^ a" "q = x div 2 ^ b" "1 \<le> p" "1 \<le> q"
    using assms by (auto simp: ancestor_def)
  show ?thesis
  proof (cases "a \<le> b")
    case True
    show ?thesis by (rule * [OF ab(1,2) True ab(4) assms(3)])
  next
    case False
    then have "b \<le> a" by simp
    then show ?thesis using * [OF ab(2,1) _ ab(3) assms(3) [symmetric]] by simp
  qed
qed

lemma tournament_leaf: "tournament keys tree W \<Longrightarrow> i < length keys \<Longrightarrow> W (length keys + i) = i"
  by (simp add: tournament_def)

lemma tournament_node: "tournament keys tree W \<Longrightarrow> 1 \<le> n \<Longrightarrow> n < length keys \<Longrightarrow> node_ok keys tree W n"
  by (simp add: tournament_def)

lemma tournament_range:
  assumes t: "tournament keys tree W" and "1 \<le> n" "n < 2 * length keys"
  shows "W n < length keys \<and> ancestor (length keys + W n) n"
  using assms(2,3)
proof (induction "2 * length keys - n" arbitrary: n rule: less_induct)
  case less
  let ?m = "length keys"
  show ?case
  proof (cases "n < ?m")
    case False
    then have "W n = n - ?m"
      using tournament_leaf [OF t, of "n - ?m"] less.prems by simp
    then show ?thesis
      using False less.prems ancestor_refl [of n] by simp
  next
    case True
    have IH: "W c < ?m \<and> ancestor (?m + W c) c" if "c = 2 * n \<or> c = 2 * n + 1" for c
      using that True less.prems by (intro less.hyps) auto
    have "c div 2 = n" if "c = 2 * n \<or> c = 2 * n + 1" for c
      using that by auto
    then have "W c < ?m \<and> ancestor (?m + W c) n" if "c = 2 * n \<or> c = 2 * n + 1" for c
      using IH [OF that] that ancestor_half [of "?m + W c" c] less.prems by auto
    moreover have "W n = W (2 * n) \<or> W n = W (2 * n + 1)"
      using tournament_node [OF t less.prems(1) True] by (auto simp: node_ok_def)
    ultimately show ?thesis by metis
  qed
qed

lemma tournament_min:
  assumes t: "tournament keys tree W" and "ancestor x n" "length keys \<le> x" "x < 2 * length keys"
  shows "keys ! W n \<le> keys ! (x - length keys)"
  using assms(2)
proof (induction "2 * length keys - n" arbitrary: n rule: less_induct)
  case less
  let ?m = "length keys"
  have n: "1 \<le> n" "n \<le> x" using less.prems ancestor_le by (auto simp: ancestor_def)
  show ?case
  proof (cases "n < ?m")
    case False
    have "n = x"
    proof (rule ccontr)
      assume "n \<noteq> x"
      then have "ancestor (x div 2) n" using ancestor_cases less.prems by blast
      then show False using ancestor_le [of "x div 2" n] False assms(4) by linarith
    qed
    then show ?thesis
      using tournament_leaf [OF t, of "x - ?m"] assms(3,4) by simp
  next
    case True
    obtain d where d: "n = x div 2 ^ d" using less.prems by (auto simp: ancestor_def)
    have "d \<noteq> 0" using d True assms(3) by (cases d) auto
    then obtain e where e: "d = Suc e" by (cases d) auto
    define c where "c = x div 2 ^ e"
    have cn: "c div 2 = n" using d e by (simp add: c_def div_mult2_eq power_Suc2 del: power_Suc)
    then have c: "ancestor x c" "c = 2 * n \<or> c = 2 * n + 1"
      using n by (auto simp: ancestor_def c_def)
    have le: "keys ! W c \<le> keys ! (x - ?m)"
      using c True n by (intro less.hyps) auto
    have "node_ok keys tree W n" using t n(1) True by (rule tournament_node)
    then have "keys ! W n \<le> keys ! W (2 * n)" "keys ! W n \<le> keys ! W (2 * n + 1)"
      by (auto simp: node_ok_def)
    with le c show ?thesis by auto
  qed
qed

section \<open>Building and repairing the tournament\<close>

lemma Init_loop_tournament:
  assumes "n < m" "length keys = m" "length win = 2 * m" "length tree = m"
    and "\<forall>i < m. win ! (m + i) = i"
    and "\<forall>k. n < k \<and> k < m \<longrightarrow> node_ok keys tree (nth win) k"
    and "Init_loop keys n win tree = (win', tree')"
  shows "tournament keys tree' (nth win') \<and> length win' = 2 * m \<and> length tree' = m"
  using assms
proof (induction n arbitrary: win tree)
  case 0
  then show ?case by (simp add: tournament_def)
next
  case (Suc n)
  let ?l = "lt_less keys (win ! (2 * Suc n + 1)) (win ! (2 * Suc n))"
  define a where "a = (if ?l then win ! (2 * Suc n + 1) else win ! (2 * Suc n))"
  define b where "b = (if ?l then win ! (2 * Suc n) else win ! (2 * Suc n + 1))"
  let ?win = "win[Suc n := a]" and ?tree = "tree[Suc n := b]"
  have ok: "node_ok keys ?tree (nth ?win) k" if k: "n < k" "k < m" for k
  proof (cases "k = Suc n")
    case True
    then show ?thesis
      using Suc.prems(1-4) by (auto simp: node_ok_def a_def b_def lt_less_def compareKey_neg)
  next
    case False
    then have "node_ok keys tree (nth win) k"
      using Suc.prems(6) k by simp
    with False k show ?thesis
      by (simp add: node_ok_def)
  qed
  show ?case
  proof (rule Suc.IH)
    show "Init_loop keys n ?win ?tree = (win', tree')"
      using Suc.prems(7) by (simp add: Let_def a_def b_def split: if_splits)
  qed (use Suc.prems ok in auto)
qed

text \<open>
  While \<^verbatim>\<open>fix\<close> climbs from \<open>c\<close>, every node off the path of \<open>c\<close> is settled, and a
  node on it still holds the winner of the subtree beside the path.
\<close>

definition climbing :: "Key list \<Rightarrow> nat list \<Rightarrow> (nat \<Rightarrow> nat) \<Rightarrow> nat \<Rightarrow> bool" where
  "climbing keys tree W c \<longleftrightarrow>
     (\<forall>i < length keys. W (length keys + i) = i)
     \<and> (\<forall>n. 1 \<le> n \<and> n < length keys \<and> \<not> ancestor (c div 2) n \<longrightarrow> node_ok keys tree W n)
     \<and> (\<forall>p. ancestor c p \<and> 1 < p \<longrightarrow> tree ! (p div 2) = W (sib p))"

lemma sib_div: "1 < p \<Longrightarrow> sib p div 2 = p div 2" "1 < p \<Longrightarrow> sib p \<noteq> p"
  by (auto simp: sib_def elim: oddE)

lemma climb_step:
  assumes c: "climbing keys tree W c" "1 < c" "c < 2 * length keys" "length tree = length keys"
  shows "climbing keys
      (if lt_less keys (tree ! (c div 2)) (W c) then tree[c div 2 := W c] else tree)
      (W(c div 2 := if lt_less keys (tree ! (c div 2)) (W c) then tree ! (c div 2) else W c)) (c div 2)"
    (is "climbing keys ?tree ?W ?n")
proof -
  let ?m = "length keys"
  have n: "1 \<le> ?n" "?n < ?m" using c(2,3) by auto
  have sib: "tree ! ?n = W (sib c)"
    using c(1,2) ancestor_refl [of c] by (simp add: climbing_def)
  have kids: "c = 2 * ?n \<and> sib c = 2 * ?n + 1 \<or> c = 2 * ?n + 1 \<and> sib c = 2 * ?n"
    using c(2) by (auto simp: sib_def elim: oddE evenE)
  have self: "node_ok keys ?tree ?W ?n"
    using kids sib n c(4) by (auto simp: node_ok_def lt_less_def compareKey_neg)
  have ok: "node_ok keys ?tree ?W k" if k: "1 \<le> k" "k < ?m" "\<not> ancestor (?n div 2) k" for k
  proof (cases "k = ?n")
    case False
    have "?n div 2 \<noteq> k"
      using k(1,3) ancestor_refl [of "?n div 2"] by metis
    then have "2 * k \<noteq> ?n" "2 * k + 1 \<noteq> ?n" by auto
    moreover have "node_ok keys tree W k"
      using c(1) k False ancestor_cases [of ?n k] by (auto simp: climbing_def)
    ultimately show ?thesis
      using False by (auto simp: node_ok_def)
  qed (simp add: self)
  have path: "?tree ! (p div 2) = ?W (sib p)" if p: "ancestor ?n p" "1 < p" for p
  proof -
    have "tree ! (p div 2) = W (sib p)"
      using c(1) p ancestor_up [of c p] by (simp add: climbing_def)
    moreover have "p \<le> ?n" using p(1) by (rule ancestor_le)
    then have "p div 2 \<noteq> ?n" using p(2) by auto
    moreover have "sib p \<noteq> ?n"
    proof
      assume s: "sib p = ?n"
      then have "ancestor ?n (sib p)" using n ancestor_refl by simp
      then show False using ancestor_sib [of ?n p "sib p"] p sib_div [of p] by auto
    qed
    ultimately show ?thesis by simp
  qed
  have "\<forall>i < ?m. ?W (?m + i) = i"
    using c(1) n by (auto simp: climbing_def)
  with ok path show ?thesis
    by (auto simp: climbing_def)
qed

lemma fix_loop_tournament:
  assumes "climbing keys tree W c" "1 \<le> c" "c < 2 * length keys" "length tree = length keys"
  shows "\<exists>W'. tournament keys (fix_loop keys (c div 2) (W c) tree) W'
    \<and> fix_loop keys (c div 2) (W c) tree ! 0 = W' 1 \<and> length (fix_loop keys (c div 2) (W c) tree) = length keys"
  using assms
proof (induction c arbitrary: tree W rule: less_induct)
  case (less c)
  show ?case
  proof (cases "c = 1")
    case True
    have "node_ok keys (tree[0 := W 1]) W n" if "1 \<le> n" "n < length keys" for n
      using less.prems(1) that True by (simp add: climbing_def ancestor_def node_ok_def)
    then have "tournament keys (tree[0 := W 1]) W"
      using less.prems(1) by (simp add: tournament_def climbing_def)
    moreover have "tree \<noteq> []"
      using less.prems by auto
    ultimately show ?thesis
      using True less.prems(4) by (intro exI [of _ W]) (cases tree; simp add: fix_loop.simps [of _ 0])
  next
    case False
    let ?n = "c div 2"
    let ?l = "lt_less keys (tree ! ?n) (W c)"
    let ?tree = "if ?l then tree[?n := W c] else tree"
    let ?W = "W(?n := if ?l then tree ! ?n else W c)"
    have c: "1 < c" using False less.prems(2) by simp
    then have n: "?n < c" "1 \<le> ?n" "?n < 2 * length keys" using less.prems(3) by auto
    have "length ?tree = length keys" using less.prems(4) by simp
    from less.IH [OF n(1) climb_step [OF less.prems(1) c less.prems(3,4)] n(2,3) this]
    have "\<exists>W'. tournament keys (fix_loop keys (?n div 2) (?W ?n) ?tree) W'
      \<and> fix_loop keys (?n div 2) (?W ?n) ?tree ! 0 = W' 1
      \<and> length (fix_loop keys (?n div 2) (?W ?n) ?tree) = length keys" .
    moreover have "fix_loop keys ?n (W c) tree = fix_loop keys (?n div 2) (?W ?n) ?tree"
      using n(2) by (simp add: fix_loop.simps [of _ ?n])
    ultimately show ?thesis by simp
  qed
qed

lemma node_ok_child:
  assumes "node_ok keys tree W (p div 2)" "1 < p"
  shows "W (p div 2) = W p \<and> tree ! (p div 2) = W (sib p) \<or> W (p div 2) = W (sib p) \<and> tree ! (p div 2) = W p"
proof -
  obtain n where "p = 2 * n \<or> p = 2 * n + 1" by (metis oddE evenE)
  then show ?thesis using assms by (auto simp: sib_def node_ok_def)
qed

lemma climb_start:
  assumes t: "tournament keys tree W" and i: "i = W 1" and m: "1 \<le> length keys"
  shows "climbing (keys[i := key]) tree W (length keys + i)"
proof -
  let ?m = "length keys"
  have i_lt: "i < ?m" using tournament_range [OF t, of 1] i m by auto
  have settled: "node_ok (keys[i := key]) tree W n"
    if n: "1 \<le> n" "n < ?m" "\<not> ancestor ((?m + i) div 2) n" for n
  proof -
    have na: "\<not> ancestor (?m + i) n"
      using ancestor_cases [of "?m + i" n] n by auto
    have ok: "node_ok keys tree W n" using t n by (simp add: tournament_node)
    have "W c \<noteq> i" if "c = 2 * n \<or> c = 2 * n + 1" for c
    proof
      assume "W c = i"
      then have "ancestor (?m + i) c"
        using tournament_range [OF t, of c] that n by auto
      moreover have "c div 2 = n" using that by auto
      ultimately show False using ancestor_half [of "?m + i" c] na n(1) by simp
    qed
    then have "W (2 * n) \<noteq> i" "W (2 * n + 1) \<noteq> i" by blast+
    then show ?thesis
      using ok by (auto simp: node_ok_def)
  qed
  have root: "W p = i" if "ancestor (?m + i) p" for p
    using that
  proof (induction p rule: less_induct)
    case (less p)
    show ?case
    proof (cases "p = 1")
      case False
      then have p: "1 < p" "p < 2 * ?m"
        using less.prems ancestor_le [of "?m + i" p] i_lt by (auto simp: ancestor_def)
      then have n: "1 \<le> p div 2" "p div 2 < ?m" by auto
      have "W (p div 2) = i"
        using p ancestor_half [OF less.prems n(1)] by (intro less.IH) auto
      then have "W p = i \<or> W (sib p) = i"
        using node_ok_child [OF tournament_node [OF t n] p(1)] by auto
      moreover have "W (sib p) \<noteq> i"
      proof
        assume "W (sib p) = i"
        moreover have "1 \<le> sib p" "sib p < 2 * ?m"
          using sib_div(1) [OF p(1)] n by linarith+
        ultimately have "ancestor (?m + i) (sib p)"
          using tournament_range [OF t, of "sib p"] by auto
        then show False
          using ancestor_sib [OF less.prems, of "sib p"] sib_div [OF p(1)] by auto
      qed
      ultimately show ?thesis by simp
    qed (use i in simp)
  qed
  have path: "tree ! (p div 2) = W (sib p)" if p: "ancestor (?m + i) p" "1 < p" for p
  proof -
    have lt: "p < 2 * ?m" using ancestor_le [OF p(1)] i_lt by simp
    have n: "1 \<le> p div 2" "p div 2 < ?m" using p(2) lt by auto
    have "W (p div 2) = W p"
      using root [OF p(1)] root [OF ancestor_half [OF p(1) n(1)]] by simp
    then show ?thesis
      using node_ok_child [OF tournament_node [OF t n] p(2)] by auto
  qed
  show ?thesis
    using t settled path by (auto simp: climbing_def tournament_def)
qed

section \<open>The contract of the merge\<close>

text \<open>
  What the merge relies on. \<open>keys\<close> is what the tree holds: one key per leaf, of which a
  winner is a least one.
\<close>

locale winner_tree =
  fixes wf :: "'t \<Rightarrow> bool" and keys :: "'t \<Rightarrow> Key list"
    and winner :: "'t \<Rightarrow> nat \<times> Key" and advance :: "'t \<Rightarrow> Key \<Rightarrow> merge_error option \<times> 't"
  assumes winner_leaf: "wf t \<Longrightarrow> fst (winner t) < length (keys t) \<and> snd (winner t) = keys t ! fst (winner t)"
    and winner_least: "wf t \<Longrightarrow> i < length (keys t) \<Longrightarrow> snd (winner t) \<le> keys t ! i"
    and advance_wf: "wf t \<Longrightarrow> wf (snd (advance t k))"
    and advance_keys: "wf t \<Longrightarrow> keys (snd (advance t k)) = (keys t)[fst (winner t) := k]"
    and advance_check: "fst (advance t k) =
      (if snd (winner (snd (advance t k))) = SentinelKey then None
       else checkOrder (snd (winner t)) (snd (winner (snd (advance t k)))))"
begin

lemma winner_Min: "wf t \<Longrightarrow> snd (winner t) = Min (set (keys t))"
  using winner_leaf [of t] winner_least [of t]
  by (intro Min_eqI [symmetric]) (auto simp: in_set_conv_nth)

lemma winner_Sentinel_iff: "wf t \<Longrightarrow> snd (winner t) = SentinelKey \<longleftrightarrow> (\<forall>i < length (keys t). keys t ! i = SentinelKey)"
  using winner_leaf [of t] winner_least [of t] le_SentinelKey [of "keys t ! _"] by (auto intro: order_antisym)

text \<open>An advance is accepted exactly when every key still in the tree is after the retired one,
  or the tree has run out.\<close>

lemma advance_accepts_iff:
  assumes "wf t"
  shows "fst (advance t k) = None \<longleftrightarrow>
    (\<forall>i < length (keys t). (keys t)[fst (winner t) := k] ! i = SentinelKey)
    \<or> (\<forall>i < length (keys t). snd (winner t) < (keys t)[fst (winner t) := k] ! i)"
proof -
  note w = advance_wf [OF assms, of k]
  let ?ks = "keys (snd (advance t k))" and ?n = "snd (winner (snd (advance t k)))"
  have "snd (winner t) < ?n \<longleftrightarrow> (\<forall>i < length ?ks. snd (winner t) < ?ks ! i)"
    using winner_leaf [OF w] less_le_trans [OF _ winner_least [OF w]] by auto
  then show ?thesis
    using winner_Sentinel_iff [OF w]
    by (auto simp: advance_check advance_keys [OF assms] key_order)
qed

lemma advance_mono:
  assumes "wf t" "fst (advance t k) = None"
  shows "snd (winner (snd (advance t k))) = SentinelKey \<or> snd (winner t) < snd (winner (snd (advance t k)))"
  using assms advance_check [of t k] by (simp add: key_order split: if_splits)

text \<open>Any run of advances.\<close>

lemma advances_wf: "wf t \<Longrightarrow> wf (foldl (\<lambda>t k. snd (advance t k)) t ks)"
  by (induction ks arbitrary: t) (simp_all add: advance_wf)

end

definition lt_wf :: "LoserTree \<Rightarrow> bool" where
  "lt_wf t \<longleftrightarrow> 1 \<le> length (ltKeys t) \<and> length (ltTree t) = length (ltKeys t)
     \<and> (\<exists>W. tournament (ltKeys t) (ltTree t) W \<and> ltTree t ! 0 = W 1)"

lemma lt_wf_winner:
  assumes "lt_wf t"
  shows "ltTree t ! 0 < length (ltKeys t)" "i < length (ltKeys t) \<Longrightarrow> ltKeys t ! (ltTree t ! 0) \<le> ltKeys t ! i"
proof -
  obtain W where W: "tournament (ltKeys t) (ltTree t) W" "ltTree t ! 0 = W 1" and m: "1 \<le> length (ltKeys t)"
    using assms by (auto simp: lt_wf_def)
  show "ltTree t ! 0 < length (ltKeys t)"
    using tournament_range [OF W(1), of 1] W(2) m by simp
  assume i: "i < length (ltKeys t)"
  have "ancestor x 1" if "1 \<le> x" for x
    using that
  proof (induction x rule: less_induct)
    case (less x)
    then show ?case
      using ancestor_refl [of x] ancestor_up [of x 1] less.IH [of "x div 2"] by (cases "x = 1") auto
  qed
  then show "ltKeys t ! (ltTree t ! 0) \<le> ltKeys t ! i"
    using tournament_min [OF W(1), of "length (ltKeys t) + i" 1] i W(2) m by simp
qed

lemma Advance_wf:
  assumes "lt_wf t"
  shows "lt_wf (snd (Advance t k)) \<and> ltKeys (snd (Advance t k)) = (ltKeys t)[ltTree t ! 0 := k]"
proof -
  obtain W where W: "tournament (ltKeys t) (ltTree t) W" "ltTree t ! 0 = W 1"
      and m: "1 \<le> length (ltKeys t)" "length (ltTree t) = length (ltKeys t)"
    using assms by (auto simp: lt_wf_def)
  define i where "i = ltTree t ! 0"
  have i: "i < length (ltKeys t)"
    using lt_wf_winner(1) [OF assms] by (simp add: i_def)
  let ?ks = "(ltKeys t)[i := k]" and ?c = "length (ltKeys t) + i"
  have "climbing ?ks (ltTree t) W ?c"
    using climb_start [OF W(1) _ m(1)] W(2) by (simp add: i_def)
  then have "\<exists>W'. tournament ?ks (fix_loop ?ks (?c div 2) (W ?c) (ltTree t)) W'
      \<and> fix_loop ?ks (?c div 2) (W ?c) (ltTree t) ! 0 = W' 1
      \<and> length (fix_loop ?ks (?c div 2) (W ?c) (ltTree t)) = length ?ks"
    using i m by (intro fix_loop_tournament) auto
  then show ?thesis
    using m tournament_leaf [OF W(1) i]
    by (simp add: Advance_def lt_fix_def Let_def i_def [symmetric] lt_wf_def) blast
qed

interpretation lt: winner_tree lt_wf ltKeys Winner Advance
proof
  show "fst (Advance t k) =
      (if snd (Winner (snd (Advance t k))) = SentinelKey then None
       else checkOrder (snd (Winner t)) (snd (Winner (snd (Advance t k)))))" for t k
    by (simp add: Winner_def Advance_def Let_def)
qed (simp_all add: Winner_def Let_def lt_wf_winner Advance_wf)

section \<open>Building a tree\<close>

lemma grow_ge: "0 < m \<Longrightarrow> m \<le> grow m k \<and> k \<le> grow m k"
proof (induction m k rule: grow.induct)
  case (1 m k)
  show ?case
  proof (cases "m < k")
    case True
    then show ?thesis using 1 by (simp add: grow.simps [of m k])
  qed (simp add: grow.simps [of m k])
qed

lemma grow_bound: "0 < m \<Longrightarrow> m < 2 * b \<Longrightarrow> k \<le> b \<Longrightarrow> grow m k < 2 * b"
proof (induction m k rule: grow.induct)
  case (1 m k)
  then show ?case by (auto simp: grow.simps [of m k])
qed

lemma Init_wf:
  assumes "1 \<le> length (ltKeys t)" "length (ltTree t) = length (ltKeys t)"
  shows "lt_wf (Init t) \<and> ltKeys (Init t) = ltKeys t \<and> ltK (Init t) = ltK t"
proof (cases "length (ltKeys t) = 1")
  case True
  have "tournament (ltKeys t) ((ltTree t)[0 := 0]) (\<lambda>_. 0)"
    using True by (auto simp: tournament_def)
  then show ?thesis
    using True assms by (cases "ltTree t") (auto simp: Init_def lt_wf_def)
next
  case False
  let ?m = "length (ltKeys t)" and ?win = "replicate (length (ltKeys t)) 0 @ [0..<length (ltKeys t)]"
  obtain win tree where e: "Init_loop (ltKeys t) (?m - 1) ?win (ltTree t) = (win, tree)"
    by fastforce
  have *: "tournament (ltKeys t) tree (nth win) \<and> length win = 2 * ?m \<and> length tree = ?m"
    by (rule Init_loop_tournament [OF _ refl _ assms(2) _ _ e]) (use assms False in \<open>auto simp: nth_append\<close>)
  have "tournament (ltKeys t) (tree[0 := win ! 1]) (nth win)"
    using * by (simp add: tournament_def node_ok_def)
  then show ?thesis
    using * e False assms by (cases tree) (auto simp: Init_def lt_wf_def Let_def)
qed

text \<open>The way the merge builds its tree: a key for every cursor that has one, then \<^verbatim>\<open>Init\<close>.\<close>

primrec set_keys :: "LoserTree \<Rightarrow> nat \<Rightarrow> Key option list \<Rightarrow> LoserTree option" where
  "set_keys t i [] = Some t"
| "set_keys t i (k # ks) =
     (case k of None \<Rightarrow> set_keys t (Suc i) ks
      | Some key \<Rightarrow> (case SetKey t (int i) key of None \<Rightarrow> None | Some t \<Rightarrow> set_keys t (Suc i) ks))"

definition build_tree :: "Key option list \<Rightarrow> LoserTree option" where
  "build_tree ks =
     (case NewLoserTree (int (length ks)) of None \<Rightarrow> None
      | Some t \<Rightarrow> map_option Init (set_keys t 0 ks))"

definition leaf_keys :: "Key option list \<Rightarrow> Key list" where
  "leaf_keys ks = map (\<lambda>k. case k of None \<Rightarrow> SentinelKey | Some k \<Rightarrow> k) ks"

lemma set_keys_Some:
  assumes "i + length ks \<le> ltK t" "ltK t \<le> length (ltKeys t)" "length (ltTree t) = length (ltKeys t)"
    "\<forall>j < length ks. ltKeys t ! (i + j) = SentinelKey"
  shows "\<exists>t'. set_keys t i ks = Some t' \<and> ltTree t' = ltTree t \<and> ltK t' = ltK t
    \<and> ltKeys t' = put (ltKeys t) i (leaf_keys ks)"
  using assms
proof (induction ks arbitrary: t i)
  case Nil
  then show ?case by (simp add: put_def leaf_keys_def)
next
  case (Cons k ks)
  define t1 where "t1 = (case k of None \<Rightarrow> t | Some key \<Rightarrow> t\<lparr>ltKeys := (ltKeys t)[i := key]\<rparr>)"
  have s: "set_keys t i (k # ks) = set_keys t1 (Suc i) ks"
    using Cons.prems(1) by (cases k) (simp_all add: t1_def SetKey_def)
  have k1: "ltKeys t1 = (ltKeys t)[i := case k of None \<Rightarrow> SentinelKey | Some k \<Rightarrow> k]"
    using spec [OF Cons.prems(4), of 0] list_update_id [of "ltKeys t" i] by (cases k) (simp_all add: t1_def)
  have sent: "ltKeys t1 ! (Suc i + j) = SentinelKey" if "j < length ks" for j
  proof -
    have "ltKeys t ! (i + Suc j) = SentinelKey"
      using Cons.prems(4) that by (metis Suc_less_eq length_Cons)
    then show ?thesis by (simp add: k1)
  qed
  have "\<exists>t'. set_keys t1 (Suc i) ks = Some t' \<and> ltTree t' = ltTree t1 \<and> ltK t' = ltK t1
    \<and> ltKeys t' = put (ltKeys t1) (Suc i) (leaf_keys ks)"
    using Cons.prems sent by (intro Cons.IH) (simp_all add: t1_def split: option.split)
  moreover have "put (ltKeys t1) (Suc i) (leaf_keys ks) = put (ltKeys t) i (leaf_keys (k # ks))"
    using Cons.prems(1,2) by (simp add: k1 put_def leaf_keys_def take_Suc_conv_app_nth)
  moreover have "ltTree t1 = ltTree t" "ltK t1 = ltK t"
    by (simp_all add: t1_def split: option.split)
  ultimately show ?case
    using s by auto
qed

lemma build_tree_Some:
  "\<exists>t. build_tree ks = Some t \<and> lt_wf t \<and> ltK t = length ks
    \<and> ltKeys t = leaf_keys ks @ replicate (grow 1 (length ks) - length ks) SentinelKey"
proof -
  let ?m = "grow 1 (length ks)"
  define t0 where "t0 = \<lparr>ltKeys = replicate ?m SentinelKey, ltTree = replicate ?m 0, ltK = length ks\<rparr>"
  have m: "1 \<le> ?m" "length ks \<le> ?m"
    using grow_ge [of 1 "length ks"] by simp_all
  have "\<exists>t'. set_keys t0 0 ks = Some t' \<and> ltTree t' = ltTree t0 \<and> ltK t' = ltK t0
    \<and> ltKeys t' = put (ltKeys t0) 0 (leaf_keys ks)"
    using m by (intro set_keys_Some) (auto simp: t0_def)
  then obtain t where t: "set_keys t0 0 ks = Some t" "ltTree t = ltTree t0" "ltK t = ltK t0"
      "ltKeys t = put (ltKeys t0) 0 (leaf_keys ks)" by blast
  have len: "length (leaf_keys ks) = length ks" by (simp add: leaf_keys_def)
  have ks: "ltKeys t = leaf_keys ks @ replicate (?m - length ks) SentinelKey"
    using t(4) len by (simp add: t0_def put_at_start)
  have "build_tree ks = Some (Init t)"
    using t(1) by (simp add: build_tree_def NewLoserTree_def t0_def Let_def)
  moreover have "lt_wf (Init t) \<and> ltKeys (Init t) = ltKeys t \<and> ltK (Init t) = ltK t"
    using m len t(2) ks by (intro Init_wf) (simp_all add: t0_def)
  ultimately show ?thesis
    using ks t(3) by (simp add: t0_def)
qed

lemma advances_length:
  "lt_wf t \<Longrightarrow> length (ltKeys (foldl (\<lambda>t k. snd (Advance t k)) t advs)) = length (ltKeys t)"
  by (induction advs arbitrary: t) (simp_all add: lt.advance_keys lt.advance_wf)

lemma build_tree_advances:
  assumes "build_tree ks = Some t"
  shows "lt_wf (foldl (\<lambda>t k. snd (Advance t k)) t advs)"
    "length (ltKeys (foldl (\<lambda>t k. snd (Advance t k)) t advs)) = grow 1 (length ks)"
  using assms build_tree_Some [of ks] advances_length [of t advs] lt.advances_wf [of t advs]
    grow_ge [of 1 "length ks"]
  by (auto simp: leaf_keys_def)

text \<open>C6: Building a tree over any number of cursors, some of them empty, never panics, and from
  then on, whatever keys it is advanced with, the winner it reports is a cursor with a least cached
  key; the number of leaves never changes.\<close>

theorem loser_tree_min:
  "\<exists>t. build_tree ks = Some t \<and>
     (\<forall>advs. let t' = foldl (\<lambda>t k. snd (Advance t k)) t advs in
        length (ltKeys t') = grow 1 (length ks) \<and> fst (Winner t') < length (ltKeys t')
        \<and> snd (Winner t') = ltKeys t' ! fst (Winner t') \<and> snd (Winner t') = Min (set (ltKeys t')))"
proof -
  obtain t where t: "build_tree ks = Some t"
    using build_tree_Some by blast
  note w = build_tree_advances(1) [OF t] and len = build_tree_advances(2) [OF t]
  show ?thesis
    using t lt.winner_leaf [OF w] lt.winner_Min [OF w] len by (auto simp: Let_def)
qed

text \<open>\<^verbatim>\<open>Advance\<close> does with one path of comparisons what a rebuild would do: it replaces
  exactly the winner's key, and its verdict is the check of the retired key against the minimum of
  all the keys then held, skipped exactly when every cursor has run out.\<close>

theorem Advance_exact:
  "\<exists>t. build_tree ks = Some t \<and>
     (\<forall>advs k. let t' = foldl (\<lambda>t k. snd (Advance t k)) t advs; ks' = (ltKeys t')[fst (Winner t') := k] in
        ltKeys (snd (Advance t' k)) = ks'
        \<and> fst (Advance t' k) = (if Min (set ks') = SentinelKey then None
                                 else checkOrder (Min (set (ltKeys t'))) (Min (set ks'))))"
proof -
  obtain t where t: "build_tree ks = Some t"
    using build_tree_Some by blast
  have "ltKeys (snd (Advance t' k)) = (ltKeys t')[fst (Winner t') := k]
      \<and> fst (Advance t' k) = (if Min (set ((ltKeys t')[fst (Winner t') := k])) = SentinelKey then None
          else checkOrder (Min (set (ltKeys t'))) (Min (set ((ltKeys t')[fst (Winner t') := k]))))"
    if "lt_wf t'" for t' k
    using lt.winner_Min [OF lt.advance_wf [OF that, of k]] lt.winner_Min [OF that]
    by (simp add: lt.advance_keys [OF that] lt.advance_check)
  then show ?thesis
    using t build_tree_advances(1) [OF t] by (simp add: Let_def)
qed

end
