(* ===== verification/Store_Image.thy ===== *)
theory Store_Image
  imports Store_Reader
begin

text \<open>
  The abstract specification of a finished file: what the bytes of the file are for a sequence of
  events (records, and snapshots with their levels), and that the reader opens such a file and
  gives the events back. The writer's theorems then only have to show that the writer produces
  these bytes.
\<close>

section \<open>Blobs\<close>

definition level_bytes :: "Level \<Rightarrow> bytes" where
  "level_bytes l = le_bytes 8 (lPrice l) @ le_bytes 8 (lSize l)"

definition levels_bytes :: "Level list \<Rightarrow> bytes" where
  "levels_bytes ls = concat (map level_bytes ls)"

definition payload_bytes :: "Level list \<Rightarrow> Level list \<Rightarrow> bytes" where
  "payload_bytes bids asks =
     le_bytes 2 (of_nat (length bids) :: u16) @ le_bytes 2 (of_nat (length asks) :: u16) @
     levels_bytes (bids @ asks)"

definition blob_bytes :: "Level list \<Rightarrow> Level list \<Rightarrow> bytes" where
  "blob_bytes bids asks =
     le_bytes 4 (crc32_Checksum (payload_bytes bids asks)) @ payload_bytes bids asks"

lemma length_level_bytes [simp]: "length (level_bytes l) = 16"
  by (simp add: level_bytes_def)

lemma length_levels_bytes [simp]: "length (levels_bytes ls) = 16 * length ls"
  by (induction ls) (simp_all add: levels_bytes_def)

lemma length_payload_bytes [simp]: "length (payload_bytes bids asks) = 4 + 16 * (length bids + length asks)"
  by (simp add: payload_bytes_def)

lemma length_blob_bytes [simp]: "length (blob_bytes bids asks) = 8 + 16 * (length bids + length asks)"
  by (simp add: blob_bytes_def)

lemma levels_bytes_append: "levels_bytes (xs @ ys) = levels_bytes xs @ levels_bytes ys"
  by (simp add: levels_bytes_def)

lemma levels_bytes_Cons: "levels_bytes (l # ls) = level_bytes l @ levels_bytes ls"
  by (simp add: levels_bytes_def)

lemma appendLevels_loop_eq:
  "length p = 4 \<Longrightarrow>
   appendLevels_loop (p @ levels_bytes (xs @ ys)) (length xs) (length ys) dst = dst @ ys"
proof (induction ys arbitrary: xs dst)
  case (Cons l ys)
  have "level_at (p @ levels_bytes (xs @ l # ys)) (length xs) = l"
    using Cons.prems
    by (simp add: level_at_def payloadHeaderSize_def blobHeaderSize_def levelSize_def le_reads
        levels_bytes_append levels_bytes_Cons level_bytes_def slice_simps le_simps)
  with Cons.IH [of "xs @ [l]" "dst @ [l]"] Cons.prems show ?case
    by simp
qed simp

lemma unat_of_nat_u16: "k < 2 ^ 16 \<Longrightarrow> unat (of_nat k :: u16) = k"
  by (simp add: unat_of_nat take_bit_nat_eq_self)

lemma Uint16_payload:
  assumes "length bids + length asks < 2 ^ 16"
  shows "unat (Uint16 (payload_bytes bids asks @ rest) 0) = length bids"
    "unat (Uint16 (payload_bytes bids asks @ rest) 2) = length asks"
  using assms by (simp_all add: payload_bytes_def le_reads slice_simps le_simps unat_of_nat_u16)

lemma AppendLevels_of_payload:
  assumes "length bids + length asks \<le> 65535"
  shows "AppendLevelsFromPayload dst (payload_bytes bids asks) = (dst @ bids @ asks, length bids, None)"
proof -
  have lt: "length bids + length asks < 2 ^ 16"
    using assms by simp
  let ?p = "le_bytes 2 (of_nat (length bids) :: u16) @ le_bytes 2 (of_nat (length asks) :: u16)"
  have "appendLevels_loop (payload_bytes bids asks) 0 (length bids + length asks) dst = dst @ bids @ asks"
    using appendLevels_loop_eq [of ?p "[]" "bids @ asks" dst] by (simp add: payload_bytes_def)
  then show ?thesis
    using Uint16_payload [OF lt, of "[]"]
    by (simp add: AppendLevelsFromPayload_def payloadHeaderSize_def blobHeaderSize_def levelSize_def Let_def
        mult.commute)
qed

text \<open>The levels of a snapshot survive the blob format: appending the levels of the payload
  of \<open>bids\<close> and \<open>asks\<close> gives both runs back in order, with the number of bids, for every
  book of at most 65535 levels.\<close>

theorem levels_roundtrip:
  assumes "length bids + length asks \<le> 65535"
  shows "AppendLevelsFromPayload dst (payload_bytes bids asks) = (dst @ bids @ asks, length bids, None)"
  using assms by (rule AppendLevels_of_payload)

theorem levels_roundtrip_witness:
  "AppendLevelsFromPayload [] (payload_bytes [\<lparr>lPrice = 99, lSize = 5\<rparr>] [\<lparr>lPrice = 101, lSize = 7\<rparr>])
   = ([\<lparr>lPrice = 99, lSize = 5\<rparr>, \<lparr>lPrice = 101, lSize = 7\<rparr>], 1, None)"
  using levels_roundtrip [of "[\<lparr>lPrice = 99, lSize = 5\<rparr>]" "[\<lparr>lPrice = 101, lSize = 7\<rparr>]" "[]"] by simp

section \<open>Events\<close>

text \<open>What a writer was asked to store. A snapshot's record carries its key only.\<close>

datatype event =
    EvRecord Record
  | EvSnapshot Record "Level list" "Level list"

fun event_blob :: "event \<Rightarrow> bytes" where
  "event_blob (EvRecord rec) = []"
| "event_blob (EvSnapshot rec bids asks) = blob_bytes bids asks"

definition region :: "event list \<Rightarrow> bytes" where
  "region evs = concat (map event_blob evs)"

text \<open>The record stored for an event whose blob starts at \<open>off\<close>.\<close>

fun event_record :: "nat \<Rightarrow> event \<Rightarrow> Record" where
  "event_record off (EvRecord rec) = rec"
| "event_record off (EvSnapshot rec bids asks) =
     rec\<lparr>RecordType := RecordTypeSnapshotPointer, BlobOffset := of_nat off,
         BlobLen := of_nat (8 + 16 * (length bids + length asks)),
         LevelCount := of_nat (length bids + length asks)\<rparr>"

fun stored :: "nat \<Rightarrow> event list \<Rightarrow> Record list" where
  "stored off [] = []"
| "stored off (e # es) = event_record off e # stored (off + length (event_blob e)) es"

fun event_ok :: "event \<Rightarrow> bool" where
  "event_ok (EvRecord rec) \<longleftrightarrow> RecordType rec \<noteq> RecordTypeSnapshotPointer"
| "event_ok (EvSnapshot rec bids asks) \<longleftrightarrow> length bids + length asks \<le> 65535"

lemma length_stored [simp]: "length (stored off evs) = length evs"
  by (induction off evs rule: stored.induct) simp_all

lemma stored_append: "stored off (xs @ ys) = stored off xs @ stored (off + length (region xs)) ys"
  by (induction off xs rule: stored.induct) (simp_all add: region_def add.assoc)

lemma region_append: "region (xs @ ys) = region xs @ region ys"
  by (simp add: region_def)

lemma region_snoc: "region (xs @ [e]) = region xs @ event_blob e"
  by (simp add: region_def)

lemma stored_snoc: "stored off (xs @ [e]) = stored off xs @ [event_record (off + length (region xs)) e]"
  by (simp add: stored_append)

lemma length_region:
  "list_all event_ok evs \<Longrightarrow> length (region evs) \<le> 2 ^ 21 * length evs"
proof (induction evs)
  case (Cons e evs)
  then show ?case
    by (cases e) (simp_all add: region_def)
qed (simp add: region_def)

lemma nth_stored:
  "i < length evs \<Longrightarrow> stored off evs ! i = event_record (off + length (region (take i evs))) (evs ! i)"
proof (induction off evs arbitrary: i rule: stored.induct)
  case (2 off e es)
  then show ?case
    by (cases i) (simp_all add: region_def add.assoc)
qed simp

section \<open>Key order\<close>

lemma compareKey_less_iff:
  "compareKey a b < 0 \<longleftrightarrow>
    sint (ExchangeTs a) < sint (ExchangeTs b) \<or> ExchangeTs a = ExchangeTs b \<and>
    (VenueID a < VenueID b \<or> VenueID a = VenueID b \<and>
    (SequenceNumber a < SequenceNumber b \<or> SequenceNumber a = SequenceNumber b \<and>
     InstrumentID a < InstrumentID b))"
  by (auto simp: compareKey_def)

lemma compareKey_less_trans: "compareKey a b < 0 \<Longrightarrow> compareKey b c < 0 \<Longrightarrow> compareKey a c < 0"
  by (auto simp: compareKey_less_iff)

lemma compareKey_less_time: "compareKey a b < 0 \<Longrightarrow> sint (ExchangeTs a) \<le> sint (ExchangeTs b)"
  by (auto simp: compareKey_less_iff)

definition stored_ok :: "u16 \<Rightarrow> Record list \<Rightarrow> bool" where
  "stored_ok venue recs \<longleftrightarrow>
     (\<forall>r \<in> set recs. validateRecord r = None \<and> VenueID r = venue) \<and>
     sorted_wrt (\<lambda>a b. compareKey a b < 0) recs \<and> length recs \<le> 2 ^ 40"

lemma stored_ok_snoc:
  assumes "stored_ok venue recs" "validateRecord r = None" "VenueID r = venue" "length recs < 2 ^ 40"
    and "recs \<noteq> [] \<Longrightarrow> compareKey (last recs) r < 0"
  shows "stored_ok venue (recs @ [r])"
proof -
  have "compareKey a r < 0" if "a \<in> set recs" for a
  proof (cases recs rule: rev_cases)
    case (snoc xs x)
    have "a = x \<or> compareKey a x < 0"
      using that snoc assms(1) by (auto simp: stored_ok_def sorted_wrt_append)
    with assms(5) snoc show ?thesis
      by (auto intro: compareKey_less_trans)
  qed (use that in simp)
  then show ?thesis
    using assms by (auto simp: stored_ok_def sorted_wrt_append)
qed

lemma stored_ok_time_ordered: "stored_ok venue recs \<Longrightarrow> time_ordered recs"
  unfolding stored_ok_def time_ordered_def sorted_map
  by (auto intro: sorted_wrt_mono_rel [rotated] compareKey_less_time)

section \<open>Indexes\<close>

definition spec_times :: "nat \<Rightarrow> Record list \<Rightarrow> i64 list" where
  "spec_times bs recs = map (\<lambda>b. ExchangeTs (recs ! (b * bs))) [0..<block_count (length recs) bs]"

definition spec_snaps :: "Record list \<Rightarrow> u64 list" where
  "spec_snaps recs = map of_nat (filter (\<lambda>i. RecordType (recs ! i) = RecordTypeSnapshotPointer) [0..<length recs])"

definition spec_entry :: "nat \<Rightarrow> Record list \<Rightarrow> nat \<Rightarrow> footerEntry" where
  "spec_entry bs recs b =
     \<lparr>BlockStartIndex = of_nat (b * bs), CRC32C = crc32_Checksum (records_bytes (take bs (drop (b * bs) recs)))\<rparr>"

definition spec_footer :: "nat \<Rightarrow> Record list \<Rightarrow> footerEntry list" where
  "spec_footer bs recs = map (spec_entry bs recs) [0..<block_count (length recs) bs]"

definition tail_bytes :: "nat \<Rightarrow> Record list \<Rightarrow> bytes" where
  "tail_bytes bs recs =
     u64s_bytes (spec_times bs recs) @ u64s_bytes (spec_snaps recs) @ footer_bytes (spec_footer bs recs)"

lemma length_spec_times [simp]: "length (spec_times bs recs) = block_count (length recs) bs"
  by (simp add: spec_times_def)

lemma length_spec_footer [simp]: "length (spec_footer bs recs) = block_count (length recs) bs"
  by (simp add: spec_footer_def)

lemma length_spec_snaps: "length (spec_snaps recs) \<le> length recs"
  using length_filter_le [of _ "[0..<length recs]"] by (simp add: spec_snaps_def)

lemma length_tail_bytes:
  "length (tail_bytes bs recs) = 20 * block_count (length recs) bs + 8 * length (spec_snaps recs)"
  by (simp add: tail_bytes_def)

lemma block_count_le: "0 < bs \<Longrightarrow> block_count n bs \<le> n"
proof -
  assume "0 < bs"
  then have "\<not> n < block_count n bs"
    by (simp add: less_block_count_iff not_less)
  then show ?thesis by simp
qed

lemma sorted_spec_times:
  assumes "time_ordered recs" "0 < bs"
  shows "sorted (map sint (spec_times bs recs))"
proof -
  have lt: "b * bs < length recs" if "b < block_count (length recs) bs" for b
    using that assms(2) by (simp add: less_block_count_iff)
  have "sint (ExchangeTs (recs ! i)) \<le> sint (ExchangeTs (recs ! j))" if "i \<le> j" "j < length recs" for i j
    using sorted_nth_mono [OF assms(1) [unfolded time_ordered_def], of i j] that by simp
  then show ?thesis
    using lt unfolding spec_times_def sorted_iff_nth_mono by (simp add: mult_le_mono1)
qed

lemma snapshot_index_ok_spec:
  assumes "length recs \<le> 2 ^ 40" "unat rc = length recs"
  shows "snapshot_index_ok rc (spec_snaps recs)"
proof -
  have u: "unat (of_nat i :: u64) = i" if "i < length recs" for i
    using that assms(1) by (intro unat_of_nat_u64) simp
  have "sorted_wrt (<) (filter (\<lambda>i. RecordType (recs ! i) = RecordTypeSnapshotPointer) [0..<length recs])"
    by (rule sorted_wrt_filter) (simp add: sorted_wrt_upt)
  then have "sorted_wrt (<) (spec_snaps recs)"
    unfolding spec_snaps_def sorted_wrt_map
    by (rule sorted_wrt_mono_rel [rotated]) (auto simp: word_less_nat_alt u)
  then show ?thesis
    using assms u by (auto simp: snapshot_index_ok_def spec_snaps_def word_less_nat_alt)
qed

lemma footer_ok_spec: "footer_ok bsw (spec_footer (unat bsw) recs)"
  by (simp add: footer_ok_def spec_footer_def spec_entry_def)

lemma block_slice_records:
  "block_slice (records_bytes recs) b bs (length recs) = records_bytes (take bs (drop (b * bs) recs))"
proof -
  have "min (length recs) ((b + 1) * bs) - b * bs = min (length recs - b * bs) bs"
    by (simp add: min_diff [symmetric])
  then show ?thesis
    unfolding block_slice_def sub_def drop_records_bytes
    by (simp add: take_records_bytes min_def)
qed

section \<open>The file\<close>

text \<open>
  The header of a finished file and the file's bytes, from a header \<open>h\<close> that holds what is known
  when the writer is created (version, venue, scale, header size, block size) and the events.
\<close>

definition base_header_ok :: "header \<Rightarrow> bool" where
  "base_header_ok h \<longleftrightarrow> hFormatVersion h = 1 \<and> 128 \<le> unat (hHeaderSize h) \<and> unat (hHeaderSize h) \<le> 2 ^ 20
     \<and> 0 < unat (hBlockSizeRecords h) \<and> unat (hBlockSizeRecords h) \<le> 2 ^ 24 \<and> 0 < sint (hPriceScale h)"

definition events_ok :: "header \<Rightarrow> event list \<Rightarrow> bool" where
  "events_ok h evs \<longleftrightarrow> list_all event_ok evs \<and> stored_ok (hVenueID h) (stored 0 evs)"

definition first_ts :: "Record list \<Rightarrow> i64" where
  "first_ts recs = (if recs = [] then 0 else ExchangeTs (hd recs))"

definition last_ts :: "Record list \<Rightarrow> i64" where
  "last_ts recs = (if recs = [] then 0 else ExchangeTs (last recs))"

definition final_header :: "header \<Rightarrow> event list \<Rightarrow> header" where
  "final_header h evs =
     (let recs = stored 0 evs; bs = unat (hBlockSizeRecords h); n = length recs;
          blob = unat (hHeaderSize h) + 64 * n;
          tail = blob + length (region evs);
          blocks = block_count n bs;
          snaps = length (spec_snaps recs)
      in h\<lparr>hRecordCount := of_nat n, hMinExchangeTs := first_ts recs, hMaxExchangeTs := last_ts recs,
           hBlobRegionOffset := of_nat blob, hBlobRegionLen := of_nat (length (region evs)),
           hTimeIndexOffset := of_nat tail, hTimeIndexCount := of_nat blocks,
           hSnapshotIndexOffset := of_nat (tail + 8 * blocks), hSnapshotIndexCount := of_nat snaps,
           hFooterOffset := of_nat (tail + 8 * blocks + 8 * snaps),
           hTrailerCRC := crc32_Checksum (tail_bytes bs recs), hFinalized := True\<rparr>)"

definition body_bytes :: "header \<Rightarrow> event list \<Rightarrow> bytes" where
  "body_bytes h evs =
     replicate (unat (hHeaderSize h) - 128) 0 @ records_bytes (stored 0 evs) @ region evs @
     tail_bytes (unat (hBlockSizeRecords h)) (stored 0 evs)"

definition file_image :: "header \<Rightarrow> event list \<Rightarrow> bytes" where
  "file_image h evs = header_bytes (final_header h evs) @ body_bytes h evs"

lemma image_bounds:
  assumes "base_header_ok h" "events_ok h evs"
  shows "length evs \<le> 2 ^ 40" "length (region evs) \<le> 2 ^ 61"
    "block_count (length evs) (unat (hBlockSizeRecords h)) \<le> 2 ^ 40"
    "length (spec_snaps (stored 0 evs)) \<le> length evs"
    "unat (hHeaderSize h) \<le> 2 ^ 20"
proof -
  show n: "length evs \<le> 2 ^ 40"
    using assms(2) by (simp add: events_ok_def stored_ok_def)
  have "length (region evs) \<le> 2 ^ 21 * length evs"
    using assms(2) by (intro length_region) (simp add: events_ok_def)
  also have "\<dots> \<le> 2 ^ 21 * 2 ^ 40"
    using n by (rule mult_le_mono2)
  finally show "length (region evs) \<le> 2 ^ 61" by simp
  show "block_count (length evs) (unat (hBlockSizeRecords h)) \<le> 2 ^ 40"
    using assms(1) n block_count_le [of "unat (hBlockSizeRecords h)" "length evs"]
    by (simp add: base_header_ok_def)
  show "length (spec_snaps (stored 0 evs)) \<le> length evs"
    using length_spec_snaps [of "stored 0 evs"] by simp
  show "unat (hHeaderSize h) \<le> 2 ^ 20"
    using assms(1) by (simp add: base_header_ok_def)
qed

lemma length_image:
  assumes "base_header_ok h"
  shows "length (file_image h evs) = unat (hHeaderSize h) + 64 * length evs + length (region evs)
    + 20 * block_count (length evs) (unat (hBlockSizeRecords h)) + 8 * length (spec_snaps (stored 0 evs))"
  using assms by (simp add: file_image_def body_bytes_def length_tail_bytes base_header_ok_def)

lemma unat_of_nat_lt63: "k < 2 ^ 63 \<Longrightarrow> unat (of_nat k :: u64) = k"
  by (rule unat_of_nat_u64) (simp add: order_less_trans)

lemma final_header_fields:
  fixes h evs
  defines "n \<equiv> length evs" and "bs \<equiv> unat (hBlockSizeRecords h)" and "hs \<equiv> unat (hHeaderSize h)"
  defines "bl \<equiv> length (region evs)" and "sn \<equiv> length (spec_snaps (stored 0 evs))"
  shows "hRecordCount (final_header h evs) = of_nat n"
    "hBlobRegionOffset (final_header h evs) = of_nat (hs + 64 * n)"
    "hBlobRegionLen (final_header h evs) = of_nat bl"
    "hTimeIndexOffset (final_header h evs) = of_nat (hs + 64 * n + bl)"
    "hTimeIndexCount (final_header h evs) = of_nat (block_count n bs)"
    "hSnapshotIndexOffset (final_header h evs) = of_nat (hs + 64 * n + bl + 8 * block_count n bs)"
    "hSnapshotIndexCount (final_header h evs) = of_nat sn"
    "hFooterOffset (final_header h evs) = of_nat (hs + 64 * n + bl + 8 * block_count n bs + 8 * sn)"
  by (simp_all add: final_header_def Let_def n_def bs_def hs_def bl_def sn_def)

lemma final_header_unat:
  assumes "base_header_ok h" "events_ok h evs"
  defines "n \<equiv> length evs" and "bs \<equiv> unat (hBlockSizeRecords h)" and "hs \<equiv> unat (hHeaderSize h)"
  defines "bl \<equiv> length (region evs)" and "sn \<equiv> length (spec_snaps (stored 0 evs))"
  shows "unat (hRecordCount (final_header h evs)) = n"
    "unat (hBlobRegionOffset (final_header h evs)) = hs + 64 * n"
    "unat (hBlobRegionLen (final_header h evs)) = bl"
    "unat (hTimeIndexOffset (final_header h evs)) = hs + 64 * n + bl"
    "unat (hTimeIndexCount (final_header h evs)) = block_count n bs"
    "unat (hSnapshotIndexOffset (final_header h evs)) = hs + 64 * n + bl + 8 * block_count n bs"
    "unat (hSnapshotIndexCount (final_header h evs)) = sn"
    "unat (hFooterOffset (final_header h evs)) = hs + 64 * n + bl + 8 * block_count n bs + 8 * sn"
    "hHeaderSize (final_header h evs) = hHeaderSize h"
    "hBlockSizeRecords (final_header h evs) = hBlockSizeRecords h"
proof -
  have b: "n \<le> 2 ^ 40" "bl \<le> 2 ^ 61" "block_count n bs \<le> 2 ^ 40" "sn \<le> n" "hs \<le> 2 ^ 20"
    using image_bounds [OF assms(1,2)] by (simp_all add: n_def bl_def bs_def sn_def hs_def)
  have lt: "hs + 64 * n + bl + 8 * block_count n bs + 8 * sn < 2 ^ 63"
    using b by simp
  note d = final_header_fields [of h evs, folded n_def bs_def hs_def bl_def sn_def]
  show "unat (hRecordCount (final_header h evs)) = n"
    "unat (hBlobRegionOffset (final_header h evs)) = hs + 64 * n"
    "unat (hBlobRegionLen (final_header h evs)) = bl"
    "unat (hTimeIndexOffset (final_header h evs)) = hs + 64 * n + bl"
    "unat (hTimeIndexCount (final_header h evs)) = block_count n bs"
    "unat (hSnapshotIndexOffset (final_header h evs)) = hs + 64 * n + bl + 8 * block_count n bs"
    "unat (hSnapshotIndexCount (final_header h evs)) = sn"
    "unat (hFooterOffset (final_header h evs)) = hs + 64 * n + bl + 8 * block_count n bs + 8 * sn"
    unfolding d by (rule unat_of_nat_lt63, use lt in linarith)+
  show "hHeaderSize (final_header h evs) = hHeaderSize h"
    "hBlockSizeRecords (final_header h evs) = hBlockSizeRecords h"
    by (simp_all add: final_header_def Let_def)
qed

lemma header_spec_image:
  assumes "base_header_ok h" "events_ok h evs"
  shows "header_spec (final_header h evs) (length (file_image h evs))"
proof -
  have st: "hFormatVersion (final_header h evs) = hFormatVersion h" "hFinalized (final_header h evs)"
    "hPriceScale (final_header h evs) = hPriceScale h"
    by (simp_all add: final_header_def Let_def)
  have base: "hFormatVersion h = 1" "128 \<le> unat (hHeaderSize h)" "unat (hHeaderSize h) \<le> 2 ^ 20"
    "0 < unat (hBlockSizeRecords h)" "unat (hBlockSizeRecords h) \<le> 2 ^ 24" "0 < sint (hPriceScale h)"
    using assms(1) by (simp_all add: base_header_ok_def)
  show ?thesis
    unfolding header_spec_def final_header_unat [OF assms] st length_image [OF assms(1)]
    using base st(2) image_bounds [OF assms] by simp
qed

definition image_reader :: "header \<Rightarrow> event list \<Rightarrow> Reader" where
  "image_reader h evs =
     (let recs = stored 0 evs; bs = unat (hBlockSizeRecords h)
      in \<lparr>rData = file_image h evs, rRecords = records_bytes recs, rBlobs = region evs,
          rTimeIndex = spec_times bs recs, rSnapIndex = spec_snaps recs,
          rFooter = spec_footer bs recs, rHdr = final_header h evs, rCloseFn = None,
          rClosed = False\<rparr>)"

lemma image_parts:
  assumes "base_header_ok h" "events_ok h evs"
  defines "fh \<equiv> final_header h evs" and "bs \<equiv> unat (hBlockSizeRecords h)" and "recs \<equiv> stored 0 evs"
  shows "records_of (file_image h evs) fh = records_bytes recs"
    "blobs_of (file_image h evs) fh = region evs"
    "drop (unat (hTimeIndexOffset fh)) (file_image h evs) = tail_bytes bs recs"
    "drop (unat (hSnapshotIndexOffset fh)) (file_image h evs) =
      u64s_bytes (spec_snaps recs) @ footer_bytes (spec_footer bs recs)"
    "drop (unat (hFooterOffset fh)) (file_image h evs) = footer_bytes (spec_footer bs recs)"
proof -
  let ?R = "records_bytes recs" and ?U = "u64s_bytes (spec_times bs recs)" and ?S = "u64s_bytes (spec_snaps recs)"
    and ?F = "footer_bytes (spec_footer bs recs)"
  obtain P where P: "P = header_bytes fh @ replicate (unat (hHeaderSize h) - 128) 0"
    "length P = unat (hHeaderSize h)"
    using assms(1) by (simp add: base_header_ok_def)
  have R: "length recs = length evs"
    by (simp add: recs_def)
  have im: "file_image h evs = P @ ?R @ region evs @ ?U @ ?S @ ?F"
    by (simp add: file_image_def body_bytes_def tail_bytes_def fh_def recs_def bs_def P(1))
  note u = final_header_unat [OF assms(1,2), folded fh_def bs_def recs_def]
  show "records_of (file_image h evs) fh = ?R"
    by (simp add: records_of_def im sub_def u P(2) R)
  show "blobs_of (file_image h evs) fh = region evs"
    by (simp add: blobs_of_def im sub_def u P(2) R)
  show "drop (unat (hTimeIndexOffset fh)) (file_image h evs) = tail_bytes bs recs"
    by (simp add: im u P(2) R tail_bytes_def)
  show "drop (unat (hSnapshotIndexOffset fh)) (file_image h evs) = ?S @ ?F"
    by (simp add: im u P(2) R)
  show "drop (unat (hFooterOffset fh)) (file_image h evs) = ?F"
    by (simp add: im u P(2) R)
qed

lemma checkTimestampRange_image:
  assumes "base_header_ok h" "events_ok h evs"
  shows "checkTimestampRange (image_reader h evs) = None"
proof (cases evs rule: rev_cases)
  case Nil
  then show ?thesis
    by (simp add: checkTimestampRange_def image_reader_def final_header_def Let_def first_ts_def last_ts_def)
next
  case (snoc es e)
  let ?recs = "stored 0 evs" and ?fh = "final_header h evs"
  note n = final_header_unat(1) [OF assms]
  have rc0: "hRecordCount ?fh \<noteq> 0"
    using n snoc by auto
  have v: "validateRecord r = None" if "r \<in> set ?recs" for r
    using assms(2) that by (auto simp: events_ok_def stored_ok_def)
  have ne: "?recs \<noteq> []"
    using snoc by (metis append_is_Nil_conv length_0_conv length_stored list.distinct(1))
  obtain xs where xs: "?recs = hd ?recs # xs"
    using ne by (cases ?recs) auto
  obtain ys where ys: "?recs = ys @ [last ?recs]" "length ys = length evs - 1"
    using ne by (metis append_butlast_last_id length_butlast length_stored)
  have d1: "decodeRecord (records_bytes ?recs) = Inr (hd ?recs)"
    by (subst xs) (simp add: records_bytes_Cons decodeRecord_record_bytes v ne)
  have "drop (64 * (length evs - 1)) (records_bytes ?recs) = record_bytes (last ?recs)"
    unfolding drop_records_bytes ys(2) [symmetric]
    by (subst ys(1)) (simp add: records_bytes_def)
  moreover have "64 * (length evs - 1) \<le> length (records_bytes ?recs)"
    by simp
  moreover have "unat ((hRecordCount ?fh - 1) * of_nat RecordSize) = 64 * (length evs - 1)"
    using unat_last_record [OF _ rc0] n image_bounds(1) [OF assms] by simp
  ultimately have d2: "sliceE (records_bytes ?recs) (unat ((hRecordCount ?fh - 1) * of_nat RecordSize)) (length (records_bytes ?recs))
      = Inr (record_bytes (last ?recs))"
    by (simp only: sliceE_drop)
  have d3: "decodeRecord (record_bytes (last ?recs)) = Inr (last ?recs)"
    using decodeRecord_record_bytes [of "last ?recs" "[]"] v ne by simp
  have ts: "hMinExchangeTs ?fh = ExchangeTs (hd ?recs)" "hMaxExchangeTs ?fh = ExchangeTs (last ?recs)"
    using ne by (simp_all add: final_header_def Let_def first_ts_def last_ts_def)
  have sel: "rHdr (image_reader h evs) = ?fh" "rRecords (image_reader h evs) = records_bytes ?recs"
    by (simp_all add: image_reader_def Let_def)
  show ?thesis
    unfolding checkTimestampRange_def sel d1 d2 d3 sum.case ts using rc0 by simp
qed

lemma openBytes_image:
  assumes "base_header_ok h" "events_ok h evs"
  shows "openBytes (file_image h evs) = Inr (image_reader h evs)"
proof -
  let ?fh = "final_header h evs" and ?bs = "unat (hBlockSizeRecords h)" and ?recs = "stored 0 evs"
  have len: "length (file_image h evs) < 2 ^ 64"
    unfolding length_image [OF assms(1)] using image_bounds [OF assms] by simp
  have dec: "decodeHeader (file_image h evs) = Inr ?fh"
    by (simp add: file_image_def decodeHeader_header_bytes)
  note spec = header_spec_image [OF assms]
  note u = final_header_unat [OF assms] and p = image_parts [OF assms]
  have ok: "time_ordered ?recs" "0 < ?bs" "length ?recs \<le> 2 ^ 40"
    using assms by (auto simp: events_ok_def base_header_ok_def stored_ok_def
        intro: stored_ok_time_ordered)
  have ti: "decodeTimeIndex (unat (hTimeIndexCount ?fh)) (tail_bytes ?bs ?recs) = Inr (spec_times ?bs ?recs)"
    using sorted_spec_times [OF ok(1,2)] u64s_at_bytes [of "spec_times ?bs ?recs"]
    by (simp add: decodeTimeIndex_Inr_iff u length_tail_bytes tail_bytes_def)
  have si: "decodeSnapshotIndex (unat (hSnapshotIndexCount ?fh))
      (u64s_bytes (spec_snaps ?recs) @ footer_bytes (spec_footer ?bs ?recs)) (hRecordCount ?fh) = Inr (spec_snaps ?recs)"
    using snapshot_index_ok_spec [OF ok(3), of "hRecordCount ?fh"] u64s_at_bytes [of "spec_snaps ?recs"]
    by (simp add: decodeSnapshotIndex_Inr_iff u)
  have ft: "decodeFooter (unat (hTimeIndexCount ?fh)) (footer_bytes (spec_footer ?bs ?recs)) (hBlockSizeRecords ?fh)
      = Inr (spec_footer ?bs ?recs)"
    using decodeFooter_footer_bytes [OF footer_ok_spec, of "hBlockSizeRecords h" ?recs "[]"] by (simp add: u)
  have crc: "hTrailerCRC ?fh = crc32_Checksum (tail_bytes ?bs ?recs)"
    by (simp add: final_header_def Let_def)
  have r: "reader_of (file_image h evs) ?fh\<lparr>rTimeIndex := spec_times ?bs ?recs, rSnapIndex := spec_snaps ?recs,
      rFooter := spec_footer ?bs ?recs\<rparr> = image_reader h evs"
    unfolding reader_of_def p(1,2) by (simp add: image_reader_def Let_def)
  have "checkTimestampRange (reader_of (file_image h evs) ?fh) = checkTimestampRange (image_reader h evs)"
    unfolding r [symmetric] by (simp add: checkTimestampRange_def cong: sum.case_cong)
  then show ?thesis
    unfolding openBytes_eq [OF len dec spec] p(3-5) ti si ft bindE_Inr r crc
    by (simp add: checkTimestampRange_image [OF assms])
qed

section \<open>Reading the file back\<close>

lemma image_reader_sel [simp]:
  "rHdr (image_reader h evs) = final_header h evs"
  "rRecords (image_reader h evs) = records_bytes (stored 0 evs)"
  "rBlobs (image_reader h evs) = region evs"
  "rTimeIndex (image_reader h evs) = spec_times (unat (hBlockSizeRecords h)) (stored 0 evs)"
  "rSnapIndex (image_reader h evs) = spec_snaps (stored 0 evs)"
  "rFooter (image_reader h evs) = spec_footer (unat (hBlockSizeRecords h)) (stored 0 evs)"
  by (simp_all add: image_reader_def Let_def)

lemma image_reader_wf:
  assumes "base_header_ok h" "events_ok h evs"
  shows "reader_wf (image_reader h evs)"
proof (rule openBytes_wf)
  show "length (file_image h evs) < 2 ^ 64"
    unfolding length_image [OF assms(1)] using image_bounds [OF assms] by simp
  show "openBytes (file_image h evs) = Inr (image_reader h evs)"
    using assms by (rule openBytes_image)
qed

lemma contents_image:
  assumes "base_header_ok h" "events_ok h evs"
  shows "contents (image_reader h evs) = stored 0 evs"
  by (rule contents_records_bytes) (simp_all add: final_header_unat [OF assms])

lemma index_agrees_image:
  assumes "base_header_ok h" "events_ok h evs"
  shows "index_agrees (image_reader h evs)"
  unfolding index_agrees_def contents_image [OF assms]
  by (simp add: spec_times_def final_header_unat [OF assms])

lemma sub_region:
  assumes "i < length evs"
  shows "sub (region evs) (length (region (take i evs))) (length (event_blob (evs ! i))) = event_blob (evs ! i)"
proof -
  have "region evs = region (take i evs) @ event_blob (evs ! i) @ region (drop (Suc i) evs)"
    using assms by (metis id_take_nth_drop region_append region_snoc append_assoc append_Cons append_Nil)
  then show ?thesis
    by (simp add: sub_def)
qed

lemma region_take_le: "length (region (take i evs)) + length (event_blob (evs ! i)) \<le> length (region evs)"
  if "i < length evs"
proof -
  have "region evs = region (take i evs) @ event_blob (evs ! i) @ region (drop (Suc i) evs)"
    using that by (metis id_take_nth_drop region_append region_snoc append_assoc append_Cons append_Nil)
  then show ?thesis
    by simp
qed

lemma Blob_of_region:
  assumes v: "validateRecord rec = None" and t: "RecordType rec = RecordTypeSnapshotPointer"
    and len: "length (rBlobs r) < 2 ^ 63" and lv: "length bids + length asks \<le> 65535"
    and off: "unat (BlobOffset rec) + length (blob_bytes bids asks) \<le> length (rBlobs r)"
    and bl: "unat (BlobLen rec) = length (blob_bytes bids asks)"
    and lc: "unat (LevelCount rec) = length bids + length asks"
    and b: "sub (rBlobs r) (unat (BlobOffset rec)) (length (blob_bytes bids asks)) = blob_bytes bids asks"
  shows "Blob r rec = Inr (payload_bytes bids asks)"
proof -
  let ?L = "of_nat (length (rBlobs r)) :: u64" and ?p = "payload_bytes bids asks"
  have L: "unat ?L = length (rBlobs r)"
    using len by (rule unat_of_nat_lt63)
  have le: "BlobOffset rec \<le> ?L"
    using off by (simp add: word_le_nat_alt L)
  then have "unat (?L - BlobOffset rec) = length (rBlobs r) - unat (BlobOffset rec)"
    by (simp add: unat_sub L)
  then have "(ucast (BlobLen rec) :: u64) \<le> ?L - BlobOffset rec"
    using off bl by (simp add: word_le_nat_alt unat_ucast_up)
  with le have in_range: "\<not> (BlobOffset rec > ?L \<or> ucast (BlobLen rec) > ?L - BlobOffset rec)"
    by (simp add: not_less)
  have s1: "sliceE (rBlobs r) (unat (BlobOffset rec)) (length (rBlobs r)) = Inr (drop (unat (BlobOffset rec)) (rBlobs r))"
    using off by (intro sliceE_drop) simp
  have s2: "sliceE (drop (unat (BlobOffset rec)) (rBlobs r)) 0 (unat (BlobLen rec)) = Inr (blob_bytes bids asks)"
    using off b unfolding bl by (simp add: sliceE_Inr sub_def)
  have s3: "sliceE (blob_bytes bids asks) 4 (length (blob_bytes bids asks)) = Inr ?p"
    by (simp add: sliceE_Inr blob_bytes_def sub_def)
  have crc: "crc32_Checksum ?p = Uint32 (blob_bytes bids asks) 0"
    by (simp add: blob_bytes_def le_reads slice_simps le_simps)
  have "length bids + length asks < 2 ^ 16"
    using lv by simp
  note c = Uint16_payload [OF this, of "[]", unfolded append_Nil2]
  have "unat (ucast (Uint16 ?p 0) + ucast (Uint16 ?p 2) :: u32) = length bids + length asks"
    using c lv by (subst unat_add_lem [THEN iffD1]) (simp_all add: unat_ucast_up)
  then have cnt: "(ucast (Uint16 ?p 0) + ucast (Uint16 ?p 2) :: u32) = ucast (LevelCount rec)"
    by (simp add: word_unat_eq_iff unat_ucast_up lc)
  show ?thesis
    unfolding Blob_def v failE_simps Let_def s1 bindE_Inr s2 s3 crc
    using t in_range cnt by simp
qed

lemma Blob_image:
  assumes "base_header_ok h" "events_ok h evs" "i < length evs" "evs ! i = EvSnapshot rec bids asks"
  shows "Blob (image_reader h evs) (stored 0 evs ! i) = Inr (payload_bytes bids asks)"
proof (rule Blob_of_region)
  let ?srec = "stored 0 evs ! i" and ?off = "length (region (take i evs))"
  have srec: "?srec = event_record ?off (EvSnapshot rec bids asks)"
    using assms(3,4) by (simp add: nth_stored)
  have "?srec \<in> set (stored 0 evs)"
    using assms(3) by simp
  then show "validateRecord ?srec = None"
    using assms(2) by (simp add: events_ok_def stored_ok_def)
  show "RecordType ?srec = RecordTypeSnapshotPointer"
    by (simp add: srec)
  show "length (rBlobs (image_reader h evs)) < 2 ^ 63"
    using image_bounds(2) [OF assms(1,2)] by simp
  show lv: "length bids + length asks \<le> 65535"
    using assms(2-4) by (auto simp: events_ok_def list_all_length)
  have le: "?off + length (blob_bytes bids asks) \<le> length (region evs)"
    using region_take_le [OF assms(3)] assms(4) by simp
  then have "?off < 2 ^ 63"
    using image_bounds(2) [OF assms(1,2)] by simp
  then have off: "unat (BlobOffset ?srec) = ?off"
    by (simp add: srec unat_of_nat_lt63)
  show "unat (BlobOffset ?srec) + length (blob_bytes bids asks) \<le> length (rBlobs (image_reader h evs))"
    using le off by simp
  show "sub (rBlobs (image_reader h evs)) (unat (BlobOffset ?srec)) (length (blob_bytes bids asks)) = blob_bytes bids asks"
    using sub_region [OF assms(3)] assms(4) by (simp add: off)
  show "unat (LevelCount ?srec) = length bids + length asks"
    unfolding srec using lv by (simp add: unat_of_nat_u16 del: of_nat_add)
  have "unat (of_nat (8 + 16 * (length bids + length asks)) :: u32) = 8 + 16 * (length bids + length asks)"
    using lv by (subst unat_of_nat) (simp add: take_bit_nat_eq_self)
  then show "unat (BlobLen ?srec) = length (blob_bytes bids asks)"
    by (simp add: srec)
qed

lemma VerifyAll_image:
  assumes "base_header_ok h" "events_ok h evs"
  shows "VerifyAll (image_reader h evs) = None"
  unfolding VerifyAll_None_iff [OF image_reader_wf [OF assms]] contents_image [OF assms]
proof (intro conjI allI impI ballI)
  let ?bs = "unat (hBlockSizeRecords h)"
  fix b assume "b < BlockCount (image_reader h evs)"
  then have "b < block_count (length evs) ?bs"
    by (simp add: BlockCount_def)
  then show "crc32_Checksum (block_slice (rRecords (image_reader h evs)) b
      (unat (hBlockSizeRecords (rHdr (image_reader h evs)))) (length (stored 0 evs)))
      = CRC32C (rFooter (image_reader h evs) ! b)"
    using block_slice_records [of "stored 0 evs" b ?bs]
    by (simp add: spec_footer_def spec_entry_def final_header_unat [OF assms])
next
  fix w assume "w \<in> set (rSnapIndex (image_reader h evs))"
  then obtain i where i: "i < length evs" "w = of_nat i"
      "RecordType (stored 0 evs ! i) = RecordTypeSnapshotPointer"
    by (auto simp: spec_snaps_def)
  have "unat w = i"
    using i(1) image_bounds(1) [OF assms] unfolding i(2) by (intro unat_of_nat_lt63) simp
  moreover obtain rec bids asks where "evs ! i = EvSnapshot rec bids asks"
  proof (cases "evs ! i")
    case (EvRecord rec)
    then show thesis
      using i assms(2) by (auto simp: nth_stored events_ok_def list_all_length)
  qed blast
  ultimately show "\<exists>payload. Blob (image_reader h evs) (stored 0 evs ! unat w) = Inr payload"
    using Blob_image [OF assms i(1)] by simp
qed

text \<open>
  A reader serves a sequence of events if its records are theirs, in order: a record as it was
  written, a snapshot under the same key with the same levels.
\<close>

definition serves :: "Reader \<Rightarrow> event list \<Rightarrow> bool" where
  "serves r evs \<longleftrightarrow> Len r = int (length evs) \<and>
     (\<forall>i < length evs. case evs ! i of
        EvRecord rec \<Rightarrow> RecordAt r (int i) = Some rec
      | EvSnapshot rec bids asks \<Rightarrow>
          (\<exists>srec. RecordAt r (int i) = Some srec \<and> compareKey srec rec = 0
             \<and> RecordType srec = RecordTypeSnapshotPointer
             \<and> AppendLevels r [] srec = (bids @ asks, length bids, None)))"

lemma AppendLevels_payload:
  "length bids + length asks \<le> 65535 \<Longrightarrow> Blob r rec = Inr (payload_bytes bids asks) \<Longrightarrow>
   AppendLevels r dst rec = (dst @ bids @ asks, length bids, None)"
  by (simp add: AppendLevels_def AppendLevels_of_payload)

lemma image_serves:
  assumes "base_header_ok h" "events_ok h evs"
  shows "serves (image_reader h evs) evs"
proof -
  let ?r = "image_reader h evs"
  note wf = image_reader_wf [OF assms] and c = contents_image [OF assms]
  have at: "RecordAt ?r (int i) = Some (stored 0 evs ! i)" if "i < length evs" for i
    using RecordAt_wf [OF wf, of i] that by (simp add: c)
  have "AppendLevels ?r [] (stored 0 evs ! i) = (bids @ asks, length bids, None)"
    if "i < length evs" "evs ! i = EvSnapshot rec bids asks" for i rec bids asks
  proof -
    have "length bids + length asks \<le> 65535"
      using assms(2) that by (auto simp: events_ok_def list_all_length)
    from AppendLevels_payload [OF this Blob_image [OF assms that]] show ?thesis by simp
  qed
  moreover have "Len ?r = int (length evs)"
    using Len_wf [OF wf] by (simp add: c)
  ultimately show ?thesis
    unfolding serves_def by (auto simp: at nth_stored compareKey_def split: event.splits)
qed

end
