(* ===== verification/Merge_Cursor.thy ===== *)
theory Merge_Cursor
  imports Merge_Key Store_Image
begin

text \<open>
  One venue's records as one sequence: \<^verbatim>\<open>src/internal/merge/cursor.go\<close>. The locale
  \<open>event_source\<close> is the contract every source of events meets on sound input, the cursor here
  and the feeds and the merger in the theories above: there is a list of events still to come, and
  each call takes its head. The theorems: whatever the files hold, the events a cursor hands out are
  of its venue with strictly increasing keys; over sound files it hands out all of them; and a seek
  leaves exactly the events at or after its time.
\<close>

section \<open>Operations\<close>

text \<open>\<open>evBlob\<close> is \<^verbatim>\<open>nil\<close> unless the record is a snapshot pointer.\<close>

record Event =
  evRecord :: Record
  evBlob :: "bytes option"

record Cursor =
  cReaders :: "Reader list"
  cVenueID :: u16
  cFile :: nat
  cIndex :: int
  cBlock :: int
  cLast :: Key
  cHasLast :: bool

definition zeroKey :: Key where
  "zeroKey = \<lparr>kExchangeTs = 0, kVenueID = 0, kSequenceNumber = 0, kInstrumentID = 0\<rparr>"

definition NewCursor :: "u16 \<Rightarrow> Reader list \<Rightarrow> merge_error + Cursor" where
  "NewCursor venueID readers =
     (if list_ex (\<lambda>r. reader_VenueID r \<noteq> venueID) readers then Inl MErrVenueMismatch
      else Inr \<lparr>cReaders = readers, cVenueID = venueID, cFile = 0, cIndex = 0, cBlock = -1,
                cLast = zeroKey, cHasLast = False\<rparr>)"

definition cursor_VenueID :: "Cursor \<Rightarrow> u16" where
  "cursor_VenueID c = cVenueID c"

text \<open>The error of \<^verbatim>\<open>Reader.SeekTime\<close> is always \<^verbatim>\<open>nil\<close>; a panic is the error
  \<open>MErrStore Panic\<close>.\<close>

function cursor_SeekTime_loop :: "i64 \<Rightarrow> Cursor \<Rightarrow> merge_error option \<times> Cursor" where
  "cursor_SeekTime_loop t c =
     (if cFile c < length (cReaders c) then
        let r = cReaders c ! cFile c in
        (case SeekTime r t of
           None \<Rightarrow> (Some (MErrStore Panic), c)
         | Some idx \<Rightarrow>
             if idx < Len r then (None, c\<lparr>cIndex := idx\<rparr>)
             else cursor_SeekTime_loop t (c\<lparr>cFile := cFile c + 1\<rparr>))
      else (None, c))"
  by pat_completeness auto
termination
  by (relation "measure (\<lambda>(t, c). length (cReaders c) - cFile c)") auto

declare cursor_SeekTime_loop.simps [simp del]

definition cursor_SeekTime :: "Cursor \<Rightarrow> i64 \<Rightarrow> merge_error option \<times> Cursor" where
  "cursor_SeekTime c t = (if cHasLast c then (Some (MErrStore Panic), c) else cursor_SeekTime_loop t c)"

text \<open>A record with its payload, as the cursor and the decode workers both build it.\<close>

definition event_of :: "Reader \<Rightarrow> Record \<Rightarrow> merge_error + Event" where
  "event_of r rec =
     (if RecordType rec = RecordTypeSnapshotPointer then
        (case Blob r rec of
           Inl e \<Rightarrow> Inl (MErrStore e)
         | Inr blob \<Rightarrow> Inr \<lparr>evRecord = rec, evBlob = Some blob\<rparr>)
      else Inr \<lparr>evRecord = rec, evBlob = None\<rparr>)"

text \<open>The block of record \<open>i\<close>; a zero block size is the panic of the division.\<close>

definition block_of :: "Reader \<Rightarrow> int \<Rightarrow> int option" where
  "block_of r i =
     (if BlockSizeRecords r = 0 then None else Some (go_quot i (int (unat (BlockSizeRecords r)))))"

definition cursor_read :: "Cursor \<Rightarrow> Reader \<Rightarrow> (merge_error + Event option) \<times> Cursor" where
  "cursor_read c r =
     (case block_of r (cIndex c) of
        None \<Rightarrow> (Inl (MErrStore Panic), c)
      | Some b \<Rightarrow>
     (case (if b \<noteq> cBlock c then VerifyBlock r b else None) of
        Some e \<Rightarrow> (Inl (MErrStore e), c)
      | None \<Rightarrow>
        let c = c\<lparr>cBlock := b\<rparr> in
     (case RecordAt r (cIndex c) of
        None \<Rightarrow> (Inl (MErrStore Panic), c)
      | Some rec \<Rightarrow>
        let c = c\<lparr>cIndex := cIndex c + 1\<rparr> in
        if VenueID rec \<noteq> cVenueID c then (Inl MErrVenueMismatch, c)
        else let key = keyOf rec in
     (case (if cHasLast c then checkOrder (cLast c) key else None) of
        Some e \<Rightarrow> (Inl e, c)
      | None \<Rightarrow>
        let c = c\<lparr>cLast := key, cHasLast := True\<rparr> in
     (case event_of r rec of
        Inl e \<Rightarrow> (Inl e, c)
      | Inr ev \<Rightarrow> (Inr (Some ev), c))))))"

function cursor_Next :: "Cursor \<Rightarrow> (merge_error + Event option) \<times> Cursor" where
  "cursor_Next c =
     (if cFile c < length (cReaders c) then
        let r = cReaders c ! cFile c in
        if cIndex c \<ge> Len r
        then cursor_Next (c\<lparr>cFile := cFile c + 1, cIndex := 0, cBlock := -1\<rparr>)
        else cursor_read c r
      else (Inr None, c))"
  by pat_completeness auto
termination
  by (relation "measure (\<lambda>c. length (cReaders c) - cFile c)") auto

declare cursor_Next.simps [simp del]

text \<open>Every reader is closed; the first error is returned.\<close>

primrec close_readers :: "Reader list \<Rightarrow> store_error option \<times> Reader list" where
  "close_readers [] = (None, [])"
| "close_readers (r # rs) =
     (let (cerr, r) = reader_Close r; (err, rs) = close_readers rs
      in (case cerr of Some e \<Rightarrow> Some e | None \<Rightarrow> err, r # rs))"

definition cursor_Close :: "Cursor \<Rightarrow> merge_error option \<times> Cursor" where
  "cursor_Close c =
     (let (err, rs) = close_readers (cReaders c)
      in (map_option MErrStore err, c\<lparr>cReaders := rs\<rparr>))"

section \<open>Sources of events\<close>

text \<open>Calling a source until it has handed out \<open>n\<close> events, ends or fails.\<close>

primrec pulls :: "('s \<Rightarrow> (merge_error + Event option) \<times> 's) \<Rightarrow> nat \<Rightarrow> 's \<Rightarrow> Event list \<times> merge_error option \<times> 's" where
  "pulls nxt 0 s = ([], None, s)"
| "pulls nxt (Suc n) s =
     (case nxt s of
        (Inl e, s) \<Rightarrow> ([], Some e, s)
      | (Inr None, s) \<Rightarrow> ([], None, s)
      | (Inr (Some ev), s) \<Rightarrow> (case pulls nxt n s of (evs, e, s) \<Rightarrow> (ev # evs, e, s)))"

abbreviation ev_key :: "Event \<Rightarrow> Key" where
  "ev_key ev \<equiv> keyOf (evRecord ev)"

definition increasing :: "Event list \<Rightarrow> bool" where
  "increasing evs \<longleftrightarrow> sorted_wrt (<) (map ev_key evs)"

lemma increasing_Nil [simp]: "increasing []"
  by (simp add: increasing_def)

lemma increasing_Cons: "increasing (ev # evs) \<longleftrightarrow> (\<forall>e \<in> set evs. ev_key ev < ev_key e) \<and> increasing evs"
  by (simp add: increasing_def)

lemma increasing_append:
  "increasing (xs @ ys) \<longleftrightarrow> increasing xs \<and> increasing ys \<and> (\<forall>x \<in> set xs. \<forall>y \<in> set ys. ev_key x < ev_key y)"
  by (auto simp: increasing_def sorted_wrt_append)

lemma increasing_drop: "increasing xs \<Longrightarrow> increasing (drop n xs)"
  by (simp add: increasing_def sorted_wrt_drop flip: drop_map)

locale event_source =
  fixes ok :: "'s \<Rightarrow> bool" and rest :: "'s \<Rightarrow> Event list"
    and nxt :: "'s \<Rightarrow> (merge_error + Event option) \<times> 's"
  assumes nxt_Nil: "ok s \<Longrightarrow> rest s = [] \<Longrightarrow> fst (nxt s) = Inr None \<and> rest (snd (nxt s)) = []"
    and nxt_Cons: "ok s \<Longrightarrow> rest s = ev # evs \<Longrightarrow> fst (nxt s) = Inr (Some ev) \<and> rest (snd (nxt s)) = evs"
    and nxt_ok: "ok s \<Longrightarrow> ok (snd (nxt s))"
begin

lemma nxt_eq: "ok s \<Longrightarrow> fst (nxt s) = Inr (case rest s of [] \<Rightarrow> None | ev # _ \<Rightarrow> Some ev)"
  using nxt_Nil [of s] nxt_Cons [of s] by (cases "rest s") auto

lemma pulls_eq:
  "ok s \<Longrightarrow> \<exists>s'. pulls nxt n s = (take n (rest s), None, s') \<and> ok s' \<and> rest s' = drop n (rest s)"
proof (induction n arbitrary: s)
  case 0
  then show ?case by simp
next
  case (Suc n)
  show ?case
  proof (cases "rest s")
    case Nil
    then show ?thesis
      using nxt_Nil [OF Suc.prems Nil] nxt_ok [OF Suc.prems] by (cases "nxt s") auto
  next
    case (Cons ev evs)
    then obtain s1 where s1: "nxt s = (Inr (Some ev), s1)" "rest s1 = evs" "ok s1"
      using nxt_Cons [OF Suc.prems Cons] nxt_ok [OF Suc.prems] by (cases "nxt s") auto
    from Suc.IH [OF s1(3)] show ?thesis
      using s1 Cons by auto
  qed
qed

text \<open>Enough calls hand out everything, and the end is then reported for ever.\<close>

lemma pulls_all:
  assumes "ok s" "length (rest s) \<le> n"
  shows "\<exists>s'. pulls nxt n s = (rest s, None, s') \<and> ok s' \<and> fst (nxt s') = Inr None"
  using pulls_eq [OF assms(1), of n] nxt_eq assms(2) by auto

end

section \<open>What a cursor can hand out\<close>

definition last_before :: "Cursor \<Rightarrow> Key \<Rightarrow> bool" where
  "last_before c k \<longleftrightarrow> (cHasLast c \<longrightarrow> cLast c < k)"

lemma cursor_read_emits:
  assumes "cursor_read c r = (Inr (Some ev), c')"
  shows "last_before c (ev_key ev) \<and> VenueID (evRecord ev) = cVenueID c \<and> cHasLast c' \<and> cLast c' = ev_key ev
    \<and> cVenueID c' = cVenueID c"
  using assms unfolding cursor_read_def
  by (auto simp: Let_def event_of_def last_before_def key_order split: option.splits sum.splits if_splits)

lemma cursor_Next_emits:
  "cursor_Next c = (Inr (Some ev), c') \<Longrightarrow>
   last_before c (ev_key ev) \<and> VenueID (evRecord ev) = cVenueID c \<and> cHasLast c' \<and> cLast c' = ev_key ev
    \<and> cVenueID c' = cVenueID c"
proof (induction c rule: cursor_Next.induct)
  case (1 c)
  let ?r = "cReaders c ! cFile c"
  show ?case
  proof (cases "cFile c < length (cReaders c) \<and> cIndex c \<ge> Len ?r")
    case True
    then have "cursor_Next (c\<lparr>cFile := cFile c + 1, cIndex := 0, cBlock := -1\<rparr>) = (Inr (Some ev), c')"
      using "1.prems" by (simp add: cursor_Next.simps [of c])
    from "1.IH" [OF _ refl _ this] True show ?thesis
      by (simp add: last_before_def)
  next
    case False
    then have "cursor_read c ?r = (Inr (Some ev), c')"
      using "1.prems" by (simp add: cursor_Next.simps [of c] Let_def split: if_splits)
    then show ?thesis by (rule cursor_read_emits)
  qed
qed

lemma pulls_cursor_increasing:
  "pulls cursor_Next n c = (evs, e, c') \<Longrightarrow>
   increasing evs \<and> (\<forall>ev \<in> set evs. VenueID (evRecord ev) = cVenueID c \<and> last_before c (ev_key ev))"
proof (induction n arbitrary: c evs)
  case (Suc n)
  show ?case
  proof (cases "\<exists>ev c1. cursor_Next c = (Inr (Some ev), c1)")
    case True
    then obtain ev c1 where c1: "cursor_Next c = (Inr (Some ev), c1)" by blast
    obtain evs1 where evs1: "pulls cursor_Next n c1 = (evs1, e, c')" "evs = ev # evs1"
      using Suc.prems c1 by (auto split: prod.splits)
    note em = cursor_Next_emits [OF c1] and IH = Suc.IH [OF evs1(1)]
    have "\<forall>x \<in> set evs1. ev_key ev < ev_key x"
      using em IH by (auto simp: last_before_def)
    with em IH show ?thesis
      unfolding evs1(2) by (auto simp: increasing_Cons last_before_def)
  next
    case False
    then have "evs = []"
      using Suc.prems by (auto split: prod.splits sum.splits option.splits)
    then show ?thesis by simp
  qed
qed simp

text \<open>Whatever the files of a partition hold, corrupt or written by another tool, the events a
  cursor hands out before it ends or reports an error are all of its venue, with strictly increasing
  keys also across file boundaries.\<close>

theorem cursor_increasing:
  assumes "NewCursor v rs = Inr c" and "pulls cursor_Next n c = (evs, e, c')"
  shows "increasing evs \<and> (\<forall>ev \<in> set evs. VenueID (evRecord ev) = v)"
  using pulls_cursor_increasing [OF assms(2)] assms(1)
  by (auto simp: NewCursor_def split: if_splits)

section \<open>Sound partitions\<close>

text \<open>
  A sound file: opened, every block matches its checksum, every snapshot blob reads, and the time
  index holds the block starts. \<open>reader_events\<close> is what such a file holds.
\<close>

definition sound_file :: "Reader \<Rightarrow> bool" where
  "sound_file r \<longleftrightarrow> reader_wf r \<and> index_agrees r
     \<and> (\<forall>b < length (rFooter r). VerifyBlock r (int b) = None)
     \<and> (\<forall>rec \<in> set (contents r). \<exists>ev. event_of r rec = Inr ev)"

definition reader_events :: "Reader \<Rightarrow> Event list" where
  "reader_events r = map (\<lambda>rec. projr (event_of r rec)) (contents r)"

definition partition_events :: "Reader list \<Rightarrow> Event list" where
  "partition_events rs = concat (map reader_events rs)"

definition sound_partition :: "u16 \<Rightarrow> Reader list \<Rightarrow> bool" where
  "sound_partition v rs \<longleftrightarrow>
     (\<forall>r \<in> set rs. sound_file r \<and> reader_VenueID r = v \<and> (\<forall>rec \<in> set (contents r). VenueID rec = v))
     \<and> increasing (partition_events rs)"

lemma length_reader_events [simp]: "length (reader_events r) = length (contents r)"
  by (simp add: reader_events_def)

lemma event_of_record: "event_of r rec = Inr ev \<Longrightarrow> evRecord ev = rec"
  by (auto simp: event_of_def split: if_splits sum.splits)

lemma reader_events_nth:
  assumes "sound_file r" "i < length (contents r)"
  shows "event_of r (contents r ! i) = Inr (reader_events r ! i)"
    "evRecord (reader_events r ! i) = contents r ! i"
proof -
  obtain ev where ev: "event_of r (contents r ! i) = Inr ev"
    using assms unfolding sound_file_def by (metis nth_mem)
  then show "event_of r (contents r ! i) = Inr (reader_events r ! i)"
    using assms(2) by (simp add: reader_events_def)
  then show "evRecord (reader_events r ! i) = contents r ! i"
    by (rule event_of_record)
qed

lemma map_evRecord_reader_events: "sound_file r \<Longrightarrow> map evRecord (reader_events r) = contents r"
  by (rule nth_equalityI) (simp_all add: reader_events_nth)

lemma block_verifies:
  assumes "sound_file r" "i < length (contents r)"
  shows "\<exists>b. block_of r (int i) = Some b \<and> VerifyBlock r b = None"
proof -
  have wf: "reader_wf r" using assms(1) by (simp add: sound_file_def)
  let ?bs = "unat (hBlockSizeRecords (rHdr r))"
  have bs: "0 < ?bs" "BlockSizeRecords r \<noteq> 0"
    using wf by (auto simp: reader_wf_def BlockSizeRecords_def)
  have b: "block_of r (int i) = Some (int (i div ?bs))"
    using bs go_quot_nonneg [of "int i" "int ?bs"]
    by (simp only: block_of_def BlockSizeRecords_def zdiv_int) simp
  have "i div ?bs * ?bs < length (contents r)"
    using assms(2) by (meson div_times_less_eq_dividend order_le_less_trans)
  then have "i div ?bs < length (rFooter r)"
    using wf block_start_lt [OF wf, of "i div ?bs"] by (simp add: reader_wf_def)
  with b assms(1) show ?thesis by (auto simp: sound_file_def)
qed

text \<open>The events a cursor has still to hand out.\<close>

definition cursor_rest :: "Cursor \<Rightarrow> Event list" where
  "cursor_rest c =
     (if cFile c < length (cReaders c)
      then drop (nat (cIndex c)) (reader_events (cReaders c ! cFile c))
           @ partition_events (drop (Suc (cFile c)) (cReaders c))
      else [])"

definition cursor_ok :: "Cursor \<Rightarrow> bool" where
  "cursor_ok c \<longleftrightarrow> 0 \<le> cIndex c
     \<and> (\<forall>r \<in> set (cReaders c). sound_file r \<and> (\<forall>rec \<in> set (contents r). VenueID rec = cVenueID c))
     \<and> increasing (cursor_rest c) \<and> (\<forall>ev \<in> set (cursor_rest c). last_before c (ev_key ev))"

lemma partition_events_Cons: "partition_events (r # rs) = reader_events r @ partition_events rs"
  by (simp add: partition_events_def)

lemma cursor_rest_file:
  "cIndex c = 0 \<Longrightarrow> cFile c \<le> length (cReaders c) \<Longrightarrow> cursor_rest c = partition_events (drop (cFile c) (cReaders c))"
  by (cases "cFile c < length (cReaders c)")
    (simp_all add: cursor_rest_def partition_events_Cons Cons_nth_drop_Suc [symmetric] partition_events_def)

lemma cursor_rest_skip:
  assumes "cFile c < length (cReaders c)" "length (contents (cReaders c ! cFile c)) \<le> nat (cIndex c)"
  shows "cursor_rest (c\<lparr>cFile := cFile c + 1, cIndex := 0, cBlock := b\<rparr>) = cursor_rest c"
  using assms cursor_rest_file [of "c\<lparr>cFile := cFile c + 1, cIndex := 0, cBlock := b\<rparr>"]
  by (simp add: cursor_rest_def)

lemma cursor_read_ok:
  assumes c: "cursor_ok c" and f: "cFile c < length (cReaders c)"
    and i: "cIndex c < Len (cReaders c ! cFile c)"
  shows "\<exists>ev evs. cursor_rest c = ev # evs \<and> fst (cursor_read c (cReaders c ! cFile c)) = Inr (Some ev)
    \<and> cursor_rest (snd (cursor_read c (cReaders c ! cFile c))) = evs
    \<and> cursor_ok (snd (cursor_read c (cReaders c ! cFile c)))"
proof -
  let ?r = "cReaders c ! cFile c"
  have r: "sound_file ?r" "\<forall>rec \<in> set (contents ?r). VenueID rec = cVenueID c"
    using c nth_mem [OF f] unfolding cursor_ok_def by blast+
  then have wf: "reader_wf ?r" by (simp add: sound_file_def)
  obtain j where j: "cIndex c = int j" using c by (metis cursor_ok_def nonneg_int_cases)
  with i have jl: "j < length (contents ?r)" using Len_wf [OF wf] by simp
  let ?ev = "reader_events ?r ! j"
  let ?evs = "drop (Suc j) (reader_events ?r) @ partition_events (drop (Suc (cFile c)) (cReaders c))"
  have rest: "cursor_rest c = ?ev # ?evs"
    using f j jl by (simp add: cursor_rest_def Cons_nth_drop_Suc)
  obtain b where b: "block_of ?r (int j) = Some b" "VerifyBlock ?r b = None"
    using block_verifies [OF r(1) jl] by blast
  have v: "VenueID (contents ?r ! j) = cVenueID c" using r(2) jl by simp
  have key: "last_before c (keyOf (contents ?r ! j))"
    using c rest reader_events_nth(2) [OF r(1) jl] by (simp add: cursor_ok_def)
  define c' where "c' = c\<lparr>cBlock := b, cIndex := int j + 1, cLast := keyOf (contents ?r ! j), cHasLast := True\<rparr>"
  have step: "cursor_read c ?r = (Inr (Some ?ev), c')"
    using b v key RecordAt_wf [OF wf jl] reader_events_nth(1) [OF r(1) jl]
    by (simp add: cursor_read_def j c'_def Let_def last_before_def)
  have "nat (1 + int j) = Suc j" by simp
  then have rest': "cursor_rest c' = ?evs"
    using f by (simp add: c'_def cursor_rest_def add.commute)
  have "increasing (?ev # ?evs)" using c rest by (simp add: cursor_ok_def)
  then have "increasing ?evs" "\<forall>x \<in> set ?evs. last_before c' (ev_key x)"
    using reader_events_nth(2) [OF r(1) jl] by (simp_all add: increasing_Cons last_before_def c'_def)
  then have "cursor_ok c'"
    using c rest' unfolding cursor_ok_def by (simp add: c'_def)
  with step rest rest' show ?thesis by simp
qed

lemma cursor_Next_ok:
  "cursor_ok c \<Longrightarrow> (case cursor_rest c of
      [] \<Rightarrow> fst (cursor_Next c) = Inr None \<and> cursor_rest (snd (cursor_Next c)) = []
    | ev # evs \<Rightarrow> fst (cursor_Next c) = Inr (Some ev) \<and> cursor_rest (snd (cursor_Next c)) = evs)
   \<and> cursor_ok (snd (cursor_Next c))"
proof (induction c rule: cursor_Next.induct)
  case (1 c)
  let ?r = "cReaders c ! cFile c"
  consider (skip) "cFile c < length (cReaders c)" "cIndex c \<ge> Len ?r"
    | (read) "cFile c < length (cReaders c)" "cIndex c < Len ?r" | (stop) "length (cReaders c) \<le> cFile c"
    by linarith
  then show ?case
  proof cases
    case skip
    let ?c = "c\<lparr>cFile := cFile c + 1, cIndex := 0, cBlock := -1\<rparr>"
    have wf: "reader_wf ?r"
      using "1.prems" skip(1) by (simp add: cursor_ok_def sound_file_def)
    have rest: "cursor_rest ?c = cursor_rest c"
      using skip Len_wf [OF wf] by (intro cursor_rest_skip) simp_all
    then have "cursor_ok ?c"
      using "1.prems" unfolding cursor_ok_def last_before_def by simp
    note IH = "1.IH" [OF skip(1) refl skip(2) this]
    have "cursor_Next c = cursor_Next ?c"
      using skip by (simp add: cursor_Next.simps [of c])
    with IH show ?thesis
      unfolding rest by (simp only:)
  next
    case read
    from cursor_read_ok [OF "1.prems" read] show ?thesis
      using read by (auto simp: cursor_Next.simps [of c])
  next
    case stop
    then show ?thesis
      using "1.prems" by (simp add: cursor_Next.simps [of c] cursor_rest_def)
  qed
qed

interpretation cursor: event_source cursor_ok cursor_rest cursor_Next
proof
  show "fst (cursor_Next c) = Inr None \<and> cursor_rest (snd (cursor_Next c)) = []"
    if "cursor_ok c" "cursor_rest c = []" for c
    using cursor_Next_ok [OF that(1)] that(2) by simp
  show "fst (cursor_Next c) = Inr (Some ev) \<and> cursor_rest (snd (cursor_Next c)) = evs"
    if "cursor_ok c" "cursor_rest c = ev # evs" for c ev evs
    using cursor_Next_ok [OF that(1)] that(2) by simp
qed (simp add: cursor_Next_ok)

lemma NewCursor_ok:
  assumes "sound_partition v rs"
  shows "\<exists>c. NewCursor v rs = Inr c \<and> cursor_ok c \<and> cursor_rest c = partition_events rs \<and> \<not> cHasLast c
    \<and> cReaders c = rs \<and> cFile c = 0 \<and> cIndex c = 0 \<and> cVenueID c = v"
proof -
  let ?c = "\<lparr>cReaders = rs, cVenueID = v, cFile = 0, cIndex = 0, cBlock = -1, cLast = zeroKey, cHasLast = False\<rparr>"
  have "cursor_rest ?c = partition_events rs"
    using cursor_rest_file [of ?c] by simp
  moreover have "NewCursor v rs = Inr ?c"
    using assms by (auto simp: NewCursor_def sound_partition_def list_ex_iff)
  ultimately show ?thesis
    using assms by (auto simp: cursor_ok_def sound_partition_def last_before_def)
qed

text \<open>Over a partition of sound files a cursor hands out every event of every file, once and in
  order, with no error however many calls are made, and reports the end after the last.\<close>

theorem cursor_complete:
  assumes "sound_partition v rs"
  shows "\<exists>c c'. NewCursor v rs = Inr c \<and> pulls cursor_Next n c = (take n (partition_events rs), None, c')
    \<and> (length (partition_events rs) \<le> n \<longrightarrow> fst (cursor_Next c') = Inr None)"
  using NewCursor_ok [OF assms] cursor.pulls_eq cursor.nxt_eq by fastforce

section \<open>Seeking\<close>

definition before_time :: "i64 \<Rightarrow> Event \<Rightarrow> bool" where
  "before_time t ev \<longleftrightarrow> sint (ExchangeTs (evRecord ev)) < sint t"

lemma key_less_time: "keyOf a < keyOf b \<Longrightarrow> sint (ExchangeTs a) \<le> sint (ExchangeTs b)"
  by (auto simp: key_less_iff key_tuple_def keyOf_def less_prod_def)

lemma increasing_time_ordered:
  "increasing evs \<Longrightarrow> time_ordered (map evRecord evs)"
  by (auto simp: increasing_def time_ordered_def sorted_wrt_map comp_def key_less_time
      intro: sorted_wrt_mono_rel [rotated])

lemma first_at_or_after_events:
  assumes "sound_file r"
  shows "first_at_or_after (contents r) t = length (takeWhile (before_time t) (reader_events r))"
proof -
  have "first_at_or_after (contents r) t
      = length (takeWhile (\<lambda>rec. sint (ExchangeTs rec) < sint t) (map evRecord (reader_events r)))"
    by (simp add: first_at_or_after_def map_evRecord_reader_events [OF assms])
  then show ?thesis
    by (simp add: takeWhile_map comp_def before_time_def [abs_def])
qed

lemma takeWhile_full: "length xs \<le> length (takeWhile P xs) \<Longrightarrow> takeWhile P xs = xs"
  by (metis takeWhile_eq_take take_all)

lemma seek_file:
  assumes "sound_file r" "increasing (reader_events r)"
  shows "\<exists>n. SeekTime r t = Some (int n) \<and> Len r = int (length (reader_events r))
    \<and> (if n < length (reader_events r) then dropWhile (before_time t) (reader_events r @ ys) = drop n (reader_events r) @ ys
       else dropWhile (before_time t) (reader_events r @ ys) = dropWhile (before_time t) ys)"
proof -
  let ?n = "length (takeWhile (before_time t) (reader_events r))"
  have wf: "reader_wf r" "index_agrees r" using assms(1) by (simp_all add: sound_file_def)
  have "time_ordered (contents r)"
    using increasing_time_ordered [OF assms(2)] by (simp add: map_evRecord_reader_events [OF assms(1)])
  then have s: "SeekTime r t = Some (int ?n)"
    using SeekTime_eq [OF wf(1) _ wf(2)] first_at_or_after_events [OF assms(1)] by simp
  have "dropWhile (before_time t) (reader_events r @ ys) = drop ?n (reader_events r) @ ys"
    if "?n < length (reader_events r)"
    using that takeWhile_eq_all_conv [of "before_time t" "reader_events r"]
    by (metis dropWhile_append1 dropWhile_eq_drop nat_neq_iff)
  moreover have "dropWhile (before_time t) (reader_events r @ ys) = dropWhile (before_time t) ys"
    if "\<not> ?n < length (reader_events r)"
  proof -
    have "\<forall>ev \<in> set (reader_events r). before_time t ev"
      using that takeWhile_full takeWhile_eq_all_conv by (metis not_less)
    then show ?thesis by (simp add: dropWhile_append2)
  qed
  ultimately show ?thesis
    using s Len_wf [OF wf(1)] by (intro exI [of _ ?n]) simp
qed

lemma cursor_SeekTime_loop_ok:
  "cursor_ok c \<Longrightarrow> cIndex c = 0 \<Longrightarrow> cFile c \<le> length (cReaders c) \<Longrightarrow> \<not> cHasLast c \<Longrightarrow>
   \<exists>c'. cursor_SeekTime_loop t c = (None, c') \<and> cursor_ok c' \<and> cursor_rest c' = dropWhile (before_time t) (cursor_rest c)
     \<and> \<not> cHasLast c' \<and> cReaders c' = cReaders c \<and> cVenueID c' = cVenueID c"
proof (induction t c rule: cursor_SeekTime_loop.induct)
  case (1 t c)
  show ?case
  proof (cases "cFile c < length (cReaders c)")
    case False
    then show ?thesis
      using "1.prems" by (simp add: cursor_SeekTime_loop.simps [of t c] cursor_rest_def)
  next
    case f: True
    let ?r = "cReaders c ! cFile c" and ?ys = "partition_events (drop (Suc (cFile c)) (cReaders c))"
    have r: "sound_file ?r" using "1.prems"(1) f by (simp add: cursor_ok_def)
    have rest: "cursor_rest c = reader_events ?r @ ?ys"
      using f "1.prems"(2) by (simp add: cursor_rest_def)
    have inc: "increasing (reader_events ?r @ ?ys)"
      using "1.prems"(1) rest by (simp add: cursor_ok_def)
    then obtain n where n: "SeekTime ?r t = Some (int n)" "Len ?r = int (length (reader_events ?r))"
      "if n < length (reader_events ?r) then dropWhile (before_time t) (reader_events ?r @ ?ys) = drop n (reader_events ?r) @ ?ys
       else dropWhile (before_time t) (reader_events ?r @ ?ys) = dropWhile (before_time t) ?ys"
      using seek_file [OF r, of t ?ys] by (auto simp: increasing_append)
    show ?thesis
    proof (cases "n < length (reader_events ?r)")
      case True
      let ?c = "c\<lparr>cIndex := int n\<rparr>"
      have rest': "cursor_rest ?c = drop n (reader_events ?r) @ ?ys"
        using f by (simp add: cursor_rest_def)
      have "drop n (reader_events ?r @ ?ys) = drop n (reader_events ?r) @ ?ys"
        using True by simp
      then have "cursor_ok ?c"
        using "1.prems"(1,4) rest' increasing_drop [OF inc, of n] by (simp add: cursor_ok_def last_before_def)
      moreover have "cursor_SeekTime_loop t c = (None, ?c)"
        using f n(1,2) True by (simp add: cursor_SeekTime_loop.simps [of t c])
      ultimately show ?thesis
        using n(3) True rest rest' "1.prems"(4) by simp
    next
      case False
      let ?c = "c\<lparr>cFile := cFile c + 1\<rparr>"
      have rest': "cursor_rest ?c = ?ys"
        using cursor_rest_file [of ?c] f "1.prems"(2) by simp
      have ok: "cursor_ok ?c"
        using "1.prems"(1,4) rest' inc by (simp add: cursor_ok_def last_before_def increasing_append)
      have "\<not> int n < Len ?r" using n(2) False by simp
      note IH = "1.IH" [OF f refl n(1) this ok]
      have "cursor_SeekTime_loop t c = cursor_SeekTime_loop t ?c"
        using f n(1,2) False by (simp add: cursor_SeekTime_loop.simps [of t c])
      then show ?thesis
        using IH "1.prems"(2,4) f n(3) False rest rest' by simp
    qed
  qed
qed

text \<open>Seeking a fresh cursor over sound files leaves exactly the events at or after the time:
  what it then hands out is the suffix of the full sequence that starts at the first such event,
  across however many files the seek skips.\<close>

theorem cursor_seek_suffix:
  assumes "sound_partition v rs"
  shows "\<exists>c c' c''. NewCursor v rs = Inr c \<and> cursor_SeekTime c t = (None, c')
    \<and> pulls cursor_Next n c' = (take n (dropWhile (before_time t) (partition_events rs)), None, c'')"
proof -
  obtain c where c: "NewCursor v rs = Inr c" "cursor_ok c" "cursor_rest c = partition_events rs"
      "\<not> cHasLast c" "cFile c = 0" "cIndex c = 0"
    using NewCursor_ok [OF assms] by blast
  obtain c' where c': "cursor_SeekTime_loop t c = (None, c')" "cursor_ok c'"
      "cursor_rest c' = dropWhile (before_time t) (cursor_rest c)"
    using cursor_SeekTime_loop_ok [OF c(2,6) _ c(4), of t] c(5) by auto
  then show ?thesis
    using c cursor.pulls_eq [OF c'(2), of n] by (auto simp: cursor_SeekTime_def)
qed

section \<open>Files of the store's writer are sound\<close>

text \<open>The event a stored one is read back as.\<close>

fun image_event :: "nat \<Rightarrow> event \<Rightarrow> Event" where
  "image_event off (EvRecord rec) = \<lparr>evRecord = rec, evBlob = None\<rparr>"
| "image_event off (EvSnapshot rec bids asks) =
     \<lparr>evRecord = event_record off (EvSnapshot rec bids asks), evBlob = Some (payload_bytes bids asks)\<rparr>"

definition image_events :: "event list \<Rightarrow> Event list" where
  "image_events evs = map (\<lambda>i. image_event (length (region (take i evs))) (evs ! i)) [0..<length evs]"

lemma event_of_image:
  assumes "base_header_ok h" "events_ok h evs" "i < length evs"
  shows "event_of (image_reader h evs) (stored 0 evs ! i) = Inr (image_events evs ! i)"
proof (cases "evs ! i")
  case (EvRecord rec)
  have "event_ok (evs ! i)" using assms by (simp add: events_ok_def list_all_length)
  then show ?thesis
    using assms(3) EvRecord by (simp add: event_of_def image_events_def nth_stored)
next
  case (EvSnapshot rec bids asks)
  note b = Blob_image [OF assms EvSnapshot]
  have "RecordType (stored 0 evs ! i) = RecordTypeSnapshotPointer"
    using assms(3) EvSnapshot by (simp add: nth_stored)
  then show ?thesis
    using assms(3) EvSnapshot b by (simp add: event_of_def image_events_def nth_stored)
qed

lemma reader_events_image:
  assumes "base_header_ok h" "events_ok h evs"
  shows "reader_events (image_reader h evs) = image_events evs"
  by (rule nth_equalityI)
    (simp_all add: reader_events_def contents_image [OF assms] event_of_image [OF assms] image_events_def [of evs])

lemma sound_file_image:
  assumes "base_header_ok h" "events_ok h evs"
  shows "sound_file (image_reader h evs)"
proof -
  note wf = image_reader_wf [OF assms] and c = contents_image [OF assms]
  have "VerifyBlock (image_reader h evs) (int b) = None" if "b < length (rFooter (image_reader h evs))" for b
    using VerifyAll_image [OF assms] that VerifyBlock_None_iff [OF wf that]
    by (simp add: VerifyAll_None_iff [OF wf] BlockCount_def)
  moreover have "\<exists>ev. event_of (image_reader h evs) rec = Inr ev" if "rec \<in> set (stored 0 evs)" for rec
    using that event_of_image [OF assms] by (metis in_set_conv_nth length_stored)
  ultimately show ?thesis
    using wf index_agrees_image [OF assms] by (simp add: sound_file_def c)
qed

lemma compareKey_keyOf: "compareKey a b < 0 \<longleftrightarrow> keyOf a < keyOf b"
proof -
  have "compareKey a b = merge_compareKey (keyOf a) (keyOf b)"
    by (simp add: merge_compareKey_def compareKey_def keyOf_def)
  then show ?thesis by (simp add: compareKey_neg)
qed

lemma increasing_image:
  assumes "base_header_ok h" "events_ok h evs"
  shows "increasing (image_events evs)"
proof -
  note r = reader_events_image [OF assms]
  have "map evRecord (image_events evs) = stored 0 evs"
    using map_evRecord_reader_events [OF sound_file_image [OF assms]]
    by (simp add: r contents_image [OF assms])
  moreover have "sorted_wrt (\<lambda>a b. keyOf a < keyOf b) (stored 0 evs)"
    using assms(2) by (simp add: events_ok_def stored_ok_def compareKey_keyOf)
  ultimately have "sorted_wrt (<) (map keyOf (map evRecord (image_events evs)))"
    by (simp add: sorted_wrt_map)
  then show ?thesis
    by (simp add: increasing_def comp_def)
qed

lemma reader_VenueID_image: "reader_VenueID (image_reader h evs) = hVenueID h"
  by (simp add: reader_VenueID_def final_header_def Let_def)

lemma sound_partition_image:
  assumes "base_header_ok h" "events_ok h evs"
  shows "sound_partition (hVenueID h) [image_reader h evs]"
proof -
  have "\<forall>rec \<in> set (contents (image_reader h evs)). VenueID rec = hVenueID h"
    using assms(2) by (simp add: contents_image [OF assms] events_ok_def stored_ok_def)
  then show ?thesis
    using sound_file_image [OF assms] increasing_image [OF assms]
    by (simp add: sound_partition_def partition_events_def reader_events_image [OF assms] reader_VenueID_image)
qed

text \<open>A concrete file: one venue, a snapshot between two trades.\<close>

definition sample_header :: "u16 \<Rightarrow> header" where
  "sample_header v = example_header\<lparr>hVenueID := v\<rparr>"

definition sample_events :: "u16 \<Rightarrow> event list" where
  "sample_events v =
     [EvRecord (example_delta\<lparr>VenueID := v, ExchangeTs := 1\<rparr>),
      EvSnapshot (zeroRecord\<lparr>VenueID := v, ExchangeTs := 5\<rparr>) [\<lparr>lPrice = 99, lSize = 5\<rparr>] [],
      EvRecord (example_delta\<lparr>VenueID := v, ExchangeTs := 5\<rparr>)]"

definition sample_reader :: "u16 \<Rightarrow> Reader" where
  "sample_reader v = image_reader (sample_header v) (sample_events v)"

lemma sample_ok: "base_header_ok (sample_header v)" "events_ok (sample_header v) (sample_events v)"
  by (simp_all add: base_header_ok_def sample_header_def example_header_def events_ok_def sample_events_def
      stored_ok_def example_delta_def zeroRecord_def validateRecord_def record_types record_layout
      blobHeaderSize_def levelSize_def compareKey_def)

lemma sample_partition: "sound_partition v [sample_reader v]"
  using sound_partition_image [OF sample_ok, of v] by (simp add: sample_reader_def sample_header_def)

lemma sample_partition_events: "partition_events [sample_reader v] = image_events (sample_events v)"
  using reader_events_image [OF sample_ok] by (simp add: partition_events_def sample_reader_def)

theorem cursor_complete_witness:
  "sound_partition 3 [sample_reader 3] \<and>
   (\<exists>c c'. NewCursor 3 [sample_reader 3] = Inr c \<and> pulls cursor_Next 9 c = (image_events (sample_events 3), None, c')
     \<and> fst (cursor_Next c') = Inr None)"
  using cursor_complete [OF sample_partition, of 3 9] sample_partition
  by (simp add: sample_partition_events image_events_def sample_events_def)

theorem cursor_increasing_witness:
  "\<exists>c c'. NewCursor 3 [sample_reader 3] = Inr c \<and> pulls cursor_Next 2 c = (take 2 (image_events (sample_events 3)), None, c')
     \<and> increasing (take 2 (image_events (sample_events 3)))"
proof -
  obtain c where c: "NewCursor 3 [sample_reader 3] = Inr c" "cursor_ok c"
      "cursor_rest c = partition_events [sample_reader 3]"
    using NewCursor_ok [OF sample_partition] by blast
  obtain c' where c': "pulls cursor_Next 2 c = (take 2 (image_events (sample_events 3)), None, c')"
    using cursor.pulls_eq [OF c(2), of 2] c(3) by (auto simp: sample_partition_events)
  from cursor_increasing [OF c(1) c'] c(1) c' show ?thesis by blast
qed

theorem cursor_seek_suffix_witness:
  "sound_partition 3 [sample_reader 3] \<and>
   (\<exists>c c' c''. NewCursor 3 [sample_reader 3] = Inr c \<and> cursor_SeekTime c 5 = (None, c')
     \<and> pulls cursor_Next 9 c' = (drop 1 (image_events (sample_events 3)), None, c''))"
proof -
  have "image_events (sample_events 3) = [image_events (sample_events 3) ! 0,
      image_events (sample_events 3) ! 1, image_events (sample_events 3) ! 2]"
    by (simp add: image_events_def sample_events_def)
  moreover have "before_time 5 (image_events (sample_events 3) ! 0)" "\<not> before_time 5 (image_events (sample_events 3) ! 1)"
    by (simp_all add: image_events_def sample_events_def before_time_def)
  ultimately have "dropWhile (before_time 5) (image_events (sample_events 3)) = drop 1 (image_events (sample_events 3))"
    "length (image_events (sample_events 3)) = 3"
    by (metis dropWhile.simps(2) drop0 drop_Suc_Cons One_nat_def, metis length_Cons list.size(3) numeral_3_eq_3)
  with cursor_seek_suffix [OF sample_partition, of 3 5 9] sample_partition show ?thesis
    by (simp add: sample_partition_events)
qed

end
