(* ===== verification/Merge_Batch.thy ===== *)
theory Merge_Batch
  imports Merge_Cursor
begin

text \<open>
  Batches and the deterministic part of a venue's feed: \<^verbatim>\<open>src/internal/merge/reader.go\<close>
  without its goroutines, which are in the theory \<open>Merge_Feed\<close>. A batch is filled from a range of
  one file by a worker, or from a cursor inline; a venue's owner walks the ranges and checks the seams
  between batches. \<open>batches n f\<close> is the sequence of batches this gives when done one after the
  other: what the goroutines are proved to deliver.
\<close>

section \<open>Batches\<close>

definition batchRecords :: nat where "batchRecords = 1024"
definition feedBatches :: nat where "feedBatches = 3"

record batchShape =
  shRecords :: int
  shBatches :: int

definition defaultBatchShape :: batchShape where
  "defaultBatchShape = \<lparr>shRecords = int batchRecords, shBatches = int feedBatches\<rparr>"

definition shape_valid :: "batchShape \<Rightarrow> bool" where
  "shape_valid s \<longleftrightarrow> shRecords s \<ge> 1 \<and> shBatches s \<ge> 2"

text \<open>\<open>bCap\<close> is \<^verbatim>\<open>cap(events)\<close>. The \<^verbatim>\<open>done\<close> channel is in \<open>Merge_Feed\<close>.\<close>

record batch =
  bVenueID :: u16
  bEvents :: "Event list"
  bErr :: "merge_error option"
  bCap :: nat

definition newSizedBatch :: "u16 \<Rightarrow> nat \<Rightarrow> batch" where
  "newSizedBatch venueID records = \<lparr>bVenueID = venueID, bEvents = [], bErr = None, bCap = records\<rparr>"

definition newBatch :: "u16 \<Rightarrow> batch" where
  "newBatch venueID = newSizedBatch venueID batchRecords"

text \<open>The loop of \<^verbatim>\<open>fill\<close> with \<open>k\<close> records to go: the events, and the error it stops at.\<close>

primrec fill_loop ::
    "Reader \<Rightarrow> u16 \<Rightarrow> int \<Rightarrow> nat \<Rightarrow> int \<Rightarrow> int \<Rightarrow> Key \<Rightarrow> Event list \<Rightarrow> Event list \<times> merge_error option" where
  "fill_loop r v start 0 i block last_key evs = (evs, None)"
| "fill_loop r v start (Suc k) i block last_key evs =
     (case block_of r i of
        None \<Rightarrow> (evs, Some (MErrStore Panic))
      | Some n \<Rightarrow>
     (case (if n \<noteq> block then VerifyBlock r n else None) of
        Some e \<Rightarrow> (evs, Some (MErrStore e))
      | None \<Rightarrow>
     (case RecordAt r i of
        None \<Rightarrow> (evs, Some (MErrStore Panic))
      | Some rec \<Rightarrow>
        if VenueID rec \<noteq> v then (evs, Some MErrVenueMismatch)
        else let key = keyOf rec in
     (case (if i > start then checkOrder last_key key else None) of
        Some e \<Rightarrow> (evs, Some e)
      | None \<Rightarrow>
     (case event_of r rec of
        Inl e \<Rightarrow> (evs, Some e)
      | Inr ev \<Rightarrow> fill_loop r v start k (i + 1) n key (evs @ [ev]))))))"

definition fill :: "batch \<Rightarrow> Reader \<Rightarrow> int \<Rightarrow> int \<Rightarrow> batch" where
  "fill b r start count =
     (let (evs, err) = fill_loop r (bVenueID b) start (nat count) start (-1) zeroKey []
      in b\<lparr>bEvents := evs, bErr := err\<rparr>)"

text \<open>Refilling inline: \<open>pulls\<close> is the loop of \<^verbatim>\<open>fillFromCursor\<close>, up to the capacity.\<close>

definition fillFromCursor :: "batch \<Rightarrow> Cursor \<Rightarrow> merge_error option \<times> batch \<times> Cursor" where
  "fillFromCursor b c =
     (case pulls cursor_Next (bCap b) c of (evs, err, c) \<Rightarrow> (err, b\<lparr>bEvents := evs\<rparr>, c))"

section \<open>A venue's feed\<close>

record venueFeed =
  vfVenueID :: u16
  vfReaders :: "Reader list"
  vfShape :: batchShape
  vfFile :: nat
  vfIndex :: int
  vfLast :: Key
  vfHasLast :: bool

definition newVenueFeed :: "Cursor \<Rightarrow> batchShape \<Rightarrow> venueFeed" where
  "newVenueFeed c shape =
     \<lparr>vfVenueID = cVenueID c, vfReaders = cReaders c, vfShape = shape, vfFile = cFile c,
      vfIndex = cIndex c, vfLast = zeroKey, vfHasLast = False\<rparr>"

text \<open>A range to decode: the file, the first record and their number.\<close>

type_synonym work_range = "Reader \<times> int \<times> int"

function nextRange :: "venueFeed \<Rightarrow> work_range option \<times> venueFeed" where
  "nextRange f =
     (if vfFile f < length (vfReaders f) then
        let r = vfReaders f ! vfFile f in
        if vfIndex f \<ge> Len r then nextRange (f\<lparr>vfFile := vfFile f + 1, vfIndex := 0\<rparr>)
        else let start = vfIndex f;
                 count = (let rem = Len r - start in if shRecords (vfShape f) > rem then rem
                          else shRecords (vfShape f))
             in (Some (r, start, count), f\<lparr>vfIndex := vfIndex f + count\<rparr>)
      else (None, f))"
  by pat_completeness auto
termination
  by (relation "measure (\<lambda>f. length (vfReaders f) - vfFile f)") auto

declare nextRange.simps [simp del]

definition checkSeam :: "venueFeed \<Rightarrow> batch \<Rightarrow> merge_error option \<times> venueFeed" where
  "checkSeam f b =
     (if bEvents b = [] then (None, f)
      else case (if vfHasLast f then checkOrder (vfLast f) (ev_key (hd (bEvents b))) else None) of
          Some e \<Rightarrow> (Some e, f)
        | None \<Rightarrow> (None, f\<lparr>vfLast := ev_key (last (bEvents b)), vfHasLast := True\<rparr>))"

text \<open>What a worker makes of a range, and what the owner makes of the result before it sends it.\<close>

definition decode_range :: "venueFeed \<Rightarrow> work_range \<Rightarrow> batch" where
  "decode_range f rg =
     (case rg of (r, start, count) \<Rightarrow>
        fill (newSizedBatch (vfVenueID f) (nat (shRecords (vfShape f)))) r start count)"

definition finish_batch :: "venueFeed \<Rightarrow> batch \<Rightarrow> batch \<times> venueFeed" where
  "finish_batch f b =
     (if bErr b = None then (case checkSeam f b of (err, f) \<Rightarrow> (b\<lparr>bErr := err\<rparr>, f)) else (b, f))"

text \<open>The first \<open>n\<close> ranges, and the batches of a sequence of ranges.\<close>

primrec ranges :: "nat \<Rightarrow> venueFeed \<Rightarrow> work_range list" where
  "ranges 0 f = []"
| "ranges (Suc n) f = (case nextRange f of (None, f) \<Rightarrow> [] | (Some rg, f) \<Rightarrow> rg # ranges n f)"

primrec finish_all :: "venueFeed \<Rightarrow> batch list \<Rightarrow> batch list" where
  "finish_all f [] = []"
| "finish_all f (b # bs) = (case finish_batch f b of (b, f) \<Rightarrow> b # finish_all f bs)"

definition batches :: "nat \<Rightarrow> venueFeed \<Rightarrow> batch list" where
  "batches n f = finish_all f (map (decode_range f) (ranges n f))"

section \<open>One batch after the other\<close>

text \<open>The walk over the files does not look at the last key, and the seam check only at it.\<close>

abbreviation with_last :: "Key \<Rightarrow> bool \<Rightarrow> venueFeed \<Rightarrow> venueFeed" where
  "with_last l h f \<equiv> f\<lparr>vfLast := l, vfHasLast := h\<rparr>"

lemma nextRange_last: "nextRange (with_last l h f) = map_prod id (with_last l h) (nextRange f)"
proof (induction f rule: nextRange.induct)
  case (1 f)
  let ?f = "f\<lparr>vfFile := vfFile f + 1, vfIndex := 0\<rparr>" and ?g = "with_last l h f"
  show ?case
  proof (cases "vfFile f < length (vfReaders f) \<and> vfIndex f \<ge> Len (vfReaders f ! vfFile f)")
    case True
    have "nextRange ?g = nextRange (?g\<lparr>vfFile := vfFile ?g + 1, vfIndex := 0\<rparr>)"
      using True by (subst nextRange.simps) simp
    also have "?g\<lparr>vfFile := vfFile ?g + 1, vfIndex := 0\<rparr> = with_last l h ?f" by simp
    also have "nextRange \<dots> = map_prod id (with_last l h) (nextRange ?f)"
      using "1.IH" [OF _ refl] True by blast
    also have "nextRange ?f = nextRange f"
      using True by (simp add: nextRange.simps [of f])
    finally show ?thesis .
  next
    case False
    then show ?thesis
      by (auto simp: nextRange.simps [of f] nextRange.simps [of ?g] Let_def)
  qed
qed

lemma ranges_last: "ranges n (with_last l h f) = ranges n f"
  by (induction n arbitrary: f) (auto simp: nextRange_last split: prod.split option.split)

lemma nextRange_keeps:
  "nextRange f = (rg, f') \<Longrightarrow> vfLast f' = vfLast f \<and> vfHasLast f' = vfHasLast f \<and> vfVenueID f' = vfVenueID f
     \<and> vfShape f' = vfShape f \<and> vfReaders f' = vfReaders f"
proof (induction f rule: nextRange.induct)
  case (1 f)
  show ?case
  proof (cases "vfFile f < length (vfReaders f) \<and> vfIndex f \<ge> Len (vfReaders f ! vfFile f)")
    case True
    then have "nextRange (f\<lparr>vfFile := vfFile f + 1, vfIndex := 0\<rparr>) = (rg, f')"
      using "1.prems" by (simp add: nextRange.simps [of f])
    from "1.IH" [OF _ refl _ this] True show ?thesis by simp
  next
    case False
    then show ?thesis
      using "1.prems" by (auto simp: nextRange.simps [of f] Let_def split: if_splits)
  qed
qed

lemma finish_batch_keeps:
  assumes "finish_batch f b = (b', f')"
  shows "f' = with_last (vfLast f') (vfHasLast f') f"
  using assms by (auto simp: finish_batch_def checkSeam_def split: if_splits option.splits)

lemma finish_batch_cong:
  assumes "vfLast g = vfLast f" "vfHasLast g = vfHasLast f" "finish_batch f b = (b', f')" "finish_batch g b = (b'', g')"
  shows "b'' = b' \<and> vfLast g' = vfLast f' \<and> vfHasLast g' = vfHasLast f'"
  using assms by (auto simp: finish_batch_def checkSeam_def split: if_splits option.splits)

lemma finish_all_cong:
  "vfLast g = vfLast f \<Longrightarrow> vfHasLast g = vfHasLast f \<Longrightarrow> finish_all g bs = finish_all f bs"
proof (induction bs arbitrary: f g)
  case (Cons b bs)
  obtain b1 f1 b2 g1 where e: "finish_batch f b = (b1, f1)" "finish_batch g b = (b2, g1)"
    by fastforce
  from finish_batch_cong [OF Cons.prems e] Cons.IH [of g1 f1] show ?case
    by (simp add: e)
qed simp

lemma decode_range_cong:
  "vfVenueID g = vfVenueID f \<Longrightarrow> vfShape g = vfShape f \<Longrightarrow> decode_range g = decode_range f"
  by (simp add: decode_range_def fun_eq_iff)

text \<open>The sequence unrolled: issue a range, decode it, check the seam, go on.\<close>

lemma batches_Suc:
  "batches (Suc n) f =
     (case nextRange f of
        (None, f1) \<Rightarrow> []
      | (Some rg, f1) \<Rightarrow> (case finish_batch f1 (decode_range f rg) of (b, f2) \<Rightarrow> b # batches n f2))"
proof (cases "fst (nextRange f)")
  case None
  then show ?thesis by (cases "nextRange f") (simp add: batches_def)
next
  case (Some rg)
  then obtain f1 where f1: "nextRange f = (Some rg, f1)" by (cases "nextRange f") simp
  note k = nextRange_keeps [OF f1]
  obtain b f2 where f2: "finish_batch f1 (decode_range f rg) = (b, f2)" by fastforce
  obtain b' f2' where f2': "finish_batch f (decode_range f rg) = (b', f2')" by fastforce
  note eq = finish_batch_cong [OF _ _ f2' f2]
  note keep = finish_batch_keeps [OF f2]
  have dec: "decode_range f2 = decode_range f"
    by (rule decode_range_cong) (subst keep, simp add: k)+
  have rng: "ranges n f2 = ranges n f1"
    by (subst keep) (rule ranges_last)
  have "finish_all f2' bs = finish_all f2 bs" for bs
    using eq k by (intro finish_all_cong) auto
  then show ?thesis
    using eq k by (simp add: batches_def f1 f2 f2' dec rng)
qed

lemma batches_0 [simp]: "batches 0 f = []"
  by (simp add: batches_def)

section \<open>Sound feeds\<close>

text \<open>A feed stands where the cursor of the same position stands.\<close>

definition vf_cursor :: "venueFeed \<Rightarrow> Cursor" where
  "vf_cursor f = \<lparr>cReaders = vfReaders f, cVenueID = vfVenueID f, cFile = vfFile f, cIndex = vfIndex f,
     cBlock = -1, cLast = vfLast f, cHasLast = vfHasLast f\<rparr>"

definition vf_rest :: "venueFeed \<Rightarrow> Event list" where
  "vf_rest f = cursor_rest (vf_cursor f)"

definition vf_ok :: "venueFeed \<Rightarrow> bool" where
  "vf_ok f \<longleftrightarrow> cursor_ok (vf_cursor f) \<and> shape_valid (vfShape f)"

lemma fill_loop_sound:
  assumes r: "sound_file r" "\<forall>rec \<in> set (contents r). VenueID rec = v" "increasing (drop s (reader_events r))"
  shows "s \<le> i \<Longrightarrow> i + k \<le> length (contents r) \<Longrightarrow> (s < i \<longrightarrow> last_key = ev_key (reader_events r ! (i - 1))) \<Longrightarrow>
    fill_loop r v (int s) k (int i) block last_key evs = (evs @ sub (reader_events r) i k, None)"
proof (induction k arbitrary: i block last_key evs)
  case 0
  then show ?case by (simp add: sub_def)
next
  case (Suc k)
  have wf: "reader_wf r" using r(1) by (simp add: sound_file_def)
  have i: "i < length (contents r)" using Suc.prems(2) by simp
  obtain b where b: "block_of r (int i) = Some b" "VerifyBlock r b = None"
    using block_verifies [OF r(1) i] by blast
  note ev = reader_events_nth [OF r(1) i] and ev' = reader_events_nth(2) [OF r(1), of "i - 1"]
  have ord: "(if int i > int s then checkOrder last_key (keyOf (contents r ! i)) else None) = None"
  proof (cases "s < i")
    case True
    then have "ev_key (reader_events r ! (i - 1)) < ev_key (reader_events r ! i)"
      using r(3) i sorted_wrt_nth_less [of "(<)" "map ev_key (drop s (reader_events r))" "i - 1 - s" "i - s"]
      by (simp add: increasing_def)
    then show ?thesis
      using Suc.prems(3) True by (simp add: key_order ev(2))
  qed simp
  have v: "VenueID (contents r ! i) = v" using r(2) i by simp
  have "int i + 1 = int (Suc i)" by simp
  then have "fill_loop r v (int s) (Suc k) (int i) block last_key evs
      = fill_loop r v (int s) k (int (Suc i)) b (keyOf (contents r ! i)) (evs @ [reader_events r ! i])"
    using b v ord ev(1) RecordAt_wf [OF wf i] by (simp add: Let_def add.commute)
  also have "\<dots> = ((evs @ [reader_events r ! i]) @ sub (reader_events r) (Suc i) k, None)"
    using Suc.prems ev(2) by (intro Suc.IH) simp_all
  also have "(evs @ [reader_events r ! i]) @ sub (reader_events r) (Suc i) k = evs @ sub (reader_events r) i (Suc k)"
    using i by (simp add: sub_def Cons_nth_drop_Suc [symmetric])
  finally show ?case .
qed

text \<open>The next range of a sound feed decodes to the next events.\<close>

lemma nextRange_sound:
  "vf_ok f \<Longrightarrow> (case nextRange f of
      (None, f') \<Rightarrow> vf_rest f = []
    | (Some rg, f') \<Rightarrow> \<exists>evs. evs \<noteq> [] \<and> vf_rest f = evs @ vf_rest f' \<and> bEvents (decode_range f rg) = evs
        \<and> bErr (decode_range f rg) = None \<and> 0 \<le> vfIndex f')"
proof (induction f rule: nextRange.induct)
  case (1 f)
  let ?r = "vfReaders f ! vfFile f" and ?c = "vf_cursor f"
  have ok: "cursor_ok ?c" "shape_valid (vfShape f)" using "1.prems" by (simp_all add: vf_ok_def)
  consider (skip) "vfFile f < length (vfReaders f)" "vfIndex f \<ge> Len ?r"
    | (read) "vfFile f < length (vfReaders f)" "vfIndex f < Len ?r" | (stop) "length (vfReaders f) \<le> vfFile f"
    by linarith
  then show ?case
  proof cases
    case skip
    let ?f = "f\<lparr>vfFile := vfFile f + 1, vfIndex := 0\<rparr>"
    have "sound_file ?r" using ok skip(1) by (simp add: cursor_ok_def vf_cursor_def)
    then have wf: "reader_wf ?r" by (simp add: sound_file_def)
    have c: "vf_cursor ?f = ?c\<lparr>cFile := cFile ?c + 1, cIndex := 0, cBlock := -1\<rparr>"
      by (simp add: vf_cursor_def)
    have "length (contents (cReaders ?c ! cFile ?c)) \<le> nat (cIndex ?c)"
      using skip(2) Len_wf [OF wf] by (simp add: vf_cursor_def)
    then have rest: "vf_rest ?f = vf_rest f"
      unfolding vf_rest_def c using skip(1) by (intro cursor_rest_skip) (simp_all add: vf_cursor_def)
    have "vf_ok ?f"
      using ok rest unfolding vf_ok_def vf_rest_def cursor_ok_def by (simp add: vf_cursor_def last_before_def)
    note IH = "1.IH" [OF skip(1) refl skip(2) this]
    have n: "nextRange f = nextRange ?f" using skip by (simp add: nextRange.simps [of f])
    have d: "decode_range ?f = decode_range f" by (rule decode_range_cong) simp_all
    show ?thesis using IH unfolding n rest d .
  next
    case read
    obtain j where j: "vfIndex f = int j"
      using ok(1) by (metis cursor_ok_def vf_cursor_def Cursor.select_convs(4) nonneg_int_cases)
    have r: "sound_file ?r" "\<forall>rec \<in> set (contents ?r). VenueID rec = vfVenueID f"
      using ok(1) nth_mem [OF read(1)] by (auto simp: cursor_ok_def vf_cursor_def)
    then have wf: "reader_wf ?r" by (simp add: sound_file_def)
    have jl: "j < length (contents ?r)" using read(2) j Len_wf [OF wf] by simp
    define cnt where "cnt = (if shRecords (vfShape f) > Len ?r - int j then Len ?r - int j else shRecords (vfShape f))"
    define n where "n = nat cnt"
    have cnt: "cnt = int n" "0 < n" "j + n \<le> length (contents ?r)"
      using jl ok(2) Len_wf [OF wf] by (auto simp: cnt_def n_def shape_valid_def)
    let ?f = "f\<lparr>vfIndex := int j + cnt\<rparr>" and ?ys = "partition_events (drop (Suc (vfFile f)) (vfReaders f))"
    have nx: "nextRange f = (Some (?r, int j, cnt), ?f)"
      using read j by (simp add: nextRange.simps [of f] Let_def cnt_def)
    have rest: "vf_rest f = drop j (reader_events ?r) @ ?ys"
      using read(1) j by (simp add: vf_rest_def cursor_rest_def vf_cursor_def)
    have "nat (int j + cnt) = j + n" using cnt(1) by simp
    then have rest': "vf_rest ?f = drop (j + n) (reader_events ?r) @ ?ys"
      using read(1) by (simp add: vf_rest_def cursor_rest_def vf_cursor_def)
    have "increasing (drop j (reader_events ?r) @ ?ys)"
      using ok(1) rest by (simp add: cursor_ok_def vf_rest_def)
    then have inc: "increasing (drop j (reader_events ?r))"
      by (simp add: increasing_append)
    have fl: "fill_loop ?r (vfVenueID f) (int j) n (int j) (-1) zeroKey [] = (sub (reader_events ?r) j n, None)"
      using fill_loop_sound [OF r inc, of j n zeroKey "-1" "[]"] cnt(3) by simp
    have dec: "bEvents (decode_range f (?r, int j, cnt)) = sub (reader_events ?r) j n"
      "bErr (decode_range f (?r, int j, cnt)) = None"
      using fl cnt(1) by (simp_all add: decode_range_def fill_def newSizedBatch_def)
    have "drop j (reader_events ?r) = sub (reader_events ?r) j n @ drop (j + n) (reader_events ?r)"
      using append_take_drop_id [of n "drop j (reader_events ?r)"] by (simp add: sub_def add.commute)
    moreover have "length (sub (reader_events ?r) j n) = n"
      using cnt(3) by (simp add: length_sub)
    ultimately show ?thesis
      using nx dec rest rest' cnt(1,2) by auto
  next
    case stop
    then show ?thesis by (simp add: nextRange.simps [of f] vf_rest_def cursor_rest_def vf_cursor_def)
  qed
qed

lemma vf_ok_skip:
  assumes "vf_ok f" "vf_rest f = evs @ vf_rest f'" "nextRange f = (rg, f')" "0 \<le> vfIndex f'"
  shows "vf_ok f'"
proof -
  have "increasing (evs @ vf_rest f')" "\<forall>ev \<in> set (evs @ vf_rest f'). last_before (vf_cursor f) (ev_key ev)"
    using assms(1,2) by (simp_all add: vf_ok_def cursor_ok_def vf_rest_def)
  then show ?thesis
    using assms(1,4) nextRange_keeps [OF assms(3)]
    unfolding vf_ok_def cursor_ok_def vf_rest_def
    by (simp add: increasing_append vf_cursor_def last_before_def)
qed

lemma vf_rest_last [simp]: "vf_rest (with_last l h f) = vf_rest f"
  by (simp add: vf_rest_def vf_cursor_def cursor_rest_def)

text \<open>The seam of the next events passes.\<close>

lemma finish_batch_sound:
  assumes f: "vf_ok f" "vf_rest f = evs @ vf_rest f'" "evs \<noteq> []" "nextRange f = (rg, f')" "0 \<le> vfIndex f'"
    and b: "bEvents b = evs" "bErr b = None"
  shows "\<exists>f''. finish_batch f' b = (b, f'') \<and> vf_ok f'' \<and> vf_rest f'' = vf_rest f'"
proof -
  have all: "increasing (evs @ vf_rest f')" "\<forall>ev \<in> set evs. last_before (vf_cursor f) (ev_key ev)"
    using f(1,2) by (simp_all add: vf_ok_def cursor_ok_def vf_rest_def)
  let ?f = "with_last (ev_key (last evs)) True f'"
  have "(if vfHasLast f' then checkOrder (vfLast f') (ev_key (hd evs)) else None) = None"
    using all(2) f(3) nextRange_keeps [OF f(4)] by (simp add: last_before_def vf_cursor_def)
  then have fin: "finish_batch f' b = (b, ?f)"
    using b f(3) by (cases "vfHasLast f'") (simp_all add: finish_batch_def checkSeam_def)
  have "\<forall>ev \<in> set (vf_rest f'). ev_key (last evs) < ev_key ev"
    using all(1) f(3) by (simp add: increasing_append)
  then have "vf_ok ?f"
    using vf_ok_skip [OF f(1,2,4,5)] vf_rest_last [where l = "ev_key (last evs)" and h = True and f = f']
    unfolding vf_ok_def cursor_ok_def vf_rest_def by (simp add: vf_cursor_def last_before_def)
  with fin show ?thesis by auto
qed

lemma batches_sound:
  "vf_ok f \<Longrightarrow> (\<forall>b \<in> set (batches n f). bErr b = None \<and> bEvents b \<noteq> [])
     \<and> (\<exists>evs. vf_rest f = concat (map bEvents (batches n f)) @ evs \<and> (evs = [] \<or> length (batches n f) = n))"
proof (induction n arbitrary: f)
  case (Suc n)
  show ?case
  proof (cases "nextRange f")
    case (Pair rg f1)
    show ?thesis
    proof (cases rg)
      case None
      then show ?thesis
        using nextRange_sound [OF Suc.prems] Pair by (simp add: batches_Suc)
    next
      case (Some rng)
      then obtain evs where e: "evs \<noteq> []" "vf_rest f = evs @ vf_rest f1" "bEvents (decode_range f rng) = evs"
          "bErr (decode_range f rng) = None" "0 \<le> vfIndex f1"
        using nextRange_sound [OF Suc.prems] Pair by auto
      obtain f2 where f2: "finish_batch f1 (decode_range f rng) = (decode_range f rng, f2)" "vf_ok f2"
          "vf_rest f2 = vf_rest f1"
        using finish_batch_sound [OF Suc.prems e(2,1) Pair e(5,3,4)] by blast
      from Suc.IH [OF f2(2)] e f2 show ?thesis
        by (auto simp: batches_Suc Pair Some)
    qed
  qed
qed simp

text \<open>Every batch holds an event, so as many batches as there are events are all of them.\<close>

lemma length_concat_nonempty: "\<forall>b \<in> set bs. g b \<noteq> [] \<Longrightarrow> length bs \<le> length (concat (map g bs))"
proof (induction bs)
  case (Cons b bs)
  then show ?case by (cases "g b") auto
qed simp

definition all_batches :: "venueFeed \<Rightarrow> batch list" where
  "all_batches f = batches (Suc (length (vf_rest f))) f"

lemma all_batches_sound:
  assumes "vf_ok f"
  shows "concat (map bEvents (all_batches f)) = vf_rest f"
    "\<forall>b \<in> set (all_batches f). bErr b = None \<and> bEvents b \<noteq> []"
proof -
  note s = batches_sound [OF assms, of "Suc (length (vf_rest f))", folded all_batches_def]
  then show "\<forall>b \<in> set (all_batches f). bErr b = None \<and> bEvents b \<noteq> []" by blast
  obtain evs where evs: "vf_rest f = concat (map bEvents (all_batches f)) @ evs"
      "evs = [] \<or> length (all_batches f) = Suc (length (vf_rest f))"
    using s by blast
  have "length (all_batches f) \<le> length (concat (map bEvents (all_batches f)))"
    using s by (intro length_concat_nonempty) blast
  also have "\<dots> \<le> length (vf_rest f)"
    by (subst evs(1)) simp
  finally show "concat (map bEvents (all_batches f)) = vf_rest f"
    using evs by auto
qed

lemma newVenueFeed_ok:
  assumes "cursor_ok c" "\<not> cHasLast c" "shape_valid shape"
  shows "vf_ok (newVenueFeed c shape)" "vf_rest (newVenueFeed c shape) = cursor_rest c"
proof -
  show r: "vf_rest (newVenueFeed c shape) = cursor_rest c"
    by (simp add: vf_rest_def vf_cursor_def newVenueFeed_def cursor_rest_def)
  show "vf_ok (newVenueFeed c shape)"
    using assms r unfolding vf_ok_def vf_rest_def cursor_ok_def
    by (simp add: newVenueFeed_def vf_cursor_def last_before_def)
qed

text \<open>C7: Decoding a sound partition by ranges gives the events the cursor gives: the batches carry
  no error, and their events one after the other are those the cursor would hand out, whatever the
  number of records per batch, also after a seek.\<close>

theorem batches_equal_cursor:
  assumes "cursor_ok c" "\<not> cHasLast c" "shape_valid shape"
  shows "concat (map bEvents (all_batches (newVenueFeed c shape))) = cursor_rest c
    \<and> (\<forall>b \<in> set (all_batches (newVenueFeed c shape)). bErr b = None)
    \<and> fst (pulls cursor_Next (length (cursor_rest c)) c) = cursor_rest c"
proof -
  note ok = newVenueFeed_ok [OF assms]
  have "fst (pulls cursor_Next (length (cursor_rest c)) c) = cursor_rest c"
    using cursor.pulls_all [OF assms(1), of "length (cursor_rest c)"] by auto
  then show ?thesis
    using all_batches_sound [OF ok(1)] ok(2) by simp
qed

theorem batches_equal_cursor_witness:
  "\<exists>c. NewCursor 3 [sample_reader 3] = Inr c \<and> shape_valid \<lparr>shRecords = 2, shBatches = 2\<rparr>
    \<and> concat (map bEvents (all_batches (newVenueFeed c \<lparr>shRecords = 2, shBatches = 2\<rparr>)))
      = image_events (sample_events 3)"
proof -
  obtain c where c: "NewCursor 3 [sample_reader 3] = Inr c" "cursor_ok c"
      "cursor_rest c = partition_events [sample_reader 3]" "\<not> cHasLast c"
    using NewCursor_ok [OF sample_partition] by blast
  have "shape_valid \<lparr>shRecords = 2, shBatches = 2\<rparr>" by (simp add: shape_valid_def)
  from batches_equal_cursor [OF c(2,4) this] this c(1,3) show ?thesis
    by (simp add: sample_partition_events)
qed

end
