(* ===== verification/Merge_Merger.thy ===== *)
theory Merge_Merger
  imports Merge_LoserTree Merge_Batch "HOL-Library.Multiset"
begin

text \<open>
  The merge itself, \<^verbatim>\<open>src/internal/merge/merge.go\<close>. A feed either decodes inline from a
  cursor or receives batches from its venue's goroutine; what such a channel carries, up to its
  closing, is a list of batches (the theory \<open>Merge_Feed\<close> proves that the goroutines deliver just
  this list). The merger is an \<open>event_source\<close> of the sorted union of its venues.

  A cursor is shared between \<^verbatim>\<open>Merger.cursors\<close> and its feed. Here the feed's copy has the
  position and the merger's copy the files to close, which is all that either uses.
\<close>

section \<open>Feeds\<close>

datatype feed_source = Inline Cursor | Channel "batch list"

record feed =
  fHeld :: "batch option"
  fPos :: nat
  fSource :: feed_source

text \<open>The end of \<^verbatim>\<open>refill\<close>, with a fresh batch \<open>b\<close> in hand.\<close>

definition refilled :: "feed \<Rightarrow> batch \<Rightarrow> (merge_error + Event option) \<times> feed" where
  "refilled f b =
     (let f = f\<lparr>fPos := 0\<rparr> in
      if bEvents b = [] then (Inr None, f)
      else (Inr (Some (bEvents b ! 0)), f\<lparr>fPos := 1\<rparr>))"

definition refill :: "feed \<Rightarrow> (merge_error + Event option) \<times> feed" where
  "refill f =
     (case fSource f of
        Inline c \<Rightarrow>
          (case fHeld f of
             None \<Rightarrow> (Inl (MErrStore Panic), f)
           | Some held \<Rightarrow>
               (case fillFromCursor held c of
                  (err, b, c) \<Rightarrow>
                    let f = f\<lparr>fHeld := Some b, fSource := Inline c\<rparr> in
                    (case err of Some e \<Rightarrow> (Inl e, f) | None \<Rightarrow> refilled f b)))
      | Channel bs \<Rightarrow>
          let f = f\<lparr>fHeld := None\<rparr> in
          (case bs of
             [] \<Rightarrow> (Inr None, f)
           | b # bs \<Rightarrow>
               let f = f\<lparr>fHeld := Some b, fSource := Channel bs\<rparr> in
               (case bErr b of Some e \<Rightarrow> (Inl e, f) | None \<Rightarrow> refilled f b)))"

definition feed_next :: "feed \<Rightarrow> (merge_error + Event option) \<times> feed" where
  "feed_next f =
     (case fHeld f of
        Some held \<Rightarrow>
          if fPos f < length (bEvents held)
          then (Inr (Some (bEvents held ! fPos f)), f\<lparr>fPos := fPos f + 1\<rparr>)
          else refill f
      | None \<Rightarrow> refill f)"

section \<open>The merger\<close>

record Merger =
  mCursors :: "Cursor list"
  mFeeds :: "feed list"
  mTree :: LoserTree
  mPending :: "Event list"
  mErr :: "merge_error option"
  mClosed :: bool

definition zeroEvent :: Event where
  "zeroEvent = \<lparr>evRecord = zeroRecord, evBlob = None\<rparr>"

text \<open>Every cursor is closed; the first error is returned.\<close>

primrec close_cursors :: "Cursor list \<Rightarrow> merge_error option \<times> Cursor list" where
  "close_cursors [] = (None, [])"
| "close_cursors (c # cs) =
     (let (cerr, c) = cursor_Close c; (err, cs) = close_cursors cs
      in (case cerr of Some e \<Rightarrow> Some e | None \<Rightarrow> err, c # cs))"

definition merger_Close :: "Merger \<Rightarrow> merge_error option \<times> Merger" where
  "merger_Close m =
     (if mClosed m then (None, m)
      else let (err, cs) = close_cursors (mCursors m)
           in (err, m\<lparr>mClosed := True, mCursors := cs\<rparr>))"

definition duplicate_venue :: "Cursor list \<Rightarrow> bool" where
  "duplicate_venue cursors =
     (let venues = sort (map cursor_VenueID cursors)
      in list_ex (\<lambda>i. venues ! i = venues ! (i - 1)) [1..<length venues])"

definition new_feed :: "int \<Rightarrow> batchShape \<Rightarrow> Cursor \<Rightarrow> feed" where
  "new_feed workers shape c =
     (if workers > 0
      then \<lparr>fHeld = None, fPos = 0, fSource = Channel (all_batches (newVenueFeed c shape))\<rparr>
      else \<lparr>fHeld = Some (newBatch (cursor_VenueID c)), fPos = 0, fSource = Inline c\<rparr>)"

text \<open>The seeding loop from cursor \<open>i\<close> on: the feeds after their first event, the pending
  events, and the tree with their keys.\<close>

primrec seed :: "nat \<Rightarrow> feed list \<Rightarrow> LoserTree \<Rightarrow> merge_error + (feed list \<times> Event list \<times> LoserTree)" where
  "seed i [] tree = Inr ([], [], tree)"
| "seed i (f # fs) tree =
     (case feed_next f of
        (Inl e, f) \<Rightarrow> Inl e
      | (Inr None, f) \<Rightarrow> bindE (seed (Suc i) fs tree) (\<lambda>(fs, ps, tree). Inr (f # fs, zeroEvent # ps, tree))
      | (Inr (Some ev), f) \<Rightarrow>
          (case SetKey tree (int i) (keyOf (evRecord ev)) of
             None \<Rightarrow> Inl (MErrStore Panic)
           | Some tree \<Rightarrow> bindE (seed (Suc i) fs tree) (\<lambda>(fs, ps, tree). Inr (f # fs, ev # ps, tree))))"

text \<open>On an error the result is the error and the cursors as it leaves them.\<close>

definition newMerger :: "Cursor list \<Rightarrow> int \<Rightarrow> batchShape \<Rightarrow> (merge_error \<times> Cursor list) + Merger" where
  "newMerger cursors workers shape =
     (if duplicate_venue cursors then Inl (MErrDuplicateVenue, cursors)
      else case NewLoserTree (int (length cursors)) of
          None \<Rightarrow> Inl (MErrStore Panic, cursors)
        | Some tree \<Rightarrow>
            (case seed 0 (map (new_feed workers shape) cursors) tree of
               Inl e \<Rightarrow> Inl (e, snd (close_cursors cursors))
             | Inr (feeds, pending, tree) \<Rightarrow>
                 Inr \<lparr>mCursors = cursors, mFeeds = feeds, mTree = Init tree, mPending = pending,
                      mErr = None, mClosed = False\<rparr>))"

definition NewMerger :: "Cursor list \<Rightarrow> (merge_error \<times> Cursor list) + Merger" where
  "NewMerger cursors = newMerger cursors 0 defaultBatchShape"

definition NewConcurrentMerger :: "Cursor list \<Rightarrow> int \<Rightarrow> (merge_error \<times> Cursor list) + Merger" where
  "NewConcurrentMerger cursors workers =
     (if workers < 1 then Inl (MErrWorkerCount, cursors) else newMerger cursors workers defaultBatchShape)"

definition newMergerShape :: "Cursor list \<Rightarrow> int \<Rightarrow> batchShape \<Rightarrow> (merge_error \<times> Cursor list) + Merger" where
  "newMergerShape cursors workers shape =
     (if workers < 1 then Inl (MErrWorkerCount, cursors)
      else if \<not> shape_valid shape then Inl (MErrBatchShape, cursors)
      else newMerger cursors workers shape)"

definition merger_Next :: "Merger \<Rightarrow> (merge_error + Event option) \<times> Merger" where
  "merger_Next m =
     (case mErr m of
        Some e \<Rightarrow> (Inl e, m)
      | None \<Rightarrow>
        (case Winner (mTree m) of
           (i, key) \<Rightarrow>
           if key = SentinelKey then (Inr None, m)
           else if i \<ge> length (mPending m) then (Inl (MErrStore Panic), m)
           else
             let ev = mPending m ! i in
             (case feed_next (mFeeds m ! i) of
                (Inl e, f) \<Rightarrow> (Inl e, m\<lparr>mFeeds := (mFeeds m)[i := f], mErr := Some e\<rparr>)
              | (Inr nx, f) \<Rightarrow>
                  let m = m\<lparr>mFeeds := (mFeeds m)[i := f]\<rparr>;
                      (m, nextKey) = (case nx of
                          None \<Rightarrow> (m, SentinelKey)
                        | Some ev' \<Rightarrow> (m\<lparr>mPending := (mPending m)[i := ev']\<rparr>, keyOf (evRecord ev')))
                  in (case Advance (mTree m) nextKey of
                        (Some e, t) \<Rightarrow> (Inl e, m\<lparr>mTree := t, mErr := Some e\<rparr>)
                      | (None, t) \<Rightarrow> (Inr (Some ev), m\<lparr>mTree := t\<rparr>)))))"

section \<open>Feeds as sources\<close>

definition feed_ok :: "feed \<Rightarrow> bool" where
  "feed_ok f \<longleftrightarrow>
     (case fSource f of
        Inline c \<Rightarrow> cursor_ok c \<and> (\<exists>b. fHeld f = Some b \<and> 0 < bCap b)
      | Channel bs \<Rightarrow> \<forall>b \<in> set bs. bErr b = None \<and> bEvents b \<noteq> [])"

definition held_rest :: "feed \<Rightarrow> Event list" where
  "held_rest f = (case fHeld f of None \<Rightarrow> [] | Some b \<Rightarrow> drop (fPos f) (bEvents b))"

definition source_rest :: "feed_source \<Rightarrow> Event list" where
  "source_rest s = (case s of Inline c \<Rightarrow> cursor_rest c | Channel bs \<Rightarrow> concat (map bEvents bs))"

definition feed_rest :: "feed \<Rightarrow> Event list" where
  "feed_rest f = held_rest f @ source_rest (fSource f)"

lemma refilled_eq:
  "fst (refilled f b) = Inr (case bEvents b of [] \<Rightarrow> None | ev # _ \<Rightarrow> Some ev)
   \<and> fHeld (snd (refilled f b)) = fHeld f \<and> fSource (snd (refilled f b)) = fSource f
   \<and> (fHeld f = Some b \<longrightarrow> held_rest (snd (refilled f b)) = tl (bEvents b))"
  by (cases "bEvents b") (auto simp: refilled_def held_rest_def)

lemma refill_ok:
  assumes ok: "feed_ok f" and h: "held_rest f = []"
  shows "fst (refill f) = Inr (case feed_rest f of [] \<Rightarrow> None | ev # _ \<Rightarrow> Some ev)
    \<and> feed_rest (snd (refill f)) = tl (feed_rest f) \<and> feed_ok (snd (refill f))"
proof (cases "fSource f")
  case (Inline c)
  then obtain b where b: "fHeld f = Some b" "0 < bCap b" and c: "cursor_ok c"
    using ok by (auto simp: feed_ok_def)
  obtain c' where c': "pulls cursor_Next (bCap b) c = (take (bCap b) (cursor_rest c), None, c')"
      "cursor_ok c'" "cursor_rest c' = drop (bCap b) (cursor_rest c)"
    using cursor.pulls_eq [OF c] by blast
  let ?b = "b\<lparr>bEvents := take (bCap b) (cursor_rest c)\<rparr>"
  let ?f = "f\<lparr>fHeld := Some ?b, fSource := Inline c'\<rparr>"
  have r: "refill f = refilled ?f ?b"
    using Inline b c' by (simp add: refill_def fillFromCursor_def)
  have rest: "feed_rest f = cursor_rest c"
    using Inline h by (simp add: feed_rest_def source_rest_def)
  have "tl (take (bCap b) (cursor_rest c)) @ drop (bCap b) (cursor_rest c) = tl (cursor_rest c)"
    using b(2) by (cases "bCap b"; cases "cursor_rest c") simp_all
  moreover have "(case take (bCap b) (cursor_rest c) of [] \<Rightarrow> None | ev # _ \<Rightarrow> Some ev)
      = (case cursor_rest c of [] \<Rightarrow> None | ev # _ \<Rightarrow> Some ev)"
    using b(2) by (cases "bCap b"; cases "cursor_rest c") simp_all
  ultimately show ?thesis
    using refilled_eq [of ?f ?b] c'(2,3) b(2) unfolding r rest
    by (simp add: feed_rest_def source_rest_def feed_ok_def)
next
  case (Channel bs)
  have rest: "feed_rest f = concat (map bEvents bs)"
    using Channel h by (simp add: feed_rest_def source_rest_def)
  show ?thesis
  proof (cases bs)
    case Nil
    then show ?thesis
      using Channel rest by (simp add: refill_def feed_rest_def held_rest_def source_rest_def feed_ok_def)
  next
    case (Cons b bs')
    let ?f = "f\<lparr>fHeld := Some b, fSource := Channel bs'\<rparr>"
    have b: "bErr b = None" "bEvents b \<noteq> []" "\<forall>b \<in> set bs'. bErr b = None \<and> bEvents b \<noteq> []"
      using ok Channel Cons by (simp_all add: feed_ok_def)
    have r: "refill f = refilled ?f b"
      using Channel Cons b(1) by (simp add: refill_def)
    show ?thesis
      using refilled_eq [of ?f b] b unfolding r rest Cons
      by (cases "bEvents b") (simp_all add: feed_rest_def source_rest_def feed_ok_def)
  qed
qed

lemma feed_next_ok:
  assumes ok: "feed_ok f"
  shows "fst (feed_next f) = Inr (case feed_rest f of [] \<Rightarrow> None | ev # _ \<Rightarrow> Some ev)
    \<and> feed_rest (snd (feed_next f)) = tl (feed_rest f) \<and> feed_ok (snd (feed_next f))"
proof (cases "held_rest f")
  case Nil
  then have "feed_next f = refill f"
    by (auto simp: feed_next_def held_rest_def split: option.splits)
  with refill_ok [OF ok Nil] show ?thesis by simp
next
  case (Cons ev evs)
  then obtain b where b: "fHeld f = Some b" "drop (fPos f) (bEvents b) = ev # evs"
    by (auto simp: held_rest_def split: option.splits)
  then have lt: "fPos f < length (bEvents b)"
    by (metis drop_all list.distinct(1) not_less)
  then have ev: "bEvents b ! fPos f = ev" "drop (Suc (fPos f)) (bEvents b) = evs"
    using b Cons_nth_drop_Suc [OF lt] by simp_all
  have "feed_next f = (Inr (Some ev), f\<lparr>fPos := Suc (fPos f)\<rparr>)"
    using b lt ev by (simp add: feed_next_def)
  moreover have "feed_rest (f\<lparr>fPos := Suc (fPos f)\<rparr>) = evs @ source_rest (fSource f)"
    using b ev by (simp add: feed_rest_def held_rest_def)
  moreover have "feed_ok (f\<lparr>fPos := Suc (fPos f)\<rparr>)"
    using ok by (cases "fSource f") (simp_all add: feed_ok_def)
  ultimately show ?thesis
    using Cons by (simp add: feed_rest_def)
qed

interpretation feed: event_source feed_ok feed_rest feed_next
proof
  show "fst (feed_next f) = Inr None \<and> feed_rest (snd (feed_next f)) = []"
    if "feed_ok f" "feed_rest f = []" for f
    using feed_next_ok [OF that(1)] that(2) by simp
  show "fst (feed_next f) = Inr (Some ev) \<and> feed_rest (snd (feed_next f)) = evs"
    if "feed_ok f" "feed_rest f = ev # evs" for f ev evs
    using feed_next_ok [OF that(1)] that(2) by simp
qed (simp add: feed_next_ok)

lemma new_feed_ok:
  assumes "cursor_ok c" "\<not> cHasLast c" "workers > 0 \<longrightarrow> shape_valid shape"
  shows "feed_ok (new_feed workers shape c)" "feed_rest (new_feed workers shape c) = cursor_rest c"
proof -
  show "feed_ok (new_feed workers shape c)"
    using assms all_batches_sound(2) [OF newVenueFeed_ok(1)]
    by (auto simp: new_feed_def feed_ok_def newBatch_def newSizedBatch_def batchRecords_def)
  show "feed_rest (new_feed workers shape c) = cursor_rest c"
    using assms all_batches_sound(1) [OF newVenueFeed_ok(1)] newVenueFeed_ok(2)
    by (simp add: new_feed_def feed_rest_def held_rest_def source_rest_def newBatch_def newSizedBatch_def)
qed

section \<open>What a merger can hand out\<close>

text \<open>The tree agrees with the pending events, whatever the feeds do.\<close>

definition tree_agrees :: "Merger \<Rightarrow> bool" where
  "tree_agrees m \<longleftrightarrow> lt_wf (mTree m) \<and> length (mFeeds m) = length (mPending m)
     \<and> length (mPending m) \<le> length (ltKeys (mTree m))
     \<and> (\<forall>i < length (ltKeys (mTree m)). ltKeys (mTree m) ! i = SentinelKey
          \<or> i < length (mPending m) \<and> ltKeys (mTree m) ! i = ev_key (mPending m ! i))"

definition winner_key :: "Merger \<Rightarrow> Key" where
  "winner_key m = snd (Winner (mTree m))"

lemma tree_agrees_winner:
  assumes "tree_agrees m" "winner_key m \<noteq> SentinelKey"
  shows "fst (Winner (mTree m)) < length (mPending m)"
    "winner_key m = ev_key (mPending m ! fst (Winner (mTree m)))"
    "winner_key m = ltKeys (mTree m) ! fst (Winner (mTree m))"
  using assms lt.winner_leaf [of "mTree m"] by (auto simp: tree_agrees_def winner_key_def)

text \<open>One step of the merge that found a winner: the feed's answer, then the tree's.\<close>

definition pending_key :: "Event option \<Rightarrow> Key" where
  "pending_key nx = (case nx of None \<Rightarrow> SentinelKey | Some ev \<Rightarrow> ev_key ev)"

definition advanced :: "Merger \<Rightarrow> feed \<Rightarrow> Event option \<Rightarrow> Merger" where
  "advanced m f nx =
     (let i = fst (Winner (mTree m)) in
      m\<lparr>mFeeds := (mFeeds m)[i := f],
        mPending := (case nx of None \<Rightarrow> mPending m | Some ev \<Rightarrow> (mPending m)[i := ev]),
        mTree := snd (Advance (mTree m) (pending_key nx))\<rparr>)"

lemma merger_Next_eq:
  assumes "mErr m = None" "winner_key m \<noteq> SentinelKey" "fst (Winner (mTree m)) < length (mPending m)"
    and "feed_next (mFeeds m ! fst (Winner (mTree m))) = (Inr nx, f)"
  shows "merger_Next m =
    (case fst (Advance (mTree m) (pending_key nx)) of
       None \<Rightarrow> (Inr (Some (mPending m ! fst (Winner (mTree m)))), advanced m f nx)
     | Some e \<Rightarrow> (Inl e, (advanced m f nx)\<lparr>mErr := Some e\<rparr>))"
proof (cases "Winner (mTree m)")
  case (Pair i key)
  obtain r t where a: "Advance (mTree m) (pending_key nx) = (r, t)" by fastforce
  show ?thesis
    using assms Pair a
    by (cases nx; cases r) (simp_all add: merger_Next_def winner_key_def advanced_def pending_key_def Let_def)
qed

lemma advanced_agrees:
  assumes m: "tree_agrees m" "winner_key m \<noteq> SentinelKey"
  shows "tree_agrees (advanced m f nx)"
proof -
  let ?i = "fst (Winner (mTree m))"
  have wf: "lt_wf (mTree m)" using m(1) by (simp add: tree_agrees_def)
  note i = tree_agrees_winner(1) [OF m]
  show ?thesis
    using m(1) i lt.advance_wf [OF wf] lt.advance_keys [OF wf, of "pending_key nx"]
    by (cases nx) (auto simp: tree_agrees_def advanced_def pending_key_def Let_def nth_list_update)
qed

lemma merger_Next_cases:
  assumes m: "tree_agrees m" and e: "merger_Next m = (Inr (Some ev), m')"
  shows "tree_agrees m' \<and> ev_key ev = winner_key m \<and> winner_key m \<noteq> SentinelKey
    \<and> (winner_key m' = SentinelKey \<or> ev_key ev < winner_key m')"
proof -
  have err: "mErr m = None" using e by (cases "mErr m") (simp_all add: merger_Next_def)
  have w: "winner_key m \<noteq> SentinelKey"
    using e err by (auto simp: merger_Next_def winner_key_def split: prod.splits)
  note i = tree_agrees_winner [OF m w]
  obtain nx f where nx: "feed_next (mFeeds m ! fst (Winner (mTree m))) = (Inr nx, f)"
    using e err w i(1) by (auto simp: merger_Next_def winner_key_def Let_def split: prod.splits sum.splits)
  have ok: "fst (Advance (mTree m) (pending_key nx)) = None" and
    r: "ev = mPending m ! fst (Winner (mTree m))" "m' = advanced m f nx"
    using e merger_Next_eq [OF err w i(1) nx] by (auto split: option.splits)
  have "winner_key m' = snd (Winner (snd (Advance (mTree m) (pending_key nx))))"
    by (simp add: r(2) advanced_def winner_key_def Let_def)
  then have "winner_key m' = SentinelKey \<or> winner_key m < winner_key m'"
    using lt.advance_mono [OF _ ok] m by (auto simp: winner_key_def tree_agrees_def)
  then show ?thesis
    using advanced_agrees [OF m w] i(2) r w by simp
qed

lemma pulls_merger_increasing:
  "tree_agrees m \<Longrightarrow> pulls merger_Next n m = (evs, e, m') \<Longrightarrow>
   increasing evs \<and> (\<forall>ev \<in> set evs. winner_key m \<le> ev_key ev \<and> ev_key ev < SentinelKey)"
proof (induction n arbitrary: m evs)
  case (Suc n)
  show ?case
  proof (cases "\<exists>ev m1. merger_Next m = (Inr (Some ev), m1)")
    case True
    then obtain ev m1 where m1: "merger_Next m = (Inr (Some ev), m1)" by blast
    obtain evs1 where evs1: "pulls merger_Next n m1 = (evs1, e, m')" "evs = ev # evs1"
      using Suc.prems m1 by (auto split: prod.splits)
    note c = merger_Next_cases [OF Suc.prems(1) m1]
    then have IH: "increasing evs1 \<and> (\<forall>x \<in> set evs1. winner_key m1 \<le> ev_key x \<and> ev_key x < SentinelKey)"
      using Suc.IH [OF _ evs1(1)] by blast
    have lt: "ev_key ev < ev_key x" if "x \<in> set evs1" for x
      using IH c that less_le_trans leD by metis
    then show ?thesis
      using IH c by (auto simp: evs1(2) increasing_Cons less_imp_le neq_SentinelKey)
  next
    case False
    then have "evs = []"
      using Suc.prems by (auto split: prod.splits sum.splits option.splits)
    then show ?thesis by simp
  qed
qed simp

section \<open>Seeding\<close>

definition first_event :: "feed \<Rightarrow> Event option" where
  "first_event f = projr (fst (feed_next f))"

definition seeds :: "feed \<Rightarrow> bool" where
  "seeds f \<longleftrightarrow> (\<exists>nx. fst (feed_next f) = Inr nx)"

lemma seed_eq:
  assumes "i + length fs \<le> ltK tree" "ltK tree \<le> length (ltKeys tree)" "\<forall>f \<in> set fs. seeds f"
    "\<forall>j < length fs. ltKeys tree ! (i + j) = SentinelKey"
  shows "seed i fs tree = Inr (map (snd \<circ> feed_next) fs,
    map (\<lambda>f. case first_event f of None \<Rightarrow> zeroEvent | Some ev \<Rightarrow> ev) fs,
    tree\<lparr>ltKeys := put (ltKeys tree) i (map (pending_key \<circ> first_event) fs)\<rparr>)"
  using assms
proof (induction fs arbitrary: i tree)
  case Nil
  then show ?case by (simp add: put_def)
next
  case (Cons f fs)
  obtain nx f' where n: "feed_next f = (Inr nx, f')"
    using Cons.prems(3) by (cases "feed_next f") (auto simp: seeds_def)
  have fe: "first_event f = nx" by (simp add: first_event_def n)
  define t1 where "t1 = (case nx of None \<Rightarrow> tree | Some ev \<Rightarrow> tree\<lparr>ltKeys := (ltKeys tree)[i := ev_key ev]\<rparr>)"
  have k1: "ltKeys t1 = (ltKeys tree)[i := pending_key nx]"
    using spec [OF Cons.prems(4), of 0] list_update_id [of "ltKeys tree" i]
    by (cases nx) (simp_all add: t1_def pending_key_def)
  have t1: "t1 = tree\<lparr>ltKeys := (ltKeys tree)[i := pending_key nx]\<rparr>"
    unfolding k1 [symmetric] by (cases nx) (simp_all add: t1_def)
  have sent: "ltKeys t1 ! (Suc i + j) = SentinelKey" if "j < length fs" for j
    using spec [OF Cons.prems(4), of "Suc j"] that by (simp add: k1)
  have "seed (Suc i) fs t1 = Inr (map (snd \<circ> feed_next) fs,
      map (\<lambda>f. case first_event f of None \<Rightarrow> zeroEvent | Some ev \<Rightarrow> ev) fs,
      t1\<lparr>ltKeys := put (ltKeys t1) (Suc i) (map (pending_key \<circ> first_event) fs)\<rparr>)"
    using Cons.prems sent by (intro Cons.IH) (simp_all add: t1)
  moreover have "put (ltKeys t1) (Suc i) (map (pending_key \<circ> first_event) fs)
      = put (ltKeys tree) i (map (pending_key \<circ> first_event) (f # fs))"
    using Cons.prems(1,2) by (simp add: k1 fe put_def take_Suc_conv_app_nth)
  ultimately show ?case
    using n Cons.prems(1) by (cases nx) (simp_all add: SetKey_def fe t1_def comp_def)
qed

lemma seed_fails: "\<exists>f \<in> set fs. \<not> seeds f \<Longrightarrow> \<exists>e. seed i fs tree = Inl e"
proof (induction fs arbitrary: i tree)
  case (Cons f fs)
  show ?case
  proof (cases "fst (feed_next f)")
    case (Inl e)
    then show ?thesis by (cases "feed_next f") simp
  next
    case (Inr nx)
    then have "\<exists>e. seed j fs t = Inl e" for j t
      using Cons by (auto simp: seeds_def)
    then obtain err where err: "\<And>j t. seed j fs t = Inl (err j t)" by metis
    show ?thesis
      using Inr err by (cases "feed_next f"; cases nx) (auto split: option.split)
  qed
qed simp

text \<open>A merger as \<^verbatim>\<open>newMerger\<close> makes it, when every feed has a first answer.\<close>

lemma newMerger_Inr:
  assumes "\<not> duplicate_venue cs" "\<forall>c \<in> set cs. seeds (new_feed workers shape c)"
  shows "\<exists>m. newMerger cs workers shape = Inr m \<and> lt_wf (mTree m) \<and> mErr m = None \<and> \<not> mClosed m \<and> mCursors m = cs
    \<and> mFeeds m = map (snd \<circ> feed_next \<circ> new_feed workers shape) cs
    \<and> mPending m = map (\<lambda>c. case first_event (new_feed workers shape c) of None \<Rightarrow> zeroEvent | Some ev \<Rightarrow> ev) cs
    \<and> ltKeys (mTree m) = map (pending_key \<circ> first_event \<circ> new_feed workers shape) cs
        @ replicate (grow 1 (length cs) - length cs) SentinelKey"
proof -
  let ?m = "grow 1 (length cs)" and ?fs = "map (new_feed workers shape) cs"
  let ?t = "\<lparr>ltKeys = replicate ?m SentinelKey, ltTree = replicate ?m 0, ltK = length cs\<rparr>"
  have m: "1 \<le> ?m" "length cs \<le> ?m"
    using grow_ge [of 1 "length cs"] by simp_all
  have s: "seed 0 ?fs ?t = Inr (map (snd \<circ> feed_next) ?fs,
      map (\<lambda>f. case first_event f of None \<Rightarrow> zeroEvent | Some ev \<Rightarrow> ev) ?fs,
      ?t\<lparr>ltKeys := put (ltKeys ?t) 0 (map (pending_key \<circ> first_event) ?fs)\<rparr>)"
    using assms(2) m(2) by (intro seed_eq) auto
  let ?ks = "map (pending_key \<circ> first_event) ?fs"
  let ?t1 = "?t\<lparr>ltKeys := put (ltKeys ?t) 0 ?ks\<rparr>"
  have k: "ltKeys ?t1 = ?ks @ replicate (?m - length cs) SentinelKey"
    by (simp add: put_at_start)
  have "lt_wf (Init ?t1) \<and> ltKeys (Init ?t1) = ltKeys ?t1 \<and> ltK (Init ?t1) = ltK ?t1"
    using m by (intro Init_wf) (simp_all add: length_put)
  moreover have "newMerger cs workers shape = Inr \<lparr>mCursors = cs, mFeeds = map (snd \<circ> feed_next) ?fs,
      mTree = Init ?t1, mPending = map (\<lambda>f. case first_event f of None \<Rightarrow> zeroEvent | Some ev \<Rightarrow> ev) ?fs,
      mErr = None, mClosed = False\<rparr>"
    using assms(1) s by (simp add: newMerger_def NewLoserTree_def Let_def)
  ultimately show ?thesis
    using k by (simp add: comp_def)
qed

lemma newMerger_InrD:
  assumes "newMerger cs workers shape = Inr m"
  shows "\<not> duplicate_venue cs" "\<forall>c \<in> set cs. seeds (new_feed workers shape c)"
proof -
  show "\<not> duplicate_venue cs"
    using assms by (auto simp: newMerger_def)
  show "\<forall>c \<in> set cs. seeds (new_feed workers shape c)"
  proof (rule ccontr)
    assume "\<not> (\<forall>c \<in> set cs. seeds (new_feed workers shape c))"
    then have "\<exists>f \<in> set (map (new_feed workers shape) cs). \<not> seeds f" by auto
    from seed_fails [OF this] have "\<exists>e. seed 0 (map (new_feed workers shape) cs) t = Inl e" for t .
    then show False
      using assms by (auto simp: newMerger_def split: if_splits option.splits sum.splits prod.splits)
        (metis Inl_Inr_False)
  qed
qed

lemma newMerger_agrees:
  assumes "newMerger cs workers shape = Inr m"
  shows "tree_agrees m"
proof -
  obtain m' where m': "newMerger cs workers shape = Inr m'" "lt_wf (mTree m')"
    "mFeeds m' = map (snd \<circ> feed_next \<circ> new_feed workers shape) cs"
    "mPending m' = map (\<lambda>c. case first_event (new_feed workers shape c) of None \<Rightarrow> zeroEvent | Some ev \<Rightarrow> ev) cs"
    "ltKeys (mTree m') = map (pending_key \<circ> first_event \<circ> new_feed workers shape) cs
        @ replicate (grow 1 (length cs) - length cs) SentinelKey"
    using newMerger_Inr [OF newMerger_InrD [OF assms]] by blast
  have "m' = m" using m'(1) assms by simp
  then show ?thesis
    using m' by (auto simp: tree_agrees_def nth_append pending_key_def split: option.split)
qed

text \<open>C8: Whatever the files hold and however they are decoded, the events a merger hands out before it
  ends or fails have strictly increasing keys: no input makes it emit a duplicate or a record out of
  order.\<close>

theorem merger_increasing:
  assumes "newMerger cs workers shape = Inr m" and "pulls merger_Next n m = (evs, e, m')"
  shows "increasing evs"
  using pulls_merger_increasing [OF newMerger_agrees [OF assms(1)] assms(2)] by blast

section \<open>The sorted union\<close>

definition live :: "Event \<Rightarrow> bool" where
  "live ev \<longleftrightarrow> ev_key ev \<noteq> SentinelKey"

text \<open>What venue \<open>i\<close> has still to contribute, its pending event first.\<close>

definition lane :: "Merger \<Rightarrow> nat \<Rightarrow> Event list" where
  "lane m i = (if ltKeys (mTree m) ! i = SentinelKey then []
     else mPending m ! i # filter live (feed_rest (mFeeds m ! i)))"

definition lanes :: "Merger \<Rightarrow> Event list" where
  "lanes m = concat (map (lane m) [0..<length (mPending m)])"

definition merger_rest :: "Merger \<Rightarrow> Event list" where
  "merger_rest m = sort_key ev_key (lanes m)"

definition merger_ok :: "Merger \<Rightarrow> bool" where
  "merger_ok m \<longleftrightarrow> mErr m = None \<and> tree_agrees m \<and> (\<forall>f \<in> set (mFeeds m). feed_ok f)
     \<and> (\<forall>i < length (mPending m). ltKeys (mTree m) ! i \<noteq> SentinelKey \<longrightarrow>
          increasing (mPending m ! i # feed_rest (mFeeds m ! i)))
     \<and> (\<forall>i < length (mPending m). \<forall>j < length (mPending m). i \<noteq> j \<longrightarrow>
          (\<forall>x \<in> set (lane m i). \<forall>y \<in> set (lane m j). ev_key x \<noteq> ev_key y))"

lemma increasing_filter: "increasing evs \<Longrightarrow> increasing (filter P evs)"
  by (induction evs) (auto simp: increasing_Cons)

lemma increasing_inj: "increasing evs \<Longrightarrow> inj_on ev_key (set evs)"
  by (induction evs) (auto simp: increasing_Cons)

lemma sort_key_increasing:
  "mset xs = mset ys \<Longrightarrow> increasing ys \<Longrightarrow> sort_key ev_key xs = ys"
  using increasing_inj [of ys] mset_eq_setD [of xs ys]
  by (intro sort_key_inj_key_eq) (auto simp: increasing_def intro: sorted_wrt_mono_rel [rotated])

lemma sort_key_least:
  assumes "mset xs = add_mset p (mset ys)" "\<forall>y \<in> set ys. ev_key p < ev_key y" "inj_on ev_key (set ys)"
  shows "sort_key ev_key xs = p # sort_key ev_key ys"
proof (rule sort_key_inj_key_eq)
  have "set xs = insert p (set ys)"
    using assms(1) by (metis set_mset_add_mset_insert set_mset_mset)
  then show "inj_on ev_key (set xs)"
    using assms(2,3) by (auto simp: inj_on_insert)
  show "sorted (map ev_key (p # sort_key ev_key ys))"
    using assms(2) by (simp add: less_imp_le)
qed (use assms(1) in simp)

lemma merger_ok_inj:
  assumes "merger_ok m"
  shows "inj_on ev_key (set (lanes m))"
proof (rule inj_onI)
  fix x y assume "x \<in> set (lanes m)" "y \<in> set (lanes m)" and k: "ev_key x = ev_key y"
  then obtain i j where ij: "i < length (mPending m)" "x \<in> set (lane m i)" "j < length (mPending m)" "y \<in> set (lane m j)"
    by (auto simp: lanes_def)
  have "i = j"
    using assms ij k unfolding merger_ok_def by metis
  moreover have "increasing (lane m i)"
    using assms ij(1,2) increasing_filter [of "mPending m ! i # feed_rest (mFeeds m ! i)" "\<lambda>ev. ev = mPending m ! i \<or> live ev"]
    by (auto simp: merger_ok_def lane_def increasing_Cons intro: increasing_filter split: if_splits)
  ultimately show "x = y"
    using ij k increasing_inj [of "lane m i"] by (auto simp: inj_on_def)
qed

text \<open>The step at a winner: its lane loses its first event, the others stay.\<close>

lemma lanes_advanced:
  assumes m: "merger_ok m" and w: "winner_key m \<noteq> SentinelKey"
    and i: "i = fst (Winner (mTree m))" and n: "feed_next (mFeeds m ! i) = (Inr nx, f)"
  shows "\<exists>rest. lane m i = mPending m ! i # rest
    \<and> (\<forall>j < length (mPending m). lane (advanced m f nx) j = (if j = i then rest else lane m j))
    \<and> (ltKeys (mTree (advanced m f nx)) ! i \<noteq> SentinelKey \<longrightarrow>
         increasing (mPending (advanced m f nx) ! i # feed_rest (mFeeds (advanced m f nx) ! i)))
    \<and> feed_ok f"
proof -
  let ?a = "advanced m f nx" and ?p = "mPending m ! i" and ?g = "mFeeds m ! i"
  have ag: "tree_agrees m" and wf: "lt_wf (mTree m)"
    using m by (simp_all add: merger_ok_def tree_agrees_def)
  note wi = tree_agrees_winner [OF ag w, folded i]
  have len: "i < length (mFeeds m)" "i < length (ltKeys (mTree m))" "length (mFeeds m) = length (mPending m)"
    using ag wi(1) by (auto simp: tree_agrees_def)
  have keys: "ltKeys (mTree ?a) = (ltKeys (mTree m))[i := pending_key nx]"
    using lt.advance_keys [OF wf] by (simp add: advanced_def Let_def i)
  have pend: "mPending ?a = (case nx of None \<Rightarrow> mPending m | Some ev \<Rightarrow> (mPending m)[i := ev])"
    and feeds: "mFeeds ?a = (mFeeds m)[i := f]"
    by (simp_all add: advanced_def Let_def i split: option.split)
  have g: "feed_ok ?g" using m len(1) by (simp add: merger_ok_def)
  have nx: "nx = (case feed_rest ?g of [] \<Rightarrow> None | ev # _ \<Rightarrow> Some ev)" and f: "feed_rest f = tl (feed_rest ?g)" "feed_ok f"
    using feed_next_ok [OF g] n by simp_all
  have live_w: "ltKeys (mTree m) ! i \<noteq> SentinelKey" using wi w by simp
  have inc: "increasing (?p # feed_rest ?g)" using m wi(1) live_w by (simp add: merger_ok_def)
  let ?rest = "filter live (feed_rest ?g)"
  have "lane ?a i = ?rest"
  proof (cases "feed_rest ?g")
    case Nil
    then show ?thesis
      unfolding lane_def keys using nx len by (simp add: pending_key_def)
  next
    case (Cons ev evs)
    have "filter live evs = []" if "ev_key ev = SentinelKey"
      using inc Cons that le_SentinelKey by (auto simp: increasing_Cons filter_empty_conv not_less [symmetric])
    then show ?thesis
      unfolding lane_def keys pend feeds using nx Cons len f by (auto simp: pending_key_def live_def)
  qed
  moreover have "lane ?a j = lane m j" if "j \<noteq> i" for j
    using that by (simp add: lane_def keys pend feeds split: option.split)
  moreover have "lane m i = ?p # ?rest"
    using live_w by (simp add: lane_def)
  moreover have "increasing (mPending ?a ! i # feed_rest (mFeeds ?a ! i))" if "ltKeys (mTree ?a) ! i \<noteq> SentinelKey"
    using that inc nx f len wi(1) unfolding keys pend feeds
    by (cases "feed_rest ?g") (simp_all add: pending_key_def increasing_Cons)
  ultimately show ?thesis
    using f(2) by auto
qed

lemma lanes_least:
  assumes m: "merger_ok m" and x: "x \<in> set (lanes m)"
  shows "winner_key m \<le> ev_key x"
proof -
  have ag: "tree_agrees m" and wf: "lt_wf (mTree m)"
    using m by (simp_all add: merger_ok_def tree_agrees_def)
  obtain j where j: "j < length (mPending m)" "x \<in> set (lane m j)"
    using x by (auto simp: lanes_def)
  then have live_j: "ltKeys (mTree m) ! j \<noteq> SentinelKey"
    by (auto simp: lane_def split: if_splits)
  have "winner_key m \<le> ltKeys (mTree m) ! j"
    using lt.winner_least [OF wf, of j] j(1) ag by (simp add: winner_key_def tree_agrees_def)
  also have "\<dots> = ev_key (mPending m ! j)"
    using ag live_j j(1) unfolding tree_agrees_def by (meson less_le_trans)
  also have "\<dots> \<le> ev_key x"
    using m j live_j by (auto simp: merger_ok_def lane_def increasing_Cons less_imp_le)
  finally show ?thesis .
qed

lemma mset_concat_swap:
  assumes "i < n" "g i = p # g' i" "\<forall>j < n. j \<noteq> i \<longrightarrow> g' j = g j"
  shows "mset (concat (map g [0..<n])) = add_mset p (mset (concat (map g' [0..<n])))"
proof -
  have s: "mset (concat (map h [0..<n])) = mset (h i) + (\<Sum>j \<in> {0..<n} - {i}. mset (h j))" for h
    using assms(1) by (simp add: mset_concat sum_mset_sum_list [symmetric] sum_unfold_sum_mset [symmetric]
        sum.remove flip: sum_list_distinct_conv_sum_set)
  have "(\<Sum>j \<in> {0..<n} - {i}. mset (g j)) = (\<Sum>j \<in> {0..<n} - {i}. mset (g' j))"
    using assms(3) by (intro sum.cong) auto
  then show ?thesis
    using assms(2) s [of g] s [of g'] by simp
qed

lemma merger_step:
  assumes m: "merger_ok m" and w: "winner_key m \<noteq> SentinelKey"
  shows "\<exists>p m'. merger_Next m = (Inr (Some p), m') \<and> merger_ok m' \<and> merger_rest m = p # merger_rest m'"
proof -
  let ?i = "fst (Winner (mTree m))" and ?n = "length (mPending m)"
  have ag: "tree_agrees m" and err: "mErr m = None" and wf: "lt_wf (mTree m)"
    using m by (simp_all add: merger_ok_def tree_agrees_def)
  note wi = tree_agrees_winner [OF ag w]
  have "feed_ok (mFeeds m ! ?i)" using m wi(1) ag by (simp add: merger_ok_def tree_agrees_def)
  then obtain nx f where n: "feed_next (mFeeds m ! ?i) = (Inr nx, f)"
    using feed.nxt_eq by (cases "feed_next (mFeeds m ! ?i)") fastforce
  let ?a = "advanced m f nx" and ?p = "mPending m ! ?i"
  obtain rest where r: "lane m ?i = ?p # rest"
      "\<forall>j < ?n. lane ?a j = (if j = ?i then rest else lane m j)"
      "ltKeys (mTree ?a) ! ?i \<noteq> SentinelKey \<longrightarrow> increasing (mPending ?a ! ?i # feed_rest (mFeeds ?a ! ?i))"
      "feed_ok f"
    using lanes_advanced [OF m w refl n] by blast
  have len: "length (mPending ?a) = ?n" "length (mFeeds m) = ?n" and ag': "tree_agrees ?a"
    using advanced_agrees [OF ag w, of f nx] ag by (auto simp: advanced_def Let_def tree_agrees_def split: option.split)
  have swap: "mset (lanes m) = add_mset ?p (mset (lanes ?a))"
    unfolding lanes_def len by (rule mset_concat_swap [OF wi(1)]) (use r wi(1) in auto)
  then have sub: "set (lanes m) = insert ?p (set (lanes ?a))"
    by (metis set_mset_add_mset_insert set_mset_mset)
  have pk: "ev_key ?p = winner_key m" using wi by simp
  have distinct_keys: "ev_key x \<noteq> ev_key y"
    if "j < ?n" "k < ?n" "j \<noteq> k" "x \<in> set (lane ?a j)" "y \<in> set (lane ?a k)" for j k x y
  proof -
    have "x \<in> set (lane m j)" "y \<in> set (lane m k)"
      using that r by (auto split: if_splits)
    then show ?thesis using m that(1-3) unfolding merger_ok_def by blast
  qed
  have inc_p: "increasing (lane m ?i)"
  proof -
    have "increasing (?p # feed_rest (mFeeds m ! ?i))" using m wi w by (simp add: merger_ok_def)
    then show ?thesis
      by (auto simp: lane_def increasing_Cons intro: increasing_filter)
  qed
  have above: "ev_key ?p < ev_key y" if y: "y \<in> set (lanes ?a)" for y
  proof -
    obtain j where j: "j < ?n" "y \<in> set (lane ?a j)" using y by (auto simp: lanes_def len)
    have "ev_key ?p \<noteq> ev_key y"
    proof (cases "j = ?i")
      case True
      then show ?thesis using j r inc_p by (auto simp: increasing_Cons)
    next
      case False
      then have "y \<in> set (lane m j)" "?p \<in> set (lane m ?i)" using j r by auto
      then show ?thesis using m wi(1) j(1) False unfolding merger_ok_def by metis
    qed
    moreover have "ev_key ?p \<le> ev_key y"
      using lanes_least [OF m, of y] sub y pk by simp
    ultimately show ?thesis by simp
  qed
  have ok: "merger_ok ?a"
    unfolding merger_ok_def
  proof (intro conjI)
    show "mErr ?a = None" using err by (simp add: advanced_def Let_def)
    show "tree_agrees ?a" by (rule ag')
    show "\<forall>f \<in> set (mFeeds ?a). feed_ok f"
      using m r(4) set_update_subset_insert [of "mFeeds m" ?i f]
      by (auto simp: advanced_def Let_def merger_ok_def)
    show "\<forall>j < length (mPending ?a). ltKeys (mTree ?a) ! j \<noteq> SentinelKey \<longrightarrow>
        increasing (mPending ?a ! j # feed_rest (mFeeds ?a ! j))"
    proof (intro allI impI)
      fix j assume j: "j < length (mPending ?a)" "ltKeys (mTree ?a) ! j \<noteq> SentinelKey"
      show "increasing (mPending ?a ! j # feed_rest (mFeeds ?a ! j))"
      proof (cases "j = ?i")
        case False
        then show ?thesis
          using m j lt.advance_keys [OF wf, of "pending_key nx"] len
          by (auto simp: merger_ok_def advanced_def Let_def split: option.splits)
      qed (use r(3) j(2) in simp)
    qed
    show "\<forall>j < length (mPending ?a). \<forall>k < length (mPending ?a). j \<noteq> k \<longrightarrow>
        (\<forall>x \<in> set (lane ?a j). \<forall>y \<in> set (lane ?a k). ev_key x \<noteq> ev_key y)"
      using distinct_keys unfolding len by blast
  qed
  have "winner_key m < ltKeys (mTree ?a) ! j" if "j < length (ltKeys (mTree m))" for j
  proof (cases "ltKeys (mTree ?a) ! j = SentinelKey")
    case True
    then show ?thesis using w by (simp add: neq_SentinelKey)
  next
    case False
    then have jn: "j < ?n" "ltKeys (mTree ?a) ! j = ev_key (mPending ?a ! j)"
      using ag' len that lt.advance_keys [OF wf, of "pending_key nx"]
      by (auto simp: tree_agrees_def advanced_def Let_def)
    then have "mPending ?a ! j \<in> set (lane ?a j)" using False by (simp add: lane_def)
    then have "mPending ?a ! j \<in> set (lanes ?a)" using jn(1) len by (auto simp: lanes_def)
    then show ?thesis using above jn pk by simp
  qed
  then have "fst (Advance (mTree m) (pending_key nx)) = None"
    using lt.advance_accepts_iff [OF wf] lt.advance_keys [OF wf, of "pending_key nx"]
    by (simp add: winner_key_def advanced_def Let_def)
  then have step: "merger_Next m = (Inr (Some ?p), ?a)"
    using merger_Next_eq [OF err w wi(1) n] by simp
  have "merger_rest m = ?p # merger_rest ?a"
    unfolding merger_rest_def using swap above merger_ok_inj [OF ok] by (intro sort_key_least) simp_all
  with step ok show ?thesis by blast
qed

lemma merger_end:
  assumes m: "merger_ok m" and w: "winner_key m = SentinelKey"
  shows "merger_Next m = (Inr None, m) \<and> merger_rest m = []"
proof -
  have wf: "lt_wf (mTree m)" and len: "length (mPending m) \<le> length (ltKeys (mTree m))" and err: "mErr m = None"
    using m by (simp_all add: merger_ok_def tree_agrees_def)
  have "ltKeys (mTree m) ! j = SentinelKey" if "j < length (mPending m)" for j
    using lt.winner_Sentinel_iff [OF wf] w that len by (simp add: winner_key_def)
  then have "lanes m = []" by (simp add: lanes_def lane_def)
  moreover have "merger_Next m = (Inr None, m)"
    using w err by (cases "Winner (mTree m)") (simp add: merger_Next_def winner_key_def)
  ultimately show ?thesis by (simp add: merger_rest_def)
qed

interpretation merger: event_source merger_ok merger_rest merger_Next
proof
  fix m assume m: "merger_ok m"
  have "\<exists>p m'. merger_Next m = (Inr (Some p), m') \<and> merger_ok m' \<and> merger_rest m = p # merger_rest m'
      \<or> merger_Next m = (Inr None, m) \<and> merger_rest m = []"
    using merger_step [OF m] merger_end [OF m] by metis
  then show "merger_rest m = [] \<Longrightarrow> fst (merger_Next m) = Inr None \<and> merger_rest (snd (merger_Next m)) = []"
    "\<And>ev evs. merger_rest m = ev # evs \<Longrightarrow>
       fst (merger_Next m) = Inr (Some ev) \<and> merger_rest (snd (merger_Next m)) = evs"
    "merger_ok (snd (merger_Next m))"
    using m by auto
qed

section \<open>A fresh merger\<close>

definition sound_cursors :: "Cursor list \<Rightarrow> bool" where
  "sound_cursors cs \<longleftrightarrow> (\<forall>c \<in> set cs. cursor_ok c \<and> \<not> cHasLast c) \<and> distinct (map cVenueID cs)"

definition merge_of :: "Cursor list \<Rightarrow> Event list" where
  "merge_of cs = sort_key ev_key (filter live (concat (map cursor_rest cs)))"

lemma sorted_adjacent: "sorted xs \<Longrightarrow> (\<exists>i. 1 \<le> i \<and> i < length xs \<and> xs ! i = xs ! (i - 1)) \<longleftrightarrow> \<not> distinct xs"
  for xs :: "'a::linorder list"
proof
  assume "\<exists>i. 1 \<le> i \<and> i < length xs \<and> xs ! i = xs ! (i - 1)"
  then obtain i where "1 \<le> i" "i < length xs" "xs ! i = xs ! (i - 1)" by blast
  moreover have "i - 1 < length xs" "i \<noteq> i - 1" using \<open>1 \<le> i\<close> \<open>i < length xs\<close> by auto
  ultimately show "\<not> distinct xs" unfolding distinct_conv_nth by metis
next
  assume s: "sorted xs" and "\<not> distinct xs"
  then obtain i j where ij: "i < j" "j < length xs" "xs ! i = xs ! j"
    by (auto simp: distinct_conv_nth) (metis nat_neq_iff)
  then have "xs ! (i + 1) \<le> xs ! j" "xs ! i \<le> xs ! (i + 1)"
    using sorted_nth_mono [OF s, of "i + 1" j] sorted_nth_mono [OF s, of i "i + 1"] by auto
  then have "xs ! (i + 1) = xs ! i" using ij by simp
  then show "\<exists>i. 1 \<le> i \<and> i < length xs \<and> xs ! i = xs ! (i - 1)"
    using ij by (intro exI [of _ "i + 1"]) auto
qed

lemma duplicate_venue_iff: "duplicate_venue cs \<longleftrightarrow> \<not> distinct (map cVenueID cs)"
proof -
  have "duplicate_venue cs \<longleftrightarrow> (\<exists>i. 1 \<le> i \<and> i < length (sort (map cVenueID cs))
      \<and> sort (map cVenueID cs) ! i = sort (map cVenueID cs) ! (i - 1))"
    by (auto simp: duplicate_venue_def list_ex_iff cursor_VenueID_def [abs_def] Let_def)
  then show ?thesis
    by (subst (asm) sorted_adjacent) simp_all
qed

lemma cursor_rest_venue:
  assumes "cursor_ok c" "ev \<in> set (cursor_rest c)"
  shows "VenueID (evRecord ev) = cVenueID c"
proof -
  have r: "VenueID (evRecord ev) = cVenueID c" if "r \<in> set (cReaders c)" "ev \<in> set (reader_events r)" for r
  proof -
    have s: "sound_file r" "\<forall>rec \<in> set (contents r). VenueID rec = cVenueID c"
      using assms(1) that(1) by (simp_all add: cursor_ok_def)
    have "evRecord ev \<in> set (contents r)"
      using that(2) map_evRecord_reader_events [OF s(1)] by (metis image_eqI list.set_map)
    with s(2) show ?thesis by blast
  qed
  obtain r' where "r' \<in> set (cReaders c)" "ev \<in> set (reader_events r')"
    using assms(2)
    by (auto simp: cursor_rest_def partition_events_def dest!: in_set_dropD split: if_splits) (metis nth_mem)
  then show ?thesis by (rule r)
qed

lemma filter_live_increasing:
  assumes "increasing (ev # evs)"
  shows "filter live (ev # evs) = (if ev_key ev = SentinelKey then [] else ev # filter live evs)"
proof -
  have "evs = []" if "ev_key ev = SentinelKey"
    using assms that le_SentinelKey by (cases evs) (auto simp: increasing_Cons leD)
  then show ?thesis by (auto simp: live_def)
qed

lemma newMerger_ok:
  assumes s: "sound_cursors cs" and sh: "workers > 0 \<longrightarrow> shape_valid shape"
  shows "\<exists>m. newMerger cs workers shape = Inr m \<and> merger_ok m \<and> merger_rest m = merge_of cs"
proof -
  let ?f = "new_feed workers shape"
  have c: "feed_ok (?f c)" "feed_rest (?f c) = cursor_rest c" "increasing (cursor_rest c)" if "c \<in> set cs" for c
    using new_feed_ok [of c workers shape] s sh that by (auto simp: sound_cursors_def cursor_ok_def)
  have first: "first_event (?f c) = (case cursor_rest c of [] \<Rightarrow> None | ev # _ \<Rightarrow> Some ev)"
    "feed_rest (snd (feed_next (?f c))) = tl (cursor_rest c)" "feed_ok (snd (feed_next (?f c)))" if "c \<in> set cs" for c
    using feed_next_ok [OF c(1) [OF that]] c(2) [OF that] by (simp_all add: first_event_def)
  have "\<forall>c \<in> set cs. seeds (?f c)"
    using c(1) feed.nxt_eq by (auto simp: seeds_def)
  moreover have "\<not> duplicate_venue cs"
    using s by (simp add: duplicate_venue_iff sound_cursors_def)
  ultimately obtain m where m: "newMerger cs workers shape = Inr m" "lt_wf (mTree m)" "mErr m = None"
    "mFeeds m = map (snd \<circ> feed_next \<circ> ?f) cs"
    "mPending m = map (\<lambda>c. case first_event (?f c) of None \<Rightarrow> zeroEvent | Some ev \<Rightarrow> ev) cs"
    "ltKeys (mTree m) = map (pending_key \<circ> first_event \<circ> ?f) cs
        @ replicate (grow 1 (length cs) - length cs) SentinelKey"
    using newMerger_Inr by blast
  have len: "length (mPending m) = length cs" by (simp add: m)
  have at: "ltKeys (mTree m) ! i = pending_key (first_event (?f (cs ! i)))"
    "mPending m ! i = (case first_event (?f (cs ! i)) of None \<Rightarrow> zeroEvent | Some ev \<Rightarrow> ev)"
    "mFeeds m ! i = snd (feed_next (?f (cs ! i)))" if "i < length cs" for i
    using that by (simp_all add: m nth_append)
  have lane: "lane m i = filter live (cursor_rest (cs ! i))" if i: "i < length cs" for i
  proof (cases "cursor_rest (cs ! i)")
    case Nil
    then show ?thesis using i at(1) first(1) by (simp add: lane_def pending_key_def)
  next
    case (Cons ev evs)
    then show ?thesis
      using i at first(1,2) c(3) [of "cs ! i"] filter_live_increasing [of ev evs]
      by (simp add: lane_def pending_key_def)
  qed
  have inc: "increasing (mPending m ! i # feed_rest (mFeeds m ! i))"
    if "i < length cs" "ltKeys (mTree m) ! i \<noteq> SentinelKey" for i
    using that at [OF that(1)] first [OF nth_mem [OF that(1)]] c(3) [OF nth_mem [OF that(1)]]
    by (cases "cursor_rest (cs ! i)") (simp_all add: pending_key_def)
  have "ev_key x \<noteq> ev_key y"
    if "i < length cs" "j < length cs" "i \<noteq> j" "x \<in> set (lane m i)" "y \<in> set (lane m j)" for i j x y
  proof -
    have "VenueID (evRecord x) = cVenueID (cs ! i)" "VenueID (evRecord y) = cVenueID (cs ! j)"
      using that lane s cursor_rest_venue by (auto simp: sound_cursors_def)
    moreover have "cVenueID (cs ! i) \<noteq> cVenueID (cs ! j)"
      using s that(1-3) by (auto simp: sound_cursors_def distinct_conv_nth)
    ultimately show ?thesis by (auto simp: keyOf_def)
  qed
  then have "merger_ok m"
    using m(3) newMerger_agrees [OF m(1)] inc first(3) by (auto simp: merger_ok_def len m(4))
  moreover have "lanes m = concat (map (\<lambda>i. filter live (cursor_rest (cs ! i))) [0..<length cs])"
    unfolding lanes_def len by (intro arg_cong [where f = concat] map_cong) (simp_all add: lane)
  then have "lanes m = concat (map (\<lambda>c. filter live (cursor_rest c)) cs)"
    using map_nth [of cs] by (metis (no_types, lifting) comp_apply list.map_comp map_cong)
  then have "merger_rest m = merge_of cs"
    by (simp add: merger_rest_def merge_of_def filter_concat comp_def)
  ultimately show ?thesis using m(1) by blast
qed

text \<open>C9: The merge of sound partitions is their sorted union, and nothing else can show in it: inline
  or with any number of workers, with any batch size and channel depth, the merger hands out every
  event of every venue once, in strictly increasing key order, with no error, and then reports the
  end. The one exception is a record that carries the sentinel key, which the merge takes for the end
  of its venue.\<close>

theorem merge_sorted_union:
  assumes "sound_cursors cs" and "workers > 0 \<longrightarrow> shape_valid shape"
  shows "\<exists>m m'. newMerger cs workers shape = Inr m
    \<and> pulls merger_Next n m = (take n (merge_of cs), None, m')
    \<and> (length (merge_of cs) \<le> n \<longrightarrow> fst (merger_Next m') = Inr None)
    \<and> increasing (merge_of cs)
    \<and> mset (merge_of cs) = mset (filter (\<lambda>ev. ev_key ev \<noteq> SentinelKey) (concat (map cursor_rest cs)))"
proof -
  obtain m where m: "newMerger cs workers shape = Inr m" "merger_ok m" "merger_rest m = merge_of cs"
    using newMerger_ok [OF assms] by blast
  obtain m' where m': "pulls merger_Next n m = (take n (merge_of cs), None, m')" "merger_ok m'"
      "merger_rest m' = drop n (merge_of cs)"
    using merger.pulls_eq [OF m(2), of n] m(3) by auto
  have "fst (merger_Next m') = Inr None" if "length (merge_of cs) \<le> n"
    using merger.nxt_eq [OF m'(2)] m'(3) that by simp
  moreover have "increasing (merge_of cs)"
  proof -
    obtain m'' where "pulls merger_Next (length (merge_of cs)) m = (merge_of cs, None, m'')"
      using merger.pulls_eq [OF m(2), of "length (merge_of cs)"] m(3) by auto
    then show ?thesis
      using pulls_merger_increasing [OF newMerger_agrees [OF m(1)]] by blast
  qed
  moreover have "mset (merge_of cs) = mset (filter (\<lambda>ev. ev_key ev \<noteq> SentinelKey) (concat (map cursor_rest cs)))"
    by (simp add: merge_of_def live_def [abs_def])
  ultimately show ?thesis using m(1) m'(1) by blast
qed

section \<open>Errors and closing\<close>

lemma merger_Next_Inl:
  assumes m: "tree_agrees m" and e: "merger_Next m = (Inl e, m')"
  shows "mErr m' = Some e \<and> merger_Next m' = (Inl e, m')"
proof (cases "mErr m")
  case (Some e')
  then show ?thesis using e by (auto simp: merger_Next_def)
next
  case None
  have w: "winner_key m \<noteq> SentinelKey"
    using e None by (auto simp: merger_Next_def winner_key_def split: prod.splits)
  note i = tree_agrees_winner(1) [OF m w]
  have "mErr m' = Some e"
  proof (cases "feed_next (mFeeds m ! fst (Winner (mTree m)))")
    case (Pair res f)
    then show ?thesis
      using e None w i merger_Next_eq [OF None w i]
      by (cases res) (auto simp: merger_Next_def winner_key_def Let_def split: prod.splits option.splits)
  qed
  then show ?thesis by (simp add: merger_Next_def)
qed

text \<open>An error is final. Once a call fails, the failing call emits no event and every later call
  returns the same error and changes nothing; this holds in every state a merger reaches, since
  making one and every call keep the tree in agreement with the pending events.\<close>

theorem merger_error_final:
  assumes "tree_agrees m" and "merger_Next m = (Inl e, m')"
  shows "pulls merger_Next n m' = ([], if n = 0 then None else Some e, m')"
  using merger_Next_Inl [OF assms] by (cases n) simp_all

definition cursor_closed :: "Cursor \<Rightarrow> bool" where
  "cursor_closed c \<longleftrightarrow> (\<forall>r \<in> set (cReaders c). rClosed r)"

lemma close_readers_closed: "\<forall>r \<in> set (snd (close_readers rs)). rClosed r"
  by (induction rs) (auto simp: reader_Close_def Let_def split: prod.splits)

lemma close_cursors_closed: "\<forall>c \<in> set (snd (close_cursors cs)). cursor_closed c"
proof (induction cs)
  case (Cons c cs)
  then show ?case
    using close_readers_closed [of "cReaders c"]
    by (auto simp: cursor_Close_def cursor_closed_def Let_def case_prod_unfold)
qed simp

text \<open>Construction fails in one of two ways. Partitions that share a venue are refused before
  anything is read, with the cursors as they were; every other error leaves every file of every
  cursor closed. Closing a merger closes every file, and closing it again does nothing.\<close>

theorem merger_releases:
  "(case newMerger cs workers shape of
      Inl (e, cs') \<Rightarrow> if distinct (map cVenueID cs) then (\<forall>c \<in> set cs'. cursor_closed c)
                      else e = MErrDuplicateVenue \<and> cs' = cs
    | Inr m \<Rightarrow> distinct (map cVenueID cs) \<and>
        (\<forall>c \<in> set (mCursors (snd (merger_Close m))). cursor_closed c)
        \<and> merger_Close (snd (merger_Close m)) = (None, snd (merger_Close m)))"
proof (cases "newMerger cs workers shape")
  case (Inl p)
  then show ?thesis
    using close_cursors_closed [of cs]
    by (auto simp: newMerger_def duplicate_venue_iff NewLoserTree_def Let_def split: if_splits sum.splits prod.splits)
next
  case (Inr m)
  then have "\<not> mClosed m" "distinct (map cVenueID cs)"
    by (auto simp: newMerger_def duplicate_venue_iff split: if_splits option.splits sum.splits prod.splits)
  then show ?thesis
    using Inr close_cursors_closed [of "mCursors m"]
    by (auto simp: merger_Close_def Let_def case_prod_unfold)
qed

section \<open>Witnesses\<close>

definition sample_cursor :: "u16 \<Rightarrow> Cursor" where
  "sample_cursor v = projr (NewCursor v [sample_reader v])"

lemma sample_cursor:
  "NewCursor v [sample_reader v] = Inr (sample_cursor v)" "cursor_ok (sample_cursor v)"
  "cursor_rest (sample_cursor v) = image_events (sample_events v)" "\<not> cHasLast (sample_cursor v)"
  "cVenueID (sample_cursor v) = v"
proof -
  obtain c where c: "NewCursor v [sample_reader v] = Inr c" "cursor_ok c"
      "cursor_rest c = partition_events [sample_reader v]" "\<not> cHasLast c" "cVenueID c = v"
    using NewCursor_ok [OF sample_partition] by blast
  then have "sample_cursor v = c" by (simp add: sample_cursor_def)
  with c show "NewCursor v [sample_reader v] = Inr (sample_cursor v)" "cursor_ok (sample_cursor v)"
    "cursor_rest (sample_cursor v) = image_events (sample_events v)" "\<not> cHasLast (sample_cursor v)"
    "cVenueID (sample_cursor v) = v"
    by (simp_all add: sample_partition_events)
qed

lemma sample_sound: "sound_cursors [sample_cursor 3, sample_cursor 4]"
  by (simp add: sound_cursors_def sample_cursor)

theorem merger_releases_witness:
  "newMerger [sample_cursor 3, sample_cursor 3] 2 defaultBatchShape
     = Inl (MErrDuplicateVenue, [sample_cursor 3, sample_cursor 3])"
  using merger_releases [of "[sample_cursor 3, sample_cursor 3]" 2 defaultBatchShape]
  by (auto split: sum.splits prod.splits)

text \<open>Two venues with events at the same times: the merge interleaves them by venue.\<close>

lemma sample_merge:
  "merge_of [sample_cursor 3, sample_cursor 4]
    = [image_events (sample_events 3) ! 0, image_events (sample_events 4) ! 0,
       image_events (sample_events 3) ! 1, image_events (sample_events 3) ! 2,
       image_events (sample_events 4) ! 1, image_events (sample_events 4) ! 2]"
  unfolding merge_of_def
  by (rule sort_key_increasing)
    (simp_all add: sample_cursor image_events_def sample_events_def live_def keyOf_def SentinelKey_def increasing_def
      key_less_iff key_tuple_def example_delta_def zeroRecord_def)

theorem merge_sorted_union_witness:
  "sound_cursors [sample_cursor 3, sample_cursor 4] \<and> shape_valid \<lparr>shRecords = 2, shBatches = 2\<rparr> \<and>
   (\<exists>m m'. newMerger [sample_cursor 3, sample_cursor 4] 4 \<lparr>shRecords = 2, shBatches = 2\<rparr> = Inr m
     \<and> pulls merger_Next 3 m = ([image_events (sample_events 3) ! 0, image_events (sample_events 4) ! 0,
          image_events (sample_events 3) ! 1], None, m'))"
proof -
  have v: "shape_valid \<lparr>shRecords = 2, shBatches = 2\<rparr>" by (simp add: shape_valid_def)
  then have "(4 :: int) > 0 \<longrightarrow> shape_valid \<lparr>shRecords = 2, shBatches = 2\<rparr>" by simp
  from merge_sorted_union [OF sample_sound this, of 3] v sample_sound show ?thesis
    unfolding sample_merge by (auto simp: numeral_3_eq_3)
qed

lemma sample_merger:
  "\<exists>m m'. newMerger [sample_cursor 3, sample_cursor 4] 0 defaultBatchShape = Inr m \<and> merger_ok m
    \<and> pulls merger_Next 2 m = ([image_events (sample_events 3) ! 0, image_events (sample_events 4) ! 0], None, m')"
proof -
  obtain m where m: "newMerger [sample_cursor 3, sample_cursor 4] 0 defaultBatchShape = Inr m" "merger_ok m"
      "merger_rest m = merge_of [sample_cursor 3, sample_cursor 4]"
    using newMerger_ok [OF sample_sound, of 0 defaultBatchShape] by auto
  then show ?thesis
    using merger.pulls_eq [OF m(2), of 2] unfolding m(3) sample_merge by (auto simp: numeral_2_eq_2)
qed

theorem merger_increasing_witness:
  "\<exists>m m'. newMerger [sample_cursor 3, sample_cursor 4] 0 defaultBatchShape = Inr m
    \<and> pulls merger_Next 2 m = ([image_events (sample_events 3) ! 0, image_events (sample_events 4) ! 0], None, m')
    \<and> increasing [image_events (sample_events 3) ! 0, image_events (sample_events 4) ! 0]"
  using sample_merger merger_increasing by blast

text \<open>A venue whose next batch failed its checksum.\<close>

definition bad_feed :: feed where
  "bad_feed = \<lparr>fHeld = None, fPos = 0,
     fSource = Channel [(newBatch 3)\<lparr>bErr := Some (MErrStore ErrBlockChecksum)\<rparr>]\<rparr>"

theorem merger_error_final_witness:
  "\<exists>m m'. tree_agrees m \<and> mErr m = None \<and> merger_Next m = (Inl (MErrStore ErrBlockChecksum), m')
    \<and> pulls merger_Next 5 m' = ([], Some (MErrStore ErrBlockChecksum), m')"
proof -
  obtain m0 where m0: "merger_ok m0" "merger_rest m0 = merge_of [sample_cursor 3, sample_cursor 4]"
    using newMerger_ok [OF sample_sound, of 0 defaultBatchShape] by auto
  define m where "m = m0\<lparr>mFeeds := map (\<lambda>_. bad_feed) (mFeeds m0)\<rparr>"
  have w0: "winner_key m0 \<noteq> SentinelKey"
    using merger_end [OF m0(1)] m0(2) by (auto simp: sample_merge)
  have ag0: "tree_agrees m0" and err: "mErr m = None"
    using m0(1) by (simp_all add: merger_ok_def m_def)
  have ag: "tree_agrees m" using ag0 by (simp add: tree_agrees_def m_def)
  have w: "winner_key m \<noteq> SentinelKey" using w0 by (simp add: winner_key_def m_def)
  let ?i = "fst (Winner (mTree m))"
  have i: "?i < length (mPending m)" by (rule tree_agrees_winner(1) [OF ag w])
  then have "mFeeds m ! ?i = bad_feed" using ag0 by (simp add: m_def tree_agrees_def)
  then obtain f where "feed_next (mFeeds m ! ?i) = (Inl (MErrStore ErrBlockChecksum), f)"
    by (auto simp: bad_feed_def feed_next_def refill_def)
  then have "\<exists>m'. merger_Next m = (Inl (MErrStore ErrBlockChecksum), m')"
    using err w i by (auto simp: merger_Next_def winner_key_def Let_def split: prod.splits)
  then obtain m' where m': "merger_Next m = (Inl (MErrStore ErrBlockChecksum), m')" by blast
  from merger_error_final [OF ag m', of 5] ag err m' show ?thesis by auto
qed

end
