(* ===== verification/Merge_Feed.thy ===== *)
theory Merge_Feed
  imports Merge_Batch
begin

text \<open>
  The goroutines of \<^verbatim>\<open>src/internal/merge/reader.go\<close> as a step relation: a venue's owner
  (\<^verbatim>\<open>venueFeed.run\<close>), the workers of the pool, and the merge at the other end of the venue's
  channel, interleaved in any way. The theorems: in every reachable state the merge has received the
  first batches of the sequence \<open>batches\<close>, whatever order the workers finish in; no state but the
  final one is stuck, and a free batch is always at hand when the owner asks for one; and every run
  ends, within a bound on its number of steps.
\<close>

section \<open>States and steps\<close>

text \<open>
  Work the owner has queued and not yet sent, in the order it was issued: a range still to be decoded,
  or decoded, when its \<^verbatim>\<open>done\<close> channel holds a value.
\<close>

datatype slot = Queued work_range | Decoded work_range batch

text \<open>Where the owner is: filling the queue, waiting for its oldest batch, blocked on the send of one,
  or returned, which closes the channel.\<close>

datatype owner_pc = Issuing | Awaiting | Sending batch | Returned

text \<open>
  \<open>sFree\<close> is the number of batches in the \<^verbatim>\<open>free\<close> channel: a batch from it is reset by
  \<^verbatim>\<open>fill\<close>, so which one it is does not matter. \<open>sHeld\<close> is the batch in the merge's hand and
  \<open>sSent\<close> what it has received. \<open>sAbort\<close> is the merger's abort flag.
\<close>

record feed_sys =
  sFeed :: venueFeed
  sPc :: owner_pc
  sInflight :: "slot list"
  sFree :: nat
  sHeld :: "batch option"
  sSent :: "batch list"
  sAbort :: bool

definition start_sys :: "venueFeed \<Rightarrow> feed_sys" where
  "start_sys f = \<lparr>sFeed = f, sPc = Issuing, sInflight = [], sFree = nat (shBatches (vfShape f)),
     sHeld = None, sSent = [], sAbort = False\<rparr>"

text \<open>The condition of the issuing loop.\<close>

definition may_issue :: "feed_sys \<Rightarrow> bool" where
  "may_issue s \<longleftrightarrow> int (length (sInflight s)) < shBatches (vfShape (sFeed s)) - 1 \<and> \<not> sAbort s"

text \<open>
  \<open>issue\<close> takes a free batch and queues the next range; \<open>issued\<close> leaves the loop and
  \<open>exhausted\<close> breaks out of it; \<open>decode\<close> is a worker of the pool finishing any queued item;
  \<open>await\<close> receives from the oldest batch's \<^verbatim>\<open>done\<close> and checks the seam; \<open>send\<close> is
  the rendezvous with the merge's receive, \<open>request\<close> the merge handing its spent batch back before
  that receive; \<open>cancel\<close> is the owner seeing the abort flag, and \<open>drain\<close> the receive of
  \<^verbatim>\<open>Merger.Close\<close>.
\<close>

inductive fstep :: "feed_sys \<Rightarrow> feed_sys \<Rightarrow> bool" where
  issue: "sPc s = Issuing \<Longrightarrow> may_issue s \<Longrightarrow> nextRange (sFeed s) = (Some rg, f) \<Longrightarrow> sFree s > 0 \<Longrightarrow>
    fstep s (s\<lparr>sFeed := f, sFree := sFree s - 1, sInflight := sInflight s @ [Queued rg]\<rparr>)"
| exhausted: "sPc s = Issuing \<Longrightarrow> may_issue s \<Longrightarrow> nextRange (sFeed s) = (None, f) \<Longrightarrow>
    fstep s (s\<lparr>sFeed := f, sPc := (if sInflight s = [] then Returned else Awaiting)\<rparr>)"
| issued: "sPc s = Issuing \<Longrightarrow> \<not> may_issue s \<Longrightarrow>
    fstep s (s\<lparr>sPc := (if sInflight s = [] then Returned else Awaiting)\<rparr>)"
| decode: "sInflight s = pre @ Queued rg # post \<Longrightarrow>
    fstep s (s\<lparr>sInflight := pre @ Decoded rg (decode_range (sFeed s) rg) # post\<rparr>)"
| await: "sPc s = Awaiting \<Longrightarrow> sInflight s = Decoded rg b # rest \<Longrightarrow> \<not> sAbort s \<Longrightarrow>
    finish_batch (sFeed s) b = (b', f) \<Longrightarrow>
    fstep s (s\<lparr>sFeed := f, sPc := Sending b', sInflight := rest\<rparr>)"
| cancel: "sPc s = Awaiting \<Longrightarrow> sInflight s = Decoded rg b # rest \<Longrightarrow> sAbort s \<Longrightarrow>
    fstep s (s\<lparr>sPc := Returned, sInflight := rest\<rparr>)"
| send: "sPc s = Sending b \<Longrightarrow> sHeld s = None \<Longrightarrow> \<not> sAbort s \<Longrightarrow>
    fstep s (s\<lparr>sPc := Issuing, sHeld := Some b, sSent := sSent s @ [b]\<rparr>)"
| request: "sHeld s = Some b \<Longrightarrow> \<not> sAbort s \<Longrightarrow>
    fstep s (s\<lparr>sHeld := None, sFree := sFree s + 1\<rparr>)"
| drain: "sPc s = Sending b \<Longrightarrow> sAbort s \<Longrightarrow>
    fstep s (s\<lparr>sPc := Issuing, sFree := sFree s + 1\<rparr>)"

text \<open>A step of the whole, or \<^verbatim>\<open>Merger.Close\<close> raising the flag.\<close>

definition run_step :: "feed_sys \<Rightarrow> feed_sys \<Rightarrow> bool" where
  "run_step s s' \<longleftrightarrow> fstep s s' \<or> \<not> sAbort s \<and> s' = s\<lparr>sAbort := True\<rparr>"

definition reachable :: "venueFeed \<Rightarrow> feed_sys \<Rightarrow> bool" where
  "reachable f s \<longleftrightarrow> run_step\<^sup>*\<^sup>* (start_sys f) s"

inductive_cases fstepE: "fstep s s'"

section \<open>The invariant\<close>

primrec slot_range :: "slot \<Rightarrow> work_range" where
  "slot_range (Queued rg) = rg"
| "slot_range (Decoded rg b) = rg"

primrec slot_ok :: "venueFeed \<Rightarrow> slot \<Rightarrow> bool" where
  "slot_ok f (Queued rg) \<longleftrightarrow> True"
| "slot_ok f (Decoded rg b) \<longleftrightarrow> b = decode_range f rg"

definition sending :: "owner_pc \<Rightarrow> batch list" where
  "sending pc = (case pc of Sending b \<Rightarrow> [b] | _ \<Rightarrow> [])"

primrec finish_state :: "venueFeed \<Rightarrow> batch list \<Rightarrow> venueFeed" where
  "finish_state f [] = f"
| "finish_state f (b # bs) = finish_state (snd (finish_batch f b)) bs"

lemma finish_all_snoc:
  "finish_all f (bs @ [b]) = finish_all f bs @ [fst (finish_batch (finish_state f bs) b)]"
  by (induction bs arbitrary: f) (simp_all add: case_prod_unfold)

lemma finish_state_snoc: "finish_state f (bs @ [b]) = snd (finish_batch (finish_state f bs) b)"
  by (induction bs arbitrary: f) simp_all

text \<open>The batches finished when \<open>j\<close> of the \<open>k\<close> issued ranges have gone through the owner.\<close>

definition decoded :: "venueFeed \<Rightarrow> nat \<Rightarrow> nat \<Rightarrow> batch list" where
  "decoded f j k = map (decode_range f) (take j (ranges k f))"

text \<open>
  \<open>k\<close> ranges were issued and \<open>j\<close> of them sent or on the way: the queue holds the others in
  order, the owner's last key is that of the \<open>j\<close>-th batch, and no batch is lost.
\<close>

definition feed_inv :: "venueFeed \<Rightarrow> nat \<Rightarrow> nat \<Rightarrow> feed_sys \<Rightarrow> bool" where
  "feed_inv f j k s \<longleftrightarrow>
     j \<le> k \<and> length (ranges k f) = k \<and> (\<forall>n. ranges (k + n) f = ranges k f @ ranges n (sFeed s))
     \<and> vfVenueID (sFeed s) = vfVenueID f \<and> vfShape (sFeed s) = vfShape f
     \<and> (\<forall>sl \<in> set (sInflight s). slot_ok f sl)
     \<and> (sPc s \<noteq> Returned \<longrightarrow>
          vfLast (sFeed s) = vfLast (finish_state f (decoded f j k))
          \<and> vfHasLast (sFeed s) = vfHasLast (finish_state f (decoded f j k))
          \<and> map slot_range (sInflight s) = drop j (ranges k f)
          \<and> sFree s + length (sInflight s) + length (sending (sPc s)) + (if sHeld s = None then 0 else 1)
            = nat (shBatches (vfShape f)))
     \<and> (if sAbort s then \<exists>n. sSent s = take n (finish_all f (decoded f j k))
        else sSent s @ sending (sPc s) = finish_all f (decoded f j k))
     \<and> (sPc s = Awaiting \<longrightarrow> sInflight s \<noteq> [])
     \<and> (sPc s = Returned \<and> \<not> sAbort s \<longrightarrow> j = k \<and> (\<forall>n. ranges n (sFeed s) = []))"

lemma feed_inv_start: "feed_inv f 0 0 (start_sys f)"
  by (simp add: feed_inv_def start_sys_def sending_def decoded_def)

lemma nextRange_None: "nextRange f = (None, f') \<Longrightarrow> nextRange f' = (None, f')"
proof (induction f rule: nextRange.induct)
  case (1 f)
  show ?case
  proof (cases "vfFile f < length (vfReaders f) \<and> vfIndex f \<ge> Len (vfReaders f ! vfFile f)")
    case True
    then have "nextRange (f\<lparr>vfFile := vfFile f + 1, vfIndex := 0\<rparr>) = (None, f')"
      using "1.prems" by (simp add: nextRange.simps [of f])
    from "1.IH" [OF _ refl _ this] True show ?thesis by simp
  next
    case False
    then have "f' = f"
      using "1.prems" by (auto simp: nextRange.simps [of f] Let_def split: if_splits)
    then show ?thesis using "1.prems" by simp
  qed
qed

lemma ranges_None: "nextRange f = (None, f') \<Longrightarrow> ranges n f = [] \<and> ranges n f' = []"
  using nextRange_None [of f f'] by (cases n) auto

lemma issue_inv:
  assumes "feed_inv f j k s" "sPc s = Issuing" "nextRange (sFeed s) = (Some rg, g)" "sFree s > 0"
  shows "feed_inv f j (Suc k) (s\<lparr>sFeed := g, sFree := sFree s - 1, sInflight := sInflight s @ [Queued rg]\<rparr>)"
proof -
  have r: "ranges (k + Suc n) f = ranges k f @ rg # ranges n g" for n
    using assms(1,3) unfolding feed_inv_def by (metis (no_types, lifting) case_prod_conv option.simps(5) ranges.simps(2))
  have rk: "ranges (Suc k) f = ranges k f @ [rg]"
    using r [of 0] by simp
  have "ranges (Suc k + n) f = ranges (Suc k) f @ ranges n g" for n
    using r [of n] rk by simp
  moreover have "decoded f j (Suc k) = decoded f j k"
    unfolding decoded_def rk using assms(1) by (simp add: feed_inv_def)
  ultimately show ?thesis
    using assms nextRange_keeps [OF assms(3)] rk unfolding feed_inv_def
    by (auto simp: sending_def simp del: ranges.simps)
qed

lemma stop_inv:
  assumes "feed_inv f j k s" "sPc s = Issuing" "shape_valid (vfShape f)"
    and "nextRange (sFeed s) = (None, g) \<or> \<not> may_issue s \<and> g = sFeed s"
  shows "feed_inv f j k (s\<lparr>sFeed := g, sPc := (if sInflight s = [] then Returned else Awaiting)\<rparr>)"
proof -
  have g: "vfVenueID g = vfVenueID (sFeed s)" "vfShape g = vfShape (sFeed s)" "vfLast g = vfLast (sFeed s)"
    "vfHasLast g = vfHasLast (sFeed s)" "\<forall>n. ranges n g = ranges n (sFeed s)"
    using assms(4) nextRange_keeps [of "sFeed s" None g] ranges_None [of "sFeed s" g] by auto
  have "\<forall>n. ranges n g = []" if "sInflight s = []" "\<not> sAbort s"
  proof -
    have "may_issue s"
      using that assms(1,3) by (simp add: may_issue_def feed_inv_def shape_valid_def)
    then show ?thesis
      using assms(4) ranges_None [of "sFeed s" g] by auto
  qed
  moreover have "j = k" if "sInflight s = []"
    using that assms(1,2) unfolding feed_inv_def by auto
  ultimately show ?thesis
    using assms(1,2) g unfolding feed_inv_def by (auto simp: sending_def)
qed

lemma await_inv:
  assumes i: "feed_inv f j k s" and pc: "sPc s = Awaiting" and fl: "sInflight s = Decoded rg b # rest"
    and "\<not> sAbort s" and fin: "finish_batch (sFeed s) b = (b', g)"
  shows "feed_inv f (Suc j) k (s\<lparr>sFeed := g, sPc := Sending b', sInflight := rest\<rparr>)"
proof -
  have d: "drop j (ranges k f) = rg # map slot_range rest" "length (ranges k f) = k"
    using i pc fl by (auto simp: feed_inv_def)
  then have jk: "j < k" "ranges k f ! j = rg" "drop (Suc j) (ranges k f) = map slot_range rest"
  proof -
    show lt: "j < k" using d by (metis drop_all list.distinct(1) not_less)
    show "ranges k f ! j = rg" "drop (Suc j) (ranges k f) = map slot_range rest"
      using d lt Cons_nth_drop_Suc [of j "ranges k f"] by auto
  qed
  have b: "b = decode_range f rg"
    using i fl by (auto simp: feed_inv_def)
  have dec: "decoded f (Suc j) k = decoded f j k @ [b]"
    using jk d(2) b by (simp add: decoded_def take_Suc_conv_app_nth)
  let ?h = "finish_state f (decoded f j k)"
  obtain b2 h where h: "finish_batch ?h b = (b2, h)" by fastforce
  have "b' = b2 \<and> vfLast g = vfLast h \<and> vfHasLast g = vfHasLast h"
    using finish_batch_cong [OF _ _ h fin] i pc by (simp add: feed_inv_def)
  moreover have g: "g = with_last (vfLast g) (vfHasLast g) (sFeed s)"
    using finish_batch_keeps [OF fin] .
  have "ranges n g = ranges n (sFeed s)" for n
    by (subst g) (rule ranges_last)
  moreover have "vfVenueID g = vfVenueID (sFeed s)" "vfShape g = vfShape (sFeed s)"
    by (subst g, simp)+
  ultimately show ?thesis
    using i pc fl jk assms(4) h unfolding feed_inv_def
    by (auto simp: sending_def dec finish_all_snoc finish_state_snoc)
qed

lemma decode_inv:
  assumes i: "feed_inv f j k s" and fl: "sInflight s = pre @ Queued rg # post"
  shows "feed_inv f j k (s\<lparr>sInflight := pre @ Decoded rg (decode_range (sFeed s) rg) # post\<rparr>)"
proof -
  have "decode_range (sFeed s) = decode_range f"
    using i by (intro decode_range_cong) (simp_all add: feed_inv_def)
  with i fl show ?thesis
    unfolding feed_inv_def by auto
qed

lemma fstep_inv:
  assumes "fstep s s'" "feed_inv f j k s" "shape_valid (vfShape f)"
  shows "\<exists>j k. feed_inv f j k s'"
  using assms(1)
proof (cases rule: fstep.cases)
  case (issue rg g)
  then show ?thesis using issue_inv [OF assms(2)] by blast
next
  case (exhausted g)
  then show ?thesis using stop_inv [OF assms(2) _ assms(3)] by blast
next
  case issued
  have "feed_inv f j k (s\<lparr>sFeed := sFeed s, sPc := (if sInflight s = [] then Returned else Awaiting)\<rparr>)"
    using issued by (intro stop_inv [OF assms(2) _ assms(3)]) auto
  moreover have "s' = s\<lparr>sFeed := sFeed s, sPc := (if sInflight s = [] then Returned else Awaiting)\<rparr>"
    using issued by simp
  ultimately show ?thesis by metis
next
  case (decode pre rg post)
  then show ?thesis using decode_inv [OF assms(2)] by blast
next
  case (await rg b rest b' g)
  then show ?thesis using await_inv [OF assms(2)] by blast
next
  case (cancel rg b rest)
  then show ?thesis using assms(2) by (intro exI [of _ j] exI [of _ k]) (auto simp: feed_inv_def)
next
  case (send b)
  then show ?thesis using assms(2) by (intro exI [of _ j] exI [of _ k]) (auto simp: feed_inv_def sending_def)
next
  case (request b)
  then show ?thesis using assms(2) by (intro exI [of _ j] exI [of _ k]) (auto simp: feed_inv_def sending_def)
next
  case (drain b)
  then show ?thesis using assms(2) by (intro exI [of _ j] exI [of _ k]) (auto simp: feed_inv_def sending_def)
qed

lemma reachable_inv:
  assumes "shape_valid (vfShape f)" "reachable f s"
  shows "\<exists>j k. feed_inv f j k s"
  using assms(2) unfolding reachable_def
proof (induction rule: rtranclp_induct)
  case base
  show ?case using feed_inv_start by blast
next
  case (step s s')
  then obtain j k where i: "feed_inv f j k s" by blast
  from step.hyps(2) show ?case
    unfolding run_step_def
  proof
    assume "fstep s s'"
    then show ?thesis using fstep_inv i assms(1) by blast
  next
    assume a: "\<not> sAbort s \<and> s' = s\<lparr>sAbort := True\<rparr>"
    then have "sSent s = take (length (sSent s)) (finish_all f (decoded f j k))"
      using i unfolding feed_inv_def by (metis append_eq_conv_conj)
    then show ?thesis using a i unfolding feed_inv_def by (intro exI [of _ j] exI [of _ k]) auto
  qed
qed

section \<open>Order\<close>

lemma ranges_take: "take n (ranges k f) = ranges (min n k) f"
proof (induction k arbitrary: n f)
  case (Suc k)
  then show ?case by (cases n) (auto split: prod.split option.split)
qed simp

lemma finish_all_take: "take n (finish_all f bs) = finish_all f (take n bs)"
proof (induction bs arbitrary: n f)
  case (Cons b bs)
  then show ?case by (cases n) (auto split: prod.split)
qed simp

lemma batches_take: "take n (batches k f) = batches (min n k) f"
  by (simp add: batches_def finish_all_take take_map ranges_take)

lemma finished_batches: "finish_all f (decoded f j k) = batches (min j k) f"
  by (simp add: decoded_def batches_def ranges_take)

lemma sent_prefix:
  assumes "feed_inv f j k s"
  shows "\<exists>n. sSent s = batches n f"
proof (cases "sAbort s")
  case True
  then show ?thesis
    using assms by (auto simp: feed_inv_def finished_batches batches_take)
next
  case False
  then have "sSent s = take (length (sSent s)) (batches (min j k) f)"
    using assms unfolding feed_inv_def finished_batches by (metis append_eq_conv_conj)
  then show ?thesis by (metis batches_take)
qed

section \<open>The number of ranges\<close>

lemma sint_unat: "0 \<le> sint x \<Longrightarrow> sint x = int (unat x)" for x :: u64
proof -
  assume "0 \<le> sint x"
  moreover have "sint x < 2 ^ 64" using sint_lt [of x] by simp
  ultimately have "take_bit 64 (sint x) = sint x" by (rule take_bit_int_eq_self)
  then show "sint x = int (unat x)" using uint_sint [of x] by simp
qed

lemma nextRange_shrinks:
  "nextRange f = (Some rg, f') \<Longrightarrow> shRecords (vfShape f) \<ge> 1 \<Longrightarrow> 0 \<le> vfIndex f \<Longrightarrow>
   length (vf_rest f') < length (vf_rest f) \<and> 0 \<le> vfIndex f'"
proof (induction f rule: nextRange.induct)
  case (1 f)
  let ?r = "vfReaders f ! vfFile f"
  have fl: "vfFile f < length (vfReaders f)"
    using "1.prems"(1) by (auto simp: nextRange.simps [of f] split: if_splits)
  show ?case
  proof (cases "vfIndex f \<ge> Len ?r")
    case True
    let ?f = "f\<lparr>vfFile := vfFile f + 1, vfIndex := 0\<rparr>"
    have "nextRange ?f = (Some rg, f')"
      using "1.prems"(1) fl True by (simp add: nextRange.simps [of f])
    from "1.IH" [OF fl refl True this] "1.prems"(2)
    have "length (vf_rest f') < length (vf_rest ?f) \<and> 0 \<le> vfIndex f'" by simp
    moreover have "vf_rest ?f = partition_events (drop (Suc (vfFile f)) (vfReaders f))"
      using cursor_rest_file [of "vf_cursor ?f"] fl by (simp add: vf_rest_def vf_cursor_def)
    moreover have "length (partition_events (drop (Suc (vfFile f)) (vfReaders f))) \<le> length (vf_rest f)"
      using fl by (simp add: vf_rest_def cursor_rest_def vf_cursor_def)
    ultimately show ?thesis by simp
  next
    case False
    then have "Len ?r = int (length (contents ?r))"
      using "1.prems"(3) sint_unat [of "hRecordCount (rHdr ?r)"] by (simp add: Len_def length_contents)
    moreover define c where "c = (if shRecords (vfShape f) > Len ?r - vfIndex f then Len ?r - vfIndex f
      else shRecords (vfShape f))"
    have "f' = f\<lparr>vfIndex := vfIndex f + c\<rparr>" "1 \<le> c"
      using "1.prems"(1,2) fl False by (auto simp: nextRange.simps [of f] Let_def c_def)
    ultimately show ?thesis
      using False fl "1.prems"(3) by (auto simp: vf_rest_def cursor_rest_def vf_cursor_def)
  qed
qed

lemma length_ranges: "shape_valid (vfShape f) \<Longrightarrow> 0 \<le> vfIndex f \<Longrightarrow> length (ranges n f) \<le> length (vf_rest f)"
proof (induction n arbitrary: f)
  case (Suc n)
  show ?case
  proof (cases "nextRange f")
    case (Pair rg f')
    then show ?thesis
    proof (cases rg)
      case (Some r)
      have "length (vf_rest f') < length (vf_rest f) \<and> 0 \<le> vfIndex f'"
        using nextRange_shrinks Pair Some Suc.prems by (auto simp: shape_valid_def)
      moreover from this have "length (ranges n f') \<le> length (vf_rest f')"
        using Suc.IH [of f'] Suc.prems(1) nextRange_keeps [OF Pair] by simp
      ultimately show ?thesis using Pair Some by simp
    qed simp
  qed
qed simp

text \<open>C10: The merge receives a venue's batches in file and record order, whatever order the workers
  finish them in and however the goroutines interleave: in every reachable state what it has received
  is a first part of the sequential sequence, and when the owner has returned without an abort it is
  the whole sequence, errors included.\<close>

theorem feed_delivers:
  assumes "shape_valid (vfShape f)" "0 \<le> vfIndex f" "reachable f s"
  shows "(\<exists>n. sSent s = batches n f) \<and> (sPc s = Returned \<and> \<not> sAbort s \<longrightarrow> sSent s = all_batches f)"
proof -
  obtain j k where i: "feed_inv f j k s" using reachable_inv [OF assms(1,3)] by blast
  have "sSent s = all_batches f" if r: "sPc s = Returned" "\<not> sAbort s"
  proof -
    have j: "j = k" "\<forall>n. ranges n (sFeed s) = []" "sSent s = batches k f" "length (ranges k f) = k"
      "\<forall>n. ranges (k + n) f = ranges k f @ ranges n (sFeed s)"
      using i r by (auto simp: feed_inv_def finished_batches sending_def)
    have "k \<le> length (vf_rest f)"
      using length_ranges [OF assms(1,2), of k] j(4) by simp
    then obtain n where "Suc (length (vf_rest f)) = k + n"
      by (metis le_SucI le_Suc_ex)
    then have "ranges (Suc (length (vf_rest f))) f = ranges k f"
      using j(2,5) by simp
    then show ?thesis
      using j(3) by (simp add: all_batches_def batches_def del: ranges.simps)
  qed
  with sent_prefix [OF i] show ?thesis by blast
qed

section \<open>Progress and termination\<close>

lemma free_batch:
  assumes "feed_inv f j k s" "sPc s = Issuing" "may_issue s"
  shows "0 < sFree s"
proof (rule ccontr)
  assume "\<not> 0 < sFree s"
  then have "nat (shBatches (vfShape f)) \<le> length (sInflight s) + 1"
    using assms(1,2) by (simp add: feed_inv_def sending_def split: if_splits)
  moreover have "int (length (sInflight s)) < shBatches (vfShape f) - 1"
    using assms(1,3) unfolding may_issue_def feed_inv_def by metis
  ultimately show False by linarith
qed

lemma fstep_progress:
  assumes i: "feed_inv f j k s" and "sPc s \<noteq> Returned"
  shows "\<exists>s'. fstep s s'"
proof (cases "sPc s")
  case Issuing
  show ?thesis
  proof (cases "may_issue s")
    case True
    show ?thesis
    proof (cases "nextRange (sFeed s)")
      case (Pair rg g)
      then show ?thesis
        using fstep.issue [OF Issuing True] fstep.exhausted [OF Issuing True] free_batch [OF i Issuing True]
        by (cases rg) blast+
    qed
  next
    case False
    then show ?thesis using fstep.issued [OF Issuing] by blast
  qed
next
  case Awaiting
  then obtain sl rest where fl: "sInflight s = sl # rest"
    using i by (cases "sInflight s") (auto simp: feed_inv_def)
  show ?thesis
  proof (cases sl)
    case (Queued rg)
    then show ?thesis using fstep.decode [of s "[]" rg rest] fl by auto
  next
    case (Decoded rg b)
    obtain b' g where "finish_batch (sFeed s) b = (b', g)" by fastforce
    then show ?thesis
      using fstep.await [OF Awaiting] fstep.cancel [OF Awaiting] fl Decoded by blast
  qed
next
  case (Sending b)
  then show ?thesis
    using fstep.send [OF Sending] fstep.request [of s] fstep.drain [OF Sending]
    by (cases "sAbort s"; cases "sHeld s") blast+
qed (use assms(2) in simp)

text \<open>No deadlock. In every reachable state in which the owner has not returned some goroutine can
  take a step, aborted or not, and the owner never finds the free channel empty when it asks for a
  batch: backpressure is only ever the send to the merge.\<close>

theorem feed_progress:
  assumes "shape_valid (vfShape f)" "reachable f s" "sPc s \<noteq> Returned"
  shows "(\<exists>s'. fstep s s') \<and> (sPc s = Issuing \<and> may_issue s \<longrightarrow> 0 < sFree s)"
  using reachable_inv [OF assms(1,2)] fstep_progress free_batch assms(3) by blast

primrec slot_weight :: "slot \<Rightarrow> nat" where
  "slot_weight (Queued rg) = 6"
| "slot_weight (Decoded rg b) = 5"

definition pc_weight :: "owner_pc \<Rightarrow> nat" where
  "pc_weight pc = (case pc of Issuing \<Rightarrow> 1 | Awaiting \<Rightarrow> 0 | Sending _ \<Rightarrow> 3 | Returned \<Rightarrow> 0)"

definition work_left :: "feed_sys \<Rightarrow> nat" where
  "work_left s = 8 * length (vf_rest (sFeed s)) + sum_list (map slot_weight (sInflight s)) + pc_weight (sPc s)
     + (if sHeld s = None then 0 else 1) + (if sAbort s then 0 else 1)"

definition walkable :: "venueFeed \<Rightarrow> bool" where
  "walkable f \<longleftrightarrow> shape_valid (vfShape f) \<and> 0 \<le> vfIndex f"

lemma nextRange_None_rest: "nextRange f = (None, f') \<Longrightarrow> length (vf_rest f') \<le> length (vf_rest f) \<and> (0 \<le> vfIndex f \<longrightarrow> 0 \<le> vfIndex f')"
proof (induction f rule: nextRange.induct)
  case (1 f)
  show ?case
  proof (cases "vfFile f < length (vfReaders f) \<and> vfIndex f \<ge> Len (vfReaders f ! vfFile f)")
    case True
    let ?f = "f\<lparr>vfFile := vfFile f + 1, vfIndex := 0\<rparr>"
    have n: "nextRange ?f = (None, f')"
      using "1.prems" True by (simp add: nextRange.simps [of f])
    have "vf_rest ?f = partition_events (drop (Suc (vfFile f)) (vfReaders f))"
      using cursor_rest_file [of "vf_cursor ?f"] True by (simp add: vf_rest_def vf_cursor_def)
    moreover have "length (partition_events (drop (Suc (vfFile f)) (vfReaders f))) \<le> length (vf_rest f)"
      using True by (simp add: vf_rest_def cursor_rest_def vf_cursor_def)
    ultimately show ?thesis using "1.IH" [OF _ refl _ n] True by simp
  next
    case False
    then have "f' = f"
      using "1.prems" by (auto simp: nextRange.simps [of f] Let_def split: if_splits)
    then show ?thesis by simp
  qed
qed

lemma finish_batch_walk:
  assumes "finish_batch f b = (b', f')"
  shows "vf_rest f' = vf_rest f \<and> (walkable f' \<longleftrightarrow> walkable f)"
  by (subst (1 2) finish_batch_keeps [OF assms]) (simp add: walkable_def)

lemma fstep_work:
  assumes "fstep s s'" "walkable (sFeed s)"
  shows "walkable (sFeed s') \<and> work_left s' < work_left s"
  using assms(1)
proof (cases rule: fstep.cases)
  case (issue rg g)
  then have "length (vf_rest g) < length (vf_rest (sFeed s)) \<and> 0 \<le> vfIndex g"
    using nextRange_shrinks assms(2) by (auto simp: walkable_def shape_valid_def)
  then show ?thesis
    using issue assms(2) nextRange_keeps [OF issue(4)] by (simp add: work_left_def walkable_def)
next
  case (exhausted g)
  then show ?thesis
    using nextRange_None_rest [OF exhausted(4)] assms(2) nextRange_keeps [OF exhausted(4)]
    by (auto simp: work_left_def walkable_def pc_weight_def)
next
  case (await rg b rest b' g)
  then show ?thesis
    using finish_batch_walk [OF await(5)] assms(2) by (simp add: work_left_def pc_weight_def)
qed (use assms(2) in \<open>auto simp: work_left_def pc_weight_def\<close>)

lemma run_step_work:
  assumes "run_step s s'" "walkable (sFeed s)"
  shows "walkable (sFeed s') \<and> work_left s' < work_left s"
  using assms fstep_work [of s s'] by (auto simp: run_step_def work_left_def)

lemma run_work:
  "(run_step ^^ n) s s' \<Longrightarrow> walkable (sFeed s) \<Longrightarrow> n + work_left s' \<le> work_left s"
proof (induction n arbitrary: s')
  case (Suc n)
  obtain t where t: "(run_step ^^ n) s t" "run_step t s'" using Suc.prems(1) by auto
  have "walkable (sFeed t)"
    using t(1) Suc.prems(2) by (induction n arbitrary: t) (auto dest: run_step_work)
  then show ?case
    using Suc.IH [OF t(1) Suc.prems(2)] run_step_work [OF t(2)] by simp
qed simp

text \<open>Every run of a venue's goroutines ends: no run has more than eight steps per record of the
  partition and two more, whatever the files hold and whenever it is aborted.\<close>

theorem feed_terminates:
  assumes "shape_valid (vfShape f)" "0 \<le> vfIndex f" "(run_step ^^ n) (start_sys f) s"
  shows "n \<le> 8 * length (vf_rest f) + 2"
  using run_work [OF assms(3)] assms(1,2) by (simp add: walkable_def start_sys_def work_left_def pc_weight_def)

section \<open>Complete runs exist\<close>

lemma fstep_not_abort: "fstep s s' \<Longrightarrow> \<not> sAbort s \<Longrightarrow> \<not> sAbort s'"
  by (erule fstep.cases) simp_all

lemma run_to_end:
  "reachable f s \<Longrightarrow> shape_valid (vfShape f) \<Longrightarrow> walkable (sFeed s) \<Longrightarrow> \<not> sAbort s \<Longrightarrow>
   \<exists>s'. reachable f s' \<and> sPc s' = Returned \<and> \<not> sAbort s'"
proof (induction "work_left s" arbitrary: s rule: less_induct)
  case less
  show ?case
  proof (cases "sPc s = Returned")
    case False
    obtain j k where "feed_inv f j k s" using reachable_inv [OF less.prems(2,1)] by blast
    then obtain s' where s': "fstep s s'" using fstep_progress False by blast
    then have "reachable f s'"
      using less.prems(1) by (auto simp: reachable_def run_step_def intro: rtranclp.rtrancl_into_rtrancl)
    then show ?thesis
      using less.hyps [of s'] less.prems(2,4) fstep_work [OF s' less.prems(3)] fstep_not_abort [OF s'] by blast
  qed (use less.prems in blast)
qed

lemma start_run_to_end:
  assumes "walkable f"
  shows "\<exists>s. reachable f s \<and> sPc s = Returned \<and> \<not> sAbort s"
proof (rule run_to_end)
  show "reachable f (start_sys f)" by (simp add: reachable_def)
qed (use assms in \<open>simp_all add: walkable_def start_sys_def\<close>)

text \<open>A concrete feed: batches of two records over a file of three.\<close>

definition sample_feed :: venueFeed where
  "sample_feed = newVenueFeed (projr (NewCursor 3 [sample_reader 3])) \<lparr>shRecords = 2, shBatches = 2\<rparr>"

lemma sample_feed: "walkable sample_feed" "vf_ok sample_feed" "vf_rest sample_feed = image_events (sample_events 3)"
proof -
  obtain c where c: "NewCursor 3 [sample_reader 3] = Inr c" "cursor_ok c"
      "cursor_rest c = partition_events [sample_reader 3]" "\<not> cHasLast c" "cIndex c = 0"
    using NewCursor_ok [OF sample_partition] by blast
  have v: "shape_valid \<lparr>shRecords = 2, shBatches = 2\<rparr>" by (simp add: shape_valid_def)
  have f: "sample_feed = newVenueFeed c \<lparr>shRecords = 2, shBatches = 2\<rparr>"
    by (simp add: sample_feed_def c(1))
  show "walkable sample_feed" using c(5) v by (simp add: f newVenueFeed_def walkable_def)
  show "vf_ok sample_feed" "vf_rest sample_feed = image_events (sample_events 3)"
    using newVenueFeed_ok [OF c(2,4) v] c(3) by (simp_all add: f sample_partition_events)
qed

theorem feed_delivers_witness:
  "\<exists>s. reachable sample_feed s \<and> sPc s = Returned \<and> \<not> sAbort s
    \<and> concat (map bEvents (sSent s)) = image_events (sample_events 3)"
proof -
  obtain s where s: "reachable sample_feed s" "sPc s = Returned" "\<not> sAbort s"
    using start_run_to_end [OF sample_feed(1)] by blast
  have "sSent s = all_batches sample_feed"
    using feed_delivers [of sample_feed s] sample_feed(1) s by (simp add: walkable_def)
  then show ?thesis
    using s all_batches_sound(1) [OF sample_feed(2)] sample_feed(3) by auto
qed

theorem feed_progress_witness:
  "reachable sample_feed (start_sys sample_feed) \<and> sPc (start_sys sample_feed) = Issuing
    \<and> (\<exists>s'. fstep (start_sys sample_feed) s')"
proof -
  have r: "reachable sample_feed (start_sys sample_feed)" by (simp add: reachable_def)
  have pc: "sPc (start_sys sample_feed) = Issuing" by (simp add: start_sys_def)
  show ?thesis
    using feed_progress [OF _ r] sample_feed(1) r pc by (simp add: walkable_def)
qed

theorem feed_terminates_witness:
  "(run_step ^^ 1) (start_sys sample_feed) (start_sys sample_feed\<lparr>sAbort := True\<rparr>)
    \<and> (1 :: nat) \<le> 8 * length (vf_rest sample_feed) + 2 \<and> \<not> (\<exists>s. (run_step ^^ 27) (start_sys sample_feed) s)"
proof -
  have w: "shape_valid (vfShape sample_feed)" "0 \<le> vfIndex sample_feed"
    using sample_feed(1) by (simp_all add: walkable_def)
  have one: "(run_step ^^ 1) (start_sys sample_feed) (start_sys sample_feed\<lparr>sAbort := True\<rparr>)"
    unfolding relpowp_1 run_step_def by (simp add: start_sys_def)
  have "length (vf_rest sample_feed) = 3"
    by (simp add: sample_feed(3) image_events_def sample_events_def)
  then have "\<not> (\<exists>s. (run_step ^^ 27) (start_sys sample_feed) s)"
    using feed_terminates [OF w] by fastforce
  with one feed_terminates [OF w one] show ?thesis by blast
qed

end
