(* ===== verification/Book.thy ===== *)
theory Book
  imports Store_Format
begin

text \<open>
  The order book: \<^verbatim>\<open>src/internal/book/level.go\<close>, \<^verbatim>\<open>book.go\<close> and
  \<^verbatim>\<open>errors.go\<close>. A side is a list of levels in price order; it refines a map from prices to
  sizes. The locale \<open>level_map\<close> is that contract, in which the laws of the book's operations are
  proved once for both sides.
\<close>

section \<open>Levels\<close>

datatype book_error =
    ErrLevelNotFound | ErrDuplicateLevel | ErrWrongRecordType | ErrWrongInstrument | ErrBidCountOutOfRange

record side =
  sdLevels :: "Level list"

definition priceLess :: "Level \<Rightarrow> Level \<Rightarrow> bool" where
  "priceLess a b \<longleftrightarrow> sint (lPrice a) < sint (lPrice b)"

function search_loop_price :: "Level list \<Rightarrow> i64 \<Rightarrow> nat \<Rightarrow> nat \<Rightarrow> nat" where
  "search_loop_price levels price lo hi =
     (if lo < hi then
        let mid = (lo + hi) div 2 in
        if sint (lPrice (levels ! mid)) < sint price
        then search_loop_price levels price (mid + 1) hi
        else search_loop_price levels price lo mid
      else lo)"
  by pat_completeness auto
termination
  by (relation "measure (\<lambda>(levels, price, lo, hi). hi - lo)") auto

declare search_loop_price.simps [simp del]

definition side_search :: "side \<Rightarrow> i64 \<Rightarrow> nat \<times> bool" where
  "side_search s price =
     (let lo = search_loop_price (sdLevels s) price 0 (length (sdLevels s))
      in (lo, lo < length (sdLevels s) \<and> lPrice (sdLevels s ! lo) = price))"

definition upsert :: "side \<Rightarrow> i64 \<Rightarrow> i64 \<Rightarrow> book_error option \<times> side" where
  "upsert s price sz =
     (case side_search s price of
        (i, found) \<Rightarrow>
          if sz = 0 \<and> \<not> found then (Some ErrLevelNotFound, s)
          else if sz = 0 then
            (None, s\<lparr>sdLevels := take i (sdLevels s) @ drop (i + 1) (sdLevels s)\<rparr>)
          else if found then
            (None, s\<lparr>sdLevels := (sdLevels s)[i := (sdLevels s ! i)\<lparr>lSize := sz\<rparr>]\<rparr>)
          else
            (None, s\<lparr>sdLevels := take i (sdLevels s) @ [\<lparr>lPrice = price, lSize = sz\<rparr>] @ drop i (sdLevels s)\<rparr>))"

text \<open>
  \<^verbatim>\<open>sort.Slice\<close> does not say how it orders levels of one price; it matters only when
  \<open>ErrDuplicateLevel\<close> is returned.
\<close>

definition reset :: "side \<Rightarrow> Level list \<Rightarrow> book_error option \<times> side" where
  "reset s levels =
     (let sorted_levels = sort_key (\<lambda>l. sint (lPrice l)) levels;
          s = s\<lparr>sdLevels := sorted_levels\<rparr>
      in if list_ex (\<lambda>i. lPrice (sorted_levels ! i) = lPrice (sorted_levels ! (i - 1))) [1..<length sorted_levels]
         then (Some ErrDuplicateLevel, s) else (None, s))"

definition side_snapshot :: "side \<Rightarrow> Level list" where
  "side_snapshot s = sdLevels s"

section \<open>Books\<close>

record Book =
  bkInstrumentID :: u32
  bkBids :: side
  bkAsks :: side

definition emptySide :: side where "emptySide = \<lparr>sdLevels = []\<rparr>"

definition NewBook :: "u32 \<Rightarrow> Book" where
  "NewBook instrumentID = \<lparr>bkInstrumentID = instrumentID, bkBids = emptySide, bkAsks = emptySide\<rparr>"

definition book_InstrumentID :: "Book \<Rightarrow> u32" where
  "book_InstrumentID b = bkInstrumentID b"

text \<open>The swaps of \<^verbatim>\<open>reverseLevels\<close>.\<close>

function reverse_loop :: "nat \<Rightarrow> nat \<Rightarrow> 'a list \<Rightarrow> 'a list" where
  "reverse_loop i j xs =
     (if i < j then reverse_loop (i + 1) (j - 1) (xs[i := xs ! j, j := xs ! i]) else xs)"
  by pat_completeness auto
termination
  by (relation "measure (\<lambda>(i, j, xs). j - i)") auto

declare reverse_loop.simps [simp del]

definition reverseLevels :: "Level list \<Rightarrow> Level list" where
  "reverseLevels levels = reverse_loop 0 (length levels - 1) levels"

definition Bids :: "Book \<Rightarrow> Level list" where
  "Bids b = reverseLevels (side_snapshot (bkBids b))"

definition Asks :: "Book \<Rightarrow> Level list" where
  "Asks b = side_snapshot (bkAsks b)"

text \<open>\<open>None\<close> is the result \<^verbatim>\<open>false\<close>.\<close>

definition BestBid :: "Book \<Rightarrow> Level option" where
  "BestBid b =
     (let levels = sdLevels (bkBids b)
      in if length levels = 0 then None else Some (levels ! (length levels - 1)))"

definition BestAsk :: "Book \<Rightarrow> Level option" where
  "BestAsk b =
     (let levels = sdLevels (bkAsks b) in if length levels = 0 then None else Some (levels ! 0))"

definition ApplySnapshot :: "Book \<Rightarrow> Level list \<Rightarrow> int \<Rightarrow> book_error option \<times> Book" where
  "ApplySnapshot b levels bidCount =
     (if bidCount < 0 \<or> bidCount > int (length levels) then (Some ErrBidCountOutOfRange, b)
      else case reset (bkBids b) (take (nat bidCount) levels) of
          (Some e, s) \<Rightarrow> (Some e, b\<lparr>bkBids := s\<rparr>)
        | (None, s) \<Rightarrow>
            let b = b\<lparr>bkBids := s\<rparr> in
            (case reset (bkAsks b) (drop (nat bidCount) levels) of (err, s) \<Rightarrow> (err, b\<lparr>bkAsks := s\<rparr>)))"

text \<open>The wrapping of the error with \<^verbatim>\<open>fmt.Errorf\<close> keeps its identity and is left out.\<close>

definition Apply :: "Book \<Rightarrow> Record \<Rightarrow> book_error option \<times> Book" where
  "Apply b rec =
     (if RecordType rec \<noteq> RecordTypeDelta then (Some ErrWrongRecordType, b)
      else if InstrumentID rec \<noteq> bkInstrumentID b then (Some ErrWrongInstrument, b)
      else if SideFlags rec = SideAsk then
        (case upsert (bkAsks b) (Price rec) (Size rec) of (err, s) \<Rightarrow> (err, b\<lparr>bkAsks := s\<rparr>))
      else
        (case upsert (bkBids b) (Price rec) (Size rec) of (err, s) \<Rightarrow> (err, b\<lparr>bkBids := s\<rparr>)))"

section \<open>A side as a map\<close>

definition side_inv :: "side \<Rightarrow> bool" where
  "side_inv s \<longleftrightarrow> sorted_wrt priceLess (sdLevels s)"

definition side_map :: "side \<Rightarrow> i64 \<rightharpoonup> i64" where
  "side_map s = map_of (map (\<lambda>l. (lPrice l, lSize l)) (sdLevels s))"

lemma priceLess_trans: "priceLess a b \<Longrightarrow> priceLess b c \<Longrightarrow> priceLess a c"
  by (simp add: priceLess_def)

lemma sint_inject: "sint (a :: i64) = sint b \<longleftrightarrow> a = b"
  by (rule word_eq_iff_signed [symmetric])

text \<open>The binary search finds the first level at or above a price.\<close>

lemma search_loop_price_eq:
  "search_loop_price levels price lo hi = search_loop (\<lambda>k. \<not> sint (lPrice (levels ! k)) < sint price) lo hi"
proof (induction levels price lo hi rule: search_loop_price.induct)
  case (1 levels price lo hi)
  then show ?case
    by (simp add: search_loop_price.simps [of levels price lo hi] search_loop.simps [of _ lo hi] Let_def)
qed

lemma nth_priceLess: "sorted_wrt priceLess levels \<Longrightarrow> a < b \<Longrightarrow> b < length levels \<Longrightarrow>
    sint (lPrice (levels ! a)) < sint (lPrice (levels ! b))"
  using sorted_wrt_nth_less [of priceLess levels a b] by (simp add: priceLess_def)

lemma side_search_split:
  assumes "side_inv s" "side_search s price = (i, found)"
  shows "i \<le> length (sdLevels s)" "\<forall>l \<in> set (take i (sdLevels s)). sint (lPrice l) < sint price"
    "found \<Longrightarrow> i < length (sdLevels s) \<and> lPrice (sdLevels s ! i) = price"
    "\<forall>l \<in> set (drop (if found then i + 1 else i) (sdLevels s)). sint price < sint (lPrice l)"
proof -
  let ?L = "sdLevels s" and ?f = "\<lambda>k. \<not> sint (lPrice (sdLevels s ! k)) < sint price"
  have srt: "sorted_wrt priceLess ?L" using assms(1) by (simp add: side_inv_def)
  have "upclosed (length ?L) ?f"
    unfolding upclosed_def using nth_priceLess [OF srt] by (metis less_trans nat_less_le)
  note c = sort_Search_correct [OF this]
  have i: "i = sort_Search (length ?L) ?f" and fd: "found \<longleftrightarrow> i < length ?L \<and> lPrice (?L ! i) = price"
    using assms(2) by (auto simp: side_search_def Let_def search_loop_price_eq sort_Search_def)
  show il: "i \<le> length ?L" using c(1) i by simp
  show "\<forall>l \<in> set (take i ?L). sint (lPrice l) < sint price"
    using c(2) i by (auto simp: in_set_conv_nth)
  show "found \<Longrightarrow> i < length ?L \<and> lPrice (?L ! i) = price" using fd by simp
  have ge: "sint price \<le> sint (lPrice (?L ! k))" if "i \<le> k" "k < length ?L" for k
    using c(3) [of k] that i by simp
  have gt: "sint price < sint (lPrice (?L ! k))" if k: "(if found then i + 1 else i) \<le> k" "k < length ?L" for k
  proof (cases "i < k")
    case True
    then show ?thesis using nth_priceLess [OF srt True k(2)] ge [of i] k(2) by simp
  next
    case False
    then have "k = i" "\<not> found" using k by (auto split: if_splits)
    then have "lPrice (?L ! k) \<noteq> price" using fd k by simp
    then show ?thesis using ge [of k] \<open>k = i\<close> k sint_inject [of "lPrice (?L ! k)" price] by simp
  qed
  show "\<forall>l \<in> set (drop (if found then i + 1 else i) ?L). sint price < sint (lPrice l)"
    using gt by (force simp: in_set_conv_nth)
qed

abbreviation level_pairs :: "Level list \<Rightarrow> (i64 \<times> i64) list" where
  "level_pairs ls \<equiv> map (\<lambda>l. (lPrice l, lSize l)) ls"

lemma map_of_not_in: "\<forall>l \<in> set ls. lPrice l \<noteq> p \<Longrightarrow> map_of (level_pairs ls) p = None"
  by (auto simp: map_of_eq_None_iff)

lemma side_decompose:
  assumes "side_inv s" "side_search s price = (i, found)"
  shows "\<exists>pre post. sdLevels s = pre @ (if found then [sdLevels s ! i] else []) @ post \<and> length pre = i
    \<and> (found \<longrightarrow> lPrice (sdLevels s ! i) = price)
    \<and> (\<forall>l \<in> set pre. sint (lPrice l) < sint price) \<and> (\<forall>l \<in> set post. sint price < sint (lPrice l))
    \<and> sorted_wrt priceLess pre \<and> sorted_wrt priceLess post"
proof -
  let ?L = "sdLevels s" and ?n = "if found then i + 1 else i"
  note sp = side_search_split [OF assms]
  have "?L = take i ?L @ (if found then [?L ! i] else []) @ drop ?n ?L"
    using sp(3) id_take_nth_drop [of i ?L] by simp
  moreover have "sorted_wrt priceLess (take i ?L)" "sorted_wrt priceLess (drop ?n ?L)"
    using assms(1) unfolding side_inv_def by (simp_all add: sorted_wrt_take sorted_wrt_drop)
  moreover have "length (take i ?L) = i" using sp(1) by simp
  ultimately show ?thesis using sp(2,3,4) by blast
qed

lemma upsert_correct:
  assumes inv: "side_inv s"
  shows "side_inv (snd (upsert s p n)) \<and>
    (if n = 0 \<and> side_map s p = None then upsert s p n = (Some ErrLevelNotFound, s)
     else fst (upsert s p n) = None \<and>
       side_map (snd (upsert s p n)) = (if n = 0 then (side_map s)(p := None) else (side_map s)(p \<mapsto> n)))"
proof (cases "side_search s p")
  case (Pair i found)
  obtain pre post where d: "sdLevels s = pre @ (if found then [sdLevels s ! i] else []) @ post" "length pre = i"
      "found \<longrightarrow> lPrice (sdLevels s ! i) = p"
      "\<forall>l \<in> set pre. sint (lPrice l) < sint p" "\<forall>l \<in> set post. sint p < sint (lPrice l)"
      "sorted_wrt priceLess pre" "sorted_wrt priceLess post"
    using side_decompose [OF inv Pair] by blast
  have ne: "\<forall>l \<in> set pre. lPrice l \<noteq> p" "\<forall>l \<in> set post. lPrice l \<noteq> p" using d(4,5) by auto
  note none = map_of_not_in [OF ne(1)] map_of_not_in [OF ne(2)]
  have cross: "\<forall>a \<in> set pre. \<forall>b \<in> set post. priceLess a b" using d(4,5) by (fastforce simp: priceLess_def)
  have srt: "sorted_wrt priceLess (pre @ [l] @ post)" "sorted_wrt priceLess (pre @ post)" if "lPrice l = p" for l
    using that d(4-7) cross by (auto simp: sorted_wrt_append priceLess_def)
  show ?thesis
  proof (cases found)
    case True
    define l where "l = sdLevels s ! i"
    have L: "sdLevels s = pre @ [l] @ post" "lPrice l = p" using d(1,3) True by (simp_all add: l_def)
    have sm: "side_map s p = Some (lSize l)" using L none by (simp add: side_map_def map_add_def)
    have up: "upsert s p n = (None, s\<lparr>sdLevels := (if n = 0 then pre @ post else pre @ [l\<lparr>lSize := n\<rparr>] @ post)\<rparr>)"
      using Pair True L d(2) by (auto simp: upsert_def nth_append list_update_append)
    show ?thesis
      unfolding up using sm srt [of l] srt [of "l\<lparr>lSize := n\<rparr>"] L none
      by (auto simp: side_inv_def side_map_def map_add_def fun_eq_iff split: option.splits)
  next
    case False
    have L: "sdLevels s = pre @ post" using d(1) False by simp
    have sm: "side_map s p = None" using L none by (simp add: side_map_def map_add_def)
    have up: "upsert s p n = (if n = 0 then (Some ErrLevelNotFound, s)
        else (None, s\<lparr>sdLevels := pre @ [\<lparr>lPrice = p, lSize = n\<rparr>] @ post\<rparr>))"
      using Pair False L d(2) by (simp add: upsert_def)
    show ?thesis
      unfolding up using sm inv srt(1) [of "\<lparr>lPrice = p, lSize = n\<rparr>"] L none
      by (auto simp: side_inv_def side_map_def map_add_def fun_eq_iff split: option.splits)
  qed
qed

section \<open>The contract of a side\<close>

text \<open>What one update does to a map of levels; \<open>None\<close> is the removal of a level that is not there.\<close>

definition spec_upsert :: "(i64 \<rightharpoonup> i64) \<Rightarrow> i64 \<Rightarrow> i64 \<Rightarrow> (i64 \<rightharpoonup> i64) option" where
  "spec_upsert m p n = (if n = 0 then (if m p = None then None else Some (m(p := None))) else Some (m(p \<mapsto> n)))"

locale level_map =
  fixes inv :: "'s \<Rightarrow> bool" and look :: "'s \<Rightarrow> i64 \<rightharpoonup> i64"
    and upd :: "'s \<Rightarrow> i64 \<Rightarrow> i64 \<Rightarrow> book_error option \<times> 's"
  assumes upd_missing: "inv s \<Longrightarrow> spec_upsert (look s) p n = None \<Longrightarrow> upd s p n = (Some ErrLevelNotFound, s)"
    and upd_done: "inv s \<Longrightarrow> spec_upsert (look s) p n = Some m \<Longrightarrow>
      fst (upd s p n) = None \<and> look (snd (upd s p n)) = m \<and> inv (snd (upd s p n))"
begin

lemma upd_inv: "inv s \<Longrightarrow> inv (snd (upd s p n))"
  using upd_missing [of s p n] upd_done [of s p n] by (cases "spec_upsert (look s) p n") auto

lemma upd_error: "inv s \<Longrightarrow> fst (upd s p n) = (if spec_upsert (look s) p n = None then Some ErrLevelNotFound else None)"
  using upd_missing [of s p n] upd_done [of s p n] by (cases "spec_upsert (look s) p n") auto

text \<open>Setting a level and removing it again leaves the other levels alone.\<close>

lemma look_upd:
  "inv s \<Longrightarrow> fst (upd s p n) = None \<Longrightarrow>
   look (snd (upd s p n)) q = (if q = p then (if n = 0 then None else Some n) else look s q)"
proof -
  assume s: "inv s" "fst (upd s p n) = None"
  then obtain m where m: "spec_upsert (look s) p n = Some m"
    using upd_missing [of s p n] by (cases "spec_upsert (look s) p n") auto
  then have l: "look (snd (upd s p n)) = m" using upd_done [OF s(1)] by blast
  show ?thesis unfolding l using m by (auto simp: spec_upsert_def split: if_splits)
qed

end

interpretation side: level_map side_inv side_map upsert
proof
  show "upsert s p n = (Some ErrLevelNotFound, s)"
    if "side_inv s" "spec_upsert (side_map s) p n = None" for s p n
    using upsert_correct [OF that(1), of p n] that(2) by (simp add: spec_upsert_def split: if_splits)
  show "fst (upsert s p n) = None \<and> side_map (snd (upsert s p n)) = m \<and> side_inv (snd (upsert s p n))"
    if "side_inv s" "spec_upsert (side_map s) p n = Some m" for s p n m
    using upsert_correct [OF that(1), of p n] that(2) by (auto simp: spec_upsert_def split: if_splits)
qed

section \<open>Books as pairs of maps\<close>

type_synonym book_maps = "(i64 \<rightharpoonup> i64) \<times> (i64 \<rightharpoonup> i64)"

definition book_inv :: "Book \<Rightarrow> bool" where
  "book_inv b \<longleftrightarrow> side_inv (bkBids b) \<and> side_inv (bkAsks b)"

definition book_maps :: "Book \<Rightarrow> book_maps" where
  "book_maps b = (side_map (bkBids b), side_map (bkAsks b))"

definition spec_apply :: "u32 \<Rightarrow> book_maps \<Rightarrow> Record \<Rightarrow> book_error + book_maps" where
  "spec_apply instr m rec =
     (if RecordType rec \<noteq> RecordTypeDelta then Inl ErrWrongRecordType
      else if InstrumentID rec \<noteq> instr then Inl ErrWrongInstrument
      else if SideFlags rec = SideAsk then
        (case spec_upsert (snd m) (Price rec) (Size rec) of None \<Rightarrow> Inl ErrLevelNotFound | Some a \<Rightarrow> Inr (fst m, a))
      else
        (case spec_upsert (fst m) (Price rec) (Size rec) of None \<Rightarrow> Inl ErrLevelNotFound | Some a \<Rightarrow> Inr (a, snd m)))"

primrec spec_replay :: "u32 \<Rightarrow> book_maps \<Rightarrow> Record list \<Rightarrow> book_error + book_maps" where
  "spec_replay instr m [] = Inr m"
| "spec_replay instr m (r # rs) = bindE (spec_apply instr m r) (\<lambda>m. spec_replay instr m rs)"

text \<open>A caller's loop over deltas, which stops at the first error.\<close>

primrec replay :: "Book \<Rightarrow> Record list \<Rightarrow> book_error option \<times> Book" where
  "replay b [] = (None, b)"
| "replay b (r # rs) = (case Apply b r of (Some e, b) \<Rightarrow> (Some e, b) | (None, b) \<Rightarrow> replay b rs)"

lemma Apply_refines:
  assumes "book_inv b"
  shows "(case spec_apply (bkInstrumentID b) (book_maps b) rec of
      Inl e \<Rightarrow> Apply b rec = (Some e, b)
    | Inr m \<Rightarrow> fst (Apply b rec) = None \<and> book_maps (snd (Apply b rec)) = m)
    \<and> book_inv (snd (Apply b rec)) \<and> bkInstrumentID (snd (Apply b rec)) = bkInstrumentID b"
proof -
  have s: "side_inv (bkBids b)" "side_inv (bkAsks b)" using assms by (simp_all add: book_inv_def)
  consider (skip) "RecordType rec \<noteq> RecordTypeDelta \<or> InstrumentID rec \<noteq> bkInstrumentID b"
    | (ask) "RecordType rec = RecordTypeDelta" "InstrumentID rec = bkInstrumentID b" "SideFlags rec = SideAsk"
    | (bid) "RecordType rec = RecordTypeDelta" "InstrumentID rec = bkInstrumentID b" "SideFlags rec \<noteq> SideAsk"
    by blast
  then show ?thesis
  proof cases
    case skip
    then show ?thesis using assms by (auto simp: Apply_def spec_apply_def)
  next
    case ask
    then show ?thesis
      using s assms side.upd_missing [OF s(2), of "Price rec" "Size rec"] side.upd_done [OF s(2), of "Price rec" "Size rec"]
      by (cases "spec_upsert (side_map (bkAsks b)) (Price rec) (Size rec)")
        (auto simp: Apply_def spec_apply_def book_maps_def book_inv_def split: prod.splits)
  next
    case bid
    then show ?thesis
      using s assms side.upd_missing [OF s(1), of "Price rec" "Size rec"] side.upd_done [OF s(1), of "Price rec" "Size rec"]
      by (cases "spec_upsert (side_map (bkBids b)) (Price rec) (Size rec)")
        (auto simp: Apply_def spec_apply_def book_maps_def book_inv_def split: prod.splits)
  qed
qed

lemma replay_refines:
  "book_inv b \<Longrightarrow> (case spec_replay (bkInstrumentID b) (book_maps b) recs of
      Inl e \<Rightarrow> fst (replay b recs) = Some e
    | Inr m \<Rightarrow> fst (replay b recs) = None \<and> book_maps (snd (replay b recs)) = m)
    \<and> book_inv (snd (replay b recs)) \<and> bkInstrumentID (snd (replay b recs)) = bkInstrumentID b"
proof (induction recs arbitrary: b)
  case (Cons r rs)
  note a = Apply_refines [OF Cons.prems, of r]
  show ?case
  proof (cases "Apply b r")
    case (Pair err b1)
    show ?thesis
    proof (cases err)
      case None
      then have "spec_apply (bkInstrumentID b) (book_maps b) r = Inr (book_maps b1)"
        using a Pair by (auto split: sum.splits)
      moreover have b1: "book_inv b1" "bkInstrumentID b1 = bkInstrumentID b" using a Pair by auto
      ultimately have e: "spec_replay (bkInstrumentID b) (book_maps b) (r # rs)
          = spec_replay (bkInstrumentID b1) (book_maps b1) rs" "replay b (r # rs) = replay b1 rs"
        using Pair None by simp_all
      show ?thesis
        unfolding e using Cons.IH [OF b1(1)] unfolding b1(2) by blast
    next
      case (Some e)
      then have ae: "fst (Apply b r) = Some e" "replay b (r # rs) = Apply b r" using Pair by simp_all
      have sp: "spec_apply (bkInstrumentID b) (book_maps b) r = Inl e"
        using a ae(1) by (cases "spec_apply (bkInstrumentID b) (book_maps b) r") simp_all
      show ?thesis
        using a ae Cons.prems by (simp add: sp)
    qed
  qed
qed simp

text \<open>C11: Applying deltas to a book is updating a pair of maps from prices to sizes: a size replaces the
  level's size, zero removes it, removing a level that is not there stops with
  \<open>ErrLevelNotFound\<close>, and a record of another type or instrument is refused. The sides stay in strict
  price order throughout, so no price is ever held twice.\<close>

theorem book_refines_maps:
  assumes "book_inv b"
  shows "(case spec_replay (bkInstrumentID b) (book_maps b) recs of
      Inl e \<Rightarrow> fst (replay b recs) = Some e
    | Inr m \<Rightarrow> fst (replay b recs) = None \<and> book_maps (snd (replay b recs)) = m)
    \<and> book_inv (snd (replay b recs))"
  using replay_refines [OF assms, of recs] by blast

section \<open>Snapshots\<close>

lemma adjacent_iff:
  "list_ex (\<lambda>i. lPrice (xs ! i) = lPrice (xs ! (i - 1))) [1..<length xs] \<longleftrightarrow> \<not> sorted_wrt priceLess xs"
  if "sorted (map (\<lambda>l. sint (lPrice l)) xs)" for xs
proof -
  have "sorted_wrt priceLess xs \<longleftrightarrow> (\<forall>i. Suc i < length xs \<longrightarrow> priceLess (xs ! i) (xs ! Suc i))"
    by (rule sorted_wrt_iff_nth_Suc_transp) (rule transpI, rule priceLess_trans)
  moreover have "priceLess (xs ! i) (xs ! Suc i) \<longleftrightarrow> lPrice (xs ! Suc i) \<noteq> lPrice (xs ! i)" if "Suc i < length xs" for i
  proof -
    have "sint (lPrice (xs ! i)) \<le> sint (lPrice (xs ! Suc i))"
      using sorted_nth_mono [OF \<open>sorted (map (\<lambda>l. sint (lPrice l)) xs)\<close>, of i "Suc i"] that by simp
    then show ?thesis
      unfolding priceLess_def less_le sint_inject by metis
  qed
  moreover have "list_ex (\<lambda>i. lPrice (xs ! i) = lPrice (xs ! (i - 1))) [1..<length xs]
      \<longleftrightarrow> (\<exists>i. Suc i < length xs \<and> lPrice (xs ! Suc i) = lPrice (xs ! i))"
  proof
    assume "list_ex (\<lambda>i. lPrice (xs ! i) = lPrice (xs ! (i - 1))) [1..<length xs]"
    then obtain i where "1 \<le> i" "i < length xs" "lPrice (xs ! i) = lPrice (xs ! (i - 1))"
      by (auto simp: list_ex_iff)
    then show "\<exists>i. Suc i < length xs \<and> lPrice (xs ! Suc i) = lPrice (xs ! i)"
      by (intro exI [of _ "i - 1"]) simp
  next
    assume "\<exists>i. Suc i < length xs \<and> lPrice (xs ! Suc i) = lPrice (xs ! i)"
    then obtain i where "Suc i < length xs" "lPrice (xs ! Suc i) = lPrice (xs ! i)" by blast
    then show "list_ex (\<lambda>i. lPrice (xs ! i) = lPrice (xs ! (i - 1))) [1..<length xs]"
      by (auto simp: list_ex_iff intro!: bexI [of _ "Suc i"])
  qed
  ultimately show ?thesis by blast
qed

lemma strict_iff_distinct:
  assumes "sorted (map (\<lambda>l. sint (lPrice l)) xs)"
  shows "sorted_wrt priceLess xs \<longleftrightarrow> distinct (map lPrice xs)"
proof -
  have "sorted_wrt priceLess xs \<longleftrightarrow> sorted_wrt (<) (map (\<lambda>l. sint (lPrice l)) xs)"
    by (simp add: sorted_wrt_map priceLess_def [abs_def])
  also have "\<dots> \<longleftrightarrow> distinct (map (\<lambda>l. sint (lPrice l)) xs)"
    using assms strict_sorted_iff by blast
  also have "\<dots> \<longleftrightarrow> distinct (map lPrice xs)"
    by (simp add: distinct_map inj_on_def sint_inject)
  finally show ?thesis .
qed

lemma reset_correct:
  "(if distinct (map lPrice levels)
    then fst (reset s levels) = None \<and> side_inv (snd (reset s levels))
      \<and> side_map (snd (reset s levels)) = map_of (level_pairs levels)
    else fst (reset s levels) = Some ErrDuplicateLevel)"
proof -
  let ?k = "\<lambda>l. sint (lPrice l)" and ?xs = "sort_key (\<lambda>l. sint (lPrice l)) levels"
  have srt: "sorted (map ?k ?xs)" by simp
  have d: "distinct (map lPrice ?xs) \<longleftrightarrow> distinct (map lPrice levels)"
    by (simp add: distinct_map)
  have m: "map_of (level_pairs ?xs) = map_of (level_pairs levels)" if "distinct (map lPrice levels)"
    using that d by (subst map_of_inject_set) (simp_all add: comp_def)
  show ?thesis
    unfolding reset_def Let_def adjacent_iff [OF srt] strict_iff_distinct [OF srt] d
    using m strict_iff_distinct [OF srt] d by (simp add: side_inv_def side_map_def)
qed

text \<open>Applying a snapshot succeeds exactly when the bid count is in range and no side repeats a
  price, whatever order its levels come in; the book is then the snapshot and nothing of what it held
  before.\<close>

theorem ApplySnapshot_exact:
  "(if 0 \<le> bidCount \<and> bidCount \<le> int (length levels)
        \<and> distinct (map lPrice (take (nat bidCount) levels)) \<and> distinct (map lPrice (drop (nat bidCount) levels))
    then fst (ApplySnapshot b levels bidCount) = None \<and> book_inv (snd (ApplySnapshot b levels bidCount))
      \<and> book_maps (snd (ApplySnapshot b levels bidCount))
        = (map_of (level_pairs (take (nat bidCount) levels)), map_of (level_pairs (drop (nat bidCount) levels)))
    else fst (ApplySnapshot b levels bidCount)
      = Some (if 0 \<le> bidCount \<and> bidCount \<le> int (length levels) then ErrDuplicateLevel else ErrBidCountOutOfRange))"
  using reset_correct [of "take (nat bidCount) levels" "bkBids b"] reset_correct [of "drop (nat bidCount) levels" "bkAsks b"]
  by (auto simp: ApplySnapshot_def book_inv_def book_maps_def Let_def split: prod.splits option.splits if_splits)

section \<open>Views\<close>

lemma reverse_loop_nth:
  "j < length xs \<Longrightarrow> length (reverse_loop i j xs) = length xs \<and>
   (\<forall>k < length xs. reverse_loop i j xs ! k = (if i \<le> k \<and> k \<le> j then xs ! (i + j - k) else xs ! k))"
proof (induction i j xs rule: reverse_loop.induct)
  case (1 i j xs)
  show ?case
  proof (cases "i < j")
    case True
    let ?xs = "xs[i := xs ! j, j := xs ! i]"
    have "length (reverse_loop (i + 1) (j - 1) ?xs) = length ?xs \<and>
      (\<forall>k < length ?xs. reverse_loop (i + 1) (j - 1) ?xs ! k
         = (if i + 1 \<le> k \<and> k \<le> j - 1 then ?xs ! (i + 1 + (j - 1) - k) else ?xs ! k))"
      using True "1.prems" by (intro "1.IH") auto
    moreover have "?xs ! (i + j - k) = xs ! (i + j - k)" if "i + 1 \<le> k" "k \<le> j - 1" for k
      using that True by (simp add: nth_list_update)
    ultimately show ?thesis
      using True "1.prems" by (auto simp: reverse_loop.simps [of i j xs] nth_list_update)
  next
    case False
    then show ?thesis
      by (auto simp: reverse_loop.simps [of i j xs] intro: arg_cong [where f = "nth xs"])
  qed
qed

lemma reverseLevels_eq: "reverseLevels xs = rev xs"
proof (cases "xs = []")
  case False
  then have "length xs - 1 < length xs" by simp
  note r = reverse_loop_nth [OF this, of 0]
  show ?thesis
    by (rule nth_equalityI) (use r in \<open>auto simp: reverseLevels_def rev_nth\<close>)
qed (simp add: reverseLevels_def reverse_loop.simps)

text \<open>The views of a book are best first: bids in strictly decreasing price order, asks in strictly
  increasing order, with exactly the levels of the book; the best bid is the highest and the best ask
  the lowest of them, and there is one exactly when the side holds a level.\<close>

theorem book_views:
  assumes "book_inv b"
  shows "sorted_wrt (\<lambda>x y. priceLess y x) (Bids b) \<and> sorted_wrt priceLess (Asks b)
    \<and> map_of (level_pairs (Bids b)) = fst (book_maps b) \<and> map_of (level_pairs (Asks b)) = snd (book_maps b)
    \<and> BestBid b = (case Bids b of [] \<Rightarrow> None | l # _ \<Rightarrow> Some l)
    \<and> BestAsk b = (case Asks b of [] \<Rightarrow> None | l # _ \<Rightarrow> Some l)"
proof -
  let ?L = "sdLevels (bkBids b)"
  have srt: "sorted_wrt priceLess ?L" "sorted_wrt priceLess (sdLevels (bkAsks b))"
    using assms by (simp_all add: book_inv_def side_inv_def)
  have bids: "Bids b = rev ?L" by (simp add: Bids_def side_snapshot_def reverseLevels_eq)
  have "distinct (map lPrice xs)" if "sorted_wrt priceLess xs" for xs
    using that by (induction xs) (auto simp: priceLess_def)
  then have "distinct (map lPrice ?L)" using srt(1) .
  then have "map_of (level_pairs (rev ?L)) = map_of (level_pairs ?L)"
    by (subst map_of_inject_set) (simp_all add: comp_def rev_map [symmetric])
  moreover have "BestBid b = (case rev ?L of [] \<Rightarrow> None | l # _ \<Rightarrow> Some l)"
    by (cases ?L rule: rev_cases) (simp_all add: BestBid_def)
  moreover have "BestAsk b = (case Asks b of [] \<Rightarrow> None | l # _ \<Rightarrow> Some l)"
    by (cases "sdLevels (bkAsks b)") (simp_all add: BestAsk_def Asks_def side_snapshot_def)
  ultimately show ?thesis
    using srt by (simp add: bids book_maps_def side_map_def Asks_def side_snapshot_def sorted_wrt_rev)
qed

lemma NewBook_inv: "book_inv (NewBook i)" "book_maps (NewBook i) = (Map.empty, Map.empty)"
  by (simp_all add: NewBook_def book_inv_def book_maps_def side_inv_def side_map_def emptySide_def)

definition sample_book :: Book where
  "sample_book = \<lparr>bkInstrumentID = 3, bkBids = \<lparr>sdLevels = [\<lparr>lPrice = 98, lSize = 4\<rparr>, \<lparr>lPrice = 99, lSize = 5\<rparr>]\<rparr>,
     bkAsks = \<lparr>sdLevels = [\<lparr>lPrice = 101, lSize = 7\<rparr>]\<rparr>\<rparr>"

lemma sample_book_inv: "book_inv sample_book"
  by (simp add: sample_book_def book_inv_def side_inv_def priceLess_def)

theorem book_refines_maps_witness:
  "book_inv sample_book \<and>
   fst (replay sample_book [zeroRecord\<lparr>InstrumentID := 3, Price := 100, Size := 1\<rparr>,
      zeroRecord\<lparr>InstrumentID := 3, SideFlags := 1, Price := 50, Size := 0\<rparr>]) = Some ErrLevelNotFound"
  using book_refines_maps [OF sample_book_inv, of "[zeroRecord\<lparr>InstrumentID := 3, Price := 100, Size := 1\<rparr>,
      zeroRecord\<lparr>InstrumentID := 3, SideFlags := 1, Price := 50, Size := 0\<rparr>]"] sample_book_inv
  by (simp add: spec_apply_def zeroRecord_def record_types book_maps_def sample_book_def spec_upsert_def side_map_def)

theorem book_views_witness:
  "book_inv sample_book \<and> BestBid sample_book = Some \<lparr>lPrice = 99, lSize = 5\<rparr>
    \<and> Bids sample_book = [\<lparr>lPrice = 99, lSize = 5\<rparr>, \<lparr>lPrice = 98, lSize = 4\<rparr>]"
proof -
  have "Bids sample_book = [\<lparr>lPrice = 99, lSize = 5\<rparr>, \<lparr>lPrice = 98, lSize = 4\<rparr>]"
    by (simp add: Bids_def reverseLevels_eq side_snapshot_def sample_book_def)
  with book_views [OF sample_book_inv] sample_book_inv show ?thesis by simp
qed

end
