(* ===== verification/Book_WarmUp.thy ===== *)
theory Book_WarmUp
  imports Book Store_Image
begin

text \<open>
  Seek warm-up: \<^verbatim>\<open>src/internal/book/warmup.go\<close>. The theorem: on a file whose indexes are
  those of its records and whose epochs hold at most one snapshot per instrument, \<open>WarmUp\<close> gives the
  book of the instrument's last snapshot before the seek target with the later deltas applied, and the
  index the replay continues from; its errors are those of that snapshot and those deltas.
\<close>

section \<open>Operations\<close>

datatype warm_error = WarmStore store_error | WarmBook book_error

text \<open>The backward walk, from index \<open>i\<close>; \<open>None\<close> is the panic of a read.\<close>

primrec epochRunStart_loop :: "Reader \<Rightarrow> nat \<Rightarrow> int option" where
  "epochRunStart_loop r 0 = Some 0"
| "epochRunStart_loop r (Suc i) =
     (case RecordAt r (int i) of
        None \<Rightarrow> None
      | Some rec \<Rightarrow> if RecordType rec = RecordTypeSnapshotPointer then epochRunStart_loop r i else Some (int (Suc i)))"

definition epochRunStart :: "Reader \<Rightarrow> int \<Rightarrow> int option" where
  "epochRunStart r lastIdx = (if lastIdx > 0 then epochRunStart_loop r (nat lastIdx) else Some lastIdx)"

text \<open>The scan with \<open>k\<close> records to go. The inner \<open>None\<close> is the result \<^verbatim>\<open>false\<close>.\<close>

primrec findInstrument_loop :: "Reader \<Rightarrow> u32 \<Rightarrow> int \<Rightarrow> nat \<Rightarrow> int option option" where
  "findInstrument_loop r instrumentID i 0 = Some None"
| "findInstrument_loop r instrumentID i (Suc k) =
     (case RecordAt r i of
        None \<Rightarrow> None
      | Some rec \<Rightarrow>
          if RecordType rec = RecordTypeSnapshotPointer \<and> InstrumentID rec = instrumentID then Some (Some i)
          else findInstrument_loop r instrumentID (i + 1) k)"

definition findInstrumentSnapshot :: "Reader \<Rightarrow> int \<Rightarrow> int \<Rightarrow> u32 \<Rightarrow> int option option" where
  "findInstrumentSnapshot r start end_idx instrumentID =
     findInstrument_loop r instrumentID start (nat (end_idx + 1 - start))"

text \<open>
  The search for an epoch, from \<open>before\<close>: the book so far and the index deltas are replayed from.
  Each round ends or continues strictly before, so \<open>Suc (nat (before + 1))\<close> rounds are enough; running
  out of them would be the error value of \<open>0\<close>.
\<close>

primrec epoch_loop :: "nat \<Rightarrow> Reader \<Rightarrow> u32 \<Rightarrow> Book \<Rightarrow> int \<Rightarrow> warm_error + (Book \<times> int)" where
  "epoch_loop 0 r instrumentID b before = Inl (WarmStore Panic)"
| "epoch_loop (Suc fuel) r instrumentID b before =
     (if \<not> before \<ge> 0 then Inr (b, 0)
      else case SnapshotBefore r before of
          None \<Rightarrow> Inr (b, 0)
        | Some lastSnap \<Rightarrow>
          (case epochRunStart r lastSnap of
             None \<Rightarrow> Inl (WarmStore Panic)
           | Some epochStart \<Rightarrow>
             (case findInstrumentSnapshot r epochStart lastSnap instrumentID of
                None \<Rightarrow> Inl (WarmStore Panic)
              | Some (Some snapIdx) \<Rightarrow>
                  (case RecordAt r snapIdx of
                     None \<Rightarrow> Inl (WarmStore Panic)
                   | Some rec \<Rightarrow>
                     (case AppendLevels r [] rec of
                        (levels, bidCount, Some e) \<Rightarrow> Inl (WarmStore e)
                      | (levels, bidCount, None) \<Rightarrow>
                        (case ApplySnapshot b levels (int bidCount) of
                           (Some e, b) \<Rightarrow> Inl (WarmBook e)
                         | (None, b) \<Rightarrow> Inr (b, lastSnap + 1))))
              | Some None \<Rightarrow>
                  if epochStart = 0 then Inr (b, 0)
                  else epoch_loop fuel r instrumentID b (epochStart - 1))))"

text \<open>The replay of the deltas, with \<open>k\<close> records to go.\<close>

primrec deltas_loop :: "Reader \<Rightarrow> u32 \<Rightarrow> int \<Rightarrow> nat \<Rightarrow> Book \<Rightarrow> warm_error + Book" where
  "deltas_loop r instrumentID i 0 b = Inr b"
| "deltas_loop r instrumentID i (Suc k) b =
     (case RecordAt r i of
        None \<Rightarrow> Inl (WarmStore Panic)
      | Some rec \<Rightarrow>
          if RecordType rec \<noteq> RecordTypeDelta \<or> InstrumentID rec \<noteq> instrumentID
          then deltas_loop r instrumentID (i + 1) k b
          else (case Apply b rec of
                  (Some e, b) \<Rightarrow> Inl (WarmBook e)
                | (None, b) \<Rightarrow> deltas_loop r instrumentID (i + 1) k b))"

definition WarmUp :: "Reader \<Rightarrow> u32 \<Rightarrow> i64 \<Rightarrow> warm_error + (Book \<times> int)" where
  "WarmUp r instrumentID targetTs =
     (case SeekTime r targetTs of
        None \<Rightarrow> Inl (WarmStore Panic)
      | Some idx \<Rightarrow>
          bindE (epoch_loop (Suc (nat idx)) r instrumentID (NewBook instrumentID) (idx - 1)) (\<lambda>(b, from_idx).
          bindE (deltas_loop r instrumentID from_idx (nat (idx - from_idx)) b) (\<lambda>b.
          Inr (b, idx))))"

section \<open>Specification\<close>

definition snap_of :: "u32 \<Rightarrow> Record \<Rightarrow> bool" where
  "snap_of instr rec \<longleftrightarrow> RecordType rec = RecordTypeSnapshotPointer \<and> InstrumentID rec = instr"

definition delta_of :: "u32 \<Rightarrow> Record \<Rightarrow> bool" where
  "delta_of instr rec \<longleftrightarrow> RecordType rec = RecordTypeDelta \<and> InstrumentID rec = instr"

text \<open>The index of the instrument's last snapshot among the first \<open>n\<close> records.\<close>

primrec last_snap :: "u32 \<Rightarrow> Record list \<Rightarrow> nat \<Rightarrow> nat option" where
  "last_snap instr recs 0 = None"
| "last_snap instr recs (Suc n) = (if snap_of instr (recs ! n) then Some n else last_snap instr recs n)"

definition replay_from :: "Book \<Rightarrow> u32 \<Rightarrow> Record list \<Rightarrow> warm_error + Book" where
  "replay_from b instr recs =
     (case replay b (filter (delta_of instr) recs) of (Some e, b) \<Rightarrow> Inl (WarmBook e) | (None, b) \<Rightarrow> Inr b)"

definition book_at :: "Reader \<Rightarrow> u32 \<Rightarrow> nat \<Rightarrow> warm_error + Book" where
  "book_at r instr n =
     (let recs = contents r in
      case last_snap instr recs n of
        None \<Rightarrow> replay_from (NewBook instr) instr (take n recs)
      | Some s \<Rightarrow>
          (case AppendLevels r [] (recs ! s) of
             (levels, bidCount, Some e) \<Rightarrow> Inl (WarmStore e)
           | (levels, bidCount, None) \<Rightarrow>
               (case ApplySnapshot (NewBook instr) levels (int bidCount) of
                  (Some e, b) \<Rightarrow> Inl (WarmBook e)
                | (None, b) \<Rightarrow> replay_from b instr (drop (Suc s) (take n recs)))))"

text \<open>The epoch contract of \<^verbatim>\<open>docs/book.md\<close>: a run of snapshot records has at most one for an
  instrument.\<close>

definition one_per_epoch :: "u32 \<Rightarrow> Record list \<Rightarrow> bool" where
  "one_per_epoch instr recs \<longleftrightarrow>
     (\<forall>i j. i < j \<and> j < length recs \<and> snap_of instr (recs ! i) \<and> snap_of instr (recs ! j) \<longrightarrow>
        (\<exists>k. i < k \<and> k < j \<and> RecordType (recs ! k) \<noteq> RecordTypeSnapshotPointer))"

section \<open>Correctness\<close>

lemma last_snap_Some: "last_snap instr recs n = Some s \<Longrightarrow>
    s < n \<and> snap_of instr (recs ! s) \<and> (\<forall>i. s < i \<and> i < n \<longrightarrow> \<not> snap_of instr (recs ! i))"
  by (induction n) (auto split: if_splits simp: less_Suc_eq)

lemma last_snapI: "s < n \<Longrightarrow> snap_of instr (recs ! s) \<Longrightarrow> \<forall>i. s < i \<and> i < n \<longrightarrow> \<not> snap_of instr (recs ! i) \<Longrightarrow>
    last_snap instr recs n = Some s"
  by (induction n) (auto simp: less_Suc_eq)

lemma last_snap_None: "\<forall>i < n. \<not> snap_of instr (recs ! i) \<Longrightarrow> last_snap instr recs n = None"
  by (induction n) auto

lemma epochRunStart_loop_wf:
  assumes wf: "reader_wf r"
  shows "n < length (contents r) \<Longrightarrow> \<exists>e. epochRunStart_loop r n = Some (int e) \<and> e \<le> n
    \<and> (\<forall>i. e \<le> i \<and> i < n \<longrightarrow> RecordType (contents r ! i) = RecordTypeSnapshotPointer)"
proof (induction n)
  case (Suc n)
  then have at: "RecordAt r (int n) = Some (contents r ! n)"
    using RecordAt_wf [OF wf, of n] by simp
  show ?case
  proof (cases "RecordType (contents r ! n) = RecordTypeSnapshotPointer")
    case True
    obtain e where e: "epochRunStart_loop r n = Some (int e)" "e \<le> n"
        "\<forall>i. e \<le> i \<and> i < n \<longrightarrow> RecordType (contents r ! i) = RecordTypeSnapshotPointer"
      using Suc by auto
    then show ?thesis using at True by (intro exI [of _ e]) (auto simp: less_Suc_eq)
  next
    case False
    then show ?thesis using at by (intro exI [of _ "Suc n"]) auto
  qed
qed simp

lemma epochRunStart_wf:
  assumes "reader_wf r" "n < length (contents r)" "RecordType (contents r ! n) = RecordTypeSnapshotPointer"
  shows "\<exists>e. epochRunStart r (int n) = Some (int e) \<and> e \<le> n
    \<and> (\<forall>i. e \<le> i \<and> i \<le> n \<longrightarrow> RecordType (contents r ! i) = RecordTypeSnapshotPointer)"
proof (cases "n = 0")
  case True
  then show ?thesis using assms(3) by (intro exI [of _ 0]) (simp add: epochRunStart_def)
next
  case False
  obtain e where "epochRunStart_loop r n = Some (int e)" "e \<le> n"
      "\<forall>i. e \<le> i \<and> i < n \<longrightarrow> RecordType (contents r ! i) = RecordTypeSnapshotPointer"
    using epochRunStart_loop_wf [OF assms(1,2)] by blast
  then show ?thesis
    using False assms(3) by (intro exI [of _ e]) (auto simp: epochRunStart_def le_less)
qed

lemma findInstrument_loop_wf:
  assumes wf: "reader_wf r"
  shows "i + k \<le> length (contents r) \<Longrightarrow>
    findInstrument_loop r instr (int i) k = Some (map_option int (find (\<lambda>j. snap_of instr (contents r ! j)) [i..<i + k]))"
proof (induction k arbitrary: i)
  case (Suc k)
  then have "RecordAt r (int i) = Some (contents r ! i)"
    using RecordAt_wf [OF wf, of i] by simp
  moreover have s: "int i + 1 = int (Suc i)" by simp
  moreover have "[i..<i + Suc k] = i # [Suc i..<Suc i + k]" by (simp add: upt_conv_Cons)
  ultimately show ?case
    using Suc.IH [of "Suc i"] Suc.prems by (simp add: snap_of_def s del: upt_Suc of_nat_Suc)
qed simp

lemma deltas_loop_wf:
  assumes wf: "reader_wf r"
  shows "i + k \<le> length (contents r) \<Longrightarrow>
    deltas_loop r instr (int i) k b = replay_from b instr (sub (contents r) i k)"
proof (induction k arbitrary: i b)
  case 0
  then show ?case by (simp add: replay_from_def sub_def)
next
  case (Suc k)
  then have at: "RecordAt r (int i) = Some (contents r ! i)"
    using RecordAt_wf [OF wf, of i] by simp
  have s: "int i + 1 = int (Suc i)" by simp
  have "sub (contents r) i (Suc k) = contents r ! i # sub (contents r) (Suc i) k"
    using Suc.prems by (simp add: sub_def Cons_nth_drop_Suc [symmetric])
  then have sub: "filter (delta_of instr) (sub (contents r) i (Suc k)) =
      (if delta_of instr (contents r ! i) then [contents r ! i] else []) @ filter (delta_of instr) (sub (contents r) (Suc i) k)"
    by simp
  have IH: "deltas_loop r instr (int (Suc i)) k b = replay_from b instr (sub (contents r) (Suc i) k)" for b
    using Suc.IH [of "Suc i" b] Suc.prems by (simp del: of_nat_Suc)
  show ?case
  proof (cases "delta_of instr (contents r ! i)")
    case True
    then show ?thesis
      unfolding replay_from_def sub using at IH
      by (cases "Apply b (contents r ! i)"; cases "fst (Apply b (contents r ! i))")
        (simp_all add: delta_of_def s replay_from_def del: of_nat_Suc)
  next
    case False
    then show ?thesis
      unfolding replay_from_def sub using at IH
      by (auto simp: delta_of_def s replay_from_def simp del: of_nat_Suc)
  qed
qed

text \<open>A file whose snapshot index lists its snapshot records.\<close>

definition snaps_agree :: "Reader \<Rightarrow> bool" where
  "snaps_agree r \<longleftrightarrow> rSnapIndex r = spec_snaps (contents r)"

lemma SnapshotBefore_wf:
  assumes wf: "reader_wf r" and sa: "snaps_agree r" and n: "n < length (contents r)"
  shows "(\<exists>l \<le> n. SnapshotBefore r (int n) = Some (int l) \<and> RecordType (contents r ! l) = RecordTypeSnapshotPointer
      \<and> (\<forall>i. l < i \<and> i \<le> n \<longrightarrow> RecordType (contents r ! i) \<noteq> RecordTypeSnapshotPointer))
    \<or> SnapshotBefore r (int n) = None \<and> (\<forall>i \<le> n. RecordType (contents r ! i) \<noteq> RecordTypeSnapshotPointer)"
proof -
  let ?snap = "\<lambda>i. RecordType (contents r ! i) = RecordTypeSnapshotPointer"
  have len: "length (contents r) \<le> 2 ^ 40" using wf by (simp add: reader_wf_def length_contents)
  have u: "unat (of_nat i :: u64) = i" if "i < length (contents r)" for i
    using that len by (intro unat_of_nat_lt63) simp
  have srt: "sorted_wrt (<) (rSnapIndex r)" using wf by (simp add: reader_wf_def snapshot_index_ok_def)
  have set: "set (rSnapIndex r) = of_nat ` {i. i < length (contents r) \<and> ?snap i}"
    using sa by (auto simp: snaps_agree_def spec_snaps_def)
  have le: "(of_nat i :: u64) \<le> of_nat j \<longleftrightarrow> i \<le> j" if "i < length (contents r)" "j < length (contents r)" for i j
    using u that by (simp add: word_le_nat_alt)
  have w: "(word_of_int (int n) :: u64) = of_nat n" by simp
  show ?thesis
  proof (cases "\<exists>i \<le> n. ?snap i")
    case True
    define l where "l = Max {i. i \<le> n \<and> ?snap i}"
    have "l \<in> {i. i \<le> n \<and> ?snap i}" unfolding l_def using True by (intro Max_in) auto
    then have l: "l \<le> n" "?snap l" by auto
    have top: "i \<le> l" if "i \<le> n" "?snap i" for i
      unfolding l_def using that by (intro Max_ge) auto
    have "searchSnapshotIndex (rSnapIndex r) (of_nat n) = Some (of_nat l)"
      unfolding searchSnapshotIndex_correct [OF srt] set using l n top le by auto
    moreover have "sint (of_nat l :: u64) = int l"
      using u [of l] l n len sint_small [of "of_nat l"] by simp
    ultimately have "SnapshotBefore r (int n) = Some (int l)"
      by (simp add: SnapshotBefore_def w)
    moreover have "\<not> ?snap i" if "l < i" "i \<le> n" for i using top that by fastforce
    ultimately show ?thesis using l by blast
  next
    case False
    have "searchSnapshotIndex (rSnapIndex r) (of_nat n) \<noteq> Some v" for v
      unfolding searchSnapshotIndex_correct [OF srt] set using False le n by auto
    then have "SnapshotBefore r (int n) = None"
      by (cases "searchSnapshotIndex (rSnapIndex r) (of_nat n)") (auto simp: SnapshotBefore_def w)
    then show ?thesis using False by blast
  qed
qed

lemma find_upt_Some:
  assumes "find P [e..<k] = Some s"
  shows "e \<le> s \<and> s < k \<and> P s"
  using assms by (auto simp: find_Some_iff)

text \<open>What the search makes of the snapshot record it settles on.\<close>

definition load_snapshot :: "Reader \<Rightarrow> Book \<Rightarrow> Record \<Rightarrow> 'a \<Rightarrow> warm_error + (Book \<times> 'a)" where
  "load_snapshot r b rec x =
     (case AppendLevels r [] rec of
        (levels, bidCount, Some e) \<Rightarrow> Inl (WarmStore e)
      | (levels, bidCount, None) \<Rightarrow>
          (case ApplySnapshot b levels (int bidCount) of
             (Some e, b) \<Rightarrow> Inl (WarmBook e)
           | (None, b) \<Rightarrow> Inr (b, x)))"

lemma epoch_loop_wf:
  assumes wf: "reader_wf r" and sa: "snaps_agree r" and one: "one_per_epoch instr (contents r)"
    and m: "m \<le> length (contents r)"
  shows "n \<le> m \<Longrightarrow> n < fuel \<Longrightarrow> \<forall>i. n \<le> i \<and> i < m \<longrightarrow> \<not> snap_of instr (contents r ! i) \<Longrightarrow>
    (case last_snap instr (contents r) m of
       None \<Rightarrow> epoch_loop fuel r instr b (int n - 1) = Inr (b, 0)
     | Some s \<Rightarrow> \<exists>l. s \<le> l \<and> l < m \<and> (\<forall>i. s < i \<and> i \<le> l \<longrightarrow> RecordType (contents r ! i) = RecordTypeSnapshotPointer)
         \<and> epoch_loop fuel r instr b (int n - 1) = load_snapshot r b (contents r ! s) (int l + 1))"
proof (induction fuel arbitrary: n)
  case (Suc fuel)
  let ?snap = "\<lambda>i. RecordType (contents r ! i) = RecordTypeSnapshotPointer"
  let ?none = "\<lambda>n. \<forall>i. n \<le> i \<and> i < m \<longrightarrow> \<not> snap_of instr (contents r ! i)"
  have no_snap: "last_snap instr (contents r) m = None" if "\<forall>i < n. \<not> snap_of instr (contents r ! i)"
    using that Suc.prems(3) by (intro last_snap_None) (metis not_le)
  consider (zero) "n = 0" | (none) "0 < n" "SnapshotBefore r (int n - 1) = None" "\<forall>i < n. \<not> ?snap i"
    | (some) l where "0 < n" "l < n" "SnapshotBefore r (int n - 1) = Some (int l)" "?snap l" "\<forall>i. l < i \<and> i < n \<longrightarrow> \<not> ?snap i"
  proof (cases "n = 0")
    case False
    then obtain p where p: "n = Suc p" by (cases n) auto
    then have "p < length (contents r)" using Suc.prems(1) m by simp
    from SnapshotBefore_wf [OF wf sa this] show ?thesis
      using that(2,3) p by (auto simp: less_Suc_eq_le)
  qed simp
  then show ?case
  proof cases
    case zero
    then show ?thesis using no_snap by simp
  next
    case none
    then have "\<forall>i < n. \<not> snap_of instr (contents r ! i)" by (simp add: snap_of_def)
    then show ?thesis using no_snap none by simp
  next
    case (some l)
    have ll: "l < length (contents r)" using some(2) Suc.prems(1) m by simp
    obtain e where e: "epochRunStart r (int l) = Some (int e)" "e \<le> l" "\<forall>i. e \<le> i \<and> i \<le> l \<longrightarrow> ?snap i"
      using epochRunStart_wf [OF wf ll some(4)] by blast
    let ?find = "find (\<lambda>j. snap_of instr (contents r ! j)) [e..<Suc l]"
    have "nat (int l + 1 - int e) = Suc l - e" using e(2) by simp
    then have f: "findInstrumentSnapshot r (int e) (int l) instr = Some (map_option int ?find)"
      using findInstrument_loop_wf [OF wf, of e "Suc l - e" instr] e(2) ll by (simp add: findInstrumentSnapshot_def)
    have after: "\<not> snap_of instr (contents r ! i)" if "l < i" "i < m" for i
      using that some(5) Suc.prems(3) by (cases "i < n") (auto simp: snap_of_def)
    show ?thesis
    proof (cases ?find)
      case None
      then have none: "\<not> snap_of instr (contents r ! i)" if "e \<le> i" "i \<le> l" for i
        using that unfolding find_None_iff by auto
      show ?thesis
      proof (cases "e = 0")
        case True
        then have "\<forall>i < n. \<not> snap_of instr (contents r ! i)"
          using none after Suc.prems(1) by (metis le0 le_less_linear less_le_trans)
        then show ?thesis using no_snap some e(1) f None True by simp
      next
        case False
        have "?none e" using none after by (metis le_less_linear)
        moreover have "e \<le> m" "e < fuel" using e(2) some(2) Suc.prems(1,2) by auto
        moreover have eq: "epoch_loop (Suc fuel) r instr b (int n - 1) = epoch_loop fuel r instr b (int e - 1)"
          using some e(1) f None False by simp
        ultimately show ?thesis
          unfolding eq by (intro Suc.IH)
      qed
    next
      case (Some s)
      then have s: "e \<le> s" "s \<le> l" "snap_of instr (contents r ! s)"
        using find_upt_Some by fastforce+
      have "\<not> snap_of instr (contents r ! i)" if "s < i" "i \<le> l" for i
      proof
        assume "snap_of instr (contents r ! i)"
        moreover have "i < length (contents r)" using that ll by simp
        ultimately have "\<exists>k. s < k \<and> k < i \<and> \<not> ?snap k"
          using one s(3) that(1) unfolding one_per_epoch_def by blast
        then show False using e(3) s(1) that by (meson le_less_trans less_imp_le order_trans)
      qed
      then have "last_snap instr (contents r) m = Some s"
        using s after some(2) Suc.prems(1) by (intro last_snapI) (auto simp: not_le intro: leI)
      moreover have "RecordAt r (int s) = Some (contents r ! s)"
        using RecordAt_wf [OF wf, of s] s ll by simp
      then have "epoch_loop (Suc fuel) r instr b (int n - 1) = load_snapshot r b (contents r ! s) (int l + 1)"
        using some e(1) f Some by (simp add: load_snapshot_def)
      moreover have "\<forall>i. s < i \<and> i \<le> l \<longrightarrow> ?snap i" using e(3) s(1) by auto
      moreover have "l < m" using some(2) Suc.prems(1) by simp
      ultimately show ?thesis using s(2) by auto
    qed
  qed
qed simp

lemma replay_from_skip:
  assumes "s \<le> l" "l < n" "n \<le> length recs" "\<forall>i. s < i \<and> i \<le> l \<longrightarrow> RecordType (recs ! i) = RecordTypeSnapshotPointer"
  shows "replay_from b instr (sub recs (Suc l) (n - Suc l)) = replay_from b instr (drop (Suc s) (take n recs))"
proof -
  have "drop (Suc s) (take n recs) = sub recs (Suc s) (l - s) @ sub recs (Suc l) (n - Suc l)"
    using assms(1-3) sub_split [of "Suc s" "l - s" "n - Suc l" recs] by (simp add: sub_def drop_take)
  moreover have "filter (delta_of instr) (sub recs (Suc s) (l - s)) = []"
    using assms by (auto simp: filter_empty_conv in_set_conv_nth length_sub nth_sub delta_of_def record_types)
  ultimately show ?thesis by (simp add: replay_from_def)
qed

text \<open>C12: Warm-up reconstructs the book at the seek target. On a file whose indexes describe its records
  and whose epochs have at most one snapshot per instrument, it returns the book of the instrument's
  last snapshot before the target with the instrument's later deltas applied in order, or of all its
  deltas when there is no snapshot, and the index of the first record at or after the target; it fails
  exactly when that snapshot does not decode or apply or one of those deltas does not. The search
  through the epochs always ends.\<close>

theorem WarmUp_exact:
  assumes "reader_wf r" "time_ordered (contents r)" "index_agrees r" "snaps_agree r"
    and "one_per_epoch instr (contents r)"
  shows "WarmUp r instr t =
    (let n = first_at_or_after (contents r) t in
     case book_at r instr n of Inl e \<Rightarrow> Inl e | Inr b \<Rightarrow> Inr (b, int n))"
proof -
  define n where "n = first_at_or_after (contents r) t"
  have n: "n \<le> length (contents r)" unfolding n_def by (rule first_at_or_after_le)
  have seek: "SeekTime r t = Some (int n)" using SeekTime_eq [OF assms(1-3)] by (simp add: n_def)
  let ?b = "NewBook instr"
  have ep: "case last_snap instr (contents r) n of
       None \<Rightarrow> epoch_loop (Suc n) r instr ?b (int n - 1) = Inr (?b, 0)
     | Some s \<Rightarrow> \<exists>l. s \<le> l \<and> l < n \<and> (\<forall>i. s < i \<and> i \<le> l \<longrightarrow> RecordType (contents r ! i) = RecordTypeSnapshotPointer)
         \<and> epoch_loop (Suc n) r instr ?b (int n - 1) = load_snapshot r ?b (contents r ! s) (int l + 1)"
    by (rule epoch_loop_wf [OF assms(1,4,5) n]) auto
  show ?thesis
  proof (cases "last_snap instr (contents r) n")
    case None
    have "deltas_loop r instr 0 n ?b = replay_from ?b instr (take n (contents r))"
      using deltas_loop_wf [OF assms(1), of 0 n] n by (simp add: sub_def)
    then show ?thesis
      using ep None seek
      by (simp add: WarmUp_def book_at_def Let_def n_def [symmetric] bindE_def split: sum.split)
  next
    case (Some s)
    then obtain l where l: "s \<le> l" "l < n" "\<forall>i. s < i \<and> i \<le> l \<longrightarrow> RecordType (contents r ! i) = RecordTypeSnapshotPointer"
        "epoch_loop (Suc n) r instr ?b (int n - 1) = load_snapshot r ?b (contents r ! s) (int l + 1)"
      using ep by auto
    have k: "nat (int n - (int l + 1)) = n - Suc l" "int l + 1 = int (Suc l)" by simp_all
    have "deltas_loop r instr (int (Suc l)) (n - Suc l) b = replay_from b instr (drop (Suc s) (take n (contents r)))" for b
      using deltas_loop_wf [OF assms(1), of "Suc l" "n - Suc l" instr b] l(2) n
        replay_from_skip [OF l(1,2) n l(3), of b instr] by simp
    then have "WarmUp r instr t = bindE (load_snapshot r ?b (contents r ! s) (int (Suc l))) (\<lambda>(b, from_idx).
        bindE (replay_from b instr (drop (Suc s) (take n (contents r)))) (\<lambda>b. Inr (b, int n)))"
      using seek l(4) k
      by (auto simp: WarmUp_def load_snapshot_def simp del: of_nat_Suc split: option.split prod.split)
    then show ?thesis
      using Some unfolding book_at_def load_snapshot_def Let_def n_def [symmetric] bindE_def
      by (auto split: prod.split option.split sum.split)
  qed
qed

section \<open>Witness\<close>

text \<open>A file with a snapshot, a delta, and a delta at the target.\<close>

definition warm_header :: header where
  "warm_header = example_header\<lparr>hVenueID := 9\<rparr>"

definition warm_events :: "event list" where
  "warm_events =
     [EvSnapshot (zeroRecord\<lparr>VenueID := 9, InstrumentID := 3, ExchangeTs := 1\<rparr>) [\<lparr>lPrice = 99, lSize = 5\<rparr>] [],
      EvRecord (example_delta\<lparr>ExchangeTs := 5\<rparr>), EvRecord (example_delta\<lparr>ExchangeTs := 7\<rparr>)]"

definition warm_reader :: Reader where
  "warm_reader = image_reader warm_header warm_events"

lemma warm_ok: "base_header_ok warm_header" "events_ok warm_header warm_events"
  by (simp_all add: base_header_ok_def warm_header_def example_header_def events_ok_def warm_events_def
      stored_ok_def example_delta_def zeroRecord_def validateRecord_def record_types record_layout
      blobHeaderSize_def levelSize_def compareKey_def)

lemma warm_contents: "contents warm_reader = stored 0 warm_events"
  using contents_image [OF warm_ok] by (simp add: warm_reader_def)

lemma warm_levels: "AppendLevels warm_reader [] (contents warm_reader ! 0) = ([\<lparr>lPrice = 99, lSize = 5\<rparr>], 1, None)"
proof -
  have "Blob warm_reader (stored 0 warm_events ! 0) = Inr (payload_bytes [\<lparr>lPrice = 99, lSize = 5\<rparr>] [])"
    unfolding warm_reader_def
    by (rule Blob_image [OF warm_ok]) (simp_all add: warm_events_def)
  then show ?thesis
    using AppendLevels_payload [of "[\<lparr>lPrice = 99, lSize = 5\<rparr>]" "[]"] by (simp add: warm_contents)
qed

theorem WarmUp_exact_witness:
  "reader_wf warm_reader \<and> snaps_agree warm_reader \<and> one_per_epoch 3 (contents warm_reader)
   \<and> WarmUp warm_reader 3 7 = Inr (\<lparr>bkInstrumentID = 3, bkBids = \<lparr>sdLevels = [\<lparr>lPrice = 99, lSize = 5\<rparr>]\<rparr>,
       bkAsks = \<lparr>sdLevels = [\<lparr>lPrice = 100, lSize = 12\<rparr>]\<rparr>\<rparr>, 2)"
proof -
  have h: "reader_wf warm_reader" "index_agrees warm_reader"
    using image_reader_wf [OF warm_ok] index_agrees_image [OF warm_ok] by (simp_all add: warm_reader_def)
  have ord: "time_ordered (contents warm_reader)"
    by (simp add: warm_contents time_ordered_def warm_events_def)
  have sa: "snaps_agree warm_reader"
    unfolding snaps_agree_def warm_contents by (simp add: warm_reader_def)
  have one: "one_per_epoch 3 (contents warm_reader)"
    by (auto simp: one_per_epoch_def warm_contents snap_of_def warm_events_def less_Suc_eq numeral_3_eq_3
        example_delta_def zeroRecord_def record_types)
  have n: "first_at_or_after (contents warm_reader) 7 = 2"
    by (simp add: warm_contents first_at_or_after_def warm_events_def)
  have ls: "last_snap 3 (contents warm_reader) 2 = Some 0"
    by (simp add: numeral_2_eq_2 warm_contents warm_events_def snap_of_def example_delta_def zeroRecord_def record_types)
  have "book_at warm_reader 3 2 = Inr \<lparr>bkInstrumentID = 3, bkBids = \<lparr>sdLevels = [\<lparr>lPrice = 99, lSize = 5\<rparr>]\<rparr>,
       bkAsks = \<lparr>sdLevels = [\<lparr>lPrice = 100, lSize = 12\<rparr>]\<rparr>\<rparr>"
    unfolding book_at_def Let_def ls option.case warm_levels
    by (simp add: ApplySnapshot_def NewBook_def emptySide_def reset_def warm_contents warm_events_def replay_from_def
        delta_of_def example_delta_def zeroRecord_def record_types Apply_def upsert_def side_search_def
        search_loop_price.simps)
  with WarmUp_exact [OF h(1) ord h(2) sa one, of 7] h(1) sa one n show ?thesis
    by simp
qed

end
