(* ===== verification/Fanout_Speed.thy ===== *)
theory Fanout_Speed
  imports Prelude
begin

text \<open>
  Replay speed: \<^verbatim>\<open>src/internal/fanout/speed.go\<close>. Speeds are exact fractions in lowest terms,
  and a delivery time is computed with a 128-bit product. An \<^verbatim>\<open>int64\<close> is an \<open>int\<close> in
  \<open>int64\<close>'s range; where the source's arithmetic can leave the range, \<open>wrap64\<close> is written out.
\<close>

definition int64 :: "int \<Rightarrow> bool" where
  "int64 x \<longleftrightarrow> - (2 ^ 63) \<le> x \<and> x < 2 ^ 63"

definition MaxInt64 :: int where "MaxInt64 = 2 ^ 63 - 1"

text \<open>The conversion \<^verbatim>\<open>uint64(x)\<close>.\<close>

definition uint64 :: "int \<Rightarrow> int" where
  "uint64 x = x mod 2 ^ 64"

record Speed =
  sNum :: int
  sDen :: int

datatype speed_error = ErrInvalidSpeed

definition maxSpeedTerm :: int where "maxSpeedTerm = 2 ^ 31"
definition maxSpeedUp :: int where "maxSpeedUp = 1000000"
definition maxSlowdown :: int where "maxSlowdown = 1024"

lemma go_rem_sgn: "b \<noteq> 0 \<Longrightarrow> go_rem a b = sgn a * (\<bar>a\<bar> mod \<bar>b\<bar>)"
proof -
  assume "b \<noteq> 0"
  have "go_rem a b = sgn a * \<bar>a\<bar> - (b * sgn b) * sgn a * (\<bar>a\<bar> div \<bar>b\<bar>)"
    by (simp add: go_rem_def go_quot_def sgn_mult_abs)
  also have "b * sgn b = \<bar>b\<bar>" by (simp add: abs_sgn)
  also have "sgn a * \<bar>a\<bar> - \<bar>b\<bar> * sgn a * (\<bar>a\<bar> div \<bar>b\<bar>) = sgn a * (\<bar>a\<bar> - \<bar>b\<bar> * (\<bar>a\<bar> div \<bar>b\<bar>))"
    by (simp add: algebra_simps)
  finally show ?thesis by (simp add: minus_mult_div_eq_mod)
qed

lemma go_rem_nonneg: "0 \<le> a \<Longrightarrow> 0 < b \<Longrightarrow> go_rem a b = a mod b"
  by (cases "a = 0") (simp_all add: go_rem_sgn)

lemma abs_go_rem: "b \<noteq> 0 \<Longrightarrow> \<bar>go_rem a b\<bar> < \<bar>b\<bar>"
  by (simp add: go_rem_sgn abs_mult sgn_if)

function gcdInt64 :: "int \<Rightarrow> int \<Rightarrow> int" where
  "gcdInt64 a b = (if b \<noteq> 0 then gcdInt64 b (go_rem a b) else a)"
  by pat_completeness auto
termination
  by (relation "measure (\<lambda>(a, b). nat \<bar>b\<bar>)") (use abs_go_rem in auto)

declare gcdInt64.simps [simp del]

definition NewSpeed :: "int \<Rightarrow> int \<Rightarrow> speed_error + Speed" where
  "NewSpeed num den =
     (if num \<le> 0 \<or> den \<le> 0 then Inl ErrInvalidSpeed
      else let g = gcdInt64 num den;
               (num, den) = (if g > 1 then (go_quot num g, go_quot den g) else (num, den))
      in if num > maxSpeedTerm \<or> den > maxSpeedTerm then Inl ErrInvalidSpeed
         else if num > wrap64 (maxSpeedUp * den) then Inl ErrInvalidSpeed
         else if den > wrap64 (maxSlowdown * num) then Inl ErrInvalidSpeed
         else Inr \<lparr>sNum = num, sDen = den\<rparr>)"

definition Num :: "Speed \<Rightarrow> int" where "Num s = sNum s"
definition Den :: "Speed \<Rightarrow> int" where "Den s = sDen s"

text \<open>\<^verbatim>\<open>bits.Mul64\<close> and \<^verbatim>\<open>bits.Div64\<close>; the latter panics, here \<open>None\<close>, on a zero divisor
  or a quotient that does not fit.\<close>

definition bits_Mul64 :: "int \<Rightarrow> int \<Rightarrow> int \<times> int" where
  "bits_Mul64 x y = (x * y div 2 ^ 64, x * y mod 2 ^ 64)"

definition bits_Div64 :: "int \<Rightarrow> int \<Rightarrow> int \<Rightarrow> int option" where
  "bits_Div64 hi lo y = (if y = 0 \<or> y \<le> hi then None else Some ((hi * 2 ^ 64 + lo) div y))"

definition DeliveryTime :: "Speed \<Rightarrow> int \<Rightarrow> int \<Rightarrow> int \<Rightarrow> int option" where
  "DeliveryTime s t0 base ts =
     (let dt = wrap64 (ts - base) in
      if dt \<le> 0 then Some t0
      else let (hi, lo) = bits_Mul64 (uint64 dt) (uint64 (sDen s)) in
      if hi \<ge> uint64 (sNum s) then Some MaxInt64
      else case bits_Div64 hi lo (uint64 (sNum s)) of
          None \<Rightarrow> None
        | Some q \<Rightarrow>
            if q > uint64 MaxInt64 then Some MaxInt64
            else let d = wrap64 q in
            if t0 > wrap64 (MaxInt64 - d) then Some MaxInt64
            else Some (wrap64 (t0 + d)))"

section \<open>Speeds\<close>

lemma gcdInt64_eq: "0 \<le> a \<Longrightarrow> 0 \<le> b \<Longrightarrow> gcdInt64 a b = gcd a b"
proof (induction a b rule: gcdInt64.induct)
  case (1 a b)
  show ?case
  proof (cases "b = 0")
    case False
    then have "0 < b" using "1.prems"(2) by simp
    then show ?thesis
      using "1.IH" [OF False] "1.prems" go_rem_nonneg [of a b] gcd_red_int [of a b]
      by (simp add: gcdInt64.simps [of a b])
  qed (use "1.prems" in \<open>simp add: gcdInt64.simps\<close>)
qed

text \<open>A fraction in lowest terms within the bounds.\<close>

definition speed_ok :: "int \<Rightarrow> int \<Rightarrow> bool" where
  "speed_ok n d \<longleftrightarrow> 0 < n \<and> 0 < d \<and> n \<le> 2 ^ 31 \<and> d \<le> 2 ^ 31 \<and> n \<le> 1000000 * d \<and> d \<le> 1024 * n"

lemma NewSpeed_eq:
  assumes "0 < num" "0 < den"
  shows "NewSpeed num den =
    (let n = num div gcd num den; d = den div gcd num den in
     if speed_ok n d then Inr \<lparr>sNum = n, sDen = d\<rparr> else Inl ErrInvalidSpeed)"
proof -
  let ?g = "gcd num den" and ?n = "num div gcd num den" and ?d = "den div gcd num den"
  have g: "0 < ?g" using assms by (simp add: gcd_pos_int)
  have pos: "0 < ?n" "0 < ?d" using assms g by (simp_all add: pos_imp_zdiv_pos_iff zdvd_imp_le)
  have red: "(if ?g > 1 then (go_quot num ?g, go_quot den ?g) else (num, den)) = (?n, ?d)"
  proof (cases "?g = 1")
    case False
    then have "?g > 1" using g by linarith
    then show ?thesis using assms go_quot_nonneg [of num ?g] go_quot_nonneg [of den ?g] by simp
  qed simp
  have w: "wrap64 (maxSpeedUp * ?d) = 1000000 * ?d" "wrap64 (maxSlowdown * ?n) = 1024 * ?n"
    if "?n \<le> 2 ^ 31" "?d \<le> 2 ^ 31"
    using that pos by (simp_all add: maxSpeedUp_def maxSlowdown_def wrap64_id)
  show ?thesis
    using assms pos w unfolding NewSpeed_def gcdInt64_eq [OF less_imp_le less_imp_le, OF assms] Let_def red
    by (auto simp: speed_ok_def maxSpeedTerm_def)
qed

text \<open>A speed is its ratio. \<^verbatim>\<open>NewSpeed\<close> accepts a fraction exactly when it is positive and
  its lowest terms are within the bounds, holds it in lowest terms, and gives the same speed, or the
  same refusal, for any two ways of writing one ratio.\<close>

theorem NewSpeed_canonical:
  assumes "0 < num" "0 < den" "0 < num'" "0 < den'" "num * den' = num' * den"
  shows "NewSpeed num den = NewSpeed num' den'
    \<and> (case NewSpeed num den of
         Inr s \<Rightarrow> coprime (sNum s) (sDen s) \<and> sNum s * den = sDen s * num \<and> speed_ok (sNum s) (sDen s)
       | Inl e \<Rightarrow> \<not> speed_ok (num div gcd num den) (den div gcd num den))"
proof -
  let ?g = "gcd num den" and ?g' = "gcd num' den'"
  obtain n d where nd: "num = ?g * n" "den = ?g * d" "coprime n d"
    using gcd_coprime_exists [of num den] assms(1) by (metis gcd_eq_0_iff less_numeral_extra(3) mult.commute)
  obtain n' d' where nd': "num' = ?g' * n'" "den' = ?g' * d'" "coprime n' d'"
    using gcd_coprime_exists [of num' den'] assms(3) by (metis gcd_eq_0_iff less_numeral_extra(3) mult.commute)
  have g: "0 < ?g" "0 < ?g'" using assms by (simp_all add: gcd_pos_int)
  have pos: "0 < n" "0 < d" "0 < n'" "0 < d'"
    using nd nd' g assms by (metis zero_less_mult_pos)+
  have q: "num div ?g = n" "den div ?g = d" "num' div ?g' = n'" "den' div ?g' = d'"
    using nd nd' g by (metis nonzero_mult_div_cancel_left less_irrefl)+
  have "?g * n * (?g' * d') = ?g' * n' * (?g * d)"
    using assms(5) nd nd' by simp
  then have "(?g * ?g') * (n * d') = (?g * ?g') * (n' * d)" by (simp add: ac_simps)
  then have "n * d' = n' * d" using g by (metis mult_cancel_left mult_eq_0_iff less_irrefl)
  then have eq: "n = n' \<and> d = d'"
    using nd(3) nd'(3) pos by (metis coprime_crossproduct_int abs_of_pos)
  have "n * den = d * num" using nd by (metis mult.left_commute mult.commute)
  then show ?thesis
    using eq q nd(3) by (simp add: NewSpeed_eq [OF assms(1,2)] NewSpeed_eq [OF assms(3,4)] Let_def)
qed

theorem NewSpeed_canonical_witness:
  "NewSpeed 10000 5000 = NewSpeed 2 1 \<and> NewSpeed 2 1 = Inr \<lparr>sNum = 2, sDen = 1\<rparr>"
proof -
  have "NewSpeed 2 1 = Inr \<lparr>sNum = 2, sDen = 1\<rparr>"
    by (simp add: NewSpeed_eq speed_ok_def)
  then show ?thesis
    using NewSpeed_canonical [of 10000 5000 2 1] by simp
qed

section \<open>Delivery times\<close>

lemma uint64_id: "0 \<le> x \<Longrightarrow> x < 2 ^ 64 \<Longrightarrow> uint64 x = x"
  by (simp add: uint64_def)

lemma le_zdiv_iff: "0 < (c::int) \<Longrightarrow> a \<le> p div c \<longleftrightarrow> a * c \<le> p"
proof
  assume c: "0 < c"
  have dm: "p = p div c * c + p mod c" "0 \<le> p mod c" using c by simp_all
  { assume "a \<le> p div c"
    then have "a * c \<le> p div c * c" using c by (intro mult_right_mono) simp_all
    then show "a * c \<le> p" using dm by linarith }
  { assume "a * c \<le> p"
    then have "a * c div c \<le> p div c" using c by (intro zdiv_mono1)
    then show "a \<le> p div c" using c by simp }
qed

text \<open>A delivery time is the exact rational schedule, rounded down and capped. For a valid speed
  and a span that an \<^verbatim>\<open>int64\<close> holds, the 128-bit computation never panics and returns
  \<open>t0 + (ts - base) * den / num\<close>, or the largest time when the delay or
  the sum does not fit; a record at or before the
  anchor is due at \<open>t0\<close>.\<close>

theorem DeliveryTime_exact:
  assumes "speed_ok (sNum s) (sDen s)" "int64 t0" "int64 (ts - base)"
  shows "DeliveryTime s t0 base ts =
    Some (if ts \<le> base then t0
          else let q = (ts - base) * sDen s div sNum s
               in if MaxInt64 < q then MaxInt64 else min MaxInt64 (t0 + q))"
proof -
  let ?dt = "ts - base" and ?n = "sNum s" and ?d = "sDen s"
  have w: "wrap64 ?dt = ?dt" using assms(3) by (intro wrap64_id) (simp_all add: int64_def)
  show ?thesis
  proof (cases "ts \<le> base")
    case True
    then show ?thesis by (simp add: DeliveryTime_def Let_def w)
  next
    case False
    let ?p = "?dt * ?d" and ?q = "?dt * ?d div ?n"
    have pos: "0 < ?dt" "0 < ?n" "0 < ?d" "?n < 2 ^ 64" "?d < 2 ^ 64" "?dt < 2 ^ 63" "0 < ?p"
      using False assms by (auto simp: speed_ok_def int64_def)
    have u: "uint64 ?dt = ?dt" "uint64 ?d = ?d" "uint64 ?n = ?n" "uint64 MaxInt64 = MaxInt64"
      using pos by (simp_all add: uint64_id MaxInt64_def)
    have hi: "?n \<le> ?p div 2 ^ 64 \<longleftrightarrow> 2 ^ 64 \<le> ?q"
      using le_zdiv_iff [of "2 ^ 64" ?n ?p] le_zdiv_iff [of ?n "2 ^ 64" ?p] pos by (simp add: mult.commute)
    have q: "bits_Div64 (?p div 2 ^ 64) (?p mod 2 ^ 64) ?n = Some ?q" if "\<not> ?n \<le> ?p div 2 ^ 64"
      using that pos unfolding bits_Div64_def div_mult_mod_eq by simp
    have q0: "0 \<le> ?q" using pos by (simp add: pos_imp_zdiv_nonneg_iff)
    have sm: "wrap64 ?q = ?q" "wrap64 (MaxInt64 - ?q) = MaxInt64 - ?q" if "?q \<le> MaxInt64"
      using that q0 by (simp_all add: MaxInt64_def wrap64_id)
    have add: "wrap64 (t0 + ?q) = t0 + ?q" if "t0 \<le> MaxInt64 - ?q"
      using that q0 assms(2) by (intro wrap64_id) (simp_all add: MaxInt64_def int64_def)
    consider "2 ^ 64 \<le> ?q" | "MaxInt64 < ?q" "\<not> 2 ^ 64 \<le> ?q" | "?q \<le> MaxInt64" "\<not> 2 ^ 64 \<le> ?q"
      by linarith
    then show ?thesis
    proof cases
      case 1
      then have "MaxInt64 < ?q" by (simp add: MaxInt64_def)
      with 1 False pos(1) show ?thesis
        unfolding DeliveryTime_def Let_def w u bits_Mul64_def prod.case hi by simp
    next
      case 2
      with hi have n: "\<not> ?n \<le> ?p div 2 ^ 64" by simp
      from 2 False n show ?thesis
        unfolding DeliveryTime_def Let_def w u bits_Mul64_def prod.case q [OF n] option.case by simp
    next
      case 3
      with hi have n: "\<not> ?n \<le> ?p div 2 ^ 64" by simp
      from 3 False n add show ?thesis
        unfolding DeliveryTime_def Let_def w u bits_Mul64_def prod.case q [OF n] option.case sm [OF 3(1)]
        by (auto simp: min_def)
    qed
  qed
qed

theorem DeliveryTime_exact_witness:
  "speed_ok 3 2 \<and> int64 1000 \<and> int64 (17 - 10)
   \<and> DeliveryTime \<lparr>sNum = 3, sDen = 2\<rparr> 1000 10 17 = Some 1004"
  using DeliveryTime_exact [of "\<lparr>sNum = 3, sDen = 2\<rparr>" 1000 17 10]
  by (simp add: speed_ok_def int64_def MaxInt64_def)

text \<open>Outside that span the subtraction wraps: a record more than an \<^verbatim>\<open>int64\<close> after the anchor is
  due at once instead of at the largest time.\<close>

lemma DeliveryTime_wraps:
  assumes "int64 ts" "int64 base" "2 ^ 63 \<le> ts - base"
  shows "DeliveryTime s t0 base ts = Some t0"
proof -
  have "wrap64 (ts - base) = ts - base - 2 ^ 64"
    using assms mod_pos_pos_trivial [of "ts - base - 2 ^ 63" "2 ^ 64"]
      mod_add_self2 [of "ts - base - 2 ^ 63" "2 ^ 64"]
    by (simp add: wrap64_def int64_def add.commute)
  then show ?thesis using assms by (simp add: DeliveryTime_def Let_def int64_def)
qed

end
