(* ===== verification/Clock_Sim.thy ===== *)
theory Clock_Sim
  imports Prelude
begin

text \<open>
  The simulated clock: \<^verbatim>\<open>src/internal/clock/simclock.go\<close>. Timers are objects behind pointers, so
  the model keeps them in a list, \<open>scObjects\<close>, and a pointer is an index into it; \<open>scTimers\<close> is the
  sorted slice of the pending ones. Every method holds the clock's mutex throughout and is one
  operation here. A time is an \<open>int\<close> in \<^verbatim>\<open>int64\<close>'s range, sums of times are wrapped.
\<close>

section \<open>The clock\<close>

text \<open>The channel of a timer has room for one value.\<close>

record simTimer =
  stId :: u64
  stDeadline :: int
  stC :: "int option"

record SimClock =
  scNow :: int
  scNextID :: u64
  scTimers :: "nat list"
  scObjects :: "simTimer list"

definition newSimClock :: SimClock where
  "newSimClock = \<lparr>scNow = 0, scNextID = 0, scTimers = [], scObjects = []\<rparr>"

definition sim_Now :: "SimClock \<Rightarrow> int" where "sim_Now sc = scNow sc"

definition sim_SleepUntil :: "int \<Rightarrow> SimClock \<Rightarrow> SimClock" where
  "sim_SleepUntil deadline sc = sc"

text \<open>The test that ends the loop of \<^verbatim>\<open>insertLocked\<close>.\<close>

definition goes_after :: "simTimer \<Rightarrow> simTimer \<Rightarrow> bool" where
  "goes_after other t \<longleftrightarrow> stDeadline other > stDeadline t \<or> (stDeadline other = stDeadline t \<and> stId other > stId t)"

primrec insert_loop :: "simTimer list \<Rightarrow> nat \<Rightarrow> nat list \<Rightarrow> nat list" where
  "insert_loop objs t [] = [t]"
| "insert_loop objs t (p # ps) =
     (if goes_after (objs ! p) (objs ! t) then t # p # ps else p # insert_loop objs t ps)"

definition insertLocked :: "nat \<Rightarrow> SimClock \<Rightarrow> SimClock" where
  "insertLocked t sc = sc\<lparr>scTimers := insert_loop (scObjects sc) t (scTimers sc)\<rparr>"

text \<open>The send that does not wait: a full channel keeps what it holds.\<close>

definition fire_timer :: "simTimer \<Rightarrow> simTimer" where
  "fire_timer t = (case stC t of None \<Rightarrow> t\<lparr>stC := Some (stDeadline t)\<rparr> | Some _ \<Rightarrow> t)"

primrec fire_loop :: "int \<Rightarrow> nat list \<Rightarrow> simTimer list \<Rightarrow> nat list \<times> simTimer list" where
  "fire_loop now [] objs = ([], objs)"
| "fire_loop now (p # ps) objs =
     (if stDeadline (objs ! p) > now then (p # ps, objs)
      else fire_loop now ps (objs[p := fire_timer (objs ! p)]))"

definition fireDueLocked :: "SimClock \<Rightarrow> SimClock" where
  "fireDueLocked sc =
     (case fire_loop (scNow sc) (scTimers sc) (scObjects sc) of
        (ps, objs) \<Rightarrow> sc\<lparr>scTimers := ps, scObjects := objs\<rparr>)"

text \<open>The slice holds a pointer once, so the loop removes the only occurrence.\<close>

definition removeLocked :: "nat \<Rightarrow> SimClock \<Rightarrow> bool \<times> SimClock" where
  "removeLocked t sc = (t \<in> set (scTimers sc), sc\<lparr>scTimers := remove1 t (scTimers sc)\<rparr>)"

definition sim_NewTimer :: "int \<Rightarrow> SimClock \<Rightarrow> nat \<times> SimClock" where
  "sim_NewTimer d sc =
     (let t = length (scObjects sc);
          sc = sc\<lparr>scObjects := scObjects sc @ [\<lparr>stId = scNextID sc, stDeadline = wrap64 (scNow sc + d), stC = None\<rparr>],
                  scNextID := scNextID sc + 1\<rparr>
      in (t, fireDueLocked (insertLocked t sc)))"

definition sim_Advance :: "int \<Rightarrow> SimClock \<Rightarrow> SimClock" where
  "sim_Advance d sc = fireDueLocked (sc\<lparr>scNow := wrap64 (scNow sc + d)\<rparr>)"

definition update_timer :: "nat \<Rightarrow> (simTimer \<Rightarrow> simTimer) \<Rightarrow> SimClock \<Rightarrow> SimClock" where
  "update_timer t f sc = sc\<lparr>scObjects := (scObjects sc)[t := f (scObjects sc ! t)]\<rparr>"

definition sim_Reset :: "nat \<Rightarrow> int \<Rightarrow> SimClock \<Rightarrow> bool \<times> SimClock" where
  "sim_Reset t d sc =
     (case removeLocked t sc of
        (active, sc) \<Rightarrow>
          (active, fireDueLocked (insertLocked t
             (update_timer t (\<lambda>x. x\<lparr>stC := None, stDeadline := wrap64 (scNow sc + d)\<rparr>) sc))))"

definition sim_Stop :: "nat \<Rightarrow> SimClock \<Rightarrow> bool \<times> SimClock" where
  "sim_Stop t sc =
     (case removeLocked t sc of (active, sc) \<Rightarrow> (active, update_timer t (\<lambda>x. x\<lparr>stC := None\<rparr>) sc))"

text \<open>A receive from \<^verbatim>\<open>C()\<close> that does not wait.\<close>

definition sim_C :: "nat \<Rightarrow> SimClock \<Rightarrow> int option \<times> SimClock" where
  "sim_C t sc = (stC (scObjects sc ! t), update_timer t (\<lambda>x. x\<lparr>stC := None\<rparr>) sc)"

section \<open>The contract\<close>

text \<open>
  What a clock promises, without the slice: the time, the deadlines of the armed timers, what waits in
  the channels, and how many timers there are. A timer that is due moves its deadline into its channel.
\<close>

record timers =
  tNow :: int
  tArmed :: "nat \<Rightarrow> int option"
  tFired :: "nat \<Rightarrow> int option"
  tCount :: nat

definition due :: "timers \<Rightarrow> nat \<Rightarrow> bool" where
  "due a t \<longleftrightarrow> (case tArmed a t of None \<Rightarrow> False | Some d \<Rightarrow> d \<le> tNow a)"

definition fire_due :: "timers \<Rightarrow> timers" where
  "fire_due a = a\<lparr>tArmed := (\<lambda>t. if due a t then None else tArmed a t),
                  tFired := (\<lambda>t. if due a t then tArmed a t else tFired a t)\<rparr>"

definition arm :: "nat \<Rightarrow> int \<Rightarrow> timers \<Rightarrow> timers" where
  "arm t d a = fire_due (a\<lparr>tArmed := (tArmed a)(t \<mapsto> wrap64 (tNow a + d)), tFired := (tFired a)(t := None)\<rparr>)"

definition disarm :: "nat \<Rightarrow> timers \<Rightarrow> timers" where
  "disarm t a = a\<lparr>tArmed := (tArmed a)(t := None), tFired := (tFired a)(t := None)\<rparr>"

text \<open>The operations of a client, on timers it has been given, and their answers.\<close>

datatype clock_op = OpNow | OpSleepUntil int | OpNewTimer int | OpAdvance int | OpReset nat int | OpStop nat | OpReceive nat

datatype answer = Time int | Handle nat | WasActive bool | Received "int option" | Nothing

fun sim_op :: "clock_op \<Rightarrow> SimClock \<Rightarrow> answer \<times> SimClock" where
  "sim_op OpNow sc = (Time (sim_Now sc), sc)"
| "sim_op (OpSleepUntil d) sc = (Nothing, sim_SleepUntil d sc)"
| "sim_op (OpNewTimer d) sc = (case sim_NewTimer d sc of (t, sc) \<Rightarrow> (Handle t, sc))"
| "sim_op (OpAdvance d) sc = (Nothing, sim_Advance d sc)"
| "sim_op (OpReset t d) sc =
     (if t < length (scObjects sc) then case sim_Reset t d sc of (b, sc) \<Rightarrow> (WasActive b, sc) else (Nothing, sc))"
| "sim_op (OpStop t) sc =
     (if t < length (scObjects sc) then case sim_Stop t sc of (b, sc) \<Rightarrow> (WasActive b, sc) else (Nothing, sc))"
| "sim_op (OpReceive t) sc =
     (if t < length (scObjects sc) then case sim_C t sc of (v, sc) \<Rightarrow> (Received v, sc) else (Nothing, sc))"

fun timer_op :: "clock_op \<Rightarrow> timers \<Rightarrow> answer \<times> timers" where
  "timer_op OpNow a = (Time (tNow a), a)"
| "timer_op (OpSleepUntil d) a = (Nothing, a)"
| "timer_op (OpNewTimer d) a = (Handle (tCount a), (arm (tCount a) d a)\<lparr>tCount := Suc (tCount a)\<rparr>)"
| "timer_op (OpAdvance d) a = (Nothing, fire_due (a\<lparr>tNow := wrap64 (tNow a + d)\<rparr>))"
| "timer_op (OpReset t d) a = (if t < tCount a then (WasActive (tArmed a t \<noteq> None), arm t d a) else (Nothing, a))"
| "timer_op (OpStop t) a = (if t < tCount a then (WasActive (tArmed a t \<noteq> None), disarm t a) else (Nothing, a))"
| "timer_op (OpReceive t) a =
     (if t < tCount a then (Received (tFired a t), a\<lparr>tFired := (tFired a)(t := None)\<rparr>) else (Nothing, a))"

primrec run_ops :: "(clock_op \<Rightarrow> 's \<Rightarrow> answer \<times> 's) \<Rightarrow> clock_op list \<Rightarrow> 's \<Rightarrow> answer list \<times> 's" where
  "run_ops f [] s = ([], s)"
| "run_ops f (x # xs) s = (case f x s of (out, s) \<Rightarrow> case run_ops f xs s of (outs, s) \<Rightarrow> (out # outs, s))"

definition no_timers :: timers where
  "no_timers = \<lparr>tNow = 0, tArmed = Map.empty, tFired = Map.empty, tCount = 0\<rparr>"

section \<open>The invariant\<close>

definition in_order :: "simTimer \<Rightarrow> simTimer \<Rightarrow> bool" where
  "in_order t u \<longleftrightarrow> stDeadline t < stDeadline u \<or> (stDeadline t = stDeadline u \<and> stId t \<le> stId u)"

lemma goes_after_iff: "goes_after u t \<longleftrightarrow> \<not> in_order u t"
  by (auto simp: goes_after_def in_order_def)

lemma in_order_trans: "in_order t u \<Longrightarrow> in_order u v \<Longrightarrow> in_order t v"
  by (auto simp: in_order_def)

lemma in_order_total: "in_order t u \<or> in_order u t"
  by (auto simp: in_order_def)

text \<open>The slice is sorted and holds pointers to timers whose channel is empty, each once.\<close>

definition sorted_slice :: "simTimer list \<Rightarrow> nat list \<Rightarrow> bool" where
  "sorted_slice objs ps \<longleftrightarrow> sorted_wrt (\<lambda>p q. in_order (objs ! p) (objs ! q)) ps \<and> distinct ps
     \<and> list_all (\<lambda>p. p < length objs \<and> stC (objs ! p) = None) ps"

definition sim_inv :: "SimClock \<Rightarrow> bool" where
  "sim_inv sc \<longleftrightarrow> sorted_slice (scObjects sc) (scTimers sc)
     \<and> list_all (\<lambda>p. scNow sc < stDeadline (scObjects sc ! p)) (scTimers sc)
     \<and> map stId (scObjects sc) = map of_nat [0..<length (scObjects sc)]
     \<and> scNextID sc = of_nat (length (scObjects sc))"

definition abs_clock :: "SimClock \<Rightarrow> timers" where
  "abs_clock sc = \<lparr>tNow = scNow sc,
     tArmed = (\<lambda>t. if t \<in> set (scTimers sc) then Some (stDeadline (scObjects sc ! t)) else None),
     tFired = (\<lambda>t. if t < length (scObjects sc) then stC (scObjects sc ! t) else None),
     tCount = length (scObjects sc)\<rparr>"

lemma set_insert_loop [simp]: "set (insert_loop objs t ps) = insert t (set ps)"
  by (induction ps) auto

lemma insert_loop_sorted:
  assumes "sorted_wrt (\<lambda>p q. in_order (objs ! p) (objs ! q)) ps"
  shows "sorted_wrt (\<lambda>p q. in_order (objs ! p) (objs ! q)) (insert_loop objs t ps)"
  using assms by (induction ps) (auto simp: goes_after_iff intro: in_order_trans in_order_total [THEN disjE])

lemma distinct_insert_loop: "distinct ps \<Longrightarrow> t \<notin> set ps \<Longrightarrow> distinct (insert_loop objs t ps)"
  by (induction ps) auto

text \<open>What the firing loop does to a sorted slice: it takes the due timers off its front.\<close>

lemma fire_loop_eq:
  assumes "sorted_slice objs ps"
  shows "fire_loop now ps objs =
    (filter (\<lambda>p. now < stDeadline (objs ! p)) ps,
     map (\<lambda>p. if p \<in> set ps \<and> stDeadline (objs ! p) \<le> now then (objs ! p)\<lparr>stC := Some (stDeadline (objs ! p))\<rparr>
              else objs ! p) [0..<length objs])"
  using assms
proof (induction ps arbitrary: objs)
  case Nil
  then show ?case by (simp add: map_nth)
next
  case (Cons p ps)
  have p: "p < length objs" "stC (objs ! p) = None" "p \<notin> set ps"
    and o: "\<And>q. q \<in> set ps \<Longrightarrow> in_order (objs ! p) (objs ! q)"
    using Cons.prems by (simp_all add: sorted_slice_def)
  show ?case
  proof (cases "stDeadline (objs ! p) > now")
    case True
    then have lt: "now < stDeadline (objs ! q)" if "q \<in> set ps" for q
      using o [OF that] by (auto simp: in_order_def)
    then have "filter (\<lambda>p. now < stDeadline (objs ! p)) ps = ps" by (simp add: filter_id_conv)
    moreover have "map (\<lambda>q. if q \<in> set (p # ps) \<and> stDeadline (objs ! q) \<le> now
        then (objs ! q)\<lparr>stC := Some (stDeadline (objs ! q))\<rparr> else objs ! q) [0..<length objs] = map ((!) objs) [0..<length objs]"
      using True by (intro map_cong) (auto dest: lt)
    ultimately show ?thesis using True by (simp add: map_nth)
  next
    case False
    let ?objs = "objs[p := fire_timer (objs ! p)]"
    have same: "stDeadline (?objs ! q) = stDeadline (objs ! q)" "stId (?objs ! q) = stId (objs ! q)" for q
      using p by (cases "p = q"; simp add: fire_timer_def nth_list_update)+
    have ne: "?objs ! q = objs ! q" if "q \<in> set ps" for q using that p(3) by (metis nth_list_update_neq)
    have "sorted_slice ?objs ps"
      using Cons.prems ne by (auto simp: sorted_slice_def list_all_iff in_order_def same)
    note ih = Cons.IH [OF this]
    have "map (\<lambda>q. if q \<in> set ps \<and> stDeadline (?objs ! q) \<le> now
        then (?objs ! q)\<lparr>stC := Some (stDeadline (?objs ! q))\<rparr> else ?objs ! q) [0..<length ?objs]
      = map (\<lambda>q. if q \<in> set (p # ps) \<and> stDeadline (objs ! q) \<le> now
        then (objs ! q)\<lparr>stC := Some (stDeadline (objs ! q))\<rparr> else objs ! q) [0..<length objs]"
      using False p ne by (intro map_cong) (auto simp: nth_list_update fire_timer_def)
    then show ?thesis using False ih by (simp add: same)
  qed
qed

lemma fireDue_inv:
  assumes "sorted_slice (scObjects sc) (scTimers sc)"
    and "map stId (scObjects sc) = map of_nat [0..<length (scObjects sc)]" "scNextID sc = of_nat (length (scObjects sc))"
  shows "sim_inv (fireDueLocked sc) \<and> abs_clock (fireDueLocked sc) = fire_due (abs_clock sc)"
proof -
  let ?objs = "scObjects sc" and ?ps = "scTimers sc"
  let ?new = "map (\<lambda>p. if p \<in> set ?ps \<and> stDeadline (?objs ! p) \<le> scNow sc
      then (?objs ! p)\<lparr>stC := Some (stDeadline (?objs ! p))\<rparr> else ?objs ! p) [0..<length ?objs]"
  have e: "fireDueLocked sc = sc\<lparr>scTimers := filter (\<lambda>p. scNow sc < stDeadline (?objs ! p)) ?ps, scObjects := ?new\<rparr>"
    using fire_loop_eq [OF assms(1), of "scNow sc"] by (simp add: fireDueLocked_def)
  have in_range: "p < length ?objs" if "p \<in> set ?ps" for p
    using assms(1) that by (auto simp: sorted_slice_def list_all_iff)
  have kept: "?new ! p = ?objs ! p" if "p \<in> set ?ps" "scNow sc < stDeadline (?objs ! p)" for p
    using that in_range by (simp add: nth_map_upt)
  have "sorted_slice ?new (filter (\<lambda>p. scNow sc < stDeadline (?objs ! p)) ?ps)"
    using assms(1) unfolding sorted_slice_def
    by (auto simp: list_all_iff kept in_range sorted_wrt_filter
        intro!: sorted_wrt_mono_rel [OF _ sorted_wrt_filter [of "\<lambda>p q. in_order (?objs ! p) (?objs ! q)"]])
  moreover have "map stId ?new = map of_nat [0..<length ?objs]"
  proof -
    have "map stId ?new = map stId (map ((!) ?objs) [0..<length ?objs])" by (simp del: map_nth)
    then show ?thesis using assms(2) by (simp add: map_nth)
  qed
  ultimately have inv: "sim_inv (fireDueLocked sc)"
    using assms(3) kept by (auto simp: e sim_inv_def list_all_iff)
  have "abs_clock (fireDueLocked sc) = fire_due (abs_clock sc)"
    using in_range by (auto simp: e abs_clock_def fire_due_def due_def fun_eq_iff)
  with inv show ?thesis by simp
qed

lemma sim_invD:
  assumes "sim_inv sc"
  shows "sorted_slice (scObjects sc) (scTimers sc)"
    "map stId (scObjects sc) = map of_nat [0..<length (scObjects sc)]" "scNextID sc = of_nat (length (scObjects sc))"
    "\<And>p. p \<in> set (scTimers sc) \<Longrightarrow> p < length (scObjects sc)"
    "\<And>p. p \<in> set (scTimers sc) \<Longrightarrow> stC (scObjects sc ! p) = None"
  using assms by (auto simp: sim_inv_def sorted_slice_def list_all_iff)

text \<open>A timer that is not in the slice may change, and may then be inserted when its channel is empty.\<close>

lemma sorted_slice_update:
  assumes "sorted_slice objs ps" "t \<notin> set ps"
  shows "sorted_slice (objs[t := x]) ps"
proof -
  have "objs[t := x] ! p = objs ! p" if "p \<in> set ps" for p using that assms(2) by (metis nth_list_update_neq)
  then show ?thesis
    using assms(1) unfolding sorted_slice_def
    by (auto simp: list_all_iff intro: sorted_wrt_mono_rel [of ps "\<lambda>p q. in_order (objs ! p) (objs ! q)"])
qed

lemma sorted_slice_insert:
  assumes "sorted_slice objs ps" "t \<notin> set ps" "t < length objs" "stC (objs ! t) = None"
  shows "sorted_slice objs (insert_loop objs t ps)"
  using assms insert_loop_sorted [of objs ps t] by (auto simp: sorted_slice_def list_all_iff distinct_insert_loop)

lemma sorted_wrt_remove1: "sorted_wrt R xs \<Longrightarrow> sorted_wrt R (remove1 x xs)"
  using set_remove1_subset by (induction xs) fastforce+

lemma sorted_slice_remove: "sorted_slice objs ps \<Longrightarrow> sorted_slice objs (remove1 t ps)"
  by (auto simp: sorted_slice_def list_all_iff dest: notin_set_remove1 intro: sorted_wrt_remove1)

lemma ids_update: "map stId objs = xs \<Longrightarrow> stId x = stId (objs ! t) \<Longrightarrow> map stId (objs[t := x]) = xs"
  by (metis list_update_id map_update)

lemma sim_Reset_ok:
  assumes i: "sim_inv sc" and t: "t < length (scObjects sc)"
  shows "sim_inv (snd (sim_Reset t d sc)) \<and> fst (sim_Reset t d sc) = (tArmed (abs_clock sc) t \<noteq> None)
    \<and> abs_clock (snd (sim_Reset t d sc)) = arm t d (abs_clock sc)"
proof -
  note p = sim_invD [OF i]
  let ?x = "(scObjects sc ! t)\<lparr>stC := None, stDeadline := wrap64 (scNow sc + d)\<rparr>"
  let ?objs = "(scObjects sc)[t := ?x]" and ?ps = "remove1 t (scTimers sc)"
  let ?sc = "sc\<lparr>scObjects := ?objs, scTimers := insert_loop ?objs t ?ps\<rparr>"
  have r: "snd (sim_Reset t d sc) = fireDueLocked ?sc" "fst (sim_Reset t d sc) = (t \<in> set (scTimers sc))"
    by (simp_all add: sim_Reset_def removeLocked_def update_timer_def insertLocked_def)
  have d: "distinct (scTimers sc)" using p(1) by (simp add: sorted_slice_def)
  then have n: "t \<notin> set ?ps" by simp
  have "sorted_slice (scObjects ?sc) (scTimers ?sc)"
    using sorted_slice_insert [OF sorted_slice_update [OF sorted_slice_remove [OF p(1)] n, of ?x] n] t by simp
  moreover have "map stId (scObjects ?sc) = map of_nat [0..<length (scObjects ?sc)]"
    using ids_update [OF p(2), of ?x t] by simp
  ultimately have f: "sim_inv (fireDueLocked ?sc)" "abs_clock (fireDueLocked ?sc) = fire_due (abs_clock ?sc)"
    using fireDue_inv [of ?sc] p(3) by simp_all
  have "abs_clock ?sc = (abs_clock sc)\<lparr>tArmed := (tArmed (abs_clock sc))(t \<mapsto> wrap64 (tNow (abs_clock sc) + d)),
      tFired := (tFired (abs_clock sc))(t := None)\<rparr>"
    using t d by (auto simp: abs_clock_def fun_eq_iff nth_list_update)
  with f r show ?thesis by (simp add: arm_def) (simp add: abs_clock_def)
qed

lemma sim_Stop_ok:
  assumes i: "sim_inv sc" and t: "t < length (scObjects sc)"
  shows "sim_inv (snd (sim_Stop t sc)) \<and> fst (sim_Stop t sc) = (tArmed (abs_clock sc) t \<noteq> None)
    \<and> abs_clock (snd (sim_Stop t sc)) = disarm t (abs_clock sc)"
proof -
  note p = sim_invD [OF i]
  let ?x = "(scObjects sc ! t)\<lparr>stC := None\<rparr>" and ?ps = "remove1 t (scTimers sc)"
  let ?sc = "sc\<lparr>scTimers := ?ps, scObjects := (scObjects sc)[t := ?x]\<rparr>"
  have r: "snd (sim_Stop t sc) = ?sc" "fst (sim_Stop t sc) = (t \<in> set (scTimers sc))"
    by (simp_all add: sim_Stop_def removeLocked_def update_timer_def)
  have d: "distinct (scTimers sc)" using p(1) by (simp add: sorted_slice_def)
  then have n: "t \<notin> set ?ps" by simp
  have "sim_inv ?sc"
    using i sorted_slice_update [OF sorted_slice_remove [OF p(1)] n, of ?x] ids_update [OF p(2), of ?x t] d
    by (auto simp: sim_inv_def list_all_iff nth_list_update)
  moreover have "abs_clock ?sc = disarm t (abs_clock sc)"
    using t d by (auto simp: abs_clock_def disarm_def fun_eq_iff nth_list_update)
  ultimately show ?thesis using r by (simp add: abs_clock_def)
qed

lemma sim_C_ok:
  assumes i: "sim_inv sc" and t: "t < length (scObjects sc)"
  shows "sim_inv (snd (sim_C t sc)) \<and> fst (sim_C t sc) = tFired (abs_clock sc) t
    \<and> abs_clock (snd (sim_C t sc)) = (abs_clock sc)\<lparr>tFired := (tFired (abs_clock sc))(t := None)\<rparr>"
proof -
  note p = sim_invD [OF i]
  let ?x = "(scObjects sc ! t)\<lparr>stC := None\<rparr>"
  let ?objs = "(scObjects sc)[t := ?x]"
  let ?sc = "sc\<lparr>scObjects := ?objs\<rparr>"
  have r: "snd (sim_C t sc) = ?sc" "fst (sim_C t sc) = stC (scObjects sc ! t)"
    by (simp_all add: sim_C_def update_timer_def)
  have same: "stDeadline (?objs ! p) = stDeadline (scObjects sc ! p)" "stId (?objs ! p) = stId (scObjects sc ! p)"
    "stC (scObjects sc ! p) = None \<Longrightarrow> stC (?objs ! p) = None" for p
    using t by (cases "t = p"; simp)+
  have "sorted_slice (?objs) (scTimers sc)"
    using p(1) unfolding sorted_slice_def in_order_def same by (auto simp: list_all_iff intro: same(3))
  then have "sim_inv ?sc"
    using i ids_update [OF p(2), of ?x t] same(1) by (auto simp: sim_inv_def list_all_iff)
  moreover have "abs_clock ?sc = (abs_clock sc)\<lparr>tFired := (tFired (abs_clock sc))(t := None)\<rparr>"
    using t by (auto simp: abs_clock_def fun_eq_iff nth_list_update)
  ultimately show ?thesis using r t by (simp add: abs_clock_def)
qed

lemma sim_NewTimer_ok:
  assumes i: "sim_inv sc"
  shows "sim_inv (snd (sim_NewTimer d sc)) \<and> fst (sim_NewTimer d sc) = tCount (abs_clock sc)
    \<and> abs_clock (snd (sim_NewTimer d sc)) = (arm (tCount (abs_clock sc)) d (abs_clock sc))\<lparr>tCount := Suc (tCount (abs_clock sc))\<rparr>"
proof -
  note p = sim_invD [OF i]
  let ?t = "length (scObjects sc)"
  let ?x = "\<lparr>stId = scNextID sc, stDeadline = wrap64 (scNow sc + d), stC = None\<rparr>"
  let ?objs = "scObjects sc @ [?x]"
  let ?sc = "sc\<lparr>scObjects := ?objs, scNextID := scNextID sc + 1, scTimers := insert_loop ?objs ?t (scTimers sc)\<rparr>"
  have r: "snd (sim_NewTimer d sc) = fireDueLocked ?sc" "fst (sim_NewTimer d sc) = ?t"
    by (simp_all add: sim_NewTimer_def Let_def insertLocked_def)
  have n: "?t \<notin> set (scTimers sc)" using p(4) by auto
  have "sorted_slice ?objs (scTimers sc)"
    using p(1,4) unfolding sorted_slice_def
    by (auto simp: list_all_iff nth_append less_SucI intro: sorted_wrt_mono_rel [of _ "\<lambda>p q. in_order (scObjects sc ! p) (scObjects sc ! q)"])
  then have "sorted_slice (scObjects ?sc) (scTimers ?sc)"
    using sorted_slice_insert [OF _ n] by simp
  moreover have "map stId (scObjects ?sc) = map of_nat [0..<length (scObjects ?sc)]"
    using p(2,3) by simp
  ultimately have f: "sim_inv (fireDueLocked ?sc)" "abs_clock (fireDueLocked ?sc) = fire_due (abs_clock ?sc)"
    using fireDue_inv [of ?sc] p(3) by simp_all
  have "abs_clock ?sc = (abs_clock sc)\<lparr>tArmed := (tArmed (abs_clock sc))(?t \<mapsto> wrap64 (tNow (abs_clock sc) + d)),
      tFired := (tFired (abs_clock sc))(?t := None), tCount := Suc ?t\<rparr>"
    using p(4) n by (auto simp: abs_clock_def fun_eq_iff nth_append)
  then have "fire_due (abs_clock ?sc) = (arm ?t d (abs_clock sc))\<lparr>tCount := Suc ?t\<rparr>"
    by (simp add: arm_def fire_due_def due_def cong: if_cong option.case_cong)
  with f r show ?thesis by (simp add: abs_clock_def)
qed

lemma sim_Advance_ok:
  assumes i: "sim_inv sc"
  shows "sim_inv (sim_Advance d sc) \<and> abs_clock (sim_Advance d sc) = fire_due ((abs_clock sc)\<lparr>tNow := wrap64 (tNow (abs_clock sc) + d)\<rparr>)"
proof -
  have "abs_clock (sc\<lparr>scNow := wrap64 (scNow sc + d)\<rparr>) = (abs_clock sc)\<lparr>tNow := wrap64 (tNow (abs_clock sc) + d)\<rparr>"
    by (auto simp: abs_clock_def fun_eq_iff)
  then show ?thesis
    using fireDue_inv [of "sc\<lparr>scNow := wrap64 (scNow sc + d)\<rparr>"] sim_invD [OF i] by (simp add: sim_Advance_def)
qed

lemma sim_op_ok:
  assumes i: "sim_inv sc"
  shows "sim_inv (snd (sim_op x sc)) \<and> timer_op x (abs_clock sc) = (fst (sim_op x sc), abs_clock (snd (sim_op x sc)))"
proof -
  have n: "tNow (abs_clock sc) = scNow sc" "tCount (abs_clock sc) = length (scObjects sc)" by (simp_all add: abs_clock_def)
  show ?thesis
  proof (cases x)
    case (OpNewTimer d)
    then show ?thesis using sim_NewTimer_ok [OF i, of d] by (simp add: case_prod_unfold)
  next
    case (OpAdvance d)
    then show ?thesis using sim_Advance_ok [OF i, of d] by simp
  next
    case (OpReset t d)
    then show ?thesis using i n sim_Reset_ok [OF i, of t d] by (auto simp: case_prod_unfold)
  next
    case (OpStop t)
    then show ?thesis using i n sim_Stop_ok [OF i, of t] by (auto simp: case_prod_unfold)
  next
    case (OpReceive t)
    then show ?thesis using i n sim_C_ok [OF i, of t] by (auto simp: case_prod_unfold)
  qed (use i n in \<open>simp_all add: sim_Now_def sim_SleepUntil_def\<close>)
qed

lemma run_ops_ok:
  "sim_inv sc \<Longrightarrow> sim_inv (snd (run_ops sim_op xs sc))
    \<and> run_ops timer_op xs (abs_clock sc) = (fst (run_ops sim_op xs sc), abs_clock (snd (run_ops sim_op xs sc)))"
proof (induction xs arbitrary: sc)
  case (Cons x xs)
  then show ?case
    using sim_op_ok [OF Cons.prems, of x] Cons.IH [of "snd (sim_op x sc)"] by (simp add: case_prod_unfold)
qed simp

lemma new_inv: "sim_inv newSimClock" "abs_clock newSimClock = no_timers"
  by (simp_all add: sim_inv_def newSimClock_def sorted_slice_def abs_clock_def no_timers_def)

lemma filter_prefix:
  assumes "sorted_wrt R xs" "\<And>x y. R x y \<Longrightarrow> P y \<Longrightarrow> P x"
  shows "filter P xs = takeWhile P xs \<and> filter (\<lambda>x. \<not> P x) xs = dropWhile P xs"
  using assms(1)
proof (induction xs)
  case (Cons x xs)
  show ?case
  proof (cases "P x")
    case False
    then have "\<not> P y" if "y \<in> set xs" for y using Cons.prems assms(2) that by auto
    then have "filter P xs = []" "filter (\<lambda>x. \<not> P x) xs = xs" by (auto simp: filter_empty_conv filter_id_conv)
    with False show ?thesis by simp
  qed (use Cons in simp)
qed simp

section \<open>Correctness\<close>

text \<open>C25: The simulated clock keeps its contract. Whatever a client does with it, in whatever order, every
  answer is that of the clock without a slice: a timer fires at the first advance to its deadline or
  beyond it, once, with its deadline as the value, a stopped or reset one does not fire, and
  \<^verbatim>\<open>Reset\<close> and \<^verbatim>\<open>Stop\<close> say truly whether the timer was armed.\<close>

theorem sim_clock_contract:
  "fst (run_ops sim_op xs newSimClock) = fst (run_ops timer_op xs no_timers)"
  using run_ops_ok [OF new_inv(1), of xs] new_inv(2) by simp

lemma advance_order:
  assumes i: "sim_inv sc" and fired: "fired = takeWhile (\<lambda>p. stDeadline (scObjects sc ! p) \<le> wrap64 (scNow sc + d)) (scTimers sc)"
  shows "scTimers sc = fired @ scTimers (sim_Advance d sc)
    \<and> map stC (scObjects (sim_Advance d sc)) =
        map (\<lambda>p. if p \<in> set fired then Some (stDeadline (scObjects sc ! p)) else stC (scObjects sc ! p)) [0..<length (scObjects sc)]"
proof -
  let ?now = "wrap64 (scNow sc + d)" and ?due = "\<lambda>p. stDeadline (scObjects sc ! p) \<le> wrap64 (scNow sc + d)"
  note p = sim_invD [OF i]
  have sorted: "sorted_wrt (\<lambda>p q. in_order (scObjects sc ! p) (scObjects sc ! q)) (scTimers sc)"
    using p(1) by (simp add: sorted_slice_def)
  then have split: "filter ?due (scTimers sc) = takeWhile ?due (scTimers sc)
      \<and> filter (\<lambda>p. \<not> ?due p) (scTimers sc) = dropWhile ?due (scTimers sc)"
    by (rule filter_prefix) (auto simp: in_order_def)
  have a: "sim_Advance d sc = sc\<lparr>scNow := ?now, scTimers := filter (\<lambda>p. ?now < stDeadline (scObjects sc ! p)) (scTimers sc),
      scObjects := map (\<lambda>p. if p \<in> set (scTimers sc) \<and> ?due p
        then (scObjects sc ! p)\<lparr>stC := Some (stDeadline (scObjects sc ! p))\<rparr> else scObjects sc ! p) [0..<length (scObjects sc)]\<rparr>"
    using fire_loop_eq [OF p(1), of ?now] by (simp add: sim_Advance_def fireDueLocked_def)
  have "set (takeWhile ?due (scTimers sc)) = {p \<in> set (scTimers sc). ?due p}"
    using split by (metis set_filter)
  then show ?thesis using split by (simp add: a fired not_le comp_def if_distrib)
qed

text \<open>C26: The slice is well formed after any operations: sorted by deadline and then by creation, without
  repetition, of timers that are not due and whose channels are empty; and an advance fires exactly the
  front of it that is due, in that order, leaving each timer's own deadline in its channel.\<close>

theorem sim_advance_order:
  "let sc = snd (run_ops sim_op xs newSimClock);
       fired = takeWhile (\<lambda>p. stDeadline (scObjects sc ! p) \<le> wrap64 (scNow sc + d)) (scTimers sc)
   in sim_inv sc \<and> scTimers sc = fired @ scTimers (sim_Advance d sc)
     \<and> map stC (scObjects (sim_Advance d sc)) =
         map (\<lambda>p. if p \<in> set fired then Some (stDeadline (scObjects sc ! p)) else stC (scObjects sc ! p)) [0..<length (scObjects sc)]"
  using run_ops_ok [OF new_inv(1), of xs] advance_order [OF _ refl, of "snd (run_ops sim_op xs newSimClock)" d]
  by (simp add: Let_def)

end
