(* ===== verification/Fanout_Pacer.thy ===== *)
theory Fanout_Pacer
  imports Fanout_Speed Clock_Sim
begin

text \<open>
  The pacer: \<^verbatim>\<open>src/internal/fanout/pacer.go\<close>. It reads a clock and waits on one timer of it, so a
  call of \<^verbatim>\<open>Wait\<close> depends on what it sees: for each round of its loop, the stop flag and the time.
  These are a list of observations; the delays the timer was reset to are part of the result.
\<close>

definition pacerInitialTimerDelay :: int where "pacerInitialTimerDelay = 3600000000000"
definition defaultMaxSlice :: int where "defaultMaxSlice = 20000000"
definition probeDelay :: int where "probeDelay = 1000"
definition windowProbes :: nat where "windowProbes = 8"
definition minWindow :: int where "minWindow = 1000"
definition maxWindow :: int where "maxWindow = 10000000"
definition unboundedWindow :: int where "unboundedWindow = MaxInt64"

text \<open>The window from what the clock showed before and after each probe.\<close>

definition measureWindow :: "(nat \<Rightarrow> int \<times> int) \<Rightarrow> int" where
  "measureWindow probe =
     (let worst = fold (\<lambda>i worst. case probe i of (start, after) \<Rightarrow>
                     let d = wrap64 (after - start) in if d > worst then d else worst) [0..<windowProbes] 0
      in if worst \<le> 0 then unboundedWindow
         else if worst < minWindow then minWindow
         else if worst > maxWindow then maxWindow
         else worst)"

definition addClampedInt64 :: "int \<Rightarrow> int \<Rightarrow> int" where
  "addClampedInt64 a b = (if b > wrap64 (MaxInt64 - a) then MaxInt64 else wrap64 (a + b))"

text \<open>\<open>pcLast\<close> is for the specification only: the last time the pacer has seen.\<close>

record Pacer =
  pcSpeed :: Speed
  pcMaxSlice :: int
  pcWindow :: int
  pcT0 :: int
  pcBase :: int
  pcReleaseUntil :: int
  pcSlip :: int
  pcLast :: int

definition newPacerWindow :: "Speed \<Rightarrow> int \<Rightarrow> Pacer" where
  "newPacerWindow speed window =
     \<lparr>pcSpeed = speed, pcMaxSlice = defaultMaxSlice, pcWindow = window, pcT0 = 0, pcBase = 0, pcReleaseUntil = 0,
      pcSlip = 0, pcLast = 0\<rparr>"

definition NewPacer :: "Speed \<Rightarrow> (nat \<Rightarrow> int \<times> int) \<Rightarrow> Pacer" where
  "NewPacer speed probe = newPacerWindow speed (measureWindow probe)"

definition Window :: "Pacer \<Rightarrow> int" where "Window p = pcWindow p"

definition Slip :: "Pacer \<Rightarrow> int" where "Slip p = pcSlip p"

definition pacer_Start :: "int \<Rightarrow> int \<Rightarrow> Pacer \<Rightarrow> Pacer" where
  "pacer_Start now base p = p\<lparr>pcT0 := now, pcBase := base, pcReleaseUntil := now, pcLast := now\<rparr>"

text \<open>
  How a call ends on the observations given: with its result, still waiting, or in a panic of the
  schedule's division; with the delays the timer was set to.
\<close>

datatype waited = Returned bool Pacer "int list" | Waiting Pacer "int list" | WaitPanic

fun reset_timer :: "int \<Rightarrow> waited \<Rightarrow> waited" where
  "reset_timer d (Returned b p ds) = Returned b p (d # ds)"
| "reset_timer d (Waiting p ds) = Waiting p (d # ds)"
| "reset_timer d WaitPanic = WaitPanic"

primrec wait_loop :: "int \<Rightarrow> (bool \<times> int) list \<Rightarrow> Pacer \<Rightarrow> waited" where
  "wait_loop deadline [] p = Waiting p []"
| "wait_loop deadline (x # obs) p =
     (case x of (stop, now) \<Rightarrow>
        if stop then Returned False p []
        else let p = p\<lparr>pcReleaseUntil := addClampedInt64 now (pcWindow p), pcLast := now\<rparr> in
        if deadline \<le> pcReleaseUntil p
        then Returned True (p\<lparr>pcSlip := (if now > deadline then wrap64 (now - deadline) else 0)\<rparr>) []
        else let d = wrap64 (deadline - now);
                 d = (if d > pcMaxSlice p then pcMaxSlice p else d)
             in reset_timer d (wait_loop deadline obs p))"

definition Wait :: "int \<Rightarrow> (bool \<times> int) list \<Rightarrow> Pacer \<Rightarrow> waited" where
  "Wait ts obs p =
     (case DeliveryTime (pcSpeed p) (pcT0 p) (pcBase p) ts of
        None \<Rightarrow> WaitPanic
      | Some deadline \<Rightarrow>
          if deadline \<le> pcReleaseUntil p then Returned True p [] else wait_loop deadline obs p)"

section \<open>The schedule\<close>

definition due_time :: "Speed \<Rightarrow> int \<Rightarrow> int \<Rightarrow> int \<Rightarrow> int" where
  "due_time s t0 base ts =
     (if ts \<le> base then t0
      else let q = (ts - base) * sDen s div sNum s
           in if MaxInt64 < q then MaxInt64 else min MaxInt64 (t0 + q))"

lemma DeliveryTime_due:
  "speed_ok (sNum s) (sDen s) \<Longrightarrow> int64 t0 \<Longrightarrow> int64 (ts - base) \<Longrightarrow> DeliveryTime s t0 base ts = Some (due_time s t0 base ts)"
  unfolding due_time_def by (rule DeliveryTime_exact)

lemma due_time_le: "t0 \<le> MaxInt64 \<Longrightarrow> due_time s t0 base ts \<le> MaxInt64"
  by (auto simp: due_time_def Let_def)

lemma le_due_time: "speed_ok (sNum s) (sDen s) \<Longrightarrow> t0 \<le> MaxInt64 \<Longrightarrow> t0 \<le> due_time s t0 base ts"
proof -
  assume "speed_ok (sNum s) (sDen s)" "t0 \<le> MaxInt64"
  moreover from this have "0 \<le> (ts - base) * sDen s div sNum s" if "base < ts"
    using that by (simp add: speed_ok_def pos_imp_zdiv_nonneg_iff)
  ultimately show ?thesis by (auto simp: due_time_def Let_def)
qed

text \<open>A pacer that has been started at \<open>t0\<close> with the record of time \<open>base\<close>.\<close>

definition pacer_ok :: "Speed \<Rightarrow> int \<Rightarrow> int \<Rightarrow> int \<Rightarrow> Pacer \<Rightarrow> bool" where
  "pacer_ok speed window t0 base p \<longleftrightarrow> pcSpeed p = speed \<and> pcWindow p = window \<and> pcT0 p = t0 \<and> pcBase p = base
     \<and> pcMaxSlice p = defaultMaxSlice \<and> pcReleaseUntil p \<le> pcLast p + window"

text \<open>The times a clock shows that has not been set before 1970.\<close>

definition clock_times :: "(bool \<times> int) list \<Rightarrow> bool" where
  "clock_times obs \<longleftrightarrow> list_all (\<lambda>(stop, now). 0 \<le> now \<and> int64 now) obs"

definition window_ok :: "int \<Rightarrow> bool" where
  "window_ok w \<longleftrightarrow> 0 < w \<and> w \<le> MaxInt64"

lemma addClamped_eq:
  assumes "0 \<le> a" "int64 a" "window_ok b"
  shows "addClampedInt64 a b = min MaxInt64 (a + b)"
proof -
  have "wrap64 (MaxInt64 - a) = MaxInt64 - a" using assms by (intro wrap64_id) (simp_all add: MaxInt64_def int64_def)
  moreover have "wrap64 (a + b) = a + b" if "b \<le> MaxInt64 - a"
    using that assms by (intro wrap64_id) (simp_all add: MaxInt64_def window_ok_def)
  ultimately show ?thesis by (auto simp: addClampedInt64_def min_def)
qed

lemma measureWindow_ok: "window_ok (measureWindow probe)"
  by (auto simp: measureWindow_def Let_def unboundedWindow_def MaxInt64_def minWindow_def maxWindow_def window_ok_def)

lemma reset_timer_Returned: "reset_timer d w = Returned b p ds \<Longrightarrow> \<exists>ds'. w = Returned b p ds'"
  by (cases w) auto

lemma wait_loop_ok:
  assumes "pacer_ok speed window t0 base p" "window_ok window" "clock_times obs" "0 \<le> deadline" "int64 deadline"
    and "wait_loop deadline obs p = Returned b p' ds"
  shows "pacer_ok speed window t0 base p' \<and> (b \<longrightarrow> deadline \<le> pcLast p' + window \<and> pcSlip p' = max 0 (pcLast p' - deadline))"
  using assms
proof (induction obs arbitrary: p ds)
  case (Cons x obs)
  obtain stop now where x: "x = (stop, now)" by fastforce
  have now: "0 \<le> now" "int64 now" "clock_times obs" using Cons.prems(3) by (simp_all add: x clock_times_def)
  have w: "pcWindow p = window" using Cons.prems(1) by (simp add: pacer_ok_def)
  let ?p = "p\<lparr>pcReleaseUntil := addClampedInt64 now window, pcLast := now\<rparr>"
  note add = addClamped_eq [OF now(1,2) Cons.prems(2)]
  have p: "pacer_ok speed window t0 base ?p" using Cons.prems(1) by (simp add: pacer_ok_def add)
  show ?case
  proof (cases "stop \<or> deadline \<le> addClampedInt64 now window")
    case True
    have "wrap64 (now - deadline) = now - deadline"
      using now Cons.prems(4,5) by (intro wrap64_id) (simp_all add: int64_def)
    with True Cons.prems(1,6) p w add show ?thesis by (auto simp: x Let_def pacer_ok_def split: if_splits)
  next
    case False
    then obtain ds' where "wait_loop deadline obs ?p = Returned b p' ds'"
      using Cons.prems(6) w by (auto simp: x Let_def dest: reset_timer_Returned)
    from Cons.IH [OF p Cons.prems(2) now(3) Cons.prems(4,5) this] show ?thesis .
  qed
qed simp

text \<open>A run: the records offered, each with what the clock and the flag show while it waits. The result
  is the records released, each with the pacer at that moment.\<close>

fun paced_run :: "(int \<times> (bool \<times> int) list) list \<Rightarrow> Pacer \<Rightarrow> (int \<times> Pacer) list" where
  "paced_run [] p = []"
| "paced_run ((ts, obs) # rest) p =
     (case Wait ts obs p of Returned True p' ds \<Rightarrow> (ts, p') # paced_run rest p' | _ \<Rightarrow> [])"

lemma Wait_ok:
  assumes "pacer_ok speed window t0 base p" "window_ok window" "clock_times obs" "speed_ok (sNum speed) (sDen speed)"
    "0 \<le> t0" "int64 t0" "int64 (ts - base)" "Wait ts obs p = Returned b p' ds"
  shows "pacer_ok speed window t0 base p' \<and> (b \<longrightarrow> due_time speed t0 base ts \<le> pcLast p' + window)"
proof -
  let ?d = "due_time speed t0 base ts"
  have dt: "DeliveryTime (pcSpeed p) (pcT0 p) (pcBase p) ts = Some ?d"
    using assms(1) DeliveryTime_due [OF assms(4,6,7)] by (simp add: pacer_ok_def)
  have d: "0 \<le> ?d" "int64 ?d"
    using le_due_time [OF assms(4), of t0 base ts] due_time_le [of t0 speed base ts] assms(5,6)
    by (auto simp: int64_def MaxInt64_def)
  then show ?thesis
    using assms(1,8) wait_loop_ok [OF assms(1-3) d, of b p' ds] dt
    by (auto simp: Wait_def pacer_ok_def split: if_splits)
qed

text \<open>C24: A paced replay keeps the schedule. For every record released, whatever the clock shows and
  however the waits were interrupted before, the time the pacer saw last is at most one window before
  the record's exact due time, \<open>t0 + (ts - base) * den / num\<close>; the schedule is never anchored
  again.\<close>

theorem pacer_schedule:
  assumes "speed_ok (sNum speed) (sDen speed)" "window_ok window" "0 \<le> t0" "int64 t0"
    and "list_all (\<lambda>(ts, obs). int64 (ts - base) \<and> clock_times obs) offered"
  shows "list_all (\<lambda>(ts, p). due_time speed t0 base ts \<le> pcLast p + window \<and> pcT0 p = t0 \<and> pcBase p = base)
    (paced_run offered (pacer_Start t0 base (newPacerWindow speed window)))"
proof -
  have "list_all (\<lambda>(ts, p). due_time speed t0 base ts \<le> pcLast p + window \<and> pcT0 p = t0 \<and> pcBase p = base) (paced_run offered p)"
    if "pacer_ok speed window t0 base p" for p
    using assms(5) that
  proof (induction offered p rule: paced_run.induct)
    case (2 ts obs rest p)
    have o: "int64 (ts - base)" "clock_times obs" using "2.prems"(1) by simp_all
    show ?case
    proof (cases "Wait ts obs p")
      case (Returned b p' ds)
      note w = Wait_ok [OF "2.prems"(2) assms(2) o(2) assms(1,3,4) o(1) Returned]
      show ?thesis
      proof (cases b)
        case True
        then show ?thesis using "2.IH" [OF Returned, of] "2.prems"(1) w Returned by (simp add: pacer_ok_def)
      qed (simp add: Returned)
    qed simp_all
  qed simp
  moreover have "pacer_ok speed window t0 base (pacer_Start t0 base (newPacerWindow speed window))"
    using assms(2) by (simp add: pacer_ok_def pacer_Start_def newPacerWindow_def window_ok_def)
  ultimately show ?thesis by blast
qed

section \<open>Waiting ends\<close>

text \<open>The clock keeps its promise: after a wait of \<open>d\<close> it shows at least \<open>d\<close> more.\<close>

fun waits_kept :: "int \<Rightarrow> (bool \<times> int) list \<Rightarrow> bool" where
  "waits_kept deadline ((s, a) # (s', b) # obs) =
     (a + min defaultMaxSlice (deadline - a) \<le> b \<and> waits_kept deadline ((s', b) # obs))"
| "waits_kept deadline obs = True"

lemma wait_loop_ends:
  assumes "pacer_ok speed window t0 base p" "window_ok window" "clock_times obs" "0 \<le> deadline" "int64 deadline"
    "list_all (\<lambda>(stop, now). \<not> stop) obs" "waits_kept deadline obs" "obs \<noteq> []"
    "deadline - snd (hd obs) \<le> int k * defaultMaxSlice" "k < length obs"
  shows "\<exists>p' ds. wait_loop deadline obs p = Returned True p' ds \<and> length ds \<le> k
    \<and> list_all (\<lambda>d. 0 < d \<and> d \<le> defaultMaxSlice) ds"
  using assms
proof (induction k arbitrary: obs p)
  case 0
  obtain now obs' where x: "obs = (False, now) # obs'" using 0 by (cases obs) auto
  have "deadline \<le> addClampedInt64 now window"
    using 0 addClamped_eq [of now window] by (auto simp: x clock_times_def window_ok_def int64_def MaxInt64_def)
  then show ?case using "0.prems"(1) by (auto simp: x Let_def pacer_ok_def)
next
  case (Suc k)
  obtain now obs' where x: "obs = (False, now) # obs'" using Suc.prems by (cases obs) auto
  let ?p = "p\<lparr>pcReleaseUntil := addClampedInt64 now window, pcLast := now\<rparr>"
  have now: "0 \<le> now" "int64 now" "clock_times obs'" using Suc.prems(3) by (simp_all add: x clock_times_def)
  have pw: "pcWindow p = window" "pcMaxSlice p = defaultMaxSlice" using Suc.prems(1) by (simp_all add: pacer_ok_def)
  note add = addClamped_eq [OF now(1,2) Suc.prems(2)]
  show ?case
  proof (cases "deadline \<le> addClampedInt64 now window")
    case True
    then show ?thesis using pw by (auto simp: x Let_def)
  next
    case False
    have p: "pacer_ok speed window t0 base ?p" using Suc.prems(1) by (simp add: pacer_ok_def add)
    have late: "now < deadline" using False add Suc.prems(2,5) by (auto simp: window_ok_def int64_def MaxInt64_def)
    have d: "wrap64 (deadline - now) = deadline - now"
      using now late Suc.prems(5) by (intro wrap64_id) (simp_all add: int64_def)
    obtain now' obs'' where x': "obs' = (False, now') # obs''" using Suc.prems(6,10) x by (cases obs') auto
    have "now + min defaultMaxSlice (deadline - now) \<le> now'" "waits_kept deadline obs'"
      using Suc.prems(7) by (simp_all add: x x')
    moreover have "deadline - now \<le> int k * defaultMaxSlice + defaultMaxSlice"
      using Suc.prems(9) by (simp add: x algebra_simps)
    moreover have "0 \<le> int k * defaultMaxSlice" by (simp add: defaultMaxSlice_def)
    ultimately have "deadline - snd (hd obs') \<le> int k * defaultMaxSlice" by (auto simp: x' min_def split: if_splits)
    then obtain p' ds where r: "wait_loop deadline obs' ?p = Returned True p' ds" "length ds \<le> k"
        "list_all (\<lambda>d. 0 < d \<and> d \<le> defaultMaxSlice) ds"
      using Suc.IH [OF p Suc.prems(2) now(3) Suc.prems(4,5), of] Suc.prems(6,10) \<open>waits_kept deadline obs'\<close>
      by (auto simp: x x')
    have "wait_loop deadline obs p = Returned True p'
        ((if deadline - now > defaultMaxSlice then defaultMaxSlice else deadline - now) # ds)"
      using False r(1) d pw by (simp add: x Let_def)
    moreover have "0 < defaultMaxSlice" by (simp add: defaultMaxSlice_def)
    ultimately show ?thesis using r late by auto
  qed
qed

text \<open>A wait ends, and ends on time. When the pacer is not stopped and its clock keeps its promise,
  \<^verbatim>\<open>Wait\<close> returns true within one round more than there are slices until the record is due; every
  delay it sets the timer to is positive and at most one slice, so that a stop is seen that soon; and
  afterwards \<^verbatim>\<open>Slip\<close> is how late the record is, if the call read the clock.\<close>

theorem pacer_wait_ends:
  assumes "pacer_ok speed window t0 base p" "window_ok window" "speed_ok (sNum speed) (sDen speed)" "0 \<le> t0" "int64 t0"
    and "int64 (ts - base)" "clock_times obs" "list_all (\<lambda>(stop, now). \<not> stop) obs"
    and "deadline = due_time speed t0 base ts" "waits_kept deadline obs"
    and "obs \<noteq> []" "deadline - snd (hd obs) \<le> int k * defaultMaxSlice" "k < length obs"
  shows "\<exists>p' ds. Wait ts obs p = Returned True p' ds \<and> length ds \<le> k
    \<and> list_all (\<lambda>d. 0 < d \<and> d \<le> defaultMaxSlice) ds
    \<and> (deadline \<le> pcReleaseUntil p \<or> Slip p' = max 0 (pcLast p' - deadline))"
proof -
  have dt: "DeliveryTime (pcSpeed p) (pcT0 p) (pcBase p) ts = Some deadline"
    using assms(1,9) DeliveryTime_due [OF assms(3,5,6)] by (simp add: pacer_ok_def)
  have d: "0 \<le> deadline" "int64 deadline"
    using le_due_time [OF assms(3), of t0 base ts] due_time_le [of t0 speed base ts] assms(4,5,9)
    by (auto simp: int64_def MaxInt64_def)
  show ?thesis
  proof (cases "deadline \<le> pcReleaseUntil p")
    case True
    then show ?thesis by (simp add: Wait_def dt)
  next
    case False
    from wait_loop_ends [OF assms(1,2,7) d assms(8,10,11,12,13)]
    obtain p' ds where r: "wait_loop deadline obs p = Returned True p' ds" "length ds \<le> k"
      "list_all (\<lambda>d. 0 < d \<and> d \<le> defaultMaxSlice) ds" by blast
    with wait_loop_ok [OF assms(1,2,7) d r(1)] False show ?thesis
      by (auto simp: Wait_def dt Slip_def)
  qed
qed

section \<open>On a simulated clock\<close>

text \<open>What a probe sees of a clock that nothing advances meanwhile.\<close>

definition sim_probe :: "SimClock \<Rightarrow> int \<times> int" where
  "sim_probe sc = (sim_Now sc, sim_Now (sim_SleepUntil (sim_Now sc + probeDelay) sc))"

text \<open>On the simulated clock a paced replay never waits: the window measured is unbounded, and every
  call that is not stopped returns true at once, without setting the timer that nobody would advance.\<close>

theorem pacer_sim_never_waits:
  assumes "speed_ok (sNum speed) (sDen speed)" "int64 t0" "int64 (ts - base)"
    and "pcSpeed p = speed" "pcT0 p = t0" "pcBase p = base" "pcWindow p = pcWindow (NewPacer speed (\<lambda>_. sim_probe sc))"
    and "0 \<le> now" "int64 now"
  shows "\<exists>p'. Wait ts ((False, now) # obs) p = Returned True p' []"
proof -
  have "fold (\<lambda>i worst. case sim_probe sc of (start, after) \<Rightarrow>
      let d = wrap64 (after - start) in if d > worst then d else worst) xs 0 = 0" for xs :: "nat list"
    by (induction xs) (simp_all add: sim_probe_def sim_SleepUntil_def wrap64_def)
  then have "measureWindow (\<lambda>_. sim_probe sc) = unboundedWindow"
    by (simp add: measureWindow_def)
  then have w: "pcWindow p = MaxInt64" using assms(7) by (simp add: NewPacer_def newPacerWindow_def unboundedWindow_def)
  have "due_time speed t0 base ts \<le> MaxInt64" using assms(2) by (intro due_time_le) (simp add: int64_def MaxInt64_def)
  moreover have "addClampedInt64 now MaxInt64 = MaxInt64"
    using addClamped_eq [OF assms(8,9), of MaxInt64] assms(8) by (simp add: window_ok_def MaxInt64_def)
  moreover have "DeliveryTime (pcSpeed p) (pcT0 p) (pcBase p) ts = Some (due_time speed t0 base ts)"
    using DeliveryTime_due [OF assms(1-3)] assms(4-6) by simp
  ultimately show ?thesis by (auto simp: Wait_def w Let_def)
qed

section \<open>Witnesses\<close>

text \<open>At half speed, from record time 10 at clock time 1000, with a window of 2: the record of time 17 is due
  at 1014 and released when the clock shows 1012.\<close>

definition half_speed :: Speed where "half_speed = \<lparr>sNum = 1, sDen = 2\<rparr>"

lemma half_speed: "speed_ok (sNum half_speed) (sDen half_speed)" "due_time half_speed 1000 10 10 = 1000"
  "due_time half_speed 1000 10 17 = 1014"
  by (simp_all add: half_speed_def speed_ok_def due_time_def MaxInt64_def)

definition sample_pacer :: Pacer where
  "sample_pacer = pacer_Start 1000 10 (newPacerWindow half_speed 2)"

lemma sample_pacer: "pacer_ok half_speed 2 1000 10 sample_pacer" "window_ok 2"
  by (simp_all add: pacer_ok_def sample_pacer_def pacer_Start_def newPacerWindow_def window_ok_def MaxInt64_def)

lemma sample_DeliveryTime: "DeliveryTime half_speed 1000 10 10 = Some 1000" "DeliveryTime half_speed 1000 10 17 = Some 1014"
  using DeliveryTime_due [OF half_speed(1), of 1000 10 10] DeliveryTime_due [OF half_speed(1), of 1000 17 10]
  by (simp_all add: int64_def half_speed)

definition sample_offered :: "(int \<times> (bool \<times> int) list) list" where
  "sample_offered = [(10, []), (17, [(False, 1001), (False, 1012)])]"

theorem pacer_schedule_witness:
  "map fst (paced_run sample_offered sample_pacer) = [10, 17]
   \<and> list_all (\<lambda>(ts, p). due_time half_speed 1000 10 ts \<le> pcLast p + 2 \<and> pcT0 p = 1000 \<and> pcBase p = 10)
      (paced_run sample_offered sample_pacer)"
proof -
  have "list_all (\<lambda>(ts, obs). int64 (ts - 10) \<and> clock_times obs) sample_offered"
    by (simp add: sample_offered_def int64_def clock_times_def)
  note s = pacer_schedule [OF half_speed(1) sample_pacer(2) _ _ this, of 1000, folded sample_pacer_def]
  have "map fst (paced_run sample_offered sample_pacer) = [10, 17]"
    by (simp add: sample_offered_def sample_pacer_def pacer_Start_def newPacerWindow_def Wait_def sample_DeliveryTime
        addClampedInt64_def MaxInt64_def wrap64_def Let_def)
  with s show ?thesis by (simp add: int64_def)
qed

theorem pacer_wait_ends_witness:
  "\<exists>p' ds. Wait 17 [(False, 1001), (False, 1014)] sample_pacer = Returned True p' ds \<and> length ds \<le> 1"
proof -
  have h: "clock_times [(False, 1001), (False, 1014)]" "list_all (\<lambda>(stop, now). \<not> stop) [(False, 1001 :: int), (False, 1014)]"
    "waits_kept 1014 [(False, 1001), (False, 1014)]" "1014 - snd (hd [(False, 1001 :: int), (False, 1014)]) \<le> int 1 * defaultMaxSlice"
    by (simp_all add: clock_times_def int64_def defaultMaxSlice_def)
  have "\<exists>p' ds. Wait 17 [(False, 1001), (False, 1014)] sample_pacer = Returned True p' ds \<and> length ds \<le> 1
    \<and> list_all (\<lambda>d. 0 < d \<and> d \<le> defaultMaxSlice) ds
    \<and> (1014 \<le> pcReleaseUntil sample_pacer \<or> Slip p' = max 0 (pcLast p' - 1014))"
    by (rule pacer_wait_ends [OF sample_pacer half_speed(1) _ _ _ h(1,2) half_speed(3) [symmetric] h(3) _ h(4)])
      (simp_all add: int64_def)
  then show ?thesis by blast
qed

theorem pacer_sim_never_waits_witness:
  "\<exists>p'. Wait 17 [(False, 0)] (pacer_Start 0 10 (NewPacer half_speed (\<lambda>_. sim_probe newSimClock))) = Returned True p' []"
  by (rule pacer_sim_never_waits [OF half_speed(1), of 0 17 10 _ newSimClock 0])
    (simp_all add: int64_def pacer_Start_def NewPacer_def newPacerWindow_def)

end
