(* ===== verification/Fanout_Ring.thy ===== *)
theory Fanout_Ring
  imports Store_Format
begin

text \<open>
  The shared ring of \<^verbatim>\<open>src/internal/fanout/ring.go\<close>. The memory the writer and the
  readers share is a record of words that Go accesses through \<^verbatim>\<open>sync/atomic\<close>, whose
  operations are sequentially consistent. \<open>write_step\<close> performs one store of one
  \<^verbatim>\<open>Write\<close>, in program order, and \<open>read_step\<close> one load of one \<^verbatim>\<open>read\<close>, so that an interleaving
  of a writer and its readers is a sequence of such stores and loads. The lemmas describe the memory
  after any prefix of a write, and what a reader that was overtaken at any point can still conclude.
\<close>

section \<open>Memory\<close>

datatype fanout_error =
    ErrCapacity | ErrMaxBlobBytes | ErrBlobTooLarge | ErrModeUnset | ErrStartUnset | ErrStartLapped
  | ErrClosed | ErrEvicted | ErrCanceled | RingPanic

definition slotWords :: nat where "slotWords = RecordSize div 8"

record slot =
  slSeq :: u64
  slWords :: "u64 list"

text \<open>\<^verbatim>\<open>Config\<close> without its clock, which is a parameter of the definitions that read it.\<close>

record Config =
  cfgCapacity :: int
  cfgMaxBlobBytes :: int
  cfgWatchdogTimeout :: i64

record memory =
  rMask :: u64
  rBlobWords :: nat
  rMaxBlob :: nat
  rSlots :: "slot list"
  rBlobs :: "u64 list"
  rWriteSeq :: u64
  rEndPlusOne :: u64

text \<open>\<open>AND\<close> on \<open>int\<close> is Go's \<^verbatim>\<open>&\<close> on a signed \<^verbatim>\<open>int\<close>. \<open>RingPanic\<close> is the panic of
  \<^verbatim>\<open>make\<close> on a negative length, which only a product that wraps gives.\<close>

definition NewRing :: "Config \<Rightarrow> fanout_error + memory" where
  "NewRing cfg =
     (if cfgCapacity cfg < 2 \<or> (cfgCapacity cfg AND (cfgCapacity cfg - 1)) \<noteq> 0 then Inl ErrCapacity
      else if cfgMaxBlobBytes cfg < 0 then Inl ErrMaxBlobBytes
      else let blobWords = go_quot (wrap64 (cfgMaxBlobBytes cfg + 7)) 8;
               words = wrap64 (blobWords * cfgCapacity cfg)
           in if words < 0 then Inl RingPanic
              else Inr \<lparr>rMask = of_int (cfgCapacity cfg - 1), rBlobWords = nat blobWords,
                rMaxBlob = nat (cfgMaxBlobBytes cfg),
                rSlots = replicate (nat (cfgCapacity cfg)) \<lparr>slSeq = 0, slWords = replicate slotWords 0\<rparr>,
                rBlobs = replicate (nat words) 0,
                rWriteSeq = 0, rEndPlusOne = 0\<rparr>)"

definition Capacity :: "memory \<Rightarrow> nat" where
  "Capacity r = unat (rMask r) + 1"

definition WriteIndex :: "memory \<Rightarrow> u64" where
  "WriteIndex r = rWriteSeq r"

text \<open>The store of \<^verbatim>\<open>SetEnd\<close>; the result of \<^verbatim>\<open>End\<close> is \<open>None\<close> when none was set.\<close>

definition store_end :: "u64 \<Rightarrow> memory \<Rightarrow> memory" where
  "store_end e r = r\<lparr>rEndPlusOne := e + 1\<rparr>"

definition End :: "memory \<Rightarrow> u64 option" where
  "End r = (let v = rEndPlusOne r in if v = 0 then None else Some (v - 1))"

section \<open>Writing\<close>

definition slot_index :: "memory \<Rightarrow> u64 \<Rightarrow> nat" where
  "slot_index r n = unat (n AND rMask r)"

definition blob_word :: "bytes \<Rightarrow> nat \<Rightarrow> u64" where
  "blob_word blob w =
     (let off = w * 8; end_off = off + 8
      in if end_off > length blob then Uint64 (put (replicate 8 0) 0 (drop off blob)) 0
         else Uint64 blob off)"

text \<open>The words of the stack buffer the record is encoded into.\<close>

definition record_words :: "Record \<Rightarrow> u64 list" where
  "record_words rec = u64s_at (the (EncodeRecord (replicate RecordSize 0) rec)) slotWords"

text \<open>
  \<^verbatim>\<open>Write\<close> past its barrier, one atomic store at a time, in program order: the even sequence
  number, the words of the record, the words of the blob, the odd sequence number, the write index.
\<close>

datatype write_pc = StoreEven | StoreWord nat | StoreBlob nat | StoreOdd | StoreIndex | WriteDone

definition writeBlob_pc :: "bytes \<Rightarrow> nat \<Rightarrow> write_pc" where
  "writeBlob_pc blob w = (if w < (length blob + 7) div 8 then StoreBlob w else StoreOdd)"

definition record_pc :: "bytes \<Rightarrow> nat \<Rightarrow> write_pc" where
  "record_pc blob w =
     (if w < slotWords then StoreWord w else if 0 < length blob then writeBlob_pc blob 0 else StoreOdd)"

definition set_seq :: "nat \<Rightarrow> u64 \<Rightarrow> memory \<Rightarrow> memory" where
  "set_seq i v r = r\<lparr>rSlots := (rSlots r)[i := (rSlots r ! i)\<lparr>slSeq := v\<rparr>]\<rparr>"

definition set_word :: "nat \<Rightarrow> nat \<Rightarrow> u64 \<Rightarrow> memory \<Rightarrow> memory" where
  "set_word i w v r =
     r\<lparr>rSlots := (rSlots r)[i := (rSlots r ! i)\<lparr>slWords := (slWords (rSlots r ! i))[w := v]\<rparr>]\<rparr>"

fun write_step :: "u64 \<Rightarrow> Record \<Rightarrow> bytes \<Rightarrow> write_pc \<Rightarrow> memory \<Rightarrow> write_pc \<times> memory" where
  "write_step n rec blob StoreEven r = (record_pc blob 0, set_seq (slot_index r n) (2 * n) r)"
| "write_step n rec blob (StoreWord w) r =
     (record_pc blob (w + 1), set_word (slot_index r n) w (record_words rec ! w) r)"
| "write_step n rec blob (StoreBlob w) r =
     (writeBlob_pc blob (w + 1),
      r\<lparr>rBlobs := (rBlobs r)[slot_index r n * rBlobWords r + w := blob_word blob w]\<rparr>)"
| "write_step n rec blob StoreOdd r = (StoreIndex, set_seq (slot_index r n) (2 * n + 1) r)"
| "write_step n rec blob StoreIndex r = (WriteDone, r\<lparr>rWriteSeq := n + 1\<rparr>)"
| "write_step n rec blob WriteDone r = (WriteDone, r)"

section \<open>Reading\<close>

record read_result =
  rrRec :: Record
  rrBlob :: "bytes option"
  rrHeld :: u64
  rrComplete :: bool

text \<open>
  The bytes of \<open>n\<close> bytes' worth of blob words, as \<^verbatim>\<open>readBlob\<close> copies them; a short last word
  is cut.
\<close>

definition blob_bytes :: "nat \<Rightarrow> u64 list \<Rightarrow> bytes" where
  "blob_bytes n ws = take n (u64s_bytes ws)"

definition readBlob :: "memory \<Rightarrow> nat \<Rightarrow> nat \<Rightarrow> bytes" where
  "readBlob r slotIndex n =
     (let base = slotIndex * rBlobWords r
      in blob_bytes n (map (\<lambda>w. rBlobs r ! (base + w)) [0..<(n + 7) div 8]))"

definition decode_words :: "u64 list \<Rightarrow> Record" where
  "decode_words ws = the (DecodeRecordFields (u64s_bytes ws))"

definition torn :: "Record \<Rightarrow> u64 \<Rightarrow> read_result" where
  "torn rec seq = \<lparr>rrRec = rec, rrBlob = None, rrHeld = drop_bit 1 seq, rrComplete = False\<rparr>"

text \<open>The whole read against a memory that does not change.\<close>

definition read :: "memory \<Rightarrow> u64 \<Rightarrow> Record \<Rightarrow> read_result" where
  "read r n rec =
     (let i = slot_index r n; before = slSeq (rSlots r ! i) in
      if before \<noteq> 2 * n + 1 then torn rec before
      else let rec = decode_words (map (\<lambda>w. slWords (rSlots r ! i) ! w) [0..<slotWords]);
               blobLen = int (unat (BlobLen rec)) - 4 in
           if RecordType rec = RecordTypeSnapshotPointer \<and> (blobLen < 0 \<or> blobLen > int (rMaxBlob r))
           then torn rec (slSeq (rSlots r ! i))
           else let blobOut = (if RecordType rec = RecordTypeSnapshotPointer
                               then Some (readBlob r i (nat blobLen)) else None) in
           if slSeq (rSlots r ! i) \<noteq> before then torn rec (slSeq (rSlots r ! i))
           else \<lparr>rrRec = rec, rrBlob = blobOut, rrHeld = n, rrComplete = True\<rparr>)"

text \<open>
  The same read one load at a time: the first load of \<^verbatim>\<open>seq\<close>, the words, the words of the blob,
  and the reload of \<^verbatim>\<open>seq\<close>, which \<open>ReloadBad\<close> does when the length decoded cannot be right.
\<close>

datatype read_pc =
    LoadSeq
  | LoadWords "u64 list"
  | LoadBlob Record "u64 list"
  | Reload Record "bytes option"
  | ReloadBad Record

definition blob_length :: "Record \<Rightarrow> int" where
  "blob_length rec = int (unat (BlobLen rec)) - 4"

definition after_words :: "memory \<Rightarrow> u64 list \<Rightarrow> read_pc" where
  "after_words r ws =
     (if length ws < slotWords then LoadWords ws
      else let rec = decode_words ws in
        if RecordType rec \<noteq> RecordTypeSnapshotPointer then Reload rec None
        else if blob_length rec < 0 \<or> blob_length rec > int (rMaxBlob r) then ReloadBad rec
        else if blob_length rec = 0 then Reload rec (Some [])
        else LoadBlob rec [])"

definition after_blob :: "Record \<Rightarrow> u64 list \<Rightarrow> read_pc" where
  "after_blob rec ws =
     (if length ws < (nat (blob_length rec) + 7) div 8 then LoadBlob rec ws
      else Reload rec (Some (blob_bytes (nat (blob_length rec)) ws)))"

fun read_step :: "memory \<Rightarrow> u64 \<Rightarrow> Record \<Rightarrow> read_pc \<Rightarrow> read_result + read_pc" where
  "read_step r n rec0 LoadSeq =
     (let before = slSeq (rSlots r ! slot_index r n)
      in if before \<noteq> 2 * n + 1 then Inl (torn rec0 before) else Inr (LoadWords []))"
| "read_step r n rec0 (LoadWords ws) =
     Inr (after_words r (ws @ [slWords (rSlots r ! slot_index r n) ! length ws]))"
| "read_step r n rec0 (LoadBlob rec ws) =
     Inr (after_blob rec (ws @ [rBlobs r ! (slot_index r n * rBlobWords r + length ws)]))"
| "read_step r n rec0 (Reload rec blobOut) =
     (let after = slSeq (rSlots r ! slot_index r n)
      in if after \<noteq> 2 * n + 1 then Inl (torn rec after)
         else Inl \<lparr>rrRec = rec, rrBlob = blobOut, rrHeld = n, rrComplete = True\<rparr>)"
| "read_step r n rec0 (ReloadBad rec) = Inl (torn rec (slSeq (rSlots r ! slot_index r n)))"

section \<open>Geometry\<close>

lemma power_of_two:
  fixes x :: int
  assumes "0 < x" "x AND (x - 1) = 0"
  shows "\<exists>m. x = 2 ^ m"
  using assms
proof (induction "nat x" arbitrary: x rule: less_induct)
  case less
  show ?case
  proof (cases "even x")
    case True
    then obtain y where y: "x = 2 * y" by (elim evenE)
    have d: "(2 * y - 1) div 2 = y - 1" by simp
    have "2 * (y AND (y - 1)) = 0"
      using less.prems(2) and_rec [of "2 * y" "2 * y - 1"] unfolding y d by simp
    then obtain m where "y = 2 ^ m"
      using less.hyps [of y] less.prems(1) y by auto
    then have "x = 2 ^ Suc m" by (simp add: y)
    then show ?thesis by blast
  next
    case False
    then obtain y where y: "x = 2 * y + 1" by (elim oddE)
    have d: "(2 * y + 1) div 2 = y" by simp
    have "2 * (y AND y) = 0"
      using less.prems(2) and_rec [of "2 * y + 1" "2 * y"] unfolding y by (simp add: d)
    then have "x = 2 ^ 0" by (simp add: y)
    then show ?thesis by blast
  qed
qed

definition geom :: "nat \<Rightarrow> memory \<Rightarrow> bool" where
  "geom cap r \<longleftrightarrow> (\<exists>m. 0 < m \<and> m < 63 \<and> cap = 2 ^ m) \<and> rMask r = of_nat (cap - 1)
     \<and> length (rSlots r) = cap \<and> (\<forall>j < cap. length (slWords (rSlots r ! j)) = slotWords)
     \<and> length (rBlobs r) = rBlobWords r * cap \<and> rMaxBlob r \<le> 8 * rBlobWords r"

text \<open>The configurations whose arena an address space can hold.\<close>

definition arena_fits :: "Config \<Rightarrow> bool" where
  "arena_fits cfg \<longleftrightarrow> cfgCapacity cfg < 2 ^ 63 \<and> cfgMaxBlobBytes cfg + 7 < 2 ^ 63
     \<and> (cfgMaxBlobBytes cfg + 7) div 8 * cfgCapacity cfg < 2 ^ 63"

lemma geom_NewRing:
  assumes "NewRing cfg = Inr r" "arena_fits cfg"
  shows "geom (nat (cfgCapacity cfg)) r"
proof -
  let ?c = "cfgCapacity cfg" and ?b = "(cfgMaxBlobBytes cfg + 7) div 8"
  have c: "2 \<le> ?c" "?c AND (?c - 1) = 0" "0 \<le> cfgMaxBlobBytes cfg"
    using assms(1) by (auto simp: NewRing_def split: if_splits)
  obtain m where m: "?c = 2 ^ m"
    using power_of_two [of ?c] c by auto
  have "0 < m" using c(1) m by (cases m) auto
  moreover have "m < 63"
    using assms(2) m by (simp add: arena_fits_def flip: power_strict_increasing_iff [of "2 :: int" m 63])
  ultimately have cap: "\<exists>m>0. m < 63 \<and> nat ?c = 2 ^ m"
    using m by (intro exI [of _ m]) (simp add: nat_power_eq)
  have q: "go_quot (wrap64 (cfgMaxBlobBytes cfg + 7)) 8 = ?b"
    using c assms(2) by (simp add: wrap64_id arena_fits_def go_quot_nonneg)
  have p0: "0 \<le> ?b * ?c" using c by simp
  then have p: "wrap64 (?b * ?c) = ?b * ?c"
    using assms(2) by (intro wrap64_id) (simp_all add: arena_fits_def)
  have r: "r = \<lparr>rMask = of_int (?c - 1), rBlobWords = nat ?b, rMaxBlob = nat (cfgMaxBlobBytes cfg),
      rSlots = replicate (nat ?c) \<lparr>slSeq = 0, slWords = replicate slotWords 0\<rparr>,
      rBlobs = replicate (nat (?b * ?c)) 0, rWriteSeq = 0, rEndPlusOne = 0\<rparr>"
    using assms(1) c p p0 by (simp add: NewRing_def q Let_def not_less)
  have "of_int (?c - 1) = (of_nat (nat ?c - 1) :: u64)"
  proof -
    have "?c - 1 = int (nat ?c - 1)" using c by simp
    then show ?thesis by (metis of_int_of_nat_eq)
  qed
  then show ?thesis
    using cap c by (simp add: geom_def r nat_mult_distrib)
qed

lemma slot_index_mod: "geom cap r \<Longrightarrow> slot_index r n = unat n mod cap"
proof -
  assume "geom cap r"
  then obtain m where m: "m < 63" "cap = 2 ^ m" and k: "rMask r = of_nat (cap - 1)"
    by (auto simp: geom_def)
  have "rMask r = mask m"
    by (simp add: k m(2) mask_eq_exp_minus_1 of_nat_diff)
  then show ?thesis
    by (simp add: slot_index_def m(2) flip: take_bit_eq_mask take_bit_eq_mod)
      (simp add: unsigned_take_bit_eq)
qed

lemma geom_pos: "geom cap r \<Longrightarrow> 0 < cap"
  by (auto simp: geom_def)

lemma geom_slots: "geom cap r \<Longrightarrow> length (rSlots r) = cap"
  by (simp add: geom_def)

lemma geom_words: "geom cap r \<Longrightarrow> j < cap \<Longrightarrow> length (slWords (rSlots r ! j)) = slotWords"
  by (simp add: geom_def)

lemma nth_update_cases: "xs[i := x] ! j = (if j = i \<and> i < length xs then x else xs ! j)"
  by (cases "i < length xs") (auto simp: nth_list_update list_update_beyond)

lemma geom_updates [simp]:
  "geom cap r \<Longrightarrow> geom cap (set_seq i v r)"
  "geom cap r \<Longrightarrow> geom cap (set_word i w v r)"
  "geom cap (r\<lparr>rBlobs := (rBlobs r)[k := v]\<rparr>) = geom cap r"
  "geom cap (r\<lparr>rWriteSeq := v\<rparr>) = geom cap r"
  "geom cap (r\<lparr>rEndPlusOne := v\<rparr>) = geom cap r"
  by (auto simp: geom_def set_seq_def set_word_def nth_update_cases)

section \<open>What the memory holds\<close>

lemma length_record_words [simp]: "length (record_words rec) = slotWords"
  by (simp add: record_words_def)

lemma decode_record_words: "decode_words (record_words rec) = rec"
proof -
  have "u64s_bytes (record_words rec) = record_bytes rec"
    by (simp add: record_words_def EncodeRecord_eq RecordSize_def slotWords_def u64s_bytes_at)
  then show ?thesis
    using DecodeRecordFields_record_bytes [of rec "[]"] by (simp add: decode_words_def)
qed

lemma blob_word_padded:
  assumes "w * 8 < length blob"
  shows "blob_word blob w = Uint64 (blob @ replicate 8 0) (w * 8)"
proof (cases "w * 8 + 8 \<le> length blob")
  case True
  then show ?thesis by (simp add: blob_word_def Uint64_def sub_def)
next
  case False
  then show ?thesis
    using assms by (auto simp: blob_word_def Uint64_def sub_def put_at_start Let_def min_def)
qed

lemma blob_bytes_words:
  assumes "\<And>w. w < (length blob + 7) div 8 \<Longrightarrow> ws ! w = blob_word blob w"
    and "length ws = (length blob + 7) div 8"
  shows "blob_bytes (length blob) ws = blob"
proof -
  let ?n = "(length blob + 7) div 8" and ?p = "blob @ replicate 8 (0 :: u8)"
  have "ws = u64s_at ?p ?n"
    by (rule nth_equalityI) (use assms blob_word_padded in \<open>auto simp: u64s_at_def\<close>)
  then have "u64s_bytes ws = take (8 * ?n) ?p"
    by (simp add: u64s_bytes_at)
  moreover have "length blob \<le> 8 * ?n" by simp
  ultimately show ?thesis
    by (simp add: blob_bytes_def min_def)
qed

text \<open>An entry of the log: what was written at one emit index. The reader returns a blob for a
  snapshot only, and finds its length in the record.\<close>

type_synonym entry = "Record \<times> bytes"

definition entry_ok :: "nat \<Rightarrow> entry \<Rightarrow> bool" where
  "entry_ok maxBlob e \<longleftrightarrow> length (snd e) \<le> maxBlob
     \<and> (RecordType (fst e) = RecordTypeSnapshotPointer \<longrightarrow> int (length (snd e)) = blob_length (fst e))"

lemma entry_blob_length:
  "entry_ok b e \<Longrightarrow> RecordType (fst e) = RecordTypeSnapshotPointer \<Longrightarrow> nat (blob_length (fst e)) = length (snd e)"
  by (metis entry_ok_def nat_int)

definition entry_blob :: "entry \<Rightarrow> bytes option" where
  "entry_blob e = (if RecordType (fst e) = RecordTypeSnapshotPointer then Some (snd e) else None)"

definition seq_of :: "memory \<Rightarrow> nat \<Rightarrow> nat" where
  "seq_of r j = unat (slSeq (rSlots r ! j))"

definition slot_data :: "memory \<Rightarrow> nat \<Rightarrow> entry \<Rightarrow> bool" where
  "slot_data r j e \<longleftrightarrow> slWords (rSlots r ! j) = record_words (fst e)
     \<and> (\<forall>w < (length (snd e) + 7) div 8. rBlobs r ! (j * rBlobWords r + w) = blob_word (snd e) w)"

text \<open>
  The memory agrees with a log of \<open>N\<close> entries: a slot holds the last entry with its index, or
  nothing; the slot of entry \<open>N\<close> has its even number while that entry is written, which \<open>w\<close> says.
\<close>

definition slot_ok :: "nat \<Rightarrow> entry list \<Rightarrow> memory \<Rightarrow> nat \<Rightarrow> bool" where
  "slot_ok cap log r j \<longleftrightarrow>
     (\<exists>k < length log. k mod cap = j \<and> length log \<le> k + cap \<and> seq_of r j = 2 * k + 1 \<and> slot_data r j (log ! k))
     \<or> (length log \<le> j \<and> seq_of r j = 0)"

definition mem_ok :: "nat \<Rightarrow> entry list \<Rightarrow> bool \<Rightarrow> memory \<Rightarrow> bool" where
  "mem_ok cap log w r \<longleftrightarrow> geom cap r \<and> length log < 2 ^ 63 \<and> list_all (entry_ok (rMaxBlob r)) log
     \<and> (\<forall>j < cap. if w \<and> j = length log mod cap then seq_of r j = 2 * length log else slot_ok cap log r j)"

lemma mem_okD:
  assumes "mem_ok cap log w r"
  shows "geom cap r" "length log < 2 ^ 63" "list_all (entry_ok (rMaxBlob r)) log" "0 < cap"
  using assms geom_pos by (auto simp: mem_ok_def)

lemma mem_ok_slot: "mem_ok cap log w r \<Longrightarrow> j < cap \<Longrightarrow> \<not> (w \<and> j = length log mod cap) \<Longrightarrow> slot_ok cap log r j"
  by (simp add: mem_ok_def)

lemma mem_okI:
  assumes "geom cap r" "length log < 2 ^ 63" "list_all (entry_ok (rMaxBlob r)) log"
    and "w \<Longrightarrow> seq_of r (length log mod cap) = 2 * length log"
    and "\<And>j. j < cap \<Longrightarrow> \<not> (w \<and> j = length log mod cap) \<Longrightarrow> slot_ok cap log r j"
  shows "mem_ok cap log w r"
  using assms by (simp add: mem_ok_def)

lemma set_frames [simp]:
  "rMaxBlob (set_seq i v r) = rMaxBlob r" "rMaxBlob (set_word i w v r) = rMaxBlob r"
  "rBlobWords (set_seq i v r) = rBlobWords r" "rBlobWords (set_word i w v r) = rBlobWords r"
  "rBlobs (set_seq i v r) = rBlobs r" "rBlobs (set_word i w v r) = rBlobs r"
  "rWriteSeq (set_seq i v r) = rWriteSeq r" "rWriteSeq (set_word i w v r) = rWriteSeq r"
  "rEndPlusOne (set_seq i v r) = rEndPlusOne r" "rEndPlusOne (set_word i w v r) = rEndPlusOne r"
  "rMask (set_seq i v r) = rMask r" "rMask (set_word i w v r) = rMask r"
  by (simp_all add: set_seq_def set_word_def)

lemma unat_index [simp]: "n < 2 ^ 64 \<Longrightarrow> unat (of_nat n :: u64) = n"
  by (simp add: unat_of_nat take_bit_nat_eq_self)

lemma unat_even_index: "n < 2 ^ 63 \<Longrightarrow> unat (2 * of_nat n :: u64) = 2 * n"
proof -
  assume "n < 2 ^ 63"
  then have "unat (of_nat (2 * n) :: u64) = 2 * n" by (intro unat_index) simp
  then show ?thesis by simp
qed

lemma unat_odd_index: "n < 2 ^ 63 \<Longrightarrow> unat (2 * of_nat n + 1 :: u64) = 2 * n + 1"
proof -
  assume "n < 2 ^ 63"
  then have "unat (of_nat (2 * n + 1) :: u64) = 2 * n + 1" by (intro unat_index) simp
  then show ?thesis by (simp add: add.commute)
qed

lemma seq_of_set_seq:
  "geom cap r \<Longrightarrow> i < cap \<Longrightarrow> seq_of (set_seq i v r) j = (if j = i then unat v else seq_of r j)"
  by (simp add: seq_of_def set_seq_def nth_update_cases geom_slots)

lemma slot_data_set_seq [simp]: "slot_data (set_seq i v r) j e = slot_data r j e"
  by (simp add: slot_data_def set_seq_def nth_update_cases)

lemma seq_of_set_word [simp]: "seq_of (set_word i w v r) j = seq_of r j"
  by (simp add: seq_of_def set_word_def nth_update_cases)

lemma slot_data_set_word: "j \<noteq> i \<Longrightarrow> slot_data (set_word i w v r) j e = slot_data r j e"
  by (simp add: slot_data_def set_word_def nth_update_cases)

lemma slot_ok_cong:
  assumes "slot_ok cap log r j" "seq_of r' j = seq_of r j" "list_all (entry_ok (rMaxBlob r)) log"
    "\<And>e. entry_ok (rMaxBlob r) e \<Longrightarrow> slot_data r j e \<Longrightarrow> slot_data r' j e"
  shows "slot_ok cap log r' j"
  using assms(1) unfolding slot_ok_def
proof (elim disjE exE conjE)
  fix k assume k: "k < length log" "k mod cap = j" "length log \<le> k + cap" "seq_of r j = 2 * k + 1"
    "slot_data r j (log ! k)"
  have "slot_data r' j (log ! k)"
    using assms(3) k(1,5) by (intro assms(4)) (simp_all add: list_all_length)
  with k assms(2) show "(\<exists>k<length log. k mod cap = j \<and> length log \<le> k + cap \<and> seq_of r' j = 2 * k + 1 \<and> slot_data r' j (log ! k))
     \<or> length log \<le> j \<and> seq_of r' j = 0" by auto
next
  assume "length log \<le> j" "seq_of r j = 0"
  with assms(2) show "(\<exists>k<length log. k mod cap = j \<and> length log \<le> k + cap \<and> seq_of r' j = 2 * k + 1 \<and> slot_data r' j (log ! k))
     \<or> length log \<le> j \<and> seq_of r' j = 0" by simp
qed

text \<open>The four kinds of store.\<close>

lemma mem_ok_even:
  assumes "mem_ok cap log False r" "i = length log mod cap"
  shows "mem_ok cap log True (set_seq i (2 * of_nat (length log)) r)"
proof -
  note m = mem_okD [OF assms(1)]
  have i: "i < cap" using m(4) assms(2) by simp
  note s = seq_of_set_seq [OF m(1) i]
  show ?thesis
  proof (rule mem_okI)
    fix j assume j: "j < cap" "\<not> (True \<and> j = length log mod cap)"
    have "slot_ok cap log r j" using mem_ok_slot [OF assms(1) j(1)] by simp
    then show "slot_ok cap log (set_seq i (2 * of_nat (length log)) r) j"
      by (rule slot_ok_cong [OF _ _ m(3)]) (use j assms(2) s in simp_all)
  qed (use m s assms(2) in \<open>simp_all add: unat_even_index\<close>)
qed

lemma mem_ok_word:
  assumes "mem_ok cap log True r" "i = length log mod cap"
  shows "mem_ok cap log True (set_word i w v r)"
proof -
  note m = mem_okD [OF assms(1)]
  show ?thesis
  proof (rule mem_okI)
    fix j assume j: "j < cap" "\<not> (True \<and> j = length log mod cap)"
    then have "slot_ok cap log r j" by (rule mem_ok_slot [OF assms(1)])
    then show "slot_ok cap log (set_word i w v r) j"
      by (rule slot_ok_cong [OF _ _ m(3)]) (use j assms(2) in \<open>simp_all add: slot_data_set_word\<close>)
  qed (use m assms in \<open>simp_all add: mem_ok_def\<close>)
qed

lemma blob_regions:
  assumes "j \<noteq> i" "a < bw" "b < bw"
  shows "j * bw + a \<noteq> i * bw + (b :: nat)"
proof
  assume "j * bw + a = i * bw + b"
  then have "(j * bw + a) div bw = (i * bw + b) div bw" by simp
  with assms show False by simp
qed

lemma blob_words_le: "n \<le> m \<Longrightarrow> m \<le> 8 * bw \<Longrightarrow> w < (n + 7) div 8 \<Longrightarrow> w < (bw :: nat)"
  by linarith

lemma mem_ok_blob:
  assumes "mem_ok cap log True r" "i = length log mod cap" "w < rBlobWords r"
  shows "mem_ok cap log True (r\<lparr>rBlobs := (rBlobs r)[i * rBlobWords r + w := v]\<rparr>)"
proof -
  note m = mem_okD [OF assms(1)]
  let ?r = "r\<lparr>rBlobs := (rBlobs r)[i * rBlobWords r + w := v]\<rparr>"
  have s: "seq_of ?r j = seq_of r j" for j by (simp add: seq_of_def)
  have mb: "rMaxBlob r \<le> 8 * rBlobWords r" using m(1) by (simp add: geom_def)
  have d: "slot_data ?r j e" if "j \<noteq> i" "entry_ok (rMaxBlob r) e" "slot_data r j e" for j e
    unfolding slot_data_def
  proof (intro conjI allI impI)
    show "slWords (rSlots ?r ! j) = record_words (fst e)" using that(3) by (simp add: slot_data_def)
    fix a assume a: "a < (length (snd e) + 7) div 8"
    then have "a < rBlobWords r" using that(2) mb by (auto simp: entry_ok_def intro: blob_words_le)
    then have "j * rBlobWords r + a \<noteq> i * rBlobWords r + w"
      using that(1) assms(3) by (intro blob_regions)
    then show "rBlobs ?r ! (j * rBlobWords ?r + a) = blob_word (snd e) a"
      using that(3) a by (simp add: slot_data_def)
  qed
  show ?thesis
  proof (rule mem_okI)
    fix j assume j: "j < cap" "\<not> (True \<and> j = length log mod cap)"
    then have "slot_ok cap log r j" by (rule mem_ok_slot [OF assms(1)])
    then show "slot_ok cap log ?r j"
      by (rule slot_ok_cong [OF _ s m(3)]) (use j assms(2) d in simp)
  qed (use m assms s in \<open>simp_all add: mem_ok_def\<close>)
qed

lemma slot_ok_last:
  assumes "seq_of r i = 2 * length log + 1" "i = length log mod cap" "slot_data r i e" "0 < cap"
  shows "slot_ok cap (log @ [e]) r i"
  unfolding slot_ok_def using assms by (intro disjI1 exI [of _ "length log"]) simp

lemma mem_ok_odd:
  assumes "mem_ok cap log True r" "i = length log mod cap" "Suc (length log) < 2 ^ 63"
    "entry_ok (rMaxBlob r) e" "slot_data r i e"
  shows "mem_ok cap (log @ [e]) False (set_seq i (2 * of_nat (length log) + 1) r)"
proof -
  note m = mem_okD [OF assms(1)]
  let ?n = "length log" and ?r = "set_seq i (2 * of_nat (length log) + 1) r"
  have i: "i < cap" using m(4) assms(2) by simp
  have s: "seq_of ?r j = (if j = i then 2 * ?n + 1 else seq_of r j)" for j
    using seq_of_set_seq [OF m(1) i] m(2) by (simp add: unat_odd_index)
  have own: "slot_ok cap (log @ [e]) ?r i"
    using s [of i] assms(2,5) m(4) by (intro slot_ok_last) simp_all
  have other: "slot_ok cap (log @ [e]) ?r j" if "j < cap" "j \<noteq> i" for j
  proof -
    have "slot_ok cap log r j" using mem_ok_slot [OF assms(1) that(1)] that(2) assms(2) by simp
    then consider k where "k < ?n" "k mod cap = j" "?n \<le> k + cap" "seq_of r j = 2 * k + 1" "slot_data r j (log ! k)"
      | "?n \<le> j" "seq_of r j = 0" by (auto simp: slot_ok_def)
    then show ?thesis
    proof cases
      case 1
      have "?n \<noteq> k + cap" using 1(2) that(2) assms(2) by auto
      with 1 s that(2) show ?thesis
        unfolding slot_ok_def by (intro disjI1 exI [of _ k]) (simp add: nth_append)
    next
      case 2
      have "?n \<noteq> j" using that assms(2) by auto
      with 2 s that(2) show ?thesis by (simp add: slot_ok_def)
    qed
  qed
  show ?thesis
  proof (rule mem_okI)
    show "slot_ok cap (log @ [e]) ?r j" if "j < cap" for j
      using own other [OF that] by (cases "j = i") simp_all
  qed (use m assms(3,4) in simp_all)
qed

section \<open>A write, store by store\<close>

text \<open>
  Entry \<open>n\<close> is being written and \<open>pc\<close> is the next store. The log gains the entry with the store of
  the odd sequence number, which is what makes it visible.
\<close>

definition slot_words :: "memory \<Rightarrow> nat \<Rightarrow> u64 list" where
  "slot_words r i = slWords (rSlots r ! i)"

definition blobs_done :: "memory \<Rightarrow> nat \<Rightarrow> bytes \<Rightarrow> nat \<Rightarrow> bool" where
  "blobs_done r i blob k \<longleftrightarrow> (\<forall>w < k. rBlobs r ! (i * rBlobWords r + w) = blob_word blob w)"

primrec write_ok :: "nat \<Rightarrow> entry list \<Rightarrow> nat \<Rightarrow> entry \<Rightarrow> memory \<Rightarrow> write_pc \<Rightarrow> bool" where
  "write_ok cap log n e r StoreEven \<longleftrightarrow> n = length log \<and> mem_ok cap log False r \<and> rWriteSeq r = of_nat n"
| "write_ok cap log n e r (StoreWord w) \<longleftrightarrow> n = length log \<and> mem_ok cap log True r \<and> rWriteSeq r = of_nat n
     \<and> w < slotWords \<and> take w (slot_words r (n mod cap)) = take w (record_words (fst e))"
| "write_ok cap log n e r (StoreBlob w) \<longleftrightarrow> n = length log \<and> mem_ok cap log True r \<and> rWriteSeq r = of_nat n
     \<and> w < (length (snd e) + 7) div 8 \<and> slot_words r (n mod cap) = record_words (fst e)
     \<and> blobs_done r (n mod cap) (snd e) w"
| "write_ok cap log n e r StoreOdd \<longleftrightarrow> n = length log \<and> mem_ok cap log True r \<and> rWriteSeq r = of_nat n
     \<and> slot_data r (n mod cap) e"
| "write_ok cap log n e r StoreIndex \<longleftrightarrow> Suc n = length log \<and> mem_ok cap log False r \<and> rWriteSeq r = of_nat n"
| "write_ok cap log n e r WriteDone \<longleftrightarrow> Suc n = length log \<and> mem_ok cap log False r \<and> rWriteSeq r = of_nat (Suc n)"

definition log_after :: "write_pc \<Rightarrow> entry list \<Rightarrow> entry \<Rightarrow> entry list" where
  "log_after pc log e = (if pc = StoreOdd then log @ [e] else log)"

lemma slot_data_iff:
  "slot_data r j e \<longleftrightarrow> slot_words r j = record_words (fst e) \<and> blobs_done r j (snd e) ((length (snd e) + 7) div 8)"
  by (simp add: slot_data_def slot_words_def blobs_done_def)

lemma write_ok_writeBlob_pc:
  assumes "n = length log" "mem_ok cap log True r" "rWriteSeq r = of_nat n"
    "slot_words r (n mod cap) = record_words (fst e)" "blobs_done r (n mod cap) (snd e) w"
  shows "write_ok cap log n e r (writeBlob_pc (snd e) w)"
  using assms by (auto simp: writeBlob_pc_def slot_data_iff blobs_done_def)

lemma write_ok_record_pc:
  assumes "n = length log" "mem_ok cap log True r" "rWriteSeq r = of_nat n"
    "take w (slot_words r (n mod cap)) = take w (record_words (fst e))" "w \<le> slotWords"
  shows "write_ok cap log n e r (record_pc (snd e) w)"
proof (cases "w < slotWords")
  case False
  then have w: "w = slotWords" using assms(5) by simp
  have "length (slot_words r (n mod cap)) = slotWords"
    using geom_words mem_okD [OF assms(2)] by (simp add: slot_words_def)
  with assms(4) w have "slot_words r (n mod cap) = record_words (fst e)" by simp
  with assms w show ?thesis
    by (auto simp: record_pc_def slot_data_iff blobs_done_def intro: write_ok_writeBlob_pc)
qed (use assms in \<open>simp add: record_pc_def\<close>)

lemma slot_index_of_nat: "geom cap r \<Longrightarrow> n < 2 ^ 64 \<Longrightarrow> slot_index r (of_nat n) = n mod cap"
  by (simp add: slot_index_mod)

lemma mem_ok_writeSeq [simp]: "mem_ok cap log w (r\<lparr>rWriteSeq := v\<rparr>) = mem_ok cap log w r"
  by (simp add: mem_ok_def slot_ok_def seq_of_def slot_data_def)

lemma mem_ok_end [simp]: "mem_ok cap log w (r\<lparr>rEndPlusOne := v\<rparr>) = mem_ok cap log w r"
  by (simp add: mem_ok_def slot_ok_def seq_of_def slot_data_def)

lemma write_ok_mem: "write_ok cap log n e r pc \<Longrightarrow> \<exists>w. mem_ok cap log w r"
  by (cases pc) auto

lemma write_step_ok:
  assumes "write_ok cap log n e r pc" "Suc n < 2 ^ 63" "entry_ok (rMaxBlob r) e"
    "write_step (of_nat n) (fst e) (snd e) pc r = (pc', r')"
  shows "write_ok cap (log_after pc log e) n e r' pc'"
proof -
  obtain w where "mem_ok cap log w r" using write_ok_mem [OF assms(1)] by blast
  note m = mem_okD [OF this]
  have i: "slot_index r (of_nat n) = n mod cap" using m(1) assms(2) by (intro slot_index_of_nat) simp_all
  have lt: "n mod cap < cap" using m(4) by simp
  show ?thesis
  proof (cases pc)
    case StoreEven
    then have n: "n = length log" "mem_ok cap log False r" "rWriteSeq r = of_nat n" using assms(1) by auto
    have "mem_ok cap log True r'"
      using mem_ok_even [OF n(2), of "n mod cap"] n assms(4) StoreEven i by auto
    then show ?thesis
      using StoreEven assms(4) n i by (auto simp: log_after_def intro!: write_ok_record_pc)
  next
    case (StoreWord w)
    then have n: "n = length log" "mem_ok cap log True r" "rWriteSeq r = of_nat n" "w < slotWords"
      "take w (slot_words r (n mod cap)) = take w (record_words (fst e))" using assms(1) by auto
    have r': "r' = set_word (n mod cap) w (record_words (fst e) ! w) r" "pc' = record_pc (snd e) (w + 1)"
      using assms(4) StoreWord i by auto
    have l: "length (slot_words r (n mod cap)) = slotWords"
      using geom_words [OF m(1) lt] by (simp add: slot_words_def)
    have "slot_words r' (n mod cap) = (slot_words r (n mod cap))[w := record_words (fst e) ! w]"
      using lt geom_slots [OF m(1)] by (simp add: r' slot_words_def set_word_def)
    then have "take (w + 1) (slot_words r' (n mod cap)) = take (w + 1) (record_words (fst e))"
      using n(4,5) l by (simp add: take_Suc_conv_app_nth take_update_swap list_update_append)
    moreover have "mem_ok cap log True r'"
      using mem_ok_word [OF n(2), of "n mod cap"] n(1) by (simp add: r')
    ultimately show ?thesis
      using StoreWord n r' by (auto simp: log_after_def intro!: write_ok_record_pc)
  next
    case (StoreBlob w)
    then have n: "n = length log" "mem_ok cap log True r" "rWriteSeq r = of_nat n"
      "w < (length (snd e) + 7) div 8" "slot_words r (n mod cap) = record_words (fst e)"
      "blobs_done r (n mod cap) (snd e) w" using assms(1) by auto
    let ?b = "n mod cap * rBlobWords r"
    have r': "r' = r\<lparr>rBlobs := (rBlobs r)[?b + w := blob_word (snd e) w]\<rparr>" "pc' = writeBlob_pc (snd e) (w + 1)"
      using assms(4) StoreBlob i by auto
    have bw: "w < rBlobWords r"
      using n(4) assms(3) m(1) by (auto simp: entry_ok_def geom_def intro: blob_words_le)
    have "Suc (n mod cap) * rBlobWords r \<le> cap * rBlobWords r"
      using lt by (intro mult_le_mono1) simp
    then have inb: "?b + w < length (rBlobs r)"
      using bw m(1) by (simp add: geom_def mult.commute)
    have "blobs_done r' (n mod cap) (snd e) (w + 1)"
      using n(6) inb by (auto simp: blobs_done_def r' nth_list_update less_Suc_eq)
    moreover have "mem_ok cap log True r'"
      using mem_ok_blob [OF n(2) _ bw, of "n mod cap"] n(1) by (simp add: r')
    moreover have "slot_words r' (n mod cap) = record_words (fst e)"
      using n(5) by (simp add: r' slot_words_def)
    ultimately show ?thesis
      using StoreBlob n r' by (auto simp: log_after_def intro!: write_ok_writeBlob_pc)
  next
    case StoreOdd
    then have n: "n = length log" "mem_ok cap log True r" "rWriteSeq r = of_nat n" "slot_data r (n mod cap) e"
      using assms(1) by auto
    have "mem_ok cap (log @ [e]) False r'"
      using mem_ok_odd [OF n(2), of "n mod cap" e] n assms(2,3,4) StoreOdd i by auto
    then show ?thesis
      using StoreOdd assms(4) n by (auto simp: log_after_def)
  next
    case StoreIndex
    have "of_nat n + 1 = (of_nat (Suc n) :: u64)" by simp
    with StoreIndex show ?thesis using assms(1,4) by (auto simp: log_after_def simp del: of_nat_Suc)
  next
    case WriteDone
    then show ?thesis using assms(1,4) by (auto simp: log_after_def simp del: of_nat_Suc)
  qed
qed

text \<open>No store of a write lowers a sequence number.\<close>

lemma slot_ok_seq_le: "slot_ok cap log r j \<Longrightarrow> seq_of r j \<le> 2 * length log"
  by (auto simp: slot_ok_def)

lemma seq_of_le:
  assumes "mem_ok cap log w r" "j < cap"
  shows "seq_of r j \<le> 2 * length log"
  using slot_ok_seq_le [OF mem_ok_slot [OF assms]] assms by (cases "w \<and> j = length log mod cap") (auto simp: mem_ok_def)

lemma write_step_mono:
  assumes "write_ok cap log n e r pc" "Suc n < 2 ^ 63" "j < cap"
    "write_step (of_nat n) (fst e) (snd e) pc r = (pc', r')"
  shows "seq_of r j \<le> seq_of r' j"
proof -
  obtain w where mo: "mem_ok cap log w r" using write_ok_mem [OF assms(1)] by blast
  note m = mem_okD [OF mo]
  have i: "slot_index r (of_nat n) = n mod cap" using m(1) assms(2) by (intro slot_index_of_nat) simp_all
  have s: "seq_of (set_seq (n mod cap) v r) j = (if j = n mod cap then unat v else seq_of r j)" for v
    by (rule seq_of_set_seq [OF m(1)]) (use m(4) in simp)
  have le: "seq_of r j \<le> 2 * length log" by (rule seq_of_le [OF mo assms(3)])
  show ?thesis
  proof (cases pc)
    case StoreEven
    then show ?thesis using assms(1,2,4) le s i by (auto simp: unat_even_index)
  next
    case StoreOdd
    then show ?thesis using assms(1,2,4) le s i by (auto simp: unat_odd_index)
  qed (use assms(4) in \<open>auto simp: seq_of_def [of "r\<lparr>rBlobs := _\<rparr>"] seq_of_def [of "r\<lparr>rWriteSeq := _\<rparr>"] seq_of_def [of r]\<close>)
qed

section \<open>A read, load by load\<close>

text \<open>
  A reader of entry \<open>n\<close> that has passed its first check: if its slot still has the sequence number of
  entry \<open>n\<close>, what it has loaded so far is that entry's; otherwise the number has grown past it and the
  reload will differ. The bounds keep its loads inside the arena in both cases.
\<close>

definition blob_fits :: "memory \<Rightarrow> Record \<Rightarrow> bool" where
  "blob_fits r rec \<longleftrightarrow> 0 \<le> blob_length rec \<and> blob_length rec \<le> int (rMaxBlob r)"

primrec loaded_ok :: "entry \<Rightarrow> read_pc \<Rightarrow> bool" where
  "loaded_ok e LoadSeq \<longleftrightarrow> True"
| "loaded_ok e (LoadWords ws) \<longleftrightarrow> ws = take (length ws) (record_words (fst e))"
| "loaded_ok e (LoadBlob rec ws) \<longleftrightarrow> rec = fst e \<and> RecordType rec = RecordTypeSnapshotPointer
     \<and> (\<forall>w < length ws. ws ! w = blob_word (snd e) w)"
| "loaded_ok e (Reload rec blobOut) \<longleftrightarrow> rec = fst e \<and> blobOut = entry_blob e"
| "loaded_ok e (ReloadBad rec) \<longleftrightarrow> False"

primrec bounded :: "memory \<Rightarrow> read_pc \<Rightarrow> bool" where
  "bounded r LoadSeq \<longleftrightarrow> True"
| "bounded r (LoadWords ws) \<longleftrightarrow> length ws < slotWords"
| "bounded r (LoadBlob rec ws) \<longleftrightarrow> blob_fits r rec \<and> length ws < (nat (blob_length rec) + 7) div 8"
| "bounded r (Reload rec blobOut) \<longleftrightarrow> True"
| "bounded r (ReloadBad rec) \<longleftrightarrow> True"

definition read_ok :: "nat \<Rightarrow> entry list \<Rightarrow> memory \<Rightarrow> nat \<Rightarrow> read_pc \<Rightarrow> bool" where
  "read_ok cap log r n pc \<longleftrightarrow> bounded r pc \<and> (pc \<noteq> LoadSeq \<longrightarrow>
     n < length log \<and> 2 * n + 1 \<le> seq_of r (n mod cap)
     \<and> (seq_of r (n mod cap) = 2 * n + 1 \<longrightarrow> loaded_ok (log ! n) pc))"

lemma bounded_cong: "rMaxBlob r' = rMaxBlob r \<Longrightarrow> bounded r' pc = bounded r pc"
  by (cases pc) (simp_all add: blob_fits_def)

lemma read_ok_mono:
  assumes "read_ok cap log r n pc" "seq_of r (n mod cap) \<le> seq_of r' (n mod cap)"
    "rMaxBlob r' = rMaxBlob r" "log' = log @ new"
  shows "read_ok cap log' r' n pc"
  using assms by (auto simp: read_ok_def nth_append bounded_cong [OF assms(3)])

lemma seq_holds:
  assumes "mem_ok cap log w r" "seq_of r (n mod cap) = 2 * n + 1"
  shows "n < length log" "slot_data r (n mod cap) (log ! n)" "entry_ok (rMaxBlob r) (log ! n)"
proof -
  note m = mem_okD [OF assms(1)]
  have "\<not> (w \<and> n mod cap = length log mod cap)"
  proof
    assume "w \<and> n mod cap = length log mod cap"
    then have "seq_of r (n mod cap) = 2 * length log" using assms(1) m(4) by (simp add: mem_ok_def)
    with assms(2) show False by presburger
  qed
  then have "slot_ok cap log r (n mod cap)"
    using m(4) by (intro mem_ok_slot [OF assms(1)]) simp_all
  then have "n < length log \<and> slot_data r (n mod cap) (log ! n)"
    using assms(2) by (auto simp: slot_ok_def)
  then show "n < length log" "slot_data r (n mod cap) (log ! n)" "entry_ok (rMaxBlob r) (log ! n)"
    using m(3) by (simp_all add: list_all_length)
qed

lemma after_words_ok:
  assumes "ws = take (length ws) (record_words (fst e))" "length ws \<le> slotWords" "entry_ok (rMaxBlob r) e"
  shows "loaded_ok e (after_words r ws)"
proof (cases "length ws < slotWords")
  case False
  then have "ws = record_words (fst e)" using assms(1,2) by simp
  then have d: "decode_words ws = fst e" by (simp add: decode_record_words)
  show ?thesis
    using False assms(3) by (auto simp: after_words_def d Let_def entry_ok_def entry_blob_def)
qed (use assms(1) in \<open>simp add: after_words_def\<close>)

lemma after_words_bounded: "length ws \<le> slotWords \<Longrightarrow> bounded r (after_words r ws)"
  by (auto simp: after_words_def Let_def blob_fits_def)

lemma after_blob_ok:
  assumes "rec = fst e" "RecordType rec = RecordTypeSnapshotPointer" "\<And>w. w < length ws \<Longrightarrow> ws ! w = blob_word (snd e) w"
    "length ws \<le> (nat (blob_length rec) + 7) div 8" "entry_ok b e"
  shows "loaded_ok e (after_blob rec ws)"
proof (cases "length ws < (nat (blob_length rec) + 7) div 8")
  case False
  have "nat (blob_length rec) = length (snd e)" using assms(1,2,5) entry_blob_length by simp
  then show ?thesis
    using False assms blob_bytes_words [of "snd e" ws] by (simp add: after_blob_def entry_blob_def)
qed (use assms in \<open>simp add: after_blob_def\<close>)

lemma after_blob_bounded:
  "blob_fits r rec \<Longrightarrow> bounded r (after_blob rec ws)"
  by (simp add: after_blob_def)

lemma read_step_ok:
  assumes "mem_ok cap log w r" "n < 2 ^ 63" "read_ok cap log r n pc"
    "read_step r (of_nat n) rec0 pc = Inr pc'"
  shows "read_ok cap log r n pc'"
proof -
  note m = mem_okD [OF assms(1)]
  have i: "slot_index r (of_nat n) = n mod cap" using m(1) assms(2) by (intro slot_index_of_nat) simp_all
  have odd: "unat (2 * of_nat n + 1 :: u64) = 2 * n + 1" using assms(2) by (rule unat_odd_index)
  let ?s = "seq_of r (n mod cap)"
  show ?thesis
  proof (cases pc)
    case LoadSeq
    then have "slSeq (rSlots r ! (n mod cap)) = 2 * of_nat n + 1" and pc': "pc' = LoadWords []"
      using assms(4) i by (auto simp: Let_def split: if_splits)
    then have "?s = 2 * n + 1" using odd by (simp add: seq_of_def)
    then show ?thesis
      using seq_holds [OF assms(1)] by (simp add: read_ok_def pc' slotWords_def RecordSize_def)
  next
    case (LoadWords ws)
    let ?ws = "ws @ [slot_words r (n mod cap) ! length ws]"
    have r: "n < length log" "2 * n + 1 \<le> ?s" "length ws < slotWords"
      "?s = 2 * n + 1 \<Longrightarrow> ws = take (length ws) (record_words (fst (log ! n)))"
      using assms(3) LoadWords by (auto simp: read_ok_def)
    have "loaded_ok (log ! n) (after_words r ?ws)" if s: "?s = 2 * n + 1"
    proof (rule after_words_ok)
      have "slot_words r (n mod cap) = record_words (fst (log ! n))"
        using seq_holds(2) [OF assms(1) s] by (simp add: slot_data_iff)
      then show "?ws = take (length ?ws) (record_words (fst (log ! n)))"
        using r(3) r(4) [OF s] by (simp add: take_Suc_conv_app_nth)
    qed (use r(3) seq_holds(3) [OF assms(1) s] in simp_all)
    moreover have "pc' = after_words r ?ws"
      using assms(4) LoadWords i by (simp add: slot_words_def)
    ultimately show ?thesis
      using r after_words_bounded [of ?ws r] by (simp add: read_ok_def)
  next
    case (LoadBlob rec ws)
    let ?ws = "ws @ [rBlobs r ! (n mod cap * rBlobWords r + length ws)]"
    have r: "n < length log" "2 * n + 1 \<le> ?s" "blob_fits r rec" "length ws < (nat (blob_length rec) + 7) div 8"
      "?s = 2 * n + 1 \<Longrightarrow> rec = fst (log ! n) \<and> RecordType rec = RecordTypeSnapshotPointer
         \<and> (\<forall>w < length ws. ws ! w = blob_word (snd (log ! n)) w)"
      using assms(3) LoadBlob by (auto simp: read_ok_def)
    have "loaded_ok (log ! n) (after_blob rec ?ws)" if s: "?s = 2 * n + 1"
    proof (rule after_blob_ok)
      note l = r(5) [OF s] and e = seq_holds(3) [OF assms(1) s]
      show "rec = fst (log ! n)" "RecordType rec = RecordTypeSnapshotPointer" using l by auto
      have len: "nat (blob_length rec) = length (snd (log ! n))" using l entry_blob_length [OF e] by auto
      have "rBlobs r ! (n mod cap * rBlobWords r + length ws) = blob_word (snd (log ! n)) (length ws)"
        using seq_holds(2) [OF assms(1) s] r(4) len by (simp add: slot_data_def)
      then show "?ws ! w = blob_word (snd (log ! n)) w" if "w < length ?ws" for w
        using that l by (auto simp: nth_append less_Suc_eq)
      show "entry_ok (rMaxBlob r) (log ! n)" by (rule e)
    qed (use r(4) in simp)
    moreover have "pc' = after_blob rec ?ws"
      using assms(4) LoadBlob i by simp
    ultimately show ?thesis
      using r after_blob_bounded [OF r(3), of ?ws] by (simp add: read_ok_def)
  qed (use assms(4) in \<open>auto simp: Let_def split: if_splits\<close>)
qed

text \<open>
  What a finished read says. A complete one returned the entry, whole. An incomplete one reports an
  index that agrees with the slot: not above the entries begun, and, as long as the writer is not a
  full lap ahead, not above the index asked for.
\<close>

lemma held_index:
  assumes "mem_ok cap log w r" "j < cap"
  shows "seq_of r j div 2 \<le> length log"
    "length log + (if w then 1 else 0) \<le> n + cap \<Longrightarrow> n mod cap = j \<Longrightarrow> seq_of r j div 2 \<le> n"
proof -
  note m = mem_okD [OF assms(1)]
  show "seq_of r j div 2 \<le> length log" using seq_of_le [OF assms] by linarith
  assume h: "length log + (if w then 1 else 0) \<le> n + cap" and j: "n mod cap = j"
  have near: "k \<le> n" if "k mod cap = j" "k < n + cap" for k
  proof (rule ccontr)
    assume "\<not> k \<le> n"
    then have "k - n < cap" "0 < k - n" using that(2) by auto
    moreover have "cap dvd k - n" using that(1) j by (metis mod_eq_dvd_iff_nat nat_le_linear \<open>\<not> k \<le> n\<close>)
    ultimately show False using nat_dvd_not_less by blast
  qed
  show "seq_of r j div 2 \<le> n"
  proof (cases "w \<and> j = length log mod cap")
    case True
    then have "seq_of r j = 2 * length log" using assms by (simp add: mem_ok_def)
    with True h near [of "length log"] show ?thesis by simp
  next
    case False
    have "slot_ok cap log r j" by (rule mem_ok_slot [OF assms False])
    then show ?thesis
      using h near by (auto simp: slot_ok_def)
  qed
qed

lemma read_step_result:
  assumes "mem_ok cap log w r" "n < 2 ^ 63" "read_ok cap log r n pc"
    "read_step r (of_nat n) rec0 pc = Inl res"
  shows "rrComplete res \<Longrightarrow> n < length log \<and> rrRec res = fst (log ! n) \<and> rrBlob res = entry_blob (log ! n)"
    "\<not> rrComplete res \<Longrightarrow> unat (rrHeld res) \<le> length log"
    "\<not> rrComplete res \<Longrightarrow> length log + (if w then 1 else 0) \<le> n + cap \<Longrightarrow> unat (rrHeld res) \<le> n"
proof -
  note m = mem_okD [OF assms(1)]
  have i: "slot_index r (of_nat n) = n mod cap" using m(1) assms(2) by (intro slot_index_of_nat) simp_all
  have odd: "unat (2 * of_nat n + 1 :: u64) = 2 * n + 1" using assms(2) by (rule unat_odd_index)
  have lt: "n mod cap < cap" using m(4) by simp
  have seq: "slSeq (rSlots r ! (n mod cap)) = 2 * of_nat n + 1 \<longleftrightarrow> seq_of r (n mod cap) = 2 * n + 1"
    using odd by (metis seq_of_def unsigned_word_eqI)
  have held: "unat (rrHeld res) = seq_of r (n mod cap) div 2" if "\<not> rrComplete res"
    using assms(4) that by (cases pc) (auto simp: Let_def i torn_def seq_of_def drop_bit_eq_div unat_div
        split: if_splits)
  show "n < length log \<and> rrRec res = fst (log ! n) \<and> rrBlob res = entry_blob (log ! n)" if "rrComplete res"
  proof (cases pc)
    case (Reload rec blobOut)
    then have "seq_of r (n mod cap) = 2 * n + 1" "rrRec res = rec" "rrBlob res = blobOut"
      using assms(4) that i seq by (auto simp: Let_def torn_def split: if_splits)
    with Reload assms(3) show ?thesis by (auto simp: read_ok_def)
  qed (use assms(4) that in \<open>auto simp: Let_def torn_def split: if_splits\<close>)
  show "unat (rrHeld res) \<le> length log" if "\<not> rrComplete res"
    using held [OF that] held_index(1) [OF assms(1) lt] by simp
  show "unat (rrHeld res) \<le> n" if "\<not> rrComplete res" "length log + (if w then 1 else 0) \<le> n + cap"
    using held [OF that(1)] held_index(2) [OF assms(1) lt that(2)] by simp
qed

text \<open>In a memory that does not change, the read at once is the read load by load.\<close>

inductive loads :: "memory \<Rightarrow> u64 \<Rightarrow> Record \<Rightarrow> read_pc \<Rightarrow> read_result \<Rightarrow> bool" for r n rec0 where
  last_load: "read_step r n rec0 pc = Inl res \<Longrightarrow> loads r n rec0 pc res"
| next_load: "read_step r n rec0 pc = Inr pc' \<Longrightarrow> loads r n rec0 pc' res \<Longrightarrow> loads r n rec0 pc res"

lemma loads_words:
  assumes "loads r n rec0 (after_words r (map (\<lambda>w. slWords (rSlots r ! slot_index r n) ! w) [0..<slotWords])) res"
    "k < slotWords"
  shows "loads r n rec0 (LoadWords (map (\<lambda>w. slWords (rSlots r ! slot_index r n) ! w) [0..<k])) res"
  using assms(2)
proof (induction "slotWords - Suc k" arbitrary: k)
  case 0
  then have k: "slotWords = Suc k" by simp
  have "map ((!) (slWords (rSlots r ! slot_index r n))) [0..<slotWords]
      = map ((!) (slWords (rSlots r ! slot_index r n))) [0..<k] @ [slWords (rSlots r ! slot_index r n) ! k]"
    unfolding k by simp
  with assms(1) show ?case by - (rule next_load, simp_all)
next
  case (Suc x)
  then have k: "Suc k < slotWords" by simp
  have "loads r n rec0 (LoadWords (map (\<lambda>w. slWords (rSlots r ! slot_index r n) ! w) [0..<Suc k])) res"
    using Suc k by (intro Suc.hyps(1)) simp_all
  then show ?case
    by - (rule next_load, use k in \<open>auto simp: after_words_def\<close>)
qed

lemma loads_blob:
  assumes "nw = (nat (blob_length rec) + 7) div 8"
    "loads r n rec0 (Reload rec (Some (readBlob r (slot_index r n) (nat (blob_length rec))))) res" "k < nw"
  shows "loads r n rec0 (LoadBlob rec (map (\<lambda>w. rBlobs r ! (slot_index r n * rBlobWords r + w)) [0..<k])) res"
  using assms(3)
proof (induction "nw - Suc k" arbitrary: k)
  case 0
  then have "nw = Suc k" by simp
  then show ?case
    by - (rule next_load, use assms(1,2) in \<open>simp_all add: after_blob_def readBlob_def Let_def\<close>)
next
  case (Suc x)
  then have k: "Suc k < nw" by simp
  have "loads r n rec0 (LoadBlob rec (map (\<lambda>w. rBlobs r ! (slot_index r n * rBlobWords r + w)) [0..<Suc k])) res"
    using Suc k by (intro Suc.hyps(1)) simp_all
  then show ?case
    by - (rule next_load, use k assms(1) in \<open>auto simp: after_blob_def\<close>)
qed

lemma read_loads: "loads r n rec0 LoadSeq (read r n rec0)"
proof (cases "slSeq (rSlots r ! slot_index r n) = 2 * n + 1")
  case False
  then show ?thesis by - (rule last_load, simp add: read_def Let_def)
next
  case True
  let ?ws = "map (\<lambda>w. slWords (rSlots r ! slot_index r n) ! w) [0..<slotWords]"
  let ?rec = "decode_words ?ws"
  have "loads r n rec0 (after_words r ?ws) (read r n rec0)"
  proof (cases "RecordType ?rec = RecordTypeSnapshotPointer \<and> 0 < blob_length ?rec \<and> blob_length ?rec \<le> int (rMaxBlob r)")
    case blob: True
    then have pc: "after_words r ?ws = LoadBlob ?rec (map (\<lambda>w. rBlobs r ! (slot_index r n * rBlobWords r + w)) [0..<0])"
      by (simp add: after_words_def Let_def)
    have "read_step r n rec0 (Reload ?rec (Some (readBlob r (slot_index r n) (nat (blob_length ?rec))))) = Inl (read r n rec0)"
      using blob True unfolding read_def Let_def blob_length_def [symmetric] by (simp add: Let_def)
    moreover have "0 < (nat (blob_length ?rec) + 7) div 8" using blob by (simp add: div_greater_zero_iff Suc_le_eq)
    ultimately show ?thesis
      unfolding pc by - (rule loads_blob [OF refl last_load])
  next
    case nb: False
    have "read_step r n rec0 (after_words r ?ws) = Inl (read r n rec0)"
      using nb True unfolding read_def after_words_def Let_def blob_length_def [symmetric]
      by (auto simp: Let_def readBlob_def blob_bytes_def)
    then show ?thesis by (rule last_load)
  qed
  then have "loads r n rec0 (LoadWords []) (read r n rec0)"
    using loads_words [of r n rec0 _ 0] by (simp add: slotWords_def RecordSize_def)
  then show ?thesis
    by - (rule next_load, use True in simp_all)
qed

text \<open>Any entry within the last lap is read whole.\<close>

lemma read_ready:
  assumes "mem_ok cap log False r" "n < length log" "length log \<le> n + cap"
  shows "read r (of_nat n) rec0 =
    \<lparr>rrRec = fst (log ! n), rrBlob = entry_blob (log ! n), rrHeld = of_nat n, rrComplete = True\<rparr>"
proof -
  note m = mem_okD [OF assms(1)]
  have i: "slot_index r (of_nat n) = n mod cap" using m(1,2) assms(2) by (intro slot_index_of_nat) simp_all
  have lt: "n mod cap < cap" using m(4) by simp
  have "slot_ok cap log r (n mod cap)" by (rule mem_ok_slot [OF assms(1) lt]) simp
  then obtain k where k: "k < length log" "k mod cap = n mod cap" "length log \<le> k + cap"
      "seq_of r (n mod cap) = 2 * k + 1" "slot_data r (n mod cap) (log ! k)"
    using assms(2) mod_less_eq_dividend [of n cap] by (fastforce simp: slot_ok_def)
  have "k = n"
  proof (rule ccontr)
    assume "k \<noteq> n"
    moreover have "cap dvd k - n \<or> k \<le> n" "cap dvd n - k \<or> n \<le> k"
      using k(2) by (metis mod_eq_dvd_iff_nat nat_le_linear)+
    ultimately have "cap \<le> k - n \<or> cap \<le> n - k" by (metis dvd_imp_le linorder_neqE_nat zero_less_diff not_le)
    with k(1,3) assms(2,3) m(4) show False by linarith
  qed
  then have s: "slSeq (rSlots r ! (n mod cap)) = 2 * of_nat n + 1" and d: "slot_data r (n mod cap) (log ! n)"
    using k unat_odd_index [of n] assms(2) m(2) by (simp_all add: seq_of_def word_unat_eq_iff)
  have w: "map (\<lambda>w. slWords (rSlots r ! (n mod cap)) ! w) [0..<slotWords] = record_words (fst (log ! n))"
    using d map_nth [of "record_words (fst (log ! n))"] by (simp add: slot_data_def)
  have e: "entry_ok (rMaxBlob r) (log ! n)" using m(3) assms(2) by (simp add: list_all_length)
  have b: "readBlob r (n mod cap) (nat (int (unat (BlobLen (fst (log ! n)))) - 4)) = snd (log ! n)"
    if "RecordType (fst (log ! n)) = RecordTypeSnapshotPointer"
    using entry_blob_length [OF e that] blob_bytes_words [of "snd (log ! n)"] d
    by (simp add: readBlob_def slot_data_def blob_length_def Let_def)
  have nb: "\<not> (int (unat (BlobLen (fst (log ! n)))) - 4 < 0 \<or> int (unat (BlobLen (fst (log ! n)))) - 4 > int (rMaxBlob r))"
    if "RecordType (fst (log ! n)) = RecordTypeSnapshotPointer"
    using e that by (simp add: entry_ok_def blob_length_def)
  show ?thesis
    using b nb unfolding read_def i s w decode_record_words Let_def by (auto simp: entry_blob_def)
qed

text \<open>The sequence number of a slot is twice the emit index, modulo \<open>2 ^ 64\<close>, so a read of an index
  \<open>2 ^ 63\<close> further finds the slot complete as well.\<close>

lemma read_wraps:
  assumes "geom cap r"
  shows "rrComplete (read r (n + 2 ^ 63) rec) = rrComplete (read r n rec)
    \<and> rrRec (read r (n + 2 ^ 63) rec) = rrRec (read r n rec)"
proof -
  obtain m where m: "m < 63" "cap = 2 ^ m" using assms by (auto simp: geom_def)
  have d: "cap dvd 2 ^ 63" "cap dvd 2 ^ 64" using m by (simp_all only: le_imp_power_dvd)
  have "unat (n + 2 ^ 63) mod cap = (unat n + 2 ^ 63) mod cap"
    using d(2) by (simp add: unat_word_ariths(1) mod_mod_cancel)
  also have "\<dots> = unat n mod cap" using d(1) by (metis dvd_imp_mod_0 mod_add_right_eq add_0_right)
  finally have i: "slot_index r (n + 2 ^ 63) = slot_index r n" by (simp add: slot_index_mod [OF assms])
  have e: "2 * (n + 2 ^ 63) + 1 = 2 * n + 1" by (simp add: distrib_left)
  show ?thesis unfolding read_def Let_def i e by (auto simp: torn_def)
qed

end
