(* ===== verification/Fanout_Subscriber.thy ===== *)
theory Fanout_Subscriber
  imports Fanout_Ring
begin

text \<open>
  Subscribers: \<^verbatim>\<open>src/internal/fanout/subscriber.go\<close>, \<^verbatim>\<open>gap.go\<close> and the operations
  of \<^verbatim>\<open>barrier.go\<close> and \<^verbatim>\<open>lifecycle.go\<close>. A \<open>Ring\<close> adds the registered Block
  subscribers and the control queue to the shared memory. Subscribers are objects that several
  goroutines point to, so the ring model keeps them in a list and a pointer is an index into it.
  \<open>sub_step\<close> is one atomic step of the goroutine that owns a subscriber and calls \<^verbatim>\<open>Next\<close>
  on it. The fields below the line in \<open>Subscriber\<close> are that goroutine's program counter and,
  for the specification only, where it started and what it was given.
\<close>

section \<open>Positions and deliveries\<close>

datatype BackpressureMode = ModeUnset | ModeBlock | ModeDrop

datatype StartKind = startUnset | startBeginning | startExchangeTs | startEmitIndex | startLive

record StartAt =
  saKind :: StartKind
  saExchangeTs :: i64
  saEmitIndex :: u64

definition start_at :: "StartKind \<Rightarrow> StartAt" where
  "start_at k = \<lparr>saKind = k, saExchangeTs = 0, saEmitIndex = 0\<rparr>"

definition Beginning :: StartAt where "Beginning = start_at startBeginning"

definition at_ExchangeTs :: "i64 \<Rightarrow> StartAt" where
  "at_ExchangeTs t = (start_at startExchangeTs)\<lparr>saExchangeTs := t\<rparr>"

definition at_EmitIndex :: "u64 \<Rightarrow> StartAt" where
  "at_EmitIndex i = (start_at startEmitIndex)\<lparr>saEmitIndex := i\<rparr>"

definition Live :: StartAt where "Live = start_at startLive"

definition start_Kind :: "StartAt \<Rightarrow> StartKind" where "start_Kind s = saKind s"

record Gap =
  FirstMissedIndex :: u64
  LastMissedIndex :: u64
  Count :: u64

definition noGap :: Gap where
  "noGap = \<lparr>FirstMissedIndex = 0, LastMissedIndex = 0, Count = 0\<rparr>"

record Delivery =
  dRecord :: Record
  dBlob :: "bytes option"
  dGap :: Gap
  dHasGap :: bool

section \<open>Reading with gaps\<close>

text \<open>
  \<^verbatim>\<open>Ring.next\<close> from \<open>cursor\<close>, one load at a time. It ends with a delivery and the index to
  resume at, or with \<open>None\<close> when nothing is ready; a slot that has moved on is retried at the index
  it holds.
\<close>

definition next_step ::
  "memory \<Rightarrow> u64 \<Rightarrow> u64 \<Rightarrow> read_pc \<Rightarrow> (Delivery \<times> u64) option + (u64 \<times> read_pc)" where
  "next_step r cursor target pc =
     (case read_step r target zeroRecord pc of
        Inr pc \<Rightarrow> Inr (target, pc)
      | Inl res \<Rightarrow>
          if rrComplete res then
            (if target > cursor then
               Inl (Some (\<lparr>dRecord = rrRec res, dBlob = rrBlob res,
                 dGap = \<lparr>FirstMissedIndex = cursor, LastMissedIndex = target - 1, Count = target - cursor\<rparr>,
                 dHasGap = True\<rparr>, target + 1))
             else
               Inl (Some (\<lparr>dRecord = rrRec res, dBlob = rrBlob res, dGap = noGap, dHasGap = False\<rparr>, target + 1)))
          else if rrHeld res \<le> target then Inl None
          else Inr (rrHeld res, LoadSeq))"

section \<open>Subscribers\<close>

text \<open>What one call of \<^verbatim>\<open>Subscriber.Next\<close> returned.\<close>

datatype outcome = Delivered Delivery | EndOfStream | Stopped fanout_error

text \<open>Where the owner is: outside a call, or at one of the atomic operations of \<^verbatim>\<open>Next\<close>.\<close>

datatype sub_pc =
    Outside
  | CheckEvicted
  | CheckCanceled
  | Reading u64 read_pc
  | StoreCursor Delivery u64
  | CheckEnd

record Subscriber =
  sbMode :: BackpressureMode
  sbStart :: StartAt
  sbCursor :: u64
  sbEvicted :: bool
  sbCanceled :: bool
  sbPos :: u64
  sbPc :: sub_pc
  sbFrom :: u64
  sbTrace :: "outcome list"

definition sub_Mode :: "Subscriber \<Rightarrow> BackpressureMode" where "sub_Mode s = sbMode s"

definition sub_Cursor :: "Subscriber \<Rightarrow> u64" where "sub_Cursor s = sbCursor s"

definition Cancel :: "Subscriber \<Rightarrow> Subscriber" where "Cancel s = s\<lparr>sbCanceled := True\<rparr>"

definition return_next :: "outcome \<Rightarrow> Subscriber \<Rightarrow> Subscriber" where
  "return_next out s = s\<lparr>sbPc := Outside, sbTrace := sbTrace s @ [out]\<rparr>"

definition sub_step :: "memory \<Rightarrow> Subscriber \<Rightarrow> Subscriber" where
  "sub_step r s =
     (case sbPc s of
        Outside \<Rightarrow> s\<lparr>sbPc := CheckEvicted\<rparr>
      | CheckEvicted \<Rightarrow> if sbEvicted s then return_next (Stopped ErrEvicted) s else s\<lparr>sbPc := CheckCanceled\<rparr>
      | CheckCanceled \<Rightarrow>
          if sbCanceled s then return_next (Stopped ErrCanceled) s else s\<lparr>sbPc := Reading (sbPos s) LoadSeq\<rparr>
      | Reading target pc \<Rightarrow>
          (case next_step r (sbPos s) target pc of
             Inr (target, pc) \<Rightarrow> s\<lparr>sbPc := Reading target pc\<rparr>
           | Inl (Some (d, nxt)) \<Rightarrow> s\<lparr>sbPc := StoreCursor d nxt\<rparr>
           | Inl None \<Rightarrow> s\<lparr>sbPc := CheckEnd\<rparr>)
      | StoreCursor d nxt \<Rightarrow> return_next (Delivered d) (s\<lparr>sbPos := nxt, sbCursor := nxt\<rparr>)
      | CheckEnd \<Rightarrow>
          (case End r of
             Some e \<Rightarrow> if sbPos s \<ge> e then return_next EndOfStream s else s\<lparr>sbPc := CheckEvicted\<rparr>
           | None \<Rightarrow> s\<lparr>sbPc := CheckEvicted\<rparr>))"

section \<open>The ring and its subscribers\<close>

datatype control = controlSubscribe BackpressureMode StartAt | controlUnsubscribe nat

datatype controlReply = SubscribeReply "fanout_error + nat" | UnsubscribeReply

text \<open>
  \<open>rSubs\<close> is the heap of subscribers and \<open>rBlocking\<close> holds pointers into it. A queued request
  carries the number of its reply channel; \<open>rReplies\<close> holds what was sent on them.
\<close>

record Ring =
  rMem :: memory
  rBlocking :: "nat list"
  rSubs :: "Subscriber list"
  rCtrlPending :: "(nat \<times> control) list"
  rCtrlStarted :: bool
  rCtrlClosed :: bool
  rReplies :: "(nat \<times> controlReply) list"
  rIssued :: nat
  rSlipNs :: i64
  rWatchdogTimeout :: i64

definition newRing :: "Config \<Rightarrow> fanout_error + Ring" where
  "newRing cfg =
     bindE (NewRing cfg) (\<lambda>r. Inr \<lparr>rMem = r, rBlocking = [], rSubs = [], rCtrlPending = [], rCtrlStarted = False,
       rCtrlClosed = False, rReplies = [], rIssued = 0, rSlipNs = 0, rWatchdogTimeout = cfgWatchdogTimeout cfg\<rparr>)"

definition PacingSlipNanos :: "Ring \<Rightarrow> i64" where "PacingSlipNanos r = rSlipNs r"

definition oldestIndex :: "memory \<Rightarrow> u64" where
  "oldestIndex r =
     (let w = rWriteSeq r; capacity = of_nat (Capacity r) in if w > capacity then w - capacity else 0)"

text \<open>The scan of \<open>k\<close> records from index \<open>i\<close>; \<open>None\<close> is the result \<^verbatim>\<open>false\<close>. It runs on the
  emit goroutine or before it starts, so nothing is written meanwhile.\<close>

primrec find_loop :: "memory \<Rightarrow> i64 \<Rightarrow> nat \<Rightarrow> u64 \<Rightarrow> Record \<Rightarrow> u64 option" where
  "find_loop r t 0 i rec = None"
| "find_loop r t (Suc k) i rec =
     (let res = read r i rec in
      if \<not> rrComplete res then None
      else if sint (ExchangeTs (rrRec res)) \<ge> sint t then Some i
      else find_loop r t k (i + 1) (rrRec res))"

definition findFirstAtOrAfter :: "memory \<Rightarrow> i64 \<Rightarrow> u64 \<Rightarrow> u64 \<Rightarrow> u64 option" where
  "findFirstAtOrAfter r t from_idx to_idx =
     find_loop r t (unat to_idx - unat from_idx) from_idx zeroRecord"

definition resolve_start :: "memory \<Rightarrow> StartAt \<Rightarrow> fanout_error + u64" where
  "resolve_start r start =
     (case saKind start of
        startBeginning \<Rightarrow> Inr 0
      | startExchangeTs \<Rightarrow>
          (let w = rWriteSeq r in
           case findFirstAtOrAfter r (saExchangeTs start) (oldestIndex r) w of
             Some found \<Rightarrow> Inr found
           | None \<Rightarrow> Inr w)
      | startEmitIndex \<Rightarrow> Inr (saEmitIndex start)
      | startLive \<Rightarrow> Inr (rWriteSeq r)
      | startUnset \<Rightarrow> Inl ErrStartUnset)"

definition new_subscriber :: "BackpressureMode \<Rightarrow> StartAt \<Rightarrow> u64 \<Rightarrow> Subscriber" where
  "new_subscriber mode start cursor =
     \<lparr>sbMode = mode, sbStart = start, sbCursor = cursor, sbEvicted = False, sbCanceled = False,
      sbPos = cursor, sbPc = Outside, sbFrom = cursor, sbTrace = []\<rparr>"

definition subscribeNow :: "BackpressureMode \<Rightarrow> StartAt \<Rightarrow> Ring \<Rightarrow> (fanout_error + nat) \<times> Ring" where
  "subscribeNow mode start r =
     (case resolve_start (rMem r) start of
        Inl e \<Rightarrow> (Inl e, r)
      | Inr cursor \<Rightarrow>
          if mode = ModeBlock \<and> saKind start \<noteq> startLive \<and> cursor < oldestIndex (rMem r)
          then (Inl ErrStartLapped, r)
          else let s = length (rSubs r);
                   r = r\<lparr>rSubs := rSubs r @ [new_subscriber mode start cursor]\<rparr>;
                   r = (if mode = ModeBlock then r\<lparr>rBlocking := rBlocking r @ [s]\<rparr> else r)
               in (Inr s, r))"

text \<open>\<open>remove1\<close> removes the first occurrence, as the loop does.\<close>

definition unsubscribeNow :: "nat \<Rightarrow> Ring \<Rightarrow> Ring" where
  "unsubscribeNow s r =
     (if sbMode (rSubs r ! s) \<noteq> ModeBlock then r else r\<lparr>rBlocking := remove1 s (rBlocking r)\<rparr>)"

section \<open>The control queue\<close>

definition StartEmitting :: "Ring \<Rightarrow> Ring" where
  "StartEmitting r = r\<lparr>rCtrlStarted := True\<rparr>"

definition reply :: "nat \<Rightarrow> controlReply \<Rightarrow> Ring \<Rightarrow> Ring" where
  "reply c v r = r\<lparr>rReplies := rReplies r @ [(c, v)]\<rparr>"

fun apply_one :: "nat \<times> control \<Rightarrow> Ring \<Rightarrow> Ring" where
  "apply_one (c, controlSubscribe mode start) r =
     (case subscribeNow mode start r of (res, r) \<Rightarrow> reply c (SubscribeReply res) r)"
| "apply_one (c, controlUnsubscribe s) r = reply c UnsubscribeReply (unsubscribeNow s r)"

text \<open>
  The requests are applied in one step. Only the emit goroutine runs this, and what it changes is its
  own (the blocking list) or nobody's yet (a new subscriber), so no other goroutine can tell.
\<close>

definition applyControl :: "Ring \<Rightarrow> Ring" where
  "applyControl r = fold apply_one (rCtrlPending r) (r\<lparr>rCtrlPending := []\<rparr>)"

fun close_one :: "nat \<times> control \<Rightarrow> Ring \<Rightarrow> Ring" where
  "close_one (c, controlSubscribe mode start) r = reply c (SubscribeReply (Inl ErrClosed)) r"
| "close_one (c, controlUnsubscribe s) r = reply c UnsubscribeReply r"

definition closeControl :: "Ring \<Rightarrow> Ring" where
  "closeControl r = fold close_one (rCtrlPending r) (r\<lparr>rCtrlClosed := True, rCtrlPending := []\<rparr>)"

text \<open>
  The first half of \<^verbatim>\<open>Subscribe\<close> and \<^verbatim>\<open>Unsubscribe\<close>, up to the wait for a reply: \<open>Inl\<close> is
  an answer at once, \<open>Inr\<close> the number of the channel the caller waits on. The \<^verbatim>\<open>Cancel\<close> that
  \<^verbatim>\<open>Unsubscribe\<close> defers to its return is a step of its own.
\<close>

definition enqueue :: "control \<Rightarrow> Ring \<Rightarrow> nat \<times> Ring" where
  "enqueue req r =
     (rIssued r, r\<lparr>rCtrlPending := rCtrlPending r @ [(rIssued r, req)], rIssued := Suc (rIssued r)\<rparr>)"

definition Subscribe :: "BackpressureMode \<Rightarrow> StartAt \<Rightarrow> Ring \<Rightarrow> ((fanout_error + nat) + nat) \<times> Ring" where
  "Subscribe mode start r =
     (if mode \<noteq> ModeBlock \<and> mode \<noteq> ModeDrop then (Inl (Inl ErrModeUnset), r)
      else if saKind start = startUnset then (Inl (Inl ErrStartUnset), r)
      else if rCtrlClosed r then (Inl (Inl ErrClosed), r)
      else if rCtrlStarted r then (case enqueue (controlSubscribe mode start) r of (c, r) \<Rightarrow> (Inr c, r))
      else (case subscribeNow mode start r of (res, r) \<Rightarrow> (Inl res, r)))"

definition Unsubscribe :: "nat \<Rightarrow> Ring \<Rightarrow> (unit + nat) \<times> Ring" where
  "Unsubscribe s r =
     (if \<not> rCtrlStarted r then (Inl (), unsubscribeNow s r)
      else if rCtrlClosed r then (Inl (), r)
      else (case enqueue (controlUnsubscribe s) r of (c, r) \<Rightarrow> (Inr c, r)))"

section \<open>The Block barrier\<close>

text \<open>
  The scans of \<^verbatim>\<open>minBlockCursor\<close> and \<^verbatim>\<open>evictStalledBlockSubscriber\<close> load one cursor after
  another; these are their loop bodies.
\<close>

definition min_cursor :: "u64 \<Rightarrow> u64 \<Rightarrow> u64" where
  "min_cursor c m = (if c < m then c else m)"

definition minBlockCursor :: "Ring \<Rightarrow> u64" where
  "minBlockCursor r = fold (\<lambda>s. min_cursor (sub_Cursor (rSubs r ! s))) (rBlocking r) (- 1)"

definition pick_victim :: "u64 \<Rightarrow> nat \<Rightarrow> u64 \<Rightarrow> u64 \<times> nat option \<Rightarrow> u64 \<times> nat option" where
  "pick_victim threshold s c v = (if c \<le> threshold \<and> c < fst v then (c, Some s) else v)"

definition evict :: "nat option \<Rightarrow> Ring \<Rightarrow> Ring" where
  "evict victim r =
     (case victim of
        None \<Rightarrow> r
      | Some s \<Rightarrow> unsubscribeNow s (r\<lparr>rSubs := (rSubs r)[s := (rSubs r ! s)\<lparr>sbEvicted := True\<rparr>]\<rparr>))"

end
