(* ===== verification/Fanout_Emit.thy ===== *)
theory Fanout_Emit
  imports Fanout_Subscriber Store_Canonical Merge_Cursor
begin

text \<open>
  The emit loop \<^verbatim>\<open>Ring.RunDigest\<close> of \<^verbatim>\<open>src/internal/fanout/fanout.go\<close>, with the
  \<^verbatim>\<open>Write\<close> and the Block barrier it calls, as one goroutine: \<open>emit_step\<close> is its next atomic
  operation. Together with the owners of the subscribers and the goroutines that subscribe, leave and
  cancel, it makes the step relation \<open>fan_step\<close>, whose runs are the interleavings of the program.
\<close>

section \<open>The emit goroutine\<close>

datatype run_error = RunMerge merge_error | RunFanout fanout_error | RunPanic

text \<open>
  The state of the loop. The barrier's constructors carry the event to write, its index, and in the
  spinning part the times \<^verbatim>\<open>start\<close> and \<^verbatim>\<open>windowStart\<close>. A scan carries the subscribers it
  has still to look at and what it found; \<open>BarrierScan\<close> has no times when it is the check of the
  fast path.
\<close>

datatype emit_pc =
    EmitInit
  | EmitControl
  | EmitNext
  | EmitWait Event
  | EmitWrite Event
  | BarrierScan Event u64 "nat list" u64 "(i64 \<times> i64) option"
  | BarrierStart Event u64
  | BarrierControl Event u64 i64 i64
  | BarrierWatch Event u64 i64 i64
  | EvictScan Event u64 i64 i64 "nat list" "u64 \<times> nat option"
  | BarrierSlip Event u64 i64
  | Writing Event u64 write_pc
  | EmitEnd
  | EmitClose
  | EmitReturned "run_error option"

text \<open>The state of the whole: the ring, the merger, the loop, the digest, and, for the specification
  only, the log of what has been written.\<close>

record 's system =
  sysRing :: Ring
  sysSource :: 's
  sysPc :: emit_pc
  sysHash :: "CanonicalHasher option"
  sysLog :: "entry list"

definition ev_payload :: "Event \<Rightarrow> bytes" where
  "ev_payload ev = (case evBlob ev of None \<Rightarrow> [] | Some b \<Rightarrow> b)"

definition entry_of :: "Event \<Rightarrow> entry" where
  "entry_of ev = (evRecord ev, ev_payload ev)"

definition set_mem :: "memory \<Rightarrow> 's system \<Rightarrow> 's system" where
  "set_mem r s = s\<lparr>sysRing := (sysRing s)\<lparr>rMem := r\<rparr>\<rparr>"

definition goto :: "emit_pc \<Rightarrow> 's system \<Rightarrow> 's system" where
  "goto pc s = s\<lparr>sysPc := pc\<rparr>"

definition on_ring :: "(Ring \<Rightarrow> Ring) \<Rightarrow> 's system \<Rightarrow> 's system" where
  "on_ring f s = s\<lparr>sysRing := f (sysRing s)\<rparr>"

definition start_scan :: "Event \<Rightarrow> u64 \<Rightarrow> (i64 \<times> i64) option \<Rightarrow> 's system \<Rightarrow> 's system" where
  "start_scan ev n since s = goto (BarrierScan ev n (rBlocking (sysRing s)) (- 1) since) s"

text \<open>The record is hashed on the way from the pacer to \<^verbatim>\<open>Write\<close>.\<close>

definition hash_event :: "Event \<Rightarrow> 's system \<Rightarrow> 's system" where
  "hash_event ev s =
     (case sysHash s of
        None \<Rightarrow> goto (EmitWrite ev) s
      | Some h \<Rightarrow>
          (case hasher_Write h (evRecord ev) (ev_payload ev) of
             None \<Rightarrow> goto (EmitReturned (Some RunPanic)) s
           | Some h \<Rightarrow> goto (EmitWrite ev) (s\<lparr>sysHash := Some h\<rparr>)))"

text \<open>\<^verbatim>\<open>Write\<close> up to its first look at the barrier.\<close>

definition enter_write :: "Event \<Rightarrow> 's system \<Rightarrow> 's system" where
  "enter_write ev s =
     (let r = rMem (sysRing s) in
      if length (ev_payload ev) > rMaxBlob r then goto (EmitReturned (Some (RunFanout ErrBlobTooLarge))) s
      else let n = rWriteSeq r in
           if n < of_nat (Capacity r) then goto (Writing ev n StoreEven) s
           else start_scan ev n None s)"

text \<open>The end of a scan of \<^verbatim>\<open>minBlockCursor\<close>, which is compared with the threshold.\<close>

definition scanned :: "Event \<Rightarrow> u64 \<Rightarrow> u64 \<Rightarrow> (i64 \<times> i64) option \<Rightarrow> 's system \<Rightarrow> 's system" where
  "scanned ev n m since s =
     (let threshold = n - of_nat (Capacity (rMem (sysRing s))) in
      case since of
        None \<Rightarrow> goto (if m > threshold then Writing ev n StoreEven else BarrierStart ev n) s
      | Some (start, windowStart) \<Rightarrow>
          goto (if m > threshold then BarrierSlip ev n start else BarrierControl ev n start windowStart) s)"

definition watchdog :: "i64 \<Rightarrow> Event \<Rightarrow> u64 \<Rightarrow> i64 \<Rightarrow> i64 \<Rightarrow> 's system \<Rightarrow> 's system" where
  "watchdog now ev n start windowStart s =
     (let timeout = rWatchdogTimeout (sysRing s) in
      if sint timeout > 0 \<and> sint (now - windowStart) \<ge> sint timeout
      then goto (EvictScan ev n start now (rBlocking (sysRing s)) (- 1, None)) s
      else start_scan ev n (Some (start, windowStart)) s)"

text \<open>
  One step, with the value the clock shows and whether the pacer lets the record through; \<open>paced\<close>
  says whether there is a pacer, and \<open>nxt\<close> is \<^verbatim>\<open>Merger.Next\<close>.
\<close>

definition emit_step ::
  "('s \<Rightarrow> (merge_error + Event option) \<times> 's) \<Rightarrow> bool \<Rightarrow> i64 \<Rightarrow> bool \<Rightarrow> 's system \<Rightarrow> 's system" where
  "emit_step nxt paced now go s =
     (case sysPc s of
        EmitInit \<Rightarrow> goto EmitControl (on_ring StartEmitting s)
      | EmitControl \<Rightarrow> goto EmitNext (on_ring applyControl s)
      | EmitNext \<Rightarrow>
          (case nxt (sysSource s) of
             (Inl e, src) \<Rightarrow> goto (EmitReturned (Some (RunMerge e))) (s\<lparr>sysSource := src\<rparr>)
           | (Inr None, src) \<Rightarrow> goto EmitEnd (s\<lparr>sysSource := src\<rparr>)
           | (Inr (Some ev), src) \<Rightarrow> goto (EmitWait ev) (s\<lparr>sysSource := src\<rparr>))
      | EmitWait ev \<Rightarrow> if paced \<and> \<not> go then goto EmitEnd s else hash_event ev s
      | EmitWrite ev \<Rightarrow> enter_write ev s
      | BarrierScan ev n [] m since \<Rightarrow> scanned ev n m since s
      | BarrierScan ev n (k # ks) m since \<Rightarrow>
          goto (BarrierScan ev n ks (min_cursor (sub_Cursor (rSubs (sysRing s) ! k)) m) since) s
      | BarrierStart ev n \<Rightarrow> start_scan ev n (Some (now, now)) s
      | BarrierControl ev n start windowStart \<Rightarrow>
          goto (BarrierWatch ev n start windowStart) (on_ring applyControl s)
      | BarrierWatch ev n start windowStart \<Rightarrow> watchdog now ev n start windowStart s
      | EvictScan ev n start t (k # ks) v \<Rightarrow>
          goto (EvictScan ev n start t ks
            (pick_victim (n - of_nat (Capacity (rMem (sysRing s)))) k (sub_Cursor (rSubs (sysRing s) ! k)) v)) s
      | EvictScan ev n start t [] v \<Rightarrow> start_scan ev n (Some (start, t)) (on_ring (evict (snd v)) s)
      | BarrierSlip ev n start \<Rightarrow>
          goto (Writing ev n StoreEven) (on_ring (\<lambda>r. r\<lparr>rSlipNs := rSlipNs r + (now - start)\<rparr>) s)
      | Writing ev n WriteDone \<Rightarrow> goto EmitControl s
      | Writing ev n pc \<Rightarrow>
          (case write_step n (evRecord ev) (ev_payload ev) pc (rMem (sysRing s)) of
             (pc', r) \<Rightarrow> goto (Writing ev n pc') (set_mem r (s\<lparr>sysLog := log_after pc (sysLog s) (entry_of ev)\<rparr>)))
      | EmitEnd \<Rightarrow>
          (let r = rMem (sysRing s) in goto EmitClose (set_mem (store_end (rWriteSeq r) r) s))
      | EmitClose \<Rightarrow> goto (EmitReturned None) (on_ring closeControl s)
      | EmitReturned e \<Rightarrow> s)"

section \<open>The program\<close>

definition update_sub :: "nat \<Rightarrow> (Subscriber \<Rightarrow> Subscriber) \<Rightarrow> Ring \<Rightarrow> Ring" where
  "update_sub k f r = r\<lparr>rSubs := (rSubs r)[k := f (rSubs r ! k)]\<rparr>"

definition read_sub :: "nat \<Rightarrow> Ring \<Rightarrow> Ring" where
  "read_sub k r = update_sub k (sub_step (rMem r)) r"

inductive fan_step ::
  "('s \<Rightarrow> (merge_error + Event option) \<times> 's) \<Rightarrow> bool \<Rightarrow> 's system \<Rightarrow> 's system \<Rightarrow> bool" for nxt paced where
  emits: "fan_step nxt paced s (emit_step nxt paced now go s)"
| reads: "k < length (rSubs (sysRing s)) \<Longrightarrow> fan_step nxt paced s (on_ring (read_sub k) s)"
| cancels: "k < length (rSubs (sysRing s)) \<Longrightarrow> fan_step nxt paced s (on_ring (update_sub k Cancel) s)"
| subscribes: "fan_step nxt paced s (on_ring (\<lambda>r. snd (Subscribe mode start r)) s)"
| unsubscribes: "k < length (rSubs (sysRing s)) \<Longrightarrow> fan_step nxt paced s (on_ring (\<lambda>r. snd (Unsubscribe k r)) s)"

definition start_system :: "Ring \<Rightarrow> 's \<Rightarrow> CanonicalHasher option \<Rightarrow> 's system" where
  "start_system r src h = \<lparr>sysRing = r, sysSource = src, sysPc = EmitInit, sysHash = h, sysLog = []\<rparr>"

definition fan_reachable ::
  "('s \<Rightarrow> (merge_error + Event option) \<times> 's) \<Rightarrow> bool \<Rightarrow> 's system \<Rightarrow> 's system \<Rightarrow> bool" where
  "fan_reachable nxt paced = (fan_step nxt paced)\<^sup>*\<^sup>*"

end
