(* ===== verification/Fanout_Delivery.thy ===== *)
theory Fanout_Delivery
  imports Fanout_Emit
begin

text \<open>
  What a subscriber is given. \<open>tiles\<close> is the specification: the deliveries, each with the gap before
  it, cover the emit indexes from where the subscriber started, one after another, and every record and
  payload delivered is the one written at its index. The lemmas show that a step of a subscriber, and
  any step of the others, keeps it.
\<close>

section \<open>The specification of a stream with gaps\<close>

definition tile :: "entry list \<Rightarrow> nat \<Rightarrow> Delivery \<Rightarrow> nat option" where
  "tile log c d =
     (let t = (if dHasGap d then unat (LastMissedIndex (dGap d)) + 1 else c) in
      if t < length log \<and> dRecord d = fst (log ! t) \<and> dBlob d = entry_blob (log ! t)
         \<and> (dHasGap d \<longrightarrow> unat (FirstMissedIndex (dGap d)) = c \<and> c < t \<and> unat (Count (dGap d)) = t - c)
      then Some (t + 1) else None)"

lemma tile_nextI:
  "\<not> dHasGap d \<Longrightarrow> c < length log \<Longrightarrow> dRecord d = fst (log ! c) \<Longrightarrow> dBlob d = entry_blob (log ! c) \<Longrightarrow>
   tile log c d = Some (c + 1)"
  by (simp add: tile_def)

lemma tile_gapI:
  assumes "dHasGap d" "dRecord d = fst (log ! t)" "dBlob d = entry_blob (log ! t)" "c < t" "t < length log"
    "unat (LastMissedIndex (dGap d)) + 1 = t" "unat (FirstMissedIndex (dGap d)) = c" "unat (Count (dGap d)) = t - c"
  shows "tile log c d = Some (t + 1)"
  unfolding tile_def Let_def using assms by (simp only: if_True simp_thms option.inject)

text \<open>From index \<open>c\<close>; the result is the index after the last delivery.\<close>

fun tiles :: "entry list \<Rightarrow> nat \<Rightarrow> outcome list \<Rightarrow> nat option" where
  "tiles log c [] = Some c"
| "tiles log c (Delivered d # outs) = (case tile log c d of None \<Rightarrow> None | Some c \<Rightarrow> tiles log c outs)"
| "tiles log c (_ # outs) = tiles log c outs"

fun gapless :: "outcome \<Rightarrow> bool" where
  "gapless (Delivered d) = (\<not> dHasGap d)"
| "gapless _ = True"

definition delivered :: "outcome list \<Rightarrow> (Record \<times> bytes option) list" where
  "delivered outs = concat (map (\<lambda>out. case out of Delivered d \<Rightarrow> [(dRecord d, dBlob d)] | _ \<Rightarrow> []) outs)"

definition deliverable :: "entry \<Rightarrow> Record \<times> bytes option" where
  "deliverable e = (fst e, entry_blob e)"

lemma tile_mono: "tile log c d = Some c' \<Longrightarrow> tile (log @ new) c d = Some c'"
  by (auto simp: tile_def Let_def nth_append split: if_splits)

lemma tiles_mono: "tiles log c outs = Some c' \<Longrightarrow> tiles (log @ new) c outs = Some c'"
  by (induction log c outs rule: tiles.induct) (auto simp: tile_mono split: option.splits)

lemma tiles_append:
  "tiles log c (outs @ outs') = (case tiles log c outs of None \<Rightarrow> None | Some c \<Rightarrow> tiles log c outs')"
  by (induction log c outs rule: tiles.induct) (auto split: option.splits)

lemma tiles_le: "tiles log c outs = Some c' \<Longrightarrow> c \<le> c'"
proof (induction log c outs rule: tiles.induct)
  case (2 log c d outs)
  then show ?case
    by (auto simp: tile_def Let_def split: option.splits if_splits)
qed auto

text \<open>Without gaps the deliveries are a contiguous piece of the log.\<close>

lemma tiles_gapless:
  "tiles log c outs = Some c' \<Longrightarrow> list_all gapless outs \<Longrightarrow>
   delivered outs = map deliverable (sub log c (c' - c)) \<and> (c < c' \<longrightarrow> c' \<le> length log)"
proof (induction log c outs rule: tiles.induct)
  case (1 log c)
  then show ?case by (simp add: delivered_def sub_def)
next
  case (2 log c d outs)
  then have t: "c < length log" "dRecord d = fst (log ! c)" "dBlob d = entry_blob (log ! c)"
    "tiles log (c + 1) outs = Some c'" "tile log c d = Some (c + 1)"
    by (auto simp: tile_def Let_def split: option.splits if_splits)
  have ih: "delivered outs = map deliverable (sub log (c + 1) (c' - (c + 1))) \<and> (c + 1 < c' \<longrightarrow> c' \<le> length log)"
    using "2.IH" [OF t(5,4)] "2.prems"(2) by simp
  have le: "c + 1 \<le> c'" by (rule tiles_le [OF t(4)])
  then have "sub log c (c' - c) = log ! c # sub log (c + 1) (c' - (c + 1))"
    using t(1) by (simp add: sub_def Cons_nth_drop_Suc [symmetric] Suc_diff_Suc take_Cons')
  with ih t le show ?case by (auto simp: delivered_def deliverable_def)
qed (auto simp: delivered_def)

section \<open>One subscriber\<close>

primrec pc_ok :: "nat \<Rightarrow> entry list \<Rightarrow> memory \<Rightarrow> nat \<Rightarrow> sub_pc \<Rightarrow> bool" where
  "pc_ok cap log r p Outside = True"
| "pc_ok cap log r p CheckEvicted = True"
| "pc_ok cap log r p CheckCanceled = True"
| "pc_ok cap log r p (Reading t pc) \<longleftrightarrow> p \<le> unat t \<and> unat t < 2 ^ 63 \<and> read_ok cap log r (unat t) pc"
| "pc_ok cap log r p (StoreCursor d n) \<longleftrightarrow> tile log p d = Some (unat n)"
| "pc_ok cap log r p CheckEnd = True"

text \<open>A subscriber whose start is below \<open>2 ^ 63\<close>.\<close>

definition sub_inv :: "nat \<Rightarrow> entry list \<Rightarrow> memory \<Rightarrow> Subscriber \<Rightarrow> bool" where
  "sub_inv cap log r s \<longleftrightarrow> (unat (sbFrom s) < 2 ^ 63 \<longrightarrow>
     tiles log (unat (sbFrom s)) (sbTrace s) = Some (unat (sbPos s)) \<and> unat (sbPos s) < 2 ^ 63
     \<and> sbCursor s = sbPos s \<and> pc_ok cap log r (unat (sbPos s)) (sbPc s)
     \<and> (EndOfStream \<in> set (sbTrace s) \<longrightarrow> rEndPlusOne r \<noteq> 0 \<and> length log \<le> unat (sbPos s)))"

text \<open>A registered Block subscriber: the writer has begun no entry a lap or more ahead of it, where
  \<open>hi\<close> is the number of entries begun.\<close>

primrec block_pc :: "u64 \<Rightarrow> sub_pc \<Rightarrow> bool" where
  "block_pc p Outside = True"
| "block_pc p CheckEvicted = True"
| "block_pc p CheckCanceled = True"
| "block_pc p (Reading t pc) = (t = p)"
| "block_pc p (StoreCursor d n) = (\<not> dHasGap d)"
| "block_pc p CheckEnd = True"

definition block_inv :: "nat \<Rightarrow> nat \<Rightarrow> Subscriber \<Rightarrow> bool" where
  "block_inv cap hi s \<longleftrightarrow> sbMode s = ModeBlock \<and> (unat (sbFrom s) < 2 ^ 63 \<longrightarrow>
     hi \<le> unat (sbCursor s) + cap \<and> list_all gapless (sbTrace s) \<and> block_pc (sbPos s) (sbPc s))"

lemma pc_ok_mono:
  assumes "pc_ok cap log r p pc" "\<And>j. j < cap \<Longrightarrow> seq_of r j \<le> seq_of r' j" "rMaxBlob r' = rMaxBlob r"
    "log' = log @ new" "0 < cap"
  shows "pc_ok cap log' r' p pc"
proof (cases pc)
  case (Reading t rp)
  have "read_ok cap log' r' (unat t) rp"
    by (rule read_ok_mono [OF _ _ assms(3,4)]) (use assms(1,2,5) Reading in simp_all)
  then show ?thesis using assms(1) Reading by simp
qed (use assms(1,4) tile_mono in auto)

lemma sub_inv_mono:
  assumes "sub_inv cap log r s" "\<And>j. j < cap \<Longrightarrow> seq_of r j \<le> seq_of r' j" "rMaxBlob r' = rMaxBlob r"
    "log' = log @ new" "0 < cap" "rEndPlusOne r \<noteq> 0 \<Longrightarrow> rEndPlusOne r' \<noteq> 0 \<and> new = []"
  shows "sub_inv cap log' r' s"
  using assms(1,6) pc_ok_mono [OF _ assms(2-5)] tiles_mono [of log _ _ _ new]
  unfolding sub_inv_def assms(4) by auto

lemma sub_inv_flags [simp]:
  "sub_inv cap log r (s\<lparr>sbEvicted := b\<rparr>) = sub_inv cap log r s"
  "sub_inv cap log r (s\<lparr>sbCanceled := b\<rparr>) = sub_inv cap log r s"
  "block_inv cap hi (s\<lparr>sbEvicted := b\<rparr>) = block_inv cap hi s"
  "block_inv cap hi (s\<lparr>sbCanceled := b\<rparr>) = block_inv cap hi s"
  by (simp_all add: sub_inv_def block_inv_def)

lemma sub_inv_new:
  "sub_inv cap log r (new_subscriber mode start c)"
  by (simp add: sub_inv_def new_subscriber_def)

lemma unat_plus_1: "unat t < 2 ^ 64 - 1 \<Longrightarrow> unat (t + 1) = unat t + 1" for t :: u64
proof -
  assume "unat t < 2 ^ 64 - 1"
  then have "unat (of_nat (unat t + 1) :: u64) = unat t + 1" by (intro unat_index) simp
  then show ?thesis by (simp add: add.commute)
qed

text \<open>A read that finishes, in the words of \<open>next_step\<close>.\<close>

lemma next_step_ok:
  assumes "mem_ok cap log w r" "unat t < 2 ^ 63" "unat c \<le> unat t" "read_ok cap log r (unat t) pc"
  shows "case next_step r c t pc of
      Inr (t', pc') \<Rightarrow> unat c \<le> unat t' \<and> unat t' < 2 ^ 63 \<and> read_ok cap log r (unat t') pc'
        \<and> (t = c \<longrightarrow> length log + (if w then 1 else 0) \<le> unat c + cap \<longrightarrow> t' = c)
    | Inl None \<Rightarrow> True
    | Inl (Some (d, n)) \<Rightarrow> tile log (unat c) d = Some (unat n) \<and> unat n < 2 ^ 63 \<and> (t = c \<longrightarrow> \<not> dHasGap d)"
proof -
  note m = mem_okD [OF assms(1)]
  have t: "t = of_nat (unat t)" by simp
  show ?thesis
  proof (cases "read_step r t zeroRecord pc")
    case (Inr pc')
    then have "read_ok cap log r (unat t) pc'"
      using read_step_ok [OF assms(1,2,4), of zeroRecord] by simp
    then show ?thesis using Inr assms(2,3) by (simp add: next_step_def)
  next
    case (Inl res)
    note res = read_step_result [OF assms(1,2,4), of zeroRecord res, folded t, OF Inl]
    show ?thesis
    proof (cases "rrComplete res")
      case True
      have l: "unat t < length log" "rrRec res = fst (log ! unat t)" "rrBlob res = entry_blob (log ! unat t)"
        using res(1) [OF True] by auto
      have n: "unat (t + 1) = unat t + 1"
        by (rule unat_plus_1) (use assms(2) in simp)
      have gap: "unat (t - 1) + 1 = unat t \<and> unat (t - c) = unat t - unat c" if "t > c"
      proof -
        have "unat (t - 1) = unat t - 1" using that by (intro unat_minus_one) auto
        moreover have "0 < unat t" using that by (simp add: word_less_nat_alt)
        moreover have "unat (t - c) = unat t - unat c" using that by (intro unat_sub) simp
        ultimately show ?thesis by simp
      qed
      have lt: "unat t + 1 < 2 ^ 63" using l(1) m(2) by linarith
      show ?thesis
      proof (cases "t > c")
        case gt: True
        let ?d = "\<lparr>dRecord = rrRec res, dBlob = rrBlob res,
          dGap = \<lparr>FirstMissedIndex = c, LastMissedIndex = t - 1, Count = t - c\<rparr>, dHasGap = True\<rparr>"
        have "next_step r c t pc = Inl (Some (?d, t + 1))"
          using Inl True gt by (simp add: next_step_def)
        moreover have "tile log (unat c) ?d = Some (unat t + 1)"
          by (rule tile_gapI) (use l gap [OF gt] gt in \<open>simp_all add: word_less_nat_alt\<close>)
        ultimately show ?thesis using n lt gt by auto
      next
        case le: False
        let ?d = "\<lparr>dRecord = rrRec res, dBlob = rrBlob res, dGap = noGap, dHasGap = False\<rparr>"
        have "unat c = unat t" using le assms(3) by (simp add: word_less_nat_alt)
        then have "c = t" by (rule unsigned_word_eqI)
        then have "tile log (unat c) ?d = Some (unat t + 1)"
          by (intro tile_nextI [THEN trans]) (use l in simp_all)
        moreover have "next_step r c t pc = Inl (Some (?d, t + 1))"
          using Inl True le by (simp add: next_step_def)
        ultimately show ?thesis using n lt by auto
      qed
    next
      case False
      have h: "unat (rrHeld res) \<le> length log" by (rule res(2) [OF False])
      show ?thesis
      proof (cases "rrHeld res \<le> t")
        case True
        then show ?thesis using Inl False by (simp add: next_step_def)
      next
        case gt: False
        then have "unat t < unat (rrHeld res)" by (simp add: word_le_nat_alt)
        moreover have "\<not> length log + (if w then 1 else 0) \<le> unat t + cap"
          using res(3) [OF False] \<open>unat t < unat (rrHeld res)\<close> by auto
        ultimately show ?thesis
          using Inl False gt h m(2) assms(3) by (auto simp: next_step_def read_ok_def)
      qed
    qed
  qed
qed

lemma sub_step_inv:
  assumes "mem_ok cap log w r" "sub_inv cap log r s"
    "rEndPlusOne r \<noteq> 0 \<Longrightarrow> rEndPlusOne r = of_nat (length log + 1)"
  shows "sub_inv cap log r (sub_step r s)"
proof (cases "unat (sbFrom s) < 2 ^ 63")
  case False
  have "sbFrom (sub_step r s) = sbFrom s"
    by (auto simp: sub_step_def return_next_def split: sub_pc.split sum.split option.split)
  with False show ?thesis by (simp add: sub_inv_def)
next
  case True
  note m = mem_okD [OF assms(1)]
  have i: "tiles log (unat (sbFrom s)) (sbTrace s) = Some (unat (sbPos s))" "unat (sbPos s) < 2 ^ 63"
    "sbCursor s = sbPos s" "pc_ok cap log r (unat (sbPos s)) (sbPc s)"
    "EndOfStream \<in> set (sbTrace s) \<Longrightarrow> rEndPlusOne r \<noteq> 0 \<and> length log \<le> unat (sbPos s)"
    using assms(2) True by (auto simp: sub_inv_def)
  show ?thesis
  proof (cases "sbPc s")
    case (Reading t pc)
    then have t: "unat (sbPos s) \<le> unat t" "unat t < 2 ^ 63" "read_ok cap log r (unat t) pc"
      using i(4) by auto
    show ?thesis
      using next_step_ok [OF assms(1) t(2,1,3)] i Reading
      by (auto simp: sub_step_def sub_inv_def split: sum.splits option.splits prod.splits)
  next
    case (StoreCursor d n)
    then have d: "tile log (unat (sbPos s)) d = Some (unat n)" using i(4) by simp
    then have "unat (sbPos s) < unat n" "unat n \<le> length log"
      by (auto simp: tile_def Let_def split: if_splits)
    then show ?thesis
      using d i m(2) StoreCursor by (auto simp: sub_step_def sub_inv_def return_next_def tiles_append)
  next
    case CheckEnd
    have e: "length log \<le> unat (sbPos s) \<and> rEndPlusOne r \<noteq> 0" if "End r = Some e" "e \<le> sbPos s" for e
    proof -
      have v: "rEndPlusOne r \<noteq> 0" using that(1) by (auto simp: End_def Let_def split: if_splits)
      have "e = of_nat (length log + 1) - 1"
        using that(1) assms(3) [OF v] v by (auto simp: End_def Let_def split: if_splits)
      then have "e = of_nat (length log)" by simp
      then have "unat e = length log" using m(2) by simp
      with that(2) v show ?thesis by (simp add: word_le_nat_alt)
    qed
    then show ?thesis
      using i CheckEnd by (auto simp: sub_step_def sub_inv_def return_next_def tiles_append split: option.split)
  qed (use i in \<open>auto simp: sub_step_def sub_inv_def return_next_def tiles_append read_ok_def\<close>)
qed

lemma sub_step_block:
  assumes "mem_ok cap log w r" "sub_inv cap log r s" "length log + (if w then 1 else 0) \<le> hi" "block_inv cap hi s"
  shows "block_inv cap hi (sub_step r s)"
proof (cases "unat (sbFrom s) < 2 ^ 63")
  case False
  have "sbFrom (sub_step r s) = sbFrom s" "sbMode (sub_step r s) = sbMode s"
    by (auto simp: sub_step_def return_next_def split: sub_pc.split sum.split option.split)
  with False assms(4) show ?thesis by (simp add: block_inv_def)
next
  case True
  have i: "unat (sbPos s) < 2 ^ 63" "sbCursor s = sbPos s" "pc_ok cap log r (unat (sbPos s)) (sbPc s)"
    using assms(2) True by (auto simp: sub_inv_def)
  have b: "sbMode s = ModeBlock" "hi \<le> unat (sbPos s) + cap" "list_all gapless (sbTrace s)" "block_pc (sbPos s) (sbPc s)"
    using assms(4) True i(2) by (auto simp: block_inv_def)
  show ?thesis
  proof (cases "sbPc s")
    case (Reading t pc)
    then have t: "t = sbPos s" "read_ok cap log r (unat (sbPos s)) pc" using i(3) b(4) by auto
    show ?thesis
      using next_step_ok [OF assms(1) i(1) le_refl t(2)] b i Reading t assms(3)
      by (auto simp: sub_step_def block_inv_def split: sum.splits option.splits prod.splits)
  next
    case (StoreCursor d n)
    then have "unat (sbPos s) < unat n"
      using i(3) by (auto simp: tile_def Let_def split: if_splits)
    then show ?thesis
      using b i StoreCursor by (simp add: sub_step_def block_inv_def return_next_def)
  qed (use b i in \<open>auto simp: sub_step_def block_inv_def return_next_def split: option.split\<close>)
qed

end
