(* ===== verification/Fanout_System.thy ===== *)
theory Fanout_System
  imports Fanout_Delivery "HOL-Library.Sublist" "HOL-Library.Multiset"
begin

text \<open>
  The invariant of the fan-out: one predicate on the whole state, kept by every step of every goroutine.
  It is proved in the locale \<open>fan_source\<close>, which extends the contract of an event source by what the
  ring relies on, that a snapshot carries the payload its record announces.
\<close>

section \<open>The invariant\<close>

definition event_fits :: "Event \<Rightarrow> bool" where
  "event_fits ev \<longleftrightarrow> RecordType (evRecord ev) = RecordTypeSnapshotPointer \<longrightarrow>
     int (length (ev_payload ev)) = blob_length (evRecord ev)"

locale fan_source = event_source ok rest nxt
  for ok :: "'s \<Rightarrow> bool" and rest :: "'s \<Rightarrow> Event list"
    and nxt :: "'s \<Rightarrow> (merge_error + Event option) \<times> 's" +
  assumes rest_fits: "ok s \<Longrightarrow> list_all event_fits (rest s)"
begin

end

text \<open>The event in the emit loop's hands that is not in the log yet.\<close>

fun holding :: "emit_pc \<Rightarrow> Event list" where
  "holding (EmitWait ev) = [ev]"
| "holding (EmitWrite ev) = [ev]"
| "holding (BarrierScan ev n ks m since) = [ev]"
| "holding (BarrierStart ev n) = [ev]"
| "holding (BarrierControl ev n a b) = [ev]"
| "holding (BarrierWatch ev n a b) = [ev]"
| "holding (EvictScan ev n a b ks v) = [ev]"
| "holding (BarrierSlip ev n a) = [ev]"
| "holding (Writing ev n pc) = (if pc = StoreIndex \<or> pc = WriteDone then [] else [ev])"
| "holding pc = []"

definition hashed :: "emit_pc \<Rightarrow> Event list" where
  "hashed pc = (case pc of EmitWait ev \<Rightarrow> [] | _ \<Rightarrow> holding pc)"

primrec over :: "emit_pc \<Rightarrow> bool" where
  "over EmitInit = False" | "over EmitControl = False" | "over EmitNext = False" | "over (EmitWait ev) = False"
| "over (EmitWrite ev) = False" | "over (BarrierScan ev n ks m since) = False" | "over (BarrierStart ev n) = False"
| "over (BarrierControl ev n a b) = False" | "over (BarrierWatch ev n a b) = False"
| "over (EvictScan ev n a b ks v) = False" | "over (BarrierSlip ev n a) = False" | "over (Writing ev n pc) = False"
| "over EmitEnd = True" | "over EmitClose = True" | "over (EmitReturned e) = True"

text \<open>The log is what the source has handed out, up to the event in hand.\<close>

definition source_inv ::
  "('s \<Rightarrow> bool) \<Rightarrow> ('s \<Rightarrow> Event list) \<Rightarrow> bool \<Rightarrow> entry list \<Rightarrow> 's system \<Rightarrow> bool" where
  "source_inv ok rest paced stream s \<longleftrightarrow>
     prefix (sysLog s) stream
     \<and> (\<not> over (sysPc s) \<longrightarrow> ok (sysSource s)
          \<and> sysLog s @ map entry_of (holding (sysPc s) @ rest (sysSource s)) = stream
          \<and> list_all event_fits (holding (sysPc s)))
     \<and> (over (sysPc s) \<longrightarrow> \<not> paced \<longrightarrow> (\<forall>e. sysPc s \<noteq> EmitReturned (Some e)) \<longrightarrow> sysLog s = stream)"

definition hash_inv :: "CanonicalAlgo option \<Rightarrow> 's system \<Rightarrow> bool" where
  "hash_inv algo s \<longleftrightarrow> (\<forall>e. sysPc s \<noteq> EmitReturned (Some e)) \<longrightarrow>
     sysHash s = Option.bind algo
       (\<lambda>a. hasher_run (NewCanonicalHasher a) (sysLog s @ map entry_of (hashed (sysPc s))))"

definition barrier_ok :: "entry list \<Rightarrow> memory \<Rightarrow> Event \<Rightarrow> u64 \<Rightarrow> bool" where
  "barrier_ok log r ev n \<longleftrightarrow> n = of_nat (length log) \<and> entry_ok (rMaxBlob r) (entry_of ev)
     \<and> of_nat (Capacity r) \<le> n"

text \<open>What the emit loop knows: while it writes, how far; in the barrier, that every subscriber a scan
  has passed was at the minimum found or beyond.\<close>

fun emit_ok :: "nat \<Rightarrow> entry list \<Rightarrow> Ring \<Rightarrow> emit_pc \<Rightarrow> bool" where
  "emit_ok cap log r (Writing ev n pc) \<longleftrightarrow>
     write_ok cap log (unat n) (entry_of ev) (rMem r) pc \<and> entry_ok (rMaxBlob (rMem r)) (entry_of ev)"
| "emit_ok cap log r (BarrierScan ev n ks m since) \<longleftrightarrow> barrier_ok log (rMem r) ev n
     \<and> (\<forall>k \<in> set (rBlocking r) - set ks. unat (sbFrom (rSubs r ! k)) < 2 ^ 63 \<longrightarrow> m \<le> sbCursor (rSubs r ! k))"
| "emit_ok cap log r (BarrierStart ev n) \<longleftrightarrow> barrier_ok log (rMem r) ev n"
| "emit_ok cap log r (BarrierControl ev n a b) \<longleftrightarrow> barrier_ok log (rMem r) ev n"
| "emit_ok cap log r (BarrierWatch ev n a b) \<longleftrightarrow> barrier_ok log (rMem r) ev n"
| "emit_ok cap log r (EvictScan ev n a b ks v) \<longleftrightarrow> barrier_ok log (rMem r) ev n"
| "emit_ok cap log r (BarrierSlip ev n a) \<longleftrightarrow> barrier_ok log (rMem r) ev n
     \<and> (\<forall>k \<in> set (rBlocking r). block_inv cap (length log + 1) (rSubs r ! k))"
| "emit_ok cap log r pc \<longleftrightarrow> True"

fun writing :: "emit_pc \<Rightarrow> bool" where
  "writing (Writing ev n pc) = True"
| "writing pc = False"

definition memory_inv :: "nat \<Rightarrow> 's system \<Rightarrow> bool" where
  "memory_inv cap s \<longleftrightarrow> emit_ok cap (sysLog s) (sysRing s) (sysPc s)
     \<and> (\<not> writing (sysPc s) \<longrightarrow> mem_ok cap (sysLog s) False (rMem (sysRing s))
          \<and> rWriteSeq (rMem (sysRing s)) = of_nat (length (sysLog s)))
     \<and> (rEndPlusOne (rMem (sysRing s)) \<noteq> 0 \<longleftrightarrow> sysPc s = EmitClose \<or> sysPc s = EmitReturned None)
     \<and> (rEndPlusOne (rMem (sysRing s)) \<noteq> 0 \<longrightarrow>
          rEndPlusOne (rMem (sysRing s)) = of_nat (length (sysLog s) + 1))"

definition begun :: "'s system \<Rightarrow> nat" where
  "begun s = length (sysLog s) + (if writing (sysPc s) then length (holding (sysPc s)) else 0)"

definition subs_inv :: "nat \<Rightarrow> entry list \<Rightarrow> nat \<Rightarrow> Ring \<Rightarrow> bool" where
  "subs_inv cap log hi r \<longleftrightarrow> (\<forall>k < length (rSubs r). sub_inv cap log (rMem r) (rSubs r ! k))
     \<and> (\<forall>k \<in> set (rBlocking r). k < length (rSubs r) \<and> block_inv cap hi (rSubs r ! k))"

definition control_inv :: "emit_pc \<Rightarrow> Ring \<Rightarrow> bool" where
  "control_inv pc r \<longleftrightarrow> mset (map fst (rReplies r)) + mset (map fst (rCtrlPending r)) = mset [0..<rIssued r]
     \<and> (rCtrlStarted r \<longleftrightarrow> pc \<noteq> EmitInit) \<and> (rCtrlClosed r \<longleftrightarrow> pc = EmitReturned None)
     \<and> (rCtrlClosed r \<longrightarrow> rCtrlPending r = [])"

definition fan_inv ::
  "('s \<Rightarrow> bool) \<Rightarrow> ('s \<Rightarrow> Event list) \<Rightarrow> bool \<Rightarrow> CanonicalAlgo option \<Rightarrow> entry list \<Rightarrow> nat \<Rightarrow> 's system \<Rightarrow> bool" where
  "fan_inv ok rest paced algo stream cap s \<longleftrightarrow> source_inv ok rest paced stream s \<and> hash_inv algo s \<and> memory_inv cap s
     \<and> subs_inv cap (sysLog s) (begun s) (sysRing s) \<and> control_inv (sysPc s) (sysRing s)"

section \<open>The other goroutines\<close>

text \<open>The memory is in agreement with the log at every point of the emit loop.\<close>

lemma memory_inv_mem:
  assumes "memory_inv cap s"
  shows "\<exists>w. mem_ok cap (sysLog s) w (rMem (sysRing s)) \<and> length (sysLog s) + (if w then 1 else 0) \<le> begun s"
proof (cases "sysPc s")
  case (Writing ev n pc)
  then show ?thesis
    using assms by (cases pc) (auto simp: memory_inv_def begun_def intro: exI [of _ True] exI [of _ False])
qed (use assms in \<open>auto simp: memory_inv_def begun_def intro: exI [of _ False]\<close>)

text \<open>A step that changes one subscriber only.\<close>

lemma subs_inv_update:
  assumes "subs_inv cap log hi r" "k < length (rSubs r)" "sub_inv cap log (rMem r) (f (rSubs r ! k))"
    "block_inv cap hi (rSubs r ! k) \<Longrightarrow> block_inv cap hi (f (rSubs r ! k))"
  shows "subs_inv cap log hi (update_sub k f r)"
  using assms by (auto simp: subs_inv_def update_sub_def nth_list_update)

lemma emit_ok_update:
  assumes "emit_ok cap log r pc" "k < length (rSubs r)"
    "sbFrom (f (rSubs r ! k)) = sbFrom (rSubs r ! k)"
    "unat (sbFrom (rSubs r ! k)) < 2 ^ 63 \<Longrightarrow> sbCursor (rSubs r ! k) \<le> sbCursor (f (rSubs r ! k))"
    "block_inv cap (length log + 1) (rSubs r ! k) \<Longrightarrow> block_inv cap (length log + 1) (f (rSubs r ! k))"
  shows "emit_ok cap log (update_sub k f r) pc"
proof (cases pc)
  case (BarrierScan ev n ks m since)
  then show ?thesis
    using assms(1-4) by (fastforce simp: update_sub_def nth_list_update)
next
  case (BarrierSlip ev n a)
  then show ?thesis
    using assms(1,2) assms(5) by (auto simp: update_sub_def nth_list_update)
qed (use assms(1) in \<open>simp_all add: update_sub_def\<close>)

lemma on_ring_sel [simp]:
  "sysPc (on_ring f s) = sysPc s" "sysLog (on_ring f s) = sysLog s" "sysSource (on_ring f s) = sysSource s"
  "sysHash (on_ring f s) = sysHash s" "sysRing (on_ring f s) = f (sysRing s)"
  by (simp_all add: on_ring_def)

lemma on_ring_inv [simp]:
  "source_inv ok rest paced stream (on_ring f s) = source_inv ok rest paced stream s"
  "hash_inv algo (on_ring f s) = hash_inv algo s" "begun (on_ring f s) = begun s"
  by (simp_all add: source_inv_def hash_inv_def begun_def)

lemma update_sub_sel [simp]:
  "rMem (update_sub k f r) = rMem r" "rBlocking (update_sub k f r) = rBlocking r"
  "rReplies (update_sub k f r) = rReplies r" "rCtrlPending (update_sub k f r) = rCtrlPending r"
  "rIssued (update_sub k f r) = rIssued r" "rCtrlStarted (update_sub k f r) = rCtrlStarted r"
  "rCtrlClosed (update_sub k f r) = rCtrlClosed r" "length (rSubs (update_sub k f r)) = length (rSubs r)"
  by (simp_all add: update_sub_def)

lemma sub_step_frame: "sbFrom (sub_step r s) = sbFrom s"
  by (auto simp: sub_step_def return_next_def split: sub_pc.split sum.split option.split)

lemma sub_step_cursor:
  assumes "sub_inv cap log r s" "unat (sbFrom s) < 2 ^ 63"
  shows "sbCursor s \<le> sbCursor (sub_step r s)"
proof (cases "sbPc s")
  case (StoreCursor d n)
  then have "unat (sbCursor s) < unat n"
    using assms by (auto simp: sub_inv_def tile_def Let_def split: if_splits)
  then show ?thesis using StoreCursor by (simp add: sub_step_def return_next_def word_le_nat_alt)
qed (auto simp: sub_step_def return_next_def split: sum.split option.split)

text \<open>Source, digest and control queue do not depend on the subscribers.\<close>

lemma fan_inv_update_sub:
  assumes i: "fan_inv ok rest paced algo stream cap s" and k: "k < length (rSubs (sysRing s))"
    and f: "\<And>x. sbFrom (f x) = sbFrom x"
    and step: "\<And>w hi. mem_ok cap (sysLog s) w (rMem (sysRing s)) \<Longrightarrow>
        sub_inv cap (sysLog s) (rMem (sysRing s)) (rSubs (sysRing s) ! k) \<Longrightarrow>
        (rEndPlusOne (rMem (sysRing s)) \<noteq> 0 \<Longrightarrow> rEndPlusOne (rMem (sysRing s)) = of_nat (length (sysLog s) + 1)) \<Longrightarrow>
        length (sysLog s) + (if w then 1 else 0) \<le> hi \<Longrightarrow>
        sub_inv cap (sysLog s) (rMem (sysRing s)) (f (rSubs (sysRing s) ! k))
        \<and> (block_inv cap hi (rSubs (sysRing s) ! k) \<longrightarrow> block_inv cap hi (f (rSubs (sysRing s) ! k)))
        \<and> (unat (sbFrom (rSubs (sysRing s) ! k)) < 2 ^ 63 \<longrightarrow>
             sbCursor (rSubs (sysRing s) ! k) \<le> sbCursor (f (rSubs (sysRing s) ! k)))"
  shows "fan_inv ok rest paced algo stream cap (on_ring (update_sub k f) s)"
proof -
  let ?r = "sysRing s" and ?x = "rSubs (sysRing s) ! k"
  have m: "memory_inv cap s" and si: "subs_inv cap (sysLog s) (begun s) ?r"
    using i by (simp_all add: fan_inv_def)
  have sub: "sub_inv cap (sysLog s) (rMem ?r) ?x" using si k by (simp add: subs_inv_def)
  have e: "rEndPlusOne (rMem ?r) \<noteq> 0 \<Longrightarrow> rEndPlusOne (rMem ?r) = of_nat (length (sysLog s) + 1)"
    using m by (simp add: memory_inv_def)
  obtain w where w: "mem_ok cap (sysLog s) w (rMem ?r)" "length (sysLog s) + (if w then 1 else 0) \<le> begun s"
    using memory_inv_mem [OF m] by blast
  note st = step [OF w(1) sub e]
  have "subs_inv cap (sysLog s) (begun s) (update_sub k f ?r)"
    by (rule subs_inv_update [OF si k]) (use st [OF _ w(2)] in auto)
  moreover have "emit_ok cap (sysLog s) (update_sub k f ?r) (sysPc s)"
  proof (rule emit_ok_update [where f = f, OF _ k])
    show "sbFrom (f ?x) = sbFrom ?x" by (rule f)
    show "emit_ok cap (sysLog s) ?r (sysPc s)" using m by (simp add: memory_inv_def)
    show "sbCursor ?x \<le> sbCursor (f ?x)" if "unat (sbFrom ?x) < 2 ^ 63"
      using st [OF _ w(2)] that by simp
    show "block_inv cap (length (sysLog s) + 1) (f ?x)" if "block_inv cap (length (sysLog s) + 1) ?x"
      using st [of "length (sysLog s) + 1"] that by simp
  qed
  ultimately show ?thesis
    using i by (simp add: fan_inv_def memory_inv_def control_inv_def)
qed

lemma fan_inv_reads:
  assumes "fan_inv ok rest paced algo stream cap s" "k < length (rSubs (sysRing s))"
  shows "fan_inv ok rest paced algo stream cap (on_ring (read_sub k) s)"
proof -
  have "fan_inv ok rest paced algo stream cap (on_ring (update_sub k (sub_step (rMem (sysRing s)))) s)"
    by (rule fan_inv_update_sub [OF assms sub_step_frame])
      (blast intro: sub_step_inv sub_step_block sub_step_cursor)
  moreover have "on_ring (read_sub k) s = on_ring (update_sub k (sub_step (rMem (sysRing s)))) s"
    by (simp add: on_ring_def read_sub_def)
  ultimately show ?thesis by simp
qed

lemma fan_inv_cancels:
  assumes "fan_inv ok rest paced algo stream cap s" "k < length (rSubs (sysRing s))"
  shows "fan_inv ok rest paced algo stream cap (on_ring (update_sub k Cancel) s)"
  by (rule fan_inv_update_sub [OF assms]) (simp_all add: Cancel_def)

section \<open>Joining and leaving\<close>

definition same_control :: "Ring \<Rightarrow> Ring \<Rightarrow> bool" where
  "same_control r r' \<longleftrightarrow> rMem r' = rMem r \<and> rReplies r' = rReplies r \<and> rCtrlPending r' = rCtrlPending r
     \<and> rIssued r' = rIssued r \<and> rCtrlStarted r' = rCtrlStarted r \<and> rCtrlClosed r' = rCtrlClosed r"

lemma subscribeNow_frame: "same_control r (snd (subscribeNow mode start r))"
  by (auto simp: same_control_def subscribeNow_def Let_def split: sum.split)

lemma unsubscribeNow_frame:
  "same_control r (unsubscribeNow k r)" "rSubs (unsubscribeNow k r) = rSubs r"
  by (simp_all add: same_control_def unsubscribeNow_def)

lemma geom_cap_less: "geom cap r \<Longrightarrow> cap < 2 ^ 63"
proof -
  assume "geom cap r"
  then obtain m where m: "m < 63" "cap = 2 ^ m" by (auto simp: geom_def)
  have "(2 :: nat) ^ m < 2 ^ 63" using m(1) by (intro power_strict_increasing) simp_all
  then show ?thesis using m(2) by simp
qed

lemma Capacity_eq: "geom cap r \<Longrightarrow> Capacity r = cap"
proof -
  assume g: "geom cap r"
  then have "unat (rMask r) = cap - 1" using geom_cap_less [OF g] by (simp add: geom_def)
  then show ?thesis using geom_pos [OF g] by (simp add: Capacity_def)
qed

lemma oldestIndex_eq:
  assumes "mem_ok cap log w r" "rWriteSeq r = of_nat (length log)"
  shows "unat (oldestIndex r) = length log - cap"
proof -
  note m = mem_okD [OF assms(1)]
  have c: "unat (of_nat cap :: u64) = cap" "unat (of_nat (length log) :: u64) = length log"
    using geom_cap_less [OF m(1)] m(2) by simp_all
  show ?thesis
    using c by (auto simp: oldestIndex_def Let_def assms(2) Capacity_eq [OF m(1)] word_less_nat_alt unat_sub
        word_le_nat_alt)
qed

lemma subs_inv_subscribeNow:
  assumes "subs_inv cap log (length log) r" "mem_ok cap log False (rMem r)"
    "rWriteSeq (rMem r) = of_nat (length log)"
  shows "subs_inv cap log (length log) (snd (subscribeNow mode start r))"
proof (cases "resolve_start (rMem r) start")
  case (Inr c)
  note m = mem_okD [OF assms(2)]
  show ?thesis
  proof (cases "mode = ModeBlock \<and> saKind start \<noteq> startLive \<and> c < oldestIndex (rMem r)")
    case False
    have near: "length log \<le> unat c + cap" if "mode = ModeBlock"
    proof (cases "saKind start = startLive")
      case True
      then have "c = of_nat (length log)" using Inr assms(3) by (simp add: resolve_start_def)
      then have "unat c = length log" using m(2) by simp
      then show ?thesis by simp
    next
      case live: False
      then have "oldestIndex (rMem r) \<le> c" using False that by auto
      then show ?thesis using oldestIndex_eq [OF assms(2,3)] by (simp add: word_le_nat_alt)
    qed
    then have b: "block_inv cap (length log) (new_subscriber mode start c)" if "mode = ModeBlock"
      using that by (simp add: block_inv_def new_subscriber_def)
    have old: "k < length (rSubs r) \<Longrightarrow> sub_inv cap log (rMem r) (rSubs r ! k)"
      "k \<in> set (rBlocking r) \<Longrightarrow> k < length (rSubs r) \<and> block_inv cap (length log) (rSubs r ! k)" for k
      using assms(1) by (simp_all add: subs_inv_def)
    show ?thesis
      using Inr False old b sub_inv_new by (auto simp: subscribeNow_def Let_def subs_inv_def nth_append less_Suc_eq)
  qed (use assms(1) Inr in \<open>simp add: subscribeNow_def\<close>)
qed (use assms(1) in \<open>simp add: subscribeNow_def\<close>)

lemma subs_inv_unsubscribeNow: "subs_inv cap log hi r \<Longrightarrow> subs_inv cap log hi (unsubscribeNow k r)"
  using set_remove1_subset [of k "rBlocking r"] by (auto simp: subs_inv_def unsubscribeNow_def)

text \<open>What the barrier's position requires of the ring, under a change of the subscribers only.\<close>

definition quiet :: "nat \<Rightarrow> entry list \<Rightarrow> Ring \<Rightarrow> bool" where
  "quiet cap log r \<longleftrightarrow> mem_ok cap log False (rMem r) \<and> rWriteSeq (rMem r) = of_nat (length log)
     \<and> subs_inv cap log (length log) r"

lemma quiet_reply [simp]: "quiet cap log (reply c v r) = quiet cap log r"
  by (simp add: quiet_def reply_def subs_inv_def)

lemma apply_one_quiet:
  assumes "quiet cap log r"
  shows "quiet cap log (apply_one x r) \<and> rMem (apply_one x r) = rMem r
    \<and> rCtrlPending (apply_one x r) = rCtrlPending r \<and> rIssued (apply_one x r) = rIssued r
    \<and> rCtrlStarted (apply_one x r) = rCtrlStarted r \<and> rCtrlClosed (apply_one x r) = rCtrlClosed r
    \<and> map fst (rReplies (apply_one x r)) = map fst (rReplies r) @ [fst x]"
proof (cases "(x, r)" rule: apply_one.cases)
  case (1 c mode start r')
  obtain res r1 where s: "subscribeNow mode start r = (res, r1)" by fastforce
  have f: "same_control r r1" using subscribeNow_frame [of r mode start] s by simp
  moreover have "subs_inv cap log (length log) r1"
    using subs_inv_subscribeNow [of cap log r mode start] assms s by (simp add: quiet_def)
  ultimately show ?thesis
    using 1 s assms by (simp add: same_control_def quiet_def reply_def subs_inv_def)
next
  case (2 c k r')
  then show ?thesis
    using assms unsubscribeNow_frame(1) [of r k] subs_inv_unsubscribeNow [of cap log "length log" r k]
    by (auto simp: quiet_def same_control_def reply_def subs_inv_def)
qed

lemma fold_apply_one_quiet:
  assumes "quiet cap log r"
  shows "quiet cap log (fold apply_one xs r) \<and> rMem (fold apply_one xs r) = rMem r
    \<and> rCtrlPending (fold apply_one xs r) = rCtrlPending r \<and> rIssued (fold apply_one xs r) = rIssued r
    \<and> rCtrlStarted (fold apply_one xs r) = rCtrlStarted r \<and> rCtrlClosed (fold apply_one xs r) = rCtrlClosed r
    \<and> map fst (rReplies (fold apply_one xs r)) = map fst (rReplies r) @ map fst xs"
  using assms
proof (induction xs arbitrary: r)
  case (Cons x xs)
  then show ?case using apply_one_quiet [OF Cons.prems, of x] Cons.IH [of "apply_one x r"] by simp
qed simp

lemma applyControl_quiet:
  assumes "quiet cap log r"
  shows "quiet cap log (applyControl r)" "rMem (applyControl r) = rMem r" "rCtrlPending (applyControl r) = []"
    "rIssued (applyControl r) = rIssued r" "rCtrlStarted (applyControl r) = rCtrlStarted r"
    "rCtrlClosed (applyControl r) = rCtrlClosed r"
    "map fst (rReplies (applyControl r)) = map fst (rReplies r) @ map fst (rCtrlPending r)"
proof -
  have "quiet cap log (r\<lparr>rCtrlPending := []\<rparr>)"
    using assms by (simp add: quiet_def subs_inv_def)
  from fold_apply_one_quiet [OF this, of "rCtrlPending r"]
  show "quiet cap log (applyControl r)" "rMem (applyControl r) = rMem r" "rCtrlPending (applyControl r) = []"
    "rIssued (applyControl r) = rIssued r" "rCtrlStarted (applyControl r) = rCtrlStarted r"
    "rCtrlClosed (applyControl r) = rCtrlClosed r"
    "map fst (rReplies (applyControl r)) = map fst (rReplies r) @ map fst (rCtrlPending r)"
    by (simp_all add: applyControl_def)
qed

lemma closeControl_eq:
  "closeControl r = r\<lparr>rCtrlClosed := True, rCtrlPending := [], rReplies := rReplies (closeControl r)\<rparr>
   \<and> map fst (rReplies (closeControl r)) = map fst (rReplies r) @ map fst (rCtrlPending r)"
proof -
  have one: "close_one x r = r\<lparr>rReplies := rReplies (close_one x r)\<rparr>
      \<and> map fst (rReplies (close_one x r)) = map fst (rReplies r) @ [fst x]" for x r
    by (cases "(x, r)" rule: close_one.cases) (simp_all add: reply_def)
  have "fold close_one xs r = r\<lparr>rReplies := rReplies (fold close_one xs r)\<rparr>
      \<and> map fst (rReplies (fold close_one xs r)) = map fst (rReplies r) @ map fst xs" for xs r
  proof (induction xs arbitrary: r)
    case (Cons x xs)
    obtain v where v: "close_one x r = r\<lparr>rReplies := v\<rparr>" "map fst v = map fst (rReplies r) @ [fst x]"
      using one [of x r] by metis
    obtain u where u: "fold close_one xs (r\<lparr>rReplies := v\<rparr>) = r\<lparr>rReplies := v\<rparr>\<lparr>rReplies := u\<rparr>"
        "map fst u = map fst v @ map fst xs"
      using Cons.IH [of "r\<lparr>rReplies := v\<rparr>"] by (metis Ring.select_convs(7) Ring.surjective Ring.update_convs(7))
    show ?case using v u by simp
  qed simp
  from this [of "rCtrlPending r" "r\<lparr>rCtrlClosed := True, rCtrlPending := []\<rparr>"]
  show ?thesis by (simp add: closeControl_def)
qed

lemma fan_inv_parts:
  assumes "fan_inv ok rest paced algo stream cap s"
  shows "source_inv ok rest paced stream s" "hash_inv algo s" "memory_inv cap s"
    "subs_inv cap (sysLog s) (begun s) (sysRing s)" "control_inv (sysPc s) (sysRing s)"
  using assms by (simp_all add: fan_inv_def)

lemma fan_quiet:
  assumes "fan_inv ok rest paced algo stream cap s" "\<not> writing (sysPc s)"
  shows "quiet cap (sysLog s) (sysRing s)"
  using fan_inv_parts [OF assms(1)] assms(2) by (simp add: memory_inv_def begun_def quiet_def)

lemma on_ring_id: "f (sysRing s) = sysRing s \<Longrightarrow> on_ring f s = s"
  by (simp add: on_ring_def)

text \<open>Before the loop starts, the subscribers may change freely.\<close>

lemma fan_inv_before:
  assumes i: "fan_inv ok rest paced algo stream cap s" and pc: "sysPc s = EmitInit"
    and f: "same_control (sysRing s) (f (sysRing s))" "subs_inv cap (sysLog s) (length (sysLog s)) (f (sysRing s))"
  shows "fan_inv ok rest paced algo stream cap (on_ring f s)"
  using fan_inv_parts [OF i] pc f
  by (simp add: fan_inv_def memory_inv_def control_inv_def same_control_def begun_def)

lemma fan_inv_enqueue:
  assumes i: "fan_inv ok rest paced algo stream cap s"
    and "rCtrlStarted (sysRing s)" "\<not> rCtrlClosed (sysRing s)"
  shows "fan_inv ok rest paced algo stream cap (on_ring (\<lambda>r. snd (enqueue req r)) s)"
proof -
  let ?r = "snd (enqueue req (sysRing s))"
  have f: "rMem ?r = rMem (sysRing s)" "rSubs ?r = rSubs (sysRing s)" "rBlocking ?r = rBlocking (sysRing s)"
    by (simp_all add: enqueue_def)
  have "emit_ok cap (sysLog s) ?r (sysPc s) = emit_ok cap (sysLog s) (sysRing s) (sysPc s)"
    by (cases "sysPc s") (simp_all add: f)
  moreover have "control_inv (sysPc s) ?r"
    using fan_inv_parts(5) [OF i] assms(2,3) by (simp add: control_inv_def enqueue_def)
  ultimately show ?thesis
    using fan_inv_parts [OF i] f by (simp add: fan_inv_def memory_inv_def subs_inv_def)
qed

lemma snd_case: "snd (case p of (a, b) \<Rightarrow> (f a, b)) = snd p"
  by (cases p) simp

lemma Subscribe_ring:
  "snd (Subscribe mode start r) = r
   \<or> rCtrlStarted r \<and> \<not> rCtrlClosed r \<and> snd (Subscribe mode start r) = snd (enqueue (controlSubscribe mode start) r)
   \<or> \<not> rCtrlStarted r \<and> snd (Subscribe mode start r) = snd (subscribeNow mode start r)"
  by (simp add: Subscribe_def snd_case)

lemma Unsubscribe_ring:
  "snd (Unsubscribe k r) = r
   \<or> rCtrlStarted r \<and> \<not> rCtrlClosed r \<and> snd (Unsubscribe k r) = snd (enqueue (controlUnsubscribe k) r)
   \<or> \<not> rCtrlStarted r \<and> snd (Unsubscribe k r) = unsubscribeNow k r"
  by (simp add: Unsubscribe_def snd_case)

lemma fan_inv_subscribes:
  assumes i: "fan_inv ok rest paced algo stream cap s"
  shows "fan_inv ok rest paced algo stream cap (on_ring (\<lambda>r. snd (Subscribe mode start r)) s)"
proof -
  let ?r = "sysRing s"
  consider "snd (Subscribe mode start ?r) = ?r"
    | "rCtrlStarted ?r" "\<not> rCtrlClosed ?r"
      "snd (Subscribe mode start ?r) = snd (enqueue (controlSubscribe mode start) ?r)"
    | "\<not> rCtrlStarted ?r" "snd (Subscribe mode start ?r) = snd (subscribeNow mode start ?r)"
    using Subscribe_ring [of mode start ?r] by blast
  then show ?thesis
  proof cases
    case 1
    then show ?thesis using i by (simp add: on_ring_id)
  next
    case 2
    then show ?thesis using fan_inv_enqueue [OF i 2(1,2), of "controlSubscribe mode start"] by (simp add: on_ring_def)
  next
    case 3
    then have pc: "sysPc s = EmitInit" using fan_inv_parts(5) [OF i] by (simp add: control_inv_def)
    then have "quiet cap (sysLog s) ?r" by (intro fan_quiet [OF i]) simp
    then show ?thesis
      using 3 subs_inv_subscribeNow [of cap "sysLog s" ?r mode start] subscribeNow_frame [of ?r mode start]
      by (intro fan_inv_before [OF i pc]) (simp_all add: quiet_def)
  qed
qed

lemma fan_inv_unsubscribes:
  assumes i: "fan_inv ok rest paced algo stream cap s"
  shows "fan_inv ok rest paced algo stream cap (on_ring (\<lambda>r. snd (Unsubscribe k r)) s)"
proof -
  let ?r = "sysRing s"
  consider "snd (Unsubscribe k ?r) = ?r"
    | "rCtrlStarted ?r" "\<not> rCtrlClosed ?r" "snd (Unsubscribe k ?r) = snd (enqueue (controlUnsubscribe k) ?r)"
    | "\<not> rCtrlStarted ?r" "snd (Unsubscribe k ?r) = unsubscribeNow k ?r"
    using Unsubscribe_ring [of k ?r] by blast
  then show ?thesis
  proof cases
    case 1
    then show ?thesis using i by (simp add: on_ring_id)
  next
    case 2
    then show ?thesis using fan_inv_enqueue [OF i 2(1,2), of "controlUnsubscribe k"] by (simp add: on_ring_def)
  next
    case 3
    then have pc: "sysPc s = EmitInit" using fan_inv_parts(5) [OF i] by (simp add: control_inv_def)
    then have "quiet cap (sysLog s) ?r" by (intro fan_quiet [OF i]) simp
    then show ?thesis
      using 3 subs_inv_unsubscribeNow [of cap "sysLog s" "length (sysLog s)" ?r k] unsubscribeNow_frame(1) [of ?r k]
      by (intro fan_inv_before [OF i pc]) (simp_all add: quiet_def)
  qed
qed

section \<open>The emit loop\<close>

lemma goto_sel [simp]:
  "sysPc (goto pc s) = pc" "sysLog (goto pc s) = sysLog s" "sysSource (goto pc s) = sysSource s"
  "sysHash (goto pc s) = sysHash s" "sysRing (goto pc s) = sysRing s"
  by (simp_all add: goto_def)

lemma set_mem_sel [simp]:
  "sysPc (set_mem r s) = sysPc s" "sysLog (set_mem r s) = sysLog s" "sysSource (set_mem r s) = sysSource s"
  "sysHash (set_mem r s) = sysHash s" "sysRing (set_mem r s) = (sysRing s)\<lparr>rMem := r\<rparr>"
  by (simp_all add: set_mem_def)

text \<open>A step inside the loop that writes nothing and keeps the event in hand.\<close>

lemma fan_inv_move:
  assumes i: "fan_inv ok rest paced algo stream cap s"
    and pc: "\<not> writing (sysPc s)" "\<not> over (sysPc s)" "\<not> writing pc" "\<not> over pc" "pc \<noteq> EmitInit"
    and same: "holding pc = holding (sysPc s)" "hashed pc = hashed (sysPc s)"
    and r: "quiet cap (sysLog s) (f (sysRing s))" "rMem (f (sysRing s)) = rMem (sysRing s)"
    and c: "control_inv pc (f (sysRing s))" and e: "emit_ok cap (sysLog s) (f (sysRing s)) pc"
  shows "fan_inv ok rest paced algo stream cap (goto pc (on_ring f s))"
proof -
  note p = fan_inv_parts [OF i]
  have "sysPc s \<noteq> EmitReturned x" "sysPc s \<noteq> EmitClose" "pc \<noteq> EmitReturned x" for x
    using pc(2,4) by auto
  then show ?thesis
    using p pc same r c e
    by (auto simp: fan_inv_def source_inv_def hash_inv_def memory_inv_def begun_def quiet_def)
qed

lemma control_inv_move:
  assumes "control_inv pc r" "pc \<noteq> EmitInit" "pc' \<noteq> EmitInit" "pc \<noteq> EmitReturned None" "pc' \<noteq> EmitReturned None"
    "mset (map fst (rReplies r')) + mset (map fst (rCtrlPending r')) = mset (map fst (rReplies r)) + mset (map fst (rCtrlPending r))"
    "rIssued r' = rIssued r" "rCtrlStarted r' = rCtrlStarted r" "rCtrlClosed r' = rCtrlClosed r"
  shows "control_inv pc' r'"
  using assms by (auto simp: control_inv_def)

lemma fan_inv_goto:
  assumes i: "fan_inv ok rest paced algo stream cap s"
    and pc: "\<not> writing (sysPc s)" "\<not> over (sysPc s)" "\<not> writing pc" "\<not> over pc" "pc \<noteq> EmitInit" "sysPc s \<noteq> EmitInit"
    and same: "holding pc = holding (sysPc s)" "hashed pc = hashed (sysPc s)"
    and e: "emit_ok cap (sysLog s) (sysRing s) pc"
  shows "fan_inv ok rest paced algo stream cap (goto pc s)"
proof -
  have "fan_inv ok rest paced algo stream cap (goto pc (on_ring (\<lambda>r. r) s))"
  proof (rule fan_inv_move [OF i pc(1-5) same])
    show "control_inv pc (sysRing s)"
      by (rule control_inv_move [OF fan_inv_parts(5) [OF i]]) (use pc in auto)
  qed (use fan_quiet [OF i pc(1)] e in auto)
  then show ?thesis by (simp add: on_ring_id)
qed

lemma fan_inv_apply:
  assumes i: "fan_inv ok rest paced algo stream cap s"
    and pc: "\<not> writing (sysPc s)" "\<not> over (sysPc s)" "\<not> writing pc" "\<not> over pc" "pc \<noteq> EmitInit" "sysPc s \<noteq> EmitInit"
    and same: "holding pc = holding (sysPc s)" "hashed pc = hashed (sysPc s)"
    and e: "emit_ok cap (sysLog s) (applyControl (sysRing s)) pc"
  shows "fan_inv ok rest paced algo stream cap (goto pc (on_ring applyControl s))"
proof (rule fan_inv_move [where f = applyControl, OF i pc(1-5) same _ _ _ e])
  note q = applyControl_quiet [OF fan_quiet [OF i pc(1)]]
  show "quiet cap (sysLog s) (applyControl (sysRing s))" "rMem (applyControl (sysRing s)) = rMem (sysRing s)"
    by (rule q)+
  show "control_inv pc (applyControl (sysRing s))"
    by (rule control_inv_move [OF fan_inv_parts(5) [OF i]]) (use pc q in auto)
qed

end
