(* ===== verification/Fanout_Loop.thy ===== *)
theory Fanout_Loop
  imports Fanout_System
begin

text \<open>
  Every step of the emit loop keeps the invariant: the barrier, the stores of a write, the calls of the
  merger and the end of the stream. With the steps of the other goroutines this makes \<open>fan_inv\<close> an
  invariant of the program, and the properties of the fan-out its consequences.
\<close>

section \<open>The barrier\<close>

lemma block_inv_raise:
  "block_inv cap hi x \<Longrightarrow> (unat (sbFrom x) < 2 ^ 63 \<Longrightarrow> hi' \<le> unat (sbCursor x) + cap) \<Longrightarrow> block_inv cap hi' x"
  by (simp add: block_inv_def)

text \<open>A scan that found more than the threshold has shown that nobody is a lap behind.\<close>

lemma scan_passed:
  fixes m n c :: u64
  assumes "mem_ok cap log w r" "n = of_nat (length log)" "of_nat (Capacity r) \<le> n" "m > n - of_nat (Capacity r)"
    "m \<le> c"
  shows "length log + 1 \<le> unat c + cap"
proof -
  note mo = mem_okD [OF assms(1)]
  have c: "unat (of_nat cap :: u64) = cap" "unat n = length log"
    using geom_cap_less [OF mo(1)] mo(2) assms(2) by simp_all
  have "unat (n - of_nat cap) = length log - cap" "cap \<le> length log"
    using assms(3) c by (simp_all add: unat_sub Capacity_eq [OF mo(1)] word_le_nat_alt)
  moreover have "unat (n - of_nat cap) < unat c"
    using assms(4,5) by (simp add: Capacity_eq [OF mo(1)] word_less_nat_alt word_le_nat_alt)
  ultimately show ?thesis by simp
qed

lemma fan_inv_scan_one:
  assumes i: "fan_inv ok rest paced algo stream cap s" and pc: "sysPc s = BarrierScan ev n (k # ks) m since"
  shows "fan_inv ok rest paced algo stream cap
    (goto (BarrierScan ev n ks (min_cursor (sub_Cursor (rSubs (sysRing s) ! k)) m) since) s)"
  using fan_inv_parts(3) [OF i] pc
  by (intro fan_inv_goto [OF i]) (fastforce simp: hashed_def memory_inv_def min_cursor_def sub_Cursor_def)+

lemma barrier_of:
  assumes "fan_inv ok rest paced algo stream cap s" "emit_ok cap (sysLog s) (sysRing s) (sysPc s)
      \<Longrightarrow> barrier_ok (sysLog s) (rMem (sysRing s)) ev n"
  shows "barrier_ok (sysLog s) (rMem (sysRing s)) ev n"
  using assms fan_inv_parts(3) [OF assms(1)] by (simp add: memory_inv_def)

lemma fan_inv_start_scan:
  assumes i: "fan_inv ok rest paced algo stream cap s"
    and pc: "\<not> writing (sysPc s)" "\<not> over (sysPc s)" "sysPc s \<noteq> EmitInit" "holding (sysPc s) = [ev]" "hashed (sysPc s) = [ev]"
    and b: "barrier_ok (sysLog s) (rMem (sysRing s)) ev n"
  shows "fan_inv ok rest paced algo stream cap (start_scan ev n since s)"
  unfolding start_scan_def using pc b by (intro fan_inv_goto [OF i]) (simp_all add: hashed_def)

text \<open>Past the barrier: the entry is begun.\<close>

lemma fan_inv_start_write:
  assumes i: "fan_inv ok rest paced algo stream cap s"
    and pc: "\<not> writing (sysPc s)" "\<not> over (sysPc s)" "sysPc s \<noteq> EmitInit" "holding (sysPc s) = [ev]" "hashed (sysPc s) = [ev]"
    and n: "n = of_nat (length (sysLog s))" "entry_ok (rMaxBlob (rMem (sysRing s))) (entry_of ev)"
    and b: "\<And>k. k \<in> set (rBlocking (sysRing s)) \<Longrightarrow> block_inv cap (length (sysLog s) + 1) (rSubs (sysRing s) ! k)"
    and f: "same_control (sysRing s) (f (sysRing s))" "rSubs (f (sysRing s)) = rSubs (sysRing s)"
      "rBlocking (f (sysRing s)) = rBlocking (sysRing s)"
  shows "fan_inv ok rest paced algo stream cap (goto (Writing ev n StoreEven) (on_ring f s))"
proof -
  note p = fan_inv_parts [OF i]
  have q: "mem_ok cap (sysLog s) False (rMem (sysRing s))" "rWriteSeq (rMem (sysRing s)) = of_nat (length (sysLog s))"
    using p(3) pc(1) by (simp_all add: memory_inv_def)
  have un: "unat n = length (sysLog s)" using n(1) mem_okD(2) [OF q(1)] by simp
  have "sysPc s \<noteq> EmitReturned x" "sysPc s \<noteq> EmitClose" for x using pc(2) by auto
  moreover have "subs_inv cap (sysLog s) (length (sysLog s) + 1) (f (sysRing s))"
    using p(4) b f by (simp add: subs_inv_def same_control_def)
  ultimately show ?thesis
    using p pc n q un f
    by (auto simp: fan_inv_def source_inv_def hash_inv_def hashed_def memory_inv_def begun_def control_inv_def
        same_control_def)
qed

lemma fan_inv_scanned:
  assumes i: "fan_inv ok rest paced algo stream cap s" and pc: "sysPc s = BarrierScan ev n [] m since"
  shows "fan_inv ok rest paced algo stream cap (scanned ev n m since s)"
proof -
  let ?r = "sysRing s"
  note p = fan_inv_parts [OF i]
  have q: "mem_ok cap (sysLog s) False (rMem ?r)" and b: "barrier_ok (sysLog s) (rMem ?r) ev n"
    and m: "\<And>k. k \<in> set (rBlocking ?r) \<Longrightarrow> unat (sbFrom (rSubs ?r ! k)) < 2 ^ 63 \<Longrightarrow> m \<le> sbCursor (rSubs ?r ! k)"
    using p(3) pc by (simp_all add: memory_inv_def)
  have past: "block_inv cap (length (sysLog s) + 1) (rSubs ?r ! k)"
    if "m > n - of_nat (Capacity (rMem ?r))" "k \<in> set (rBlocking ?r)" for k
  proof (rule block_inv_raise)
    show "block_inv cap (length (sysLog s)) (rSubs ?r ! k)"
      using p(4) that(2) pc by (simp add: subs_inv_def begun_def)
    show "length (sysLog s) + 1 \<le> unat (sbCursor (rSubs ?r ! k)) + cap" if "unat (sbFrom (rSubs ?r ! k)) < 2 ^ 63"
      using scan_passed [OF q _ _ \<open>m > n - of_nat (Capacity (rMem ?r))\<close> m [OF \<open>k \<in> set (rBlocking ?r)\<close> that]] b
      by (auto simp: barrier_ok_def)
  qed
  have w: "fan_inv ok rest paced algo stream cap (goto (Writing ev n StoreEven) s)"
    if "m > n - of_nat (Capacity (rMem ?r))"
  proof -
    have "fan_inv ok rest paced algo stream cap (goto (Writing ev n StoreEven) (on_ring (\<lambda>r. r) s))"
      by (rule fan_inv_start_write [OF i]) (use pc b past [OF that] in \<open>simp_all add: hashed_def barrier_ok_def same_control_def\<close>)
    then show ?thesis by (simp add: on_ring_id)
  qed
  have "fan_inv ok rest paced algo stream cap (goto (BarrierStart ev n) s)"
    "fan_inv ok rest paced algo stream cap (goto (BarrierControl ev n a t) s)" for a t
    using pc b by (intro fan_inv_goto [OF i]; simp add: hashed_def)+
  moreover have "fan_inv ok rest paced algo stream cap (goto (BarrierSlip ev n a) s)"
    if "m > n - of_nat (Capacity (rMem ?r))" for a
    using pc b past [OF that] by (intro fan_inv_goto [OF i]) (simp_all add: hashed_def)
  ultimately show ?thesis
    using w by (auto simp: scanned_def Let_def split: option.split)
qed

lemma evict_frame: "same_control r (evict v r)"
  by (auto simp: evict_def same_control_def unsubscribeNow_def split: option.split)

lemma subs_inv_evict:
  assumes "subs_inv cap log hi r"
  shows "subs_inv cap log hi (evict v r)"
proof (cases v)
  case (Some k)
  have "subs_inv cap log hi (r\<lparr>rSubs := (rSubs r)[k := (rSubs r ! k)\<lparr>sbEvicted := True\<rparr>]\<rparr>)"
    using assms by (auto simp: subs_inv_def nth_update_cases)
  then show ?thesis
    using Some subs_inv_unsubscribeNow by (simp add: evict_def)
qed (use assms in \<open>simp add: evict_def\<close>)

lemma fan_inv_evict:
  assumes i: "fan_inv ok rest paced algo stream cap s" and pc: "sysPc s = EvictScan ev n a t [] v"
  shows "fan_inv ok rest paced algo stream cap (start_scan ev n since (on_ring (evict x) s))"
proof -
  have q: "quiet cap (sysLog s) (sysRing s)" by (rule fan_quiet [OF i]) (simp add: pc)
  have b: "barrier_ok (sysLog s) (rMem (sysRing s)) ev n"
    using fan_inv_parts(3) [OF i] pc by (simp add: memory_inv_def)
  have f: "same_control (sysRing s) (evict x (sysRing s))" by (rule evict_frame)
  have "fan_inv ok rest paced algo stream cap
      (goto (BarrierScan ev n (rBlocking (evict x (sysRing s))) (- 1) since) (on_ring (evict x) s))"
  proof (rule fan_inv_move [where f = "evict x", OF i])
    show "quiet cap (sysLog s) (evict x (sysRing s))"
      using q f subs_inv_evict by (simp add: quiet_def same_control_def)
    show "control_inv (BarrierScan ev n (rBlocking (evict x (sysRing s))) (- 1) since) (evict x (sysRing s))"
      by (rule control_inv_move [OF fan_inv_parts(5) [OF i]]) (use pc f in \<open>auto simp: same_control_def\<close>)
  qed (use pc b f in \<open>simp_all add: hashed_def same_control_def\<close>)
  then show ?thesis by (simp add: start_scan_def)
qed

section \<open>The stores of a write\<close>

lemma write_step_frame:
  assumes "write_step n rec blob pc r = (pc', r')"
  shows "rMaxBlob r' = rMaxBlob r" "rEndPlusOne r' = rEndPlusOne r"
  using assms by (cases pc; auto)+

lemma stream_bound:
  assumes "fan_inv ok rest paced algo stream cap s" "Suc (length stream) < 2 ^ 63"
  shows "length (sysLog s) \<le> length stream"
  using fan_inv_parts(1) [OF assms(1)] by (simp add: source_inv_def prefix_length_le)

lemma write_ok_index: "write_ok cap log n e r pc \<Longrightarrow> n \<le> length log"
  by (cases pc) auto

lemma write_ok_done: "write_ok cap log n e r WriteDone \<Longrightarrow> mem_ok cap log False r \<and> rWriteSeq r = of_nat (length log)"
  by (auto simp del: of_nat_Suc)

lemma fan_inv_store:
  assumes i: "fan_inv ok rest paced algo stream cap s" and b: "Suc (length stream) < 2 ^ 63"
    and pc: "sysPc s = Writing ev n pc" "pc \<noteq> WriteDone"
    and st: "write_step n (evRecord ev) (ev_payload ev) pc (rMem (sysRing s)) = (pc', r')"
  shows "fan_inv ok rest paced algo stream cap
    (goto (Writing ev n pc') (set_mem r' (s\<lparr>sysLog := log_after pc (sysLog s) (entry_of ev)\<rparr>)))"
proof -
  let ?log = "sysLog s" and ?e = "entry_of ev" and ?r = "rMem (sysRing s)"
  let ?log' = "log_after pc (sysLog s) (entry_of ev)"
  note p = fan_inv_parts [OF i]
  have w: "write_ok cap ?log (unat n) ?e ?r pc" "entry_ok (rMaxBlob ?r) ?e"
    using p(3) pc(1) by (simp_all add: memory_inv_def)
  have lim: "Suc (unat n) < 2 ^ 63"
    using write_ok_index [OF w(1)] stream_bound [OF i b] b by simp
  have st': "write_step (of_nat (unat n)) (fst ?e) (snd ?e) pc ?r = (pc', r')"
    using st by (simp add: entry_of_def)
  have w': "write_ok cap ?log' (unat n) ?e r' pc'"
    by (rule write_step_ok [OF w(1) lim w(2) st'])
  note f = write_step_frame [OF st]
  have mono: "seq_of ?r j \<le> seq_of r' j" if "j < cap" for j
    by (rule write_step_mono [OF w(1) lim that st'])
  have noend: "rEndPlusOne ?r = 0" using p(3) pc(1) by (auto simp: memory_inv_def)
  have new: "?log' = ?log @ (if pc = StoreOdd then [?e] else [])" by (simp add: log_after_def)
  have pos: "0 < cap" using write_ok_mem [OF w(1)] mem_okD(4) by blast
  have sub: "sub_inv cap ?log' r' x" if "sub_inv cap ?log ?r x" for x
    by (rule sub_inv_mono [OF that mono f(1) new pos]) (use noend in auto)
  have hold: "?log @ map entry_of (holding (sysPc s)) = ?log' @ map entry_of (holding (Writing ev n pc'))"
    using pc st by (cases pc) (auto simp: log_after_def record_pc_def writeBlob_pc_def split: if_splits)
  have len: "length ?log + length (holding (sysPc s)) = length ?log' + length (holding (Writing ev n pc'))"
    using arg_cong [OF hold, of length] by simp
  have hi: "begun (goto (Writing ev n pc') (set_mem r' (s\<lparr>sysLog := ?log'\<rparr>))) = begun s"
    using len pc(1) by (simp add: begun_def)
  have src: "source_inv ok rest paced stream (goto (Writing ev n pc') (set_mem r' (s\<lparr>sysLog := ?log'\<rparr>)))"
  proof -
    have h: "ok (sysSource s)" "?log @ map entry_of (holding (sysPc s) @ rest (sysSource s)) = stream"
      "list_all event_fits (holding (sysPc s))"
      using p(1) pc(1) by (simp_all add: source_inv_def)
    then have eq: "?log' @ map entry_of (holding (Writing ev n pc') @ rest (sysSource s)) = stream"
      using hold by (metis append_assoc map_append)
    then have "prefix ?log' stream" by (metis prefixI)
    moreover have "list_all event_fits (holding (Writing ev n pc'))"
      using h(3) pc st by (cases pc) (auto simp: record_pc_def writeBlob_pc_def split: if_splits)
    ultimately show ?thesis using h(1) eq by (simp add: source_inv_def)
  qed
  have hash: "hash_inv algo (goto (Writing ev n pc') (set_mem r' (s\<lparr>sysLog := ?log'\<rparr>)))"
    using p(2) hold pc(1) by (simp add: hash_inv_def hashed_def)
  have subs: "subs_inv cap ?log' (begun s) ((sysRing s)\<lparr>rMem := r'\<rparr>)"
    using p(4) sub by (simp add: subs_inv_def)
  have ctrl: "control_inv (Writing ev n pc') ((sysRing s)\<lparr>rMem := r'\<rparr>)"
    using p(5) pc(1) by (simp add: control_inv_def)
  have "memory_inv cap (goto (Writing ev n pc') (set_mem r' (s\<lparr>sysLog := ?log'\<rparr>)))"
    using w' w(2) f noend by (simp add: memory_inv_def)
  then show ?thesis
    using src hash subs ctrl hi by (simp add: fan_inv_def)
qed

lemma fan_inv_written:
  assumes i: "fan_inv ok rest paced algo stream cap s" and pc: "sysPc s = Writing ev n WriteDone"
  shows "fan_inv ok rest paced algo stream cap (goto EmitControl s)"
proof -
  note p = fan_inv_parts [OF i]
  have "mem_ok cap (sysLog s) False (rMem (sysRing s)) \<and> rWriteSeq (rMem (sysRing s)) = of_nat (length (sysLog s))"
    using p(3) pc by (intro write_ok_done [where n = "unat n" and e = "entry_of ev"]) (simp add: memory_inv_def del: write_ok.simps)
  then show ?thesis
    using p pc by (auto simp: fan_inv_def source_inv_def hash_inv_def hashed_def memory_inv_def begun_def control_inv_def)
qed

section \<open>The merger, the pacer and the digest\<close>

lemma hasher_run_append:
  "hasher_run h (es @ [e]) = (case hasher_run h es of None \<Rightarrow> None | Some h \<Rightarrow> hasher_Write h (fst e) (snd e))"
  by (induction es arbitrary: h) (auto split: option.splits)

lemma hasher_run_fresh: "hasher_run (NewCanonicalHasher a) es \<noteq> None"
  using hasher_run_absorbs [OF absorbed_New, of a es] by (auto simp: NewCanonicalHasher_def)

lemma fan_inv_wait:
  assumes i: "fan_inv ok rest paced algo stream cap s" and pc: "sysPc s = EmitWait ev"
  shows "fan_inv ok rest paced algo stream cap (hash_event ev s)"
proof -
  note p = fan_inv_parts [OF i]
  let ?run = "\<lambda>a. hasher_run (NewCanonicalHasher a)"
  have h: "sysHash s = Option.bind algo (\<lambda>a. ?run a (sysLog s))"
    using p(2) pc by (simp add: hash_inv_def hashed_def)
  have go: "fan_inv ok rest paced algo stream cap (goto (EmitWrite ev) (s\<lparr>sysHash := v\<rparr>))"
    if "v = Option.bind algo (\<lambda>a. ?run a (sysLog s @ [entry_of ev]))" for v
    using p pc that
    by (auto simp: fan_inv_def source_inv_def hash_inv_def hashed_def memory_inv_def begun_def control_inv_def)
  show ?thesis
  proof (cases algo)
    case None
    then have "sysHash s = None" using h by simp
    moreover from this have s: "s\<lparr>sysHash := None\<rparr> = s" by (cases s) simp
    have "fan_inv ok rest paced algo stream cap (goto (EmitWrite ev) s)"
      using go [of None, unfolded s] None by simp
    ultimately show ?thesis by (simp add: hash_event_def)
  next
    case (Some a)
    then obtain x where x: "sysHash s = Some x" "?run a (sysLog s) = Some x"
      using h hasher_run_fresh [of a "sysLog s"] by auto
    then have "?run a (sysLog s @ [entry_of ev]) = hasher_Write x (evRecord ev) (ev_payload ev)"
      by (simp add: hasher_run_append entry_of_def)
    with hasher_run_fresh [of a "sysLog s @ [entry_of ev]"] obtain y
      where y: "hasher_Write x (evRecord ev) (ev_payload ev) = Some y" "?run a (sysLog s @ [entry_of ev]) = Some y"
      by auto
    then show ?thesis using x go [of "Some y"] Some by (simp add: hash_event_def)
  qed
qed

lemma fan_inv_over:
  assumes i: "fan_inv ok rest paced algo stream cap s" and pc: "\<not> over (sysPc s)" "\<not> writing (sysPc s)" "sysPc s \<noteq> EmitInit"
    and pc': "pc = EmitEnd \<and> (paced \<or> sysLog s = stream) \<and> hashed (sysPc s) = [] \<or> pc = EmitReturned (Some e)"
  shows "fan_inv ok rest paced algo stream cap (goto pc (s\<lparr>sysSource := src\<rparr>))"
proof -
  note p = fan_inv_parts [OF i]
  have "sysPc s \<noteq> EmitReturned x" "sysPc s \<noteq> EmitClose" "sysPc s \<noteq> EmitEnd" for x using pc(1) by auto
  with p pc pc' show ?thesis
    by (auto simp: fan_inv_def source_inv_def hash_inv_def hashed_def memory_inv_def begun_def control_inv_def)
qed

lemma fan_inv_write:
  assumes i: "fan_inv ok rest paced algo stream cap s" and b: "Suc (length stream) < 2 ^ 63" and pc: "sysPc s = EmitWrite ev"
  shows "fan_inv ok rest paced algo stream cap (enter_write ev s)"
proof -
  let ?r = "rMem (sysRing s)"
  note p = fan_inv_parts [OF i]
  have fits: "event_fits ev" using p(1) pc by (simp add: source_inv_def)
  have q: "mem_ok cap (sysLog s) False ?r" "rWriteSeq ?r = of_nat (length (sysLog s))"
    using p(3) pc by (simp_all add: memory_inv_def)
  note m = mem_okD [OF q(1)]
  show ?thesis
  proof (cases "length (ev_payload ev) > rMaxBlob ?r")
    case True
    have "fan_inv ok rest paced algo stream cap
        (goto (EmitReturned (Some (RunFanout ErrBlobTooLarge))) (s\<lparr>sysSource := sysSource s\<rparr>))"
      by (rule fan_inv_over [OF i]) (simp_all add: pc)
    with True show ?thesis by (simp add: enter_write_def Let_def)
  next
    case False
    then have e: "entry_ok (rMaxBlob ?r) (entry_of ev)"
      using fits by (simp add: entry_ok_def entry_of_def event_fits_def)
    show ?thesis
    proof (cases "rWriteSeq ?r < of_nat (Capacity ?r)")
      case True
      have "unat (of_nat cap :: u64) = cap" "unat (rWriteSeq ?r) = length (sysLog s)"
        using geom_cap_less [OF m(1)] m(2) q(2) by simp_all
      then have "length (sysLog s) < cap"
        using True by (simp add: Capacity_eq [OF m(1)] word_less_nat_alt)
      have "block_inv cap (length (sysLog s) + 1) (rSubs (sysRing s) ! k)" if "k \<in> set (rBlocking (sysRing s))" for k
      proof (rule block_inv_raise)
        show "block_inv cap (length (sysLog s)) (rSubs (sysRing s) ! k)"
          using p(4) that pc by (simp add: subs_inv_def begun_def)
      qed (use \<open>length (sysLog s) < cap\<close> in simp)
      then have "fan_inv ok rest paced algo stream cap
          (goto (Writing ev (rWriteSeq ?r) StoreEven) (on_ring (\<lambda>r. r) s))"
        by (intro fan_inv_start_write [OF i]) (simp_all add: pc hashed_def q(2) e same_control_def)
      then show ?thesis using True False by (simp add: enter_write_def Let_def on_ring_id)
    next
      case no: False
      have "fan_inv ok rest paced algo stream cap (start_scan ev (rWriteSeq ?r) None s)"
        by (rule fan_inv_start_scan [OF i]) (use no in \<open>simp_all add: pc hashed_def barrier_ok_def q(2) e\<close>)
      then show ?thesis using no False by (simp add: enter_write_def Let_def)
    qed
  qed
qed

section \<open>The ends of the loop\<close>

lemma fan_inv_init:
  assumes i: "fan_inv ok rest paced algo stream cap s" and pc: "sysPc s = EmitInit"
  shows "fan_inv ok rest paced algo stream cap (goto EmitControl (on_ring StartEmitting s))"
  using fan_inv_parts [OF i] pc
  by (simp add: fan_inv_def source_inv_def hash_inv_def hashed_def memory_inv_def begun_def control_inv_def
      subs_inv_def StartEmitting_def)

lemma fan_inv_end:
  assumes i: "fan_inv ok rest paced algo stream cap s" and pc: "sysPc s = EmitEnd"
    and b: "Suc (length stream) < 2 ^ 63"
  shows "fan_inv ok rest paced algo stream cap
    (goto EmitClose (set_mem (store_end (rWriteSeq (rMem (sysRing s))) (rMem (sysRing s))) s))"
proof -
  let ?r = "rMem (sysRing s)"
  note p = fan_inv_parts [OF i]
  have q: "mem_ok cap (sysLog s) False ?r" "rWriteSeq ?r = of_nat (length (sysLog s))" "rEndPlusOne ?r = 0"
    using p(3) pc by (auto simp: memory_inv_def)
  have nz: "(1 + of_nat (length (sysLog s)) :: u64) \<noteq> 0"
  proof -
    have "unat (of_nat (length (sysLog s) + 1) :: u64) = length (sysLog s) + 1"
      using stream_bound [OF i b] b by (intro unat_index) simp
    then show ?thesis by (metis Suc_eq_plus1 nat.distinct(1) of_nat_Suc unsigned_0)
  qed
  have sub: "sub_inv cap (sysLog s) (store_end (rWriteSeq ?r) ?r) x" if "sub_inv cap (sysLog s) ?r x" for x
    by (rule sub_inv_mono [OF that, where new = "[]"])
      (use mem_okD(4) [OF q(1)] q(3) in \<open>simp_all add: store_end_def seq_of_def\<close>)
  show ?thesis
    using p pc q sub nz
    by (auto simp: fan_inv_def source_inv_def hash_inv_def hashed_def memory_inv_def begun_def control_inv_def
        subs_inv_def store_end_def add.commute)
qed

lemma fan_inv_close:
  assumes i: "fan_inv ok rest paced algo stream cap s" and pc: "sysPc s = EmitClose"
  shows "fan_inv ok rest paced algo stream cap (goto (EmitReturned None) (on_ring closeControl s))"
proof -
  note p = fan_inv_parts [OF i]
  obtain v where v: "closeControl (sysRing s) = (sysRing s)\<lparr>rCtrlClosed := True, rCtrlPending := [], rReplies := v\<rparr>"
    "map fst v = map fst (rReplies (sysRing s)) @ map fst (rCtrlPending (sysRing s))"
    using closeControl_eq [of "sysRing s"] by metis
  then have "mset (map fst v) = mset (map fst (rReplies (sysRing s))) + mset (map fst (rCtrlPending (sysRing s)))"
    by (simp del: mset_map)
  then show ?thesis
    using p pc v(1)
    by (simp add: fan_inv_def source_inv_def hash_inv_def hashed_def memory_inv_def begun_def control_inv_def subs_inv_def
        del: mset_map)
qed

lemma fan_inv_watch:
  assumes i: "fan_inv ok rest paced algo stream cap s" and pc: "sysPc s = BarrierWatch ev n a t"
  shows "fan_inv ok rest paced algo stream cap (watchdog now ev n a t s)"
proof -
  have b: "barrier_ok (sysLog s) (rMem (sysRing s)) ev n"
    using fan_inv_parts(3) [OF i] pc by (simp add: memory_inv_def)
  have "fan_inv ok rest paced algo stream cap (goto (EvictScan ev n a now ks v) s)" for ks v
    using pc b by (intro fan_inv_goto [OF i]) (simp_all add: hashed_def)
  moreover have "fan_inv ok rest paced algo stream cap (start_scan ev n since s)" for since
    by (rule fan_inv_start_scan [OF i]) (simp_all add: pc b hashed_def)
  ultimately show ?thesis by (simp add: watchdog_def Let_def)
qed

section \<open>Every run\<close>

context fan_source begin

lemma fan_inv_next:
  assumes i: "fan_inv ok rest paced algo stream cap s" and pc: "sysPc s = EmitNext"
  shows "fan_inv ok rest paced algo stream cap (emit_step nxt paced now go s)"
proof -
  note p = fan_inv_parts [OF i]
  have src: "ok (sysSource s)" "sysLog s @ map entry_of (rest (sysSource s)) = stream"
    using p(1) pc by (simp_all add: source_inv_def)
  obtain src' where n: "nxt (sysSource s) = (Inr (case rest (sysSource s) of [] \<Rightarrow> None | ev # _ \<Rightarrow> Some ev), src')" "ok src'"
    using nxt_eq [OF src(1)] nxt_ok [OF src(1)] by (cases "nxt (sysSource s)") auto
  show ?thesis
  proof (cases "rest (sysSource s)")
    case Nil
    have "fan_inv ok rest paced algo stream cap (goto EmitEnd (s\<lparr>sysSource := src'\<rparr>))"
      by (rule fan_inv_over [OF i]) (use pc src Nil in \<open>simp_all add: hashed_def\<close>)
    then show ?thesis using n Nil pc by (simp add: emit_step_def)
  next
    case (Cons ev evs)
    have "rest src' = evs" using nxt_Cons [OF src(1) Cons] n by simp
    moreover have "event_fits ev" using rest_fits [OF src(1)] Cons by simp
    ultimately have "fan_inv ok rest paced algo stream cap (goto (EmitWait ev) (s\<lparr>sysSource := src'\<rparr>))"
      using p pc src Cons n(2)
      by (auto simp: fan_inv_def source_inv_def hash_inv_def hashed_def memory_inv_def begun_def control_inv_def)
    then show ?thesis using n Cons pc by (simp add: emit_step_def)
  qed
qed

lemma fan_inv_emits:
  assumes i: "fan_inv ok rest paced algo stream cap s" and b: "Suc (length stream) < 2 ^ 63"
  shows "fan_inv ok rest paced algo stream cap (emit_step nxt paced now go s)"
proof (cases "sysPc s")
  case EmitInit
  then show ?thesis using fan_inv_init [OF i] by (simp add: emit_step_def)
next
  case EmitControl
  then have "fan_inv ok rest paced algo stream cap (goto EmitNext (on_ring applyControl s))"
    by (intro fan_inv_apply [OF i]) (simp_all add: hashed_def)
  then show ?thesis using EmitControl by (simp add: emit_step_def)
next
  case EmitNext
  then show ?thesis by (rule fan_inv_next [OF i])
next
  case (EmitWait ev)
  have "fan_inv ok rest paced algo stream cap (goto EmitEnd (s\<lparr>sysSource := sysSource s\<rparr>))" if paced
    by (rule fan_inv_over [OF i]) (use EmitWait that in \<open>simp_all add: hashed_def\<close>)
  then show ?thesis using fan_inv_wait [OF i EmitWait] EmitWait by (simp add: emit_step_def)
next
  case (EmitWrite ev)
  then show ?thesis using fan_inv_write [OF i b] by (simp add: emit_step_def)
next
  case (BarrierScan ev n ks m since)
  then show ?thesis
    using fan_inv_scanned [OF i, of ev n m since] fan_inv_scan_one [OF i, of ev n _ _ m since]
    by (cases ks) (simp_all add: emit_step_def)
next
  case (BarrierStart ev n)
  have "fan_inv ok rest paced algo stream cap (start_scan ev n (Some (now, now)) s)"
    by (rule fan_inv_start_scan [OF i]) (use BarrierStart fan_inv_parts(3) [OF i] in \<open>simp_all add: hashed_def memory_inv_def\<close>)
  then show ?thesis using BarrierStart by (simp add: emit_step_def)
next
  case (BarrierControl ev n a t)
  have "fan_inv ok rest paced algo stream cap (goto (BarrierWatch ev n a t) (on_ring applyControl s))"
  proof (rule fan_inv_apply [OF i])
    have "rMem (applyControl (sysRing s)) = rMem (sysRing s)"
      by (rule applyControl_quiet(2) [OF fan_quiet [OF i]]) (simp add: BarrierControl)
    then show "emit_ok cap (sysLog s) (applyControl (sysRing s)) (BarrierWatch ev n a t)"
      using fan_inv_parts(3) [OF i] BarrierControl by (simp add: memory_inv_def)
  qed (simp_all add: BarrierControl hashed_def)
  then show ?thesis using BarrierControl by (simp add: emit_step_def)
next
  case (BarrierWatch ev n a t)
  then show ?thesis using fan_inv_watch [OF i] by (simp add: emit_step_def)
next
  case (EvictScan ev n a t ks v)
  show ?thesis
  proof (cases ks)
    case Nil
    then show ?thesis using fan_inv_evict [OF i, of ev n a t v] EvictScan by (simp add: emit_step_def)
  next
    case (Cons k ks')
    have "fan_inv ok rest paced algo stream cap (goto (EvictScan ev n a t ks' v') s)" for v'
      using EvictScan fan_inv_parts(3) [OF i] by (intro fan_inv_goto [OF i]) (simp_all add: hashed_def memory_inv_def)
    then show ?thesis using EvictScan Cons by (simp add: emit_step_def)
  qed
next
  case (BarrierSlip ev n a)
  have "fan_inv ok rest paced algo stream cap
      (goto (Writing ev n StoreEven) (on_ring (\<lambda>r. r\<lparr>rSlipNs := rSlipNs r + (now - a)\<rparr>) s))"
    by (rule fan_inv_start_write [OF i])
      (use BarrierSlip fan_inv_parts(3) [OF i] in \<open>simp_all add: hashed_def memory_inv_def barrier_ok_def same_control_def\<close>)
  then show ?thesis using BarrierSlip by (simp add: emit_step_def)
next
  case (Writing ev n pc)
  obtain pc' r' where st: "write_step n (evRecord ev) (ev_payload ev) pc (rMem (sysRing s)) = (pc', r')" by fastforce
  show ?thesis
  proof (cases "pc = WriteDone")
    case True
    then show ?thesis using fan_inv_written [OF i] Writing by (simp add: emit_step_def)
  next
    case False
    then have "emit_step nxt paced now go s =
        goto (Writing ev n pc') (set_mem r' (s\<lparr>sysLog := log_after pc (sysLog s) (entry_of ev)\<rparr>))"
      using Writing st by (cases pc) (simp_all add: emit_step_def)
    then show ?thesis using fan_inv_store [OF i b Writing False st] by simp
  qed
next
  case EmitEnd
  then show ?thesis using fan_inv_end [OF i _ b] by (simp add: emit_step_def Let_def)
next
  case EmitClose
  then show ?thesis using fan_inv_close [OF i] by (simp add: emit_step_def)
next
  case (EmitReturned e)
  then show ?thesis using i by (simp add: emit_step_def)
qed

lemma fan_inv_step:
  assumes "fan_step nxt paced s s'" "fan_inv ok rest paced algo stream cap s" "Suc (length stream) < 2 ^ 63"
  shows "fan_inv ok rest paced algo stream cap s'"
  using assms
proof cases
  case (emits now go)
  then show ?thesis using fan_inv_emits [OF assms(2,3)] by simp
next
  case (reads k)
  then show ?thesis using fan_inv_reads [OF assms(2)] by simp
next
  case (cancels k)
  then show ?thesis using fan_inv_cancels [OF assms(2)] by simp
next
  case (subscribes mode start)
  then show ?thesis using fan_inv_subscribes [OF assms(2)] by simp
next
  case (unsubscribes k)
  then show ?thesis using fan_inv_unsubscribes [OF assms(2)] by simp
qed

lemma fan_inv_start:
  assumes "newRing cfg = Inr r" "arena_fits cfg" "ok src"
  shows "fan_inv ok rest paced algo (map entry_of (rest src)) (nat (cfgCapacity cfg))
    (start_system r src (map_option NewCanonicalHasher algo))"
proof -
  let ?cap = "nat (cfgCapacity cfg)"
  obtain m where m: "NewRing cfg = Inr m" "r = \<lparr>rMem = m, rBlocking = [], rSubs = [], rCtrlPending = [],
      rCtrlStarted = False, rCtrlClosed = False, rReplies = [], rIssued = 0, rSlipNs = 0,
      rWatchdogTimeout = cfgWatchdogTimeout cfg\<rparr>"
    using assms(1) by (auto simp: newRing_def bindE_eq_Inr_iff)
  have g: "geom ?cap m" by (rule geom_NewRing [OF m(1) assms(2)])
  have z: "rWriteSeq m = 0" "rEndPlusOne m = 0" "\<And>j. j < ?cap \<Longrightarrow> seq_of m j = 0"
    using m(1) g by (auto simp: NewRing_def Let_def seq_of_def geom_def split: if_splits)
  have "mem_ok ?cap [] False m"
    by (rule mem_okI) (use g z in \<open>simp_all add: slot_ok_def\<close>)
  then show ?thesis
    using m(2) z assms(3)
    by (cases algo) (simp_all add: fan_inv_def source_inv_def hash_inv_def hashed_def memory_inv_def begun_def subs_inv_def
        control_inv_def start_system_def)
qed

lemma fan_inv_reachable:
  assumes "newRing cfg = Inr r" "arena_fits cfg" "ok src" "Suc (length (rest src)) < 2 ^ 63"
    and "fan_reachable nxt paced (start_system r src (map_option NewCanonicalHasher algo)) s"
  shows "fan_inv ok rest paced algo (map entry_of (rest src)) (nat (cfgCapacity cfg)) s"
  using assms(5) unfolding fan_reachable_def
proof (induction rule: rtranclp_induct)
  case base
  show ?case by (rule fan_inv_start [OF assms(1-3)])
next
  case (step s t)
  show ?case by (rule fan_inv_step [OF step.hyps(2) step.IH]) (use assms(4) in simp)
qed

end

end
