(* ===== verification/Fanout_Run.thy ===== *)
theory Fanout_Run
  imports Fanout_Loop Merge_Merger
begin

text \<open>
  The fan-out driven by a merger: the interpretation of the contract \<open>fan_source\<close> on the merge, and
  what every interleaving of a run guarantees to its subscribers, its digest and its control queue.
\<close>

section \<open>The merger as a source\<close>

lemma Blob_length:
  assumes "Blob r rec = Inr p"
  shows "int (length p) = blob_length rec"
proof -
  obtain b blob where b: "sliceE b 0 (unat (BlobLen rec)) = Inr blob" "sliceE blob 4 (length blob) = Inr p"
    using assms by (auto simp: Blob_def failE_eq_Inr_iff bindE_eq_Inr_iff Let_def split: if_splits)
  then have "length blob = unat (BlobLen rec)" "4 \<le> length blob" "length p = length blob - 4"
    by (auto simp: sliceE_def go_slice_def sub_def split: if_splits)
  then show ?thesis by (simp add: blob_length_def)
qed

lemma event_of_fits: "event_of r rec = Inr ev \<Longrightarrow> event_fits ev"
  using Blob_length [of r rec] by (auto simp: event_of_def event_fits_def ev_payload_def split: if_splits sum.splits)

lemma merge_of_all:
  assumes "sound_cursors cs" "\<And>r rec ev. event_of r rec = Inr ev \<Longrightarrow> P ev"
  shows "list_all P (merge_of cs)"
proof -
  have "P ev" if c: "c \<in> set cs" and ev: "ev \<in> set (cursor_rest c)" for c ev
  proof -
    have ok: "cursor_ok c" using assms(1) c by (simp add: sound_cursors_def)
    obtain r where r: "r \<in> set (cReaders c)" "ev \<in> set (reader_events r)"
      using ev by (auto simp: cursor_rest_def partition_events_def dest!: in_set_dropD split: if_splits) (metis nth_mem)
    then obtain rec where "rec \<in> set (contents r)" "ev = projr (event_of r rec)" by (auto simp: reader_events_def)
    moreover have "\<forall>rec \<in> set (contents r). \<exists>ev. event_of r rec = Inr ev"
      using ok r(1) by (simp add: cursor_ok_def sound_file_def)
    ultimately show ?thesis using assms(2) by force
  qed
  then show ?thesis by (auto simp: merge_of_def list_all_iff)
qed

lemma merge_of_fits: "sound_cursors cs \<Longrightarrow> list_all event_fits (merge_of cs)"
  by (rule merge_of_all [OF _ event_of_fits])

definition feeds_ring :: "Merger \<Rightarrow> bool" where
  "feeds_ring m \<longleftrightarrow> merger_ok m \<and> list_all event_fits (merger_rest m)"

interpretation fan: fan_source feeds_ring merger_rest merger_Next
proof
  fix m ev evs
  assume m: "feeds_ring m"
  then have ok: "merger_ok m" by (simp add: feeds_ring_def)
  show "merger_rest m = [] \<Longrightarrow> fst (merger_Next m) = Inr None \<and> merger_rest (snd (merger_Next m)) = []"
    by (rule merger.nxt_Nil [OF ok])
  show "merger_rest m = ev # evs \<Longrightarrow> fst (merger_Next m) = Inr (Some ev) \<and> merger_rest (snd (merger_Next m)) = evs"
    by (rule merger.nxt_Cons [OF ok])
  show "feeds_ring (snd (merger_Next m))"
    using m merger.nxt_ok [OF ok] merger.nxt_Nil [OF ok] merger.nxt_Cons [OF ok]
    by (cases "merger_rest m") (auto simp: feeds_ring_def)
  show "list_all event_fits (merger_rest m)" using m by (simp add: feeds_ring_def)
qed

section \<open>Runs\<close>

text \<open>A run of a ring over a fresh merger, with a digest or without, up to the state \<open>s\<close>.\<close>

definition start_run ::
  "Config \<Rightarrow> Cursor list \<Rightarrow> int \<Rightarrow> batchShape \<Rightarrow> CanonicalAlgo option \<Rightarrow> Merger system option" where
  "start_run cfg cs workers shape algo =
     (case newMerger cs workers shape of
        Inl e \<Rightarrow> None
      | Inr m \<Rightarrow>
          (case newRing cfg of
             Inl e \<Rightarrow> None
           | Inr r \<Rightarrow> Some (start_system r m (map_option NewCanonicalHasher algo))))"

definition fan_run ::
  "Config \<Rightarrow> Cursor list \<Rightarrow> int \<Rightarrow> batchShape \<Rightarrow> CanonicalAlgo option \<Rightarrow> bool \<Rightarrow> Merger system \<Rightarrow> bool" where
  "fan_run cfg cs workers shape algo paced s \<longleftrightarrow>
     (\<exists>s0. start_run cfg cs workers shape algo = Some s0 \<and> fan_reachable merger_Next paced s0 s)"

text \<open>The inputs the theorems are about: sound files, a ring an address space holds, and fewer than
  \<open>2 ^ 63 - 1\<close> events.\<close>

definition run_inputs :: "Config \<Rightarrow> Cursor list \<Rightarrow> int \<Rightarrow> batchShape \<Rightarrow> bool" where
  "run_inputs cfg cs workers shape \<longleftrightarrow> sound_cursors cs \<and> (workers > 0 \<longrightarrow> shape_valid shape)
     \<and> arena_fits cfg \<and> Suc (length (merge_of cs)) < 2 ^ 63"

abbreviation merged :: "Cursor list \<Rightarrow> entry list" where
  "merged cs \<equiv> map entry_of (merge_of cs)"

lemma fan_run_inv:
  assumes "run_inputs cfg cs workers shape" "fan_run cfg cs workers shape algo paced s"
  shows "fan_inv feeds_ring merger_rest paced algo (merged cs) (nat (cfgCapacity cfg)) s"
proof -
  have i: "sound_cursors cs" "workers > 0 \<longrightarrow> shape_valid shape" "arena_fits cfg" "Suc (length (merge_of cs)) < 2 ^ 63"
    using assms(1) by (simp_all add: run_inputs_def)
  obtain m where m: "newMerger cs workers shape = Inr m" "merger_ok m" "merger_rest m = merge_of cs"
    using newMerger_ok [OF i(1,2)] by blast
  obtain r where r: "newRing cfg = Inr r"
    and run: "fan_reachable merger_Next paced (start_system r m (map_option NewCanonicalHasher algo)) s"
    using assms(2) m(1) by (auto simp: fan_run_def start_run_def split: sum.splits)
  have "feeds_ring m" using m merge_of_fits [OF i(1)] by (simp add: feeds_ring_def)
  from fan.fan_inv_reachable [OF r i(3) this _ run] show ?thesis using m(3) i(4) by simp
qed

section \<open>What a run guarantees\<close>

lemma fan_run_sub:
  assumes "run_inputs cfg cs workers shape" "fan_run cfg cs workers shape algo paced s" "k < length (rSubs (sysRing s))"
  shows "sub_inv (nat (cfgCapacity cfg)) (sysLog s) (rMem (sysRing s)) (rSubs (sysRing s) ! k)"
  using fan_inv_parts(4) [OF fan_run_inv [OF assms(1,2)]] assms(3) by (simp add: subs_inv_def)

text \<open>C13: No event is lost, torn, repeated or reordered without the subscriber being told. In every
  interleaving of the writer, the subscribers and the goroutines that join, leave and cancel, what a
  subscriber has been given, records and the gaps before them, tiles the emit indexes from its start to
  its cursor, and each record and payload is exactly the one the merge put at that index.\<close>

theorem subscriber_exact:
  assumes "run_inputs cfg cs workers shape" and "fan_run cfg cs workers shape algo paced s"
    and "k < length (rSubs (sysRing s))" and "u = rSubs (sysRing s) ! k" and "unat (sbFrom u) < 2 ^ 63"
  shows "prefix (sysLog s) (merged cs)
    \<and> tiles (sysLog s) (unat (sbFrom u)) (sbTrace u) = Some (unat (sub_Cursor u))"
  using fan_run_sub [OF assms(1-3)] assms(4,5) fan_inv_parts(1) [OF fan_run_inv [OF assms(1,2)]]
  by (simp add: sub_inv_def source_inv_def sub_Cursor_def)


text \<open>How a loop can come to its end: the merge is exhausted, or there is a pacer and it did not let the
  record in hand through.\<close>

lemma emit_comes_to_end:
  assumes "\<not> over (sysPc s)" "over (sysPc (emit_step nxt paced now go s))"
    "\<forall>e. sysPc (emit_step nxt paced now go s) \<noteq> EmitReturned (Some e)"
  shows "sysLog (emit_step nxt paced now go s) = sysLog s
    \<and> (sysPc s = EmitNext \<and> fst (nxt (sysSource s)) = Inr None
       \<or> (\<exists>ev. sysPc s = EmitWait ev) \<and> paced \<and> \<not> go)"
proof (cases "sysPc s")
  case EmitNext
  then show ?thesis
    using assms by (auto simp: emit_step_def split: prod.splits sum.splits option.splits)
next
  case (EmitWait ev)
  then show ?thesis
    using assms by (auto simp: emit_step_def hash_event_def split: if_splits option.splits)
next
  case (EmitWrite ev)
  then show ?thesis
    using assms by (auto simp: emit_step_def enter_write_def start_scan_def Let_def split: if_splits)
next
  case (BarrierScan ev n ks m since)
  then show ?thesis
    using assms by (cases ks) (auto simp: emit_step_def scanned_def Let_def split: if_splits option.splits)
next
  case (BarrierWatch ev n a b)
  then show ?thesis
    using assms by (auto simp: emit_step_def watchdog_def start_scan_def Let_def split: if_splits)
next
  case (EvictScan ev n a b ks v)
  then show ?thesis using assms by (cases ks) (auto simp: emit_step_def start_scan_def)
next
  case (Writing ev n pc)
  then show ?thesis using assms by (cases pc) (auto simp: emit_step_def split: prod.splits)
qed (use assms in \<open>auto simp: emit_step_def start_scan_def\<close>)

lemma emit_past_end:
  "over (sysPc s) \<Longrightarrow> sysLog (emit_step nxt paced now go s) = sysLog s
     \<and> (sysPc s = EmitReturned e \<longrightarrow> emit_step nxt paced now go s = s)"
  by (cases "sysPc s") (auto simp: emit_step_def Let_def)

text \<open>The pacer stopped the run: in a state of it the loop had the next record in hand and was told not to
  emit it, and the run went on from there to \<open>s\<close> without writing anything.\<close>

definition pacer_stopped :: "(bool \<Rightarrow> Merger system \<Rightarrow> bool) \<Rightarrow> bool \<Rightarrow> Merger system \<Rightarrow> bool" where
  "pacer_stopped run paced s \<longleftrightarrow> paced \<and>
     (\<exists>s1 ev now. run paced s1 \<and> sysPc s1 = EmitWait ev \<and> sysLog s1 = sysLog s
        \<and> fan_reachable merger_Next paced (emit_step merger_Next paced now False s1) s)"

lemma pacer_stopped_on:
  assumes "pacer_stopped run paced s" "fan_step merger_Next paced s s'" "sysLog s' = sysLog s"
  shows "pacer_stopped run paced s'"
proof -
  obtain s1 ev now where "paced" "run paced s1" "sysPc s1 = EmitWait ev" "sysLog s1 = sysLog s"
      "fan_reachable merger_Next paced (emit_step merger_Next paced now False s1) s"
    using assms(1) by (auto simp: pacer_stopped_def)
  moreover have "fan_reachable merger_Next paced (emit_step merger_Next paced now False s1) s'"
    using calculation(5) assms(2) by (simp add: fan_reachable_def rtranclp.rtrancl_into_rtrancl)
  ultimately show ?thesis using assms(3) by (metis pacer_stopped_def)
qed

lemma run_log_end:
  assumes inp: "run_inputs cfg cs workers shape" and run: "fan_run cfg cs workers shape algo paced s"
    and o: "over (sysPc s)" "\<forall>e. sysPc s \<noteq> EmitReturned (Some e)"
  shows "sysLog s = merged cs \<or> pacer_stopped (fan_run cfg cs workers shape algo) paced s"
proof -
  obtain s0 where s0: "start_run cfg cs workers shape algo = Some s0" "(fan_step merger_Next paced)\<^sup>*\<^sup>* s0 s"
    using run by (auto simp: fan_run_def fan_reachable_def)
  from s0(2) o show ?thesis
  proof (induction rule: rtranclp_induct)
    case base
    then have "sysPc s0 = EmitInit" using s0(1) by (auto simp: start_run_def start_system_def split: sum.splits)
    with base show ?case by simp
  next
    case (step s s')
    have r: "fan_run cfg cs workers shape algo paced s"
      using s0(1) step.hyps(1) by (auto simp: fan_run_def fan_reachable_def)
    note f = fan_run_inv [OF inp r]
    have on: ?case if "sysLog s' = sysLog s" "sysPc s' = sysPc s"
      using step.IH that step.prems pacer_stopped_on [OF _ step.hyps(2) that(1)] by metis
    from step.hyps(2) show ?case
    proof cases
      case (emits now go)
      show ?thesis
      proof (cases "over (sysPc s)")
        case True
        have l: "sysLog s' = sysLog s" using emit_past_end [OF True] emits by metis
        have "\<forall>e. sysPc s \<noteq> EmitReturned (Some e)"
          using emit_past_end [OF True] step.prems(2) emits by metis
        then show ?thesis using step.IH True l pacer_stopped_on [OF _ step.hyps(2) l] by metis
      next
        case False
        have e: "over (sysPc (emit_step merger_Next paced now go s))"
          "\<forall>e. sysPc (emit_step merger_Next paced now go s) \<noteq> EmitReturned (Some e)"
          using step.prems emits by simp_all
        note c = emit_comes_to_end [OF False e]
        note src = fan_inv_parts(1) [OF f]
        show ?thesis
        proof (cases "sysPc s = EmitNext")
          case True
          then have ok: "feeds_ring (sysSource s)"
            "sysLog s @ map entry_of (merger_rest (sysSource s)) = merged cs"
            using src by (simp_all add: source_inv_def)
          have "fst (merger_Next (sysSource s)) = Inr None" using c True by simp
          then have "merger_rest (sysSource s) = []"
            using fan.nxt_Cons [OF ok(1)] by (cases "merger_rest (sysSource s)") auto
          then show ?thesis using ok(2) c emits by simp
        next
          case False
          with c obtain ev where ev: "sysPc s = EmitWait ev" "paced" "\<not> go"
              "sysLog (emit_step merger_Next paced now go s) = sysLog s"
            by blast
          then have "emit_step merger_Next paced now False s = s'" using emits by simp
          then have "pacer_stopped (fan_run cfg cs workers shape algo) paced s'"
            using ev r emits unfolding pacer_stopped_def fan_reachable_def by (metis rtranclp.rtrancl_refl)
          then show ?thesis by simp
        qed
      qed
    qed (use on in simp_all)
  qed
qed

text \<open>C15: The digest of a run is that of what it emitted. Whatever the subscribers and the clock do, the
  log is a prefix of the merged stream. When the run returns without an error, the log is the whole
  merged stream, unless there is a pacer and it stopped the run: it refused the record that comes next in
  the stream, and nothing was written after that. The digest is the hash of the canonical form of the
  log, and the declared end is its length.\<close>

theorem run_digest:
  assumes "run_inputs cfg cs workers shape" and "fan_run cfg cs workers shape (Some a) paced s"
  shows "prefix (sysLog s) (merged cs)
    \<and> (sysPc s = EmitReturned None \<longrightarrow>
        (sysLog s = merged cs \<or> pacer_stopped (fan_run cfg cs workers shape (Some a)) paced s)
        \<and> (\<exists>h. sysHash s = Some h \<and> fst (hasher_Sum h []) = hash_of a (canonical_input (sysLog s)))
        \<and> End (rMem (sysRing s)) = Some (of_nat (length (sysLog s))))"
proof -
  note p = fan_inv_parts [OF fan_run_inv [OF assms]]
  have "\<exists>h. sysHash s = Some h \<and> fst (hasher_Sum h []) = hash_of a (canonical_input (sysLog s))"
    if "sysPc s = EmitReturned None"
  proof -
    obtain h h' where h: "hasher_run (NewCanonicalHasher a) (sysLog s) = Some h"
      "hasher_Sum h [] = ([] @ hash_of a (canonical_input (sysLog s)), h')"
      using canonical_hasher_run [of a "sysLog s" "[]"] by blast
    with p(2) that show ?thesis by (simp add: hash_inv_def hashed_def)
  qed
  moreover have "End (rMem (sysRing s)) = Some (of_nat (length (sysLog s)))" if "sysPc s = EmitReturned None"
  proof -
    have "rEndPlusOne (rMem (sysRing s)) \<noteq> 0" using p(3) that by (simp add: memory_inv_def)
    with p(3) show ?thesis by (simp add: memory_inv_def End_def)
  qed
  ultimately show ?thesis
    using p(1) run_log_end [OF assms] by (simp add: source_inv_def)
qed

text \<open>C16: No request is lost. Every queued join or leave is answered at most once, on its own channel,
  and when the loop has returned without an error every one has been.\<close>

theorem control_answers:
  assumes "run_inputs cfg cs workers shape" and "fan_run cfg cs workers shape algo paced s"
  shows "distinct (map fst (rReplies (sysRing s)))
    \<and> set (map fst (rReplies (sysRing s))) \<subseteq> {0..<rIssued (sysRing s)}
    \<and> (sysPc s = EmitReturned None \<longrightarrow>
         set (map fst (rReplies (sysRing s))) = {0..<rIssued (sysRing s)}
         \<and> fst (Subscribe ModeBlock Live (sysRing s)) = Inl (Inl ErrClosed))"
proof -
  let ?r = "sysRing s"
  have c: "mset (map fst (rReplies ?r)) + mset (map fst (rCtrlPending ?r)) = mset [0..<rIssued ?r]"
    "rCtrlClosed ?r \<longleftrightarrow> sysPc s = EmitReturned None" "rCtrlClosed ?r \<longrightarrow> rCtrlPending ?r = []"
    using fan_inv_parts(5) [OF fan_run_inv [OF assms]] by (simp_all add: control_inv_def del: mset_map)
  have m: "mset (map fst (rReplies ?r) @ map fst (rCtrlPending ?r)) = mset [0..<rIssued ?r]"
    using c(1) by (simp del: mset_map)
  then have d: "distinct (map fst (rReplies ?r) @ map fst (rCtrlPending ?r))"
    "set (map fst (rReplies ?r) @ map fst (rCtrlPending ?r)) = {0..<rIssued ?r}"
    by (metis distinct_upt mset_eq_imp_distinct_iff) (metis m atLeastLessThan_upt mset_eq_setD)
  have "fst (Subscribe ModeBlock Live ?r) = Inl (Inl ErrClosed)" if "rCtrlClosed ?r"
    using that by (simp add: Subscribe_def Live_def start_at_def)
  with d c show ?thesis by auto
qed

text \<open>The loop is at the Block barrier, for entry \<open>length (sysLog s)\<close>.\<close>

fun at_barrier :: "emit_pc \<Rightarrow> bool" where
  "at_barrier (BarrierScan ev n ks m since) = True"
| "at_barrier (BarrierStart ev n) = True"
| "at_barrier (BarrierControl ev n a b) = True"
| "at_barrier (BarrierWatch ev n a b) = True"
| "at_barrier (EvictScan ev n a b ks v) = True"
| "at_barrier pc = False"

text \<open>The barrier cannot deadlock. While the writer waits, whoever holds it back, a Block
  subscriber whose cursor is a lap behind the entry to write, has its next record complete in the ring:
  a read of it now succeeds and returns the entry at its cursor.\<close>

theorem barrier_ready:
  assumes "run_inputs cfg cs workers shape" and "fan_run cfg cs workers shape algo paced s"
    and "at_barrier (sysPc s)" and "k \<in> set (rBlocking (sysRing s))" and "u = rSubs (sysRing s) ! k"
    and "unat (sbFrom u) < 2 ^ 63" and "unat (sub_Cursor u) + nat (cfgCapacity cfg) \<le> length (sysLog s)"
  shows "read (rMem (sysRing s)) (sub_Cursor u) rec =
    \<lparr>rrRec = fst (sysLog s ! unat (sub_Cursor u)), rrBlob = entry_blob (sysLog s ! unat (sub_Cursor u)),
     rrHeld = sub_Cursor u, rrComplete = True\<rparr>"
proof -
  let ?cap = "nat (cfgCapacity cfg)"
  note p = fan_inv_parts [OF fan_run_inv [OF assms(1,2)]]
  have w: "\<not> writing (sysPc s)" using assms(3) by (cases "sysPc s") simp_all
  then have m: "mem_ok ?cap (sysLog s) False (rMem (sysRing s))" using p(3) by (simp add: memory_inv_def)
  have "length (sysLog s) \<le> unat (sub_Cursor u) + ?cap"
    using p(4) assms(4-6) w by (simp add: subs_inv_def block_inv_def begun_def sub_Cursor_def)
  then show ?thesis
    using read_ready [OF m, of "unat (sub_Cursor u)" rec] assms(7) mem_okD(4) [OF m] by simp
qed

end
