(* ===== verification/Fanout_Finish.thy ===== *)
theory Fanout_Finish
  imports Fanout_Run
begin

text \<open>
  That the emit loop ends, and runs of the fan-out built step by step for the witnesses. Without a Block
  subscriber nothing can hold the loop back: \<open>emit_weight\<close> bounds the number of its steps.
\<close>

section \<open>The loop alone\<close>

text \<open>The loop run by itself, the clock showing the given times.\<close>

primrec emit_alone ::
  "('s \<Rightarrow> (merge_error + Event option) \<times> 's) \<Rightarrow> i64 list \<Rightarrow> 's system \<Rightarrow> 's system" where
  "emit_alone nxt [] s = s"
| "emit_alone nxt (t # ts) s = emit_alone nxt ts (emit_step nxt False t True s)"

definition blob_steps :: "Event \<Rightarrow> nat" where
  "blob_steps ev = (length (ev_payload ev) + 7) div 8"

fun store_weight :: "Event \<Rightarrow> write_pc \<Rightarrow> nat" where
  "store_weight ev StoreEven = 16 + blob_steps ev"
| "store_weight ev (StoreWord w) = 7 + blob_steps ev + (slotWords - w)"
| "store_weight ev (StoreBlob w) = 7 + (blob_steps ev - w)"
| "store_weight ev StoreOdd = 7"
| "store_weight ev StoreIndex = 6"
| "store_weight ev WriteDone = 5"

fun pc_weight :: "emit_pc \<Rightarrow> nat" where
  "pc_weight EmitInit = 5"
| "pc_weight EmitControl = 4"
| "pc_weight EmitNext = 3"
| "pc_weight (EmitWait ev) = 19 + blob_steps ev"
| "pc_weight (EmitWrite ev) = 18 + blob_steps ev"
| "pc_weight (BarrierScan ev n ks m since) = 17 + blob_steps ev"
| "pc_weight (Writing ev n pc) = store_weight ev pc"
| "pc_weight EmitEnd = 2"
| "pc_weight EmitClose = 1"
| "pc_weight pc = 0"

definition emit_weight :: "('s \<Rightarrow> Event list) \<Rightarrow> 's system \<Rightarrow> nat" where
  "emit_weight rest s = pc_weight (sysPc s)
     + (if over (sysPc s) then 0 else sum_list (map (\<lambda>ev. 17 + blob_steps ev) (rest (sysSource s))))"

text \<open>Nobody asks, the payloads to come fit the ring, and the barrier is at most being looked at.\<close>

fun undisturbed :: "nat list \<Rightarrow> emit_pc \<Rightarrow> bool" where
  "undisturbed bs (BarrierScan ev n ks m since) = (ks = bs \<and> m = - 1 \<and> since = None)"
| "undisturbed bs (BarrierStart ev n) = False"
| "undisturbed bs (BarrierControl ev n a b) = False"
| "undisturbed bs (BarrierWatch ev n a b) = False"
| "undisturbed bs (EvictScan ev n a b ks v) = False"
| "undisturbed bs (BarrierSlip ev n a) = False"
| "undisturbed bs (EmitReturned (Some e)) = False"
| "undisturbed bs pc = True"

definition alone :: "('s \<Rightarrow> Event list) \<Rightarrow> 's system \<Rightarrow> bool" where
  "alone rest s \<longleftrightarrow> rCtrlPending (sysRing s) = [] \<and> undisturbed (rBlocking (sysRing s)) (sysPc s)
     \<and> (\<not> over (sysPc s) \<longrightarrow> list_all (\<lambda>ev. length (ev_payload ev) \<le> rMaxBlob (rMem (sysRing s)))
          (holding (sysPc s) @ rest (sysSource s)))"

text \<open>The step leaves the registered subscribers alone.\<close>

definition same_subs :: "Ring \<Rightarrow> Ring \<Rightarrow> bool" where
  "same_subs r r' \<longleftrightarrow> rSubs r' = rSubs r \<and> rBlocking r' = rBlocking r \<and> rIssued r' = rIssued r"

text \<open>One step on: undisturbed still, and nearer the end.\<close>

definition nearer :: "('s \<Rightarrow> Event list) \<Rightarrow> 's system \<Rightarrow> 's system \<Rightarrow> bool" where
  "nearer rest s s' \<longleftrightarrow> alone rest s' \<and> emit_weight rest s' < emit_weight rest s \<and> same_subs (sysRing s) (sysRing s')"

lemmas alone_simps = nearer_def alone_def emit_weight_def same_subs_def emit_step_def

lemma applyControl_nothing: "rCtrlPending r = [] \<Longrightarrow> applyControl r = r"
  by (simp add: applyControl_def)

lemma record_pc_weight:
  "store_weight ev (record_pc (ev_payload ev) 0) < store_weight ev StoreEven"
  "w < slotWords \<Longrightarrow> store_weight ev (record_pc (ev_payload ev) (w + 1)) < store_weight ev (StoreWord w)"
  "w < blob_steps ev \<Longrightarrow> store_weight ev (writeBlob_pc (ev_payload ev) (w + 1)) < store_weight ev (StoreBlob w)"
  by (auto simp: record_pc_def writeBlob_pc_def blob_steps_def slotWords_def RecordSize_def)

context fan_source begin

lemma alone_store:
  assumes i: "fan_inv ok rest False algo stream cap s" and b: "Suc (length stream) < 2 ^ 63"
    and a: "alone rest s" and pc: "sysPc s = Writing ev n pc"
  shows "nearer rest s (emit_step nxt False t True s)"
proof (cases "pc = WriteDone")
  case True
  then show ?thesis using a pc by (simp add: alone_simps)
next
  case False
  obtain pc' r' where st: "write_step n (evRecord ev) (ev_payload ev) pc (rMem (sysRing s)) = (pc', r')" by fastforce
  have e: "emit_step nxt False t True s =
      goto (Writing ev n pc') (set_mem r' (s\<lparr>sysLog := log_after pc (sysLog s) (entry_of ev)\<rparr>))"
    using pc False st by (cases pc) (simp_all add: emit_step_def)
  have w: "write_ok cap (sysLog s) (unat n) (entry_of ev) (rMem (sysRing s)) pc"
    using fan_inv_parts(3) [OF i] pc by (simp add: memory_inv_def)
  have "store_weight ev pc' < store_weight ev pc"
    using st False w record_pc_weight by (cases pc) (auto simp: entry_of_def blob_steps_def)
  moreover have "set (holding (Writing ev n pc')) \<subseteq> {ev}" "pc' = StoreIndex \<or> pc' = WriteDone \<or> holding (sysPc s) = [ev]"
    using st False pc by (cases pc; auto)+
  ultimately show ?thesis
    using a pc write_step_frame(1) [OF st] by (auto simp: e nearer_def alone_def emit_weight_def same_subs_def)
qed

lemma hash_event_goes:
  assumes i: "fan_inv ok rest paced algo stream cap s" and pc: "sysPc s = EmitWait ev"
  shows "\<exists>h. hash_event ev s = goto (EmitWrite ev) (s\<lparr>sysHash := h\<rparr>)"
proof (cases "sysHash s")
  case None
  then have "s\<lparr>sysHash := None\<rparr> = s" by (cases s) simp
  with None show ?thesis unfolding hash_event_def by (metis option.simps(4))
next
  case (Some h)
  then obtain a where a: "algo = Some a" "hasher_run (NewCanonicalHasher a) (sysLog s) = Some h"
    using fan_inv_parts(2) [OF i] pc by (cases algo) (auto simp: hash_inv_def hashed_def)
  then have "hasher_Write h (evRecord ev) (ev_payload ev) \<noteq> None"
    using hasher_run_fresh [of a "sysLog s @ [entry_of ev]"] by (simp add: hasher_run_append entry_of_def)
  with Some show ?thesis by (auto simp: hash_event_def)
qed

lemma alone_scan:
  assumes i: "fan_inv ok rest paced algo stream cap s" and pc: "sysPc s = BarrierScan ev n [] (- 1) None"
  shows "scanned ev n (- 1) None s = goto (Writing ev n StoreEven) s"
proof -
  have b: "barrier_ok (sysLog s) (rMem (sysRing s)) ev n" and m: "mem_ok cap (sysLog s) False (rMem (sysRing s))"
    using fan_inv_parts(3) [OF i] pc by (simp_all add: memory_inv_def)
  note mo = mem_okD [OF m]
  have n: "unat n = length (sysLog s)" using b mo(2) by (simp add: barrier_ok_def)
  have "unat (n - of_nat (Capacity (rMem (sysRing s)))) \<le> unat n"
  proof -
    have "of_nat (Capacity (rMem (sysRing s))) \<le> n" using b unfolding barrier_ok_def by blast
    from unat_sub [OF this] show ?thesis by simp
  qed
  then have "unat (n - of_nat (Capacity (rMem (sysRing s)))) < unat (- 1 :: u64)"
    using n mo(2) by (simp add: unsigned_minus_1_eq_mask mask_eq_exp_minus_1)
  then show ?thesis by (simp add: scanned_def Let_def word_less_nat_alt)
qed

lemma alone_step:
  assumes i: "fan_inv ok rest False algo stream cap s" and b: "Suc (length stream) < 2 ^ 63"
    and a: "alone rest s" and r: "sysPc s \<noteq> EmitReturned None"
    and bl: "at_barrier (sysPc s) \<Longrightarrow> rBlocking (sysRing s) = []"
  shows "nearer rest s (emit_step nxt False t True s)"
proof (cases "sysPc s")
  case EmitNext
  have src: "ok (sysSource s)" using fan_inv_parts(1) [OF i] EmitNext by (simp add: source_inv_def)
  obtain src' where n: "nxt (sysSource s) = (Inr (case rest (sysSource s) of [] \<Rightarrow> None | ev # _ \<Rightarrow> Some ev), src')"
    using nxt_eq [OF src] by (cases "nxt (sysSource s)") auto
  show ?thesis
  proof (cases "rest (sysSource s)")
    case Nil
    then show ?thesis using n a EmitNext by (simp add: alone_simps)
  next
    case (Cons ev evs)
    have "rest src' = evs" using nxt_Cons [OF src Cons] n by simp
    then show ?thesis using n a EmitNext Cons by (simp add: alone_simps)
  qed
next
  case (EmitWait ev)
  then show ?thesis
    using hash_event_goes [OF i EmitWait] a by (auto simp: alone_simps)
next
  case (EmitWrite ev)
  then show ?thesis
    using a by (auto simp: alone_simps enter_write_def Let_def start_scan_def not_less)
next
  case (BarrierScan ev n ks m since)
  then have s: "ks = []" "m = - 1" "since = None" using a bl by (simp_all add: alone_def)
  then have "emit_step nxt False t True s = goto (Writing ev n StoreEven) s"
    using alone_scan [OF i] BarrierScan by (simp add: emit_step_def)
  then show ?thesis using a s BarrierScan bl by (simp add: nearer_def alone_def emit_weight_def same_subs_def)
next
  case (Writing ev n pc)
  then show ?thesis by (rule alone_store [OF i b a])
next
  case EmitClose
  obtain v where "closeControl (sysRing s) = (sysRing s)\<lparr>rCtrlClosed := True, rCtrlPending := [], rReplies := v\<rparr>"
    using closeControl_eq [of "sysRing s"] by metis
  then show ?thesis using a EmitClose by (simp add: alone_simps)
next
  case (EmitReturned e)
  then show ?thesis using a r by (cases e) (simp_all add: alone_def)
qed (use a in \<open>simp_all add: alone_simps StartEmitting_def applyControl_nothing
    store_end_def Let_def\<close>)

lemma alone_runs:
  assumes "fan_inv ok rest False algo stream cap s" "Suc (length stream) < 2 ^ 63" "alone rest s"
    "emit_weight rest s \<le> length ts" "rBlocking (sysRing s) = []"
  shows "sysPc (emit_alone nxt ts s) = EmitReturned None \<and> fan_inv ok rest False algo stream cap (emit_alone nxt ts s)"
  using assms
proof (induction ts arbitrary: s)
  case Nil
  have "sysPc s = EmitReturned None"
  proof (rule ccontr)
    assume "sysPc s \<noteq> EmitReturned None"
    from alone_step [OF Nil.prems(1-3) this Nil.prems(5), of 0] Nil.prems(4) show False by (simp add: nearer_def)
  qed
  with Nil.prems show ?case by simp
next
  case (Cons t ts)
  let ?s = "emit_step nxt False t True s"
  have i: "fan_inv ok rest False algo stream cap ?s" by (rule fan_inv_emits [OF Cons.prems(1,2)])
  have "alone rest ?s \<and> emit_weight rest ?s \<le> length ts \<and> rBlocking (sysRing ?s) = []"
  proof (cases "sysPc s = EmitReturned None")
    case True
    then show ?thesis using Cons.prems(3,5) by (simp add: emit_step_def emit_weight_def)
  next
    case False
    then show ?thesis
      using alone_step [OF Cons.prems(1-3) False Cons.prems(5), of t] Cons.prems(4,5) by (simp add: nearer_def same_subs_def)
  qed
  with Cons.IH [OF i Cons.prems(2)] show ?case by simp
qed

text \<open>With subscribers, the loop runs until it has ended or a Block subscriber holds it back.\<close>

lemma alone_until:
  assumes "fan_inv ok rest False algo stream cap s" "Suc (length stream) < 2 ^ 63" "alone rest s"
  shows "\<exists>s'. fan_reachable nxt False s s' \<and> fan_inv ok rest False algo stream cap s'
    \<and> same_subs (sysRing s) (sysRing s')
    \<and> (sysPc s' = EmitReturned None \<or> at_barrier (sysPc s') \<and> rBlocking (sysRing s') \<noteq> [])"
  using assms
proof (induction "emit_weight rest s" arbitrary: s rule: less_induct)
  case less
  let ?s = "emit_step nxt False 0 True s"
  show ?case
  proof (cases "sysPc s = EmitReturned None \<or> at_barrier (sysPc s) \<and> rBlocking (sysRing s) \<noteq> []")
    case True
    with less.prems show ?thesis
      by (intro exI [of _ s]) (simp add: fan_reachable_def same_subs_def)
  next
    case False
    then have n: "nearer rest s ?s" by (intro alone_step [OF less.prems]) auto
    have i: "fan_inv ok rest False algo stream cap ?s" by (rule fan_inv_emits [OF less.prems(1,2)])
    from n obtain s' where s': "fan_reachable nxt False ?s s'" "fan_inv ok rest False algo stream cap s'"
      "same_subs (sysRing ?s) (sysRing s')"
      "sysPc s' = EmitReturned None \<or> at_barrier (sysPc s') \<and> rBlocking (sysRing s') \<noteq> []"
      using less.hyps [OF _ i less.prems(2)] by (auto simp: nearer_def)
    have "fan_step nxt False s ?s" by (rule emits)
    then have "fan_reachable nxt False s s'"
      using s'(1) by (simp add: fan_reachable_def converse_rtranclp_into_rtranclp)
    moreover have "same_subs (sysRing s) (sysRing s')" using n s'(3) by (simp add: nearer_def same_subs_def)
    ultimately show ?thesis using s' by blast
  qed
qed

end

section \<open>The loop among the other goroutines\<close>

text \<open>What the other goroutines do to the ring: a step of a reader, a cancel, a join or a leave.\<close>

inductive others :: "Ring \<Rightarrow> Ring \<Rightarrow> bool" where
  others_read: "k < length (rSubs r) \<Longrightarrow> others r (read_sub k r)"
| others_cancel: "k < length (rSubs r) \<Longrightarrow> others r (update_sub k Cancel r)"
| others_subscribe: "others r (snd (Subscribe mode start r))"
| others_unsubscribe: "k < length (rSubs r) \<Longrightarrow> others r (snd (Unsubscribe k r))"

text \<open>A run of any interleaving in whose states no Block subscriber is registered, counting the steps
  the emit loop takes.\<close>

inductive unblocked_run ::
  "('s \<Rightarrow> (merge_error + Event option) \<times> 's) \<Rightarrow> bool \<Rightarrow> 's system \<Rightarrow> nat \<Rightarrow> 's system \<Rightarrow> bool" for nxt paced s0 where
  run_starts: "rBlocking (sysRing s0) = [] \<Longrightarrow> unblocked_run nxt paced s0 0 s0"
| run_loop: "unblocked_run nxt paced s0 n s \<Longrightarrow> rBlocking (sysRing (emit_step nxt paced now go s)) = [] \<Longrightarrow>
    unblocked_run nxt paced s0 (Suc n) (emit_step nxt paced now go s)"
| run_others: "unblocked_run nxt paced s0 n s \<Longrightarrow> others (sysRing s) r \<Longrightarrow> rBlocking r = [] \<Longrightarrow>
    unblocked_run nxt paced s0 n (s\<lparr>sysRing := r\<rparr>)"

lemma others_step: "others (sysRing s) r \<Longrightarrow> fan_step nxt paced s (s\<lparr>sysRing := r\<rparr>)"
proof (induction "sysRing s" r rule: others.induct)
  case (others_read k)
  then show ?case using fan_step.reads [of k s nxt paced] by (simp add: on_ring_def)
next
  case (others_cancel k)
  then show ?case using fan_step.cancels [of k s nxt paced] by (simp add: on_ring_def)
next
  case (others_subscribe mode start)
  then show ?case using fan_step.subscribes [of nxt paced s mode start] by (simp add: on_ring_def)
next
  case (others_unsubscribe k)
  then show ?case using fan_step.unsubscribes [of k s nxt paced] by (simp add: on_ring_def)
qed

lemma unblocked_run_reachable: "unblocked_run nxt paced s0 n s \<Longrightarrow> fan_reachable nxt paced s0 s"
proof (induction rule: unblocked_run.induct)
  case (run_loop n s now go)
  have "fan_step nxt paced s (emit_step nxt paced now go s)" by (rule emits)
  with run_loop.IH show ?case unfolding fan_reachable_def by (rule rtranclp.rtrancl_into_rtrancl)
next
  case (run_others n s r)
  from run_others.IH others_step [OF run_others.hyps(2)] show ?case
    unfolding fan_reachable_def by (rule rtranclp.rtrancl_into_rtrancl)
qed (simp add: fan_reachable_def)

lemma unblocked_run_none: "unblocked_run nxt paced s0 n s \<Longrightarrow> rBlocking (sysRing s) = []"
  by (induction rule: unblocked_run.induct) simp_all

lemma others_max: "others r r' \<Longrightarrow> rMaxBlob (rMem r') = rMaxBlob (rMem r)"
proof (induction rule: others.induct)
  case (others_subscribe r mode start)
  then show ?case
    using Subscribe_ring [of mode start r] subscribeNow_frame [of r mode start]
    by (auto simp: enqueue_def same_control_def)
next
  case (others_unsubscribe k r)
  then show ?case
    using Unsubscribe_ring [of k r] unsubscribeNow_frame(1) [of r k] by (auto simp: enqueue_def same_control_def)
qed (simp_all add: read_sub_def)

text \<open>The barrier is at most being looked at, and what the loop has returned is no error, or that a
  payload is longer than the ring takes.\<close>

fun unheld :: "(Event \<Rightarrow> bool) \<Rightarrow> emit_pc \<Rightarrow> bool" where
  "unheld big (BarrierScan ev n ks m since) = (ks = [] \<and> m = - 1 \<and> since = None)"
| "unheld big (BarrierStart ev n) = False"
| "unheld big (BarrierControl ev n a b) = False"
| "unheld big (BarrierWatch ev n a b) = False"
| "unheld big (EvictScan ev n a b ks v) = False"
| "unheld big (BarrierSlip ev n a) = False"
| "unheld big (EmitReturned (Some e)) = (e = RunFanout ErrBlobTooLarge \<and> (\<exists>ev. big ev))"
| "unheld big pc = True"

lemma unheld_weight: "unheld big pc \<Longrightarrow> (\<And>e. pc \<noteq> EmitReturned e) \<Longrightarrow> 0 < pc_weight pc"
proof (cases pc)
  case (Writing ev n w)
  then show ?thesis by (cases w) simp_all
qed auto

definition oversized :: "('s system) \<Rightarrow> Event list \<Rightarrow> Event \<Rightarrow> bool" where
  "oversized s evs ev \<longleftrightarrow> ev \<in> set evs \<and> rMaxBlob (rMem (sysRing s)) < length (ev_payload ev)"

text \<open>One step of the loop, whatever the others have asked for: it is nearer its end.\<close>

definition onward :: "('s \<Rightarrow> Event list) \<Rightarrow> Event list \<Rightarrow> 's system \<Rightarrow> 's system \<Rightarrow> bool" where
  "onward rest evs s s' \<longleftrightarrow> unheld (oversized s evs) (sysPc s') \<and> emit_weight rest s' < emit_weight rest s
     \<and> rMaxBlob (rMem (sysRing s')) = rMaxBlob (rMem (sysRing s))"

lemmas onward_simps = onward_def emit_weight_def emit_step_def

context fan_source begin

lemma onward_store:
  assumes i: "fan_inv ok rest paced algo stream cap s" and pc: "sysPc s = Writing ev n pc"
  shows "onward rest evs s (emit_step nxt paced now go s)"
proof (cases "pc = WriteDone")
  case True
  then show ?thesis using pc by (simp add: onward_simps)
next
  case False
  obtain pc' r' where st: "write_step n (evRecord ev) (ev_payload ev) pc (rMem (sysRing s)) = (pc', r')" by fastforce
  have e: "emit_step nxt paced now go s =
      goto (Writing ev n pc') (set_mem r' (s\<lparr>sysLog := log_after pc (sysLog s) (entry_of ev)\<rparr>))"
    using pc False st by (cases pc) (simp_all add: emit_step_def)
  have w: "write_ok cap (sysLog s) (unat n) (entry_of ev) (rMem (sysRing s)) pc"
    using fan_inv_parts(3) [OF i] pc by (simp add: memory_inv_def)
  have "store_weight ev pc' < store_weight ev pc"
    using st False w record_pc_weight by (cases pc) (auto simp: entry_of_def blob_steps_def)
  then show ?thesis
    using pc write_step_frame(1) [OF st] by (simp add: e onward_def emit_weight_def)
qed

lemma onward_step:
  assumes i: "fan_inv ok rest paced algo (map entry_of evs) cap s"
    and u: "unheld (oversized s evs) (sysPc s)" "rBlocking (sysRing s) = []"
    and r: "\<And>e. sysPc s \<noteq> EmitReturned e"
  shows "onward rest evs s (emit_step nxt paced now go s)"
proof (cases "sysPc s")
  case EmitControl
  then have "rMem (applyControl (sysRing s)) = rMem (sysRing s)"
    using applyControl_quiet(2) [OF fan_quiet [OF i]] by simp
  then show ?thesis using EmitControl by (simp add: onward_simps)
next
  case EmitNext
  have src: "ok (sysSource s)" using fan_inv_parts(1) [OF i] EmitNext by (simp add: source_inv_def)
  obtain src' where n: "nxt (sysSource s) = (Inr (case rest (sysSource s) of [] \<Rightarrow> None | ev # _ \<Rightarrow> Some ev), src')"
    using nxt_eq [OF src] by (cases "nxt (sysSource s)") auto
  show ?thesis
  proof (cases "rest (sysSource s)")
    case Nil
    then show ?thesis using n EmitNext by (simp add: onward_simps)
  next
    case (Cons ev evs)
    have "rest src' = evs" using nxt_Cons [OF src Cons] n by simp
    then show ?thesis using n EmitNext Cons by (simp add: onward_simps)
  qed
next
  case (EmitWait ev)
  then show ?thesis
    using hash_event_goes [OF i EmitWait] by (auto simp: onward_simps)
next
  case (EmitWrite ev)
  have "sysLog s @ map entry_of ([ev] @ rest (sysSource s)) = map entry_of evs"
    using fan_inv_parts(1) [OF i] EmitWrite by (simp add: source_inv_def)
  then have "entry_of ev \<in> set (map entry_of evs)" by (metis append_Cons in_set_conv_decomp list.simps(9))
  then obtain ev' where ev': "ev' \<in> set evs" "ev_payload ev' = ev_payload ev" by (auto simp: entry_of_def)
  show ?thesis
  proof (cases "length (ev_payload ev) > rMaxBlob (rMem (sysRing s))")
    case True
    then have "oversized s evs ev'" using ev' by (simp add: oversized_def)
    then have "\<exists>ev. oversized s evs ev" by blast
    with True EmitWrite show ?thesis by (simp add: onward_simps enter_write_def Let_def)
  qed (use EmitWrite u(2) in \<open>simp add: onward_simps enter_write_def Let_def start_scan_def\<close>)
next
  case (BarrierScan ev n ks m since)
  then have s: "ks = []" "m = - 1" "since = None" using u(1) by simp_all
  then have "emit_step nxt paced now go s = goto (Writing ev n StoreEven) s"
    using alone_scan [OF i] BarrierScan by (simp add: emit_step_def)
  then show ?thesis using s BarrierScan by (simp add: onward_def emit_weight_def)
next
  case (Writing ev n pc)
  then show ?thesis by (rule onward_store [OF i])
next
  case EmitClose
  obtain v where "closeControl (sysRing s) = (sysRing s)\<lparr>rCtrlClosed := True, rCtrlPending := [], rReplies := v\<rparr>"
    using closeControl_eq [of "sysRing s"] by metis
  then show ?thesis using EmitClose by (simp add: onward_simps)
qed (use u r in \<open>simp_all add: onward_simps StartEmitting_def store_end_def Let_def\<close>)

text \<open>As long as it has not returned, the loop has taken no more steps than it was from its end.\<close>

lemma unblocked_run_weight:
  assumes run: "unblocked_run nxt paced s0 n s"
    and inv: "\<And>s. fan_reachable nxt paced s0 s \<Longrightarrow> fan_inv ok rest paced algo (map entry_of evs) cap s"
    and s0: "unheld (oversized s0 evs) (sysPc s0)"
  shows "rMaxBlob (rMem (sysRing s)) = rMaxBlob (rMem (sysRing s0)) \<and> unheld (oversized s0 evs) (sysPc s)
    \<and> ((\<exists>e. sysPc s = EmitReturned e) \<or> n + emit_weight rest s \<le> emit_weight rest s0)"
  using run
proof (induction rule: unblocked_run.induct)
  case run_starts
  then show ?case using s0 by simp
next
  case (run_loop n s now go)
  let ?s = "emit_step nxt paced now go s"
  have big: "oversized s evs = oversized s0 evs" using run_loop.IH by (auto simp: oversized_def fun_eq_iff)
  show ?case
  proof (cases "\<exists>e. sysPc s = EmitReturned e")
    case True
    then have "?s = s" by (auto simp: emit_step_def)
    with True run_loop.IH show ?thesis by metis
  next
    case False
    have "onward rest evs s ?s"
      by (rule onward_step [OF inv [OF unblocked_run_reachable [OF run_loop.hyps(1)]]])
        (use run_loop.IH False unblocked_run_none [OF run_loop.hyps(1)] big in auto)
    with run_loop.IH False big show ?thesis by (auto simp: onward_def)
  qed
next
  case (run_others n s r)
  have "emit_weight rest (s\<lparr>sysRing := r\<rparr>) = emit_weight rest s" by (simp add: emit_weight_def)
  then show ?case using run_others.IH others_max [OF run_others.hyps(2)] by simp
qed

lemma alone_unblocked:
  assumes "unblocked_run nxt False s0 n s" "fan_inv ok rest False algo stream cap s" "Suc (length stream) < 2 ^ 63"
    "alone rest s"
  shows "\<exists>s'. unblocked_run nxt False s0 (n + k) s' \<and> fan_inv ok rest False algo stream cap s' \<and> alone rest s'
    \<and> same_subs (sysRing s) (sysRing s')"
proof (induction k)
  case 0
  then show ?case using assms by (intro exI [of _ s]) (simp add: same_subs_def)
next
  case (Suc k)
  then obtain s' where s': "unblocked_run nxt False s0 (n + k) s'" "fan_inv ok rest False algo stream cap s'"
    "alone rest s'" "same_subs (sysRing s) (sysRing s')" by blast
  let ?s = "emit_step nxt False 0 True s'"
  note none = unblocked_run_none [OF s'(1)]
  have e: "alone rest ?s \<and> same_subs (sysRing s') (sysRing ?s)"
  proof (cases "sysPc s' = EmitReturned None")
    case True
    then have "?s = s'" by (simp add: emit_step_def)
    then show ?thesis using s'(3) by (simp add: same_subs_def)
  next
    case False
    then show ?thesis using alone_step [OF s'(2) assms(3) s'(3) False none, of 0] by (simp add: nearer_def)
  qed
  then have "rBlocking (sysRing ?s) = []" using none by (simp add: same_subs_def)
  from run_loop [OF s'(1) this] have "unblocked_run nxt False s0 (n + Suc k) ?s" by simp
  moreover have "same_subs (sysRing s) (sysRing ?s)" using s'(4) e by (simp add: same_subs_def)
  ultimately show ?case using e fan_inv_emits [OF s'(2) assms(3)] by blast
qed

end

text \<open>C17: Without a Block subscriber the loop ends by itself. In every interleaving with Drop
  subscribers that read, join, leave and cancel as they like, paced or not, as long as no Block
  subscriber is registered the loop has returned after a fixed number of its steps for each event and
  each word of its payload, whatever the clock shows. It has returned because a payload of
  the stream is longer than the ring takes, or without an error, and has then written the whole merged
  stream unless a pacer stopped it.\<close>

theorem run_ends:
  assumes "run_inputs cfg cs workers shape" and "start_run cfg cs workers shape algo = Some s0"
    and "unblocked_run merger_Next paced s0 n s"
    and "5 + sum_list (map (\<lambda>ev. 17 + blob_steps ev) (merge_of cs)) \<le> n"
  shows "sysPc s = EmitReturned None
      \<and> (sysLog s = merged cs \<or> pacer_stopped (fan_run cfg cs workers shape algo) paced s)
    \<or> sysPc s = EmitReturned (Some (RunFanout ErrBlobTooLarge))
      \<and> (\<exists>ev \<in> set (merge_of cs). cfgMaxBlobBytes cfg < int (length (ev_payload ev)))"
proof -
  have i: "sound_cursors cs" "workers > 0 \<longrightarrow> shape_valid shape"
    using assms(1) by (simp_all add: run_inputs_def)
  obtain m where m: "newMerger cs workers shape = Inr m" "merger_ok m" "merger_rest m = merge_of cs"
    using newMerger_ok [OF i] by blast
  obtain r where r: "newRing cfg = Inr r" "s0 = start_system r m (map_option NewCanonicalHasher algo)"
    using assms(2) m(1) by (auto simp: start_run_def split: sum.splits)
  then have ring: "rBlocking r = []" "rMaxBlob (rMem r) = nat (cfgMaxBlobBytes cfg)" "0 \<le> cfgMaxBlobBytes cfg"
    by (auto simp: newRing_def bindE_eq_Inr_iff NewRing_def Let_def split: if_splits)
  have f: "fan_inv feeds_ring merger_rest paced algo (map entry_of (merge_of cs)) (nat (cfgCapacity cfg)) s"
    if "fan_reachable merger_Next paced s0 s" for s
    using that assms(2) by (intro fan_run_inv [OF assms(1)]) (auto simp: fan_run_def)
  have w: "emit_weight merger_rest s0 = 5 + sum_list (map (\<lambda>ev. 17 + blob_steps ev) (merge_of cs))"
    using r(2) m(3) by (simp add: emit_weight_def start_system_def)
  have "unheld (oversized s0 (merge_of cs)) (sysPc s0)" using r(2) by (simp add: start_system_def)
  note e = fan.unblocked_run_weight [OF assms(3) f this]
  have big: "oversized s0 (merge_of cs) ev \<longleftrightarrow> ev \<in> set (merge_of cs) \<and> cfgMaxBlobBytes cfg < int (length (ev_payload ev))"
    for ev using r(2) ring(2,3) by (auto simp: oversized_def start_system_def)
  have "\<exists>e. sysPc s = EmitReturned e"
  proof (rule ccontr)
    assume ret: "\<not> ?thesis"
    then have "emit_weight merger_rest s = 0" using e w assms(4) by auto
    then have "pc_weight (sysPc s) = 0" by (simp add: emit_weight_def)
    with unheld_weight [OF conjunct1 [OF conjunct2 [OF e]]] ret show False by auto
  qed
  then obtain x where x: "sysPc s = EmitReturned x" by blast
  show ?thesis
  proof (cases x)
    case None
    have "fan_run cfg cs workers shape algo paced s"
      using unblocked_run_reachable [OF assms(3)] assms(2) by (auto simp: fan_run_def)
    from run_log_end [OF assms(1) this] show ?thesis using x None by simp
  next
    case (Some y)
    then show ?thesis using x e big by auto
  qed
qed

section \<open>A reader alone\<close>

lemma funpow_step: "f x = y \<Longrightarrow> (f ^^ m) y = z \<Longrightarrow> (f ^^ Suc m) x = z"
  by (simp add: funpow_swap1)

definition plain_delivery :: "entry \<Rightarrow> Delivery" where
  "plain_delivery e = \<lparr>dRecord = fst e, dBlob = entry_blob e, dGap = noGap, dHasGap = False\<rparr>"

lemma reading_loads:
  assumes "loads r n rec0 pc res" "rec0 = zeroRecord" "rrComplete res" "sbPc u = Reading n pc" "sbPos u = n"
  shows "\<exists>m. (sub_step r ^^ m) u = u\<lparr>sbPc := StoreCursor
    \<lparr>dRecord = rrRec res, dBlob = rrBlob res, dGap = noGap, dHasGap = False\<rparr> (n + 1)\<rparr>"
  using assms
proof (induction arbitrary: u)
  case (last_load pc res)
  then show ?case by (intro exI [of _ 1]) (simp add: sub_step_def next_step_def)
next
  case (next_load pc pc' res)
  let ?u = "u\<lparr>sbPc := Reading n pc'\<rparr>"
  have s: "sub_step r u = ?u" using next_load by (simp add: sub_step_def next_step_def)
  obtain m where "(sub_step r ^^ m) ?u = ?u\<lparr>sbPc := StoreCursor
      \<lparr>dRecord = rrRec res, dBlob = rrBlob res, dGap = noGap, dHasGap = False\<rparr> (n + 1)\<rparr>"
    using next_load.IH [of ?u] next_load.prems by auto
  from funpow_step [where f = "sub_step r", OF s this] show ?case by (intro exI [of _ "Suc m"]) simp
qed

text \<open>A call of \<^verbatim>\<open>Next\<close> on an entry within the last lap returns it, while nothing is written.\<close>

lemma next_call_delivers:
  assumes "mem_ok cap log False r" "n < length log" "length log \<le> n + cap"
    and u: "sbPc u = Outside" "\<not> sbEvicted u" "\<not> sbCanceled u" "sbPos u = of_nat n"
  shows "\<exists>m. (sub_step r ^^ m) u = u\<lparr>sbPos := of_nat n + 1, sbCursor := of_nat n + 1,
    sbTrace := sbTrace u @ [Delivered (plain_delivery (log ! n))]\<rparr>"
proof -
  let ?d = "plain_delivery (log ! n)" and ?n = "of_nat n :: u64"
  let ?u1 = "u\<lparr>sbPc := CheckEvicted\<rparr>" and ?u2 = "u\<lparr>sbPc := CheckCanceled\<rparr>" and ?u3 = "u\<lparr>sbPc := Reading ?n LoadSeq\<rparr>"
  let ?u4 = "u\<lparr>sbPc := StoreCursor ?d (?n + 1)\<rparr>"
  have steps: "sub_step r u = ?u1" "sub_step r ?u1 = ?u2" "sub_step r ?u2 = ?u3"
    using u by (simp_all add: sub_step_def)
  note rd = read_ready [OF assms(1-3), of zeroRecord]
  have "rrComplete (read r ?n zeroRecord)" by (simp add: rd)
  from reading_loads [OF read_loads refl this, of ?u3] u(4)
  obtain m where m: "(sub_step r ^^ m) ?u3 = ?u4" by (auto simp: rd plain_delivery_def)
  have last: "sub_step r ?u4 = u\<lparr>sbPos := ?n + 1, sbCursor := ?n + 1, sbTrace := sbTrace u @ [Delivered ?d]\<rparr>"
    using u(1) by (cases u) (simp add: sub_step_def return_next_def)
  have "(sub_step r ^^ Suc m) ?u3 = sub_step r ?u4" using m by simp
  note go = funpow_step [where f = "sub_step r", OF steps(1) funpow_step [where f = "sub_step r", OF steps(2)
      funpow_step [where f = "sub_step r", OF steps(3) this]]]
  then show ?thesis unfolding last by blast
qed

lemma reads_funpow:
  assumes "k < length (rSubs (sysRing s))"
  shows "fan_reachable nxt paced s (on_ring (update_sub k (sub_step (rMem (sysRing s)) ^^ m)) s)"
proof (induction m)
  case 0
  have "on_ring (update_sub k (sub_step (rMem (sysRing s)) ^^ 0)) s = s"
    by (simp add: on_ring_def update_sub_def)
  then show ?case unfolding fan_reachable_def by (metis rtranclp.rtrancl_refl)
next
  case (Suc m)
  let ?s = "on_ring (update_sub k (sub_step (rMem (sysRing s)) ^^ m)) s"
  have "on_ring (read_sub k) ?s = on_ring (update_sub k (sub_step (rMem (sysRing s)) ^^ Suc m)) s"
    using assms by (simp add: on_ring_def read_sub_def update_sub_def)
  moreover have "fan_step nxt paced ?s (on_ring (read_sub k) ?s)"
    using assms by (intro reads) (simp add: on_ring_def update_sub_def)
  ultimately show ?case
    using Suc unfolding fan_reachable_def by (metis rtranclp.rtrancl_into_rtrancl)
qed

section \<open>A sample run\<close>

text \<open>Six events of two venues through a ring of two slots.\<close>

definition sample_config :: Config where
  "sample_config = \<lparr>cfgCapacity = 2, cfgMaxBlobBytes = 64, cfgWatchdogTimeout = 0\<rparr>"

definition sample_cursors :: "Cursor list" where
  "sample_cursors = [sample_cursor 3, sample_cursor 4]"

lemma sample_inputs: "run_inputs sample_config sample_cursors 0 defaultBatchShape"
  by (simp add: run_inputs_def sample_cursors_def sample_sound sample_merge arena_fits_def sample_config_def)

lemma sample_payloads: "list_all (\<lambda>ev. length (ev_payload ev) \<le> 64 \<and> blob_steps ev \<le> 8) (merge_of sample_cursors)"
  by (simp add: sample_cursors_def sample_merge image_events_def sample_events_def ev_payload_def blob_steps_def
      levelSize_def)

lemma sample_start:
  obtains r m where "newRing sample_config = Inr r" "merger_rest m = merge_of sample_cursors"
    "start_run sample_config sample_cursors 0 defaultBatchShape (Some CanonicalSHA256)
       = Some (start_system r m (Some (NewCanonicalHasher CanonicalSHA256)))"
    "rBlocking r = []" "rCtrlPending r = []" "rSubs r = []" "rIssued r = 0" "\<not> rCtrlClosed r" "\<not> rCtrlStarted r"
    "rMaxBlob (rMem r) = 64" "rWriteSeq (rMem r) = 0"
proof -
  obtain m where m: "newMerger sample_cursors 0 defaultBatchShape = Inr m" "merger_rest m = merge_of sample_cursors"
    using newMerger_ok [of sample_cursors 0 defaultBatchShape] sample_sound by (auto simp: sample_cursors_def)
  obtain r where r: "newRing sample_config = Inr r" "rBlocking r = []" "rCtrlPending r = []" "rSubs r = []" "rIssued r = 0"
    "\<not> rCtrlClosed r" "\<not> rCtrlStarted r" "rMaxBlob (rMem r) = 64" "rWriteSeq (rMem r) = 0"
    by (simp add: newRing_def NewRing_def sample_config_def go_quot_def wrap64_def)
  show thesis by (rule that [OF r(1) m(2) _ r(2-)]) (simp add: start_run_def m r)
qed

abbreviation sample_run :: "Merger system \<Rightarrow> bool" where
  "sample_run \<equiv> fan_run sample_config sample_cursors 0 defaultBatchShape (Some CanonicalSHA256) False"

lemma sample_length: "length (merge_of sample_cursors) = 6"
  by (simp add: sample_cursors_def sample_merge)

lemma sample_inv:
  "sample_run s \<Longrightarrow>
   fan_inv feeds_ring merger_rest False (Some CanonicalSHA256) (merged sample_cursors) 2 s"
  using fan_run_inv [OF sample_inputs] by (simp add: sample_config_def)

lemma fan_run_steps: "fan_run cfg cs workers shape algo paced s \<Longrightarrow> fan_reachable merger_Next paced s s' \<Longrightarrow>
    fan_run cfg cs workers shape algo paced s'"
  unfolding fan_run_def fan_reachable_def by (meson rtranclp_trans)

lemma fan_reachable_step: "fan_step nxt paced s s' \<Longrightarrow> fan_reachable nxt paced s s'"
  by (simp add: fan_reachable_def)

lemma sample_goes_on:
  assumes r: "sample_run s" and a: "alone merger_rest s"
  obtains s' where "sample_run s'" "same_subs (sysRing s) (sysRing s')"
    "sysPc s' = EmitReturned None \<or> at_barrier (sysPc s') \<and> rBlocking (sysRing s') \<noteq> []"
proof -
  have l: "Suc (length (merged sample_cursors)) < 2 ^ 63" by (simp add: sample_length)
  obtain s' where s': "fan_reachable merger_Next False s s'" "same_subs (sysRing s) (sysRing s')"
      "sysPc s' = EmitReturned None \<or> at_barrier (sysPc s') \<and> rBlocking (sysRing s') \<noteq> []"
    using fan.alone_until [OF sample_inv [OF r] l a] by blast
  show thesis by (rule that [OF fan_run_steps [OF r s'(1)] s'(2,3)])
qed

text \<open>A Block subscriber that never reads stops the loop after two records.\<close>

lemma sample_blocked:
  obtains s where "sample_run s" "at_barrier (sysPc s)" "rBlocking (sysRing s) = [0]"
    "rSubs (sysRing s) = [new_subscriber ModeBlock Beginning 0]" "length (sysLog s) = 2"
proof -
  obtain r m where r: "merger_rest m = merge_of sample_cursors"
    "start_run sample_config sample_cursors 0 defaultBatchShape (Some CanonicalSHA256)
       = Some (start_system r m (Some (NewCanonicalHasher CanonicalSHA256)))"
    "rBlocking r = []" "rCtrlPending r = []" "rSubs r = []" "rIssued r = 0" "\<not> rCtrlClosed r" "\<not> rCtrlStarted r"
    "rMaxBlob (rMem r) = 64" "rWriteSeq (rMem r) = 0"
    by (rule sample_start)
  let ?s0 = "start_system r m (Some (NewCanonicalHasher CanonicalSHA256))"
  let ?s1 = "on_ring (\<lambda>r. snd (Subscribe ModeBlock Beginning r)) ?s0"
  have "sample_run ?s0" using r(2) by (auto simp: fan_run_def fan_reachable_def)
  then have run: "sample_run ?s1" by (rule fan_run_steps [OF _ fan_reachable_step [OF subscribes]])
  have subs: "rSubs (sysRing ?s1) = [new_subscriber ModeBlock Beginning 0]" "rBlocking (sysRing ?s1) = [0]"
    "rCtrlPending (sysRing ?s1) = []" "rMem (sysRing ?s1) = rMem r" "sysPc ?s1 = EmitInit" "sysSource ?s1 = m"
    using r by (simp_all add: on_ring_def start_system_def Subscribe_def Beginning_def start_at_def subscribeNow_def
        resolve_start_def oldestIndex_def Let_def)
  have "alone merger_rest ?s1"
    using subs r(1,9) sample_payloads by (simp add: alone_def list_all_iff)
  then obtain s where s: "sample_run s" "same_subs (sysRing ?s1) (sysRing s)"
      "sysPc s = EmitReturned None \<or> at_barrier (sysPc s) \<and> rBlocking (sysRing s) \<noteq> []"
    by (rule sample_goes_on [OF run])
  note p = fan_inv_parts [OF sample_inv [OF s(1)]]
  have k: "rSubs (sysRing s) = [new_subscriber ModeBlock Beginning 0]" "rBlocking (sysRing s) = [0]"
    using s(2) subs by (simp_all add: same_subs_def)
  have "begun s \<le> 2" using p(4) k by (simp add: subs_inv_def block_inv_def new_subscriber_def)
  then have le: "length (sysLog s) \<le> 2" by (simp add: begun_def)
  have pc: "at_barrier (sysPc s)"
    using s(3) p(1) le by (auto simp: source_inv_def sample_length)
  then obtain ev n where b: "barrier_ok (sysLog s) (rMem (sysRing s)) ev n"
    and m: "mem_ok 2 (sysLog s) False (rMem (sysRing s))"
    using p(3) by (cases "sysPc s") (auto simp: memory_inv_def)
  have "of_nat (Capacity (rMem (sysRing s))) \<le> n" "n = of_nat (length (sysLog s))"
    using b unfolding barrier_ok_def by blast+
  moreover have "Capacity (rMem (sysRing s)) = 2"
    using mem_okD(1) [OF m] by (simp add: Capacity_def geom_def)
  ultimately have "2 \<le> length (sysLog s)"
    using mem_okD(2) [OF m] by (simp add: word_le_nat_alt)
  with le have "length (sysLog s) = 2" by simp
  then show thesis by (rule that [OF s(1) pc k(2,1)])
qed

text \<open>Then it reads.\<close>

lemma sample_read:
  obtains s u where "sample_run s" "rBlocking (sysRing s) = [0]" "rSubs (sysRing s) = [u]" "length (sysLog s) = 2"
    "sbFrom u = 0" "sbCursor u = 1" "sbTrace u = [Delivered (plain_delivery (sysLog s ! 0))]"
proof -
  obtain s where s: "sample_run s" "at_barrier (sysPc s)" "rBlocking (sysRing s) = [0]"
    "rSubs (sysRing s) = [new_subscriber ModeBlock Beginning 0]" "length (sysLog s) = 2"
    by (rule sample_blocked)
  have m: "mem_ok 2 (sysLog s) False (rMem (sysRing s))"
    using fan_inv_parts(3) [OF sample_inv [OF s(1)]] s(2) by (cases "sysPc s") (simp_all add: memory_inv_def)
  let ?u = "new_subscriber ModeBlock Beginning 0"
  from next_call_delivers [OF m, of 0 ?u] s(5)
  obtain k where k: "(sub_step (rMem (sysRing s)) ^^ k) ?u = ?u\<lparr>sbPos := 1, sbCursor := 1,
      sbTrace := [Delivered (plain_delivery (sysLog s ! 0))]\<rparr>"
    by (auto simp: new_subscriber_def)
  let ?s = "on_ring (update_sub 0 (sub_step (rMem (sysRing s)) ^^ k)) s"
  have run: "sample_run ?s" by (rule fan_run_steps [OF s(1) reads_funpow]) (simp add: s(4))
  show thesis
    by (rule that [OF run]) (simp_all add: on_ring_def update_sub_def s k, simp_all add: new_subscriber_def)
qed

text \<open>A Drop subscriber that joins while the loop runs, and the loop run to its end.\<close>

lemma sample_finished:
  obtains s where "sample_run s" "sysPc s = EmitReturned None" "rIssued (sysRing s) = 1"
    "length (rSubs (sysRing s)) = 1"
proof -
  obtain r m where r: "merger_rest m = merge_of sample_cursors"
    "start_run sample_config sample_cursors 0 defaultBatchShape (Some CanonicalSHA256)
       = Some (start_system r m (Some (NewCanonicalHasher CanonicalSHA256)))"
    "rBlocking r = []" "rCtrlPending r = []" "rSubs r = []" "rIssued r = 0" "\<not> rCtrlClosed r" "\<not> rCtrlStarted r"
    "rMaxBlob (rMem r) = 64" "rWriteSeq (rMem r) = 0"
    by (rule sample_start)
  let ?s0 = "start_system r m (Some (NewCanonicalHasher CanonicalSHA256))"
  let ?s1 = "emit_step merger_Next False 0 True ?s0"
  let ?s2 = "on_ring (\<lambda>r. snd (Subscribe ModeDrop Live r)) ?s1"
  let ?s3 = "emit_step merger_Next False 0 True ?s2"
  have "sample_run ?s0" using r(2) by (auto simp: fan_run_def fan_reachable_def)
  then have "sample_run ?s1" by (rule fan_run_steps [OF _ fan_reachable_step [OF emits]])
  then have "sample_run ?s2" by (rule fan_run_steps [OF _ fan_reachable_step [OF subscribes]])
  then have run: "sample_run ?s3" by (rule fan_run_steps [OF _ fan_reachable_step [OF emits]])
  have pc2: "sysPc ?s2 = EmitControl" "sysSource ?s2 = m"
    "sysRing ?s2 = r\<lparr>rCtrlStarted := True, rCtrlPending := [(0, controlSubscribe ModeDrop Live)], rIssued := 1\<rparr>"
    using r by (simp_all add: emit_step_def start_system_def on_ring_def goto_def StartEmitting_def Subscribe_def
        enqueue_def Live_def start_at_def)
  have step: "sysRing (emit_step merger_Next False 0 True s) = applyControl (sysRing s)
      \<and> sysPc (emit_step merger_Next False 0 True s) = EmitNext
      \<and> sysSource (emit_step merger_Next False 0 True s) = sysSource s" if "sysPc s = EmitControl" for s
    using that by (simp add: emit_step_def goto_def on_ring_def)
  have subs: "length (rSubs (sysRing ?s3)) = 1" "rBlocking (sysRing ?s3) = []" "rIssued (sysRing ?s3) = 1"
    "rCtrlPending (sysRing ?s3) = []" "rMem (sysRing ?s3) = rMem r" "sysPc ?s3 = EmitNext" "sysSource ?s3 = m"
    unfolding step [OF pc2(1), THEN conjunct1] step [OF pc2(1), THEN conjunct2, THEN conjunct1]
      step [OF pc2(1), THEN conjunct2, THEN conjunct2] pc2
    using r by (simp_all add: applyControl_def subscribeNow_def resolve_start_def Live_def start_at_def Let_def reply_def)
  have "alone merger_rest ?s3"
    using subs r(1,9) sample_payloads by (simp add: alone_def list_all_iff)
  then obtain s where s: "sample_run s" "same_subs (sysRing ?s3) (sysRing s)"
      "sysPc s = EmitReturned None \<or> at_barrier (sysPc s) \<and> rBlocking (sysRing s) \<noteq> []"
    by (rule sample_goes_on [OF run])
  then have "rBlocking (sysRing s) = []" "rIssued (sysRing s) = 1" "length (rSubs (sysRing s)) = 1"
    using subs by (simp_all add: same_subs_def)
  with s that [OF s(1)] show thesis by simp
qed

section \<open>Witnesses\<close>

theorem subscriber_exact_witness:
  "\<exists>s u. sample_run s \<and> rSubs (sysRing s) = [u] \<and> sbTrace u \<noteq> [] \<and> sbFrom u = 0
     \<and> tiles (sysLog s) 0 (sbTrace u) = Some 1"
proof -
  obtain s u where s: "sample_run s" "rBlocking (sysRing s) = [0]" "rSubs (sysRing s) = [u]" "length (sysLog s) = 2"
    "sbFrom u = 0" "sbCursor u = 1" "sbTrace u = [Delivered (plain_delivery (sysLog s ! 0))]"
    by (rule sample_read)
  have "0 < length (rSubs (sysRing s))" "u = rSubs (sysRing s) ! 0" "unat (sbFrom u) < 2 ^ 63" using s by simp_all
  from subscriber_exact [OF sample_inputs s(1) this] s show ?thesis
    by (intro exI [of _ s] exI [of _ u]) (simp add: sub_Cursor_def)
qed


theorem run_digest_witness:
  "\<exists>s h. sample_run s \<and> sysPc s = EmitReturned None \<and> sysLog s = merged sample_cursors \<and> sysHash s = Some h
     \<and> fst (hasher_Sum h []) = hash_of CanonicalSHA256 (canonical_input (merged sample_cursors))"
proof -
  obtain s where s: "sample_run s" "sysPc s = EmitReturned None"
    by (rule sample_finished)
  from run_digest [OF sample_inputs s(1)] s show ?thesis by (auto simp: pacer_stopped_def)
qed

lemma distinct_one: "distinct xs \<Longrightarrow> set xs = {a} \<Longrightarrow> xs = [a]"
proof (cases xs)
  case (Cons x ys)
  assume "distinct xs" "set xs = {a}"
  with Cons show ?thesis by (cases ys) auto
qed simp

theorem control_answers_witness:
  "\<exists>s. sample_run s \<and> rIssued (sysRing s) = 1 \<and> map fst (rReplies (sysRing s)) = [0]
     \<and> fst (Subscribe ModeBlock Live (sysRing s)) = Inl (Inl ErrClosed)"
proof -
  obtain s where s: "sample_run s" "sysPc s = EmitReturned None" "rIssued (sysRing s) = 1"
    by (rule sample_finished)
  note r = control_answers [OF sample_inputs s(1)]
  have c: "distinct (map fst (rReplies (sysRing s)))" by (rule conjunct1 [OF r])
  note e = mp [OF conjunct2 [OF conjunct2 [OF r]] s(2), unfolded s(3)]
  have "{0..<1 :: nat} = {0}" by auto
  note o = conjunct1 [OF e, unfolded this]
  have "map fst (rReplies (sysRing s)) = [0]" by (rule distinct_one [OF c o])
  then show ?thesis
    by - (rule exI [of _ s], intro conjI, rule s(1), rule s(3), assumption, rule conjunct2 [OF e])
qed

theorem barrier_ready_witness:
  "\<exists>s. sample_run s \<and> at_barrier (sysPc s) \<and> length (sysLog s) = 2
     \<and> read (rMem (sysRing s)) 0 zeroRecord =
         \<lparr>rrRec = fst (sysLog s ! 0), rrBlob = entry_blob (sysLog s ! 0), rrHeld = 0, rrComplete = True\<rparr>"
proof -
  obtain s where s: "sample_run s" "at_barrier (sysPc s)" "rBlocking (sysRing s) = [0]"
    "rSubs (sysRing s) = [new_subscriber ModeBlock Beginning 0]" "length (sysLog s) = 2"
    by (rule sample_blocked)
  let ?u = "new_subscriber ModeBlock Beginning 0"
  have u: "0 \<in> set (rBlocking (sysRing s))" "?u = rSubs (sysRing s) ! 0" "unat (sbFrom ?u) < 2 ^ 63"
    "unat (sub_Cursor ?u) + nat (cfgCapacity sample_config) \<le> length (sysLog s)"
    using s by (simp_all add: new_subscriber_def sub_Cursor_def sample_config_def)
  from barrier_ready [OF sample_inputs s(1,2) u, of zeroRecord] s show ?thesis
    by (intro exI [of _ s]) (simp add: new_subscriber_def sub_Cursor_def)
qed

theorem run_ends_witness:
  "\<exists>s0 s u. start_run sample_config sample_cursors 0 defaultBatchShape (Some CanonicalSHA256) = Some s0
     \<and> unblocked_run merger_Next False s0 200 s \<and> rSubs (sysRing s) = [u] \<and> sub_Mode u = ModeDrop
     \<and> sysPc s = EmitReturned None \<and> sysLog s = merged sample_cursors"
proof -
  obtain r m where s0: "merger_rest m = merge_of sample_cursors"
      "start_run sample_config sample_cursors 0 defaultBatchShape (Some CanonicalSHA256)
         = Some (start_system r m (Some (NewCanonicalHasher CanonicalSHA256)))"
      "rBlocking r = []" "rCtrlPending r = []" "rSubs r = []" "\<not> rCtrlClosed r" "\<not> rCtrlStarted r"
      "rMaxBlob (rMem r) = 64"
    by (rule sample_start)
  let ?s0 = "start_system r m (Some (NewCanonicalHasher CanonicalSHA256))"
  let ?r1 = "snd (Subscribe ModeDrop Live r)" and ?s1 = "?s0\<lparr>sysRing := snd (Subscribe ModeDrop Live r)\<rparr>"
  have r1: "?r1 = r\<lparr>rSubs := [new_subscriber ModeDrop Live (rWriteSeq (rMem r))]\<rparr>"
    using s0 by (simp add: Subscribe_def subscribeNow_def resolve_start_def Live_def start_at_def Let_def)
  have run1: "unblocked_run merger_Next False ?s0 0 ?s1"
  proof (rule run_others [OF run_starts])
    show "others (sysRing ?s0) ?r1" using others_subscribe [of r ModeDrop Live] by (simp add: start_system_def)
  qed (use s0 r1 in \<open>simp_all add: start_system_def\<close>)
  have "sample_run ?s1"
    using unblocked_run_reachable [OF run1] s0(2) by (auto simp: fan_run_def)
  note i = sample_inv [OF this]
  have l: "Suc (length (merged sample_cursors)) < 2 ^ 63" by (simp add: sample_length)
  have "alone merger_rest ?s1"
    using s0 r1 sample_payloads by (simp add: alone_def start_system_def list_all_iff)
  from fan.alone_unblocked [OF run1 i l this, of 200]
  obtain s where s: "unblocked_run merger_Next False ?s0 200 s" "same_subs (sysRing ?s1) (sysRing s)" by auto
  have "sum_list (map (\<lambda>ev. 17 + blob_steps ev) (merge_of sample_cursors))
      \<le> sum_list (map (\<lambda>_. 25) (merge_of sample_cursors))"
    using sample_payloads by (intro sum_list_mono) (auto simp: list_all_iff)
  then have "5 + sum_list (map (\<lambda>ev. 17 + blob_steps ev) (merge_of sample_cursors)) \<le> 200"
    by (simp add: sum_list_triv sample_length)
  note e = run_ends [OF sample_inputs s0(2) s(1) this]
  have "\<forall>ev \<in> set (merge_of sample_cursors). \<not> cfgMaxBlobBytes sample_config < int (length (ev_payload ev))"
    using sample_payloads by (auto simp: list_all_iff sample_config_def)
  with e have "sysPc s = EmitReturned None \<and> sysLog s = merged sample_cursors"
    by (auto simp: pacer_stopped_def)
  moreover have "rSubs (sysRing s) = [new_subscriber ModeDrop Live (rWriteSeq (rMem r))]"
    using s(2) r1 by (simp add: same_subs_def)
  moreover have "sub_Mode (new_subscriber ModeDrop Live (rWriteSeq (rMem r))) = ModeDrop"
    by (simp add: new_subscriber_def sub_Mode_def)
  ultimately show ?thesis using s0(2) s(1) by blast
qed

end
