(* ===== verification/Convert_Row.thy ===== *)
theory Convert_Row
  imports Store_Image Book Fanout_Speed "HOL-Library.Multiset"
begin

text \<open>
  Rows of the archive and the partitions of the output: \<^verbatim>\<open>recordOf\<close> and \<^verbatim>\<open>splitLevels\<close> of
  \<^verbatim>\<open>src/cmd/convert/convert.go\<close>, the row types of \<^verbatim>\<open>schema.go\<close>, and \<^verbatim>\<open>partition.go\<close>.
\<close>

section \<open>Rows\<close>

record SourceLevel =
  slSide :: u32
  slPrice :: i64
  slSize :: i64

record SourceRow =
  srExchangeTs :: i64
  srSequenceNumber :: u64
  srInstrumentID :: u32
  srVenueID :: u32
  srRecordType :: u32
  srSideFlags :: u32
  srPrice :: i64
  srSize :: i64
  srLevels :: "SourceLevel list"

text \<open>The classes of rejection of a row; \<open>RowBook\<close> is an error of the order book.\<close>

datatype row_error =
    ErrVenueIDRange | ErrRecordTypeRange | ErrSideFlagsRange | ErrLevelsOnNonSnap | ErrSnapshotFieldSet
  | ErrLevelSide | ErrExchangeTsDecreased | RowBook book_error

text \<open>The loop of \<^verbatim>\<open>splitLevels\<close>. The side is converted to a byte before it is compared.\<close>

primrec split_loop :: "SourceLevel list \<Rightarrow> Level list \<Rightarrow> Level list \<Rightarrow> row_error + Level list \<times> Level list" where
  "split_loop [] bids asks = Inr (bids, asks)"
| "split_loop (l # ls) bids asks =
     (let sd = (ucast (slSide l) :: u8); lv = \<lparr>lPrice = slPrice l, lSize = slSize l\<rparr> in
      if sd = SideBid then split_loop ls (bids @ [lv]) asks
      else if sd = SideAsk then split_loop ls bids (asks @ [lv])
      else Inl ErrLevelSide)"

text \<open>\<^verbatim>\<open>sort.SliceStable\<close>, on the price downwards and upwards.\<close>

definition splitLevels :: "SourceLevel list \<Rightarrow> row_error + Level list \<times> Level list" where
  "splitLevels levels =
     bindE (split_loop levels [] []) (\<lambda>(bids, asks).
       Inr (sort_key (\<lambda>l. - sint (lPrice l)) bids, sort_key (\<lambda>l. sint (lPrice l)) asks))"

definition recordOf :: "SourceRow \<Rightarrow> row_error + Record \<times> Level list \<times> Level list" where
  "recordOf row =
     (if srVenueID row > 65535 then Inl ErrVenueIDRange
      else if srRecordType row > ucast RecordTypeSnapshotPointer then Inl ErrRecordTypeRange
      else if srSideFlags row > ucast SideAsk then Inl ErrSideFlagsRange
      else
        let rec = zeroRecord\<lparr>ExchangeTs := srExchangeTs row, SequenceNumber := srSequenceNumber row,
              InstrumentID := srInstrumentID row, VenueID := ucast (srVenueID row),
              RecordType := ucast (srRecordType row)\<rparr> in
        if RecordType rec \<noteq> RecordTypeSnapshotPointer then
          if length (srLevels row) \<noteq> 0 then Inl ErrLevelsOnNonSnap
          else Inr (rec\<lparr>SideFlags := ucast (srSideFlags row), Price := srPrice row, Size := srSize row\<rparr>, [], [])
        else if srPrice row \<noteq> 0 \<or> srSize row \<noteq> 0 \<or> srSideFlags row \<noteq> 0 then Inl ErrSnapshotFieldSet
        else bindE (splitLevels (srLevels row)) (\<lambda>(bids, asks). Inr (rec, bids, asks)))"

section \<open>Partitions\<close>

definition nanosPerDay :: int where "nanosPerDay = 24 * 60 * 60 * 1000000000"

definition floorDiv :: "int \<Rightarrow> int \<Rightarrow> int" where
  "floorDiv a b =
     (let q = go_quot a b in if go_rem a b \<noteq> 0 \<and> (a < 0) \<noteq> (b < 0) then wrap64 (q - 1) else q)"

record PartitionKey =
  pkVenueID :: u16
  pkDay :: int

definition PartitionOf :: "u16 \<Rightarrow> i64 \<Rightarrow> PartitionKey" where
  "PartitionOf venueID exchangeTs = \<lparr>pkVenueID = venueID, pkDay = floorDiv (sint exchangeTs) nanosPerDay\<rparr>"

definition key_Compare :: "PartitionKey \<Rightarrow> PartitionKey \<Rightarrow> int" where
  "key_Compare k other =
     (if pkVenueID k \<noteq> pkVenueID other then (if pkVenueID k < pkVenueID other then - 1 else 1)
      else if pkDay k \<noteq> pkDay other then (if pkDay k < pkDay other then - 1 else 1)
      else 0)"

lemma floorDiv_eq:
  assumes "int64 a" "1 < b" "b < 2 ^ 63"
  shows "floorDiv a b = a div b"
proof (cases "0 \<le> a")
  case True
  then show ?thesis using assms(2) by (simp add: floorDiv_def go_quot_nonneg)
next
  case False
  let ?q = "\<bar>a\<bar> div b"
  have neg: "go_quot a b = - ?q" "go_rem a b = - (\<bar>a\<bar> mod b)"
    using False assms(2) go_rem_sgn [of b a] by (simp_all add: go_quot_def)
  have a: "a = - \<bar>a\<bar>" and b: "b \<noteq> 0" using False assms(2) by simp_all
  have q: "0 \<le> ?q" using assms(2) by (simp add: pos_imp_zdiv_nonneg_iff)
  show ?thesis
  proof (cases "\<bar>a\<bar> mod b = 0")
    case True
    then have "a div b = - ?q" using zdiv_zminus1_eq_if [OF b, of "\<bar>a\<bar>"] a by simp
    with True neg show ?thesis by (simp add: floorDiv_def)
  next
    case r: False
    then have d: "a div b = - ?q - 1" using zdiv_zminus1_eq_if [OF b, of "\<bar>a\<bar>"] a by simp
    have "wrap64 (- ?q - 1) = - ?q - 1"
    proof (rule wrap64_id)
      have "2 * ?q \<le> b * ?q" using assms(2) q by (intro mult_right_mono) simp_all
      also have "b * ?q \<le> \<bar>a\<bar>" using assms(2) pos_mod_sign [of b "\<bar>a\<bar>"] mult_div_mod_eq [of b "\<bar>a\<bar>"] by linarith
      finally have "2 * ?q \<le> 2 ^ 63" using False assms(1) by (simp add: int64_def)
      then show "- (2 ^ 63) \<le> - ?q - 1" by simp
      show "- ?q - 1 < 2 ^ 63" using q by simp
    qed
    moreover have "(a < 0) \<noteq> (b < 0)" using False assms(2) by simp
    ultimately show ?thesis using r neg d by (simp add: floorDiv_def)
  qed
qed

lemma sint_int64: "int64 (sint (x :: i64))"
  using sint_greater_eq [of x] sint_lt [of x] by (simp add: int64_def)

lemma PartitionOf_eq: "PartitionOf v ts = \<lparr>pkVenueID = v, pkDay = sint ts div nanosPerDay\<rparr>"
  using floorDiv_eq [OF sint_int64, of nanosPerDay ts] by (simp add: PartitionOf_def nanosPerDay_def)

text \<open>The comparison is that of a linear order.\<close>

instantiation PartitionKey_ext :: (linorder) linorder
begin

definition less_eq_PartitionKey_ext :: "'a PartitionKey_ext \<Rightarrow> 'a PartitionKey_ext \<Rightarrow> bool" where
  "x \<le> y \<longleftrightarrow> pkVenueID x < pkVenueID y \<or> (pkVenueID x = pkVenueID y \<and> (pkDay x < pkDay y
     \<or> (pkDay x = pkDay y \<and> PartitionKey.more x \<le> PartitionKey.more y)))"

definition less_PartitionKey_ext :: "'a PartitionKey_ext \<Rightarrow> 'a PartitionKey_ext \<Rightarrow> bool" where
  "x < y \<longleftrightarrow> pkVenueID x < pkVenueID y \<or> (pkVenueID x = pkVenueID y \<and> (pkDay x < pkDay y
     \<or> (pkDay x = pkDay y \<and> PartitionKey.more x < PartitionKey.more y)))"

instance
  by standard (auto simp: less_eq_PartitionKey_ext_def less_PartitionKey_ext_def)

end

lemma key_Compare_less: "key_Compare k l < 0 \<longleftrightarrow> k < l"
  and key_Compare_eq: "key_Compare k l = 0 \<longleftrightarrow> k = l"
  by (auto simp: key_Compare_def less_PartitionKey_ext_def)

section \<open>What a record keeps of its row\<close>

lemma split_loop_eq:
  "split_loop ls bids asks =
    (if list_all (\<lambda>l. (ucast (slSide l) :: u8) = SideBid \<or> (ucast (slSide l) :: u8) = SideAsk) ls
     then Inr (bids @ map (\<lambda>l. \<lparr>lPrice = slPrice l, lSize = slSize l\<rparr>) (filter (\<lambda>l. (ucast (slSide l) :: u8) = SideBid) ls),
               asks @ map (\<lambda>l. \<lparr>lPrice = slPrice l, lSize = slSize l\<rparr>) (filter (\<lambda>l. (ucast (slSide l) :: u8) = SideAsk) ls))
     else Inl ErrLevelSide)"
proof (induction ls arbitrary: bids asks)
  case (Cons l ls)
  have "SideBid \<noteq> SideAsk" by (simp add: SideBid_def SideAsk_def)
  with Cons show ?case by (simp add: Let_def)
qed simp

definition side_byte :: "SourceLevel \<Rightarrow> int" where
  "side_byte l = uint (slSide l) mod 256"

definition level_of :: "SourceLevel \<Rightarrow> Level" where
  "level_of l = \<lparr>lPrice = slPrice l, lSize = slSize l\<rparr>"

definition row_ok :: "SourceRow \<Rightarrow> bool" where
  "row_ok row \<longleftrightarrow> uint (srVenueID row) \<le> 65535 \<and> uint (srRecordType row) \<le> 2 \<and> uint (srSideFlags row) \<le> 1
     \<and> (if srRecordType row = 2
        then srPrice row = 0 \<and> srSize row = 0 \<and> srSideFlags row = 0 \<and> list_all (\<lambda>l. side_byte l \<le> 1) (srLevels row)
        else srLevels row = [])"

lemma side_byte_iff:
  "(ucast (slSide l) :: u8) = SideBid \<longleftrightarrow> side_byte l = 0" "(ucast (slSide l) :: u8) = SideAsk \<longleftrightarrow> side_byte l = 1"
  by (simp_all add: SideBid_def SideAsk_def side_byte_def word_uint_eq_iff unsigned_ucast_eq take_bit_eq_mod)

lemma splitLevels_eq:
  "splitLevels ls =
    (if list_all (\<lambda>l. side_byte l \<le> 1) ls
     then Inr (sort_key (\<lambda>l. - sint (lPrice l)) (map level_of (filter (\<lambda>l. side_byte l = 0) ls)),
               sort_key (\<lambda>l. sint (lPrice l)) (map level_of (filter (\<lambda>l. side_byte l = 1) ls)))
     else Inl ErrLevelSide)"
proof -
  have "0 \<le> side_byte l" for l by (simp add: side_byte_def)
  then have "side_byte l = 0 \<or> side_byte l = 1 \<longleftrightarrow> side_byte l \<le> 1" for l by (smt (verit))
  then show ?thesis
    by (simp add: splitLevels_def split_loop_eq side_byte_iff level_of_def [abs_def])
qed

lemma recordOf_cases:
  "recordOf row =
    (if \<not> uint (srVenueID row) \<le> 65535 then Inl ErrVenueIDRange
     else if \<not> uint (srRecordType row) \<le> 2 then Inl ErrRecordTypeRange
     else if \<not> uint (srSideFlags row) \<le> 1 then Inl ErrSideFlagsRange
     else
       let rec = zeroRecord\<lparr>ExchangeTs := srExchangeTs row, SequenceNumber := srSequenceNumber row,
             InstrumentID := srInstrumentID row, VenueID := ucast (srVenueID row),
             RecordType := ucast (srRecordType row)\<rparr> in
       if srRecordType row \<noteq> 2 then
         if srLevels row \<noteq> [] then Inl ErrLevelsOnNonSnap
         else Inr (rec\<lparr>SideFlags := ucast (srSideFlags row), Price := srPrice row, Size := srSize row\<rparr>, [], [])
       else if srPrice row \<noteq> 0 \<or> srSize row \<noteq> 0 \<or> srSideFlags row \<noteq> 0 then Inl ErrSnapshotFieldSet
       else bindE (splitLevels (srLevels row)) (\<lambda>(bids, asks). Inr (rec, bids, asks)))"
proof -
  have v: "srVenueID row > 65535 \<longleftrightarrow> \<not> uint (srVenueID row) \<le> 65535"
    and t: "srRecordType row > ucast RecordTypeSnapshotPointer \<longleftrightarrow> \<not> uint (srRecordType row) \<le> 2"
    and f: "srSideFlags row > ucast SideAsk \<longleftrightarrow> \<not> uint (srSideFlags row) \<le> 1"
    by (simp_all add: word_less_alt not_le record_types)
  have s: "(ucast (srRecordType row) :: u8) \<noteq> RecordTypeSnapshotPointer \<longleftrightarrow> srRecordType row \<noteq> 2"
    if "uint (srRecordType row) \<le> 2"
    using that by (simp add: record_types word_uint_eq_iff unsigned_ucast_eq take_bit_eq_mod)
  show ?thesis unfolding recordOf_def v t f Let_def using s by simp
qed

text \<open>C18: A row becomes a record without loss, except for the side of a level. The converter accepts exactly
  the rows whose venue, record type and side flags fit the record's fields, that carry levels only on a
  snapshot and on a snapshot nothing else, and whose levels have a side with low byte 0 or 1; the record
  then has every field of the row, and the two runs of levels are the snapshot's levels of that side, all
  of them, bids from the highest price and asks from the lowest. A level's side is judged by its low byte
  alone: a side of 256 does not fit its field and is taken as a bid, although the comment of
  \<^verbatim>\<open>recordOf\<close> and \<^verbatim>\<open>docs/convert.md\<close> say that such a value is rejected.\<close>

theorem recordOf_exact:
  "((\<exists>x. recordOf row = Inr x) \<longleftrightarrow> row_ok row) \<and>
   (case recordOf row of
      Inl e \<Rightarrow> True
    | Inr (rec, bids, asks) \<Rightarrow>
        ExchangeTs rec = srExchangeTs row \<and> SequenceNumber rec = srSequenceNumber row
        \<and> InstrumentID rec = srInstrumentID row \<and> uint (VenueID rec) = uint (srVenueID row)
        \<and> uint (RecordType rec) = uint (srRecordType row) \<and> uint (SideFlags rec) = uint (srSideFlags row)
        \<and> Price rec = srPrice row \<and> Size rec = srSize row
        \<and> BlobOffset rec = 0 \<and> BlobLen rec = 0 \<and> LevelCount rec = 0
        \<and> mset bids = image_mset level_of (filter_mset (\<lambda>l. side_byte l = 0) (mset (srLevels row)))
        \<and> mset asks = image_mset level_of (filter_mset (\<lambda>l. side_byte l = 1) (mset (srLevels row)))
        \<and> sorted (map (\<lambda>l. - sint (lPrice l)) bids) \<and> sorted (map (\<lambda>l. sint (lPrice l)) asks))"
proof -
  have u: "uint (ucast x :: u16) = uint x" if "uint x \<le> 65535" for x :: u32
    using that by (simp add: unsigned_ucast_eq take_bit_eq_mod)
  have w: "uint (ucast x :: u8) = uint x" if "uint x \<le> 2" for x :: u32
    using that by (simp add: unsigned_ucast_eq take_bit_eq_mod)
  show ?thesis
    unfolding recordOf_cases splitLevels_eq Let_def row_ok_def
    by (auto simp: u w zeroRecord_def mset_filter)
qed

end
