(* ===== verification/Bufio.thy ===== *)
theory Bufio
  imports Store_Format
begin

text \<open>
  The part of Go's \<^verbatim>\<open>bufio.Writer\<close> that the store writer uses: \<^verbatim>\<open>Write\<close> and
  \<^verbatim>\<open>Flush\<close> over a sink. A sink writes all its bytes (\<open>None\<close>) or fails after the first
  \<open>n\<close> of them (\<open>Some (n, e)\<close>), which is the contract of \<^verbatim>\<open>io.Writer\<close>. An error is
  sticky: once a write to the sink has failed, every later operation returns the same error and
  writes nothing.

  The locale \<open>byte_sink\<close> is the interface between the buffer and its sink: the bytes the sink
  holds, and a part of the state that writing leaves alone. Its lemmas say that the sink's bytes
  followed by the buffered ones are exactly what was written.
\<close>

record bufio =
  bBuf :: bytes
  bErr :: "store_error option"

type_synonym 's sink = "bytes \<Rightarrow> 's \<Rightarrow> (nat \<times> store_error) option \<times> 's"

text \<open>\<^verbatim>\<open>writerBufSize\<close> of \<^verbatim>\<open>src/internal/store/writer.go\<close>.\<close>

definition writerBufSize :: nat where "writerBufSize = 65536"

definition newBufio :: bufio where
  "newBufio = \<lparr>bBuf = [], bErr = None\<rparr>"

definition bufFlush :: "'s sink \<Rightarrow> bufio \<Rightarrow> 's \<Rightarrow> store_error option \<times> bufio \<times> 's" where
  "bufFlush wr b s =
     (case bErr b of
        Some e \<Rightarrow> (Some e, b, s)
      | None \<Rightarrow>
          if bBuf b = [] then (None, b, s)
          else (case wr (bBuf b) s of
              (None, s') \<Rightarrow> (None, b\<lparr>bBuf := []\<rparr>, s')
            | (Some (n, e), s') \<Rightarrow> (Some e, \<lparr>bBuf = drop n (bBuf b), bErr = Some e\<rparr>, s')))"

lemma bufFlush_NoneD: "bufFlush wr b s = (None, b', s') \<Longrightarrow> b' = b\<lparr>bBuf := []\<rparr> \<and> bErr b = None"
  by (cases b) (auto simp: bufFlush_def split: option.splits if_splits prod.splits)

function bufWrite :: "'s sink \<Rightarrow> bufio \<Rightarrow> bytes \<Rightarrow> 's \<Rightarrow> store_error option \<times> bufio \<times> 's" where
  "bufWrite wr b p s =
     (case bErr b of
        Some e \<Rightarrow> (Some e, b, s)
      | None \<Rightarrow>
          let n = writerBufSize - length (bBuf b) in
          if length p > n then
            (if bBuf b = [] then
               (case wr p s of
                  (None, s') \<Rightarrow> (None, b, s')
                | (Some (n, e), s') \<Rightarrow> (Some e, b\<lparr>bErr := Some e\<rparr>, s'))
             else (case bufFlush wr (b\<lparr>bBuf := bBuf b @ take n p\<rparr>) s of
                  (Some e, b', s') \<Rightarrow> (Some e, b', s')
                | (None, b', s') \<Rightarrow> bufWrite wr b' (drop n p) s'))
          else (None, b\<lparr>bBuf := bBuf b @ p\<rparr>, s))"
  by pat_completeness auto

termination
  by (relation "measures [\<lambda>(wr, b, p, s). length p, \<lambda>(wr, b, p, s). length (bBuf b)]")
    (auto dest!: bufFlush_NoneD [OF sym])

declare bufWrite.simps [simp del]

section \<open>The interface to a sink\<close>

locale byte_sink =
  fixes wr :: "'s sink" and written :: "'s \<Rightarrow> bytes" and frame :: "'s \<Rightarrow> 'f"
    and ok :: "'s \<Rightarrow> bool"
  assumes wr_ok: "ok s \<Longrightarrow> wr p s = (None, s') \<Longrightarrow> written s' = written s @ p \<and> frame s' = frame s \<and> ok s'"
    and wr_fail: "ok s \<Longrightarrow> wr p s = (Some (n, e), s') \<Longrightarrow>
      written s' = written s @ take n p \<and> frame s' = frame s \<and> ok s'"
begin

text \<open>All bytes handed to the buffer: those in the sink, then the buffered ones.\<close>

definition stream :: "bufio \<Rightarrow> 's \<Rightarrow> bytes" where
  "stream b s = written s @ bBuf b"

lemma flush_None:
  assumes "ok s" "bufFlush wr b s = (None, b', s')"
  shows "written s' = stream b s \<and> bBuf b' = [] \<and> bErr b' = None \<and> bErr b = None
    \<and> frame s' = frame s \<and> ok s'"
  using assms wr_ok [of s "bBuf b"]
  by (auto simp: bufFlush_def stream_def split: option.splits if_splits prod.splits)

lemma flush_Some:
  assumes "ok s" "bufFlush wr b s = (Some e, b', s')"
  shows "(\<exists>rest. written s' @ rest = stream b s) \<and> bErr b' \<noteq> None \<and> frame s' = frame s \<and> ok s'"
proof (cases "bErr b")
  case None
  then obtain n where n: "wr (bBuf b) s = (Some (n, e), s')"
    using assms(2) by (auto simp: bufFlush_def split: if_splits prod.splits option.splits)
  have "written s' @ drop n (bBuf b) = stream b s"
    using wr_fail [OF assms(1) n] by (simp add: stream_def)
  moreover have "bErr b' \<noteq> None"
    using None n assms(2) by (auto simp: bufFlush_def split: if_splits)
  ultimately show ?thesis
    using wr_fail [OF assms(1) n] by blast
qed (use assms in \<open>auto simp: bufFlush_def stream_def\<close>)

lemma write_None_aux:
  "w = wr \<Longrightarrow> ok s \<Longrightarrow> bufWrite w b p s = (None, b', s') \<Longrightarrow>
   stream b' s' = stream b s @ p \<and> bErr b' = None \<and> bErr b = None \<and> frame s' = frame s \<and> ok s'"
proof (induction w b p s arbitrary: b' s' rule: bufWrite.induct)
  case (1 w b p s)
  let ?n = "writerBufSize - length (bBuf b)" and ?full = "b\<lparr>bBuf := bBuf b @ take (writerBufSize - length (bBuf b)) p\<rparr>"
  have err: "bErr b = None"
    using "1.prems"(3) by (auto simp: bufWrite.simps [of w b p s] split: option.splits)
  note w = "1.prems"(3) [unfolded "1.prems"(1), unfolded bufWrite.simps [of wr b p s]]
  consider (fits) "length p \<le> ?n" | (direct) "length p > ?n" "bBuf b = []"
    | (flush) "length p > ?n" "bBuf b \<noteq> []"
    by linarith
  then show ?case
  proof cases
    case fits
    then show ?thesis
      using w err "1.prems"(2) by (auto simp: stream_def Let_def)
  next
    case direct
    then have "wr p s = (None, s')" "b' = b"
      using w err by (auto simp: Let_def split: prod.splits option.splits)
    then show ?thesis
      using wr_ok [OF "1.prems"(2), of p s'] err direct by (simp add: stream_def)
  next
    case flush
    obtain b1 s1 where f: "bufFlush wr ?full s = (None, b1, s1)"
      and r: "bufWrite wr b1 (drop ?n p) s1 = (None, b', s')"
      using w err flush by (auto simp: Let_def split: prod.splits option.splits)
    have f': "(None, b1, s1) = bufFlush w ?full s"
      unfolding "1.prems"(1) by (rule f [symmetric])
    note s1 = flush_None [OF "1.prems"(2) f]
    have "stream b' s' = stream b1 s1 @ drop ?n p \<and> bErr b' = None \<and> bErr b1 = None
        \<and> frame s' = frame s1 \<and> ok s'"
      by (rule "1.IH" [OF err refl flush f' refl refl "1.prems"(1)])
        (use s1 r "1.prems"(1) in simp_all)
    then show ?thesis
      using s1 err by (simp add: stream_def)
  qed
qed

lemmas write_None = write_None_aux [OF refl]

lemma write_Some_aux:
  "w = wr \<Longrightarrow> ok s \<Longrightarrow> bufWrite w b p s = (Some e, b', s') \<Longrightarrow>
   (\<exists>rest. written s' @ rest = stream b s @ p) \<and> bErr b' \<noteq> None \<and> frame s' = frame s \<and> ok s'"
proof (induction w b p s arbitrary: b' s' rule: bufWrite.induct)
  case (1 w b p s)
  let ?n = "writerBufSize - length (bBuf b)" and ?full = "b\<lparr>bBuf := bBuf b @ take (writerBufSize - length (bBuf b)) p\<rparr>"
  note w = "1.prems"(3) [unfolded "1.prems"(1), unfolded bufWrite.simps [of wr b p s]]
  consider (sticky) x where "bErr b = Some x" | (direct) "bErr b = None" "length p > ?n" "bBuf b = []"
    | (flush) "bErr b = None" "length p > ?n" "bBuf b \<noteq> []"
    using w by (cases "bErr b") (auto simp: Let_def split: if_splits)
  then show ?case
  proof cases
    case sticky
    then show ?thesis
      using w "1.prems"(2) by (auto simp: stream_def)
  next
    case direct
    then obtain n where n: "wr p s = (Some (n, e), s')" and "bErr b' = Some e"
      using w by (auto simp: Let_def split: prod.splits option.splits)
    moreover have "written s' @ drop n p = stream b s @ p"
      using wr_fail [OF "1.prems"(2) n] direct(3) by (simp add: stream_def)
    ultimately show ?thesis
      using wr_fail [OF "1.prems"(2) n] by blast
  next
    case flush
    show ?thesis
    proof (cases "fst (bufFlush wr ?full s)")
      case None
      then obtain b1 s1 where f: "bufFlush wr ?full s = (None, b1, s1)"
        by (metis prod.collapse)
      then have r: "bufWrite wr b1 (drop ?n p) s1 = (Some e, b', s')"
        using w flush by (simp add: Let_def)
      have f': "(None, b1, s1) = bufFlush w ?full s"
        unfolding "1.prems"(1) by (rule f [symmetric])
      note s1 = flush_None [OF "1.prems"(2) f]
      have "(\<exists>rest. written s' @ rest = stream b1 s1 @ drop ?n p) \<and> bErr b' \<noteq> None
          \<and> frame s' = frame s1 \<and> ok s'"
        by (rule "1.IH" [OF flush(1) refl flush(2,3) f' refl refl "1.prems"(1)])
          (use s1 r "1.prems"(1) in simp_all)
      then show ?thesis
        using s1 by (simp add: stream_def)
    next
      case (Some e1)
      then obtain b1 s1 where f: "bufFlush wr ?full s = (Some e1, b1, s1)"
        by (metis prod.collapse)
      then have "b1 = b'" "s1 = s'"
        using w flush by (simp_all add: Let_def)
      then show ?thesis
        using flush_Some [OF "1.prems"(2) f] append_assoc append_take_drop_id
        by (auto simp: stream_def) (metis append_assoc append_take_drop_id)
    qed
  qed
qed

lemmas write_Some = write_Some_aux [OF refl]

end

text \<open>A sink that does not fail as long as \<open>fine\<close> holds: then neither does the buffer.\<close>

locale reliable_sink = byte_sink wr written frame ok
  for wr :: "'s sink" and written :: "'s \<Rightarrow> bytes" and frame :: "'s \<Rightarrow> 'f" and ok :: "'s \<Rightarrow> bool" +
  fixes fine :: "'s \<Rightarrow> bool"
  assumes wr_fine: "fine s \<Longrightarrow> \<exists>s'. wr p s = (None, s') \<and> fine s'"
begin

lemma flush_fine: "fine s \<Longrightarrow> bErr b = None \<Longrightarrow> \<exists>b' s'. bufFlush wr b s = (None, b', s') \<and> fine s'"
  using wr_fine [of s "bBuf b"] by (auto simp: bufFlush_def)

lemma write_fine_aux:
  "w = wr \<Longrightarrow> fine s \<Longrightarrow> bErr b = None \<Longrightarrow> \<exists>b' s'. bufWrite w b p s = (None, b', s') \<and> fine s'"
proof (induction w b p s rule: bufWrite.induct)
  case (1 w b p s)
  let ?n = "writerBufSize - length (bBuf b)" and ?full = "b\<lparr>bBuf := bBuf b @ take (writerBufSize - length (bBuf b)) p\<rparr>"
  have unf: "bufWrite wr b p s =
      (if length p > ?n then
         (if bBuf b = [] then
            (case wr p s of (None, s') \<Rightarrow> (None, b, s') | (Some (n, e), s') \<Rightarrow> (Some e, b\<lparr>bErr := Some e\<rparr>, s'))
          else (case bufFlush wr ?full s of
               (Some e, b', s') \<Rightarrow> (Some e, b', s') | (None, b', s') \<Rightarrow> bufWrite wr b' (drop ?n p) s'))
       else (None, b\<lparr>bBuf := bBuf b @ p\<rparr>, s))"
    using "1.prems"(3) by (subst bufWrite.simps) (simp add: Let_def)
  show ?case
  proof (cases "length p > ?n \<and> bBuf b \<noteq> []")
    case True
    obtain b1 s1 where f: "bufFlush wr ?full s = (None, b1, s1)" "fine s1"
      using flush_fine [OF "1.prems"(2), of ?full] "1.prems"(3) by auto
    have f': "(None, b1, s1) = bufFlush w ?full s"
      unfolding "1.prems"(1) by (rule f(1) [symmetric])
    have e1: "bErr b1 = None"
      using bufFlush_NoneD [OF f(1)] "1.prems"(3) by simp
    have "\<exists>b' s'. bufWrite w b1 (drop ?n p) s1 = (None, b', s') \<and> fine s'"
      using True by (intro "1.IH" [OF "1.prems"(3) refl _ _ f' refl refl "1.prems"(1) f(2) e1]) simp_all
    then show ?thesis
      using True f(1) unfolding "1.prems"(1) unf by simp
  next
    case False
    then show ?thesis
      using wr_fine [OF "1.prems"(2), of p] "1.prems"(2) unfolding "1.prems"(1) unf by auto
  qed
qed

lemmas write_fine = write_fine_aux [OF refl]

end

end
