(* ===== verification/Store_Writer.thy ===== *)
theory Store_Writer
  imports Store_Reader Bufio
begin

text \<open>
  The writer of one file: \<^verbatim>\<open>src/internal/store/writer.go\<close>, over a model of the two files it
  keeps. Every system call has an outcome drawn from a list that is arbitrary in the theorems:
  success, or a failure after some of the bytes were transferred, so that every prefix of the
  writer's effects on the disk is a state of the model. Each operation maps the writer's state to
  an error (\<open>None\<close> is \<^verbatim>\<open>nil\<close>) and the next state.
\<close>

section \<open>State\<close>

text \<open>
  \<open>osFile\<close> and \<open>osBlob\<close> are the contents on disk of the file and of its sidecar, \<open>None\<close> when
  the path does not exist. \<open>osIO\<close> lists the outcomes of the next system calls: \<open>None\<close> for
  success, \<open>Some k\<close> for a failure after \<open>k\<close> bytes; calls beyond the list succeed.
\<close>

record OS =
  osFile :: "bytes option"
  osBlob :: "bytes option"
  osIO :: "nat option list"

datatype writerState = writerOpen | writerClosed | writerAborted

record writerOptions =
  pageSize :: int
  blockSizeRecords :: u32

record WriterOptions =
  oPageSize :: int
  oBlockSizeRecords :: u32

text \<open>The handles \<^verbatim>\<open>f\<close> and \<^verbatim>\<open>blobFile\<close> are flags: whether they are not \<^verbatim>\<open>nil\<close>.\<close>

record Writer = OS +
  wOpts :: writerOptions
  wF :: bool
  wBw :: bufio
  wBlobFile :: bool
  wBlobBW :: bufio
  wBlobLen :: u64
  wBlobBuf :: bytes
  wHdr :: header
  wPos :: u64
  wRecCount :: u64
  wLastKey :: Record
  wHasLast :: bool
  wTimeIndex :: "i64 list"
  wSnapIndex :: "u64 list"
  wFooter :: "footerEntry list"
  wBlockCRC :: u32
  wBuf :: bytes
  wState :: writerState

type_synonym action = "Writer \<Rightarrow> store_error option \<times> Writer"

definition defaultBlockSizeRecords :: u32 where "defaultBlockSizeRecords = 1024"

section \<open>System calls\<close>

definition sys_outcome :: "'a OS_scheme \<Rightarrow> nat option \<times> 'a OS_scheme" where
  "sys_outcome w = (case osIO w of [] \<Rightarrow> (None, w) | out # rest \<Rightarrow> (out, w\<lparr>osIO := rest\<rparr>))"

text \<open>A call with no data: opening, seeking, syncing, closing.\<close>

definition sys_call :: "'a OS_scheme \<Rightarrow> store_error option \<times> 'a OS_scheme" where
  "sys_call w = (case sys_outcome w of (None, w) \<Rightarrow> (None, w) | (Some k, w) \<Rightarrow> (Some ErrIO, w))"

text \<open>\<^verbatim>\<open>f.Write\<close> and \<^verbatim>\<open>blobFile.Write\<close>: the file offset is the end of the file at every call.\<close>

definition fileWrite :: "Writer sink" where
  "fileWrite p w =
     (case sys_outcome w of
        (None, w) \<Rightarrow> (None, w\<lparr>osFile := map_option (\<lambda>d. d @ p) (osFile w)\<rparr>)
      | (Some k, w) \<Rightarrow> (Some (k, ErrIO), w\<lparr>osFile := map_option (\<lambda>d. d @ take k p) (osFile w)\<rparr>))"

definition blobWrite :: "Writer sink" where
  "blobWrite p w =
     (case sys_outcome w of
        (None, w) \<Rightarrow> (None, w\<lparr>osBlob := map_option (\<lambda>d. d @ p) (osBlob w)\<rparr>)
      | (Some k, w) \<Rightarrow> (Some (k, ErrIO), w\<lparr>osBlob := map_option (\<lambda>d. d @ take k p) (osBlob w)\<rparr>))"

definition fileWriteAt :: "bytes \<Rightarrow> nat \<Rightarrow> action" where
  "fileWriteAt p off w =
     (case sys_outcome w of
        (None, w) \<Rightarrow> (None, w\<lparr>osFile := map_option (\<lambda>d. put d off p) (osFile w)\<rparr>)
      | (Some k, w) \<Rightarrow> (Some ErrIO, w\<lparr>osFile := map_option (\<lambda>d. put d off (take k p)) (osFile w)\<rparr>))"

text \<open>\<^verbatim>\<open>os.Remove\<close>, whose error counts unless the file did not exist.\<close>

definition removeFile :: "action" where
  "removeFile w =
     (if osFile w = None then (None, w)
      else case sys_call w of
          (None, w) \<Rightarrow> (None, w\<lparr>osFile := None\<rparr>)
        | (Some e, w) \<Rightarrow> (Some e, w))"

definition removeBlob :: "action" where
  "removeBlob w =
     (if osBlob w = None then (None, w)
      else case sys_call w of
          (None, w) \<Rightarrow> (None, w\<lparr>osBlob := None\<rparr>)
        | (Some e, w) \<Rightarrow> (Some e, w))"

text \<open>A sequence of actions that stops at the first error, the way a body does that returns each
  error at once.\<close>

primrec run_actions :: "action list \<Rightarrow> action" where
  "run_actions [] w = (None, w)"
| "run_actions (a # as) w = (case a w of (Some e, w) \<Rightarrow> (Some e, w) | (None, w) \<Rightarrow> run_actions as w)"

definition bwWrite :: "bytes \<Rightarrow> action" where
  "bwWrite p w = (case bufWrite fileWrite (wBw w) p w of (err, b, w) \<Rightarrow> (err, w\<lparr>wBw := b\<rparr>))"

definition bwFlush :: "action" where
  "bwFlush w = (case bufFlush fileWrite (wBw w) w of (err, b, w) \<Rightarrow> (err, w\<lparr>wBw := b\<rparr>))"

definition blobBWWrite :: "bytes \<Rightarrow> action" where
  "blobBWWrite p w = (case bufWrite blobWrite (wBlobBW w) p w of (err, b, w) \<Rightarrow> (err, w\<lparr>wBlobBW := b\<rparr>))"

definition blobBWFlush :: "action" where
  "blobBWFlush w = (case bufFlush blobWrite (wBlobBW w) w of (err, b, w) \<Rightarrow> (err, w\<lparr>wBlobBW := b\<rparr>))"

section \<open>Closing the files\<close>

definition first_of :: "'e option \<Rightarrow> 'e option \<Rightarrow> 'e option" where
  "first_of err next = (case err of None \<Rightarrow> next | Some e \<Rightarrow> Some e)"

definition closeFiles :: "action" where
  "closeFiles w =
     (let (err, w) = (if wF w then (case sys_call w of (err, w) \<Rightarrow> (err, w\<lparr>wF := False\<rparr>)) else (None, w))
      in if wBlobFile w then
           (case sys_call w of (cerr, w) \<Rightarrow>
            (case removeBlob (w\<lparr>wBlobFile := False\<rparr>) of (rmErr, w) \<Rightarrow>
              (first_of (first_of err cerr) rmErr, w)))
         else (err, w))"

definition discard :: "action" where
  "discard w =
     (case closeFiles w of (err, w) \<Rightarrow>
      (case removeFile w of (rmErr, w) \<Rightarrow> (first_of err rmErr, w)))"

definition Abort :: "action" where
  "Abort w = (if wState w = writerClosed then (None, w) else discard (w\<lparr>wState := writerAborted\<rparr>))"

section \<open>Creating a writer\<close>

definition defaultWriterOptions :: "int \<Rightarrow> writerOptions" where
  "defaultWriterOptions os_Getpagesize =
     \<lparr>pageSize = os_Getpagesize, blockSizeRecords = defaultBlockSizeRecords\<rparr>"

definition zero_header :: header where
  "zero_header = \<lparr>hFormatVersion = 0, hVenueID = 0, hPriceScale = 0, hRecordCount = 0,
     hMinExchangeTs = 0, hMaxExchangeTs = 0, hHeaderSize = 0, hBlockSizeRecords = 0,
     hBlobRegionOffset = 0, hBlobRegionLen = 0, hTimeIndexOffset = 0, hTimeIndexCount = 0,
     hSnapshotIndexOffset = 0, hSnapshotIndexCount = 0, hFooterOffset = 0, hTrailerCRC = 0,
     hFinalized = False\<rparr>"

text \<open>The writer over the file just created.\<close>

definition freshWriter :: "OS \<Rightarrow> u16 \<Rightarrow> i64 \<Rightarrow> writerOptions \<Rightarrow> u32 \<Rightarrow> Writer" where
  "freshWriter os venueID priceScale opts headerSize =
     OS.extend (os\<lparr>osFile := Some []\<rparr>)
       \<lparr>wOpts = opts, wF = True, wBw = newBufio, wBlobFile = False, wBlobBW = newBufio,
        wBlobLen = 0, wBlobBuf = [],
        wHdr = zero_header\<lparr>hFormatVersion := formatVersion, hVenueID := venueID,
          hPriceScale := priceScale, hHeaderSize := headerSize,
          hBlockSizeRecords := blockSizeRecords opts\<rparr>,
        wPos = 0, wRecCount = 0, wLastKey = zeroRecord, wHasLast = False,
        wTimeIndex = [], wSnapIndex = [], wFooter = [], wBlockCRC = 0,
        wBuf = replicate RecordSize 0, wState = writerOpen\<rparr>"

text \<open>The file is created with \<^verbatim>\<open>O_EXCL\<close>: an existing one is an error. The result is the
  writer, or the error with the disk as it was left.\<close>

definition newWriter :: "OS \<Rightarrow> u16 \<Rightarrow> i64 \<Rightarrow> writerOptions \<Rightarrow> store_error \<times> OS + Writer" where
  "newWriter os venueID priceScale opts =
     (if sint priceScale \<le> 0 then Inl (ErrPriceScale, os)
      else if blockSizeRecords opts = 0 \<or> blockSizeRecords opts > of_nat maxBlockSizeRecords
        then Inl (ErrBlockSize, os)
      else case headerSizeFor (pageSize opts) of
          Inl e \<Rightarrow> Inl (e, os)
        | Inr headerSize \<Rightarrow>
          if osFile os \<noteq> None then Inl (ErrIO, os)
          else (case sys_call os of
              (Some e, os) \<Rightarrow> Inl (e, os)
            | (None, os) \<Rightarrow>
              (case bwWrite (replicate (unat headerSize) 0)
                      (freshWriter os venueID priceScale opts headerSize) of
                  (Some e, w) \<Rightarrow> (case discard w of (_, w) \<Rightarrow> Inl (e, OS.truncate w))
                | (None, w) \<Rightarrow> Inr (w\<lparr>wPos := ucast headerSize\<rparr>))))"

definition NewWriter :: "int \<Rightarrow> OS \<Rightarrow> u16 \<Rightarrow> i64 \<Rightarrow> store_error \<times> OS + Writer" where
  "NewWriter os_Getpagesize os venueID priceScale =
     newWriter os venueID priceScale (defaultWriterOptions os_Getpagesize)"

definition NewWriterWithOptions ::
    "int \<Rightarrow> OS \<Rightarrow> u16 \<Rightarrow> i64 \<Rightarrow> WriterOptions \<Rightarrow> store_error \<times> OS + Writer" where
  "NewWriterWithOptions os_Getpagesize os venueID priceScale opts =
     (let internal = defaultWriterOptions os_Getpagesize;
          internal = (if oPageSize opts \<noteq> 0 then internal\<lparr>pageSize := oPageSize opts\<rparr> else internal);
          internal = (if oBlockSizeRecords opts \<noteq> 0
                      then internal\<lparr>blockSizeRecords := oBlockSizeRecords opts\<rparr> else internal)
      in newWriter os venueID priceScale internal)"

section \<open>Writing records\<close>

definition checkOpen :: "Writer \<Rightarrow> store_error option" where
  "checkOpen w =
     (case wState w of
        writerClosed \<Rightarrow> Some ErrWriterClosed
      | writerAborted \<Rightarrow> Some ErrWriterAborted
      | writerOpen \<Rightarrow> None)"

text \<open>The block bookkeeping of \<^verbatim>\<open>append\<close>, before the record is written.\<close>

definition startBlock :: "Record \<Rightarrow> Writer \<Rightarrow> Writer" where
  "startBlock rec w =
     (let blockSize = (ucast (blockSizeRecords (wOpts w)) :: u64) in
      if wRecCount w mod blockSize = 0 then
        (let w = (if wRecCount w > 0
                  then w\<lparr>wFooter := wFooter w @
                    [\<lparr>BlockStartIndex = wRecCount w - blockSize, CRC32C = wBlockCRC w\<rparr>]\<rparr>
                  else w)
         in w\<lparr>wBlockCRC := 0, wTimeIndex := wTimeIndex w @ [ExchangeTs rec]\<rparr>)
      else w)"

text \<open>The bookkeeping after it.\<close>

definition noteRecord :: "Record \<Rightarrow> Writer \<Rightarrow> Writer" where
  "noteRecord rec w =
     (let w = w\<lparr>wBlockCRC := crc32_Update (wBlockCRC w) (wBuf w)\<rparr>;
          w = (if RecordType rec = RecordTypeSnapshotPointer
               then w\<lparr>wSnapIndex := wSnapIndex w @ [wRecCount w]\<rparr> else w);
          w = (if wRecCount w = 0
               then w\<lparr>wHdr := wHdr w\<lparr>hMinExchangeTs := ExchangeTs rec\<rparr>\<rparr> else w)
      in w\<lparr>wHdr := wHdr w\<lparr>hMaxExchangeTs := ExchangeTs rec\<rparr>,
           wPos := wPos w + of_nat RecordSize, wRecCount := wRecCount w + 1,
           wLastKey := rec, wHasLast := True\<rparr>)"

text \<open>The checks of \<^verbatim>\<open>append\<close>.\<close>

definition checkAppend :: "Record \<Rightarrow> Writer \<Rightarrow> store_error option" where
  "checkAppend rec w =
     (if VenueID rec \<noteq> hVenueID (wHdr w) then Some ErrVenueMismatch
      else case validateRecord rec of
          Some e \<Rightarrow> Some e
        | None \<Rightarrow>
          if wHasLast w \<and> compareKey (wLastKey w) rec = 0 then Some ErrDuplicateKey
          else if wHasLast w \<and> compareKey (wLastKey w) rec > 0 then Some ErrOutOfOrder
          else if wRecCount w \<ge> of_nat maxRecordCount then Some ErrRecordCount
          else None)"

definition Writer_append :: "Record \<Rightarrow> action" where
  "Writer_append rec w =
     (case checkAppend rec w of
        Some e \<Rightarrow> (Some e, w)
      | None \<Rightarrow>
        let w = startBlock rec w in
        (case EncodeRecord (wBuf w) rec of
           None \<Rightarrow> (Some Panic, w)
         | Some buf \<Rightarrow>
           let w = w\<lparr>wBuf := buf\<rparr> in
           (case bwWrite buf w of
              (Some e, w) \<Rightarrow> (Some e, w)
            | (None, w) \<Rightarrow> (None, noteRecord rec w))))"

definition WriteRecord :: "Record \<Rightarrow> action" where
  "WriteRecord rec w =
     (case checkOpen w of
        Some e \<Rightarrow> (Some e, w)
      | None \<Rightarrow>
        if RecordType rec = RecordTypeSnapshotPointer then (Some ErrUseWriteSnapshot, w)
        else Writer_append rec w)"

definition openBlobFile :: "action" where
  "openBlobFile w =
     (if wBlobFile w then (None, w)
      else case sys_call w of
          (Some e, w) \<Rightarrow> (Some e, w)
        | (None, w) \<Rightarrow> (None, w\<lparr>osBlob := Some [], wBlobFile := True, wBlobBW := newBufio\<rparr>))"

primrec putLevels :: "bytes \<Rightarrow> nat \<Rightarrow> Level list \<Rightarrow> bytes" where
  "putLevels b off [] = b"
| "putLevels b off (l # ls) =
     putLevels (PutUint64 (PutUint64 b off (lPrice l)) (off + 8) (lSize l)) (off + levelSize) ls"

text \<open>The blob, built in the reused buffer \<open>b\<close> of the blob's length.\<close>

definition encodeBlob :: "bytes \<Rightarrow> Level list \<Rightarrow> Level list \<Rightarrow> bytes" where
  "encodeBlob b bids asks =
     (let b = PutUint16 b 4 (of_nat (length bids));
          b = PutUint16 b 6 (of_nat (length asks));
          b = putLevels b blobHeaderSize bids;
          b = putLevels b (blobHeaderSize + length bids * levelSize) asks
      in PutUint32 b 0 (crc32_Checksum (drop 4 b)))"

definition snapshot_record :: "Record \<Rightarrow> u64 \<Rightarrow> nat \<Rightarrow> Record" where
  "snapshot_record rec blobOffset levels =
     rec\<lparr>RecordType := RecordTypeSnapshotPointer, BlobOffset := blobOffset,
         BlobLen := of_nat (blobHeaderSize + levelSize * levels), LevelCount := of_nat levels\<rparr>"

definition WriteSnapshot :: "Record \<Rightarrow> Level list \<Rightarrow> Level list \<Rightarrow> action" where
  "WriteSnapshot rec bids asks w =
     (case checkOpen w of
        Some e \<Rightarrow> (Some e, w)
      | None \<Rightarrow>
        if Price rec \<noteq> 0 \<or> Size rec \<noteq> 0 \<or> SideFlags rec \<noteq> 0 \<or> BlobOffset rec \<noteq> 0
           \<or> BlobLen rec \<noteq> 0 \<or> LevelCount rec \<noteq> 0 then (Some ErrUnusedFieldSet, w)
        else let levels = length bids + length asks in
        if levels > 65535 then (Some ErrTooManyLevels, w)
        else let blobLen = blobHeaderSize + levelSize * levels;
                 w = (if length (wBlobBuf w) < blobLen
                      then w\<lparr>wBlobBuf := replicate blobLen 0\<rparr> else w);
                 b = encodeBlob (take blobLen (wBlobBuf w)) bids asks;
                 w = w\<lparr>wBlobBuf := b @ drop blobLen (wBlobBuf w)\<rparr>
        in run_actions
             [openBlobFile,
              Writer_append (snapshot_record rec (wBlobLen w) levels),
              blobBWWrite b,
              \<lambda>w. (None, w\<lparr>wBlobLen := wBlobLen w + of_nat blobLen\<rparr>)] w)"

section \<open>Finishing the file\<close>

definition copyBlobRegion :: "action" where
  "copyBlobRegion w =
     (if \<not> wBlobFile w then (None, w)
      else run_actions
        [blobBWFlush,
         sys_call,
         \<lambda>w. (case fileWrite (case osBlob w of Some d \<Rightarrow> d | None \<Rightarrow> []) w of
                (None, w) \<Rightarrow> (None, w) | (Some (n, e), w) \<Rightarrow> (Some e, w)),
         \<lambda>w. (None, w\<lparr>wPos := wPos w + wBlobLen w\<rparr>)] w)"

definition closeLastBlock :: "Writer \<Rightarrow> Writer" where
  "closeLastBlock w =
     (let blockSize = (ucast (blockSizeRecords (wOpts w)) :: u64);
          blocks = blockCountFor (wRecCount w) (blockSizeRecords (wOpts w))
      in if of_nat (length (wFooter w)) < blocks
         then w\<lparr>wFooter := wFooter w @
           [\<lparr>BlockStartIndex = of_nat (length (wFooter w)) * blockSize, CRC32C = wBlockCRC w\<rparr>]\<rparr>
         else w)"

text \<open>The two indexes and the footer, written into one buffer; \<open>None\<close> is a panic.\<close>

definition encodeTail :: "i64 list \<Rightarrow> u64 list \<Rightarrow> footerEntry list \<Rightarrow> bytes option" where
  "encodeTail ti si ft =
     (let tail = replicate (length ti * indexEntrySize + length si * indexEntrySize
                   + length ft * footerEntrySize) 0;
          n = length ti * indexEntrySize
      in case encodeTimeIndex tail ti of
          None \<Rightarrow> None
        | Some tail \<Rightarrow>
          (case encodeSnapshotIndex (drop n tail) si of
             None \<Rightarrow> None
           | Some rest \<Rightarrow>
             let tail = take n tail @ rest; n = n + length si * indexEntrySize in
             (case encodeFooter (drop n tail) ft of
                None \<Rightarrow> None
              | Some rest \<Rightarrow> Some (take n tail @ rest))))"

definition writeTail :: "action" where
  "writeTail w =
     (case encodeTail (wTimeIndex w) (wSnapIndex w) (wFooter w) of
        None \<Rightarrow> (Some Panic, w)
      | Some tail \<Rightarrow>
        let n = length (wTimeIndex w) * indexEntrySize;
            n' = n + length (wSnapIndex w) * indexEntrySize;
            w = w\<lparr>wHdr := wHdr w\<lparr>hTimeIndexOffset := wPos w,
                  hTimeIndexCount := of_nat (length (wTimeIndex w)),
                  hSnapshotIndexOffset := wPos w + of_nat n,
                  hSnapshotIndexCount := of_nat (length (wSnapIndex w)),
                  hFooterOffset := wPos w + of_nat n',
                  hTrailerCRC := crc32_Checksum tail\<rparr>\<rparr>
        in (case fileWrite tail w of
              (Some (k, e), w) \<Rightarrow> (Some e, w)
            | (None, w) \<Rightarrow>
                (None, w\<lparr>wPos := wPos w + of_nat (length tail),
                         wHdr := wHdr w\<lparr>hRecordCount := wRecCount w\<rparr>\<rparr>)))"

definition writeHeader :: "action" where
  "writeHeader w =
     (case encodeHeader (replicate headerFieldsSize 0) (wHdr w) of
        None \<Rightarrow> (Some Panic, w)
      | Some hdrBuf \<Rightarrow> fileWriteAt hdrBuf 0 w)"

definition finish :: "action" where
  "finish w = run_actions
     [\<lambda>w. (None, closeLastBlock w),
      bwFlush,
      \<lambda>w. (None, w\<lparr>wHdr := wHdr w\<lparr>hBlobRegionOffset := wPos w, hBlobRegionLen := wBlobLen w\<rparr>\<rparr>),
      copyBlobRegion,
      writeTail,
      writeHeader,
      sys_call,
      fileWriteAt [1] hdrOffFinalized,
      sys_call,
      closeFiles] w"

definition Writer_Close :: "action" where
  "Writer_Close w =
     (case wState w of
        writerClosed \<Rightarrow> (None, w)
      | writerAborted \<Rightarrow> (Some ErrWriterAborted, w)
      | writerOpen \<Rightarrow>
        (case finish w of
           (Some e, w) \<Rightarrow> (case discard w of (_, w) \<Rightarrow> (Some e, w\<lparr>wState := writerAborted\<rparr>))
         | (None, w) \<Rightarrow> (None, w\<lparr>wState := writerClosed\<rparr>)))"

section \<open>The two files as sinks\<close>

definition file_bytes :: "Writer \<Rightarrow> bytes" where
  "file_bytes w = (case osFile w of None \<Rightarrow> [] | Some d \<Rightarrow> d)"

definition sidecar_bytes :: "Writer \<Rightarrow> bytes" where
  "sidecar_bytes w = (case osBlob w of None \<Rightarrow> [] | Some d \<Rightarrow> d)"

interpretation main_file: byte_sink fileWrite file_bytes
    "\<lambda>w. w\<lparr>osFile := None, osIO := []\<rparr>" "\<lambda>w. osFile w \<noteq> None"
  by unfold_locales
    (auto simp: fileWrite_def sys_outcome_def file_bytes_def split: list.splits option.splits)

interpretation sidecar: byte_sink blobWrite sidecar_bytes
    "\<lambda>w. w\<lparr>osBlob := None, osIO := []\<rparr>" "\<lambda>w. osBlob w \<noteq> None"
  by unfold_locales
    (auto simp: blobWrite_def sys_outcome_def sidecar_bytes_def split: list.splits option.splits)

lemma main_frame_cases:
  fixes w w' :: Writer
  assumes "w'\<lparr>osFile := None, osIO := []\<rparr> = w\<lparr>osFile := None, osIO := []\<rparr>"
  obtains d io where "w' = w\<lparr>osFile := d, osIO := io\<rparr>"
  using assms by (cases w, cases w') auto

lemma sidecar_frame_cases:
  fixes w w' :: Writer
  assumes "w'\<lparr>osBlob := None, osIO := []\<rparr> = w\<lparr>osBlob := None, osIO := []\<rparr>"
  obtains d io where "w' = w\<lparr>osBlob := d, osIO := io\<rparr>"
  using assms by (cases w, cases w') auto

lemmas main_file_simps = bwWrite_def bwFlush_def main_file.stream_def file_bytes_def
lemmas sidecar_simps = blobBWWrite_def blobBWFlush_def sidecar.stream_def sidecar_bytes_def

lemma bwWrite_None:
  assumes "osFile w = Some d" "bwWrite p w = (None, w')"
  shows "\<exists>d' io b. w' = w\<lparr>osFile := Some d', osIO := io, wBw := b\<rparr> \<and> bErr (wBw w) = None
    \<and> bErr b = None \<and> d' @ bBuf b = d @ bBuf (wBw w) @ p"
  using assms by (auto simp: main_file_simps split: prod.splits
      dest!: main_file.write_None [rotated] elim!: main_frame_cases) blast+

lemma bwWrite_Some:
  assumes "osFile w = Some d" "bwWrite p w = (Some e, w')"
  shows "\<exists>d' io b. w' = w\<lparr>osFile := Some d', osIO := io, wBw := b\<rparr> \<and> bErr b \<noteq> None
    \<and> (\<exists>rest. d' @ rest = d @ bBuf (wBw w) @ p)"
  using assms by (auto simp: main_file_simps split: prod.splits
      dest!: main_file.write_Some [rotated] elim!: main_frame_cases) blast+

lemma bwFlush_None:
  assumes "osFile w = Some d" "bwFlush w = (None, w')"
  shows "\<exists>io b. w' = w\<lparr>osFile := Some (d @ bBuf (wBw w)), osIO := io, wBw := b\<rparr> \<and> bErr (wBw w) = None"
  using assms by (auto simp: main_file_simps split: prod.splits
      dest!: main_file.flush_None [rotated] elim!: main_frame_cases) blast+

lemma bwFlush_Some:
  assumes "osFile w = Some d" "bwFlush w = (Some e, w')"
  shows "\<exists>d' io b. w' = w\<lparr>osFile := Some d', osIO := io, wBw := b\<rparr> \<and> bErr b \<noteq> None
    \<and> (\<exists>rest. d' @ rest = d @ bBuf (wBw w))"
  using assms by (auto simp: main_file_simps split: prod.splits
      dest!: main_file.flush_Some [rotated] elim!: main_frame_cases) blast+

lemma blobBWWrite_None:
  assumes "osBlob w = Some d" "blobBWWrite p w = (None, w')"
  shows "\<exists>d' io b. w' = w\<lparr>osBlob := Some d', osIO := io, wBlobBW := b\<rparr> \<and> bErr (wBlobBW w) = None
    \<and> bErr b = None \<and> d' @ bBuf b = d @ bBuf (wBlobBW w) @ p"
  using assms by (auto simp: sidecar_simps split: prod.splits
      dest!: sidecar.write_None [rotated] elim!: sidecar_frame_cases) blast+

lemma blobBWWrite_Some:
  assumes "osBlob w = Some d" "blobBWWrite p w = (Some e, w')"
  shows "\<exists>d' io b. w' = w\<lparr>osBlob := Some d', osIO := io, wBlobBW := b\<rparr> \<and> bErr b \<noteq> None"
  using assms by (auto simp: sidecar_simps split: prod.splits
      dest!: sidecar.write_Some [rotated] elim!: sidecar_frame_cases) blast+

lemma blobBWFlush_None:
  assumes "osBlob w = Some d" "blobBWFlush w = (None, w')"
  shows "\<exists>io b. w' = w\<lparr>osBlob := Some (d @ bBuf (wBlobBW w)), osIO := io, wBlobBW := b\<rparr>
    \<and> bErr (wBlobBW w) = None"
  using assms by (auto simp: sidecar_simps split: prod.splits
      dest!: sidecar.flush_None [rotated] elim!: sidecar_frame_cases) blast+

lemma blobBWFlush_Some:
  assumes "osBlob w = Some d" "blobBWFlush w = (Some e, w')"
  shows "\<exists>d' io b. w' = w\<lparr>osBlob := Some d', osIO := io, wBlobBW := b\<rparr>"
  using assms by (auto simp: sidecar_simps split: prod.splits
      dest!: sidecar.flush_Some [rotated] elim!: sidecar_frame_cases) blast+

text \<open>With no failures to come, the files are reliable.\<close>

interpretation main_reliable: reliable_sink fileWrite file_bytes
    "\<lambda>w. w\<lparr>osFile := None, osIO := []\<rparr>" "\<lambda>w. osFile w \<noteq> None" "\<lambda>w. osIO w = []"
  by unfold_locales (auto simp: fileWrite_def sys_outcome_def)

interpretation sidecar_reliable: reliable_sink blobWrite sidecar_bytes
    "\<lambda>w. w\<lparr>osBlob := None, osIO := []\<rparr>" "\<lambda>w. osBlob w \<noteq> None" "\<lambda>w. osIO w = []"
  by unfold_locales (auto simp: blobWrite_def sys_outcome_def)

lemma bwWrite_fine: "osIO w = [] \<Longrightarrow> bErr (wBw w) = None \<Longrightarrow> \<exists>w'. bwWrite p w = (None, w') \<and> osIO w' = []"
  using main_reliable.write_fine [of w "wBw w" p] by (auto simp: bwWrite_def)

lemma bwFlush_fine: "osIO w = [] \<Longrightarrow> bErr (wBw w) = None \<Longrightarrow> \<exists>w'. bwFlush w = (None, w') \<and> osIO w' = []"
  using main_reliable.flush_fine [of w "wBw w"] by (auto simp: bwFlush_def)

lemma blobBWWrite_fine:
  "osIO w = [] \<Longrightarrow> bErr (wBlobBW w) = None \<Longrightarrow> \<exists>w'. blobBWWrite p w = (None, w') \<and> osIO w' = []"
  using sidecar_reliable.write_fine [of w "wBlobBW w" p] by (auto simp: blobBWWrite_def)

lemma blobBWFlush_fine:
  "osIO w = [] \<Longrightarrow> bErr (wBlobBW w) = None \<Longrightarrow> \<exists>w'. blobBWFlush w = (None, w') \<and> osIO w' = []"
  using sidecar_reliable.flush_fine [of w "wBlobBW w"] by (auto simp: blobBWFlush_def)

lemma sys_call_fine: "osIO w = [] \<Longrightarrow> sys_call w = (None, w)"
  by (simp add: sys_call_def sys_outcome_def)

end
