(* ===== verification/Store_Writer_Blocks.thy ===== *)
theory Store_Writer_Blocks
  imports Store_Writer Store_Image
begin

text \<open>
  The writer's bookkeeping, record by record: how the time index, the footer of the closed blocks
  and the running block checksum change when a record is appended. The lemmas state the effect of
  \<^verbatim>\<open>startBlock\<close>, \<^verbatim>\<open>noteRecord\<close> and \<^verbatim>\<open>closeLastBlock\<close> on the specification of the
  finished file.
\<close>

section \<open>Blocks of a growing file\<close>

text \<open>The number of blocks already closed when \<open>n\<close> records are written: the last block stays open
  until a record after it arrives.\<close>

definition closed_blocks :: "nat \<Rightarrow> nat \<Rightarrow> nat" where
  "closed_blocks bs n = (n - 1) div bs"

lemma closed_blocks_0 [simp]: "closed_blocks bs 0 = 0"
  by (simp add: closed_blocks_def)

lemma closed_blocks_Suc [simp]: "closed_blocks bs (Suc n) = n div bs"
  by (simp add: closed_blocks_def)

lemma block_count_Suc: "0 < bs \<Longrightarrow> block_count (Suc n) bs = Suc (n div bs)"
  by (simp add: block_count_def div_add_self2)

lemma block_count_mod: "0 < bs \<Longrightarrow> block_count n bs = (if n mod bs = 0 then n div bs else Suc (n div bs))"
proof (cases n)
  case (Suc m)
  assume "0 < bs"
  then show ?thesis
    unfolding Suc by (auto simp: block_count_Suc div_Suc)
qed (simp add: block_count_def)

lemma closed_blocks_mod:
  "0 < bs \<Longrightarrow> 0 < n \<Longrightarrow> closed_blocks bs n = (if n mod bs = 0 then n div bs - 1 else n div bs)"
  using block_count_mod [of bs n] by (cases n) (auto simp: block_count_Suc)

lemma closed_block_full: "0 < bs \<Longrightarrow> (b :: nat) < n div bs \<Longrightarrow> b * bs + bs \<le> n"
proof -
  assume "0 < bs" "b < n div bs"
  then have "Suc b * bs \<le> n"
    by (metis Suc_leI less_eq_div_iff_mult_less_eq)
  then show ?thesis by simp
qed

lemma spec_entry_snoc:
  assumes "0 < bs" "b < length recs div bs"
  shows "spec_entry bs (recs @ [rec]) b = spec_entry bs recs b"
  using closed_block_full [OF assms] by (simp add: spec_entry_def)

lemma spec_times_snoc:
  assumes "0 < bs"
  shows "spec_times bs (recs @ [rec]) =
    (if length recs mod bs = 0 then spec_times bs recs @ [ExchangeTs rec] else spec_times bs recs)"
proof -
  let ?n = "length recs"
  have eq: "map (\<lambda>b. ExchangeTs ((recs @ [rec]) ! (b * bs))) [0..<block_count ?n bs] = spec_times bs recs"
    unfolding spec_times_def using assms by (simp add: nth_append less_block_count_iff)
  show ?thesis
  proof (cases "?n mod bs = 0")
    case True
    then have "?n div bs * bs = ?n"
      by auto
    moreover have "block_count (Suc ?n) bs = Suc (block_count ?n bs)" "block_count ?n bs = ?n div bs"
      using True assms by (simp_all only: block_count_Suc block_count_mod [of bs ?n] simp_thms if_True)
    ultimately show ?thesis
      using True eq by (simp add: spec_times_def [of bs "recs @ [rec]"] nth_append)
  next
    case False
    then have "block_count (Suc ?n) bs = block_count ?n bs"
      using assms by (simp only: block_count_Suc block_count_mod [of bs ?n] if_False)
    then show ?thesis
      using False eq by (simp add: spec_times_def [of bs "recs @ [rec]"])
  qed
qed

lemma spec_snaps_snoc:
  "spec_snaps (recs @ [rec]) =
    (if RecordType rec = RecordTypeSnapshotPointer then spec_snaps recs @ [of_nat (length recs)] else spec_snaps recs)"
proof -
  have "filter (\<lambda>i. RecordType ((recs @ [rec]) ! i) = RecordTypeSnapshotPointer) [0..<length recs] =
      filter (\<lambda>i. RecordType (recs ! i) = RecordTypeSnapshotPointer) [0..<length recs]"
    by (rule filter_cong) (simp_all add: nth_append)
  then show ?thesis
    by (simp add: spec_snaps_def)
qed

text \<open>The footer entries of the closed blocks, and the records of the open one.\<close>

definition closed_footer :: "nat \<Rightarrow> Record list \<Rightarrow> footerEntry list" where
  "closed_footer bs recs = map (spec_entry bs recs) [0..<closed_blocks bs (length recs)]"

definition open_records :: "nat \<Rightarrow> Record list \<Rightarrow> Record list" where
  "open_records bs recs = drop (closed_blocks bs (length recs) * bs) recs"

lemma closed_footer_snoc:
  assumes "0 < bs"
  shows "closed_footer bs (recs @ [rec]) =
    (if length recs mod bs = 0 \<and> recs \<noteq> []
     then closed_footer bs recs @
       [\<lparr>BlockStartIndex = of_nat (length recs - bs), CRC32C = crc32_Checksum (records_bytes (open_records bs recs))\<rparr>]
     else closed_footer bs recs)"
proof -
  let ?n = "length recs"
  have eq: "map (spec_entry bs (recs @ [rec])) [0..<?n div bs] = map (spec_entry bs recs) [0..<?n div bs]"
    using assms by (simp add: spec_entry_snoc)
  show ?thesis
  proof (cases "?n mod bs = 0 \<and> recs \<noteq> []")
    case True
    define k where "k = ?n div bs - 1"
    have n: "?n = Suc k * bs"
    proof -
      have "?n = ?n div bs * bs"
        using True by auto
      moreover have "?n div bs \<noteq> 0"
        using True calculation by (metis length_0_conv mult_0)
      ultimately show ?thesis
        unfolding k_def by (metis Suc_pred' bot_nat_0.not_eq_extremum)
    qed
    have c: "closed_blocks bs ?n = k"
      using True assms by (simp add: closed_blocks_mod k_def)
    then have "open_records bs recs = drop (k * bs) recs"
      by (simp only: open_records_def)
    moreover have "?n div bs = Suc k"
      using n assms by simp
    moreover have "spec_entry bs recs k = \<lparr>BlockStartIndex = of_nat (?n - bs),
        CRC32C = crc32_Checksum (records_bytes (drop (k * bs) recs))\<rparr>"
      using n by (simp add: spec_entry_def)
    ultimately show ?thesis
      using True eq c by (simp add: closed_footer_def)
  next
    case False
    then have "closed_blocks bs ?n = ?n div bs"
      using assms by (cases "?n = 0") (auto simp: closed_blocks_mod)
    then show ?thesis
      using False eq by (auto simp: closed_footer_def)
  qed
qed

lemma open_records_snoc:
  assumes "0 < bs"
  shows "open_records bs (recs @ [rec]) =
    (if length recs mod bs = 0 then [rec] else open_records bs recs @ [rec])"
proof (cases "length recs mod bs = 0")
  case True
  then have "length recs div bs * bs = length recs"
    by auto
  then show ?thesis
    using True by (simp add: open_records_def)
next
  case False
  then have "closed_blocks bs (length recs) = length recs div bs"
    using assms by (cases "length recs = 0") (auto simp: closed_blocks_mod)
  then show ?thesis
    using False by (simp add: open_records_def)
qed

text \<open>Closing the open block completes the footer.\<close>

lemma spec_footer_closed:
  assumes "0 < bs"
  shows "spec_footer bs recs =
    (if recs = [] then []
     else closed_footer bs recs @
       [\<lparr>BlockStartIndex = of_nat (closed_blocks bs (length recs) * bs),
         CRC32C = crc32_Checksum (records_bytes (open_records bs recs))\<rparr>])"
proof (cases recs rule: rev_cases)
  case (snoc rs r)
  let ?k = "length rs div bs"
  have "length recs \<le> Suc ?k * bs"
    using snoc assms by (simp add: Suc_le_eq dividend_less_div_times)
  then have "take bs (drop (?k * bs) recs) = drop (?k * bs) recs"
    by simp
  then have "spec_entry bs recs ?k = \<lparr>BlockStartIndex = of_nat (?k * bs),
      CRC32C = crc32_Checksum (records_bytes (open_records bs recs))\<rparr>"
    using snoc by (simp add: spec_entry_def open_records_def)
  then show ?thesis
    using snoc assms by (simp add: spec_footer_def closed_footer_def block_count_Suc)
qed (use assms in \<open>simp add: spec_footer_def block_count_def\<close>)

end
