(* ===== verification/Store_Writer_Inv.thy ===== *)
theory Store_Writer_Inv
  imports Store_Writer_Blocks
begin

text \<open>
  The invariant of an open writer. \<open>rec_inv h recs w\<close>: the bytes written and still buffered are
  the reserved header and the encodings of \<open>recs\<close>, and every field is what the specification of
  the file says for \<open>recs\<close>. \<open>blob_inv bl w\<close>: the sidecar holds \<open>bl\<close>. A failed write leaves
  the invariant, but only with the sticky error set (\<open>broken\<close>).
\<close>

section \<open>The invariant\<close>

definition rec_inv :: "header \<Rightarrow> Record list \<Rightarrow> Writer \<Rightarrow> bool" where
  "rec_inv h recs w \<longleftrightarrow>
     stored_ok (hVenueID h) recs \<and>
     wHdr w = h\<lparr>hMinExchangeTs := first_ts recs, hMaxExchangeTs := last_ts recs\<rparr> \<and>
     blockSizeRecords (wOpts w) = hBlockSizeRecords h \<and>
     wRecCount w = of_nat (length recs) \<and>
     wPos w = of_nat (unat (hHeaderSize h) + 64 * length recs) \<and>
     wHasLast w = (recs \<noteq> []) \<and> (recs \<noteq> [] \<longrightarrow> wLastKey w = last recs) \<and>
     wTimeIndex w = spec_times (unat (hBlockSizeRecords h)) recs \<and>
     wSnapIndex w = spec_snaps recs \<and>
     wFooter w = closed_footer (unat (hBlockSizeRecords h)) recs \<and>
     wBlockCRC w = crc32_Checksum (records_bytes (open_records (unat (hBlockSizeRecords h)) recs)) \<and>
     length (wBuf w) = 64 \<and> wState w = writerOpen \<and> wF w \<and> bErr (wBw w) = None \<and>
     (\<exists>d. osFile w = Some d \<and>
        d @ bBuf (wBw w) = replicate (unat (hHeaderSize h)) 0 @ records_bytes recs)"

definition blob_inv :: "bytes \<Rightarrow> Writer \<Rightarrow> bool" where
  "blob_inv bl w \<longleftrightarrow> wBlobLen w = of_nat (length bl) \<and>
     (if wBlobFile w
      then bErr (wBlobBW w) = None \<and> (\<exists>d. osBlob w = Some d \<and> d @ bBuf (wBlobBW w) = bl)
      else bl = [])"

definition writer_inv :: "header \<Rightarrow> event list \<Rightarrow> Writer \<Rightarrow> bool" where
  "writer_inv h evs w \<longleftrightarrow>
     base_header_ok h \<and> list_all event_ok evs \<and> rec_inv h (stored 0 evs) w \<and> blob_inv (region evs) w"

text \<open>A file that the finalized byte does not mark as complete.\<close>

definition unfinal :: "bytes \<Rightarrow> bool" where
  "unfinal d \<longleftrightarrow> length d \<le> hdrOffFinalized \<or> d ! hdrOffFinalized = 0"

definition broken :: "Writer \<Rightarrow> bool" where
  "broken w \<longleftrightarrow> wState w = writerOpen \<and> wF w \<and> length (wBuf w) = 64 \<and>
     (bErr (wBw w) \<noteq> None \<or> wBlobFile w \<and> bErr (wBlobBW w) \<noteq> None \<and> osBlob w \<noteq> None) \<and>
     (\<exists>d rest tail. osFile w = Some d \<and> d @ rest = replicate 128 0 @ tail
        \<and> (bErr (wBw w) = None \<longrightarrow> rest = bBuf (wBw w)))"

lemma unfinal_prefix: "d @ rest = replicate 128 0 @ tail \<Longrightarrow> unfinal d"
proof -
  assume e: "d @ rest = replicate 128 0 @ tail"
  show "unfinal d"
  proof (cases "length d \<le> 120")
    case False
    then have "(d @ rest) ! 120 = d ! 120"
      by (simp add: nth_append)
    moreover have "(d @ rest) ! 120 = 0"
      unfolding e by (simp add: nth_append)
    ultimately show ?thesis
      by (simp add: unfinal_def header_layout)
  qed (simp add: unfinal_def header_layout)
qed

lemma unfinal_rejected: "unfinal d \<Longrightarrow> openBytes d \<noteq> Inr r"
proof -
  assume u: "unfinal d"
  have "\<not> (decodeHeader d = Inr h \<and> validateHeader h fl = None)" for h fl
  proof
    assume h: "decodeHeader d = Inr h \<and> validateHeader h fl = None"
    then have "128 \<le> length d" "header_bytes h = sub d 0 128"
      using decodeHeader_InrD by blast+
    then have "d ! 120 = of_bool (hFinalized h)"
      using nth_header_bytes_finalized [of h "[]"] nth_sub [of 120 128 0 d] by simp
    moreover have "hFinalized h"
      using h by (auto simp: validateHeader_def split: if_splits)
    ultimately show False
      using u \<open>128 \<le> length d\<close> by (simp add: unfinal_def header_layout)
  qed
  then show ?thesis
    unfolding openBytes_def by (auto simp: bindE_eq_Inr_iff failE_eq_Inr_iff)
qed

section \<open>Appending a record\<close>

lemma startBlock_eq:
  assumes "wRecCount w = of_nat n" "n \<le> 2 ^ 40" "unat (blockSizeRecords (wOpts w)) = bs" "0 < bs"
  shows "startBlock rec w =
    (if n mod bs = 0 then
       (let w = (if n > 0 then w\<lparr>wFooter := wFooter w @ [\<lparr>BlockStartIndex = of_nat (n - bs), CRC32C = wBlockCRC w\<rparr>]\<rparr>
                 else w)
        in w\<lparr>wBlockCRC := 0, wTimeIndex := wTimeIndex w @ [ExchangeTs rec]\<rparr>)
     else w)"
proof -
  let ?bw = "ucast (blockSizeRecords (wOpts w)) :: u64"
  have un: "unat (of_nat n :: u64) = n"
    using assms(2) by (intro unat_of_nat_u64) simp
  have ub: "unat ?bw = bs"
    by (simp add: unat_ucast_up assms(3))
  have "unat ((of_nat n :: u64) mod ?bw) = n mod bs"
    by (simp add: unat_mod un ub)
  then have m: "(of_nat n :: u64) mod ?bw = 0 \<longleftrightarrow> n mod bs = 0"
    by (metis unat_0 unat_eq_zero)
  have p: "(0 :: u64) < of_nat n \<longleftrightarrow> 0 < n"
    by (simp add: word_less_nat_alt un)
  have "(of_nat n :: u64) - ?bw = of_nat (n - bs)" if "n mod bs = 0" "0 < n"
  proof -
    have "bs \<le> n"
      using that by (meson dvd_imp_le mod_eq_0_iff_dvd)
    then have "unat ((of_nat n :: u64) - ?bw) = n - bs"
      by (subst unat_sub) (simp_all only: word_le_nat_alt un ub)
    moreover have "unat (of_nat (n - bs) :: u64) = n - bs"
      using assms(2) by (intro unat_of_nat_u64) simp
    ultimately show ?thesis
      by (simp only: word_unat_eq_iff)
  qed
  then show ?thesis
    unfolding startBlock_def Let_def assms(1) m p by simp
qed

lemma rec_invD:
  assumes "rec_inv h recs w"
  shows "stored_ok (hVenueID h) recs" "length recs \<le> 2 ^ 40" "wRecCount w = of_nat (length recs)"
    "unat (wRecCount w) = length recs" "hVenueID (wHdr w) = hVenueID h" "wState w = writerOpen"
    "bErr (wBw w) = None" "blockSizeRecords (wOpts w) = hBlockSizeRecords h" "wF w"
proof -
  show "stored_ok (hVenueID h) recs" "wRecCount w = of_nat (length recs)" "wState w = writerOpen"
    "bErr (wBw w) = None" "blockSizeRecords (wOpts w) = hBlockSizeRecords h" "hVenueID (wHdr w) = hVenueID h" "wF w"
    using assms by (simp_all add: rec_inv_def)
  then show "length recs \<le> 2 ^ 40" "unat (wRecCount w) = length recs"
    by (simp_all add: stored_ok_def unat_of_nat_u64)
qed

text \<open>The bookkeeping around one record keeps the fields at their specification.\<close>

lemma startBlock_inv:
  assumes "base_header_ok h" "rec_inv h recs w"
  defines "bs \<equiv> unat (hBlockSizeRecords h)"
  shows "startBlock rec w = w\<lparr>wFooter := closed_footer bs (recs @ [rec]),
    wTimeIndex := spec_times bs (recs @ [rec]),
    wBlockCRC := (if length recs mod bs = 0 then 0 else wBlockCRC w)\<rparr>"
proof -
  have bs: "0 < bs"
    using assms(1) by (simp add: base_header_ok_def bs_def)
  have f: "wFooter w = closed_footer bs recs" "wTimeIndex w = spec_times bs recs"
    "wBlockCRC w = crc32_Checksum (records_bytes (open_records bs recs))"
    using assms(2) by (simp_all add: rec_inv_def bs_def)
  note s = startBlock_eq [OF rec_invD(3,2) [OF assms(2)] _ bs, of rec]
  show ?thesis
    unfolding s [OF arg_cong [where f = unat, OF rec_invD(8) [OF assms(2)], folded bs_def]]
    using closed_footer_snoc [OF bs, of recs rec] spec_times_snoc [OF bs, of recs rec]
    by (cases w) (auto simp: f [symmetric] Let_def)
qed

lemma checkAppend_None_iff:
  assumes "rec_inv h recs w"
  shows "checkAppend rec w = None \<longleftrightarrow>
    VenueID rec = hVenueID h \<and> validateRecord rec = None \<and> length recs < 2 ^ 40
    \<and> (recs \<noteq> [] \<longrightarrow> compareKey (last recs) rec < 0)"
proof -
  have c: "wRecCount w \<ge> of_nat maxRecordCount \<longleftrightarrow> \<not> length recs < 2 ^ 40"
    using rec_invD(4) [OF assms] by (simp add: word_le_nat_alt maxRecordCount_def not_less)
  have l: "wHasLast w = (recs \<noteq> [])" "recs \<noteq> [] \<Longrightarrow> wLastKey w = last recs"
    using assms by (simp_all add: rec_inv_def)
  show ?thesis
    unfolding checkAppend_def c rec_invD(5) [OF assms] using l by (auto split: option.splits)
qed

lemma stored_ok_checkAppend:
  assumes "rec_inv h recs w" "checkAppend rec w = None"
  shows "stored_ok (hVenueID h) (recs @ [rec])"
  using assms(2) unfolding checkAppend_None_iff [OF assms(1)]
  by (intro stored_ok_snoc rec_invD(1) [OF assms(1)]) auto

lemma rec_inv_append:
  assumes base: "base_header_ok h" and inv: "rec_inv h recs w" and chk: "checkAppend rec w = None"
    and strm: "d @ bBuf b = (replicate (unat (hHeaderSize h)) 0 @ records_bytes recs) @ record_bytes rec" "bErr b = None"
  shows "rec_inv h (recs @ [rec])
    (noteRecord rec (startBlock rec w\<lparr>wBuf := record_bytes rec, osFile := Some d, osIO := io, wBw := b\<rparr>))"
proof -
  let ?bs = "unat (hBlockSizeRecords h)" and ?n = "length recs"
  have bs: "0 < ?bs"
    using base by (simp add: base_header_ok_def)
  have crc: "crc32_Update (if ?n mod ?bs = 0 then 0 else wBlockCRC w) (record_bytes rec)
      = crc32_Checksum (records_bytes (open_records ?bs (recs @ [rec])))"
    using inv open_records_snoc [OF bs, of recs rec]
    by (simp add: rec_inv_def records_bytes_append records_bytes_Cons crc32_Checksum_append
        records_bytes_def [of "[]"]) (simp add: crc32_Checksum_def)
  have n0: "wRecCount w = 0 \<longleftrightarrow> recs = []"
    using rec_invD(4) [OF inv] by (metis length_0_conv unat_eq_zero)
  have ts: "first_ts (recs @ [rec]) = (if recs = [] then ExchangeTs rec else first_ts recs)"
    "last_ts (recs @ [rec]) = ExchangeTs rec"
    by (simp_all add: first_ts_def last_ts_def)
  show ?thesis
    using inv stored_ok_checkAppend [OF inv chk] strm n0
    unfolding startBlock_inv [OF base inv] rec_inv_def
    by (auto simp: noteRecord_def Let_def crc ts spec_snaps_snoc RecordSize_def records_bytes_append
        records_bytes_Cons records_bytes_def [of "[]"])
qed

text \<open>The fields of the sidecar.\<close>

definition sidecar_state :: "Writer \<Rightarrow> bool \<times> bufio \<times> u64 \<times> bytes option" where
  "sidecar_state w = (wBlobFile w, wBlobBW w, wBlobLen w, osBlob w)"

lemma blob_inv_cong: "sidecar_state w' = sidecar_state w \<Longrightarrow> blob_inv bl w' \<longleftrightarrow> blob_inv bl w"
  by (simp add: sidecar_state_def blob_inv_def)

lemma Writer_append_eq:
  assumes "checkAppend rec w = None" "length (wBuf (startBlock rec w)) = 64"
  shows "Writer_append rec w =
    (case bwWrite (record_bytes rec) (startBlock rec w\<lparr>wBuf := record_bytes rec\<rparr>) of
       (Some e, w) \<Rightarrow> (Some e, w) | (None, w) \<Rightarrow> (None, noteRecord rec w))"
  using assms by (simp add: Writer_append_def Let_def EncodeRecord_eq)

lemma startBlock_sel [simp]:
  "wBuf (startBlock rec w) = wBuf w" "osFile (startBlock rec w) = osFile w" "wBw (startBlock rec w) = wBw w"
  "wState (startBlock rec w) = wState w" "wF (startBlock rec w) = wF w"
  "sidecar_state (startBlock rec w) = sidecar_state w"
  by (simp_all add: startBlock_def Let_def sidecar_state_def)

lemma noteRecord_sel [simp]:
  "osFile (noteRecord rec w) = osFile w" "wBw (noteRecord rec w) = wBw w"
  "wState (noteRecord rec w) = wState w" "wF (noteRecord rec w) = wF w"
  "sidecar_state (noteRecord rec w) = sidecar_state w" "wBuf (noteRecord rec w) = wBuf w"
  by (simp_all add: noteRecord_def Let_def sidecar_state_def)

lemma append_ok:
  assumes base: "base_header_ok h" and inv: "rec_inv h recs w" and r: "Writer_append rec w = (None, w')"
  shows "checkAppend rec w = None" "rec_inv h (recs @ [rec]) w'" "sidecar_state w' = sidecar_state w"
proof -
  show chk: "checkAppend rec w = None"
    using r by (auto simp: Writer_append_def split: option.splits)
  let ?w = "startBlock rec w\<lparr>wBuf := record_bytes rec\<rparr>"
  have len: "length (wBuf (startBlock rec w)) = 64"
    using inv by (simp add: rec_inv_def)
  obtain d where d: "osFile w = Some d"
    "d @ bBuf (wBw w) = replicate (unat (hHeaderSize h)) 0 @ records_bytes recs"
    using inv by (auto simp: rec_inv_def)
  obtain w1 where w1: "bwWrite (record_bytes rec) ?w = (None, w1)" "w' = noteRecord rec w1"
    using r unfolding Writer_append_eq [OF chk len] by (auto split: prod.splits option.splits)
  have "osFile ?w = Some d"
    using d(1) by simp
  from bwWrite_None [OF this w1(1)] obtain d' io b where w1': "w1 = ?w\<lparr>osFile := Some d', osIO := io, wBw := b\<rparr>"
    "bErr b = None" "d' @ bBuf b = (d @ bBuf (wBw w)) @ record_bytes rec"
    by auto
  show "rec_inv h (recs @ [rec]) w'"
    unfolding w1(2) w1'(1) using w1'(2,3) d(2) by (intro rec_inv_append [OF base inv chk]) simp_all
  show "sidecar_state w' = sidecar_state w"
    unfolding w1(2) noteRecord_sel w1'(1) using startBlock_sel(6) [of rec w]
    by (simp add: sidecar_state_def)
qed

lemma append_Some:
  assumes base: "base_header_ok h" and inv: "rec_inv h recs w" and r: "Writer_append rec w = (Some e, w')"
  shows "w' = w \<and> checkAppend rec w = Some e \<or> checkAppend rec w = None \<and> broken w'"
proof (cases "checkAppend rec w")
  case None
  let ?w = "startBlock rec w\<lparr>wBuf := record_bytes rec\<rparr>"
  have len: "length (wBuf (startBlock rec w)) = 64"
    using inv by (simp add: rec_inv_def)
  obtain d where d: "osFile w = Some d"
    "d @ bBuf (wBw w) = replicate (unat (hHeaderSize h)) 0 @ records_bytes recs"
    using inv by (auto simp: rec_inv_def)
  have w1: "bwWrite (record_bytes rec) ?w = (Some e, w')"
    using r unfolding Writer_append_eq [OF None len] by (auto split: prod.splits option.splits)
  have "osFile ?w = Some d"
    using d(1) by simp
  from bwWrite_Some [OF this w1] obtain d' io b rest where w': "w' = ?w\<lparr>osFile := Some d', osIO := io, wBw := b\<rparr>"
    "bErr b \<noteq> None" "d' @ rest = (d @ bBuf (wBw w)) @ record_bytes rec"
    by auto
  have "replicate (unat (hHeaderSize h)) 0 = replicate 128 (0 :: u8) @ replicate (unat (hHeaderSize h) - 128) 0"
    using base by (simp add: base_header_ok_def flip: replicate_add)
  then have "\<exists>tail. d' @ rest = replicate 128 0 @ tail"
    using w'(3) d(2) by simp
  then have "broken w'"
    using w'(2) rec_invD(6,9) [OF inv] by (auto simp: broken_def w'(1))
  then show ?thesis
    using None by blast
qed (use r in \<open>simp add: Writer_append_def\<close>)

lemma append_broken:
  assumes "broken w" "Writer_append rec w = (err, w')"
  shows "broken w' \<and> sidecar_state w' = sidecar_state w \<and> (err = None \<longrightarrow> bErr (wBw w') = None)"
proof (cases "checkAppend rec w")
  case None
  let ?w = "startBlock rec w\<lparr>wBuf := record_bytes rec\<rparr>"
  have len: "length (wBuf (startBlock rec w)) = 64"
    using assms(1) by (simp add: broken_def)
  obtain d rest tail where d: "osFile w = Some d" "d @ rest = replicate 128 0 @ tail"
    "bErr (wBw w) = None \<longrightarrow> rest = bBuf (wBw w)"
    using assms(1) by (auto simp: broken_def)
  have f: "osFile ?w = Some d"
    using d(1) by simp
  have sc: "sidecar_state (startBlock rec w) = sidecar_state w"
    by simp
  show ?thesis
  proof (cases "bErr (wBw w)")
    case (Some x)
    then have "bwWrite (record_bytes rec) ?w = (Some x, ?w)"
      by (simp add: bwWrite_def bufWrite.simps)
    then have "w' = ?w" "err = Some x"
      using assms(2) unfolding Writer_append_eq [OF None len] by simp_all
    then show ?thesis
      using assms(1) sc d by (auto simp: broken_def sidecar_state_def)
  next
    case ok: None
    then have side: "wBlobFile w" "bErr (wBlobBW w) \<noteq> None" "osBlob w \<noteq> None"
      using assms(1) by (auto simp: broken_def)
    obtain e1 w1 where w1: "bwWrite (record_bytes rec) ?w = (e1, w1)"
      by fastforce
    have "\<exists>d' io b rest' tail'. w1 = ?w\<lparr>osFile := Some d', osIO := io, wBw := b\<rparr>
        \<and> d' @ rest' = replicate 128 0 @ tail' \<and> (bErr b = None \<longrightarrow> rest' = bBuf b)
        \<and> (e1 = None \<longrightarrow> bErr b = None)"
    proof (cases e1)
      case None
      from bwWrite_None [OF f w1 [unfolded None]] obtain d' io b where
        x: "w1 = ?w\<lparr>osFile := Some d', osIO := io, wBw := b\<rparr>" "bErr b = None"
          "d' @ bBuf b = d @ bBuf (wBw w) @ record_bytes rec"
        by auto
      then have "d' @ bBuf b = replicate 128 0 @ tail @ record_bytes rec"
        using d(2,3) ok by simp
      with x(1,2) None show ?thesis by (metis option.distinct(1))
    next
      case (Some e2)
      from bwWrite_Some [OF f w1 [unfolded Some]] obtain d' io b rest' where
        x: "w1 = ?w\<lparr>osFile := Some d', osIO := io, wBw := b\<rparr>" "bErr b \<noteq> None"
          "d' @ rest' = d @ bBuf (wBw w) @ record_bytes rec"
        by auto
      then have "d' @ rest' = replicate 128 0 @ tail @ record_bytes rec"
        using d(2,3) ok by simp
      with x(1,2) Some show ?thesis by (metis option.distinct(1))
    qed
    then obtain d' io b rest' tail' where x: "w1 = ?w\<lparr>osFile := Some d', osIO := io, wBw := b\<rparr>"
        "d' @ rest' = replicate 128 0 @ tail'" "bErr b = None \<longrightarrow> rest' = bBuf b"
        "e1 = None \<longrightarrow> bErr b = None"
      by (elim exE conjE)
    have "(w' = w1 \<or> w' = noteRecord rec w1) \<and> err = e1"
      using assms(2) w1 unfolding Writer_append_eq [OF None len] by (cases e1) auto
    moreover have "sidecar_state w1 = sidecar_state w"
      using sc by (simp add: x(1) sidecar_state_def)
    moreover have "wState w1 = writerOpen" "wF w1" "osFile w1 = Some d'" "wBw w1 = b" "length (wBuf w1) = 64"
      using assms(1) by (simp_all add: x(1) broken_def)
    ultimately have s: "sidecar_state w' = sidecar_state w" "wState w' = writerOpen" "wF w'"
      "osFile w' = Some d'" "wBw w' = b" "length (wBuf w') = 64" "err = e1"
      by auto
    then have "broken w'"
      using side x(2,3) by (auto simp: broken_def sidecar_state_def)
    with s x(4) show ?thesis by simp
  qed
qed (use assms in \<open>auto simp: Writer_append_def\<close>)

section \<open>Building a blob\<close>

lemma put_put_adjacent:
  "off + length ys + length zs \<le> length xs \<Longrightarrow>
   put (put xs off ys) (off + length ys) zs = put xs off (ys @ zs)"
  by (simp add: put_def add.assoc add.commute add.left_commute)

lemma putLevels_eq:
  "off + 16 * length ls \<le> length b \<Longrightarrow> putLevels b off ls = put b off (levels_bytes ls)"
proof (induction ls arbitrary: b off)
  case Nil
  then show ?case by (simp add: levels_bytes_def put_def)
next
  case (Cons l ls)
  let ?b = "put b off (level_bytes l)"
  have b: "PutUint64 (PutUint64 b off (lPrice l)) (off + 8) (lSize l) = ?b"
    using Cons.prems put_put_adjacent [of off "le_bytes 8 (lPrice l)" "le_bytes 8 (lSize l)" b]
    by (simp add: le_writes level_bytes_def)
  have "length ?b = length b"
    using Cons.prems by (simp add: length_put)
  then have "putLevels ?b (off + 16) ls = put ?b (off + 16) (levels_bytes ls)"
    using Cons.prems by (intro Cons.IH) simp
  also have "\<dots> = put b off (levels_bytes (l # ls))"
    using Cons.prems put_put_adjacent [of off "level_bytes l" "levels_bytes ls" b]
    by (simp add: levels_bytes_Cons)
  finally show ?case
    by (simp add: b levelSize_def)
qed

lemma encodeBlob_eq:
  assumes "length b = 8 + 16 * (length bids + length asks)"
  shows "encodeBlob b bids asks = blob_bytes bids asks"
proof -
  let ?c = "take 4 b"
  let ?nb = "le_bytes 2 (of_nat (length bids) :: u16)" and ?na = "le_bytes 2 (of_nat (length asks) :: u16)"
  have h: "PutUint16 (PutUint16 b 4 (of_nat (length bids))) 6 (of_nat (length asks)) = ?c @ ?nb @ ?na @ drop 8 b"
    using assms by (simp add: le_writes put_def min_def)
  have "putLevels (?c @ ?nb @ ?na @ drop 8 b) 8 bids =
      ?c @ ?nb @ ?na @ levels_bytes bids @ drop (8 + 16 * length bids) b"
    using assms by (subst putLevels_eq) (simp_all add: put_def min_def add.commute)
  moreover have "putLevels (?c @ ?nb @ ?na @ levels_bytes bids @ drop (8 + 16 * length bids) b)
      (8 + length bids * 16) asks = ?c @ ?nb @ ?na @ levels_bytes bids @ levels_bytes asks"
    using assms by (subst putLevels_eq) (simp_all add: put_def min_def)
  ultimately show ?thesis
    unfolding encodeBlob_def Let_def blobHeaderSize_def levelSize_def h
    using assms by (simp add: le_writes put_def blob_bytes_def payload_bytes_def levels_bytes_append)
qed

section \<open>Operations\<close>

lemma sys_call_frame: "sys_call w = (e, w') \<Longrightarrow> \<exists>io. w' = w\<lparr>osIO := io\<rparr>" for w w' :: Writer
  by (cases w) (auto simp: sys_call_def sys_outcome_def split: list.splits option.splits)

lemma inv_irrelevant [simp]:
  "rec_inv h recs (w\<lparr>wBlobBuf := x\<rparr>) = rec_inv h recs w" "rec_inv h recs (w\<lparr>osIO := io\<rparr>) = rec_inv h recs w"
  "blob_inv bl (w\<lparr>wBlobBuf := x\<rparr>) = blob_inv bl w" "blob_inv bl (w\<lparr>osIO := io\<rparr>) = blob_inv bl w"
  "broken (w\<lparr>wBlobBuf := x\<rparr>) = broken w" "broken (w\<lparr>osIO := io\<rparr>) = broken w"
  by (simp_all add: rec_inv_def blob_inv_def broken_def)

lemma rec_inv_sidecar [simp]:
  "rec_inv h recs (w\<lparr>osBlob := x, osIO := io, wBlobBW := y\<rparr>) = rec_inv h recs w"
  "rec_inv h recs (w\<lparr>osBlob := x, wBlobFile := z, wBlobBW := y\<rparr>) = rec_inv h recs w"
  "rec_inv h recs (w\<lparr>wBlobLen := n\<rparr>) = rec_inv h recs w"
  by (simp_all add: rec_inv_def)

lemma rec_inv_zeros:
  assumes "base_header_ok h" "rec_inv h recs w"
  shows "\<exists>d tail. osFile w = Some d \<and> d @ bBuf (wBw w) = replicate 128 0 @ tail"
proof -
  have "replicate (unat (hHeaderSize h)) 0 = replicate 128 (0 :: u8) @ replicate (unat (hHeaderSize h) - 128) 0"
    using assms(1) by (simp add: base_header_ok_def flip: replicate_add)
  then show ?thesis
    using assms(2) by (auto simp: rec_inv_def)
qed

lemma broken_sidecar:
  assumes "base_header_ok h" "rec_inv h recs w" "wBlobFile w" "bErr (wBlobBW w) \<noteq> None" "osBlob w \<noteq> None"
  shows "broken w"
proof -
  from rec_inv_zeros [OF assms(1,2)] obtain d tail
    where "osFile w = Some d" "d @ bBuf (wBw w) = replicate 128 0 @ tail"
    by blast
  moreover have "length (wBuf w) = 64"
    using assms(2) by (simp add: rec_inv_def)
  ultimately show ?thesis
    using rec_invD(6,9) [OF assms(2)] assms(3-5) by (auto simp: broken_def)
qed

lemma openBlobFile_step:
  assumes "openBlobFile w = (err, w')" "blob_inv bl w"
  shows "blob_inv bl w' \<and> rec_inv h recs w' = rec_inv h recs w \<and> wBlobLen w' = wBlobLen w
    \<and> (err = None \<longrightarrow> wBlobFile w')"
proof (cases "wBlobFile w")
  case False
  obtain e w1 where s: "sys_call w = (e, w1)"
    by fastforce
  then obtain io where io: "w1 = w\<lparr>osIO := io\<rparr>"
    using sys_call_frame by blast
  show ?thesis
  proof (cases e)
    case None
    then have "w' = w\<lparr>osIO := io\<rparr>\<lparr>osBlob := Some [], wBlobFile := True, wBlobBW := newBufio\<rparr>"
      using assms(1) False s io by (simp add: openBlobFile_def)
    moreover have "bl = []" "wBlobLen w = 0"
      using assms(2) False by (simp_all add: blob_inv_def)
    ultimately show ?thesis
      by (simp add: blob_inv_def newBufio_def del: rec_inv_sidecar) (simp add: rec_inv_def)
  next
    case (Some x)
    then have "w' = w\<lparr>osIO := io\<rparr>" "err = Some x"
      using assms(1) False s io by (simp_all add: openBlobFile_def)
    then show ?thesis
      using assms(2) by simp
  qed
qed (use assms in \<open>simp add: openBlobFile_def\<close>)

text \<open>What a writer is asked to do for an event, and a sequence of them: the events whose call
  returned no error, and the writer afterwards.\<close>

fun offer :: "event \<Rightarrow> action" where
  "offer (EvRecord rec) w = WriteRecord rec w"
| "offer (EvSnapshot rec bids asks) w = WriteSnapshot rec bids asks w"

fun run_events :: "event list \<Rightarrow> Writer \<Rightarrow> event list \<times> Writer" where
  "run_events [] w = ([], w)"
| "run_events (e # es) w =
     (case offer e w of
        (None, w') \<Rightarrow> (let (acc, w'') = run_events es w' in (e # acc, w''))
      | (Some err, w') \<Rightarrow> run_events es w')"

lemma WriteRecord_step:
  assumes inv: "writer_inv h evs w" and r: "WriteRecord rec w = (err, w')"
  shows "if err = None then writer_inv h (evs @ [EvRecord rec]) w' else writer_inv h evs w' \<or> broken w'"
proof -
  have base: "base_header_ok h" and ri: "rec_inv h (stored 0 evs) w"
    using inv by (simp_all add: writer_inv_def)
  show ?thesis
  proof (cases "RecordType rec = RecordTypeSnapshotPointer")
    case True
    then show ?thesis
      using inv r rec_invD(6) [OF ri] by (auto simp: WriteRecord_def checkOpen_def)
  next
    case False
    then have a: "Writer_append rec w = (err, w')"
      using r rec_invD(6) [OF ri] by (simp add: WriteRecord_def checkOpen_def)
    show ?thesis
    proof (cases err)
      case None
      note ok = append_ok [OF base ri a [unfolded None]]
      then show ?thesis
        using inv False None blob_inv_cong [OF ok(3)]
        by (simp add: writer_inv_def stored_snoc region_snoc)
    next
      case (Some e)
      with append_Some [OF base ri a [unfolded Some]] inv show ?thesis
        by auto
    qed
  qed
qed

lemma broken_openD: "broken w \<Longrightarrow> wState w = writerOpen"
  by (simp add: broken_def)

lemma WriteRecord_broken: "broken w \<Longrightarrow> WriteRecord rec w = (err, w') \<Longrightarrow> broken w'"
  using append_broken [of w rec err w'] broken_openD [of w]
  by (auto simp: WriteRecord_def checkOpen_def split: if_splits)

text \<open>The work of a snapshot after its checks.\<close>

definition snapshot_work :: "Record \<Rightarrow> bytes \<Rightarrow> action" where
  "snapshot_work srec b = run_actions
     [openBlobFile, Writer_append srec, blobBWWrite b,
      \<lambda>w. (None, w\<lparr>wBlobLen := wBlobLen w + of_nat (length b)\<rparr>)]"

definition key_only :: "Record \<Rightarrow> Level list \<Rightarrow> Level list \<Rightarrow> bool" where
  "key_only rec bids asks \<longleftrightarrow>
     Price rec = 0 \<and> Size rec = 0 \<and> SideFlags rec = 0 \<and> BlobOffset rec = 0 \<and> BlobLen rec = 0
     \<and> LevelCount rec = 0 \<and> length bids + length asks \<le> 65535"

lemma WriteSnapshot_refused:
  assumes "wState w = writerOpen" "\<not> key_only rec bids asks"
  shows "\<exists>e. WriteSnapshot rec bids asks w = (Some e, w)"
  using assms by (auto simp: WriteSnapshot_def checkOpen_def key_only_def)

lemma WriteSnapshot_work:
  assumes "wState w = writerOpen" "key_only rec bids asks"
  shows "\<exists>x. WriteSnapshot rec bids asks w =
    snapshot_work (event_record 0 (EvSnapshot rec bids asks)\<lparr>BlobOffset := wBlobLen w\<rparr>)
      (blob_bytes bids asks) (w\<lparr>wBlobBuf := x\<rparr>)"
proof -
  let ?n = "8 + 16 * (length bids + length asks)"
  define buf where "buf = (if length (wBlobBuf w) < ?n then replicate ?n 0 else wBlobBuf w)"
  have len: "length (take ?n buf) = ?n"
    by (simp add: buf_def)
  have srec: "snapshot_record rec (wBlobLen w) (length bids + length asks) =
      event_record 0 (EvSnapshot rec bids asks)\<lparr>BlobOffset := wBlobLen w\<rparr>"
    by (simp add: snapshot_record_def blobHeaderSize_def levelSize_def)
  have w1: "(if length (wBlobBuf w) < ?n then w\<lparr>wBlobBuf := replicate ?n 0\<rparr> else w) = w\<lparr>wBlobBuf := buf\<rparr>"
    by (cases w) (simp add: buf_def)
  have "WriteSnapshot rec bids asks w =
      snapshot_work (event_record 0 (EvSnapshot rec bids asks)\<lparr>BlobOffset := wBlobLen w\<rparr>)
        (blob_bytes bids asks) (w\<lparr>wBlobBuf := blob_bytes bids asks @ drop ?n buf\<rparr>)"
  proof -
    have chk: "checkOpen w = None"
      using assms(1) by (simp add: checkOpen_def)
    have g: "\<not> (Price rec \<noteq> 0 \<or> Size rec \<noteq> 0 \<or> SideFlags rec \<noteq> 0 \<or> BlobOffset rec \<noteq> 0
        \<or> BlobLen rec \<noteq> 0 \<or> LevelCount rec \<noteq> 0)" "\<not> length bids + length asks > 65535"
      using assms(2) by (simp_all add: key_only_def)
    have n: "blobHeaderSize + levelSize * (length bids + length asks) = ?n"
      by (simp add: blobHeaderSize_def levelSize_def)
    have sel: "wBlobBuf (w\<lparr>wBlobBuf := x\<rparr>) = x" "wBlobLen (w\<lparr>wBlobBuf := x\<rparr>) = wBlobLen w"
      "w\<lparr>wBlobBuf := x\<rparr>\<lparr>wBlobBuf := y\<rparr> = w\<lparr>wBlobBuf := y\<rparr>" for x y
      by simp_all
    show ?thesis
      unfolding WriteSnapshot_def chk option.case if_not_P [OF g(1)] Let_def if_not_P [OF g(2)] n w1 sel
        encodeBlob_eq [OF len] srec snapshot_work_def length_blob_bytes ..
  qed
  then show ?thesis ..
qed

lemma WriteSnapshot_eq:
  assumes "wState w = writerOpen"
  shows "(\<exists>e. WriteSnapshot rec bids asks w = (Some e, w)) \<or>
    (key_only rec bids asks \<and> (\<exists>x. WriteSnapshot rec bids asks w =
      snapshot_work (event_record 0 (EvSnapshot rec bids asks)\<lparr>BlobOffset := wBlobLen w\<rparr>)
        (blob_bytes bids asks) (w\<lparr>wBlobBuf := x\<rparr>)))"
  using WriteSnapshot_refused [OF assms] WriteSnapshot_work [OF assms] by blast

lemma run_actions_NoneD:
  "run_actions (a # as) w = (None, w') \<Longrightarrow> \<exists>w1. a w = (None, w1) \<and> run_actions as w1 = (None, w')"
  by (auto split: prod.splits option.splits)

lemma run_actions_SomeD:
  "run_actions (a # as) w = (Some e, w') \<Longrightarrow>
   a w = (Some e, w') \<or> (\<exists>w1. a w = (None, w1) \<and> run_actions as w1 = (Some e, w'))"
  by (auto split: prod.splits option.splits)

lemma sidecar_state_eq:
  "sidecar_state w' = sidecar_state w \<Longrightarrow>
   wBlobFile w' = wBlobFile w \<and> wBlobBW w' = wBlobBW w \<and> wBlobLen w' = wBlobLen w \<and> osBlob w' = osBlob w"
  by (simp add: sidecar_state_def)

lemma snapshot_work_None:
  assumes base: "base_header_ok h" and ri: "rec_inv h recs w" and bi: "blob_inv bl w"
    and r: "snapshot_work srec b w = (None, w')"
  shows "rec_inv h (recs @ [srec]) w' \<and> blob_inv (bl @ b) w'"
proof -
  obtain w1 w2 w3 where s: "openBlobFile w = (None, w1)" "Writer_append srec w1 = (None, w2)"
      "blobBWWrite b w2 = (None, w3)" "w' = w3\<lparr>wBlobLen := wBlobLen w3 + of_nat (length b)\<rparr>"
    using r unfolding snapshot_work_def by (auto dest!: run_actions_NoneD simp del: run_actions.simps(2))
  note o = openBlobFile_step [OF s(1) bi, of h recs]
  have ri1: "rec_inv h recs w1"
    using o ri by simp
  note a = append_ok [OF base ri1 s(2)]
  have b2: "blob_inv bl w2" "wBlobFile w2"
    using o blob_inv_cong [OF a(3)] sidecar_state_eq [OF a(3)] by simp_all
  obtain d where d: "osBlob w2 = Some d" "d @ bBuf (wBlobBW w2) = bl" "wBlobLen w2 = of_nat (length bl)"
    using b2 by (auto simp: blob_inv_def)
  from blobBWWrite_None [OF d(1) s(3)] obtain d' io bb where w3: "w3 = w2\<lparr>osBlob := Some d', osIO := io, wBlobBW := bb\<rparr>"
    "bErr bb = None" "d' @ bBuf bb = d @ bBuf (wBlobBW w2) @ b"
    by blast
  have "rec_inv h (recs @ [srec]) w'"
    using a(2) by (simp add: s(4) w3(1))
  moreover have "blob_inv (bl @ b) w'"
    using w3(2,3) d b2(2) by (simp add: blob_inv_def s(4) w3(1))
  ultimately show ?thesis ..
qed

lemma snapshot_work_Some:
  assumes base: "base_header_ok h" and ri: "rec_inv h recs w" and bi: "blob_inv bl w"
    and r: "snapshot_work srec b w = (Some e, w')"
  shows "rec_inv h recs w' \<and> blob_inv bl w' \<or> broken w'"
proof -
  consider "openBlobFile w = (Some e, w')"
    | w1 where "openBlobFile w = (None, w1)" "Writer_append srec w1 = (Some e, w')"
    | w1 w2 where "openBlobFile w = (None, w1)" "Writer_append srec w1 = (None, w2)" "blobBWWrite b w2 = (Some e, w')"
    using r unfolding snapshot_work_def by (auto dest!: run_actions_SomeD simp del: run_actions.simps(2))
  then show ?thesis
  proof cases
    case 1
    then show ?thesis
      using openBlobFile_step [OF 1 bi, of h recs] ri by simp
  next
    case 2
    note o = openBlobFile_step [OF 2(1) bi, of h recs]
    have "rec_inv h recs w1"
      using o ri by simp
    from append_Some [OF base this 2(2)] show ?thesis
      using o ri by auto
  next
    case 3
    note o = openBlobFile_step [OF 3(1) bi, of h recs]
    have ri1: "rec_inv h recs w1"
      using o ri by simp
    note a = append_ok [OF base ri1 3(2)]
    have b2: "blob_inv bl w2" "wBlobFile w2"
      using o blob_inv_cong [OF a(3)] sidecar_state_eq [OF a(3)] by simp_all
    obtain d where d: "osBlob w2 = Some d"
      using b2 by (auto simp: blob_inv_def)
    from blobBWWrite_Some [OF d 3(3)] obtain d' io bb where
      w': "w' = w2\<lparr>osBlob := Some d', osIO := io, wBlobBW := bb\<rparr>" "bErr bb \<noteq> None"
      by blast
    have "broken w'"
      using a(2) b2(2) w'(2) by (intro broken_sidecar [OF base, of "recs @ [srec]"]) (simp_all add: w'(1))
    then show ?thesis ..
  qed
qed

lemma broken_opened:
  assumes "broken w" "openBlobFile w = (err, w')"
  shows "broken w'"
proof (cases "wBlobFile w")
  case False
  obtain e w1 where s: "sys_call w = (e, w1)"
    by fastforce
  then obtain io where "w1 = w\<lparr>osIO := io\<rparr>"
    using sys_call_frame by blast
  then have "wState w' = wState w" "wF w' = wF w" "wBuf w' = wBuf w" "wBw w' = wBw w" "osFile w' = osFile w"
    using assms(2) False s by (cases e; auto simp: openBlobFile_def)+
  then show ?thesis
    using assms(1) False by (simp add: broken_def)
qed (use assms in \<open>simp add: openBlobFile_def\<close>)

lemma snapshot_work_broken:
  assumes "broken w" "snapshot_work srec b w = (err, w')"
  shows "broken w'"
proof -
  obtain e1 w1 where 1: "openBlobFile w = (e1, w1)" by fastforce
  note b1 = broken_opened [OF assms(1) 1]
  obtain e2 w2 where 2: "Writer_append srec w1 = (e2, w2)" by fastforce
  note b2 = append_broken [OF b1 2]
  show ?thesis
  proof (cases "e1 = None \<and> e2 = None")
    case True
    then have side: "wBlobFile w2" "bErr (wBlobBW w2) \<noteq> None"
      using b2 by (auto simp: broken_def)
    then obtain x where "blobBWWrite b w2 = (Some x, w2\<lparr>wBlobBW := wBlobBW w2\<rparr>)"
      by (auto simp: blobBWWrite_def bufWrite.simps)
    then have "w' = w2"
      using assms(2) 1 2 True by (simp add: snapshot_work_def)
    then show ?thesis
      using b2 by simp
  next
    case False
    then have "w' = w1 \<or> w' = w2"
      using assms(2) 1 2 by (cases e1; cases e2) (auto simp: snapshot_work_def)
    then show ?thesis
      using b1 b2 by blast
  qed
qed

lemma event_record_off:
  "event_record 0 (EvSnapshot rec bids asks)\<lparr>BlobOffset := of_nat off\<rparr> = event_record off (EvSnapshot rec bids asks)"
  by simp

lemma WriteSnapshot_step:
  assumes inv: "writer_inv h evs w" and r: "WriteSnapshot rec bids asks w = (err, w')"
  shows "if err = None then writer_inv h (evs @ [EvSnapshot rec bids asks]) w' else writer_inv h evs w' \<or> broken w'"
proof -
  have base: "base_header_ok h" and ri: "rec_inv h (stored 0 evs) w" and bi: "blob_inv (region evs) w"
    using inv by (simp_all add: writer_inv_def)
  have off: "wBlobLen w = of_nat (length (region evs))"
    using bi by (simp add: blob_inv_def)
  from WriteSnapshot_eq [OF rec_invD(6) [OF ri], of rec bids asks, unfolded off event_record_off] r consider
      (rejected) e where "err = Some e" "w' = w"
    | (work) x where "key_only rec bids asks"
      "snapshot_work (event_record (length (region evs)) (EvSnapshot rec bids asks)) (blob_bytes bids asks)
        (w\<lparr>wBlobBuf := x\<rparr>) = (err, w')"
    by auto
  then show ?thesis
  proof cases
    case rejected
    then show ?thesis using inv by simp
  next
    case work
    have i: "rec_inv h (stored 0 evs) (w\<lparr>wBlobBuf := x\<rparr>)" "blob_inv (region evs) (w\<lparr>wBlobBuf := x\<rparr>)"
      using ri bi by simp_all
    show ?thesis
    proof (cases err)
      case None
      show ?thesis
        using snapshot_work_None [OF base i work(2) [unfolded None]] None work(1) inv
        by (simp add: writer_inv_def stored_snoc region_snoc key_only_def)
    next
      case (Some e)
      show ?thesis
        using snapshot_work_Some [OF base i work(2) [unfolded Some]] Some inv
        by (auto simp: writer_inv_def)
    qed
  qed
qed

lemma WriteSnapshot_broken:
  assumes "broken w" "WriteSnapshot rec bids asks w = (err, w')"
  shows "broken w'"
proof -
  from WriteSnapshot_eq [OF broken_openD [OF assms(1)], of rec bids asks] assms(2)
  consider "w' = w" | srec b x where "snapshot_work srec b (w\<lparr>wBlobBuf := x\<rparr>) = (err, w')"
    by fastforce
  then show ?thesis
  proof cases
    case 2
    have "broken (w\<lparr>wBlobBuf := x\<rparr>)"
      using assms(1) by simp
    from snapshot_work_broken [OF this 2] show ?thesis .
  qed (use assms(1) in simp)
qed

lemma offer_step:
  "writer_inv h evs w \<Longrightarrow> offer e w = (err, w') \<Longrightarrow>
   if err = None then writer_inv h (evs @ [e]) w' else writer_inv h evs w' \<or> broken w'"
  using WriteRecord_step WriteSnapshot_step by (cases e) (simp_all only: offer.simps)

lemma offer_broken: "broken w \<Longrightarrow> offer e w = (err, w') \<Longrightarrow> broken w'"
proof (cases e)
  case (EvRecord rec)
  then show "broken w \<Longrightarrow> offer e w = (err, w') \<Longrightarrow> ?thesis"
    using WriteRecord_broken [of w rec err w'] by simp
next
  case (EvSnapshot rec bids asks)
  then show "broken w \<Longrightarrow> offer e w = (err, w') \<Longrightarrow> ?thesis"
    using WriteSnapshot_broken [of w rec bids asks err w'] by simp
qed

lemma run_events_broken: "broken w \<Longrightarrow> broken (snd (run_events es w))"
proof (induction es arbitrary: w)
  case (Cons e es)
  obtain err w' where o: "offer e w = (err, w')" by fastforce
  have "broken (snd (run_events es w'))"
    by (rule Cons.IH [OF offer_broken [OF Cons.prems o]])
  then show ?case
    using o by (cases err) (simp_all add: Let_def case_prod_unfold)
qed simp

lemma run_events_inv:
  "writer_inv h evs w \<Longrightarrow> run_events es w = (acc, w') \<Longrightarrow> writer_inv h (evs @ acc) w' \<or> broken w'"
proof (induction es arbitrary: evs w acc)
  case (Cons e es)
  obtain err w1 where o: "offer e w = (err, w1)" by fastforce
  note st = offer_step [OF Cons.prems(1) o]
  show ?case
  proof (cases err)
    case None
    then obtain acc' where a: "run_events es w1 = (acc', w')" "acc = e # acc'"
      using Cons.prems(2) o by (auto simp: Let_def split: prod.splits)
    with Cons.IH [OF _ a(1), of "evs @ [e]"] st None show ?thesis by simp
  next
    case (Some x)
    then have a: "run_events es w1 = (acc, w')"
      using Cons.prems(2) o by simp
    with Cons.IH [OF _ a, of evs] run_events_broken [of w1 es] st Some show ?thesis by auto
  qed
qed simp

end
