(* ===== verification/Store_Writer_Close.thy ===== *)
theory Store_Writer_Close
  imports Store_Writer_Inv
begin

text \<open>
  Closing a writer. The actions of \<^verbatim>\<open>finish\<close> are verified by triples: a precondition, a
  postcondition for success and one for failure. The failure condition is the same for all of
  them: the file on disk is not marked complete, or it is complete. Since a system call may fail
  after any number of bytes, this covers every state a crash can leave.
\<close>

section \<open>Triples\<close>

definition triple :: "(Writer \<Rightarrow> bool) \<Rightarrow> action \<Rightarrow> (Writer \<Rightarrow> bool) \<Rightarrow> (Writer \<Rightarrow> bool) \<Rightarrow> bool" where
  "triple P a Q E \<longleftrightarrow>
     (\<forall>w err w'. P w \<longrightarrow> a w = (err, w') \<longrightarrow> (if err = None then Q w' else E w'))"

lemma tripleI:
  "(\<And>w w'. P w \<Longrightarrow> a w = (None, w') \<Longrightarrow> Q w') \<Longrightarrow> (\<And>w e w'. P w \<Longrightarrow> a w = (Some e, w') \<Longrightarrow> E w') \<Longrightarrow>
   triple P a Q E"
  by (auto simp: triple_def)

lemma triple_None: "triple P a Q E \<Longrightarrow> P w \<Longrightarrow> a w = (None, w') \<Longrightarrow> Q w'"
  by (metis (full_types) triple_def)

lemma triple_Some: "triple P a Q E \<Longrightarrow> P w \<Longrightarrow> a w = (Some e, w') \<Longrightarrow> E w'"
  by (metis (full_types) triple_def option.distinct(1))

lemma triple_Nil: "triple P (run_actions []) P E"
  by (simp add: triple_def)

lemma triple_Cons: "triple P a Q E \<Longrightarrow> triple Q (run_actions as) R E \<Longrightarrow> triple P (run_actions (a # as)) R E"
  by (rule tripleI) (auto dest!: run_actions_NoneD run_actions_SomeD simp del: run_actions.simps(2)
      dest: triple_None triple_Some)

lemma triple_pure: "(\<And>w. P w \<Longrightarrow> Q (f w)) \<Longrightarrow> triple P (\<lambda>w. (None, f w)) Q E"
  by (simp add: triple_def)

text \<open>A call that touches no data keeps every condition that does not mention the outcomes.\<close>

lemma triple_sys_call:
  assumes "\<And>w io. P w \<Longrightarrow> P (w\<lparr>osIO := io\<rparr>)" "\<And>w. P w \<Longrightarrow> E w"
  shows "triple P sys_call P E"
proof (rule tripleI)
  fix w w' assume "P w" "sys_call w = (None, w')"
  then show "P w'"
    using sys_call_frame [of w] assms(1) by metis
next
  fix w e w' assume "P w" "sys_call w = (Some e, w')"
  then show "E w'"
    using sys_call_frame [of w] assms by metis
qed

section \<open>The file while it is being finished\<close>

definition on_disk :: "bytes \<Rightarrow> Writer \<Rightarrow> bool" where
  "on_disk d w \<longleftrightarrow> osFile w = Some d"

definition crash_safe :: "header \<Rightarrow> event list \<Rightarrow> Writer \<Rightarrow> bool" where
  "crash_safe h evs w \<longleftrightarrow> (\<exists>d. on_disk d w \<and> (unfinal d \<or> d = file_image h evs))"

definition closing :: "header \<Rightarrow> event list \<Rightarrow> header \<Rightarrow> nat \<Rightarrow> bytes \<Rightarrow> Writer \<Rightarrow> bool" where
  "closing h evs hdr pos d w \<longleftrightarrow>
     wHdr w = hdr \<and> wPos w = of_nat pos \<and> on_disk d w \<and>
     wTimeIndex w = spec_times (unat (hBlockSizeRecords h)) (stored 0 evs) \<and>
     wSnapIndex w = spec_snaps (stored 0 evs) \<and>
     wFooter w = spec_footer (unat (hBlockSizeRecords h)) (stored 0 evs) \<and>
     wRecCount w = of_nat (length evs)"

lemma crash_safe_unfinal: "osFile w = Some d \<Longrightarrow> unfinal d \<Longrightarrow> crash_safe h evs w"
  by (auto simp: crash_safe_def on_disk_def)

lemma unfinal_zeros: "128 \<le> n \<Longrightarrow> d @ rest = replicate n 0 @ xs \<Longrightarrow> unfinal d"
proof -
  assume n: "128 \<le> n" and e: "d @ rest = replicate n 0 @ xs"
  have "replicate n 0 = replicate 128 (0 :: u8) @ replicate (n - 128) 0"
    using n by (simp flip: replicate_add)
  then show ?thesis
    using e unfinal_prefix [of d rest "replicate (n - 128) 0 @ xs"] by simp
qed

lemma closeLastBlock_inv:
  assumes "base_header_ok h" "rec_inv h recs w"
  shows "closeLastBlock w = w\<lparr>wFooter := spec_footer (unat (hBlockSizeRecords h)) recs\<rparr>"
proof -
  let ?bs = "unat (hBlockSizeRecords h)" and ?n = "length recs"
  have bs: "0 < ?bs" "?bs \<le> 2 ^ 24"
    using assms(1) by (simp_all add: base_header_ok_def)
  have f: "wFooter w = closed_footer ?bs recs" "length (closed_footer ?bs recs) = closed_blocks ?bs ?n"
    "wBlockCRC w = crc32_Checksum (records_bytes (open_records ?bs recs))"
    using assms(2) by (simp_all add: rec_inv_def closed_footer_def)
  have n: "?n \<le> 2 ^ 40" "unat (wRecCount w) = ?n"
    using rec_invD(2,4) [OF assms(2)] .
  have bc: "unat (blockCountFor (wRecCount w) (hBlockSizeRecords h)) = block_count ?n ?bs"
    using n bs by (simp add: unat_blockCountFor)
  have "closed_blocks ?bs ?n \<le> ?n"
    by (simp add: closed_blocks_def) (meson diff_le_self div_le_dividend le_trans)
  then have cu: "unat (of_nat (closed_blocks ?bs ?n) :: u64) = closed_blocks ?bs ?n"
    using n(1) by (intro unat_of_nat_u64) simp
  have lt: "(of_nat (closed_blocks ?bs ?n) :: u64) < blockCountFor (wRecCount w) (hBlockSizeRecords h)
      \<longleftrightarrow> recs \<noteq> []"
    unfolding word_less_nat_alt cu bc using bs(1)
    by (cases recs rule: rev_cases) (simp add: block_count_def, simp add: block_count_Suc)
  show ?thesis
    unfolding closeLastBlock_def Let_def rec_invD(8) [OF assms(2)] f(1) f(2) lt spec_footer_closed [OF bs(1)]
    using f by (cases w) (auto simp: closed_footer_def)
qed

section \<open>The actions of \<^verbatim>\<open>finish\<close>\<close>

text \<open>The header after the records, after the blob region, and after the tail.\<close>

definition header_records :: "header \<Rightarrow> event list \<Rightarrow> header" where
  "header_records h evs = h\<lparr>hMinExchangeTs := first_ts (stored 0 evs), hMaxExchangeTs := last_ts (stored 0 evs)\<rparr>"

definition header_region :: "header \<Rightarrow> event list \<Rightarrow> header" where
  "header_region h evs = (header_records h evs)
     \<lparr>hBlobRegionOffset := of_nat (unat (hHeaderSize h) + 64 * length evs),
      hBlobRegionLen := of_nat (length (region evs))\<rparr>"

definition data_bytes :: "header \<Rightarrow> event list \<Rightarrow> bytes" where
  "data_bytes h evs = replicate (unat (hHeaderSize h)) 0 @ records_bytes (stored 0 evs)"

lemma unfinal_data: "base_header_ok h \<Longrightarrow> d @ rest = data_bytes h evs @ xs \<Longrightarrow> unfinal d"
  by (rule unfinal_zeros [of "unat (hHeaderSize h)" d rest "records_bytes (stored 0 evs) @ xs"])
    (simp_all add: data_bytes_def base_header_ok_def)

definition flushed :: "header \<Rightarrow> event list \<Rightarrow> Writer \<Rightarrow> bool" where
  "flushed h evs w \<longleftrightarrow> blob_inv (region evs) w \<and>
     closing h evs (header_records h evs) (unat (hHeaderSize h) + 64 * length evs) (data_bytes h evs) w"

lemma triple_flush:
  "triple (writer_inv h evs) (run_actions [\<lambda>w. (None, closeLastBlock w), bwFlush]) (flushed h evs) (crash_safe h evs)"
proof (rule tripleI)
  fix w w' assume inv: "writer_inv h evs w"
    and r: "run_actions [\<lambda>w. (None, closeLastBlock w), bwFlush] w = (None, w')"
  have base: "base_header_ok h" and ri: "rec_inv h (stored 0 evs) w" and bi: "blob_inv (region evs) w"
    using inv by (simp_all add: writer_inv_def)
  obtain d where d: "osFile w = Some d" "d @ bBuf (wBw w) = data_bytes h evs"
    using ri by (auto simp: rec_inv_def data_bytes_def)
  let ?w = "w\<lparr>wFooter := spec_footer (unat (hBlockSizeRecords h)) (stored 0 evs)\<rparr>"
  have f: "bwFlush ?w = (None, w')"
    using r closeLastBlock_inv [OF base ri] by (simp split: prod.splits option.splits)
  have "osFile ?w = Some d"
    using d by simp
  from bwFlush_None [OF this f] obtain io b where
    "w' = ?w\<lparr>osFile := Some (d @ bBuf (wBw w)), osIO := io, wBw := b\<rparr>"
    by auto
  then show "flushed h evs w'"
    using ri bi d(2) by (simp add: flushed_def closing_def on_disk_def rec_inv_def blob_inv_def header_records_def)
next
  fix w e w' assume inv: "writer_inv h evs w"
    and r: "run_actions [\<lambda>w. (None, closeLastBlock w), bwFlush] w = (Some e, w')"
  have base: "base_header_ok h" and ri: "rec_inv h (stored 0 evs) w"
    using inv by (simp_all add: writer_inv_def)
  obtain d where d: "osFile w = Some d" "d @ bBuf (wBw w) = data_bytes h evs"
    using ri by (auto simp: rec_inv_def data_bytes_def)
  let ?w = "w\<lparr>wFooter := spec_footer (unat (hBlockSizeRecords h)) (stored 0 evs)\<rparr>"
  have f: "bwFlush ?w = (Some e, w')"
    using r closeLastBlock_inv [OF base ri] by (simp split: prod.splits option.splits)
  have "osFile ?w = Some d"
    using d by simp
  from bwFlush_Some [OF this f] obtain d' io b rest where
    "w' = ?w\<lparr>osFile := Some d', osIO := io, wBw := b\<rparr>" "d' @ rest = d @ bBuf (wBw w)"
    by auto
  then show "crash_safe h evs w'"
    using unfinal_data [OF base, of d' rest evs "[]"] d(2) by (intro crash_safe_unfinal [of _ d']) simp_all
qed

definition region_copied :: "header \<Rightarrow> event list \<Rightarrow> Writer \<Rightarrow> bool" where
  "region_copied h evs w \<longleftrightarrow>
     closing h evs (header_region h evs) (unat (hHeaderSize h) + 64 * length evs + length (region evs))
       (data_bytes h evs @ region evs) w"

definition region_started :: "header \<Rightarrow> event list \<Rightarrow> Writer \<Rightarrow> bool" where
  "region_started h evs w \<longleftrightarrow> blob_inv (region evs) w \<and>
     closing h evs (header_region h evs) (unat (hHeaderSize h) + 64 * length evs) (data_bytes h evs) w"

lemma fileWrite_None:
  "fileWrite p w = (None, w') \<Longrightarrow> osFile w = Some d \<Longrightarrow> \<exists>io. w' = w\<lparr>osFile := Some (d @ p), osIO := io\<rparr>"
  by (cases w) (auto simp: fileWrite_def sys_outcome_def split: list.splits option.splits)

lemma fileWrite_Some:
  "fileWrite p w = (Some (n, e), w') \<Longrightarrow> osFile w = Some d \<Longrightarrow>
   \<exists>io k. w' = w\<lparr>osFile := Some (d @ take k p), osIO := io\<rparr>"
  by (cases w) (auto simp: fileWrite_def sys_outcome_def split: list.splits option.splits)

lemma closing_irrelevant [simp]:
  "closing h evs hdr pos d (w\<lparr>osIO := io\<rparr>) = closing h evs hdr pos d w"
  "closing h evs hdr pos d (w\<lparr>osBlob := x, osIO := io, wBlobBW := b\<rparr>) = closing h evs hdr pos d w"
  by (simp_all add: closing_def on_disk_def)

text \<open>The sidecar is flushed, rewound and copied; \<open>ready\<close> is the state in between.\<close>

lemma copyBlobRegion_None:
  assumes st: "region_started h evs w" and r: "copyBlobRegion w = (None, w')"
  shows "region_copied h evs w'"
proof (cases "wBlobFile w")
  case False
  then show ?thesis
    using assms by (simp add: copyBlobRegion_def region_started_def region_copied_def blob_inv_def)
next
  case True
  have bi: "blob_inv (region evs) w" and cl: "closing h evs (header_region h evs)
      (unat (hHeaderSize h) + 64 * length evs) (data_bytes h evs) w"
    using st by (simp_all add: region_started_def)
  obtain sd where sd: "osBlob w = Some sd" "sd @ bBuf (wBlobBW w) = region evs" "wBlobLen w = of_nat (length (region evs))"
    using bi True by (auto simp: blob_inv_def)
  obtain w1 w2 w3 where s: "blobBWFlush w = (None, w1)" "sys_call w1 = (None, w2)"
      "fileWrite (case osBlob w2 of Some d \<Rightarrow> d | None \<Rightarrow> []) w2 = (None, w3)" "w' = w3\<lparr>wPos := wPos w3 + wBlobLen w3\<rparr>"
    using r True unfolding copyBlobRegion_def
    by (auto dest!: run_actions_NoneD simp del: run_actions.simps(2) split: prod.splits option.splits)
  from blobBWFlush_None [OF sd(1) s(1)] obtain io b where
    w1: "w1 = w\<lparr>osBlob := Some (region evs), osIO := io, wBlobBW := b\<rparr>"
    using sd(2) by auto
  obtain io2 where w2: "w2 = w1\<lparr>osIO := io2\<rparr>"
    using sys_call_frame [OF s(2)] by blast
  have d2: "osFile w2 = Some (data_bytes h evs)"
    using cl by (simp add: w2 w1 closing_def on_disk_def)
  obtain io3 where w3: "w3 = w2\<lparr>osFile := Some (data_bytes h evs @ region evs), osIO := io3\<rparr>"
    using fileWrite_None [OF s(3) d2] by (auto simp: w2 w1)
  show ?thesis
    using cl sd(3) by (simp add: region_copied_def closing_def on_disk_def s(4) w3 w2 w1)
qed

lemma copyBlobRegion_Some:
  assumes base: "base_header_ok h" and st: "region_started h evs w" and r: "copyBlobRegion w = (Some e, w')"
  shows "crash_safe h evs w'"
proof -
  have True: "wBlobFile w"
    using r by (auto simp: copyBlobRegion_def split: if_splits)
  have bi: "blob_inv (region evs) w" and dw: "osFile w = Some (data_bytes h evs)"
    using st by (simp_all add: region_started_def closing_def on_disk_def)
  obtain sd where sd: "osBlob w = Some sd"
    using bi True by (auto simp: blob_inv_def)
  have u: "unfinal (data_bytes h evs @ take k p)" for k and p :: bytes
    using unfinal_data [OF base, of "data_bytes h evs @ take k p" "[]"] by simp
  consider "blobBWFlush w = (Some e, w')" | w1 where "blobBWFlush w = (None, w1)" "sys_call w1 = (Some e, w')"
    | w1 w2 n where "blobBWFlush w = (None, w1)" "sys_call w1 = (None, w2)"
      "fileWrite (case osBlob w2 of Some d \<Rightarrow> d | None \<Rightarrow> []) w2 = (Some (n, e), w')"
    using r True unfolding copyBlobRegion_def
    by (auto dest!: run_actions_SomeD simp del: run_actions.simps(2) split: prod.splits option.splits)
  then have "\<exists>k p. osFile w' = Some (data_bytes h evs @ take k p)"
  proof cases
    case 1
    from blobBWFlush_Some [OF sd 1] have "osFile w' = osFile w"
      by auto
    then show ?thesis
      using dw by (intro exI [of _ 0]) simp
  next
    case 2
    from blobBWFlush_None [OF sd 2(1)] sys_call_frame [OF 2(2)] have "osFile w' = osFile w"
      by auto
    then show ?thesis
      using dw by (intro exI [of _ 0]) simp
  next
    case 3
    from blobBWFlush_None [OF sd 3(1)] sys_call_frame [OF 3(2)] have "osFile w2 = osFile w"
      by auto
    then show ?thesis
      using fileWrite_Some [OF 3(3)] dw by (auto, blast)
  qed
  then show ?thesis
    using u by (auto intro: crash_safe_unfinal)
qed

definition tail_written :: "header \<Rightarrow> event list \<Rightarrow> Writer \<Rightarrow> bool" where
  "tail_written h evs w \<longleftrightarrow>
     wHdr w = (final_header h evs)\<lparr>hFinalized := hFinalized h\<rparr> \<and> on_disk (replicate 128 0 @ body_bytes h evs) w"

lemma encodeTail_eq: "encodeTail ti si ft = Some (u64s_bytes ti @ u64s_bytes si @ footer_bytes ft)"
proof -
  let ?n = "length ti * 8 + length si * 8 + length ft * 12"
  have 1: "encodeTimeIndex (replicate ?n 0) ti = Some (u64s_bytes ti @ replicate (length si * 8 + length ft * 12) 0)"
    by (subst encodeTimeIndex_eq) (simp_all add: mult.commute)
  have 2: "encodeSnapshotIndex (replicate (length si * 8 + length ft * 12) 0) si =
      Some (u64s_bytes si @ replicate (length ft * 12) 0)"
    by (subst encodeSnapshotIndex_eq) (simp_all add: mult.commute)
  have 3: "encodeFooter (replicate (length ft * 12) 0) ft = Some (footer_bytes ft)"
    by (subst encodeFooter_eq) (simp_all add: mult.commute)
  show ?thesis
    unfolding encodeTail_def Let_def header_bounds 1 option.case
    using 2 3 by (simp add: mult.commute)
qed

lemma encodeTail_spec:
  assumes "closing h evs hdr pos d w"
  shows "encodeTail (wTimeIndex w) (wSnapIndex w) (wFooter w) =
    Some (tail_bytes (unat (hBlockSizeRecords h)) (stored 0 evs))"
  using assms by (simp add: encodeTail_eq closing_def tail_bytes_def)

lemma zeros_body:
  assumes "base_header_ok h"
  shows "(data_bytes h evs @ region evs) @ tail_bytes (unat (hBlockSizeRecords h)) (stored 0 evs)
    = replicate 128 0 @ body_bytes h evs"
proof -
  have "replicate (unat (hHeaderSize h)) 0 = replicate 128 (0 :: u8) @ replicate (unat (hHeaderSize h) - 128) 0"
    using assms by (simp add: base_header_ok_def flip: replicate_add)
  then show ?thesis
    by (simp add: data_bytes_def body_bytes_def)
qed

lemma writeTail_None:
  assumes base: "base_header_ok h" and st: "region_copied h evs w" and r: "writeTail w = (None, w')"
  shows "tail_written h evs w'"
proof -
  let ?bs = "unat (hBlockSizeRecords h)" and ?recs = "stored 0 evs"
  have cl: "closing h evs (header_region h evs)
      (unat (hHeaderSize h) + 64 * length evs + length (region evs)) (data_bytes h evs @ region evs) w"
    using st by (simp add: region_copied_def)
  define hdr where "hdr = (header_region h evs)\<lparr>
      hTimeIndexOffset := wPos w, hTimeIndexCount := of_nat (length (wTimeIndex w)),
      hSnapshotIndexOffset := wPos w + of_nat (length (wTimeIndex w) * 8),
      hSnapshotIndexCount := of_nat (length (wSnapIndex w)),
      hFooterOffset := wPos w + of_nat (length (wTimeIndex w) * 8 + length (wSnapIndex w) * 8),
      hTrailerCRC := crc32_Checksum (tail_bytes ?bs ?recs)\<rparr>"
  obtain w1 where w1: "fileWrite (tail_bytes ?bs ?recs) (w\<lparr>wHdr := hdr\<rparr>) = (None, w1)"
    "w' = w1\<lparr>wPos := wPos w1 + of_nat (length (tail_bytes ?bs ?recs)), wHdr := wHdr w1\<lparr>hRecordCount := wRecCount w1\<rparr>\<rparr>"
    using r cl unfolding writeTail_def encodeTail_spec [OF cl] option.case Let_def header_bounds
    by (auto simp: hdr_def closing_def split: prod.splits option.splits)
  have "osFile (w\<lparr>wHdr := hdr\<rparr>) = Some (data_bytes h evs @ region evs)"
    using cl by (simp add: closing_def on_disk_def)
  from fileWrite_None [OF w1(1) this] obtain io where
    w1': "w1 = w\<lparr>wHdr := hdr, osFile := Some (replicate 128 0 @ body_bytes h evs), osIO := io\<rparr>"
    using zeros_body [OF base] by auto
  have "hdr\<lparr>hRecordCount := wRecCount w\<rparr> = (final_header h evs)\<lparr>hFinalized := hFinalized h\<rparr>"
    using cl unfolding hdr_def
    by (simp add: final_header_def Let_def header_region_def header_records_def closing_def algebra_simps)
  then show ?thesis
    by (simp add: tail_written_def on_disk_def w1(2) w1')
qed

lemma writeTail_Some:
  assumes base: "base_header_ok h" and st: "region_copied h evs w" and r: "writeTail w = (Some e, w')"
  shows "crash_safe h evs w'"
proof -
  have cl: "closing h evs (header_region h evs)
      (unat (hHeaderSize h) + 64 * length evs + length (region evs)) (data_bytes h evs @ region evs) w"
    using st by (simp add: region_copied_def)
  obtain hdr tail n where w1: "fileWrite tail (w\<lparr>wHdr := hdr\<rparr>) = (Some (n, e), w')"
    using r unfolding writeTail_def encodeTail_spec [OF cl] option.case Let_def
    by (auto split: prod.splits option.splits)
  have "osFile (w\<lparr>wHdr := hdr\<rparr>) = Some (data_bytes h evs @ region evs)"
    using cl by (simp add: closing_def on_disk_def)
  from fileWrite_Some [OF w1 this] obtain k where "osFile w' = Some (data_bytes h evs @ region evs @ take k tail)"
    by auto
  then show ?thesis
    using unfinal_data [OF base, of _ "[]" evs "region evs @ take k tail"] by (intro crash_safe_unfinal) auto
qed

definition header_written :: "header \<Rightarrow> event list \<Rightarrow> Writer \<Rightarrow> bool" where
  "header_written h evs w \<longleftrightarrow>
     on_disk (header_bytes ((final_header h evs)\<lparr>hFinalized := False\<rparr>) @ body_bytes h evs) w"

lemma fileWriteAt_None:
  "fileWriteAt p off w = (None, w') \<Longrightarrow> osFile w = Some d \<Longrightarrow> \<exists>io. w' = w\<lparr>osFile := Some (put d off p), osIO := io\<rparr>"
  by (cases w) (auto simp: fileWriteAt_def sys_outcome_def split: list.splits option.splits)

lemma fileWriteAt_Some:
  "fileWriteAt p off w = (Some e, w') \<Longrightarrow> osFile w = Some d \<Longrightarrow>
   \<exists>io k. w' = w\<lparr>osFile := Some (put d off (take k p)), osIO := io\<rparr>"
  by (cases w) (auto simp: fileWriteAt_def sys_outcome_def split: list.splits option.splits)

lemma unfinal_header: "unfinal (header_bytes (hdr\<lparr>hFinalized := False\<rparr>) @ rest)"
  by (simp add: unfinal_def header_layout nth_header_bytes_finalized)

lemma unfinal_partial_header:
  "unfinal (put (replicate 128 0 @ body) 0 (take k (header_bytes (hdr\<lparr>hFinalized := False\<rparr>))))"
proof -
  let ?h = "header_bytes (hdr\<lparr>hFinalized := False\<rparr>)"
  have "(take k ?h @ drop (min 128 k) (replicate 128 0 @ body)) ! 120 = 0"
  proof (cases "k \<le> 120")
    case True
    then have "120 - k < 128 - k"
      by arith
    with True show ?thesis
      by (simp add: nth_append min_def)
  next
    case False
    then have "(take k ?h) ! 120 = ?h ! 120"
      by simp
    then show ?thesis
      using False nth_header_bytes_finalized [of "hdr\<lparr>hFinalized := False\<rparr>" "[]"]
      by (simp add: nth_append)
  qed
  then show ?thesis
    by (simp add: unfinal_def header_layout put_def)
qed

lemma triple_header: "triple (tail_written h evs) writeHeader (header_written h evs) (crash_safe h evs)"
proof (rule tripleI)
  fix w w' assume st: "tail_written h evs w" and r: "writeHeader w = (None, w')"
  have f: "fileWriteAt (header_bytes ((final_header h evs)\<lparr>hFinalized := False\<rparr>)) 0 w = (None, w')"
    using r st by (simp add: writeHeader_def encodeHeader_eq headerFieldsSize_def tail_written_def)
  have "osFile w = Some (replicate 128 0 @ body_bytes h evs)"
    using st by (simp add: tail_written_def on_disk_def)
  from fileWriteAt_None [OF f this] show "header_written h evs w'"
    by (auto simp: header_written_def on_disk_def put_def)
next
  fix w e w' assume st: "tail_written h evs w" and r: "writeHeader w = (Some e, w')"
  have f: "fileWriteAt (header_bytes ((final_header h evs)\<lparr>hFinalized := False\<rparr>)) 0 w = (Some e, w')"
    using r st by (simp add: writeHeader_def encodeHeader_eq headerFieldsSize_def tail_written_def)
  have "osFile w = Some (replicate 128 0 @ body_bytes h evs)"
    using st by (simp add: tail_written_def on_disk_def)
  from fileWriteAt_Some [OF f this] show "crash_safe h evs w'"
    using unfinal_partial_header by (auto intro: crash_safe_unfinal)
qed

lemma put_Nil: "put xs off [] = xs"
  by (simp add: put_def)

lemma image_finalized:
  "put (header_bytes ((final_header h evs)\<lparr>hFinalized := False\<rparr>) @ body_bytes h evs) hdrOffFinalized [1] = file_image h evs"
proof -
  have "(final_header h evs)\<lparr>hFinalized := True\<rparr> = final_header h evs"
    by (simp add: final_header_def Let_def)
  then show ?thesis
    using setFinalized_header_bytes [of "final_header h evs" "body_bytes h evs"]
    by (simp add: setFinalized_def file_image_def)
qed

lemma triple_finalize:
  "triple (header_written h evs) (fileWriteAt [1] hdrOffFinalized) (on_disk (file_image h evs)) (crash_safe h evs)"
proof (rule tripleI)
  fix w w' assume "header_written h evs w" "fileWriteAt [1] hdrOffFinalized w = (None, w')"
  then show "on_disk (file_image h evs) w'"
    using fileWriteAt_None [of "[1]" hdrOffFinalized w w'] image_finalized [of h evs]
    by (auto simp: header_written_def on_disk_def)
next
  let ?d = "header_bytes ((final_header h evs)\<lparr>hFinalized := False\<rparr>) @ body_bytes h evs"
  fix w e w' assume "header_written h evs w" "fileWriteAt [1] hdrOffFinalized w = (Some e, w')"
  then obtain k where k: "osFile w' = Some (put ?d hdrOffFinalized (take k [1]))"
    using fileWriteAt_Some [of "[1]" hdrOffFinalized w e w'] by (auto simp: header_written_def on_disk_def)
  show "crash_safe h evs w'"
  proof (cases k)
    case 0
    then show ?thesis
      using k unfinal_header [of "final_header h evs" "body_bytes h evs"]
      by (intro crash_safe_unfinal [of _ ?d]) (simp_all only: put_Nil take_0)
  next
    case (Suc j)
    then show ?thesis
      using k image_finalized [of h evs] by (auto simp: crash_safe_def on_disk_def)
  qed
qed

lemma sys_call_osFile: "sys_call w = (e, w') \<Longrightarrow> osFile w' = osFile w" for w w' :: Writer
  using sys_call_frame [of w e w'] by auto

lemma removeBlob_osFile: "removeBlob w = (e, w') \<Longrightarrow> osFile w' = osFile w"
  using sys_call_osFile [of w] by (auto simp: removeBlob_def split: if_splits prod.splits option.splits)

lemma closeFiles_osFile:
  assumes "closeFiles w = (e, w')"
  shows "osFile w' = osFile w"
proof -
  obtain e1 w1 where 1: "(if wF w then (case sys_call w of (err, w) \<Rightarrow> (err, w\<lparr>wF := False\<rparr>)) else (None, w)) = (e1, w1)"
    by fastforce
  have f1: "osFile w1 = osFile w"
    using 1 sys_call_osFile [of w] by (auto split: if_splits prod.splits)
  obtain e2 w2 where 2: "sys_call w1 = (e2, w2)"
    by fastforce
  obtain e3 w3 where 3: "removeBlob (w2\<lparr>wBlobFile := False\<rparr>) = (e3, w3)"
    by fastforce
  have "w' = w1 \<or> w' = w3"
    using assms unfolding closeFiles_def 1 by (auto simp: 2 3 split: if_splits)
  then show ?thesis
    using f1 sys_call_osFile [OF 2] removeBlob_osFile [OF 3] by auto
qed

lemma triple_closeFiles: "triple (on_disk (file_image h evs)) closeFiles (on_disk (file_image h evs)) (crash_safe h evs)"
  by (rule tripleI) (auto dest: closeFiles_osFile simp: on_disk_def crash_safe_def)

lemma triple_append:
  "triple P (run_actions as) Q E \<Longrightarrow> triple Q (run_actions bs) R E \<Longrightarrow> triple P (run_actions (as @ bs)) R E"
proof (induction as arbitrary: P)
  case Nil
  have "Q w" if "P w" for w
    using Nil.prems(1) that by (rule triple_None) simp
  with Nil.prems(2) show ?case
    unfolding triple_def append_Nil by blast
next
  case (Cons a as)
  show ?case
  proof (rule tripleI)
    fix w w' assume p: "P w" and r: "run_actions ((a # as) @ bs) w = (None, w')"
    then obtain w1 where w1: "a w = (None, w1)" "run_actions (as @ bs) w1 = (None, w')"
      using run_actions_NoneD [of a "as @ bs" w w'] by auto
    have "triple (\<lambda>x. x = w1) (run_actions as) Q E"
      using Cons.prems(1) p w1(1) by (auto simp: triple_def)
    from Cons.IH [OF this Cons.prems(2)] w1(2) show "R w'"
      by (auto dest: triple_None)
  next
    fix w e w' assume p: "P w" and r: "run_actions ((a # as) @ bs) w = (Some e, w')"
    then consider "a w = (Some e, w')" | w1 where "a w = (None, w1)" "run_actions (as @ bs) w1 = (Some e, w')"
      using run_actions_SomeD [of a "as @ bs" w e w'] by auto
    then show "E w'"
    proof cases
      case 1
      then have "run_actions (a # as) w = (Some e, w')" by simp
      with Cons.prems(1) p show ?thesis by (rule triple_Some)
    next
      case 2
      have "triple (\<lambda>x. x = w1) (run_actions as) Q E"
        using Cons.prems(1) p 2(1) by (auto simp: triple_def)
      from Cons.IH [OF this Cons.prems(2)] 2(2) show ?thesis
        by (auto dest: triple_Some)
    qed
  qed
qed

lemma triple_finish:
  assumes "base_header_ok h"
  shows "triple (writer_inv h evs) finish (on_disk (file_image h evs)) (crash_safe h evs)"
proof -
  have start: "triple (flushed h evs)
      (\<lambda>w. (None, w\<lparr>wHdr := wHdr w\<lparr>hBlobRegionOffset := wPos w, hBlobRegionLen := wBlobLen w\<rparr>\<rparr>))
      (region_started h evs) (crash_safe h evs)"
    by (rule triple_pure)
      (simp add: flushed_def region_started_def closing_def on_disk_def blob_inv_def header_region_def)
  have copy: "triple (region_started h evs) copyBlobRegion (region_copied h evs) (crash_safe h evs)"
    using assms copyBlobRegion_None copyBlobRegion_Some by (intro tripleI) blast+
  have tail: "triple (region_copied h evs) writeTail (tail_written h evs) (crash_safe h evs)"
    using assms writeTail_None writeTail_Some by (intro tripleI) blast+
  have sync1: "triple (header_written h evs) sys_call (header_written h evs) (crash_safe h evs)"
    by (rule triple_sys_call)
      (auto simp: header_written_def on_disk_def intro: crash_safe_unfinal unfinal_header)
  have sync2: "triple (on_disk (file_image h evs)) sys_call (on_disk (file_image h evs)) (crash_safe h evs)"
    by (rule triple_sys_call) (auto simp: on_disk_def crash_safe_def)
  note rest = triple_Cons [OF start triple_Cons [OF copy triple_Cons [OF tail triple_Cons [OF triple_header
    triple_Cons [OF sync1 triple_Cons [OF triple_finalize triple_Cons [OF sync2
    triple_Cons [OF triple_closeFiles triple_Nil]]]]]]]]
  show ?thesis
    using triple_append [OF triple_flush rest]
    by (simp only: append.simps finish_def [abs_def])
qed

section \<open>Closing\<close>

lemma finish_broken:
  assumes b: "broken w" and r: "finish w = (err, w')"
  shows "err \<noteq> None \<and> (\<exists>d. osFile w' = Some d \<and> unfinal d)"
proof -
  obtain d rest tail where d: "osFile w = Some d" "d @ rest = replicate 128 0 @ tail"
    "bErr (wBw w) = None \<longrightarrow> rest = bBuf (wBw w)"
    using b by (auto simp: broken_def)
  have ud: "unfinal d"
    using d(2) by (rule unfinal_prefix)
  let ?w = "closeLastBlock w"
  have same: "osFile ?w = Some d" "wBw ?w = wBw w" "sidecar_state ?w = sidecar_state w"
    using d(1) by (simp_all add: closeLastBlock_def Let_def sidecar_state_def)
  obtain e1 w1 where f: "bwFlush ?w = (e1, w1)"
    by fastforce
  show ?thesis
  proof (cases "bErr (wBw w)")
    case (Some x)
    then have "bwFlush ?w = (Some x, ?w\<lparr>wBw := wBw w\<rparr>)"
      using same by (simp add: bwFlush_def bufFlush_def)
    then show ?thesis
      using r ud same(1) by (auto simp: finish_def)
  next
    case None
    then have side: "wBlobFile w" "bErr (wBlobBW w) \<noteq> None"
      using b by (auto simp: broken_def)
    show ?thesis
    proof (cases e1)
      case e1: None
      from bwFlush_None [OF same(1) f [unfolded e1]] obtain io bb where
        w1: "w1 = ?w\<lparr>osFile := Some (d @ bBuf (wBw ?w)), osIO := io, wBw := bb\<rparr>"
        by blast
      have "unfinal (d @ bBuf (wBw w))"
        using d(2,3) None unfinal_prefix [of "d @ bBuf (wBw w)" "[]" tail] by simp
      moreover obtain x where "blobBWFlush (w1\<lparr>wHdr := hh\<rparr>) = (Some x, w1\<lparr>wHdr := hh, wBlobBW := wBlobBW w1\<rparr>)" for hh
        using side sidecar_state_eq [OF same(3)] by (auto simp: w1 blobBWFlush_def bufFlush_def)
      moreover have "wBlobFile (w1\<lparr>wHdr := hh\<rparr>)" for hh
        using side sidecar_state_eq [OF same(3)] by (simp add: w1)
      ultimately show ?thesis
        using r f e1 same(2) by (auto simp: finish_def copyBlobRegion_def w1)
    next
      case (Some x)
      from bwFlush_Some [OF same(1) f [unfolded Some]] obtain d' rest' where
        w1: "osFile w1 = Some d'" "d' @ rest' = d @ bBuf (wBw w)"
        using same(2) by auto
      have "unfinal d'"
        using w1(2) d(2,3) None unfinal_prefix [of d' rest' tail] by simp
      then show ?thesis
        using r f Some w1(1) by (auto simp: finish_def)
    qed
  qed
qed

end
