(* ===== verification/Store_Writer_Correct.thy ===== *)
theory Store_Writer_Correct
  imports Store_Writer_Close
begin

text \<open>
  The writer's theorems. Whatever the outcomes of the system calls: if \<^verbatim>\<open>Close\<close> returns no
  error, the file opens, verifies and serves exactly the events whose calls returned no error, and
  at no moment is there a file on disk that opens but serves anything else. If no system call
  fails, exactly the valid events in key order are accepted and \<^verbatim>\<open>Close\<close> succeeds.
\<close>

section \<open>A new writer\<close>

lemma headerSizeFor_bounds:
  assumes "headerSizeFor p = Inr hs" "p \<le> maxInt - 127"
  shows "128 \<le> unat hs" "unat hs \<le> 2 ^ 20"
proof -
  have "0 < p"
    using assms(1) by (auto simp: headerSizeFor_def split: if_splits)
  then obtain size where s: "128 \<le> size" "size \<le> 2 ^ 20" "hs = word_of_int size"
    using headerSizeFor_spec [of p] assms by (auto split: if_splits)
  then have "unat hs = nat size"
    by (simp add: unsigned_of_int take_bit_int_eq_self)
  then show "128 \<le> unat hs" "unat hs \<le> 2 ^ 20"
    using s by simp_all
qed

definition new_header :: "u16 \<Rightarrow> i64 \<Rightarrow> u32 \<Rightarrow> u32 \<Rightarrow> header" where
  "new_header venueID priceScale headerSize blockSize =
     zero_header\<lparr>hFormatVersion := formatVersion, hVenueID := venueID, hPriceScale := priceScale,
       hHeaderSize := headerSize, hBlockSizeRecords := blockSize\<rparr>"

lemma newWriter_InrD:
  assumes "newWriter os v ps opts = Inr w"
  shows "0 < sint ps" "0 < unat (blockSizeRecords opts)" "unat (blockSizeRecords opts) \<le> 2 ^ 24"
    "\<exists>hs os' w1. headerSizeFor (pageSize opts) = Inr hs \<and> w = w1\<lparr>wPos := ucast hs\<rparr>
      \<and> bwWrite (replicate (unat hs) 0) (freshWriter os' v ps opts hs) = (None, w1)"
  using assms
  by (auto simp: newWriter_def header_bounds not_less word_le_nat_alt unat_gt_0
      split: if_splits sum.splits option.splits prod.splits)

lemma freshWriter_sel [simp]:
  "osFile (freshWriter os v ps opts hs) = Some []" "wOpts (freshWriter os v ps opts hs) = opts"
  "wF (freshWriter os v ps opts hs)" "wBw (freshWriter os v ps opts hs) = newBufio"
  "\<not> wBlobFile (freshWriter os v ps opts hs)" "wBlobLen (freshWriter os v ps opts hs) = 0"
  "wHdr (freshWriter os v ps opts hs) = new_header v ps hs (blockSizeRecords opts)"
  "wRecCount (freshWriter os v ps opts hs) = 0" "\<not> wHasLast (freshWriter os v ps opts hs)"
  "wTimeIndex (freshWriter os v ps opts hs) = []" "wSnapIndex (freshWriter os v ps opts hs) = []"
  "wFooter (freshWriter os v ps opts hs) = []" "wBlockCRC (freshWriter os v ps opts hs) = 0"
  "length (wBuf (freshWriter os v ps opts hs)) = 64" "wState (freshWriter os v ps opts hs) = writerOpen"
  "osIO (freshWriter os v ps opts hs) = osIO os"
  by (simp_all add: freshWriter_def OS.defs new_header_def RecordSize_def)

lemma newWriter_inv:
  assumes "newWriter os v ps opts = Inr w" "pageSize opts \<le> maxInt - 127"
  shows "\<exists>hs. writer_inv (new_header v ps hs (blockSizeRecords opts)) [] w"
proof -
  note d = newWriter_InrD [OF assms(1)]
  obtain hs os' w1 where n: "headerSizeFor (pageSize opts) = Inr hs" "w = w1\<lparr>wPos := ucast hs\<rparr>"
      "bwWrite (replicate (unat hs) 0) (freshWriter os' v ps opts hs) = (None, w1)"
    using d(4) by blast
  from bwWrite_None [OF freshWriter_sel(1) n(3)] obtain d' io b where
    w1: "w1 = freshWriter os' v ps opts hs\<lparr>osFile := Some d', osIO := io, wBw := b\<rparr>"
      "bErr b = None" "d' @ bBuf b = replicate (unat hs) 0"
    by (auto simp: newBufio_def)
  let ?h = "new_header v ps hs (blockSizeRecords opts)"
  have base: "base_header_ok ?h"
    using headerSizeFor_bounds [OF n(1) assms(2)] d(1-3)
    by (simp add: base_header_ok_def new_header_def formatVersion_def)
  have hdr: "?h\<lparr>hMinExchangeTs := first_ts [], hMaxExchangeTs := last_ts []\<rparr> = ?h"
    "hHeaderSize ?h = hs" "hBlockSizeRecords ?h = blockSizeRecords opts"
    by (simp_all add: new_header_def zero_header_def first_ts_def last_ts_def)
  have "rec_inv ?h [] w"
    using w1(2,3) d(2) unfolding rec_inv_def hdr
    by (simp add: n(2) w1(1) stored_ok_def spec_times_def spec_snaps_def closed_footer_def
        open_records_def records_bytes_def block_count_def)
  moreover have "blob_inv [] w"
    by (simp add: blob_inv_def n(2) w1(1))
  ultimately have "writer_inv ?h [] w"
    using base by (simp add: writer_inv_def region_def)
  then show ?thesis ..
qed

section \<open>Success means the file is right\<close>

lemma writer_inv_events_ok: "writer_inv h evs w \<Longrightarrow> base_header_ok h \<and> events_ok h evs"
  by (simp add: writer_inv_def events_ok_def rec_inv_def)

lemma finish_ok:
  assumes "writer_inv h evs w \<or> broken w" "finish w = (None, w')"
  shows "writer_inv h evs w" "osFile w' = Some (file_image h evs)"
proof -
  show inv: "writer_inv h evs w"
    using assms finish_broken [of w None w'] by blast
  have "base_header_ok h"
    using writer_inv_events_ok [OF inv] ..
  from triple_None [OF triple_finish [OF this] inv assms(2)]
  show "osFile w' = Some (file_image h evs)"
    by (simp add: on_disk_def)
qed

lemma Close_ok:
  assumes "writer_inv h evs w \<or> broken w" "Writer_Close w = (None, w')"
  shows "writer_inv h evs w" "osFile w' = Some (file_image h evs)" "wState w' = writerClosed"
proof -
  have "wState w = writerOpen"
    using assms(1) by (auto simp: writer_inv_def rec_inv_def broken_def)
  then obtain w1 where f: "finish w = (None, w1)" "w' = w1\<lparr>wState := writerClosed\<rparr>"
    using assms(2) by (auto simp: Writer_Close_def split: prod.splits option.splits)
  from finish_ok [OF assms(1) f(1)] f(2)
  show "writer_inv h evs w" "osFile w' = Some (file_image h evs)" "wState w' = writerClosed"
    by simp_all
qed

lemma written_file:
  assumes "newWriter os v ps opts = Inr w0" "pageSize opts \<le> maxInt - 127" "run_events evs w0 = (acc, w1)"
  obtains hs where "writer_inv (new_header v ps hs (blockSizeRecords opts)) acc w1 \<or> broken w1"
  using newWriter_inv [OF assms(1,2)] run_events_inv [OF _ assms(3)] by fastforce

lemma image_opens:
  assumes "base_header_ok (new_header v ps hs bs)" "events_ok (new_header v ps hs bs) acc"
  shows "\<exists>r. openBytes (file_image (new_header v ps hs bs) acc) = Inr r \<and> VerifyAll r = None \<and> serves r acc
    \<and> time_ordered (contents r) \<and> index_agrees r \<and> reader_VenueID r = v \<and> PriceScale r = ps"
proof -
  let ?h = "new_header v ps hs bs"
  have "time_ordered (contents (image_reader ?h acc))"
    using assms(2) contents_image [OF assms]
    by (simp add: events_ok_def) (blast intro: stored_ok_time_ordered)
  moreover have "reader_VenueID (image_reader ?h acc) = v" "PriceScale (image_reader ?h acc) = ps"
    by (simp_all add: reader_VenueID_def PriceScale_def final_header_def Let_def new_header_def)
  ultimately show ?thesis
    using openBytes_image [OF assms] VerifyAll_image [OF assms] image_serves [OF assms]
      index_agrees_image [OF assms] by blast
qed

text \<open>C3: The end-to-end property of the store. Whatever the system calls return, if
  \<^verbatim>\<open>Close\<close> returns no error then the file on disk opens, all its checksums verify, it carries
  the venue and price scale it was created with, and it serves exactly the events whose write
  returned no error, in order: every record byte for byte as written, every snapshot under its key
  with its bids and asks. Its records are in time order and its time index agrees with them, which
  is what a seek relies on. A write that failed part way therefore never ends in a file that is
  silently missing something.\<close>

theorem writer_reader_roundtrip:
  assumes "newWriter os v ps opts = Inr w0" and "pageSize opts \<le> maxInt - 127"
    and "run_events evs w0 = (acc, w1)" and "Writer_Close w1 = (None, w2)"
  shows "\<exists>d r. osFile w2 = Some d \<and> openBytes d = Inr r \<and> VerifyAll r = None \<and> serves r acc
    \<and> time_ordered (contents r) \<and> index_agrees r \<and> reader_VenueID r = v \<and> PriceScale r = ps"
proof -
  obtain hs where i: "writer_inv (new_header v ps hs (blockSizeRecords opts)) acc w1 \<or> broken w1"
    using written_file [OF assms(1-3)] .
  note c = Close_ok [OF i assms(4)]
  have "base_header_ok (new_header v ps hs (blockSizeRecords opts))"
    "events_ok (new_header v ps hs (blockSizeRecords opts)) acc"
    using writer_inv_events_ok [OF c(1)] by simp_all
  from image_opens [OF this] c(2) show ?thesis by blast
qed

section \<open>No partial file is ever readable\<close>

text \<open>The file on disk of an open writer is never readable.\<close>

lemma open_writer_unreadable:
  assumes "writer_inv h evs w \<or> broken w"
  shows "\<exists>d. osFile w = Some d \<and> unfinal d"
  using assms
proof
  assume inv: "writer_inv h evs w"
  then obtain d tail where "osFile w = Some d" "d @ bBuf (wBw w) = replicate 128 0 @ tail"
    using rec_inv_zeros [of h "stored 0 evs" w] by (auto simp: writer_inv_def)
  then show ?thesis
    using unfinal_prefix by blast
next
  assume "broken w"
  then show ?thesis
    unfolding broken_def using unfinal_prefix by blast
qed

text \<open>C4: Crash safety. Take the file as it is on disk when the process stops, before
  \<^verbatim>\<open>Close\<close> or anywhere inside its finalization sequence (the outcomes of the system calls are
  arbitrary, and each write may stop after any number of bytes). Either no reader opens it, or it
  is complete: it verifies and serves exactly the accepted events.\<close>

theorem crash_safety:
  assumes "newWriter os v ps opts = Inr w0" and "pageSize opts \<le> maxInt - 127"
    and "run_events evs w0 = (acc, w1)" and "finish w1 = (err, w2)"
  shows "(\<exists>d. osFile w1 = Some d \<and> (\<forall>r. openBytes d \<noteq> Inr r))
    \<and> (\<exists>d. osFile w2 = Some d \<and> (\<forall>r. openBytes d = Inr r \<longrightarrow> VerifyAll r = None \<and> serves r acc))"
proof -
  obtain hs where i: "writer_inv (new_header v ps hs (blockSizeRecords opts)) acc w1 \<or> broken w1"
    using written_file [OF assms(1-3)] .
  let ?h = "new_header v ps hs (blockSizeRecords opts)"
  have "\<exists>d. osFile w2 = Some d \<and> (unfinal d \<or> (base_header_ok ?h \<and> events_ok ?h acc \<and> d = file_image ?h acc))"
  proof (cases "broken w1")
    case True
    from finish_broken [OF this assms(4)] show ?thesis by blast
  next
    case False
    with i have inv: "writer_inv ?h acc w1" by blast
    have ok: "base_header_ok ?h" "events_ok ?h acc"
      using writer_inv_events_ok [OF inv] by simp_all
    show ?thesis
    proof (cases err)
      case None
      then show ?thesis
        using finish_ok [OF i] assms(4) ok by blast
    next
      case (Some e)
      from triple_Some [OF triple_finish [OF ok(1)] inv assms(4) [unfolded Some]] ok show ?thesis
        by (auto simp: crash_safe_def on_disk_def)
    qed
  qed
  then obtain d where d: "osFile w2 = Some d"
    "unfinal d \<or> (base_header_ok ?h \<and> events_ok ?h acc \<and> d = file_image ?h acc)"
    by blast
  have "\<forall>r. openBytes d = Inr r \<longrightarrow> VerifyAll r = None \<and> serves r acc"
    using d(2) unfinal_rejected openBytes_image VerifyAll_image image_serves by (metis sum.inject(2))
  with d(1) open_writer_unreadable [OF i] show ?thesis
    using unfinal_rejected by blast
qed

section \<open>After closing\<close>

text \<open>A closed writer stays closed. \<^verbatim>\<open>Close\<close> leaves the writer finished or aborted, and
  from then on every write is refused with the matching error and changes nothing, \<^verbatim>\<open>Close\<close>
  again is idempotent after success and reports \<^verbatim>\<open>ErrWriterAborted\<close> after failure, and
  \<^verbatim>\<open>Abort\<close> does not remove a finished file.\<close>

theorem Close_is_final:
  assumes "Writer_Close w = (err, w')"
  shows "(err = None \<longrightarrow> checkOpen w' = Some ErrWriterClosed \<and> Writer_Close w' = (None, w') \<and> Abort w' = (None, w'))
    \<and> (err \<noteq> None \<longrightarrow> checkOpen w' = Some ErrWriterAborted \<and> Writer_Close w' = (Some ErrWriterAborted, w'))
    \<and> offer e w' = (checkOpen w', w')"
proof -
  have st: "wState w' = (if err = None then writerClosed else writerAborted)"
    using assms by (auto simp: Writer_Close_def split: writerState.splits prod.splits option.splits)
  have "offer e w' = (checkOpen w', w')"
    using st by (cases e) (simp_all add: WriteRecord_def WriteSnapshot_def checkOpen_def)
  then show ?thesis
    using st by (simp add: checkOpen_def Writer_Close_def Abort_def)
qed

section \<open>Without failures\<close>

text \<open>The abstract writer: a list that grows by every event that is well formed, of the right venue,
  and after the last one in key order.\<close>

fun ev_rec :: "event \<Rightarrow> Record" where
  "ev_rec (EvRecord rec) = rec"
| "ev_rec (EvSnapshot rec bids asks) = rec"

fun well_formed :: "event \<Rightarrow> bool" where
  "well_formed (EvRecord rec) \<longleftrightarrow> validateRecord rec = None \<and> RecordType rec \<noteq> RecordTypeSnapshotPointer"
| "well_formed (EvSnapshot rec bids asks) \<longleftrightarrow> key_only rec bids asks"

definition acceptable :: "u16 \<Rightarrow> event list \<Rightarrow> event \<Rightarrow> bool" where
  "acceptable venue evs e \<longleftrightarrow> well_formed e \<and> VenueID (ev_rec e) = venue \<and> length evs < 2 ^ 40
     \<and> (evs \<noteq> [] \<longrightarrow> compareKey (ev_rec (last evs)) (ev_rec e) < 0)"

fun spec_accept :: "u16 \<Rightarrow> event list \<Rightarrow> event list \<Rightarrow> event list" where
  "spec_accept venue evs [] = evs"
| "spec_accept venue evs (e # es) =
     (if acceptable venue evs e then spec_accept venue (evs @ [e]) es else spec_accept venue evs es)"

lemma validate_snapshot_record:
  assumes "well_formed (EvSnapshot rec bids asks)"
  shows "validateRecord (event_record off (EvSnapshot rec bids asks)) = None"
proof -
  let ?lv = "length bids + length asks"
  have lv: "?lv \<le> 65535"
    using assms by (simp add: key_only_def)
  have u: "unat (of_nat (8 + 16 * ?lv) :: u32) = 8 + 16 * ?lv"
    using lv by (subst unat_of_nat) (simp add: take_bit_nat_eq_self)
  have ge: "(8 :: u32) \<le> of_nat (8 + 16 * ?lv)"
    unfolding word_le_nat_alt u by simp
  have s: "unat ((of_nat (8 + 16 * ?lv) :: u32) - 8) = 16 * ?lv"
    using u by (subst unat_sub [OF ge]) simp
  have m: "((of_nat (8 + 16 * ?lv) :: u32) - 8) mod 16 = 0"
    by (simp only: word_unat_eq_iff unat_mod s) simp
  have d: "ucast (of_nat ?lv :: u16) = ((of_nat (8 + 16 * ?lv) :: u32) - 8) div 16"
    using lv by (simp only: word_unat_eq_iff unat_div s) (simp add: unat_ucast_up unat_of_nat_u16 del: of_nat_add)
  show ?thesis
    using assms ge m d
    by (simp add: validateRecord_def record_types blobHeaderSize_def levelSize_def not_less key_only_def
        del: of_nat_add of_nat_mult)
qed

lemma compareKey_event_record:
  "compareKey (event_record a x) (event_record b y) = compareKey (ev_rec x) (ev_rec y)"
  by (cases x; cases y) (simp_all add: compareKey_def)

lemma last_stored: "evs \<noteq> [] \<Longrightarrow> \<exists>off. last (stored 0 evs) = event_record off (last evs)"
  by (cases evs rule: rev_cases) (auto simp: stored_snoc)

lemma VenueID_event_record [simp]: "VenueID (event_record off e) = VenueID (ev_rec e)"
  by (cases e) simp_all

lemma checkAppend_acceptable:
  assumes "writer_inv h evs w" "rec_inv h (stored 0 evs) w'"
  shows "checkAppend (event_record (length (region evs)) e) w' = None \<longleftrightarrow>
    VenueID (ev_rec e) = hVenueID h \<and> validateRecord (event_record (length (region evs)) e) = None
    \<and> length evs < 2 ^ 40 \<and> (evs \<noteq> [] \<longrightarrow> compareKey (ev_rec (last evs)) (ev_rec e) < 0)"
proof -
  have "stored 0 evs \<noteq> [] \<longleftrightarrow> evs \<noteq> []"
    by (metis length_0_conv length_stored)
  moreover have "compareKey (last (stored 0 evs)) (event_record (length (region evs)) e) = compareKey (ev_rec (last evs)) (ev_rec e)"
    if "evs \<noteq> []"
    using last_stored [OF that] compareKey_event_record by metis
  ultimately show ?thesis
    unfolding checkAppend_None_iff [OF assms(2)] by auto
qed

text \<open>The writer once \<^verbatim>\<open>openBlobFile\<close> has made sure there is a sidecar.\<close>

definition opened :: "Writer \<Rightarrow> Writer" where
  "opened w = (if wBlobFile w then w else w\<lparr>osBlob := Some [], wBlobFile := True, wBlobBW := newBufio\<rparr>)"

lemma openBlobFile_fine: "osIO w = [] \<Longrightarrow> openBlobFile w = (None, opened w)"
  by (simp add: openBlobFile_def sys_call_fine opened_def)

lemma opened_sel [simp]: "checkAppend rec (opened w) = checkAppend rec w" "osIO (opened w) = osIO w"
proof -
  have "checkAppend rec (w\<lparr>osBlob := x, wBlobFile := y, wBlobBW := z\<rparr>) = checkAppend rec w" for x y z
    by (simp add: checkAppend_def cong: option.case_cong)
  then show "checkAppend rec (opened w) = checkAppend rec w" "osIO (opened w) = osIO w"
    by (simp_all add: opened_def)
qed

lemma append_fine:
  assumes "rec_inv h recs w" "osIO w = []" "checkAppend rec w = None"
  shows "\<exists>w'. Writer_append rec w = (None, w') \<and> osIO w' = []"
proof -
  have len: "length (wBuf (startBlock rec w)) = 64"
    using assms(1) by (simp add: rec_inv_def)
  have "osIO (startBlock rec w\<lparr>wBuf := record_bytes rec\<rparr>) = []" "bErr (wBw (startBlock rec w\<lparr>wBuf := record_bytes rec\<rparr>)) = None"
    using assms(1,2) by (simp_all add: startBlock_def Let_def rec_inv_def)
  from bwWrite_fine [OF this] obtain w1 where
    "bwWrite (record_bytes rec) (startBlock rec w\<lparr>wBuf := record_bytes rec\<rparr>) = (None, w1)" "osIO w1 = []"
    by blast
  then show ?thesis
    unfolding Writer_append_eq [OF assms(3) len] by (simp add: noteRecord_def Let_def)
qed

lemma snapshot_work_fine:
  assumes "base_header_ok h" "rec_inv h recs w" "blob_inv bl w" "osIO w = []" "checkAppend srec w = None"
  shows "\<exists>w'. snapshot_work srec b w = (None, w') \<and> osIO w' = []"
proof -
  let ?w1 = "opened w"
  have w1: "openBlobFile w = (None, ?w1)" "osIO ?w1 = []" "checkAppend srec ?w1 = None"
    using assms(4,5) by (simp_all add: openBlobFile_fine)
  note o = openBlobFile_step [OF w1(1) assms(3), of h recs]
  have ri: "rec_inv h recs ?w1"
    using o assms(2) by simp
  obtain w2 where w2: "Writer_append srec ?w1 = (None, w2)" "osIO w2 = []"
    using append_fine [OF ri w1(2,3)] by blast
  have "bErr (wBlobBW w2) = None"
    using o sidecar_state_eq [OF append_ok(3) [OF assms(1) ri w2(1)]] by (simp add: blob_inv_def)
  then obtain w3 where "blobBWWrite b w2 = (None, w3)" "osIO w3 = []"
    using blobBWWrite_fine [OF w2(2)] by blast
  then show ?thesis
    using w1(1) w2(1) by (simp add: snapshot_work_def)
qed

lemma writer_inv_open: "writer_inv h evs w \<Longrightarrow> wState w = writerOpen"
  by (simp add: writer_inv_def rec_inv_def)

lemma append_refused: "checkAppend rec w = Some e \<Longrightarrow> Writer_append rec w = (Some e, w)"
  by (simp add: Writer_append_def)

lemma offer_record_fine:
  assumes inv: "writer_inv h evs w" and io: "osIO w = []"
  shows "\<exists>err w'. WriteRecord rec w = (err, w') \<and> osIO w' = []
    \<and> (err = None \<longleftrightarrow> acceptable (hVenueID h) evs (EvRecord rec)) \<and> (err \<noteq> None \<longrightarrow> w' = w)"
proof (cases "RecordType rec = RecordTypeSnapshotPointer")
  case True
  then show ?thesis
    using writer_inv_open [OF inv] io by (simp add: WriteRecord_def checkOpen_def acceptable_def)
next
  case False
  have eq: "WriteRecord rec w = Writer_append rec w"
    using False writer_inv_open [OF inv] by (simp add: WriteRecord_def checkOpen_def)
  have ri: "rec_inv h (stored 0 evs) w"
    using inv by (simp add: writer_inv_def)
  have iff: "checkAppend rec w = None \<longleftrightarrow> acceptable (hVenueID h) evs (EvRecord rec)"
    using checkAppend_acceptable [OF inv ri, of "EvRecord rec"] False by (auto simp: acceptable_def)
  show ?thesis
  proof (cases "checkAppend rec w")
    case None
    then show ?thesis
      using append_fine [OF ri io None] iff eq by fastforce
  next
    case (Some e)
    then show ?thesis
      using append_refused [OF Some] iff eq io by simp
  qed
qed

lemma offer_snapshot_fine:
  assumes inv: "writer_inv h evs w" and io: "osIO w = []"
  shows "\<exists>err w'. WriteSnapshot rec bids asks w = (err, w') \<and> osIO w' = []
    \<and> (err = None \<longleftrightarrow> acceptable (hVenueID h) evs (EvSnapshot rec bids asks)) \<and> (err \<noteq> None \<longrightarrow> \<not> broken w')"
proof (cases "key_only rec bids asks")
  case False
  have "\<not> broken w"
    using inv by (auto simp: writer_inv_def rec_inv_def blob_inv_def broken_def split: if_splits)
  then show ?thesis
    using WriteSnapshot_refused [OF writer_inv_open [OF inv] False] False io by (auto simp: acceptable_def)
next
  case True
  have base: "base_header_ok h" and ri: "rec_inv h (stored 0 evs) w" and bi: "blob_inv (region evs) w"
    using inv by (simp_all add: writer_inv_def)
  let ?e = "EvSnapshot rec bids asks"
  let ?srec = "event_record (length (region evs)) ?e"
  have off: "wBlobLen w = of_nat (length (region evs))"
    using bi by (simp add: blob_inv_def)
  obtain x where eq: "WriteSnapshot rec bids asks w = snapshot_work ?srec (blob_bytes bids asks) (w\<lparr>wBlobBuf := x\<rparr>)"
    using WriteSnapshot_work [OF writer_inv_open [OF inv] True, unfolded off event_record_off] by blast
  let ?w = "w\<lparr>wBlobBuf := x\<rparr>"
  have i: "rec_inv h (stored 0 evs) ?w" "blob_inv (region evs) ?w" "osIO ?w = []"
    using ri bi io by simp_all
  have v: "validateRecord ?srec = None"
    using True by (intro validate_snapshot_record) simp
  have iff: "checkAppend ?srec ?w = None \<longleftrightarrow> acceptable (hVenueID h) evs ?e"
    using checkAppend_acceptable [OF inv i(1), of ?e] v True
    by (auto simp: acceptable_def simp del: event_record.simps)
  show ?thesis
  proof (cases "checkAppend ?srec ?w")
    case None
    then show ?thesis
      using snapshot_work_fine [OF base i None, of "blob_bytes bids asks"] iff eq by fastforce
  next
    case (Some e)
    let ?w1 = "opened ?w"
    have w1: "openBlobFile ?w = (None, ?w1)" "osIO ?w1 = []" "checkAppend ?srec ?w1 = Some e"
      using i(3) Some by (simp_all only: openBlobFile_fine opened_sel)
    then have "snapshot_work ?srec (blob_bytes bids asks) ?w = (Some e, ?w1)"
      using append_refused [OF w1(3)] by (simp add: snapshot_work_def del: event_record.simps)
    moreover have "\<not> broken ?w1"
      using openBlobFile_step [OF w1(1) i(2), of h "stored 0 evs"] i(1)
      by (auto simp: rec_inv_def blob_inv_def broken_def split: if_splits)
    ultimately show ?thesis
      using w1(2) Some iff eq by auto
  qed
qed

lemma writer_inv_not_broken: "writer_inv h evs w \<Longrightarrow> \<not> broken w"
  by (auto simp: writer_inv_def rec_inv_def blob_inv_def broken_def split: if_splits)

lemma offer_fine:
  assumes inv: "writer_inv h evs w" and io: "osIO w = []"
  shows "\<exists>err w'. offer e w = (err, w') \<and> osIO w' = [] \<and> (err = None \<longleftrightarrow> acceptable (hVenueID h) evs e)
    \<and> writer_inv h (if err = None then evs @ [e] else evs) w'"
proof -
  have "\<exists>err w'. offer e w = (err, w') \<and> osIO w' = [] \<and> (err = None \<longleftrightarrow> acceptable (hVenueID h) evs e)
      \<and> (err \<noteq> None \<longrightarrow> \<not> broken w')"
  proof (cases e)
    case (EvRecord rec)
    then show ?thesis
      using offer_record_fine [OF assms, of rec] writer_inv_not_broken [OF inv] by fastforce
  next
    case (EvSnapshot rec bids asks)
    then show ?thesis
      using offer_snapshot_fine [OF assms, of rec bids asks] by fastforce
  qed
  then obtain err w' where o: "offer e w = (err, w')" "osIO w' = []" "err = None \<longleftrightarrow> acceptable (hVenueID h) evs e"
      "err \<noteq> None \<longrightarrow> \<not> broken w'"
    by blast
  with offer_step [OF inv o(1)] show ?thesis
    by (cases err) auto
qed

lemma run_events_fine:
  "writer_inv h evs w \<Longrightarrow> osIO w = [] \<Longrightarrow> \<exists>acc w'. run_events es w = (acc, w') \<and> osIO w' = []
     \<and> evs @ acc = spec_accept (hVenueID h) evs es \<and> writer_inv h (evs @ acc) w'"
proof (induction es arbitrary: evs w)
  case (Cons e es)
  obtain err w1 where o: "offer e w = (err, w1)" "osIO w1 = []" "err = None \<longleftrightarrow> acceptable (hVenueID h) evs e"
      "writer_inv h (if err = None then evs @ [e] else evs) w1"
    using offer_fine [OF Cons.prems] by blast
  show ?case
  proof (cases err)
    case None
    then have "writer_inv h (evs @ [e]) w1"
      using o(4) by simp
    from Cons.IH [OF this o(2)] obtain acc w' where "run_events es w1 = (acc, w')" "osIO w' = []"
        "(evs @ [e]) @ acc = spec_accept (hVenueID h) (evs @ [e]) es" "writer_inv h ((evs @ [e]) @ acc) w'"
      by blast
    then show ?thesis
      using o None by auto
  next
    case (Some x)
    then have "writer_inv h evs w1"
      using o(4) by simp
    from Cons.IH [OF this o(2)] o Some show ?thesis
      by auto
  qed
qed simp

text \<open>An action that succeeds, in states of which \<open>P\<close> holds, when no call fails.\<close>

definition fine_action :: "(Writer \<Rightarrow> bool) \<Rightarrow> action \<Rightarrow> bool" where
  "fine_action P a \<longleftrightarrow> (\<forall>w. P w \<and> osIO w = [] \<longrightarrow> (\<exists>w'. a w = (None, w') \<and> osIO w' = []))"

lemma sys_outcome_fine: "osIO w = [] \<Longrightarrow> sys_outcome w = (None, w)"
  by (simp add: sys_outcome_def)

lemma fine_copy: "fine_action (\<lambda>w. wBlobFile w \<longrightarrow> bErr (wBlobBW w) = None) copyBlobRegion"
  unfolding fine_action_def
proof (intro allI impI, elim conjE)
  fix w :: Writer assume a: "wBlobFile w \<longrightarrow> bErr (wBlobBW w) = None" and io: "osIO w = []"
  show "\<exists>w'. copyBlobRegion w = (None, w') \<and> osIO w' = []"
  proof (cases "wBlobFile w")
    case True
    then obtain w1 where "blobBWFlush w = (None, w1)" "osIO w1 = []"
      using a blobBWFlush_fine [OF io] by blast
    then show ?thesis
      using True by (simp add: copyBlobRegion_def sys_call_fine fileWrite_def sys_outcome_fine)
  qed (simp add: copyBlobRegion_def io)
qed

lemma fine_rest:
  "fine_action (\<lambda>_. True) (run_actions [writeTail, writeHeader, sys_call, fileWriteAt [1] hdrOffFinalized, sys_call])"
  by (simp add: fine_action_def writeTail_def encodeTail_eq Let_def fileWrite_def sys_outcome_fine writeHeader_def
      encodeHeader_eq headerFieldsSize_def fileWriteAt_def sys_call_fine)

lemma fine_closeFiles: "fine_action (\<lambda>_. True) closeFiles"
  by (auto simp: fine_action_def closeFiles_def sys_call_fine removeBlob_def first_of_def Let_def)

lemma run_actions_append_None:
  "run_actions as w = (None, w1) \<Longrightarrow> run_actions (as @ bs) w = run_actions bs w1"
  by (induction as arbitrary: w) (auto split: prod.splits option.splits)

lemma finish_fine:
  assumes inv: "writer_inv h evs w" and io: "osIO w = []"
  shows "\<exists>w'. finish w = (None, w') \<and> osIO w' = []"
proof -
  have base: "base_header_ok h" and ri: "rec_inv h (stored 0 evs) w"
    using inv by (simp_all add: writer_inv_def)
  let ?flush = "[\<lambda>w. (None, closeLastBlock w), bwFlush]"
  let ?start = "\<lambda>w. (None, w\<lparr>wHdr := wHdr w\<lparr>hBlobRegionOffset := wPos w, hBlobRegionLen := wBlobLen w\<rparr>\<rparr>)"
  let ?w = "closeLastBlock w"
  have c: "osIO ?w = []" "bErr (wBw ?w) = None"
    using io rec_invD(7) [OF ri] by (simp_all add: closeLastBlock_def Let_def)
  then obtain w1 where w1: "bwFlush ?w = (None, w1)" "osIO w1 = []"
    using bwFlush_fine by blast
  then have r1: "run_actions ?flush w = (None, w1)"
    by simp
  have "flushed h evs w1"
    using triple_None [OF triple_flush inv r1] .
  then have "wBlobFile w1 \<longrightarrow> bErr (wBlobBW w1) = None"
    by (simp add: flushed_def blob_inv_def)
  then have "wBlobFile (snd (?start w1)) \<longrightarrow> bErr (wBlobBW (snd (?start w1))) = None" "osIO (snd (?start w1)) = []"
    using w1(2) by simp_all
  then obtain w2 where w2: "copyBlobRegion (snd (?start w1)) = (None, w2)" "osIO w2 = []"
    using fine_copy unfolding fine_action_def by blast
  obtain w3 where w3: "run_actions [writeTail, writeHeader, sys_call, fileWriteAt [1] hdrOffFinalized, sys_call] w2 = (None, w3)"
    "osIO w3 = []"
    using fine_rest w2(2) by (auto simp: fine_action_def simp del: run_actions.simps)
  obtain w4 where w4: "closeFiles w3 = (None, w4)" "osIO w4 = []"
    using fine_closeFiles w3(2) by (auto simp: fine_action_def)
  have "run_actions (?flush @ [?start, copyBlobRegion] @ [writeTail, writeHeader, sys_call, fileWriteAt [1] hdrOffFinalized, sys_call]
      @ [closeFiles]) w = (None, w4)"
    unfolding run_actions_append_None [OF r1] using w2(1) w4(1) run_actions_append_None [OF w3(1), of "[closeFiles]"]
    by simp
  then show ?thesis
    using w4(2) by (simp add: finish_def)
qed

lemma newWriter_fine:
  assumes "0 < sint ps" "0 < unat (blockSizeRecords opts)" "unat (blockSizeRecords opts) \<le> 2 ^ 24"
    "headerSizeFor (pageSize opts) = Inr hs" "osFile os = None" "osIO os = []"
  shows "\<exists>w. newWriter os v ps opts = Inr w \<and> osIO w = []"
proof -
  have g: "\<not> sint ps \<le> 0" "\<not> (blockSizeRecords opts = 0 \<or> blockSizeRecords opts > of_nat maxBlockSizeRecords)"
    using assms(1-3) by (auto simp: header_bounds word_less_nat_alt)
  obtain w where "bwWrite (replicate (unat hs) 0) (freshWriter os v ps opts hs) = (None, w)" "osIO w = []"
    using bwWrite_fine [of "freshWriter os v ps opts hs" "replicate (unat hs) 0"] assms(6)
    by (auto simp: newBufio_def)
  then show ?thesis
    using g assms(4-6) by (simp add: newWriter_def sys_call_fine)
qed

text \<open>C5: The writer refines the abstract one. When no system call fails, a writer with valid
  options is created, \<^verbatim>\<open>WriteRecord\<close> and \<^verbatim>\<open>WriteSnapshot\<close> accept exactly the events
  that are well formed, of the writer's venue and strictly after the last accepted one in key
  order, and \<^verbatim>\<open>Close\<close> succeeds. Nothing acceptable is refused, and a refused event has no
  effect on what follows.\<close>

theorem writer_refines_list:
  assumes "0 < sint ps" and "0 < unat (blockSizeRecords opts)" and "unat (blockSizeRecords opts) \<le> 2 ^ 24"
    and "headerSizeFor (pageSize opts) = Inr hs" and "pageSize opts \<le> maxInt - 127"
    and "osFile os = None" and "osIO os = []"
  shows "\<exists>w0 w1 w2. newWriter os v ps opts = Inr w0 \<and> run_events evs w0 = (spec_accept v [] evs, w1)
    \<and> Writer_Close w1 = (None, w2)"
proof -
  obtain w0 where w0: "newWriter os v ps opts = Inr w0" "osIO w0 = []"
    using newWriter_fine [OF assms(1-4,6,7)] by blast
  obtain hs' where inv: "writer_inv (new_header v ps hs' (blockSizeRecords opts)) [] w0"
    using newWriter_inv [OF w0(1) assms(5)] by blast
  have venue: "hVenueID (new_header v ps hs' (blockSizeRecords opts)) = v"
    by (simp add: new_header_def)
  obtain acc w1 where r: "run_events evs w0 = (acc, w1)" "osIO w1 = []" "acc = spec_accept v [] evs"
      "writer_inv (new_header v ps hs' (blockSizeRecords opts)) acc w1"
    using run_events_fine [OF inv w0(2), of evs] by (auto simp: venue)
  obtain w2 where "finish w1 = (None, w2)"
    using finish_fine [OF r(4,2)] by blast
  then have "Writer_Close w1 = (None, w2\<lparr>wState := writerClosed\<rparr>)"
    using writer_inv_open [OF r(4)] by (simp add: Writer_Close_def)
  then show ?thesis
    using w0(1) r(1,3) by blast
qed

section \<open>Witnesses\<close>

definition example_os :: OS where
  "example_os = \<lparr>osFile = None, osBlob = None, osIO = []\<rparr>"

definition example_opts :: writerOptions where
  "example_opts = \<lparr>pageSize = 4096, blockSizeRecords = 2\<rparr>"

definition example_events :: "event list" where
  "example_events =
     [EvSnapshot (zeroRecord\<lparr>ExchangeTs := 1, VenueID := 9\<rparr>) [\<lparr>lPrice = 99, lSize = 5\<rparr>] [\<lparr>lPrice = 101, lSize = 7\<rparr>],
      EvRecord (example_delta\<lparr>ExchangeTs := 5\<rparr>),
      EvRecord (example_delta\<lparr>ExchangeTs := 4\<rparr>),
      EvRecord (example_delta\<lparr>ExchangeTs := 6\<rparr>)]"

lemma example_setup:
  "0 < sint (100 :: i64)" "0 < unat (blockSizeRecords example_opts)" "unat (blockSizeRecords example_opts) \<le> 2 ^ 24"
  "headerSizeFor (pageSize example_opts) = Inr 4096" "pageSize example_opts \<le> maxInt - 127"
  "osFile example_os = None" "osIO example_os = []"
  by (simp_all add: example_opts_def example_os_def headerSizeFor_def headerFieldsSize_def header_bounds
      go_quot_def wrap64_def maxInt_def)

text \<open>The third event is out of order and refused; the other three are accepted.\<close>

lemma example_accepted:
  "spec_accept 9 [] example_events = [example_events ! 0, example_events ! 1, example_events ! 3]"
  by (simp add: example_events_def acceptable_def key_only_def zeroRecord_def example_delta_def compareKey_def
      validateRecord_def record_types)

theorem writer_refines_list_witness:
  "\<exists>w0 w1 w2. newWriter example_os 9 100 example_opts = Inr w0
    \<and> run_events example_events w0 = ([example_events ! 0, example_events ! 1, example_events ! 3], w1)
    \<and> Writer_Close w1 = (None, w2)"
  using writer_refines_list [OF example_setup, of 9 example_events] unfolding example_accepted .

lemma example_run:
  "\<exists>w0 w1 w2 w3. newWriter example_os 9 100 example_opts = Inr w0
    \<and> run_events example_events w0 = ([example_events ! 0, example_events ! 1, example_events ! 3], w1)
    \<and> Writer_Close w1 = (None, w2) \<and> finish w1 = (None, w3)"
proof -
  obtain w0 where w0: "newWriter example_os 9 100 example_opts = Inr w0" "osIO w0 = []"
    using newWriter_fine [OF example_setup(1-4,6,7)] by blast
  obtain hs where inv: "writer_inv (new_header 9 100 hs (blockSizeRecords example_opts)) [] w0"
    using newWriter_inv [OF w0(1) example_setup(5)] by blast
  have venue: "hVenueID (new_header 9 100 hs (blockSizeRecords example_opts)) = 9"
    by (simp add: new_header_def)
  obtain acc w1 where r: "run_events example_events w0 = (acc, w1)" "osIO w1 = []"
      "acc = spec_accept 9 [] example_events" "writer_inv (new_header 9 100 hs (blockSizeRecords example_opts)) acc w1"
    using run_events_fine [OF inv w0(2), of example_events] unfolding venue append_Nil by blast
  obtain w3 where f: "finish w1 = (None, w3)"
    using finish_fine [OF r(4,2)] by blast
  then have "Writer_Close w1 = (None, w3\<lparr>wState := writerClosed\<rparr>)"
    using writer_inv_open [OF r(4)] by (simp add: Writer_Close_def)
  then show ?thesis
    using w0(1) r(1) f unfolding r(3) example_accepted by blast
qed

theorem writer_reader_roundtrip_witness:
  "\<exists>w0 w1 w2 d r. newWriter example_os 9 100 example_opts = Inr w0
    \<and> run_events example_events w0 = ([example_events ! 0, example_events ! 1, example_events ! 3], w1)
    \<and> Writer_Close w1 = (None, w2) \<and> osFile w2 = Some d \<and> openBytes d = Inr r \<and> VerifyAll r = None
    \<and> serves r [example_events ! 0, example_events ! 1, example_events ! 3] \<and> PriceScale r = 100"
proof -
  obtain w0 w1 w2 where w: "newWriter example_os 9 100 example_opts = Inr w0"
      "run_events example_events w0 = ([example_events ! 0, example_events ! 1, example_events ! 3], w1)"
      "Writer_Close w1 = (None, w2)"
    using example_run by blast
  from w writer_reader_roundtrip [OF w(1) example_setup(5) w(2,3)] show ?thesis
    by blast
qed

theorem crash_safety_witness:
  "\<exists>w0 w1 w2. newWriter example_os 9 100 example_opts = Inr w0
    \<and> run_events example_events w0 = ([example_events ! 0, example_events ! 1, example_events ! 3], w1)
    \<and> finish w1 = (None, w2) \<and> (\<exists>d. osFile w1 = Some d \<and> (\<forall>r. openBytes d \<noteq> Inr r))"
proof -
  obtain w0 w1 w3 where w: "newWriter example_os 9 100 example_opts = Inr w0"
      "run_events example_events w0 = ([example_events ! 0, example_events ! 1, example_events ! 3], w1)"
      "finish w1 = (None, w3)"
    using example_run by blast
  from w crash_safety [OF w(1) example_setup(5) w(2,3)] show ?thesis
    by blast
qed

theorem Close_is_final_witness:
  "\<exists>w1 w2. Writer_Close w1 = (None, w2) \<and> checkOpen w2 = Some ErrWriterClosed \<and> Writer_Close w2 = (None, w2)
    \<and> offer (EvRecord example_delta) w2 = (Some ErrWriterClosed, w2)"
proof -
  obtain w1 w2 where w: "Writer_Close w1 = (None, w2)"
    using example_run by blast
  from w Close_is_final [OF w, of "EvRecord example_delta"] show ?thesis
    by (metis (no_types))
qed

end
