(* ===== verification/Convert_Venue.thy ===== *)
theory Convert_Venue
  imports Convert_Row Store_Writer_Correct
begin

text \<open>
  What the converter remembers of a venue: \<^verbatim>\<open>src/cmd/convert/epoch.go\<close>. Books and venues are kept in
  sorted slices that are searched by halving and grow by insertion; the locale \<open>sorted_slice\<close> states
  once that such a slice is a finite map, and \<open>sorted_table\<close> that with a default value it is a total one.
\<close>

section \<open>Sorted slices\<close>

text \<open>\<^verbatim>\<open>slices.BinarySearchFunc\<close> and \<^verbatim>\<open>slices.Insert\<close>.\<close>

definition BinarySearchFunc :: "'a list \<Rightarrow> ('a \<Rightarrow> int) \<Rightarrow> nat \<times> bool" where
  "BinarySearchFunc xs c =
     (let i = sort_Search (length xs) (\<lambda>h. \<not> c (xs ! h) < 0) in (i, i < length xs \<and> c (xs ! i) = 0))"

definition slices_Insert :: "'a list \<Rightarrow> nat \<Rightarrow> 'a \<Rightarrow> 'a list" where
  "slices_Insert xs i x = take i xs @ x # drop i xs"

text \<open>The position of an element, which is inserted on first use.\<close>

definition find_or_insert :: "('a \<Rightarrow> int) \<Rightarrow> 'a \<Rightarrow> 'a list \<Rightarrow> nat \<times> 'a list" where
  "find_or_insert c fresh xs =
     (case BinarySearchFunc xs c of (i, found) \<Rightarrow> if found then (i, xs) else (i, slices_Insert xs i fresh))"

locale sorted_slice =
  fixes key :: "'a \<Rightarrow> 'k :: linorder" and cmp :: "'a \<Rightarrow> 'k \<Rightarrow> int"
  assumes cmp_less: "cmp x k < 0 \<longleftrightarrow> key x < k"
    and cmp_eq: "cmp x k = 0 \<longleftrightarrow> key x = k"
begin

definition wf :: "'a list \<Rightarrow> bool" where
  "wf xs \<longleftrightarrow> sorted_wrt (<) (map key xs)"

definition slot :: "'a list \<Rightarrow> 'k \<Rightarrow> 'a option" where
  "slot xs k = find (\<lambda>x. key x = k) xs"

lemma wf_Nil: "wf []" "slot [] k = None"
  by (simp_all add: wf_def slot_def)

lemma wf_less: "wf xs \<Longrightarrow> i < j \<Longrightarrow> j < length xs \<Longrightarrow> key (xs ! i) < key (xs ! j)"
  using sorted_wrt_nth_less [of "(<)" "map key xs" i j] by (simp add: wf_def)

lemma slot_nth: "wf xs \<Longrightarrow> i < length xs \<Longrightarrow> slot xs (key (xs ! i)) = Some (xs ! i)"
  unfolding slot_def find_Some_iff using wf_less by (metis less_imp_neq)

lemma slot_None_iff: "slot xs k = None \<longleftrightarrow> k \<notin> key ` set xs"
  by (auto simp: slot_def find_None_iff)

lemma slot_SomeD: "slot xs k = Some x \<Longrightarrow> x \<in> set xs \<and> key x = k"
  by (auto simp: slot_def find_Some_iff)

lemma slot_eq_Some: "wf xs \<Longrightarrow> slot xs k = Some x \<longleftrightarrow> x \<in> set xs \<and> key x = k"
  using slot_SomeD slot_nth by (metis in_set_conv_nth)

lemma search_ok:
  assumes "wf xs" "BinarySearchFunc xs (\<lambda>x. cmp x k) = (i, found)"
  shows "i \<le> length xs" "\<And>x. x \<in> set (take i xs) \<Longrightarrow> key x < k" "\<And>x. x \<in> set (drop i xs) \<Longrightarrow> k \<le> key x"
    "found \<longleftrightarrow> i < length xs \<and> key (xs ! i) = k" "found \<longleftrightarrow> slot xs k \<noteq> None"
proof -
  have u: "upclosed (length xs) (\<lambda>h. \<not> cmp (xs ! h) k < 0)"
    unfolding upclosed_def cmp_less using wf_less [OF assms(1)] by (metis le_neq_implies_less less_trans not_less_iff_gr_or_eq)
  have i: "i = sort_Search (length xs) (\<lambda>h. \<not> cmp (xs ! h) k < 0)" and f: "found \<longleftrightarrow> i < length xs \<and> cmp (xs ! i) k = 0"
    using assms(2) by (auto simp: BinarySearchFunc_def Let_def)
  note s = sort_Search_correct [OF u, folded i, unfolded cmp_less not_not not_less]
  show len: "i \<le> length xs" by (rule s(1))
  show t: "key x < k" if "x \<in> set (take i xs)" for x
    using that s(2) by (auto simp: in_set_conv_nth not_le)
  show d: "k \<le> key x" if "x \<in> set (drop i xs)" for x
    using that s(3) [of "i + j" for j] by (auto simp: in_set_conv_nth)
  show e: "found \<longleftrightarrow> i < length xs \<and> key (xs ! i) = k" by (simp add: f cmp_eq)
  have "key x \<noteq> k" if nf: "\<not> found" and x: "x \<in> set xs" for x
  proof -
    obtain j where j: "j < length xs" "x = xs ! j" using x by (auto simp: in_set_conv_nth)
    consider "j < i" | "j = i" | "i < j" by linarith
    then show ?thesis
    proof cases
      case 1
      then show ?thesis using s(2) [of j] j by auto
    next
      case 2
      then show ?thesis using e nf j by simp
    next
      case 3
      then have "i < length xs" "key (xs ! i) < key (xs ! j)" using j wf_less [OF assms(1) 3] by simp_all
      then show ?thesis using s(3) [of i] j by auto
    qed
  qed
  then show "found \<longleftrightarrow> slot xs k \<noteq> None"
    using e nth_mem unfolding slot_None_iff by blast
qed

lemma wf_update: "wf xs \<Longrightarrow> key y = key (xs ! i) \<Longrightarrow> wf (xs[i := y])"
  unfolding wf_def by (metis list_update_id map_update)

lemma slot_update:
  assumes "wf xs" "i < length xs" "key y = key (xs ! i)"
  shows "slot (xs[i := y]) = (slot xs)(key y \<mapsto> y)"
proof
  fix k
  have w: "wf (xs[i := y])" by (rule wf_update [OF assms(1,3)])
  have keys: "map key (xs[i := y]) = map key xs" using assms(3) by (metis list_update_id map_update)
  show "slot (xs[i := y]) k = ((slot xs)(key y \<mapsto> y)) k"
  proof (cases "k \<in> key ` set xs")
    case True
    then obtain j where j: "j < length xs" "key (xs ! j) = k" by (auto simp: in_set_conv_nth)
    have same: "key (xs[i := y] ! j) = k" using j assms by (cases "i = j") simp_all
    have "slot (xs[i := y]) k = Some (xs[i := y] ! j)" using slot_nth [OF w, of j] j same by simp
    moreover have "slot xs k = Some (xs ! j)" using slot_nth [OF assms(1) j(1)] j(2) by simp
    moreover have "k = key y \<longleftrightarrow> i = j"
      using wf_less [OF assms(1), of i j] wf_less [OF assms(1), of j i] assms(2,3) j
      by (cases i j rule: linorder_cases) auto
    ultimately show ?thesis using j(1) assms(2) by auto
  next
    case False
    then have "slot xs k = None" by (simp add: slot_None_iff)
    moreover have "slot (xs[i := y]) k = None"
      using False keys unfolding slot_None_iff by (metis list.set_map)
    moreover have "k \<noteq> key y" using False assms(2,3) by auto
    ultimately show ?thesis by simp
  qed
qed

lemma insert_ok:
  assumes "wf xs" "BinarySearchFunc xs (\<lambda>x. cmp x k) = (i, False)" "key y = k"
  shows "wf (slices_Insert xs i y)" "slot (slices_Insert xs i y) = (slot xs)(k \<mapsto> y)"
    "i < length (slices_Insert xs i y)" "slices_Insert xs i y ! i = y"
    "set (slices_Insert xs i y) = insert y (set xs)"
proof -
  note s = search_ok [OF assms(1,2)]
  have e: "slices_Insert xs i y = take i xs @ y # drop i xs" by (simp add: slices_Insert_def)
  have none: "slot xs k = None" using s(5) by simp
  have "map key xs = map key (take i xs) @ map key (drop i xs)" by (metis append_take_drop_id map_append)
  then have "sorted_wrt (<) (map key (take i xs)) \<and> sorted_wrt (<) (map key (drop i xs))
      \<and> (\<forall>x \<in> set (take i xs). \<forall>y \<in> set (drop i xs). key x < key y)"
    using assms(1) by (simp add: wf_def sorted_wrt_append)
  moreover have "k < key x" if "x \<in> set (drop i xs)" for x
    using s(3) [OF that] none in_set_dropD [OF that] unfolding slot_None_iff by force
  ultimately show w: "wf (slices_Insert xs i y)"
    using s(2) by (simp add: wf_def e sorted_wrt_append assms(3))
  show len: "i < length (slices_Insert xs i y)" "slices_Insert xs i y ! i = y"
    using s(1) by (simp_all add: e nth_append)
  have fa: "find P (us @ vs) = (case find P us of None \<Rightarrow> find P vs | Some x \<Rightarrow> Some x)" for P and us vs :: "'a list"
    by (induction us) simp_all
  have "slot (slices_Insert xs i y) q = ((slot xs)(k \<mapsto> y)) q" for q
  proof (cases "q = k")
    case True
    then show ?thesis using slot_nth [OF w len(1)] len(2) assms(3) by simp
  next
    case False
    then have "slot (slices_Insert xs i y) q = find (\<lambda>x. key x = q) (take i xs @ drop i xs)"
      by (simp only: slot_def e fa) (simp add: assms(3) split: option.split)
    then show ?thesis using False by (simp add: slot_def)
  qed
  then show "slot (slices_Insert xs i y) = (slot xs)(k \<mapsto> y)" by blast
  have "set xs = set (take i xs) \<union> set (drop i xs)" by (metis append_take_drop_id set_append)
  then show "set (slices_Insert xs i y) = insert y (set xs)" by (auto simp: e)
qed

end

text \<open>A slice whose missing elements count as there with a default value is a total map.\<close>

locale sorted_table = sorted_slice +
  fixes fresh :: "'b \<Rightarrow> 'a"
  assumes key_fresh: "key (fresh k) = k"
begin

definition look :: "'a list \<Rightarrow> 'b \<Rightarrow> 'a" where
  "look xs k = (case slot xs k of None \<Rightarrow> fresh k | Some x \<Rightarrow> x)"

lemma look_Nil: "look [] = fresh"
  by (simp add: look_def wf_Nil fun_eq_iff)

lemma look_nth: "wf xs \<Longrightarrow> i < length xs \<Longrightarrow> look xs (key (xs ! i)) = xs ! i"
  by (simp add: look_def slot_nth)

lemma look_update:
  "wf xs \<Longrightarrow> i < length xs \<Longrightarrow> key y = key (xs ! i) \<Longrightarrow> look (xs[i := y]) = (look xs)(key y := y)"
  by (auto simp: look_def slot_update fun_eq_iff)

lemma find_or_insert_ok:
  assumes "wf xs" "find_or_insert (\<lambda>x. cmp x k) (fresh k) xs = (i, ys)"
  shows "i < length ys" "wf ys" "look ys = look xs" "ys ! i = look xs k" "key (look xs k) = k"
    "set ys \<subseteq> insert (fresh k) (set xs)"
proof -
  obtain j found where b: "BinarySearchFunc xs (\<lambda>x. cmp x k) = (j, found)" by fastforce
  note s = search_ok [OF assms(1) b]
  have "i < length ys \<and> wf ys \<and> look ys = look xs \<and> ys ! i = look xs k \<and> key (look xs k) = k
    \<and> set ys \<subseteq> insert (fresh k) (set xs)"
  proof (cases found)
    case True
    then have e: "i = j" "ys = xs" "j < length xs" "key (xs ! j) = k" using assms(2) b s(4) by (auto simp: find_or_insert_def)
    then show ?thesis using look_nth [OF assms(1) e(3)] assms(1) by auto
  next
    case False
    then have e: "i = j" "ys = slices_Insert xs j (fresh k)" using assms(2) b by (auto simp: find_or_insert_def)
    note ins = insert_ok [OF assms(1) b [unfolded eq_False [THEN iffD2, OF False]] key_fresh]
    have none: "slot xs k = None" using s(5) False by simp
    then have l: "look xs k = fresh k" by (simp add: look_def)
    have "look ys = look xs" using none by (auto simp: look_def e(2) ins(2) fun_eq_iff)
    then show ?thesis using ins l by (simp add: e key_fresh)
  qed
  then show "i < length ys" "wf ys" "look ys = look xs" "ys ! i = look xs k" "key (look xs k) = k"
    "set ys \<subseteq> insert (fresh k) (set xs)" by blast+
qed

end

text \<open>\<^verbatim>\<open>cmp.Compare\<close> on unsigned integers.\<close>

definition cmp_Compare :: "'a::len word \<Rightarrow> 'a word \<Rightarrow> int" where
  "cmp_Compare a b = (if a < b then - 1 else if a > b then 1 else 0)"

lemma cmp_Compare_iff: "cmp_Compare a b < 0 \<longleftrightarrow> a < b" "cmp_Compare a b = 0 \<longleftrightarrow> a = b"
  by (auto simp: cmp_Compare_def)

section \<open>The state of a venue\<close>

text \<open>A pointer to an output file is its key. \<open>vsLast\<close> is \<^verbatim>\<open>nil\<close>, here \<open>None\<close>, before the first record.\<close>

definition DefaultEpochEvery :: int where "DefaultEpochEvery = 1000"

record venueState =
  vsId :: u16
  vsLastTs :: i64
  vsLastSeq :: u64
  vsSeen :: bool
  vsLast :: "PartitionKey option"
  vsBooks :: "Book list"
  vsSince :: int
  vsPending :: bool

definition new_venue :: "u16 \<Rightarrow> venueState" where
  "new_venue venueID = \<lparr>vsId = venueID, vsLastTs = 0, vsLastSeq = 0, vsSeen = False, vsLast = None, vsBooks = [],
     vsSince = 0, vsPending = False\<rparr>"

definition find_venue :: "u16 \<Rightarrow> venueState list \<Rightarrow> nat \<times> venueState list" where
  "find_venue venueID = find_or_insert (\<lambda>v. cmp_Compare (vsId v) venueID) (new_venue venueID)"

definition find_book :: "u32 \<Rightarrow> Book list \<Rightarrow> nat \<times> Book list" where
  "find_book instrumentID = find_or_insert (\<lambda>b. cmp_Compare (book_InstrumentID b) instrumentID) (NewBook instrumentID)"

interpretation venues: sorted_table vsId "\<lambda>v. cmp_Compare (vsId v)" new_venue
  by unfold_locales (simp_all add: cmp_Compare_iff new_venue_def)

interpretation books: sorted_table book_InstrumentID "\<lambda>b. cmp_Compare (book_InstrumentID b)" NewBook
  by unfold_locales (simp_all add: cmp_Compare_iff NewBook_def book_InstrumentID_def)

definition epochDue :: "Record \<Rightarrow> venueState \<Rightarrow> bool" where
  "epochDue rec v \<longleftrightarrow> vsPending v \<and> vsSeen v \<and> sint (ExchangeTs rec) > sint (vsLastTs v)"

text \<open>The record of an epoch's snapshot.\<close>

definition epoch_record :: "venueState \<Rightarrow> u64 \<Rightarrow> Book \<Rightarrow> Record" where
  "epoch_record v seq b =
     zeroRecord\<lparr>ExchangeTs := vsLastTs v, SequenceNumber := seq, InstrumentID := book_InstrumentID b, VenueID := vsId v\<rparr>"

primrec writeEpoch_loop :: "venueState \<Rightarrow> Book list \<Rightarrow> u64 \<Rightarrow> Writer \<Rightarrow> (store_error + u64) \<times> Writer" where
  "writeEpoch_loop v [] seq w = (Inr seq, w)"
| "writeEpoch_loop v (b # bs) seq w =
     (let seq = seq + 1 in
      case WriteSnapshot (epoch_record v seq b) (Bids b) (Asks b) w of
        (Some e, w) \<Rightarrow> (Inl e, w)
      | (None, w) \<Rightarrow> writeEpoch_loop v bs seq w)"

definition epoch_written :: "u64 \<Rightarrow> venueState \<Rightarrow> venueState" where
  "epoch_written seq v = v\<lparr>vsLastSeq := seq, vsSince := 0, vsPending := False\<rparr>"

text \<open>\<^verbatim>\<open>writeEpoch\<close> on the writer of the venue's last file.\<close>

definition writeEpoch :: "venueState \<Rightarrow> Writer \<Rightarrow> (store_error + venueState) \<times> Writer" where
  "writeEpoch v w =
     (case writeEpoch_loop v (vsBooks v) (vsLastSeq v) w of
        (Inl e, w) \<Rightarrow> (Inl e, w)
      | (Inr seq, w) \<Rightarrow> (Inr (epoch_written seq v), w))"

definition advance :: "Record \<Rightarrow> PartitionKey \<Rightarrow> int \<Rightarrow> venueState \<Rightarrow> venueState" where
  "advance rec p epochEvery v =
     (let v = v\<lparr>vsLastTs := ExchangeTs rec, vsLastSeq := SequenceNumber rec, vsSeen := True, vsLast := Some p,
                vsSince := vsSince v + 1\<rparr>
      in if vsSince v \<ge> epochEvery then v\<lparr>vsPending := True\<rparr> else v)"

definition applyToBook :: "Record \<Rightarrow> Level list \<Rightarrow> Level list \<Rightarrow> venueState \<Rightarrow> book_error option \<times> venueState" where
  "applyToBook rec bids asks v =
     (if RecordType rec = RecordTypeDelta then
        (case find_book (InstrumentID rec) (vsBooks v) of
           (i, books) \<Rightarrow>
             case Apply (books ! i) rec of (err, b) \<Rightarrow> (err, v\<lparr>vsBooks := books[i := b]\<rparr>))
      else if RecordType rec = RecordTypeSnapshotPointer then
        (case find_book (InstrumentID rec) (vsBooks v) of
           (i, books) \<Rightarrow>
             case ApplySnapshot (books ! i) (bids @ asks) (int (length bids)) of
               (err, b) \<Rightarrow> (err, v\<lparr>vsBooks := books[i := b]\<rparr>))
      else (None, v))"

section \<open>A venue's stream\<close>

text \<open>
  What the converter makes of a venue, without the files: each event with the key of the file it goes
  to, a source row's or one of an epoch's snapshots.
\<close>

type_synonym item = "Record \<times> Level list \<times> Level list"

datatype out = FromRow event | FromEpoch event

primrec out_event :: "out \<Rightarrow> event" where
  "out_event (FromRow e) = e"
| "out_event (FromEpoch e) = e"

fun item_event :: "item \<Rightarrow> event" where
  "item_event (rec, bids, asks) =
     (if RecordType rec = RecordTypeSnapshotPointer then EvSnapshot rec bids asks else EvRecord rec)"

primrec epoch_events :: "venueState \<Rightarrow> Book list \<Rightarrow> u64 \<Rightarrow> event list" where
  "epoch_events v [] seq = []"
| "epoch_events v (b # bs) seq =
     EvSnapshot (epoch_record v (seq + 1) b) (Bids b) (Asks b) # epoch_events v bs (seq + 1)"

definition epoch_out :: "Record \<Rightarrow> venueState \<Rightarrow> (PartitionKey \<times> out) list \<times> venueState" where
  "epoch_out rec v =
     (if epochDue rec v
      then (map (\<lambda>e. (the (vsLast v), FromEpoch e)) (epoch_events v (vsBooks v) (vsLastSeq v)),
            epoch_written (vsLastSeq v + of_nat (length (vsBooks v))) v)
      else ([], v))"

fun venue_step :: "int \<Rightarrow> item \<Rightarrow> venueState \<Rightarrow> (PartitionKey \<times> out) list \<times> venueState" where
  "venue_step epochEvery (rec, bids, asks) v =
     (let k = PartitionOf (VenueID rec) (ExchangeTs rec); (eps, v) = epoch_out rec v in
      (eps @ [(k, FromRow (item_event (rec, bids, asks)))],
       advance rec k epochEvery (snd (applyToBook rec bids asks v))))"

text \<open>All venues, as a map.\<close>

fun stream_run :: "int \<Rightarrow> (u16 \<Rightarrow> venueState) \<Rightarrow> item list \<Rightarrow> (PartitionKey \<times> out) list" where
  "stream_run epochEvery V [] = []"
| "stream_run epochEvery V (x # xs) =
     (let (os, v) = venue_step epochEvery x (V (VenueID (fst x)))
      in os @ stream_run epochEvery (V(VenueID (fst x) := v)) xs)"

lemma writeEpoch_loop_ok:
  assumes "writer_inv h evs w" "writeEpoch_loop v bs seq w = (Inr seq', w')"
  shows "writer_inv h (evs @ epoch_events v bs seq) w' \<and> seq' = seq + of_nat (length bs)"
  using assms
proof (induction bs arbitrary: seq evs w)
  case (Cons b bs)
  let ?e = "EvSnapshot (epoch_record v (seq + 1) b) (Bids b) (Asks b)"
  obtain err w1 where o: "offer ?e w = (err, w1)" by fastforce
  with Cons.prems(2) have err: "err = None" and r: "writeEpoch_loop v bs (seq + 1) w1 = (Inr seq', w')"
    by (cases err; simp add: Let_def)+
  have "writer_inv h (evs @ [?e]) w1" using offer_step [OF Cons.prems(1) o] err by simp
  from Cons.IH [OF this r] show ?case by (simp add: algebra_simps)
qed simp

end
