(* ===== verification/Convert_Stream.thy ===== *)
theory Convert_Stream
  imports Convert_Venue
begin

text \<open>
  What the converter's stream means: the source rows are all there, and a snapshot the converter adds is
  the order book that the rows before it give.
\<close>

section \<open>Accepted streams\<close>

text \<open>The checks the converter makes of a row against the rows before it.\<close>

definition item_ok :: "item \<Rightarrow> venueState \<Rightarrow> bool" where
  "item_ok x v =
     (case x of (rec, bids, asks) \<Rightarrow>
        \<not> (vsSeen v \<and> sint (ExchangeTs rec) < sint (vsLastTs v))
        \<and> fst (applyToBook rec bids asks (snd (epoch_out rec v))) = None)"

fun stream_ok :: "int \<Rightarrow> (u16 \<Rightarrow> venueState) \<Rightarrow> item list \<Rightarrow> bool" where
  "stream_ok epochEvery V [] = True"
| "stream_ok epochEvery V (x # xs) =
     (let v = V (VenueID (fst x))
      in item_ok x v \<and> stream_ok epochEvery (V(VenueID (fst x) := snd (venue_step epochEvery x v))) xs)"

definition row_events :: "(PartitionKey \<times> out) list \<Rightarrow> (PartitionKey \<times> event) list" where
  "row_events os = List.map_filter (\<lambda>(k, y). case y of FromRow e \<Rightarrow> Some (k, e) | FromEpoch e \<Rightarrow> None) os"

definition all_events :: "(PartitionKey \<times> out) list \<Rightarrow> event list" where
  "all_events os = map (\<lambda>(k, y). out_event y) os"

lemma row_events_simps [simp]:
  "row_events [] = []" "row_events ((k, FromRow e) # os) = (k, e) # row_events os"
  "row_events ((k, FromEpoch e) # os) = row_events os"
  by (simp_all add: row_events_def List.map_filter_def)

lemma row_events_append [simp]: "row_events (xs @ ys) = row_events xs @ row_events ys"
  by (induction xs) (auto simp: row_events_def List.map_filter_def)

lemma row_events_epochs [simp]: "row_events (map (\<lambda>e. (k, FromEpoch e)) es) = []"
  by (induction es) simp_all

lemma all_events_simps [simp]:
  "all_events [] = []" "all_events ((k, y) # os) = out_event y # all_events os" "all_events (xs @ ys) = all_events xs @ all_events ys"
  "all_events (map (\<lambda>e. (k, FromEpoch e)) es) = es"
  by (simp_all add: all_events_def comp_def)

text \<open>The rows are in the stream as they came, each in the file of its venue and day.\<close>

lemma row_events_epoch_out [simp]: "row_events (fst (epoch_out rec v)) = []"
  by (simp add: epoch_out_def)

lemma venue_step_rows:
  "row_events (fst (venue_step epochEvery x v)) = [(PartitionOf (VenueID (fst x)) (ExchangeTs (fst x)), item_event x)]"
  by (cases x) (simp add: Let_def case_prod_unfold)

lemma stream_rows_gen:
  "row_events (stream_run epochEvery V xs) = map (\<lambda>x. (PartitionOf (VenueID (fst x)) (ExchangeTs (fst x)), item_event x)) xs"
proof (induction xs arbitrary: V)
  case (Cons x xs)
  then show ?case by (simp add: Let_def case_prod_unfold venue_step_rows del: venue_step.simps)
qed simp

section \<open>Books of a stream\<close>

fun book_step :: "u16 \<Rightarrow> u32 \<Rightarrow> event \<Rightarrow> book_maps \<Rightarrow> book_maps" where
  "book_step v i (EvSnapshot rec bids asks) m =
     (if VenueID rec = v \<and> InstrumentID rec = i then (map_of (level_pairs bids), map_of (level_pairs asks)) else m)"
| "book_step v i (EvRecord rec) m =
     (if VenueID rec = v \<and> InstrumentID rec = i \<and> RecordType rec = RecordTypeDelta
      then (case spec_apply i m rec of Inl e \<Rightarrow> m | Inr m' \<Rightarrow> m') else m)"

text \<open>The order book of an instrument of a venue after some events, as two maps from price to size.\<close>

definition stream_book :: "u16 \<Rightarrow> u32 \<Rightarrow> event list \<Rightarrow> book_maps" where
  "stream_book v i es = fold (book_step v i) es (Map.empty, Map.empty)"

lemma stream_book_snoc: "stream_book v i (es @ [e]) = book_step v i e (stream_book v i es)"
  by (simp add: stream_book_def)

definition books_inv :: "(u16 \<Rightarrow> venueState) \<Rightarrow> event list \<Rightarrow> bool" where
  "books_inv V rows \<longleftrightarrow> (\<forall>v. vsId (V v) = v \<and> books.wf (vsBooks (V v)) \<and> list_all book_inv (vsBooks (V v))
     \<and> (\<forall>i. book_maps (books.look (vsBooks (V v)) i) = stream_book v i rows))"

lemma books_inv_new: "books_inv new_venue []"
  by (simp add: books_inv_def new_venue_def books.wf_Nil books.look_Nil stream_book_def NewBook_inv)

lemma applyToBook_id: "fst (applyToBook rec bids asks v) = None \<Longrightarrow> vsId (snd (applyToBook rec bids asks v)) = vsId v"
  by (auto simp: applyToBook_def split: prod.splits)

text \<open>Folding a row into the books is the step of the maps.\<close>

lemma applyToBook_ok:
  assumes w: "books.wf (vsBooks v)" "list_all book_inv (vsBooks v)"
    and m: "\<And>i. book_maps (books.look (vsBooks v) i) = stream_book (VenueID rec) i rows"
    and r: "applyToBook rec bids asks v = (None, v')"
    and t: "RecordType rec = RecordTypeSnapshotPointer \<or> bids = [] \<and> asks = []"
  shows "books.wf (vsBooks v') \<and> list_all book_inv (vsBooks v')
    \<and> (\<forall>i. book_maps (books.look (vsBooks v') i) = stream_book (VenueID rec) i (rows @ [item_event (rec, bids, asks)]))"
proof -
  have ne: "RecordTypeDelta \<noteq> RecordTypeSnapshotPointer" by (simp add: record_types)
  obtain j bs where f: "find_book (InstrumentID rec) (vsBooks v) = (j, bs)" by fastforce
  note fo = books.find_or_insert_ok [OF w(1) f [unfolded find_book_def]]
  have inv: "list_all book_inv bs"
    using fo(6) w(2) NewBook_inv(1) by (auto simp: list_all_iff)
  have bi: "book_inv (bs ! j)" using inv fo(1) by (simp add: list_all_length)
  have ident: "bkInstrumentID (bs ! j) = InstrumentID rec" using fo(4,5) by (simp add: book_InstrumentID_def)
  have maps: "book_maps (bs ! j) = stream_book (VenueID rec) (InstrumentID rec) rows" using fo(4) m by simp
  have upd: "books.wf (bs[j := b]) \<and> list_all book_inv (bs[j := b])
      \<and> (\<forall>i. book_maps (books.look (bs[j := b]) i) =
            (if i = InstrumentID rec then book_maps b else stream_book (VenueID rec) i rows))"
    if "book_inv b" "bkInstrumentID b = InstrumentID rec" for b
  proof -
    have k: "book_InstrumentID b = book_InstrumentID (bs ! j)" using that(2) ident by (simp add: book_InstrumentID_def)
    have "list_all book_inv (bs[j := b])" using inv that(1) by (auto simp: list_all_iff dest: set_update_subset_insert [THEN subsetD])
    then show ?thesis
      using books.wf_update [OF fo(2) k] books.look_update [OF fo(2,1) k] m fo(3) that(2)
      by (simp add: book_InstrumentID_def)
  qed
  consider (delta) "RecordType rec = RecordTypeDelta" | (snap) "RecordType rec = RecordTypeSnapshotPointer"
    | (trade) "RecordType rec \<noteq> RecordTypeDelta" "RecordType rec \<noteq> RecordTypeSnapshotPointer" by blast
  then show ?thesis
  proof cases
    case delta
    obtain b where b: "Apply (bs ! j) rec = (None, b)" "v' = v\<lparr>vsBooks := bs[j := b]\<rparr>"
      using r delta f by (auto simp: applyToBook_def split: prod.splits)
    note a = Apply_refines [OF bi, of rec, unfolded b(1) ident maps]
    then obtain mm where mm: "spec_apply (InstrumentID rec) (stream_book (VenueID rec) (InstrumentID rec) rows) rec = Inr mm"
        "book_maps b = mm" "book_inv b" "bkInstrumentID b = InstrumentID rec"
      by (auto split: sum.splits)
    show ?thesis using upd [OF mm(3,4)] mm(1,2) delta ne b(2) by (auto simp: stream_book_snoc)
  next
    case snap
    obtain b where b: "ApplySnapshot (bs ! j) (bids @ asks) (int (length bids)) = (None, b)" "v' = v\<lparr>vsBooks := bs[j := b]\<rparr>"
      using r snap f ne by (auto simp: applyToBook_def split: prod.splits)
    have a: "book_inv b \<and> book_maps b = (map_of (level_pairs bids), map_of (level_pairs asks))"
      using ApplySnapshot_exact [of "int (length bids)" "bids @ asks" "bs ! j"] b(1) by (auto split: if_splits)
    have "bkInstrumentID b = bkInstrumentID (bs ! j)"
      using b(1) by (auto simp: ApplySnapshot_def Let_def split: if_splits prod.splits option.splits)
    then show ?thesis using upd [of b] a snap ident b(2) by (auto simp: stream_book_snoc)
  next
    case trade
    then show ?thesis using w m r by (simp add: applyToBook_def stream_book_snoc)
  qed
qed

text \<open>The snapshots of an epoch are the books.\<close>

lemma epoch_events_books:
  assumes "books.wf bs" "list_all book_inv bs" "e \<in> set (epoch_events v us seq)" "set us \<subseteq> set bs"
  shows "\<exists>rec bids asks. e = EvSnapshot rec bids asks \<and> VenueID rec = vsId v
    \<and> (map_of (level_pairs bids), map_of (level_pairs asks)) = book_maps (books.look bs (InstrumentID rec))"
  using assms(3,4)
proof (induction us arbitrary: seq)
  case (Cons b us)
  show ?case
  proof (cases "e = EvSnapshot (epoch_record v (seq + 1) b) (Bids b) (Asks b)")
    case True
    have b: "b \<in> set bs" "book_inv b" using Cons.prems(2) assms(2) by (auto simp: list_all_iff)
    then obtain j where j: "j < length bs" "bs ! j = b" by (auto simp: in_set_conv_nth)
    then have "books.look bs (book_InstrumentID b) = b" using books.look_nth [OF assms(1) j(1)] by simp
    then show ?thesis
      using True book_views [OF b(2)] by (auto simp: epoch_record_def zeroRecord_def)
  qed (use Cons in auto)
qed simp

lemma epochs_change_nothing:
  assumes "\<And>e. e \<in> set es \<Longrightarrow> \<exists>rec bids asks. e = EvSnapshot rec bids asks
    \<and> (VenueID rec = v \<and> InstrumentID rec = i \<longrightarrow> (map_of (level_pairs bids), map_of (level_pairs asks)) = m)"
  shows "fold (book_step v i) es m = m"
  using assms
proof (induction es)
  case (Cons e es)
  have "book_step v i e m = m" using Cons.prems [of e] by (auto split: if_splits)
  then show ?case using Cons by simp
qed simp

lemma stream_books_gen:
  assumes "stream_ok epochEvery V xs" "books_inv V rows" "\<And>v i. stream_book v i evs = stream_book v i rows"
    and "list_all (\<lambda>(rec, bids, asks). RecordType rec = RecordTypeSnapshotPointer \<or> bids = [] \<and> asks = []) xs"
  shows "stream_book v i (evs @ all_events (take n (stream_run epochEvery V xs))) =
    stream_book v i (rows @ map snd (row_events (take n (stream_run epochEvery V xs))))"
  using assms
proof (induction xs arbitrary: V rows evs n)
  case (Cons x xs)
  obtain rec bids asks where x: "x = (rec, bids, asks)" by (cases x)
  let ?v = "V (VenueID rec)" and ?k = "PartitionOf (VenueID rec) (ExchangeTs rec)" and ?row = "item_event (rec, bids, asks)"
  obtain eps v1 where e: "epoch_out rec ?v = (eps, v1)" by fastforce
  obtain v2 where a: "applyToBook rec bids asks v1 = (None, v2)"
    using Cons.prems(1) e by (cases "applyToBook rec bids asks v1") (auto simp: x item_ok_def Let_def)
  let ?v3 = "advance rec ?k epochEvery v2" and ?V = "V(VenueID rec := advance rec ?k epochEvery v2)"
  have st: "venue_step epochEvery x ?v = (eps @ [(?k, FromRow ?row)], ?v3)" using e a by (simp add: x Let_def)
  have run: "stream_run epochEvery V (x # xs) = eps @ (?k, FromRow ?row) # stream_run epochEvery ?V xs"
    using st by (simp add: x del: venue_step.simps)
  have bi: "vsId ?v = VenueID rec" "books.wf (vsBooks ?v)" "list_all book_inv (vsBooks ?v)"
    "\<And>i. book_maps (books.look (vsBooks ?v) i) = stream_book (VenueID rec) i rows"
    using Cons.prems(2) by (simp_all add: books_inv_def)
  obtain es where es: "eps = map (\<lambda>e. (the (vsLast ?v), FromEpoch e)) es"
    "es = [] \<or> es = epoch_events ?v (vsBooks ?v) (vsLastSeq ?v)"
    using e by (cases "epochDue rec ?v") (force simp: epoch_out_def)+
  have v1: "vsBooks v1 = vsBooks ?v" "vsId v1 = vsId ?v"
    using e by (auto simp: epoch_out_def epoch_written_def split: if_splits)
  have eps: "stream_book w j (evs @ all_events (take n eps)) = stream_book w j rows" for w j n
  proof -
    have "fold (book_step w j) (take n es) (stream_book w j rows) = stream_book w j rows"
    proof (rule epochs_change_nothing)
      fix e assume "e \<in> set (take n es)"
      then have "e \<in> set (epoch_events ?v (vsBooks ?v) (vsLastSeq ?v))" using es(2) by (auto dest: in_set_takeD)
      from epoch_events_books [OF bi(2,3) this subset_refl] bi(1,4)
      show "\<exists>rec bids asks. e = EvSnapshot rec bids asks
          \<and> (VenueID rec = w \<and> InstrumentID rec = j \<longrightarrow> (map_of (level_pairs bids), map_of (level_pairs asks)) = stream_book w j rows)"
        by auto
    qed
    moreover have "all_events (take n eps) = take n es" by (simp add: es(1) take_map)
    ultimately show ?thesis using Cons.prems(3) [of w j] by (simp add: stream_book_def)
  qed
  have norows: "row_events (take n eps) = []" for n by (simp add: es(1) take_map)
  show ?case
  proof (cases "n \<le> length eps")
    case True
    then show ?thesis using eps [of v i n] norows [of n] unfolding run by simp
  next
    case False
    then obtain n' where n': "n = length eps + Suc n'" by (metis add_Suc_right less_imp_Suc_add not_le)
    have t: "RecordType rec = RecordTypeSnapshotPointer \<or> bids = [] \<and> asks = []" using Cons.prems(4) by (simp add: x)
    from applyToBook_ok [OF _ _ _ a t, of rows] bi v1
    have ap: "books.wf (vsBooks v2)" "list_all book_inv (vsBooks v2)"
      "\<And>i. book_maps (books.look (vsBooks v2) i) = stream_book (VenueID rec) i (rows @ [?row])" by simp_all
    have id2: "vsId v2 = VenueID rec" using applyToBook_id [of rec bids asks v1] a v1 bi(1) by simp
    have v3: "vsBooks ?v3 = vsBooks v2" "vsId ?v3 = vsId v2" by (simp_all add: advance_def Let_def)
    have other: "stream_book w j (rows @ [?row]) = stream_book w j rows" if "w \<noteq> VenueID rec" for w j
      using that by (simp add: stream_book_snoc)
    have inv: "books_inv ?V (rows @ [?row])"
      using Cons.prems(2) ap v3 id2 other unfolding books_inv_def by (simp del: item_event.simps)
    have same: "stream_book w j (evs @ all_events eps @ [?row]) = stream_book w j (rows @ [?row])" for w j
    proof -
      have "stream_book w j (evs @ all_events eps) = stream_book w j rows" using eps [of w j "length eps"] by simp
      then show ?thesis unfolding append_assoc [symmetric] stream_book_snoc by simp
    qed
    have rest: "stream_ok epochEvery ?V xs" using Cons.prems(1) st by (simp add: x Let_def del: venue_step.simps)
    have "list_all (\<lambda>(rec, bids, asks). RecordType rec = RecordTypeSnapshotPointer \<or> bids = [] \<and> asks = []) xs"
      using Cons.prems(4) by simp
    note Cons.IH [OF rest inv same this, of n']
    moreover have "row_events eps = []" using norows [of "length eps"] by simp
    ultimately show ?thesis unfolding run n' by (simp del: item_event.simps fun_upd_apply)
  qed
qed simp

section \<open>The stream of a conversion\<close>

text \<open>C20: Until a row is refused, the converter writes every row it reads, in order, into the file of its
  venue and day; and the snapshots that it adds between them change nothing for a reader: at every point of
  the stream each instrument's book, rebuilt from all the events, snapshots of epochs included, is the book
  of the rows alone.\<close>

theorem epochs_transparent:
  assumes "stream_ok epochEvery new_venue xs"
    and "list_all (\<lambda>(rec, bids, asks). RecordType rec = RecordTypeSnapshotPointer \<or> bids = [] \<and> asks = []) xs"
  shows "row_events (stream_run epochEvery new_venue xs) =
      map (\<lambda>x. (PartitionOf (VenueID (fst x)) (ExchangeTs (fst x)), item_event x)) xs
    \<and> (let os = take n (stream_run epochEvery new_venue xs)
       in stream_book v i (all_events os) = stream_book v i (map snd (row_events os)))"
  using stream_books_gen [OF assms(1) books_inv_new _ assms(2), of "[]" v i n]
  by (simp add: stream_rows_gen Let_def)

end
