(* ===== verification/Convert_Schema.thy ===== *)
theory Convert_Schema
  imports Prelude
begin

text \<open>
  The check of an archive's schema: \<^verbatim>\<open>src/cmd/convert/schema.go\<close>. A Parquet schema is a tree; the
  names of its types and the canonical schema itself, which the Parquet library derives from the row
  type, are parameters.
\<close>

section \<open>Schemas\<close>

text \<open>A node: whether it is repeated, whether it is optional, and the type of a leaf or the fields of a
  group.\<close>

datatype node =
    LeafNode (node_Repeated: bool) (node_Optional: bool) (node_Type: string)
  | GroupNode (node_Repeated: bool) (node_Optional: bool) (node_fields: "(string \<times> node) list")

type_synonym fields = "(string \<times> node) list"

definition node_Leaf :: "node \<Rightarrow> bool" where
  "node_Leaf n = (case n of LeafNode r opt t \<Rightarrow> True | GroupNode r opt fs \<Rightarrow> False)"

definition node_Fields :: "node \<Rightarrow> fields" where
  "node_Fields n = (case n of LeafNode r opt t \<Rightarrow> [] | GroupNode r opt fs \<Rightarrow> fs)"

lemma node_simps [simp]:
  "node_Leaf (LeafNode r opt t)" "\<not> node_Leaf (GroupNode r opt fs)"
  "node_Fields (LeafNode r opt t) = []" "node_Fields (GroupNode r opt fs) = fs"
  by (simp_all add: node_Leaf_def node_Fields_def)

record SchemaError =
  seColumn :: string
  seWant :: string
  seGot :: string

text \<open>\<^verbatim>\<open>strings.Join\<close>.\<close>

fun strings_Join :: "string list \<Rightarrow> string \<Rightarrow> string" where
  "strings_Join [] sep = []"
| "strings_Join [s] sep = s"
| "strings_Join (s # t # ss) sep = s @ sep @ strings_Join (t # ss) sep"

definition columnPath :: "string list \<Rightarrow> string \<Rightarrow> string" where
  "columnPath path name = strings_Join (if name \<noteq> '''' then path @ [name] else path) ''.''"

definition describeNode :: "node \<Rightarrow> string" where
  "describeNode n =
     (if node_Repeated n then ''repeated '' else if node_Optional n then ''optional '' else ''required '')
     @ (case n of LeafNode r opt t \<Rightarrow> t | GroupNode r opt fs \<Rightarrow> ''group'')"

primrec findField :: "fields \<Rightarrow> string \<Rightarrow> node option" where
  "findField [] name = None"
| "findField (f # fs) name = (if fst f = name then Some (snd f) else findField fs name)"

text \<open>The two loops of \<^verbatim>\<open>checkFields\<close>: over the canonical fields, then over the file's.\<close>

primrec checkAdded :: "string list \<Rightarrow> fields \<Rightarrow> fields \<Rightarrow> SchemaError option" where
  "checkAdded path want [] = None"
| "checkAdded path want (g # gs) =
     (if findField want (fst g) = None
      then Some \<lparr>seColumn = columnPath path (fst g), seWant = ''no such column'', seGot = describeNode (snd g)\<rparr>
      else checkAdded path want gs)"

fun checkField :: "string list \<Rightarrow> node \<Rightarrow> node \<Rightarrow> SchemaError option"
  and checkWanted :: "string list \<Rightarrow> fields \<Rightarrow> fields \<Rightarrow> SchemaError option" where
  "checkField path (LeafNode r opt t) got =
     (let want = LeafNode r opt t; err = \<lparr>seColumn = columnPath path '''', seWant = describeNode want, seGot = describeNode got\<rparr> in
      if node_Repeated want \<noteq> node_Repeated got \<or> node_Optional want \<noteq> node_Optional got \<or> node_Leaf want \<noteq> node_Leaf got
      then Some err
      else if describeNode want \<noteq> describeNode got then Some err
      else None)"
| "checkField path (GroupNode r opt ws) got =
     (let want = GroupNode r opt ws; err = \<lparr>seColumn = columnPath path '''', seWant = describeNode want, seGot = describeNode got\<rparr> in
      if node_Repeated want \<noteq> node_Repeated got \<or> node_Optional want \<noteq> node_Optional got \<or> node_Leaf want \<noteq> node_Leaf got
      then Some err
      else case checkWanted path ws (node_Fields got) of
          Some e \<Rightarrow> Some e
        | None \<Rightarrow> checkAdded path ws (node_Fields got))"
| "checkWanted path [] got = None"
| "checkWanted path ((name, w) # ws) got =
     (case findField got name of
        None \<Rightarrow> Some \<lparr>seColumn = columnPath path name, seWant = describeNode w, seGot = ''missing''\<rparr>
      | Some g \<Rightarrow>
          (case checkField (path @ [name]) w g of
             Some e \<Rightarrow> Some e
           | None \<Rightarrow> checkWanted path ws got))"

definition checkFields :: "string list \<Rightarrow> fields \<Rightarrow> fields \<Rightarrow> SchemaError option" where
  "checkFields path want got =
     (case checkWanted path want got of Some e \<Rightarrow> Some e | None \<Rightarrow> checkAdded path want got)"

definition CheckSourceSchema :: "fields \<Rightarrow> fields \<Rightarrow> SchemaError option" where
  "CheckSourceSchema canonical got = checkFields [] canonical got"

section \<open>The columns of a schema\<close>

text \<open>What a schema says of a column, which a path of names leads to.\<close>

definition node_head :: "node \<Rightarrow> bool \<times> bool \<times> string option" where
  "node_head n = (node_Repeated n, node_Optional n, if node_Leaf n then Some (node_Type n) else None)"

fun column_at :: "fields \<Rightarrow> string list \<Rightarrow> node option" where
  "column_at fs [] = None"
| "column_at fs [n] = map_of fs n"
| "column_at fs (n # m # ns) = (case map_of fs n of None \<Rightarrow> None | Some g \<Rightarrow> column_at (node_Fields g) (m # ns))"

definition head_at :: "fields \<Rightarrow> string list \<Rightarrow> (bool \<times> bool \<times> string option) option" where
  "head_at fs p = map_option node_head (column_at fs p)"

text \<open>Names are used once in each group, and none is empty.\<close>

fun node_wf :: "node \<Rightarrow> bool" and fields_wf :: "fields \<Rightarrow> bool" where
  "node_wf (LeafNode r opt t) = True"
| "node_wf (GroupNode r opt fs) = fields_wf fs"
| "fields_wf [] = True"
| "fields_wf ((n, w) # ws) \<longleftrightarrow> n \<noteq> [] \<and> n \<notin> fst ` set ws \<and> node_wf w \<and> fields_wf ws"

text \<open>A description of one side of an error.\<close>

definition side_of :: "string \<Rightarrow> fields \<Rightarrow> string list \<Rightarrow> string" where
  "side_of none fs p = (case column_at fs p of None \<Rightarrow> none | Some n \<Rightarrow> describeNode n)"

lemma findField_eq: "findField fs n = map_of fs n"
  by (induction fs) auto

lemma column_at_Cons: "p \<noteq> [] \<Longrightarrow> column_at fs (n # p) =
    (case map_of fs n of None \<Rightarrow> None | Some g \<Rightarrow> column_at (node_Fields g) p)"
  by (cases p) auto

lemma column_at_Nil [simp]: "column_at [] p = None"
  by (induction "[] :: fields" p rule: column_at.induct) simp_all

lemma column_at_append: "column_at fs p = Some g \<Longrightarrow> q \<noteq> [] \<Longrightarrow> column_at fs (p @ q) = column_at (node_Fields g) q"
  by (induction fs p rule: column_at.induct) (auto simp: column_at_Cons split: option.splits)

lemma rel_option_parts: "rel_option R x y \<longleftrightarrow> (\<forall>w. x = Some w \<longrightarrow> (\<exists>v. y = Some v \<and> R w v)) \<and> (x = None \<longrightarrow> y = None)"
  by (cases x; cases y) auto

text \<open>Two nodes that describe the same columns.\<close>

definition same_columns :: "fields \<Rightarrow> fields \<Rightarrow> bool" where
  "same_columns fs gs \<longleftrightarrow> (\<forall>p. head_at fs p = head_at gs p)"

lemma node_head_cases:
  "node_head v = node_head w \<longleftrightarrow> node_Repeated v = node_Repeated w \<and> node_Optional v = node_Optional w \<and> node_Leaf v = node_Leaf w
    \<and> (node_Leaf v \<longrightarrow> describeNode v = describeNode w)"
  by (cases v; cases w) (auto simp: node_head_def node_Leaf_def describeNode_def)

lemma same_columns_iff:
  "same_columns fs gs \<longleftrightarrow> (\<forall>n. rel_option (\<lambda>v w. node_head v = node_head w \<and> same_columns (node_Fields v) (node_Fields w))
     (map_of fs n) (map_of gs n))"
proof
  assume s: "same_columns fs gs"
  show "\<forall>n. rel_option (\<lambda>v w. node_head v = node_head w \<and> same_columns (node_Fields v) (node_Fields w)) (map_of fs n) (map_of gs n)"
  proof
    fix n
    have one: "map_option node_head (map_of fs n) = map_option node_head (map_of gs n)"
      using s [unfolded same_columns_def head_at_def, rule_format, of "[n]"] by simp
    have rest: "same_columns (node_Fields v) (node_Fields w)" if "map_of fs n = Some v" "map_of gs n = Some w" for v w
      unfolding same_columns_def
    proof
      fix p
      show "head_at (node_Fields v) p = head_at (node_Fields w) p"
        using s [unfolded same_columns_def head_at_def, rule_format, of "n # p"] that
        by (cases "p = []") (simp_all add: head_at_def column_at_Cons)
    qed
    show "rel_option (\<lambda>v w. node_head v = node_head w \<and> same_columns (node_Fields v) (node_Fields w)) (map_of fs n) (map_of gs n)"
      using one rest by (cases "map_of fs n"; cases "map_of gs n") simp_all
  qed
next
  assume r: "\<forall>n. rel_option (\<lambda>v w. node_head v = node_head w \<and> same_columns (node_Fields v) (node_Fields w)) (map_of fs n) (map_of gs n)"
  show "same_columns fs gs"
    unfolding same_columns_def
  proof
    fix p
    show "head_at fs p = head_at gs p"
    proof (cases p)
      case (Cons n q)
      then show ?thesis using r [rule_format, of n]
        by (cases "q = []"; cases "map_of fs n"; cases "map_of gs n")
          (auto simp: head_at_def column_at_Cons same_columns_def)
    qed (simp add: head_at_def)
  qed
qed

section \<open>The check is exact\<close>

lemma checkAdded_None: "checkAdded path want got = None \<longleftrightarrow> (\<forall>n. map_of want n = None \<longrightarrow> map_of got n = None)"
proof -
  have "checkAdded path want got = None \<longleftrightarrow> (\<forall>n \<in> fst ` set got. map_of want n \<noteq> None)"
    by (induction got) (auto simp: findField_eq)
  also have "\<dots> \<longleftrightarrow> (\<forall>n. map_of want n = None \<longrightarrow> map_of got n = None)"
    unfolding map_of_eq_None_iff [of got] by blast
  finally show ?thesis .
qed

lemma check_None:
  "node_wf w \<Longrightarrow> checkField path w g = None \<longleftrightarrow> node_head w = node_head g \<and> same_columns (node_Fields w) (node_Fields g)"
  "fields_wf ws \<Longrightarrow> checkWanted path ws got = None \<longleftrightarrow>
    (\<forall>n w. map_of ws n = Some w \<longrightarrow> (\<exists>g. map_of got n = Some g \<and> node_head w = node_head g \<and> same_columns (node_Fields w) (node_Fields g)))"
proof (induction path w g and path ws got rule: checkField_checkWanted.induct)
  case (1 path r opt t got)
  have "same_columns (node_Fields (LeafNode r opt t)) (node_Fields got)" if "node_Leaf got"
    using that by (cases got) (simp_all add: same_columns_def node_Fields_def node_Leaf_def)
  then show ?case by (auto simp: Let_def node_head_cases node_Leaf_def)
next
  case (2 path r opt ws got)
  let ?w = "GroupNode r opt ws"
  show ?case
  proof (cases "node_Repeated ?w \<noteq> node_Repeated got \<or> node_Optional ?w \<noteq> node_Optional got \<or> node_Leaf ?w \<noteq> node_Leaf got")
    case True
    then show ?thesis by (auto simp: Let_def node_head_cases)
  next
    case False
    have wanted: "checkWanted path ws (node_Fields got) = None \<longleftrightarrow>
        (\<forall>n w. map_of ws n = Some w \<longrightarrow> (\<exists>g. map_of (node_Fields got) n = Some g \<and> node_head w = node_head g
           \<and> same_columns (node_Fields w) (node_Fields g)))"
      by (rule "2.IH" [OF refl refl]) (use False "2.prems" in \<open>simp_all add: node_Leaf_def\<close>)
    from False have h: "node_head ?w = node_head got" by (simp add: node_head_cases node_Leaf_def)
    have "checkField path ?w got = None \<longleftrightarrow> checkWanted path ws (node_Fields got) = None \<and> checkAdded path ws (node_Fields got) = None"
      using False by (auto simp: Let_def split: option.split)
    also have "\<dots> \<longleftrightarrow> same_columns ws (node_Fields got)"
      unfolding same_columns_iff [of ws] rel_option_parts checkAdded_None wanted by blast
    finally show ?thesis using h by (simp add: node_Fields_def)
  qed
next
  case (4 path name w ws got)
  have nm: "map_of ws name = None" using 4(3) by (simp add: map_of_eq_None_iff image_iff)
  show ?case
  proof (cases "findField got name")
    case None
    then show ?thesis by (auto simp: findField_eq)
  next
    case (Some g)
    let ?P = "\<lambda>n w. \<exists>g. map_of got n = Some g \<and> node_head w = node_head g \<and> same_columns (node_Fields w) (node_Fields g)"
    have all: "(\<forall>n v. map_of ((name, w) # ws) n = Some v \<longrightarrow> ?P n v) \<longleftrightarrow> ?P name w \<and> (\<forall>n v. map_of ws n = Some v \<longrightarrow> ?P n v)"
      using nm by (simp add: all_conj_distrib) (metis option.distinct(1))
    have one: "checkField (path @ [name]) w g = None \<longleftrightarrow> ?P name w"
      using "4.IH"(1) [OF Some] "4.prems" Some by (simp add: findField_eq)
    show ?thesis
    proof (cases "checkField (path @ [name]) w g")
      case None
      then show ?thesis using "4.IH"(2) [OF Some None] "4.prems" one Some unfolding all by simp
    next
      case e: (Some e)
      then show ?thesis using one Some unfolding all by simp
    qed
  qed
qed simp

section \<open>What an error says\<close>

definition blames :: "string list \<Rightarrow> SchemaError \<Rightarrow> fields \<Rightarrow> fields \<Rightarrow> string list \<Rightarrow> bool" where
  "blames path e want got p \<longleftrightarrow> p \<noteq> [] \<and> seColumn e = columnPath (path @ butlast p) (last p)
     \<and> head_at want p \<noteq> head_at got p
     \<and> seWant e = side_of ''no such column'' want p \<and> seGot e = side_of ''missing'' got p"

lemma blames_Cons:
  "blames (path @ [n]) e (node_Fields w) (node_Fields g) p \<Longrightarrow> map_of ws n = Some w \<Longrightarrow> map_of gs n = Some g \<Longrightarrow>
   blames path e ws gs (n # p)"
  by (auto simp: blames_def head_at_def side_of_def column_at_Cons)

lemma blames_tail:
  "blames path e ws gs (m # p) \<Longrightarrow> m \<noteq> n \<Longrightarrow> blames path e ((n, w) # ws) gs (m # p)"
  by (cases "p = []") (auto simp: blames_def head_at_def side_of_def column_at_Cons)

lemma checkAdded_Some: "checkAdded path want gs = Some e \<Longrightarrow> \<exists>n. map_of want n = None \<and> blames path e want gs [n]"
proof (induction gs)
  case (Cons g gs)
  show ?case
  proof (cases "map_of want (fst g)")
    case None
    then have "blames path e want (g # gs) [fst g]"
      using Cons.prems by (cases g) (auto simp: findField_eq blames_def head_at_def side_of_def)
    then show ?thesis using None by blast
  next
    case (Some w)
    then obtain n where n: "map_of want n = None" "blames path e want gs [n]" using Cons by (auto simp: findField_eq)
    then have "fst g \<noteq> n" using Some by auto
    then have "blames path e want (g # gs) [n]" using n(2) by (cases g) (auto simp: blames_def head_at_def side_of_def)
    then show ?thesis using n(1) by blast
  qed
qed simp

lemma check_Some:
  "checkField path w g = Some e \<Longrightarrow> path = p @ [n] \<Longrightarrow> n \<noteq> [] \<Longrightarrow> map_of ws n = Some w \<Longrightarrow> map_of gs n = Some g \<Longrightarrow> node_wf w \<Longrightarrow>
    \<exists>q. blames p e ws gs (n # q)"
  "checkWanted path vs got = Some e \<Longrightarrow> fields_wf vs \<Longrightarrow> \<exists>m q. map_of vs m \<noteq> None \<and> blames path e vs got (m # q)"
proof (induction path w g and path vs got arbitrary: p n ws gs and rule: checkField_checkWanted.induct)
  case (1 path r opt t got)
  then have "blames p e ws gs [n]"
    by (auto simp: Let_def blames_def head_at_def side_of_def columnPath_def node_head_cases split: if_splits)
  then show ?case by blast
next
  case (2 path r opt vs got)
  let ?w = "GroupNode r opt vs"
  show ?case
  proof (cases "node_Repeated ?w \<noteq> node_Repeated got \<or> node_Optional ?w \<noteq> node_Optional got \<or> node_Leaf ?w \<noteq> node_Leaf got")
    case True
    then have "blames p e ws gs [n]"
      using "2.prems" by (auto simp: Let_def blames_def head_at_def side_of_def columnPath_def node_head_cases)
    then show ?thesis by blast
  next
    case False
    have f: "node_Fields ?w = vs" by (simp add: node_Fields_def)
    have "\<exists>q. blames path e vs (node_Fields got) q"
    proof (cases "checkWanted path vs (node_Fields got)")
      case None
      then show ?thesis
        using checkAdded_Some [of path vs "node_Fields got" e] "2.prems"(1) False by (simp add: Let_def) blast
    next
      case (Some e')
      then have "checkWanted path vs (node_Fields got) = Some e"
        using "2.prems"(1) False by (simp add: Let_def)
      from "2.IH" [OF refl refl _ this] False "2.prems"(6) show ?thesis by auto
    qed
    then obtain q where "blames (p @ [n]) e (node_Fields ?w) (node_Fields got) q" using "2.prems"(2) f by auto
    then show ?thesis using blames_Cons "2.prems"(4,5) by blast
  qed
next
  case (4 path name w vs got)
  show ?case
  proof (cases "findField got name")
    case None
    then have "blames path e ((name, w) # vs) got [name]"
      using "4.prems" by (auto simp: findField_eq blames_def head_at_def side_of_def)
    then show ?thesis by (intro exI [of _ name] exI [of _ "[]"]) simp
  next
    case g: (Some g)
    show ?thesis
    proof (cases "checkField (path @ [name]) w g")
      case None
      then have "checkWanted path vs got = Some e" using "4.prems"(1) g by simp
      from "4.IH"(2) [OF g None this] "4.prems"(2) obtain m q where
        mq: "map_of vs m \<noteq> None" "blames path e vs got (m # q)" by auto
      have "m \<noteq> name" using mq(1) "4.prems"(2) by (auto simp: map_of_eq_None_iff)
      then show ?thesis using mq blames_tail [OF mq(2)] by (intro exI [of _ m] exI [of _ q]) simp
    next
      case (Some e')
      then have "checkField (path @ [name]) w g = Some e" using "4.prems"(1) g by simp
      from "4.IH"(1) [OF g this refl, of "(name, w) # vs" got] "4.prems"(2) g
      obtain q where "blames path e ((name, w) # vs) got (name # q)" by (auto simp: findField_eq)
      then show ?thesis by (intro exI [of _ name] exI [of _ q]) simp
    qed
  qed
qed simp

text \<open>C19: The schema check is exact. A file passes it if and only if it has the canonical columns and no others,
  each with the same repetition and the same type, in whatever order the file lists them. Otherwise
  the error names one column in which the two differ and says what the canonical schema and what the
  file has there.\<close>

theorem schema_exact:
  assumes "fields_wf canonical"
  shows "(CheckSourceSchema canonical got = None \<longleftrightarrow> (\<forall>p. head_at got p = head_at canonical p))
    \<and> (case CheckSourceSchema canonical got of
         None \<Rightarrow> True
       | Some e \<Rightarrow> \<exists>p. p \<noteq> [] \<and> seColumn e = columnPath (butlast p) (last p) \<and> head_at got p \<noteq> head_at canonical p
           \<and> seWant e = side_of ''no such column'' canonical p \<and> seGot e = side_of ''missing'' got p)"
proof -
  have "CheckSourceSchema canonical got = None \<longleftrightarrow>
      checkWanted [] canonical got = None \<and> checkAdded [] canonical got = None"
    by (simp add: CheckSourceSchema_def checkFields_def split: option.split)
  then have "CheckSourceSchema canonical got = None \<longleftrightarrow> same_columns canonical got"
    unfolding same_columns_iff [of canonical] rel_option_parts check_None(2) [OF assms] checkAdded_None by blast
  moreover have "\<exists>p. blames [] e canonical got p" if "CheckSourceSchema canonical got = Some e" for e
    using that check_Some(2) [of "[]" canonical got e] checkAdded_Some [of "[]" canonical got e] assms
    by (auto simp: CheckSourceSchema_def checkFields_def split: option.splits)
  ultimately show ?thesis
    by (auto simp: same_columns_def blames_def split: option.split) (metis append_Nil)+
qed

section \<open>An example\<close>

text \<open>Two columns of the row type, one of them the levels; a file that lists them the other way around, and
  one whose prices are unsigned.\<close>

definition sample_schema :: "string \<Rightarrow> fields" where
  "sample_schema price =
     [(''sequence_number'', LeafNode False False ''INT(64,false)''),
      (''levels'', GroupNode True False [(''side'', LeafNode False False ''INT(32,false)''),
         (''price'', LeafNode False False price)])]"

lemma schema_exact_witness:
  "(\<forall>p. head_at (rev (sample_schema ''INT(64,true)'')) p = head_at (sample_schema ''INT(64,true)'') p)
   \<and> CheckSourceSchema (sample_schema ''INT(64,true)'') (sample_schema ''INT(64,false)'') =
       Some \<lparr>seColumn = ''levels.price'', seWant = ''required INT(64,true)'', seGot = ''required INT(64,false)''\<rparr>
   \<and> (\<exists>p. seColumn \<lparr>seColumn = ''levels.price'', seWant = ''required INT(64,true)'', seGot = ''required INT(64,false)''\<rparr>
         = columnPath (butlast p) (last p)
       \<and> head_at (sample_schema ''INT(64,false)'') p \<noteq> head_at (sample_schema ''INT(64,true)'') p)"
proof -
  have wf: "fields_wf (sample_schema ''INT(64,true)'')" by (simp add: sample_schema_def)
  have a: "CheckSourceSchema (sample_schema ''INT(64,true)'') (rev (sample_schema ''INT(64,true)'')) = None"
    by (simp add: sample_schema_def CheckSourceSchema_def checkFields_def describeNode_def Let_def)
  have b: "CheckSourceSchema (sample_schema ''INT(64,true)'') (sample_schema ''INT(64,false)'') =
       Some \<lparr>seColumn = ''levels.price'', seWant = ''required INT(64,true)'', seGot = ''required INT(64,false)''\<rparr>"
    by (simp add: sample_schema_def CheckSourceSchema_def checkFields_def describeNode_def columnPath_def Let_def)
  show ?thesis
    using schema_exact [OF wf, of "rev (sample_schema ''INT(64,true)'')"] a
      schema_exact [OF wf, of "sample_schema ''INT(64,false)''"] b by auto
qed

end
