(* ===== verification/Convert_Run.thy ===== *)
theory Convert_Run
  imports Convert_Stream Convert_Schema Sha256
begin

text \<open>
  The converter: \<^verbatim>\<open>src/cmd/convert/convert.go\<close> and \<^verbatim>\<open>hash.go\<close>, over the model of the store's writer.
  A path of the output directory is the key of its partition, and what is on disk there are the file, the
  writer's sidecar and the hash. Every system call has an outcome from a list of the partition's.
\<close>

section \<open>State\<close>

definition artifactPageSize :: int where "artifactPageSize = 4096"
definition artifactBlockSizeRecords :: u32 where "artifactBlockSizeRecords = 1024"

datatype convert_error =
    RowError (reIndex: nat) (reRow: SourceRow) (reErr: row_error)
  | ConvStore store_error
  | ConvSchema SchemaError
  | ConvSource

record part =
  ptKey :: PartitionKey
  ptW :: Writer
  ptHash :: "bytes option"

type_synonym disk = "PartitionKey \<Rightarrow> OS \<times> bytes option"

record converter =
  cvGetpagesize :: int
  cvPriceScale :: i64
  cvEpochEvery :: int
  cvParts :: "part list"
  cvVenues :: "venueState list"
  cvDisk :: disk

interpretation parts: sorted_slice ptKey "\<lambda>p. key_Compare (ptKey p)"
  by unfold_locales (simp_all add: key_Compare_less key_Compare_eq)

definition find_part :: "PartitionKey \<Rightarrow> part list \<Rightarrow> nat \<times> bool" where
  "find_part key ps = BinarySearchFunc ps (\<lambda>p. key_Compare (ptKey p) key)"

section \<open>Hashes\<close>

text \<open>\<^verbatim>\<open>hex.EncodeToString\<close>, in ASCII.\<close>

definition hex_digit :: "nat \<Rightarrow> u8" where
  "hex_digit d = (if d < 10 then of_nat (48 + d) else of_nat (87 + d))"

definition hex_EncodeToString :: "bytes \<Rightarrow> bytes" where
  "hex_EncodeToString bs = concat (map (\<lambda>b. [hex_digit (unat b div 16), hex_digit (unat b mod 16)]) bs)"

definition hash_content :: "bytes \<Rightarrow> bytes" where
  "hash_content d = hex_EncodeToString (sha256 d) @ [10]"

text \<open>\<^verbatim>\<open>os.WriteFile\<close> on the path of the hash: it opens and truncates, writes and closes.\<close>

definition os_WriteFile :: "bytes \<Rightarrow> part \<Rightarrow> store_error option \<times> part" where
  "os_WriteFile data p =
     (case sys_call (ptW p) of
        (Some e, w) \<Rightarrow> (Some e, p\<lparr>ptW := w\<rparr>)
      | (None, w) \<Rightarrow>
        (case sys_outcome w of
           (Some k, w) \<Rightarrow> (Some ErrIO, p\<lparr>ptW := w, ptHash := Some (take k data)\<rparr>)
         | (None, w) \<Rightarrow>
           (case sys_call w of (err, w) \<Rightarrow> (err, p\<lparr>ptW := w, ptHash := Some data\<rparr>))))"

definition WriteArtifactHash :: "part \<Rightarrow> (store_error + bytes) \<times> part" where
  "WriteArtifactHash p =
     (case sys_call (ptW p) of
        (Some e, w) \<Rightarrow> (Inl e, p\<lparr>ptW := w\<rparr>)
      | (None, w) \<Rightarrow>
        (case osFile w of
           None \<Rightarrow> (Inl ErrIO, p\<lparr>ptW := w\<rparr>)
         | Some d \<Rightarrow>
           (case sys_call w of
              (Some e, w) \<Rightarrow> (Inl e, p\<lparr>ptW := w\<rparr>)
            | (None, w) \<Rightarrow>
              (let digest = hex_EncodeToString (sha256 d) in
               case os_WriteFile (digest @ [10]) (p\<lparr>ptW := w\<rparr>) of
                 (Some e, p) \<Rightarrow> (Inl e, p)
               | (None, p) \<Rightarrow> (Inr digest, p)))))"

section \<open>Rows\<close>

text \<open>\<^verbatim>\<open>partition\<close>: the position of the open file.\<close>

definition converter_partition :: "PartitionKey \<Rightarrow> converter \<Rightarrow> (store_error + nat) \<times> converter" where
  "converter_partition key c =
     (case find_part key (cvParts c) of (i, found) \<Rightarrow>
        if found then (Inr i, c)
        else
          (case NewWriterWithOptions (cvGetpagesize c) (fst (cvDisk c key)) (pkVenueID key) (cvPriceScale c)
                  \<lparr>oPageSize = artifactPageSize, oBlockSizeRecords = artifactBlockSizeRecords\<rparr> of
             Inl (e, os) \<Rightarrow> (Inl e, c\<lparr>cvDisk := (cvDisk c)(key := (os, snd (cvDisk c key)))\<rparr>)
           | Inr w \<Rightarrow> (Inr i, c\<lparr>cvParts := slices_Insert (cvParts c) i \<lparr>ptKey = key, ptW = w, ptHash = snd (cvDisk c key)\<rparr>\<rparr>)))"

definition set_writer :: "nat \<Rightarrow> Writer \<Rightarrow> converter \<Rightarrow> converter" where
  "set_writer i w c = c\<lparr>cvParts := (cvParts c)[i := (cvParts c ! i)\<lparr>ptW := w\<rparr>]\<rparr>"

definition set_venue :: "nat \<Rightarrow> venueState \<Rightarrow> converter \<Rightarrow> converter" where
  "set_venue j v c = c\<lparr>cvVenues := (cvVenues c)[j := v]\<rparr>"

text \<open>The epoch, if one is due, in the venue's last file.\<close>

definition due_epoch :: "Record \<Rightarrow> venueState \<Rightarrow> converter \<Rightarrow> (store_error + venueState) \<times> converter" where
  "due_epoch rec v c =
     (if epochDue rec v then
        let i = fst (find_part (the (vsLast v)) (cvParts c)) in
        case writeEpoch v (ptW (cvParts c ! i)) of (r, w) \<Rightarrow> (r, set_writer i w c)
      else (Inr v, c))"

definition writeRow :: "nat \<Rightarrow> SourceRow \<Rightarrow> converter \<Rightarrow> convert_error option \<times> converter" where
  "writeRow index row c =
     (case recordOf row of
        Inl e \<Rightarrow> (Some (RowError index row e), c)
      | Inr (rec, bids, asks) \<Rightarrow>
        (case find_venue (VenueID rec) (cvVenues c) of (j, vs) \<Rightarrow>
         let c = c\<lparr>cvVenues := vs\<rparr>; v = vs ! j in
         if vsSeen v \<and> sint (ExchangeTs rec) < sint (vsLastTs v)
         then (Some (RowError index row ErrExchangeTsDecreased), c)
         else
          (case due_epoch rec v c of
             (Inl e, c) \<Rightarrow> (Some (ConvStore e), c)
           | (Inr v, c) \<Rightarrow>
             (case converter_partition (PartitionOf (VenueID rec) (ExchangeTs rec)) (set_venue j v c) of
                (Inl e, c) \<Rightarrow> (Some (ConvStore e), c)
              | (Inr i, c) \<Rightarrow>
                (let p = cvParts c ! i in
                 case (if RecordType rec = RecordTypeSnapshotPointer then WriteSnapshot rec bids asks (ptW p)
                       else WriteRecord rec (ptW p)) of
                   (Some e, w) \<Rightarrow> (Some (ConvStore e), set_writer i w c)
                 | (None, w) \<Rightarrow>
                   (case applyToBook rec bids asks v of
                      (Some e, v) \<Rightarrow> (Some (RowError index row (RowBook e)), set_venue j v (set_writer i w c))
                    | (None, v) \<Rightarrow>
                        (None, set_venue j (advance rec (ptKey p) (cvEpochEvery c) v) (set_writer i w c))))))))"

section \<open>Closing and giving up\<close>

primrec close_parts :: "part list \<Rightarrow> store_error option \<times> part list" where
  "close_parts [] = (None, [])"
| "close_parts (p # ps) =
     (case Writer_Close (ptW p) of
        (Some e, w) \<Rightarrow> (Some e, p\<lparr>ptW := w\<rparr> # ps)
      | (None, w) \<Rightarrow>
        (case WriteArtifactHash (p\<lparr>ptW := w\<rparr>) of
           (Inl e, p) \<Rightarrow> (Some e, p # ps)
         | (Inr digest, p) \<Rightarrow> (case close_parts ps of (err, ps) \<Rightarrow> (err, p # ps))))"

definition removeHash :: "part \<Rightarrow> store_error option \<times> part" where
  "removeHash p =
     (if ptHash p = None then (None, p)
      else case sys_call (ptW p) of
          (None, w) \<Rightarrow> (None, p\<lparr>ptW := w, ptHash := None\<rparr>)
        | (Some e, w) \<Rightarrow> (Some e, p\<lparr>ptW := w\<rparr>))"

text \<open>What \<^verbatim>\<open>abort\<close> does of one partition. Every error is dropped.\<close>

definition abort_part :: "part \<Rightarrow> part" where
  "abort_part p = snd (removeHash (p\<lparr>ptW := snd (removeFile (snd (Abort (ptW p))))\<rparr>))"

text \<open>The partitions' files as they are on disk.\<close>

definition sync :: "part list \<Rightarrow> disk \<Rightarrow> disk" where
  "sync ps dsk = fold (\<lambda>p d. d(ptKey p := (OS.truncate (ptW p), ptHash p))) ps dsk"

definition converter_abort :: "converter \<Rightarrow> converter" where
  "converter_abort c = c\<lparr>cvDisk := sync (map abort_part (cvParts c)) (cvDisk c), cvParts := []\<rparr>"

definition converter_close :: "converter \<Rightarrow> (convert_error + PartitionKey list) \<times> converter" where
  "converter_close c =
     (case close_parts (cvParts c) of
        (Some e, ps) \<Rightarrow> (Inl (ConvStore e), converter_abort (c\<lparr>cvParts := ps\<rparr>))
      | (None, ps) \<Rightarrow> (Inr (map ptKey ps), c\<lparr>cvParts := ps, cvDisk := sync ps (cvDisk c)\<rparr>))"

section \<open>The conversion\<close>

primrec write_rows :: "nat \<Rightarrow> SourceRow list \<Rightarrow> converter \<Rightarrow> convert_error option \<times> converter" where
  "write_rows index [] c = (None, c)"
| "write_rows index (row # rows) c =
     (case writeRow index row c of (Some e, c) \<Rightarrow> (Some e, c) | (None, c) \<Rightarrow> write_rows (Suc index) rows c)"

text \<open>
  What the Parquet reader returns from one call after another: rows without an error, or rows with the
  end of the file, \<open>None\<close>, or with another error.
\<close>

datatype reads = MoreRows "SourceRow list" reads | LastRows "SourceRow list" "convert_error option"

primrec convert_loop :: "reads \<Rightarrow> nat \<Rightarrow> converter \<Rightarrow> (convert_error + PartitionKey list) \<times> converter" where
  "convert_loop (MoreRows rows rs) index c =
     (case write_rows index rows c of
        (Some e, c) \<Rightarrow> (Inl e, converter_abort c)
      | (None, c) \<Rightarrow> convert_loop rs (index + length rows) c)"
| "convert_loop (LastRows rows readErr) index c =
     (case write_rows index rows c of
        (Some e, c) \<Rightarrow> (Inl e, converter_abort c)
      | (None, c) \<Rightarrow>
        (case readErr of None \<Rightarrow> converter_close c | Some e \<Rightarrow> (Inl e, converter_abort c)))"

text \<open>An archive: whether it opens and parses as Parquet, its columns, whether it opens again, and the reads
  of its rows.\<close>

record archive =
  arErr :: "convert_error option"
  arFields :: fields
  arReopen :: "convert_error option"
  arReads :: reads

record ConvertOptions =
  coPriceScale :: i64
  coEpochEvery :: int

definition CheckSourceFile :: "fields \<Rightarrow> archive \<Rightarrow> convert_error option" where
  "CheckSourceFile canonical src =
     (case arErr src of
        Some e \<Rightarrow> Some e
      | None \<Rightarrow> map_option ConvSchema (CheckSourceSchema canonical (arFields src)))"

definition Convert ::
    "fields \<Rightarrow> int \<Rightarrow> archive \<Rightarrow> disk \<Rightarrow> ConvertOptions \<Rightarrow> (convert_error + PartitionKey list) \<times> disk" where
  "Convert canonical os_Getpagesize src outDir opts =
     (let every = (if coEpochEvery opts = 0 then DefaultEpochEvery else coEpochEvery opts) in
      case CheckSourceFile canonical src of
        Some e \<Rightarrow> (Inl e, outDir)
      | None \<Rightarrow>
        (case arReopen src of Some e \<Rightarrow> (Inl e, outDir) | None \<Rightarrow>
         case convert_loop (arReads src) 0
                \<lparr>cvGetpagesize = os_Getpagesize, cvPriceScale = coPriceScale opts, cvEpochEvery = every,
                 cvParts = [], cvVenues = [], cvDisk = outDir\<rparr> of
           (r, c) \<Rightarrow> (r, cvDisk c)))"

end
