(* ===== verification/Convert_Correct.thy ===== *)
theory Convert_Correct
  imports Convert_Run
begin

text \<open>
  The converter is correct: if it succeeds, the output is one finished file per venue and day, each with
  exactly its part of the stream and with its hash; if it fails, nothing is left behind; and it succeeds
  on every archive whose stream the store accepts.
\<close>

section \<open>The open files\<close>

definition artifact_header :: "i64 \<Rightarrow> PartitionKey \<Rightarrow> header" where
  "artifact_header scale key = new_header (pkVenueID key) scale 4096 1024"

definition events_for :: "PartitionKey \<Rightarrow> (PartitionKey \<times> out) list \<Rightarrow> event list" where
  "events_for key os = all_events (filter (\<lambda>(k, y). k = key) os)"

text \<open>Each open file's writer has taken the events \<open>E\<close> of its key; the rest of the disk is as it was.\<close>

definition parts_inv :: "i64 \<Rightarrow> disk \<Rightarrow> (PartitionKey \<Rightarrow> event list) \<Rightarrow> part list \<Rightarrow> disk \<Rightarrow> bool" where
  "parts_inv scale outDir E ps dsk \<longleftrightarrow> parts.wf ps
     \<and> (\<forall>p \<in> set ps. writer_inv (artifact_header scale (ptKey p)) (E (ptKey p)) (ptW p))
     \<and> (\<forall>k. k \<notin> ptKey ` set ps \<longrightarrow> E k = [] \<and> dsk k = outDir k)"

text \<open>No system call has failed and none will.\<close>

definition parts_fine :: "disk \<Rightarrow> part list \<Rightarrow> disk \<Rightarrow> bool" where
  "parts_fine outDir ps dsk \<longleftrightarrow> parts.wf ps
     \<and> (\<forall>p \<in> set ps. osIO (ptW p) = [] \<and> osFile (fst (outDir (ptKey p))) = None)
     \<and> (\<forall>k. osIO (fst (outDir k)) = [] \<and> (k \<notin> ptKey ` set ps \<longrightarrow> dsk k = outDir k))"

lemma headerSizeFor_artifact: "headerSizeFor 4096 = Inr 4096"
  by (simp add: headerSizeFor_def headerFieldsSize_def header_bounds go_quot_def wrap64_def maxInt_def)

lemma artifact_writer:
  "NewWriterWithOptions page os v scale \<lparr>oPageSize = artifactPageSize, oBlockSizeRecords = artifactBlockSizeRecords\<rparr> =
   newWriter os v scale \<lparr>pageSize = 4096, blockSizeRecords = 1024\<rparr>"
  by (simp add: NewWriterWithOptions_def defaultWriterOptions_def artifactPageSize_def artifactBlockSizeRecords_def Let_def)

lemma artifact_writer_inv:
  assumes "newWriter os (pkVenueID key) scale \<lparr>pageSize = 4096, blockSizeRecords = 1024\<rparr> = Inr w"
  shows "writer_inv (artifact_header scale key) [] w"
proof -
  obtain hs where i: "writer_inv (new_header (pkVenueID key) scale hs 1024) [] w"
    using newWriter_inv [OF assms] by (auto simp: maxInt_def)
  moreover have "hs = 4096"
  proof -
    obtain hs' os' w1 where "headerSizeFor 4096 = Inr hs'" "w = w1\<lparr>wPos := ucast hs'\<rparr>"
        "bwWrite (replicate (unat hs') 0) (freshWriter os' (pkVenueID key) scale \<lparr>pageSize = 4096, blockSizeRecords = 1024\<rparr> hs') = (None, w1)"
      using newWriter_InrD(4) [OF assms] by auto
    moreover from this have "hHeaderSize (wHdr w) = 4096"
      using bwWrite_None [OF freshWriter_sel(1)] by (fastforce simp: headerSizeFor_artifact new_header_def)
    moreover have "hHeaderSize (wHdr w) = hs" using i by (simp add: writer_inv_def rec_inv_def new_header_def)
    ultimately show ?thesis by simp
  qed
  ultimately show ?thesis by (simp add: artifact_header_def)
qed

lemma artifact_fine:
  assumes "0 < sint scale" "osFile os = None" "osIO os = []"
  shows "\<exists>w. newWriter os v scale \<lparr>pageSize = 4096, blockSizeRecords = 1024\<rparr> = Inr w \<and> osIO w = []"
  by (rule newWriter_fine [where hs = 4096]) (simp_all add: assms headerSizeFor_artifact)

lemma newWriter_free: "newWriter os v scale opts = Inr w \<Longrightarrow> osFile os = None"
  by (rule ccontr) (simp add: newWriter_def split: if_splits sum.splits)

lemma keys_update: "map ptKey (ps[i := (ps ! i)\<lparr>ptW := w\<rparr>]) = map ptKey ps"
proof -
  have "ptKey ((ps ! i)\<lparr>ptW := w\<rparr>) = ptKey (ps ! i)" by simp
  then show ?thesis by (metis list_update_id map_update)
qed

lemma parts_update:
  assumes "parts_inv scale outDir E ps dsk" "i < length ps" "ptKey (ps ! i) = k"
    and "writer_inv (artifact_header scale k) es w"
  shows "parts_inv scale outDir (E(k := es)) (ps[i := (ps ! i)\<lparr>ptW := w\<rparr>]) dsk"
    "ptKey ` set (ps[i := (ps ! i)\<lparr>ptW := w\<rparr>]) = ptKey ` set ps"
proof -
  let ?p = "(ps ! i)\<lparr>ptW := w\<rparr>" and ?qs = "ps[i := (ps ! i)\<lparr>ptW := w\<rparr>]"
  have wf: "parts.wf ps" using assms(1) by (simp add: parts_inv_def)
  show keys: "ptKey ` set ?qs = ptKey ` set ps" using keys_update by (metis list.set_map)
  have "k \<in> ptKey ` set ps" using assms(2,3) by force
  moreover have "p \<in> set ?qs \<Longrightarrow> p = ?p \<or> (p \<in> set ps \<and> ptKey p \<noteq> k)" for p
    using parts.wf_less [OF wf] assms(2,3) unfolding in_set_conv_nth
    by (metis length_list_update less_irrefl linorder_neqE_nat nth_list_update_eq nth_list_update_neq)
  ultimately have "writer_inv (artifact_header scale (ptKey p)) ((E(k := es)) (ptKey p)) (ptW p)" if "p \<in> set ?qs" for p
    using that assms(1,3,4) unfolding parts_inv_def by fastforce
  moreover have "k \<in> ptKey ` set ps" using assms(2,3) by force
  ultimately show "parts_inv scale outDir (E(k := es)) ?qs dsk"
    using assms(1,3) parts.wf_update [OF wf, of ?p i] keys unfolding parts_inv_def by auto
qed

lemma fine_update:
  assumes "parts_fine outDir ps dsk" "i < length ps" "osIO w = []"
  shows "parts_fine outDir (ps[i := (ps ! i)\<lparr>ptW := w\<rparr>]) dsk"
proof -
  let ?p = "(ps ! i)\<lparr>ptW := w\<rparr>" and ?qs = "ps[i := (ps ! i)\<lparr>ptW := w\<rparr>]"
  have keys: "ptKey ` set ?qs = ptKey ` set ps" using keys_update by (metis list.set_map)
  have "osIO (ptW p) = [] \<and> osFile (fst (outDir (ptKey p))) = None" if "p \<in> set ?qs" for p
    using that assms set_update_subset_insert [of ps i ?p] nth_mem [OF assms(2)] by (auto simp: parts_fine_def)
  then show ?thesis
    using assms parts.wf_update [of ps ?p i] keys unfolding parts_fine_def by auto
qed

text \<open>Opening a file.\<close>

lemma converter_partition_Inr:
  assumes "parts_inv scale outDir E (cvParts c) (cvDisk c)" "cvPriceScale c = scale" "converter_partition key c = (Inr i, c')"
  shows "parts_inv scale outDir E (cvParts c') (cvDisk c')" "i < length (cvParts c')" "ptKey (cvParts c' ! i) = key"
    "ptKey ` set (cvParts c') = insert key (ptKey ` set (cvParts c))" "c' = c\<lparr>cvParts := cvParts c'\<rparr>"
    "parts_fine outDir (cvParts c) (cvDisk c) \<Longrightarrow> parts_fine outDir (cvParts c') (cvDisk c')"
proof -
  have wf: "parts.wf (cvParts c)" using assms(1) by (simp add: parts_inv_def)
  obtain j found where b: "find_part key (cvParts c) = (j, found)" by fastforce
  note s = parts.search_ok [OF wf b [unfolded find_part_def]]
  have "parts_inv scale outDir E (cvParts c') (cvDisk c') \<and> i < length (cvParts c') \<and> ptKey (cvParts c' ! i) = key
    \<and> ptKey ` set (cvParts c') = insert key (ptKey ` set (cvParts c)) \<and> c' = c\<lparr>cvParts := cvParts c'\<rparr>
    \<and> (parts_fine outDir (cvParts c) (cvDisk c) \<longrightarrow> parts_fine outDir (cvParts c') (cvDisk c'))"
  proof (cases found)
    case True
    then have "c' = c" "i = j" using assms(3) b by (simp_all add: converter_partition_def)
    moreover have "i < length (cvParts c)" "ptKey (cvParts c ! i) = key" using s(4) True \<open>i = j\<close> by simp_all
    moreover from this have "key \<in> ptKey ` set (cvParts c)" by force
    ultimately show ?thesis using assms(1) by (simp add: insert_absorb)
  next
    case False
    let ?new = "newWriter (fst (cvDisk c key)) (pkVenueID key) (cvPriceScale c) \<lparr>pageSize = 4096, blockSizeRecords = 1024\<rparr>"
    obtain w where w: "?new = Inr w"
      using assms(3) False b unfolding converter_partition_def artifact_writer by (cases ?new) (simp_all add: case_prod_unfold)
    then have c': "c' = c\<lparr>cvParts := slices_Insert (cvParts c) i \<lparr>ptKey = key, ptW = w, ptHash = snd (cvDisk c key)\<rparr>\<rparr>" "i = j"
      using assms(3) False b by (auto simp: converter_partition_def artifact_writer)
    let ?p = "\<lparr>ptKey = key, ptW = w, ptHash = snd (cvDisk c key)\<rparr>"
    have "BinarySearchFunc (cvParts c) (\<lambda>p. key_Compare (ptKey p) key) = (i, False)"
      using b False c'(2) by (simp add: find_part_def)
    note ins = parts.insert_ok [OF wf this, of ?p, simplified]
    have fresh: "key \<notin> ptKey ` set (cvParts c)" using s(5) False parts.slot_None_iff by blast
    then have E: "E key = []" "cvDisk c key = outDir key" using assms(1) by (simp_all add: parts_inv_def)
    have "parts_inv scale outDir E (slices_Insert (cvParts c) i ?p) (cvDisk c)"
      using assms(1,2) ins(1,5) artifact_writer_inv [OF w] E by (simp add: parts_inv_def)
    moreover have "parts_fine outDir (slices_Insert (cvParts c) i ?p) (cvDisk c)" if f: "parts_fine outDir (cvParts c) (cvDisk c)"
    proof -
      have "osIO (fst (outDir key)) = []" using f by (simp add: parts_fine_def)
      moreover have "osFile (fst (outDir key)) = None"
        using newWriter_free [OF w] E(2) by simp
      moreover have "osIO w = []"
        using artifact_fine [OF newWriter_InrD(1) [OF w], of "fst (outDir key)" "pkVenueID key"] w calculation unfolding E(2)
        by (metis sum.inject(2))
      ultimately show ?thesis using f ins(1,5) by (simp add: parts_fine_def)
    qed
    ultimately show ?thesis using ins(3-5) c' by simp
  qed
  then show "parts_inv scale outDir E (cvParts c') (cvDisk c')" "i < length (cvParts c')" "ptKey (cvParts c' ! i) = key"
    "ptKey ` set (cvParts c') = insert key (ptKey ` set (cvParts c))" "c' = c\<lparr>cvParts := cvParts c'\<rparr>"
    "parts_fine outDir (cvParts c) (cvDisk c) \<Longrightarrow> parts_fine outDir (cvParts c') (cvDisk c')" by blast+
qed

lemma converter_partition_Inl:
  assumes "parts_fine outDir (cvParts c) (cvDisk c)" "converter_partition key c = (Inl e, c')"
  shows "c' = c" "sint (cvPriceScale c) \<le> 0 \<or> osFile (fst (outDir key)) \<noteq> None"
proof -
  have wf: "parts.wf (cvParts c)" using assms(1) by (simp add: parts_fine_def)
  obtain j found where b: "find_part key (cvParts c) = (j, found)" by fastforce
  note s = parts.search_ok [OF wf b [unfolded find_part_def]]
  let ?new = "newWriter (fst (cvDisk c key)) (pkVenueID key) (cvPriceScale c) \<lparr>pageSize = 4096, blockSizeRecords = 1024\<rparr>"
  have nf: "\<not> found" using assms(2) b by (cases found) (simp_all add: converter_partition_def)
  obtain os where n: "?new = Inl (e, os)"
    using assms(2) nf b unfolding converter_partition_def artifact_writer by (cases ?new) (auto simp: case_prod_unfold)
  then have c': "c' = c\<lparr>cvDisk := (cvDisk c)(key := (os, snd (cvDisk c key)))\<rparr>"
    using assms(2) nf b by (simp add: converter_partition_def artifact_writer)
  have "key \<notin> ptKey ` set (cvParts c)" using s(5) nf parts.slot_None_iff by blast
  then have d: "cvDisk c key = outDir key" "osIO (fst (outDir key)) = []" using assms(1) by (simp_all add: parts_fine_def)
  show bad: "sint (cvPriceScale c) \<le> 0 \<or> osFile (fst (outDir key)) \<noteq> None"
  proof (rule ccontr)
    assume "\<not> ?thesis"
    then have "0 < sint (cvPriceScale c)" "osFile (fst (outDir key)) = None" by simp_all
    from artifact_fine [OF this d(2), of "pkVenueID key"] n show False unfolding d(1) by (metis sum.distinct(1))
  qed
  have "os = fst (cvDisk c key)"
  proof (cases "sint (cvPriceScale c) \<le> 0")
    case False
    then have "osFile (fst (outDir key)) \<noteq> None" using bad by blast
    then show ?thesis using n d False by (auto simp: newWriter_def headerSizeFor_artifact split: if_splits)
  qed (use n in \<open>simp add: newWriter_def\<close>)
  then show "c' = c" using c' by simp
qed

section \<open>One row\<close>

lemma events_for_simps [simp]:
  "events_for key [] = []" "events_for key (xs @ ys) = events_for key xs @ events_for key ys"
  "events_for key ((k, y) # os) = (if k = key then out_event y # events_for key os else events_for key os)"
  "events_for key (map (\<lambda>e. (k, FromEpoch e)) es) = (if k = key then es else [])"
  by (simp_all add: events_for_def comp_def filter_map filter_empty_conv)

text \<open>A run of events that the store accepts, all of them.\<close>

primrec all_acceptable :: "u16 \<Rightarrow> event list \<Rightarrow> event list \<Rightarrow> bool" where
  "all_acceptable venue evs [] = True"
| "all_acceptable venue evs (e # es) = (acceptable venue evs e \<and> all_acceptable venue (evs @ [e]) es)"

lemma all_acceptable_append [simp]:
  "all_acceptable venue evs (xs @ ys) = (all_acceptable venue evs xs \<and> all_acceptable venue (evs @ xs) ys)"
  by (induction xs arbitrary: evs) simp_all

lemma writeEpoch_loop_fine:
  "writer_inv h evs w \<Longrightarrow> osIO w = [] \<Longrightarrow> osIO (snd (writeEpoch_loop v bs seq w)) = []
    \<and> (all_acceptable (hVenueID h) evs (epoch_events v bs seq) \<longrightarrow> (\<exists>seq'. fst (writeEpoch_loop v bs seq w) = Inr seq'))"
proof (induction bs arbitrary: seq evs w)
  case (Cons b bs)
  let ?e = "EvSnapshot (epoch_record v (seq + 1) b) (Bids b) (Asks b)"
  obtain err w1 where o: "offer ?e w = (err, w1)" "osIO w1 = []" "err = None \<longleftrightarrow> acceptable (hVenueID h) evs ?e"
      "writer_inv h (if err = None then evs @ [?e] else evs) w1"
    using offer_fine [OF Cons.prems] by blast
  show ?case
  proof (cases err)
    case None
    then show ?thesis using Cons.IH [of "evs @ [?e]" w1 "seq + 1"] o by (simp add: Let_def)
  next
    case (Some e)
    then show ?thesis using o by (simp add: Let_def)
  qed
qed simp

section \<open>The converter's state\<close>

definition conv_inv ::
    "int \<Rightarrow> i64 \<Rightarrow> disk \<Rightarrow> (u16 \<Rightarrow> venueState) \<Rightarrow> (PartitionKey \<times> out) list \<Rightarrow> converter \<Rightarrow> bool" where
  "conv_inv every scale outDir V seq c \<longleftrightarrow> cvEpochEvery c = every \<and> cvPriceScale c = scale
     \<and> parts_inv scale outDir (\<lambda>k. events_for k seq) (cvParts c) (cvDisk c)
     \<and> venues.wf (cvVenues c) \<and> venues.look (cvVenues c) = V
     \<and> (\<forall>v. vsId (V v) = v \<and> (vsPending (V v) \<longrightarrow> vsLast (V v) \<noteq> None)
         \<and> (\<forall>k. vsLast (V v) = Some k \<longrightarrow> k \<in> ptKey ` set (cvParts c)))"

abbreviation conv_fine :: "disk \<Rightarrow> converter \<Rightarrow> bool" where
  "conv_fine outDir c \<equiv> parts_fine outDir (cvParts c) (cvDisk c)"

lemma find_part_ok:
  "parts.wf ps \<Longrightarrow> k \<in> ptKey ` set ps \<Longrightarrow> fst (find_part k ps) < length ps \<and> ptKey (ps ! fst (find_part k ps)) = k"
proof -
  assume a: "parts.wf ps" "k \<in> ptKey ` set ps"
  obtain i found where b: "BinarySearchFunc ps (\<lambda>p. key_Compare (ptKey p) k) = (i, found)" by fastforce
  have "found" using parts.search_ok(5) [OF a(1) b] parts.slot_None_iff [of ps k] a(2) by blast
  then show ?thesis using parts.search_ok(4) [OF a(1) b] b by (simp add: find_part_def)
qed

text \<open>The epoch before a row.\<close>

lemma due_epoch_ok:
  assumes p: "parts_inv scale outDir (\<lambda>k. events_for k seq) (cvParts c) (cvDisk c)"
    and l: "vsPending v \<longrightarrow> vsLast v \<noteq> None" "\<And>k. vsLast v = Some k \<Longrightarrow> k \<in> ptKey ` set (cvParts c)"
    and r: "due_epoch rec v c = (r, c')"
  shows "\<exists>ps. c' = c\<lparr>cvParts := ps\<rparr> \<and> ptKey ` set ps = ptKey ` set (cvParts c)
      \<and> (\<forall>v'. r = Inr v' \<longrightarrow> v' = snd (epoch_out rec v)
          \<and> parts_inv scale outDir (\<lambda>k. events_for k (seq @ fst (epoch_out rec v))) ps (cvDisk c))
      \<and> (conv_fine outDir c \<longrightarrow> parts_fine outDir ps (cvDisk c)
          \<and> ((\<forall>k. all_acceptable (pkVenueID k) (events_for k seq) (events_for k (fst (epoch_out rec v)))) \<longrightarrow> (\<exists>v'. r = Inr v')))"
proof (cases "epochDue rec v")
  case False
  then show ?thesis using p r by (intro exI [of _ "cvParts c"]) (auto simp: due_epoch_def epoch_out_def)
next
  case True
  then obtain k where k: "vsLast v = Some k" using l(1) by (auto simp: epochDue_def)
  have wf: "parts.wf (cvParts c)" using p by (simp add: parts_inv_def)
  define i where "i = fst (find_part k (cvParts c))"
  have i: "i < length (cvParts c)" "ptKey (cvParts c ! i) = k"
    using find_part_ok [OF wf l(2) [OF k]] by (simp_all add: i_def)
  let ?w = "ptW (cvParts c ! i)" and ?h = "artifact_header scale k"
  let ?es = "epoch_events v (vsBooks v) (vsLastSeq v)"
  obtain r1 w1 where loop: "writeEpoch_loop v (vsBooks v) (vsLastSeq v) ?w = (r1, w1)" by fastforce
  have inv: "writer_inv ?h (events_for k seq) ?w" using p i nth_mem [OF i(1)] unfolding parts_inv_def by metis
  let ?ps = "(cvParts c)[i := (cvParts c ! i)\<lparr>ptW := w1\<rparr>]"
  have c': "c' = c\<lparr>cvParts := ?ps\<rparr>" and rr: "r = map_sum id (\<lambda>seq. epoch_written seq v) r1"
    using r True k loop by (auto simp: due_epoch_def i_def writeEpoch_def set_writer_def Let_def split: sum.splits)
  have eo: "fst (epoch_out rec v) = map (\<lambda>e. (k, FromEpoch e)) ?es"
      "snd (epoch_out rec v) = epoch_written (vsLastSeq v + of_nat (length (vsBooks v))) v"
    using True k by (simp_all add: epoch_out_def)
  have keys: "ptKey ` set ?ps = ptKey ` set (cvParts c)" using keys_update by (metis list.set_map)
  have ok: "v' = snd (epoch_out rec v) \<and> parts_inv scale outDir (\<lambda>k. events_for k (seq @ fst (epoch_out rec v))) ?ps (cvDisk c)"
    if rv: "r = Inr v'" for v'
  proof -
    obtain s where s: "r1 = Inr s" "v' = epoch_written s v" using rv rr by (cases r1) auto
    note wl = writeEpoch_loop_ok [OF inv loop [unfolded s(1)]]
    have "(\<lambda>k. events_for k (seq @ fst (epoch_out rec v))) = (\<lambda>k. events_for k seq)(k := events_for k seq @ ?es)"
      unfolding eo(1) by (simp add: fun_eq_iff)
    then show ?thesis using parts_update(1) [OF p i wl [THEN conjunct1]] wl s eo(2) by simp
  qed
  have fine: "parts_fine outDir ?ps (cvDisk c)" if "conv_fine outDir c"
    using that writeEpoch_loop_fine [OF inv, of v "vsBooks v" "vsLastSeq v"] i loop nth_mem [OF i(1)]
    by (intro fine_update) (simp_all add: parts_fine_def)
  have live: "\<exists>v'. r = Inr v'" if "conv_fine outDir c"
    "\<forall>k. all_acceptable (pkVenueID k) (events_for k seq) (events_for k (fst (epoch_out rec v)))"
  proof -
    have "all_acceptable (pkVenueID k) (events_for k seq) ?es" using that(2) [rule_format, of k] by (simp add: eo(1))
    moreover have "osIO ?w = []" using that(1) nth_mem [OF i(1)] by (simp add: parts_fine_def)
    ultimately show ?thesis
      using writeEpoch_loop_fine [OF inv, of v "vsBooks v" "vsLastSeq v"] loop rr by (auto simp: artifact_header_def new_header_def)
  qed
  show ?thesis using c' keys ok fine live by blast
qed

text \<open>The write of the row itself.\<close>

lemma write_is_offer:
  "(if RecordType rec = RecordTypeSnapshotPointer then WriteSnapshot rec bids asks w else WriteRecord rec w) =
   offer (item_event (rec, bids, asks)) w"
  by simp

lemma row_write_ok:
  assumes p: "parts_inv scale outDir E ps dsk" and i: "i < length ps" "ptKey (ps ! i) = k"
    and o: "offer e (ptW (ps ! i)) = (err, w)"
  shows "err = None \<Longrightarrow> parts_inv scale outDir (E(k := E k @ [e])) (ps[i := (ps ! i)\<lparr>ptW := w\<rparr>]) dsk"
    "parts_fine outDir ps dsk \<Longrightarrow> parts_fine outDir (ps[i := (ps ! i)\<lparr>ptW := w\<rparr>]) dsk
       \<and> (acceptable (pkVenueID k) (E k) e \<longrightarrow> err = None)"
proof -
  have inv: "writer_inv (artifact_header scale k) (E k) (ptW (ps ! i))"
    using p i nth_mem [OF i(1)] unfolding parts_inv_def by metis
  show "parts_inv scale outDir (E(k := E k @ [e])) (ps[i := (ps ! i)\<lparr>ptW := w\<rparr>]) dsk" if "err = None"
    using offer_step [OF inv o] that parts_update(1) [OF p i] by simp
  show "parts_fine outDir (ps[i := (ps ! i)\<lparr>ptW := w\<rparr>]) dsk \<and> (acceptable (pkVenueID k) (E k) e \<longrightarrow> err = None)"
    if f: "parts_fine outDir ps dsk"
  proof -
    have "osIO (ptW (ps ! i)) = []" using f nth_mem [OF i(1)] by (simp add: parts_fine_def)
    from offer_fine [OF inv this, of e] o
    have "osIO w = []" "err = None \<longleftrightarrow> acceptable (pkVenueID k) (E k) e" by (simp_all add: artifact_header_def new_header_def)
    then show ?thesis using fine_update [OF f i(1)] by simp
  qed
qed

text \<open>The row is accepted and the state advances by \<open>venue_step\<close>, or an error is returned.\<close>

lemma writeRow_ok:
  assumes c: "conv_inv every scale outDir V seq c" and r: "writeRow index row c = (err, c')"
  shows "(err = None \<longrightarrow> (\<exists>x. recordOf row = Inr x \<and> item_ok x (V (VenueID (fst x)))
            \<and> (let (os, v) = venue_step every x (V (VenueID (fst x))) in
               conv_inv every scale outDir (V(VenueID (fst x) := v)) (seq @ os) c'
               \<and> ptKey ` set (cvParts c') = insert (PartitionOf (VenueID (fst x)) (ExchangeTs (fst x))) (ptKey ` set (cvParts c)))))
    \<and> (conv_fine outDir c \<longrightarrow> conv_fine outDir c'
        \<and> (\<forall>x. recordOf row = Inr x \<and> item_ok x (V (VenueID (fst x)))
            \<and> 0 < sint scale \<and> osFile (fst (outDir (PartitionOf (VenueID (fst x)) (ExchangeTs (fst x))))) = None
            \<and> (\<forall>k. all_acceptable (pkVenueID k) (events_for k seq) (events_for k (fst (venue_step every x (V (VenueID (fst x)))))))
            \<longrightarrow> err = None))"
proof (cases "recordOf row")
  case (Inl e)
  then show ?thesis using r by (auto simp: writeRow_def)
next
  case (Inr x)
  obtain rec bids asks where x: "x = (rec, bids, asks)" by (cases x)
  let ?key = "PartitionOf (VenueID rec) (ExchangeTs rec)" and ?v = "V (VenueID rec)" and ?ev = "item_event (rec, bids, asks)"
  obtain j vs where j: "find_venue (VenueID rec) (cvVenues c) = (j, vs)" by fastforce
  have ci: "cvEpochEvery c = every" "cvPriceScale c = scale" "parts_inv scale outDir (\<lambda>k. events_for k seq) (cvParts c) (cvDisk c)"
    "venues.wf (cvVenues c)" "venues.look (cvVenues c) = V"
    "\<And>v. vsId (V v) = v" "\<And>v. vsPending (V v) \<Longrightarrow> vsLast (V v) \<noteq> None" "\<And>v k. vsLast (V v) = Some k \<Longrightarrow> k \<in> ptKey ` set (cvParts c)"
    using c by (simp_all add: conv_inv_def)
  note vo = venues.find_or_insert_ok [OF ci(4) j [unfolded find_venue_def]]
  have v: "vs ! j = ?v" using vo(4) ci(5) by simp
  let ?c1 = "c\<lparr>cvVenues := vs\<rparr>"
  show ?thesis
  proof (cases "vsSeen ?v \<and> sint (ExchangeTs rec) < sint (vsLastTs ?v)")
    case True
    then have "err = Some (RowError index row ErrExchangeTsDecreased)" "c' = ?c1"
      using r by (simp_all add: writeRow_def Inr x j v Let_def)
    then show ?thesis using True by (auto simp: Inr x item_ok_def)
  next
    case ts: False
    obtain r2 c2 where d: "due_epoch rec ?v ?c1 = (r2, c2)" by fastforce
    obtain ps where ps: "c2 = ?c1\<lparr>cvParts := ps\<rparr>" "ptKey ` set ps = ptKey ` set (cvParts c)"
      "\<And>v'. r2 = Inr v' \<Longrightarrow> v' = snd (epoch_out rec ?v)
          \<and> parts_inv scale outDir (\<lambda>k. events_for k (seq @ fst (epoch_out rec ?v))) ps (cvDisk c)"
      "conv_fine outDir c \<Longrightarrow> parts_fine outDir ps (cvDisk c)"
      "conv_fine outDir c \<Longrightarrow> \<forall>k. all_acceptable (pkVenueID k) (events_for k seq) (events_for k (fst (epoch_out rec ?v))) \<Longrightarrow> \<exists>v'. r2 = Inr v'"
      using due_epoch_ok [OF _ _ _ d, of scale outDir seq] ci(3,7,8) by auto
    show ?thesis
    proof (cases r2)
      case (Inl e)
      then have "err = Some (ConvStore e)" "c' = c2"
        using r ts d by (simp_all add: writeRow_def \<open>recordOf row = Inr x\<close> x j v Let_def)
      then show ?thesis
        using ps Inl by (fastforce simp: \<open>recordOf row = Inr x\<close> x Let_def case_prod_unfold)
    next
      case v1: (Inr v1)
      note p1 = ps(3) [OF v1]
      let ?seq1 = "seq @ fst (epoch_out rec ?v)" and ?c3 = "set_venue j v1 c2"
      obtain r3 c4 where q: "converter_partition ?key ?c3 = (r3, c4)" by fastforce
      have c3: "cvParts ?c3 = ps" "cvDisk ?c3 = cvDisk c" "cvPriceScale ?c3 = scale" "cvEpochEvery ?c3 = every" "cvVenues ?c3 = vs[j := v1]"
        using ps(1) ci(1,2) by (simp_all add: set_venue_def)
      show ?thesis
      proof (cases r3)
        case (Inl e)
        then have e: "err = Some (ConvStore e)" "c' = c4"
          using r ts d v1 q by (simp_all add: writeRow_def \<open>recordOf row = Inr x\<close> x j v Let_def)
        have "conv_fine outDir c4 \<and> (sint scale \<le> 0 \<or> osFile (fst (outDir ?key)) \<noteq> None)" if "conv_fine outDir c"
          using converter_partition_Inl [of outDir ?c3 ?key e c4] q Inl ps(4) [OF that] c3 by simp
        then show ?thesis using e by (auto simp: \<open>recordOf row = Inr x\<close> x)
      next
        case i: (Inr i)
        note po = converter_partition_Inr [OF _ _ q [unfolded i], of scale outDir "\<lambda>k. events_for k ?seq1", unfolded c3, OF p1 [THEN conjunct2] refl]
        obtain err' w where o: "offer ?ev (ptW (cvParts c4 ! i)) = (err', w)" by fastforce
        note rw = row_write_ok [OF po(1-3) o]
        have c4: "cvVenues c4 = vs[j := v1]" "cvEpochEvery c4 = every" "cvPriceScale c4 = scale"
          using arg_cong [OF po(5), of cvVenues] arg_cong [OF po(5), of cvEpochEvery] arg_cong [OF po(5), of cvPriceScale]
          by (simp_all add: c3)
        let ?ps = "(cvParts c4)[i := (cvParts c4 ! i)\<lparr>ptW := w\<rparr>]"
        have parts: "ptKey ` set ?ps = insert ?key (ptKey ` set (cvParts c))"
          using po(4) ps(2) keys_update by (metis list.set_map)
        have fine: "parts_fine outDir ?ps (cvDisk c4) \<and> (acceptable (pkVenueID ?key) (events_for ?key ?seq1) ?ev \<longrightarrow> err' = None)"
          if "conv_fine outDir c"
          using rw(2) [OF po(6)] ps(4) [OF that] by blast
        have run: "(err, c') = (case (err', w) of
            (Some e, w) \<Rightarrow> (Some (ConvStore e), set_writer i w c4)
          | (None, w) \<Rightarrow>
            (case applyToBook rec bids asks v1 of
               (Some e, v) \<Rightarrow> (Some (RowError index row (RowBook e)), set_venue j v (set_writer i w c4))
             | (None, v) \<Rightarrow> (None, set_venue j (advance rec (ptKey (cvParts c4 ! i)) (cvEpochEvery c4) v) (set_writer i w c4))))"
          using r ts d v1 q i
          by (simp only: writeRow_def \<open>recordOf row = Inr x\<close> x j v Let_def sum.case prod.case write_is_offer o if_False)
        have sel: "cvParts c' = ?ps" "cvDisk c' = cvDisk c4"
          using run by (auto simp: set_venue_def set_writer_def split: option.splits prod.splits)
        have ok: "item_ok x ?v \<longleftrightarrow> fst (applyToBook rec bids asks v1) = None"
          using ts p1 by (simp add: item_ok_def x)
        have step: "venue_step every x ?v = (fst (epoch_out rec ?v) @ [(?key, FromRow ?ev)], advance rec ?key every (snd (applyToBook rec bids asks v1)))"
          using p1 by (simp add: x Let_def case_prod_unfold del: item_event.simps)
        have all: "err = None" if "conv_fine outDir c" "item_ok x ?v"
          "\<forall>k. all_acceptable (pkVenueID k) (events_for k seq) (events_for k (fst (venue_step every x ?v)))"
        proof -
          have "acceptable (pkVenueID ?key) (events_for ?key ?seq1) ?ev"
            using that(3) [rule_format, of ?key] unfolding step by (simp del: item_event.simps)
          then have "err' = None" using fine [OF that(1)] by blast
          then show ?thesis using run that(2) ok by (auto split: option.splits prod.splits)
        qed
        have inv: "item_ok x ?v \<and> conv_inv every scale outDir (V(VenueID rec := snd (venue_step every x ?v)))
            (seq @ fst (venue_step every x ?v)) c'" if en: "err = None"
        proof -
          obtain v2 where v2: "err' = None" "applyToBook rec bids asks v1 = (None, v2)"
              "c' = set_venue j (advance rec ?key every v2) (set_writer i w c4)"
            using run en po(3) c4 by (auto split: option.splits prod.splits)
          let ?v3 = "advance rec ?key every v2"
          have id1: "vsId v1 = VenueID rec" using p1 ci(6) [of "VenueID rec"] by (simp add: epoch_out_def epoch_written_def)
          have id2: "vsId v2 = VenueID rec" using applyToBook_id [of rec bids asks v1] v2(2) id1 by simp
          have v3: "vsId ?v3 = VenueID rec" "vsLast ?v3 = Some ?key" using id2 by (simp_all add: advance_def Let_def)
          have st: "snd (venue_step every x ?v) = ?v3" "fst (venue_step every x ?v) = fst (epoch_out rec ?v) @ [(?key, FromRow ?ev)]"
            using step v2(2) by simp_all
          have cvs: "cvVenues c' = vs[j := ?v3]" "cvEpochEvery c' = every" "cvPriceScale c' = scale"
            using v2(3) c4 by (simp_all add: set_venue_def set_writer_def)
          have same: "vsId ?v3 = vsId (vs ! j)" using v3(1) v ci(6) by simp
          have "(\<lambda>k. events_for k (seq @ fst (venue_step every x ?v))) =
              (\<lambda>k. events_for k ?seq1)(?key := events_for ?key ?seq1 @ [?ev])"
            unfolding st(2) by (simp add: fun_eq_iff del: item_event.simps)
          then have "parts_inv scale outDir (\<lambda>k. events_for k (seq @ fst (venue_step every x ?v))) (cvParts c') (cvDisk c')"
            using rw(1) [OF v2(1)] unfolding sel by simp
          moreover have "venues.wf (cvVenues c')" "venues.look (cvVenues c') = V(VenueID rec := ?v3)"
            using venues.wf_update [OF vo(2) same] venues.look_update [OF vo(2,1) same] vo(3) ci(5) v3(1) by (simp_all add: cvs(1))
          moreover have "ptKey ` set (cvParts c') = insert ?key (ptKey ` set (cvParts c))" using parts sel by simp
          ultimately show ?thesis
            using cvs(2,3) ok v2(2) v3 ci(6-8) unfolding conv_inv_def st(1) by auto
        qed
        show ?thesis
          using inv all fine parts sel unfolding \<open>recordOf row = Inr x\<close>
          by (simp add: x Let_def case_prod_unfold del: venue_step.simps)
      qed
    qed
  qed
qed

end
