(* ===== verification/Convert_Sidecar.thy ===== *)
theory Convert_Sidecar
  imports Convert_Run
begin

text \<open>
  What else a conversion has on disk while it runs: the sidecars of its writers, and which keys its open
  files have. A writer that has opened its sidecar has it open until it is closed or given up; one that has
  not leaves alone what was at the sidecar's path.
\<close>

section \<open>The writer's sidecar\<close>

definition sidecar_ok :: "bytes option \<Rightarrow> Writer \<Rightarrow> bool" where
  "sidecar_ok b w \<longleftrightarrow> wState w = writerOpen \<and> (wBlobFile w \<or> osBlob w = b)"

text \<open>What a write through a buffer leaves alone is what its sink leaves alone.\<close>

lemma bufWrite_frame:
  assumes "\<And>p s. g (snd (wr p s)) = g s"
  shows "g (snd (snd (bufWrite wr b p s))) = g s"
proof -
  have "w = wr \<Longrightarrow> g (snd (snd (bufWrite w b p s))) = g s" for w
  proof (induction w b p s rule: bufWrite.induct)
    case (1 w b p s)
    let ?n = "writerBufSize - length (bBuf b)"
    let ?f = "bufFlush wr (b\<lparr>bBuf := bBuf b @ take ?n p\<rparr>) s"
    have flush: "g (snd (snd (bufFlush wr b s))) = g s" for b s
      using assms [of "bBuf b" s] by (auto simp: bufFlush_def split: option.splits prod.splits)
    have direct: "g (snd (snd (case wr p s of (None, s') \<Rightarrow> (None :: store_error option, b, s')
        | (Some (n, e), s') \<Rightarrow> (Some e, b\<lparr>bErr := Some e\<rparr>, s')))) = g s"
      using assms [of p s] by (auto split: prod.splits option.splits)
    show ?case
    proof (cases "bErr b = None \<and> \<not> length p \<le> ?n \<and> bBuf b \<noteq> []")
      case False
      then show ?thesis
        unfolding "1.prems" bufWrite.simps [of wr b p s]
        using direct by (auto simp: Let_def split: option.splits)
    next
      case True
      obtain err b' s' where f: "?f = (err, b', s')" by (cases ?f) auto
      then have s': "g s' = g s" using flush [of "b\<lparr>bBuf := bBuf b @ take ?n p\<rparr>" s] by simp
      show ?thesis
      proof (cases err)
        case None
        have "g (snd (snd (bufWrite w b' (drop ?n p) s'))) = g s'"
          by (rule "1.IH" [where x = ?n]) (use True f None "1.prems" in auto)
        then show ?thesis
          unfolding "1.prems" bufWrite.simps [of wr b p s] using True f None s' by (simp add: Let_def)
      next
        case (Some e)
        then show ?thesis
          unfolding "1.prems" bufWrite.simps [of wr b p s] using True f s' by (simp add: Let_def)
      qed
    qed
  qed
  then show ?thesis by simp
qed

lemma bwWrite_side:
  assumes "bwWrite p w = (err, w')"
  shows "wState w' = wState w \<and> wBlobFile w' = wBlobFile w \<and> osBlob w' = osBlob w"
proof -
  let ?g = "\<lambda>w :: Writer. (wState w, wBlobFile w, osBlob w)"
  have "?g (snd (fileWrite p w)) = ?g w" for p w
    by (auto simp: fileWrite_def sys_outcome_def split: list.splits option.splits)
  from bufWrite_frame [where g = ?g and wr = fileWrite and b = "wBw w" and p = p and s = w, OF this] assms show ?thesis
    by (auto simp: bwWrite_def split: prod.splits)
qed

lemma blobBWWrite_side:
  assumes "blobBWWrite p w = (err, w')"
  shows "wState w' = wState w \<and> wBlobFile w' = wBlobFile w"
proof -
  let ?g = "\<lambda>w :: Writer. (wState w, wBlobFile w)"
  have "?g (snd (blobWrite p w)) = ?g w" for p w
    by (auto simp: blobWrite_def sys_outcome_def split: list.splits option.splits)
  from bufWrite_frame [where g = ?g and wr = blobWrite and b = "wBlobBW w" and p = p and s = w, OF this] assms show ?thesis
    by (auto simp: blobBWWrite_def split: prod.splits)
qed

lemma bookkeeping_side:
  "wState (startBlock rec w) = wState w" "wBlobFile (startBlock rec w) = wBlobFile w" "osBlob (startBlock rec w) = osBlob w"
  "wState (noteRecord rec w) = wState w" "wBlobFile (noteRecord rec w) = wBlobFile w" "osBlob (noteRecord rec w) = osBlob w"
  by (simp_all add: startBlock_def noteRecord_def Let_def)

lemma append_sidecar:
  assumes "sidecar_ok b w" "Writer_append rec w = (err, w')"
  shows "sidecar_ok b w' \<and> wBlobFile w' = wBlobFile w"
proof (cases "checkAppend rec w")
  case None
  show ?thesis
  proof (cases "EncodeRecord (wBuf (startBlock rec w)) rec")
    case enc: None
    then show ?thesis using assms None by (auto simp: Writer_append_def Let_def sidecar_ok_def bookkeeping_side)
  next
    case (Some buf)
    obtain err1 w1 where w1: "bwWrite buf (startBlock rec w\<lparr>wBuf := buf\<rparr>) = (err1, w1)" by fastforce
    then show ?thesis
      using assms None Some bwWrite_side [OF w1]
      by (auto simp: Writer_append_def Let_def sidecar_ok_def bookkeeping_side split: option.splits)
  qed
qed (use assms in \<open>auto simp: Writer_append_def\<close>)

lemma snapshot_sidecar:
  assumes "sidecar_ok b w" "WriteSnapshot rec bids asks w = (err, w')"
  shows "sidecar_ok b w'"
proof -
  have work: "sidecar_ok b w'" if r: "run_actions [openBlobFile, Writer_append srec, blobBWWrite bl, \<lambda>w. (None, w\<lparr>wBlobLen := wBlobLen w + n\<rparr>)] w = (err, w')"
    and ok: "sidecar_ok b w" for srec bl n w
  proof -
    obtain e1 w1 where o: "openBlobFile w = (e1, w1)" by fastforce
    have w1: "sidecar_ok b w1" "e1 = None \<Longrightarrow> wBlobFile w1"
      using ok o by (auto simp: openBlobFile_def sidecar_ok_def sys_call_def sys_outcome_def
          split: if_splits list.splits option.splits)
    obtain e2 w2 where a: "Writer_append srec w1 = (e2, w2)" by fastforce
    note w2 = append_sidecar [OF w1(1) a]
    obtain e3 w3 where c: "blobBWWrite bl w2 = (e3, w3)" by fastforce
    have w3: "sidecar_ok b w3" if "e1 = None"
      using blobBWWrite_side [OF c] w1(2) [OF that] w2 by (auto simp: sidecar_ok_def)
    show ?thesis
      using r o a c w1 w2 w3 by (cases e1; cases e2; cases e3) (auto simp: sidecar_ok_def)
  qed
  have buf: "sidecar_ok b (w\<lparr>wBlobBuf := x\<rparr>) = sidecar_ok b w" for w x by (simp add: sidecar_ok_def)
  show ?thesis
    using assms unfolding WriteSnapshot_def Let_def
    by (auto simp: buf simp del: run_actions.simps split: option.splits if_splits intro: work)
qed

lemma record_sidecar: "sidecar_ok b w \<Longrightarrow> WriteRecord rec w = (err, w') \<Longrightarrow> sidecar_ok b w'"
  using append_sidecar by (auto simp: WriteRecord_def split: option.splits if_splits)

lemma epoch_sidecar:
  "sidecar_ok b w \<Longrightarrow> writeEpoch_loop v bs seq w = (r, w') \<Longrightarrow> sidecar_ok b w'"
proof (induction bs arbitrary: seq w)
  case (Cons k ks)
  obtain err w1 where o: "WriteSnapshot (epoch_record v (seq + 1) k) (Bids k) (Asks k) w = (err, w1)" by fastforce
  note s = snapshot_sidecar [OF Cons.prems(1) o]
  show ?case
  proof (cases err)
    case None
    then show ?thesis using Cons.IH [OF s] Cons.prems(2) o by (simp add: Let_def)
  next
    case (Some e)
    then show ?thesis using Cons.prems(2) o s by (simp add: Let_def)
  qed
qed simp

lemma new_sidecar:
  assumes "newWriter os v scale opts = Inr w"
  shows "sidecar_ok (osBlob os) w"
proof -
  obtain hs os1 w1 where h: "sys_call os = (None, os1)"
      "bwWrite (replicate (unat hs) 0) (freshWriter os1 v scale opts hs) = (None, w1)" "w = w1\<lparr>wPos := ucast hs\<rparr>"
    using assms by (auto simp: newWriter_def split: if_splits sum.splits prod.splits option.splits)
  have "osBlob os1 = osBlob os"
    using h(1) by (auto simp: sys_call_def sys_outcome_def split: list.splits option.splits)
  moreover have "wState (freshWriter os1 v scale opts hs) = writerOpen" "osBlob (freshWriter os1 v scale opts hs) = osBlob os1"
    by (simp_all add: freshWriter_def OS.defs)
  ultimately show ?thesis using bwWrite_side [OF h(2)] h(3) by (simp add: sidecar_ok_def)
qed

text \<open>Giving a writer up closes and removes its sidecar, when no system call fails.\<close>

lemma Abort_sidecar:
  assumes "sidecar_ok b w" "osIO w = []"
  shows "osBlob (snd (Abort w)) = None \<or> osBlob (snd (Abort w)) = b"
proof -
  have call: "sys_call w = (None, w)" if "osIO w = []" for w :: Writer
    using that by (simp add: sys_call_def sys_outcome_def)
  have rm: "osBlob (snd (removeFile w)) = osBlob w" for w :: Writer
    by (auto simp: removeFile_def sys_call_def sys_outcome_def split: list.splits option.splits)
  have "osBlob (snd (discard w)) = osBlob (snd (closeFiles w))" for w
    using rm [of "snd (closeFiles w)"] by (auto simp: discard_def split: prod.splits)
  moreover have "osBlob (snd (closeFiles w)) = None \<or> \<not> wBlobFile w \<and> osBlob (snd (closeFiles w)) = osBlob w"
    if "osIO w = []" for w
    using that by (auto simp: closeFiles_def Let_def call removeBlob_def split: prod.splits)
  moreover have "snd (Abort w) = snd (discard (w\<lparr>wState := writerAborted\<rparr>))"
    using assms(1) by (simp add: Abort_def sidecar_ok_def)
  moreover have "osBlob (snd (closeFiles (w\<lparr>wState := writerAborted\<rparr>))) = None
      \<or> \<not> wBlobFile w \<and> osBlob (snd (closeFiles (w\<lparr>wState := writerAborted\<rparr>))) = osBlob w"
    using calculation(2) [of "w\<lparr>wState := writerAborted\<rparr>"] assms(2) by simp
  ultimately show ?thesis using assms(1) by (simp add: sidecar_ok_def) blast
qed

section \<open>The converter\<close>

text \<open>The disk is as the conversion found it except for the open files, whose keys are in \<open>K\<close> and whose
  sidecars are as above.\<close>

definition tidy :: "disk \<Rightarrow> PartitionKey set \<Rightarrow> converter \<Rightarrow> bool" where
  "tidy outDir K c \<longleftrightarrow> cvDisk c = outDir \<and> ptKey ` set (cvParts c) \<subseteq> K
     \<and> (\<forall>p \<in> set (cvParts c). sidecar_ok (osBlob (fst (outDir (ptKey p)))) (ptW p))"

lemma tidy_mono: "tidy outDir K c \<Longrightarrow> K \<subseteq> K' \<Longrightarrow> tidy outDir K' c"
  by (auto simp: tidy_def)

lemma tidy_venues [simp]: "tidy outDir K (c\<lparr>cvVenues := vs\<rparr>) = tidy outDir K c" "tidy outDir K (set_venue j v c) = tidy outDir K c"
  by (simp_all add: tidy_def set_venue_def)

lemma tidy_writer:
  assumes "tidy outDir K c"
    "\<And>b. sidecar_ok b (ptW (cvParts c ! i)) \<Longrightarrow> sidecar_ok b w"
  shows "tidy outDir K (set_writer i w c)"
proof (cases "i < length (cvParts c)")
  case True
  let ?p = "cvParts c ! i"
  have p: "?p \<in> set (cvParts c)" using True by simp
  have new: "q = ?p\<lparr>ptW := w\<rparr> \<or> q \<in> set (cvParts c)" if "q \<in> set ((cvParts c)[i := ?p\<lparr>ptW := w\<rparr>])" for q
    using that set_update_subset_insert [of "cvParts c" i "?p\<lparr>ptW := w\<rparr>"] by blast
  have "ptKey q \<in> K \<and> sidecar_ok (osBlob (fst (outDir (ptKey q)))) (ptW q)"
    if "q \<in> set ((cvParts c)[i := ?p\<lparr>ptW := w\<rparr>])" for q
    using new [OF that] assms(1) p assms(2) [of "osBlob (fst (outDir (ptKey ?p)))"] by (auto simp: tidy_def)
  then show ?thesis using assms(1) by (auto simp: tidy_def set_writer_def)
qed (use assms(1) in \<open>simp add: tidy_def set_writer_def list_update_beyond\<close>)

lemma tidy_due_epoch:
  assumes "tidy outDir K c" "due_epoch rec v c = (r, c')"
  shows "tidy outDir K c'"
proof (cases "epochDue rec v")
  case True
  let ?i = "fst (find_part (the (vsLast v)) (cvParts c))"
  obtain r1 w where w: "writeEpoch_loop v (vsBooks v) (vsLastSeq v) (ptW (cvParts c ! ?i)) = (r1, w)" by fastforce
  have "snd (writeEpoch v (ptW (cvParts c ! ?i))) = w" using w by (simp add: writeEpoch_def split: sum.split)
  then have "c' = set_writer ?i w c" using assms(2) True by (auto simp: due_epoch_def Let_def split: prod.splits)
  then show ?thesis using tidy_writer [OF assms(1)] epoch_sidecar [OF _ w] by blast
qed (use assms in \<open>simp add: due_epoch_def\<close>)

lemma tidy_partition:
  assumes "tidy outDir K c" "\<forall>k. osIO (fst (outDir k)) = []" "converter_partition key c = (r, c')"
  shows "tidy outDir (insert key K) c'"
proof -
  let ?os = "fst (cvDisk c key)"
  let ?new = "NewWriterWithOptions (cvGetpagesize c) ?os (pkVenueID key) (cvPriceScale c)
                  \<lparr>oPageSize = artifactPageSize, oBlockSizeRecords = artifactBlockSizeRecords\<rparr>"
  obtain opts where opts: "?new = newWriter ?os (pkVenueID key) (cvPriceScale c) opts"
    by (simp add: NewWriterWithOptions_def Let_def)
  have d: "cvDisk c = outDir" using assms(1) by (simp add: tidy_def)
  obtain i found where f: "find_part key (cvParts c) = (i, found)" by fastforce
  have more: "tidy outDir (insert key K) c" using assms(1) by (rule tidy_mono) blast
  show ?thesis
  proof (cases found)
    case True
    then show ?thesis using assms(3) f more by (simp add: converter_partition_def)
  next
    case False
    show ?thesis
    proof (cases ?new)
      case (Inr w)
      let ?p = "\<lparr>ptKey = key, ptW = w, ptHash = snd (cvDisk c key)\<rparr>"
      have "c' = c\<lparr>cvParts := slices_Insert (cvParts c) i ?p\<rparr>"
        using assms(3) f False Inr by (simp add: converter_partition_def)
      moreover have "sidecar_ok (osBlob (fst (outDir key))) w" using new_sidecar Inr opts d by metis
      moreover have "set (slices_Insert (cvParts c) i ?p) \<subseteq> insert ?p (set (cvParts c))"
        by (auto simp: slices_Insert_def dest: in_set_takeD in_set_dropD)
      ultimately show ?thesis using more by (fastforce simp: tidy_def)
    next
      case (Inl x)
      obtain e os where x: "x = (e, os)" by fastforce
      have "os = ?os"
      proof -
        have io: "osIO ?os = []" using assms(2) d by simp
        then have call: "sys_call ?os = (None, ?os)" by (simp add: sys_call_def sys_outcome_def)
        have bw: "\<exists>w. bwWrite (replicate (unat hs) 0) (freshWriter ?os (pkVenueID key) (cvPriceScale c) opts hs) = (None, w)" for hs
          using bwWrite_fine [of "freshWriter ?os (pkVenueID key) (cvPriceScale c) opts hs"] io
          by (auto simp: freshWriter_def OS.defs newBufio_def)
        show ?thesis
        proof (rule ccontr)
          assume "os \<noteq> ?os"
          then obtain hs e' w where "bwWrite (replicate (unat hs) 0) (freshWriter ?os (pkVenueID key) (cvPriceScale c) opts hs) = (Some e', w)"
            using Inl call unfolding opts x
            by (auto simp: newWriter_def split: if_splits sum.splits prod.splits option.splits)
          with bw [of hs] show False by simp
        qed
      qed
      then have "c' = c" using assms(3) f False Inl x by (simp add: converter_partition_def)
      then show ?thesis using more by simp
    qed
  qed
qed

text \<open>The key of a row's file, when the row is valid.\<close>

definition row_keys :: "SourceRow \<Rightarrow> PartitionKey set" where
  "row_keys row = (case recordOf row of Inl e \<Rightarrow> {} | Inr (rec, bids, asks) \<Rightarrow> {PartitionOf (VenueID rec) (ExchangeTs rec)})"

lemma tidy_writeRow:
  assumes t: "tidy outDir K c" and io: "\<forall>k. osIO (fst (outDir k)) = []" and r: "writeRow index row c = (err, c')"
  shows "tidy outDir (K \<union> row_keys row) c'"
proof (cases "recordOf row")
  case (Inl e)
  then show ?thesis using r t by (simp add: writeRow_def row_keys_def)
next
  case (Inr x)
  obtain rec bids asks where x: "x = (rec, bids, asks)" by (cases x)
  let ?key = "PartitionOf (VenueID rec) (ExchangeTs rec)"
  have K: "K \<union> row_keys row = insert ?key K" using Inr x by (simp add: row_keys_def)
  obtain j vs where j: "find_venue (VenueID rec) (cvVenues c) = (j, vs)" by fastforce
  let ?v = "vs ! j" and ?c1 = "c\<lparr>cvVenues := vs\<rparr>"
  have t1: "tidy outDir K ?c1" using t by simp
  obtain r2 c2 where d: "due_epoch rec ?v ?c1 = (r2, c2)" by fastforce
  note t2 = tidy_due_epoch [OF t1 d]
  have grow: "tidy outDir (insert ?key K) c" if "tidy outDir K c" for c using that by (rule tidy_mono) blast
  show ?thesis
  proof (cases "vsSeen ?v \<and> sint (ExchangeTs rec) < sint (vsLastTs ?v)")
    case True
    then show ?thesis using r Inr x j grow [OF t1] unfolding K by (simp add: writeRow_def Let_def)
  next
    case ts: False
    show ?thesis
    proof (cases r2)
      case (Inl e)
      then show ?thesis using r Inr x j ts d grow [OF t2] unfolding K by (simp add: writeRow_def Let_def)
    next
      case v1: (Inr v1)
      obtain r3 c4 where q: "converter_partition ?key (set_venue j v1 c2) = (r3, c4)" by fastforce
      have "tidy outDir K (set_venue j v1 c2)" using t2 by simp
      note t4 = tidy_partition [OF this io q]
      show ?thesis
      proof (cases r3)
        case (Inl e)
        then show ?thesis using r Inr x j ts d v1 q t4 unfolding K by (simp add: writeRow_def Let_def)
      next
        case i: (Inr i)
        let ?offer = "\<lambda>w. if RecordType rec = RecordTypeSnapshotPointer then WriteSnapshot rec bids asks w else WriteRecord rec w"
        obtain err' w where o: "?offer (ptW (cvParts c4 ! i)) = (err', w)" by fastforce
        have "sidecar_ok b w" if "sidecar_ok b (ptW (cvParts c4 ! i))" for b
          using o that snapshot_sidecar record_sidecar by (metis (full_types))
        then have t5: "tidy outDir (insert ?key K) (set_writer i w c4)" by (rule tidy_writer [OF t4])
        have "(err, c') = (case (err', w) of
            (Some e, w) \<Rightarrow> (Some (ConvStore e), set_writer i w c4)
          | (None, w) \<Rightarrow>
            (case applyToBook rec bids asks v1 of
               (Some e, v) \<Rightarrow> (Some (RowError index row (RowBook e)), set_venue j v (set_writer i w c4))
             | (None, v) \<Rightarrow> (None, set_venue j (advance rec (ptKey (cvParts c4 ! i)) (cvEpochEvery c4) v) (set_writer i w c4))))"
          using r ts d v1 q i
          by (simp only: writeRow_def \<open>recordOf row = Inr x\<close> x j Let_def sum.case prod.case o if_False)
        then show ?thesis unfolding K using t5 by (auto split: option.splits prod.splits)
      qed
    qed
  qed
qed

lemma tidy_write_rows:
  assumes "tidy outDir K c" "\<forall>k. osIO (fst (outDir k)) = []" "write_rows index rows c = (err, c')"
  shows "tidy outDir (K \<union> (\<Union>row \<in> set rows. row_keys row)) c'"
  using assms
proof (induction rows arbitrary: index K c)
  case (Cons row rows)
  obtain err1 c1 where w: "writeRow index row c = (err1, c1)" by fastforce
  note t = tidy_writeRow [OF Cons.prems(1,2) w]
  show ?case
  proof (cases err1)
    case None
    then have "write_rows (Suc index) rows c1 = (err, c')" using Cons.prems(3) w by simp
    from Cons.IH [OF t Cons.prems(2) this] show ?thesis by (simp add: Un_assoc)
  next
    case (Some e)
    then have "c' = c1" using Cons.prems(3) w by simp
    then show ?thesis using t by (auto intro: tidy_mono)
  qed
qed simp

end
