(* ===== verification/Convert_Whole.thy ===== *)
theory Convert_Whole
  imports Convert_Correct Convert_Sidecar
begin

text \<open>
  Whole conversions: what the output directory holds after one.
\<close>

section \<open>All rows\<close>

primrec rows_of :: "reads \<Rightarrow> SourceRow list" where
  "rows_of (MoreRows rows rs) = rows @ rows_of rs"
| "rows_of (LastRows rows e) = rows"

primrec read_error :: "reads \<Rightarrow> convert_error option" where
  "read_error (MoreRows rows rs) = read_error rs"
| "read_error (LastRows rows e) = e"

lemma write_rows_append:
  "write_rows index (xs @ ys) c =
    (case write_rows index xs c of (Some e, c) \<Rightarrow> (Some e, c) | (None, c) \<Rightarrow> write_rows (index + length xs) ys c)"
  by (induction xs arbitrary: index c) (auto split: prod.splits option.splits)

lemma convert_loop_eq:
  "convert_loop rs index c =
    (case write_rows index (rows_of rs) c of
       (Some e, c) \<Rightarrow> (Inl e, converter_abort c)
     | (None, c) \<Rightarrow> (case read_error rs of None \<Rightarrow> converter_close c | Some e \<Rightarrow> (Inl e, converter_abort c)))"
  by (induction rs arbitrary: index c) (auto simp: write_rows_append split: prod.splits option.splits)

definition item_key :: "item \<Rightarrow> PartitionKey" where
  "item_key x = PartitionOf (VenueID (fst x)) (ExchangeTs (fst x))"

lemma write_rows_ok:
  assumes "conv_inv every scale outDir V seq c" "write_rows index rows c = (None, c')"
  shows "\<exists>xs V'. map recordOf rows = map Inr xs \<and> stream_ok every V xs
    \<and> conv_inv every scale outDir V' (seq @ stream_run every V xs) c'
    \<and> ptKey ` set (cvParts c') = ptKey ` set (cvParts c) \<union> item_key ` set xs"
  using assms
proof (induction rows arbitrary: index V seq c)
  case Nil
  then show ?case by auto
next
  case (Cons row rows)
  obtain err c1 where w: "writeRow index row c = (err, c1)" by fastforce
  then have e: "err = None" "write_rows (Suc index) rows c1 = (None, c')" using Cons.prems(2) by (cases err; simp)+
  from writeRow_ok [OF Cons.prems(1) w] e(1) obtain x where x: "recordOf row = Inr x" "item_ok x (V (VenueID (fst x)))"
    "conv_inv every scale outDir (V(VenueID (fst x) := snd (venue_step every x (V (VenueID (fst x))))))
        (seq @ fst (venue_step every x (V (VenueID (fst x))))) c1"
    "ptKey ` set (cvParts c1) = insert (item_key x) (ptKey ` set (cvParts c))"
    by (auto simp: Let_def case_prod_unfold item_key_def)
  from Cons.IH [OF x(3) e(2)] obtain xs V' where xs: "map recordOf rows = map Inr xs"
    "stream_ok every (V(VenueID (fst x) := snd (venue_step every x (V (VenueID (fst x)))))) xs"
    "conv_inv every scale outDir V' ((seq @ fst (venue_step every x (V (VenueID (fst x)))))
       @ stream_run every (V(VenueID (fst x) := snd (venue_step every x (V (VenueID (fst x)))))) xs) c'"
    "ptKey ` set (cvParts c') = ptKey ` set (cvParts c1) \<union> item_key ` set xs"
    by blast
  have "map recordOf (row # rows) = map Inr (x # xs)" "stream_ok every V (x # xs)"
    "stream_run every V (x # xs) = fst (venue_step every x (V (VenueID (fst x))))
       @ stream_run every (V(VenueID (fst x) := snd (venue_step every x (V (VenueID (fst x)))))) xs"
    using x(1,2) xs(1,2) by (simp_all add: Let_def case_prod_unfold)
  moreover have "ptKey ` set (cvParts c') = ptKey ` set (cvParts c) \<union> item_key ` set (x # xs)"
    using xs(4) x(4) by auto
  ultimately show ?case using xs(3) by (metis append_assoc)
qed

lemma write_rows_fine:
  assumes "conv_inv every scale outDir V seq c" "conv_fine outDir c" "write_rows index rows c = (err, c')"
  shows "conv_fine outDir c'"
  using assms
proof (induction rows arbitrary: index V seq c)
  case (Cons row rows)
  obtain err1 c1 where w: "writeRow index row c = (err1, c1)" by fastforce
  note ok = writeRow_ok [OF Cons.prems(1) w]
  have f: "conv_fine outDir c1" using ok Cons.prems(2) by blast
  show ?case
  proof (cases err1)
    case None
    then obtain V' seq' where "conv_inv every scale outDir V' seq' c1" using ok by (auto simp: Let_def case_prod_unfold)
    from Cons.IH [OF this f] Cons.prems(3) w None show ?thesis by simp
  next
    case (Some e)
    then show ?thesis using Cons.prems(3) w f by simp
  qed
qed simp

lemma write_rows_live:
  assumes "conv_inv every scale outDir V seq c" "conv_fine outDir c"
    and "map recordOf rows = map Inr xs" "stream_ok every V xs" "0 < sint scale" "\<And>x. x \<in> set xs \<Longrightarrow> osFile (fst (outDir (item_key x))) = None"
    and "\<And>k. all_acceptable (pkVenueID k) (events_for k seq) (events_for k (stream_run every V xs))"
  shows "\<exists>c'. write_rows index rows c = (None, c')"
  using assms
proof (induction rows arbitrary: index V seq c xs)
  case (Cons row rows)
  then obtain x ys where x: "xs = x # ys" "recordOf row = Inr x" "map recordOf rows = map Inr ys" by (cases xs) auto
  obtain err c1 where w: "writeRow index row c = (err, c1)" by fastforce
  note ok = writeRow_ok [OF Cons.prems(1) w]
  let ?st = "venue_step every x (V (VenueID (fst x)))" and ?V = "V(VenueID (fst x) := snd (venue_step every x (V (VenueID (fst x)))))"
  have run: "stream_run every V xs = fst ?st @ stream_run every ?V ys" by (simp add: x(1) Let_def case_prod_unfold)
  have so: "item_ok x (V (VenueID (fst x)))" "stream_ok every ?V ys" using Cons.prems(4) by (simp_all add: x(1) Let_def)
  have acc: "all_acceptable (pkVenueID k) (events_for k seq) (events_for k (fst ?st))"
    "all_acceptable (pkVenueID k) (events_for k (seq @ fst ?st)) (events_for k (stream_run every ?V ys))" for k
    using Cons.prems(7) [of k] unfolding run by simp_all
  have "osFile (fst (outDir (PartitionOf (VenueID (fst x)) (ExchangeTs (fst x))))) = None"
    using Cons.prems(6) [of x] by (simp add: x(1) item_key_def)
  then have e: "err = None" and f: "conv_fine outDir c1" using ok Cons.prems(2,5) x(2) so(1) acc(1) by blast+
  from ok e x(2) have "conv_inv every scale outDir ?V (seq @ fst ?st) c1" by (auto simp: Let_def case_prod_unfold)
  from Cons.IH [OF this f x(3) so(2) Cons.prems(5) _ acc(2)] Cons.prems(6) show ?case by (simp add: w e x(1))
qed simp

section \<open>Closing\<close>

lemma os_truncate [simp]: "osFile (OS.truncate w) = osFile w" "osBlob (OS.truncate w) = osBlob w"
  by (simp_all add: OS.defs)

lemma sys_call_hash: "sys_call w = (err, w') \<Longrightarrow> osFile w' = osFile w"
  by (auto simp: sys_call_def sys_outcome_def split: list.splits option.splits)

lemma WriteArtifactHash_ok:
  assumes "WriteArtifactHash p = (r, p')"
  shows "ptKey p' = ptKey p" "osFile (ptW p') = osFile (ptW p)"
    "\<And>digest. r = Inr digest \<Longrightarrow> \<exists>d. osFile (ptW p) = Some d \<and> ptHash p' = Some (hash_content d)"
    "osIO (ptW p) = [] \<Longrightarrow> osFile (ptW p) = Some d \<Longrightarrow> \<exists>digest. r = Inr digest"
  using assms
  by (auto simp: WriteArtifactHash_def os_WriteFile_def sys_call_def sys_outcome_def hash_content_def Let_def
      split: list.splits option.splits prod.splits sum.splits)

lemma close_parts_ok:
  assumes "\<forall>p \<in> set ps. writer_inv (artifact_header scale (ptKey p)) (E (ptKey p)) (ptW p)" "close_parts ps = (None, qs)"
  shows "map ptKey qs = map ptKey ps \<and> (\<forall>q \<in> set qs. \<exists>d. d = file_image (artifact_header scale (ptKey q)) (E (ptKey q))
      \<and> osFile (ptW q) = Some d \<and> ptHash q = Some (hash_content d))"
  using assms
proof (induction ps arbitrary: qs)
  case (Cons p ps)
  obtain e w where c: "Writer_Close (ptW p) = (e, w)" by fastforce
  with Cons.prems(2) have e: "e = None" by (cases e) simp_all
  obtain r p1 where h: "WriteArtifactHash (p\<lparr>ptW := w\<rparr>) = (r, p1)" by fastforce
  obtain e2 qs1 where t: "close_parts ps = (e2, qs1)" by fastforce
  from Cons.prems(2) c e h t obtain digest where d: "r = Inr digest" "e2 = None" "qs = p1 # qs1" by (cases r) auto
  let ?d = "file_image (artifact_header scale (ptKey p)) (E (ptKey p))"
  have "osFile w = Some ?d" using Close_ok(2) [OF _ c [unfolded e]] Cons.prems(1) by simp
  then have "ptKey p1 = ptKey p" "osFile (ptW p1) = Some ?d" "ptHash p1 = Some (hash_content ?d)"
    using WriteArtifactHash_ok(1-3) [OF h] d(1) by simp_all
  with Cons.IH [of qs1] Cons.prems(1) t d(2,3) show ?case by simp
qed simp

lemma close_parts_fine:
  assumes "\<forall>p \<in> set ps. (\<exists>evs. writer_inv (artifact_header scale (ptKey p)) evs (ptW p)) \<and> osIO (ptW p) = []"
  shows "\<exists>qs. close_parts ps = (None, qs)"
  using assms
proof (induction ps)
  case (Cons p ps)
  then obtain evs where inv: "writer_inv (artifact_header scale (ptKey p)) evs (ptW p)" and io: "osIO (ptW p) = []" by auto
  from finish_fine [OF this] obtain w where w: "finish (ptW p) = (None, w)" "osIO w = []" by blast
  have c: "Writer_Close (ptW p) = (None, w\<lparr>wState := writerClosed\<rparr>)"
    using w(1) writer_inv_open [OF inv] by (simp add: Writer_Close_def)
  have "osFile w = Some (file_image (artifact_header scale (ptKey p)) evs)" using finish_ok(2) [OF _ w(1)] inv by blast
  then obtain digest p1 where "WriteArtifactHash (p\<lparr>ptW := w\<lparr>wState := writerClosed\<rparr>\<rparr>) = (Inr digest, p1)"
    using WriteArtifactHash_ok(4) [of "p\<lparr>ptW := w\<lparr>wState := writerClosed\<rparr>\<rparr>"] w(2) by (cases "WriteArtifactHash (p\<lparr>ptW := w\<lparr>wState := writerClosed\<rparr>\<rparr>)") fastforce
  moreover obtain qs where "close_parts ps = (None, qs)" using Cons by auto
  ultimately show ?case by (simp add: c)
qed simp

lemma Abort_fine: "osIO w = [] \<Longrightarrow> osIO (snd (Abort w)) = []"
proof (cases "wState w = writerClosed")
  case False
  assume "osIO w = []"
  then obtain w1 where "closeFiles (w\<lparr>wState := writerAborted\<rparr>) = (None, w1)" "osIO w1 = []"
    using fine_closeFiles [unfolded fine_action_def, rule_format, of "w\<lparr>wState := writerAborted\<rparr>"] by auto
  then show ?thesis using False by (simp add: Abort_def discard_def removeFile_def sys_call_fine first_of_def)
qed (simp add: Abort_def)

lemma abort_part_fine:
  assumes "osIO (ptW p) = []"
  shows "ptKey (abort_part p) = ptKey p" "osFile (ptW (abort_part p)) = None" "ptHash (abort_part p) = None"
  using Abort_fine [OF assms] by (simp_all add: abort_part_def removeHash_def removeFile_def sys_call_fine)

lemma sync_other: "k \<notin> ptKey ` set ps \<Longrightarrow> sync ps dsk k = dsk k"
  unfolding sync_def by (induction ps arbitrary: dsk) auto

lemma sync_in: "distinct (map ptKey ps) \<Longrightarrow> p \<in> set ps \<Longrightarrow> sync ps dsk (ptKey p) = (OS.truncate (ptW p), ptHash p)"
proof (induction ps arbitrary: dsk)
  case (Cons q ps)
  have s: "sync (q # ps) dsk = sync ps (dsk(ptKey q := (OS.truncate (ptW q), ptHash q)))" by (simp add: sync_def)
  show ?case
  proof (cases "p \<in> set ps")
    case True
    then show ?thesis using Cons by (simp add: s)
  next
    case False
    then have "p = q" "ptKey q \<notin> ptKey ` set ps" using Cons.prems by auto
    then show ?thesis using sync_other [of "ptKey q" ps] by (simp add: s)
  qed
qed simp

lemma wf_distinct: "parts.wf ps \<Longrightarrow> distinct (map ptKey ps)"
  unfolding parts.wf_def by (simp add: strict_sorted_iff)

lemma abort_part_blob:
  assumes "osIO (ptW p) = []"
  shows "osBlob (ptW (abort_part p)) = osBlob (snd (Abort (ptW p)))"
  using Abort_fine [OF assms] by (simp add: abort_part_def removeHash_def removeFile_def sys_call_fine)

section \<open>Conversions\<close>

definition epoch_cadence :: "ConvertOptions \<Rightarrow> int" where
  "epoch_cadence opts = (if coEpochEvery opts = 0 then DefaultEpochEvery else coEpochEvery opts)"

definition new_converter :: "int \<Rightarrow> disk \<Rightarrow> ConvertOptions \<Rightarrow> converter" where
  "new_converter page outDir opts = \<lparr>cvGetpagesize = page, cvPriceScale = coPriceScale opts, cvEpochEvery = epoch_cadence opts,
     cvParts = [], cvVenues = [], cvDisk = outDir\<rparr>"

lemma new_converter_inv: "conv_inv (epoch_cadence opts) (coPriceScale opts) outDir new_venue [] (new_converter page outDir opts)"
  by (simp add: conv_inv_def new_converter_def parts_inv_def parts.wf_Nil venues.wf_Nil venues.look_Nil new_venue_def)

lemma new_converter_fine: "\<forall>k. osIO (fst (outDir k)) = [] \<Longrightarrow> conv_fine outDir (new_converter page outDir opts)"
  by (simp add: new_converter_def parts_fine_def parts.wf_Nil)

lemma Convert_eq:
  "Convert canonical page src outDir opts =
    (case CheckSourceFile canonical src of
       Some e \<Rightarrow> (Inl e, outDir)
     | None \<Rightarrow>
       (case arReopen src of
          Some e \<Rightarrow> (Inl e, outDir)
        | None \<Rightarrow> (case convert_loop (arReads src) 0 (new_converter page outDir opts) of (r, c) \<Rightarrow> (r, cvDisk c))))"
  unfolding Convert_def new_converter_def epoch_cadence_def Let_def by (rule refl)

text \<open>What a successful conversion writes.\<close>

lemma convert_files:
  assumes "Convert canonical page src outDir opts = (Inr keys, d)"
  shows "\<exists>xs. CheckSourceFile canonical src = None \<and> read_error (arReads src) = None
    \<and> map recordOf (rows_of (arReads src)) = map Inr xs \<and> stream_ok (epoch_cadence opts) new_venue xs
    \<and> sorted_wrt (<) keys \<and> set keys = item_key ` set xs \<and> (\<forall>k. k \<notin> set keys \<longrightarrow> d k = outDir k)
    \<and> (\<forall>k \<in> set keys. base_header_ok (artifact_header (coPriceScale opts) k)
         \<and> events_ok (artifact_header (coPriceScale opts) k) (events_for k (stream_run (epoch_cadence opts) new_venue xs))
         \<and> osFile (fst (d k)) = Some (file_image (artifact_header (coPriceScale opts) k)
              (events_for k (stream_run (epoch_cadence opts) new_venue xs)))
         \<and> snd (d k) = Some (hash_content (file_image (artifact_header (coPriceScale opts) k)
              (events_for k (stream_run (epoch_cadence opts) new_venue xs)))))"
proof -
  let ?c0 = "new_converter page outDir opts" and ?scale = "coPriceScale opts"
  obtain err c1 where w: "write_rows 0 (rows_of (arReads src)) ?c0 = (err, c1)" by fastforce
  have src: "CheckSourceFile canonical src = None" "arReopen src = None"
    using assms by (auto simp: Convert_eq split: option.splits)
  obtain r c2 where l: "convert_loop (arReads src) 0 ?c0 = (r, c2)" by fastforce
  have r: "r = Inr keys" "d = cvDisk c2" using assms src l by (simp_all add: Convert_eq)
  have ok: "err = None" "read_error (arReads src) = None" "converter_close c1 = (Inr keys, c2)"
    using l w r unfolding convert_loop_eq by (auto split: option.splits)
  obtain qs where qs: "close_parts (cvParts c1) = (None, qs)" "keys = map ptKey qs" "d = sync qs (cvDisk c1)"
    using ok(3) r(2) by (auto simp: converter_close_def split: prod.splits option.splits)
  from write_rows_ok [OF new_converter_inv w [unfolded ok(1)]] obtain xs V' where
    xs: "map recordOf (rows_of (arReads src)) = map Inr xs" "stream_ok (epoch_cadence opts) new_venue xs"
      "conv_inv (epoch_cadence opts) ?scale outDir V' (stream_run (epoch_cadence opts) new_venue xs) c1"
      "ptKey ` set (cvParts c1) = item_key ` set xs"
    by (auto simp: new_converter_def)
  let ?E = "\<lambda>k. events_for k (stream_run (epoch_cadence opts) new_venue xs)"
  have p: "parts_inv ?scale outDir ?E (cvParts c1) (cvDisk c1)" using xs(3) by (simp add: conv_inv_def)
  then have pw: "\<forall>p \<in> set (cvParts c1). writer_inv (artifact_header ?scale (ptKey p)) (?E (ptKey p)) (ptW p)" "parts.wf (cvParts c1)"
    by (simp_all add: parts_inv_def)
  note cl = close_parts_ok [where E = ?E, OF pw(1) qs(1)]
  have keys: "sorted_wrt (<) keys" "set keys = item_key ` set xs" "ptKey ` set qs = set keys" "distinct (map ptKey qs)"
    "set keys = ptKey ` set (cvParts c1)"
    using cl pw(2) xs(4) wf_distinct [OF pw(2)] qs(2) list.set_map [of ptKey qs] by (simp_all add: parts.wf_def)
  have rest: "d k = outDir k" if "k \<notin> set keys" for k
    using sync_other [of k qs "cvDisk c1"] p that keys(3,5) qs(3) by (simp add: parts_inv_def)
  have files: "base_header_ok (artifact_header ?scale k) \<and> events_ok (artifact_header ?scale k) (?E k)
      \<and> osFile (fst (d k)) = Some (file_image (artifact_header ?scale k) (?E k))
      \<and> snd (d k) = Some (hash_content (file_image (artifact_header ?scale k) (?E k)))"
    if "k \<in> set keys" for k
  proof -
    have "k \<in> ptKey ` set qs" "k \<in> ptKey ` set (cvParts c1)" using that keys(3,5) by simp_all
    then obtain q p where q: "q \<in> set qs" "ptKey q = k" and pk: "p \<in> set (cvParts c1)" "ptKey p = k" by (elim imageE) simp
    have dk: "d k = (OS.truncate (ptW q), ptHash q)" unfolding qs(3) q(2) [symmetric] by (rule sync_in [OF keys(4) q(1)])
    let ?h = "artifact_header ?scale k"
    have "writer_inv ?h (?E k) (ptW p)" using bspec [OF pw(1) pk(1)] unfolding pk(2) .
    then have h: "base_header_ok ?h" "events_ok ?h (?E k)" using writer_inv_events_ok by (simp_all only:)
    have f: "osFile (fst (d k)) = Some (file_image ?h (?E k))" "snd (d k) = Some (hash_content (file_image ?h (?E k)))"
      using bspec [OF cl [THEN conjunct2] q(1)] unfolding q(2) dk by simp_all
    show ?thesis using h f by (intro conjI)
  qed
  show ?thesis using src(1) ok(2) xs(1,2) keys(1,2) rest files by (intro conjI exI [of _ xs]) simp_all
qed

text \<open>C21: A conversion that succeeds is complete and exact, whatever the system calls did on the way. The source
  passed the schema check and was read to its end, every row is a valid record and in time order within
  its venue; and the output is one file for each venue and day that occurs in the rows, in that order,
  and nothing else on disk has changed. Each file's bytes are a function of the rows alone, neither of the
  host's page size nor of anything else: it opens, verifies, carries its venue and the scale, and serves
  exactly the events of its venue and day, rows and epochs, in the order of the stream. Its hash file
  holds the SHA-256 of those bytes.\<close>

theorem convert_exact:
  assumes "Convert canonical page src outDir opts = (Inr keys, d)"
  shows "CheckSourceFile canonical src = None \<and> read_error (arReads src) = None
    \<and> (\<exists>xs. map recordOf (rows_of (arReads src)) = map Inr xs \<and> stream_ok (epoch_cadence opts) new_venue xs
        \<and> sorted_wrt (<) keys \<and> set keys = item_key ` set xs
        \<and> (\<forall>k. if k \<notin> set keys then d k = outDir k
             else (\<exists>bytes r. bytes = file_image (new_header (pkVenueID k) (coPriceScale opts) 4096 1024)
                     (events_for k (stream_run (epoch_cadence opts) new_venue xs))
                 \<and> osFile (fst (d k)) = Some bytes \<and> snd (d k) = Some (hash_content bytes)
                 \<and> openBytes bytes = Inr r \<and> VerifyAll r = None \<and> reader_VenueID r = pkVenueID k
                 \<and> PriceScale r = coPriceScale opts
                 \<and> serves r (events_for k (stream_run (epoch_cadence opts) new_venue xs)))))"
proof -
  let ?scale = "coPriceScale opts"
  from convert_files [OF assms] obtain xs where
    xs: "CheckSourceFile canonical src = None" "read_error (arReads src) = None"
      "map recordOf (rows_of (arReads src)) = map Inr xs" "stream_ok (epoch_cadence opts) new_venue xs"
      "sorted_wrt (<) keys" "set keys = item_key ` set xs" "\<forall>k. k \<notin> set keys \<longrightarrow> d k = outDir k" and
    files: "\<forall>k \<in> set keys. base_header_ok (artifact_header ?scale k)
       \<and> events_ok (artifact_header ?scale k) (events_for k (stream_run (epoch_cadence opts) new_venue xs))
       \<and> osFile (fst (d k)) = Some (file_image (artifact_header ?scale k) (events_for k (stream_run (epoch_cadence opts) new_venue xs)))
       \<and> snd (d k) = Some (hash_content (file_image (artifact_header ?scale k)
            (events_for k (stream_run (epoch_cadence opts) new_venue xs))))"
    by (elim exE conjE)
  let ?E = "\<lambda>k. events_for k (stream_run (epoch_cadence opts) new_venue xs)"
  have "\<exists>bytes r. bytes = file_image (new_header (pkVenueID k) ?scale 4096 1024) (?E k)
      \<and> osFile (fst (d k)) = Some bytes \<and> snd (d k) = Some (hash_content bytes)
      \<and> openBytes bytes = Inr r \<and> VerifyAll r = None \<and> reader_VenueID r = pkVenueID k \<and> PriceScale r = ?scale \<and> serves r (?E k)"
    if "k \<in> set keys" for k
  proof -
    note f = bspec [OF files that, unfolded artifact_header_def]
    then obtain r where "openBytes (file_image (new_header (pkVenueID k) ?scale 4096 1024) (?E k)) = Inr r" "VerifyAll r = None"
        "serves r (?E k)" "reader_VenueID r = pkVenueID k" "PriceScale r = ?scale"
      using image_opens by (elim conjE exE) blast
    with f show ?thesis
      by (intro exI [of _ "file_image (new_header (pkVenueID k) ?scale 4096 1024) (?E k)"] exI [of _ r] conjI refl) simp_all
  qed
  then show ?thesis using xs by (intro conjI exI [of _ xs]) simp_all
qed

text \<open>What giving up leaves of a run of rows, when no system call fails.\<close>

lemma abort_leaves:
  assumes f: "conv_fine outDir c" and t: "tidy outDir K c"
  shows "cvDisk (converter_abort c) k = outDir k
    \<or> osFile (fst (outDir k)) = None \<and> k \<in> K
      \<and> osFile (fst (cvDisk (converter_abort c) k)) = None \<and> snd (cvDisk (converter_abort c) k) = None
      \<and> (osBlob (fst (cvDisk (converter_abort c) k)) = None
         \<or> osBlob (fst (cvDisk (converter_abort c) k)) = osBlob (fst (outDir k)))"
proof -
  let ?ps = "map abort_part (cvParts c)"
  have a: "ptKey (abort_part p) = ptKey p" "osFile (ptW (abort_part p)) = None" "ptHash (abort_part p) = None"
    "osFile (fst (outDir (ptKey p))) = None" if "p \<in> set (cvParts c)" for p
    using f that abort_part_fine [of p] by (simp_all add: parts_fine_def)
  have blob: "osBlob (ptW (abort_part p)) = None \<or> osBlob (ptW (abort_part p)) = osBlob (fst (outDir (ptKey p)))"
    if "p \<in> set (cvParts c)" for p
    using Abort_sidecar [of _ "ptW p"] f t that abort_part_blob [of p] by (simp add: parts_fine_def tidy_def)
  have keys: "map ptKey ?ps = map ptKey (cvParts c)" using a(1) by simp
  have wf: "parts.wf (cvParts c)" using f by (simp add: parts_fine_def)
  show ?thesis
  proof (cases "k \<in> ptKey ` set (cvParts c)")
    case True
    then obtain p where p: "p \<in> set (cvParts c)" "ptKey p = k" by blast
    have "distinct (map ptKey ?ps)" unfolding keys by (rule wf_distinct [OF wf])
    from sync_in [OF this, of "abort_part p" "cvDisk c"] p a [OF p(1)] blob [OF p(1)] t show ?thesis
      by (auto simp: converter_abort_def tidy_def)
  next
    case False
    then have "k \<notin> ptKey ` set ?ps" using a(1) by force
    from sync_other [OF this, of "cvDisk c"] t show ?thesis by (simp add: converter_abort_def tidy_def)
  qed
qed

text \<open>C22: A conversion that fails leaves nothing behind. When no system call fails, whatever the reason of
  the failure, what is on disk for a venue and day, the file, the writer's sidecar and the hash, is as it
  was, unless a row belongs there and no file was there before: then no file is there now either, no hash,
  not even one left over from before, and no sidecar that was not there. In particular a file that was
  there, which makes the conversion fail, is untouched, and an empty directory is empty again.\<close>

theorem convert_failure:
  assumes "Convert canonical page src outDir opts = (Inl e, d)" "\<forall>k. osIO (fst (outDir k)) = []"
  shows "d k = outDir k
    \<or> osFile (fst (outDir k)) = None \<and> (\<exists>row \<in> set (rows_of (arReads src)). k \<in> row_keys row)
      \<and> osFile (fst (d k)) = None \<and> snd (d k) = None
      \<and> (osBlob (fst (d k)) = None \<or> osBlob (fst (d k)) = osBlob (fst (outDir k)))"
proof -
  let ?c0 = "new_converter page outDir opts"
  obtain err c1 where w: "write_rows 0 (rows_of (arReads src)) ?c0 = (err, c1)" by fastforce
  note fine = write_rows_fine [OF new_converter_inv new_converter_fine [OF assms(2)] w]
  have "tidy outDir {} ?c0" by (simp add: tidy_def new_converter_def)
  note tidy = tidy_write_rows [OF this assms(2) w]
  have no: "fst (converter_close c1) \<noteq> Inl e" if en: "err = None"
  proof -
    from write_rows_ok [OF new_converter_inv w [unfolded en]] obtain V' seq where
      "conv_inv (epoch_cadence opts) (coPriceScale opts) outDir V' seq c1" by blast
    then have "\<forall>p \<in> set (cvParts c1). (\<exists>evs. writer_inv (artifact_header (coPriceScale opts) (ptKey p)) evs (ptW p)) \<and> osIO (ptW p) = []"
      using fine by (auto simp: conv_inv_def parts_inv_def parts_fine_def)
    from close_parts_fine [OF this] show ?thesis by (auto simp: converter_close_def)
  qed
  have "d = outDir \<or> d = cvDisk (converter_abort c1)"
    using assms(1) w no unfolding Convert_eq convert_loop_eq by (cases "converter_close c1") (auto split: option.splits)
  then show ?thesis using abort_leaves [OF fine tidy, of k] by auto
qed

text \<open>The conversion succeeds on every source whose stream the store takes, if no system call fails.\<close>

lemma convert_lives:
  assumes "\<forall>k. osIO (fst (outDir k)) = []" "CheckSourceFile canonical src = None" "arReopen src = None" "read_error (arReads src) = None"
    and "map recordOf (rows_of (arReads src)) = map Inr xs" "stream_ok (epoch_cadence opts) new_venue xs"
    and "0 < sint (coPriceScale opts)" "\<forall>x \<in> set xs. osFile (fst (outDir (item_key x))) = None"
    and "\<forall>k. all_acceptable (pkVenueID k) [] (events_for k (stream_run (epoch_cadence opts) new_venue xs))"
  shows "\<exists>keys d. Convert canonical page src outDir opts = (Inr keys, d)"
proof -
  let ?c0 = "new_converter page outDir opts"
  have "\<exists>c1. write_rows 0 (rows_of (arReads src)) ?c0 = (None, c1)"
    by (rule write_rows_live [OF new_converter_inv new_converter_fine [OF assms(1)] assms(5-7)]) (use assms(8,9) in simp_all)
  then obtain c1 where w: "write_rows 0 (rows_of (arReads src)) ?c0 = (None, c1)" ..
  note fine = write_rows_fine [OF new_converter_inv new_converter_fine [OF assms(1)] w]
  from write_rows_ok [OF new_converter_inv w] obtain V' seq where
    "conv_inv (epoch_cadence opts) (coPriceScale opts) outDir V' seq c1" by blast
  then have "\<forall>p \<in> set (cvParts c1). (\<exists>evs. writer_inv (artifact_header (coPriceScale opts) (ptKey p)) evs (ptW p)) \<and> osIO (ptW p) = []"
    using fine by (auto simp: conv_inv_def parts_inv_def parts_fine_def)
  from close_parts_fine [OF this] obtain qs where "close_parts (cvParts c1) = (None, qs)" by blast
  then show ?thesis using assms(2-4) w by (simp add: Convert_eq convert_loop_eq converter_close_def)
qed

text \<open>C23: The converter rejects nothing that it could convert: if no system call fails, the source is readable and
  has the canonical columns, every row is valid, times do not decrease within a venue and the books
  apply, no output file exists yet, and the events of each file increase in key order and fit the format,
  then the conversion succeeds.\<close>

theorem convert_total:
  assumes "\<forall>k. osIO (fst (outDir k)) = []" "CheckSourceFile canonical src = None" "arReopen src = None" "read_error (arReads src) = None"
    and "map recordOf (rows_of (arReads src)) = map Inr xs" "stream_ok (epoch_cadence opts) new_venue xs"
    and "0 < sint (coPriceScale opts)" "\<forall>x \<in> set xs. osFile (fst (outDir (item_key x))) = None"
    and "\<forall>k. all_acceptable (pkVenueID k) [] (events_for k (stream_run (epoch_cadence opts) new_venue xs))"
  shows "\<exists>keys d. Convert canonical page src outDir opts = (Inr keys, d)"
  using convert_lives [OF assms] .

end
