(* ===== verification/Convert_Sample.thy ===== *)
theory Convert_Sample
  imports Convert_Whole
begin

text \<open>
  A conversion of three rows of one venue: two changes of a book and, the next day, a snapshot of it, with
  an epoch due after every row. It shows that the hypotheses of the converter's properties can hold.
\<close>

definition sample_rows :: "SourceRow list" where
  "sample_rows =
     [\<lparr>srExchangeTs = 5, srSequenceNumber = 1, srInstrumentID = 7, srVenueID = 9, srRecordType = 0, srSideFlags = 0,
       srPrice = 100, srSize = 3, srLevels = []\<rparr>,
      \<lparr>srExchangeTs = 6, srSequenceNumber = 2, srInstrumentID = 7, srVenueID = 9, srRecordType = 0, srSideFlags = 1,
       srPrice = 101, srSize = 4, srLevels = []\<rparr>,
      \<lparr>srExchangeTs = 86400000000001, srSequenceNumber = 3, srInstrumentID = 7, srVenueID = 9, srRecordType = 2, srSideFlags = 0,
       srPrice = 0, srSize = 0, srLevels = [\<lparr>slSide = 0, slPrice = 98, slSize = 1\<rparr>, \<lparr>slSide = 0, slPrice = 99, slSize = 2\<rparr>]\<rparr>]"

definition sample_key :: "int \<Rightarrow> PartitionKey" where
  "sample_key day = \<lparr>pkVenueID = 9, pkDay = day\<rparr>"

definition sample_record :: "i64 \<Rightarrow> u64 \<Rightarrow> Record" where
  "sample_record ts seq = zeroRecord\<lparr>ExchangeTs := ts, SequenceNumber := seq, InstrumentID := 7, VenueID := 9\<rparr>"

definition sample_items :: "item list" where
  "sample_items =
     [(sample_record 5 1\<lparr>Price := 100, Size := 3\<rparr>, [], []),
      (sample_record 6 2\<lparr>SideFlags := 1, Price := 101, Size := 4\<rparr>, [], []),
      (sample_record 86400000000001 3\<lparr>RecordType := 2\<rparr>, [\<lparr>lPrice = 99, lSize = 2\<rparr>, \<lparr>lPrice = 98, lSize = 1\<rparr>], [])]"

definition sample_out :: "(PartitionKey \<times> out) list" where
  "sample_out =
     [(sample_key 0, FromRow (item_event (sample_items ! 0))),
      (sample_key 0, FromEpoch (EvSnapshot (sample_record 5 2) [\<lparr>lPrice = 100, lSize = 3\<rparr>] [])),
      (sample_key 0, FromRow (item_event (sample_items ! 1))),
      (sample_key 0, FromEpoch (EvSnapshot (sample_record 6 3) [\<lparr>lPrice = 100, lSize = 3\<rparr>] [\<lparr>lPrice = 101, lSize = 4\<rparr>])),
      (sample_key 1, FromRow (item_event (sample_items ! 2)))]"

lemma sample_records: "map recordOf sample_rows = map Inr sample_items"
  by code_simp

lemma sample_stream: "stream_run 1 new_venue sample_items = sample_out" "stream_ok 1 new_venue sample_items"
  by code_simp+

lemma epochs_transparent_witness:
  "stream_run 1 new_venue sample_items = sample_out
   \<and> stream_book 9 7 (all_events (take 4 sample_out)) = stream_book 9 7 (map snd (row_events (take 4 sample_out)))
   \<and> length (row_events (take 4 sample_out)) = 2"
proof -
  have h: "list_all (\<lambda>(rec, bids, asks). RecordType rec = RecordTypeSnapshotPointer \<or> bids = [] \<and> asks = []) sample_items"
    by code_simp
  have "length (row_events (take 4 sample_out)) = 2" by (simp add: sample_out_def)
  with epochs_transparent [OF sample_stream(2) h, of 4 9 7] show ?thesis by (simp add: sample_stream(1) Let_def)
qed

definition sample_columns :: fields where
  "sample_columns = sample_schema ''INT(64,true)''"

definition sample_archive :: "convert_error option \<Rightarrow> archive" where
  "sample_archive e = \<lparr>arErr = None, arFields = sample_columns, arReopen = None,
     arReads = MoreRows (take 2 sample_rows) (LastRows (drop 2 sample_rows) e)\<rparr>"

definition sample_dir :: disk where
  "sample_dir k = (example_os, None)"

definition sample_options :: ConvertOptions where
  "sample_options = \<lparr>coPriceScale = 100, coEpochEvery = 1\<rparr>"

lemma sample_source:
  "CheckSourceFile sample_columns (sample_archive e) = None" "arReopen (sample_archive e) = None"
  "read_error (arReads (sample_archive e)) = e" "rows_of (arReads (sample_archive e)) = sample_rows"
  "\<forall>k. osIO (fst (sample_dir k)) = []" "osFile (fst (sample_dir k)) = None" "epoch_cadence sample_options = 1"
  "0 < sint (coPriceScale sample_options)" "coPriceScale sample_options = 100"
proof -
  have "CheckSourceSchema sample_columns sample_columns = None"
    by (simp add: sample_columns_def sample_schema_def CheckSourceSchema_def checkFields_def describeNode_def Let_def)
  then show "CheckSourceFile sample_columns (sample_archive e) = None" by (simp add: CheckSourceFile_def sample_archive_def)
qed (simp_all add: sample_archive_def sample_dir_def example_os_def epoch_cadence_def sample_options_def)

lemma sample_accepted: "all_acceptable (pkVenueID k) [] (events_for k sample_out)"
proof -
  have "all_acceptable 9 [] (events_for (sample_key 0) sample_out)" "all_acceptable 9 [] (events_for (sample_key 1) sample_out)"
    by (simp_all add: sample_out_def sample_key_def sample_items_def sample_record_def acceptable_def key_only_def zeroRecord_def
        compareKey_def validateRecord_def record_types SideAsk_def)
  moreover have "events_for k sample_out = []" if "k \<noteq> sample_key 0" "k \<noteq> sample_key 1"
    using that by (simp add: sample_out_def)
  ultimately show ?thesis
    by (cases "k = sample_key 0"; cases "k = sample_key 1") (simp_all add: sample_key_def)
qed

lemma sample_premises:
  "map recordOf (rows_of (arReads (sample_archive e))) = map Inr sample_items"
  "stream_ok (epoch_cadence sample_options) new_venue sample_items"
  "\<forall>x \<in> set sample_items. osFile (fst (sample_dir (item_key x))) = None"
  "\<forall>k. all_acceptable (pkVenueID k) [] (events_for k (stream_run (epoch_cadence sample_options) new_venue sample_items))"
  unfolding sample_source sample_stream(1) by (rule sample_records sample_stream(2) ballI allI refl sample_accepted)+

lemma convert_total_witness:
  "\<exists>keys d. Convert sample_columns 4096 (sample_archive None) sample_dir sample_options = (Inr keys, d)"
  by (rule convert_total [OF sample_source(5,1,2,3) sample_premises(1,2) sample_source(8) sample_premises(3,4)])

lemma convert_exact_witness:
  "\<exists>keys d bytes r. Convert sample_columns 16384 (sample_archive None) sample_dir sample_options = (Inr keys, d)
     \<and> set keys = {sample_key 0, sample_key 1}
     \<and> osFile (fst (d (sample_key 0))) = Some bytes \<and> snd (d (sample_key 0)) = Some (hash_content bytes)
     \<and> openBytes bytes = Inr r \<and> VerifyAll r = None \<and> serves r (events_for (sample_key 0) sample_out)
     \<and> d (sample_key 2) = sample_dir (sample_key 2)"
proof -
  have "\<exists>keys d. Convert sample_columns 16384 (sample_archive None) sample_dir sample_options = (Inr keys, d)"
    by (rule convert_lives [OF sample_source(5,1,2,3) sample_premises(1,2) sample_source(8) sample_premises(3,4)])
  then obtain keys d where c: "Convert sample_columns 16384 (sample_archive None) sample_dir sample_options = (Inr keys, d)" by blast
  have keyset: "item_key ` set sample_items = {sample_key 0, sample_key 1}"
  proof -
    have "map item_key sample_items = [sample_key 0, sample_key 0, sample_key 1]" by code_simp
    then have "set (map item_key sample_items) = {sample_key 0, sample_key 1}" by simp
    then show ?thesis by simp
  qed
  have inj: "xs = sample_items" if "map recordOf sample_rows = map Inr xs" for xs
    using that sample_records map_injective [of Inr xs sample_items] by (simp add: inj_on_def)
  obtain xs where xs: "map recordOf sample_rows = map Inr xs" "set keys = item_key ` set xs"
    "\<And>k. if k \<notin> set keys then d k = sample_dir k
       else (\<exists>bytes r. bytes = file_image (new_header (pkVenueID k) 100 4096 1024) (events_for k (stream_run 1 new_venue xs))
           \<and> osFile (fst (d k)) = Some bytes \<and> snd (d k) = Some (hash_content bytes)
           \<and> openBytes bytes = Inr r \<and> VerifyAll r = None \<and> reader_VenueID r = pkVenueID k
           \<and> PriceScale r = 100 \<and> serves r (events_for k (stream_run 1 new_venue xs)))"
    using convert_exact [OF c] unfolding sample_source by blast
  have x: "xs = sample_items" by (rule inj [OF xs(1)])
  have keys: "set keys = {sample_key 0, sample_key 1}" using xs(2) keyset x by simp
  have "sample_key 2 \<notin> set keys" "sample_key 0 \<in> set keys" using keys by (simp_all add: sample_key_def)
  then show ?thesis
    using c keys xs(3) [of "sample_key 0"] xs(3) [of "sample_key 2"] unfolding x sample_stream by auto
qed

lemma convert_failure_witness:
  "\<exists>d. Convert sample_columns 4096 (sample_archive (Some ConvSource)) sample_dir sample_options = (Inl ConvSource, d)
     \<and> (\<forall>k. osFile (fst (d k)) = None \<and> osBlob (fst (d k)) = None \<and> snd (d k) = None)"
proof -
  have "\<exists>c. write_rows 0 sample_rows (new_converter 4096 sample_dir sample_options) = (None, c)"
    by (rule write_rows_live [OF new_converter_inv new_converter_fine [OF sample_source(5)] sample_records sample_premises(2)
          sample_source(8) sample_source(6)])
      (use sample_premises(4) in simp)
  then obtain c where w: "write_rows 0 sample_rows (new_converter 4096 sample_dir sample_options) = (None, c)" by blast
  obtain d where c: "Convert sample_columns 4096 (sample_archive (Some ConvSource)) sample_dir sample_options = (Inl ConvSource, d)"
    unfolding Convert_eq convert_loop_eq by (simp add: sample_source w)
  have "osFile (fst (d k)) = None \<and> osBlob (fst (d k)) = None \<and> snd (d k) = None" for k
    using convert_failure [OF c sample_source(5), of k] sample_source(6) [of k] by (auto simp: sample_dir_def example_os_def)
  with c show ?thesis by blast
qed

end
