(* ===== verification/Venue_Files.thy ===== *)
theory Venue_Files
  imports Merge_Merger "HOL-Library.List_Lexorder" "HOL-Library.Char_ord"
begin

text \<open>
  From files to cursors. Both the server and the load harness open their files in any order, sort them and
  make one cursor of the files of each venue. The locale \<open>venue_files\<close> has what such a program relies on:
  an order that groups the files by venue, and files of which one ends before the next begins.
\<close>

locale venue_files =
  fixes venue :: "'f \<Rightarrow> u16" and reader :: "'f \<Rightarrow> Reader" and order :: "'f \<Rightarrow> 'k :: linorder"
  assumes order_venue: "order f \<le> order g \<Longrightarrow> venue f \<le> venue g"
begin

definition events :: "'f \<Rightarrow> Event list" where
  "events f = reader_events (reader f)"

text \<open>A file that is sound by itself.\<close>

definition sound :: "'f \<Rightarrow> bool" where
  "sound f \<longleftrightarrow> sound_file (reader f) \<and> reader_VenueID (reader f) = venue f
     \<and> (\<forall>rec \<in> set (contents (reader f)). VenueID rec = venue f) \<and> increasing (events f)"

definition before :: "'f \<Rightarrow> 'f \<Rightarrow> bool" where
  "before f g \<longleftrightarrow> (\<forall>x \<in> set (events f). \<forall>y \<in> set (events g). ev_key x < ev_key y)"

definition follows :: "'f \<Rightarrow> 'f \<Rightarrow> bool" where
  "follows f g \<longleftrightarrow> venue f \<le> venue g \<and> (venue f = venue g \<longrightarrow> before f g)"

text \<open>The order tells the files of a venue apart and puts them one after the other.\<close>

definition separate :: "'f list \<Rightarrow> bool" where
  "separate fs \<longleftrightarrow> distinct fs \<and> (\<forall>f \<in> set fs. sound f)
     \<and> (\<forall>f \<in> set fs. \<forall>g \<in> set fs. f \<noteq> g \<longrightarrow> venue f = venue g \<longrightarrow> order f \<le> order g \<longrightarrow> before f g)"

lemma sort_follows:
  assumes "separate fs"
  shows "sorted_wrt follows (sort_key order fs)" "\<forall>f \<in> set (sort_key order fs). sound f"
proof -
  let ?fs = "sort_key order fs"
  have s: "separate ?fs" using assms by (simp add: separate_def)
  have "sorted_wrt (\<lambda>f g. order f \<le> order g) ?fs" using sorted_sort_key [of order fs] by (simp add: sorted_map)
  moreover have "sorted_wrt (\<noteq>) ?fs" using s by (simp add: separate_def distinct_conv_nth sorted_wrt_iff_nth_less)
  ultimately have "sorted_wrt (\<lambda>f g. order f \<le> order g \<and> f \<noteq> g) ?fs" by (auto simp: sorted_wrt_iff_nth_less)
  then show "sorted_wrt follows ?fs"
    by (rule sorted_wrt_mono_rel [rotated]) (use s order_venue in \<open>auto simp: separate_def follows_def\<close>)
  show "\<forall>f \<in> set ?fs. sound f" using s by (simp add: separate_def)
qed

lemma group_sound:
  assumes "\<forall>f \<in> set fs. sound f \<and> venue f = v" "sorted_wrt follows fs"
  shows "sound_partition v (map reader fs)" "partition_events (map reader fs) = concat (map events fs)"
proof -
  show e: "partition_events (map reader fs) = concat (map events fs)"
    by (simp add: partition_events_def events_def [abs_def] comp_def)
  have "increasing (concat (map events fs))" using assms
  proof (induction fs)
    case (Cons f fs)
    then show ?case by (auto simp: increasing_append sound_def follows_def before_def)
  qed simp
  then show "sound_partition v (map reader fs)" using assms(1) e by (auto simp: sound_partition_def sound_def)
qed

text \<open>No two events of such files have one key.\<close>

lemma separate_inj:
  assumes "separate fs"
  shows "inj_on ev_key (\<Union>f \<in> set fs. set (events f))"
proof (rule inj_onI)
  have v: "VenueID (evRecord x) = venue f" if "f \<in> set fs" "x \<in> set (events f)" for f x
  proof -
    have s: "sound f" using assms that(1) by (simp add: separate_def)
    then have "evRecord x \<in> set (contents (reader f))"
      using that(2) map_evRecord_reader_events [of "reader f"] unfolding sound_def events_def by (metis imageI list.set_map)
    with s show ?thesis by (simp add: sound_def)
  qed
  fix x y assume xy: "x \<in> (\<Union>f \<in> set fs. set (events f))" "y \<in> (\<Union>f \<in> set fs. set (events f))" "ev_key x = ev_key y"
  then obtain f g where f: "f \<in> set fs" "x \<in> set (events f)" and g: "g \<in> set fs" "y \<in> set (events g)" by blast
  have "venue f = venue g" using v [OF f] v [OF g] xy(3) by (simp add: keyOf_def)
  moreover have "order f \<le> order g \<or> order g \<le> order f" by (rule linear)
  ultimately have "f = g" using assms f g xy(3) by (fastforce simp: separate_def before_def)
  moreover have "increasing (events f)" using assms f(1) by (simp add: separate_def sound_def)
  ultimately show "x = y" using f(2) g(2) xy(3) increasing_inj by (auto simp: inj_on_def)
qed

text \<open>The first group of a sorted list, and what is left.\<close>

lemma first_group:
  assumes "\<forall>h \<in> set (f # fs). sound h" "sorted_wrt follows (f # fs)"
  defines "g \<equiv> f # takeWhile (\<lambda>h. venue h = venue f) fs" and "r \<equiv> dropWhile (\<lambda>h. venue h = venue f) fs"
  shows "f # fs = g @ r" "sound_partition (venue f) (map reader g)"
    "partition_events (map reader g) = concat (map events g)"
    "\<forall>h \<in> set r. sound h" "sorted_wrt follows r" "venue f \<notin> venue ` set r"
proof -
  show split: "f # fs = g @ r" by (simp add: g_def r_def)
  have ok: "\<forall>h \<in> set g. sound h \<and> venue h = venue f" "sorted_wrt follows g" "\<forall>x \<in> set g. \<forall>y \<in> set r. follows x y"
    using assms(1,2) unfolding split sorted_wrt_append by (auto simp: g_def dest: set_takeWhileD)
  show r: "\<forall>h \<in> set r. sound h" "sorted_wrt follows r" using assms(1,2) unfolding split sorted_wrt_append by auto
  show "sound_partition (venue f) (map reader g)" "partition_events (map reader g) = concat (map events g)"
    using group_sound [OF ok(1,2)] by blast+
  have "venue h \<noteq> venue f" if "h \<in> set r" for h
  proof (cases r)
    case (Cons a as)
    then have "venue a \<noteq> venue f" unfolding r_def by (metis (mono_tags) dropWhile_eq_Cons_conv)
    moreover have "venue f \<le> venue a" using ok(3) Cons by (simp add: follows_def g_def)
    moreover have "venue a \<le> venue h" using r(2) that Cons by (auto simp: follows_def)
    ultimately show ?thesis by auto
  qed (use that in simp)
  then show "venue f \<notin> venue ` set r" by force
qed

end

text \<open>Sorting a permutation of a strictly sorted list.\<close>

lemma sort_key_perm:
  assumes "mset xs = mset ys" "sorted_wrt (<) (map key ys)"
  shows "sort_key key xs = ys"
proof (rule sort_key_inj_key_eq [OF assms(1)])
  have "inj_on key (set ys)" "sorted (map key ys)" using assms(2) by (auto simp: strict_sorted_iff distinct_map)
  moreover have "set xs = set ys" using assms(1) by (rule mset_eq_setD)
  ultimately show "inj_on key (set xs)" "sorted (map key ys)" by simp_all
qed

end
