(* ===== verification/Server_Open.thy ===== *)
theory Server_Open
  imports Venue_Files
begin

text \<open>
  How the server opens its data: \<^verbatim>\<open>openCursors\<close> of \<^verbatim>\<open>src/cmd/replayd/server.go\<close>. It opens the files
  it is given in any order, sorts them and makes one cursor of the files of each venue.
\<close>

section \<open>Configuration\<close>

record ServerConfig =
  scFiles :: "string list"
  scWorkers :: int
  scCapacity :: int
  scMaxBlobBytes :: int
  scSeekTs :: i64
  scHasSeek :: bool
  scWatchdogTimeout :: i64
  scManifestPath :: string

section \<open>Opening the files\<close>

record openFile =
  ofPath :: string
  ofFirst :: i64
  ofR :: Reader

text \<open>\<open>None\<close> is the panic of \<^verbatim>\<open>RecordAt\<close>.\<close>

definition firstExchangeTs :: "Reader \<Rightarrow> i64 option" where
  "firstExchangeTs r = (if Len r = 0 then Some (- (2 ^ 63)) else map_option ExchangeTs (RecordAt r 0))"

definition closeAll :: "openFile list \<Rightarrow> openFile list" where
  "closeAll files = map (\<lambda>f. f\<lparr>ofR := snd (reader_Close (ofR f))\<rparr>) files"

primrec open_loop ::
    "(string \<Rightarrow> store_error + os_file) \<Rightarrow> string list \<Rightarrow> openFile list \<Rightarrow> (merge_error \<times> openFile list) + openFile list" where
  "open_loop os_Open [] files = Inr files"
| "open_loop os_Open (path # paths) files =
     (case Open os_Open path of
        Inl e \<Rightarrow> Inl (MErrStore e, closeAll files)
      | Inr r \<Rightarrow>
        (case firstExchangeTs r of
           None \<Rightarrow> Inl (MErrStore Panic, files)
         | Some t \<Rightarrow> open_loop os_Open paths (files @ [\<lparr>ofPath = path, ofFirst = t, ofR = r\<rparr>])))"

text \<open>\<^verbatim>\<open>slices.SortFunc\<close> by venue, first timestamp and path.\<close>

definition file_order :: "openFile \<Rightarrow> u16 \<times> int \<times> string" where
  "file_order f = (reader_VenueID (ofR f), sint (ofFirst f), ofPath f)"

definition sort_files :: "openFile list \<Rightarrow> openFile list" where
  "sort_files files = sort_key file_order files"

definition of_venue :: "openFile \<Rightarrow> u16" where
  "of_venue f = reader_VenueID (ofR f)"

definition seek_cursor :: "ServerConfig \<Rightarrow> Cursor \<Rightarrow> merge_error option \<times> Cursor" where
  "seek_cursor cfg c = (if scHasSeek cfg then cursor_SeekTime c (scSeekTs cfg) else (None, c))"

text \<open>The grouping loop over the sorted files; an error closes all of them.\<close>

function group_loop :: "ServerConfig \<Rightarrow> openFile list \<Rightarrow> openFile list \<Rightarrow> (merge_error \<times> openFile list) + Cursor list" where
  "group_loop cfg files [] = Inr []"
| "group_loop cfg files (f # fs) =
     (let venue = of_venue f; readers = map ofR (f # takeWhile (\<lambda>g. of_venue g = venue) fs) in
      case NewCursor venue readers of
        Inl e \<Rightarrow> Inl (e, closeAll files)
      | Inr c \<Rightarrow>
        (case seek_cursor cfg c of
           (Some e, c) \<Rightarrow> Inl (e, closeAll files)
         | (None, c) \<Rightarrow>
           (case group_loop cfg files (dropWhile (\<lambda>g. of_venue g = venue) fs) of
              Inl e \<Rightarrow> Inl e
            | Inr cs \<Rightarrow> Inr (c # cs))))"
  by pat_completeness auto
termination
  by (relation "measure (\<lambda>(cfg, files, fs). length fs)") (auto simp: le_imp_less_Suc length_dropWhile_le)

definition openCursors ::
    "(string \<Rightarrow> store_error + os_file) \<Rightarrow> ServerConfig \<Rightarrow> (merge_error \<times> openFile list) + Cursor list" where
  "openCursors os_Open cfg =
     (case open_loop os_Open (scFiles cfg) [] of
        Inl e \<Rightarrow> Inl e
      | Inr files \<Rightarrow> (let files = sort_files files in group_loop cfg files files))"

section \<open>Errors close every file\<close>

lemma closed_closeAll: "\<forall>f \<in> set (closeAll files). rClosed (ofR f)"
  by (auto simp: closeAll_def reader_Close_def Let_def)

lemma open_loop_closed: "open_loop os_Open paths files = Inl (e, fs) \<Longrightarrow> e \<noteq> MErrStore Panic \<Longrightarrow> \<forall>f \<in> set fs. rClosed (ofR f)"
  by (induction paths arbitrary: files) (auto simp: closed_closeAll split: sum.splits option.splits)

lemma group_loop_closed: "group_loop cfg files fs = Inl (e, gs) \<Longrightarrow> gs = closeAll files"
  by (induction cfg files fs rule: group_loop.induct) (auto simp: Let_def split: sum.splits prod.splits option.splits)

lemma openCursors_closed: "openCursors os_Open cfg = Inl (e, fs) \<Longrightarrow> e \<noteq> MErrStore Panic \<Longrightarrow> \<forall>f \<in> set fs. rClosed (ofR f)"
  using open_loop_closed [of os_Open "scFiles cfg" "[]"] group_loop_closed [of cfg] closed_closeAll
  by (fastforce simp: openCursors_def Let_def split: sum.splits)

section \<open>The cursors\<close>

interpretation server_files: venue_files of_venue ofR file_order
  by unfold_locales (auto simp: file_order_def of_venue_def less_eq_prod_def)

definition seek_keeps :: "ServerConfig \<Rightarrow> Event \<Rightarrow> bool" where
  "seek_keeps cfg ev = (scHasSeek cfg \<longrightarrow> \<not> before_time (scSeekTs cfg) ev)"

lemma dropWhile_filter_increasing: "increasing evs \<Longrightarrow> dropWhile (before_time t) evs = filter (\<lambda>ev. \<not> before_time t ev) evs"
proof (induction evs)
  case (Cons ev evs)
  show ?case
  proof (cases "before_time t ev")
    case True
    then show ?thesis using Cons by (simp add: increasing_Cons)
  next
    case False
    then have "\<not> before_time t e" if "e \<in> set evs" for e
      using Cons.prems that key_less_time [of "evRecord ev" "evRecord e"] by (auto simp: increasing_Cons before_time_def)
    then have "filter (\<lambda>ev. \<not> before_time t ev) evs = evs" by (simp add: filter_id_conv)
    then show ?thesis using False by simp
  qed
qed simp

lemma seek_cursor_ok:
  assumes "sound_partition v rs"
  shows "\<exists>c c'. NewCursor v rs = Inr c \<and> seek_cursor cfg c = (None, c') \<and> cursor_ok c' \<and> \<not> cHasLast c' \<and> cVenueID c' = v
    \<and> cursor_rest c' = filter (seek_keeps cfg) (partition_events rs)"
proof -
  obtain c where c: "NewCursor v rs = Inr c" "cursor_ok c" "cursor_rest c = partition_events rs" "\<not> cHasLast c"
      "cReaders c = rs" "cFile c = 0" "cIndex c = 0" "cVenueID c = v"
    using NewCursor_ok [OF assms] by blast
  have inc: "increasing (partition_events rs)" using assms by (simp add: sound_partition_def)
  show ?thesis
  proof (cases "scHasSeek cfg")
    case True
    obtain c' where c': "cursor_SeekTime_loop (scSeekTs cfg) c = (None, c')" "cursor_ok c'"
        "cursor_rest c' = dropWhile (before_time (scSeekTs cfg)) (cursor_rest c)" "\<not> cHasLast c'" "cVenueID c' = cVenueID c"
      using cursor_SeekTime_loop_ok [OF c(2,7) _ c(4), of "scSeekTs cfg"] c(6) by auto
    then show ?thesis
      using c c' True dropWhile_filter_increasing [OF inc]
      by (auto simp: seek_cursor_def cursor_SeekTime_def seek_keeps_def [abs_def])
  next
    case False
    then show ?thesis using c by (simp add: seek_cursor_def seek_keeps_def [abs_def])
  qed
qed

lemma group_loop_ok:
  assumes "\<forall>f \<in> set fs. server_files.sound f" "sorted_wrt server_files.follows fs"
  shows "\<exists>cs. group_loop cfg files fs = Inr cs \<and> sound_cursors cs \<and> set (map cVenueID cs) \<subseteq> of_venue ` set fs
    \<and> concat (map cursor_rest cs) = filter (seek_keeps cfg) (concat (map server_files.events fs))"
  using assms
proof (induction cfg files fs rule: group_loop.induct)
  case (2 cfg files f fs)
  let ?same = "\<lambda>g. of_venue g = of_venue f"
  let ?g = "f # takeWhile ?same fs" and ?r = "dropWhile ?same fs"
  note fg = server_files.first_group [OF "2.prems"]
  from seek_cursor_ok [OF fg(2), of cfg] obtain c c' where
    c: "NewCursor (of_venue f) (map ofR ?g) = Inr c" "seek_cursor cfg c = (None, c')" "cursor_ok c'" "\<not> cHasLast c'"
      "cVenueID c' = of_venue f" "cursor_rest c' = filter (seek_keeps cfg) (partition_events (map ofR ?g))"
    by blast
  from "2.IH" [OF refl refl c(1) c(2) [symmetric] refl fg(4,5)] obtain cs where
    cs: "group_loop cfg files ?r = Inr cs" "sound_cursors cs" "set (map cVenueID cs) \<subseteq> of_venue ` set ?r"
      "concat (map cursor_rest cs) = filter (seek_keeps cfg) (concat (map server_files.events ?r))"
    by blast
  have "group_loop cfg files (f # fs) = Inr (c' # cs)" using c cs(1) by (simp add: Let_def)
  moreover have "sound_cursors (c' # cs)" using cs(2,3) c(3-5) fg(6) by (auto simp: sound_cursors_def)
  moreover have "set (map cVenueID (c' # cs)) \<subseteq> of_venue ` set (f # fs)"
    using cs(3) c(5) by (auto dest: set_dropWhileD)
  moreover have "concat (map cursor_rest (c' # cs)) = filter (seek_keeps cfg) (concat (map server_files.events (f # fs)))"
    by (simp only: fg(1) map_append concat_append filter_append list.map(2) concat.simps(2) c(6) cs(4)
      fg(3) [simplified list.map(2)])
  ultimately show ?case by blast
qed (simp add: sound_cursors_def)

text \<open>Files that open.\<close>

lemma open_loop_ok:
  assumes "list_all2 (\<lambda>path f. Open os_Open path = Inr (ofR f) \<and> firstExchangeTs (ofR f) = Some (ofFirst f) \<and> ofPath f = path) paths fs"
  shows "open_loop os_Open paths files = Inr (files @ fs)"
  using assms
proof (induction paths fs arbitrary: files rule: list_all2_induct)
  case (Cons path paths f fs)
  then show ?case by (cases f) simp
qed simp

lemma openCursors_ok:
  assumes "list_all2 (\<lambda>path f. Open os_Open path = Inr (ofR f) \<and> firstExchangeTs (ofR f) = Some (ofFirst f) \<and> ofPath f = path)
      (scFiles cfg) fs"
    and "server_files.separate fs"
  shows "\<exists>cs. openCursors os_Open cfg = Inr cs \<and> sound_cursors cs
    \<and> concat (map cursor_rest cs) = filter (seek_keeps cfg) (concat (map server_files.events (sort_files fs)))"
  using group_loop_ok [OF server_files.sort_follows(2,1) [OF assms(2)], of cfg "sort_key file_order fs"]
    open_loop_ok [OF assms(1), of "[]"]
  by (auto simp: openCursors_def sort_files_def Let_def)

end
