(* ===== verification/Server_Manifest.thy ===== *)
theory Server_Manifest
  imports Convert_Run Fanout_Emit Server_Open
begin

text \<open>
  The run manifest: \<^verbatim>\<open>src/cmd/replayd/manifest.go\<close>. The file is the manifest's value; its JSON text is
  \<^verbatim>\<open>encoding/json\<close>'s. Paths of the operating system are strings, and what \<^verbatim>\<open>filepath.Abs\<close>, \<^verbatim>\<open>os.Stat\<close> and
  \<^verbatim>\<open>os.ReadFile\<close> return for them is a parameter.
\<close>

section \<open>Records\<close>

datatype file_error = ErrNotExist | ErrFile nat

record DatasetFile =
  dfPath :: string
  dfHash :: bytes

record RunConfig =
  rcSpeedNum :: int
  rcSpeedDen :: int
  rcWorkers :: int
  rcRingCapacity :: int
  rcMaxBlobBytes :: int
  rcSeekExchangeTs :: "i64 option"
  rcWatchdogTimeoutNanos :: i64

record SubscriberMix =
  mixBlock :: nat
  mixDrop :: nat
  mixStartBeginning :: nat
  mixStartExchangeTs :: nat
  mixStartEmitIndex :: nat
  mixStartLive :: nat

text \<open>The error is the text of the run's own; here, the error, of the loop or of closing the merger.\<close>

datatype server_run_error = SrvRun run_error | SrvMergerClose merge_error | SrvManifest file_error

record RunResult =
  rrEmitIndexAtEnd :: u64
  rrPacingSlipNanos :: i64
  rrCanonicalHash :: bytes
  rrError :: "server_run_error option"

record Timing =
  tmStartedUnixNano :: i64
  tmEndedUnixNano :: i64
  tmElapsedNanos :: i64

record Manifest =
  mfDataset :: "DatasetFile list"
  mfConfig :: RunConfig
  mfSubscribers :: SubscriberMix
  mfResult :: RunResult
  mfTiming :: Timing

section \<open>The dataset\<close>

record files =
  filepath_Abs :: "string \<Rightarrow> file_error + string"
  os_Stat :: "string \<Rightarrow> file_error option"
  os_ReadFile :: "string \<Rightarrow> file_error + bytes"

definition hashSuffix :: string where "hashSuffix = ''.hash''"

text \<open>\<^verbatim>\<open>strings.TrimSpace\<close>: tab, line feed, vertical tab, form feed, carriage return and space of a text in
  ASCII. What it does with another is \<open>trim_unicode\<close>.\<close>

definition is_space :: "u8 \<Rightarrow> bool" where
  "is_space b \<longleftrightarrow> b = 9 \<or> b = 10 \<or> b = 11 \<or> b = 12 \<or> b = 13 \<or> b = 32"

definition TrimSpace :: "(bytes \<Rightarrow> bytes) \<Rightarrow> bytes \<Rightarrow> bytes" where
  "TrimSpace trim_unicode s =
     (if list_all (\<lambda>b. b < 128) s then rev (dropWhile is_space (rev (dropWhile is_space s))) else trim_unicode s)"

definition readHashSidecar :: "(bytes \<Rightarrow> bytes) \<Rightarrow> files \<Rightarrow> string \<Rightarrow> file_error + bytes" where
  "readHashSidecar trim fs path =
     (case os_ReadFile fs (path @ hashSuffix) of
        Inl e \<Rightarrow> if e = ErrNotExist then Inr [] else Inl e
      | Inr b \<Rightarrow> Inr (TrimSpace trim b))"

primrec identity_loop :: "(bytes \<Rightarrow> bytes) \<Rightarrow> files \<Rightarrow> string list \<Rightarrow> DatasetFile list \<Rightarrow> file_error + DatasetFile list" where
  "identity_loop trim fs [] out = Inr out"
| "identity_loop trim fs (path # paths) out =
     (case filepath_Abs fs path of
        Inl e \<Rightarrow> Inl e
      | Inr absolute \<Rightarrow>
        (case os_Stat fs path of
           Some e \<Rightarrow> Inl e
         | None \<Rightarrow>
           (case readHashSidecar trim fs path of
              Inl e \<Rightarrow> Inl e
            | Inr hash \<Rightarrow> identity_loop trim fs paths (out @ [\<lparr>dfPath = absolute, dfHash = hash\<rparr>]))))"

text \<open>\<^verbatim>\<open>filepath.ToSlash\<close> leaves a path of Unix as it is.\<close>

definition datasetIdentity :: "(bytes \<Rightarrow> bytes) \<Rightarrow> files \<Rightarrow> string list \<Rightarrow> file_error + DatasetFile list" where
  "datasetIdentity trim fs paths =
     (case identity_loop trim fs paths [] of
        Inl e \<Rightarrow> Inl e
      | Inr out \<Rightarrow> Inr (sort_key dfPath out))"

section \<open>What identifies a dataset\<close>

text \<open>The digest of the converter's sidecar is read back.\<close>

lemma hex_EncodeToString_ascii: "list_all (\<lambda>b. b < 128 \<and> \<not> is_space b) (hex_EncodeToString bs)"
proof -
  have "hex_digit d < 128 \<and> \<not> is_space (hex_digit d)" if "d < 16" for d
  proof -
    have "\<forall>d \<in> set [0..<16]. hex_digit d < 128 \<and> \<not> is_space (hex_digit d)" by code_simp
    with that show ?thesis by simp
  qed
  moreover have "unat b div 16 < 16" for b :: u8 using unsigned_less [of b, where ?'a = nat] by simp
  ultimately show ?thesis by (induction bs) (simp_all add: hex_EncodeToString_def)
qed

lemma TrimSpace_line:
  assumes "list_all (\<lambda>b. b < 128 \<and> \<not> is_space b) s"
  shows "TrimSpace trim (s @ [10]) = s"
proof -
  have d: "dropWhile is_space t = t" if "list_all (\<lambda>b. \<not> is_space b) t" for t
    using that by (cases t) simp_all
  have "list_all (\<lambda>b. \<not> is_space b) s" "list_all (\<lambda>b. \<not> is_space b) (rev s)" "list_all (\<lambda>b. b < 128) (s @ [10])"
    using assms by (auto simp: list_all_iff)
  moreover have "is_space 10" by (simp add: is_space_def)
  moreover have "dropWhile is_space (s @ [10]) = (if s = [] then [] else s @ [10])"
    using \<open>list_all (\<lambda>b. \<not> is_space b) s\<close> \<open>is_space 10\<close> by (cases s) simp_all
  ultimately show ?thesis by (simp add: TrimSpace_def d)
qed

lemma readHashSidecar_converted:
  "os_ReadFile fs (path @ hashSuffix) = Inr (hash_content d) \<Longrightarrow> readHashSidecar trim fs path = Inr (hex_EncodeToString (sha256 d))"
  using TrimSpace_line [OF hex_EncodeToString_ascii] by (simp add: readHashSidecar_def hash_content_def)

definition identity_of :: "(bytes \<Rightarrow> bytes) \<Rightarrow> files \<Rightarrow> string \<Rightarrow> DatasetFile option" where
  "identity_of trim fs path =
     (case (filepath_Abs fs path, os_Stat fs path, readHashSidecar trim fs path) of
        (Inr absolute, None, Inr hash) \<Rightarrow> Some \<lparr>dfPath = absolute, dfHash = hash\<rparr>
      | _ \<Rightarrow> None)"

lemma identity_loop_Inr:
  "identity_loop trim fs paths out = Inr ds \<longleftrightarrow>
     list_all (\<lambda>p. identity_of trim fs p \<noteq> None) paths \<and> ds = out @ map (\<lambda>p. the (identity_of trim fs p)) paths"
  by (induction paths arbitrary: out) (auto simp: identity_of_def split: sum.splits option.splits)

lemma identity_loop_Inl: "(\<exists>e. identity_loop trim fs paths out = Inl e) \<longleftrightarrow> \<not> list_all (\<lambda>p. identity_of trim fs p \<noteq> None) paths"
  using identity_loop_Inr [of trim fs paths out] by (cases "identity_loop trim fs paths out") auto

text \<open>The identity of a dataset does not depend on how the command line orders it. When the files have
  different absolute paths, any two orders of them give the same entries, sorted by path, or fail both; and
  the hash of a file the converter wrote is the hexadecimal SHA-256 of its bytes.\<close>

theorem datasetIdentity_order:
  assumes "mset paths = mset paths'" "inj_on (filepath_Abs fs) (set paths)"
  shows "case datasetIdentity trim fs paths of
      Inl e \<Rightarrow> \<exists>e'. datasetIdentity trim fs paths' = Inl e'
    | Inr ds \<Rightarrow> datasetIdentity trim fs paths' = Inr ds \<and> sorted (map dfPath ds)
        \<and> mset ds = image_mset (\<lambda>p. the (identity_of trim fs p)) (mset paths)"
proof -
  have s: "set paths = set paths'" by (rule mset_eq_setD [OF assms(1)])
  show ?thesis
  proof (cases "list_all (\<lambda>p. identity_of trim fs p \<noteq> None) paths")
    case True
    let ?f = "\<lambda>p. the (identity_of trim fs p)"
    have t: "list_all (\<lambda>p. identity_of trim fs p \<noteq> None) paths'" using True s by (simp add: list_all_iff)
    have path: "filepath_Abs fs p = Inr (dfPath (?f p))" if "p \<in> set paths" for p
      using True that by (auto simp: list_all_iff identity_of_def split: sum.splits option.splits)
    have "inj_on dfPath (?f ` set paths)"
    proof (rule inj_onI)
      fix x y assume "x \<in> ?f ` set paths" "y \<in> ?f ` set paths" "dfPath x = dfPath y"
      then obtain p q where "p \<in> set paths" "q \<in> set paths" "x = ?f p" "y = ?f q" by blast
      with path \<open>dfPath x = dfPath y\<close> have "filepath_Abs fs p = filepath_Abs fs q" by simp
      then show "x = y" using assms(2) \<open>p \<in> set paths\<close> \<open>q \<in> set paths\<close> \<open>x = ?f p\<close> \<open>y = ?f q\<close> by (auto dest: inj_onD)
    qed
    moreover have "mset (map ?f paths) = mset (map ?f paths')" using assms(1) by simp
    ultimately have "sort_key dfPath (map ?f paths) = sort_key dfPath (map ?f paths')"
      using sort_key_inj_key_eq [of "map ?f paths" "sort_key dfPath (map ?f paths')" dfPath] by simp
    moreover have "identity_loop trim fs paths [] = Inr (map ?f paths)" "identity_loop trim fs paths' [] = Inr (map ?f paths')"
      using True t by (simp_all add: identity_loop_Inr)
    ultimately show ?thesis using assms(1) by (simp add: datasetIdentity_def)
  next
    case False
    then have "\<not> list_all (\<lambda>p. identity_of trim fs p \<noteq> None) paths'" using s by (simp add: list_all_iff)
    then show ?thesis
      using False identity_loop_Inl [of trim fs paths "[]"] identity_loop_Inl [of trim fs paths' "[]"]
      by (auto simp: datasetIdentity_def)
  qed
qed

end
