(* ===== verification/Bench_Open.thy ===== *)
theory Bench_Open
  imports Venue_Files Server_Manifest
begin

text \<open>
  How the load harness opens a directory: \<^verbatim>\<open>openPartitions\<close> of \<^verbatim>\<open>src/bench/harness.go\<close>. Names do not
  matter, the files' own content orders them.
\<close>

section \<open>The directory\<close>

record direntry =
  deName :: string
  deIsDir :: bool

text \<open>\<^verbatim>\<open>filepath.Ext\<close>, and \<^verbatim>\<open>filepath.Join\<close> of a clean directory other than the root with a name.\<close>

definition filepath_Ext :: "string \<Rightarrow> string" where
  "filepath_Ext path =
     (let r = rev path; ext = takeWhile (\<lambda>c. c \<noteq> CHR ''.'' \<and> c \<noteq> CHR ''/'') r in
      if length ext < length r \<and> r ! length ext = CHR ''.'' then CHR ''.'' # rev ext else [])"

definition filepath_Join :: "string \<Rightarrow> string \<Rightarrow> string" where
  "filepath_Join dir name = (if dir = [] then name else dir @ ''/'' @ name)"

lemma filepath_Ext_bin: "filepath_Ext (name @ ''.bin'') = ''.bin''"
  by (simp add: filepath_Ext_def)

section \<open>Files\<close>

datatype bench_error = BnReadDir file_error | BnNoVenues | BnMerge merge_error | BnFanout fanout_error | BnRun run_error

record datasetFile =
  dsReader :: Reader
  dsPath :: string
  dsVenueID :: u16
  dsEmpty :: bool
  dsFirstTs :: i64
  dsFirstSeq :: u64

text \<open>\<open>None\<close> is the panic of \<^verbatim>\<open>RecordAt\<close>.\<close>

definition describe :: "string \<Rightarrow> Reader \<Rightarrow> datasetFile option" where
  "describe path r =
     (let f = \<lparr>dsReader = r, dsPath = path, dsVenueID = reader_VenueID r, dsEmpty = (Len r = 0), dsFirstTs = 0, dsFirstSeq = 0\<rparr> in
      if dsEmpty f then Some f
      else map_option (\<lambda>rec. f\<lparr>dsFirstTs := ExchangeTs rec, dsFirstSeq := SequenceNumber rec\<rparr>) (RecordAt r 0))"

text \<open>\<^verbatim>\<open>closeFiles\<close>; the readers come back closed.\<close>

primrec bench_closeFiles :: "datasetFile list \<Rightarrow> bench_error option \<Rightarrow> bench_error option \<times> datasetFile list" where
  "bench_closeFiles [] cause = (cause, [])"
| "bench_closeFiles (f # fs) cause =
     (let (err, r) = reader_Close (dsReader f);
          cause = (if cause = None then map_option (\<lambda>e. BnMerge (MErrStore e)) err else cause);
          (cause, fs) = bench_closeFiles fs cause
      in (cause, f\<lparr>dsReader := r\<rparr> # fs))"

primrec entry_loop ::
    "(string \<Rightarrow> store_error + os_file) \<Rightarrow> string \<Rightarrow> direntry list \<Rightarrow> datasetFile list \<Rightarrow>
      (bench_error option \<times> datasetFile list) + datasetFile list" where
  "entry_loop os_Open dir [] files = Inr files"
| "entry_loop os_Open dir (e # es) files =
     (if deIsDir e \<or> filepath_Ext (deName e) \<noteq> ''.bin'' then entry_loop os_Open dir es files
      else let path = filepath_Join dir (deName e) in
        case Open os_Open path of
          Inl err \<Rightarrow> Inl (bench_closeFiles files (Some (BnMerge (MErrStore err))))
        | Inr r \<Rightarrow>
          (case describe path r of
             None \<Rightarrow> Inl (Some (BnMerge (MErrStore Panic)), files)
           | Some f \<Rightarrow> entry_loop os_Open dir es (files @ [f])))"

text \<open>\<^verbatim>\<open>compareDatasetFile\<close>: of one venue the empty files come last.\<close>

definition compareDatasetFile :: "datasetFile \<Rightarrow> u16 \<times> bool \<times> int \<times> u64 \<times> string" where
  "compareDatasetFile f = (dsVenueID f, dsEmpty f, sint (dsFirstTs f), dsFirstSeq f, dsPath f)"

section \<open>Partitions\<close>

record venue_partition =
  vpCursor :: Cursor
  vpRecords :: int

function venue_loop :: "datasetFile list \<Rightarrow> datasetFile list \<Rightarrow> (bench_error option \<times> datasetFile list) + venue_partition list" where
  "venue_loop files [] = Inr []"
| "venue_loop files (f # fs) =
     (let venue = dsVenueID f; g = f # takeWhile (\<lambda>g. dsVenueID g = venue) fs in
      case NewCursor venue (map dsReader g) of
        Inl e \<Rightarrow> Inl (bench_closeFiles files (Some (BnMerge e)))
      | Inr c \<Rightarrow>
        (case venue_loop files (dropWhile (\<lambda>g. dsVenueID g = venue) fs) of
           Inl e \<Rightarrow> Inl e
         | Inr parts \<Rightarrow> Inr (\<lparr>vpCursor = c, vpRecords = sum_list (map (Len \<circ> dsReader) g)\<rparr> # parts)))"
  by pat_completeness auto
termination
  by (relation "measure (\<lambda>(files, fs). length fs)") (auto simp: le_imp_less_Suc length_dropWhile_le)

definition openPartitions ::
    "(string \<Rightarrow> file_error + direntry list) \<Rightarrow> (string \<Rightarrow> store_error + os_file) \<Rightarrow> string \<Rightarrow>
      (bench_error option \<times> datasetFile list) + venue_partition list" where
  "openPartitions os_ReadDir os_Open dir =
     (case os_ReadDir dir of
        Inl e \<Rightarrow> Inl (Some (BnReadDir e), [])
      | Inr entries \<Rightarrow>
        (case entry_loop os_Open dir entries [] of
           Inl e \<Rightarrow> Inl e
         | Inr files \<Rightarrow>
           if files = [] then Inl (Some BnNoVenues, [])
           else let files = sort_key compareDatasetFile files in venue_loop files files))"

section \<open>Errors close every file\<close>

lemma bench_closeFiles_cause: "fst (bench_closeFiles fs (Some e)) = Some e"
  by (induction fs) (simp_all add: case_prod_unfold)

lemma bench_closeFiles_closed: "f \<in> set (snd (bench_closeFiles fs cause)) \<Longrightarrow> rClosed (dsReader f)"
  by (induction fs arbitrary: cause) (auto simp: case_prod_unfold reader_Close_def Let_def)

lemma entry_loop_closed:
  "entry_loop os_Open dir es files = Inl (e, fs) \<Longrightarrow> e \<noteq> Some (BnMerge (MErrStore Panic)) \<Longrightarrow> \<forall>f \<in> set fs. rClosed (dsReader f)"
proof (induction es arbitrary: files)
  case (Cons entry es)
  then show ?case
    using bench_closeFiles_closed [of _ files] by (auto simp: Let_def split: if_splits sum.splits option.splits) (metis snd_conv)
qed simp

lemma venue_loop_closed: "venue_loop files fs = Inl (e, gs) \<Longrightarrow> \<exists>cause. (e, gs) = bench_closeFiles files (Some cause)"
  by (induction files fs rule: venue_loop.induct) (auto simp: Let_def eq_commute [of "(e, gs)"] split: sum.splits)

lemma openPartitions_closed:
  assumes "openPartitions os_ReadDir os_Open dir = Inl (e, fs)" "e \<noteq> Some (BnMerge (MErrStore Panic))"
  shows "\<forall>f \<in> set fs. rClosed (dsReader f)"
proof -
  have "\<forall>f \<in> set fs. rClosed (dsReader f)" if "(e, fs) = bench_closeFiles files (Some cause)" for files cause
    using bench_closeFiles_closed [of _ files "Some cause"] by (simp add: that [symmetric])
  then show ?thesis
    using assms entry_loop_closed [of os_Open dir] venue_loop_closed
    by (auto simp: openPartitions_def Let_def split: sum.splits if_splits) blast+
qed

section \<open>The cursors\<close>

interpretation bench_files: venue_files dsVenueID dsReader compareDatasetFile
  by unfold_locales (auto simp: compareDatasetFile_def less_eq_prod_def)

definition first_place :: "Event \<Rightarrow> int \<times> u64" where
  "first_place ev = (sint (ExchangeTs (evRecord ev)), SequenceNumber (evRecord ev))"

text \<open>One file ends before the other begins, by time and then sequence number.\<close>

definition apart :: "datasetFile \<Rightarrow> datasetFile \<Rightarrow> bool" where
  "apart f g \<longleftrightarrow> (\<forall>x \<in> set (bench_files.events f). \<forall>y \<in> set (bench_files.events g). first_place x < first_place y)"

definition bench_sound :: "datasetFile list \<Rightarrow> bool" where
  "bench_sound fs \<longleftrightarrow> distinct (map dsPath fs)
     \<and> (\<forall>f \<in> set fs. bench_files.sound f \<and> describe (dsPath f) (dsReader f) = Some f)
     \<and> (\<forall>f \<in> set fs. \<forall>g \<in> set fs. f \<noteq> g \<longrightarrow> dsVenueID f = dsVenueID g \<longrightarrow> apart f g \<or> apart g f)"

lemma described:
  assumes "bench_files.sound f" "describe (dsPath f) (dsReader f) = Some f" "bench_files.events f \<noteq> []"
  shows "\<not> dsEmpty f" "first_place (hd (bench_files.events f)) = (sint (dsFirstTs f), dsFirstSeq f)"
proof -
  let ?r = "dsReader f" and ?evs = "reader_events (dsReader f)"
  have s: "sound_file ?r" "reader_wf ?r" using assms(1) by (simp_all add: bench_files.sound_def sound_file_def)
  have m: "map evRecord ?evs = contents ?r" by (rule map_evRecord_reader_events [OF s(1)])
  have c: "0 < length (contents ?r)" using assms(3) m by (metis bench_files.events_def length_greater_0_conv length_map)
  have "evRecord (hd ?evs) = contents ?r ! 0"
    using m c assms(3) by (metis bench_files.events_def hd_conv_nth length_greater_0_conv list.map_sel(1))
  moreover have "RecordAt ?r 0 = Some (contents ?r ! 0)" using RecordAt_wf [OF s(2) c] by simp
  moreover have l: "Len ?r \<noteq> 0" using Len_wf [OF s(2)] c by simp
  ultimately have f: "f = \<lparr>dsReader = ?r, dsPath = dsPath f, dsVenueID = reader_VenueID ?r, dsEmpty = False,
      dsFirstTs = ExchangeTs (evRecord (hd ?evs)), dsFirstSeq = SequenceNumber (evRecord (hd ?evs))\<rparr>"
    using assms(2) by (simp add: describe_def Let_def)
  show "\<not> dsEmpty f" using arg_cong [OF f, of dsEmpty] by simp
  show "first_place (hd (bench_files.events f)) = (sint (dsFirstTs f), dsFirstSeq f)"
    using arg_cong [OF f, of dsFirstTs] arg_cong [OF f, of dsFirstSeq] by (simp add: first_place_def bench_files.events_def)
qed

lemma apart_before:
  assumes "bench_files.sound f" "bench_files.sound g" "dsVenueID f = dsVenueID g" "apart f g"
  shows "bench_files.before f g"
  unfolding bench_files.before_def
proof (intro ballI)
  fix x y assume xy: "x \<in> set (bench_files.events f)" "y \<in> set (bench_files.events g)"
  have v: "VenueID (evRecord z) = dsVenueID h" if "bench_files.sound h" "z \<in> set (bench_files.events h)" for z h
  proof -
    have "evRecord z \<in> set (contents (dsReader h))"
      using that map_evRecord_reader_events [of "dsReader h"] unfolding bench_files.sound_def bench_files.events_def
      by (metis imageI list.set_map)
    with that(1) show ?thesis by (simp add: bench_files.sound_def)
  qed
  have "first_place x < first_place y" using assms(4) xy by (simp add: apart_def)
  then show "ev_key x < ev_key y"
    using v [OF assms(1) xy(1)] v [OF assms(2) xy(2)] assms(3)
    by (auto simp: first_place_def key_less_iff key_tuple_def keyOf_def less_prod_def)
qed

lemma bench_separate:
  assumes "bench_sound fs"
  shows "bench_files.separate fs"
proof -
  have "bench_files.before f g" if fg: "f \<in> set fs" "g \<in> set fs" "f \<noteq> g" "dsVenueID f = dsVenueID g"
    "compareDatasetFile f \<le> compareDatasetFile g" for f g
  proof -
    have s: "bench_files.sound f" "bench_files.sound g" "describe (dsPath f) (dsReader f) = Some f" "describe (dsPath g) (dsReader g) = Some g"
      using assms fg(1,2) by (simp_all add: bench_sound_def)
    consider "apart f g" | "apart g f" "bench_files.events f \<noteq> []" "bench_files.events g \<noteq> []"
      | "bench_files.events f = [] \<or> bench_files.events g = []" using assms fg(1-4) by (auto simp: bench_sound_def)
    then show ?thesis
    proof cases
      case 1
      then show ?thesis using apart_before s fg(4) by blast
    next
      case 2
      then have "first_place (hd (bench_files.events g)) < first_place (hd (bench_files.events f))" by (simp add: apart_def)
      then have "compareDatasetFile g < compareDatasetFile f"
        using described [OF s(1,3) 2(2)] described [OF s(2,4) 2(3)] fg(4) by (auto simp: compareDatasetFile_def less_prod_def)
      with fg(5) show ?thesis by simp
    qed (auto simp: bench_files.before_def)
  qed
  moreover have "distinct fs" using assms by (auto simp: bench_sound_def distinct_map)
  ultimately show ?thesis using assms by (auto simp: bench_files.separate_def bench_sound_def)
qed

lemma venue_loop_ok:
  assumes "\<forall>f \<in> set fs. bench_files.sound f" "sorted_wrt bench_files.follows fs"
  shows "\<exists>parts. venue_loop files fs = Inr parts \<and> sound_cursors (map vpCursor parts)
    \<and> set (map (cVenueID \<circ> vpCursor) parts) \<subseteq> dsVenueID ` set fs
    \<and> concat (map (cursor_rest \<circ> vpCursor) parts) = concat (map bench_files.events fs)
    \<and> sum_list (map vpRecords parts) = int (length (concat (map bench_files.events fs)))"
  using assms
proof (induction files fs rule: venue_loop.induct)
  case (2 files f fs)
  let ?same = "\<lambda>g. dsVenueID g = dsVenueID f"
  let ?g = "f # takeWhile ?same fs" and ?r = "dropWhile ?same fs"
  note fg = bench_files.first_group [OF "2.prems"]
  obtain c where c: "NewCursor (dsVenueID f) (map dsReader ?g) = Inr c" "cursor_ok c" "cursor_rest c = partition_events (map dsReader ?g)"
      "\<not> cHasLast c" "cVenueID c = dsVenueID f"
    using NewCursor_ok [OF fg(2)] by blast
  from "2.IH" [OF refl refl c(1) fg(4,5)] obtain parts where
    p: "venue_loop files ?r = Inr parts" "sound_cursors (map vpCursor parts)" "set (map (cVenueID \<circ> vpCursor) parts) \<subseteq> dsVenueID ` set ?r"
      "concat (map (cursor_rest \<circ> vpCursor) parts) = concat (map bench_files.events ?r)"
      "sum_list (map vpRecords parts) = int (length (concat (map bench_files.events ?r)))"
    by blast
  let ?p = "\<lparr>vpCursor = c, vpRecords = sum_list (map (Len \<circ> dsReader) ?g)\<rparr>"
  have "venue_loop files (f # fs) = Inr (?p # parts)" using c(1) p(1) by (simp add: Let_def)
  moreover have "sound_cursors (map vpCursor (?p # parts))" using p(2,3) c(2,4,5) fg(6) by (auto simp: sound_cursors_def)
  moreover have "set (map (cVenueID \<circ> vpCursor) (?p # parts)) \<subseteq> dsVenueID ` set (f # fs)"
    using p(3) c(5) by (auto dest: set_dropWhileD)
  moreover have "concat (map (cursor_rest \<circ> vpCursor) (?p # parts)) = concat (map bench_files.events (f # fs))"
    by (simp only: fg(1) map_append concat_append list.map(2) concat.simps(2) p(4) comp_apply venue_partition.select_convs c(3)
      fg(3) [simplified list.map(2)])
  moreover have "sum_list (map vpRecords (?p # parts)) = int (length (concat (map bench_files.events (f # fs))))"
  proof -
    have "Len (dsReader h) = int (length (bench_files.events h))" if "h \<in> set ?g" for h
    proof -
      have "bench_files.sound h" using "2.prems"(1) that by (auto dest: set_takeWhileD)
      then have "sound_file (dsReader h)" "reader_wf (dsReader h)" by (simp_all add: bench_files.sound_def sound_file_def)
      then show ?thesis
        using Len_wf map_evRecord_reader_events by (metis bench_files.events_def length_map)
    qed
    then have "map (Len \<circ> dsReader) ?g = map (\<lambda>h. int (length (bench_files.events h))) ?g" by (intro map_cong) auto
    moreover have "sum_list (map (\<lambda>h. int (length (bench_files.events h))) hs) = int (length (concat (map bench_files.events hs)))" for hs
      by (induction hs) simp_all
    ultimately have "sum_list (map (Len \<circ> dsReader) ?g) = int (length (concat (map bench_files.events ?g)))" by metis
    then show ?thesis unfolding fg(1) map_append concat_append length_append of_nat_add using p(5)
      by (simp only: list.map(2) sum_list.Cons venue_partition.select_convs)
  qed
  ultimately show ?case by blast
qed (simp add: sound_cursors_def)

definition bin_paths :: "string \<Rightarrow> direntry list \<Rightarrow> string list" where
  "bin_paths dir es = map (filepath_Join dir \<circ> deName) (filter (\<lambda>e. \<not> deIsDir e \<and> filepath_Ext (deName e) = ''.bin'') es)"

lemma entry_loop_ok:
  assumes "list_all2 (\<lambda>path f. Open os_Open path = Inr (dsReader f) \<and> describe path (dsReader f) = Some f) (bin_paths dir es) fs"
  shows "entry_loop os_Open dir es files = Inr (files @ fs)"
  using assms
proof (induction es arbitrary: files fs)
  case (Cons e es)
  show ?case
  proof (cases "deIsDir e \<or> filepath_Ext (deName e) \<noteq> ''.bin''")
    case True
    then show ?thesis using Cons by (auto simp: bin_paths_def)
  next
    case False
    then obtain f fs' where "fs = f # fs'" "Open os_Open (filepath_Join dir (deName e)) = Inr (dsReader f)"
      "describe (filepath_Join dir (deName e)) (dsReader f) = Some f"
      "list_all2 (\<lambda>path f. Open os_Open path = Inr (dsReader f) \<and> describe path (dsReader f) = Some f) (bin_paths dir es) fs'"
      using Cons.prems by (auto simp: bin_paths_def list_all2_Cons1)
    then show ?thesis using Cons.IH [of fs' "files @ [f]"] False by (simp add: Let_def)
  qed
qed (simp add: bin_paths_def)

text \<open>What the harness merges is the set of the records, whatever the directory listing and the names are.\<close>

lemma openPartitions_ok:
  assumes "os_ReadDir dir = Inr es"
    and "list_all2 (\<lambda>path f. Open os_Open path = Inr (dsReader f) \<and> describe path (dsReader f) = Some f) (bin_paths dir es) fs"
    and "bench_sound fs" "fs \<noteq> []"
  shows "\<exists>parts. openPartitions os_ReadDir os_Open dir = Inr parts \<and> sound_cursors (map vpCursor parts)
    \<and> merge_of (map vpCursor parts) = sort_key ev_key (filter live (concat (map bench_files.events fs)))
    \<and> sum_list (map vpRecords parts) = int (length (concat (map bench_files.events fs)))"
proof -
  let ?fs = "sort_key compareDatasetFile fs"
  note sep = bench_separate [OF assms(3)]
  obtain parts where p: "venue_loop ?fs ?fs = Inr parts" "sound_cursors (map vpCursor parts)"
      "concat (map (cursor_rest \<circ> vpCursor) parts) = concat (map bench_files.events ?fs)"
      "sum_list (map vpRecords parts) = int (length (concat (map bench_files.events ?fs)))"
    using venue_loop_ok [OF bench_files.sort_follows(2,1) [OF sep], of ?fs] by blast
  have "openPartitions os_ReadDir os_Open dir = Inr parts"
    using assms(1,4) entry_loop_ok [OF assms(2), of "[]"] p(1) by (simp add: openPartitions_def Let_def)
  moreover have m: "mset (concat (map bench_files.events ?fs)) = mset (concat (map bench_files.events fs))"
    by (simp add: mset_concat sum_mset_sum_list [symmetric] image_mset.compositionality comp_def)
  moreover have "sort_key ev_key (filter live (concat (map bench_files.events ?fs)))
      = sort_key ev_key (filter live (concat (map bench_files.events fs)))"
  proof (rule sort_key_inj_key_eq)
    show "mset (filter live (concat (map bench_files.events ?fs))) = mset (sort_key ev_key (filter live (concat (map bench_files.events fs))))"
      using m by simp
    show "inj_on ev_key (set (filter live (concat (map bench_files.events ?fs))))"
      by (rule inj_on_subset [OF bench_files.separate_inj [OF sep]]) auto
  qed simp
  moreover have "merge_of (map vpCursor parts) = sort_key ev_key (filter live (concat (map bench_files.events ?fs)))"
    using p(3) by (simp add: merge_of_def comp_def)
  ultimately show ?thesis using p(2,4) mset_eq_length [OF m] by auto
qed

end
