(* ===== verification/Server_Wire.thy ===== *)
theory Server_Wire
  imports Fanout_Run Fanout_Speed
begin

text \<open>
  The wire of the replay server: the request and response messages of \<^verbatim>\<open>src/api/replay.proto\<close> and their
  translations in \<^verbatim>\<open>src/cmd/replayd/server.go\<close>, the status codes, the metrics and the send loop of
  \<^verbatim>\<open>Subscribe\<close>. The transport is a parameter: what each \<^verbatim>\<open>Send\<close> returned and whether the client is gone.
\<close>

section \<open>Requests\<close>

datatype server_error =
    errModeUnspecified | errStartUnset | errSpeedMismatch | SrvSpeed speed_error | SrvFanout fanout_error
  | SrvStore store_error

text \<open>An enum of proto3 is a number of 32 bits, which a client may set to any value.\<close>

definition MODE_BLOCK :: int where "MODE_BLOCK = 1"
definition MODE_DROP :: int where "MODE_DROP = 2"

datatype start_case = ReqBeginning | ReqExchangeTs i64 | ReqEmitIndex u64 | ReqLive

record SubscribeRequest =
  rqMode :: int
  rqStart :: "start_case option"
  rqSpeedNum :: int
  rqSpeedDen :: int

definition modeFromProto :: "int \<Rightarrow> server_error + BackpressureMode" where
  "modeFromProto m =
     (if m = MODE_BLOCK then Inr ModeBlock
      else if m = MODE_DROP then Inr ModeDrop
      else Inl errModeUnspecified)"

definition startKindBeginning :: string where "startKindBeginning = ''beginning''"
definition startKindExchangeTs :: string where "startKindExchangeTs = ''exchange_ts''"
definition startKindEmitIndex :: string where "startKindEmitIndex = ''emit_index''"
definition startKindLive :: string where "startKindLive = ''live''"

definition startFromProto :: "SubscribeRequest \<Rightarrow> server_error + StartAt \<times> string" where
  "startFromProto req =
     (case rqStart req of
        Some ReqBeginning \<Rightarrow> Inr (Beginning, startKindBeginning)
      | Some (ReqExchangeTs t) \<Rightarrow> Inr (at_ExchangeTs t, startKindExchangeTs)
      | Some (ReqEmitIndex i) \<Rightarrow> Inr (at_EmitIndex i, startKindEmitIndex)
      | Some ReqLive \<Rightarrow> Inr (Live, startKindLive)
      | None \<Rightarrow> Inl errStartUnset)"

section \<open>Responses\<close>

record wire_record =
  wExchangeTs :: i64
  wSequenceNumber :: u64
  wInstrumentId :: u32
  wVenueId :: u32
  wRecordType :: u32
  wSideFlags :: u32
  wPrice :: i64
  wSize :: i64
  wLevelCount :: u32
  wLevels :: "Level list"
  wBidCount :: u32

record SubscribeResponse =
  rsRecord :: wire_record
  rsHasGap :: bool
  rsFirstMissedIndex :: u64
  rsLastMissedIndex :: u64
  rsMissedCount :: u64

definition delivery_blob :: "Delivery \<Rightarrow> bytes" where
  "delivery_blob d = (case dBlob d of None \<Rightarrow> [] | Some b \<Rightarrow> b)"

definition record_to_wire :: "Record \<Rightarrow> wire_record" where
  "record_to_wire rec =
     \<lparr>wExchangeTs = ExchangeTs rec, wSequenceNumber = SequenceNumber rec, wInstrumentId = InstrumentID rec,
      wVenueId = ucast (VenueID rec), wRecordType = ucast (RecordType rec), wSideFlags = ucast (SideFlags rec),
      wPrice = Price rec, wSize = Size rec, wLevelCount = ucast (LevelCount rec), wLevels = [], wBidCount = 0\<rparr>"

text \<open>The second result is the scratch space, which the next call gets back.\<close>

definition deliveryToProto :: "Delivery \<Rightarrow> Level list \<Rightarrow> (store_error + SubscribeResponse) \<times> Level list" where
  "deliveryToProto d levels =
     (let rec = record_to_wire (dRecord d);
          resp = (\<lambda>rec. if dHasGap d
            then \<lparr>rsRecord = rec, rsHasGap = dHasGap d, rsFirstMissedIndex = FirstMissedIndex (dGap d),
                  rsLastMissedIndex = LastMissedIndex (dGap d), rsMissedCount = Count (dGap d)\<rparr>
            else \<lparr>rsRecord = rec, rsHasGap = dHasGap d, rsFirstMissedIndex = 0, rsLastMissedIndex = 0, rsMissedCount = 0\<rparr>)
      in if RecordType (dRecord d) = RecordTypeSnapshotPointer then
           (case AppendLevelsFromPayload (take 0 levels) (delivery_blob d) of
              (levels, bids, Some e) \<Rightarrow> (Inl e, levels)
            | (levels, bids, None) \<Rightarrow> (Inr (resp (rec\<lparr>wBidCount := of_nat bids, wLevels := levels\<rparr>)), levels))
         else (Inr (resp rec), levels))"

section \<open>Status codes\<close>

datatype code = Aborted | FailedPrecondition | InvalidArgument | OutOfRange | Internal

text \<open>A status with the error whose text it carries, or the status of the client's own context.\<close>

datatype 'c status = Status code server_error | FromContext 'c | SendFailed

definition subscribeStatus :: "server_error \<Rightarrow> 'c status" where
  "subscribeStatus err =
     (if err = SrvFanout ErrModeUnset \<or> err = SrvFanout ErrStartUnset then Status InvalidArgument err
      else if err = SrvFanout ErrStartLapped then Status OutOfRange err
      else if err = SrvFanout ErrClosed \<or> err = errSpeedMismatch then Status FailedPrecondition err
      else Status Internal err)"

text \<open>The context's error, \<open>None\<close> while the client is there.\<close>

definition deliveryStatus :: "'c option \<Rightarrow> fanout_error \<Rightarrow> 'c status" where
  "deliveryStatus ctx err =
     (if err = ErrCanceled then
        (case ctx of Some cerr \<Rightarrow> FromContext cerr | None \<Rightarrow> Status Aborted (SrvFanout err))
      else if err = ErrEvicted then Status Aborted (SrvFanout err)
      else Status Internal (SrvFanout err))"

section \<open>The send loop\<close>

text \<open>
  The counters. Prometheus keeps them as floats; every value added is integral, so below \<open>2 ^ 53\<close> the
  float is this sum.
\<close>

record metrics =
  mxRecordsEmitted :: nat
  mxBytesEmitted :: nat
  mxGapsDetected :: nat
  mxRecordsMissed :: nat

definition count_delivery :: "Delivery \<Rightarrow> metrics \<Rightarrow> metrics" where
  "count_delivery d mx =
     (let mx = mx\<lparr>mxRecordsEmitted := mxRecordsEmitted mx + 1,
                  mxBytesEmitted := mxBytesEmitted mx + (RecordSize + length (delivery_blob d))\<rparr>
      in if dHasGap d then mx\<lparr>mxGapsDetected := mxGapsDetected mx + 1,
                              mxRecordsMissed := mxRecordsMissed mx + unat (Count (dGap d))\<rparr>
         else mx)"

text \<open>
  One subscriber's loop over what its calls of \<^verbatim>\<open>Next\<close> return; \<open>send\<close> says whether the transport takes
  a message after those it has taken. The result is the messages it took, the metrics and the status the
  handler returns: \<open>Some None\<close> is \<^verbatim>\<open>nil\<close>, and \<open>None\<close> says that the loop is still running.
\<close>

primrec send_loop ::
    "(SubscribeResponse list \<Rightarrow> SubscribeResponse \<Rightarrow> bool) \<Rightarrow> 'c option \<Rightarrow> outcome list \<Rightarrow> Level list \<Rightarrow> SubscribeResponse list
     \<Rightarrow> metrics \<Rightarrow> SubscribeResponse list \<times> metrics \<times> 'c status option option" where
  "send_loop send ctx [] levels sent mx = (sent, mx, None)"
| "send_loop send ctx (out # outs) levels sent mx =
     (case out of
        Stopped e \<Rightarrow> (sent, mx, Some (Some (deliveryStatus ctx e)))
      | EndOfStream \<Rightarrow> (sent, mx, Some None)
      | Delivered d \<Rightarrow>
          (case deliveryToProto d levels of
             (Inl e, levels) \<Rightarrow> (sent, mx, Some (Some (Status Internal (SrvStore e))))
           | (Inr resp, levels) \<Rightarrow>
               (if send sent resp then send_loop send ctx outs levels (sent @ [resp]) (count_delivery d mx)
                else (sent, mx, Some (Some SendFailed)))))"

section \<open>Entries that a client can rebuild\<close>

text \<open>What a client makes of a message: the record without its place in the file, and the payload.\<close>

definition client_entry :: "SubscribeResponse \<Rightarrow> entry" where
  "client_entry resp =
     (let w = rsRecord resp; bids = unat (wBidCount w) in
      (zeroRecord\<lparr>ExchangeTs := wExchangeTs w, SequenceNumber := wSequenceNumber w, InstrumentID := wInstrumentId w,
         VenueID := ucast (wVenueId w), RecordType := ucast (wRecordType w), SideFlags := ucast (wSideFlags w),
         Price := wPrice w, Size := wSize w, LevelCount := ucast (wLevelCount w)\<rparr>,
       payload_bytes (take bids (wLevels w)) (drop bids (wLevels w))))"

text \<open>A snapshot whose payload decodes.\<close>

definition wire_ok :: "entry \<Rightarrow> bool" where
  "wire_ok e \<longleftrightarrow> (is_snap (fst e) \<longrightarrow>
     (let bids = unat (Uint16 (snd e) 0); asks = unat (Uint16 (snd e) 2) in
      length (snd e) = 4 + 16 * (bids + asks) \<and> bids + asks \<le> 65535))"

lemma event_of_wire_ok:
  assumes "event_of r rec = Inr ev"
  shows "wire_ok (entry_of ev)"
proof (cases "is_snap rec")
  case False
  then show ?thesis using event_of_record [OF assms] by (simp add: wire_ok_def entry_of_def)
next
  case True
  then obtain p where p: "Blob r rec = Inr p" "ev = \<lparr>evRecord = rec, evBlob = Some p\<rparr>"
    using assms by (auto simp: event_of_def is_snap_def split: sum.splits)
  let ?b = "Uint16 p 0" and ?a = "Uint16 p 2"
  from p(1) have v: "validateRecord rec = None" "(ucast ?b + ucast ?a :: u32) = ucast (LevelCount rec)"
    by (auto simp: Blob_def failE_eq_Inr_iff bindE_eq_Inr_iff Let_def split: if_splits)
  have len: "int (length p) = blob_length rec" by (rule Blob_length [OF p(1)])
  have up: "unat (ucast x :: u32) = unat x" for x :: u16 by (simp add: unat_ucast_up)
  have small: "unat x < 65536" for x :: u16 using unsigned_less [of x, where ?'a = nat] by simp
  have "unat (ucast ?b + ucast ?a :: u32) = unat ?b + unat ?a"
    using small [of ?b] small [of ?a] by (subst unat_add_lem [THEN iffD1]) (simp_all add: up)
  then have n: "unat ?b + unat ?a = unat (LevelCount rec)" unfolding v(2) by (simp add: up)
  have "\<not> BlobLen rec < 8" "(BlobLen rec - 8) mod 16 = 0" "ucast (LevelCount rec) = (BlobLen rec - 8) div 16"
    using v(1) True by (auto simp: validateRecord_def is_snap_def blobHeaderSize_def levelSize_def split: if_splits)
  then have "8 \<le> BlobLen rec" "unat ((BlobLen rec - 8) mod 16) = 0"
      "unat (ucast (LevelCount rec) :: u32) = unat ((BlobLen rec - 8) div 16)" by (simp_all add: not_less)
  moreover from this(1) have "unat (BlobLen rec - 8) = unat (BlobLen rec) - 8" "8 \<le> unat (BlobLen rec)"
    by (simp_all add: unat_sub word_le_nat_alt)
  ultimately have "unat (BlobLen rec) = 8 + 16 * unat (LevelCount rec)"
    using div_mult_mod_eq [of "unat (BlobLen rec) - 8" 16] by (simp add: unat_mod_distrib unat_div_distrib up) linarith
  then have "length p = 4 + 16 * unat (LevelCount rec)" using len unfolding blob_length_def by linarith
  moreover have "unat (LevelCount rec) \<le> 65535" using small [of "LevelCount rec"] by simp
  ultimately show ?thesis using n p(2) by (simp add: wire_ok_def entry_of_def ev_payload_def Let_def)
qed

lemma appendLevels_loop_map: "appendLevels_loop p i k dst = dst @ map (level_at p) [i..<i + k]"
proof (induction k arbitrary: i dst)
  case (Suc k)
  have "[i..<i + Suc k] = i # [Suc i..<Suc i + k]" by (simp add: upt_conv_Cons)
  then show ?case using Suc.IH by simp
qed simp

lemma level_bytes_at: "4 + 16 * i + 16 \<le> length p \<Longrightarrow> level_bytes (level_at p i) = sub p (4 + 16 * i) 16"
proof -
  assume "4 + 16 * i + 16 \<le> length p"
  then have "level_bytes (level_at p i) = sub p (4 + 16 * i) 8 @ sub p (4 + 16 * i + 8) 8"
    by (simp add: level_at_def level_bytes_def payloadHeaderSize_def blobHeaderSize_def levelSize_def le_simps mult.commute)
  also have "\<dots> = sub p (4 + 16 * i) 16" by (simp add: sub_def take_add [of 8 8, simplified] add.commute)
  finally show ?thesis .
qed

lemma levels_bytes_at: "4 + 16 * n \<le> length p \<Longrightarrow> levels_bytes (map (level_at p) [0..<n]) = sub p 4 (16 * n)"
proof (induction n)
  case (Suc n)
  then have "levels_bytes (map (level_at p) [0..<Suc n]) = sub p 4 (16 * n) @ sub p (4 + 16 * n) 16"
    by (simp add: levels_bytes_append) (simp add: levels_bytes_def level_bytes_at)
  also have "\<dots> = sub p 4 (16 * Suc n)" using take_add [of "16 * n" 16 "drop 4 p"] by (simp add: sub_def add.commute)
  finally show ?case .
qed (simp add: levels_bytes_def sub_def)

text \<open>A payload is rebuilt from the levels it decodes to.\<close>

lemma payload_rebuilt:
  assumes "length p = 4 + 16 * (unat (Uint16 p 0) + unat (Uint16 p 2))"
  shows "\<exists>levels. AppendLevelsFromPayload [] p = (levels, unat (Uint16 p 0), None)
    \<and> payload_bytes (take (unat (Uint16 p 0)) levels) (drop (unat (Uint16 p 0)) levels) = p"
proof -
  let ?b = "unat (Uint16 p 0)" and ?a = "unat (Uint16 p 2)"
  let ?ls = "map (level_at p) [0..<?b + ?a]"
  have "AppendLevelsFromPayload [] p = (?ls, ?b, None)"
    using assms by (simp add: AppendLevelsFromPayload_def payloadHeaderSize_def blobHeaderSize_def levelSize_def Let_def
        appendLevels_loop_map mult.commute)
  moreover have "payload_bytes (take ?b ?ls) (drop ?b ?ls) = p"
  proof -
    have "payload_bytes (take ?b ?ls) (drop ?b ?ls) = le_bytes 2 (Uint16 p 0) @ le_bytes 2 (Uint16 p 2) @ levels_bytes ?ls"
      by (simp add: payload_bytes_def)
    also have "\<dots> = sub p 0 2 @ sub p 2 2 @ sub p 4 (16 * (?b + ?a))"
      using assms by (simp add: le_simps levels_bytes_at)
    also have "\<dots> = p"
    proof -
      have "sub p 4 (16 * (?b + ?a)) = drop 4 p" by (simp add: sub_def assms)
      moreover have "sub p 0 2 @ sub p 2 2 = take 4 p" by (simp add: sub_def take_add [of 2 2, simplified])
      ultimately show ?thesis by (metis append.assoc append_take_drop_id)
    qed
    finally show ?thesis .
  qed
  ultimately show ?thesis by blast
qed

lemma deliveryToProto_ok:
  assumes "wire_ok e" "dRecord d = fst e" "dBlob d = entry_blob e"
  shows "\<exists>resp levels'. deliveryToProto d levels = (Inr resp, levels') \<and> canonical_view (client_entry resp) = canonical_view e
    \<and> rsHasGap resp = dHasGap d \<and> (dHasGap d \<longrightarrow> rsFirstMissedIndex resp = FirstMissedIndex (dGap d)
        \<and> rsLastMissedIndex resp = LastMissedIndex (dGap d) \<and> rsMissedCount resp = Count (dGap d))"
proof -
  have down: "ucast (ucast x :: u32) = x" "ucast (ucast y :: u32) = y" for x :: u16 and y :: u8
    by (simp_all add: ucast_up_ucast_id is_up)
  show ?thesis
  proof (cases "is_snap (fst e)")
    case False
    then show ?thesis
      using assms(2) by (auto simp: deliveryToProto_def is_snap_def Let_def record_to_wire_def client_entry_def canonical_view_def down)
  next
    case True
    let ?p = "snd e"
    have b: "delivery_blob d = ?p" using assms(3) True by (simp add: delivery_blob_def entry_blob_def is_snap_def)
    have "length ?p = 4 + 16 * (unat (Uint16 ?p 0) + unat (Uint16 ?p 2))" using assms(1) True by (simp add: wire_ok_def Let_def)
    from payload_rebuilt [OF this] obtain levels' where
      l: "AppendLevelsFromPayload [] ?p = (levels', unat (Uint16 ?p 0), None)"
        "payload_bytes (take (unat (Uint16 ?p 0)) levels') (drop (unat (Uint16 ?p 0)) levels') = ?p" by blast
    have "unat (Uint16 ?p 0) < 65536" using unsigned_less [of "Uint16 ?p 0", where ?'a = nat] by simp
    then have n: "unat (of_nat (unat (Uint16 ?p 0)) :: u32) = unat (Uint16 ?p 0)"
      by (simp add: unat_ucast_up)
    show ?thesis
      using True assms(2) l n
      by (auto simp: deliveryToProto_def is_snap_def Let_def record_to_wire_def client_entry_def canonical_view_def down b)
  qed
qed

end
