(* ===== verification/Server_Send.thy ===== *)
theory Server_Send
  imports Server_Wire Fanout_Finish
begin

text \<open>
  What a client receives: the deliveries of its subscriber, in its own words, and what the server counts
  of them. A client that has seen no gap can compute the digest of the run from its messages.
\<close>

section \<open>Deliveries of a trace\<close>

fun deliveries :: "outcome list \<Rightarrow> Delivery list" where
  "deliveries [] = []"
| "deliveries (Delivered d # outs) = d # deliveries outs"
| "deliveries (_ # outs) = deliveries outs"

definition missed :: "Delivery \<Rightarrow> nat" where
  "missed d = (if dHasGap d then unat (Count (dGap d)) else 0)"

lemma tile_some:
  assumes "tile log c d = Some c'"
  shows "c' = c + missed d + 1" "c' \<le> length log" "\<exists>e \<in> set log. dRecord d = fst e \<and> dBlob d = entry_blob e"
    "\<not> dHasGap d \<Longrightarrow> c < length log \<and> dRecord d = fst (log ! c) \<and> dBlob d = entry_blob (log ! c)"
  using assms by (auto simp: tile_def missed_def Let_def split: if_splits)

lemma tiles_in: "tiles log c outs = Some c' \<Longrightarrow> d \<in> set (deliveries outs) \<Longrightarrow> \<exists>e \<in> set log. dRecord d = fst e \<and> dBlob d = entry_blob e"
  by (induction log c outs rule: tiles.induct) (auto dest: tile_some(3) split: option.splits)

lemma tiles_count:
  "tiles log c outs = Some c' \<Longrightarrow> c' = c + length (deliveries outs) + sum_list (map missed (deliveries outs))"
  by (induction log c outs rule: tiles.induct) (auto dest: tile_some(1) split: option.splits)

lemma tiles_bound: "tiles log c outs = Some c' \<Longrightarrow> c \<le> length log \<Longrightarrow> c' \<le> length log"
  by (induction log c outs rule: tiles.induct) (auto dest: tile_some(2) split: option.splits)

lemma tiles_prefix:
  "tiles log c outs = Some c' \<Longrightarrow> n \<le> length (deliveries outs) \<Longrightarrow> list_all (\<lambda>d. \<not> dHasGap d) (take n (deliveries outs)) \<Longrightarrow>
   map (\<lambda>d. (dRecord d, dBlob d)) (take n (deliveries outs)) = map deliverable (sub log c n)"
proof (induction log c outs arbitrary: n rule: tiles.induct)
  case (2 log c d outs)
  show ?case
  proof (cases n)
    case (Suc m)
    obtain c1 where c1: "tile log c d = Some c1" "tiles log c1 outs = Some c'" using "2.prems"(1) by (auto split: option.splits)
    have "\<not> dHasGap d" using "2.prems"(3) Suc by simp
    then have t: "c1 = Suc c" "c < length log" "dRecord d = fst (log ! c)" "dBlob d = entry_blob (log ! c)"
      using tile_some(1,4) [OF c1(1)] by (simp_all add: missed_def)
    have "map (\<lambda>d. (dRecord d, dBlob d)) (take m (deliveries outs)) = map deliverable (sub log (Suc c) m)"
      using "2.IH" [OF c1(1), of m] c1(2) "2.prems"(2,3) Suc t(1) by simp
    moreover have "sub log c (Suc m) = log ! c # sub log (Suc c) m"
      using t(2) by (simp add: sub_def Cons_nth_drop_Suc [symmetric])
    ultimately show ?thesis using t Suc by (simp add: deliverable_def)
  qed (simp add: sub_def)
qed (simp_all add: sub_def)

section \<open>The send loop\<close>

definition says :: "Delivery \<Rightarrow> SubscribeResponse \<Rightarrow> bool" where
  "says d resp \<longleftrightarrow> canonical_view (client_entry resp) = canonical_view (dRecord d, delivery_blob d)
     \<and> rsHasGap resp = dHasGap d \<and> (dHasGap d \<longrightarrow> rsFirstMissedIndex resp = FirstMissedIndex (dGap d)
        \<and> rsLastMissedIndex resp = LastMissedIndex (dGap d) \<and> rsMissedCount resp = Count (dGap d))"

definition wired :: "Delivery \<Rightarrow> bool" where
  "wired d \<longleftrightarrow> (\<exists>e. wire_ok e \<and> dRecord d = fst e \<and> dBlob d = entry_blob e)"

lemma canonical_view_blob:
  "dRecord d = fst e \<Longrightarrow> dBlob d = entry_blob e \<Longrightarrow> canonical_view (dRecord d, delivery_blob d) = canonical_view e"
  by (simp add: canonical_view_def delivery_blob_def entry_blob_def is_snap_def Let_def)

text \<open>The digest sees of a record only its canonical view.\<close>

lemma canonical_input_view:
  assumes "map canonical_view xs = map canonical_view ys"
  shows "canonical_input xs = canonical_input ys"
proof -
  have "frame x = frame y \<longleftrightarrow> canonical_view x = canonical_view y" for x y
    using frame_body_eq_iff [of x y] unfolding frame_def by (metis append_same_length length_le_bytes)
  moreover have "length xs = length ys" using assms by (rule map_eq_imp_length_eq)
  ultimately have "map frame xs = map frame ys" using assms by (simp add: list_eq_iff_nth_eq)
  then show ?thesis using \<open>length xs = length ys\<close> by (simp only: canonical_input_def)
qed

definition codec_error :: "'c status option option \<Rightarrow> bool" where
  "codec_error st \<longleftrightarrow> (\<exists>e. st = Some (Some (Status Internal (SrvStore e))))"

lemma send_loop_ok:
  assumes "list_all wired (deliveries outs)" "send_loop send ctx outs levels sent0 mx0 = (sent, mx, st)"
  shows "\<exists>new. sent = sent0 @ new \<and> length new \<le> length (deliveries outs) \<and> list_all2 says (take (length new) (deliveries outs)) new
    \<and> mx = fold count_delivery (take (length new) (deliveries outs)) mx0 \<and> \<not> codec_error st"
  using assms
proof (induction outs arbitrary: levels sent0 mx0)
  case Nil
  then show ?case by (simp add: codec_error_def)
next
  case (Cons out outs)
  show ?case
  proof (cases out)
    case (Delivered d)
    then obtain e where e: "wire_ok e" "dRecord d = fst e" "dBlob d = entry_blob e"
      using Cons.prems(1) by (auto simp: wired_def)
    from deliveryToProto_ok [OF e, of levels] obtain resp levels' where
      r: "deliveryToProto d levels = (Inr resp, levels')" and s: "says d resp"
      using canonical_view_blob [OF e(2,3)] by (auto simp: says_def)
    show ?thesis
    proof (cases "send sent0 resp")
      case True
      then have "send_loop send ctx outs levels' (sent0 @ [resp]) (count_delivery d mx0) = (sent, mx, st)"
        using Cons.prems(2) Delivered r by simp
      from Cons.IH [OF _ this] obtain new where "sent = (sent0 @ [resp]) @ new" "length new \<le> length (deliveries outs)"
          "list_all2 says (take (length new) (deliveries outs)) new"
          "mx = fold count_delivery (take (length new) (deliveries outs)) (count_delivery d mx0)" "\<not> codec_error st"
        using Cons.prems(1) Delivered by auto
      then show ?thesis using Delivered s by (intro exI [of _ "resp # new"]) simp
    next
      case False
      then show ?thesis using Cons.prems(2) Delivered r by (auto simp: codec_error_def)
    qed
  next
    case EndOfStream
    then show ?thesis using Cons.prems(2) by (auto simp: codec_error_def)
  next
    case (Stopped e)
    then show ?thesis using Cons.prems(2) by (auto simp: codec_error_def deliveryStatus_def split: option.splits if_splits)
  qed
qed

definition no_metrics :: metrics where
  "no_metrics = \<lparr>mxRecordsEmitted = 0, mxBytesEmitted = 0, mxGapsDetected = 0, mxRecordsMissed = 0\<rparr>"

lemma fold_count:
  "fold count_delivery ds mx =
    \<lparr>mxRecordsEmitted = mxRecordsEmitted mx + length ds,
     mxBytesEmitted = mxBytesEmitted mx + sum_list (map (\<lambda>d. RecordSize + length (delivery_blob d)) ds),
     mxGapsDetected = mxGapsDetected mx + length (filter dHasGap ds),
     mxRecordsMissed = mxRecordsMissed mx + sum_list (map missed ds)\<rparr>"
  by (induction ds arbitrary: mx) (simp_all add: count_delivery_def missed_def Let_def)

lemma says_gaps:
  "list_all2 says ds resps \<Longrightarrow> map dHasGap ds = map rsHasGap resps"
  by (induction rule: list_all2_induct) (simp_all add: says_def)

section \<open>In a run\<close>

lemma run_wired:
  assumes "run_inputs cfg cs workers shape" "fan_run cfg cs workers shape algo paced s" "k < length (rSubs (sysRing s))"
    and "u = rSubs (sysRing s) ! k" "unat (sbFrom u) < 2 ^ 63"
  shows "tiles (sysLog s) (unat (sbFrom u)) (sbTrace u) = Some (unat (sub_Cursor u))"
    "list_all wired (deliveries (sbTrace u))" "prefix (sysLog s) (merged cs)"
    "EndOfStream \<in> set (sbTrace u) \<Longrightarrow> length (sysLog s) \<le> unat (sub_Cursor u)"
proof -
  show t: "tiles (sysLog s) (unat (sbFrom u)) (sbTrace u) = Some (unat (sub_Cursor u))"
    using fan_run_sub [OF assms(1-3)] assms(4,5) by (simp add: sub_inv_def sub_Cursor_def)
  show "EndOfStream \<in> set (sbTrace u) \<Longrightarrow> length (sysLog s) \<le> unat (sub_Cursor u)"
    using fan_run_sub [OF assms(1-3)] assms(4,5) by (simp add: sub_inv_def sub_Cursor_def)
  show p: "prefix (sysLog s) (merged cs)"
    using fan_inv_parts(1) [OF fan_run_inv [OF assms(1,2)]] by (simp add: source_inv_def)
  have "list_all wire_ok (merged cs)"
    using merge_of_all [of cs "\<lambda>ev. wire_ok (entry_of ev)", OF _ event_of_wire_ok] assms(1)
    by (simp add: run_inputs_def list_all_iff)
  moreover have "set (sysLog s) \<subseteq> set (merged cs)" using p by (rule set_mono_prefix)
  ultimately have "\<forall>e \<in> set (sysLog s). wire_ok e" unfolding list_all_iff by blast
  then show "list_all wired (deliveries (sbTrace u))"
    using tiles_in [OF t] by (fastforce simp: list_all_iff wired_def)
qed

text \<open>C28: The wire loses nothing. Whatever the transport does, a subscriber's responses are its deliveries, in
  order, up to where the loop stopped: each says the record, every level of a snapshot and the gap before
  it, the server never fails to translate one, and the metrics are exactly the records, bytes,
  gaps and missed records of what was sent. Once all deliveries are sent, records sent and records
  missed add up to the emit indexes between the subscriber's start and its cursor; when its stream has
  ended, to all that were emitted from its start on.\<close>

theorem wire_exact:
  assumes "run_inputs cfg cs workers shape" and "fan_run cfg cs workers shape algo paced s"
    and "k < length (rSubs (sysRing s))" and "u = rSubs (sysRing s) ! k" and "unat (sbFrom u) < 2 ^ 63"
    and "send_loop send ctx (sbTrace u) levels [] no_metrics = (sent, mx, st)"
    and "ds = take (length sent) (deliveries (sbTrace u))"
  shows "list_all2 says ds sent \<and> \<not> codec_error st
    \<and> mx = \<lparr>mxRecordsEmitted = length sent, mxBytesEmitted = 64 * length sent + sum_list (map (\<lambda>d. length (delivery_blob d)) ds),
            mxGapsDetected = length (filter rsHasGap sent), mxRecordsMissed = sum_list (map missed ds)\<rparr>
    \<and> (ds = deliveries (sbTrace u) \<longrightarrow>
        unat (sub_Cursor u) = unat (sbFrom u) + mxRecordsEmitted mx + mxRecordsMissed mx
        \<and> (EndOfStream \<in> set (sbTrace u) \<and> unat (sbFrom u) \<le> length (sysLog s) \<longrightarrow>
             length (sysLog s) = unat (sbFrom u) + mxRecordsEmitted mx + mxRecordsMissed mx))"
proof -
  note w = run_wired [OF assms(1-5)]
  from send_loop_ok [OF w(2) assms(6)] have l: "length sent \<le> length (deliveries (sbTrace u))" and
    s: "list_all2 says ds sent" "mx = fold count_delivery ds no_metrics" "\<not> codec_error st"
    unfolding assms(7) by auto
  have len: "length ds = length sent" using l by (simp add: assms(7))
  have "length (filter dHasGap ds) = length (filter id (map dHasGap ds))" by (simp add: filter_map comp_def)
  also have "\<dots> = length (filter rsHasGap sent)" unfolding says_gaps [OF s(1)] by (simp add: filter_map comp_def)
  finally have g: "length (filter dHasGap ds) = length (filter rsHasGap sent)" .
  have b: "sum_list (map (\<lambda>d. RecordSize + length (delivery_blob d)) ds)
      = 64 * length sent + sum_list (map (\<lambda>d. length (delivery_blob d)) ds)"
    unfolding len [symmetric] by (induction ds) (simp_all add: record_layout)
  have "unat (sub_Cursor u) = length (sysLog s)" if "EndOfStream \<in> set (sbTrace u)" "unat (sbFrom u) \<le> length (sysLog s)"
    using w(4) [OF that(1)] tiles_bound [OF w(1) that(2)] by simp
  then show ?thesis using s(1,3) tiles_count [OF w(1)] len by (simp add: s(2) fold_count no_metrics_def g b)
qed

text \<open>C29: A client can check the run. When a run has returned without an error, a client that subscribed
  from its first record and has received as many responses as the run emitted records, none with a gap,
  computes from those responses alone exactly the digest that the emit loop computed.\<close>

theorem client_digest:
  assumes "run_inputs cfg cs workers shape" and "fan_run cfg cs workers shape (Some a) paced s" and "sysPc s = EmitReturned None"
    and "k < length (rSubs (sysRing s))" and "u = rSubs (sysRing s) ! k" and "sbFrom u = 0"
    and "send_loop send ctx (sbTrace u) levels [] no_metrics = (sent, mx, st)"
    and "list_all (\<lambda>resp. \<not> rsHasGap resp) sent" and "length sent = length (sysLog s)"
  shows "\<exists>h. sysHash s = Some h \<and> fst (hasher_Sum h []) = hash_of a (canonical_input (map client_entry sent))"
proof -
  have "unat (sbFrom u) < 2 ^ 63" by (simp add: assms(6))
  note w = run_wired [OF assms(1,2,4,5) this]
  let ?ds = "take (length sent) (deliveries (sbTrace u))"
  from send_loop_ok [OF w(2) assms(7)] have l: "length sent \<le> length (deliveries (sbTrace u))" and s: "list_all2 says ?ds sent"
    by auto
  have "list_all (\<lambda>d. \<not> dHasGap d) ?ds"
    using says_gaps [OF s] assms(8) by (metis (no_types, lifting) list.pred_map list.pred_cong comp_apply list_all_iff list.set_map)
  from tiles_prefix [OF w(1) l this] have e: "map (\<lambda>d. (dRecord d, dBlob d)) ?ds = map deliverable (sysLog s)"
    by (simp add: assms(6,9) sub_def)
  have view: "map (canonical_view \<circ> client_entry) sent = map canonical_view (sysLog s)"
  proof (rule nth_equalityI)
    fix i assume i: "i < length (map (canonical_view \<circ> client_entry) sent)"
    then have n: "i < length ?ds" "i < length (sysLog s)" using l assms(9) by simp_all
    have "dRecord (?ds ! i) = fst (sysLog s ! i)" "dBlob (?ds ! i) = entry_blob (sysLog s ! i)"
      using arg_cong [OF e, of "\<lambda>xs. xs ! i"] n by (simp_all add: deliverable_def)
    from canonical_view_blob [OF this] show "map (canonical_view \<circ> client_entry) sent ! i = map canonical_view (sysLog s) ! i"
      using list_all2_nthD [OF s n(1)] n i by (simp add: says_def)
  qed (simp add: assms(9))
  have "map canonical_view (map client_entry sent) = map canonical_view (sysLog s)" using view by simp
  then have c: "canonical_input (map client_entry sent) = canonical_input (sysLog s)" by (rule canonical_input_view)
  obtain h h' where h: "hasher_run (NewCanonicalHasher a) (sysLog s) = Some h"
    "hasher_Sum h [] = ([] @ hash_of a (canonical_input (sysLog s)), h')"
    using canonical_hasher_run [of a "sysLog s" "[]"] by blast
  with fan_inv_parts(2) [OF fan_run_inv [OF assms(1,2)]] assms(3) have "sysHash s = Some h"
    by (simp add: hash_inv_def hashed_def)
  then show ?thesis using h(2) c by simp
qed

end
