(* ===== verification/Bench_Run.thy ===== *)
theory Bench_Run
  imports Bench_Open Server_Send
begin

text \<open>
  The load harness, \<^verbatim>\<open>Run\<close> of \<^verbatim>\<open>src/bench/harness.go\<close>: the emit loop on the calling goroutine and one
  goroutine per subscriber that drains it, and the result they add up to.
\<close>

section \<open>Configuration and results\<close>

record BenchConfig =
  bcDir :: string
  bcWorkers :: int
  bcCapacity :: int
  bcMaxBlobBytes :: int
  bcBlockSubscribers :: nat
  bcDropSubscribers :: nat
  bcSpeed :: Speed
  bcHash :: bool

record SubscriberResult =
  srMode :: BackpressureMode
  srReceived :: u64
  srGaps :: u64
  srMissed :: u64
  srHash :: bytes

record BenchResult =
  brVenues :: nat
  brRecords :: int
  brEmitted :: u64
  brBlock :: "SubscriberResult list"
  brDrop :: "SubscriberResult list"
  brPacingSlipNanos :: i64

section \<open>Assembly\<close>

definition closeCursors :: "Cursor list \<Rightarrow> bench_error option \<Rightarrow> bench_error option \<times> Cursor list" where
  "closeCursors cursors cause =
     (let (err, cursors) = close_cursors cursors
      in (if cause = None then map_option BnMerge err else cause, cursors))"

definition bench_ring :: "BenchConfig \<Rightarrow> Config" where
  "bench_ring cfg = \<lparr>cfgCapacity = bcCapacity cfg, cfgMaxBlobBytes = bcMaxBlobBytes cfg, cfgWatchdogTimeout = 0\<rparr>"

text \<open>\<open>None\<close>: the subscription waits for an emit loop that is not running.\<close>

primrec subscribe_loop :: "BackpressureMode \<Rightarrow> nat \<Rightarrow> Ring \<Rightarrow> (fanout_error + Ring) option" where
  "subscribe_loop mode 0 r = Some (Inr r)"
| "subscribe_loop mode (Suc n) r =
     (case Subscribe mode Beginning r of
        (Inl (Inl e), r) \<Rightarrow> Some (Inl e)
      | (Inl (Inr k), r) \<Rightarrow> subscribe_loop mode n r
      | (Inr c, r) \<Rightarrow> None)"

definition bench_merger :: "Cursor list \<Rightarrow> int \<Rightarrow> (merge_error \<times> Cursor list) + Merger" where
  "bench_merger cursors workers = (if workers = 0 then NewMerger cursors else NewConcurrentMerger cursors workers)"

text \<open>\<^verbatim>\<open>Run\<close> up to the start of the goroutines; on an error the cursors come back as it leaves them.\<close>

definition bench_start ::
    "(string \<Rightarrow> file_error + direntry list) \<Rightarrow> (string \<Rightarrow> store_error + os_file) \<Rightarrow> BenchConfig \<Rightarrow>
      ((bench_error option \<times> Cursor list) + venue_partition list \<times> Merger system) option" where
  "bench_start os_ReadDir os_Open cfg =
     (case openPartitions os_ReadDir os_Open (bcDir cfg) of
        Inl (e, files) \<Rightarrow> Some (Inl (e, []))
      | Inr parts \<Rightarrow>
     (let cursors = map vpCursor parts; fails = (\<lambda>e cs. Some (Inl (closeCursors cs (Some e)))) in
      case newRing (bench_ring cfg) of
        Inl e \<Rightarrow> fails (BnFanout e) cursors
      | Inr r \<Rightarrow>
     (case subscribe_loop ModeBlock (bcBlockSubscribers cfg) r of
        None \<Rightarrow> None
      | Some (Inl e) \<Rightarrow> fails (BnFanout e) cursors
      | Some (Inr r) \<Rightarrow>
     (case subscribe_loop ModeDrop (bcDropSubscribers cfg) r of
        None \<Rightarrow> None
      | Some (Inl e) \<Rightarrow> fails (BnFanout e) cursors
      | Some (Inr r) \<Rightarrow>
     (case bench_merger cursors (bcWorkers cfg) of
        Inl (e, cursors) \<Rightarrow> fails (BnMerge e) cursors
      | Inr m \<Rightarrow> Some (Inr (parts, start_system r m None)))))))"

section \<open>Draining\<close>

text \<open>\<^verbatim>\<open>drain\<close> over what \<^verbatim>\<open>Next\<close> has returned so far; \<open>None\<close> while it has not come to an end.\<close>

fun drain_loop :: "outcome list \<Rightarrow> SubscriberResult \<Rightarrow> CanonicalHasher option \<Rightarrow> (SubscriberResult \<times> fanout_error option) option" where
  "drain_loop [] res hasher = None"
| "drain_loop (Stopped e # outs) res hasher = Some (res, Some e)"
| "drain_loop (EndOfStream # outs) res hasher =
     Some (res\<lparr>srHash := (case hasher of None \<Rightarrow> srHash res | Some h \<Rightarrow> hex_EncodeToString (fst (hasher_Sum h [])))\<rparr>, None)"
| "drain_loop (Delivered d # outs) res hasher =
     (let res = (if dHasGap d then res\<lparr>srGaps := srGaps res + 1, srMissed := srMissed res + Count (dGap d)\<rparr> else res);
          res = res\<lparr>srReceived := srReceived res + 1\<rparr> in
      case hasher of
        None \<Rightarrow> drain_loop outs res None
      | Some h \<Rightarrow>
          (case hasher_Write h (dRecord d) (delivery_blob d) of
             None \<Rightarrow> None
           | Some h \<Rightarrow> drain_loop outs res (Some h)))"

definition drain :: "bool \<Rightarrow> Subscriber \<Rightarrow> (SubscriberResult \<times> fanout_error option) option" where
  "drain hash s =
     drain_loop (sbTrace s) \<lparr>srMode = sub_Mode s, srReceived = 0, srGaps = 0, srMissed = 0, srHash = []\<rparr>
       (if hash then Some (NewCanonicalHasher CanonicalCRC32C) else None)"

section \<open>The goroutines\<close>

fun is_delivered :: "outcome \<Rightarrow> bool" where
  "is_delivered (Delivered d) = True"
| "is_delivered _ = False"

text \<open>The emit loop's pacer is never stopped. A drain calls \<^verbatim>\<open>Next\<close> as long as that delivers.\<close>

inductive bench_step :: "bool \<Rightarrow> Merger system \<Rightarrow> Merger system \<Rightarrow> bool" for paced where
  bench_emits: "bench_step paced s (emit_step merger_Next paced now True s)"
| bench_reads: "k < length (rSubs (sysRing s)) \<Longrightarrow> list_all is_delivered (sbTrace (rSubs (sysRing s) ! k)) \<Longrightarrow>
    bench_step paced s (on_ring (read_sub k) s)"
| bench_cancels: "k < length (rSubs (sysRing s)) \<Longrightarrow> sysPc s = EmitReturned (Some e) \<Longrightarrow>
    bench_step paced s (on_ring (update_sub k Cancel) s)"

definition bench_reachable :: "bool \<Rightarrow> Merger system \<Rightarrow> Merger system \<Rightarrow> bool" where
  "bench_reachable paced = (bench_step paced)\<^sup>*\<^sup>*"

text \<open>The end of \<^verbatim>\<open>Run\<close>; \<open>None\<close> while the loop runs or a drain does.\<close>

definition bench_finish :: "BenchConfig \<Rightarrow> venue_partition list \<Rightarrow> Merger system \<Rightarrow> (bench_error + BenchResult) option" where
  "bench_finish cfg parts s =
     (case sysPc s of
        EmitReturned rerr \<Rightarrow>
          (let drained = map (drain (bcHash cfg)) (rSubs (sysRing s)) in
           if None \<in> set drained then None
           else let drained = map the drained;
                    runErr = map_option BnRun rerr;
                    (cerr, m) = merger_Close (sysSource s);
                    runErr = (if runErr = None then map_option BnMerge cerr else runErr) in
             Some (case runErr of
                Some e \<Rightarrow> Inl e
              | None \<Rightarrow>
                (case List.find (\<lambda>e. e \<noteq> None) (map snd drained) of
                   Some (Some e) \<Rightarrow> Inl (BnFanout e)
                 | _ \<Rightarrow> Inr \<lparr>brVenues = length parts, brRecords = sum_list (map vpRecords parts),
                     brEmitted = WriteIndex (rMem (sysRing s)),
                     brBlock = map fst (take (bcBlockSubscribers cfg) drained),
                     brDrop = map fst (drop (bcBlockSubscribers cfg) drained),
                     brPacingSlipNanos = PacingSlipNanos (sysRing s)\<rparr>)))
      | _ \<Rightarrow> None)"

definition bench_paced :: "BenchConfig \<Rightarrow> bool" where "bench_paced cfg \<longleftrightarrow> Num (bcSpeed cfg) \<noteq> 0"

section \<open>The subscribers\<close>

lemma bench_subscribe:
  assumes "\<not> rCtrlClosed r" "\<not> rCtrlStarted r" "rWriteSeq (rMem r) = 0" "mode \<noteq> ModeUnset"
  shows "Subscribe mode Beginning r = (Inl (Inr (length (rSubs r))),
    r\<lparr>rSubs := rSubs r @ [new_subscriber mode Beginning 0],
      rBlocking := (if mode = ModeBlock then rBlocking r @ [length (rSubs r)] else rBlocking r)\<rparr>)"
  using assms by (cases mode) (simp_all add: Subscribe_def Beginning_def start_at_def subscribeNow_def resolve_start_def oldestIndex_def Let_def)

lemma subscribe_loop_ok:
  assumes "\<not> rCtrlClosed r" "\<not> rCtrlStarted r" "rWriteSeq (rMem r) = 0" "mode \<noteq> ModeUnset"
  shows "subscribe_loop mode n r = Some (Inr (r\<lparr>rSubs := rSubs r @ replicate n (new_subscriber mode Beginning 0),
      rBlocking := (if mode = ModeBlock then rBlocking r @ [length (rSubs r)..<length (rSubs r) + n] else rBlocking r)\<rparr>))"
  using assms
proof (induction n arbitrary: r)
  case (Suc n)
  let ?r = "r\<lparr>rSubs := rSubs r @ [new_subscriber mode Beginning 0],
      rBlocking := (if mode = ModeBlock then rBlocking r @ [length (rSubs r)] else rBlocking r)\<rparr>"
  have "[length (rSubs r)..<length (rSubs r) + Suc n] = length (rSubs r) # [Suc (length (rSubs r))..<Suc (length (rSubs r) + n)]"
    by (simp add: upt_conv_Cons)
  then show ?case using Suc.IH [of ?r] Suc.prems by (simp add: bench_subscribe)
qed simp

text \<open>A subscribe is a step of the fan-out system, so a run of the harness is a run of that system.\<close>

lemma subscribe_loop_fan:
  assumes "subscribe_loop mode n r = Some (Inr r')"
  shows "fan_reachable nxt paced (start_system r m h) (start_system r' m h)"
  using assms
proof (induction n arbitrary: r)
  case (Suc n)
  then obtain k r1 where r1: "Subscribe mode Beginning r = (Inl (Inr k), r1)" "subscribe_loop mode n r1 = Some (Inr r')"
    by (auto split: prod.splits sum.splits)
  have "fan_step nxt paced (start_system r m h) (on_ring (\<lambda>r. snd (Subscribe mode Beginning r)) (start_system r m h))" by (rule subscribes)
  then have "fan_step nxt paced (start_system r m h) (start_system r1 m h)" by (simp add: on_ring_def start_system_def r1(1))
  with Suc.IH [OF r1(2)] show ?case unfolding fan_reachable_def by (rule converse_rtranclp_into_rtranclp [rotated])
qed (simp add: fan_reachable_def)

lemma emit_step_go: "emit_step nxt paced now True s = emit_step nxt False now True s"
  by (cases "sysPc s") (simp_all add: emit_step_def)

lemma bench_step_fan: "bench_step paced s s' \<Longrightarrow> fan_step merger_Next False s s'"
  by (cases rule: bench_step.cases) (auto simp: emit_step_go [of _ paced] intro: fan_step.intros)

lemma bench_reachable_fan: "bench_reachable paced s s' \<Longrightarrow> fan_reachable merger_Next False s s'"
  unfolding bench_reachable_def fan_reachable_def by (erule rtranclp_mono [THEN predicate2D, rotated]) (blast intro: bench_step_fan)

section \<open>What stays as it was\<close>

definition failed :: "emit_pc \<Rightarrow> bool" where
  "failed pc \<longleftrightarrow> (\<exists>e. pc = EmitReturned (Some e))"

primrec evicting :: "emit_pc \<Rightarrow> bool" where
  "evicting EmitInit = False" | "evicting EmitControl = False" | "evicting EmitNext = False" | "evicting (EmitWait ev) = False"
| "evicting (EmitWrite ev) = False" | "evicting (BarrierScan ev n ks m since) = False" | "evicting (BarrierStart ev n) = False"
| "evicting (BarrierControl ev n a b) = False" | "evicting (BarrierWatch ev n a b) = False"
| "evicting (EvictScan ev n a b ks v) = True" | "evicting (BarrierSlip ev n a) = False" | "evicting (Writing ev n pc) = False"
| "evicting EmitEnd = False" | "evicting EmitClose = False" | "evicting (EmitReturned e) = False"

text \<open>A drain's trace is deliveries, and at the end the reason it stopped.\<close>

definition drain_trace :: "bool \<Rightarrow> outcome list \<Rightarrow> bool" where
  "drain_trace f outs \<longleftrightarrow> (\<exists>ds tail. outs = map Delivered ds @ tail
     \<and> (tail = [] \<or> tail = [EndOfStream] \<or> f \<and> tail = [Stopped ErrCanceled]))"

definition bench_sub :: "BackpressureMode \<Rightarrow> bool \<Rightarrow> Subscriber \<Rightarrow> bool" where
  "bench_sub mode f u \<longleftrightarrow> sbMode u = mode \<and> sbFrom u = 0 \<and> \<not> sbEvicted u \<and> (sbCanceled u \<longrightarrow> f) \<and> drain_trace f (sbTrace u)"

definition bench_mode :: "nat \<Rightarrow> nat \<Rightarrow> BackpressureMode" where
  "bench_mode b k = (if k < b then ModeBlock else ModeDrop)"

definition bench_inv :: "nat \<Rightarrow> nat \<Rightarrow> Merger system \<Rightarrow> bool" where
  "bench_inv b n s \<longleftrightarrow> rBlocking (sysRing s) = [0..<b] \<and> length (rSubs (sysRing s)) = n \<and> rCtrlPending (sysRing s) = []
     \<and> rWatchdogTimeout (sysRing s) = 0 \<and> \<not> evicting (sysPc s)
     \<and> (\<forall>k < n. bench_sub (bench_mode b k) (failed (sysPc s)) (rSubs (sysRing s) ! k))"

definition same_registry :: "Ring \<Rightarrow> Ring \<Rightarrow> bool" where
  "same_registry r r' \<longleftrightarrow> rBlocking r' = rBlocking r \<and> rSubs r' = rSubs r \<and> rCtrlPending r' = rCtrlPending r
     \<and> rWatchdogTimeout r' = rWatchdogTimeout r"

lemma emit_same_registry:
  assumes "rCtrlPending (sysRing s) = []" "rWatchdogTimeout (sysRing s) = 0" "\<not> evicting (sysPc s)"
  shows "same_registry (sysRing s) (sysRing (emit_step nxt False now True s)) \<and> \<not> evicting (sysPc (emit_step nxt False now True s))
    \<and> (failed (sysPc s) \<longrightarrow> failed (sysPc (emit_step nxt False now True s)))"
proof (cases "sysPc s")
  case EmitNext
  then show ?thesis by (auto simp: emit_step_def same_registry_def failed_def split: sum.splits prod.splits option.splits)
next
  case (EmitWait ev)
  then show ?thesis by (auto simp: emit_step_def hash_event_def same_registry_def failed_def split: option.splits)
next
  case (EmitWrite ev)
  then show ?thesis by (auto simp: emit_step_def enter_write_def start_scan_def same_registry_def failed_def Let_def)
next
  case (BarrierScan ev n ks m since)
  then show ?thesis
    by (cases ks) (auto simp: emit_step_def scanned_def same_registry_def failed_def Let_def split: option.splits)
next
  case (BarrierWatch ev n a b)
  then show ?thesis using assms by (simp add: emit_step_def watchdog_def start_scan_def same_registry_def failed_def Let_def)
next
  case (Writing ev n pc)
  then show ?thesis by (cases pc) (auto simp: emit_step_def same_registry_def failed_def split: prod.splits)
next
  case EmitClose
  have "same_registry (sysRing s) (closeControl (sysRing s))"
    using arg_cong [OF closeControl_eq [of "sysRing s", THEN conjunct1], of rBlocking]
      arg_cong [OF closeControl_eq [of "sysRing s", THEN conjunct1], of rSubs]
      arg_cong [OF closeControl_eq [of "sysRing s", THEN conjunct1], of rCtrlPending]
      arg_cong [OF closeControl_eq [of "sysRing s", THEN conjunct1], of rWatchdogTimeout] assms(1)
    by (simp add: same_registry_def)
  then show ?thesis using EmitClose by (simp add: emit_step_def failed_def)
qed (use assms in \<open>simp_all add: emit_step_def start_scan_def same_registry_def failed_def StartEmitting_def applyControl_nothing Let_def\<close>)

lemma drain_trace_mono: "drain_trace f outs \<Longrightarrow> (f \<longrightarrow> f') \<Longrightarrow> drain_trace f' outs"
  unfolding drain_trace_def by blast

lemma drain_trace_delivered: "list_all is_delivered outs \<Longrightarrow> \<exists>ds. outs = map Delivered ds"
proof (induction outs)
  case (Cons out outs)
  then obtain ds where "outs = map Delivered ds" by auto
  then show ?case using Cons.prems by (cases out) (auto intro: exI [of _ "_ # ds"])
qed simp

lemma drain_trace_snoc:
  assumes "list_all is_delivered outs" "out = EndOfStream \<or> f \<and> out = Stopped ErrCanceled \<or> is_delivered out"
  shows "drain_trace f (outs @ [out])"
proof -
  obtain ds where ds: "outs = map Delivered ds" using drain_trace_delivered [OF assms(1)] by blast
  consider "is_delivered out" | "out = EndOfStream" | "f" "out = Stopped ErrCanceled" using assms(2) by blast
  then show ?thesis
  proof cases
    case 1
    then obtain d where "out = Delivered d" by (cases out) simp_all
    then show ?thesis unfolding drain_trace_def ds by (intro exI [of _ "ds @ [d]"] exI [of _ "[]"]) simp
  next
    case 2
    then show ?thesis unfolding drain_trace_def ds by blast
  next
    case 3
    then show ?thesis unfolding drain_trace_def ds by blast
  qed
qed

lemma bench_sub_step:
  assumes "bench_sub mode f u" "list_all is_delivered (sbTrace u)"
  shows "bench_sub mode f (sub_step r u)"
proof (cases "sbPc u")
  case (Reading t pc)
  then show ?thesis using assms(1) by (auto simp: bench_sub_def sub_step_def split: sum.splits option.splits prod.splits)
qed (use assms drain_trace_snoc [OF assms(2)] in
  \<open>auto simp: bench_sub_def sub_step_def return_next_def split: option.splits\<close>)

lemma bench_inv_step:
  assumes "bench_step paced s s'" "bench_inv b n s"
  shows "bench_inv b n s'"
  using assms(1)
proof (cases rule: bench_step.cases)
  case (bench_emits now)
  have s': "s' = emit_step merger_Next False now True s" using bench_emits by (simp add: emit_step_go [of _ paced])
  have e: "same_registry (sysRing s) (sysRing s') \<and> \<not> evicting (sysPc s') \<and> (failed (sysPc s) \<longrightarrow> failed (sysPc s'))"
    unfolding s' by (rule emit_same_registry) (use assms(2) in \<open>simp_all add: bench_inv_def\<close>)
  then have "bench_sub mode (failed (sysPc s')) u" if "bench_sub mode (failed (sysPc s)) u" for mode u
    using that drain_trace_mono [of "failed (sysPc s)" _ "failed (sysPc s')"] by (simp add: bench_sub_def)
  with e assms(2) show ?thesis by (simp add: bench_inv_def same_registry_def)
next
  case (bench_reads k)
  have "bench_sub (bench_mode b k) (failed (sysPc s)) (rSubs (sysRing s) ! k)" using assms(2) bench_reads(2) by (simp add: bench_inv_def)
  note bench_sub_step [OF this bench_reads(3), of "rMem (sysRing s)"]
  then show ?thesis using assms(2) bench_reads(1,2)
    by (auto simp: bench_inv_def on_ring_def read_sub_def update_sub_def nth_list_update)
next
  case (bench_cancels k e)
  then show ?thesis using assms(2)
    by (auto simp: bench_inv_def on_ring_def update_sub_def nth_list_update bench_sub_def Cancel_def failed_def)
qed

lemma bench_inv_reachable: "bench_reachable paced s s' \<Longrightarrow> bench_inv b n s \<Longrightarrow> bench_inv b n s'"
  unfolding bench_reachable_def by (induction rule: rtranclp_induct) (auto intro: bench_inv_step)

section \<open>What a drain counts\<close>

definition drained :: "Delivery list \<Rightarrow> SubscriberResult \<Rightarrow> SubscriberResult" where
  "drained ds res = res\<lparr>srReceived := srReceived res + of_nat (length ds), srGaps := srGaps res + of_nat (length (filter dHasGap ds)),
     srMissed := srMissed res + of_nat (sum_list (map missed ds))\<rparr>"

lemma drained_Cons:
  "drained (d # ds) res = drained ds (let res = (if dHasGap d then res\<lparr>srGaps := srGaps res + 1, srMissed := srMissed res + Count (dGap d)\<rparr> else res)
     in res\<lparr>srReceived := srReceived res + 1\<rparr>)"
  by (simp add: drained_def missed_def Let_def ac_simps)

lemma drained_hash: "drained ds (res\<lparr>srHash := h\<rparr>) = drained ds res\<lparr>srHash := h\<rparr>" "srHash (drained ds res) = srHash res"
  by (simp_all add: drained_def)

definition received :: "Delivery list \<Rightarrow> entry list" where
  "received ds = map (\<lambda>d. (dRecord d, delivery_blob d)) ds"

lemma drain_loop_unhashed: "drain_loop (map Delivered ds @ [EndOfStream]) res None = Some (drained ds res, None)"
  by (induction ds arbitrary: res) (simp_all add: drained_Cons, simp add: drained_def)

lemma drain_loop_hashed:
  "hasher_run h (received ds) = Some h' \<Longrightarrow>
   drain_loop (map Delivered ds @ [EndOfStream]) res (Some h)
     = Some (drained ds res\<lparr>srHash := hex_EncodeToString (fst (hasher_Sum h' []))\<rparr>, None)"
proof (induction ds arbitrary: res h)
  case (Cons d ds)
  then obtain h1 where h1: "hasher_Write h (dRecord d) (delivery_blob d) = Some h1" "hasher_run h1 (received ds) = Some h'"
    by (auto simp: received_def split: option.splits)
  then show ?case using Cons.IH [OF h1(2)] by (simp add: drained_Cons Let_def)
qed (simp add: received_def drained_def)

definition drain_result :: "bool \<Rightarrow> BackpressureMode \<Rightarrow> Delivery list \<Rightarrow> SubscriberResult" where
  "drain_result hash mode ds = \<lparr>srMode = mode, srReceived = of_nat (length ds), srGaps = of_nat (length (filter dHasGap ds)),
     srMissed = of_nat (sum_list (map missed ds)),
     srHash = (if hash then hex_EncodeToString (hash_of CanonicalCRC32C (canonical_input (received ds))) else [])\<rparr>"

lemma drain_ended:
  assumes "sbTrace u = map Delivered ds @ [EndOfStream]"
  shows "drain hash u = Some (drain_result hash (sbMode u) ds, None)"
proof -
  obtain h h' where h: "hasher_run (NewCanonicalHasher CanonicalCRC32C) (received ds) = Some h"
    "hasher_Sum h [] = ([] @ hash_of CanonicalCRC32C (canonical_input (received ds)), h')"
    using canonical_hasher_run [of CanonicalCRC32C "received ds" "[]"] by blast
  from drain_loop_hashed [OF h(1)] drain_loop_unhashed show ?thesis
    by (simp add: drain_def assms drain_result_def drained_def sub_Mode_def h(2))
qed

lemma drain_loop_none: "drain_loop (map Delivered ds) res h = None"
  by (induction ds arbitrary: res h) (auto simp: Let_def split: option.splits)

lemma drain_none: "sbTrace u = map Delivered ds \<Longrightarrow> drain hash u = None"
  by (simp add: drain_def drain_loop_none)

section \<open>What a run of the harness reports\<close>

lemma bench_start_ok:
  assumes "bench_start os_ReadDir os_Open cfg = Some (Inr (parts, s0))"
  shows "openPartitions os_ReadDir os_Open (bcDir cfg) = Inr parts"
    "fan_run (bench_ring cfg) (map vpCursor parts) (bcWorkers cfg) defaultBatchShape None False s0"
    "bench_inv (bcBlockSubscribers cfg) (bcBlockSubscribers cfg + bcDropSubscribers cfg) s0"
proof -
  let ?b = "bcBlockSubscribers cfg" and ?d = "bcDropSubscribers cfg" and ?cs = "map vpCursor parts"
  obtain r r1 r2 m where o: "openPartitions os_ReadDir os_Open (bcDir cfg) = Inr parts" "newRing (bench_ring cfg) = Inr r"
    "subscribe_loop ModeBlock ?b r = Some (Inr r1)" "subscribe_loop ModeDrop ?d r1 = Some (Inr r2)"
    "bench_merger ?cs (bcWorkers cfg) = Inr m" "s0 = start_system r2 m None"
    using assms by (auto simp: bench_start_def Let_def split: sum.splits option.splits prod.splits)
  show "openPartitions os_ReadDir os_Open (bcDir cfg) = Inr parts" by (rule o(1))
  have "newMerger ?cs (bcWorkers cfg) defaultBatchShape = Inr m"
    using o(5) by (auto simp: bench_merger_def NewMerger_def NewConcurrentMerger_def split: if_splits)
  then have s: "start_run (bench_ring cfg) ?cs (bcWorkers cfg) defaultBatchShape None = Some (start_system r m None)"
    by (simp add: start_run_def o(2))
  have "fan_reachable merger_Next False (start_system r m None) s0"
    using subscribe_loop_fan [OF o(3)] subscribe_loop_fan [OF o(4)] unfolding o(6) fan_reachable_def by (meson rtranclp_trans)
  with s show "fan_run (bench_ring cfg) ?cs (bcWorkers cfg) defaultBatchShape None False s0" by (auto simp: fan_run_def)
  have r: "\<not> rCtrlClosed r" "\<not> rCtrlStarted r" "rWriteSeq (rMem r) = 0" "rBlocking r = []" "rSubs r = []" "rCtrlPending r = []"
    "rWatchdogTimeout r = 0"
    using o(2) by (auto simp: newRing_def bindE_eq_Inr_iff NewRing_def bench_ring_def Let_def split: if_splits)
  have r1: "r1 = r\<lparr>rSubs := replicate ?b (new_subscriber ModeBlock Beginning 0), rBlocking := [0..<?b]\<rparr>"
    using o(3) subscribe_loop_ok [OF r(1-3), of ModeBlock ?b] r(4,5) by simp
  have "r2 = r\<lparr>rSubs := replicate ?b (new_subscriber ModeBlock Beginning 0) @ replicate ?d (new_subscriber ModeDrop Beginning 0),
      rBlocking := [0..<?b]\<rparr>"
    using o(4) subscribe_loop_ok [of r1 ModeDrop ?d] r by (simp add: r1)
  moreover have "bench_sub mode f (new_subscriber mode Beginning 0)" for mode f
    by (simp add: bench_sub_def new_subscriber_def drain_trace_def)
  ultimately show "bench_inv ?b (?b + ?d) s0"
    using r by (simp add: bench_inv_def o(6) start_system_def bench_mode_def nth_append)
qed

text \<open>The loop does not fail on payloads that fit.\<close>

definition smooth :: "nat \<Rightarrow> Merger system \<Rightarrow> bool" where
  "smooth mb s \<longleftrightarrow> rMaxBlob (rMem (sysRing s)) = mb \<and> \<not> failed (sysPc s)"

lemma smooth_emits:
  assumes "smooth mb s" "fan_inv feeds_ring merger_rest False None stream cap s" "\<not> evicting (sysPc s)"
    and "rCtrlPending (sysRing s) = []" "list_all (\<lambda>e. length (snd e) \<le> mb) stream"
  shows "smooth mb (emit_step merger_Next False now True s)"
proof -
  note p = fan_inv_parts [OF assms(2)] and s = assms(1) [unfolded smooth_def]
  show ?thesis
  proof (cases "sysPc s")
    case EmitNext
    then have "feeds_ring (sysSource s)" using p(1) by (simp add: source_inv_def)
    from fan.nxt_eq [OF this] obtain ev src where "merger_Next (sysSource s) = (Inr ev, src)" by (cases "merger_Next (sysSource s)") auto
    then show ?thesis using EmitNext s by (simp add: emit_step_def smooth_def failed_def split: option.splits)
  next
    case (EmitWait ev)
    have "sysHash s = None" using p(2) EmitWait by (simp add: hash_inv_def)
    then show ?thesis using EmitWait s by (simp add: emit_step_def hash_event_def smooth_def failed_def)
  next
    case (EmitWrite ev)
    have "entry_of ev \<in> set stream" using p(1) EmitWrite by (auto simp: source_inv_def)
    then have "length (ev_payload ev) \<le> mb" using assms(5) by (auto simp: list_all_iff entry_of_def)
    then show ?thesis using EmitWrite s by (simp add: emit_step_def enter_write_def start_scan_def smooth_def failed_def Let_def)
  next
    case (BarrierScan ev n ks m since)
    then show ?thesis
      using s by (cases ks) (auto simp: emit_step_def scanned_def smooth_def failed_def Let_def split: option.splits)
  next
    case (BarrierWatch ev n a b)
    then show ?thesis using s by (simp add: emit_step_def watchdog_def start_scan_def smooth_def failed_def Let_def)
  next
    case (Writing ev n pc)
    then show ?thesis
      using s by (cases pc) (auto simp: emit_step_def smooth_def failed_def write_step_frame(1) split: prod.splits)
  next
    case EmitClose
    then show ?thesis
      using s arg_cong [OF closeControl_eq [of "sysRing s", THEN conjunct1], of rMem] by (simp add: emit_step_def smooth_def failed_def)
  qed (use assms(3,4) s in \<open>simp_all add: emit_step_def start_scan_def smooth_def failed_def StartEmitting_def
    applyControl_nothing store_end_def Let_def\<close>)
qed

lemma smooth_run:
  assumes "bench_reachable paced s0 s" "bench_inv b n s0" "smooth mb s0" "list_all (\<lambda>e. length (snd e) \<le> mb) (merged cs)"
    and "run_inputs cfg cs workers shape" "fan_run cfg cs workers shape None False s0"
  shows "smooth mb s"
  using assms(1) unfolding bench_reachable_def
proof (induction rule: rtranclp_induct)
  case (step t u)
  have t: "bench_reachable paced s0 t" using step.hyps(1) by (simp add: bench_reachable_def)
  have inv: "bench_inv b n t" by (rule bench_inv_reachable [OF t assms(2)])
  have f: "fan_inv feeds_ring merger_rest False None (merged cs) (nat (cfgCapacity cfg)) t"
    by (rule fan_run_inv [OF assms(5) fan_run_steps [OF assms(6) bench_reachable_fan [OF t]]])
  from step.hyps(2) show ?case
  proof (cases rule: bench_step.cases)
    case (bench_emits now)
    then show ?thesis using smooth_emits [OF step.IH f _ _ assms(4)] inv by (simp add: bench_inv_def emit_step_go [of _ paced])
  qed (use step.IH in \<open>auto simp: smooth_def failed_def on_ring_def read_sub_def update_sub_def\<close>)
qed (use assms(3) in simp)

lemma bench_returned:
  assumes "run_inputs (bench_ring cfg) cs workers shape" "fan_run (bench_ring cfg) cs workers shape None False s"
    and "sysPc s = EmitReturned None"
  shows "sysLog s = merged cs" "WriteIndex (rMem (sysRing s)) = of_nat (length (merged cs))"
proof -
  note p = fan_inv_parts [OF fan_run_inv [OF assms(1,2)]]
  show l: "sysLog s = merged cs" using p(1) assms(3) by (simp add: source_inv_def)
  show "WriteIndex (rMem (sysRing s)) = of_nat (length (merged cs))" using p(3) assms(3) l by (simp add: memory_inv_def WriteIndex_def)
qed

lemma bench_smooth_start:
  assumes "bench_start os_ReadDir os_Open cfg = Some (Inr (parts, s0))"
  shows "\<exists>mb. smooth mb s0 \<and> int mb = bcMaxBlobBytes cfg"
proof -
  obtain r r1 r2 m where o: "newRing (bench_ring cfg) = Inr r"
    "subscribe_loop ModeBlock (bcBlockSubscribers cfg) r = Some (Inr r1)" "subscribe_loop ModeDrop (bcDropSubscribers cfg) r1 = Some (Inr r2)"
    "s0 = start_system r2 m None"
    using assms by (auto simp: bench_start_def Let_def split: sum.splits option.splits prod.splits)
  have r: "\<not> rCtrlClosed r" "\<not> rCtrlStarted r" "rWriteSeq (rMem r) = 0" "int (rMaxBlob (rMem r)) = bcMaxBlobBytes cfg"
    using o(1) by (auto simp: newRing_def bindE_eq_Inr_iff NewRing_def bench_ring_def Let_def split: if_splits)
  have "rMem r2 = rMem r" "\<not> rCtrlClosed r1" using o(2,3) subscribe_loop_ok [OF r(1-3), of ModeBlock "bcBlockSubscribers cfg"]
      subscribe_loop_ok [of r1 ModeDrop "bcDropSubscribers cfg"] r by auto
  then show ?thesis using r(4) by (simp add: smooth_def o(4) start_system_def failed_def)
qed

text \<open>A drain that has ended after a run without error.\<close>

lemma bench_drained:
  assumes "run_inputs (bench_ring cfg) cs workers shape" "fan_run (bench_ring cfg) cs workers shape None False s"
    and "bench_inv b n s" "sysPc s = EmitReturned None" "k < n" "drain hash (rSubs (sysRing s) ! k) = Some res"
  shows "k < b \<Longrightarrow> res = (\<lparr>srMode = ModeBlock, srReceived = of_nat (length (merged cs)), srGaps = 0, srMissed = 0,
        srHash = (if hash then hex_EncodeToString (hash_of CanonicalCRC32C (canonical_input (merged cs))) else [])\<rparr>, None)"
    "b \<le> k \<Longrightarrow> snd res = None \<and> srMode (fst res) = ModeDrop
      \<and> unat (srReceived (fst res)) + unat (srMissed (fst res)) = length (merged cs)"
proof -
  let ?u = "rSubs (sysRing s) ! k"
  have u: "bench_sub (bench_mode b k) False ?u" "k < length (rSubs (sysRing s))" "rBlocking (sysRing s) = [0..<b]"
    using assms(3-5) by (auto simp: bench_inv_def failed_def)
  then obtain ds where t: "sbTrace ?u = map Delivered ds \<or> sbTrace ?u = map Delivered ds @ [EndOfStream]" and z: "sbFrom ?u = 0"
    unfolding bench_sub_def drain_trace_def by force
  have "sbTrace ?u \<noteq> map Delivered ds" using drain_none [of ?u ds hash] assms(6) by auto
  with t z have ds: "sbTrace ?u = map Delivered ds @ [EndOfStream]" "sbFrom ?u = 0" by simp_all
  have res: "res = (drain_result hash (bench_mode b k) ds, None)"
    using drain_ended [OF ds(1), of hash] assms(6) u(1) by (simp add: bench_sub_def)
  note log = bench_returned [OF assms(1,2,4)]
  have "unat (sbFrom ?u) < 2 ^ 63" by (simp add: ds(2))
  note w = run_wired [OF assms(1,2) u(2) refl this]
  have dv: "deliveries (map Delivered ds @ [EndOfStream]) = ds" by (induction ds) simp_all
  have cur: "unat (sub_Cursor ?u) = length (merged cs)"
    using w(4) tiles_bound [OF w(1)] by (simp add: ds log(1))
  have all: "length ds + sum_list (map missed ds) = length (merged cs)"
    using tiles_count [OF w(1)] cur by (simp add: ds dv)
  have len: "length (merged cs) < 2 ^ 64" using assms(1) by (simp add: run_inputs_def)
  { assume "k < b"
    then have "block_inv (nat (cfgCapacity (bench_ring cfg))) (begun s) ?u"
      using fan_inv_parts(4) [OF fan_run_inv [OF assms(1,2)]] u(3) by (simp add: subs_inv_def)
    then have g: "list_all gapless (sbTrace ?u)" by (simp add: block_inv_def ds(2))
    then have ng: "list_all (\<lambda>d. \<not> dHasGap d) ds" by (simp add: ds(1) list_all_iff)
    then have m: "sum_list (map missed ds) = 0" "filter dHasGap ds = []" by (auto simp: list_all_iff missed_def filter_empty_conv)
    have n: "length ds = length (merged cs)" using all m(1) by simp
    have "map (\<lambda>d. (dRecord d, dBlob d)) ds = map deliverable (merged cs)"
      using tiles_prefix [OF w(1), of "length ds"] ng n by (simp add: ds dv log(1) sub_def)
    then have d: "dRecord (ds ! i) = fst (merged cs ! i)" "dBlob (ds ! i) = entry_blob (merged cs ! i)" if "i < length ds" for i
      using that n arg_cong [of _ _ "\<lambda>xs. xs ! i"] by (auto simp: deliverable_def dest!: arg_cong [of _ _ "\<lambda>xs. xs ! i"])
    have "map canonical_view (received ds) = map canonical_view (merged cs)"
    proof (rule nth_equalityI)
      fix i assume "i < length (map canonical_view (received ds))"
      then have i: "i < length ds" by (simp add: received_def)
      then show "map canonical_view (received ds) ! i = map canonical_view (merged cs) ! i"
        using canonical_view_blob [OF d [OF i]] n by (simp add: received_def)
    qed (simp add: received_def n)
    then have "canonical_input (received ds) = canonical_input (merged cs)" by (rule canonical_input_view)
    then show "res = (\<lparr>srMode = ModeBlock, srReceived = of_nat (length (merged cs)), srGaps = 0, srMissed = 0,
        srHash = (if hash then hex_EncodeToString (hash_of CanonicalCRC32C (canonical_input (merged cs))) else [])\<rparr>, None)"
      using res m n \<open>k < b\<close> by (simp add: drain_result_def bench_mode_def) }
  assume "b \<le> k"
  have "length ds < 2 ^ 64" "sum_list (map missed ds) < 2 ^ 64" using all len by simp_all
  then have "unat (of_nat (length ds) :: u64) = length ds" "unat (of_nat (sum_list (map missed ds)) :: u64) = sum_list (map missed ds)"
    by (simp_all add: unat_of_nat take_bit_nat_eq_self)
  then show "snd res = None \<and> srMode (fst res) = ModeDrop
      \<and> unat (srReceived (fst res)) + unat (srMissed (fst res)) = length (merged cs)"
    using res all \<open>b \<le> k\<close> by (simp add: drain_result_def bench_mode_def)
qed

section \<open>The report\<close>

definition bench_stream :: "datasetFile list \<Rightarrow> entry list" where
  "bench_stream fs = map entry_of (sort_key ev_key (filter live (concat (map bench_files.events fs))))"

lemma bench_finish_Some:
  assumes "bench_finish cfg parts s = Some out" "\<not> failed (sysPc s)"
  shows "\<exists>rs. sysPc s = EmitReturned None \<and> map (drain (bcHash cfg)) (rSubs (sysRing s)) = map Some rs"
proof -
  let ?ds = "map (drain (bcHash cfg)) (rSubs (sysRing s))"
  have "sysPc s = EmitReturned None" "None \<notin> set ?ds"
    using assms by (auto simp: bench_finish_def failed_def Let_def split: emit_pc.splits if_splits)
  moreover from this(2) have "?ds = map Some (map the ?ds)" unfolding map_map by (intro map_cong) (auto simp: image_iff)
  ultimately show ?thesis by blast
qed

lemma bench_finish_Inr:
  assumes "sysPc s = EmitReturned None" "map (drain (bcHash cfg)) (rSubs (sysRing s)) = map Some rs"
    and "list_all (\<lambda>r. snd r = None) rs" "merger_Close (sysSource s) = (cerr, m)"
  shows "bench_finish cfg parts s = Some (case cerr of Some e \<Rightarrow> Inl (BnMerge e) | None \<Rightarrow>
     Inr \<lparr>brVenues = length parts, brRecords = sum_list (map vpRecords parts), brEmitted = WriteIndex (rMem (sysRing s)),
       brBlock = map fst (take (bcBlockSubscribers cfg) rs), brDrop = map fst (drop (bcBlockSubscribers cfg) rs),
       brPacingSlipNanos = PacingSlipNanos (sysRing s)\<rparr>)"
proof -
  have "List.find (\<lambda>e. e \<noteq> None) (map snd rs) = None" using assms(3) by (auto simp: find_None_iff list_all_iff)
  moreover have "map the (map Some rs) = rs" "None \<notin> set (map Some rs)" by (simp_all add: comp_def)
  ultimately show ?thesis
    unfolding bench_finish_def Let_def assms(2) by (simp add: assms(1,4) del: map_map set_map split: option.split)
qed

text \<open>C34: A load run reports what it delivered. Over sound files whose payloads the ring can carry, whatever
  the directory listing, the names, the speed and the scheduling are, a run that reports a result has
  counted all records of the files and emitted the merged stream; every Block subscriber has received all
  of it with no gap, and its hash is the digest of the merged stream, and for every Drop subscriber
  records received and missed add up to what was emitted. The only error such a run can report is that
  a file fails to close.\<close>

theorem bench_exact:
  assumes "os_ReadDir (bcDir cfg) = Inr es"
    and "list_all2 (\<lambda>path f. Open os_Open path = Inr (dsReader f) \<and> describe path (dsReader f) = Some f) (bin_paths (bcDir cfg) es) fs"
    and "bench_sound fs" "fs \<noteq> []" "arena_fits (bench_ring cfg)"
    and "Suc (length (concat (map bench_files.events fs))) < 2 ^ 63"
    and "list_all (\<lambda>ev. int (length (ev_payload ev)) \<le> bcMaxBlobBytes cfg) (concat (map bench_files.events fs))"
    and "bench_start os_ReadDir os_Open cfg = Some (Inr (parts, s0))" "bench_reachable (bench_paced cfg) s0 s"
  shows "case bench_finish cfg parts s of
      None \<Rightarrow> True
    | Some (Inl e) \<Rightarrow> \<exists>cerr. e = BnMerge cerr \<and> fst (merger_Close (sysSource s)) = Some cerr
    | Some (Inr res) \<Rightarrow>
        brRecords res = int (length (concat (map bench_files.events fs)))
        \<and> brEmitted res = of_nat (length (bench_stream fs))
        \<and> brBlock res = replicate (bcBlockSubscribers cfg) \<lparr>srMode = ModeBlock, srReceived = of_nat (length (bench_stream fs)),
            srGaps = 0, srMissed = 0,
            srHash = (if bcHash cfg then hex_EncodeToString (hash_of CanonicalCRC32C (canonical_input (bench_stream fs))) else [])\<rparr>
        \<and> length (brDrop res) = bcDropSubscribers cfg
        \<and> list_all (\<lambda>r. srMode r = ModeDrop \<and> unat (srReceived r) + unat (srMissed r) = length (bench_stream fs)) (brDrop res)"
proof -
  let ?b = "bcBlockSubscribers cfg" and ?n = "bcBlockSubscribers cfg + bcDropSubscribers cfg" and ?cs = "map vpCursor parts"
  let ?all = "concat (map bench_files.events fs)"
  note st = bench_start_ok [OF assms(8)]
  have p: "sound_cursors ?cs" "merged ?cs = bench_stream fs" "merge_of ?cs = sort_key ev_key (filter live ?all)"
    "sum_list (map vpRecords parts) = int (length ?all)"
    using openPartitions_ok [where os_ReadDir = os_ReadDir and os_Open = os_Open, OF assms(1-4)] st(1) by (auto simp: bench_stream_def)
  have "length (merge_of ?cs) \<le> length ?all" by (simp add: p(3) le_trans [OF length_filter_le])
  then have ri: "run_inputs (bench_ring cfg) ?cs (bcWorkers cfg) defaultBatchShape"
    using p(1) assms(5,6) by (simp add: run_inputs_def shape_valid_def defaultBatchShape_def batchRecords_def feedBatches_def)
  have run: "fan_run (bench_ring cfg) ?cs (bcWorkers cfg) defaultBatchShape None False s"
    by (rule fan_run_steps [OF st(2) bench_reachable_fan [OF assms(9)]])
  note inv = bench_inv_reachable [OF assms(9) st(3)]
  obtain mb where mb: "smooth mb s0" "int mb = bcMaxBlobBytes cfg" using bench_smooth_start [OF assms(8)] by blast
  have "list_all (\<lambda>e. length (snd e) \<le> mb) (merged ?cs)"
    using assms(7) by (auto simp: p(3) list_all_iff entry_of_def mb(2) [symmetric])
  then have ok: "\<not> failed (sysPc s)" using smooth_run [OF assms(9) st(3) mb(1) _ ri st(2)] by (simp add: smooth_def)
  show ?thesis
  proof (cases "bench_finish cfg parts s")
    case (Some out)
    from bench_finish_Some [OF Some ok] obtain rs where pc: "sysPc s = EmitReturned None"
      and ds: "map (drain (bcHash cfg)) (rSubs (sysRing s)) = map Some rs" by blast
    have rs: "length rs = ?n" using inv arg_cong [OF ds, of length] by (simp add: bench_inv_def)
    have drains: "drain (bcHash cfg) (rSubs (sysRing s) ! k) = Some (rs ! k)" if "k < ?n" for k
      using that rs arg_cong [OF ds, of "\<lambda>xs. xs ! k"] inv by (simp add: bench_inv_def)
    note d = bench_drained [OF ri run inv pc _ drains, unfolded p(2)]
    obtain cerr m where close: "merger_Close (sysSource s) = (cerr, m)" by fastforce
    have "snd (rs ! k) = None" if "k < ?n" for k using d(1,2) [OF that that] by (cases "k < ?b") auto
    then have "list_all (\<lambda>r. snd r = None) rs" by (simp add: list_all_length rs)
    note f = bench_finish_Inr [OF pc ds this close, of parts]
    have "map fst (take ?b rs) = replicate ?b \<lparr>srMode = ModeBlock, srReceived = of_nat (length (bench_stream fs)),
            srGaps = 0, srMissed = 0,
            srHash = (if bcHash cfg then hex_EncodeToString (hash_of CanonicalCRC32C (canonical_input (bench_stream fs))) else [])\<rparr>"
      using d(1) rs by (intro nth_equalityI) auto
    moreover have "list_all (\<lambda>r. srMode r = ModeDrop \<and> unat (srReceived r) + unat (srMissed r) = length (bench_stream fs)) (map fst (drop ?b rs))"
      using d(2) rs by (auto simp: list_all_length)
    ultimately show ?thesis
      unfolding f using bench_returned [OF ri run pc] p(4) rs close by (cases cerr) (simp_all add: p(2))
  qed simp
qed

end
