(* ===== verification/Server_Session.thy ===== *)
theory Server_Session
  imports Server_Send Server_Manifest
begin

text \<open>
  The replay server, \<^verbatim>\<open>Server\<close> of \<^verbatim>\<open>src/cmd/replayd/server.go\<close>: how it is assembled, how a subscription is
  accepted and counted, how the run ends and is recorded, and \<^verbatim>\<open>Close\<close>. The goroutines are the emit loop
  with the end of \<^verbatim>\<open>run\<close>, and one handler per subscription; what they do under \<^verbatim>\<open>s.mu\<close> is one step, but
  for \<^verbatim>\<open>attach\<close>, which keeps the mutex while it waits for the ring's reply.
\<close>

section \<open>State\<close>

record accepted =
  acMode :: BackpressureMode
  acKind :: string
  acSpeed :: Speed
  acSub :: nat

text \<open>
  \<open>svHolder\<close> is the handler that has the mutex and waits in \<^verbatim>\<open>attach\<close>, with the number of its reply channel;
  \<open>svAttached\<close> are the handlers whose \<^verbatim>\<open>attach\<close> has returned, \<open>svGauged\<close> those that have also incremented the
  gauge and come to \<^verbatim>\<open>countSubscriber\<close>, \<open>svServing\<close> those in their send loop, and \<open>svLeaving\<close> those at their
  end between the gauge and the \<^verbatim>\<open>Unsubscribe\<close>. \<open>svAccepted\<close> is for the specification only. \<open>svEnded\<close> says that \<^verbatim>\<open>run\<close> has ended the ring after an
  error, \<open>svClosed\<close> is the merger after its \<^verbatim>\<open>Close\<close>, \<open>svManifest\<close> the manifest's file, and \<open>svRunErr\<close> is
  \<^verbatim>\<open>runErr\<close> once \<^verbatim>\<open>runDone\<close> is closed.
\<close>

record Server =
  svCfg :: ServerConfig
  svDataset :: "DatasetFile list"
  svSys :: "Merger system"
  svStarted :: bool
  svSpeed :: Speed
  svStartedAt :: i64
  svMix :: SubscriberMix
  svHolder :: "(nat \<times> BackpressureMode \<times> string \<times> Speed) option"
  svAttached :: "accepted list"
  svGauged :: "accepted list"
  svServing :: "accepted list"
  svLeaving :: "accepted list"
  svAccepted :: "accepted list"
  svGauge :: int
  svEnded :: bool
  svClosed :: "Merger option"
  svManifest :: "Manifest option"
  svRunErr :: "server_run_error option option"

section \<open>Assembly\<close>

definition ring_config :: "ServerConfig \<Rightarrow> Config" where
  "ring_config cfg = \<lparr>cfgCapacity = scCapacity cfg, cfgMaxBlobBytes = scMaxBlobBytes cfg, cfgWatchdogTimeout = scWatchdogTimeout cfg\<rparr>"

definition no_mix :: SubscriberMix where
  "no_mix = \<lparr>mixBlock = 0, mixDrop = 0, mixStartBeginning = 0, mixStartExchangeTs = 0, mixStartEmitIndex = 0, mixStartLive = 0\<rparr>"

datatype open_error = OpenFiles merge_error | OpenRing fanout_error | OpenMetrics | OpenDataset file_error

text \<open>
  \<open>registers\<close> is whether the metrics registry takes the instruments. An error comes with the readers as
  \<^verbatim>\<open>NewServer\<close> leaves them.
\<close>

definition NewServer ::
    "(string \<Rightarrow> store_error + os_file) \<Rightarrow> (bytes \<Rightarrow> bytes) \<Rightarrow> files \<Rightarrow> bool \<Rightarrow> ServerConfig \<Rightarrow> (open_error \<times> Reader list) + Server" where
  "NewServer os_Open trim fs registers cfg =
     (case openCursors os_Open cfg of
        Inl (e, fls) \<Rightarrow> Inl (OpenFiles e, map ofR fls)
      | Inr cursors \<Rightarrow>
     (case NewConcurrentMerger cursors (scWorkers cfg) of
        Inl (e, cursors) \<Rightarrow> Inl (OpenFiles e, concat (map cReaders (snd (close_cursors cursors))))
      | Inr m \<Rightarrow>
     (let released = concat (map cReaders (mCursors (snd (merger_Close m)))) in
      case newRing (ring_config cfg) of
        Inl e \<Rightarrow> Inl (OpenRing e, released)
      | Inr r \<Rightarrow>
        if \<not> registers then Inl (OpenMetrics, released)
        else (case datasetIdentity trim fs (scFiles cfg) of
            Inl e \<Rightarrow> Inl (OpenDataset e, released)
          | Inr dataset \<Rightarrow>
              Inr \<lparr>svCfg = cfg, svDataset = dataset, svSys = start_system r m (Some (NewCanonicalHasher CanonicalCRC32C)),
                   svStarted = False, svSpeed = \<lparr>sNum = 0, sDen = 0\<rparr>, svStartedAt = 0, svMix = no_mix, svHolder = None,
                   svAttached = [], svGauged = [], svServing = [], svLeaving = [], svAccepted = [], svGauge = 0, svEnded = False, svClosed = None,
                   svManifest = None, svRunErr = None\<rparr>))))"

section \<open>Subscriptions\<close>

text \<open>The checks of \<^verbatim>\<open>Subscribe\<close>; a failure is answered \<^verbatim>\<open>InvalidArgument\<close> and changes nothing.\<close>

definition request_of :: "SubscribeRequest \<Rightarrow> server_error + BackpressureMode \<times> StartAt \<times> string \<times> Speed" where
  "request_of req =
     (case modeFromProto (rqMode req) of
        Inl e \<Rightarrow> Inl e
      | Inr mode \<Rightarrow>
        (case startFromProto req of
           Inl e \<Rightarrow> Inl e
         | Inr (start, kind) \<Rightarrow>
           (case NewSpeed (rqSpeedNum req) (rqSpeedDen req) of
              Inl e \<Rightarrow> Inl (SrvSpeed e)
            | Inr speed \<Rightarrow> Inr (mode, start, kind, speed))))"

datatype attached = Refused server_error | Joined nat | Queued nat

definition with_ring :: "Ring \<Rightarrow> Server \<Rightarrow> Server" where
  "with_ring r s = s\<lparr>svSys := on_ring (\<lambda>_. r) (svSys s)\<rparr>"

text \<open>The end of \<^verbatim>\<open>attach\<close>, once the ring has taken the subscriber: the first one starts the run.\<close>

definition accept :: "BackpressureMode \<Rightarrow> string \<Rightarrow> Speed \<Rightarrow> i64 \<Rightarrow> nat \<Rightarrow> Server \<Rightarrow> Server" where
  "accept mode kind speed now k s =
     (let s = (if svStarted s then s else s\<lparr>svStarted := True, svSpeed := speed, svStartedAt := now\<rparr>);
          a = \<lparr>acMode = mode, acKind = kind, acSpeed = speed, acSub = k\<rparr>
      in s\<lparr>svHolder := None, svAttached := svAttached s @ [a], svAccepted := svAccepted s @ [a]\<rparr>)"

text \<open>\<open>None\<close>: another handler has the mutex.\<close>

definition attach ::
    "BackpressureMode \<Rightarrow> StartAt \<Rightarrow> string \<Rightarrow> Speed \<Rightarrow> i64 \<Rightarrow> Server \<Rightarrow> (attached \<times> Server) option" where
  "attach mode start kind speed now s =
     (if svHolder s \<noteq> None then None
      else if svStarted s \<and> speed \<noteq> svSpeed s then Some (Refused errSpeedMismatch, s)
      else case Subscribe mode start (sysRing (svSys s)) of
          (Inl (Inl e), r) \<Rightarrow> Some (Refused (SrvFanout e), with_ring r s)
        | (Inl (Inr k), r) \<Rightarrow> Some (Joined k, accept mode kind speed now k (with_ring r s))
        | (Inr c, r) \<Rightarrow> Some (Queued c, with_ring r s\<lparr>svHolder := Some (c, mode, kind, speed)\<rparr>))"

text \<open>The rest of a queued \<^verbatim>\<open>attach\<close>, when the reply is there.\<close>

definition attach_reply :: "i64 \<Rightarrow> Server \<Rightarrow> (attached \<times> Server) option" where
  "attach_reply now s =
     (case svHolder s of
        None \<Rightarrow> None
      | Some (c, mode, kind, speed) \<Rightarrow>
          (case map_of (rReplies (sysRing (svSys s))) c of
             Some (SubscribeReply (Inr k)) \<Rightarrow> Some (Joined k, accept mode kind speed now k s)
           | Some (SubscribeReply (Inl e)) \<Rightarrow> Some (Refused (SrvFanout e), s\<lparr>svHolder := None\<rparr>)
           | _ \<Rightarrow> None))"

definition countSubscriber :: "BackpressureMode \<Rightarrow> string \<Rightarrow> SubscriberMix \<Rightarrow> SubscriberMix" where
  "countSubscriber mode startKind mix =
     (let mix = (if mode = ModeBlock then mix\<lparr>mixBlock := mixBlock mix + 1\<rparr> else mix\<lparr>mixDrop := mixDrop mix + 1\<rparr>)
      in if startKind = startKindBeginning then mix\<lparr>mixStartBeginning := mixStartBeginning mix + 1\<rparr>
         else if startKind = startKindExchangeTs then mix\<lparr>mixStartExchangeTs := mixStartExchangeTs mix + 1\<rparr>
         else if startKind = startKindEmitIndex then mix\<lparr>mixStartEmitIndex := mixStartEmitIndex mix + 1\<rparr>
         else if startKind = startKindLive then mix\<lparr>mixStartLive := mixStartLive mix + 1\<rparr>
         else mix)"

definition without :: "nat \<Rightarrow> 'a list \<Rightarrow> 'a list" where
  "without i xs = take i xs @ drop (Suc i) xs"

text \<open>A handler after its \<^verbatim>\<open>attach\<close>: the gauge, which needs no mutex, then \<^verbatim>\<open>countSubscriber\<close>.\<close>

definition gauge_one :: "nat \<Rightarrow> Server \<Rightarrow> Server" where
  "gauge_one i s =
     s\<lparr>svGauge := svGauge s + 1, svAttached := without i (svAttached s), svGauged := svGauged s @ [svAttached s ! i]\<rparr>"

definition count_one :: "nat \<Rightarrow> Server \<Rightarrow> Server" where
  "count_one i s =
     (let a = svGauged s ! i in
      s\<lparr>svMix := countSubscriber (acMode a) (acKind a) (svMix s),
        svGauged := without i (svGauged s), svServing := svServing s @ [a]\<rparr>)"

text \<open>And at its end.\<close>

definition leave :: "nat \<Rightarrow> Server \<Rightarrow> Server" where
  "leave i s =
     s\<lparr>svGauge := svGauge s - 1, svServing := without i (svServing s), svLeaving := svLeaving s @ [svServing s ! i]\<rparr>"

definition depart :: "nat \<Rightarrow> Server \<Rightarrow> Server" where
  "depart i s =
     s\<lparr>svLeaving := without i (svLeaving s),
       svSys := on_ring (\<lambda>r. snd (Unsubscribe (acSub (svLeaving s ! i)) r)) (svSys s)\<rparr>"

section \<open>The end of a run\<close>

definition SetEnd :: "u64 \<Rightarrow> Ring \<Rightarrow> Ring" where
  "SetEnd end r = closeControl (r\<lparr>rMem := store_end end (rMem r)\<rparr>)"

definition manifest_of :: "i64 \<Rightarrow> server_run_error option \<Rightarrow> Server \<Rightarrow> Manifest" where
  "manifest_of ended runErr s =
     (let cfg = svCfg s; r = sysRing (svSys s) in
      \<lparr>mfDataset = svDataset s,
       mfConfig = \<lparr>rcSpeedNum = Num (svSpeed s), rcSpeedDen = Den (svSpeed s), rcWorkers = scWorkers cfg,
         rcRingCapacity = scCapacity cfg, rcMaxBlobBytes = scMaxBlobBytes cfg,
         rcSeekExchangeTs = (if scHasSeek cfg then Some (scSeekTs cfg) else None),
         rcWatchdogTimeoutNanos = scWatchdogTimeout cfg\<rparr>,
       mfSubscribers = svMix s,
       mfResult = \<lparr>rrEmitIndexAtEnd = WriteIndex (rMem r), rrPacingSlipNanos = PacingSlipNanos r,
         rrCanonicalHash = (if runErr = None
           then hex_EncodeToString (case sysHash (svSys s) of None \<Rightarrow> [] | Some h \<Rightarrow> fst (hasher_Sum h [])) else []),
         rrError = runErr\<rparr>,
       mfTiming = \<lparr>tmStartedUnixNano = svStartedAt s, tmEndedUnixNano = ended, tmElapsedNanos = ended - svStartedAt s\<rparr>\<rparr>)"

text \<open>\<open>writes\<close> is the outcome of writing the file.\<close>

definition writeRunManifest :: "file_error option \<Rightarrow> i64 \<Rightarrow> server_run_error option \<Rightarrow> Server \<Rightarrow> server_run_error option \<times> Manifest option" where
  "writeRunManifest writes ended runErr s =
     (if scManifestPath (svCfg s) = '''' then (None, svManifest s)
      else case writes of
          Some e \<Rightarrow> (Some (SrvManifest e), svManifest s)
        | None \<Rightarrow> (None, Some (manifest_of ended runErr s)))"

text \<open>\<^verbatim>\<open>run\<close> after \<^verbatim>\<open>RunDigest\<close> has returned: the ring is ended when it failed, then the rest.\<close>

definition run_end :: "Server \<Rightarrow> Server" where
  "run_end s =
     s\<lparr>svEnded := True, svSys := on_ring (\<lambda>r. SetEnd (WriteIndex (rMem r)) r) (svSys s)\<rparr>"

definition run_finish :: "run_error option \<Rightarrow> file_error option \<Rightarrow> i64 \<Rightarrow> Server \<Rightarrow> Server" where
  "run_finish rerr writes ended s =
     (let err = map_option SrvRun rerr;
          (cerr, m) = merger_Close (sysSource (svSys s));
          err = (case (cerr, err) of (Some e, None) \<Rightarrow> Some (SrvMergerClose e) | _ \<Rightarrow> err);
          (merr, mf) = writeRunManifest writes ended err s
      in s\<lparr>svClosed := Some m, svManifest := mf, svRunErr := Some (if err = None then merr else err)\<rparr>)"

text \<open>\<^verbatim>\<open>Close\<close>; \<open>None\<close> while it waits for the run. The stop of the pacer is a record that it does not let through.\<close>

definition server_Close :: "Server \<Rightarrow> (server_run_error option \<times> Server) option" where
  "server_Close s =
     (if \<not> svStarted s then
        (case merger_Close (sysSource (svSys s)) of (err, m) \<Rightarrow> Some (map_option SrvMergerClose err, s\<lparr>svClosed := Some m\<rparr>))
      else map_option (\<lambda>err. (err, s)) (svRunErr s))"

section \<open>The program\<close>

inductive server_step :: "Server \<Rightarrow> Server \<Rightarrow> bool" where
  attaches: "request_of req = Inr (mode, start, kind, speed) \<Longrightarrow> attach mode start kind speed now s = Some (res, s') \<Longrightarrow>
    server_step s s'"
| replied: "attach_reply now s = Some (res, s') \<Longrightarrow> server_step s s'"
| gauges: "i < length (svAttached s) \<Longrightarrow> server_step s (gauge_one i s)"
| counts: "svHolder s = None \<Longrightarrow> i < length (svGauged s) \<Longrightarrow> server_step s (count_one i s)"
| leaves: "i < length (svServing s) \<Longrightarrow> server_step s (leave i s)"
| departs: "i < length (svLeaving s) \<Longrightarrow> acSub (svLeaving s ! i) < length (rSubs (sysRing (svSys s))) \<Longrightarrow> server_step s (depart i s)"
| hangs_up: "k < length (rSubs (sysRing (svSys s))) \<Longrightarrow>
    server_step s (s\<lparr>svSys := on_ring (\<lambda>r. snd (Unsubscribe k r)) (svSys s)\<rparr>)"
| canceled: "k < length (rSubs (sysRing (svSys s))) \<Longrightarrow> server_step s (s\<lparr>svSys := on_ring (update_sub k Cancel) (svSys s)\<rparr>)"
| receives: "k < length (rSubs (sysRing (svSys s))) \<Longrightarrow> server_step s (s\<lparr>svSys := on_ring (read_sub k) (svSys s)\<rparr>)"
| emits_one: "svStarted s \<Longrightarrow> server_step s (s\<lparr>svSys := emit_step merger_Next True now go (svSys s)\<rparr>)"
| fails: "svStarted s \<Longrightarrow> sysPc (svSys s) = EmitReturned (Some e) \<Longrightarrow> \<not> svEnded s \<Longrightarrow> server_step s (run_end s)"
| finishes: "svStarted s \<Longrightarrow> sysPc (svSys s) = EmitReturned rerr \<Longrightarrow> (rerr \<noteq> None \<longrightarrow> svEnded s) \<Longrightarrow> svRunErr s = None \<Longrightarrow>
    (scManifestPath (svCfg s) \<noteq> '''' \<longrightarrow> svHolder s = None) \<Longrightarrow> server_step s (run_finish rerr writes ended s)"

definition server_reachable :: "Server \<Rightarrow> Server \<Rightarrow> bool" where
  "server_reachable = server_step\<^sup>*\<^sup>*"

text \<open>A server over the cursors that its configuration opens.\<close>

definition serves_run :: "ServerConfig \<Rightarrow> Cursor list \<Rightarrow> Server \<Rightarrow> bool" where
  "serves_run cfg cs s \<longleftrightarrow>
     (\<exists>os_Open trim fs s0. openCursors os_Open cfg = Inr cs \<and> NewServer os_Open trim fs True cfg = Inr s0 \<and> server_reachable s0 s)"

abbreviation server_run :: "ServerConfig \<Rightarrow> Cursor list \<Rightarrow> Merger system \<Rightarrow> bool" where
  "server_run cfg cs \<equiv> fan_run (ring_config cfg) cs (scWorkers cfg) defaultBatchShape (Some CanonicalCRC32C) True"

section \<open>The ring's part\<close>

lemma with_ring_sel [simp]:
  "svSys (with_ring r s) = on_ring (\<lambda>_. r) (svSys s)" "svCfg (with_ring r s) = svCfg s" "svStarted (with_ring r s) = svStarted s"
  "svSpeed (with_ring r s) = svSpeed s" "svMix (with_ring r s) = svMix s" "svHolder (with_ring r s) = svHolder s"
  "svAttached (with_ring r s) = svAttached s" "svServing (with_ring r s) = svServing s" "svGauged (with_ring r s) = svGauged s" "svAccepted (with_ring r s) = svAccepted s"
  "svGauge (with_ring r s) = svGauge s" "svEnded (with_ring r s) = svEnded s" "svManifest (with_ring r s) = svManifest s"
  "svRunErr (with_ring r s) = svRunErr s" "svDataset (with_ring r s) = svDataset s"
  by (simp_all add: with_ring_def)

lemma accept_sel [simp]:
  "svSys (accept mode kind speed now k s) = svSys s" "svCfg (accept mode kind speed now k s) = svCfg s"
  "svStarted (accept mode kind speed now k s)" "svMix (accept mode kind speed now k s) = svMix s"
  "svHolder (accept mode kind speed now k s) = None" "svServing (accept mode kind speed now k s) = svServing s"
  "svGauged (accept mode kind speed now k s) = svGauged s"
  "svSpeed (accept mode kind speed now k s) = (if svStarted s then svSpeed s else speed)"
  "svAttached (accept mode kind speed now k s) = svAttached s @ [\<lparr>acMode = mode, acKind = kind, acSpeed = speed, acSub = k\<rparr>]"
  "svAccepted (accept mode kind speed now k s) = svAccepted s @ [\<lparr>acMode = mode, acKind = kind, acSpeed = speed, acSub = k\<rparr>]"
  "svGauge (accept mode kind speed now k s) = svGauge s" "svEnded (accept mode kind speed now k s) = svEnded s"
  "svManifest (accept mode kind speed now k s) = svManifest s" "svRunErr (accept mode kind speed now k s) = svRunErr s"
  "svDataset (accept mode kind speed now k s) = svDataset s"
  by (simp_all add: accept_def Let_def)

lemma attach_ring:
  assumes "attach mode start kind speed now s = Some (res, s')"
  shows "svSys s' = svSys s \<or> svSys s' = on_ring (\<lambda>r. snd (Subscribe mode start r)) (svSys s)" "svCfg s' = svCfg s" "svEnded s' = svEnded s"
  using assms by (auto simp: attach_def on_ring_def split: if_splits prod.splits sum.splits)

lemma attach_reply_ring:
  assumes "attach_reply now s = Some (res, s')"
  shows "svSys s' = svSys s" "svCfg s' = svCfg s" "svEnded s' = svEnded s"
  using assms by (auto simp: attach_reply_def split: option.splits controlReply.splits sum.splits)

text \<open>A step of the server is a step of the fan-out system, or leaves it alone, until the ring is ended after
  an error.\<close>

lemma server_step_fan:
  assumes "server_step s s'" "\<not> svEnded s'"
  shows "\<not> svEnded s \<and> (svSys s' = svSys s \<or> fan_step merger_Next True (svSys s) (svSys s'))"
  using assms
proof (cases rule: server_step.cases)
  case (attaches req mode start kind speed now res)
  note a = attach_ring [OF attaches(2)]
  have "fan_step merger_Next True (svSys s) (on_ring (\<lambda>r. snd (Subscribe mode start r)) (svSys s))" by (rule subscribes)
  with a assms(2) show ?thesis by auto
next
  case (replied now res)
  then show ?thesis using attach_reply_ring [OF replied] assms(2) by simp
next
  case (gauges i)
  then show ?thesis using assms(2) by (simp add: gauge_one_def)
next
  case (counts i)
  then show ?thesis using assms(2) by (simp add: count_one_def Let_def)
next
  case (leaves i)
  then show ?thesis using assms(2) by (simp add: leave_def)
next
  case (departs i)
  then show ?thesis using assms(2) unsubscribes [of "acSub (svLeaving s ! i)" "svSys s"] by (simp add: depart_def)
next
  case (finishes rerr writes ended)
  then show ?thesis using assms(2) by (simp add: run_finish_def Let_def case_prod_unfold)
next
  case (fails e)
  then show ?thesis using assms(2) by (simp add: run_end_def)
qed (use assms(2) in \<open>auto intro: fan_step.intros\<close>)

lemma server_step_ended: "server_step s s' \<Longrightarrow> svEnded s \<Longrightarrow> svEnded s'"
  by (cases rule: server_step.cases)
    (auto simp: gauge_one_def count_one_def leave_def depart_def run_end_def run_finish_def Let_def case_prod_unfold
      dest: attach_ring(3) attach_reply_ring(3))

lemma server_reachable_fan:
  assumes "server_reachable s s'" "\<not> svEnded s'"
  shows "\<not> svEnded s \<and> fan_reachable merger_Next True (svSys s) (svSys s')"
  using assms unfolding server_reachable_def
proof (induction rule: rtranclp_induct)
  case (step t u)
  then have t: "\<not> svEnded t" using server_step_ended by blast
  with step.IH server_step_fan [OF step.hyps(2) step.prems] show ?case
    unfolding fan_reachable_def by (metis rtranclp.rtrancl_into_rtrancl)
qed (simp add: fan_reachable_def)

lemma NewServer_Inr:
  assumes "NewServer os_Open trim fs registers cfg = Inr s"
  shows "\<exists>cs m r dataset. openCursors os_Open cfg = Inr cs \<and> NewConcurrentMerger cs (scWorkers cfg) = Inr m
    \<and> newRing (ring_config cfg) = Inr r \<and> datasetIdentity trim fs (scFiles cfg) = Inr dataset
    \<and> s = \<lparr>svCfg = cfg, svDataset = dataset, svSys = start_system r m (Some (NewCanonicalHasher CanonicalCRC32C)),
          svStarted = False, svSpeed = \<lparr>sNum = 0, sDen = 0\<rparr>, svStartedAt = 0, svMix = no_mix, svHolder = None,
          svAttached = [], svGauged = [], svServing = [], svLeaving = [], svAccepted = [], svGauge = 0, svEnded = False, svClosed = None,
          svManifest = None, svRunErr = None\<rparr>"
  using assms by (auto simp: NewServer_def Let_def split: sum.splits if_splits prod.splits)

lemma server_run_of:
  assumes "serves_run cfg cs s" "\<not> svEnded s"
  shows "server_run cfg cs (svSys s)"
proof -
  obtain os_Open trim fs s0 where o: "openCursors os_Open cfg = Inr cs" "NewServer os_Open trim fs True cfg = Inr s0" "server_reachable s0 s"
    using assms(1) by (auto simp: serves_run_def)
  obtain m r dataset where n: "NewConcurrentMerger cs (scWorkers cfg) = Inr m" "newRing (ring_config cfg) = Inr r"
    "svSys s0 = start_system r m (Some (NewCanonicalHasher CanonicalCRC32C))"
    using NewServer_Inr [OF o(2)] o(1) by auto
  have "newMerger cs (scWorkers cfg) defaultBatchShape = Inr m"
    using n(1) by (simp add: NewConcurrentMerger_def split: if_splits)
  with n(2) have "start_run (ring_config cfg) cs (scWorkers cfg) defaultBatchShape (Some CanonicalCRC32C) = Some (svSys s0)"
    by (simp add: start_run_def n(3))
  then show ?thesis using server_reachable_fan [OF o(3) assms(2)] by (auto simp: fan_run_def)
qed

end
