(* ===== verification/Fanout_Release.thy ===== *)
theory Fanout_Release
  imports Fanout_Delivery
begin

text \<open>
  Once a ring has its end and nothing is written any more, no call of \<^verbatim>\<open>Next\<close> waits. \<open>next_weight\<close> bounds
  the atomic operations that a call has still to do, from wherever its owner is, in the middle of a
  read of an entry that has been overwritten meanwhile for instance: it retries at most once, or finds
  nothing there and looks at the end.
\<close>

section \<open>What a slot holds\<close>

text \<open>An index is current when its slot has it, lapped when its slot has a later one, and ahead when it has
  not been written.\<close>

definition current :: "nat \<Rightarrow> memory \<Rightarrow> nat \<Rightarrow> bool" where
  "current cap r t \<longleftrightarrow> seq_of r (t mod cap) = 2 * t + 1"

definition lapped :: "nat \<Rightarrow> memory \<Rightarrow> nat \<Rightarrow> bool" where
  "lapped cap r t \<longleftrightarrow> 2 * t + 1 < seq_of r (t mod cap)"

lemma quiet_slot:
  assumes "mem_ok cap log False r" "\<not> current cap r t"
  shows "if lapped cap r t then t < seq_of r (t mod cap) div 2 \<and> seq_of r (t mod cap) div 2 < length log
           \<and> current cap r (seq_of r (t mod cap) div 2)
         else seq_of r (t mod cap) div 2 \<le> t \<and> length log \<le> t"
proof -
  note m = mem_okD [OF assms(1)]
  let ?j = "t mod cap"
  have lt: "?j < cap" using m(4) by simp
  have "slot_ok cap log r ?j" by (rule mem_ok_slot [OF assms(1) lt]) simp
  then consider k where "k < length log" "k mod cap = ?j" "length log \<le> k + cap" "seq_of r ?j = 2 * k + 1"
    | "length log \<le> ?j" "seq_of r ?j = 0" by (auto simp: slot_ok_def)
  then show ?thesis
  proof cases
    case (1 k)
    have h: "seq_of r ?j div 2 = k" using 1(4) by simp
    show ?thesis
    proof (cases "t < k")
      case True
      then have "lapped cap r t" "current cap r k" using 1 by (simp_all add: lapped_def current_def)
      with True 1(1) h show ?thesis by simp
    next
      case False
      then have "k < t" using assms(2) 1(4) by (cases "t = k") (simp_all add: current_def)
      then have "\<not> lapped cap r t" using 1(4) by (simp add: lapped_def)
      moreover have "length log \<le> t"
      proof -
        have "cap dvd t - k" using 1(2) \<open>k < t\<close> by (metis mod_eq_dvd_iff_nat less_imp_le)
        then have "cap \<le> t - k" using \<open>k < t\<close> by (intro dvd_imp_le) simp_all
        then show ?thesis using 1(3) \<open>k < t\<close> by linarith
      qed
      ultimately show ?thesis using \<open>k < t\<close> h by simp
    qed
  next
    case 2
    then have "\<not> lapped cap r t" by (simp add: lapped_def)
    moreover have "?j \<le> t" by simp
    then have "length log \<le> t" using 2(1) by linarith
    ultimately show ?thesis using 2(2) by simp
  qed
qed

section \<open>How far a call has to go\<close>

definition blob_loads :: "memory \<Rightarrow> nat" where
  "blob_loads r = (rMaxBlob r + 7) div 8"

primrec load_weight :: "memory \<Rightarrow> read_pc \<Rightarrow> nat" where
  "load_weight r LoadSeq = slotWords + blob_loads r + 2"
| "load_weight r (LoadWords ws) = 1 + blob_loads r + (slotWords - length ws)"
| "load_weight r (LoadBlob rec ws) = 1 + ((nat (blob_length rec) + 7) div 8 - length ws)"
| "load_weight r (Reload rec blobOut) = 1"
| "load_weight r (ReloadBad rec) = 1"

definition end_weight :: "nat \<Rightarrow> memory \<Rightarrow> nat \<Rightarrow> nat" where
  "end_weight len r p = (if len \<le> p then 1 else 2 * load_weight r LoadSeq + 5)"

definition read_weight :: "nat \<Rightarrow> nat \<Rightarrow> memory \<Rightarrow> nat \<Rightarrow> nat \<Rightarrow> read_pc \<Rightarrow> nat" where
  "read_weight cap len r p t pc = load_weight r pc +
     (if current cap r t then 1 else if lapped cap r t then load_weight r LoadSeq + 1 else end_weight len r p)"

primrec next_weight :: "nat \<Rightarrow> nat \<Rightarrow> memory \<Rightarrow> nat \<Rightarrow> sub_pc \<Rightarrow> nat" where
  "next_weight cap len r p Outside = 3 + read_weight cap len r p p LoadSeq"
| "next_weight cap len r p CheckEvicted = 2 + read_weight cap len r p p LoadSeq"
| "next_weight cap len r p CheckCanceled = 1 + read_weight cap len r p p LoadSeq"
| "next_weight cap len r p (Reading t pc) = read_weight cap len r p (unat t) pc"
| "next_weight cap len r p (StoreCursor d n) = 1"
| "next_weight cap len r p CheckEnd = end_weight len r p"

definition sub_weight :: "nat \<Rightarrow> nat \<Rightarrow> memory \<Rightarrow> Subscriber \<Rightarrow> nat" where
  "sub_weight cap len r u = next_weight cap len r (unat (sbPos u)) (sbPc u)"

text \<open>The bound, from any point of a call.\<close>

definition next_bound :: "memory \<Rightarrow> nat" where
  "next_bound r = 3 * (slotWords + blob_loads r + 2) + 5"

lemma load_weight_le: "bounded r pc \<Longrightarrow> load_weight r pc \<le> load_weight r LoadSeq"
proof (cases pc)
  case (LoadBlob rec ws)
  assume "bounded r pc"
  then have "nat (blob_length rec) \<le> rMaxBlob r" using LoadBlob by (auto simp: blob_fits_def)
  then have "(nat (blob_length rec) + 7) div 8 \<le> blob_loads r" unfolding blob_loads_def by (intro div_le_mono) simp
  then show ?thesis using LoadBlob by simp
qed simp_all

lemma end_weight_le: "end_weight len r p \<le> 2 * load_weight r LoadSeq + 5"
  by (simp add: end_weight_def)

lemma read_weight_le: "bounded r pc \<Longrightarrow> read_weight cap len r p t pc \<le> 3 * load_weight r LoadSeq + 5"
  using load_weight_le [of r pc] end_weight_le [of len r p] unfolding read_weight_def by (auto split: if_splits)

text \<open>A read at the position itself finds nothing only at the end.\<close>

lemma read_weight_fresh:
  assumes "mem_ok cap log False r"
  shows "read_weight cap (length log) r p p LoadSeq \<le> 2 * load_weight r LoadSeq + 1"
proof (cases "current cap r p \<or> lapped cap r p")
  case False
  then have "length log \<le> p" using quiet_slot [OF assms, of p] by simp
  then show ?thesis using False by (simp add: read_weight_def end_weight_def)
qed (auto simp: read_weight_def)

lemma sub_weight_le:
  assumes "mem_ok cap log False r" "sub_inv cap log r u" "unat (sbFrom u) < 2 ^ 63"
  shows "sub_weight cap (length log) r u \<le> next_bound r"
proof -
  have ok: "pc_ok cap log r (unat (sbPos u)) (sbPc u)" using assms(2,3) by (simp add: sub_inv_def)
  note f = read_weight_fresh [OF assms(1), of "unat (sbPos u)"]
  show ?thesis
  proof (cases "sbPc u")
    case (Reading t pc)
    then have "bounded r pc" using ok by (simp add: read_ok_def)
    from read_weight_le [OF this] Reading show ?thesis by (simp add: sub_weight_def next_bound_def)
  qed (use f end_weight_le [of "length log" r "unat (sbPos u)"] in \<open>simp_all add: sub_weight_def next_bound_def\<close>)
qed

lemma sub_weight_pos: "0 < sub_weight cap len r u"
proof (cases "sbPc u")
  case (Reading t pc)
  then show ?thesis by (cases pc) (simp_all add: sub_weight_def read_weight_def)
qed (simp_all add: sub_weight_def end_weight_def)

section \<open>One operation\<close>

lemma load_weight_decreases:
  assumes "read_step r t rec0 pc = Inr pc'" "bounded r pc"
  shows "load_weight r pc' < load_weight r pc"
proof (cases pc)
  case LoadSeq
  then show ?thesis using assms(1) by (auto simp: Let_def split: if_splits)
next
  case (LoadWords ws)
  let ?ws = "ws @ [slWords (rSlots r ! slot_index r t) ! length ws]"
  have n: "length ws < slotWords" "pc' = after_words r ?ws" using assms LoadWords by simp_all
  show ?thesis
  proof (cases "length ?ws < slotWords")
    case True
    then show ?thesis using n LoadWords by (simp add: after_words_def)
  next
    case False
    have "nat (blob_length rec) \<le> rMaxBlob r \<Longrightarrow> (nat (blob_length rec) + 7) div 8 \<le> blob_loads r" for rec
      unfolding blob_loads_def by (intro div_le_mono) simp
    then have "load_weight r pc' \<le> 1 + blob_loads r"
      unfolding n(2) using False by (auto simp: after_words_def Let_def)
    then show ?thesis using n(1) LoadWords by simp
  qed
next
  case (LoadBlob rec ws)
  then have "length ws < (nat (blob_length rec) + 7) div 8" using assms(2) by simp
  then show ?thesis using assms(1) LoadBlob by (auto simp: after_blob_def)
qed (use assms(1) in \<open>auto simp: Let_def split: if_splits\<close>)

text \<open>How a read ends.\<close>

lemma read_ends:
  assumes m: "mem_ok cap log False r" and t: "unat t < 2 ^ 63" and ok: "read_ok cap log r (unat t) pc"
    and l: "read_step r t rec0 pc = Inl res"
  shows "if current cap r (unat t) then rrComplete res
    else \<not> rrComplete res \<and> unat (rrHeld res) = seq_of r (unat t mod cap) div 2"
proof -
  note mo = mem_okD [OF m]
  have i: "slot_index r t = unat t mod cap" by (rule slot_index_mod [OF mo(1)])
  have odd: "unat (2 * t + 1) = 2 * unat t + 1" using unat_odd_index [OF t] by simp
  have seq: "slSeq (rSlots r ! (unat t mod cap)) = 2 * t + 1 \<longleftrightarrow> current cap r (unat t)"
    using odd by (metis current_def seq_of_def unsigned_word_eqI)
  have held: "unat (rrHeld (torn rec (slSeq (rSlots r ! (unat t mod cap))))) = seq_of r (unat t mod cap) div 2" for rec
    by (simp add: torn_def seq_of_def drop_bit_eq_div unat_div)
  have incomplete: "\<not> rrComplete (torn rec s)" for rec s by (simp add: torn_def)
  show ?thesis
  proof (cases pc)
    case LoadSeq
    then show ?thesis using l i seq held incomplete by (auto simp: Let_def split: if_splits)
  next
    case (Reload rec blobOut)
    then show ?thesis using l i seq held incomplete by (auto simp: Let_def split: if_splits)
  next
    case (ReloadBad rec)
    then have "\<not> current cap r (unat t)" using ok by (simp add: read_ok_def current_def)
    then show ?thesis using ReloadBad l i held incomplete by auto
  qed (use l in auto)
qed

lemma next_step_ends:
  assumes m: "mem_ok cap log False r" and t: "unat t < 2 ^ 63" "p \<le> unat t" and ok: "read_ok cap log r (unat t) pc"
  shows "case next_step r c t pc of
      Inr (t', pc') \<Rightarrow> read_weight cap (length log) r p (unat t') pc' < read_weight cap (length log) r p (unat t) pc
    | Inl None \<Rightarrow> end_weight (length log) r p < read_weight cap (length log) r p (unat t) pc
    | Inl (Some (d, n)) \<Rightarrow> 1 < read_weight cap (length log) r p (unat t) pc"
proof (cases "read_step r t zeroRecord pc")
  case (Inr pc')
  have "bounded r pc" using ok by (simp add: read_ok_def)
  from load_weight_decreases [OF Inr this] Inr show ?thesis by (simp add: next_step_def read_weight_def)
next
  case (Inl res)
  note e = read_ends [OF m t(1) ok Inl]
  have pos: "0 < load_weight r pc" by (cases pc) simp_all
  show ?thesis
  proof (cases "current cap r (unat t)")
    case True
    then have "rrComplete res" using e by simp
    then show ?thesis using Inl True pos by (simp add: next_step_def read_weight_def)
  next
    case nc: False
    then have h: "\<not> rrComplete res" "unat (rrHeld res) = seq_of r (unat t mod cap) div 2" using e by simp_all
    note q = quiet_slot [OF m nc]
    show ?thesis
    proof (cases "lapped cap r (unat t)")
      case True
      then have k: "unat t < unat (rrHeld res)" "current cap r (unat (rrHeld res))" using q h(2) by simp_all
      then have "\<not> rrHeld res \<le> t" by (simp add: word_le_nat_alt)
      then show ?thesis using Inl h(1) nc True k pos by (simp add: next_step_def read_weight_def)
    next
      case False
      then have "rrHeld res \<le> t" using q h(2) by (simp add: word_le_nat_alt)
      then show ?thesis using Inl h(1) nc False pos by (simp add: next_step_def read_weight_def)
    qed
  qed
qed

text \<open>An operation of the owner brings the call nearer its return, or is its return.\<close>

lemma sub_step_nearer:
  assumes m: "mem_ok cap log False r" and s: "sub_inv cap log r u" "unat (sbFrom u) < 2 ^ 63"
    and e: "End r = Some (of_nat (length log))"
  shows "(\<exists>out. sbTrace (sub_step r u) = sbTrace u @ [out])
    \<or> sbTrace (sub_step r u) = sbTrace u
      \<and> sub_weight cap (length log) r (sub_step r u) < sub_weight cap (length log) r u"
proof -
  have ok: "unat (sbPos u) < 2 ^ 63" "pc_ok cap log r (unat (sbPos u)) (sbPc u)"
    using s by (simp_all add: sub_inv_def)
  show ?thesis
  proof (cases "sbPc u")
    case (Reading t pc)
    then have t: "unat t < 2 ^ 63" "unat (sbPos u) \<le> unat t" "read_ok cap log r (unat t) pc" using ok(2) by simp_all
    show ?thesis
      using next_step_ends [OF m t(1-3), of "sbPos u"] Reading
      by (auto simp: sub_step_def sub_weight_def split: sum.splits option.splits prod.splits)
  next
    case CheckEnd
    have len: "unat (of_nat (length log) :: u64) = length log" using mem_okD(2) [OF m] by simp
    show ?thesis
    proof (cases "of_nat (length log) \<le> sbPos u")
      case True
      then show ?thesis using CheckEnd e by (simp add: sub_step_def return_next_def)
    next
      case False
      then have "\<not> length log \<le> unat (sbPos u)" using len by (simp add: word_le_nat_alt)
      then show ?thesis
        using False CheckEnd e read_weight_fresh [OF m, of "unat (sbPos u)"]
        by (simp add: sub_step_def sub_weight_def end_weight_def)
    qed
  next
    case CheckEvicted
    then show ?thesis by (simp add: sub_step_def sub_weight_def return_next_def)
  next
    case CheckCanceled
    then show ?thesis by (simp add: sub_step_def sub_weight_def return_next_def)
  qed (simp_all add: sub_step_def sub_weight_def return_next_def)
qed

end
