(* ===== verification/Server_Ends.thy ===== *)
theory Server_Ends
  imports Server_Session Fanout_Release Fanout_Run
begin

text \<open>
  What a server guarantees: one run at one speed, however it ends nobody waits for it, and a manifest that
  says what was emitted.
\<close>

section \<open>After an error\<close>

definition ended_like :: "'s system \<Rightarrow> 's system \<Rightarrow> bool" where
  "ended_like t u \<longleftrightarrow> sysPc u = sysPc t \<and> sysLog u = sysLog t \<and> sysHash u = sysHash t \<and> sysSource u = sysSource t
     \<and> rMem (sysRing u) = store_end (rWriteSeq (rMem (sysRing t))) (rMem (sysRing t))
     \<and> rCtrlStarted (sysRing u) \<and> rCtrlClosed (sysRing u) \<and> rCtrlPending (sysRing u) = []
     \<and> rIssued (sysRing u) = rIssued (sysRing t)
     \<and> map fst (rReplies (sysRing u)) = map fst (rReplies (sysRing t)) @ map fst (rCtrlPending (sysRing t))"

lemma Subscribe_closed: "rCtrlClosed r \<Longrightarrow> snd (Subscribe mode start r) = r"
  by (simp add: Subscribe_def)

lemma Unsubscribe_closed: "rCtrlStarted r \<Longrightarrow> rCtrlClosed r \<Longrightarrow> snd (Unsubscribe k r) = r"
  by (simp add: Unsubscribe_def)

lemma ended_like_update: "ended_like t u \<Longrightarrow> ended_like t (on_ring (update_sub k f) u)"
  by (simp add: ended_like_def)

lemma ended_like_same: "ended_like t u \<Longrightarrow> f (sysRing u) = sysRing u \<Longrightarrow> ended_like t (on_ring f u)"
  by (simp add: on_ring_id)

lemma ended_step:
  assumes "server_step s s'" "svEnded s" "ended_like t (svSys s)" "sysPc t = EmitReturned (Some e)"
  shows "ended_like t (svSys s')"
  using assms(1)
proof (cases rule: server_step.cases)
  case (attaches req mode start kind speed now res)
  have "ended_like t (on_ring (\<lambda>r. snd (Subscribe mode start r)) (svSys s))"
    using assms(3) by (intro ended_like_same) (simp_all add: ended_like_def Subscribe_closed)
  then show ?thesis using attach_ring(1) [OF attaches(2)] assms(3) by auto
next
  case (replied now res)
  then show ?thesis using attach_reply_ring(1) [OF replied] assms(3) by simp
next
  case (departs i)
  have "ended_like t (on_ring (\<lambda>r. snd (Unsubscribe (acSub (svLeaving s ! i)) r)) (svSys s))"
    using assms(3) by (intro ended_like_same) (simp_all add: ended_like_def Unsubscribe_closed)
  then show ?thesis using departs by (simp add: depart_def)
next
  case (hangs_up k)
  have "ended_like t (on_ring (\<lambda>r. snd (Unsubscribe k r)) (svSys s))"
    using assms(3) by (intro ended_like_same) (simp_all add: ended_like_def Unsubscribe_closed)
  then show ?thesis using hangs_up by simp
next
  case (receives k)
  have "on_ring (read_sub k) (svSys s) = on_ring (update_sub k (sub_step (rMem (sysRing (svSys s))))) (svSys s)"
    by (simp add: on_ring_def read_sub_def)
  then show ?thesis using receives ended_like_update [OF assms(3)] by simp
next
  case (emits_one now go)
  have "sysPc (svSys s) = EmitReturned (Some e)" using assms(3,4) by (simp add: ended_like_def)
  then show ?thesis using emits_one assms(3) by (simp add: emit_step_def)
qed (use assms ended_like_update in \<open>simp_all add: gauge_one_def count_one_def leave_def run_finish_def Let_def case_prod_unfold\<close>)

lemma server_ended:
  assumes "serves_run cfg cs s" "svEnded s" "run_inputs (ring_config cfg) cs (scWorkers cfg) defaultBatchShape"
  shows "\<exists>t e. server_run cfg cs t \<and> sysPc t = EmitReturned (Some e) \<and> ended_like t (svSys s)"
proof -
  obtain os_Open trim fs s0 where o: "openCursors os_Open cfg = Inr cs" "NewServer os_Open trim fs True cfg = Inr s0" "server_reachable s0 s"
    using assms(1) by (auto simp: serves_run_def)
  have n: "\<not> svEnded s0" "svRunErr s0 = None" "rCtrlStarted (sysRing (svSys s0)) = False"
    using NewServer_Inr [OF o(2)] by (auto simp: newRing_def bindE_eq_Inr_iff start_system_def)
  from o(3) assms(2) show ?thesis unfolding server_reachable_def
  proof (induction rule: rtranclp_induct)
    case base
    then show ?case using n by simp
  next
    case (step u v)
    show ?case
    proof (cases "svEnded u")
      case True
      with step.IH obtain t e where "server_run cfg cs t" "sysPc t = EmitReturned (Some e)" "ended_like t (svSys u)" by blast
      then show ?thesis using ended_step [OF step.hyps(2) True] by blast
    next
      case False
      have f: "\<exists>e. svStarted u \<and> sysPc (svSys u) = EmitReturned (Some e) \<and> v = run_end u"
        using step.hyps(2) False step.prems
        by (cases rule: server_step.cases)
          (auto simp: gauge_one_def count_one_def leave_def depart_def run_finish_def Let_def case_prod_unfold dest: attach_ring(3) attach_reply_ring(3))
      have r: "server_run cfg cs (svSys u)"
        by (rule server_run_of [OF _ False]) (use o step.hyps(1) in \<open>auto simp: serves_run_def server_reachable_def\<close>)
      let ?r = "sysRing (svSys u)"
      have c: "rCtrlStarted ?r" using fan_inv_parts(5) [OF fan_run_inv [OF assms(3) r]] f by (auto simp: control_inv_def)
      have "closeControl (?r\<lparr>rMem := m\<rparr>) = ?r\<lparr>rMem := m, rCtrlClosed := True, rCtrlPending := [],
          rReplies := rReplies (closeControl (?r\<lparr>rMem := m\<rparr>))\<rparr>
          \<and> map fst (rReplies (closeControl (?r\<lparr>rMem := m\<rparr>))) = map fst (rReplies ?r) @ map fst (rCtrlPending ?r)" for m
        using closeControl_eq [of "?r\<lparr>rMem := m\<rparr>"] by simp
      then obtain reps where "closeControl (?r\<lparr>rMem := store_end (rWriteSeq (rMem ?r)) (rMem ?r)\<rparr>)
          = ?r\<lparr>rMem := store_end (rWriteSeq (rMem ?r)) (rMem ?r), rCtrlClosed := True, rCtrlPending := [], rReplies := reps\<rparr>"
          "map fst reps = map fst (rReplies ?r) @ map fst (rCtrlPending ?r)" by blast
      then have "ended_like (svSys u) (svSys v)"
        using f c by (auto simp: ended_like_def run_end_def SetEnd_def WriteIndex_def)
      then show ?thesis using f r by blast
    qed
  qed
qed

section \<open>One run at one speed\<close>

definition mix_of :: "accepted list \<Rightarrow> SubscriberMix" where
  "mix_of as = fold (\<lambda>a. countSubscriber (acMode a) (acKind a)) as no_mix"

definition start_kinds :: "string list" where
  "start_kinds = [startKindBeginning, startKindExchangeTs, startKindEmitIndex, startKindLive]"

definition valid :: "BackpressureMode \<Rightarrow> string \<Rightarrow> bool" where
  "valid mode kind \<longleftrightarrow> (mode = ModeBlock \<or> mode = ModeDrop) \<and> kind \<in> set start_kinds"

lemma mix_of_snoc: "mix_of (as @ [a]) = countSubscriber (acMode a) (acKind a) (mix_of as)"
  by (simp add: mix_of_def)

lemma kinds_differ:
  "startKindBeginning \<noteq> startKindExchangeTs" "startKindBeginning \<noteq> startKindEmitIndex" "startKindBeginning \<noteq> startKindLive"
  "startKindExchangeTs \<noteq> startKindEmitIndex" "startKindExchangeTs \<noteq> startKindLive" "startKindEmitIndex \<noteq> startKindLive"
  by (simp_all add: startKindBeginning_def startKindExchangeTs_def startKindEmitIndex_def startKindLive_def)

text \<open>The counts are those of the subscriptions counted.\<close>

lemma mix_of_counts:
  "mixBlock (mix_of as) = length (filter (\<lambda>a. acMode a = ModeBlock) as)"
  "mixDrop (mix_of as) = length (filter (\<lambda>a. acMode a \<noteq> ModeBlock) as)"
  "mixStartBeginning (mix_of as) = length (filter (\<lambda>a. acKind a = startKindBeginning) as)"
  "mixStartExchangeTs (mix_of as) = length (filter (\<lambda>a. acKind a = startKindExchangeTs) as)"
  "mixStartEmitIndex (mix_of as) = length (filter (\<lambda>a. acKind a = startKindEmitIndex) as)"
  "mixStartLive (mix_of as) = length (filter (\<lambda>a. acKind a = startKindLive) as)"
  using kinds_differ
  by (induction as rule: rev_induct) (auto simp: mix_of_snoc countSubscriber_def Let_def, simp_all add: mix_of_def no_mix_def)

lemma mix_of_record:
  assumes "list_all (\<lambda>a. valid (acMode a) (acKind a)) counted"
  shows "mix_of counted = \<lparr>mixBlock = length (filter (\<lambda>a. acMode a = ModeBlock) counted),
      mixDrop = length (filter (\<lambda>a. acMode a = ModeDrop) counted),
      mixStartBeginning = length (filter (\<lambda>a. acKind a = startKindBeginning) counted),
      mixStartExchangeTs = length (filter (\<lambda>a. acKind a = startKindExchangeTs) counted),
      mixStartEmitIndex = length (filter (\<lambda>a. acKind a = startKindEmitIndex) counted),
      mixStartLive = length (filter (\<lambda>a. acKind a = startKindLive) counted)\<rparr>"
proof -
  have "filter (\<lambda>a. acMode a \<noteq> ModeBlock) counted = filter (\<lambda>a. acMode a = ModeDrop) counted"
    using assms by (intro filter_cong) (auto simp: list_all_iff valid_def)
  then show ?thesis by (intro SubscriberMix.equality) (simp_all add: mix_of_counts)
qed

definition accounted :: "accepted list \<Rightarrow> accepted list \<Rightarrow> SubscriberMix \<Rightarrow> bool" where
  "accounted accepted uncounted mix \<longleftrightarrow> (\<exists>counted. mset accepted = mset uncounted + mset counted \<and> mix = mix_of counted)"

definition session_inv :: "Server \<Rightarrow> bool" where
  "session_inv s \<longleftrightarrow> (svStarted s \<longleftrightarrow> svAccepted s \<noteq> [])
     \<and> list_all (\<lambda>a. acSpeed a = svSpeed s \<and> valid (acMode a) (acKind a)) (svAccepted s)
     \<and> (\<forall>c mode kind speed. svHolder s = Some (c, mode, kind, speed) \<longrightarrow> svStarted s \<and> speed = svSpeed s \<and> valid mode kind)
     \<and> (rCtrlStarted (sysRing (svSys s)) \<longrightarrow> svStarted s)
     \<and> svGauge s = int (length (svGauged s) + length (svServing s))
     \<and> accounted (svAccepted s) (svAttached s @ svGauged s) (svMix s)"

lemma accounted_start: "accounted [] [] no_mix"
  by (simp add: accounted_def mix_of_def)

lemma accounted_accept:
  "accounted as (us @ vs) mix \<Longrightarrow> accounted (as @ [a]) (us @ a # vs) mix"
  "accounted [] (us @ vs) mix \<Longrightarrow> accounted [a] (us @ a # vs) mix"
  by (auto simp: accounted_def)

lemma mset_without: "i < length us \<Longrightarrow> mset us = add_mset (us ! i) (mset (without i us))"
  using arg_cong [OF id_take_nth_drop [of i us], of mset] by (simp add: without_def)

lemma length_without: "i < length us \<Longrightarrow> length us = Suc (length (without i us))"
  by (simp add: without_def)

lemma accounted_cong: "accounted as us mix \<Longrightarrow> mset us' = mset us \<Longrightarrow> accounted as us' mix"
  by (simp add: accounted_def)

lemma accounted_gauge:
  assumes "accounted as (us @ vs) mix" "i < length us"
  shows "accounted as (without i us @ vs @ [us ! i]) mix"
  by (rule accounted_cong [OF assms(1)]) (use mset_without [OF assms(2)] in simp)

lemma accounted_count:
  assumes "accounted as (us @ vs) mix" "i < length vs"
  shows "accounted as (us @ without i vs) (countSubscriber (acMode (vs ! i)) (acKind (vs ! i)) mix)"
proof -
  obtain counted where c: "mset as = mset (us @ vs) + mset counted" "mix = mix_of counted" using assms(1) by (auto simp: accounted_def)
  then have "mset as = mset (us @ without i vs) + mset (counted @ [vs ! i])" using mset_without [OF assms(2)] by simp
  moreover have "countSubscriber (acMode (vs ! i)) (acKind (vs ! i)) mix = mix_of (counted @ [vs ! i])" by (simp add: mix_of_snoc c(2))
  ultimately show ?thesis unfolding accounted_def by blast
qed

lemma request_of_valid: "request_of req = Inr (mode, start, kind, speed) \<Longrightarrow> valid mode kind"
  by (auto simp: request_of_def modeFromProto_def startFromProto_def valid_def start_kinds_def
      split: sum.splits if_splits option.splits start_case.splits)

lemma Subscribe_started: "rCtrlStarted (snd (Subscribe mode start r)) = rCtrlStarted r"
  using Subscribe_ring [of mode start r] subscribeNow_frame [of r mode start]
  by (auto simp: enqueue_def same_control_def)

lemma Unsubscribe_started: "rCtrlStarted (snd (Unsubscribe k r)) = rCtrlStarted r"
  using Unsubscribe_ring [of k r] unsubscribeNow_frame(1) [of r k] by (auto simp: enqueue_def same_control_def)

lemma Subscribe_queued: "Subscribe mode start r = (Inr c, r') \<Longrightarrow> rCtrlStarted r"
  by (auto simp: Subscribe_def split: if_splits prod.splits)

lemma session_accept:
  assumes "session_inv s" "valid mode kind" "svStarted s \<longrightarrow> speed = svSpeed s"
  shows "session_inv (accept mode kind speed now k s)"
  using assms by (auto simp: session_inv_def accounted_accept)

lemma session_ring: "session_inv s \<Longrightarrow> rCtrlStarted r = rCtrlStarted (sysRing (svSys s)) \<Longrightarrow> session_inv (with_ring r s)"
  by (auto simp: session_inv_def)

lemma session_step:
  assumes "server_step s s'" "session_inv s"
  shows "session_inv s'"
  using assms(1)
proof (cases rule: server_step.cases)
  case (attaches req mode start kind speed now res)
  have v: "valid mode kind" by (rule request_of_valid [OF attaches(1)])
  obtain ans r where sub: "Subscribe mode start (sysRing (svSys s)) = (ans, r)" by fastforce
  have w: "session_inv (with_ring r s)"
    by (rule session_ring [OF assms(2)]) (use Subscribe_started [of mode start "sysRing (svSys s)"] sub in simp)
  have h: "svHolder s = None"
  proof (rule ccontr)
    assume "svHolder s \<noteq> None"
    then show False using attaches(2) by (simp add: attach_def)
  qed
  show ?thesis
  proof (cases "svStarted s \<and> speed \<noteq> svSpeed s")
    case True
    then show ?thesis using attaches(2) h assms(2) by (simp add: attach_def)
  next
    case False
    consider e where "ans = Inl (Inl e)" | k where "ans = Inl (Inr k)" | c where "ans = Inr c" by (metis sum.exhaust)
    then show ?thesis
    proof cases
      case 1
      then show ?thesis using attaches(2) h False sub w by (simp add: attach_def)
    next
      case (2 k)
      then have "s' = accept mode kind speed now k (with_ring r s)" using attaches(2) h False sub by (simp add: attach_def)
      then show ?thesis using session_accept [OF w v] False by simp
    next
      case (3 c)
      then have "s' = with_ring r s\<lparr>svHolder := Some (c, mode, kind, speed)\<rparr>" using attaches(2) h False sub by (simp add: attach_def)
      moreover have "svStarted s" using Subscribe_queued [of mode start "sysRing (svSys s)" c r] sub 3 assms(2) by (auto simp: session_inv_def)
      ultimately show ?thesis using w v False by (auto simp: session_inv_def)
    qed
  qed
next
  case (replied now res)
  then obtain c mode kind speed where h: "svHolder s = Some (c, mode, kind, speed)" by (auto simp: attach_reply_def split: option.splits)
  then have "svStarted s" "speed = svSpeed s" "valid mode kind" using assms(2) by (auto simp: session_inv_def)
  then have "session_inv (accept mode kind speed now k s)" for k using session_accept [OF assms(2)] by simp
  moreover have "session_inv (s\<lparr>svHolder := None\<rparr>)" using assms(2) by (auto simp: session_inv_def)
  ultimately show ?thesis using replied h by (auto simp: attach_reply_def split: option.splits controlReply.splits sum.splits)
next
  case (gauges i)
  have "accounted (svAccepted s) (without i (svAttached s) @ svGauged s @ [svAttached s ! i]) (svMix s)"
    by (rule accounted_gauge [OF _ gauges(2)]) (use assms(2) in \<open>simp add: session_inv_def\<close>)
  then show ?thesis using assms(2) gauges(1) by (auto simp: session_inv_def gauge_one_def)
next
  case (counts i)
  have "accounted (svAccepted s) (svAttached s @ without i (svGauged s))
      (countSubscriber (acMode (svGauged s ! i)) (acKind (svGauged s ! i)) (svMix s))"
    by (rule accounted_count [OF _ counts(3)]) (use assms(2) in \<open>simp add: session_inv_def\<close>)
  then show ?thesis using assms(2) counts(1) length_without [OF counts(3)] by (auto simp: session_inv_def count_one_def Let_def)
next
  case (leaves i)
  then show ?thesis using assms(2) length_without [OF leaves(2)] by (auto simp: session_inv_def leave_def)
next
  case (departs i)
  then show ?thesis using assms(2) by (auto simp: session_inv_def depart_def Unsubscribe_started)
next
  case (receives k)
  have "on_ring (read_sub k) (svSys s) = on_ring (update_sub k (sub_step (rMem (sysRing (svSys s))))) (svSys s)"
    by (simp add: on_ring_def read_sub_def)
  then show ?thesis using assms(2) receives(1) by (auto simp: session_inv_def)
qed (use assms(2) in \<open>auto simp: session_inv_def Unsubscribe_started run_end_def run_finish_def Let_def case_prod_unfold\<close>)

lemma session_reachable:
  assumes "serves_run cfg cs s"
  shows "session_inv s" "svCfg s = cfg"
proof -
  obtain os_Open trim fs s0 where o: "NewServer os_Open trim fs True cfg = Inr s0" "server_reachable s0 s"
    using assms by (auto simp: serves_run_def)
  have b: "session_inv s0 \<and> svCfg s0 = cfg"
    using NewServer_Inr [OF o(1)] by (auto simp: session_inv_def newRing_def bindE_eq_Inr_iff start_system_def accounted_start)
  have c: "svCfg v = svCfg u" if "server_step u v" for u v
    using that by (cases rule: server_step.cases)
      (auto simp: gauge_one_def count_one_def leave_def depart_def run_end_def run_finish_def Let_def case_prod_unfold dest: attach_ring(2) attach_reply_ring(2))
  from o(2) have "session_inv s \<and> svCfg s = cfg" unfolding server_reachable_def
  proof (induction rule: rtranclp_induct)
    case (step u v)
    then show ?case using session_step [OF step.hyps(2)] c [OF step.hyps(2)] by simp
  qed (rule b)
  then show "session_inv s" "svCfg s = cfg" by simp_all
qed

lemma session_mix:
  assumes "serves_run cfg cs s"
  shows "\<exists>counted. mset (svAccepted s) = mset (svAttached s) + mset (svGauged s) + mset counted
        \<and> svMix s = \<lparr>mixBlock = length (filter (\<lambda>a. acMode a = ModeBlock) counted),
             mixDrop = length (filter (\<lambda>a. acMode a = ModeDrop) counted),
             mixStartBeginning = length (filter (\<lambda>a. acKind a = startKindBeginning) counted),
             mixStartExchangeTs = length (filter (\<lambda>a. acKind a = startKindExchangeTs) counted),
             mixStartEmitIndex = length (filter (\<lambda>a. acKind a = startKindEmitIndex) counted),
             mixStartLive = length (filter (\<lambda>a. acKind a = startKindLive) counted)\<rparr>"
proof -
  note inv = session_reachable(1) [OF assms]
  then obtain counted where c: "mset (svAccepted s) = mset (svAttached s) + mset (svGauged s) + mset counted" "svMix s = mix_of counted"
    by (auto simp: session_inv_def accounted_def)
  have "set counted \<subseteq> set (svAccepted s)" using arg_cong [OF c(1), of set_mset] by auto
  then have "list_all (\<lambda>a. valid (acMode a) (acKind a)) counted"
    using inv by (auto simp: session_inv_def list_all_iff)
  from c(2) [unfolded mix_of_record [OF this]] c(1) show ?thesis by blast
qed

text \<open>C30: One run, at one speed, with every subscription accounted for. In every interleaving of the handlers,
  the run has started exactly when a subscription was accepted, all accepted ones asked for the run's
  speed, the gauge is the number of handlers between its increment and its decrement, and the mix counts by mode
  and by start every accepted subscription but those whose handler has not come to count it.\<close>

theorem session_exact:
  assumes "serves_run cfg cs s"
  shows "(svStarted s \<longleftrightarrow> svAccepted s \<noteq> []) \<and> list_all (\<lambda>a. acSpeed a = svSpeed s) (svAccepted s)
    \<and> svGauge s = int (length (svGauged s) + length (svServing s))
    \<and> (\<exists>counted. mset (svAccepted s) = mset (svAttached s) + mset (svGauged s) + mset counted
        \<and> svMix s = \<lparr>mixBlock = length (filter (\<lambda>a. acMode a = ModeBlock) counted),
            mixDrop = length (filter (\<lambda>a. acMode a = ModeDrop) counted),
            mixStartBeginning = length (filter (\<lambda>a. acKind a = startKindBeginning) counted),
            mixStartExchangeTs = length (filter (\<lambda>a. acKind a = startKindExchangeTs) counted),
            mixStartEmitIndex = length (filter (\<lambda>a. acKind a = startKindEmitIndex) counted),
            mixStartLive = length (filter (\<lambda>a. acKind a = startKindLive) counted)\<rparr>)"
proof -
  have "(svStarted s \<longleftrightarrow> svAccepted s \<noteq> []) \<and> list_all (\<lambda>a. acSpeed a = svSpeed s) (svAccepted s)
      \<and> svGauge s = int (length (svGauged s) + length (svServing s))"
    using session_reachable(1) [OF assms] by (auto simp: session_inv_def list_all_iff)
  then show ?thesis using session_mix [OF assms] by (elim conjE) (intro conjI)
qed

section \<open>The end\<close>

lemma Subscribe_mem: "rMem (snd (Subscribe mode start r)) = rMem r"
  using Subscribe_ring [of mode start r] subscribeNow_frame [of r mode start]
  by (auto simp: enqueue_def same_control_def)

lemma Unsubscribe_mem: "rMem (snd (Unsubscribe k r)) = rMem r"
  using Unsubscribe_ring [of k r] unsubscribeNow_frame(1) [of r k] by (auto simp: enqueue_def same_control_def)

text \<open>Once the loop has returned, what it did stays.\<close>

lemma server_frame:
  assumes "server_step s s'" "sysPc (svSys s) = EmitReturned rerr"
  shows "sysPc (svSys s') = EmitReturned rerr \<and> sysLog (svSys s') = sysLog (svSys s) \<and> sysHash (svSys s') = sysHash (svSys s)
    \<and> rWriteSeq (rMem (sysRing (svSys s'))) = rWriteSeq (rMem (sysRing (svSys s)))"
  using assms(1)
proof (cases rule: server_step.cases)
  case (attaches req mode start kind speed now res)
  show ?thesis using attach_ring(1) [OF attaches(2)] assms(2) by (auto simp: Subscribe_mem)
next
  case (replied now res)
  show ?thesis using attach_reply_ring(1) [OF replied] assms(2) by simp
next
  case (receives k)
  then show ?thesis using assms(2) by (simp add: read_sub_def)
next
  case fails
  have "rMem (closeControl r) = rMem r" for r
    using arg_cong [OF closeControl_eq [of r, THEN conjunct1], of rMem] by simp
  then show ?thesis using fails assms(2) by (simp add: run_end_def SetEnd_def store_end_def)
qed (use assms(2) in \<open>simp_all add: gauge_one_def count_one_def leave_def depart_def run_finish_def emit_step_def Let_def case_prod_unfold Unsubscribe_mem\<close>)

lemma attach_cases:
  assumes "attach mode start kind speed now s = Some (res, s')"
  obtains "s' = s" | r where "s' = with_ring r s" | r k where "s' = accept mode kind speed now k (with_ring r s)"
    | r c where "s' = with_ring r s\<lparr>svHolder := Some (c, mode, kind, speed)\<rparr>"
  using assms by (auto simp: attach_def split: if_splits prod.splits sum.splits)

lemma attach_reply_cases:
  assumes "attach_reply now s = Some (res, s')"
  obtains mode kind speed k where "s' = accept mode kind speed now k s" | "s' = s\<lparr>svHolder := None\<rparr>"
  using assms by (auto simp: attach_reply_def split: option.splits prod.splits controlReply.splits sum.splits)

definition same_run :: "Server \<Rightarrow> Server \<Rightarrow> bool" where
  "same_run s s' \<longleftrightarrow> svDataset s' = svDataset s \<and> svCfg s' = svCfg s \<and> (svStarted s \<longrightarrow> svStarted s' \<and> svSpeed s' = svSpeed s)"

definition same_result :: "Server \<Rightarrow> Server \<Rightarrow> bool" where
  "same_result s s' \<longleftrightarrow> svRunErr s' = svRunErr s \<and> svManifest s' = svManifest s"

lemma server_same:
  assumes "server_step s s'"
  shows "same_run s s' \<and> (same_result s s' \<or> svRunErr s = None \<and> (\<exists>rerr writes ended. s' = run_finish rerr writes ended s
      \<and> svStarted s \<and> sysPc (svSys s) = EmitReturned rerr \<and> (rerr \<noteq> None \<longrightarrow> svEnded s)))
    \<and> (svEnded s' \<longrightarrow> svEnded s \<or> (\<exists>e. sysPc (svSys s) = EmitReturned (Some e)))"
  using assms
proof (cases rule: server_step.cases)
  case (attaches req mode start kind speed now res)
  from attaches(2) show ?thesis by (cases rule: attach_cases) (simp_all add: same_run_def same_result_def)
next
  case (replied now res)
  then show ?thesis by (cases rule: attach_reply_cases) (simp_all add: same_run_def same_result_def)
next
  case (finishes rerr writes ended)
  then have "same_run s s'" by (simp add: same_run_def run_finish_def Let_def case_prod_unfold)
  moreover have "svEnded s' = svEnded s" using finishes by (simp add: run_finish_def Let_def case_prod_unfold)
  ultimately show ?thesis using finishes by blast
qed (simp_all add: same_run_def same_result_def gauge_one_def count_one_def leave_def depart_def run_end_def Let_def)

definition settings_of :: "ServerConfig \<Rightarrow> Speed \<Rightarrow> RunConfig" where
  "settings_of cfg speed =
     \<lparr>rcSpeedNum = Num speed, rcSpeedDen = Den speed, rcWorkers = scWorkers cfg, rcRingCapacity = scCapacity cfg,
      rcMaxBlobBytes = scMaxBlobBytes cfg, rcSeekExchangeTs = (if scHasSeek cfg then Some (scSeekTs cfg) else None),
      rcWatchdogTimeoutNanos = scWatchdogTimeout cfg\<rparr>"

definition manifest_inv :: "Server \<Rightarrow> bool" where
  "manifest_inv s \<longleftrightarrow>
     (svRunErr s = None \<longrightarrow> svManifest s = None)
     \<and> (\<forall>err. svRunErr s = Some err \<longrightarrow> svStarted s
         \<and> (\<exists>rerr. sysPc (svSys s) = EmitReturned rerr \<and> (rerr \<noteq> None \<longrightarrow> svEnded s \<and> err \<noteq> None))
         \<and> (err = None \<and> scManifestPath (svCfg s) \<noteq> '''' \<longrightarrow> svManifest s \<noteq> None))
     \<and> (svEnded s \<longrightarrow> (\<exists>e. sysPc (svSys s) = EmitReturned (Some e)))
     \<and> (\<forall>m. svManifest s = Some m \<longrightarrow> mfDataset m = svDataset s
         \<and> mfConfig m = settings_of (svCfg s) (svSpeed s)
         \<and> rrEmitIndexAtEnd (mfResult m) = rWriteSeq (rMem (sysRing (svSys s)))
         \<and> svRunErr s = Some (rrError (mfResult m))
         \<and> rrCanonicalHash (mfResult m) = (if rrError (mfResult m) = None
              then hex_EncodeToString (case sysHash (svSys s) of None \<Rightarrow> [] | Some h \<Rightarrow> fst (hasher_Sum h [])) else []))"

lemma manifest_finish:
  assumes "manifest_inv s" "svRunErr s = None" "svStarted s" "sysPc (svSys s) = EmitReturned rerr" "rerr \<noteq> None \<longrightarrow> svEnded s"
  shows "manifest_inv (run_finish rerr writes ended s)"
proof -
  obtain cerr m where c: "merger_Close (sysSource (svSys s)) = (cerr, m)" by fastforce
  have man: "mfConfig (manifest_of ended err s) = settings_of (svCfg s) (svSpeed s)"
    "mfDataset (manifest_of ended err s) = svDataset s"
    "rrEmitIndexAtEnd (mfResult (manifest_of ended err s)) = rWriteSeq (rMem (sysRing (svSys s)))"
    "rrError (mfResult (manifest_of ended err s)) = err"
    "rrCanonicalHash (mfResult (manifest_of ended err s)) = (if err = None
              then hex_EncodeToString (case sysHash (svSys s) of None \<Rightarrow> [] | Some h \<Rightarrow> fst (hasher_Sum h [])) else [])" for err
    by (simp_all add: manifest_of_def WriteIndex_def settings_of_def Let_def)
  show ?thesis
    using assms
    by (cases rerr; cases cerr; cases writes)
      (auto simp: manifest_inv_def run_finish_def writeRunManifest_def c Let_def man)
qed

lemma manifest_step:
  assumes "server_step s s'" "manifest_inv s"
  shows "manifest_inv s'"
proof -
  note same = server_same [OF assms(1)]
  have ended: "\<exists>e. sysPc (svSys s') = EmitReturned (Some e)" if w: "svEnded s'"
  proof -
    obtain e where "sysPc (svSys s) = EmitReturned (Some e)" using same w assms(2) unfolding manifest_inv_def by blast
    then show ?thesis using server_frame [OF assms(1)] by blast
  qed
  show ?thesis
  proof (cases "same_result s s'")
    case False
    then show ?thesis using same manifest_finish [OF assms(2)] by blast
  next
    case r: True
    show ?thesis
    proof (cases "svRunErr s")
      case None
      then show ?thesis using r ended assms(2) by (simp add: manifest_inv_def same_result_def)
    next
      case (Some err)
      then obtain rerr where e: "svStarted s" "sysPc (svSys s) = EmitReturned rerr" "rerr \<noteq> None \<longrightarrow> svEnded s \<and> err \<noteq> None"
        using assms(2) by (auto simp: manifest_inv_def)
      have "svStarted s'" "svSpeed s' = svSpeed s" "svDataset s' = svDataset s" "svCfg s' = svCfg s"
        "svRunErr s' = svRunErr s" "svManifest s' = svManifest s"
        using same e(1) r by (simp_all add: same_run_def same_result_def)
      then show ?thesis
        using assms(2) Some e server_frame [OF assms(1) e(2)] ended server_step_ended [OF assms(1)]
        by (simp add: manifest_inv_def)
    qed
  qed
qed

lemma manifest_reachable:
  assumes "serves_run cfg cs s"
  shows "manifest_inv s"
proof -
  obtain os_Open trim fs s0 where o: "NewServer os_Open trim fs True cfg = Inr s0" "server_reachable s0 s"
    using assms by (auto simp: serves_run_def)
  have "manifest_inv s0" using NewServer_Inr [OF o(1)] by (auto simp: manifest_inv_def)
  with o(2) manifest_step show ?thesis unfolding server_reachable_def by (induction rule: rtranclp_induct) auto
qed

text \<open>The manifest keeps the mix of the state in which the run ended.\<close>

lemma manifest_mix:
  assumes "serves_run cfg cs s" "svManifest s = Some m"
  obtains u where "serves_run cfg cs u" "server_reachable u s" "svRunErr u = None" "mfSubscribers m = svMix u"
proof -
  obtain os_Open trim fs s0 where o: "openCursors os_Open cfg = Inr cs" "NewServer os_Open trim fs True cfg = Inr s0" "server_reachable s0 s"
    using assms(1) by (auto simp: serves_run_def)
  have none: "svManifest s0 = None" using NewServer_Inr [OF o(2)] by auto
  from o(3) assms(2) have "\<exists>u. server_step\<^sup>*\<^sup>* s0 u \<and> server_step\<^sup>*\<^sup>* u s \<and> svRunErr u = None \<and> mfSubscribers m = svMix u"
    unfolding server_reachable_def
  proof (induction rule: rtranclp_induct)
    case base
    then show ?case using none by simp
  next
    case (step t v)
    show ?case
    proof (cases "svManifest v = svManifest t")
      case True
      then obtain u where u: "server_step\<^sup>*\<^sup>* s0 u" "server_step\<^sup>*\<^sup>* u t" "svRunErr u = None" "mfSubscribers m = svMix u"
        using step.IH step.prems by auto
      from u(2) step.hyps(2) have "server_step\<^sup>*\<^sup>* u v" by (rule rtranclp.rtrancl_into_rtrancl)
      with u show ?thesis by blast
    next
      case False
      then obtain rerr writes ended where r: "svRunErr t = None" "v = run_finish rerr writes ended t"
        using server_same [OF step.hyps(2)] unfolding same_result_def by blast
      obtain cerr c where c: "merger_Close (sysSource (svSys t)) = (cerr, c)" by fastforce
      have "svManifest v = svManifest t \<or> (\<exists>err. svManifest v = Some (manifest_of ended err t))"
        unfolding r(2) by (cases writes) (auto simp: run_finish_def writeRunManifest_def c Let_def)
      then obtain err where "m = manifest_of ended err t" using False step.prems by auto
      then have "mfSubscribers m = svMix t" by (simp add: manifest_of_def Let_def)
      then show ?thesis using r(1) step.hyps by blast
    qed
  qed
  then obtain u where u: "server_step\<^sup>*\<^sup>* s0 u" "server_step\<^sup>*\<^sup>* u s" "svRunErr u = None" "mfSubscribers m = svMix u" by blast
  have "serves_run cfg cs u" using o(1,2) u(1) by (auto simp: serves_run_def server_reachable_def)
  with u show thesis by (intro that) (simp_all add: server_reachable_def)
qed

text \<open>A run that has returned, its ring ended.\<close>

lemma fan_returned:
  assumes "run_inputs (ring_config cfg) cs (scWorkers cfg) defaultBatchShape" "server_run cfg cs u" "sysPc u = EmitReturned rerr"
  shows "prefix (sysLog u) (merged cs)" "rWriteSeq (rMem (sysRing u)) = of_nat (length (sysLog u))" "rCtrlStarted (sysRing u)"
    "set (map fst (rReplies (sysRing u)) @ map fst (rCtrlPending (sysRing u))) = {0..<rIssued (sysRing u)}"
    "rerr = None \<Longrightarrow> rCtrlClosed (sysRing u) \<and> rCtrlPending (sysRing u) = [] \<and> rEndPlusOne (rMem (sysRing u)) = of_nat (length (sysLog u) + 1)
       \<and> rEndPlusOne (rMem (sysRing u)) \<noteq> 0
       \<and> (\<exists>h. sysHash u = Some h \<and> fst (hasher_Sum h []) = hash_of CanonicalCRC32C (canonical_input (sysLog u)))"
    "length (sysLog u) < 2 ^ 63"
proof -
  note p = fan_inv_parts [OF fan_run_inv [OF assms(1,2)]]
  show "prefix (sysLog u) (merged cs)" using p(1) by (simp add: source_inv_def)
  show m: "rWriteSeq (rMem (sysRing u)) = of_nat (length (sysLog u))" using p(3) assms(3) by (simp add: memory_inv_def)
  show "rCtrlStarted (sysRing u)" using p(5) assms(3) by (simp add: control_inv_def)
  have "mset (map fst (rReplies (sysRing u)) @ map fst (rCtrlPending (sysRing u))) = mset [0..<rIssued (sysRing u)]"
    using p(5) by (simp add: control_inv_def del: mset_map)
  then show "set (map fst (rReplies (sysRing u)) @ map fst (rCtrlPending (sysRing u))) = {0..<rIssued (sysRing u)}"
    by (metis atLeastLessThan_upt mset_eq_setD)
  show "length (sysLog u) < 2 ^ 63" using p(3) assms(3) by (auto simp: memory_inv_def dest: mem_okD(2))
  assume n: "rerr = None"
  obtain h h' where h: "hasher_run (NewCanonicalHasher CanonicalCRC32C) (sysLog u) = Some h"
    "hasher_Sum h [] = ([] @ hash_of CanonicalCRC32C (canonical_input (sysLog u)), h')"
    using canonical_hasher_run [of CanonicalCRC32C "sysLog u" "[]"] by blast
  with p(2) assms(3) n have "sysHash u = Some h" by (simp add: hash_inv_def hashed_def)
  then show "rCtrlClosed (sysRing u) \<and> rCtrlPending (sysRing u) = [] \<and> rEndPlusOne (rMem (sysRing u)) = of_nat (length (sysLog u) + 1)
       \<and> rEndPlusOne (rMem (sysRing u)) \<noteq> 0
       \<and> (\<exists>h. sysHash u = Some h \<and> fst (hasher_Sum h []) = hash_of CanonicalCRC32C (canonical_input (sysLog u)))"
    using p(3,5) assms(3) n h(2) by (simp add: memory_inv_def control_inv_def)
qed

lemma server_returned:
  assumes "serves_run cfg cs s" "run_inputs (ring_config cfg) cs (scWorkers cfg) defaultBatchShape"
    and "sysPc (svSys s) = EmitReturned rerr" "rerr \<noteq> None \<longrightarrow> svEnded s"
  shows "prefix (sysLog (svSys s)) (merged cs)" "rWriteSeq (rMem (sysRing (svSys s))) = of_nat (length (sysLog (svSys s)))"
    "End (rMem (sysRing (svSys s))) = Some (of_nat (length (sysLog (svSys s))))"
    "rCtrlStarted (sysRing (svSys s))" "rCtrlClosed (sysRing (svSys s))" "rCtrlPending (sysRing (svSys s)) = []"
    "set (map fst (rReplies (sysRing (svSys s)))) = {0..<rIssued (sysRing (svSys s))}"
    "rerr = None \<Longrightarrow> \<exists>h. sysHash (svSys s) = Some h \<and> fst (hasher_Sum h []) = hash_of CanonicalCRC32C (canonical_input (sysLog (svSys s)))"
proof -
  let ?u = "svSys s"
  have "prefix (sysLog ?u) (merged cs) \<and> rWriteSeq (rMem (sysRing ?u)) = of_nat (length (sysLog ?u))
    \<and> End (rMem (sysRing ?u)) = Some (of_nat (length (sysLog ?u))) \<and> rCtrlStarted (sysRing ?u) \<and> rCtrlClosed (sysRing ?u) \<and> rCtrlPending (sysRing ?u) = []
    \<and> set (map fst (rReplies (sysRing ?u))) = {0..<rIssued (sysRing ?u)}
    \<and> (rerr = None \<longrightarrow> (\<exists>h. sysHash ?u = Some h \<and> fst (hasher_Sum h []) = hash_of CanonicalCRC32C (canonical_input (sysLog ?u))))"
  proof (cases "svEnded s")
    case False
    note f = fan_returned [OF assms(2) server_run_of [OF assms(1) False] assms(3)]
    have "rerr = None" using False assms(4) by blast
    note g = f(5) [OF this]
    then have e: "rEndPlusOne (rMem (sysRing ?u)) = of_nat (length (sysLog ?u) + 1)" "rEndPlusOne (rMem (sysRing ?u)) \<noteq> 0" by blast+
    have "End (rMem (sysRing ?u)) = Some (rEndPlusOne (rMem (sysRing ?u)) - 1)" using e(2) by (simp add: End_def Let_def)
    moreover have "rEndPlusOne (rMem (sysRing ?u)) - 1 = of_nat (length (sysLog ?u))" unfolding e(1) by simp
    ultimately show ?thesis using f(1-4) g by simp
  next
    case True
    obtain t e where t: "server_run cfg cs t" "sysPc t = EmitReturned (Some e)" "ended_like t ?u"
      using server_ended [OF assms(1) True assms(2)] by blast
    note f = fan_returned [OF assms(2) t(1,2)]
    have "unat (of_nat (length (sysLog t)) + 1 :: u64) = length (sysLog t) + 1"
      using f(6) by (simp add: unat_plus_1)
    then have "(of_nat (length (sysLog t)) + 1 :: u64) \<noteq> 0" by (metis add_is_0 one_neq_zero unat_0)
    moreover have "rerr = Some e" using t(2,3) assms(3) by (simp add: ended_like_def)
    ultimately show ?thesis using t(3) f(1-4) by (simp add: ended_like_def store_end_def End_def Let_def)
  qed
  then show "prefix (sysLog ?u) (merged cs)" "rWriteSeq (rMem (sysRing ?u)) = of_nat (length (sysLog ?u))"
    "End (rMem (sysRing ?u)) = Some (of_nat (length (sysLog ?u)))" "rCtrlStarted (sysRing ?u)" "rCtrlClosed (sysRing ?u)" "rCtrlPending (sysRing ?u) = []"
    "set (map fst (rReplies (sysRing ?u))) = {0..<rIssued (sysRing ?u)}"
    "rerr = None \<Longrightarrow> \<exists>h. sysHash ?u = Some h \<and> fst (hasher_Sum h []) = hash_of CanonicalCRC32C (canonical_input (sysLog ?u))"
    by blast+
qed

section \<open>The subscribers of a run that is over\<close>

text \<open>The loop has returned and the ring has its end: nothing is written any more, and what each subscriber
  has been given agrees with the log.\<close>

definition over_inv :: "nat \<Rightarrow> Server \<Rightarrow> bool" where
  "over_inv cap s \<longleftrightarrow> (\<exists>rerr. sysPc (svSys s) = EmitReturned rerr \<and> (rerr \<noteq> None \<longrightarrow> svEnded s))
     \<and> mem_ok cap (sysLog (svSys s)) False (rMem (sysRing (svSys s)))
     \<and> End (rMem (sysRing (svSys s))) = Some (of_nat (length (sysLog (svSys s))))
     \<and> rEndPlusOne (rMem (sysRing (svSys s))) = of_nat (length (sysLog (svSys s)) + 1)
     \<and> rCtrlStarted (sysRing (svSys s)) \<and> rCtrlClosed (sysRing (svSys s))
     \<and> (\<forall>k < length (rSubs (sysRing (svSys s))).
          sub_inv cap (sysLog (svSys s)) (rMem (sysRing (svSys s))) (rSubs (sysRing (svSys s)) ! k))"

text \<open>What a step of the server does to the subscribers then: one of them is canceled, or its owner takes a
  step.\<close>

definition idle_step :: "Server \<Rightarrow> Server \<Rightarrow> bool" where
  "idle_step s s' \<longleftrightarrow> rMem (sysRing (svSys s')) = rMem (sysRing (svSys s)) \<and> sysLog (svSys s') = sysLog (svSys s)
     \<and> length (rSubs (sysRing (svSys s'))) = length (rSubs (sysRing (svSys s)))
     \<and> (\<forall>j < length (rSubs (sysRing (svSys s))). rSubs (sysRing (svSys s')) ! j
          \<in> {rSubs (sysRing (svSys s)) ! j, Cancel (rSubs (sysRing (svSys s)) ! j),
             sub_step (rMem (sysRing (svSys s))) (rSubs (sysRing (svSys s)) ! j)})"

lemma idle_refl: "svSys s' = svSys s \<Longrightarrow> idle_step s s'"
  by (simp add: idle_step_def)

lemma idle_ring: "svSys s' = on_ring f (svSys s) \<Longrightarrow> f (sysRing (svSys s)) = sysRing (svSys s) \<Longrightarrow> idle_step s s'"
  by (simp add: idle_step_def)

lemma idle_sub:
  assumes "svSys s' = on_ring (update_sub k f) (svSys s)"
    "f (rSubs (sysRing (svSys s)) ! k) \<in> {Cancel (rSubs (sysRing (svSys s)) ! k),
       sub_step (rMem (sysRing (svSys s))) (rSubs (sysRing (svSys s)) ! k)}"
  shows "idle_step s s'"
  using assms by (auto simp: idle_step_def update_sub_def nth_update_cases)

lemma over_idle:
  assumes "over_inv cap s" "server_step s s'"
  shows "idle_step s s'"
proof -
  have c: "rCtrlStarted (sysRing (svSys s))" "rCtrlClosed (sysRing (svSys s))" using assms(1) by (simp_all add: over_inv_def)
  obtain rerr where pc: "sysPc (svSys s) = EmitReturned rerr" "rerr \<noteq> None \<longrightarrow> svEnded s" using assms(1) by (auto simp: over_inv_def)
  have read: "on_ring (read_sub k) (svSys s) = on_ring (update_sub k (sub_step (rMem (sysRing (svSys s))))) (svSys s)" for k
    by (simp add: on_ring_def read_sub_def)
  from assms(2) show ?thesis
  proof (cases rule: server_step.cases)
    case (attaches req mode start kind speed now res)
    have ring: "snd (Subscribe mode start (sysRing (svSys s))) = sysRing (svSys s)" by (rule Subscribe_closed [OF c(2)])
    from attach_ring(1) [OF attaches(2)] show ?thesis
    proof
      assume "svSys s' = on_ring (\<lambda>r. snd (Subscribe mode start r)) (svSys s)"
      from idle_ring [OF this ring] show ?thesis .
    qed (rule idle_refl)
  next
    case (replied now res)
    show ?thesis by (rule idle_refl [OF attach_reply_ring(1) [OF replied]])
  next
    case (departs i)
    show ?thesis
      by (rule idle_ring [where f = "\<lambda>r. snd (Unsubscribe (acSub (svLeaving s ! i)) r)"])
        (simp_all add: departs depart_def Unsubscribe_closed [OF c])
  next
    case (hangs_up k)
    show ?thesis
      by (rule idle_ring [where f = "\<lambda>r. snd (Unsubscribe k r)"]) (simp_all add: hangs_up Unsubscribe_closed [OF c])
  next
    case (canceled k)
    show ?thesis by (rule idle_sub [where k = k and f = Cancel]) (simp_all add: canceled)
  next
    case (receives k)
    show ?thesis
      by (rule idle_sub [where k = k and f = "sub_step (rMem (sysRing (svSys s)))"]) (simp_all add: receives read)
  next
    case (emits_one now go)
    then show ?thesis using pc(1) by (intro idle_refl) (simp add: emit_step_def)
  next
    case (fails e)
    then show ?thesis using pc by simp
  qed (simp_all add: idle_refl gauge_one_def count_one_def leave_def run_finish_def Let_def case_prod_unfold)
qed

lemma over_step:
  assumes i: "over_inv cap s" and st: "server_step s s'"
  shows "over_inv cap s'"
proof -
  note d = over_idle [OF assms]
  let ?r = "sysRing (svSys s)" and ?r' = "sysRing (svSys s')"
  obtain rerr where pc: "sysPc (svSys s) = EmitReturned rerr" "rerr \<noteq> None \<longrightarrow> svEnded s" using i by (auto simp: over_inv_def)
  have same: "rMem ?r' = rMem ?r" "sysLog (svSys s') = sysLog (svSys s)" "length (rSubs ?r') = length (rSubs ?r)"
    using d by (simp_all add: idle_step_def)
  have m: "mem_ok cap (sysLog (svSys s)) False (rMem ?r)" using i by (simp add: over_inv_def)
  have e: "rEndPlusOne (rMem ?r) = of_nat (length (sysLog (svSys s)) + 1)" using i unfolding over_inv_def by blast
  have "sub_inv cap (sysLog (svSys s)) (rMem ?r) (rSubs ?r' ! k)" if k: "k < length (rSubs ?r)" for k
  proof -
    have x: "sub_inv cap (sysLog (svSys s)) (rMem ?r) (rSubs ?r ! k)" using i k by (simp add: over_inv_def)
    have "rSubs ?r' ! k \<in> {rSubs ?r ! k, Cancel (rSubs ?r ! k), sub_step (rMem ?r) (rSubs ?r ! k)}"
      using d k by (simp add: idle_step_def)
    then show ?thesis using x sub_step_inv [OF m x e] by (auto simp: Cancel_def)
  qed
  moreover have "rCtrlStarted ?r' \<and> rCtrlClosed ?r'"
  proof -
    have c: "rCtrlStarted ?r" "rCtrlClosed ?r" using i by (simp_all add: over_inv_def)
    from st show ?thesis
    proof (cases rule: server_step.cases)
      case (attaches req mode start kind speed now res)
      then show ?thesis using attach_ring(1) [OF attaches(2)] c by (auto simp: Subscribe_closed)
    next
      case (replied now res)
      then show ?thesis using attach_reply_ring(1) [OF replied] c by simp
    next
      case (fails e)
      then show ?thesis using pc by simp
    next
      case (emits_one now go)
      then show ?thesis using pc(1) c by (simp add: emit_step_def)
    qed (use c in \<open>simp_all add: gauge_one_def count_one_def leave_def depart_def run_finish_def read_sub_def Let_def
        case_prod_unfold Unsubscribe_closed\<close>)
  qed
  moreover have "sysPc (svSys s') = EmitReturned rerr" using server_frame [OF st pc(1)] by blast
  moreover have "rerr \<noteq> None \<longrightarrow> svEnded s'" using pc(2) server_step_ended [OF st] by blast
  ultimately show ?thesis using i same unfolding over_inv_def by simp
qed

lemma over_reachable:
  assumes "serves_run cfg cs s" "run_inputs (ring_config cfg) cs (scWorkers cfg) defaultBatchShape"
    and "sysPc (svSys s) = EmitReturned rerr" "rerr \<noteq> None \<longrightarrow> svEnded s"
  shows "over_inv (nat (scCapacity cfg)) s"
proof -
  let ?cap = "nat (scCapacity cfg)"
  obtain os_Open trim fs s0 where o: "openCursors os_Open cfg = Inr cs" "NewServer os_Open trim fs True cfg = Inr s0" "server_reachable s0 s"
    using assms(1) by (auto simp: serves_run_def)
  have cap: "nat (cfgCapacity (ring_config cfg)) = ?cap" by (simp add: ring_config_def)
  note r = server_returned [OF assms(1-4)]
  have ended: "over_inv ?cap v" if "server_reachable s0 v" "svEnded v" for v
    using that unfolding server_reachable_def
  proof (induction rule: rtranclp_induct)
    case base
    then show ?case using NewServer_Inr [OF o(2)] by auto
  next
    case (step u v)
    show ?case
    proof (cases "svEnded u")
      case True
      show ?thesis by (rule over_step [OF step.IH [OF True] step.hyps(2)])
    next
      case False
      have su: "serves_run cfg cs u" using o(1,2) step.hyps(1) by (auto simp: serves_run_def server_reachable_def)
      obtain e where f: "sysPc (svSys u) = EmitReturned (Some e)" "v = run_end u"
        using step.hyps(2) False step.prems
        by (cases rule: server_step.cases)
          (auto simp: gauge_one_def count_one_def leave_def depart_def run_finish_def Let_def case_prod_unfold
            dest: attach_ring(3) attach_reply_ring(3))
      have "server_step\<^sup>*\<^sup>* s0 v" using step.hyps by (rule rtranclp.rtrancl_into_rtrancl)
      then have sv: "serves_run cfg cs v"
        using o(1,2) by (auto simp: serves_run_def server_reachable_def)
      note p = fan_inv_parts [OF fan_run_inv [OF assms(2) server_run_of [OF su False]], unfolded cap]
      let ?r = "sysRing (svSys u)" and ?log = "sysLog (svSys u)"
      have m: "mem_ok ?cap ?log False (rMem ?r)" and ws: "rWriteSeq (rMem ?r) = of_nat (length ?log)"
        using p(3) f(1) by (simp_all add: memory_inv_def)
      have sm: "rMem (sysRing (svSys v)) = store_end (of_nat (length ?log)) (rMem ?r)"
        "rSubs (sysRing (svSys v)) = rSubs ?r" "sysLog (svSys v) = ?log" "sysPc (svSys v) = sysPc (svSys u)"
      proof -
        let ?c = "?r\<lparr>rMem := store_end (rWriteSeq (rMem ?r)) (rMem ?r)\<rparr>"
        have "rMem (closeControl ?c) = rMem ?c" "rSubs (closeControl ?c) = rSubs ?c"
          using arg_cong [OF closeControl_eq [of ?c, THEN conjunct1], of rMem]
            arg_cong [OF closeControl_eq [of ?c, THEN conjunct1], of rSubs] by simp_all
        then show "rMem (sysRing (svSys v)) = store_end (of_nat (length ?log)) (rMem ?r)"
          "rSubs (sysRing (svSys v)) = rSubs ?r" "sysLog (svSys v) = ?log" "sysPc (svSys v) = sysPc (svSys u)"
          unfolding f(2) run_end_def SetEnd_def WriteIndex_def by (simp_all add: ws)
      qed
      have nz: "of_nat (length ?log + 1) \<noteq> (0 :: u64)"
      proof -
        have "unat (of_nat (length ?log + 1) :: u64) = length ?log + 1" using mem_okD(2) [OF m] by (intro unat_index) simp
        then show ?thesis by (metis add_is_0 one_neq_zero unat_0)
      qed
      have sub: "sub_inv ?cap ?log (store_end (of_nat (length ?log)) (rMem ?r)) x" if "sub_inv ?cap ?log (rMem ?r) x" for x
        by (rule sub_inv_mono [where new = "[]", OF that])
          (use nz mem_okD(4) [OF m] in \<open>simp_all add: store_end_def seq_of_def add.commute\<close>)
      have subs: "\<forall>k < length (rSubs ?r). sub_inv ?cap ?log (rMem ?r) (rSubs ?r ! k)" using p(4) by (simp add: subs_inv_def)
      have pcv: "sysPc (svSys v) = EmitReturned (Some e)" using f(1) sm(4) by simp
      note rv = server_returned [OF sv assms(2) pcv, rule_format, OF step.prems]
      show ?thesis unfolding over_inv_def
      proof (intro conjI)
        show "\<exists>rerr. sysPc (svSys v) = EmitReturned rerr \<and> (rerr \<noteq> None \<longrightarrow> svEnded v)" using pcv step.prems by blast
        show "mem_ok ?cap (sysLog (svSys v)) False (rMem (sysRing (svSys v)))" unfolding sm using m by (simp add: store_end_def)
        show "End (rMem (sysRing (svSys v))) = Some (of_nat (length (sysLog (svSys v))))" by (rule rv(3))
        show "rEndPlusOne (rMem (sysRing (svSys v))) = of_nat (length (sysLog (svSys v)) + 1)"
          unfolding sm by (simp add: store_end_def add.commute)
        show "rCtrlStarted (sysRing (svSys v))" by (rule rv(4))
        show "rCtrlClosed (sysRing (svSys v))" by (rule rv(5))
        show "\<forall>k < length (rSubs (sysRing (svSys v))).
          sub_inv ?cap (sysLog (svSys v)) (rMem (sysRing (svSys v))) (rSubs (sysRing (svSys v)) ! k)"
          unfolding sm using subs sub by blast
      qed
    qed
  qed
  show ?thesis
  proof (cases "svEnded s")
    case True
    then show ?thesis using ended o(3) by blast
  next
    case False
    then have "rerr = None" using assms(4) by blast
    note p = fan_inv_parts [OF fan_run_inv [OF assms(2) server_run_of [OF assms(1) False]], unfolded cap]
    have "rEndPlusOne (rMem (sysRing (svSys s))) = of_nat (length (sysLog (svSys s)) + 1)"
      using p(3) assms(3) \<open>rerr = None\<close> by (simp add: memory_inv_def)
    then show ?thesis
      using p(3,4) assms(3) \<open>rerr = None\<close> r by (simp add: over_inv_def memory_inv_def subs_inv_def)
  qed
qed

text \<open>A run of the server, counting the operations of the owner of subscriber \<open>k\<close>.\<close>

inductive next_run :: "nat \<Rightarrow> Server \<Rightarrow> nat \<Rightarrow> Server \<Rightarrow> bool" for k s where
  next_starts: "next_run k s 0 s"
| next_operation: "next_run k s n t \<Longrightarrow> k < length (rSubs (sysRing (svSys t))) \<Longrightarrow>
    next_run k s (Suc n) (t\<lparr>svSys := on_ring (read_sub k) (svSys t)\<rparr>)"
| next_others: "next_run k s n t \<Longrightarrow> server_step t u \<Longrightarrow> next_run k s n u"

text \<open>The owner's next operations end its call of \<^verbatim>\<open>Next\<close>, whatever the others do.\<close>

lemma next_returns:
  assumes i: "over_inv cap s" and k: "k < length (rSubs (sysRing (svSys s)))"
    and from_: "unat (sbFrom (rSubs (sysRing (svSys s)) ! k)) < 2 ^ 63"
    and run: "next_run k s n t" and n: "next_bound (rMem (sysRing (svSys s))) \<le> n"
  shows "\<exists>out outs. sbTrace (rSubs (sysRing (svSys t)) ! k) = sbTrace (rSubs (sysRing (svSys s)) ! k) @ out # outs"
proof -
  let ?r = "rMem (sysRing (svSys s))" and ?len = "length (sysLog (svSys s))" and ?u = "\<lambda>t. rSubs (sysRing (svSys t)) ! k"
  let ?w = "sub_weight cap ?len ?r"
  let ?returned = "\<lambda>t. \<exists>out outs. sbTrace (?u t) = sbTrace (?u s) @ out # outs"
  have step: "sbFrom (?u v) = sbFrom (?u t)
      \<and> ((\<exists>out. sbTrace (?u v) = sbTrace (?u t) @ [out])
         \<or> sbTrace (?u v) = sbTrace (?u t) \<and> ?w (?u v) \<le> ?w (?u t) \<and> (?u v = sub_step ?r (?u t) \<longrightarrow> ?w (?u v) < ?w (?u t)))"
    if t: "over_inv cap t" "rMem (sysRing (svSys t)) = ?r" "sysLog (svSys t) = sysLog (svSys s)"
      "k < length (rSubs (sysRing (svSys t)))" "unat (sbFrom (?u t)) < 2 ^ 63" and v: "idle_step t v" for t v
  proof -
    have m: "mem_ok cap (sysLog (svSys s)) False ?r" "sub_inv cap (sysLog (svSys s)) ?r (?u t)" "End ?r = Some (of_nat ?len)"
      using t unfolding over_inv_def by auto
    note nr = sub_step_nearer [OF m(1,2) t(5) m(3)]
    have c: "sbTrace (Cancel x) = sbTrace x" "sbFrom (Cancel x) = sbFrom x" "?w (Cancel x) = ?w x" for x
      by (simp_all add: Cancel_def sub_weight_def)
    have "?u v \<in> {?u t, Cancel (?u t), sub_step ?r (?u t)}" using v t(2,4) by (simp add: idle_step_def)
    then consider "?u v = sub_step ?r (?u t)" | "?u v \<noteq> sub_step ?r (?u t)" "?u v = ?u t \<or> ?u v = Cancel (?u t)" by blast
    then show ?thesis
    proof cases
      case 1
      then show ?thesis unfolding 1 sub_step_frame using nr by (metis less_imp_le)
    next
      case 2
      from 2(2) have "sbFrom (?u v) = sbFrom (?u t)" "sbTrace (?u v) = sbTrace (?u t)" "?w (?u v) \<le> ?w (?u t)"
        using c by auto
      with 2(1) show ?thesis by blast
    qed
  qed
  define inv where "inv n t \<longleftrightarrow> over_inv cap t \<and> rMem (sysRing (svSys t)) = ?r \<and> sysLog (svSys t) = sysLog (svSys s)
      \<and> k < length (rSubs (sysRing (svSys t))) \<and> sbFrom (?u t) = sbFrom (?u s)
      \<and> (?returned t \<or> sbTrace (?u t) = sbTrace (?u s) \<and> n + ?w (?u t) \<le> ?w (?u s))" for n t
  have on: "inv m v" if t: "inv n t" and st: "server_step t v"
    and m: "m = n \<or> m = Suc n \<and> ?u v = sub_step ?r (?u t)" for n m t v
  proof -
    have ti: "over_inv cap t" "rMem (sysRing (svSys t)) = ?r" "sysLog (svSys t) = sysLog (svSys s)"
      "k < length (rSubs (sysRing (svSys t)))" "unat (sbFrom (?u t)) < 2 ^ 63" "sbFrom (?u t) = sbFrom (?u s)"
      using t from_ by (simp_all add: inv_def)
    note d = over_idle [OF ti(1) st]
    note x = step [OF ti(1-5) d]
    have "?returned v \<or> sbTrace (?u v) = sbTrace (?u s) \<and> m + ?w (?u v) \<le> ?w (?u s)"
    proof (cases "?returned t")
      case True
      then obtain out outs where o: "sbTrace (?u t) = sbTrace (?u s) @ out # outs" by blast
      have "\<exists>new. sbTrace (?u v) = sbTrace (?u t) @ new" using x by (metis append_Nil2)
      then obtain new where "sbTrace (?u v) = sbTrace (?u t) @ new" ..
      then have "sbTrace (?u v) = sbTrace (?u s) @ out # (outs @ new)" using o by simp
      then show ?thesis by blast
    next
      case False
      then have w: "sbTrace (?u t) = sbTrace (?u s)" "n + ?w (?u t) \<le> ?w (?u s)" using t by (simp_all add: inv_def)
      show ?thesis
      proof (cases "sbTrace (?u v) = sbTrace (?u t)")
        case True
        then have "?w (?u v) \<le> ?w (?u t)" "?u v = sub_step ?r (?u t) \<longrightarrow> ?w (?u v) < ?w (?u t)" using x by auto
        then have "m + ?w (?u v) \<le> ?w (?u s)" using m w(2) by auto
        then show ?thesis using True w(1) by simp
      next
        case False
        then show ?thesis using x w(1) by auto
      qed
    qed
    then show ?thesis
      using over_step [OF ti(1) st] d ti x unfolding inv_def idle_step_def by simp
  qed
  from run have "inv n t"
  proof (induction rule: next_run.induct)
    case next_starts
    then show ?case using i k by (simp add: inv_def)
  next
    case (next_operation n t)
    let ?t = "t\<lparr>svSys := on_ring (read_sub k) (svSys t)\<rparr>"
    have st: "server_step t ?t" by (rule receives [OF next_operation.hyps(2)])
    have "?u ?t = sub_step ?r (?u t)"
      using next_operation.IH next_operation.hyps(2) by (simp add: inv_def read_sub_def update_sub_def)
    then show ?case using on [OF next_operation.IH st] by blast
  next
    case (next_others n t v)
    then show ?case using on by blast
  qed
  moreover have "?w (?u s) \<le> next_bound ?r"
    by (rule sub_weight_le) (use i k from_ in \<open>simp_all add: over_inv_def\<close>)
  moreover have "0 < ?w (?u t)" by (rule sub_weight_pos)
  ultimately have "\<not> n + ?w (?u t) \<le> ?w (?u s)" "?returned t \<or> n + ?w (?u t) \<le> ?w (?u s)"
    using n unfolding inv_def by (linarith, blast)
  then show ?thesis by blast
qed

text \<open>C31: However a run ends, nobody waits for it. Once the server's run is over, with an error or without,
  the ring has its end at the number of records emitted, and no call of \<^verbatim>\<open>Next\<close> of a subscriber that
  starts below \<open>2 ^ 63\<close> waits: wherever its owner is, and whatever the other goroutines do meanwhile, after at most \<open>next_bound\<close> of the owner's atomic
  operations the call has returned a delivery, the end of the stream or an error. Every request to join
  or leave has been answered, a new one is refused or answered at once, and \<^verbatim>\<open>Close\<close> returns the run's
  error.\<close>

theorem run_releases:
  assumes "serves_run cfg cs s" and "run_inputs (ring_config cfg) cs (scWorkers cfg) defaultBatchShape" and "svRunErr s = Some err"
  shows "End (rMem (sysRing (svSys s))) = Some (of_nat (length (sysLog (svSys s))))
    \<and> (\<forall>k n t. k < length (rSubs (sysRing (svSys s))) \<and> unat (sbFrom (rSubs (sysRing (svSys s)) ! k)) < 2 ^ 63
         \<and> next_run k s n t \<and> next_bound (rMem (sysRing (svSys s))) \<le> n \<longrightarrow>
         (\<exists>out outs. sbTrace (rSubs (sysRing (svSys t)) ! k) = sbTrace (rSubs (sysRing (svSys s)) ! k) @ out # outs))
    \<and> rCtrlPending (sysRing (svSys s)) = []
    \<and> set (map fst (rReplies (sysRing (svSys s)))) = {0..<rIssued (sysRing (svSys s))}
    \<and> (\<forall>mode start. \<exists>e. Subscribe mode start (sysRing (svSys s)) = (Inl (Inl e), sysRing (svSys s))
         \<and> (mode \<noteq> ModeUnset \<and> saKind start \<noteq> startUnset \<longrightarrow> e = ErrClosed))
    \<and> (\<forall>k. Unsubscribe k (sysRing (svSys s)) = (Inl (), sysRing (svSys s)))
    \<and> server_Close s = Some (err, s)"
proof -
  note mi = manifest_reachable [OF assms(1)]
  obtain rerr where r: "sysPc (svSys s) = EmitReturned rerr" "rerr \<noteq> None \<longrightarrow> svEnded s" "svStarted s"
    using mi assms(3) by (auto simp: manifest_inv_def)
  note over = over_reachable [OF assms(1,2) r(1,2)]
  have "\<exists>e. Subscribe mode start (sysRing (svSys s)) = (Inl (Inl e), sysRing (svSys s))
      \<and> (mode \<noteq> ModeUnset \<and> saKind start \<noteq> startUnset \<longrightarrow> e = ErrClosed)" for mode start
    using server_returned(5) [OF assms(1,2) r(1,2)] by (cases mode) (auto simp: Subscribe_def)
  moreover have "\<forall>k n t. k < length (rSubs (sysRing (svSys s))) \<and> unat (sbFrom (rSubs (sysRing (svSys s)) ! k)) < 2 ^ 63
         \<and> next_run k s n t \<and> next_bound (rMem (sysRing (svSys s))) \<le> n \<longrightarrow>
         (\<exists>out outs. sbTrace (rSubs (sysRing (svSys t)) ! k) = sbTrace (rSubs (sysRing (svSys s)) ! k) @ out # outs)"
    by (intro allI impI, elim conjE) (rule next_returns [OF over])
  moreover have "\<forall>k. Unsubscribe k (sysRing (svSys s)) = (Inl (), sysRing (svSys s))"
    using server_returned(4,5) [OF assms(1,2) r(1,2)] by (simp add: Unsubscribe_def)
  moreover have "server_Close s = Some (err, s)" using r(3) assms(3) by (simp add: server_Close_def)
  ultimately show ?thesis
    using server_returned(3,6,7) [OF assms(1,2) r(1,2)] by (intro conjI allI) blast+
qed

lemma run_all:
  assumes "serves_run cfg cs s" "run_inputs (ring_config cfg) cs (scWorkers cfg) defaultBatchShape" "svRunErr s = Some None"
  shows "sysLog (svSys s) = merged cs
    \<or> pacer_stopped (fan_run (ring_config cfg) cs (scWorkers cfg) defaultBatchShape (Some CanonicalCRC32C)) True (svSys s)"
proof -
  note mi = manifest_reachable [OF assms(1)]
  then have r: "sysPc (svSys s) = EmitReturned None" using assms(3) by (auto simp: manifest_inv_def)
  then have "\<not> svEnded s" using mi by (auto simp: manifest_inv_def)
  from run_log_end [OF assms(2) server_run_of [OF assms(1) this]] show ?thesis using r by simp
qed

lemma manifest_parts:
  assumes "serves_run cfg cs s" "run_inputs (ring_config cfg) cs (scWorkers cfg) defaultBatchShape" "svRunErr s = Some err"
    "svManifest s = Some m"
  shows "mfDataset m = svDataset s" "mfConfig m = settings_of cfg (svSpeed s)"
    "rrEmitIndexAtEnd (mfResult m) = of_nat (length (sysLog (svSys s)))" "rrError (mfResult m) = err"
    "rrCanonicalHash (mfResult m)
       = (if err = None then hex_EncodeToString (hash_of CanonicalCRC32C (canonical_input (sysLog (svSys s)))) else [])"
proof -
  note mi = manifest_reachable [OF assms(1)] and cfg = session_reachable(2) [OF assms(1)]
  obtain rerr where r: "sysPc (svSys s) = EmitReturned rerr" "rerr \<noteq> None \<longrightarrow> svEnded s" "rerr \<noteq> None \<longrightarrow> err \<noteq> None"
    using mi assms(3) by (auto simp: manifest_inv_def)
  note f = server_returned [OF assms(1,2) r(1,2)]
  have m: "rrEmitIndexAtEnd (mfResult m) = rWriteSeq (rMem (sysRing (svSys s)))"
    "rrCanonicalHash (mfResult m) = (if err = None
        then hex_EncodeToString (case sysHash (svSys s) of None \<Rightarrow> [] | Some h \<Rightarrow> fst (hasher_Sum h [])) else [])"
    using mi assms(3,4) by (auto simp: manifest_inv_def)
  show "mfDataset m = svDataset s" "mfConfig m = settings_of cfg (svSpeed s)" "rrError (mfResult m) = err"
    using mi assms(3,4) cfg by (auto simp: manifest_inv_def)
  show "rrEmitIndexAtEnd (mfResult m) = of_nat (length (sysLog (svSys s)))" unfolding m(1) by (rule f(2))
  show "rrCanonicalHash (mfResult m)
       = (if err = None then hex_EncodeToString (hash_of CanonicalCRC32C (canonical_input (sysLog (svSys s)))) else [])"
  proof (cases "err = None")
    case True
    then obtain h where "sysHash (svSys s) = Some h" "fst (hasher_Sum h []) = hash_of CanonicalCRC32C (canonical_input (sysLog (svSys s)))"
      using f(8) r(3) by blast
    then show ?thesis using m(2) True by simp
  next
    case False
    then show ?thesis unfolding m(2) by (simp only: if_False)
  qed
qed


end
