(* ===== verification/Convert_Path.thy ===== *)
theory Convert_Path
  imports Convert_Row
begin

text \<open>
  The name of a partition's file: \<^verbatim>\<open>FileName\<close> of \<^verbatim>\<open>src/cmd/convert/partition.go\<close>. No two
  partitions share one, which is what lets the model of the converter name a file by its partition.
\<close>

section \<open>Dates\<close>

text \<open>
  What \<^verbatim>\<open>time.Unix(sec, 0).UTC().Format("2006-01-02")\<close> writes: the date in the Gregorian calendar, here
  counted from the first of January of the year 0, which is \<open>719528\<close> days before 1970. Every timestamp of
  64 bits is after that date.
\<close>

definition leap_year :: "nat \<Rightarrow> bool" where
  "leap_year y \<longleftrightarrow> 4 dvd y \<and> (\<not> 100 dvd y \<or> 400 dvd y)"

definition year_days :: "nat \<Rightarrow> nat" where
  "year_days y = (if leap_year y then 366 else 365)"

definition month_days :: "nat \<Rightarrow> nat list" where
  "month_days y = [31, if leap_year y then 29 else 28, 31, 30, 31, 30, 31, 31, 30, 31, 30, 31]"

function year_loop :: "nat \<Rightarrow> nat \<Rightarrow> nat \<times> nat" where
  "year_loop y n = (if n < year_days y then (y, n) else year_loop (Suc y) (n - year_days y))"
  by auto
termination
  by (relation "measure snd") (auto simp: year_days_def split: if_splits)

declare year_loop.simps [simp del]

primrec month_loop :: "nat \<Rightarrow> nat list \<Rightarrow> nat \<Rightarrow> nat \<times> nat" where
  "month_loop m [] n = (m, n)"
| "month_loop m (l # ls) n = (if n < l then (m, n) else month_loop (Suc m) ls (n - l))"

text \<open>Year, month and day, both from 1.\<close>

definition date_of_unix :: "int \<Rightarrow> nat \<times> nat \<times> nat" where
  "date_of_unix sec =
     (case year_loop 0 (nat (sec div 86400 + 719528)) of
        (y, n) \<Rightarrow> (case month_loop 1 (month_days y) n of (m, d) \<Rightarrow> (y, m, Suc d)))"

text \<open>Decimals, as \<^verbatim>\<open>fmt\<close> and \<^verbatim>\<open>time\<close> write them, to a least width.\<close>

fun decimal :: "nat \<Rightarrow> string" where
  "decimal n = (if n < 10 then [] else decimal (n div 10)) @ [char_of (48 + n mod 10)]"

declare decimal.simps [simp del]

definition padded :: "nat \<Rightarrow> nat \<Rightarrow> string" where
  "padded w n = replicate (w - length (decimal n)) (CHR ''0'') @ decimal n"

definition date_Format :: "nat \<times> nat \<times> nat \<Rightarrow> string" where
  "date_Format date = (case date of (y, m, d) \<Rightarrow> padded 4 y @ ''-'' @ padded 2 m @ ''-'' @ padded 2 d)"

definition FileName :: "PartitionKey \<Rightarrow> string" where
  "FileName k = ''venue-'' @ decimal (unat (pkVenueID k)) @ ''-''
     @ date_Format (date_of_unix (wrap64 (pkDay k * go_quot nanosPerDay 1000000000))) @ ''.bin''"

section \<open>Names tell partitions apart\<close>

definition decimal_value :: "string \<Rightarrow> nat" where
  "decimal_value s = fold (\<lambda>c v. 10 * v + (of_char c - 48)) s 0"

lemma decimal_value_decimal: "decimal_value (decimal n) = n"
proof (induction n rule: less_induct)
  case (less n)
  have c: "of_char (char_of (48 + n mod 10) :: char) = (48 + n mod 10 :: nat)" by simp
  show ?case
  proof (cases "n < 10")
    case True
    then show ?thesis using c by (subst decimal.simps) (simp add: decimal_value_def)
  next
    case False
    then have "decimal_value (decimal n) = 10 * decimal_value (decimal (n div 10)) + n mod 10"
      using c by (subst decimal.simps) (simp add: decimal_value_def)
    then show ?thesis using less [of "n div 10"] False by simp
  qed
qed

lemma decimal_value_padded: "decimal_value (padded w n) = n"
proof -
  have "fold (\<lambda>c v. 10 * v + (of_char c - 48)) (replicate k (CHR ''0'')) 0 = (0 :: nat)" for k
    by (induction k) simp_all
  then show ?thesis using decimal_value_decimal [of n] by (simp add: padded_def decimal_value_def)
qed

lemma decimal_digits: "c \<in> set (decimal n) \<Longrightarrow> \<exists>d < 10. c = char_of (48 + d :: nat)"
proof (induction n rule: decimal.induct)
  case (1 n)
  have "c = char_of (48 + n mod 10) \<or> c \<in> set (decimal (n div 10)) \<and> \<not> n < 10"
    using 1(2) decimal.simps [of n] by (auto split: if_splits)
  then show ?case using 1(1) mod_less_divisor [of 10 n] by (metis zero_less_numeral)
qed

lemma no_dash: "CHR ''-'' \<notin> set (decimal n)" "CHR ''-'' \<notin> set (padded w n)" "CHR ''.'' \<notin> set (padded w n)"
proof -
  have "c \<noteq> CHR ''-'' \<and> c \<noteq> CHR ''.''" if "c \<in> set (decimal n)" for c
  proof -
    from decimal_digits [OF that] obtain d :: nat where d: "d < 10" "c = char_of (48 + d)" by blast
    then have "of_char c = 48 + d" by simp
    then show ?thesis by auto
  qed
  then show "CHR ''-'' \<notin> set (decimal n)" "CHR ''-'' \<notin> set (padded w n)" "CHR ''.'' \<notin> set (padded w n)"
    by (auto simp: padded_def)
qed

lemma split_at: "x \<notin> set a \<Longrightarrow> x \<notin> set b \<Longrightarrow> a @ x # as = b @ x # bs \<longleftrightarrow> a = b \<and> as = bs"
proof (induction a arbitrary: b)
  case Nil
  then show ?case by (cases b) auto
next
  case (Cons c a)
  then show ?case by (cases b) auto
qed

lemma decimal_inj: "decimal m = decimal n \<longleftrightarrow> m = n" "padded w m = padded w n \<longleftrightarrow> m = n"
  using decimal_value_decimal decimal_value_padded by metis+

lemma date_Format_inj: "date_Format x = date_Format y \<longleftrightarrow> x = y"
  by (cases x; cases y) (simp add: date_Format_def split_at no_dash decimal_inj)

lemma year_loop_sum: "year_loop y n = (y', r) \<Longrightarrow> y \<le> y' \<and> n = (\<Sum>j = y..<y'. year_days j) + r"
proof (induction y n rule: year_loop.induct)
  case (1 y n)
  show ?case
  proof (cases "n < year_days y")
    case True
    then show ?thesis using "1.prems" by (simp add: year_loop.simps [of y n])
  next
    case False
    then have "Suc y \<le> y' \<and> n - year_days y = (\<Sum>j = Suc y..<y'. year_days j) + r"
      using "1.IH" [OF False] "1.prems" by (simp add: year_loop.simps [of y n])
    then show ?thesis using False sum.atLeast_Suc_lessThan [of y y' year_days] by linarith
  qed
qed

lemma month_loop_sum: "month_loop m ls n = (m', r) \<Longrightarrow> m \<le> m' \<and> n = sum_list (take (m' - m) ls) + r"
proof (induction ls arbitrary: m n)
  case (Cons l ls)
  show ?case
  proof (cases "n < l")
    case False
    then have "Suc m \<le> m' \<and> n - l = sum_list (take (m' - Suc m) ls) + r" using Cons.IH [of "Suc m" "n - l"] Cons.prems by simp
    moreover from this have "m' - m = Suc (m' - Suc m)" by linarith
    ultimately have "n - l = sum_list (take (m' - Suc m) ls) + r" "take (m' - m) (l # ls) = l # take (m' - Suc m) ls" "m \<le> m'"
      by simp_all
    then show ?thesis using False by simp
  qed (use Cons.prems in simp)
qed simp

lemma date_of_unix_inj:
  assumes "date_of_unix s = date_of_unix t" "- 719528 \<le> s div 86400" "- 719528 \<le> t div 86400"
  shows "s div 86400 = t div 86400"
proof -
  let ?n = "\<lambda>s. nat (s div 86400 + 719528)"
  obtain y n where y: "year_loop 0 (?n s) = (y, n)" by fastforce
  obtain y' n' where y': "year_loop 0 (?n t) = (y', n')" by fastforce
  obtain m d where m: "month_loop 1 (month_days y) n = (m, d)" by fastforce
  obtain m' d' where m': "month_loop 1 (month_days y') n' = (m', d')" by fastforce
  have "y = y'" "m = m'" "d = d'" using assms(1) y y' m m' by (simp_all add: date_of_unix_def)
  then have "?n s = ?n t" using year_loop_sum [OF y] year_loop_sum [OF y'] month_loop_sum [OF m] month_loop_sum [OF m'] by simp
  then show ?thesis using assms(2,3) by simp
qed

text \<open>The days that a timestamp of 64 bits can be in.\<close>

definition key_day :: "PartitionKey \<Rightarrow> bool" where
  "key_day k \<longleftrightarrow> - 106752 \<le> pkDay k \<and> pkDay k \<le> 106751"

lemma key_day_PartitionOf: "key_day (PartitionOf v ts)"
proof -
  have "- (2 ^ 63) \<le> sint ts" "sint ts < 2 ^ 63" using sint_int64 [of ts] by (simp_all add: int64_def)
  then have "- 106752 \<le> sint ts div 86400000000000" "sint ts div 86400000000000 \<le> 106751"
    using zdiv_mono1 [of "- (2 ^ 63)" "sint ts" 86400000000000] zdiv_mono1 [of "sint ts" "2 ^ 63 - 1" 86400000000000] by simp_all
  then show ?thesis by (simp add: key_day_def PartitionOf_eq nanosPerDay_def)
qed

lemma FileName_day:
  assumes "key_day k"
  shows "wrap64 (pkDay k * go_quot nanosPerDay 1000000000) = pkDay k * 86400"
proof -
  have "go_quot nanosPerDay 1000000000 = 86400" by (simp add: go_quot_def nanosPerDay_def)
  then show ?thesis using assms by (simp add: key_day_def wrap64_id)
qed

lemma FileName_inj:
  assumes "key_day k" "key_day k'" "FileName k = FileName k'"
  shows "k = k'"
proof -
  have "unat (pkVenueID k) = unat (pkVenueID k')" "date_of_unix (pkDay k * 86400) = date_of_unix (pkDay k' * 86400)"
    using assms(3) by (simp_all add: FileName_def split_at no_dash decimal_inj date_Format_inj FileName_day assms(1,2))
  then have "unat (pkVenueID k) = unat (pkVenueID k')" "pkDay k = pkDay k'"
    using date_of_unix_inj [of "pkDay k * 86400" "pkDay k' * 86400"] assms(1,2) by (simp_all add: key_day_def)
  then show ?thesis by (intro PartitionKey.equality) (simp_all add: word_unat_eq_iff)
qed

end
