(* ===== verification/Archive_Files.thy ===== *)
theory Archive_Files
  imports Convert_Whole Convert_Path Merge_Merger
begin

text \<open>
  What the converter's files hold for a reader: the events of a file belong to its venue and day, so that
  files of one venue come one after the other.
\<close>

section \<open>The days of a stream\<close>

definition event_partition :: "event \<Rightarrow> PartitionKey" where
  "event_partition e = PartitionOf (VenueID (ev_rec e)) (ExchangeTs (ev_rec e))"

definition venue_day_inv :: "u16 \<Rightarrow> venueState \<Rightarrow> bool" where
  "venue_day_inv w v \<longleftrightarrow> vsId v = w \<and> (vsSeen v \<longrightarrow> vsLast v = Some (PartitionOf w (vsLastTs v)))"

lemma applyToBook_keeps:
  "vsSeen (snd (applyToBook rec bids asks v)) = vsSeen v" "vsLast (snd (applyToBook rec bids asks v)) = vsLast v"
  "vsLastTs (snd (applyToBook rec bids asks v)) = vsLastTs v" "vsId (snd (applyToBook rec bids asks v)) = vsId v"
  by (auto simp: applyToBook_def split: prod.splits)

lemma epoch_events_partition:
  "e \<in> set (epoch_events v bs seq) \<Longrightarrow> event_partition e = PartitionOf (vsId v) (vsLastTs v)"
  by (induction bs arbitrary: seq) (auto simp: event_partition_def epoch_record_def)

lemma venue_step_partition:
  assumes "venue_day_inv (VenueID (fst x)) v"
  shows "\<forall>(k, y) \<in> set (fst (venue_step every x v)). event_partition (out_event y) = k"
    "venue_day_inv (VenueID (fst x)) (snd (venue_step every x v))"
proof -
  obtain rec bids asks where x: "x = (rec, bids, asks)" by (cases x)
  have e: "fst (epoch_out rec v) = map (\<lambda>e. (the (vsLast v), FromEpoch e))
      (if epochDue rec v then epoch_events v (vsBooks v) (vsLastSeq v) else [])"
    "vsId (snd (epoch_out rec v)) = vsId v"
    by (simp_all add: epoch_out_def epoch_written_def)
  have "event_partition (item_event (rec, bids, asks)) = PartitionOf (VenueID rec) (ExchangeTs rec)"
    by (simp add: event_partition_def)
  moreover have "event_partition e = the (vsLast v)" if "epochDue rec v" "e \<in> set (epoch_events v (vsBooks v) (vsLastSeq v))" for e
    using epoch_events_partition [OF that(2)] that(1) assms by (simp add: venue_day_inv_def epochDue_def x)
  ultimately show "\<forall>(k, y) \<in> set (fst (venue_step every x v)). event_partition (out_event y) = k"
    by (auto simp: x Let_def case_prod_unfold e(1) simp del: item_event.simps)
  show "venue_day_inv (VenueID (fst x)) (snd (venue_step every x v))"
    using assms e(2) by (simp add: x Let_def case_prod_unfold venue_day_inv_def advance_def applyToBook_keeps)
qed

lemma stream_partitioned:
  "\<forall>w. venue_day_inv w (V w) \<Longrightarrow> \<forall>(k, y) \<in> set (stream_run every V xs). event_partition (out_event y) = k"
proof (induction xs arbitrary: V)
  case (Cons x xs)
  let ?st = "venue_step every x (V (VenueID (fst x)))"
  have "venue_day_inv (VenueID (fst x)) (V (VenueID (fst x)))" using Cons.prems by simp
  note st = venue_step_partition [OF this, of every]
  have "\<forall>w. venue_day_inv w ((V(VenueID (fst x) := snd ?st)) w)" using Cons.prems st(2) by simp
  from Cons.IH [OF this] st(1) show ?case
    by (auto simp: Let_def case_prod_unfold simp del: venue_step.simps fun_upd_apply)
qed simp

lemma new_venue_day: "\<forall>w. venue_day_inv w (new_venue w)"
  by (simp add: venue_day_inv_def new_venue_def)

lemma events_for_partition: "e \<in> set (events_for k (stream_run every new_venue xs)) \<Longrightarrow> event_partition e = k"
  using stream_partitioned [OF new_venue_day, of every xs] by (auto simp: events_for_def all_events_def)

lemma events_for_rows:
  assumes "k \<in> item_key ` set xs"
  shows "events_for k (stream_run every V xs) \<noteq> []"
proof -
  obtain x where "x \<in> set xs" "item_key x = k" using assms by blast
  then have "(k, item_event x) \<in> set (row_events (stream_run every V xs))"
    by (force simp: stream_rows_gen item_key_def)
  then have "\<exists>y. (k, y) \<in> set (stream_run every V xs)"
    by (force simp: row_events_def List.map_filter_def split: out.splits)
  then show ?thesis by (auto simp: events_for_def all_events_def filter_empty_conv)
qed

section \<open>Files that are open\<close>

text \<open>An open file of the operating system that holds the given bytes.\<close>

definition holds :: "os_file \<Rightarrow> bytes \<Rightarrow> bool" where
  "holds f bytes \<longleftrightarrow> stat_size f = Inr (of_nat (length bytes)) \<and> mmap f (int (length bytes)) = Inr bytes"

lemma Open_image:
  assumes "base_header_ok h" "events_ok h evs" "os_Open path = Inr f" "holds f (file_image h evs)"
  shows "Open os_Open path = Inr ((image_reader h evs)\<lparr>rCloseFn := Some (munmap f)\<rparr>)"
proof -
  let ?n = "length (file_image h evs)"
  have n: "?n < 2 ^ 62" "0 < ?n"
    using length_image [OF assms(1), of evs] image_bounds [OF assms(1,2)] assms(1) by (simp_all add: base_header_ok_def)
  have s: "sint (of_nat ?n :: i64) = int ?n" using n(1) by (simp add: signed_of_nat signed_take_bit_int_eq_self)
  moreover from this have "(of_nat ?n :: i64) \<noteq> 0" using n(2) by (metis of_nat_0_less_iff less_irrefl signed_0)
  moreover have "int ?n \<le> maxInt" using n(1) by (simp add: maxInt_def)
  ultimately show ?thesis using assms by (simp add: Open_def mapFile_def holds_def openBytes_image)
qed

lemma closing_reader:
  "Len (r\<lparr>rCloseFn := c\<rparr>) = Len r" "RecordAt (r\<lparr>rCloseFn := c\<rparr>) i = RecordAt r i" "contents (r\<lparr>rCloseFn := c\<rparr>) = contents r"
  "reader_VenueID (r\<lparr>rCloseFn := c\<rparr>) = reader_VenueID r"
  "sound_file (r\<lparr>rCloseFn := c\<rparr>) = sound_file r" "reader_events (r\<lparr>rCloseFn := c\<rparr>) = reader_events r"
proof -
  show c: "contents (r\<lparr>rCloseFn := c\<rparr>) = contents r" by (simp add: contents_def)
  show l: "Len (r\<lparr>rCloseFn := c\<rparr>) = Len r" by (simp add: Len_def)
  then show "RecordAt (r\<lparr>rCloseFn := c\<rparr>) i = RecordAt r i" by (simp add: RecordAt_def)
  show "reader_VenueID (r\<lparr>rCloseFn := c\<rparr>) = reader_VenueID r" by (simp add: reader_VenueID_def)
  have b: "rBlobs (r\<lparr>rCloseFn := c\<rparr>) = rBlobs r" by simp
  have e: "event_of (r\<lparr>rCloseFn := c\<rparr>) rec = event_of r rec" for rec
    unfolding event_of_def Blob_def b by (rule refl)
  then show "reader_events (r\<lparr>rCloseFn := c\<rparr>) = reader_events r" by (simp add: reader_events_def c)
  show "sound_file (r\<lparr>rCloseFn := c\<rparr>) = sound_file r"
    by (simp add: sound_file_def reader_wf_def index_agrees_def VerifyBlock_def c e)
qed

end
