(* ===== verification/Archive_Replay.thy ===== *)
theory Archive_Replay
  imports Archive_Files Server_Open
begin

text \<open>
  From an archive to the replay: what the server makes of the files of a conversion.
\<close>

section \<open>The files of a conversion\<close>

text \<open>\<^verbatim>\<open>filepath.Join(outDir, key.FileName())\<close>, for a directory in its shortest form.\<close>

definition artifact_path :: "string \<Rightarrow> PartitionKey \<Rightarrow> string" where
  "artifact_path dir k = dir @ ''/'' @ FileName k"

definition archive_file :: "string \<Rightarrow> i64 \<Rightarrow> (PartitionKey \<Rightarrow> event list) \<Rightarrow> (PartitionKey \<Rightarrow> os_file) \<Rightarrow> PartitionKey \<Rightarrow> openFile" where
  "archive_file dir scale E F k =
     \<lparr>ofPath = artifact_path dir k, ofFirst = ExchangeTs (evRecord (hd (image_events (E k)))),
      ofR = (image_reader (artifact_header scale k) (E k))\<lparr>rCloseFn := Some (munmap (F k))\<rparr>\<rparr>"

definition archive_ok :: "i64 \<Rightarrow> (PartitionKey \<Rightarrow> event list) \<Rightarrow> PartitionKey \<Rightarrow> bool" where
  "archive_ok scale E k \<longleftrightarrow> base_header_ok (artifact_header scale k) \<and> events_ok (artifact_header scale k) (E k)
     \<and> E k \<noteq> [] \<and> (\<forall>e \<in> set (E k). event_partition e = k) \<and> key_day k"

lemma image_event_keeps:
  "VenueID (evRecord (image_event off e)) = VenueID (ev_rec e)" "ExchangeTs (evRecord (image_event off e)) = ExchangeTs (ev_rec e)"
  by (cases e; simp)+

lemma image_events_in:
  "ev \<in> set (image_events evs) \<Longrightarrow> \<exists>e \<in> set evs. VenueID (evRecord ev) = VenueID (ev_rec e) \<and> ExchangeTs (evRecord ev) = ExchangeTs (ev_rec e)"
  by (force simp: image_events_def image_event_keeps)

lemma image_events_partition:
  assumes "archive_ok scale E k" "ev \<in> set (image_events (E k))"
  shows "VenueID (evRecord ev) = pkVenueID k" "sint (ExchangeTs (evRecord ev)) div nanosPerDay = pkDay k"
proof -
  obtain e where "e \<in> set (E k)" "VenueID (evRecord ev) = VenueID (ev_rec e)" "ExchangeTs (evRecord ev) = ExchangeTs (ev_rec e)"
    using image_events_in [OF assms(2)] by blast
  moreover from this have "event_partition e = k" using assms(1) by (simp add: archive_ok_def)
  ultimately show "VenueID (evRecord ev) = pkVenueID k" "sint (ExchangeTs (evRecord ev)) div nanosPerDay = pkDay k"
    by (auto simp: event_partition_def PartitionOf_eq)
qed

lemma archive_file_sound:
  assumes "archive_ok scale E k"
  shows "server_files.sound (archive_file dir scale E F k)" "server_files.events (archive_file dir scale E F k) = image_events (E k)"
    "of_venue (archive_file dir scale E F k) = pkVenueID k"
proof -
  let ?h = "artifact_header scale k" and ?r = "image_reader (artifact_header scale k) (E k)"
  have ok: "base_header_ok ?h" "events_ok ?h (E k)" using assms by (simp_all add: archive_ok_def)
  have v: "hVenueID ?h = pkVenueID k" by (simp add: artifact_header_def new_header_def)
  show e: "server_files.events (archive_file dir scale E F k) = image_events (E k)"
    by (simp add: server_files.events_def archive_file_def closing_reader reader_events_image [OF ok])
  show w: "of_venue (archive_file dir scale E F k) = pkVenueID k"
    by (simp add: of_venue_def archive_file_def closing_reader reader_VenueID_image v)
  have "\<forall>rec \<in> set (contents ?r). VenueID rec = pkVenueID k"
    using ok(2) v by (simp add: contents_image [OF ok] events_ok_def stored_ok_def)
  then show "server_files.sound (archive_file dir scale E F k)"
    using sound_file_image [OF ok] increasing_image [OF ok] w
    by (simp add: server_files.sound_def e) (simp add: archive_file_def closing_reader reader_VenueID_image v of_venue_def)
qed

lemma time_less_key: "sint (ExchangeTs a) < sint (ExchangeTs b) \<Longrightarrow> keyOf a < keyOf b"
  by (simp add: key_less_iff key_tuple_def keyOf_def less_prod_def)

lemma archive_separate:
  assumes "\<forall>k \<in> set ks. archive_ok scale E k" "distinct ks"
  shows "server_files.separate (map (archive_file dir scale E F) ks)"
proof -
  let ?f = "archive_file dir scale E F"
  note ok = bspec [OF assms(1)]
  have first: "hd (image_events (E k)) \<in> set (image_events (E k))" if "k \<in> set ks" for k
    using ok [OF that] by (intro hd_in_set) (simp add: archive_ok_def image_events_def)
  have "inj_on ?f (set ks)"
  proof (rule inj_onI)
    fix k k' assume k: "k \<in> set ks" "k' \<in> set ks" "?f k = ?f k'"
    then have "FileName k = FileName k'" by (simp add: archive_file_def artifact_path_def)
    with ok [OF k(1)] ok [OF k(2)] show "k = k'" by (simp add: archive_ok_def FileName_inj)
  qed
  then have "distinct (map ?f ks)" using assms(2) by (simp add: distinct_map)
  moreover have "server_files.before (?f k) (?f k')"
    if k: "k \<in> set ks" "k' \<in> set ks" "?f k \<noteq> ?f k'" "of_venue (?f k) = of_venue (?f k')" "file_order (?f k) \<le> file_order (?f k')" for k k'
  proof -
    have v: "pkVenueID k = pkVenueID k'" using k(4) by (simp add: archive_file_sound [OF ok] k(1,2))
    have "sint (ofFirst (?f k)) \<le> sint (ofFirst (?f k'))"
      using k(4,5) by (auto simp: file_order_def of_venue_def less_eq_prod_def)
    then have "sint (ofFirst (?f k)) div nanosPerDay \<le> sint (ofFirst (?f k')) div nanosPerDay"
      by (rule zdiv_mono1) (simp add: nanosPerDay_def)
    then have "pkDay k \<le> pkDay k'"
      using image_events_partition(2) [OF ok first] k(1,2) by (simp add: archive_file_def)
    moreover have "k \<noteq> k'" using k(3) by blast
    ultimately have d: "pkDay k < pkDay k'" using v by (cases k; cases k') simp
    show ?thesis
      unfolding server_files.before_def archive_file_sound(2) [OF ok [OF k(1)]] archive_file_sound(2) [OF ok [OF k(2)]]
    proof (intro ballI)
      fix x y assume "x \<in> set (image_events (E k))" "y \<in> set (image_events (E k'))"
      then have "sint (ExchangeTs (evRecord x)) div nanosPerDay < sint (ExchangeTs (evRecord y)) div nanosPerDay"
        using d image_events_partition(2) [OF ok] k(1,2) by simp
      then have "sint (ExchangeTs (evRecord x)) < sint (ExchangeTs (evRecord y))"
        using zdiv_mono1 [of "sint (ExchangeTs (evRecord y))" "sint (ExchangeTs (evRecord x))" nanosPerDay]
        by (fastforce simp: nanosPerDay_def)
      then show "ev_key x < ev_key y" by (rule time_less_key)
    qed
  qed
  ultimately show ?thesis
    using archive_file_sound(1) [OF ok] by (auto simp: server_files.separate_def)
qed

lemma archive_opens:
  assumes "archive_ok scale E k" "os_Open (artifact_path dir k) = Inr (F k)" "holds (F k) (file_image (artifact_header scale k) (E k))"
  shows "Open os_Open (artifact_path dir k) = Inr (ofR (archive_file dir scale E F k))"
    "firstExchangeTs (ofR (archive_file dir scale E F k)) = Some (ofFirst (archive_file dir scale E F k))"
proof -
  let ?h = "artifact_header scale k" and ?r = "image_reader (artifact_header scale k) (E k)"
  have ok: "base_header_ok ?h" "events_ok ?h (E k)" "E k \<noteq> []" using assms(1) by (simp_all add: archive_ok_def)
  show "Open os_Open (artifact_path dir k) = Inr (ofR (archive_file dir scale E F k))"
    using Open_image [where os_Open = os_Open and path = "artifact_path dir k", OF ok(1,2) assms(2,3)] by (simp add: archive_file_def)
  note wf = image_reader_wf [OF ok(1,2)] and c = contents_image [OF ok(1,2)]
  have len: "0 < length (contents ?r)" "Len ?r = int (length (contents ?r))" using ok(3) Len_wf [OF wf] by (simp_all add: c)
  have "evRecord (hd (image_events (E k))) = contents ?r ! 0"
    using map_evRecord_reader_events [OF sound_file_image [OF ok(1,2)]] ok(3) reader_events_image [OF ok(1,2)]
    by (metis hd_conv_nth len(1) length_0_conv length_map less_irrefl list.map_sel(1))
  then show "firstExchangeTs (ofR (archive_file dir scale E F k)) = Some (ofFirst (archive_file dir scale E F k))"
    using len RecordAt_wf [OF wf len(1)] by (simp add: firstExchangeTs_def archive_file_def closing_reader)
qed

section \<open>The replay\<close>

definition archive_stream :: "ServerConfig \<Rightarrow> (PartitionKey \<Rightarrow> event list) \<Rightarrow> PartitionKey list \<Rightarrow> Event list" where
  "archive_stream cfg E keys = sort_key ev_key (filter live (filter (seek_keeps cfg) (concat (map (\<lambda>k. image_events (E k)) keys))))"

lemma merge_of_archive:
  assumes "\<forall>k \<in> set ks. archive_ok scale E k" "distinct ks" "mset ks = mset keys"
    and "list_all (\<lambda>k. os_Open (artifact_path dir k) = Inr (F k) \<and> holds (F k) (file_image (artifact_header scale k) (E k))) ks"
    and "scFiles cfg = map (artifact_path dir) ks"
  shows "\<exists>cs. openCursors os_Open cfg = Inr cs \<and> sound_cursors cs \<and> merge_of cs = archive_stream cfg E keys"
proof -
  let ?f = "archive_file dir scale E F"
  let ?fs = "map ?f ks" and ?keep = "\<lambda>evs. filter live (filter (seek_keeps cfg) evs)"
  note ok = bspec [OF assms(1)] and sep = archive_separate [OF assms(1,2), of dir F]
  have "ofPath (?f k) = artifact_path dir k" for k by (simp add: archive_file_def)
  then have "list_all2 (\<lambda>path f. Open os_Open path = Inr (ofR f) \<and> firstExchangeTs (ofR f) = Some (ofFirst f) \<and> ofPath f = path)
      (scFiles cfg) ?fs"
    using archive_opens [OF ok] assms(4) by (auto simp: assms(5) list_all2_map1 list_all2_map2 list.rel_refl list_all_iff
        intro!: list_all2_same [THEN iffD2])
  from openCursors_ok [OF this sep] obtain cs where
    cs: "openCursors os_Open cfg = Inr cs" "sound_cursors cs"
      "concat (map cursor_rest cs) = filter (seek_keeps cfg) (concat (map server_files.events (sort_files ?fs)))" by blast
  let ?xs = "concat (map server_files.events (sort_files ?fs))" and ?ys = "concat (map (\<lambda>k. image_events (E k)) keys)"
  have "mset ?xs = (\<Sum>f \<in># mset ?fs. mset (server_files.events f))"
    by (simp add: mset_concat sum_mset_sum_list [symmetric] sort_files_def image_mset.compositionality comp_def)
  also have "\<dots> = (\<Sum>k \<in># mset ks. mset (image_events (E k)))"
    using archive_file_sound(2) [OF ok] by (auto simp: image_mset.compositionality comp_def intro!: arg_cong [of _ _ sum_mset] image_mset_cong)
  also have "\<dots> = mset ?ys" by (simp add: assms(3) mset_concat sum_mset_sum_list [symmetric] comp_def)
  finally have m: "mset (?keep ?xs) = mset (?keep ?ys)" by simp
  have "set (?keep ?xs) \<subseteq> (\<Union>f \<in> set ?fs. set (server_files.events f))" by (auto simp: sort_files_def)
  then have "inj_on ev_key (set (?keep ?xs))" by (rule inj_on_subset [OF server_files.separate_inj [OF sep]])
  then have "sort_key ev_key (?keep ?xs) = sort_key ev_key (?keep ?ys)"
    using sort_key_inj_key_eq [of "?keep ?xs" "sort_key ev_key (?keep ?ys)" ev_key] m by simp
  then show ?thesis using cs by (simp add: merge_of_def archive_stream_def)
qed

text \<open>C27: From an archive to its replay. When the conversion of an archive has succeeded, a server that is
  given the files it wrote, in any order, opens them all, and its merger, whatever the number of its
  workers, gives exactly the converted stream from the configured time on: every source row and every
  epoch's snapshot, of all venues and days, in the order of their keys, and nothing else. The operating
  system has to open each file and to hand out the bytes the conversion wrote.\<close>

theorem archive_replay:
  assumes "Convert canonical page src outDir opts = (Inr keys, d)"
    and "list_all (\<lambda>k. \<exists>bytes. osFile (fst (d k)) = Some bytes \<and> os_Open (artifact_path dir k) = Inr (F k) \<and> holds (F k) bytes) keys"
    and "mset ks = mset keys" "scFiles cfg = map (artifact_path dir) ks" "1 \<le> scWorkers cfg"
  shows "\<exists>xs cs m. map recordOf (rows_of (arReads src)) = map Inr xs
    \<and> openCursors os_Open cfg = Inr cs \<and> NewConcurrentMerger cs (scWorkers cfg) = Inr m
    \<and> (\<forall>n. \<exists>m'. pulls merger_Next n m
          = (take n (archive_stream cfg (\<lambda>k. events_for k (stream_run (epoch_cadence opts) new_venue xs)) keys), None, m'))"
proof -
  let ?scale = "coPriceScale opts"
  from convert_files [OF assms(1)] obtain xs where
    xs: "map recordOf (rows_of (arReads src)) = map Inr xs" "sorted_wrt (<) keys" "set keys = item_key ` set xs" and
    files: "\<forall>k \<in> set keys. base_header_ok (artifact_header ?scale k)
       \<and> events_ok (artifact_header ?scale k) (events_for k (stream_run (epoch_cadence opts) new_venue xs))
       \<and> osFile (fst (d k)) = Some (file_image (artifact_header ?scale k) (events_for k (stream_run (epoch_cadence opts) new_venue xs)))
       \<and> snd (d k) = Some (hash_content (file_image (artifact_header ?scale k)
            (events_for k (stream_run (epoch_cadence opts) new_venue xs))))"
    by (elim exE conjE)
  let ?E = "\<lambda>k. events_for k (stream_run (epoch_cadence opts) new_venue xs)"
  have ks: "set ks = set keys" "distinct ks"
    using assms(3) xs(2) by (auto dest: mset_eq_setD mset_eq_imp_distinct_iff simp: strict_sorted_iff)
  have "archive_ok ?scale ?E k" if "k \<in> set ks" for k
  proof -
    have k: "k \<in> set keys" "k \<in> item_key ` set xs" using that ks(1) xs(3) by simp_all
    moreover have "key_day k" using k(2) by (auto simp: item_key_def key_day_PartitionOf)
    ultimately show ?thesis
      using bspec [OF files k(1)] events_for_rows [OF k(2)] events_for_partition by (simp add: archive_ok_def)
  qed
  moreover have "list_all (\<lambda>k. os_Open (artifact_path dir k) = Inr (F k) \<and> holds (F k) (file_image (artifact_header ?scale k) (?E k))) ks"
    using assms(2) files ks(1) by (auto simp: list_all_iff)
  ultimately obtain cs where cs: "openCursors os_Open cfg = Inr cs" "sound_cursors cs" "merge_of cs = archive_stream cfg ?E keys"
    using merge_of_archive [OF _ ks(2) assms(3) _ assms(4)] by blast
  obtain m where m: "newMerger cs (scWorkers cfg) defaultBatchShape = Inr m" "merger_ok m" "merger_rest m = merge_of cs"
    using newMerger_ok [OF cs(2), of "scWorkers cfg" defaultBatchShape]
    by (auto simp: shape_valid_def defaultBatchShape_def batchRecords_def feedBatches_def)
  have "\<exists>m'. pulls merger_Next n m = (take n (archive_stream cfg ?E keys), None, m')" for n
    using merger.pulls_eq [OF m(2), of n] by (auto simp: m(3) cs(3))
  moreover have "NewConcurrentMerger cs (scWorkers cfg) = Inr m" using m(1) assms(5) by (simp add: NewConcurrentMerger_def)
  ultimately show ?thesis using xs(1) cs(1) by (intro exI [of _ xs] exI [of _ cs] exI [of _ m] conjI) simp_all
qed

end
