(* ===== verification/Archive_Sample.thy ===== *)
theory Archive_Sample
  imports Archive_Replay Convert_Sample
begin

text \<open>
  The sample conversion, replayed: a server that is given the two files in the wrong order.
\<close>

definition disk_file :: "bytes \<Rightarrow> os_file" where
  "disk_file bytes = \<lparr>stat_size = Inr (of_nat (length bytes)), mmap = (\<lambda>n. Inr bytes), munmap = None\<rparr>"

definition sample_server :: "ServerConfig" where
  "sample_server = \<lparr>scFiles = map (artifact_path ''out'') [sample_key 1, sample_key 0], scWorkers = 4, scCapacity = 8,
     scMaxBlobBytes = 64, scSeekTs = 6, scHasSeek = True, scWatchdogTimeout = 0, scManifestPath = ''''\<rparr>"

definition open_in :: "disk \<Rightarrow> PartitionKey list \<Rightarrow> string \<Rightarrow> store_error + os_file" where
  "open_in d keys path =
     (case find (\<lambda>k. artifact_path ''out'' k = path) keys of
        None \<Rightarrow> Inl ErrIO
      | Some k \<Rightarrow> (case osFile (fst (d k)) of None \<Rightarrow> Inl ErrIO | Some bytes \<Rightarrow> Inr (disk_file bytes)))"

lemma open_in_key:
  assumes "set keys = {sample_key 0, sample_key 1}" "k \<in> set keys" "osFile (fst (d k)) = Some bytes"
  shows "open_in d keys (artifact_path ''out'' k) = Inr (disk_file (the (osFile (fst (d k)))))"
proof -
  have f: "FileName k' = FileName k \<longleftrightarrow> k' = k" if "k' \<in> set keys" for k'
  proof -
    have "key_day k'" "key_day k" using that assms(1,2) by (auto simp: key_day_def sample_key_def)
    then show ?thesis using FileName_inj by blast
  qed
  have "find (\<lambda>k'. artifact_path ''out'' k' = artifact_path ''out'' k) ks = (if k \<in> set ks then Some k else None)"
    if "set ks \<subseteq> set keys" for ks
    using that by (induction ks) (auto simp: artifact_path_def f)
  then show ?thesis using assms(2,3) by (simp add: open_in_def)
qed

lemma archive_replay_witness:
  "\<exists>keys d cs m m'. Convert sample_columns 4096 (sample_archive None) sample_dir sample_options = (Inr keys, d)
     \<and> openCursors (open_in d keys) sample_server = Inr cs \<and> NewConcurrentMerger cs 4 = Inr m
     \<and> pulls merger_Next 9 m = (take 9 (archive_stream sample_server (\<lambda>k. events_for k sample_out) [sample_key 0, sample_key 1]), None, m')"
proof -
  have "\<exists>keys d. Convert sample_columns 4096 (sample_archive None) sample_dir sample_options = (Inr keys, d)"
    by (rule convert_lives [OF sample_source(5,1,2,3) sample_premises(1,2) sample_source(8) sample_premises(3,4)])
  then obtain keys d where c: "Convert sample_columns 4096 (sample_archive None) sample_dir sample_options = (Inr keys, d)" by blast
  have inj: "xs = sample_items" if "map recordOf sample_rows = map Inr xs" for xs
    using that sample_records map_injective [of Inr xs sample_items] by (simp add: inj_on_def)
  have "item_key ` set sample_items = set (map item_key sample_items)" by simp
  also have "map item_key sample_items = [sample_key 0, sample_key 0, sample_key 1]" by code_simp
  finally have ik: "item_key ` set sample_items = {sample_key 0, sample_key 1}" by simp
  from convert_files [OF c] obtain xs where
    x: "map recordOf (rows_of (arReads (sample_archive None))) = map Inr xs" "sorted_wrt (<) keys" "set keys = item_key ` set xs" and
    files: "\<forall>k \<in> set keys. base_header_ok (artifact_header (coPriceScale sample_options) k)
       \<and> events_ok (artifact_header (coPriceScale sample_options) k) (events_for k (stream_run (epoch_cadence sample_options) new_venue xs))
       \<and> osFile (fst (d k)) = Some (file_image (artifact_header (coPriceScale sample_options) k)
            (events_for k (stream_run (epoch_cadence sample_options) new_venue xs)))
       \<and> snd (d k) = Some (hash_content (file_image (artifact_header (coPriceScale sample_options) k)
            (events_for k (stream_run (epoch_cadence sample_options) new_venue xs))))"
    by (elim exE conjE)
  have k: "sorted_wrt (<) keys" "set keys = {sample_key 0, sample_key 1}"
    using x(2,3) inj [OF x(1) [unfolded sample_source]] ik by simp_all
  have held: "\<exists>bytes. osFile (fst (d k)) = Some bytes" if "k \<in> set keys" for k
    using bspec [OF files that] by (elim conjE) (rule exI)
  have keys: "keys = [sample_key 0, sample_key 1]"
  proof (rule sorted_distinct_set_unique)
    have "sample_key 0 < sample_key 1" by (simp add: less_PartitionKey_ext_def sample_key_def)
    then show "sorted [sample_key 0, sample_key 1]" "distinct [sample_key 0, sample_key 1]" by auto
    show "sorted keys" "distinct keys" using k(1) unfolding strict_sorted_iff by blast+
    show "set keys = set [sample_key 0, sample_key 1]" using k(2) by simp
  qed
  let ?F = "\<lambda>k. disk_file (the (osFile (fst (d k))))"
  have o: "list_all (\<lambda>k. \<exists>bytes. osFile (fst (d k)) = Some bytes
      \<and> open_in d keys (artifact_path ''out'' k) = Inr (?F k) \<and> holds (?F k) bytes) keys"
    unfolding list_all_iff
  proof (intro ballI)
    fix k assume k': "k \<in> set keys"
    obtain bytes where "osFile (fst (d k)) = Some bytes" using held [OF k'] by blast
    then show "\<exists>bytes. osFile (fst (d k)) = Some bytes
        \<and> open_in d keys (artifact_path ''out'' k) = Inr (?F k) \<and> holds (?F k) bytes"
      using open_in_key [OF k(2) k'] by (simp add: holds_def disk_file_def)
  qed
  have s: "mset [sample_key 1, sample_key 0] = mset keys" "scFiles sample_server = map (artifact_path ''out'') [sample_key 1, sample_key 0]"
    "1 \<le> scWorkers sample_server" "scWorkers sample_server = 4"
    by (simp_all add: keys sample_server_def)
  from archive_replay [OF c o s(1,2,3)] obtain xs cs m where
    xs: "map recordOf sample_rows = map Inr xs" "openCursors (open_in d keys) sample_server = Inr cs" "NewConcurrentMerger cs 4 = Inr m"
      "\<forall>n. \<exists>m'. pulls merger_Next n m = (take n (archive_stream sample_server (\<lambda>k. events_for k (stream_run 1 new_venue xs)) keys), None, m')"
    unfolding sample_source s(4) by blast
  with c show ?thesis unfolding inj [OF xs(1)] sample_stream keys by blast
qed

end
