(* ===== verification/Server_Example.thy ===== *)
theory Server_Example
  imports Server_Ends Archive_Sample
begin

text \<open>
  A server of one file of three events, run to its end, for the witnesses, and a run whose manifest leaves
  out its only subscription.
\<close>

definition desk_config :: ServerConfig where
  "desk_config = \<lparr>scFiles = [''tape''], scWorkers = 1, scCapacity = 8, scMaxBlobBytes = 64, scSeekTs = 0, scHasSeek = False,
     scWatchdogTimeout = 0, scManifestPath = ''run.json''\<rparr>"

definition desk_bytes :: bytes where
  "desk_bytes = file_image (sample_header 3) (sample_events 3)"

definition desk_open :: "string \<Rightarrow> store_error + os_file" where
  "desk_open path = Inr (disk_file desk_bytes)"

definition desk_files :: files where
  "desk_files = \<lparr>filepath_Abs = (\<lambda>p. Inr (''/'' @ p)), os_Stat = (\<lambda>_. None), os_ReadFile = (\<lambda>_. Inr (hash_content desk_bytes))\<rparr>"

lemma desk_identity:
  "identity_of trim desk_files p = Some \<lparr>dfPath = ''/'' @ p, dfHash = hex_EncodeToString (sha256 desk_bytes)\<rparr>"
  using readHashSidecar_converted [of desk_files p desk_bytes trim] by (simp add: identity_of_def desk_files_def)

theorem datasetIdentity_order_witness:
  "datasetIdentity (\<lambda>b. b) desk_files [''b'', ''a''] = datasetIdentity (\<lambda>b. b) desk_files [''a'', ''b'']
     \<and> (\<exists>ds. datasetIdentity (\<lambda>b. b) desk_files [''b'', ''a''] = Inr ds \<and> sorted (map dfPath ds))"
proof -
  have "mset [''b'', ''a''] = mset [''a'', ''b'']" "inj_on (filepath_Abs desk_files) (set [''b'', ''a''])"
    by (simp_all add: add_mset_commute desk_files_def)
  note o = datasetIdentity_order [OF this, of "\<lambda>b. b"]
  have "\<exists>ds. datasetIdentity (\<lambda>b. b) desk_files [''b'', ''a''] = Inr ds"
  proof -
    have "\<exists>ds. identity_loop (\<lambda>b. b) desk_files [''b'', ''a''] [] = Inr ds"
      unfolding identity_loop_Inr by (simp add: desk_identity)
    then show ?thesis by (auto simp: datasetIdentity_def)
  qed
  then show ?thesis using o by auto
qed

definition desk_reader :: Reader where
  "desk_reader = (sample_reader 3)\<lparr>rCloseFn := Some None\<rparr>"

lemma desk_reader:
  "Open desk_open path = Inr desk_reader" "Len desk_reader = 3" "RecordAt desk_reader 0 = Some (contents (sample_reader 3) ! 0)"
  "sound_partition 3 [sample_reader 3]" "reader_events desk_reader = image_events (sample_events 3)"
proof -
  have "holds (disk_file desk_bytes) (file_image (sample_header 3) (sample_events 3))" by (simp add: holds_def disk_file_def desk_bytes_def)
  from Open_image [where os_Open = desk_open and path = path, OF sample_ok _ this]
  show "Open desk_open path = Inr desk_reader" by (simp add: desk_open_def disk_file_def sample_reader_def desk_reader_def)
  note wf = image_reader_wf [OF sample_ok, of 3] and c = contents_image [OF sample_ok, of 3]
  have n: "length (contents (sample_reader 3)) = 3" unfolding sample_reader_def c by (simp add: sample_events_def)
  have "Len (sample_reader 3) = int (length (contents (sample_reader 3)))" unfolding sample_reader_def by (rule Len_wf [OF wf])
  then show "Len desk_reader = 3" using n by (simp add: desk_reader_def closing_reader)
  show "RecordAt desk_reader 0 = Some (contents (sample_reader 3) ! 0)"
  proof -
    have "0 < length (contents (image_reader (sample_header 3) (sample_events 3)))" using n unfolding sample_reader_def by linarith
    from RecordAt_wf [OF wf this] show ?thesis by (simp add: sample_reader_def desk_reader_def closing_reader)
  qed
  show "sound_partition 3 [sample_reader 3]" using sound_partition_image [OF sample_ok, of 3] by (simp add: sample_reader_def sample_header_def)
  show "reader_events desk_reader = image_events (sample_events 3)"
    using reader_events_image [OF sample_ok, of 3] by (simp add: sample_reader_def desk_reader_def closing_reader)
qed

text \<open>The merged stream of that one file is its events.\<close>

lemma desk_merged: "sort_key ev_key (filter live (image_events (sample_events 3))) = image_events (sample_events 3)"
proof -
  have "filter live (image_events (sample_events 3)) = image_events (sample_events 3)"
    by (simp add: image_events_def sample_events_def live_def keyOf_def SentinelKey_def)
  moreover have "increasing (image_events (sample_events 3))"
    using desk_reader(4) by (simp add: sound_partition_def sample_partition_events)
  then have "sort_key ev_key (image_events (sample_events 3)) = image_events (sample_events 3)"
    by (intro sort_key_perm) (simp_all add: increasing_def)
  ultimately show ?thesis by simp
qed

lemma desk_opens:
  "\<exists>cs. openCursors desk_open desk_config = Inr cs \<and> sound_cursors cs \<and> merge_of cs = image_events (sample_events 3)"
proof -
  let ?f = "\<lparr>ofPath = ''tape'', ofFirst = ExchangeTs (contents (sample_reader 3) ! 0), ofR = desk_reader\<rparr>"
  have "firstExchangeTs desk_reader = Some (ofFirst ?f)" by (simp add: firstExchangeTs_def desk_reader)
  then have o: "list_all2 (\<lambda>path f. Open desk_open path = Inr (ofR f) \<and> firstExchangeTs (ofR f) = Some (ofFirst f) \<and> ofPath f = path)
      (scFiles desk_config) [?f]"
    by (simp add: desk_config_def desk_reader(1))
  have "server_files.sound ?f"
    using desk_reader(4) by (simp add: server_files.sound_def server_files.events_def of_venue_def desk_reader_def closing_reader
      sound_partition_def partition_events_def)
  then have sep: "server_files.separate [?f]" by (simp add: server_files.separate_def)
  from openCursors_ok [OF o sep] obtain cs where cs: "openCursors desk_open desk_config = Inr cs" "sound_cursors cs"
    "concat (map cursor_rest cs) = filter (seek_keeps desk_config) (concat (map server_files.events (sort_files [?f])))" by blast
  have "concat (map server_files.events (sort_files [?f])) = image_events (sample_events 3)"
    by (simp add: sort_files_def server_files.events_def desk_reader(5))
  then have "concat (map cursor_rest cs) = image_events (sample_events 3)"
    unfolding cs(3) by (simp add: seek_keeps_def [abs_def] desk_config_def)
  then show ?thesis using cs desk_merged by (auto simp: merge_of_def)
qed

lemma desk_server:
  obtains cs s0 m r where "openCursors desk_open desk_config = Inr cs" "run_inputs (ring_config desk_config) cs 1 defaultBatchShape"
    "merge_of cs = image_events (sample_events 3)" "NewServer desk_open (\<lambda>b. b) desk_files True desk_config = Inr s0"
    "newMerger cs 1 defaultBatchShape = Inr m" "merger_rest m = merge_of cs" "newRing (ring_config desk_config) = Inr r"
    "svSys s0 = start_system r m (Some (NewCanonicalHasher CanonicalCRC32C))" "svMix s0 = no_mix" "svAttached s0 = []"
    "svStarted s0 = False" "svHolder s0 = None" "svCfg s0 = desk_config" "svAccepted s0 = []" "svRunErr s0 = None" "svServing s0 = []" "svGauged s0 = []"
proof -
  obtain cs where cs: "openCursors desk_open desk_config = Inr cs" "sound_cursors cs" "merge_of cs = image_events (sample_events 3)"
    using desk_opens by blast
  have "shape_valid defaultBatchShape" by (simp add: shape_valid_def defaultBatchShape_def batchRecords_def feedBatches_def)
  then have i: "run_inputs (ring_config desk_config) cs 1 defaultBatchShape"
    using cs(2) by (simp add: run_inputs_def cs(3) ring_config_def desk_config_def arena_fits_def image_events_def sample_events_def)
  obtain m where m: "newMerger cs 1 defaultBatchShape = Inr m" "merger_rest m = merge_of cs"
    using newMerger_ok [OF cs(2), of 1 defaultBatchShape] \<open>shape_valid defaultBatchShape\<close> by blast
  obtain r where r: "newRing (ring_config desk_config) = Inr r"
    by (simp add: newRing_def NewRing_def ring_config_def desk_config_def go_quot_def wrap64_def)
  have "\<exists>ds. datasetIdentity (\<lambda>b. b) desk_files [''tape''] = Inr ds"
  proof -
    have "\<exists>ds. identity_loop (\<lambda>b. b) desk_files [''tape''] [] = Inr ds"
      unfolding identity_loop_Inr by (simp add: desk_identity)
    then show ?thesis by (auto simp: datasetIdentity_def)
  qed
  then obtain ds where ds: "datasetIdentity (\<lambda>b. b) desk_files (scFiles desk_config) = Inr ds" by (auto simp: desk_config_def)
  have w: "scWorkers desk_config = 1" by (simp add: desk_config_def)
  obtain cerr m' where close: "merger_Close m = (cerr, m')" by fastforce
  obtain s0 where s0: "NewServer desk_open (\<lambda>b. b) desk_files True desk_config = Inr s0"
    using cs(1) m(1) r ds by (simp add: NewServer_def NewConcurrentMerger_def w close)
  have "s0 = \<lparr>svCfg = desk_config, svDataset = ds, svSys = start_system r m (Some (NewCanonicalHasher CanonicalCRC32C)),
          svStarted = False, svSpeed = \<lparr>sNum = 0, sDen = 0\<rparr>, svStartedAt = 0, svMix = no_mix, svHolder = None,
          svAttached = [], svGauged = [], svServing = [], svLeaving = [], svAccepted = [], svGauge = 0, svEnded = False, svClosed = None,
          svManifest = None, svRunErr = None\<rparr>"
    using NewServer_Inr [OF s0] cs(1) m(1) r ds by (auto simp: NewConcurrentMerger_def w)
  then show thesis using that [OF cs(1) i cs(3) s0 m r] by simp
qed

text \<open>The loop of a started server, run by itself.\<close>

lemma server_emits:
  assumes "svStarted s"
  shows "server_reachable s (s\<lparr>svSys := emit_alone merger_Next ts (svSys s)\<rparr>)"
  using assms
proof (induction ts arbitrary: s)
  case (Cons t ts)
  let ?s = "s\<lparr>svSys := emit_step merger_Next True t True (svSys s)\<rparr>"
  have "emit_step merger_Next True t True u = emit_step merger_Next False t True u" for u :: "Merger system"
    by (cases "sysPc u") (simp_all add: emit_step_def)
  then have "server_reachable ?s (s\<lparr>svSys := emit_alone merger_Next (t # ts) (svSys s)\<rparr>)"
    using Cons.IH [of ?s] Cons.prems by simp
  moreover have "server_step s ?s" by (rule emits_one [OF Cons.prems])
  ultimately show ?case unfolding server_reachable_def by (rule converse_rtranclp_into_rtranclp [rotated])
qed (simp add: server_reachable_def)

definition desk_request :: SubscribeRequest where
  "desk_request = \<lparr>rqMode = MODE_DROP, rqStart = Some ReqBeginning, rqSpeedNum = 1, rqSpeedDen = 1\<rparr>"

definition desk_accepted :: accepted where
  "desk_accepted = \<lparr>acMode = ModeDrop, acKind = startKindBeginning, acSpeed = \<lparr>sNum = 1, sDen = 1\<rparr>, acSub = 0\<rparr>"

lemma desk_request: "request_of desk_request = Inr (ModeDrop, Beginning, startKindBeginning, \<lparr>sNum = 1, sDen = 1\<rparr>)"
proof -
  have "NewSpeed 1 1 = Inr \<lparr>sNum = 1, sDen = 1\<rparr>" by code_simp
  then show ?thesis by (simp add: request_of_def desk_request_def modeFromProto_def startFromProto_def MODE_DROP_def MODE_BLOCK_def)
qed

text \<open>One subscription is accepted, and the loop ends before it is counted.\<close>

lemma desk_returned:
  obtains cs s where "serves_run desk_config cs s" "run_inputs (ring_config desk_config) cs 1 defaultBatchShape"
    "svStarted s" "sysPc (svSys s) = EmitReturned None" "length (sysLog (svSys s)) = 3" "svAttached s = [desk_accepted]"
    "svAccepted s = [desk_accepted]" "svMix s = no_mix" "svHolder s = None" "svRunErr s = None" "svServing s = []" "svGauged s = []" "svCfg s = desk_config"
proof -
  obtain cs s0 m r where d: "openCursors desk_open desk_config = Inr cs" "run_inputs (ring_config desk_config) cs 1 defaultBatchShape"
    "merge_of cs = image_events (sample_events 3)" "NewServer desk_open (\<lambda>b. b) desk_files True desk_config = Inr s0"
    "newMerger cs 1 defaultBatchShape = Inr m" "merger_rest m = merge_of cs" "newRing (ring_config desk_config) = Inr r"
    "svSys s0 = start_system r m (Some (NewCanonicalHasher CanonicalCRC32C))" "svMix s0 = no_mix" "svAttached s0 = []"
    "svStarted s0 = False" "svHolder s0 = None" "svCfg s0 = desk_config" "svAccepted s0 = []" "svRunErr s0 = None" "svServing s0 = []" "svGauged s0 = []"
    by (rule desk_server)
  have r: "rBlocking r = []" "rCtrlPending r = []" "rSubs r = []" "\<not> rCtrlClosed r" "\<not> rCtrlStarted r" "rMaxBlob (rMem r) = 64" "rWriteSeq (rMem r) = 0"
    using d(7) by (auto simp: newRing_def NewRing_def ring_config_def desk_config_def go_quot_def wrap64_def)
  let ?r = "snd (Subscribe ModeDrop Beginning r)"
  have sub: "Subscribe ModeDrop Beginning r = (Inl (Inr 0), ?r)" "rBlocking ?r = []" "rCtrlPending ?r = []" "rMem ?r = rMem r"
    using r by (simp_all add: Subscribe_def Beginning_def start_at_def subscribeNow_def resolve_start_def Let_def)
  define s1 where "s1 = accept ModeDrop startKindBeginning \<lparr>sNum = 1, sDen = 1\<rparr> 5 0 (with_ring ?r s0)"
  define t1 where "t1 = on_ring (\<lambda>r. snd (Subscribe ModeDrop Beginning r)) (svSys s0)"
  have "attach ModeDrop Beginning startKindBeginning \<lparr>sNum = 1, sDen = 1\<rparr> 5 s0 = Some (Joined 0, s1)"
    by (simp add: attach_def s1_def d(8,11,12) start_system_def, subst sub(1), simp)
  then have step: "server_step s0 s1" by (rule attaches [OF desk_request])
  have s1: "svSys s1 = t1" "svStarted s1" "svAttached s1 = [desk_accepted]" "svAccepted s1 = [desk_accepted]" "svMix s1 = no_mix"
    "svHolder s1 = None" "svRunErr s1 = None" "svServing s1 = []" "svGauged s1 = []" "svCfg s1 = desk_config"
    by (simp_all add: s1_def t1_def on_ring_def d(8-17) start_system_def desk_accepted_def)
  have t1: "rBlocking (sysRing t1) = []" "rCtrlPending (sysRing t1) = []" "rMem (sysRing t1) = rMem r" "sysPc t1 = EmitInit" "sysSource t1 = m"
    using sub by (simp_all add: t1_def on_ring_def d(8) start_system_def)
  have "start_run (ring_config desk_config) cs 1 defaultBatchShape (Some CanonicalCRC32C) = Some (svSys s0)"
    by (simp add: start_run_def d(5,7,8))
  then have "fan_run (ring_config desk_config) cs 1 defaultBatchShape (Some CanonicalCRC32C) False (svSys s0)"
    by (auto simp: fan_run_def fan_reachable_def)
  then have run: "fan_run (ring_config desk_config) cs 1 defaultBatchShape (Some CanonicalCRC32C) False t1"
    unfolding t1_def by (rule fan_run_steps [OF _ fan_reachable_step [OF subscribes]])
  have pay: "list_all (\<lambda>ev. length (ev_payload ev) \<le> 64) (merge_of cs)"
    by (simp add: d(3) image_events_def sample_events_def ev_payload_def levelSize_def)
  have a: "alone merger_rest t1" using t1 r(6) pay d(6) by (simp add: alone_def list_all_iff)
  define t2 where "t2 = emit_alone merger_Next (replicate (emit_weight merger_rest t1) (7 :: i64)) t1"
  let ?inv = "fan_inv feeds_ring merger_rest False (Some CanonicalCRC32C) (merged cs) (nat (cfgCapacity (ring_config desk_config)))"
  have f: "?inv t1" by (rule fan_run_inv [OF d(2) run])
  have len: "length (merged cs) = 3" by (simp add: d(3) image_events_def sample_events_def)
  have e: "sysPc t2 = EmitReturned None \<and> ?inv t2"
    unfolding t2_def by (rule fan.alone_runs [OF f _ a]) (use len t1(1) in simp_all)
  define s2 where "s2 = s1\<lparr>svSys := t2\<rparr>"
  have "server_reachable s1 s2" unfolding s2_def t2_def s1(1) [symmetric] by (rule server_emits [OF s1(2)])
  with step have "server_reachable s0 s2" unfolding server_reachable_def by (rule converse_rtranclp_into_rtranclp)
  then have serves: "serves_run desk_config cs s2" using d(1,4) by (auto simp: serves_run_def)
  have "length (sysLog t2) = 3" using e len fan_inv_parts(1) [OF conjunct2 [OF e]] by (simp add: source_inv_def)
  with e s1 show thesis by (intro that [OF serves d(2)]) (simp_all add: s2_def)
qed

section \<open>Witnesses\<close>

theorem session_exact_witness:
  "\<exists>cs s. serves_run desk_config cs s \<and> svGauge s = 1 \<and> svServing s = [desk_accepted]
     \<and> mixDrop (svMix s) = 1 \<and> mixBlock (svMix s) = 0 \<and> mixStartBeginning (svMix s) = 1"
proof -
  obtain cs s where s: "serves_run desk_config cs s" "svAttached s = [desk_accepted]" "svAccepted s = [desk_accepted]"
    "svHolder s = None" "svServing s = []" "svGauged s = []" by (rule desk_returned)
  let ?g = "gauge_one 0 s" and ?s = "count_one 0 (gauge_one 0 s)"
  have g: "svHolder ?g = None" "svGauged ?g = [desk_accepted]" by (simp_all add: gauge_one_def s)
  have "server_step s ?g" by (rule gauges) (simp add: s)
  moreover have "server_step ?g ?s" by (rule counts) (simp_all add: g)
  ultimately have r: "serves_run desk_config cs ?s"
    using s(1) unfolding serves_run_def server_reachable_def by (meson rtranclp.rtrancl_into_rtrancl)
  have v: "svServing ?s = [desk_accepted]" "svAttached ?s = []" "svGauged ?s = []" "svAccepted ?s = [desk_accepted]"
    by (simp_all add: gauge_one_def count_one_def without_def s)
  note e = session_exact [OF r]
  from e obtain counted where c: "mset (svAccepted ?s) = mset (svAttached ?s) + mset (svGauged ?s) + mset counted"
      "svMix ?s = \<lparr>mixBlock = length (filter (\<lambda>a. acMode a = ModeBlock) counted),
            mixDrop = length (filter (\<lambda>a. acMode a = ModeDrop) counted),
            mixStartBeginning = length (filter (\<lambda>a. acKind a = startKindBeginning) counted),
            mixStartExchangeTs = length (filter (\<lambda>a. acKind a = startKindExchangeTs) counted),
            mixStartEmitIndex = length (filter (\<lambda>a. acKind a = startKindEmitIndex) counted),
            mixStartLive = length (filter (\<lambda>a. acKind a = startKindLive) counted)\<rparr>"
    by blast
  have "counted = [desk_accepted]" using c(1) v by simp
  moreover have "svGauge ?s = 1" using e v by simp
  ultimately show ?thesis using r v(1) c(2) by (intro exI [of _ cs] exI [of _ ?s]) (simp add: desk_accepted_def)
qed

lemma desk_done:
  obtains cs s err where "serves_run desk_config cs s" "run_inputs (ring_config desk_config) cs (scWorkers desk_config) defaultBatchShape"
    "svRunErr s = Some err" "length (sysLog (svSys s)) = 3" "svAccepted s = [desk_accepted]"
    "\<exists>m. svManifest s = Some m \<and> mfSubscribers m = no_mix"
proof -
  obtain cs s where s: "serves_run desk_config cs s" "run_inputs (ring_config desk_config) cs 1 defaultBatchShape"
    "svStarted s" "sysPc (svSys s) = EmitReturned None" "length (sysLog (svSys s)) = 3" "svAttached s = [desk_accepted]"
    "svAccepted s = [desk_accepted]" "svMix s = no_mix" "svHolder s = None" "svRunErr s = None" "svServing s = []" "svGauged s = []" "svCfg s = desk_config"
    by (rule desk_returned)
  let ?s = "run_finish None None 9 s"
  have "server_step s ?s" by (rule finishes) (simp_all add: s)
  then have r: "serves_run desk_config cs ?s"
    using s(1) unfolding serves_run_def server_reachable_def by (meson rtranclp.rtrancl_into_rtrancl)
  obtain cerr m where c: "merger_Close (sysSource (svSys s)) = (cerr, m)" by fastforce
  have f: "svManifest ?s \<noteq> None" "\<forall>mf. svManifest ?s = Some mf \<longrightarrow> mfSubscribers mf = no_mix" "svRunErr ?s \<noteq> None"
    "sysLog (svSys ?s) = sysLog (svSys s)" "svAccepted ?s = svAccepted s"
    using s(8,13) by (simp_all add: run_finish_def c writeRunManifest_def manifest_of_def desk_config_def Let_def)
  show thesis
    using f that [OF r] s(2,5,7) by (auto simp: desk_config_def)
qed

theorem run_releases_witness:
  "\<exists>cs s err. serves_run desk_config cs s \<and> svRunErr s = Some err \<and> End (rMem (sysRing (svSys s))) = Some 3
     \<and> server_Close s = Some (err, s)"
proof -
  obtain cs s err where s: "serves_run desk_config cs s" "run_inputs (ring_config desk_config) cs (scWorkers desk_config) defaultBatchShape"
    "svRunErr s = Some err" "length (sysLog (svSys s)) = 3" by (rule desk_done)
  note e = run_releases [OF s(1-3)]
  have "End (rMem (sysRing (svSys s))) = Some 3" using conjunct1 [OF e] s(4) by simp
  moreover have "server_Close s = Some (err, s)" using e by (elim conjE)
  ultimately show ?thesis using s(1,3) by blast
qed


text \<open>A manifest can leave a subscription out. \<^verbatim>\<open>countSubscriber\<close> takes the mutex anew after \<^verbatim>\<open>attach\<close> has
  released it, and by then the run may have ended and written its manifest: here the only subscription is
  accepted, the run emits all three records, and the manifest's subscriber mix is all zero.\<close>

lemma manifest_misses_subscriber:
  "\<exists>cs s m. serves_run desk_config cs s \<and> length (svAccepted s) = 1 \<and> length (sysLog (svSys s)) = 3
     \<and> svManifest s = Some m \<and> mfSubscribers m = no_mix"
proof -
  obtain cs s err where s: "serves_run desk_config cs s" "length (sysLog (svSys s)) = 3" "svAccepted s = [desk_accepted]"
    "\<exists>m. svManifest s = Some m \<and> mfSubscribers m = no_mix" by (rule desk_done)
  then obtain m where "svManifest s = Some m" "mfSubscribers m = no_mix" by blast
  with s show ?thesis by (intro exI [of _ cs] exI [of _ s] exI [of _ m]) simp
qed

end
