(* ===== verification/Server_Sample.thy ===== *)
theory Server_Sample
  imports Server_Send
begin

text \<open>
  A run of six events through a ring of eight slots, read by a Drop subscriber after its end.
\<close>

lemma reads_all:
  assumes "mem_ok cap log False r" "length log \<le> cap" "n \<le> length log"
    and "sbPc u = Outside" "\<not> sbEvicted u" "\<not> sbCanceled u" "sbPos u = 0" "sbCursor u = 0"
  shows "\<exists>m. (sub_step r ^^ m) u = u\<lparr>sbPos := of_nat n, sbCursor := of_nat n,
    sbTrace := sbTrace u @ map (\<lambda>e. Delivered (plain_delivery e)) (take n log)\<rparr>"
  using assms(3)
proof (induction n)
  case 0
  have "(sub_step r ^^ 0) u = u\<lparr>sbPos := of_nat 0, sbCursor := of_nat 0, sbTrace := sbTrace u @ []\<rparr>"
    using assms(7,8) by simp
  then show ?case by (metis list.simps(8) take0)
next
  case (Suc n)
  let ?u = "u\<lparr>sbPos := of_nat n, sbCursor := of_nat n, sbTrace := sbTrace u @ map (\<lambda>e. Delivered (plain_delivery e)) (take n log)\<rparr>"
  obtain m where m: "(sub_step r ^^ m) u = ?u" using Suc by auto
  obtain m' where m': "(sub_step r ^^ m') ?u = ?u\<lparr>sbPos := of_nat n + 1, sbCursor := of_nat n + 1,
      sbTrace := sbTrace ?u @ [Delivered (plain_delivery (log ! n))]\<rparr>"
    using next_call_delivers [OF assms(1), of n ?u] Suc.prems assms by auto
  have "(sub_step r ^^ (m' + m)) u = (sub_step r ^^ m') ?u" by (simp add: funpow_add m)
  also have "\<dots> = u\<lparr>sbPos := of_nat (Suc n), sbCursor := of_nat (Suc n),
      sbTrace := sbTrace u @ map (\<lambda>e. Delivered (plain_delivery e)) (take (Suc n) log)\<rparr>"
    unfolding m' using Suc.prems by (simp add: take_Suc_conv_app_nth add.commute)
  finally show ?case by blast
qed

definition wide_config :: Config where
  "wide_config = \<lparr>cfgCapacity = 8, cfgMaxBlobBytes = 64, cfgWatchdogTimeout = 0\<rparr>"

lemma wide_inputs: "run_inputs wide_config sample_cursors 0 defaultBatchShape"
  by (simp add: run_inputs_def sample_cursors_def sample_sound sample_merge arena_fits_def wide_config_def)

abbreviation wide_run :: "Merger system \<Rightarrow> bool" where
  "wide_run \<equiv> fan_run wide_config sample_cursors 0 defaultBatchShape (Some CanonicalSHA256) False"

lemma wide_inv: "wide_run s \<Longrightarrow> fan_inv feeds_ring merger_rest False (Some CanonicalSHA256) (merged sample_cursors) 8 s"
  using fan_run_inv [OF wide_inputs] by (simp add: wide_config_def)

lemma wide_started:
  obtains s where "wide_run s" "rSubs (sysRing s) = [new_subscriber ModeDrop Beginning 0]" "rBlocking (sysRing s) = []"
    "alone merger_rest s"
proof -
  obtain m where m: "newMerger sample_cursors 0 defaultBatchShape = Inr m" "merger_rest m = merge_of sample_cursors"
    using newMerger_ok [of sample_cursors 0 defaultBatchShape] sample_sound by (auto simp: sample_cursors_def)
  obtain r where r: "newRing wide_config = Inr r" "rBlocking r = []" "rCtrlPending r = []" "rSubs r = []" "rIssued r = 0"
    "\<not> rCtrlClosed r" "\<not> rCtrlStarted r" "rMaxBlob (rMem r) = 64" "rWriteSeq (rMem r) = 0"
    by (simp add: newRing_def NewRing_def wide_config_def go_quot_def wrap64_def)
  let ?s0 = "start_system r m (Some (NewCanonicalHasher CanonicalSHA256))"
  let ?s1 = "on_ring (\<lambda>r. snd (Subscribe ModeDrop Beginning r)) ?s0"
  have "start_run wide_config sample_cursors 0 defaultBatchShape (Some CanonicalSHA256) = Some ?s0"
    by (simp add: start_run_def m r)
  then have "wide_run ?s0" by (auto simp: fan_run_def fan_reachable_def)
  then have run: "wide_run ?s1" by (rule fan_run_steps [OF _ fan_reachable_step [OF subscribes]])
  have subs: "rSubs (sysRing ?s1) = [new_subscriber ModeDrop Beginning 0]" "rBlocking (sysRing ?s1) = []"
    "rCtrlPending (sysRing ?s1) = []" "rMem (sysRing ?s1) = rMem r" "sysPc ?s1 = EmitInit" "sysSource ?s1 = m"
    using r by (simp_all add: on_ring_def start_system_def Subscribe_def Beginning_def start_at_def subscribeNow_def
        resolve_start_def oldestIndex_def Let_def)
  have "alone merger_rest ?s1" using subs r(8) m(2) sample_payloads by (simp add: alone_def list_all_iff)
  from that [OF run subs(1,2) this] show thesis .
qed

lemma wide_finished:
  obtains s u where "wide_run s" "sysPc s = EmitReturned None" "rSubs (sysRing s) = [u]" "length (sysLog s) = 6"
    "sbFrom u = 0" "sbTrace u = map (\<lambda>e. Delivered (plain_delivery e)) (sysLog s)"
proof -
  obtain s0 where s0: "wide_run s0" "rSubs (sysRing s0) = [new_subscriber ModeDrop Beginning 0]" "rBlocking (sysRing s0) = []"
    "alone merger_rest s0" by (rule wide_started)
  have "Suc (length (merged sample_cursors)) < 2 ^ 63" by (simp add: sample_length)
  then obtain s where s: "fan_reachable merger_Next False s0 s" "same_subs (sysRing s0) (sysRing s)"
      "sysPc s = EmitReturned None \<or> at_barrier (sysPc s) \<and> rBlocking (sysRing s) \<noteq> []"
    using fan.alone_until [OF wide_inv [OF s0(1)] _ s0(4)] by blast
  have k: "rSubs (sysRing s) = [new_subscriber ModeDrop Beginning 0]" "sysPc s = EmitReturned None"
    using s(2,3) s0(2,3) by (simp_all add: same_subs_def)
  have run: "wide_run s" by (rule fan_run_steps [OF s0(1) s(1)])
  note p = fan_inv_parts [OF wide_inv [OF run]]
  have log: "length (sysLog s) = 6" using p(1) k(2) by (simp add: source_inv_def sample_length)
  have m: "mem_ok 8 (sysLog s) False (rMem (sysRing s))" using p(3) k(2) by (simp add: memory_inv_def)
  let ?u = "new_subscriber ModeDrop Beginning 0"
  obtain n where n: "(sub_step (rMem (sysRing s)) ^^ n) ?u = ?u\<lparr>sbPos := of_nat 6, sbCursor := of_nat 6,
      sbTrace := sbTrace ?u @ map (\<lambda>e. Delivered (plain_delivery e)) (take 6 (sysLog s))\<rparr>"
    using reads_all [OF m, of 6 ?u] log by (auto simp: new_subscriber_def)
  let ?s = "on_ring (update_sub 0 (sub_step (rMem (sysRing s)) ^^ n)) s"
  have "wide_run ?s" by (rule fan_run_steps [OF run reads_funpow]) (simp add: k)
  moreover have "sysPc ?s = EmitReturned None" "sysLog ?s = sysLog s" by (simp_all add: on_ring_def k(2))
  moreover have "rSubs (sysRing ?s) = [?u\<lparr>sbPos := of_nat 6, sbCursor := of_nat 6,
      sbTrace := map (\<lambda>e. Delivered (plain_delivery e)) (sysLog s)\<rparr>]"
    unfolding on_ring_def update_sub_def using k(1) n log by (simp add: new_subscriber_def)
  moreover have "sbFrom (?u\<lparr>sbPos := of_nat 6, sbCursor := of_nat 6, sbTrace := map (\<lambda>e. Delivered (plain_delivery e)) (sysLog s)\<rparr>) = 0"
    by (simp add: new_subscriber_def)
  ultimately show thesis
    by (intro that [of ?s "?u\<lparr>sbPos := of_nat 6, sbCursor := of_nat 6, sbTrace := map (\<lambda>e. Delivered (plain_delivery e)) (sysLog s)\<rparr>"])
      (simp_all only: log, simp_all)
qed

lemma all_sent:
  assumes "list_all wired ds"
  shows "\<exists>sent mx. send_loop (\<lambda>_ _. True) ctx (map Delivered ds) levels sent0 mx0 = (sent0 @ sent, mx, None) \<and> length sent = length ds"
  using assms
proof (induction ds arbitrary: levels sent0 mx0)
  case (Cons d ds)
  then obtain e where "wire_ok e" "dRecord d = fst e" "dBlob d = entry_blob e" by (auto simp: wired_def)
  from deliveryToProto_ok [OF this, of levels] obtain resp levels' where r: "deliveryToProto d levels = (Inr resp, levels')" by blast
  obtain sent mx where "send_loop (\<lambda>_ _. True) ctx (map Delivered ds) levels' (sent0 @ [resp]) (count_delivery d mx0)
      = ((sent0 @ [resp]) @ sent, mx, None)" "length sent = length ds"
    using Cons.IH [of levels' "sent0 @ [resp]" "count_delivery d mx0"] Cons.prems by auto
  then show ?case using r by (intro exI [of _ "resp # sent"] exI [of _ mx]) simp
qed simp

lemma deliveries_Delivered: "deliveries (map Delivered ds) = ds"
  by (induction ds) simp_all

lemma sample_sends:
  obtains s u sent mx where "wide_run s" "sysPc s = EmitReturned None" "rSubs (sysRing s) = [u]" "length (sysLog s) = 6"
    "sbFrom u = 0" "send_loop (\<lambda>_ _. True) (None :: unit option) (sbTrace u) [] [] no_metrics = (sent, mx, None)"
    "length sent = 6" "list_all (\<lambda>resp. \<not> rsHasGap resp) sent" "deliveries (sbTrace u) = map plain_delivery (sysLog s)"
proof -
  obtain s u where s: "wide_run s" "sysPc s = EmitReturned None" "rSubs (sysRing s) = [u]" "length (sysLog s) = 6"
    "sbFrom u = 0" "sbTrace u = map (\<lambda>e. Delivered (plain_delivery e)) (sysLog s)" by (rule wide_finished)
  have u: "0 < length (rSubs (sysRing s))" "u = rSubs (sysRing s) ! 0" "unat (sbFrom u) < 2 ^ 63" using s by simp_all
  note w = run_wired [OF wide_inputs s(1) u]
  have t: "sbTrace u = map Delivered (map plain_delivery (sysLog s))" by (simp add: s(6))
  have ds: "deliveries (sbTrace u) = map plain_delivery (sysLog s)" unfolding t by (rule deliveries_Delivered)
  obtain sent mx where sl: "send_loop (\<lambda>_ _. True) (None :: unit option) (sbTrace u) [] [] no_metrics = (sent, mx, None)" "length sent = 6"
    using all_sent [OF w(2), of None "[]" "[]" no_metrics] unfolding ds t [symmetric] by (auto simp: s(4))
  have "list_all2 says (take (length sent) (deliveries (sbTrace u))) sent" using send_loop_ok [OF w(2) sl(1)] by auto
  from says_gaps [OF this] have "map rsHasGap sent = map dHasGap (map plain_delivery (sysLog s))" by (simp add: ds sl(2) s(4))
  also have "\<dots> = replicate 6 False" by (simp add: plain_delivery_def comp_def map_replicate_const s(4))
  finally have "map rsHasGap sent = replicate 6 False" .
  then have "set (map rsHasGap sent) = {False}" by simp
  then have "list_all (\<lambda>resp. \<not> rsHasGap resp) sent" by (auto simp: list_all_iff)
  from that [OF s(1-5) sl this ds] show thesis .
qed

theorem wire_exact_witness:
  "\<exists>s u sent mx. wide_run s \<and> rSubs (sysRing s) = [u]
     \<and> send_loop (\<lambda>_ _. True) (None :: unit option) (sbTrace u) [] [] no_metrics = (sent, mx, None)
     \<and> list_all2 says (map plain_delivery (sysLog s)) sent \<and> mxRecordsEmitted mx = 6 \<and> mxGapsDetected mx = 0"
proof -
  obtain s u sent mx where s: "wide_run s" "sysPc s = EmitReturned None" "rSubs (sysRing s) = [u]" "length (sysLog s) = 6"
    "sbFrom u = 0" "send_loop (\<lambda>_ _. True) (None :: unit option) (sbTrace u) [] [] no_metrics = (sent, mx, None)"
    "length sent = 6" "list_all (\<lambda>resp. \<not> rsHasGap resp) sent" "deliveries (sbTrace u) = map plain_delivery (sysLog s)"
    by (rule sample_sends)
  have u: "0 < length (rSubs (sysRing s))" "u = rSubs (sysRing s) ! 0" "unat (sbFrom u) < 2 ^ 63" using s by simp_all
  note w = wire_exact [OF wide_inputs s(1) u s(6) refl]
  have "filter rsHasGap sent = []" using s(8) by (auto simp: filter_empty_conv list_all_iff)
  then show ?thesis using w s by (intro exI [of _ s] exI [of _ u] exI [of _ sent] exI [of _ mx]) simp
qed

theorem client_digest_witness:
  "\<exists>s u sent mx h. wide_run s \<and> sysPc s = EmitReturned None \<and> rSubs (sysRing s) = [u]
     \<and> send_loop (\<lambda>_ _. True) (None :: unit option) (sbTrace u) [] [] no_metrics = (sent, mx, None) \<and> length sent = 6
     \<and> sysHash s = Some h \<and> fst (hasher_Sum h []) = hash_of CanonicalSHA256 (canonical_input (map client_entry sent))"
proof -
  obtain s u sent mx where s: "wide_run s" "sysPc s = EmitReturned None" "rSubs (sysRing s) = [u]" "length (sysLog s) = 6"
    "sbFrom u = 0" "send_loop (\<lambda>_ _. True) (None :: unit option) (sbTrace u) [] [] no_metrics = (sent, mx, None)"
    "length sent = 6" "list_all (\<lambda>resp. \<not> rsHasGap resp) sent" "deliveries (sbTrace u) = map plain_delivery (sysLog s)"
    by (rule sample_sends)
  have u: "0 < length (rSubs (sysRing s))" "u = rSubs (sysRing s) ! 0" "length sent = length (sysLog s)" using s by simp_all
  from client_digest [OF wide_inputs s(1,2) u(1,2) s(5,6,8) u(3)] s show ?thesis by blast
qed

end
