(* ===== verification/Bench_Sample.thy ===== *)
theory Bench_Sample
  imports Bench_Run Server_Example Server_Sample
begin

text \<open>
  A load run over a directory with one file of three events, one Block and one Drop subscriber.
\<close>

section \<open>Steps\<close>

text \<open>A ring that has room for all events does not hold the loop back.\<close>

lemma roomy:
  assumes "fan_inv ok rest paced algo stream cap s" "length stream < cap" "Suc (length stream) < 2 ^ 63"
  shows "\<not> at_barrier (sysPc s)"
proof
  assume b: "at_barrier (sysPc s)"
  note p = fan_inv_parts [OF assms(1)]
  let ?r = "rMem (sysRing s)"
  obtain ev n where "barrier_ok (sysLog s) ?r ev n" using p(3) b by (cases "sysPc s") (auto simp: memory_inv_def)
  then have le: "(of_nat (Capacity ?r) :: u64) \<le> of_nat (length (sysLog s))" unfolding barrier_ok_def by blast
  have "mem_ok cap (sysLog s) False ?r" using p(3) b by (cases "sysPc s") (auto simp: memory_inv_def)
  then have "geom cap ?r" by (rule mem_okD(1))
  then have c: "Capacity ?r = cap" "cap < 2 ^ 63" using Capacity_eq geom_cap_less by blast+
  have l: "length (sysLog s) \<le> length stream" using p(1) by (auto simp: source_inv_def dest: prefix_length_le)
  have "unat (of_nat cap :: u64) = cap" "unat (of_nat (length (sysLog s)) :: u64) = length (sysLog s)"
    using c(2) l assms(3) by (simp_all add: unat_of_nat take_bit_nat_eq_self)
  then show False using le l assms(2) by (simp add: c(1) word_le_nat_alt)
qed

lemma bench_emits_all:
  assumes "fan_inv feeds_ring merger_rest False algo stream cap s" "length stream < cap" "Suc (length stream) < 2 ^ 63" "alone merger_rest s"
  shows "\<exists>s'. bench_reachable paced s s' \<and> sysPc s' = EmitReturned None \<and> same_subs (sysRing s) (sysRing s')
    \<and> fan_inv feeds_ring merger_rest False algo stream cap s'"
  using assms
proof (induction "emit_weight merger_rest s" arbitrary: s rule: less_induct)
  case less
  let ?s = "emit_step merger_Next paced 0 True s"
  show ?case
  proof (cases "sysPc s = EmitReturned None")
    case True
    with less.prems show ?thesis by (intro exI [of _ s]) (simp add: bench_reachable_def same_subs_def)
  next
    case False
    have n: "nearer merger_rest s ?s" unfolding emit_step_go [of _ paced]
      by (rule fan.alone_step [OF less.prems(1,3,4) False]) (use roomy [OF less.prems(1-3)] in blast)
    have i: "fan_inv feeds_ring merger_rest False algo stream cap ?s" unfolding emit_step_go [of _ paced]
      by (rule fan.fan_inv_emits [OF less.prems(1,3)])
    from n obtain s' where s': "bench_reachable paced ?s s'" "sysPc s' = EmitReturned None" "same_subs (sysRing ?s) (sysRing s')"
      "fan_inv feeds_ring merger_rest False algo stream cap s'"
      using less.hyps [OF _ i less.prems(2,3)] by (auto simp: nearer_def)
    have "bench_step paced s ?s" by (rule bench_emits)
    then have "bench_reachable paced s s'" using s'(1) unfolding bench_reachable_def by (rule converse_rtranclp_into_rtranclp)
    moreover have "same_subs (sysRing s) (sysRing s')" using n s'(3) by (simp add: nearer_def same_subs_def)
    ultimately show ?thesis using s' by blast
  qed
qed

lemma trace_grows: "prefix (sbTrace u) (sbTrace ((sub_step r ^^ i) u))"
proof (induction i)
  case (Suc i)
  have "prefix (sbTrace v) (sbTrace (sub_step r v))" for v
    by (auto simp: sub_step_def return_next_def split: sub_pc.splits sum.splits option.splits prod.splits)
  then show ?case using Suc prefix_order.trans by fastforce
qed simp

lemma delivered_before: "list_all is_delivered (sbTrace ((sub_step r ^^ m) u)) \<Longrightarrow> i \<le> m \<Longrightarrow> list_all is_delivered (sbTrace ((sub_step r ^^ i) u))"
proof -
  assume d: "list_all is_delivered (sbTrace ((sub_step r ^^ m) u))" and "i \<le> m"
  then have "(sub_step r ^^ m) u = (sub_step r ^^ (m - i)) ((sub_step r ^^ i) u)" by (simp flip: funpow_add comp_apply [of "sub_step r ^^ (m - i)"])
  then have "set (sbTrace ((sub_step r ^^ i) u)) \<subseteq> set (sbTrace ((sub_step r ^^ m) u))"
    using set_mono_prefix [OF trace_grows [of "(sub_step r ^^ i) u" "m - i" r]] by simp
  with d show ?thesis by (auto simp: list_all_iff)
qed

lemma bench_reads_funpow:
  assumes "k < length (rSubs (sysRing s))"
    and "\<forall>i < m. list_all is_delivered (sbTrace ((sub_step (rMem (sysRing s)) ^^ i) (rSubs (sysRing s) ! k)))"
  shows "bench_reachable paced s (on_ring (update_sub k (sub_step (rMem (sysRing s)) ^^ m)) s)"
  using assms(2)
proof (induction m)
  case 0
  have "on_ring (update_sub k (sub_step (rMem (sysRing s)) ^^ 0)) s = s" by (simp add: on_ring_def update_sub_def)
  then show ?case unfolding bench_reachable_def by (metis rtranclp.rtrancl_refl)
next
  case (Suc m)
  let ?s = "on_ring (update_sub k (sub_step (rMem (sysRing s)) ^^ m)) s"
  have "on_ring (read_sub k) ?s = on_ring (update_sub k (sub_step (rMem (sysRing s)) ^^ Suc m)) s"
    using assms(1) by (simp add: on_ring_def read_sub_def update_sub_def)
  moreover have "bench_step paced ?s (on_ring (read_sub k) ?s)"
    using assms(1) Suc.prems by (intro bench_reads) (simp_all add: on_ring_def update_sub_def)
  ultimately show ?case using Suc unfolding bench_reachable_def by (metis less_Suc_eq rtranclp.rtrancl_into_rtrancl)
qed

text \<open>A reader that has read everything is told that the stream has ended.\<close>

lemma reads_end:
  assumes "mem_ok cap log False r" "length log < cap" "End r = Some (of_nat (length log))"
    and "sbPc u = Outside" "\<not> sbEvicted u" "\<not> sbCanceled u" "sbPos u = of_nat (length log)"
  shows "(sub_step r ^^ 5) u = u\<lparr>sbTrace := sbTrace u @ [EndOfStream]\<rparr>" "i < 5 \<Longrightarrow> sbTrace ((sub_step r ^^ i) u) = sbTrace u"
proof -
  let ?n = "length log"
  note m = mem_okD [OF assms(1)]
  have i: "slot_index r (of_nat ?n) = ?n" using slot_index_of_nat [OF m(1)] assms(2) m(2) by simp
  have "slot_ok cap log r ?n" by (rule mem_ok_slot [OF assms(1,2)]) simp
  then have "seq_of r ?n = 0" using assms(2) by (auto simp: slot_ok_def)
  then have z: "slSeq (rSlots r ! ?n) = 0" by (simp add: seq_of_def unat_eq_0)
  have odd: "(0 :: u64) \<noteq> 2 * of_nat ?n + 1"
  proof
    assume "(0 :: u64) = 2 * of_nat ?n + 1"
    then have "even (2 * of_nat ?n + 1 :: u64)" by (metis even_zero)
    then show False by simp
  qed
  have nx: "next_step r (sbPos u) (sbPos u) LoadSeq = Inl None"
    using odd by (simp add: next_step_def assms(7) i z torn_def Let_def)
  have steps: "sub_step r u = u\<lparr>sbPc := CheckEvicted\<rparr>" "sub_step r (u\<lparr>sbPc := CheckEvicted\<rparr>) = u\<lparr>sbPc := CheckCanceled\<rparr>"
    "sub_step r (u\<lparr>sbPc := CheckCanceled\<rparr>) = u\<lparr>sbPc := Reading (sbPos u) LoadSeq\<rparr>"
    "sub_step r (u\<lparr>sbPc := Reading (sbPos u) LoadSeq\<rparr>) = u\<lparr>sbPc := CheckEnd\<rparr>"
    using assms(4-6) nx by (simp_all add: sub_step_def)
  have last: "sub_step r (u\<lparr>sbPc := CheckEnd\<rparr>) = u\<lparr>sbTrace := sbTrace u @ [EndOfStream]\<rparr>"
    using assms(3,4,7) by (cases u) (simp add: sub_step_def return_next_def)
  show "(sub_step r ^^ 5) u = u\<lparr>sbTrace := sbTrace u @ [EndOfStream]\<rparr>" by (simp add: numeral_eq_Suc funpow_swap1 steps last)
  assume "i < 5"
  then consider "i = 0" | "i = 1" | "i = 2" | "i = 3" | "i = 4" by linarith
  then show "sbTrace ((sub_step r ^^ i) u) = sbTrace u" by cases (simp_all add: numeral_eq_Suc funpow_swap1 steps)
qed

text \<open>A whole drain.\<close>

lemma drains_all:
  assumes "mem_ok cap log False r" "length log < cap" "End r = Some (of_nat (length log))"
  shows "\<exists>m ds. sbTrace ((sub_step r ^^ m) (new_subscriber mode Beginning 0)) = map Delivered ds @ [EndOfStream]
    \<and> (\<forall>i < m. list_all is_delivered (sbTrace ((sub_step r ^^ i) (new_subscriber mode Beginning 0))))"
proof -
  let ?u = "new_subscriber mode Beginning 0" and ?n = "of_nat (length log) :: u64"
  let ?t = "map (\<lambda>e. Delivered (plain_delivery e)) log"
  have u: "sbPc ?u = Outside" "\<not> sbEvicted ?u" "\<not> sbCanceled ?u" "sbPos ?u = 0" "sbCursor ?u = 0" "sbTrace ?u = []"
    by (simp_all add: new_subscriber_def)
  obtain m where m: "(sub_step r ^^ m) ?u = ?u\<lparr>sbPos := ?n, sbCursor := ?n, sbTrace := ?t\<rparr>"
    using reads_all [OF assms(1), of "length log" ?u] u assms(2) by auto
  let ?v = "?u\<lparr>sbPos := ?n, sbCursor := ?n, sbTrace := ?t\<rparr>"
  note e = reads_end [OF assms, of ?v]
  have f: "(sub_step r ^^ (j + m)) ?u = (sub_step r ^^ j) ?v" for j by (simp add: funpow_add m)
  have v: "sbPc ?v = Outside" "\<not> sbEvicted ?v" "\<not> sbCanceled ?v" "sbPos ?v = ?n" using u by simp_all
  have d: "list_all is_delivered ?t" by (simp add: list_all_iff)
  have "list_all is_delivered (sbTrace ((sub_step r ^^ i) ?u))" if "i < 5 + m" for i
  proof (cases "i \<le> m")
    case True
    show ?thesis by (rule delivered_before [OF _ True]) (simp add: m d)
  next
    case False
    then have "(sub_step r ^^ i) ?u = (sub_step r ^^ (i - m)) ?v" using f [of "i - m"] by simp
    then show ?thesis using e(2) [OF v, of "i - m"] that False d by simp
  qed
  moreover have "sbTrace ((sub_step r ^^ (5 + m)) ?u) = map Delivered (map plain_delivery log) @ [EndOfStream]"
    unfolding f e(1) [OF v] by simp
  ultimately show ?thesis by blast
qed

section \<open>Closing\<close>

text \<open>The merger closes the cursors that it was given.\<close>

lemma merger_Next_cursors: "mCursors (snd (merger_Next m)) = mCursors m \<and> mClosed (snd (merger_Next m)) = mClosed m"
  by (auto simp: merger_Next_def Let_def split: option.splits prod.splits sum.splits)

definition same_cursors :: "Merger system \<Rightarrow> Merger system \<Rightarrow> bool" where
  "same_cursors s s' \<longleftrightarrow> mCursors (sysSource s') = mCursors (sysSource s) \<and> mClosed (sysSource s') = mClosed (sysSource s)"

lemma bench_step_cursors:
  assumes "bench_step paced s s'"
  shows "same_cursors s s'"
  using assms
proof (cases rule: bench_step.cases)
  case (bench_emits now)
  show ?thesis
  proof (cases "sysPc s = EmitNext")
    case True
    then show ?thesis using bench_emits merger_Next_cursors [of "sysSource s"]
      by (auto simp: same_cursors_def emit_step_def split: prod.splits sum.splits option.splits)
  next
    case False
    then have "sysSource (emit_step merger_Next paced now True s) = sysSource s"
      by (cases "sysPc s") (auto simp: emit_step_def hash_event_def enter_write_def start_scan_def scanned_def watchdog_def Let_def
        split: option.splits list.splits prod.splits write_pc.splits)
    then show ?thesis using bench_emits by (simp add: same_cursors_def)
  qed
qed (simp_all add: same_cursors_def on_ring_def)

lemma bench_reachable_cursors: "bench_reachable paced s s' \<Longrightarrow> same_cursors s s'"
  unfolding bench_reachable_def by (induction rule: rtranclp_induct) (auto simp: same_cursors_def dest: bench_step_cursors)

section \<open>The run\<close>

definition tape_config :: BenchConfig where
  "tape_config = \<lparr>bcDir = ''data'', bcWorkers = 0, bcCapacity = 8, bcMaxBlobBytes = 64, bcBlockSubscribers = 1, bcDropSubscribers = 1,
     bcSpeed = \<lparr>sNum = 0, sDen = 0\<rparr>, bcHash = True\<rparr>"

definition tape_dir :: "direntry list" where
  "tape_dir = [\<lparr>deName = ''notes.txt'', deIsDir = False\<rparr>, \<lparr>deName = ''tape.bin'', deIsDir = False\<rparr>]"

definition tape_file :: datasetFile where
  "tape_file = \<lparr>dsReader = desk_reader, dsPath = ''data/tape.bin'', dsVenueID = 3, dsEmpty = False,
     dsFirstTs = ExchangeTs (contents (sample_reader 3) ! 0), dsFirstSeq = SequenceNumber (contents (sample_reader 3) ! 0)\<rparr>"

lemma tape_ok:
  "bin_paths ''data'' tape_dir = [''data/tape.bin'']" "describe ''data/tape.bin'' desk_reader = Some tape_file"
  "bench_sound [tape_file]" "bench_files.events tape_file = image_events (sample_events 3)"
proof -
  show "bin_paths ''data'' tape_dir = [''data/tape.bin'']"
    by (simp add: bin_paths_def tape_dir_def filepath_Ext_def filepath_Join_def)
  have v: "reader_VenueID desk_reader = 3"
    using desk_reader(4) by (simp add: desk_reader_def closing_reader sound_partition_def)
  show d: "describe ''data/tape.bin'' desk_reader = Some tape_file"
    by (simp add: describe_def tape_file_def desk_reader(2,3) v Let_def)
  show e: "bench_files.events tape_file = image_events (sample_events 3)"
    by (simp add: bench_files.events_def tape_file_def desk_reader(5))
  have "bench_files.sound tape_file"
    using desk_reader(4) v by (simp add: bench_files.sound_def e, simp add: tape_file_def desk_reader_def closing_reader
      sound_partition_def sample_partition_events)
  then show "bench_sound [tape_file]" using d by (simp add: bench_sound_def, simp add: tape_file_def)
qed

lemma newMerger_cursors: "newMerger cs workers shape = Inr m \<Longrightarrow> mCursors m = cs \<and> \<not> mClosed m"
  by (auto simp: newMerger_def Let_def split: if_splits option.splits sum.splits prod.splits)

lemma tape_start:
  obtains parts s0 where "bench_start (\<lambda>_. Inr tape_dir) desk_open tape_config = Some (Inr (parts, s0))"
    "length (merged (map vpCursor parts)) = 3" "run_inputs (bench_ring tape_config) (map vpCursor parts) 0 defaultBatchShape"
    "alone merger_rest s0" "rSubs (sysRing s0) = [new_subscriber ModeBlock Beginning 0, new_subscriber ModeDrop Beginning 0]"
    "fst (merger_Close (sysSource s0)) = None" "\<not> mClosed (sysSource s0)"
proof -
  have o: "list_all2 (\<lambda>path f. Open desk_open path = Inr (dsReader f) \<and> describe path (dsReader f) = Some f) (bin_paths ''data'' tape_dir) [tape_file]"
    using tape_ok(2) desk_reader(1) by (simp add: tape_ok(1)) (simp add: tape_file_def)
  from openPartitions_ok [where os_ReadDir = "\<lambda>_. Inr tape_dir" and os_Open = desk_open, OF refl o tape_ok(3)] obtain parts where
    p: "openPartitions (\<lambda>_. Inr tape_dir) desk_open ''data'' = Inr parts" "sound_cursors (map vpCursor parts)"
      "merge_of (map vpCursor parts) = image_events (sample_events 3)"
    using desk_merged by (auto simp: tape_ok(4))
  have rd: "concat (map (cReaders \<circ> vpCursor) parts) = [desk_reader]"
  proof -
    have "venue_loop [tape_file] [tape_file] = Inr parts"
      using p(1) entry_loop_ok [OF o, of "[]"] by (simp add: openPartitions_def Let_def)
    then obtain c where "NewCursor 3 [desk_reader] = Inr c" "map vpCursor parts = [c]"
      by (auto simp: tape_file_def Let_def split: sum.splits)
    moreover from this(1) have "cReaders c = [desk_reader]" by (auto simp: NewCursor_def split: if_splits)
    ultimately have "map (cReaders \<circ> vpCursor) parts = [[desk_reader]]" by (metis (no_types, lifting) list.simps(8,9) map_map)
    then show ?thesis by simp
  qed
  have fits: "arena_fits (bench_ring tape_config)" by (simp add: arena_fits_def bench_ring_def tape_config_def)
  have len: "length (merged (map vpCursor parts)) = 3" by (simp add: p(3) image_events_def sample_events_def)
  then have ri: "run_inputs (bench_ring tape_config) (map vpCursor parts) 0 defaultBatchShape" using p(2) fits by (simp add: run_inputs_def)
  obtain r where r: "newRing (bench_ring tape_config) = Inr r" "rBlocking r = []" "rCtrlPending r = []" "rSubs r = []"
    "\<not> rCtrlClosed r" "\<not> rCtrlStarted r" "rMaxBlob (rMem r) = 64" "rWriteSeq (rMem r) = 0"
    by (simp add: newRing_def NewRing_def bench_ring_def tape_config_def go_quot_def wrap64_def)
  obtain m where m: "newMerger (map vpCursor parts) 0 defaultBatchShape = Inr m" "merger_rest m = merge_of (map vpCursor parts)"
    using newMerger_ok [OF p(2), of 0 defaultBatchShape] by auto
  let ?r1 = "r\<lparr>rSubs := [new_subscriber ModeBlock Beginning 0], rBlocking := [0]\<rparr>"
  let ?r2 = "?r1\<lparr>rSubs := [new_subscriber ModeBlock Beginning 0, new_subscriber ModeDrop Beginning 0]\<rparr>"
  have s: "subscribe_loop ModeBlock 1 r = Some (Inr ?r1)" "subscribe_loop ModeDrop 1 ?r1 = Some (Inr ?r2)"
    using subscribe_loop_ok [of r ModeBlock 1] subscribe_loop_ok [of ?r1 ModeDrop 1] r by simp_all
  let ?s0 = "start_system ?r2 m None"
  have st: "bench_start (\<lambda>_. Inr tape_dir) desk_open tape_config = Some (Inr (parts, ?s0))"
    using p(1) r(1) s m(1) by (simp add: bench_start_def bench_merger_def NewMerger_def Let_def)
      (simp add: tape_config_def bench_merger_def NewMerger_def)
  have pay: "list_all (\<lambda>ev. length (ev_payload ev) \<le> 64) (merge_of (map vpCursor parts))"
    by (simp add: p(3) image_events_def sample_events_def ev_payload_def levelSize_def)
  have al: "alone merger_rest ?s0" using r pay m(2) by (simp add: alone_def start_system_def list_all_iff)
  have close: "fst (close_cursors cs) = None" if "concat (map cReaders cs) = [desk_reader]" for cs
  proof -
    have c: "fst (close_readers rs) = None" if "set rs \<subseteq> {desk_reader}" for rs
      using that by (induction rs) (auto simp: case_prod_unfold reader_Close_def desk_reader_def Let_def)
    have "set (cReaders c) \<subseteq> {desk_reader}" if "c \<in> set cs" for c
      using that arg_cong [OF \<open>concat (map cReaders cs) = [desk_reader]\<close>, of set] by auto
    then show ?thesis using c by (induction cs) (auto simp: case_prod_unfold cursor_Close_def)
  qed
  have mc: "mCursors m = map vpCursor parts" "\<not> mClosed m" using newMerger_cursors [OF m(1)] by simp_all
  then have "fst (merger_Close m) = None" using close [of "map vpCursor parts"] rd by (simp add: merger_Close_def case_prod_unfold comp_def)
  then show thesis using mc(2) by (intro that [OF st len ri al]) (simp_all add: start_system_def)
qed

lemma tape_finish:
  obtains parts s0 s res where "bench_start (\<lambda>_. Inr tape_dir) desk_open tape_config = Some (Inr (parts, s0))"
    "bench_reachable (bench_paced tape_config) s0 s" "bench_finish tape_config parts s = Some (Inr res)"
proof -
  obtain parts s0 where st: "bench_start (\<lambda>_. Inr tape_dir) desk_open tape_config = Some (Inr (parts, s0))"
    "length (merged (map vpCursor parts)) = 3" "run_inputs (bench_ring tape_config) (map vpCursor parts) 0 defaultBatchShape"
    "alone merger_rest s0" "rSubs (sysRing s0) = [new_subscriber ModeBlock Beginning 0, new_subscriber ModeDrop Beginning 0]"
    "fst (merger_Close (sysSource s0)) = None" "\<not> mClosed (sysSource s0)"
    by (rule tape_start)
  let ?paced = "bench_paced tape_config"
  have run: "fan_run (bench_ring tape_config) (map vpCursor parts) 0 defaultBatchShape None False s0"
    using bench_start_ok(2) [OF st(1)] by (simp add: tape_config_def)
  have cap: "nat (cfgCapacity (bench_ring tape_config)) = 8" by (simp add: bench_ring_def tape_config_def)
  have f: "fan_inv feeds_ring merger_rest False None (merged (map vpCursor parts)) 8 s0"
    using fan_run_inv [OF st(3) run] by (simp only: cap)
  have l: "length (merged (map vpCursor parts)) < 8" "Suc (length (merged (map vpCursor parts))) < 2 ^ 63" by (simp_all only: st(2), simp_all)
  obtain s1 where s1: "bench_reachable ?paced s0 s1" "sysPc s1 = EmitReturned None" "same_subs (sysRing s0) (sysRing s1)"
    "fan_inv feeds_ring merger_rest False None (merged (map vpCursor parts)) 8 s1"
    using bench_emits_all [OF f l st(4), of ?paced] by blast
  note p = fan_inv_parts [OF s1(4)]
  let ?r = "rMem (sysRing s1)"
  have log: "length (sysLog s1) = 3" using p(1) s1(2) st(2) by (simp add: source_inv_def)
  have mem: "mem_ok 8 (sysLog s1) False ?r" "End ?r = Some (of_nat (length (sysLog s1)))"
    using p(3) s1(2) log by (auto simp: memory_inv_def End_def Let_def)
  have subs: "rSubs (sysRing s1) = [new_subscriber ModeBlock Beginning 0, new_subscriber ModeDrop Beginning 0]"
    using s1(3) st(5) by (simp add: same_subs_def)
  have l8: "length (sysLog s1) < 8" by (simp add: log)
  obtain m0 ds0 where d0: "sbTrace ((sub_step ?r ^^ m0) (new_subscriber ModeBlock Beginning 0)) = map Delivered ds0 @ [EndOfStream]"
    "\<forall>i < m0. list_all is_delivered (sbTrace ((sub_step ?r ^^ i) (new_subscriber ModeBlock Beginning 0)))"
    using drains_all [OF mem(1) l8 mem(2)] by blast
  obtain m1 ds1 where d1: "sbTrace ((sub_step ?r ^^ m1) (new_subscriber ModeDrop Beginning 0)) = map Delivered ds1 @ [EndOfStream]"
    "\<forall>i < m1. list_all is_delivered (sbTrace ((sub_step ?r ^^ i) (new_subscriber ModeDrop Beginning 0)))"
    using drains_all [OF mem(1) l8 mem(2)] by blast
  define u0 where "u0 = (sub_step ?r ^^ m0) (new_subscriber ModeBlock Beginning 0)"
  define u1 where "u1 = (sub_step ?r ^^ m1) (new_subscriber ModeDrop Beginning 0)"
  define s2 where "s2 = on_ring (update_sub 0 (sub_step ?r ^^ m0)) s1"
  have s2: "bench_reachable ?paced s1 s2" "rSubs (sysRing s2) = [u0, new_subscriber ModeDrop Beginning 0]" "rMem (sysRing s2) = ?r"
    "sysPc s2 = EmitReturned None"
    unfolding s2_def using s1(2) subs d0(2)
    by (auto intro!: bench_reads_funpow) (simp_all add: on_ring_def update_sub_def u0_def)
  define s3 where "s3 = on_ring (update_sub 1 (sub_step ?r ^^ m1)) s2"
  have s3: "bench_reachable ?paced s2 s3" "rSubs (sysRing s3) = [u0, u1]" "sysPc s3 = EmitReturned None"
    unfolding s3_def using s2 d1(2) bench_reads_funpow [of 1 s2 m1 ?paced]
    by (simp_all add: on_ring_def update_sub_def u1_def)
  have reach: "bench_reachable ?paced s0 s3" using s1(1) s2(1) s3(1) unfolding bench_reachable_def by (meson rtranclp_trans)
  have cl: "fst (merger_Close (sysSource s3)) = None"
    using bench_reachable_cursors [OF reach] st(6,7) by (auto simp: same_cursors_def merger_Close_def case_prod_unfold Let_def)
  have "drain True u0 \<noteq> None" "snd (the (drain True u0)) = None" "drain True u1 \<noteq> None" "snd (the (drain True u1)) = None"
    using drain_ended [of u0 ds0 True] drain_ended [of u1 ds1 True] d0(1) d1(1) by (simp_all add: u0_def u1_def)
  moreover have "bcHash tape_config" by (simp add: tape_config_def)
  ultimately have "\<exists>res. bench_finish tape_config parts s3 = Some (Inr res)"
    using s3(2,3) cl by (auto simp: bench_finish_def case_prod_unfold Let_def)
  with st(1) reach show thesis using that by blast
qed

theorem bench_exact_witness:
  "\<exists>parts s0 s res. bench_start (\<lambda>_. Inr tape_dir) desk_open tape_config = Some (Inr (parts, s0))
     \<and> bench_reachable (bench_paced tape_config) s0 s \<and> bench_finish tape_config parts s = Some (Inr res)
     \<and> brRecords res = 3 \<and> brEmitted res = 3 \<and> map srReceived (brBlock res) = [3] \<and> map srGaps (brBlock res) = [0]
     \<and> length (brDrop res) = 1"
proof -
  obtain parts s0 s res where r: "bench_start (\<lambda>_. Inr tape_dir) desk_open tape_config = Some (Inr (parts, s0))"
    "bench_reachable (bench_paced tape_config) s0 s" "bench_finish tape_config parts s = Some (Inr res)" by (rule tape_finish)
  have d: "bcDir tape_config = ''data''" "bcBlockSubscribers tape_config = 1" "bcDropSubscribers tape_config = 1" by (simp_all add: tape_config_def)
  have o: "list_all2 (\<lambda>path f. Open desk_open path = Inr (dsReader f) \<and> describe path (dsReader f) = Some f)
      (bin_paths (bcDir tape_config) tape_dir) [tape_file]"
    using tape_ok(2) desk_reader(1) by (simp add: tape_ok(1) d(1)) (simp add: tape_file_def)
  have e: "concat (map bench_files.events [tape_file]) = image_events (sample_events 3)" by (simp add: tape_ok(4))
  have n: "length (image_events (sample_events 3)) = 3" by (simp add: image_events_def sample_events_def)
  have fits: "arena_fits (bench_ring tape_config)" by (simp add: arena_fits_def bench_ring_def tape_config_def)
  have len: "Suc (length (concat (map bench_files.events [tape_file]))) < 2 ^ 63" unfolding e n by simp
  have pay: "list_all (\<lambda>ev. int (length (ev_payload ev)) \<le> bcMaxBlobBytes tape_config) (concat (map bench_files.events [tape_file]))"
    unfolding e by (simp add: image_events_def sample_events_def ev_payload_def levelSize_def tape_config_def)
  have st: "length (bench_stream [tape_file]) = 3" using n desk_merged by (simp add: bench_stream_def tape_ok(4))
  from bench_exact [where os_ReadDir = "\<lambda>_. Inr tape_dir" and os_Open = desk_open, OF refl o tape_ok(3) _ fits len pay r(1,2)] r
  show ?thesis unfolding r(3) e n st d using r(3) by - (rule exI [of _ parts], rule exI [of _ s0], rule exI [of _ s], rule exI [of _ res], simp)
qed

end
