(* ===== verification/Catalogue.thy ===== *)
theory Catalogue
  imports Convert_Path Bench_Open
begin

text \<open>
  The run catalogue, \<^verbatim>\<open>src/cmd/catalogue\<close>: the benchmark result parser and the ingestion of run manifests and
  measurements. SQLite, JSON decoding and floating point are parameters; a string is a list of bytes.
\<close>

section \<open>Text\<close>

definition digit :: "char \<Rightarrow> bool" where
  "digit c \<longleftrightarrow> 48 \<le> (of_char c :: nat) \<and> (of_char c :: nat) \<le> 57"

definition space :: "char \<Rightarrow> bool" where
  "space c \<longleftrightarrow> (of_char c :: nat) \<in> {9, 10, 11, 12, 13, 32}"

function ascii_fields :: "string \<Rightarrow> string list" where
  "ascii_fields [] = []"
| "ascii_fields (c # cs) =
     (if space c then ascii_fields cs
      else (c # takeWhile (\<lambda>c. \<not> space c) cs) # ascii_fields (dropWhile (\<lambda>c. \<not> space c) cs))"
  by pat_completeness auto
termination
  by (relation "measure length") (auto simp: le_imp_less_Suc length_dropWhile_le)

text \<open>\<^verbatim>\<open>strings.Fields\<close>; what it does with text outside ASCII is \<open>fields_unicode\<close>.\<close>

definition strings_Fields :: "(string \<Rightarrow> string list) \<Rightarrow> string \<Rightarrow> string list" where
  "strings_Fields fields_unicode s = (if list_all (\<lambda>c. (of_char c :: nat) < 128) s then ascii_fields s else fields_unicode s)"

text \<open>\<^verbatim>\<open>strconv.ParseInt\<close> with base 10 and 64 bits.\<close>

definition parse_digits :: "string \<Rightarrow> nat option" where
  "parse_digits s = (if s \<noteq> [] \<and> list_all digit s then Some (decimal_value s) else None)"

definition ParseInt :: "string \<Rightarrow> int option" where
  "ParseInt s =
     (let neg = (s \<noteq> [] \<and> hd s = CHR ''-''); s = (if s \<noteq> [] \<and> hd s \<in> {CHR ''+'', CHR ''-''} then tl s else s) in
      case parse_digits s of
        None \<Rightarrow> None
      | Some n \<Rightarrow> if \<not> neg \<and> n \<ge> 2 ^ 63 \<or> neg \<and> n > 2 ^ 63 then None else Some (if neg then - int n else int n))"

text \<open>The lines that \<^verbatim>\<open>bufio.Scanner\<close> gives, and whether it stopped at one too long for its buffer.\<close>

definition MaxScanTokenSize :: nat where "MaxScanTokenSize = 64 * 1024"

definition drop_cr :: "string \<Rightarrow> string" where
  "drop_cr l = (if l \<noteq> [] \<and> last l = CHR 0x0D then butlast l else l)"

function scan_lines :: "string \<Rightarrow> string list \<times> bool" where
  "scan_lines s =
     (if s = [] then ([], False)
      else let l = takeWhile (\<lambda>c. c \<noteq> CHR 0x0A) s; rest = dropWhile (\<lambda>c. c \<noteq> CHR 0x0A) s in
        if length l \<ge> MaxScanTokenSize then ([], True)
        else case scan_lines (tl rest) of (ls, long) \<Rightarrow> (drop_cr l # ls, long))"
  by pat_completeness auto
termination
proof (relation "measure length")
  fix s l rest :: string
  assume "s \<noteq> []" "rest = dropWhile (\<lambda>c. c \<noteq> CHR 0x0A) s"
  then have "length rest \<le> length s" "0 < length s" by (simp_all add: length_dropWhile_le)
  then have "length (tl rest) < length s" unfolding length_tl by linarith
  then show "(tl rest, s) \<in> measure length" by simp
qed simp

declare scan_lines.simps [simp del]

section \<open>Benchmark results\<close>

text \<open>\<^verbatim>\<open>float64\<close>: \<^verbatim>\<open>ParseFloat\<close>, the comparison with zero and the value \<open>-1\<close>.\<close>

record 'f floats =
  flParse :: "string \<Rightarrow> 'f option"
  flNegative :: "'f \<Rightarrow> bool"
  flMinusOne :: 'f

datatype measurement_error = ErrMissingMetric | ErrBadValue

record LineError =
  leLine :: nat
  leText :: string
  leErr :: measurement_error

record 'f Benchmark =
  bmName :: string
  bmGitCommit :: string
  bmSample :: nat
  bmIterations :: int
  bmNsPerOp :: 'f
  bmBytesPerOp :: int
  bmAllocsPerOp :: int
  bmRecordedUnixNano :: int

text \<open>The regular expression \<^verbatim>\<open>-\d+$\<close>, replaced by nothing.\<close>

definition strip_gomaxprocs :: "string \<Rightarrow> string" where
  "strip_gomaxprocs name =
     (let ds = takeWhile digit (rev name); rest = dropWhile digit (rev name) in
      if ds \<noteq> [] \<and> rest \<noteq> [] \<and> hd rest = CHR ''-'' then rev (tl rest) else name)"

fun metric_loop :: "'f floats \<Rightarrow> string list \<Rightarrow> 'f Benchmark \<Rightarrow> measurement_error + 'f Benchmark" where
  "metric_loop fl (value # unit # fs) b =
     (if unit = ''ns/op'' then
        (case flParse fl value of None \<Rightarrow> Inl ErrBadValue | Some f \<Rightarrow> metric_loop fl fs (b\<lparr>bmNsPerOp := f\<rparr>))
      else if unit = ''B/op'' then
        (case ParseInt value of None \<Rightarrow> Inl ErrBadValue | Some n \<Rightarrow> metric_loop fl fs (b\<lparr>bmBytesPerOp := n\<rparr>))
      else if unit = ''allocs/op'' then
        (case ParseInt value of None \<Rightarrow> Inl ErrBadValue | Some n \<Rightarrow> metric_loop fl fs (b\<lparr>bmAllocsPerOp := n\<rparr>))
      else metric_loop fl fs b)"
| "metric_loop fl fs b = Inr b"

definition parse_line :: "'f floats \<Rightarrow> (string \<Rightarrow> string list) \<Rightarrow> string \<Rightarrow> int \<Rightarrow> nat \<Rightarrow> string \<Rightarrow> measurement_error + 'f Benchmark option" where
  "parse_line fl fields_unicode gitCommit recorded sample text =
     (let fs = strings_Fields fields_unicode text in
      if length fs < 2 \<or> take 9 (fs ! 0) \<noteq> ''Benchmark'' then Inr None
      else case ParseInt (fs ! 1) of
          None \<Rightarrow> Inr None
        | Some iterations \<Rightarrow>
            (case metric_loop fl (drop 2 fs) \<lparr>bmName = strip_gomaxprocs (fs ! 0), bmGitCommit = gitCommit,
                 bmSample = sample, bmIterations = iterations, bmNsPerOp = flMinusOne fl, bmBytesPerOp = -1, bmAllocsPerOp = -1,
                 bmRecordedUnixNano = recorded\<rparr> of
               Inl e \<Rightarrow> Inl e
             | Inr b \<Rightarrow>
                 if flNegative fl (bmNsPerOp b) \<or> bmBytesPerOp b < 0 \<or> bmAllocsPerOp b < 0 then Inl ErrMissingMetric
                 else Inr (Some b)))"

primrec line_loop ::
    "'f floats \<Rightarrow> (string \<Rightarrow> string list) \<Rightarrow> string \<Rightarrow> int \<Rightarrow> nat \<Rightarrow> string list \<Rightarrow> 'f Benchmark list \<Rightarrow> LineError + 'f Benchmark list" where
  "line_loop fl fu gitCommit recorded line [] out = Inr out"
| "line_loop fl fu gitCommit recorded line (text # texts) out =
     (case parse_line fl fu gitCommit recorded (length out) text of
        Inl e \<Rightarrow> Inl \<lparr>leLine = line, leText = text, leErr = e\<rparr>
      | Inr None \<Rightarrow> line_loop fl fu gitCommit recorded (line + 1) texts out
      | Inr (Some b) \<Rightarrow> line_loop fl fu gitCommit recorded (line + 1) texts (out @ [b]))"

datatype ingest_error = IngestFile file_error | IngestLine LineError | ErrTooLong | ErrNotManifest string | IngestSQL

text \<open>A reader is its text and the error that ends it.\<close>

definition ParseBenchmarks ::
    "'f floats \<Rightarrow> (string \<Rightarrow> string list) \<Rightarrow> string \<times> file_error option \<Rightarrow> string \<Rightarrow> int \<Rightarrow> ingest_error + 'f Benchmark list" where
  "ParseBenchmarks fl fu r gitCommit recorded =
     (case scan_lines (fst r) of
        (lines, long) \<Rightarrow>
          (case line_loop fl fu gitCommit recorded 1 lines [] of
             Inl e \<Rightarrow> Inl (IngestLine e)
           | Inr out \<Rightarrow>
               if long then Inl ErrTooLong
               else (case snd r of None \<Rightarrow> Inr out | Some e \<Rightarrow> Inl (IngestFile e))))"

text \<open>
  The inserts of one transaction. \<open>sql_exec\<close> is one insert of the database, \<open>sql_begin\<close> and \<open>sql_commit\<close> whether
  the transaction begins and commits; what is not committed is rolled back.
\<close>

primrec insert_all :: "('db \<Rightarrow> 'row \<Rightarrow> 'db option) \<Rightarrow> 'row list \<Rightarrow> 'db \<Rightarrow> 'db option" where
  "insert_all sql_exec [] db = Some db"
| "insert_all sql_exec (row # rows) db =
     (case sql_exec db row of None \<Rightarrow> None | Some db \<Rightarrow> insert_all sql_exec rows db)"

definition IngestBenchmarks ::
    "'f floats \<Rightarrow> (string \<Rightarrow> string list) \<Rightarrow> ('db \<Rightarrow> 'f Benchmark \<Rightarrow> 'db option) \<Rightarrow> bool \<Rightarrow> bool \<Rightarrow>
     file_error + int \<Rightarrow> file_error + string \<times> file_error option \<Rightarrow> string \<Rightarrow> 'db \<Rightarrow> (ingest_error + 'f Benchmark list) \<times> 'db" where
  "IngestBenchmarks fl fu sql_exec sql_begin sql_commit stat openRes gitCommit db =
     (case (stat, openRes) of
        (Inl e, _) \<Rightarrow> (Inl (IngestFile e), db)
      | (Inr modTime, Inl e) \<Rightarrow> (Inl (IngestFile e), db)
      | (Inr modTime, Inr f) \<Rightarrow>
          (case ParseBenchmarks fl fu f gitCommit modTime of
             Inl e \<Rightarrow> (Inl e, db)
           | Inr benchmarks \<Rightarrow>
               if \<not> sql_begin then (Inl IngestSQL, db)
               else (case insert_all sql_exec benchmarks db of
                   None \<Rightarrow> (Inl IngestSQL, db)
                 | Some db' \<Rightarrow> if sql_commit then (Inr benchmarks, db') else (Inl IngestSQL, db))))"

section \<open>Run manifests\<close>

record ManifestDatasetFile =
  mdPath :: string
  mdHash :: string

record CatalogueManifest =
  cmDataset :: "ManifestDatasetFile list"
  cmConfig :: string
  cmCanonicalHash :: string
  cmStartedUnixNano :: i64
  cmElapsedNanos :: i64

record RunRow =
  rwRunID :: string
  rwDatasetHash :: bytes
  rwConfig :: string
  rwCanonicalHash :: string
  rwStartedUnixNano :: i64
  rwElapsedNanos :: i64

definition text_bytes :: "string \<Rightarrow> bytes" where
  "text_bytes s = map of_char s"

definition dataset_text :: "ManifestDatasetFile list \<Rightarrow> string" where
  "dataset_text fs = concat (map (\<lambda>f. mdPath f @ [CHR 0x09] @ mdHash f @ [CHR 0x0A]) fs)"

definition DatasetHash :: "ManifestDatasetFile list \<Rightarrow> bytes" where
  "DatasetHash fs = hex_EncodeToString (sha256 (text_bytes (dataset_text fs)))"

text \<open>\<^verbatim>\<open>filepath.Base\<close> of a path that does not end in a slash, and \<^verbatim>\<open>strings.TrimSuffix\<close>.\<close>

definition filepath_Base :: "string \<Rightarrow> string" where
  "filepath_Base path = rev (takeWhile (\<lambda>c. c \<noteq> CHR ''/'') (rev path))"

definition TrimSuffix :: "string \<Rightarrow> string \<Rightarrow> string" where
  "TrimSuffix s suffix =
     (if length suffix \<le> length s \<and> drop (length s - length suffix) s = suffix then take (length s - length suffix) s else s)"

definition run_row :: "string \<Rightarrow> CatalogueManifest \<Rightarrow> RunRow" where
  "run_row path m =
     \<lparr>rwRunID = TrimSuffix (filepath_Base path) (filepath_Ext path), rwDatasetHash = DatasetHash (cmDataset m),
      rwConfig = (if cmConfig m = [] then ''{}'' else cmConfig m), rwCanonicalHash = cmCanonicalHash m,
      rwStartedUnixNano = cmStartedUnixNano m, rwElapsedNanos = cmElapsedNanos m\<rparr>"

definition IngestManifest ::
    "files \<Rightarrow> (bytes \<Rightarrow> CatalogueManifest option) \<Rightarrow> ('db \<Rightarrow> RunRow \<Rightarrow> 'db option) \<Rightarrow>
     string \<Rightarrow> 'db \<Rightarrow> (ingest_error + RunRow) \<times> 'db" where
  "IngestManifest fs json_Unmarshal sql_exec path db =
     (case os_ReadFile fs path of
        Inl e \<Rightarrow> (Inl (IngestFile e), db)
      | Inr b \<Rightarrow>
        (case json_Unmarshal b of
           None \<Rightarrow> (Inl (ErrNotManifest (filepath_Base path)), db)
         | Some m \<Rightarrow>
           (case sql_exec db (run_row path m) of
              None \<Rightarrow> (Inl IngestSQL, db)
            | Some db' \<Rightarrow> (Inr (run_row path m), db'))))"

primrec manifest_loop ::
    "files \<Rightarrow> (bytes \<Rightarrow> CatalogueManifest option) \<Rightarrow> ('db \<Rightarrow> RunRow \<Rightarrow> 'db option) \<Rightarrow>
     string \<Rightarrow> string list \<Rightarrow> RunRow list \<Rightarrow> 'db \<Rightarrow> (ingest_error + RunRow list) \<times> 'db" where
  "manifest_loop fs json_Unmarshal sql_exec dir [] runs db = (Inr runs, db)"
| "manifest_loop fs json_Unmarshal sql_exec dir (name # names) runs db =
     (case IngestManifest fs json_Unmarshal sql_exec (filepath_Join dir name) db of
        (Inl e, db) \<Rightarrow> (Inl e, db)
      | (Inr run, db) \<Rightarrow> manifest_loop fs json_Unmarshal sql_exec dir names (runs @ [run]) db)"

definition json_names :: "direntry list \<Rightarrow> string list" where
  "json_names es = map deName (filter (\<lambda>e. \<not> deIsDir e \<and> filepath_Ext (deName e) = ''.json'') es)"

definition IngestManifests ::
    "(string \<Rightarrow> file_error + direntry list) \<Rightarrow> files \<Rightarrow> (bytes \<Rightarrow> CatalogueManifest option) \<Rightarrow>
     ('db \<Rightarrow> RunRow \<Rightarrow> 'db option) \<Rightarrow> string \<Rightarrow> 'db \<Rightarrow> (ingest_error + RunRow list) \<times> 'db" where
  "IngestManifests os_ReadDir fs json_Unmarshal sql_exec dir db =
     (case os_ReadDir dir of
        Inl e \<Rightarrow> (Inl (IngestFile e), db)
      | Inr entries \<Rightarrow> manifest_loop fs json_Unmarshal sql_exec dir (sort (json_names entries)) [] db)"

end
