(* ===== verification/Catalogue_Correct.thy ===== *)
theory Catalogue_Correct
  imports Catalogue
begin

text \<open>
  What the catalogue stores: exactly the measurements of a result file and exactly the runs of a directory.
\<close>

section \<open>Numbers and words\<close>

lemma decimal_is_digits: "list_all digit (decimal n) \<and> decimal n \<noteq> []"
proof (induction n rule: decimal.induct)
  case (1 n)
  have "digit (char_of (48 + n mod 10))"
  proof -
    have "n mod 10 < 10" by simp
    then have "(48 + n mod 10) mod 256 = 48 + n mod 10" by simp
    then show ?thesis using \<open>n mod 10 < 10\<close> by (simp add: digit_def)
  qed
  then show ?case using 1 by (subst (1 2) decimal.simps) simp
qed

lemma digit_not: "digit c \<Longrightarrow> \<not> space c" "digit c \<Longrightarrow> (of_char c :: nat) < 128" "digit c \<Longrightarrow> c \<notin> {CHR ''+'', CHR ''-''}"
  by (auto simp: digit_def space_def)

lemma ParseInt_decimal: "n < 2 ^ 63 \<Longrightarrow> ParseInt (decimal n) = Some (int n)"
proof -
  assume n: "n < 2 ^ 63"
  have d: "list_all digit (decimal n)" "decimal n \<noteq> []" using decimal_is_digits by blast+
  then have "digit (hd (decimal n))" by (cases "decimal n") simp_all
  then have h: "hd (decimal n) \<noteq> CHR ''-''" "hd (decimal n) \<noteq> CHR ''+''" using digit_not(3) by blast+
  have "parse_digits (decimal n) = Some n" using d by (simp add: parse_digits_def decimal_value_decimal)
  then show ?thesis using n h d(2) by (simp add: ParseInt_def Let_def)
qed

lemma digits_split:
  assumes "d \<noteq> []" "list_all digit d"
  shows "takeWhile digit (rev (name @ CHR ''-'' # d)) = rev d" "dropWhile digit (rev (name @ CHR ''-'' # d)) = CHR ''-'' # rev name"
proof -
  have m: "\<not> digit CHR ''-''" by (simp add: digit_def)
  show "takeWhile digit (rev (name @ CHR ''-'' # d)) = rev d" "dropWhile digit (rev (name @ CHR ''-'' # d)) = CHR ''-'' # rev name"
    using assms m by (simp_all add: list_all_iff takeWhile_append dropWhile_append)
qed

lemma strip_gomaxprocs_suffix:
  assumes "d \<noteq> []" "list_all digit d"
  shows "strip_gomaxprocs (name @ CHR ''-'' # d) = name"
  unfolding strip_gomaxprocs_def Let_def digits_split [OF assms] using assms(1) by simp

text \<open>A name that does not end as if the number of processors followed it.\<close>

definition bare :: "string \<Rightarrow> bool" where
  "bare name \<longleftrightarrow> (\<nexists>base d. name = base @ CHR ''-'' # d \<and> d \<noteq> [] \<and> list_all digit d)"

lemma strip_gomaxprocs_none:
  assumes "bare name"
  shows "strip_gomaxprocs name = name"
proof (rule ccontr)
  let ?ds = "takeWhile digit (rev name)" and ?rest = "dropWhile digit (rev name)"
  assume "strip_gomaxprocs name \<noteq> name"
  then have c: "?ds \<noteq> []" "?rest \<noteq> []" "hd ?rest = CHR ''-''" by (auto simp: strip_gomaxprocs_def Let_def split: if_splits)
  then obtain r where r: "?rest = CHR ''-'' # r" by (metis list.collapse)
  have "rev name = ?ds @ CHR ''-'' # r" unfolding r [symmetric] by simp
  then have "name = rev r @ CHR ''-'' # rev ?ds" by (metis append.assoc append_Cons append_Nil rev.simps(2) rev_append rev_rev_ident)
  moreover have "list_all digit (rev ?ds)" by (auto simp: list_all_iff dest: set_takeWhileD)
  ultimately show False using assms c(1) unfolding bare_def by (metis rev_is_Nil_conv)
qed

lemma bare_code [code]: "bare name \<longleftrightarrow> strip_gomaxprocs name = name"
proof
  assume s: "strip_gomaxprocs name = name"
  show "bare name" unfolding bare_def
  proof (intro notI, elim exE conjE)
    fix base d
    assume d: "name = base @ CHR ''-'' # d" "d \<noteq> []" "list_all digit d"
    have "strip_gomaxprocs name = base" unfolding d(1) by (rule strip_gomaxprocs_suffix [OF d(2,3)])
    then show False using s d(1) by simp
  qed
qed (rule strip_gomaxprocs_none)

definition word_text :: "string \<Rightarrow> bool" where
  "word_text w \<longleftrightarrow> w \<noteq> [] \<and> list_all (\<lambda>c. \<not> space c \<and> (of_char c :: nat) < 128) w"

lemma word_decimal: "word_text (decimal n)"
  using decimal_is_digits [of n] digit_not(1,2) by (auto simp: word_text_def list_all_iff)

lemma word_append: "word_text v \<Longrightarrow> list_all (\<lambda>c. \<not> space c \<and> (of_char c :: nat) < 128) w \<Longrightarrow> word_text (v @ w)"
  by (simp add: word_text_def)

lemma fields_word: "word_text w \<Longrightarrow> space c \<Longrightarrow> ascii_fields (w @ c # s) = w # ascii_fields s"
proof -
  assume w: "word_text w" and c: "space c"
  then obtain a v where v: "w = a # v" "\<not> space a" "\<forall>c \<in> set v. \<not> space c" by (cases w) (auto simp: word_text_def list_all_iff)
  then have "takeWhile (\<lambda>c. \<not> space c) (v @ c # s) = v" "dropWhile (\<lambda>c. \<not> space c) (v @ c # s) = c # s"
    using c by (simp_all add: takeWhile_append dropWhile_append)
  then show ?thesis using v c by simp
qed

lemma fields_last: "word_text w \<Longrightarrow> ascii_fields w = [w]"
proof -
  assume "word_text w"
  then obtain a v where v: "w = a # v" "\<not> space a" "\<forall>c \<in> set v. \<not> space c" by (cases w) (auto simp: word_text_def list_all_iff)
  then have "takeWhile (\<lambda>c. \<not> space c) v = v" "dropWhile (\<lambda>c. \<not> space c) v = []" by simp_all
  then show ?thesis unfolding v(1) using v(2) by (simp only: ascii_fields.simps if_False)
qed

text \<open>Words with blanks after them; between two words there is at least one blank.\<close>

definition tab_or_space :: "char \<Rightarrow> bool" where
  "tab_or_space c \<longleftrightarrow> c = CHR '' '' \<or> c = CHR 0x09"

fun words_line :: "(string \<times> string) list \<Rightarrow> string" where
  "words_line [] = []"
| "words_line ((v, gap) # ws) = v @ gap @ words_line ws"

fun line_ok :: "(string \<times> string) list \<Rightarrow> bool" where
  "line_ok [] \<longleftrightarrow> True"
| "line_ok ((v, gap) # ws) \<longleftrightarrow> word_text v \<and> list_all tab_or_space gap \<and> (ws \<noteq> [] \<longrightarrow> gap \<noteq> []) \<and> line_ok ws"

lemma fields_blanks: "list_all tab_or_space gap \<Longrightarrow> ascii_fields (gap @ s) = ascii_fields s"
  by (induction gap) (auto simp: space_def tab_or_space_def)

lemma fields_line: "line_ok ws \<Longrightarrow> ascii_fields (words_line ws) = map fst ws"
proof (induction ws rule: line_ok.induct)
  case (2 v gap ws)
  show ?case
  proof (cases gap)
    case Nil
    then show ?thesis using 2 by (simp add: fields_last)
  next
    case (Cons c g)
    then have g: "space c" "list_all tab_or_space g" using 2 by (auto simp: space_def tab_or_space_def)
    have "ascii_fields (v @ c # (g @ words_line ws)) = v # ascii_fields (g @ words_line ws)"
      by (rule fields_word) (use 2 g(1) in auto)
    then show ?thesis using 2 fields_blanks [OF g(2)] by (simp add: Cons)
  qed
qed simp

definition plain_char :: "char \<Rightarrow> bool" where
  "plain_char c \<longleftrightarrow> c \<noteq> CHR 0x0A \<and> c \<noteq> CHR 0x0D \<and> (of_char c :: nat) < 128"

lemma plain_word: "word_text w \<Longrightarrow> list_all plain_char w"
proof -
  have "plain_char c" if "\<not> space c" "(of_char c :: nat) < 128" for c
  proof -
    have "space CHR 0x0A" "space CHR 0x0D" by (simp_all add: space_def)
    then show ?thesis unfolding plain_char_def using that by blast
  qed
  then show "word_text w \<Longrightarrow> list_all plain_char w" unfolding word_text_def list_all_iff by blast
qed

lemma plain_blanks: "list_all tab_or_space gap \<Longrightarrow> list_all plain_char gap"
proof -
  have p: "plain_char CHR '' ''" "plain_char CHR 0x09" by (simp_all add: plain_char_def)
  have "plain_char c" if "tab_or_space c" for c
    using that unfolding tab_or_space_def by (elim disjE) (simp_all only: p)
  then show "list_all tab_or_space gap \<Longrightarrow> list_all plain_char gap" by (elim list.pred_mono_strong)
qed

lemma line_plain: "line_ok ws \<Longrightarrow> list_all plain_char (words_line ws)"
  by (induction ws rule: line_ok.induct) (simp_all add: plain_word plain_blanks)

lemma Fields_line:
  assumes "list_all tab_or_space lead" "line_ok ws"
  shows "strings_Fields fu (lead @ words_line ws) = map fst ws" "list_all plain_char (lead @ words_line ws)"
proof -
  show p: "list_all plain_char (lead @ words_line ws)" using plain_blanks [OF assms(1)] line_plain [OF assms(2)] by simp
  have "strings_Fields fu (lead @ words_line ws) = ascii_fields (lead @ words_line ws)"
    unfolding strings_Fields_def by (rule if_P) (rule list.pred_mono_strong [OF p], simp add: plain_char_def)
  then show "strings_Fields fu (lead @ words_line ws) = map fst ws"
    using fields_blanks [OF assms(1)] fields_line [OF assms(2)] by simp
qed

section \<open>Lines\<close>

definition text_line :: "string \<Rightarrow> bool" where
  "text_line l \<longleftrightarrow> list_all plain_char l \<and> length l < MaxScanTokenSize"

lemma scan_lines_text: "list_all text_line ls \<Longrightarrow> scan_lines (concat (map (\<lambda>l. l @ [CHR 0x0A]) ls)) = (ls, False)"
proof (induction ls)
  case Nil
  show ?case by (subst scan_lines.simps) simp
next
  case (Cons l ls)
  let ?rest = "concat (map (\<lambda>l. l @ [CHR 0x0A]) ls)"
  have p: "\<forall>c \<in> set l. c \<noteq> CHR 0x0A" "drop_cr l = l" "\<not> MaxScanTokenSize \<le> length l"
    using Cons.prems by (auto simp: text_line_def list_all_iff plain_char_def drop_cr_def dest!: last_in_set)
  have "takeWhile (\<lambda>c. c \<noteq> CHR 0x0A) (l @ CHR 0x0A # ?rest) = l" "dropWhile (\<lambda>c. c \<noteq> CHR 0x0A) (l @ CHR 0x0A # ?rest) = CHR 0x0A # ?rest"
    using p(1) by (simp_all add: takeWhile_append dropWhile_append)
  then show ?case using Cons p by (subst scan_lines.simps) (simp add: Let_def)
qed

section \<open>Result files\<close>

text \<open>A measurement as \<^verbatim>\<open>go test -bench\<close> prints it: a name, with or without the number of processors, the
  iterations, and any columns of a value and a unit in any order, whatever the units are. \<open>rlLead\<close> are the blanks
  before the name and \<open>rlGaps\<close> those after each word.\<close>

record result_line =
  rlLead :: string
  rlName :: string
  rlProcs :: "string option"
  rlIterations :: string
  rlColumns :: "(string \<times> string) list"
  rlGaps :: "string list"

text \<open>Any other line is \<open>Chatter\<close>: its leading blanks and its words.\<close>

datatype out_line = Chatter string "(string \<times> string) list" | Result result_line

definition printed_name :: "result_line \<Rightarrow> string" where
  "printed_name l = rlName l @ (case rlProcs l of None \<Rightarrow> [] | Some n \<Rightarrow> CHR ''-'' # n)"

definition result_words :: "result_line \<Rightarrow> string list" where
  "result_words l = printed_name l # rlIterations l # concat (map (\<lambda>(value, unit). [value, unit]) (rlColumns l))"

fun out_line_text :: "out_line \<Rightarrow> string" where
  "out_line_text (Chatter lead ws) = lead @ words_line ws"
| "out_line_text (Result l) = rlLead l @ words_line (zip (result_words l) (rlGaps l))"

text \<open>A measurement names a benchmark and counts its iterations; chatter does not. A name printed without the
  number of processors is \<open>bare\<close>.\<close>

fun out_line_ok :: "out_line \<Rightarrow> bool" where
  "out_line_ok (Chatter lead ws) \<longleftrightarrow> list_all tab_or_space lead \<and> line_ok ws \<and> length (out_line_text (Chatter lead ws)) < MaxScanTokenSize
     \<and> (case map fst ws of name # iterations # _ \<Rightarrow> take 9 name \<noteq> ''Benchmark'' \<or> ParseInt iterations = None | _ \<Rightarrow> True)"
| "out_line_ok (Result l) \<longleftrightarrow> list_all tab_or_space (rlLead l) \<and> line_ok (zip (result_words l) (rlGaps l))
     \<and> length (rlGaps l) = length (result_words l) \<and> length (out_line_text (Result l)) < MaxScanTokenSize
     \<and> take 9 (rlName l) = ''Benchmark'' \<and> ParseInt (rlIterations l) \<noteq> None
     \<and> (case rlProcs l of
          None \<Rightarrow> bare (rlName l)
        | Some d \<Rightarrow> d \<noteq> [] \<and> list_all digit d)"

text \<open>The value of a unit, the last column's when there are several.\<close>

fun metric :: "string \<Rightarrow> (string \<times> string) list \<Rightarrow> string option" where
  "metric u [] = None"
| "metric u ((value, unit) # cols) =
     (case metric u cols of Some v \<Rightarrow> Some v | None \<Rightarrow> if unit = u then Some value else None)"

text \<open>What is wrong with a measurement: one of the three values is not a number, or one of them is missing or
  negative.\<close>

definition bad_column :: "'f floats \<Rightarrow> string \<times> string \<Rightarrow> bool" where
  "bad_column fl = (\<lambda>(value, unit). unit = ''ns/op'' \<and> flParse fl value = None
     \<or> (unit = ''B/op'' \<or> unit = ''allocs/op'') \<and> ParseInt value = None)"

definition short_float :: "'f floats \<Rightarrow> string option \<Rightarrow> bool" where
  "short_float fl v \<longleftrightarrow> (case v of None \<Rightarrow> True | Some v \<Rightarrow> flNegative fl (the (flParse fl v)))"

definition short_int :: "string option \<Rightarrow> bool" where
  "short_int v \<longleftrightarrow> (case v of None \<Rightarrow> True | Some v \<Rightarrow> the (ParseInt v) < 0)"

fun fault :: "'f floats \<Rightarrow> out_line \<Rightarrow> measurement_error option" where
  "fault fl (Chatter lead ws) = None"
| "fault fl (Result l) =
     (if \<exists>c \<in> set (rlColumns l). bad_column fl c then Some ErrBadValue
      else if short_float fl (metric ''ns/op'' (rlColumns l)) \<or> short_int (metric ''B/op'' (rlColumns l))
        \<or> short_int (metric ''allocs/op'' (rlColumns l)) then Some ErrMissingMetric
      else None)"

definition row_of :: "'f floats \<Rightarrow> string \<Rightarrow> int \<Rightarrow> nat \<Rightarrow> result_line \<Rightarrow> 'f Benchmark" where
  "row_of fl commit recorded sample l =
     \<lparr>bmName = rlName l, bmGitCommit = commit, bmSample = sample, bmIterations = the (ParseInt (rlIterations l)),
      bmNsPerOp = the (flParse fl (the (metric ''ns/op'' (rlColumns l)))),
      bmBytesPerOp = the (ParseInt (the (metric ''B/op'' (rlColumns l)))),
      bmAllocsPerOp = the (ParseInt (the (metric ''allocs/op'' (rlColumns l)))), bmRecordedUnixNano = recorded\<rparr>"

fun measured :: "'f floats \<Rightarrow> string \<Rightarrow> int \<Rightarrow> nat \<Rightarrow> out_line list \<Rightarrow> 'f Benchmark list" where
  "measured fl commit recorded sample [] = []"
| "measured fl commit recorded sample (Chatter lead ws # outs) = measured fl commit recorded sample outs"
| "measured fl commit recorded sample (Result l # outs) =
     row_of fl commit recorded sample l # measured fl commit recorded (Suc sample) outs"

lemma metric_unit: "metric u cols = Some v \<Longrightarrow> (v, u) \<in> set cols"
  by (induction u cols rule: metric.induct) (auto split: option.splits if_splits)

definition float_or :: "'f floats \<Rightarrow> 'f \<Rightarrow> string option \<Rightarrow> 'f" where
  "float_or fl d v = (case v of None \<Rightarrow> d | Some v \<Rightarrow> the (flParse fl v))"

definition int_or :: "int \<Rightarrow> string option \<Rightarrow> int" where
  "int_or d v = (case v of None \<Rightarrow> d | Some v \<Rightarrow> the (ParseInt v))"

lemma metric_loop_eq:
  "metric_loop fl (concat (map (\<lambda>(value, unit). [value, unit]) cols)) b =
     (if \<exists>c \<in> set cols. bad_column fl c then Inl ErrBadValue
      else Inr (b\<lparr>bmNsPerOp := float_or fl (bmNsPerOp b) (metric ''ns/op'' cols),
          bmBytesPerOp := int_or (bmBytesPerOp b) (metric ''B/op'' cols),
          bmAllocsPerOp := int_or (bmAllocsPerOp b) (metric ''allocs/op'' cols)\<rparr>))"
proof (induction cols arbitrary: b)
  case Nil
  show ?case by (simp add: float_or_def int_or_def)
next
  case (Cons c cols)
  obtain v u where c: "c = (v, u)" by fastforce
  have d: "''ns/op'' \<noteq> ''B/op''" "''ns/op'' \<noteq> ''allocs/op''" "''B/op'' \<noteq> ''allocs/op''" by simp_all
  consider "u = ''ns/op''" | "u = ''B/op''" | "u = ''allocs/op''"
    | "u \<noteq> ''ns/op''" "u \<noteq> ''B/op''" "u \<noteq> ''allocs/op''" by blast
  then show ?case
  proof cases
    case 1
    then show ?thesis using Cons d by (cases "flParse fl v") (auto simp: c bad_column_def float_or_def int_or_def split: option.splits)
  next
    case 2
    then show ?thesis using Cons d by (cases "ParseInt v") (auto simp: c bad_column_def float_or_def int_or_def split: option.splits)
  next
    case 3
    then show ?thesis using Cons d by (cases "ParseInt v") (auto simp: c bad_column_def float_or_def int_or_def split: option.splits)
  next
    case 4
    then show ?thesis using Cons by (auto simp: c bad_column_def split: option.splits)
  qed
qed

lemma strip_printed: "out_line_ok (Result l) \<Longrightarrow> strip_gomaxprocs (printed_name l) = rlName l"
  by (cases "rlProcs l") (simp_all add: printed_name_def strip_gomaxprocs_none strip_gomaxprocs_suffix)

lemma take_name: "length a \<le> length n \<Longrightarrow> take (length a) n = a \<Longrightarrow> take (length a) (n @ m) = a"
  by simp

lemma parse_result:
  assumes "out_line_ok (Result l)" "flNegative fl (flMinusOne fl)"
  shows "parse_line fl fu commit recorded sample (out_line_text (Result l)) =
     (case fault fl (Result l) of Some e \<Rightarrow> Inl e | None \<Rightarrow> Inr (Some (row_of fl commit recorded sample l)))"
proof -
  have f: "strings_Fields fu (out_line_text (Result l)) = result_words l"
    using Fields_line(1) [of "rlLead l" "zip (result_words l) (rlGaps l)"] assms(1) by simp
  have w: "take 9 (printed_name l) = ''Benchmark''"
  proof -
    have "take 9 (rlName l) = ''Benchmark''" using assms(1) by simp
    moreover from this have "length ''Benchmark'' \<le> length (rlName l)" by (metis length_take min.cobounded1)
    moreover have "length ''Benchmark'' = 9" by simp
    ultimately show ?thesis unfolding printed_name_def using take_name [of "''Benchmark''" "rlName l"] by simp
  qed
  obtain n where n: "ParseInt (rlIterations l) = Some n" using assms(1) by auto
  note s = strip_printed [OF assms(1)]
  show ?thesis
    unfolding parse_line_def f Let_def
    using assms(2) w s n
    by (simp add: result_words_def metric_loop_eq del: out_line_text.simps)
      (auto simp: row_of_def float_or_def int_or_def short_float_def short_int_def split: option.splits)
qed

lemma parse_chatter:
  assumes "out_line_ok (Chatter lead ws)"
  shows "parse_line fl fu commit recorded sample (out_line_text (Chatter lead ws)) = Inr None"
proof -
  have f: "strings_Fields fu (out_line_text (Chatter lead ws)) = map fst ws" using Fields_line(1) assms by simp
  have "length (map fst ws) < 2 \<or> take 9 (map fst ws ! 0) \<noteq> ''Benchmark'' \<or> ParseInt (map fst ws ! 1) = None"
    using assms by (auto split: list.splits)
  then show ?thesis unfolding parse_line_def f Let_def by auto
qed

lemma line_loop_measured:
  assumes "list_all out_line_ok outs" "\<forall>x \<in> set outs. fault fl x = None" "flNegative fl (flMinusOne fl)"
  shows "line_loop fl fu commit recorded n (map out_line_text outs @ rest) done =
    line_loop fl fu commit recorded (n + length outs) rest (done @ measured fl commit recorded (length done) outs)"
  using assms(1,2)
proof (induction outs arbitrary: n "done")
  case (Cons x outs)
  show ?case
  proof (cases x)
    case (Chatter lead ws)
    have "out_line_ok (Chatter lead ws)" using Cons.prems(1) by (simp add: Chatter del: out_line_ok.simps)
    then show ?thesis using Cons by (simp add: Chatter parse_chatter del: out_line_text.simps out_line_ok.simps)
  next
    case (Result l)
    have "out_line_ok (Result l)" "fault fl (Result l) = None"
      using Cons.prems by (simp_all add: Result del: out_line_ok.simps fault.simps)
    then show ?thesis using Cons
      by (simp add: Result parse_result [OF _ assms(3)] del: out_line_text.simps out_line_ok.simps fault.simps)
  qed
qed simp

lemma out_line_plain:
  assumes "out_line_ok x"
  shows "text_line (out_line_text x)"
  using assms Fields_line(2) by (cases x) (auto simp: text_line_def)

text \<open>C35: The benchmark history holds exactly what was measured. Of the output of \<^verbatim>\<open>go test -bench -benchmem\<close>, every
  measurement is parsed to its numbers, with the parallelism taken off its name when it is printed, in file
  order and numbered from zero. Columns of other units, in any place, and lines that are no measurement leave
  no trace, whatever the blanks before, between and after the words are. The first measurement that lacks
  one of the three metrics, or has one that is not a number, rejects the file with its line number, its text
  and which of the two it is.\<close>

theorem ParseBenchmarks_exact:
  assumes "list_all out_line_ok outs" and "flNegative fl (flMinusOne fl)"
  shows "((\<forall>x \<in> set outs. fault fl x = None) \<longrightarrow>
      ParseBenchmarks fl fu (concat (map (\<lambda>x. out_line_text x @ [CHR 0x0A]) outs), None) commit recorded
        = Inr (measured fl commit recorded 0 outs))
    \<and> (\<forall>i e. i < length outs \<and> (\<forall>x \<in> set (take i outs). fault fl x = None) \<and> fault fl (outs ! i) = Some e \<longrightarrow>
      ParseBenchmarks fl fu (concat (map (\<lambda>x. out_line_text x @ [CHR 0x0A]) outs), None) commit recorded
        = Inl (IngestLine \<lparr>leLine = i + 1, leText = out_line_text (outs ! i), leErr = e\<rparr>))"
proof -
  have "list_all text_line (map out_line_text outs)" using assms(1) out_line_plain by (auto simp: list_all_iff)
  from scan_lines_text [OF this]
  have s: "scan_lines (concat (map (\<lambda>x. out_line_text x @ [CHR 0x0A]) outs)) = (map out_line_text outs, False)" by (simp add: comp_def)
  have bad: "line_loop fl fu commit recorded 1 (map out_line_text outs) [] = Inl \<lparr>leLine = i + 1, leText = out_line_text (outs ! i), leErr = e\<rparr>"
    if i: "i < length outs" and f: "\<forall>x \<in> set (take i outs). fault fl x = None" "fault fl (outs ! i) = Some e" for i e
  proof -
    have ok: "list_all out_line_ok (take i outs)" "out_line_ok (outs ! i)"
      using assms(1) i by (auto simp: list_all_iff dest: in_set_takeD)
    obtain l where l: "outs ! i = Result l" using f(2) by (cases "outs ! i") simp_all
    have "map out_line_text outs = map out_line_text (take i outs) @ out_line_text (outs ! i) # map out_line_text (drop (Suc i) outs)"
      by (metis i id_take_nth_drop list.map(2) map_append)
    then show ?thesis
      using f(2) i
      by (simp add: l line_loop_measured [OF ok(1) f(1) assms(2)] parse_result [OF ok(2) [unfolded l] assms(2)] del: out_line_text.simps out_line_ok.simps fault.simps)
  qed
  have good: "line_loop fl fu commit recorded 1 (map out_line_text outs) [] = Inr (measured fl commit recorded 0 outs)"
    if "\<forall>x \<in> set outs. fault fl x = None"
    using line_loop_measured [OF assms(1) that assms(2), where rest = "[]"] by simp
  have p: "ParseBenchmarks fl fu (concat (map (\<lambda>x. out_line_text x @ [CHR 0x0A]) outs), None) commit recorded
      = (case line_loop fl fu commit recorded 1 (map out_line_text outs) [] of Inl e \<Rightarrow> Inl (IngestLine e) | Inr out \<Rightarrow> Inr out)"
    unfolding ParseBenchmarks_def by (simp add: s split: sum.split)
  show ?thesis unfolding p
    by (intro conjI allI impI; (elim conjE)?) (simp_all only: good bad sum.case)
qed

definition sample_floats :: "string floats" where
  "sample_floats = \<lparr>flParse = (\<lambda>s. Some s), flNegative = (\<lambda>s. s = ''-1''), flMinusOne = ''-1''\<rparr>"

text \<open>Lines of \<^verbatim>\<open>bench/baseline.txt\<close>, and one without \<^verbatim>\<open>-benchmem\<close>.\<close>

definition sample_chatter :: "(string \<times> string) list" where
  "sample_chatter = [(''cpu:'', '' ''), (''EPYC'', ''  '')]"

definition sample_result :: result_line where
  "sample_result = \<lparr>rlLead = [], rlName = ''BenchmarkPacingAccuracy'', rlProcs = Some ''4'', rlIterations = ''1'',
     rlColumns = [(''1000205617'', ''ns/op''), (''1055686'', ''max_late_ns''), (''448'', ''B/op''), (''1'', ''allocs/op'')],
     rlGaps = replicate 9 '' '' @ [[]]\<rparr>"

definition short_result :: result_line where
  "short_result = \<lparr>rlLead = '' '', rlName = ''BenchmarkRingRead'', rlProcs = None, rlIterations = ''5'',
     rlColumns = [(''21.19'', ''ns/op'')], rlGaps = replicate 4 '' ''\<rparr>"

lemma sample_numbers: "ParseInt ''1'' = Some 1" "ParseInt ''5'' = Some 5" "ParseInt ''448'' = Some 448"
  by (simp_all add: ParseInt_def parse_digits_def digit_def decimal_value_def)

lemma sample_lines_ok: "out_line_ok (Chatter [] sample_chatter)" "out_line_ok (Result sample_result)" "out_line_ok (Result short_result)"
proof -
  have c: "line_ok sample_chatter" "length (words_line sample_chatter) = 11" "take 9 ''cpu:'' \<noteq> ''Benchmark''" by code_simp+
  then show "out_line_ok (Chatter [] sample_chatter)" by (simp add: MaxScanTokenSize_def sample_chatter_def)
  have r: "list_all tab_or_space (rlLead sample_result)" "line_ok (zip (result_words sample_result) (rlGaps sample_result))"
    "length (rlGaps sample_result) = length (result_words sample_result)" "length (out_line_text (Result sample_result)) = 85"
    "take 9 (rlName sample_result) = ''Benchmark''" by code_simp+
  have i: "ParseInt (rlIterations sample_result) \<noteq> None" "ParseInt (rlIterations short_result) \<noteq> None"
    by (simp_all add: sample_result_def short_result_def sample_numbers)
  have d: "rlProcs sample_result = Some ''4''" "list_all digit ''4''" by code_simp+
  show "out_line_ok (Result sample_result)"
    unfolding out_line_ok.simps d(1) option.case using r i d(2) by (simp add: MaxScanTokenSize_def del: out_line_text.simps)
  have s: "list_all tab_or_space (rlLead short_result)" "line_ok (zip (result_words short_result) (rlGaps short_result))"
    "length (rlGaps short_result) = length (result_words short_result)" "length (out_line_text (Result short_result)) = 33"
    "take 9 (rlName short_result) = ''Benchmark''" by code_simp+
  have b: "rlProcs short_result = None" "bare (rlName short_result)" by code_simp+
  show "out_line_ok (Result short_result)"
    unfolding out_line_ok.simps b(1) option.case using s i b(2) by (simp add: MaxScanTokenSize_def del: out_line_text.simps)
qed

theorem ParseBenchmarks_exact_witness:
  "ParseBenchmarks sample_floats (\<lambda>_. []) (concat (map (\<lambda>x. out_line_text x @ [CHR 0x0A]) [Chatter [] sample_chatter, Result sample_result]), None)
       ''c0ffee'' 7
     = Inr [\<lparr>bmName = ''BenchmarkPacingAccuracy'', bmGitCommit = ''c0ffee'', bmSample = 0, bmIterations = 1, bmNsPerOp = ''1000205617'',
         bmBytesPerOp = 448, bmAllocsPerOp = 1, bmRecordedUnixNano = 7\<rparr>]
   \<and> ParseBenchmarks sample_floats (\<lambda>_. [])
       (concat (map (\<lambda>x. out_line_text x @ [CHR 0x0A]) [Chatter [] sample_chatter, Result sample_result, Result short_result]), None) ''c0ffee'' 7
     = Inl (IngestLine \<lparr>leLine = 3, leText = '' BenchmarkRingRead 5 21.19 ns/op '', leErr = ErrMissingMetric\<rparr>)"
proof -
  let ?xs = "[Chatter [] sample_chatter, Result sample_result]"
  let ?ys = "[Chatter [] sample_chatter, Result sample_result, Result short_result]"
  have neg: "flNegative sample_floats (flMinusOne sample_floats)" by (simp add: sample_floats_def)
  have ok: "list_all out_line_ok ?xs" "list_all out_line_ok ?ys" by (simp_all only: list.pred_inject sample_lines_ok simp_thms)
  have f: "fault sample_floats (Chatter [] sample_chatter) = None" "fault sample_floats (Result sample_result) = None"
    "fault sample_floats (Result short_result) = Some ErrMissingMetric"
    by (simp_all add: sample_result_def short_result_def bad_column_def short_float_def short_int_def sample_floats_def sample_numbers)
  have m: "measured sample_floats ''c0ffee'' 7 0 ?xs =
    [\<lparr>bmName = ''BenchmarkPacingAccuracy'', bmGitCommit = ''c0ffee'', bmSample = 0, bmIterations = 1, bmNsPerOp = ''1000205617'',
         bmBytesPerOp = 448, bmAllocsPerOp = 1, bmRecordedUnixNano = 7\<rparr>]"
    by (simp add: sample_result_def row_of_def sample_floats_def sample_numbers)
  have t: "out_line_text (Result short_result) = '' BenchmarkRingRead 5 21.19 ns/op ''" by code_simp
  have g: "\<forall>x \<in> set ?xs. fault sample_floats x = None" using f by (simp del: fault.simps)
  have "2 < length ?ys \<and> (\<forall>x \<in> set (take 2 ?ys). fault sample_floats x = None) \<and> fault sample_floats (?ys ! 2) = Some ErrMissingMetric"
    using f by (simp del: fault.simps)
  note w = ParseBenchmarks_exact [OF ok(2) neg, THEN conjunct2, THEN spec [of _ 2], THEN spec [of _ ErrMissingMetric], THEN mp, OF this]
    and v = ParseBenchmarks_exact [OF ok(1) neg, THEN conjunct1, THEN mp, OF g]
  have i: "?ys ! 2 = Result short_result" by simp
  show ?thesis unfolding v m w i t by simp
qed

section \<open>The identity of a dataset\<close>

definition clean :: "string \<Rightarrow> bool" where
  "clean s \<longleftrightarrow> CHR 0x09 \<notin> set s \<and> CHR 0x0A \<notin> set s"

lemma dataset_text_inj:
  assumes "list_all (\<lambda>f. clean (mdPath f) \<and> clean (mdHash f)) fs" "list_all (\<lambda>f. clean (mdPath f) \<and> clean (mdHash f)) gs"
    and "dataset_text fs = dataset_text gs"
  shows "fs = gs"
  using assms
proof (induction fs arbitrary: gs)
  case Nil
  then show ?case by (cases gs) (simp_all add: dataset_text_def)
next
  case (Cons f fs)
  then obtain g gs' where g: "gs = g # gs'" by (cases gs) (simp_all add: dataset_text_def)
  have c: "clean (mdPath f)" "clean (mdPath g)" "clean (mdHash f)" "clean (mdHash g)" using Cons.prems(1,2) by (simp_all add: g)
  have "mdPath f @ CHR 0x09 # (mdHash f @ CHR 0x0A # dataset_text fs) = mdPath g @ CHR 0x09 # (mdHash g @ CHR 0x0A # dataset_text gs')"
    using Cons.prems(3) by (simp add: g dataset_text_def)
  then have p: "mdPath f = mdPath g" "mdHash f @ CHR 0x0A # dataset_text fs = mdHash g @ CHR 0x0A # dataset_text gs'"
    using split_at [OF c(1) [unfolded clean_def, THEN conjunct1] c(2) [unfolded clean_def, THEN conjunct1]] by simp_all
  then have "mdHash f = mdHash g" "dataset_text fs = dataset_text gs'" 
    using split_at [OF c(3) [unfolded clean_def, THEN conjunct2] c(4) [unfolded clean_def, THEN conjunct2]] p(2) by simp_all
  then show ?case using p(1) Cons by (simp add: g)
qed

section \<open>Directories of manifests\<close>

text \<open>What the primary key of the runs table promises: an insert succeeds only with a new identifier, and adds
  it. \<open>ids\<close> are the identifiers in the table.\<close>

definition primary_key :: "('db \<Rightarrow> RunRow \<Rightarrow> 'db option) \<Rightarrow> ('db \<Rightarrow> string set) \<Rightarrow> bool" where
  "primary_key sql_exec ids \<longleftrightarrow> (\<forall>db row. case sql_exec db row of None \<Rightarrow> True
     | Some db' \<Rightarrow> rwRunID row \<notin> ids db \<and> ids db' = insert (rwRunID row) (ids db))"

definition run_id :: "string \<Rightarrow> string" where
  "run_id name = take (length name - 5) name"

definition manifest_name :: "string \<Rightarrow> bool" where
  "manifest_name name \<longleftrightarrow> CHR ''/'' \<notin> set name \<and> filepath_Ext name = ''.json''"

lemma rev_split: "rev n = a @ x # b \<Longrightarrow> n = rev b @ x # rev a"
proof -
  assume "rev n = a @ x # b"
  then have "rev (rev n) = rev (a @ x # b)" by (rule arg_cong)
  then show ?thesis by simp
qed

lemma Ext_suffix:
  assumes "filepath_Ext name = e" "e \<noteq> []"
  shows "length e \<le> length name \<and> drop (length name - length e) name = e"
proof -
  let ?t = "takeWhile (\<lambda>c. c \<noteq> CHR ''.'' \<and> c \<noteq> CHR ''/'') (rev name)"
  have t: "length ?t < length (rev name)" "rev name ! length ?t = CHR ''.''" "e = CHR ''.'' # rev ?t"
    using assms by (auto simp: filepath_Ext_def Let_def split: if_splits)
  have "rev name = take (length ?t) (rev name) @ rev name ! length ?t # drop (Suc (length ?t)) (rev name)"
    by (rule id_take_nth_drop [OF t(1)])
  moreover have "take (length ?t) (rev name) = ?t" by (rule takeWhile_eq_take [symmetric])
  ultimately have "rev name = ?t @ CHR ''.'' # drop (Suc (length ?t)) (rev name)" unfolding t(2) by argo
  then have "name = rev (drop (Suc (length ?t)) (rev name)) @ CHR ''.'' # rev ?t"
    by (rule rev_split)
  then obtain base where n: "name = base @ e" unfolding t(3) by blast
  show ?thesis unfolding n by simp
qed

lemma Ext_join:
  assumes "CHR ''/'' \<notin> set name"
  shows "filepath_Ext (filepath_Join dir name) = filepath_Ext name" "filepath_Base (filepath_Join dir name) = name"
proof -
  let ?P = "\<lambda>c. c \<noteq> CHR ''.'' \<and> c \<noteq> CHR ''/''"
  have n: "c \<noteq> CHR ''/''" if "c \<in> set (rev name)" for c using that assms by auto
  have w: "takeWhile (\<lambda>c. c \<noteq> CHR ''/'') (rev name) = rev name" using n by (simp add: takeWhile_eq_all_conv)
  have j: "rev (filepath_Join dir name) = rev name @ (if dir = [] then [] else CHR ''/'' # rev dir)" by (simp add: filepath_Join_def)
  show "filepath_Base (filepath_Join dir name) = name"
    unfolding filepath_Base_def j using n by (simp add: takeWhile_append w)
  show "filepath_Ext (filepath_Join dir name) = filepath_Ext name"
  proof (cases "\<exists>c \<in> set (rev name). \<not> ?P c")
    case True
    then have "takeWhile ?P (rev name @ ys) = takeWhile ?P (rev name)" for ys by (auto simp: takeWhile_append)
    moreover have "length (takeWhile ?P (rev name)) < length (rev name)"
    proof (rule ccontr)
      assume "\<not> ?thesis"
      then have "takeWhile ?P (rev name) = rev name"
        using length_takeWhile_le [of ?P "rev name"] takeWhile_eq_take [of ?P "rev name"] by simp
      then show False using True unfolding takeWhile_eq_all_conv by blast
    qed
    ultimately show ?thesis unfolding filepath_Ext_def j by (simp add: Let_def nth_append)
  next
    case False
    then have t1: "takeWhile ?P (rev name @ ys) = rev name @ takeWhile ?P ys" for ys by (auto simp: takeWhile_append)
    have t2: "takeWhile ?P (rev name) = rev name" using False unfolding takeWhile_eq_all_conv by blast
    show ?thesis unfolding filepath_Ext_def j Let_def t1 t2 by (simp add: nth_append)
  qed
qed

lemma run_row_id: "manifest_name name \<Longrightarrow> rwRunID (run_row (filepath_Join dir name) m) = run_id name"
  using Ext_join [of name dir] Ext_suffix [of name "''.json''"] by (simp add: manifest_name_def run_row_def TrimSuffix_def run_id_def numeral_eq_Suc)

lemma run_id_inj: "manifest_name a \<Longrightarrow> manifest_name b \<Longrightarrow> run_id a = run_id b \<Longrightarrow> a = b"
proof -
  have "a = run_id a @ ''.json''" if "manifest_name a" for a
    using Ext_suffix [of a "''.json''"] that append_take_drop_id [of "length a - 5" a] by (simp add: manifest_name_def run_id_def numeral_eq_Suc)
  then show "manifest_name a \<Longrightarrow> manifest_name b \<Longrightarrow> run_id a = run_id b \<Longrightarrow> a = b" by metis
qed

lemma IngestManifest_id:
  assumes "primary_key sql_exec ids" "manifest_name name" "IngestManifest fs json sql_exec (filepath_Join dir name) db = (res, db')"
  shows "case res of Inl e \<Rightarrow> db' = db
    | Inr run \<Rightarrow> rwRunID run = run_id name \<and> run_id name \<notin> ids db \<and> ids db' = insert (run_id name) (ids db)"
  using assms(3) run_row_id [OF assms(2)] assms(1) unfolding IngestManifest_def primary_key_def
  by (force split: sum.splits option.splits)

lemma manifest_loop_ids:
  assumes "primary_key sql_exec ids" "list_all manifest_name names" "manifest_loop fs json sql_exec dir names runs db = (res, db')"
  shows "case res of
      Inl e \<Rightarrow> \<exists>k < length names. ids db' = ids db \<union> run_id ` set (take k names) \<and> (\<forall>name \<in> set (take k names). run_id name \<notin> ids db)
    | Inr rows \<Rightarrow> map rwRunID rows = map rwRunID runs @ map run_id names \<and> ids db' = ids db \<union> run_id ` set names
        \<and> (\<forall>name \<in> set names. run_id name \<notin> ids db)"
  using assms(2,3)
proof (induction names arbitrary: runs db)
  case Nil
  then show ?case by auto
next
  case (Cons name names)
  obtain r db1 where r: "IngestManifest fs json sql_exec (filepath_Join dir name) db = (r, db1)" by fastforce
  note one = IngestManifest_id [OF assms(1) _ r]
  show ?case
  proof (cases r)
    case (Inl e)
    then have "res = Inl e" "db' = db" using Cons.prems one r by auto
    then show ?thesis by (auto intro: exI [of _ 0])
  next
    case (Inr run)
    then have o: "rwRunID run = run_id name" "run_id name \<notin> ids db" "ids db1 = insert (run_id name) (ids db)"
      using one Cons.prems(1) by simp_all
    have "manifest_loop fs json sql_exec dir names (runs @ [run]) db1 = (res, db')" using Cons.prems(2) r Inr by simp
    note ih = Cons.IH [OF _ this]
    show ?thesis
    proof (cases res)
      case Inl2: (Inl e)
      then obtain k where k: "k < length names" "ids db' = ids db1 \<union> run_id ` set (take k names)"
        "\<forall>name \<in> set (take k names). run_id name \<notin> ids db1" using ih Cons.prems(1) by auto
      then show ?thesis using o Inl2 by (auto intro!: exI [of _ "Suc k"])
    next
      case Inr2: (Inr rows)
      then show ?thesis using ih Cons.prems(1) o by auto
    qed
  qed
qed

text \<open>C36: A directory of manifests is catalogued in name order. When the run identifier is a primary key, a
  successful ingestion stores one run for each manifest, identified by the file's name without its
  extension, none of which was in the table; a failed one has stored those of a proper prefix of the
  sorted names, and the table is otherwise as it was.\<close>

theorem IngestManifests_exact:
  assumes "primary_key sql_exec ids" "os_ReadDir dir = Inr es" "list_all manifest_name (json_names es)"
  shows "case IngestManifests os_ReadDir fs json sql_exec dir db of
      (Inl e, db') \<Rightarrow> \<exists>k < length (json_names es). ids db' = ids db \<union> run_id ` set (take k (sort (json_names es)))
    | (Inr rows, db') \<Rightarrow> map rwRunID rows = map run_id (sort (json_names es))
        \<and> ids db' = ids db \<union> run_id ` set (json_names es) \<and> run_id ` set (json_names es) \<inter> ids db = {}"
proof -
  obtain res db' where r: "manifest_loop fs json sql_exec dir (sort (json_names es)) [] db = (res, db')" by fastforce
  have "list_all manifest_name (sort (json_names es))" using assms(3) by (simp add: list_all_iff)
  from manifest_loop_ids [OF assms(1) this r] show ?thesis
    using r assms(2) by (cases res) (auto simp: IngestManifests_def)
qed

section \<open>A table\<close>

definition table_insert :: "RunRow list \<Rightarrow> RunRow \<Rightarrow> RunRow list option" where
  "table_insert db row = (if rwRunID row \<in> rwRunID ` set db then None else Some (db @ [row]))"

definition run_dir :: "direntry list" where
  "run_dir = [\<lparr>deName = ''run-2.json'', deIsDir = False\<rparr>, \<lparr>deName = ''notes.txt'', deIsDir = False\<rparr>,
     \<lparr>deName = ''run-1.json'', deIsDir = False\<rparr>]"

definition run_manifest :: CatalogueManifest where
  "run_manifest = \<lparr>cmDataset = [], cmConfig = [], cmCanonicalHash = ''deadbeef'', cmStartedUnixNano = 1, cmElapsedNanos = 2\<rparr>"

definition run_files :: files where
  "run_files = \<lparr>filepath_Abs = (\<lambda>p. Inr p), os_Stat = (\<lambda>_. None), os_ReadFile = (\<lambda>_. Inr [])\<rparr>"

lemma table_key: "primary_key table_insert (\<lambda>db. rwRunID ` set db)"
  by (auto simp: primary_key_def table_insert_def)

lemma run_dir_names: "json_names run_dir = [''run-2.json'', ''run-1.json'']" "list_all manifest_name (json_names run_dir)"
  by (simp_all add: json_names_def run_dir_def manifest_name_def filepath_Ext_def)

lemma run_dir_ids: "run_id ''run-1.json'' = ''run-1''" "run_id ''run-2.json'' = ''run-2''"
  by (simp_all add: run_id_def numeral_eq_Suc)

theorem IngestManifests_exact_witness:
  "\<exists>rows db. IngestManifests (\<lambda>_. Inr run_dir) run_files (\<lambda>_. Some run_manifest) table_insert ''runs'' [] = (Inr rows, db)
     \<and> map rwRunID rows = [''run-1'', ''run-2''] \<and> rwRunID ` set db = {''run-1'', ''run-2''}"
proof -
  have s: "sort (json_names run_dir) = [''run-1.json'', ''run-2.json'']" unfolding run_dir_names(1) by code_simp
  have n: "manifest_name ''run-1.json''" "manifest_name ''run-2.json''" using run_dir_names by simp_all
  have row: "rwRunID (run_row (filepath_Join ''runs'' ''run-1.json'') run_manifest) = ''run-1''"
    "rwRunID (run_row (filepath_Join ''runs'' ''run-2.json'') run_manifest) = ''run-2''"
    using run_row_id n run_dir_ids by simp_all
  obtain rows db where r: "IngestManifests (\<lambda>_. Inr run_dir) run_files (\<lambda>_. Some run_manifest) table_insert ''runs'' [] = (Inr rows, db)"
    by (simp add: IngestManifests_def s IngestManifest_def run_files_def table_insert_def row)
  from IngestManifests_exact [where os_ReadDir = "\<lambda>_. Inr run_dir" and fs = run_files and json = "\<lambda>_. Some run_manifest" and dir = "''runs''" and db = "[]",
      OF table_key refl run_dir_names(2)]
  show ?thesis unfolding r s by (intro exI [of _ rows] exI [of _ db]) (simp add: r run_dir_names(1) run_dir_ids insert_commute)
qed

end
