(* ===== verification/Synth.thy ===== *)
theory Synth
  imports Archive_Files Bench_Open
begin

text \<open>
  The synthetic dataset, \<^verbatim>\<open>src/internal/synth/synth.go\<close>: what \<^verbatim>\<open>Build\<close> writes with the store's writer, over a
  random generator that is a parameter.
\<close>

section \<open>The generator\<close>

definition Seed :: u64 where "Seed = 0x5EED"
definition SnapshotEvery :: int where "SnapshotEvery = 150"

definition Shape :: "int list list" where
  "Shape = [[1500, 1200, 900], [800, 0, 1100], [2000, 300], [90], []]"

record Dataset =
  dtShape :: "int list list"
  dtVenues :: "u16 list"
  dtFiles :: "string list list"

text \<open>\<^verbatim>\<open>math/rand/v2\<close>: a generator from two seeds, and draws below a bound.\<close>

record 'g rand =
  rndNewPCG :: "u64 \<Rightarrow> u64 \<Rightarrow> 'g"
  rndInt64N :: "i64 \<Rightarrow> 'g \<Rightarrow> i64 \<times> 'g"
  rndUint32N :: "u32 \<Rightarrow> 'g \<Rightarrow> u32 \<times> 'g"
  rndUintN :: "u64 \<Rightarrow> 'g \<Rightarrow> u64 \<times> 'g"

text \<open>The variables of a venue's loop.\<close>

record 'g gen =
  gnRng :: 'g
  gnTs :: i64
  gnSeq :: u64
  gnWritten :: int

definition next_event :: "'g rand \<Rightarrow> u16 \<Rightarrow> 'g gen \<Rightarrow> event \<times> 'g gen" where
  "next_event rnd venue g =
     (let (step, r) = rndInt64N rnd 4 (gnRng g); ts = gnTs g + step;
          (instrument, r) = rndUint32N rnd 8 r;
          rec = zeroRecord\<lparr>ExchangeTs := ts, SequenceNumber := gnSeq g, InstrumentID := instrument, VenueID := venue\<rparr>;
          g = g\<lparr>gnTs := ts, gnSeq := gnSeq g + 1\<rparr>
      in if gnWritten g mod SnapshotEvery = 0 then
           (let (b1, r) = rndInt64N rnd 9 r; (b2, r) = rndInt64N rnd 9 r; (a, r) = rndInt64N rnd 9 r
            in (EvSnapshot rec [\<lparr>lPrice = 100, lSize = 1 + b1\<rparr>, \<lparr>lPrice = 99, lSize = 1 + b2\<rparr>] [\<lparr>lPrice = 101, lSize = 1 + a\<rparr>],
                g\<lparr>gnRng := r\<rparr>))
         else
           (let (side, r) = rndUintN rnd 2 r; (price, r) = rndInt64N rnd 50 r; (size, r) = rndInt64N rnd 10 r
            in (EvRecord (rec\<lparr>RecordType := RecordTypeDelta, SideFlags := ucast side, Price := 100 + price, Size := 1 + size\<rparr>),
                g\<lparr>gnRng := r\<rparr>)))"

section \<open>The files\<close>

text \<open>A failure is the \<^verbatim>\<open>Fatalf\<close> that ends the test.\<close>

primrec fill_day :: "'g rand \<Rightarrow> u16 \<Rightarrow> nat \<Rightarrow> 'g gen \<Rightarrow> Writer \<Rightarrow> (store_error + 'g gen) \<times> Writer" where
  "fill_day rnd venue 0 g w = (Inr g, w)"
| "fill_day rnd venue (Suc n) g w =
     (case next_event rnd venue g of (e, g) \<Rightarrow>
        (case offer e w of
           (Some err, w) \<Rightarrow> (Inl err, w)
         | (None, w) \<Rightarrow> fill_day rnd venue n (g\<lparr>gnWritten := gnWritten g + 1\<rparr>) w))"

definition day_path :: "string \<Rightarrow> u16 \<Rightarrow> nat \<Rightarrow> string" where
  "day_path dir venue d = filepath_Join dir (''venue'' @ decimal (unat venue) @ ''-day'' @ decimal d @ ''.bin'')"

primrec fill_days ::
    "'g rand \<Rightarrow> int \<Rightarrow> string \<Rightarrow> u16 \<Rightarrow> int list \<Rightarrow> nat \<Rightarrow> 'g gen \<Rightarrow> string list \<Rightarrow> (string \<Rightarrow> OS) \<Rightarrow>
      (store_error + string list) \<times> (string \<Rightarrow> OS)" where
  "fill_days rnd os_Getpagesize dir venue [] d g out dsk = (Inr out, dsk)"
| "fill_days rnd os_Getpagesize dir venue (n # counts) d g out dsk =
     (let path = day_path dir venue d in
      case NewWriter os_Getpagesize (dsk path) venue 100 of
        Inl (e, os) \<Rightarrow> (Inl e, dsk(path := os))
      | Inr w \<Rightarrow>
        (case fill_day rnd venue (nat n) g w of
           (Inl e, w) \<Rightarrow> (Inl e, dsk(path := OS.truncate w))
         | (Inr g, w) \<Rightarrow>
           (case Writer_Close w of
              (Some e, w) \<Rightarrow> (Inl e, dsk(path := OS.truncate w))
            | (None, w) \<Rightarrow>
                fill_days rnd os_Getpagesize dir venue counts (Suc d) g (out @ [path]) (dsk(path := OS.truncate w)))))"

definition venue_of :: "nat \<Rightarrow> u16" where
  "venue_of v = of_nat (v + 1)"

definition first_gen :: "'g rand \<Rightarrow> nat \<Rightarrow> 'g gen" where
  "first_gen rnd v = \<lparr>gnRng = rndNewPCG rnd Seed (ucast (venue_of v)), gnTs = of_nat v * 7, gnSeq = 0, gnWritten = 0\<rparr>"

primrec fill_venues ::
    "'g rand \<Rightarrow> int \<Rightarrow> string \<Rightarrow> int list list \<Rightarrow> nat \<Rightarrow> Dataset \<Rightarrow> (string \<Rightarrow> OS) \<Rightarrow>
      (store_error + Dataset) \<times> (string \<Rightarrow> OS)" where
  "fill_venues rnd os_Getpagesize dir [] v ds dsk = (Inr ds, dsk)"
| "fill_venues rnd os_Getpagesize dir (days # shape) v ds dsk =
     (case fill_days rnd os_Getpagesize dir (venue_of v) days 0 (first_gen rnd v) [] dsk of
        (Inl e, dsk) \<Rightarrow> (Inl e, dsk)
      | (Inr paths, dsk) \<Rightarrow>
          fill_venues rnd os_Getpagesize dir shape (Suc v)
            (ds\<lparr>dtVenues := dtVenues ds @ [venue_of v], dtFiles := dtFiles ds @ [paths]\<rparr>) dsk)"

definition Build :: "'g rand \<Rightarrow> int \<Rightarrow> string \<Rightarrow> int list list \<Rightarrow> (string \<Rightarrow> OS) \<Rightarrow> (store_error + Dataset) \<times> (string \<Rightarrow> OS)" where
  "Build rnd os_Getpagesize dir shape dsk =
     fill_venues rnd os_Getpagesize dir shape 0 \<lparr>dtShape = shape, dtVenues = [], dtFiles = []\<rparr> dsk"

definition Standard :: "'g rand \<Rightarrow> int \<Rightarrow> string \<Rightarrow> (string \<Rightarrow> OS) \<Rightarrow> (store_error + Dataset) \<times> (string \<Rightarrow> OS)" where
  "Standard rnd os_Getpagesize dir dsk = Build rnd os_Getpagesize dir Shape dsk"

definition RecordCount :: "Dataset \<Rightarrow> int" where
  "RecordCount ds = sum_list (map sum_list (dtShape ds))"

section \<open>What is generated\<close>

primrec gen_events :: "'g rand \<Rightarrow> u16 \<Rightarrow> nat \<Rightarrow> 'g gen \<Rightarrow> event list \<times> 'g gen" where
  "gen_events rnd venue 0 g = ([], g)"
| "gen_events rnd venue (Suc n) g =
     (case next_event rnd venue g of (e, g) \<Rightarrow>
        (case gen_events rnd venue n (g\<lparr>gnWritten := gnWritten g + 1\<rparr>) of (es, g) \<Rightarrow> (e # es, g)))"

primrec gen_days :: "'g rand \<Rightarrow> u16 \<Rightarrow> int list \<Rightarrow> 'g gen \<Rightarrow> event list list" where
  "gen_days rnd venue [] g = []"
| "gen_days rnd venue (n # counts) g =
     (case gen_events rnd venue (nat n) g of (es, g) \<Rightarrow> es # gen_days rnd venue counts g)"

text \<open>What the documentation of the generator says of its draws.\<close>

definition rand_ok :: "'g rand \<Rightarrow> bool" where
  "rand_ok rnd \<longleftrightarrow>
     (\<forall>n g. 0 < sint n \<longrightarrow> 0 \<le> sint (fst (rndInt64N rnd n g)) \<and> sint (fst (rndInt64N rnd n g)) < sint n)
     \<and> (\<forall>n g. 0 < n \<longrightarrow> fst (rndUintN rnd n g) < n)"

text \<open>The next \<open>k\<close> records stay in range.\<close>

definition gen_ok :: "nat \<Rightarrow> 'g gen \<Rightarrow> bool" where
  "gen_ok k g \<longleftrightarrow> 0 \<le> sint (gnTs g) \<and> sint (gnTs g) + 3 * int k < 2 ^ 63 - 1 \<and> unat (gnSeq g) + k < 2 ^ 64"

definition older :: "u16 \<Rightarrow> 'g gen \<Rightarrow> event \<Rightarrow> bool" where
  "older venue g e \<longleftrightarrow> VenueID (ev_rec e) = venue \<and> sint (ExchangeTs (ev_rec e)) \<le> sint (gnTs g)
     \<and> unat (SequenceNumber (ev_rec e)) < unat (gnSeq g)"

lemma written_irrelevant [simp]:
  "gen_ok k (g\<lparr>gnWritten := n\<rparr>) = gen_ok k g" "older venue (g\<lparr>gnWritten := n\<rparr>) e = older venue g e"
  by (simp_all add: gen_ok_def older_def)

lemma sint_add_small:
  fixes a b :: i64
  assumes "0 \<le> sint a" "0 \<le> sint b" "sint a + sint b < 2 ^ 63"
  shows "sint (a + b) = sint a + sint b"
  using assms by (simp add: sint_word_ariths(1) signed_take_bit_int_eq_self)

lemma next_event_key:
  assumes "next_event rnd venue g = (e, g')"
  shows "gnTs g' = gnTs g + fst (rndInt64N rnd 4 (gnRng g))" "gnSeq g' = gnSeq g + 1" "gnWritten g' = gnWritten g"
    "VenueID (ev_rec e) = venue" "ExchangeTs (ev_rec e) = gnTs g'" "SequenceNumber (ev_rec e) = gnSeq g"
  using assms by (auto simp: next_event_def Let_def case_prod_unfold split: if_splits)

lemma side_bit:
  fixes x :: u64
  assumes "x < 2"
  shows "(ucast x :: u8) AND NOT sideFlagsMask = 0"
proof -
  have "x = 0 \<or> x = 1" using assms by (simp add: word_less_nat_alt word_unat_eq_iff) linarith
  then show ?thesis by (auto simp: sideFlagsMask_def SideAsk_def SideBid_def)
qed

lemma next_event_well_formed:
  assumes "rand_ok rnd" "next_event rnd venue g = (e, g')"
  shows "well_formed e"
proof -
  have "fst (rndUintN rnd 2 r) < 2" for r using assms(1) by (simp add: rand_ok_def)
  from side_bit [OF this] show ?thesis
    using assms(2) by (auto simp: next_event_def Let_def case_prod_unfold key_only_def validateRecord_def record_types zeroRecord_def
        split: if_splits)
qed

lemma next_event_ok:
  assumes "rand_ok rnd" "gen_ok (Suc k) g" "next_event rnd venue g = (e, g')"
  shows "gen_ok k g'" "older venue g' e" "older venue g x \<Longrightarrow> older venue g' x"
    "older venue g x \<Longrightarrow> compareKey (ev_rec x) (ev_rec e) < 0"
proof -
  note key = next_event_key [OF assms(3)]
  have "0 \<le> sint (fst (rndInt64N rnd 4 (gnRng g)))" "sint (fst (rndInt64N rnd 4 (gnRng g))) < 4"
    using assms(1) [unfolded rand_ok_def, THEN conjunct1, rule_format, of 4 "gnRng g"] by simp_all
  with sint_add_small [of "gnTs g" "fst (rndInt64N rnd 4 (gnRng g))"]
  have t: "sint (gnTs g) \<le> sint (gnTs g')" "sint (gnTs g') \<le> sint (gnTs g) + 3"
    using assms(2) by (auto simp: gen_ok_def key(1))
  have q: "unat (gnSeq g') = unat (gnSeq g) + 1"
    using assms(2) unfolding key(2) gen_ok_def by (subst unat_add_lem [THEN iffD1]) simp_all
  show "gen_ok k g'" using assms(2) t q by (simp add: gen_ok_def)
  show "older venue g' e" using q by (simp add: older_def key(4-6))
  show "older venue g x \<Longrightarrow> older venue g' x" using t q by (simp add: older_def)
  show "older venue g x \<Longrightarrow> compareKey (ev_rec x) (ev_rec e) < 0"
    using t(1) sint_eq_iff [of "ExchangeTs (ev_rec x)" "gnTs g'"]
    by (auto simp: older_def compareKey_def key(4-6) word_less_nat_alt)
qed

lemma gen_events_ok:
  assumes "rand_ok rnd" "gen_ok (n + k) g" "gen_events rnd venue n g = (es, g')"
  shows "length es = n" "gen_ok k g'" "\<forall>e \<in> set es. older venue g' e" "older venue g x \<Longrightarrow> older venue g' x"
    "sorted_wrt (\<lambda>a b. compareKey (ev_rec a) (ev_rec b) < 0) es"
    "older venue g x \<Longrightarrow> \<forall>e \<in> set es. compareKey (ev_rec x) (ev_rec e) < 0"
proof -
  have "length es = n \<and> gen_ok k g' \<and> (\<forall>e \<in> set es. older venue g' e) \<and> (\<forall>x. older venue g x \<longrightarrow> older venue g' x
      \<and> (\<forall>e \<in> set es. compareKey (ev_rec x) (ev_rec e) < 0)) \<and> sorted_wrt (\<lambda>a b. compareKey (ev_rec a) (ev_rec b) < 0) es"
    using assms(2,3)
  proof (induction n arbitrary: g es)
    case (Suc n)
    obtain e g1 where e: "next_event rnd venue g = (e, g1)" by fastforce
    obtain es' where es: "gen_events rnd venue n (g1\<lparr>gnWritten := gnWritten g1 + 1\<rparr>) = (es', g')" "es = e # es'"
      using Suc.prems(2) e by (auto split: prod.splits)
    note ok = next_event_ok [OF assms(1) _ e, of "n + k"]
    have "gen_ok (Suc (n + k)) g" using Suc.prems(1) by simp
    note ok = ok [OF this]
    from ok(1) Suc.IH [OF _ es(1)] ok(2-4) show ?case by (auto simp: es(2))
  qed simp
  then show "length es = n" "gen_ok k g'" "\<forall>e \<in> set es. older venue g' e" "older venue g x \<Longrightarrow> older venue g' x"
    "sorted_wrt (\<lambda>a b. compareKey (ev_rec a) (ev_rec b) < 0) es"
    "older venue g x \<Longrightarrow> \<forall>e \<in> set es. compareKey (ev_rec x) (ev_rec e) < 0" by blast+
qed

section \<open>Building succeeds\<close>

lemma fill_day_ok:
  assumes "rand_ok rnd" "hVenueID h = venue"
  shows "writer_inv h evs w \<Longrightarrow> osIO w = [] \<Longrightarrow> gen_ok (n + k) g \<Longrightarrow> \<forall>x \<in> set evs. older venue g x \<Longrightarrow> length evs + n \<le> 2 ^ 40
    \<Longrightarrow> gen_events rnd venue n g = (es, g')
    \<Longrightarrow> \<exists>w'. fill_day rnd venue n g w = (Inr g', w') \<and> osIO w' = [] \<and> writer_inv h (evs @ es) w'"
proof (induction n arbitrary: g evs w es)
  case (Suc n)
  obtain e g1 where e: "next_event rnd venue g = (e, g1)" by fastforce
  obtain es' where es: "gen_events rnd venue n (g1\<lparr>gnWritten := gnWritten g1 + 1\<rparr>) = (es', g')" "es = e # es'"
    using Suc.prems(6) e by (auto split: prod.splits)
  have g: "gen_ok (Suc (n + k)) g" using Suc.prems(3) by simp
  note ok = next_event_ok [OF assms(1) g e]
  have "acceptable venue evs e"
    using next_event_well_formed [OF assms(1) e] next_event_key(4) [OF e] Suc.prems(4,5) ok(4) by (simp add: acceptable_def)
  with offer_fine [OF Suc.prems(1,2), of e] obtain w1 where
    w1: "offer e w = (None, w1)" "osIO w1 = []" "writer_inv h (evs @ [e]) w1" by (auto simp: assms(2))
  from Suc.IH [OF w1(3,2) _ _ _ es(1)] ok(1-3) Suc.prems(4,5) show ?case by (auto simp: e w1(1) es(2))
qed simp

text \<open>A finished file of a day.\<close>

definition day_file :: "u16 \<Rightarrow> event list \<Rightarrow> bytes \<Rightarrow> bool" where
  "day_file venue evs bs \<longleftrightarrow> (\<exists>hs. base_header_ok (new_header venue 100 hs 1024) \<and> events_ok (new_header venue 100 hs 1024) evs
     \<and> bs = file_image (new_header venue 100 hs 1024) evs)"

definition fresh :: "OS \<Rightarrow> bool" where
  "fresh os \<longleftrightarrow> osFile os = None \<and> osIO os = []"

lemma write_day:
  assumes "rand_ok rnd" "gen_ok (n + k) g" "n \<le> 2 ^ 40" "gen_events rnd venue n g = (es, g')"
    and "fresh os" "headerSizeFor pg = Inr hs" "pg \<le> maxInt - 127"
  shows "\<exists>w w1 w2 bs. NewWriter pg os venue 100 = Inr w \<and> fill_day rnd venue n g w = (Inr g', w1)
    \<and> Writer_Close w1 = (None, w2) \<and> osFile w2 = Some bs \<and> day_file venue es bs"
proof -
  let ?opts = "defaultWriterOptions pg"
  have o: "pageSize ?opts = pg" "blockSizeRecords ?opts = 1024"
    by (simp_all add: defaultWriterOptions_def defaultBlockSizeRecords_def)
  obtain w where w: "newWriter os venue 100 ?opts = Inr w" "osIO w = []"
    using newWriter_fine [of 100 ?opts hs os venue] assms(5,6) by (auto simp: o fresh_def)
  from newWriter_inv [OF w(1)] assms(7) obtain hs' where inv: "writer_inv (new_header venue 100 hs' 1024) [] w" by (auto simp: o)
  from fill_day_ok [OF assms(1) _ inv w(2) assms(2) _ _ assms(4)] assms(3) obtain w1 where
    w1: "fill_day rnd venue n g w = (Inr g', w1)" "osIO w1 = []" "writer_inv (new_header venue 100 hs' 1024) es w1"
    by (auto simp: new_header_def)
  obtain w2 where "finish w1 = (None, w2)" using finish_fine [OF w1(3,2)] by blast
  then have c: "Writer_Close w1 = (None, w2\<lparr>wState := writerClosed\<rparr>)"
    using writer_inv_open [OF w1(3)] by (simp add: Writer_Close_def)
  from Close_ok(2) [OF disjI1 [OF w1(3)] c] writer_inv_events_ok [OF w1(3)] show ?thesis
    using w(1) w1(1) c by (auto simp: NewWriter_def day_file_def)
qed

lemma day_path_inj: "day_path dir v d = day_path dir v' d' \<longleftrightarrow> v = v' \<and> d = d'"
proof -
  have f: "filepath_Join dir a = filepath_Join dir b \<longleftrightarrow> a = b" for a b by (simp add: filepath_Join_def)
  show ?thesis
    by (simp add: day_path_def f split_at no_dash decimal_inj word_unat_eq_iff)
qed

lemma fill_days_ok:
  assumes "rand_ok rnd" "headerSizeFor pg = Inr hs" "pg \<le> maxInt - 127"
  shows "list_all (\<lambda>n. 0 \<le> n \<and> n \<le> 2 ^ 40) counts \<Longrightarrow> gen_ok (sum_list (map nat counts)) g
    \<Longrightarrow> \<forall>j \<ge> d. fresh (dsk (day_path dir venue j))
    \<Longrightarrow> \<exists>dsk'. fill_days rnd pg dir venue counts d g out dsk = (Inr (out @ map (day_path dir venue) [d..<d + length counts]), dsk')
      \<and> (\<forall>i < length counts. \<exists>bs. osFile (dsk' (day_path dir venue (d + i))) = Some bs \<and> day_file venue (gen_days rnd venue counts g ! i) bs)
      \<and> (\<forall>p. p \<notin> range (day_path dir venue) \<longrightarrow> dsk' p = dsk p) \<and> (\<forall>j < d. dsk' (day_path dir venue j) = dsk (day_path dir venue j))"
proof (induction counts arbitrary: d g out dsk)
  case (Cons n counts)
  let ?p = "day_path dir venue"
  obtain es g' where es: "gen_events rnd venue (nat n) g = (es, g')" by fastforce
  have g: "gen_ok (nat n + sum_list (map nat counts)) g" using Cons.prems(2) by simp
  have n: "nat n \<le> 2 ^ 40" "list_all (\<lambda>n. 0 \<le> n \<and> n \<le> 2 ^ 40) counts" using Cons.prems(1) by (simp_all add: nat_le_iff)
  have "fresh (dsk (?p d))" using Cons.prems(3) by simp
  from write_day [OF assms(1) g n(1) es this assms(2,3)] obtain w w1 w2 bs where
    w: "NewWriter pg (dsk (?p d)) venue 100 = Inr w" "fill_day rnd venue (nat n) g w = (Inr g', w1)" "Writer_Close w1 = (None, w2)"
      "osFile w2 = Some bs" "day_file venue es bs" by blast
  let ?dsk = "dsk(?p d := OS.truncate w2)"
  have fr: "\<forall>j \<ge> Suc d. fresh (?dsk (?p j))" using Cons.prems(3) by (auto simp: day_path_inj)
  from Cons.IH [OF n(2) gen_events_ok(2) [OF assms(1) g es] fr, of "out @ [?p d]"] obtain dsk' where
    d: "fill_days rnd pg dir venue counts (Suc d) g' (out @ [?p d]) ?dsk
        = (Inr ((out @ [?p d]) @ map ?p [Suc d..<Suc d + length counts]), dsk')"
      "\<forall>i < length counts. \<exists>bs. osFile (dsk' (?p (Suc d + i))) = Some bs \<and> day_file venue (gen_days rnd venue counts g' ! i) bs"
      "\<forall>p. p \<notin> range ?p \<longrightarrow> dsk' p = ?dsk p" "\<forall>j < Suc d. dsk' (?p j) = ?dsk (?p j)" by blast
  have "fill_days rnd pg dir venue (n # counts) d g out dsk = (Inr (out @ map ?p [d..<d + length (n # counts)]), dsk')"
    using d(1) by (simp add: w(1-3) upt_conv_Cons del: upt_Suc)
  moreover have "\<exists>bs. osFile (dsk' (?p (d + i))) = Some bs \<and> day_file venue (gen_days rnd venue (n # counts) g ! i) bs"
    if "i < length (n # counts)" for i
  proof (cases i)
    case 0
    then show ?thesis using d(4) w(4,5) es by (simp add: OS.truncate_def)
  next
    case (Suc j)
    then show ?thesis using d(2) [rule_format, of j] that es by simp
  qed
  moreover have "\<forall>p. p \<notin> range ?p \<longrightarrow> dsk' p = dsk p" using d(3) by auto
  moreover have "\<forall>j < d. dsk' (?p j) = dsk (?p j)" using d(4) by (simp add: day_path_inj)
  ultimately show ?case by blast
qed simp

definition shape_ok :: "int list list \<Rightarrow> bool" where
  "shape_ok shape \<longleftrightarrow> length shape < 2 ^ 16
     \<and> list_all (\<lambda>days. list_all (\<lambda>n. 0 \<le> n \<and> n \<le> 2 ^ 40) days \<and> sum_list days \<le> 2 ^ 60) shape"

definition synth_days :: "'g rand \<Rightarrow> nat \<Rightarrow> int list \<Rightarrow> event list list" where
  "synth_days rnd v days = gen_days rnd (venue_of v) days (first_gen rnd v)"

lemma sum_list_nat: "list_all (\<lambda>n. 0 \<le> n \<and> n \<le> b) ns \<Longrightarrow> int (sum_list (map nat ns)) = sum_list ns" for b :: int
  by (induction ns) simp_all

lemma first_gen_ok:
  assumes "v < 2 ^ 16" "list_all (\<lambda>n. 0 \<le> n \<and> n \<le> 2 ^ 40) days" "sum_list days \<le> 2 ^ 60"
  shows "gen_ok (sum_list (map nat days)) (first_gen rnd v)"
proof -
  have "(of_nat v * 7 :: i64) = of_nat (v * 7)" by simp
  moreover have "sint (of_nat (v * 7) :: i64) = int (v * 7)"
    using assms(1) unfolding signed_of_nat by (simp add: signed_take_bit_int_eq_self)
  ultimately have "sint (of_nat v * 7 :: i64) = 7 * int v" by simp
  then show ?thesis
    using sum_list_nat [OF assms(2)] assms(1,3) by (simp add: gen_ok_def first_gen_def)
qed

lemma venue_of_inj: "u < 2 ^ 16 - 1 \<Longrightarrow> v < 2 ^ 16 - 1 \<Longrightarrow> venue_of u = venue_of v \<longleftrightarrow> u = v"
proof -
  have "unat (of_nat (w + 1) :: u16) = w + 1" if "w < 2 ^ 16 - 1" for w
    using that by (subst unat_of_nat) (simp add: take_bit_nat_eq_self)
  then show "u < 2 ^ 16 - 1 \<Longrightarrow> v < 2 ^ 16 - 1 \<Longrightarrow> venue_of u = venue_of v \<longleftrightarrow> u = v"
    unfolding venue_of_def by (metis add_right_cancel)
qed

lemma fill_venues_ok:
  assumes "rand_ok rnd" "headerSizeFor pg = Inr hs" "pg \<le> maxInt - 127"
  shows "v + length shape < 2 ^ 16
    \<Longrightarrow> list_all (\<lambda>days. list_all (\<lambda>n. 0 \<le> n \<and> n \<le> 2 ^ 40) days \<and> sum_list days \<le> 2 ^ 60) shape
    \<Longrightarrow> \<forall>u j. v \<le> u \<and> u < 2 ^ 16 - 1 \<longrightarrow> fresh (dsk (day_path dir (venue_of u) j))
    \<Longrightarrow> \<exists>dsk'. fill_venues rnd pg dir shape v ds dsk = (Inr (ds\<lparr>dtVenues := dtVenues ds @ map venue_of [v..<v + length shape],
          dtFiles := dtFiles ds @ map (\<lambda>i. map (day_path dir (venue_of (v + i))) [0..<length (shape ! i)]) [0..<length shape]\<rparr>), dsk')
      \<and> (\<forall>i < length shape. \<forall>j < length (shape ! i). \<exists>bs. osFile (dsk' (day_path dir (venue_of (v + i)) j)) = Some bs
            \<and> day_file (venue_of (v + i)) (synth_days rnd (v + i) (shape ! i) ! j) bs)
      \<and> (\<forall>u < v. \<forall>j. dsk' (day_path dir (venue_of u) j) = dsk (day_path dir (venue_of u) j))"
proof (induction shape arbitrary: v ds dsk)
  case (Cons days shape)
  let ?p = "\<lambda>u. day_path dir (venue_of u)"
  have b: "v < 2 ^ 16 - 1" "v < 2 ^ 16" "Suc v + length shape < 2 ^ 16" using Cons.prems(1) by simp_all
  have days: "list_all (\<lambda>n. 0 \<le> n \<and> n \<le> 2 ^ 40) days" "sum_list days \<le> 2 ^ 60"
    "list_all (\<lambda>days. list_all (\<lambda>n. 0 \<le> n \<and> n \<le> 2 ^ 40) days \<and> sum_list days \<le> 2 ^ 60) shape"
    using Cons.prems(2) by simp_all
  have "\<forall>j \<ge> 0. fresh (dsk (?p v j))" using Cons.prems(3) b(1) by blast
  from fill_days_ok [where out = "[]", OF assms days(1) first_gen_ok [where rnd = rnd, OF b(2) days(1,2)] this] obtain dsk1 where
    d: "fill_days rnd pg dir (venue_of v) days 0 (first_gen rnd v) [] dsk = (Inr (map (?p v) [0..<length days]), dsk1)"
      "\<forall>i < length days. \<exists>bs. osFile (dsk1 (?p v i)) = Some bs \<and> day_file (venue_of v) (synth_days rnd v days ! i) bs"
      "\<forall>p. p \<notin> range (?p v) \<longrightarrow> dsk1 p = dsk p"
    by (auto simp: synth_days_def)
  have other: "dsk1 (?p u j) = dsk (?p u j)" if "u < 2 ^ 16 - 1" "u \<noteq> v" for u j
  proof -
    have "?p u j \<notin> range (?p v)" using venue_of_inj [OF that(1) b(1)] that(2) by (auto simp: day_path_inj)
    then show ?thesis using d(3) by blast
  qed
  then have "\<forall>u j. Suc v \<le> u \<and> u < 2 ^ 16 - 1 \<longrightarrow> fresh (dsk1 (?p u j))" using Cons.prems(3) by simp
  from Cons.IH [where ds = "ds\<lparr>dtVenues := dtVenues ds @ [venue_of v],
      dtFiles := dtFiles ds @ [map (?p v) [0..<length days]]\<rparr>", OF b(3) days(3) this] obtain dsk2 where
    r: "fill_venues rnd pg dir shape (Suc v) (ds\<lparr>dtVenues := dtVenues ds @ [venue_of v], dtFiles := dtFiles ds @ [map (?p v) [0..<length days]]\<rparr>) dsk1
      = (Inr (ds\<lparr>dtVenues := (dtVenues ds @ [venue_of v]) @ map venue_of [Suc v..<Suc v + length shape],
          dtFiles := (dtFiles ds @ [map (?p v) [0..<length days]])
            @ map (\<lambda>i. map (?p (Suc v + i)) [0..<length (shape ! i)]) [0..<length shape]\<rparr>), dsk2)"
      "\<forall>i < length shape. \<forall>j < length (shape ! i). \<exists>bs. osFile (dsk2 (?p (Suc v + i) j)) = Some bs
          \<and> day_file (venue_of (Suc v + i)) (synth_days rnd (Suc v + i) (shape ! i) ! j) bs"
      "\<forall>u < Suc v. \<forall>j. dsk2 (?p u j) = dsk1 (?p u j)" by auto
  have "map (\<lambda>i. map (?p (v + i)) [0..<length ((days # shape) ! i)]) [0..<length (days # shape)]
      = map (?p v) [0..<length days] # map (\<lambda>i. map (?p (Suc v + i)) [0..<length (shape ! i)]) [0..<length shape]"
    by (simp add: upt_conv_Cons map_Suc_upt [symmetric] comp_def del: upt_Suc)
  then have "fill_venues rnd pg dir (days # shape) v ds dsk = (Inr (ds\<lparr>dtVenues := dtVenues ds @ map venue_of [v..<v + length (days # shape)],
          dtFiles := dtFiles ds @ map (\<lambda>i. map (?p (v + i)) [0..<length ((days # shape) ! i)]) [0..<length (days # shape)]\<rparr>), dsk2)"
    using r(1) by (simp add: d(1) upt_conv_Cons del: upt_Suc)
  moreover have "\<exists>bs. osFile (dsk2 (?p (v + i) j)) = Some bs \<and> day_file (venue_of (v + i)) (synth_days rnd (v + i) ((days # shape) ! i) ! j) bs"
    if "i < length (days # shape)" "j < length ((days # shape) ! i)" for i j
  proof (cases i)
    case 0
    then show ?thesis using d(2) r(3) that by simp
  next
    case (Suc k)
    then show ?thesis using r(2) that by simp
  qed
  moreover have "\<forall>u < v. \<forall>j. dsk2 (?p u j) = dsk (?p u j)" using r(3) other b(1) by simp
  ultimately show ?case by blast
qed simp

section \<open>What is built is what is replayed\<close>

lemma image_event_key: "ev_key (image_event off e) = keyOf (ev_rec e)"
  by (cases e) (simp_all add: keyOf_def)

lemma image_events_keys: "map ev_key (image_events evs) = map (\<lambda>e. keyOf (ev_rec e)) evs"
  by (rule nth_equalityI) (simp_all add: image_events_def image_event_key)

lemma gen_days_ok:
  assumes "rand_ok rnd"
  shows "gen_ok (sum_list (map nat counts)) g \<Longrightarrow> map length (gen_days rnd venue counts g) = map nat counts
    \<and> sorted_wrt (\<lambda>a b. compareKey (ev_rec a) (ev_rec b) < 0) (concat (gen_days rnd venue counts g))
    \<and> (\<forall>e \<in> set (concat (gen_days rnd venue counts g)). sint (ExchangeTs (ev_rec e)) < 2 ^ 63 - 1
         \<and> (\<forall>x. older venue g x \<longrightarrow> compareKey (ev_rec x) (ev_rec e) < 0))"
proof (induction counts arbitrary: g)
  case (Cons n counts)
  obtain es g' where es: "gen_events rnd venue (nat n) g = (es, g')" by fastforce
  have "gen_ok (nat n + sum_list (map nat counts)) g" using Cons.prems by simp
  note ok = gen_events_ok [OF assms this es]
  have "sint (ExchangeTs (ev_rec e)) < 2 ^ 63 - 1" if "e \<in> set es" for e
    using ok(2,3) that by (auto simp: older_def gen_ok_def)
  with Cons.IH [OF ok(2)] ok(1,3-6) show ?case by (auto simp: es sorted_wrt_append)
qed simp

text \<open>The cursors over the files of a dataset, in day order.\<close>

definition opens :: "(string \<Rightarrow> OS) \<Rightarrow> string list \<Rightarrow> Reader list \<Rightarrow> bool" where
  "opens dsk = list_all2 (\<lambda>p r. \<exists>bs. osFile (dsk p) = Some bs \<and> openBytes bs = Inr r)"

lemma day_file_reader:
  assumes "day_file venue evs bs"
  shows "\<exists>r. openBytes bs = Inr r \<and> VerifyAll r = None \<and> serves r evs \<and> sound_file r \<and> reader_VenueID r = venue
    \<and> (\<forall>rec \<in> set (contents r). VenueID rec = venue) \<and> reader_events r = image_events evs"
proof -
  obtain hs where ok: "base_header_ok (new_header venue 100 hs 1024)" "events_ok (new_header venue 100 hs 1024) evs"
    "bs = file_image (new_header venue 100 hs 1024) evs" using assms by (auto simp: day_file_def)
  have v: "hVenueID (new_header venue 100 hs 1024) = venue" by (simp add: new_header_def)
  have "\<forall>rec \<in> set (contents (image_reader (new_header venue 100 hs 1024) evs)). VenueID rec = venue"
    using ok(2) v by (simp add: contents_image [OF ok(1,2)] events_ok_def stored_ok_def)
  then show ?thesis
    using openBytes_image [OF ok(1,2)] VerifyAll_image [OF ok(1,2)] image_serves [OF ok(1,2)] sound_file_image [OF ok(1,2)]
      reader_VenueID_image [of "new_header venue 100 hs 1024" evs] reader_events_image [OF ok(1,2)] v ok(3) by auto
qed

lemma venue_cursor:
  assumes "rand_ok rnd" "gen_ok (sum_list (map nat days)) (first_gen rnd v)"
    and "\<forall>j < length days. \<exists>bs. osFile (dsk (P j)) = Some bs \<and> day_file (venue_of v) (synth_days rnd v days ! j) bs"
  shows "\<exists>rs c. opens dsk (map P [0..<length days]) rs \<and> NewCursor (venue_of v) rs = Inr c \<and> cursor_ok c \<and> \<not> cHasLast c
    \<and> cVenueID c = venue_of v \<and> cursor_rest c = concat (map image_events (synth_days rnd v days))"
proof -
  let ?E = "synth_days rnd v days"
  note gd = gen_days_ok [OF assms(1,2), of "venue_of v"]
  have len: "length ?E = length days" using gd by (metis length_map synth_days_def)
  have "\<forall>j < length days. \<exists>r. (\<exists>bs. osFile (dsk (P j)) = Some bs \<and> openBytes bs = Inr r) \<and> sound_file r \<and> reader_VenueID r = venue_of v
      \<and> (\<forall>rec \<in> set (contents r). VenueID rec = venue_of v) \<and> reader_events r = image_events (?E ! j)"
    using assms(3) day_file_reader by meson
  then obtain R where R: "\<And>j. j < length days \<Longrightarrow> (\<exists>bs. osFile (dsk (P j)) = Some bs \<and> openBytes bs = Inr (R j)) \<and> sound_file (R j)
      \<and> reader_VenueID (R j) = venue_of v \<and> (\<forall>rec \<in> set (contents (R j)). VenueID rec = venue_of v) \<and> reader_events (R j) = image_events (?E ! j)"
    by metis
  let ?rs = "map R [0..<length days]"
  have o: "opens dsk (map P [0..<length days]) ?rs" using R by (simp add: opens_def list_all2_conv_all_nth)
  have "map reader_events ?rs = map image_events ?E" by (rule nth_equalityI) (simp_all add: len R)
  then have e: "partition_events ?rs = concat (map image_events ?E)" unfolding partition_events_def by simp
  have "map ev_key (concat (map image_events ?E)) = map (\<lambda>e. keyOf (ev_rec e)) (concat ?E)"
    by (simp add: map_concat image_events_keys comp_def)
  then have "increasing (concat (map image_events ?E))"
    using gd by (simp add: increasing_def sorted_wrt_map compareKey_keyOf synth_days_def)
  then have "sound_partition (venue_of v) ?rs" using R by (auto simp: sound_partition_def e)
  from NewCursor_ok [OF this] o e show ?thesis by metis
qed

lemma synth_live:
  assumes "rand_ok rnd" "gen_ok (sum_list (map nat days)) (first_gen rnd v)"
    and "ev \<in> set (concat (map image_events (synth_days rnd v days)))"
  shows "live ev"
proof -
  note gd = gen_days_ok [OF assms(1,2), of "venue_of v"]
  obtain es where es: "es \<in> set (synth_days rnd v days)" "ev \<in> set (image_events es)" using assms(3) by auto
  have "ev_key ev \<in> set (map (\<lambda>e. keyOf (ev_rec e)) es)"
    using es(2) unfolding image_events_keys [symmetric] by simp
  then obtain e where e: "e \<in> set es" "ev_key ev = keyOf (ev_rec e)" by auto
  then have "sint (ExchangeTs (ev_rec e)) < 2 ^ 63 - 1" using gd es(1) by (auto simp: synth_days_def)
  then have "ExchangeTs (ev_rec e) \<noteq> 0x7FFFFFFFFFFFFFFF" by auto
  then have "keyOf (ev_rec e) \<noteq> SentinelKey" by (simp add: keyOf_def SentinelKey_def)
  then show ?thesis unfolding live_def e(2) .
qed

lemma synth_length:
  assumes "rand_ok rnd" "gen_ok (sum_list (map nat days)) (first_gen rnd v)" "list_all (\<lambda>n. 0 \<le> n \<and> n \<le> 2 ^ 40) days"
  shows "int (length (concat (map image_events (synth_days rnd v days)))) = sum_list days"
    "j < length days \<Longrightarrow> int (length (synth_days rnd v days ! j)) = days ! j"
proof -
  have l: "map length (synth_days rnd v days) = map nat days"
    using gen_days_ok [OF assms(1,2), of "venue_of v"] by (simp add: synth_days_def)
  then have "map length (map image_events (synth_days rnd v days)) = map nat days" by (simp add: image_events_def comp_def)
  then show "int (length (concat (map image_events (synth_days rnd v days)))) = sum_list days"
    using sum_list_nat [OF assms(3)] by (simp add: length_concat)
  show "int (length (synth_days rnd v days ! j)) = days ! j" if "j < length days"
  proof -
    have "length (synth_days rnd v days) = length days" using l by (metis length_map)
    then have "length (synth_days rnd v days ! j) = nat (days ! j)" using arg_cong [OF l, of "\<lambda>xs. xs ! j"] that by simp
    then show ?thesis using assms(3) that by (auto simp: list_all_length)
  qed
qed

text \<open>The cursors over the files of a shape, and what they merge to.\<close>

lemma shape_days:
  assumes "shape_ok shape" "v < length shape"
  shows "list_all (\<lambda>n. 0 \<le> n \<and> n \<le> 2 ^ 40) (shape ! v)" "gen_ok (sum_list (map nat (shape ! v))) (first_gen rnd v)"
proof -
  have n: "v < 2 ^ 16" and d: "list_all (\<lambda>n. 0 \<le> n \<and> n \<le> 2 ^ 40) (shape ! v)" "sum_list (shape ! v) \<le> 2 ^ 60"
    using assms by (auto simp: shape_ok_def list_all_length)
  from d(1) first_gen_ok [OF n d]
  show "list_all (\<lambda>n. 0 \<le> n \<and> n \<le> 2 ^ 40) (shape ! v)" "gen_ok (sum_list (map nat (shape ! v))) (first_gen rnd v)" .
qed

lemma synth_merge:
  assumes "rand_ok rnd" "shape_ok shape"
    and f: "\<forall>v < length shape. \<forall>j < length (shape ! v). \<exists>bs. osFile (dsk' (day_path dir (venue_of v) j)) = Some bs
      \<and> day_file (venue_of v) (synth_days rnd v (shape ! v) ! j) bs"
  shows "\<exists>C. (\<forall>v < length shape. \<exists>rs. opens dsk' (map (day_path dir (venue_of v)) [0..<length (shape ! v)]) rs
        \<and> NewCursor (venue_of v) rs = Inr (C v))
    \<and> sound_cursors (map C [0..<length shape]) \<and> int (length (merge_of (map C [0..<length shape]))) = sum_list (map sum_list shape)"
proof -
  let ?n = "length shape" and ?E = "\<lambda>v. synth_days rnd v (shape ! v)"
  let ?P = "\<lambda>v. map (day_path dir (venue_of v)) [0..<length (shape ! v)]"
  note day = shape_days(1) [OF assms(2)] shape_days(2) [OF assms(2), where rnd = rnd]
  have "\<forall>v < ?n. \<exists>c. (\<exists>rs. opens dsk' (?P v) rs \<and> NewCursor (venue_of v) rs = Inr c) \<and> cursor_ok c \<and> \<not> cHasLast c
      \<and> cVenueID c = venue_of v \<and> cursor_rest c = concat (map image_events (?E v))"
    using venue_cursor [OF assms(1) day(2)] f by meson
  then obtain C where C: "\<And>v. v < ?n \<Longrightarrow> (\<exists>rs. opens dsk' (?P v) rs \<and> NewCursor (venue_of v) rs = Inr (C v)) \<and> cursor_ok (C v)
      \<and> \<not> cHasLast (C v) \<and> cVenueID (C v) = venue_of v \<and> cursor_rest (C v) = concat (map image_events (?E v))" by metis
  let ?cs = "map C [0..<?n]"
  have venues: "map cVenueID ?cs = map venue_of [0..<?n]" using C by simp
  have "distinct (map venue_of [0..<?n])" using venue_of_inj assms(2) by (auto simp: distinct_map shape_ok_def intro!: inj_onI)
  then have sc: "sound_cursors ?cs" using C unfolding sound_cursors_def venues by auto
  have "map cursor_rest ?cs = map (\<lambda>v. concat (map image_events (?E v))) [0..<?n]" using C by simp
  then have all: "concat (map cursor_rest ?cs) = concat (map (\<lambda>v. concat (map image_events (?E v))) [0..<?n])" by (rule arg_cong)
  have "live ev" if ev: "ev \<in> set (concat (map cursor_rest ?cs))" for ev
  proof -
    obtain v where "v < ?n" "ev \<in> set (concat (map image_events (?E v)))" using ev unfolding all by fastforce
    then show ?thesis using synth_live [OF assms(1) day(2)] by blast
  qed
  then have "filter live (concat (map cursor_rest ?cs)) = concat (map cursor_rest ?cs)" by (simp add: filter_id_conv)
  then have "length (merge_of ?cs) = length (concat (map cursor_rest ?cs))" unfolding merge_of_def by (simp only: length_sort)
  moreover have "\<dots> = length (concat (map (\<lambda>v. concat (map image_events (?E v))) [0..<?n]))" by (simp only: all)
  moreover have "\<dots> = sum_list (map (\<lambda>v. length (concat (map image_events (?E v)))) [0..<?n])"
    by (simp only: length_concat map_map comp_def)
  moreover have "int (sum_list (map (\<lambda>v. length (concat (map image_events (?E v)))) [0..<?n])) = sum_list (map (\<lambda>v. sum_list (shape ! v)) [0..<?n])"
  proof -
    have "map (\<lambda>v. int (length (concat (map image_events (?E v))))) [0..<?n] = map (\<lambda>v. sum_list (shape ! v)) [0..<?n]"
      using synth_length(1) [OF assms(1) day(2,1)] by (intro map_cong) (simp_all only: set_upt atLeastLessThan_iff)
    then show ?thesis by (simp only: sum_list_of_nat [symmetric] map_map comp_def)
  qed
  moreover have "map (\<lambda>v. sum_list (shape ! v)) [0..<?n] = map sum_list shape" by (rule nth_equalityI) simp_all
  ultimately have "int (length (merge_of ?cs)) = sum_list (map sum_list shape)" by simp
  with C sc show ?thesis by (intro exI [of _ C] conjI) blast+
qed

text \<open>C38: The synthetic dataset is what it says it is. On a fresh disk, whatever is drawn within the documented
  bounds, \<^verbatim>\<open>Build\<close> writes one finished file for every venue and day, with exactly the count of records the
  shape asks for, all of which open and verify; a venue's files can be read as one partition, across equal
  timestamps at their borders and empty days; and the merge of all of them gives \<^verbatim>\<open>RecordCount\<close> events in
  strictly increasing order of keys and then the end.\<close>

theorem synth_exact:
  assumes "rand_ok rnd" and "shape_ok shape" and "headerSizeFor pg = Inr hs" and "pg \<le> maxInt - 127" and "\<forall>p. fresh (dsk p)"
    and "workers > 0 \<longrightarrow> shape_valid bsh"
  shows "\<exists>ds dsk' cs m evs m'. Build rnd pg dir shape dsk = (Inr ds, dsk')
    \<and> dtShape ds = shape \<and> dtVenues ds = map venue_of [0..<length shape] \<and> map length (dtFiles ds) = map length shape
    \<and> (\<forall>v < length shape. \<forall>d < length (shape ! v). \<exists>bs r. osFile (dsk' (dtFiles ds ! v ! d)) = Some bs
          \<and> openBytes bs = Inr r \<and> VerifyAll r = None \<and> serves r (synth_days rnd v (shape ! v) ! d) \<and> Len r = shape ! v ! d)
    \<and> list_all2 (\<lambda>(venue, paths) c. \<exists>rs. opens dsk' paths rs \<and> NewCursor venue rs = Inr c) (zip (dtVenues ds) (dtFiles ds)) cs
    \<and> newMerger cs workers bsh = Inr m \<and> pulls merger_Next (nat (RecordCount ds)) m = (evs, None, m')
    \<and> length evs = nat (RecordCount ds) \<and> increasing evs \<and> fst (merger_Next m') = Inr None"
proof -
  let ?n = "length shape" and ?E = "\<lambda>v. synth_days rnd v (shape ! v)"
  let ?P = "\<lambda>v. map (day_path dir (venue_of v)) [0..<length (shape ! v)]"
  have n: "0 + ?n < 2 ^ 16" and days: "list_all (\<lambda>days. list_all (\<lambda>n. 0 \<le> n \<and> n \<le> 2 ^ 40) days \<and> sum_list days \<le> 2 ^ 60) shape"
    using assms(2) by (simp_all add: shape_ok_def)
  note day = shape_days(1) [OF assms(2)] shape_days(2) [OF assms(2), where rnd = rnd]
  define ds where "ds = \<lparr>dtShape = shape, dtVenues = map venue_of [0..<?n], dtFiles = map ?P [0..<?n]\<rparr>"
  have "\<forall>u j. 0 \<le> u \<and> u < 2 ^ 16 - 1 \<longrightarrow> fresh (dsk (day_path dir (venue_of u) j))" using assms(5) by blast
  from fill_venues_ok [where ds = "\<lparr>dtShape = shape, dtVenues = [], dtFiles = []\<rparr>" and dir = dir, OF assms(1,3,4) n days this]
  obtain dsk' where b: "Build rnd pg dir shape dsk = (Inr ds, dsk')"
    and f: "\<forall>v < ?n. \<forall>j < length (shape ! v). \<exists>bs. osFile (dsk' (day_path dir (venue_of v) j)) = Some bs \<and> day_file (venue_of v) (?E v ! j) bs"
    by (auto simp: Build_def ds_def)
  from synth_merge [OF assms(1,2) f] obtain C where
    C: "\<forall>v < ?n. \<exists>rs. opens dsk' (?P v) rs \<and> NewCursor (venue_of v) rs = Inr (C v)"
      "sound_cursors (map C [0..<?n])" "int (length (merge_of (map C [0..<?n]))) = RecordCount ds"
    by (auto simp: RecordCount_def ds_def)
  let ?cs = "map C [0..<?n]"
  have len: "length (merge_of ?cs) = nat (RecordCount ds)" by (simp add: C(3) [symmetric])
  obtain m where m: "newMerger ?cs workers bsh = Inr m" "merger_ok m" "merger_rest m = merge_of ?cs"
    using newMerger_ok [OF C(2) assms(6)] by blast
  from merger.pulls_all [OF m(2) order_refl] obtain m' where
    p: "pulls merger_Next (nat (RecordCount ds)) m = (merge_of ?cs, None, m')" "fst (merger_Next m') = Inr None"
    by (auto simp: m(3) len)
  note inc = pulls_merger_increasing [OF newMerger_agrees [OF m(1)] p(1)]
  have "\<exists>bs r. osFile (dsk' (dtFiles ds ! v ! d)) = Some bs \<and> openBytes bs = Inr r \<and> VerifyAll r = None
      \<and> serves r (?E v ! d) \<and> Len r = shape ! v ! d" if vd: "v < ?n" "d < length (shape ! v)" for v d
  proof -
    obtain bs where bs: "osFile (dsk' (day_path dir (venue_of v) d)) = Some bs" "day_file (venue_of v) (?E v ! d) bs"
      using f vd by blast
    from day_file_reader [OF bs(2)] obtain r where r: "openBytes bs = Inr r" "VerifyAll r = None" "serves r (?E v ! d)" by blast
    then have "Len r = shape ! v ! d"
      using synth_length(2) [OF assms(1) day(2,1) vd(2)] vd(1) by (simp add: serves_def)
    then show ?thesis using bs(1) r vd by (simp add: ds_def)
  qed
  moreover have "list_all2 (\<lambda>(venue, paths) c. \<exists>rs. opens dsk' paths rs \<and> NewCursor venue rs = Inr c) (zip (dtVenues ds) (dtFiles ds)) ?cs"
    using C(1) by (simp add: ds_def list_all2_conv_all_nth)
  moreover have "map length (dtFiles ds) = map length shape"
    by (rule nth_equalityI) (simp_all add: ds_def)
  moreover have "dtShape ds = shape" "dtVenues ds = map venue_of [0..<?n]" by (simp_all add: ds_def)
  ultimately show ?thesis using b m(1) p inc len by blast
qed

section \<open>The standard dataset\<close>

text \<open>A generator that counts.\<close>

definition counting_rand :: "nat rand" where
  "counting_rand = \<lparr>rndNewPCG = (\<lambda>a b. unat b), rndInt64N = (\<lambda>n g. (word_of_int (int g mod sint n), g + 1)),
     rndUint32N = (\<lambda>n g. (of_nat g mod n, g + 1)), rndUintN = (\<lambda>n g. (of_nat g mod n, g + 1))\<rparr>"

lemma counting_rand_ok: "rand_ok counting_rand"
proof -
  have "sint (word_of_int (int g mod sint n) :: i64) = int g mod sint n" if "0 < sint n" for g and n :: i64
    using that sint_lt [of n] pos_mod_bound [OF that, of "int g"] pos_mod_sign [OF that, of "int g"]
    by (simp add: signed_of_int signed_take_bit_int_eq_self)
  then show ?thesis by (simp add: rand_ok_def counting_rand_def word_mod_less_divisor)
qed

theorem synth_exact_witness:
  "\<exists>ds dsk' cs m evs m'. Standard counting_rand 4096 ''data'' (\<lambda>_. \<lparr>osFile = None, osBlob = None, osIO = []\<rparr>) = (Inr ds, dsk')
     \<and> dtVenues ds = [1, 2, 3, 4, 5] \<and> newMerger cs 4 \<lparr>shRecords = 2, shBatches = 2\<rparr> = Inr m
     \<and> pulls merger_Next 7890 m = (evs, None, m') \<and> length evs = 7890"
proof -
  have h: "headerSizeFor 4096 = Inr 4096"
    by (simp add: headerSizeFor_def headerFieldsSize_def header_bounds go_quot_def wrap64_def maxInt_def)
  have sh: "shape_ok Shape" by (simp add: shape_ok_def Shape_def)
  have pg: "(4096 :: int) \<le> maxInt - 127" by (simp add: maxInt_def)
  have fr: "\<forall>p :: string. fresh \<lparr>osFile = None, osBlob = None, osIO = []\<rparr>" by (simp add: fresh_def)
  have v: "(4 :: int) > 0 \<longrightarrow> shape_valid \<lparr>shRecords = 2, shBatches = 2\<rparr>" by (simp add: shape_valid_def)
  from synth_exact [where dir = "''data''", OF counting_rand_ok sh h pg fr v] obtain ds dsk' cs m evs m' where
    s: "Build counting_rand 4096 ''data'' Shape (\<lambda>_. \<lparr>osFile = None, osBlob = None, osIO = []\<rparr>) = (Inr ds, dsk')"
      "dtVenues ds = map venue_of [0..<length Shape]" "newMerger cs 4 \<lparr>shRecords = 2, shBatches = 2\<rparr> = Inr m"
      "pulls merger_Next (nat (RecordCount ds)) m = (evs, None, m')" "length evs = nat (RecordCount ds)" "dtShape ds = Shape"
    by (elim exE conjE)
  have "RecordCount ds = 7890" by (simp add: RecordCount_def s(6) Shape_def)
  moreover have "dtVenues ds = [1, 2, 3, 4, 5]" unfolding s(2) by (simp add: Shape_def venue_of_def upt_rec)
  ultimately show ?thesis using s(1,3-5) unfolding Standard_def by (metis nat_numeral)
qed

end
