(* ===== verification/Alloc_Gate.thy ===== *)
theory Alloc_Gate
  imports Prelude
begin

text \<open>
  The allocation gate, \<^verbatim>\<open>src/internal/allocgate/allocgate.go\<close>. A state of the process has two counters of the
  runtime, which are parameters, as are the function under test and the garbage collector.
\<close>

section \<open>The gate\<close>

definition assertRuns :: nat where "assertRuns = 200"

text \<open>\<open>msMallocs\<close> and \<open>msTotalAlloc\<close> are the fields of \<^verbatim>\<open>runtime.MemStats\<close>, both only ever increased.\<close>

record 's runtime =
  msMallocs :: "'s \<Rightarrow> u64"
  msTotalAlloc :: "'s \<Rightarrow> u64"
  rtGC :: "'s \<Rightarrow> 's"

text \<open>
  \<^verbatim>\<open>testing.AllocsPerRun\<close>: one call to warm up, then the average of the calls measured, which is an integral
  value, as its documentation says.
\<close>

definition AllocsPerRun :: "'s runtime \<Rightarrow> nat \<Rightarrow> ('s \<Rightarrow> 's) \<Rightarrow> 's \<Rightarrow> u64 \<times> 's" where
  "AllocsPerRun rt runs f s =
     (let s = f s; before = msMallocs rt s; s = (f ^^ runs) s
      in ((msMallocs rt s - before) div of_nat runs, s))"

definition bytesPerRun :: "'s runtime \<Rightarrow> nat \<Rightarrow> ('s \<Rightarrow> 's) \<Rightarrow> 's \<Rightarrow> u64 \<times> 's" where
  "bytesPerRun rt runs f s =
     (let s = f s; s = rtGC rt s; before = msTotalAlloc rt s; s = (f ^^ runs) s; after = msTotalAlloc rt s
      in (after - before, s))"

text \<open>The value of the flag \<^verbatim>\<open>test.cpuprofile\<close>, if it is registered.\<close>

definition cpuProfilingActive :: "string option \<Rightarrow> bool" where
  "cpuProfilingActive flag = (case flag of None \<Rightarrow> False | Some v \<Rightarrow> v \<noteq> '''')"

datatype verdict = Skipped | Unchecked | FatalAllocs u64 | FatalBytes u64 | Clean

definition AssertZero :: "bool \<Rightarrow> string option \<Rightarrow> 's runtime \<Rightarrow> ('s \<Rightarrow> 's) \<Rightarrow> 's \<Rightarrow> verdict \<times> 's" where
  "AssertZero raceEnabled flag rt f s =
     (if raceEnabled then (Skipped, s)
      else if cpuProfilingActive flag then (Unchecked, s)
      else case AllocsPerRun rt assertRuns f s of (got, s) \<Rightarrow>
        if got \<noteq> 0 then (FatalAllocs got, s)
        else case bytesPerRun rt assertRuns f s of (got, s) \<Rightarrow>
          if got \<noteq> 0 then (FatalBytes got, s) else (Clean, s))"

section \<open>What it lets through\<close>

text \<open>
  Both counters are cumulative: a call never decreases one. Neither tells of the other, since an allocation of
  the tiny allocator counts without growing the bytes.
\<close>

definition cumulative :: "'s runtime \<Rightarrow> ('s \<Rightarrow> 's) \<Rightarrow> bool" where
  "cumulative rt f \<longleftrightarrow> (\<forall>s. msMallocs rt s \<le> msMallocs rt (f s) \<and> msTotalAlloc rt s \<le> msTotalAlloc rt (f s))"

lemma cumulative_many:
  assumes "cumulative rt f"
  shows "msMallocs rt s \<le> msMallocs rt ((f ^^ n) s)" "msTotalAlloc rt s \<le> msTotalAlloc rt ((f ^^ n) s)"
    "msTotalAlloc rt ((f ^^ n) s) = msTotalAlloc rt s \<longleftrightarrow> (\<forall>k < n. msTotalAlloc rt ((f ^^ Suc k) s) = msTotalAlloc rt ((f ^^ k) s))"
proof -
  have step: "msMallocs rt s \<le> msMallocs rt (f s)" "msTotalAlloc rt s \<le> msTotalAlloc rt (f s)" for s
    using assms by (auto simp: cumulative_def)
  show "msMallocs rt s \<le> msMallocs rt ((f ^^ n) s)"
    by (induction n) (auto intro: order_trans [OF _ step(1)])
  show t: "msTotalAlloc rt s \<le> msTotalAlloc rt ((f ^^ n) s)" for n
    by (induction n) (auto intro: order_trans [OF _ step(2)])
  show "msTotalAlloc rt ((f ^^ n) s) = msTotalAlloc rt s \<longleftrightarrow> (\<forall>k < n. msTotalAlloc rt ((f ^^ Suc k) s) = msTotalAlloc rt ((f ^^ k) s))"
  proof (induction n)
    case (Suc n)
    have "msTotalAlloc rt ((f ^^ Suc n) s) = msTotalAlloc rt s \<longleftrightarrow> msTotalAlloc rt ((f ^^ n) s) = msTotalAlloc rt s
        \<and> msTotalAlloc rt (f ((f ^^ n) s)) = msTotalAlloc rt ((f ^^ n) s)"
      using t [of n] step(2) [of "(f ^^ n) s"] by auto
    then show ?case using Suc.IH by (auto simp: less_Suc_eq)
  qed simp
qed

lemma word_div_zero: "(x :: u64) div of_nat assertRuns = 0 \<longleftrightarrow> unat x < 200"
proof -
  have "unat (x div of_nat assertRuns) = unat x div 200" by (simp add: assertRuns_def unat_div)
  then show ?thesis by (simp add: word_unat_eq_iff div_eq_0_iff)
qed


text \<open>A cache that is filled by the second call: one allocation after the warm-up, and the gate is clean.\<close>

definition late_cache :: "nat runtime" where
  "late_cache = \<lparr>msMallocs = (\<lambda>n. if n < 2 then 0 else 1), msTotalAlloc = (\<lambda>n. if n < 2 then 0 else 64), rtGC = id\<rparr>"


end
