(* ===== verification/Lint.thy ===== *)
theory Lint
  imports Prelude "HOL-Library.Sublist"
begin

text \<open>
  The determinism rules, \<^verbatim>\<open>src/cmd/lint-determinism\<close>. What the rules look at of a package, its syntax and the
  types of its expressions, is data here: the parser, the type checker and the inspector that lists the
  nodes in preorder are not part of the program.
\<close>

section \<open>Packages\<close>

type_synonym pos = nat

record position =
  pnFilename :: string
  pnLine :: nat

text \<open>The underlying type of an expression: an interface with its number of methods, a map, or another.\<close>

datatype underlying = UInterface nat | UMap | UOther

text \<open>
  An expression has its position and, if the checker knows it, its type. An identifier that names an
  imported package has the path of that package.
\<close>

datatype expr =
    Ident (exPos: pos) (exType: "underlying option") (idImported: "string option")
  | SelectorExpr (exPos: pos) (exType: "underlying option") (seX: expr) (seSel: string)
  | CallExpr (exPos: pos) (exType: "underlying option") (ceFun: expr) (ceArgs: "expr list")
  | TypeAssertExpr (exPos: pos) (exType: "underlying option") (taX: expr) (taType: "expr option")
  | OtherExpr (exPos: pos) (exType: "underlying option")

datatype guard = ExprStmt expr | AssignStmt "expr list" | OtherStmt

record funcType =
  ftParams :: "expr list"
  ftResults :: "expr list option"

text \<open>A clause of a select has a communication unless it is the default.\<close>

datatype node =
    NExpr expr
  | NRange pos expr
  | NSelect pos "bool list"
  | NFuncDecl funcType
  | NFuncLit funcType
  | NTypeSwitch guard

record comment =
  cmPos :: pos
  cmText :: string

record importSpec =
  imPos :: pos
  imPath :: string

record astFile =
  afPos :: pos
  afImports :: "importSpec list"
  afComments :: "comment list list"

record pass =
  psPath :: string
  psFiles :: "astFile list"
  psNodes :: "node list"
  psPosition :: "pos \<Rightarrow> position"

section \<open>Scope\<close>

definition HasPrefix :: "string \<Rightarrow> string \<Rightarrow> bool" where
  "HasPrefix s p = (take (length p) s = p)"

definition HasSuffix :: "string \<Rightarrow> string \<Rightarrow> bool" where
  "HasSuffix s p = (length p \<le> length s \<and> drop (length s - length p) s = p)"

primrec strings_Contains :: "string \<Rightarrow> string \<Rightarrow> bool" where
  "strings_Contains [] p = (p = [])"
| "strings_Contains (c # s) p = (HasPrefix (c # s) p \<or> strings_Contains s p)"

definition inPathSegment :: "string \<Rightarrow> string \<Rightarrow> bool" where
  "inPathSegment pkgPath seg =
     (pkgPath = seg \<or> HasPrefix pkgPath (seg @ ''/'') \<or> HasSuffix pkgPath (''/'' @ seg)
      \<or> strings_Contains pkgPath (''/'' @ seg @ ''/''))"

definition hotPath :: "string \<Rightarrow> bool" where
  "hotPath pkgPath = (inPathSegment pkgPath ''internal/merge'' \<or> inPathSegment pkgPath ''internal/fanout'')"

definition orderedPath :: "string \<Rightarrow> bool" where
  "orderedPath pkgPath =
     (hotPath pkgPath \<or> inPathSegment pkgPath ''internal/store'' \<or> inPathSegment pkgPath ''internal/book''
      \<or> inPathSegment pkgPath ''cmd/convert'' \<or> inPathSegment pkgPath ''bench'')"

section \<open>Suppression\<close>

record Suppression =
  spFile :: string
  spRule :: string
  spReason :: string

definition Allowlist :: "Suppression list" where "Allowlist = []"

text \<open>The blanks of a regular expression, and the part of a text after a prefix.\<close>

definition blank :: "char \<Rightarrow> bool" where
  "blank c \<longleftrightarrow> c = CHR '' '' \<or> c = CHR 0x09 \<or> c = CHR 0x0A \<or> c = CHR 0x0C \<or> c = CHR 0x0D"

definition after :: "string \<Rightarrow> string \<Rightarrow> string option" where
  "after p s = (if HasPrefix s p then Some (drop (length p) s) else None)"

definition after_blanks :: "string \<Rightarrow> string option" where
  "after_blanks s = (if s \<noteq> [] \<and> blank (hd s) then Some (dropWhile blank s) else None)"

text \<open>
  The rule in a comment that matches the regular expression \<^verbatim>\<open>suppressCommentRE\<close>, whose parts each end where
  the next has to begin.
\<close>

definition comment_rule :: "string \<Rightarrow> string option" where
  "comment_rule text =
     (case after ''//'' text of None \<Rightarrow> None | Some s \<Rightarrow>
      case after ''lint-determinism:ignore'' (dropWhile blank s) of None \<Rightarrow> None | Some s \<Rightarrow>
      case after_blanks s of None \<Rightarrow> None | Some s \<Rightarrow>
      let rule = takeWhile (\<lambda>c. \<not> blank c) s in
      case after_blanks (dropWhile (\<lambda>c. \<not> blank c) s) of None \<Rightarrow> None | Some s \<Rightarrow>
      case after (''reason='' @ [CHR 0x22]) s of None \<Rightarrow> None | Some s \<Rightarrow>
      case after [CHR 0x22] (dropWhile (\<lambda>c. c \<noteq> CHR 0x22) s) of None \<Rightarrow> None | Some s \<Rightarrow>
      if rule \<noteq> [] \<and> list_all blank s then Some rule else None)"

definition commentRule :: "pass \<Rightarrow> astFile \<Rightarrow> pos \<Rightarrow> string" where
  "commentRule pass file pos =
     (let target = pnLine (psPosition pass pos) in
      fold (\<lambda>c rule. let line = pnLine (psPosition pass (cmPos c)) in
          if line \<noteq> target \<and> Suc line \<noteq> target then rule
          else case comment_rule (cmText c) of None \<Rightarrow> rule | Some m \<Rightarrow> m)
        (concat (afComments file)) '''')"

text \<open>\<open>None\<close>: a file that is \<^verbatim>\<open>nil\<close> is dereferenced.\<close>

definition isSuppressed :: "Suppression list \<Rightarrow> pass \<Rightarrow> astFile option \<Rightarrow> pos \<Rightarrow> string \<Rightarrow> bool option" where
  "isSuppressed allowlist pass file pos rule =
     (case file of None \<Rightarrow> None | Some file \<Rightarrow>
      if commentRule pass file pos \<noteq> rule then Some False
      else Some (list_ex (\<lambda>a. spRule a = rule \<and> HasSuffix (pnFilename (psPosition pass pos)) (spFile a)) allowlist))"

type_synonym diagnostic = "string \<times> pos"

definition report :: "Suppression list \<Rightarrow> pass \<Rightarrow> astFile option \<Rightarrow> pos \<Rightarrow> string \<Rightarrow> diagnostic list option" where
  "report allowlist pass file pos rule =
     map_option (\<lambda>suppressed. if suppressed then [] else [(rule, pos)]) (isSuppressed allowlist pass file pos rule)"

primrec collect :: "('a \<Rightarrow> diagnostic list option) \<Rightarrow> 'a list \<Rightarrow> diagnostic list option" where
  "collect f [] = Some []"
| "collect f (x # xs) =
     (case f x of None \<Rightarrow> None | Some ds \<Rightarrow> map_option (\<lambda>ds'. ds @ ds') (collect f xs))"

section \<open>Imports\<close>

definition ruleNoContainerHeap :: string where "ruleNoContainerHeap = ''no-container-heap''"
definition ruleNoRandV1 :: string where "ruleNoRandV1 = ''no-rand-v1''"
definition ruleNoHashMaphash :: string where "ruleNoHashMaphash = ''no-hash-maphash''"

text \<open>\<^verbatim>\<open>strconv.Unquote\<close> of a literal without escapes; \<open>unquote_escaped\<close> is what it does with one that has some.\<close>

definition Unquote :: "(string \<Rightarrow> string option) \<Rightarrow> string \<Rightarrow> string option" where
  "Unquote unquote_escaped s =
     (if length s < 2 \<or> hd s \<noteq> last s then None
      else let inner = butlast (tl s) in
        if hd s = CHR 0x60 \<and> CHR 0x60 \<notin> set inner \<and> CHR 0x0D \<notin> set inner then Some inner
        else if hd s = CHR 0x22 \<and> CHR 0x22 \<notin> set inner \<and> CHR 0x5C \<notin> set inner \<and> CHR 0x0A \<notin> set inner then Some inner
        else unquote_escaped s)"

definition newBannedImportAnalyzer ::
    "(string \<Rightarrow> string option) \<Rightarrow> string \<Rightarrow> string \<Rightarrow> Suppression list \<Rightarrow> pass \<Rightarrow> diagnostic list option" where
  "newBannedImportAnalyzer unquote_escaped rule importPath allowlist pass =
     collect (\<lambda>file. collect (\<lambda>imp.
         if Unquote unquote_escaped (imPath imp) \<noteq> Some importPath then Some []
         else report allowlist pass (Some file) (imPos imp) rule) (afImports file)) (psFiles pass)"

section \<open>Nodes\<close>

text \<open>A later file of the same name wins.\<close>

definition fileIndex :: "pass \<Rightarrow> string \<Rightarrow> astFile option" where
  "fileIndex pass = map_of (rev (map (\<lambda>f. (pnFilename (psPosition pass (afPos f)), f)) (psFiles pass)))"

definition file_at :: "pass \<Rightarrow> pos \<Rightarrow> astFile option" where
  "file_at pass pos = fileIndex pass (pnFilename (psPosition pass pos))"

text \<open>The selector \<^verbatim>\<open>pkg.name\<close> that an expression is, if \<^verbatim>\<open>pkg\<close> names the imported package.\<close>

definition selects :: "string \<Rightarrow> expr \<Rightarrow> string option" where
  "selects path e =
     (case e of
        SelectorExpr p t x name \<Rightarrow>
          (case x of Ident p t imported \<Rightarrow> if imported = Some path then Some name else None | _ \<Rightarrow> None)
      | _ \<Rightarrow> None)"

definition banned_call :: "string \<Rightarrow> string list \<Rightarrow> node \<Rightarrow> pos option" where
  "banned_call path names n =
     (case n of
        NExpr (CallExpr p t f args) \<Rightarrow>
          (case selects path f of None \<Rightarrow> None | Some name \<Rightarrow> if name \<in> set names then Some p else None)
      | _ \<Rightarrow> None)"

definition ruleNoTimeNow :: string where "ruleNoTimeNow = ''no-time-now''"

definition bannedTimeFuncs :: "string list" where
  "bannedTimeFuncs = [''Now'', ''Since'', ''After'', ''Tick'', ''Sleep'', ''NewTimer'', ''NewTicker'']"

definition isRealClockFile :: "pass \<Rightarrow> astFile \<Rightarrow> bool" where
  "isRealClockFile pass file = HasSuffix (pnFilename (psPosition pass (afPos file))) ''internal/clock/realclock.go''"

definition runNoTimeNow :: "Suppression list \<Rightarrow> pass \<Rightarrow> diagnostic list option" where
  "runNoTimeNow allowlist pass =
     collect (\<lambda>n. case banned_call ''time'' bannedTimeFuncs n of
         None \<Rightarrow> Some []
       | Some p \<Rightarrow>
           (let file = file_at pass p in
            if file \<noteq> None \<and> isRealClockFile pass (the file) then Some []
            else report allowlist pass file p ruleNoTimeNow)) (psNodes pass)"

definition ruleNoFmtSprintHotPath :: string where "ruleNoFmtSprintHotPath = ''no-fmt-sprint-hot-path''"

definition bannedFmtFuncs :: "string list" where
  "bannedFmtFuncs = [''Sprint'', ''Sprintf'', ''Errorf'']"

definition runNoFmtSprintHotPath :: "Suppression list \<Rightarrow> pass \<Rightarrow> diagnostic list option" where
  "runNoFmtSprintHotPath allowlist pass =
     (if \<not> hotPath (psPath pass) then Some []
      else collect (\<lambda>n. case banned_call ''fmt'' bannedFmtFuncs n of
             None \<Rightarrow> Some []
           | Some p \<Rightarrow> report allowlist pass (file_at pass p) p ruleNoFmtSprintHotPath) (psNodes pass))"

definition ruleNoMapRangeOrdered :: string where "ruleNoMapRangeOrdered = ''no-map-range-ordered''"

definition runNoMapRangeOrdered :: "Suppression list \<Rightarrow> pass \<Rightarrow> diagnostic list option" where
  "runNoMapRangeOrdered allowlist pass =
     (if \<not> orderedPath (psPath pass) then Some []
      else collect (\<lambda>n. case n of
             NRange p x \<Rightarrow>
               if exType x = Some UMap then report allowlist pass (file_at pass p) p ruleNoMapRangeOrdered else Some []
           | _ \<Rightarrow> Some []) (psNodes pass))"

definition ruleNoMultiSelect :: string where "ruleNoMultiSelect = ''no-multi-select''"

definition runNoMultiSelect :: "Suppression list \<Rightarrow> pass \<Rightarrow> diagnostic list option" where
  "runNoMultiSelect allowlist pass =
     (if \<not> hotPath (psPath pass) then Some []
      else collect (\<lambda>n. case n of
             NSelect p clauses \<Rightarrow>
               if length (filter id clauses) \<le> 1 then Some []
               else report allowlist pass (file_at pass p) p ruleNoMultiSelect
           | _ \<Rightarrow> Some []) (psNodes pass))"

definition ruleNoSyncMap :: string where "ruleNoSyncMap = ''no-sync-map''"

definition runNoSyncMap :: "Suppression list \<Rightarrow> pass \<Rightarrow> diagnostic list option" where
  "runNoSyncMap allowlist pass =
     collect (\<lambda>n. case n of
         NExpr e \<Rightarrow> if selects ''sync'' e = Some ''Map'' then report allowlist pass (file_at pass (exPos e)) (exPos e) ruleNoSyncMap
           else Some []
       | _ \<Rightarrow> Some []) (psNodes pass)"

definition ruleNoAnyHotPath :: string where "ruleNoAnyHotPath = ''no-any-hot-path''"

definition flagIfEmptyInterface :: "Suppression list \<Rightarrow> pass \<Rightarrow> expr \<Rightarrow> diagnostic list option" where
  "flagIfEmptyInterface allowlist pass e =
     (if exType e = Some (UInterface 0) then report allowlist pass (file_at pass (exPos e)) (exPos e) ruleNoAnyHotPath
      else Some [])"

definition checkFuncType :: "Suppression list \<Rightarrow> pass \<Rightarrow> funcType \<Rightarrow> diagnostic list option" where
  "checkFuncType allowlist pass ft =
     collect (flagIfEmptyInterface allowlist pass)
       (ftParams ft @ (case ftResults ft of None \<Rightarrow> [] | Some rs \<Rightarrow> rs))"

text \<open>The assertion in the guard of a type switch.\<close>

definition guard_expr :: "guard \<Rightarrow> expr option" where
  "guard_expr g =
     (case g of ExprStmt e \<Rightarrow> Some e | AssignStmt rhs \<Rightarrow> if length rhs = 1 then Some (rhs ! 0) else None | OtherStmt \<Rightarrow> None)"

definition check_any :: "Suppression list \<Rightarrow> pass \<Rightarrow> node \<Rightarrow> diagnostic list option" where
  "check_any allowlist pass n =
     (case n of
        NFuncDecl ft \<Rightarrow> checkFuncType allowlist pass ft
      | NFuncLit ft \<Rightarrow> checkFuncType allowlist pass ft
      | NExpr (TypeAssertExpr p t x ty) \<Rightarrow> if ty = None then Some [] else flagIfEmptyInterface allowlist pass x
      | NTypeSwitch g \<Rightarrow>
          (case guard_expr g of Some (TypeAssertExpr p t x ty) \<Rightarrow> flagIfEmptyInterface allowlist pass x | _ \<Rightarrow> Some [])
      | _ \<Rightarrow> Some [])"

definition runNoAnyHotPath :: "Suppression list \<Rightarrow> pass \<Rightarrow> diagnostic list option" where
  "runNoAnyHotPath allowlist pass =
     (if \<not> hotPath (psPath pass) then Some [] else collect (check_any allowlist pass) (psNodes pass))"

section \<open>All rules\<close>

definition allAnalyzers :: "(string \<Rightarrow> string option) \<Rightarrow> (Suppression list \<Rightarrow> pass \<Rightarrow> diagnostic list option) list" where
  "allAnalyzers unquote_escaped =
     [runNoTimeNow, runNoMultiSelect, runNoMapRangeOrdered,
      newBannedImportAnalyzer unquote_escaped ruleNoContainerHeap ''container/heap'',
      newBannedImportAnalyzer unquote_escaped ruleNoRandV1 ''math/rand'',
      runNoSyncMap,
      newBannedImportAnalyzer unquote_escaped ruleNoHashMaphash ''hash/maphash'',
      runNoFmtSprintHotPath, runNoAnyHotPath]"

definition lint :: "(string \<Rightarrow> string option) \<Rightarrow> pass \<Rightarrow> diagnostic list option" where
  "lint unquote_escaped pass = collect (\<lambda>run. run Allowlist pass) (allAnalyzers unquote_escaped)"

end
