(* ===== verification/Lint_Correct.thy ===== *)
theory Lint_Correct
  imports Lint
begin

text \<open>
  What the determinism rules report: the scope of a rule in terms of the segments of a path, every
  violation and nothing else, and what suppression does.
\<close>

section \<open>Texts\<close>

lemma HasPrefix_iff: "HasPrefix s p \<longleftrightarrow> (\<exists>r. s = p @ r)"
  by (auto simp: HasPrefix_def) (metis append_take_drop_id)

lemma HasSuffix_iff: "HasSuffix s p \<longleftrightarrow> (\<exists>l. s = l @ p)"
proof
  assume h: "HasSuffix s p"
  have "s = take (length s - length p) s @ drop (length s - length p) s" by simp
  with h show "\<exists>l. s = l @ p" by (metis HasSuffix_def)
qed (auto simp: HasSuffix_def)

lemma Contains_iff: "strings_Contains s p \<longleftrightarrow> (\<exists>l r. s = l @ p @ r)"
proof (induction s)
  case (Cons c s)
  have "(\<exists>l r. c # s = l @ p @ r) \<longleftrightarrow> (\<exists>r. c # s = p @ r) \<or> (\<exists>l r. s = l @ p @ r)"
    by (metis append_Cons append_eq_Cons_conv)
  then show ?case using Cons.IH by (simp add: HasPrefix_iff)
qed simp

section \<open>Segments of a path\<close>

function segments :: "string \<Rightarrow> string list" where
  "segments s = takeWhile (\<lambda>c. c \<noteq> CHR ''/'') s #
     (case dropWhile (\<lambda>c. c \<noteq> CHR ''/'') s of [] \<Rightarrow> [] | c # r \<Rightarrow> segments r)"
  by auto
termination
proof (relation "measure length")
  fix s c r assume "dropWhile (\<lambda>c. c \<noteq> CHR ''/'') s = (c # r :: string)"
  then show "(r, s) \<in> measure length"
    using length_dropWhile_le [of "\<lambda>c. c \<noteq> CHR ''/''" s] by simp
qed simp

declare segments.simps [simp del]

fun join :: "string list \<Rightarrow> string" where
  "join [] = []"
| "join [x] = x"
| "join (x # xs) = x @ CHR ''/'' # join xs"

lemma segments_append: "segments (a @ CHR ''/'' # b) = segments a @ segments b"
proof (induction a rule: segments.induct)
  case (1 a)
  show ?case
  proof (cases "dropWhile (\<lambda>c. c \<noteq> CHR ''/'') a")
    case Nil
    then have "\<forall>c \<in> set a. c \<noteq> CHR ''/''" by (simp add: dropWhile_eq_Nil_conv)
    then have t: "takeWhile (\<lambda>c. c \<noteq> CHR ''/'') a = a" by (rule takeWhile_eq_all_conv [THEN iffD2])
    have "takeWhile (\<lambda>c. c \<noteq> CHR ''/'') (a @ CHR ''/'' # b) = a" "dropWhile (\<lambda>c. c \<noteq> CHR ''/'') (a @ CHR ''/'' # b) = CHR ''/'' # b"
      using \<open>\<forall>c \<in> set a. c \<noteq> CHR ''/''\<close> by simp_all
    with segments.simps [of "a @ CHR ''/'' # b"] have "segments (a @ CHR ''/'' # b) = a # segments b" by (simp only: list.case)
    moreover have "segments a = [a]" using segments.simps [of a] by (simp only: t Nil list.case)
    ultimately show ?thesis by simp
  next
    case (Cons c r)
    then have "dropWhile (\<lambda>c. c \<noteq> CHR ''/'') a \<noteq> []" by (simp only: list.distinct not_False_eq_True)
    then have "\<exists>x \<in> set a. \<not> x \<noteq> CHR ''/''" unfolding dropWhile_eq_Nil_conv by blast
    then obtain x where x: "x \<in> set a" "\<not> x \<noteq> CHR ''/''" by blast
    have "takeWhile (\<lambda>c. c \<noteq> CHR ''/'') (a @ CHR ''/'' # b) = takeWhile (\<lambda>c. c \<noteq> CHR ''/'') a"
      "dropWhile (\<lambda>c. c \<noteq> CHR ''/'') (a @ CHR ''/'' # b) = c # r @ CHR ''/'' # b"
      using takeWhile_append1 [where P = "\<lambda>c. c \<noteq> CHR ''/''", OF x] dropWhile_append1 [where P = "\<lambda>c. c \<noteq> CHR ''/''", OF x] Cons
      by simp_all
    then show ?thesis using 1 [OF Cons] by (subst segments.simps) (simp add: segments.simps [of a] Cons)
  qed
qed

lemma segments_neq_Nil: "segments s \<noteq> []"
  by (subst segments.simps) simp

lemma join_append: "xs \<noteq> [] \<Longrightarrow> ys \<noteq> [] \<Longrightarrow> join (xs @ ys) = join xs @ CHR ''/'' # join ys"
proof (induction xs rule: join.induct)
  case (2 x)
  then show ?case by (cases ys) simp_all
qed simp_all

lemma join_segments: "join (segments s) = s"
proof (induction s rule: segments.induct)
  case (1 s)
  show ?case
  proof (cases "dropWhile (\<lambda>c. c \<noteq> CHR ''/'') s")
    case Nil
    then have "takeWhile (\<lambda>c. c \<noteq> CHR ''/'') s = s" by (simp add: takeWhile_eq_all_conv [THEN iffD2] dropWhile_eq_Nil_conv)
    then show ?thesis by (simp add: segments.simps [of s] Nil)
  next
    case (Cons c r)
    then have "c = CHR ''/''" using hd_dropWhile [of "\<lambda>c. c \<noteq> CHR ''/''" s] by simp
    moreover have "join (x # segments r) = x @ CHR ''/'' # r" for x
      using join_append [of "[x]" "segments r"] segments_neq_Nil 1 [OF Cons] by simp
    ultimately show ?thesis
      using takeWhile_dropWhile_id [of "\<lambda>c. c \<noteq> CHR ''/''" s] Cons by (subst segments.simps) simp
  qed
qed

text \<open>A rule's scope is a matter of whole path segments: a package is in it exactly when the segments of
  the pattern are consecutive segments of its path. So \<^verbatim>\<open>internal/merger\<close> is not \<^verbatim>\<open>internal/merge\<close>,
  wherever it stands.\<close>

lemma inPathSegment_segments: "inPathSegment pkgPath seg \<longleftrightarrow> sublist (segments seg) (segments pkgPath)"
proof
  assume "inPathSegment pkgPath seg"
  then consider "pkgPath = seg" | r where "pkgPath = seg @ CHR ''/'' # r" | l where "pkgPath = l @ CHR ''/'' # seg"
    | l r where "pkgPath = l @ CHR ''/'' # seg @ CHR ''/'' # r"
    by (auto simp: inPathSegment_def HasPrefix_iff HasSuffix_iff Contains_iff)
  then show "sublist (segments seg) (segments pkgPath)"
  proof cases
    case 2
    then show ?thesis using sublist_appendI [of "segments seg" "[]" "segments r"] by (simp add: segments_append)
  next
    case 3
    then show ?thesis using sublist_appendI [of "segments seg" "segments l" "[]"] by (simp add: segments_append)
  next
    case 4
    then show ?thesis using sublist_appendI [of "segments seg" "segments l" "segments r"] by (simp add: segments_append)
  qed simp
next
  assume "sublist (segments seg) (segments pkgPath)"
  then obtain ps ss where s: "segments pkgPath = ps @ segments seg @ ss" by (auto simp: sublist_def)
  have p: "pkgPath = join (ps @ segments seg @ ss)" using join_segments [of pkgPath] by (simp add: s)
  have m: "join (segments seg @ ss) = (if ss = [] then seg else seg @ CHR ''/'' # join ss)"
    using join_append [of "segments seg" ss] by (simp add: segments_neq_Nil join_segments)
  show "inPathSegment pkgPath seg"
  proof (cases "ps = []")
    case True
    then show ?thesis using p m by (auto simp: inPathSegment_def HasPrefix_iff)
  next
    case False
    then have "pkgPath = join ps @ CHR ''/'' # join (segments seg @ ss)" using join_append [of ps "segments seg @ ss"] p
      by (simp add: segments_neq_Nil)
    then show ?thesis using m by (auto simp: inPathSegment_def HasSuffix_iff Contains_iff split: if_splits)
  qed
qed

section \<open>Every violation and nothing else\<close>

text \<open>
  What the rules forbid, over the segments of the package's path. \<open>flagged\<close> are the expressions whose type
  must not be the empty interface on the hot path.
\<close>

definition in_scope :: "string list \<Rightarrow> pass \<Rightarrow> bool" where
  "in_scope segs pass \<longleftrightarrow> list_ex (\<lambda>seg. sublist (segments seg) (segments (psPath pass))) segs"

definition hot :: "string list" where "hot = [''internal/merge'', ''internal/fanout'']"
definition ordered :: "string list" where "ordered = hot @ [''internal/store'', ''internal/book'', ''cmd/convert'', ''bench'']"

inductive flagged :: "node \<Rightarrow> expr \<Rightarrow> bool" where
  param: "e \<in> set (ftParams ft) \<Longrightarrow> flagged (NFuncDecl ft) e"
| result: "ftResults ft = Some rs \<Longrightarrow> e \<in> set rs \<Longrightarrow> flagged (NFuncDecl ft) e"
| lit_param: "e \<in> set (ftParams ft) \<Longrightarrow> flagged (NFuncLit ft) e"
| lit_result: "ftResults ft = Some rs \<Longrightarrow> e \<in> set rs \<Longrightarrow> flagged (NFuncLit ft) e"
| asserted: "flagged (NExpr (TypeAssertExpr p t e (Some ty))) e"
| switched: "flagged (NTypeSwitch (ExprStmt (TypeAssertExpr p t e ty))) e"
| assigned: "flagged (NTypeSwitch (AssignStmt [TypeAssertExpr p t e ty])) e"

inductive violates :: "(string \<Rightarrow> string option) \<Rightarrow> pass \<Rightarrow> string \<Rightarrow> pos \<Rightarrow> bool" for unq pass where
  imports_banned: "(rule, path) \<in> {(''no-container-heap'', ''container/heap''), (''no-rand-v1'', ''math/rand''), (''no-hash-maphash'', ''hash/maphash'')} \<Longrightarrow>
    f \<in> set (psFiles pass) \<Longrightarrow> imp \<in> set (afImports f) \<Longrightarrow> Unquote unq (imPath imp) = Some path \<Longrightarrow>
    violates unq pass rule (imPos imp)"
| reads_clock: "NExpr (CallExpr p t (SelectorExpr p' t' (Ident p'' t'' (Some ''time'')) name) args) \<in> set (psNodes pass) \<Longrightarrow>
    name \<in> {''Now'', ''Since'', ''After'', ''Tick'', ''Sleep'', ''NewTimer'', ''NewTicker''} \<Longrightarrow>
    \<not> HasSuffix (pnFilename (psPosition pass p)) ''internal/clock/realclock.go'' \<Longrightarrow>
    violates unq pass ''no-time-now'' p"
| formats: "NExpr (CallExpr p t (SelectorExpr p' t' (Ident p'' t'' (Some ''fmt'')) name) args) \<in> set (psNodes pass) \<Longrightarrow>
    name \<in> {''Sprint'', ''Sprintf'', ''Errorf''} \<Longrightarrow> in_scope hot pass \<Longrightarrow> violates unq pass ''no-fmt-sprint-hot-path'' p"
| ranges: "NRange p x \<in> set (psNodes pass) \<Longrightarrow> exType x = Some UMap \<Longrightarrow> in_scope ordered pass \<Longrightarrow>
    violates unq pass ''no-map-range-ordered'' p"
| selects_many: "NSelect p clauses \<in> set (psNodes pass) \<Longrightarrow> 2 \<le> length (filter id clauses) \<Longrightarrow> in_scope hot pass \<Longrightarrow>
    violates unq pass ''no-multi-select'' p"
| sync_map: "NExpr (SelectorExpr p t (Ident p' t' (Some ''sync'')) ''Map'') \<in> set (psNodes pass) \<Longrightarrow>
    violates unq pass ''no-sync-map'' p"
| empty_interface: "n \<in> set (psNodes pass) \<Longrightarrow> flagged n e \<Longrightarrow> exType e = Some (UInterface 0) \<Longrightarrow> in_scope hot pass \<Longrightarrow>
    violates unq pass ''no-any-hot-path'' (exPos e)"

lemmas rule_names = ruleNoContainerHeap_def ruleNoRandV1_def ruleNoHashMaphash_def ruleNoTimeNow_def ruleNoFmtSprintHotPath_def
  ruleNoMapRangeOrdered_def ruleNoMultiSelect_def ruleNoSyncMap_def ruleNoAnyHotPath_def

lemma banned_names:
  "name \<in> set bannedTimeFuncs \<longleftrightarrow> name \<in> {''Now'', ''Since'', ''After'', ''Tick'', ''Sleep'', ''NewTimer'', ''NewTicker''}"
  "name \<in> set bannedFmtFuncs \<longleftrightarrow> name \<in> {''Sprint'', ''Sprintf'', ''Errorf''}"
  unfolding bannedTimeFuncs_def bannedFmtFuncs_def by (simp_all only: list.set)

inductive_simps flagged_decl: "flagged (NFuncDecl ft) e"
inductive_simps flagged_lit: "flagged (NFuncLit ft) e"
inductive_simps flagged_expr: "flagged (NExpr x) e"
inductive_simps flagged_range: "flagged (NRange p x) e"
inductive_simps flagged_select: "flagged (NSelect p clauses) e"
inductive_simps flagged_switch: "flagged (NTypeSwitch g) e"

lemmas flagged_simps = flagged_decl flagged_lit flagged_expr flagged_range flagged_select flagged_switch

text \<open>The positions of the package's syntax, each in one of its files. What other positions are named, that of
  no position or of another package, does not matter.\<close>

fun expr_positions :: "expr \<Rightarrow> pos set" where
  "expr_positions (Ident p t imported) = {p}"
| "expr_positions (SelectorExpr p t x name) = insert p (expr_positions x)"
| "expr_positions (CallExpr p t f args) = insert p (expr_positions f \<union> (\<Union>x \<in> set args. expr_positions x))"
| "expr_positions (TypeAssertExpr p t x ty) = insert p (expr_positions x \<union> (case ty of None \<Rightarrow> {} | Some y \<Rightarrow> expr_positions y))"
| "expr_positions (OtherExpr p t) = {p}"

definition guard_positions :: "guard \<Rightarrow> pos set" where
  "guard_positions g = (case g of ExprStmt e \<Rightarrow> expr_positions e | AssignStmt es \<Rightarrow> (\<Union>e \<in> set es. expr_positions e) | OtherStmt \<Rightarrow> {})"

definition type_positions :: "funcType \<Rightarrow> pos set" where
  "type_positions ft =
     (\<Union>e \<in> set (ftParams ft). expr_positions e) \<union> (case ftResults ft of None \<Rightarrow> {} | Some rs \<Rightarrow> \<Union>e \<in> set rs. expr_positions e)"

fun node_positions :: "node \<Rightarrow> pos set" where
  "node_positions (NExpr e) = expr_positions e"
| "node_positions (NRange p x) = insert p (expr_positions x)"
| "node_positions (NSelect p clauses) = {p}"
| "node_positions (NFuncDecl ft) = type_positions ft"
| "node_positions (NFuncLit ft) = type_positions ft"
| "node_positions (NTypeSwitch g) = guard_positions g"

definition located :: "pass \<Rightarrow> bool" where
  "located pass \<longleftrightarrow> (\<forall>n \<in> set (psNodes pass). \<forall>p \<in> node_positions n.
     \<exists>f \<in> set (psFiles pass). pnFilename (psPosition pass (afPos f)) = pnFilename (psPosition pass p))"

lemma expr_position [simp]: "exPos e \<in> expr_positions e"
  by (cases e) simp_all

lemma flagged_position: "flagged n e \<Longrightarrow> exPos e \<in> node_positions n"
proof (induction rule: flagged.induct)
  case (result ft rs e)
  then show ?case by (simp add: type_positions_def) (metis expr_position)
next
  case (lit_result ft rs e)
  then show ?case by (simp add: type_positions_def) (metis expr_position)
qed (simp_all add: type_positions_def guard_positions_def, (metis expr_position)+)

lemma file_at_Some: "file_at pass p = Some f \<Longrightarrow> pnFilename (psPosition pass (afPos f)) = pnFilename (psPosition pass p)"
  unfolding file_at_def fileIndex_def by (drule map_of_SomeD) auto

definition placed :: "pass \<Rightarrow> pos \<Rightarrow> bool" where
  "placed pass p \<longleftrightarrow> (\<exists>f. file_at pass p = Some f)"

lemma located_nodes: "n \<in> set (psNodes pass) \<Longrightarrow> located pass \<Longrightarrow> \<forall>p \<in> node_positions n. placed pass p"
proof
  fix p assume "located pass" "n \<in> set (psNodes pass)" "p \<in> node_positions n"
  then have "pnFilename (psPosition pass p) \<in> fst ` set (rev (map (\<lambda>f. (pnFilename (psPosition pass (afPos f)), f)) (psFiles pass)))"
    unfolding located_def by (simp add: image_image) (metis imageI)
  then have "file_at pass p \<noteq> None" unfolding file_at_def fileIndex_def map_of_eq_None_iff by simp
  then show "placed pass p" unfolding placed_def by blast
qed

lemma report_all: "file \<noteq> None \<Longrightarrow> report Allowlist pass file p rule = Some [(rule, p)]"
proof -
  assume "file \<noteq> None"
  then obtain f where "file = Some f" by blast
  moreover have "isSuppressed Allowlist pass (Some f) p rule = Some False" unfolding isSuppressed_def Allowlist_def by simp
  ultimately show ?thesis unfolding report_def by simp
qed

lemma collect_total:
  assumes "\<And>x. x \<in> set xs \<Longrightarrow> \<exists>ds. f x = Some ds \<and> set ds = S x"
  shows "\<exists>ds. collect f xs = Some ds \<and> set ds = (\<Union>x \<in> set xs. S x)"
  using assms
proof (induction xs)
  case (Cons x xs)
  then obtain ds ds' where "f x = Some ds" "set ds = S x" "collect f xs = Some ds'" "set ds' = (\<Union>x \<in> set xs. S x)"
    by (meson list.set_intros)
  then show ?case by simp
qed simp

lemma hotPath_scope: "hotPath (psPath pass) \<longleftrightarrow> in_scope hot pass" "orderedPath (psPath pass) \<longleftrightarrow> in_scope ordered pass"
  by (simp_all add: hotPath_def orderedPath_def in_scope_def hot_def ordered_def inPathSegment_segments)

text \<open>What each rule reports.\<close>

definition clock_reads :: "pass \<Rightarrow> (string \<times> pos) set" where
  "clock_reads pass = (\<Union>n \<in> set (psNodes pass). {(ruleNoTimeNow, p) | p.
    banned_call ''time'' bannedTimeFuncs n = Some p \<and> \<not> HasSuffix (pnFilename (psPosition pass p)) ''internal/clock/realclock.go''})"

definition wide_selects :: "pass \<Rightarrow> (string \<times> pos) set" where
  "wide_selects pass = (if in_scope hot pass then
    \<Union>n \<in> set (psNodes pass). {(ruleNoMultiSelect, p) | p. \<exists>clauses. n = NSelect p clauses \<and> 2 \<le> length (filter id clauses)} else {})"

definition map_ranges :: "pass \<Rightarrow> (string \<times> pos) set" where
  "map_ranges pass = (if in_scope ordered pass then
    \<Union>n \<in> set (psNodes pass). {(ruleNoMapRangeOrdered, p) | p. \<exists>x. n = NRange p x \<and> exType x = Some UMap} else {})"

definition sync_maps :: "pass \<Rightarrow> (string \<times> pos) set" where
  "sync_maps pass = (\<Union>n \<in> set (psNodes pass). {(ruleNoSyncMap, exPos e) | e. n = NExpr e \<and> selects ''sync'' e = Some ''Map''})"

definition formatting :: "pass \<Rightarrow> (string \<times> pos) set" where
  "formatting pass = (if in_scope hot pass then
    \<Union>n \<in> set (psNodes pass). {(ruleNoFmtSprintHotPath, p) | p. banned_call ''fmt'' bannedFmtFuncs n = Some p} else {})"

definition empty_interfaces :: "pass \<Rightarrow> (string \<times> pos) set" where
  "empty_interfaces pass = (if in_scope hot pass then
    \<Union>n \<in> set (psNodes pass). {(ruleNoAnyHotPath, exPos e) | e. flagged n e \<and> exType e = Some (UInterface 0)} else {})"

definition banned_imports :: "(string \<Rightarrow> string option) \<Rightarrow> pass \<Rightarrow> string \<Rightarrow> string \<Rightarrow> (string \<times> pos) set" where
  "banned_imports unq pass rule path = (\<Union>f \<in> set (psFiles pass). \<Union>imp \<in> set (afImports f).
     {(rule, imPos imp) | r. r = rule \<and> Unquote unq (imPath imp) = Some path})"

lemma banned_call_iff:
  "banned_call path names n = Some p \<longleftrightarrow>
     (\<exists>t p' t' p'' t'' name args. n = NExpr (CallExpr p t (SelectorExpr p' t' (Ident p'' t'' (Some path)) name) args) \<and> name \<in> set names)"
  by (auto simp: banned_call_def selects_def split: node.splits expr.splits option.splits if_splits)

lemma selects_iff: "selects path e = Some name \<longleftrightarrow> (\<exists>p t p' t'. e = SelectorExpr p t (Ident p' t' (Some path)) name)"
  by (auto simp: selects_def split: expr.splits if_splits)

lemma banned_call_position: "banned_call path names n = Some p \<Longrightarrow> p \<in> node_positions n"
  unfolding banned_call_iff by auto

lemma runNoTimeNow_all:
  assumes "located pass"
  shows "\<exists>ds. runNoTimeNow Allowlist pass = Some ds \<and> set ds = clock_reads pass"
  unfolding runNoTimeNow_def clock_reads_def
proof (rule collect_total)
  fix n assume n: "n \<in> set (psNodes pass)"
  show "\<exists>ds. (case banned_call ''time'' bannedTimeFuncs n of None \<Rightarrow> Some []
       | Some p \<Rightarrow> (let file = file_at pass p in if file \<noteq> None \<and> isRealClockFile pass (the file) then Some []
            else report Allowlist pass file p ruleNoTimeNow)) = Some ds
      \<and> set ds = {(ruleNoTimeNow, p) | p. banned_call ''time'' bannedTimeFuncs n = Some p
          \<and> \<not> HasSuffix (pnFilename (psPosition pass p)) ''internal/clock/realclock.go''}"
  proof (cases "banned_call ''time'' bannedTimeFuncs n")
    case (Some p)
    then have "p \<in> node_positions n" by (rule banned_call_position)
    then obtain f where f: "file_at pass p = Some f" using located_nodes [OF n assms] unfolding placed_def by blast
    have "report Allowlist pass (Some f) p ruleNoTimeNow = Some [(ruleNoTimeNow, p)]" by (rule report_all) simp
    then show ?thesis using Some f file_at_Some [OF f] by (simp add: isRealClockFile_def)
  qed simp
qed

lemma report_placed: "placed pass p \<Longrightarrow> report Allowlist pass (file_at pass p) p rule = Some [(rule, p)]"
  unfolding placed_def by (elim exE) (simp add: report_all)

lemma flag_all:
  assumes "\<forall>e \<in> set es. placed pass (exPos e)"
  shows "\<exists>ds. collect (flagIfEmptyInterface Allowlist pass) es = Some ds
    \<and> set ds = (\<Union>e \<in> set es. {(ruleNoAnyHotPath, exPos e') | e'. e' = e \<and> exType e = Some (UInterface 0)})"
  by (rule collect_total) (use assms in \<open>simp add: flagIfEmptyInterface_def report_placed\<close>)

lemma check_any_all:
  assumes "\<forall>p \<in> node_positions n. placed pass p"
  shows "\<exists>ds. check_any Allowlist pass n = Some ds
    \<and> set ds = {(ruleNoAnyHotPath, exPos e) | e. flagged n e \<and> exType e = Some (UInterface 0)}"
proof -
  let ?S = "{(ruleNoAnyHotPath, exPos e) | e. flagged n e \<and> exType e = Some (UInterface 0)}"
  define es where "es = (case n of NFuncDecl ft \<Rightarrow> ftParams ft @ (case ftResults ft of None \<Rightarrow> [] | Some rs \<Rightarrow> rs)
    | NFuncLit ft \<Rightarrow> ftParams ft @ (case ftResults ft of None \<Rightarrow> [] | Some rs \<Rightarrow> rs)
    | NExpr (TypeAssertExpr p t x (Some ty)) \<Rightarrow> [x]
    | NTypeSwitch g \<Rightarrow> (case guard_expr g of Some (TypeAssertExpr p t x ty) \<Rightarrow> [x] | _ \<Rightarrow> [])
    | _ \<Rightarrow> [])"
  have fl: "flagged n e \<longleftrightarrow> e \<in> set es" for e
  proof (cases n)
    case (NExpr x)
    then show ?thesis by (auto simp: flagged_simps es_def split: expr.splits option.splits)
  next
    case (NTypeSwitch g)
    then show ?thesis
      by (cases g) (auto simp: flagged_simps es_def guard_expr_def length_Suc_conv split: expr.splits option.splits)
  qed (auto simp: flagged_simps es_def split: option.splits)
  then have pl: "\<forall>e \<in> set es. placed pass (exPos e)" using flagged_position assms by blast
  have one: "flagIfEmptyInterface Allowlist pass e = collect (flagIfEmptyInterface Allowlist pass) [e]" if "e \<in> set es" for e
    using that pl by (simp add: flagIfEmptyInterface_def report_placed)
  have "check_any Allowlist pass n = collect (flagIfEmptyInterface Allowlist pass) es"
    using one by (auto simp: check_any_def checkFuncType_def es_def split: node.splits expr.splits option.splits)
  then show ?thesis using flag_all [OF pl] fl by auto
qed

lemma runNoFmt_all:
  assumes "located pass"
  shows "\<exists>ds. runNoFmtSprintHotPath Allowlist pass = Some ds \<and> set ds = formatting pass"
proof (cases "in_scope hot pass")
  case True
  have "\<exists>ds. collect (\<lambda>n. case banned_call ''fmt'' bannedFmtFuncs n of None \<Rightarrow> Some []
           | Some p \<Rightarrow> report Allowlist pass (file_at pass p) p ruleNoFmtSprintHotPath) (psNodes pass) = Some ds
      \<and> set ds = (\<Union>n \<in> set (psNodes pass). {(ruleNoFmtSprintHotPath, p) | p. banned_call ''fmt'' bannedFmtFuncs n = Some p})"
    by (rule collect_total, drule located_nodes [OF _ assms]) (auto simp: report_placed dest: banned_call_position split: option.split)
  then show ?thesis unfolding runNoFmtSprintHotPath_def formatting_def hotPath_scope by (simp only: True not_True_eq_False if_False if_True)
qed (simp add: runNoFmtSprintHotPath_def formatting_def hotPath_scope)

lemma runNoMapRange_all:
  assumes "located pass"
  shows "\<exists>ds. runNoMapRangeOrdered Allowlist pass = Some ds \<and> set ds = map_ranges pass"
proof (cases "in_scope ordered pass")
  case True
  have "\<exists>ds. collect (\<lambda>n. case n of NRange p x \<Rightarrow>
           if exType x = Some UMap then report Allowlist pass (file_at pass p) p ruleNoMapRangeOrdered else Some []
         | _ \<Rightarrow> Some []) (psNodes pass) = Some ds
      \<and> set ds = (\<Union>n \<in> set (psNodes pass). {(ruleNoMapRangeOrdered, p) | p. \<exists>x. n = NRange p x \<and> exType x = Some UMap})"
    by (rule collect_total, drule located_nodes [OF _ assms]) (auto simp: report_placed split: node.split)
  then show ?thesis unfolding runNoMapRangeOrdered_def map_ranges_def hotPath_scope by (simp only: True not_True_eq_False if_False if_True)
qed (simp add: runNoMapRangeOrdered_def map_ranges_def hotPath_scope)

lemma runNoMultiSelect_all:
  assumes "located pass"
  shows "\<exists>ds. runNoMultiSelect Allowlist pass = Some ds \<and> set ds = wide_selects pass"
proof (cases "in_scope hot pass")
  case True
  have "\<exists>ds. collect (\<lambda>n. case n of NSelect p clauses \<Rightarrow>
           if length (filter id clauses) \<le> 1 then Some [] else report Allowlist pass (file_at pass p) p ruleNoMultiSelect
         | _ \<Rightarrow> Some []) (psNodes pass) = Some ds
      \<and> set ds = (\<Union>n \<in> set (psNodes pass). {(ruleNoMultiSelect, p) | p. \<exists>clauses. n = NSelect p clauses \<and> 2 \<le> length (filter id clauses)})"
    by (rule collect_total, drule located_nodes [OF _ assms]) (auto simp: report_placed split: node.split)
  then show ?thesis unfolding runNoMultiSelect_def wide_selects_def hotPath_scope by (simp only: True not_True_eq_False if_False if_True)
qed (simp add: runNoMultiSelect_def wide_selects_def hotPath_scope)

lemma runNoSyncMap_all:
  assumes "located pass"
  shows "\<exists>ds. runNoSyncMap Allowlist pass = Some ds
    \<and> set ds = sync_maps pass"
  unfolding runNoSyncMap_def sync_maps_def by (rule collect_total, drule located_nodes [OF _ assms]) (auto simp: report_placed split: node.split)

lemma runNoAny_all:
  assumes "located pass"
  shows "\<exists>ds. runNoAnyHotPath Allowlist pass = Some ds \<and> set ds = empty_interfaces pass"
proof (cases "in_scope hot pass")
  case True
  from collect_total [where xs = "psNodes pass", OF check_any_all [OF located_nodes [OF _ assms]]] show ?thesis
    unfolding runNoAnyHotPath_def empty_interfaces_def hotPath_scope by (simp only: True not_True_eq_False if_False if_True)
qed (simp add: runNoAnyHotPath_def empty_interfaces_def hotPath_scope)

lemma banned_imports_all:
  "\<exists>ds. newBannedImportAnalyzer unq rule path Allowlist pass = Some ds \<and> set ds = banned_imports unq pass rule path"
proof -
  have "\<exists>ds. collect (\<lambda>imp. if Unquote unq (imPath imp) \<noteq> Some path then Some []
         else report Allowlist pass (Some f) (imPos imp) rule) (afImports f) = Some ds
      \<and> set ds = (\<Union>imp \<in> set (afImports f). {(rule, imPos imp) | r. r = rule \<and> Unquote unq (imPath imp) = Some path})" for f
    by (rule collect_total) (simp add: report_all)
  from collect_total [OF this] show ?thesis unfolding newBannedImportAnalyzer_def banned_imports_def .
qed

definition reported :: "(string \<Rightarrow> string option) \<Rightarrow> pass \<Rightarrow> (string \<times> pos) set" where
  "reported unq pass = clock_reads pass \<union> wide_selects pass \<union> map_ranges pass \<union> sync_maps pass \<union> formatting pass \<union> empty_interfaces pass
      \<union> banned_imports unq pass ruleNoContainerHeap ''container/heap'' \<union> banned_imports unq pass ruleNoRandV1 ''math/rand''
      \<union> banned_imports unq pass ruleNoHashMaphash ''hash/maphash''"

lemma lint_all:
  assumes "located pass"
  shows "\<exists>ds. lint unq pass = Some ds \<and> set ds = reported unq pass"
proof -
  obtain d1 where d1: "runNoTimeNow Allowlist pass = Some d1" "set d1 = clock_reads pass" using runNoTimeNow_all [OF assms] by blast
  obtain d2 where d2: "runNoMultiSelect Allowlist pass = Some d2" "set d2 = wide_selects pass" using runNoMultiSelect_all [OF assms] by blast
  obtain d3 where d3: "runNoMapRangeOrdered Allowlist pass = Some d3" "set d3 = map_ranges pass" using runNoMapRange_all [OF assms] by blast
  obtain d4 where d4: "runNoSyncMap Allowlist pass = Some d4" "set d4 = sync_maps pass" using runNoSyncMap_all [OF assms] by blast
  obtain d5 where d5: "runNoFmtSprintHotPath Allowlist pass = Some d5" "set d5 = formatting pass" using runNoFmt_all [OF assms] by blast
  obtain d6 where d6: "runNoAnyHotPath Allowlist pass = Some d6" "set d6 = empty_interfaces pass" using runNoAny_all [OF assms] by blast
  obtain D where D: "\<And>rule path. newBannedImportAnalyzer unq rule path Allowlist pass = Some (D rule path)"
      "\<And>rule path. set (D rule path) = banned_imports unq pass rule path"
    using banned_imports_all [of unq _ _ pass] by metis
  show ?thesis
    unfolding lint_def allAnalyzers_def
    by (simp only: collect.simps d1(1) d2(1) d3(1) d4(1) d5(1) d6(1) D(1) option.case option.map)
      (auto simp: reported_def d1(2) d2(2) d3(2) d4(2) d5(2) d6(2) D(2))
qed

lemmas reports_import = violates.imports_banned [folded rule_names]
lemmas reports_clock = violates.reads_clock [folded rule_names banned_names]
lemmas reports_format = violates.formats [folded rule_names banned_names]
lemmas reports_range = violates.ranges [folded rule_names]
lemmas reports_select = violates.selects_many [folded rule_names]
lemmas reports_sync = violates.sync_map [folded rule_names]
lemmas reports_any = violates.empty_interface [folded rule_names]
lemmas violation_cases = violates.induct [folded rule_names banned_names, consumes 1,
  case_names imports_banned reads_clock formats ranges selects_many sync_map empty_interface]

lemma reported_sound: "(rule, p) \<in> reported unq pass \<Longrightarrow> violates unq pass rule p"
proof -
  assume "(rule, p) \<in> reported unq pass"
  then consider "(rule, p) \<in> clock_reads pass" | "(rule, p) \<in> wide_selects pass" | "(rule, p) \<in> map_ranges pass"
    | "(rule, p) \<in> sync_maps pass" | "(rule, p) \<in> formatting pass" | "(rule, p) \<in> empty_interfaces pass"
    | rule' path where "(rule', path) \<in> {(ruleNoContainerHeap, ''container/heap''), (ruleNoRandV1, ''math/rand''), (ruleNoHashMaphash, ''hash/maphash'')}"
        "(rule, p) \<in> banned_imports unq pass rule' path"
    unfolding reported_def Un_iff by blast
  then show ?thesis
  proof cases
    case 1
    then show ?thesis by (auto simp: clock_reads_def banned_call_iff intro: reports_clock)
  next
    case 2
    then show ?thesis by (auto simp: wide_selects_def intro: reports_select split: if_splits)
  next
    case 3
    then show ?thesis by (auto simp: map_ranges_def intro: reports_range split: if_splits)
  next
    case 4
    then show ?thesis by (auto simp: sync_maps_def selects_iff intro: reports_sync)
  next
    case 5
    then show ?thesis by (auto simp: formatting_def banned_call_iff intro: reports_format split: if_splits)
  next
    case 6
    then show ?thesis by (auto simp: empty_interfaces_def intro: reports_any split: if_splits)
  next
    case 7
    from 7(2) obtain f imp where "rule = rule'" "p = imPos imp" "f \<in> set (psFiles pass)" "imp \<in> set (afImports f)"
      "Unquote unq (imPath imp) = Some path" unfolding banned_imports_def by blast
    with reports_import [OF 7(1)] show ?thesis by blast
  qed
qed

lemma reported_complete: "violates unq pass rule p \<Longrightarrow> (rule, p) \<in> reported unq pass"
proof (induction rule: violation_cases)
  case (imports_banned rule path f imp)
  then have "(rule, imPos imp) \<in> banned_imports unq pass rule path" unfolding banned_imports_def by blast
  then show ?case using imports_banned(1) unfolding reported_def by blast
next
  case (reads_clock p t p' t' p'' t'' name args)
  then have "banned_call ''time'' bannedTimeFuncs (NExpr (CallExpr p t (SelectorExpr p' t' (Ident p'' t'' (Some ''time'')) name) args)) = Some p"
    unfolding banned_call_iff by blast
  then have "(ruleNoTimeNow, p) \<in> clock_reads pass"
    using reads_clock(3) unfolding clock_reads_def by (intro UN_I [OF reads_clock(1)] CollectI exI [of _ p] conjI) (simp_all only: not_False_eq_True)
  then show ?case unfolding reported_def by blast
next
  case (formats p t p' t' p'' t'' name args)
  then have "banned_call ''fmt'' bannedFmtFuncs (NExpr (CallExpr p t (SelectorExpr p' t' (Ident p'' t'' (Some ''fmt'')) name) args)) = Some p"
    unfolding banned_call_iff by blast
  then have "(ruleNoFmtSprintHotPath, p) \<in> formatting pass"
    unfolding formatting_def if_P [OF formats(3)] by (intro UN_I [OF formats(1)]) simp
  then show ?case unfolding reported_def by blast
next
  case (ranges p x)
  then have "(ruleNoMapRangeOrdered, p) \<in> map_ranges pass" unfolding map_ranges_def by auto
  then show ?case unfolding reported_def by blast
next
  case (selects_many p clauses)
  then have "(ruleNoMultiSelect, p) \<in> wide_selects pass" unfolding wide_selects_def by auto
  then show ?case unfolding reported_def by blast
next
  case (sync_map p t p' t')
  then have "(ruleNoSyncMap, p) \<in> sync_maps pass" unfolding sync_maps_def selects_iff by force
  then show ?case unfolding reported_def by blast
next
  case (empty_interface n e)
  then have "(ruleNoAnyHotPath, exPos e) \<in> empty_interfaces pass" unfolding empty_interfaces_def by auto
  then show ?case unfolding reported_def by blast
qed

text \<open>C40: The rules report every violation and nothing else. Over a package whose syntax lies in its files, that
  is where every node's position is named as one of them, the nine rules never fail, and together they report exactly the imports, calls, ranges, selects, types
  and assertions that are forbidden where they stand, each at its position: the list of exceptions is
  empty, so no comment suppresses anything.\<close>

theorem lint_exact:
  assumes "located pass"
  shows "\<exists>ds. lint unq pass = Some ds \<and> (\<forall>rule p. (rule, p) \<in> set ds \<longleftrightarrow> violates unq pass rule p)"
proof -
  obtain ds where "lint unq pass = Some ds" "set ds = reported unq pass" using lint_all [OF assms] by blast
  moreover have "(rule, p) \<in> reported unq pass \<longleftrightarrow> violates unq pass rule p" for rule p
    using reported_sound reported_complete by (rule iffI)
  ultimately show ?thesis by simp
qed

section \<open>A package\<close>

definition merge_file :: astFile where
  "merge_file = \<lparr>afPos = 1, afImports = [\<lparr>imPos = 2, imPath = [CHR 0x22] @ ''math/rand'' @ [CHR 0x22]\<rparr>], afComments = []\<rparr>"

text \<open>The positions from 1 to 99 are the file's; no position, 0, has no name and the others are another package's.\<close>

definition merge_position :: "pos \<Rightarrow> position" where
  "merge_position p = (if p = 0 then \<lparr>pnFilename = [], pnLine = 0\<rparr>
     else if p < 100 then \<lparr>pnFilename = ''internal/merge/merge.go'', pnLine = p\<rparr>
     else \<lparr>pnFilename = ''book.go'', pnLine = p - 99\<rparr>)"

definition time_Now :: expr where
  "time_Now = CallExpr 5 (Some UOther) (SelectorExpr 5 (Some UOther) (Ident 5 None (Some ''time'')) ''Now'') []"

definition merge_pass :: pass where
  "merge_pass = \<lparr>psPath = ''replay/internal/merge'', psFiles = [merge_file],
     psNodes = [NSelect 3 [True, True], NSelect 4 [True, False], NExpr time_Now], psPosition = merge_position\<rparr>"

lemma select_name:
  "''no-multi-select'' \<noteq> ''no-time-now''" "''no-multi-select'' \<noteq> ''no-fmt-sprint-hot-path''" "''no-multi-select'' \<noteq> ''no-map-range-ordered''"
  "''no-multi-select'' \<noteq> ''no-sync-map''" "''no-multi-select'' \<noteq> ''no-any-hot-path''" "''no-multi-select'' \<noteq> ''no-container-heap''"
  "''no-multi-select'' \<noteq> ''no-rand-v1''" "''no-multi-select'' \<noteq> ''no-hash-maphash''"
  by code_simp+

lemma violates_select:
  "violates unq pass rule p \<Longrightarrow> rule = ''no-multi-select'' \<Longrightarrow>
     \<exists>clauses. NSelect p clauses \<in> set (psNodes pass) \<and> 2 \<le> length (filter id clauses)"
proof (induction rule: violates.induct)
  case (imports_banned rule path f imp)
  then show ?case using select_name unfolding insert_iff empty_iff prod.inject by metis
next
  case (selects_many p clauses)
  then show ?case by blast
qed (use select_name in metis)+

theorem lint_exact_witness:
  "\<exists>ds. lint (\<lambda>_. None) merge_pass = Some ds \<and> (''no-multi-select'', 3) \<in> set ds \<and> (''no-rand-v1'', 2) \<in> set ds
     \<and> (''no-time-now'', 5) \<in> set ds \<and> (''no-multi-select'', 4) \<notin> set ds"
proof -
  have l: "located merge_pass"
    by (simp add: located_def merge_pass_def merge_file_def merge_position_def time_Now_def)
  have "hotPath (psPath merge_pass)" by (simp add: merge_pass_def hotPath_def inPathSegment_def HasSuffix_def)
  then have s: "in_scope hot merge_pass" by (simp only: hotPath_scope)
  have "violates (\<lambda>_. None) merge_pass ''no-multi-select'' 3"
    by (rule violates.selects_many [where clauses = "[True, True]", OF _ _ s]) (simp_all add: merge_pass_def)
  moreover have "violates (\<lambda>_. None) merge_pass ''no-rand-v1'' 2"
  proof -
    have "violates (\<lambda>_. None) merge_pass ''no-rand-v1'' (imPos (hd (afImports merge_file)))"
      by (rule violates.imports_banned [where path = "''math/rand''" and f = merge_file])
        (simp_all add: merge_pass_def merge_file_def Unquote_def)
    then show ?thesis by (simp add: merge_file_def)
  qed
  moreover have "violates (\<lambda>_. None) merge_pass ''no-time-now'' 5"
  proof (rule violates.reads_clock)
    show "NExpr (CallExpr 5 (Some UOther) (SelectorExpr 5 (Some UOther) (Ident 5 None (Some ''time'')) ''Now'') []) \<in> set (psNodes merge_pass)"
      by (simp add: merge_pass_def time_Now_def)
    show "\<not> HasSuffix (pnFilename (psPosition merge_pass 5)) ''internal/clock/realclock.go''"
      by (simp add: merge_pass_def merge_position_def HasSuffix_def)
  qed simp
  moreover have "\<not> violates (\<lambda>_. None) merge_pass ''no-multi-select'' 4"
  proof
    assume "violates (\<lambda>_. None) merge_pass ''no-multi-select'' 4"
    then have "\<exists>clauses. NSelect 4 clauses \<in> set (psNodes merge_pass) \<and> 2 \<le> length (filter id clauses)"
      by (rule violates_select) (rule refl)
    then show False by (simp add: merge_pass_def time_Now_def)
  qed
  ultimately show ?thesis using lint_exact [OF l, of "\<lambda>_. None"] by auto
qed

section \<open>Suppression\<close>

text \<open>A comment in the documented form names its rule.\<close>

definition ignore_comment :: "string \<Rightarrow> string \<Rightarrow> string" where
  "ignore_comment rule reason = ''//lint-determinism:ignore '' @ rule @ '' reason='' @ [CHR 0x22] @ reason @ [CHR 0x22]"

lemma comment_rule_ignore:
  assumes "rule \<noteq> []" "list_all (\<lambda>c. \<not> blank c) rule" "CHR 0x22 \<notin> set reason"
  shows "comment_rule (ignore_comment rule reason) = Some rule"
proof -
  have t: "takeWhile (\<lambda>c. \<not> blank c) (rule @ CHR '' '' # s) = rule" "dropWhile (\<lambda>c. \<not> blank c) (rule @ CHR '' '' # s) = CHR '' '' # s" for s
    using assms(2) by (simp_all add: list_all_iff blank_def)
  have r: "dropWhile (\<lambda>c. c \<noteq> CHR 0x22) (reason @ [CHR 0x22]) = [CHR 0x22]"
    using assms(3) by (induction reason) auto
  have b: "\<not> blank (hd rule)" "rule = hd rule # tl rule" using assms(1,2) by (cases rule; simp)+
  have d: "dropWhile blank (rule @ s) = rule @ s" for s using b by (metis append_Cons dropWhile.simps(2))
  have a: "after p (p @ s) = Some s" for p s by (simp add: after_def HasPrefix_def)
  have x: "ignore_comment rule reason = ''//'' @ ''lint-determinism:ignore'' @ CHR '' '' # rule @ CHR '' '' # (''reason='' @ [CHR 0x22]) @ reason @ [CHR 0x22]"
    by (simp add: ignore_comment_def)
  have s: "dropWhile blank (''lint-determinism:ignore'' @ s) = ''lint-determinism:ignore'' @ s"
    "dropWhile blank ((''reason='' @ [CHR 0x22]) @ s) = (''reason='' @ [CHR 0x22]) @ s" for s by (simp_all add: blank_def)
  have ab: "after_blanks (CHR '' '' # s) = Some (dropWhile blank s)" for s by (simp add: after_blanks_def blank_def)
  show ?thesis
    unfolding comment_rule_def x Let_def
    by (simp only: a s ab t d r option.case) (use a [of "[CHR 0x22]" "[]"] assms(1) in simp)
qed

text \<open>
  Only the last comment of the two lines counts: a suppression above a line is lost when the line itself
  carries one for another rule, whatever the list of exceptions holds.
\<close>

lemma suppression_lost:
  assumes "concat (afComments f) = cs @ [c]" "comment_rule (cmText c) = Some rule'" "rule' \<noteq> rule"
    and "pnLine (psPosition pass (cmPos c)) = pnLine (psPosition pass p)"
  shows "isSuppressed allowlist pass (Some f) p rule = Some False"
  using assms(2-4) by (simp add: isSuppressed_def commentRule_def Let_def assms(1))

text \<open>A position whose file name is not that of a file, as a \<^verbatim>\<open>//line\<close> directive makes it, is a nil dereference.\<close>

lemma report_nil: "file_at pass p = None \<Longrightarrow> report allowlist pass (file_at pass p) p rule = None"
  unfolding report_def isSuppressed_def by simp

end
