(* ===== verification/Spec2Isabelle.thy ===== *)
theory Spec2Isabelle
  imports Store_Canonical Merge_Merger Merge_Feed Book_WarmUp Fanout_Pacer Fanout_Finish Convert_Sample
    Bench_Sample Catalogue_Correct Synth Alloc_Gate Lint_Correct
begin

text \<open>
  A verification development for the market replay engine: the binary store of market data and the
  converter that fills it, the k-way merge of the venues, the order books, the fan-out of the merged stream
  to subscribers, the server in front of it, its load harness, the catalogue of its runs and its test tools.

  \<^bold>\<open>The program.\<close> The converter reads rows of a source file and writes one file per venue and day. A file
  of the store holds the records of one venue, 64 bytes each, in key order, with
  a header of 128 bytes, the payloads of the snapshots, two indexes and a footer of block checksums.
  A cursor reads the files of a venue one after the other; a loser tree over the cursors, with the
  decoding in the calling goroutine or in a pool, gives the merged stream. The emit loop writes that
  stream, paced by a clock, into a ring of slots that any number of subscribers read without locks. A Block
  subscriber holds the writer back, a Drop subscriber is told what it missed. The server opens the files,
  starts the run with the first subscription, sends every subscriber its deliveries and leaves a manifest
  of the run; the catalogue stores manifests and benchmark results.

  \<^bold>\<open>Conventions.\<close> Go integers are words of their width (\<open>u64\<close>, \<open>i64\<close>, \dots in \<open>Prelude\<close>; signed
  comparison is by \<open>sint\<close>), \<^verbatim>\<open>int\<close> values are HOL integers with \<open>wrap64\<close> where they could wrap.
  Errors are values: a datatype per package, \<open>Panic\<close> for an index out of range or an explicit panic,
  and a sum whose left side is the error. Loops are structural recursion on the number of rounds
  left, a \<open>function\<close> with a measure, or, for goroutines, a step relation.

  \<^bold>\<open>Theories and sources\<close> (under \<^verbatim>\<open>src/internal\<close>).
  \<^item> \<open>Store_Format\<close>, \<open>Store_Header\<close>, \<open>Store_Index\<close>, \<open>Store_Footer\<close>, \<open>Crc32c\<close>: \<^verbatim>\<open>store/format.go\<close>,
    \<^verbatim>\<open>header.go\<close>, \<^verbatim>\<open>index.go\<close>, \<^verbatim>\<open>footer.go\<close>, \<^verbatim>\<open>crc.go\<close>: the byte layouts; encoders and decoders are
    inverse to each other, the overflow-safe checks are those of the natural numbers.
  \<^item> \<open>Store_Reader\<close>, \<open>Store_Image\<close>: \<^verbatim>\<open>store/reader.go\<close>, over a mapping of the file that the operating
    system gives (a parameter); opening never panics, seeking finds the first record, verification is
    exact. \<open>Store_Image\<close> is the specification of a complete file.
  \<^item> \<open>Bufio\<close>, \<open>Store_Writer\<close> and its \<open>_Blocks\<close>, \<open>_Inv\<close>, \<open>_Close\<close>, \<open>_Correct\<close>: \<^verbatim>\<open>store/writer.go\<close> over
    files whose every system call may fail after any number of bytes; the writer refines a list of
    events, and a file is unreadable or complete wherever the process stops.
  \<^item> \<open>Sha256\<close>, \<open>Store_Canonical\<close>: \<^verbatim>\<open>store/canonical.go\<close>, the canonical form of a stream and its digest.
  \<^item> \<open>Merge_Key\<close>, \<open>Merge_LoserTree\<close>, \<open>Merge_Cursor\<close>, \<open>Merge_Batch\<close>, \<open>Merge_Feed\<close>, \<open>Merge_Merger\<close>:
    \<^verbatim>\<open>merge/key.go\<close>, \<^verbatim>\<open>losertree.go\<close>, \<^verbatim>\<open>cursor.go\<close>, \<^verbatim>\<open>reader.go\<close> (batches as functions, the owner and the
    workers as a step relation), \<^verbatim>\<open>merge.go\<close>. The locale \<open>event_source\<close> is the contract of a stream of
    events; cursors, feeds and mergers are its interpretations.
  \<^item> \<open>Book\<close>, \<open>Book_WarmUp\<close>: \<^verbatim>\<open>book/level.go\<close>, \<^verbatim>\<open>book.go\<close>, \<^verbatim>\<open>warmup.go\<close>; a book is two maps from price to
    size.
  \<^item> \<open>Fanout_Speed\<close>: \<^verbatim>\<open>fanout/speed.go\<close>. \<open>Fanout_Ring\<close>: the shared memory of \<^verbatim>\<open>fanout/ring.go\<close>, every
    write and read one atomic operation at a time. \<open>Fanout_Subscriber\<close>: \<^verbatim>\<open>subscriber.go\<close>, \<^verbatim>\<open>gap.go\<close>,
    \<^verbatim>\<open>lifecycle.go\<close>. \<open>Fanout_Emit\<close>: \<^verbatim>\<open>fanout.go\<close>, \<^verbatim>\<open>barrier.go\<close> and \<^verbatim>\<open>Write\<close> as one goroutine, and the
    step relation \<open>fan_step\<close> of the whole. \<open>Fanout_Delivery\<close>, \<open>Fanout_System\<close>, \<open>Fanout_Loop\<close>: the
    invariant and its preservation, in the locale \<open>fan_source\<close>; \<open>Fanout_Run\<close> interprets it on the
    merger and states the guarantees; \<open>Fanout_Finish\<close> has termination, in every interleaving without a Block
    subscriber, and sample runs; \<open>Fanout_Release\<close> bounds a call of \<^verbatim>\<open>Next\<close> on a ring that has its end.
  \<^item> \<open>Clock_Sim\<close>: \<^verbatim>\<open>clock/simclock.go\<close>, a clock that moves only when told; its sorted slice of timers
    refines a set. \<open>Fanout_Pacer\<close>: \<^verbatim>\<open>fanout/pacer.go\<close>, when a record is released.

  \<^bold>\<open>Theories and sources\<close> (commands and tools).
  \<^item> \<open>Convert_Row\<close>, \<open>Convert_Schema\<close>, \<open>Convert_Venue\<close>, \<open>Convert_Run\<close>, with \<open>_Clean\<close>,
    \<open>_Sidecar\<close>, \<open>_Whole\<close> and \<open>_Sample\<close> for their proofs: \<^verbatim>\<open>src/cmd/convert\<close>, from the rows that the Parquet reader hands out to the
    files on disk. \<open>Convert_Path\<close>: the names of the files, which tell the partitions apart.
  \<^item> \<open>Venue_Files\<close>: the locale \<open>venue_files\<close>, what a sort of files by venue and a first key promises to the
    cursors built from it. \<open>Server_Open\<close> (\<^verbatim>\<open>openCursors\<close> of \<^verbatim>\<open>src/cmd/replayd/server.go\<close>) and \<open>Bench_Open\<close>
    (\<^verbatim>\<open>openPartitions\<close> of \<^verbatim>\<open>src/bench/harness.go\<close>) interpret it on their two orders.
  \<^item> \<open>Archive_Files\<close>, \<open>Archive_Replay\<close>, \<open>Archive_Sample\<close>: converter, store, server and merge composed:
    what is converted is what is replayed.
  \<^item> \<open>Server_Wire\<close>, \<open>Server_Send\<close>, \<open>Server_Sample\<close>: requests, responses and the send loop of a subscriber in
    \<^verbatim>\<open>server.go\<close>; the client can rebuild the records and their digest.
  \<^item> \<open>Server_Manifest\<close>: \<^verbatim>\<open>src/cmd/replayd/manifest.go\<close>. \<open>Server_Session\<close>: the methods of \<^verbatim>\<open>Server\<close> and the
    step relation \<open>server_step\<close> of handlers, emit goroutine and subscribers; \<open>Server_Ends\<close> has its
    invariants, \<open>Server_Example\<close> a run. A handler that is past \<^verbatim>\<open>attach\<close> raises the gauge, counts itself, lowers
    the gauge and unsubscribes in four steps.
  \<^item> \<open>Bench_Run\<close>, \<open>Bench_Sample\<close>: \<^verbatim>\<open>Run\<close> and \<^verbatim>\<open>drain\<close> of the harness over the same emit loop, with the step
    relation \<open>bench_step\<close>.
  \<^item> \<open>Catalogue\<close>, \<open>Catalogue_Correct\<close>: \<^verbatim>\<open>src/cmd/catalogue/bench.go\<close> and \<^verbatim>\<open>manifest.go\<close>; which output lines are
    measurements and what is wrong with one, and what a table holds after an ingestion.
  \<^item> \<open>Synth\<close>: \<^verbatim>\<open>src/internal/synth/synth.go\<close>, the dataset the tests replay, over any random draws.
    \<open>Alloc_Gate\<close>: \<^verbatim>\<open>src/internal/allocgate/allocgate.go\<close>, over the counters of the runtime.
  \<^item> \<open>Lint\<close>, \<open>Lint_Correct\<close>: the rules of \<^verbatim>\<open>src/cmd/lint-determinism\<close> over the nodes and types they look at;
    the scope of a rule in terms of path segments, and the set of violations it reports.

  \<^bold>\<open>Concurrency.\<close> Operations of \<^verbatim>\<open>sync/atomic\<close> are sequentially consistent, as its documentation says,
  so a run is an interleaving of single loads and stores. A critical section, and the application of
  the queued requests by the emit goroutine, which alone owns what they change, is one step. A
  subscriber's record carries two fields for the specification only, where it started and what it was
  given; the log of the system is one as well, and so are the accepted subscriptions of a server.

  \<^bold>\<open>Bounds and fuel.\<close> \<open>epoch_loop\<close> runs for at most one round per record before the target, \<open>all_batches\<close>
  asks for one batch more than there are records, \<open>emit_weight\<close> counts the steps the emit loop still
  has to make, \<open>next_bound\<close> the atomic operations of a call of \<^verbatim>\<open>Next\<close> after the end of a run: three
  reads of a slot with its payload, and five more. Emit indexes are proved exact for streams of fewer than \<open>2 ^ 63 - 1\<close> events and for
  subscribers that start below \<open>2 ^ 63\<close>.

  \<^bold>\<open>Parameters.\<close> The memory mapping, the file system and directory listings, the transport of gRPC, the
  Parquet reader and its schema, the JSON decoder, the inserts of the database, floating point numbers and
  text outside ASCII, the random generator, the counters of the Go runtime, and the parser, type checker
  and inspector of Go are arguments of the definitions that use them; what the wall clock shows is an input
  of each step.

  \<^bold>\<open>Not modelled.\<close> Flags, signals and listeners of the commands, which only pass values on; the registration
  of the metrics with Prometheus and the generated gRPC code; the wall clock and the Windows mapping, which
  wrap the runtime and the operating system; the encoding of a manifest as JSON and the schema in SQL.
\<close>

end
